(* ===== verification/Prelude.thy ===== *)
theory Prelude
  imports Main "HOL-Library.Word" "HOL-Library.Monad_Syntax"
begin

text \<open>
  What every component theory shares: the machine types of the kernel, little-endian encoding of
  integers, byte memory with wrap-around addresses, and facts about words that turn the 32-bit
  arithmetic of the code into arithmetic on \<open>nat\<close> when nothing overflows.

  A result of type \<open>'a option\<close> is \<open>None\<close> exactly where the C code would read or write outside the
  object it was given (undefined behaviour); a theorem that says \<open>\<exists>y. f x = Some y\<close> is therefore a
  memory-safety theorem.
\<close>

unbundle bit_operations_syntax

type_synonym u8 = "8 word"
type_synonym u16 = "16 word"
type_synonym u32 = "32 word"
type_synonym u64 = "64 word"

named_theorems byte_simps \<open>encoding and decoding of integers and records as bytes\<close>
named_theorems mem_simps \<open>reading memory after writing it\<close>

section \<open>Words as natural numbers\<close>

lemma unat_u8_less: "unat (x :: u8) < 256"
  using unsigned_less [of x, where ?'a = nat] by simp

lemma unat_u32_less: "unat (x :: u32) < 4294967296"
  using unsigned_less [of x, where ?'a = nat] by simp

lemma unat_add_u32: "unat a + unat b < 4294967296 \<Longrightarrow> unat (a + b :: u32) = unat a + unat b"
  using unat_add_lem [of a b] by simp

lemma unat_mult_u32: "unat a * unat b < 4294967296 \<Longrightarrow> unat (a * b :: u32) = unat a * unat b"
  using unat_mult_lem [of a b] by simp

lemma unat_sub_u32: "unat b \<le> unat a \<Longrightarrow> unat (a - b :: u32) = unat a - unat b"
  by (rule unat_sub) (simp add: word_le_nat_alt)

lemma unat_of_nat_u32: "n < 4294967296 \<Longrightarrow> unat (of_nat n :: u32) = n"
  by (simp add: unat_of_nat take_bit_nat_eq_self)

lemma of_nat_eq_u32: "n < 4294967296 \<Longrightarrow> m < 4294967296 \<Longrightarrow> (of_nat n :: u32) = of_nat m \<longleftrightarrow> n = m"
  by (metis unat_of_nat_u32)

lemma unat_plus_one_u32: "unat (a :: u32) < 4294967295 \<Longrightarrow> unat (a + 1) = Suc (unat a)"
  using unat_add_u32 [of a 1] by simp

lemma unat_minus_one_u32: "(a :: u32) \<noteq> 0 \<Longrightarrow> unat (a - 1) = unat a - 1"
  by (rule unat_minus_one)

lemma word_pos_iff_unat: "(0 < (w :: 'a :: len word)) = (0 < unat w)"
  by (simp add: word_less_nat_alt)

lemma uint_inject [simp]: "uint a = uint b \<longleftrightarrow> a = (b :: 'a :: len word)"
  by (simp add: word_uint_eq_iff)

lemma uint_zero_iff [simp]: "uint a = 0 \<longleftrightarrow> a = (0 :: 'a :: len word)" "0 = uint a \<longleftrightarrow> a = (0 :: 'a :: len word)"
  by (simp_all add: uint_0_iff eq_commute [of 0])

section \<open>Ceiling division\<close>

definition ceil_div :: "nat \<Rightarrow> nat \<Rightarrow> nat" where
  "ceil_div n d = (n + (d - 1)) div d"

lemma ceil_div_ge: "0 < d \<Longrightarrow> n \<le> ceil_div n d * d"
proof -
  assume d: "0 < d"
  have "(n + (d - 1)) mod d < d" using d by simp
  moreover have "n + (d - 1) = (n + (d - 1)) div d * d + (n + (d - 1)) mod d" by simp
  ultimately show ?thesis unfolding ceil_div_def by linarith
qed

lemma ceil_div_pos: "0 < d \<Longrightarrow> 0 < n \<Longrightarrow> 0 < ceil_div n d"
  using ceil_div_ge [of d n] by (cases "ceil_div n d") auto

lemma ceil_div_less: "0 < d \<Longrightarrow> 0 < n \<Longrightarrow> (ceil_div n d - 1) * d < n"
proof -
  assume d: "0 < d" and n: "0 < n"
  have "(n + (d - 1)) div d * d \<le> n + (d - 1)" by simp
  then have "ceil_div n d * d < n + d" using d n unfolding ceil_div_def by linarith
  then show ?thesis using d n by (simp add: diff_mult_distrib)
qed

section \<open>Little-endian encoding\<close>

text \<open>The low \<open>n\<close> bytes of a word, least significant first, and back.\<close>

fun word_le :: "nat \<Rightarrow> 'a :: len word \<Rightarrow> u8 list" where
  "word_le 0 v = []"
| "word_le (Suc n) v = ucast v # word_le n (drop_bit 8 v)"

fun le_word :: "u8 list \<Rightarrow> 'a :: len word" where
  "le_word [] = 0"
| "le_word (b # bs) = ucast b OR push_bit 8 (le_word bs)"

lemma length_word_le [simp]: "length (word_le n v) = n"
  by (induction n arbitrary: v) auto

lemma bit_le_word:
  "bit (le_word bs :: 'a :: len word) k \<longleftrightarrow>
     k < LENGTH('a) \<and> k < 8 * length bs \<and> bit (bs ! (k div 8)) (k mod 8)"
proof (induction bs arbitrary: k)
  case Nil
  then show ?case by simp
next
  case (Cons b bs)
  show ?case
  proof (cases "k < 8")
    case True
    then show ?thesis
      by (auto simp: bit_or_iff bit_word_ucast_iff bit_push_bit_iff dest: bit_imp_le_length)
  next
    case False
    then have "k div 8 = Suc ((k - 8) div 8)" and "k mod 8 = (k - 8) mod 8"
      by (simp_all add: le_div_geq le_mod_geq)
    with False show ?thesis
      by (auto simp: bit_or_iff bit_word_ucast_iff bit_push_bit_iff Cons.IH dest: bit_imp_le_length)
  qed
qed

lemma nth_word_le: "i < n \<Longrightarrow> word_le n v ! i = ucast (drop_bit (8 * i) v)"
proof (induction n arbitrary: i v)
  case 0
  then show ?case by simp
next
  case (Suc n)
  then show ?case by (cases i) (simp_all add: drop_bit_drop_bit add.commute)
qed

lemma le_word_le_full: "8 * n = LENGTH('a) \<Longrightarrow> le_word (word_le n v) = (v :: 'a :: len word)"
proof (rule bit_word_eqI)
  fix k
  assume len: "8 * n = LENGTH('a)" and k: "k < LENGTH('a)"
  have "k mod 8 < LENGTH('a)" using k le_less_trans mod_less_eq_dividend by blast
  then show "bit (le_word (word_le n v) :: 'a word) k = bit v k"
    using len k by (simp add: bit_le_word nth_word_le bit_word_ucast_iff bit_drop_bit_eq)
qed

lemma word_le_le_word:
  assumes "8 * length bs \<le> LENGTH('a)"
  shows "word_le (length bs) (le_word bs :: 'a :: len word) = bs"
proof (rule nth_equalityI)
  show "length (word_le (length bs) (le_word bs :: 'a word)) = length bs" by simp
next
  fix i
  assume "i < length (word_le (length bs) (le_word bs :: 'a word))"
  then have i: "i < length bs" by simp
  show "word_le (length bs) (le_word bs :: 'a word) ! i = bs ! i"
  proof (rule bit_word_eqI)
    fix k
    assume k: "k < LENGTH(8)"
    then have "8 * i + k < 8 * length bs" using i by simp
    then show "bit (word_le (length bs) (le_word bs :: 'a word) ! i) k = bit (bs ! i) k"
      using i k assms
      by (simp add: nth_word_le bit_word_ucast_iff bit_drop_bit_eq bit_le_word add.commute)
  qed
qed

lemma le_word_le_u32 [byte_simps, simp]: "le_word (word_le 4 v) = (v :: u32)"
  by (rule le_word_le_full) simp

lemma le_word_le_u16 [byte_simps, simp]: "le_word (word_le 2 v) = (v :: u16)"
  by (rule le_word_le_full) simp

lemma word_le_4_u32 [byte_simps]: "length bs = 4 \<Longrightarrow> word_le 4 (le_word bs :: u32) = bs"
  using word_le_le_word [of bs, where 'a = 32] by simp

section \<open>Byte memory\<close>

text \<open>
  Physical memory of the 32-bit machine: every address holds a byte, and address arithmetic wraps.
\<close>

type_synonym memory = "u32 \<Rightarrow> u8"

definition mem_read :: "memory \<Rightarrow> u32 \<Rightarrow> nat \<Rightarrow> u8 list" where
  "mem_read m a n = map (\<lambda>i. m (a + of_nat i)) [0..<n]"

fun mem_write :: "memory \<Rightarrow> u32 \<Rightarrow> u8 list \<Rightarrow> memory" where
  "mem_write m a [] = m"
| "mem_write m a (b # bs) = mem_write (m(a := b)) (a + 1) bs"

text \<open>
  Whether address \<open>x\<close> lies in the \<open>n\<close> bytes from \<open>a\<close> on is one comparison of the distance
  \<open>x - a\<close>, also where the range wraps around the end of memory.
\<close>

definition in_range :: "u32 \<Rightarrow> nat \<Rightarrow> u32 \<Rightarrow> bool" where
  "in_range a n x \<longleftrightarrow> unat (x - a) < n"

lemma unat_minus_Suc: "x \<noteq> a \<Longrightarrow> unat (x - (a + 1) :: u32) = unat (x - a) - 1"
proof -
  assume "x \<noteq> a"
  then have "x - a \<noteq> 0" by simp
  then show ?thesis using unat_minus_one_u32 [of "x - a"] by (simp add: diff_diff_eq)
qed

lemma mem_write_apply [mem_simps]:
  "length bs \<le> 4294967296 \<Longrightarrow>
     mem_write m a bs x = (if in_range a (length bs) x then bs ! unat (x - a) else m x)"
proof (induction bs arbitrary: m a)
  case Nil
  then show ?case by (simp add: in_range_def)
next
  case (Cons b bs)
  then have len: "length bs < 4294967296" by simp
  show ?case
  proof (cases "x = a")
    case True
    have "a - (a + 1) = (4294967295 :: u32)" by simp
    then have "unat (a - (a + 1)) = 4294967295" by (simp only:) simp
    then have "\<not> in_range (a + 1) (length bs) a" using len by (simp add: in_range_def)
    then have "mem_write (m(a := b)) (a + 1) bs x = b"
      using len True by (subst Cons.IH) simp_all
    with True show ?thesis by (simp add: in_range_def)
  next
    case False
    then have nz: "unat (x - a) \<noteq> 0" by (simp add: unat_eq_zero)
    have IH: "mem_write (m(a := b)) (a + 1) bs x =
        (if in_range (a + 1) (length bs) x then bs ! unat (x - (a + 1)) else (m(a := b)) x)"
      by (rule Cons.IH) (use len in simp)
    have "in_range (a + 1) (length bs) x \<longleftrightarrow> in_range a (length (b # bs)) x"
      unfolding in_range_def unat_minus_Suc [OF False] using nz by simp linarith
    moreover have "(b # bs) ! unat (x - a) = bs ! unat (x - (a + 1))"
      unfolding unat_minus_Suc [OF False] using nz by (simp add: nth_Cons')
    ultimately show ?thesis unfolding mem_write.simps IH using False by simp
  qed
qed

lemma length_mem_read [simp]: "length (mem_read m a n) = n"
  by (simp add: mem_read_def)

lemma mem_read_eqI:
  "(\<And>i. i < n \<Longrightarrow> m (a + of_nat i) = m' (a + of_nat i)) \<Longrightarrow> mem_read m a n = mem_read m' a n"
  by (simp add: mem_read_def)

lemma in_range_offset: "i < 4294967296 \<Longrightarrow> in_range a n (a + of_nat i) \<longleftrightarrow> i < n"
  by (simp add: in_range_def unat_of_nat_u32)

lemma mem_read_write_same [mem_simps]:
  "length bs \<le> 4294967296 \<Longrightarrow> mem_read (mem_write m a bs) a (length bs) = bs"
  by (rule nth_equalityI)
    (auto simp: mem_read_def mem_write_apply in_range_offset unat_of_nat_u32)

text \<open>Two ranges that do not meet, stated over \<open>nat\<close> where neither wraps.\<close>

lemma not_in_range_I:
  assumes "unat a + n \<le> 4294967296" "unat x < unat a \<or> unat a + n \<le> unat x"
  shows "\<not> in_range a n x"
proof (cases "unat x < unat a")
  case True
  have "unat (x - a) = unat x + 4294967296 - unat a" using True by (simp add: unat_sub_if')
  then show ?thesis using True assms(1) by (simp add: in_range_def)
next
  case False
  then have "unat (x - a) = unat x - unat a" by (simp add: unat_sub_u32)
  then show ?thesis using False assms by (simp add: in_range_def)
qed

lemma in_range_iff:
  "unat a + n \<le> 4294967296 \<Longrightarrow> in_range a n x \<longleftrightarrow> unat a \<le> unat x \<and> unat x < unat a + n"
proof (cases "unat x < unat a \<or> unat a + n \<le> unat x")
  case True
  moreover assume "unat a + n \<le> 4294967296"
  ultimately show ?thesis using not_in_range_I [of a n x] by auto
next
  case False
  then have "unat (x - a) = unat x - unat a" by (simp add: unat_sub_u32)
  with False show ?thesis by (auto simp: in_range_def)
qed

lemma mem_read_write_other [mem_simps]:
  assumes "length bs \<le> 4294967296" "unat b + length bs \<le> 4294967296" "unat a + n \<le> 4294967296"
    and "unat a + n \<le> unat b \<or> unat b + length bs \<le> unat a"
  shows "mem_read (mem_write m b bs) a n = mem_read m a n"
proof (rule mem_read_eqI)
  fix i
  assume i: "i < n"
  then have "unat (a + of_nat i) = unat a + i"
    using assms(3) by (subst unat_add_u32) (simp_all add: unat_of_nat_u32)
  then have "\<not> in_range b (length bs) (a + of_nat i)"
    using assms i by (intro not_in_range_I) auto
  then show "mem_write m b bs (a + of_nat i) = m (a + of_nat i)"
    using assms(1) by (simp add: mem_write_apply)
qed

section \<open>Single bits of a byte\<close>

text \<open>The mask \<open>1U << n\<close> is written \<open>push_bit n 1\<close>; the simplifier's normal form of it is \<open>2 ^ n\<close>.\<close>

lemma bit_mask_word: "bit (2 ^ n :: 'a :: len word) k \<longleftrightarrow> k = n \<and> n < LENGTH('a)"
  by (auto simp: bit_exp_iff possible_bit_word)

lemma and_mask_nonzero: "(x AND 2 ^ n \<noteq> 0) = bit (x :: 'a :: len word) n"
proof
  assume "x AND 2 ^ n \<noteq> 0"
  then obtain k where "bit (x AND 2 ^ n) k" using bit_word_eqI [of "x AND 2 ^ n" 0] by auto
  then show "bit x n" by (auto simp: bit_and_iff bit_mask_word)
next
  assume "bit x n"
  then have "bit (x AND 2 ^ n) n" using bit_imp_le_length [of x n] by (simp add: bit_and_iff bit_mask_word)
  then show "x AND 2 ^ n \<noteq> 0" by (metis bit_0_eq bot_apply bot_bool_def)
qed

lemma and_mask_zero: "(x AND 2 ^ n = 0) = (\<not> bit (x :: 'a :: len word) n)"
  using and_mask_nonzero [of x n] by blast

lemma bit_or_mask: "n < LENGTH('a) \<Longrightarrow> bit (x OR 2 ^ n :: 'a :: len word) k \<longleftrightarrow> bit x k \<or> k = n"
  by (auto simp: bit_or_iff bit_mask_word)

lemma bit_and_not_mask: "bit (x AND NOT (2 ^ n) :: 'a :: len word) k \<longleftrightarrow> bit x k \<and> k \<noteq> n"
  by (auto simp: bit_and_iff bit_not_iff bit_mask_word possible_bit_word dest: bit_imp_le_length)

lemmas bit_mask_simps = and_mask_nonzero and_mask_zero bit_or_mask bit_and_not_mask

end
