(* ===== verification/CString.thy ===== *)
theory CString
  imports Prelude
begin

text \<open>
  The freestanding C string library of \<open>kernel/util/string.c\<close>.

  A pointer argument is the list of bytes from the pointer to the end of the object it points into;
  a function that writes returns the updated bytes. \<open>None\<close> means that the C function accesses a byte
  outside the object. A NULL return is an inner \<open>None\<close>, and a returned pointer into the argument is
  its offset. \<open>size_t\<close> values count bytes of objects and are \<open>nat\<close>; the \<open>int\<close> results of the
  comparisons are \<open>int\<close>; the numbers that are converted keep their 32 bits. \<open>cstr s\<close> is the C string
  at the start of a buffer, \<open>terminated s\<close> says that it has its NUL.
\<close>

abbreviation cstr :: "u8 list \<Rightarrow> u8 list" where
  "cstr bs \<equiv> takeWhile (\<lambda>c. c \<noteq> 0) bs"

abbreviation terminated :: "u8 list \<Rightarrow> bool" where
  "terminated bs \<equiv> 0 \<in> set bs"

section \<open>Definitions\<close>

fun is_delimiter :: "u8 \<Rightarrow> u8 list \<Rightarrow> bool option" where
  "is_delimiter c [] = None"
| "is_delimiter c (d # ds) =
     (if d = 0 then Some False else if c = d then Some True else is_delimiter c ds)"

fun strlen :: "u8 list \<Rightarrow> nat option" where
  "strlen [] = None"
| "strlen (c # cs) = (if c = 0 then Some 0 else map_option Suc (strlen cs))"

fun strnlen :: "u8 list \<Rightarrow> nat \<Rightarrow> nat option" where
  "strnlen s 0 = Some 0"
| "strnlen [] (Suc maxlen) = None"
| "strnlen (c # cs) (Suc maxlen) =
     (if c = 0 then Some 0 else map_option Suc (strnlen cs maxlen))"

text \<open>The copy loop \<open>while ((*dest++ = *src++) != 0)\<close>.\<close>

fun strcpy :: "u8 list \<Rightarrow> u8 list \<Rightarrow> u8 list option" where
  "strcpy (d # ds) (c # cs) =
     (if c = 0 then Some (0 # ds) else map_option ((#) c) (strcpy ds cs))"
| "strcpy dest src = None"

fun memset :: "u8 list \<Rightarrow> u8 \<Rightarrow> nat \<Rightarrow> u8 list option" where
  "memset str v 0 = Some str"
| "memset [] v (Suc n) = None"
| "memset (d # ds) v (Suc n) = map_option ((#) v) (memset ds v n)"

fun memcpy :: "u8 list \<Rightarrow> u8 list \<Rightarrow> nat \<Rightarrow> u8 list option" where
  "memcpy dest src 0 = Some dest"
| "memcpy (d # ds) (c # cs) (Suc n) = map_option ((#) c) (memcpy ds cs n)"
| "memcpy dest src (Suc n) = None"

text \<open>The two loops of \<open>strncpy\<close>: copy up to the terminator, then pad with NUL bytes.\<close>

fun strncpy :: "u8 list \<Rightarrow> u8 list \<Rightarrow> nat \<Rightarrow> u8 list option" where
  "strncpy dest src 0 = Some dest"
| "strncpy dest [] (Suc n) = None"
| "strncpy dest (c # cs) (Suc n) =
     (if c = 0 then memset dest 0 (Suc n)
      else case dest of [] \<Rightarrow> None | d # ds \<Rightarrow> map_option ((#) c) (strncpy ds cs n))"

definition strcat :: "u8 list \<Rightarrow> u8 list \<Rightarrow> u8 list option" where
  "strcat dest src = do {
     n \<leftarrow> strlen dest;
     rest \<leftarrow> strcpy (drop n dest) src;
     Some (take n dest @ rest)
   }"

fun strncat_loop :: "u8 list \<Rightarrow> u8 list \<Rightarrow> nat \<Rightarrow> u8 list option" where
  "strncat_loop [] src n = None"
| "strncat_loop (d # ds) src 0 = Some (0 # ds)"
| "strncat_loop (d # ds) [] (Suc n) = None"
| "strncat_loop (d # ds) (c # cs) (Suc n) =
     (if c = 0 then Some (0 # ds) else map_option ((#) c) (strncat_loop ds cs n))"

definition strncat :: "u8 list \<Rightarrow> u8 list \<Rightarrow> nat \<Rightarrow> u8 list option" where
  "strncat dest src n = do {
     k \<leftarrow> strlen dest;
     rest \<leftarrow> strncat_loop (drop k dest) src n;
     Some (take k dest @ rest)
   }"

text \<open>\<open>strlcat\<close> returns the new buffer and the length it tried to create.\<close>

definition strlcat :: "u8 list \<Rightarrow> u8 list \<Rightarrow> nat \<Rightarrow> (u8 list \<times> nat) option" where
  "strlcat dest src sz = do {
     dlen \<leftarrow> strnlen dest sz;
     slen \<leftarrow> strlen src;
     if dlen = sz then Some (dest, sz + slen)
     else do {
       let room = sz - dlen - 1;
       let copy = (if slen < room then slen else room);
       rest \<leftarrow> memcpy (drop dlen dest) src copy;
       let dest' = take dlen dest @ rest;
       if dlen + copy < length dest' then Some (dest'[dlen + copy := 0], dlen + slen) else None
     }
   }"

fun strcmp :: "u8 list \<Rightarrow> u8 list \<Rightarrow> int option" where
  "strcmp (a # as) (b # bs) =
     (if a \<noteq> 0 \<and> a = b then strcmp as bs else Some (uint a - uint b))"
| "strcmp s t = None"

fun strncmp :: "u8 list \<Rightarrow> u8 list \<Rightarrow> nat \<Rightarrow> int option" where
  "strncmp s t 0 = Some 0"
| "strncmp (a # as) (b # bs) (Suc n) =
     (if a \<noteq> 0 \<and> a = b then strncmp as bs n else Some (uint a - uint b))"
| "strncmp s t (Suc n) = None"

fun strchr :: "u8 list \<Rightarrow> u8 \<Rightarrow> nat option option" where
  "strchr [] ch = None"
| "strchr (c # cs) ch =
     (if c = ch then Some (Some 0)
      else if c = 0 then Some None
      else map_option (map_option Suc) (strchr cs ch))"

fun strnchr :: "u8 list \<Rightarrow> nat \<Rightarrow> u8 \<Rightarrow> nat option option" where
  "strnchr s 0 ch = Some None"
| "strnchr [] (Suc n) ch = None"
| "strnchr (c # cs) (Suc n) ch =
     (if c = ch then Some (Some 0)
      else if c = 0 then Some None
      else map_option (map_option Suc) (strnchr cs n ch))"

text \<open>The loop of \<open>strrchr\<close>: \<open>i\<close> is the offset of \<open>str\<close>, \<open>prev\<close> the last match so far.\<close>

fun strrchr_loop :: "u8 list \<Rightarrow> u8 \<Rightarrow> nat \<Rightarrow> nat option \<Rightarrow> nat option option" where
  "strrchr_loop [] c i prev = None"
| "strrchr_loop (x # xs) c i prev =
     (if x \<noteq> 0 then strrchr_loop xs c (Suc i) (if x = c then Some i else prev)
      else if c = 0 then Some (Some i) else Some prev)"

definition strrchr :: "u8 list \<Rightarrow> u8 \<Rightarrow> nat option option" where
  "strrchr str c = strrchr_loop str c 0 None"

text \<open>The inner loop of \<open>strstr\<close>: does \<open>n\<close> end before the two strings differ?\<close>

fun strstr_at :: "u8 list \<Rightarrow> u8 list \<Rightarrow> bool option" where
  "strstr_at h [] = None"
| "strstr_at [] (n # ns) = None"
| "strstr_at (h # hs) (n # ns) =
     (if h \<noteq> 0 \<and> n \<noteq> 0 \<and> h = n then strstr_at hs ns else Some (n = 0))"

fun strstr_loop :: "u8 list \<Rightarrow> u8 list \<Rightarrow> nat option option" where
  "strstr_loop [] needle = None"
| "strstr_loop (h # hs) needle =
     (if h = 0 then Some None
      else do {
        m \<leftarrow> (if h = hd needle then strstr_at (h # hs) needle else Some False);
        if m then Some (Some 0) else map_option (map_option Suc) (strstr_loop hs needle)
      })"

definition strstr :: "u8 list \<Rightarrow> u8 list \<Rightarrow> nat option option" where
  "strstr haystack needle =
     (case needle of [] \<Rightarrow> None
      | n # ns \<Rightarrow> if n = 0 then Some (Some 0) else strstr_loop haystack needle)"

fun strspn :: "u8 list \<Rightarrow> u8 list \<Rightarrow> nat option" where
  "strspn [] accept = None"
| "strspn (c # cs) accept =
     (if c = 0 then Some 0
      else do { d \<leftarrow> is_delimiter c accept; if d then map_option Suc (strspn cs accept) else Some 0 })"

fun strcspn :: "u8 list \<Rightarrow> u8 list \<Rightarrow> nat option" where
  "strcspn [] reject = None"
| "strcspn (c # cs) reject =
     (if c = 0 then Some 0
      else do { d \<leftarrow> is_delimiter c reject; if d then Some 0 else map_option Suc (strcspn cs reject) })"

text \<open>
  \<open>memmove\<close> inside one object: \<open>d\<close> and \<open>s\<close> are the offsets of \<open>dest\<close> and \<open>src\<close>, whose ranges may
  overlap. Each loop iteration reads one byte of the current contents and writes one byte.
\<close>

fun move_fwd :: "u8 list \<Rightarrow> nat \<Rightarrow> nat \<Rightarrow> nat \<Rightarrow> u8 list option" where
  "move_fwd buf d s 0 = Some buf"
| "move_fwd buf d s (Suc n) =
     (if d < length buf \<and> s < length buf
      then move_fwd (buf[d := buf ! s]) (Suc d) (Suc s) n else None)"

fun move_bwd :: "u8 list \<Rightarrow> nat \<Rightarrow> nat \<Rightarrow> nat \<Rightarrow> u8 list option" where
  "move_bwd buf d s 0 = Some buf"
| "move_bwd buf d s (Suc n) =
     (if d + n < length buf \<and> s + n < length buf
      then move_bwd (buf[d + n := buf ! (s + n)]) d s n else None)"

definition memmove :: "u8 list \<Rightarrow> nat \<Rightarrow> nat \<Rightarrow> nat \<Rightarrow> u8 list option" where
  "memmove buf d s n =
     (if d < s then move_fwd buf d s n
      else if d > s then move_bwd buf d s n
      else Some buf)"

fun memcmp :: "u8 list \<Rightarrow> u8 list \<Rightarrow> nat \<Rightarrow> int option" where
  "memcmp s t 0 = Some 0"
| "memcmp (a # as) (b # bs) (Suc n) =
     (if a \<noteq> b then Some (uint a - uint b) else memcmp as bs n)"
| "memcmp s t (Suc n) = None"

text \<open>\<open>strtok\<close>: the static \<open>last_token\<close> is an offset into the string being split, or NULL.\<close>

fun skip_while :: "(u8 \<Rightarrow> bool option) \<Rightarrow> u8 list \<Rightarrow> nat option" where
  "skip_while p [] = None"
| "skip_while p (c # cs) =
     (if c = 0 then Some 0 else do { b \<leftarrow> p c; if b then map_option Suc (skip_while p cs) else Some 0 })"

definition strtok :: "nat option \<Rightarrow> u8 list \<Rightarrow> nat option \<Rightarrow> u8 list
    \<Rightarrow> (nat option \<times> u8 list \<times> nat option) option" where
  "strtok str buf last_token delim =
     (case (if str \<noteq> None then str else last_token) of
        None \<Rightarrow> Some (None, buf, None)
      | Some p \<Rightarrow> do {
          k \<leftarrow> skip_while (\<lambda>c. is_delimiter c delim) (drop p buf);
          if buf ! (p + k) = 0 then Some (None, buf, None)
          else do {
            let start = p + k;
            n \<leftarrow> skip_while (\<lambda>c. map_option Not (is_delimiter c delim)) (drop start buf);
            if buf ! (start + n) \<noteq> 0
            then Some (Some start, buf[start + n := 0], Some (start + n + 1))
            else Some (Some start, buf, None)
          }
        })"

section \<open>What each function computes\<close>

lemma is_delimiter_eq:
  "is_delimiter c ds =
     (if c \<in> set (cstr ds) then Some True else if terminated ds then Some False else None)"
  by (induction ds) auto

lemma strlen_eq: "strlen bs = (if terminated bs then Some (length (cstr bs)) else None)"
  by (induction bs) auto

lemma strnlen_eq:
  "strnlen bs n = (if terminated bs \<or> n \<le> length bs then Some (min n (length (cstr bs))) else None)"
  by (induction bs n rule: strnlen.induct) auto

lemma length_cstr_less: "terminated bs \<Longrightarrow> length (cstr bs) < length bs"
  by (induction bs) auto

lemma length_cstr_le: "length (cstr bs) \<le> length bs"
  by (rule length_takeWhile_le)

lemma nth_length_cstr: "length (cstr bs) < length bs \<Longrightarrow> bs ! length (cstr bs) = 0"
  using nth_length_takeWhile [of "\<lambda>c. c \<noteq> 0" bs] by simp

lemma take_length_cstr: "take (length (cstr bs)) bs = cstr bs"
  by (metis takeWhile_eq_take)

lemma no_nul_in_cstr: "0 \<notin> set (cstr bs)"
  by (auto dest: set_takeWhileD)

lemma cstr_append_nul: "0 \<notin> set s \<Longrightarrow> cstr (s @ 0 # rest) = s"
  by (induction s) auto

lemma cstr_take: "cstr (take n bs) = take n (cstr bs)"
  by (induction bs arbitrary: n) (auto simp: take_Cons')

lemma memset_eq:
  "memset bs v n = (if n \<le> length bs then Some (replicate n v @ drop n bs) else None)"
  by (induction bs v n rule: memset.induct) auto

lemma memcpy_eq:
  "memcpy dest src n =
     (if n \<le> length dest \<and> n \<le> length src then Some (take n src @ drop n dest) else None)"
  by (induction dest src n rule: memcpy.induct) auto

lemma strcpy_eq:
  "terminated src \<Longrightarrow> strcpy dest src =
     (if length (cstr src) < length dest
      then Some (cstr src @ 0 # drop (Suc (length (cstr src))) dest) else None)"
  by (induction dest src rule: strcpy.induct) auto

lemma strncpy_eq:
  "terminated src \<or> n \<le> length src \<Longrightarrow> strncpy dest src n =
     (if n \<le> length dest
      then Some (take n (cstr src) @ replicate (n - length (cstr src)) 0 @ drop n dest) else None)"
proof (induction dest src n rule: strncpy.induct)
  case (1 dest src)
  then show ?case by simp
next
  case (2 dest n)
  then show ?case by simp
next
  case (3 dest c cs n)
  show ?case
  proof (cases "c = 0")
    case True
    then show ?thesis by (simp add: memset_eq)
  next
    case False
    with "3" show ?thesis by (cases dest) auto
  qed
qed

lemma strncpy_length: "strncpy dest src n = Some dest' \<Longrightarrow> length dest' = length dest"
  by (induction dest src n arbitrary: dest' rule: strncpy.induct)
    (auto simp: memset_eq split: if_splits list.splits)

lemma strncat_loop_eq:
  "terminated src \<or> n \<le> length src \<Longrightarrow> strncat_loop ds src n =
     (if min n (length (cstr src)) < length ds
      then Some (take n (cstr src) @ 0 # drop (Suc (min n (length (cstr src)))) ds) else None)"
  by (induction ds src n rule: strncat_loop.induct) auto

lemma strcmp_zero_iff:
  "terminated s \<Longrightarrow> terminated t \<Longrightarrow> strcmp s t = Some 0 \<longleftrightarrow> cstr s = cstr t"
  by (induction s t rule: strcmp.induct) auto

lemma strcmp_total: "terminated s \<Longrightarrow> terminated t \<Longrightarrow> \<exists>r. strcmp s t = Some r"
  by (induction s t rule: strcmp.induct) auto

lemma strncmp_zero_iff:
  "terminated s \<Longrightarrow> terminated t \<Longrightarrow> strncmp s t n = Some 0 \<longleftrightarrow> take n (cstr s) = take n (cstr t)"
  by (induction s t n rule: strncmp.induct) auto

lemma strncmp_total: "terminated s \<Longrightarrow> terminated t \<Longrightarrow> \<exists>r. strncmp s t n = Some r"
  by (induction s t n rule: strncmp.induct) auto

lemma memcmp_zero_iff:
  "n \<le> length s \<Longrightarrow> n \<le> length t \<Longrightarrow> memcmp s t n = Some 0 \<longleftrightarrow> take n s = take n t"
  by (induction s t n rule: memcmp.induct) auto

lemma strchr_Some:
  "strchr bs ch = Some (Some i) \<Longrightarrow> i < length bs \<and> bs ! i = ch \<and> (\<forall>j < i. bs ! j \<noteq> ch \<and> bs ! j \<noteq> 0)"
proof (induction bs ch arbitrary: i rule: strchr.induct)
  case (1 ch)
  then show ?case by simp
next
  case (2 c cs ch)
  show ?case
  proof (cases "c = ch \<or> c = 0")
    case True
    with "2.prems" show ?thesis by (auto split: if_splits)
  next
    case False
    with "2.prems" obtain k where k: "i = Suc k" "strchr cs ch = Some (Some k)" by auto
    with "2.IH" False have "k < length cs \<and> cs ! k = ch \<and> (\<forall>j < k. cs ! j \<noteq> ch \<and> cs ! j \<noteq> 0)"
      by blast
    with k False show ?thesis by (auto simp: less_Suc_eq_0_disj)
  qed
qed

lemma strchr_None: "strchr bs ch = Some None \<Longrightarrow> ch \<noteq> 0 \<and> ch \<notin> set (cstr bs)"
  by (induction bs ch rule: strchr.induct) (auto split: if_splits)

text \<open>\<open>strrchr\<close> finds the last occurrence; the C idiom behind every path split of the kernel.\<close>

lemma strrchr_loop_eq:
  "c \<noteq> 0 \<Longrightarrow> terminated bs \<Longrightarrow> strrchr_loop bs c i prev =
     Some (if c \<in> set (cstr bs)
           then Some (i + length (cstr bs) - Suc (length (takeWhile (\<lambda>x. x \<noteq> c) (rev (cstr bs)))))
           else prev)"
proof (induction bs c i prev rule: strrchr_loop.induct)
  case (1 c i prev)
  then show ?case by simp
next
  case (2 x xs c i prev)
  show ?case
  proof (cases "x = 0")
    case True
    with "2.prems" show ?thesis by simp
  next
    case False
    with "2.prems" have IH: "strrchr_loop xs c (Suc i) (if x = c then Some i else prev) =
       Some (if c \<in> set (cstr xs)
           then Some (Suc i + length (cstr xs) - Suc (length (takeWhile (\<lambda>x. x \<noteq> c) (rev (cstr xs)))))
           else if x = c then Some i else prev)"
      using "2.IH" by simp
    show ?thesis
    proof (cases "c \<in> set (cstr xs)")
      case True
      then have "takeWhile (\<lambda>x. x \<noteq> c) (rev (cstr xs) @ [x]) = takeWhile (\<lambda>x. x \<noteq> c) (rev (cstr xs))"
        by (intro takeWhile_append1 [where x = c]) auto
      with False IH True show ?thesis by simp
    next
      case nin: False
      then have "takeWhile (\<lambda>x. x \<noteq> c) (rev (cstr xs)) = rev (cstr xs)"
        by (intro takeWhile_eq_all_conv [THEN iffD2]) auto
      moreover have "takeWhile (\<lambda>x. x \<noteq> c) (rev (cstr xs) @ [x]) =
          rev (cstr xs) @ takeWhile (\<lambda>x. x \<noteq> c) [x]"
        using nin by (intro takeWhile_append2) auto
      ultimately have "length (takeWhile (\<lambda>x. x \<noteq> c) (rev (cstr xs) @ [x])) =
          length (cstr xs) + (if x = c then 0 else 1)"
        by simp
      then show ?thesis using False IH nin by (cases "x = c") simp_all
    qed
  qed
qed

lemma strrchr_Some:
  assumes "c \<noteq> 0" "terminated bs" "strrchr bs c = Some (Some i)"
  shows "\<exists>xs ys. cstr bs = xs @ c # ys \<and> length xs = i \<and> c \<notin> set ys"
proof -
  let ?ys = "takeWhile (\<lambda>x. x \<noteq> c) (rev (cstr bs))"
  from assms have c: "c \<in> set (cstr bs)" and i: "i = length (cstr bs) - Suc (length ?ys)"
    by (auto simp: strrchr_def strrchr_loop_eq split: if_splits)
  from c have "c \<in> set (rev (cstr bs))" by simp
  then obtain us vs where uv: "rev (cstr bs) = us @ c # vs" and us: "c \<notin> set us"
    by (meson split_list_first)
  then have ys: "?ys = us"
    by (metis (mono_tags, lifting) takeWhile_append2 takeWhile.simps(2) append_Nil2)
  from uv have "cstr bs = rev vs @ c # rev us"
    by (metis append.assoc append_Cons append_Nil rev.simps(2) rev_append rev_rev_ident)
  then show ?thesis using us i ys by (intro exI [of _ "rev vs"] exI [of _ "rev us"]) simp
qed

lemma strrchr_None: "c \<noteq> 0 \<Longrightarrow> terminated bs \<Longrightarrow> strrchr bs c = Some None \<longleftrightarrow> c \<notin> set (cstr bs)"
  by (simp add: strrchr_def strrchr_loop_eq)

section \<open>Overlapping moves\<close>

lemma move_fwd_eq:
  "d < s \<Longrightarrow> s + n \<le> length buf \<Longrightarrow>
     move_fwd buf d s n = Some (take d buf @ take n (drop s buf) @ drop (d + n) buf)"
proof (induction buf d s n rule: move_fwd.induct)
  case (1 buf d s)
  then show ?case by simp
next
  case (2 buf d s n)
  let ?b = "buf[d := buf ! s]"
  have "take (Suc d) ?b = take d buf @ [buf ! s]"
    using "2.prems" by (simp add: take_Suc_conv_app_nth)
  moreover have "take n (drop (Suc s) ?b) = take n (drop (Suc s) buf)"
    using "2.prems" by simp
  moreover have "drop (Suc d + n) ?b = drop (Suc d + n) buf"
    by simp
  moreover have "take (Suc n) (drop s buf) = buf ! s # take n (drop (Suc s) buf)"
    using "2.prems" by (simp add: Cons_nth_drop_Suc [symmetric])
  ultimately show ?case using "2" by simp
qed

lemma move_bwd_eq:
  "s < d \<Longrightarrow> d + n \<le> length buf \<Longrightarrow>
     move_bwd buf d s n = Some (take d buf @ take n (drop s buf) @ drop (d + n) buf)"
proof (induction n arbitrary: buf)
  case 0
  then show ?case by simp
next
  case (Suc n)
  let ?b = "buf[d + n := buf ! (s + n)]"
  have "take d ?b = take d buf" by simp
  moreover have "take n (drop s ?b) = take n (drop s buf)"
    using Suc.prems by (simp add: drop_update_swap take_update_cancel)
  moreover have "drop (d + n) ?b = buf ! (s + n) # drop (d + Suc n) buf"
    using Suc.prems by (simp add: Cons_nth_drop_Suc [symmetric])
  moreover have "take (Suc n) (drop s buf) = take n (drop s buf) @ [buf ! (s + n)]"
    using Suc.prems by (simp add: take_Suc_conv_app_nth)
  ultimately show ?case using Suc by simp
qed

lemma memmove_eq:
  assumes "d + n \<le> length buf" and "s + n \<le> length buf"
  shows "memmove buf d s n = Some (take d buf @ take n (drop s buf) @ drop (d + n) buf)"
proof -
  consider "d < s" | "s < d" | "d = s" by linarith
  then show ?thesis
  proof cases
    case 1
    then show ?thesis using assms by (simp add: memmove_def move_fwd_eq)
  next
    case 2
    then show ?thesis using assms by (simp add: memmove_def move_bwd_eq)
  next
    case 3
    then show ?thesis using assms
      by (simp add: memmove_def) (metis append_take_drop_id drop_drop add.commute)
  qed
qed

text \<open>
  \<open>memmove\<close> inside one buffer copies the old contents of the source range to the destination
  range and changes nothing else, whichever way the two ranges overlap, and never touches a byte
  outside the buffer.
\<close>

theorem memmove_overlap:
  assumes "d + n \<le> length buf" and "s + n \<le> length buf"
  shows "memmove buf d s n = Some (take d buf @ take n (drop s buf) @ drop (d + n) buf)"
  using assms by (rule memmove_eq)

theorem memmove_overlap_witness:
  "memmove [1, 2, 3, 4, 5] 1 0 3 = Some [1, 1, 2, 3, 5]"
  using memmove_overlap [of 1 3 "[1, 2, 3, 4, 5]" 0] by simp

text \<open>
  C34: \<open>strlcat\<close> never writes at or beyond \<open>size\<close>, leaves a string that is terminated within
  \<open>size\<close> and is the concatenation cut to \<open>size - 1\<close> characters, and returns the length it tried
  to create, so that a caller sees truncation as a result of at least \<open>size\<close>. A destination
  with no terminator inside \<open>size\<close> is left alone.
\<close>

theorem strlcat_safe:
  assumes "sz \<le> length dest" and "terminated src"
  shows "\<exists>dest' r. strlcat dest src sz = Some (dest', r)
    \<and> drop sz dest' = drop sz dest \<and> length dest' = length dest
    \<and> r = min sz (length (cstr dest)) + length (cstr src)
    \<and> (if length (cstr dest) < sz
       then cstr dest' = take (sz - 1) (cstr dest @ cstr src) \<and> terminated (take sz dest')
       else dest' = dest)"
proof (cases "length (cstr dest) < sz")
  case False
  then show ?thesis using assms by (simp add: strlcat_def strnlen_eq strlen_eq)
next
  case True
  let ?dl = "length (cstr dest)" and ?sl = "length (cstr src)"
  let ?c = "min ?sl (sz - ?dl - 1)"
  let ?new = "cstr dest @ take ?c (cstr src)"
  let ?dest' = "?new @ 0 # drop (Suc (?dl + ?c)) dest"
  have c: "?dl + ?c < sz" using True by auto
  have "take ?c (cstr src) = take ?c (take ?sl src)" by (simp only: take_length_cstr)
  then have take_src: "take ?c src = take ?c (cstr src)" by (simp add: take_take)
  have nul: "0 \<notin> set ?new" using no_nul_in_cstr by (auto dest: in_set_takeD)
  have dl: "strnlen dest sz = Some ?dl" using assms(1) True by (simp add: strnlen_eq)
  have sl: "strlen src = Some ?sl" using assms(2) by (simp add: strlen_eq)
  have copy: "(if ?sl < sz - ?dl - 1 then ?sl else sz - ?dl - 1) = ?c" by simp
  have "memcpy (drop ?dl dest) src ?c = Some (take ?c (cstr src) @ drop (?dl + ?c) dest)"
  proof -
    have "?c \<le> length (drop ?dl dest)" using c assms(1) by simp
    moreover have "?c \<le> length src" using length_cstr_less [OF assms(2)] by linarith
    ultimately show ?thesis by (simp only: memcpy_eq take_src drop_drop) (simp add: add.commute)
  qed
  moreover have "(?new @ drop (?dl + ?c) dest)[?dl + ?c := 0] = ?dest'"
    using c assms by (simp add: list_update_append Cons_nth_drop_Suc [symmetric])
  ultimately have "strlcat dest src sz = Some (?dest', ?dl + ?sl)"
    using c assms(1) unfolding strlcat_def dl sl Option.bind.simps Let_def copy
    by (simp add: take_length_cstr)
  moreover have "cstr ?dest' = take (sz - 1) (cstr dest @ cstr src)"
    using cstr_append_nul [OF nul] True by (auto simp: min_def take_append)
  moreover have "drop sz ?dest' = drop sz dest"
    using c assms by (simp add: drop_Cons')
  moreover have "terminated (take sz ?dest')"
    using c by (simp add: take_Cons')
  moreover have "length ?dest' = length dest"
    using c assms by simp
  ultimately show ?thesis using True by (auto simp: min_def)
qed

theorem strlcat_safe_witness:
  "\<exists>dest' r. strlcat [97, 0, 7, 7, 9] [98, 99, 100, 0] 4 = Some (dest', r)
    \<and> drop 4 dest' = [9] \<and> r = 4 \<and> cstr dest' = [97, 98, 99]"
  using strlcat_safe [of 4 "[97, 0, 7, 7, 9]" "[98, 99, 100, 0]"] by auto

end
