(* ===== verification/CNumber.thy ===== *)
theory CNumber
  imports CString
begin

text \<open>
  The number conversions of \<open>kernel/util/string.c\<close>: decimal, decimal with thousands separators and
  hexadecimal text of 32-bit values, and the parsers. Values are 32-bit words; an \<open>int32_t\<close> is the
  same word read with \<open>sint\<close>. Local buffers have the size the code gives them: writing beyond
  \<open>buffer[10]\<close>, \<open>raw[11]\<close> or \<open>buffer[8]\<close>, or beyond the destination, is \<open>None\<close>.
\<close>

section \<open>Definitions\<close>

text \<open>Writing \<open>bs\<close> from the start of a destination, byte by byte.\<close>

definition store :: "u8 list \<Rightarrow> u8 list \<Rightarrow> u8 list option" where
  "store dest bs = (if length bs \<le> length dest then Some (bs @ drop (length bs) dest) else None)"

function utos_loop :: "u32 \<Rightarrow> u8 list \<Rightarrow> u8 list option" where
  "utos_loop v buf =
     (if length buf \<ge> 10 then None
      else let buf' = buf @ [ucast (v mod 10 + 48)]; v' = v div 10
           in if v' > 0 then utos_loop v' buf' else Some buf')"
  by pat_completeness auto
termination
  by (relation "measure (\<lambda>(v, buf). 10 - length buf)") auto

declare utos_loop.simps [simp del]

definition utos :: "u32 \<Rightarrow> u8 list \<Rightarrow> u8 list option" where
  "utos v dest = do { buf \<leftarrow> utos_loop v []; store dest (rev buf @ [0]) }"

definition itos :: "u32 \<Rightarrow> u8 list \<Rightarrow> u8 list option" where
  "itos v dest =
     (if sint v < 0
      then (case dest of [] \<Rightarrow> None | d # ds \<Rightarrow> map_option ((#) 45) (utos (0 - v) ds))
      else utos v dest)"

fun skip_space :: "u8 list \<Rightarrow> u8 list option" where
  "skip_space [] = None"
| "skip_space (c # cs) = (if c = 32 \<or> 9 \<le> c \<and> c \<le> 13 then skip_space cs else Some (c # cs))"

fun digits_loop :: "u8 list \<Rightarrow> u32 \<Rightarrow> u32 option" where
  "digits_loop [] r = None"
| "digits_loop (c # cs) r =
     (if 48 \<le> c \<and> c \<le> 57 then digits_loop cs (r * 10 + (ucast c - 48)) else Some r)"

definition stoi :: "u8 list \<Rightarrow> u32 option" where
  "stoi str = do {
     s \<leftarrow> skip_space str;
     (case s of [] \<Rightarrow> None
      | c # cs \<Rightarrow>
          if c = 45 then map_option (\<lambda>r. 0 - r) (digits_loop cs 0)
          else if c = 43 then digits_loop cs 0
          else digits_loop (c # cs) 0)
   }"

definition stou :: "u8 list \<Rightarrow> u32 option" where
  "stou str = do {
     s \<leftarrow> skip_space str;
     (case s of [] \<Rightarrow> None
      | c # cs \<Rightarrow> if c = 43 then digits_loop cs 0 else digits_loop (c # cs) 0)
   }"

text \<open>
  The right-to-left loop of \<open>itos_commas\<close>: \<open>s\<close> is \<open>src_i + 1\<close>, \<open>d\<close> is \<open>dest_i + 1\<close> (both reach 0)
  and \<open>cnt\<close> is \<open>digit_count\<close>.
\<close>

definition put_at :: "u8 list \<Rightarrow> nat \<Rightarrow> u8 \<Rightarrow> u8 list option" where
  "put_at dest d c = (if 0 < d \<and> d \<le> length dest then Some (dest[d - 1 := c]) else None)"

fun commas_loop :: "u8 list \<Rightarrow> u8 list \<Rightarrow> nat \<Rightarrow> nat \<Rightarrow> nat \<Rightarrow> u8 list option" where
  "commas_loop raw dest 0 d cnt = Some dest"
| "commas_loop raw dest (Suc s) d cnt =
     (if 0 < cnt \<and> cnt mod 3 = 0
      then do {
        dest1 \<leftarrow> put_at dest d 44;
        dest2 \<leftarrow> put_at dest1 (d - 1) (raw ! s);
        commas_loop raw dest2 s (d - 2) (Suc cnt)
      }
      else do {
        dest2 \<leftarrow> put_at dest d (raw ! s);
        commas_loop raw dest2 s (d - 1) (Suc cnt)
      })"

definition itos_commas :: "u32 \<Rightarrow> u8 list \<Rightarrow> u8 list option" where
  "itos_commas v dest = do {
     raw \<leftarrow> utos v (replicate 11 0);
     len \<leftarrow> strlen raw;
     let new_len = len + (len - 1) div 3;
     dest1 \<leftarrow> put_at dest (new_len + 1) 0;
     commas_loop raw dest1 len new_len 0
   }"

fun stoi_commas_loop :: "u8 list \<Rightarrow> u32 \<Rightarrow> u32 option" where
  "stoi_commas_loop [] r = None"
| "stoi_commas_loop (c # cs) r =
     (if c = 0 then Some r
      else stoi_commas_loop cs (if 48 \<le> c \<and> c \<le> 57 then r * 10 + (ucast c - 48) else r))"

definition stoi_commas :: "u8 list option \<Rightarrow> u32 option" where
  "stoi_commas str = (case str of None \<Rightarrow> Some 0 | Some s \<Rightarrow> stoi_commas_loop s 0)"

definition hex_digits :: "u8 list" where
  "hex_digits = [48, 49, 50, 51, 52, 53, 54, 55, 56, 57, 65, 66, 67, 68, 69, 70]"

function utox_loop :: "u32 \<Rightarrow> u8 list \<Rightarrow> u8 list option" where
  "utox_loop v buf =
     (if length buf \<ge> 8 then None
      else let buf' = buf @ [hex_digits ! unat (v AND 15)]; v' = drop_bit 4 v
           in if v' > 0 then utox_loop v' buf' else Some buf')"
  by pat_completeness auto
termination
  by (relation "measure (\<lambda>(v, buf). 8 - length buf)") auto

declare utox_loop.simps [simp del]

definition utox :: "u32 \<Rightarrow> u8 list \<Rightarrow> u8 list option" where
  "utox v dest = do { buf \<leftarrow> utox_loop v []; store dest (rev buf @ [0]) }"

definition u8tox :: "u8 \<Rightarrow> u8 list \<Rightarrow> u8 list option" where
  "u8tox v dest = utox (ucast v) dest"

definition u16tox :: "u16 \<Rightarrow> u8 list \<Rightarrow> u8 list option" where
  "u16tox v dest = utox (ucast v) dest"

definition u32tox :: "u32 \<Rightarrow> u8 list \<Rightarrow> u8 list option" where
  "u32tox v dest = utox v dest"

section \<open>Digits as a reference\<close>

text \<open>The digits of a number in a base, most significant first.\<close>

fun numeral_digits :: "nat \<Rightarrow> nat \<Rightarrow> nat list" where
  "numeral_digits b n =
     (if n < b \<or> b < 2 then [n] else numeral_digits b (n div b) @ [n mod b])"

declare numeral_digits.simps [simp del]

lemma length_numeral_digits: "2 \<le> b \<Longrightarrow> n < b ^ Suc k \<Longrightarrow> length (numeral_digits b n) \<le> Suc k"
proof (induction k arbitrary: n)
  case 0
  then show ?case by (simp add: numeral_digits.simps [of b n])
next
  case (Suc k)
  have "n div b < b ^ Suc k" using Suc.prems by (simp add: less_mult_imp_div_less mult.commute)
  then have "length (numeral_digits b (n div b)) \<le> Suc k" using Suc by simp
  then show ?case by (simp add: numeral_digits.simps [of b n])
qed

lemma numeral_digits_bound: "2 \<le> b \<Longrightarrow> d \<in> set (numeral_digits b n) \<Longrightarrow> d < b"
proof (induction b n rule: numeral_digits.induct)
  case (1 b n)
  then show ?case by (subst (asm) (2) numeral_digits.simps) (auto split: if_splits)
qed

lemma numeral_digits_nonempty: "numeral_digits b n \<noteq> []"
  by (subst numeral_digits.simps) simp

definition digits_value :: "nat \<Rightarrow> nat list \<Rightarrow> nat" where
  "digits_value b ds = foldl (\<lambda>r d. r * b + d) 0 ds"

lemma digits_value_numeral: "digits_value b (numeral_digits b n) = n"
proof (induction b n rule: numeral_digits.induct)
  case (1 b n)
  then show ?case by (subst numeral_digits.simps) (auto simp: digits_value_def)
qed

definition ascii :: "nat \<Rightarrow> u8" where
  "ascii d = of_nat d + 48"

lemma unat_ascii: "d < 10 \<Longrightarrow> unat (ascii d) = d + 48"
  by (simp add: ascii_def unat_word_ariths unat_of_nat take_bit_nat_eq_self)

lemma ascii_digit: "d < 10 \<Longrightarrow> 48 \<le> ascii d \<and> ascii d \<le> 57"
  by (simp add: word_le_nat_alt unat_ascii)

lemma ascii_nonzero: "d < 10 \<Longrightarrow> ascii d \<noteq> 0"
  using unat_ascii [of d] by (metis add_eq_0_iff_both_eq_0 unat_0 zero_neq_numeral)

lemma ucast_ascii: "d < 10 \<Longrightarrow> ucast (ascii d) - 48 = (of_nat d :: u32)"
proof -
  assume d: "d < 10"
  then have u: "unat (ucast (ascii d) :: u32) = d + 48"
    by (simp add: unsigned_ucast_eq unat_ascii take_bit_nat_eq_self)
  then have "unat (ucast (ascii d) - 48 :: u32) = d" by (simp add: unat_sub_if')
  then show ?thesis using d by (simp add: word_unat_eq_iff unat_of_nat_u32)
qed

section \<open>Decimal text\<close>

abbreviation decimal :: "nat \<Rightarrow> u8 list" where
  "decimal n \<equiv> map ascii (numeral_digits 10 n)"

lemma length_decimal: "n < 10 ^ 10 \<Longrightarrow> length (decimal n) \<le> 10"
  using length_numeral_digits [of 10 n 9] by simp

lemma utos_digit: "ucast (v mod 10 + 48 :: u32) = ascii (unat v mod 10)"
proof (rule word_unat_eq_iff [THEN iffD2])
  have "unat (v mod 10 + 48) = unat v mod 10 + 48"
    by (subst unat_add_u32) (simp_all add: unat_mod_distrib)
  then have "unat (ucast (v mod 10 + 48 :: u32) :: u8) = unat v mod 10 + 48"
    by (simp add: unsigned_ucast_eq take_bit_nat_eq_self)
  then show "unat (ucast (v mod 10 + 48 :: u32) :: u8) = unat (ascii (unat v mod 10))"
    by (simp add: unat_ascii)
qed

lemma utos_loop_eq:
  "length buf + length (decimal (unat v)) \<le> 10 \<Longrightarrow>
     utos_loop v buf = Some (buf @ rev (decimal (unat v)))"
proof (induction v buf rule: utos_loop.induct)
  case (1 v buf)
  have len: "\<not> 10 \<le> length buf"
    using "1.prems" numeral_digits_nonempty [of 10 "unat v"]
    by (metis (no_types, lifting) add_leD1 length_0_conv length_map less_add_same_cancel1 not_le
        le_less_trans length_greater_0_conv leD add_le_cancel_left le_add_same_cancel1)
  have pos: "v div 10 > 0 \<longleftrightarrow> \<not> unat v < 10"
    by (simp add: word_pos_iff_unat unat_div_distrib div_greater_zero_iff not_less)
  show ?case
  proof (cases "unat v < 10")
    case True
    then show ?thesis
      using len pos by (simp add: utos_loop.simps [of v] numeral_digits.simps [of 10 "unat v"] utos_digit Let_def)
  next
    case False
    then have "decimal (unat v) = decimal (unat (v div 10)) @ [ascii (unat v mod 10)]"
      by (simp add: numeral_digits.simps [of 10 "unat v"] unat_div_distrib)
    with False show ?thesis
      using len pos "1.prems" "1.IH" [OF len refl refl] 
      by (simp add: utos_loop.simps [of v] utos_digit Let_def)
  qed
qed

lemma utos_eq:
  "utos v dest = store dest (decimal (unat v) @ [0])"
proof -
  have "length (decimal (unat v)) \<le> 10"
    using unat_u32_less [of v] by (intro length_decimal) simp
  then have "utos_loop v [] = Some (rev (decimal (unat v)))"
    by (subst utos_loop_eq) simp_all
  then show ?thesis by (simp add: utos_def)
qed

lemma decimal_ascii: "c \<in> set (decimal n) \<Longrightarrow> 48 \<le> c \<and> c \<le> 57 \<and> c \<noteq> 0"
  using numeral_digits_bound [of 10 _ n] ascii_digit ascii_nonzero by fastforce

lemma digits_loop_decimal:
  "(\<And>d. d \<in> set ds \<Longrightarrow> d < 10) \<Longrightarrow> digits_loop (map ascii ds @ 0 # rest) r =
     Some (foldl (\<lambda>r d. r * 10 + of_nat d) r ds)"
  by (induction ds arbitrary: r) (auto simp: ascii_digit ucast_ascii)

lemma foldl_of_nat:
  "foldl (\<lambda>r d. r * 10 + of_nat d) (of_nat k :: u32) ds = of_nat (foldl (\<lambda>r d. r * 10 + d) k ds)"
proof (induction ds arbitrary: k)
  case Nil
  then show ?case by simp
next
  case (Cons d ds)
  have "(of_nat k :: u32) * 10 + of_nat d = of_nat (k * 10 + d)" by simp
  then show ?case using Cons [of "k * 10 + d"] by (simp only: foldl.simps)
qed

lemma digits_loop_value: "digits_loop (decimal n @ 0 # rest) 0 = Some (of_nat n)"
proof -
  have "digits_loop (decimal n @ 0 # rest) 0 =
      Some (foldl (\<lambda>r d. r * 10 + of_nat d) (of_nat 0) (numeral_digits 10 n))"
    using numeral_digits_bound [of 10 _ n] by (subst digits_loop_decimal) auto
  also have "\<dots> = Some (of_nat (digits_value 10 (numeral_digits 10 n)))"
    by (simp only: foldl_of_nat digits_value_def)
  finally show ?thesis by (simp add: digits_value_numeral)
qed

lemma decimal_Cons: "\<exists>c cs. decimal n = c # cs \<and> 48 \<le> c \<and> c \<le> 57"
  using numeral_digits_nonempty [of 10 n] decimal_ascii [of _ n] by (cases "decimal n") auto

lemma not_sign_or_space:
  "48 \<le> (c :: u8) \<Longrightarrow> c \<le> 57 \<Longrightarrow> c \<noteq> 45 \<and> c \<noteq> 43 \<and> c \<noteq> 32 \<and> \<not> c \<le> 13"
  by (auto simp: word_le_nat_alt)

lemma stou_decimal: "stou (decimal n @ 0 # rest) = Some (of_nat n)"
proof -
  obtain c cs where "decimal n = c # cs" "48 \<le> c" "c \<le> 57" using decimal_Cons [of n] by auto
  then show ?thesis using not_sign_or_space [of c] digits_loop_value [of n rest] by (simp add: stou_def)
qed

lemma stoi_decimal: "stoi (decimal n @ 0 # rest) = Some (of_nat n)"
proof -
  obtain c cs where "decimal n = c # cs" "48 \<le> c" "c \<le> 57" using decimal_Cons [of n] by auto
  then show ?thesis using not_sign_or_space [of c] digits_loop_value [of n rest] by (simp add: stoi_def)
qed

lemma stoi_minus_decimal: "stoi (45 # decimal n @ 0 # rest) = Some (0 - of_nat n)"
  using digits_loop_value [of n rest] by (simp add: stoi_def)

lemma store_fits: "length bs \<le> length dest \<Longrightarrow> store dest bs = Some (bs @ drop (length bs) dest)"
  by (simp add: store_def)

text \<open>
  C35: printing any 32-bit value in decimal and parsing it back gives the value, for the unsigned
  pair \<open>utos\<close>/\<open>stou\<close> and the signed pair \<open>itos\<close>/\<open>stoi\<close> (\<open>INT32_MIN\<close> included), into any buffer of the
  size the header demands (11 and 12 bytes); no local or destination buffer overflows.
\<close>

theorem decimal_roundtrip:
  assumes "11 \<le> length ubuf" and "12 \<le> length ibuf"
  shows "(\<exists>s. utos v ubuf = Some s \<and> stou s = Some v) \<and> (\<exists>s. itos v ibuf = Some s \<and> stoi s = Some v)"
proof
  have len: "length (decimal (unat w)) \<le> 10" for w :: u32
    using unat_u32_less [of w] by (intro length_decimal) simp
  show "\<exists>s. utos v ubuf = Some s \<and> stou s = Some v"
    using assms(1) len [of v] by (simp add: utos_eq store_fits stou_decimal)
  show "\<exists>s. itos v ibuf = Some s \<and> stoi s = Some v"
  proof (cases "sint v < 0")
    case True
    then show ?thesis
      using assms(2) len [of "0 - v"]
      by (cases ibuf) (auto simp: itos_def utos_eq store_fits stoi_minus_decimal [simplified])
  next
    case False
    then show ?thesis
      using assms(2) len [of v] by (simp add: itos_def utos_eq store_fits stoi_decimal)
  qed
qed

theorem decimal_roundtrip_witness:
  "\<exists>s. itos 0x80000000 (replicate 12 0) = Some s \<and> stoi s = Some 0x80000000"
  using decimal_roundtrip [of "replicate 11 0" "replicate 12 0" "0x80000000"] by simp

section \<open>Thousands separators\<close>

text \<open>
  What \<open>itos_commas\<close> writes, seen from the right: the reversed digits with a comma before every
  digit whose index is a positive multiple of three.
\<close>

fun commafy :: "nat \<Rightarrow> u8 list \<Rightarrow> u8 list" where
  "commafy cnt [] = []"
| "commafy cnt (x # xs) = (if 0 < cnt \<and> cnt mod 3 = 0 then [44, x] else [x]) @ commafy (Suc cnt) xs"

lemma length_commafy: "length (commafy cnt xs) + (cnt - 1) div 3 = length xs + (cnt + length xs - 1) div 3"
proof (induction cnt xs rule: commafy.induct)
  case (1 cnt)
  then show ?case by simp
next
  case (2 cnt x xs)
  have "(if 0 < cnt \<and> cnt mod 3 = 0 then 1 else 0) + (cnt - 1) div 3 = cnt div 3"
    by (cases cnt) (auto simp: div_Suc mod_Suc split: if_splits)
  with "2.IH" show ?case by (auto split: if_splits)
qed

text \<open>The loop fills the gap \<open>gap\<close> left of \<open>post\<close> exactly with the separated digits.\<close>

lemma length_Suc_rev: "length xs = Suc n \<Longrightarrow> \<exists>ys y. xs = ys @ [y] \<and> length ys = n"
  by (cases xs rule: rev_cases) auto

lemma strlen_append_zero: "0 \<notin> set bs \<Longrightarrow> strlen (bs @ 0 # rest) = Some (length bs)"
  by (induction bs) auto

lemma commas_loop_eq:
  "s \<le> length raw \<Longrightarrow> length gap = length (commafy cnt (rev (take s raw))) \<Longrightarrow>
     commas_loop raw (gap @ post) s (length gap) cnt =
     Some (rev (commafy cnt (rev (take s raw))) @ post)"
proof (induction s arbitrary: gap post cnt)
  case 0
  then show ?case by simp
next
  case (Suc s)
  have rev: "rev (take (Suc s) raw) = raw ! s # rev (take s raw)"
    using Suc.prems by (simp add: take_Suc_conv_app_nth)
  show ?case
  proof (cases "0 < cnt \<and> cnt mod 3 = 0")
    case True
    with Suc.prems rev have "length gap = Suc (Suc (length (commafy (Suc cnt) (rev (take s raw)))))"
      by simp
    then obtain gap' a b where g: "gap = gap' @ [a, b]"
      and l: "length gap' = length (commafy (Suc cnt) (rev (take s raw)))"
      using length_Suc_rev by (metis append.assoc append_Cons append_Nil)
    have "commas_loop raw (gap @ post) (Suc s) (length gap) cnt =
        commas_loop raw (gap' @ raw ! s # 44 # post) s (length gap') (Suc cnt)"
      unfolding g commas_loop.simps if_P [OF True] by (simp add: put_at_def list_update_append)
    moreover have "commafy cnt (rev (take (Suc s) raw)) = 44 # raw ! s # commafy (Suc cnt) (rev (take s raw))"
      unfolding rev commafy.simps if_P [OF True] by simp
    ultimately show ?thesis using Suc.IH [OF _ l, of "raw ! s # 44 # post"] Suc.prems(1) by simp
  next
    case False
    with Suc.prems rev have "length gap = Suc (length (commafy (Suc cnt) (rev (take s raw))))"
      by auto
    then obtain gap' a where g: "gap = gap' @ [a]"
      and l: "length gap' = length (commafy (Suc cnt) (rev (take s raw)))"
      using length_Suc_rev by metis
    have "commas_loop raw (gap @ post) (Suc s) (length gap) cnt =
        commas_loop raw (gap' @ raw ! s # post) s (length gap') (Suc cnt)"
      unfolding g commas_loop.simps if_not_P [OF False] by (simp add: put_at_def list_update_append)
    moreover have "commafy cnt (rev (take (Suc s) raw)) = raw ! s # commafy (Suc cnt) (rev (take s raw))"
      unfolding rev commafy.simps if_not_P [OF False] by simp
    ultimately show ?thesis using Suc.IH [OF _ l, of "raw ! s # post"] Suc.prems(1) by simp
  qed
qed


lemma filter_commafy:
  "(\<And>c. c \<in> set xs \<Longrightarrow> 48 \<le> c \<and> c \<le> 57) \<Longrightarrow>
     filter (\<lambda>c. 48 \<le> c \<and> c \<le> 57) (commafy cnt xs) = xs"
  by (induction cnt xs rule: commafy.induct) auto

lemma set_commafy: "set (commafy cnt xs) \<subseteq> insert 44 (set xs)"
  by (induction cnt xs rule: commafy.induct) auto

lemma stoi_commas_loop_eq:
  "0 \<notin> set xs \<Longrightarrow> stoi_commas_loop (xs @ 0 # rest) r =
     Some (foldl (\<lambda>r c. r * 10 + (ucast c - 48)) r (filter (\<lambda>c. 48 \<le> c \<and> c \<le> 57) xs))"
  by (induction xs arbitrary: r) auto

lemma foldl_digits_loop:
  "(\<And>c. c \<in> set xs \<Longrightarrow> 48 \<le> c \<and> c \<le> 57) \<Longrightarrow>
     digits_loop (xs @ 0 # rest) r = Some (foldl (\<lambda>r c. r * 10 + (ucast c - 48)) r xs)"
  by (induction xs arbitrary: r) auto

definition separated :: "nat \<Rightarrow> u8 list" where
  "separated n = rev (commafy 0 (rev (decimal n)))"

lemma length_separated: "length (separated n) = length (decimal n) + (length (decimal n) - 1) div 3"
  using length_commafy [of 0 "rev (decimal n)"] by (simp add: separated_def)

lemma filter_separated: "filter (\<lambda>c. 48 \<le> c \<and> c \<le> 57) (separated n) = decimal n"
  using filter_commafy [of "rev (decimal n)" 0] decimal_ascii [of _ n]
  by (simp add: separated_def rev_filter [symmetric])

lemma separated_nonzero: "0 \<notin> set (separated n)"
  using set_commafy [of 0 "rev (decimal n)"] decimal_ascii [of 0 n] by (auto simp: separated_def)

lemma stoi_commas_separated: "stoi_commas_loop (separated n @ 0 # rest) 0 = Some (of_nat n)"
proof -
  have "digits_loop (decimal n @ 0 # rest) 0 = Some (foldl (\<lambda>r c. r * 10 + (ucast c - 48)) 0 (decimal n))"
    using decimal_ascii [of _ n] by (intro foldl_digits_loop) simp
  then show ?thesis
    using digits_loop_value [of n rest]
    by (simp add: stoi_commas_loop_eq separated_nonzero filter_separated)
qed

lemma itos_commas_eq:
  assumes "length (separated (unat v)) < length dest"
  shows "itos_commas v dest =
           Some (separated (unat v) @ 0 # drop (Suc (length (separated (unat v)))) dest)"
proof -
  let ?n = "unat v" let ?ds = "decimal (unat v)" let ?k = "length (separated (unat v))"
  have len: "length ?ds \<le> 10" using unat_u32_less [of v] by (intro length_decimal) simp
  define raw where "raw = ?ds @ 0 # drop (Suc (length ?ds)) (replicate 11 (0 :: u8))"
  have raw: "utos v (replicate 11 0) = Some raw"
    using len by (simp add: utos_eq store_fits raw_def)
  have "strlen raw = Some (length ?ds)"
    using decimal_ascii [of 0 ?n] unfolding raw_def by (subst strlen_append_zero) auto
  moreover have "put_at dest (?k + 1) 0 = Some (take ?k dest @ 0 # drop (Suc ?k) dest)"
    using assms by (simp add: put_at_def upd_conv_take_nth_drop)
  moreover have "commas_loop raw (take ?k dest @ 0 # drop (Suc ?k) dest) (length ?ds) ?k 0 =
      Some (separated ?n @ 0 # drop (Suc ?k) dest)"
    using commas_loop_eq [of "length ?ds" raw "take ?k dest" 0 "0 # drop (Suc ?k) dest"] assms
    by (simp add: raw_def separated_def)
  ultimately show ?thesis
    using raw by (simp add: itos_commas_def length_separated)
qed

text \<open>
  \<open>itos_commas\<close> into a buffer of the 14 bytes its header asks for never writes out of bounds,
  writes exactly the decimal digits of the unsigned value with separators between them, and
  \<open>stoi_commas\<close> reads the value back.
\<close>

theorem commas_roundtrip:
  assumes "14 \<le> length dest"
  shows "\<exists>s. itos_commas v dest = Some s \<and> stoi_commas (Some s) = Some v
           \<and> filter (\<lambda>c. c \<noteq> 44) (separated (unat v)) = decimal (unat v)
           \<and> take (length (separated (unat v))) s = separated (unat v)"
proof -
  have "length (decimal (unat v)) \<le> 10" using unat_u32_less [of v] by (intro length_decimal) simp
  then have "length (separated (unat v)) \<le> 13" by (simp add: length_separated)
  moreover have "filter (\<lambda>c. c \<noteq> 44) (separated (unat v)) = filter (\<lambda>c. 48 \<le> c \<and> c \<le> 57) (separated (unat v))"
    using set_commafy [of 0 "rev (decimal (unat v))"] decimal_ascii [of _ "unat v"]
    by (intro filter_cong) (auto simp: separated_def)
  ultimately show ?thesis
    using assms by (simp add: itos_commas_eq stoi_commas_def stoi_commas_separated filter_separated)
qed

theorem commas_roundtrip_witness:
  "\<exists>s. itos_commas 1234567 (replicate 14 0) = Some s \<and> stoi_commas (Some s) = Some 1234567"
  using commas_roundtrip [of "replicate 14 0" 1234567] by auto


section \<open>Hexadecimal text\<close>

lemma and_mask_eq_mod_16: "unat (v AND 15 :: u32) = unat v mod 16"
proof -
  have "v AND 15 = take_bit 4 v" by (simp add: take_bit_eq_mask mask_eq_exp_minus_1)
  then show ?thesis by (simp add: take_bit_eq_mod unat_mod_distrib)
qed

abbreviation hexadecimal :: "nat \<Rightarrow> u8 list" where
  "hexadecimal n \<equiv> map ((!) hex_digits) (numeral_digits 16 n)"

lemma utox_loop_eq:
  "length buf + length (hexadecimal (unat v)) \<le> 8 \<Longrightarrow>
     utox_loop v buf = Some (buf @ rev (hexadecimal (unat v)))"
proof (induction v buf rule: utox_loop.induct)
  case (1 v buf)
  have digit: "unat (v AND 15) = unat v mod 16"
    using and_mask_eq_mod_16 [of v] by simp
  have len: "\<not> 8 \<le> length buf"
    using "1.prems" numeral_digits_nonempty [of 16 "unat v"] by (cases "numeral_digits 16 (unat v)") auto
  have shift: "unat (drop_bit 4 v) = unat v div 16"
    by (simp add: drop_bit_eq_div unat_div_distrib)
  then have pos: "drop_bit 4 v > 0 \<longleftrightarrow> \<not> unat v < 16"
    by (simp add: word_pos_iff_unat div_greater_zero_iff not_less)
  show ?case
  proof (cases "unat v < 16")
    case True
    then show ?thesis
      using len pos by (simp add: utox_loop.simps [of v] numeral_digits.simps [of 16 "unat v"] digit Let_def)
  next
    case False
    then have "hexadecimal (unat v) = hexadecimal (unat (drop_bit 4 v)) @ [hex_digits ! (unat v mod 16)]"
      by (simp add: numeral_digits.simps [of 16 "unat v"] shift)
    with False show ?thesis
      using len pos "1.prems" "1.IH" [OF len refl refl]
      by (simp add: utox_loop.simps [of v] digit Let_def)
  qed
qed

lemma utox_eq: "utox v dest = store dest (hexadecimal (unat v) @ [0])"
proof -
  have "length (hexadecimal (unat v)) \<le> 8"
    using unat_u32_less [of v] length_numeral_digits [of 16 "unat v" 7] by simp
  then show ?thesis by (simp add: utox_def utox_loop_eq)
qed

text \<open>
  \<open>u8tox\<close>, \<open>u16tox\<close> and \<open>u32tox\<close> write the hexadecimal digits of the value without leading zeros
  and a terminator, and never past the 3, 5 and 9 bytes the header asks for.
\<close>

theorem hex_text:
  assumes "3 \<le> length d8" and "5 \<le> length d16" and "9 \<le> length d32"
  shows "u8tox a d8 = Some (hexadecimal (unat a) @ 0 # drop (Suc (length (hexadecimal (unat a)))) d8)
       \<and> u16tox b d16 = Some (hexadecimal (unat b) @ 0 # drop (Suc (length (hexadecimal (unat b)))) d16)
       \<and> u32tox c d32 = Some (hexadecimal (unat c) @ 0 # drop (Suc (length (hexadecimal (unat c)))) d32)"
proof -
  have "length (hexadecimal (unat a)) \<le> 2"
    using unat_u8_less [of a] length_numeral_digits [of 16 "unat a" 1] by simp
  moreover have "length (hexadecimal (unat b)) \<le> 4"
    using unsigned_less [of b, where ?'a = nat] length_numeral_digits [of 16 "unat b" 3] by simp
  moreover have "length (hexadecimal (unat c)) \<le> 8"
    using unat_u32_less [of c] length_numeral_digits [of 16 "unat c" 7] by simp
  moreover have "unat (ucast a :: u32) = unat a" "unat (ucast b :: u32) = unat b"
    using unat_u8_less [of a] unsigned_less [of b, where ?'a = nat]
    by (simp_all add: unsigned_ucast_eq take_bit_nat_eq_self)
  ultimately show ?thesis
    using assms by (simp add: u8tox_def u16tox_def u32tox_def utox_eq store_fits)
qed

theorem hex_text_witness:
  "\<exists>r. u16tox 0xBEEF (replicate 5 0) = Some (hexadecimal (unat (0xBEEF :: u16)) @ 0 # r)"
  using hex_text [of "replicate 3 0" "replicate 5 0" "replicate 9 0" 0 "0xBEEF" 0] by simp

end
