(* ===== verification/FirstFit.thy ===== *)
theory FirstFit
  imports Prelude
begin

text \<open>
  The search that every allocator of the kernel repeats (the kernel heap, the AVR heap, the virtual
  page bitmap, the file system's block bitmap): walk the units from the first usable one on, count
  the current run of free units, and stop as soon as the run is long enough. And the interface the
  search needs: a store of bits, one per unit, whose set and clear operations touch one bit only.
\<close>

section \<open>The scan\<close>

fun first_fit :: "(nat \<Rightarrow> bool) \<Rightarrow> nat \<Rightarrow> nat list \<Rightarrow> nat \<Rightarrow> nat \<Rightarrow> nat option" where
  "first_fit used need [] found start = None"
| "first_fit used need (i # rest) found start =
     (if used i then first_fit used need rest 0 start
      else let start' = (if found = 0 then i else start)
           in if need \<le> Suc found then Some start'
              else first_fit used need rest (Suc found) start')"

lemma first_fit_cong:
  "(\<And>i. i \<in> set is \<Longrightarrow> used i = used' i) \<Longrightarrow> first_fit used need is found start = first_fit used' need is found start"
  by (induction "is" arbitrary: found start) (auto simp: Let_def)

text \<open>A \<open>for\<close> loop that applies an operation to \<open>n\<close> consecutive units.\<close>

definition apply_range :: "(nat \<Rightarrow> 's \<Rightarrow> 's) \<Rightarrow> nat \<Rightarrow> nat \<Rightarrow> 's \<Rightarrow> 's" where
  "apply_range f k n s = fold (\<lambda>i s. f (k + i) s) [0..<n] s"

lemma apply_range_0 [simp]: "apply_range f k 0 s = s"
  by (simp add: apply_range_def)

lemma apply_range_Suc [simp]: "apply_range f k (Suc n) s = f (k + n) (apply_range f k n s)"
  by (simp add: apply_range_def)

definition free_run :: "(nat \<Rightarrow> bool) \<Rightarrow> nat \<Rightarrow> nat \<Rightarrow> bool" where
  "free_run used k n \<longleftrightarrow> (\<forall>i. k \<le> i \<and> i < k + n \<longrightarrow> \<not> used i)"

lemma free_run_0 [simp]: "free_run used k 0"
  by (auto simp: free_run_def)

lemma free_run_Suc [simp]: "free_run used k (Suc n) \<longleftrightarrow> free_run used k n \<and> \<not> used (k + n)"
  by (auto simp: free_run_def less_Suc_eq)

text \<open>
  The state of the scan at unit \<open>i\<close>: the last \<open>found\<close> units are free, they began at \<open>start\<close>, and no
  window of \<open>need\<close> free units begins before them.
\<close>

definition scan_state :: "(nat \<Rightarrow> bool) \<Rightarrow> nat \<Rightarrow> nat \<Rightarrow> nat \<Rightarrow> nat \<Rightarrow> nat \<Rightarrow> bool" where
  "scan_state used need lo i found start \<longleftrightarrow>
     found < need \<and> lo + found \<le> i \<and> free_run used (i - found) found \<and> (0 < found \<longrightarrow> start + found = i)
     \<and> (\<forall>j. lo \<le> j \<and> j + found < i \<longrightarrow> \<not> free_run used j need)"

lemma scan_state_used:
  "scan_state used need lo i found start \<Longrightarrow> used i \<Longrightarrow> scan_state used need lo (Suc i) 0 start"
proof -
  assume s: "scan_state used need lo i found start" and u: "used i"
  have "\<not> free_run used j need" if "lo \<le> j" "j < Suc i" for j
  proof (cases "j + found < i")
    case True
    then show ?thesis using s that by (simp add: scan_state_def)
  next
    case False
    moreover have "found < need" using s by (simp add: scan_state_def)
    ultimately show ?thesis using u that unfolding free_run_def by (intro notI) (elim allE [of _ i], auto)
  qed
  then show ?thesis using s by (auto simp: scan_state_def)
qed

lemma scan_state_free:
  assumes "scan_state used need lo i found start" "\<not> used i" "Suc found < need"
  shows "scan_state used need lo (Suc i) (Suc found) (if found = 0 then i else start)"
  using assms by (auto simp: scan_state_def Suc_diff_le)

lemma first_fit_scan:
  "scan_state used need lo i found start \<Longrightarrow> i \<le> hi \<Longrightarrow>
     (case first_fit used need [i..<hi] found start of
        Some k \<Rightarrow> lo \<le> k \<and> k + need \<le> hi \<and> free_run used k need \<and> (\<forall>j. lo \<le> j \<and> j < k \<longrightarrow> \<not> free_run used j need)
      | None \<Rightarrow> \<forall>j. lo \<le> j \<and> j + need \<le> hi \<longrightarrow> \<not> free_run used j need)"
proof (induction "hi - i" arbitrary: i found start)
  case 0
  then show ?case by (auto simp: scan_state_def)
next
  case (Suc d)
  then have upt: "[i..<hi] = i # [Suc i..<hi]" by (simp add: upt_conv_Cons)
  show ?case
  proof (cases "used i")
    case True
    then show ?thesis
      using Suc.hyps(1) [of "Suc i" 0 start] Suc.hyps(2) Suc.prems scan_state_used
      unfolding upt by simp
  next
    case False
    let ?s = "if found = 0 then i else start"
    show ?thesis
    proof (cases "need \<le> Suc found")
      case True
      then have need: "need = Suc found" using Suc.prems by (simp add: scan_state_def)
      have st: "?s + found = i" "?s = i - found" using Suc.prems by (auto simp: scan_state_def)
      have "free_run used ?s need"
        using Suc.prems False unfolding need st(2) by (auto simp: scan_state_def)
      moreover have "lo \<le> ?s" "\<forall>j. lo \<le> j \<and> j < ?s \<longrightarrow> \<not> free_run used j need"
        using Suc.prems st by (auto simp: scan_state_def)
      moreover have "?s + need \<le> hi" using need st Suc.hyps(2) by simp
      ultimately show ?thesis using True False unfolding upt by (simp add: Let_def)
    next
      case more: False
      then have "scan_state used need lo (Suc i) (Suc found) ?s"
        using scan_state_free [OF Suc.prems(1) False] by simp
      then show ?thesis
        using Suc.hyps(1) [of "Suc i" "Suc found" ?s] Suc.hyps(2) False more
        unfolding upt by (simp add: Let_def)
    qed
  qed
qed

text \<open>The scan finds the lowest window of free units, and finds one whenever there is one.\<close>

lemma first_fit_Some:
  assumes "first_fit used need [lo..<hi] 0 s = Some k" "0 < need"
  shows "lo \<le> k" "k + need \<le> hi" "free_run used k need"
    and "lo \<le> j \<Longrightarrow> j < k \<Longrightarrow> \<not> free_run used j need"
proof -
  have lohi: "lo \<le> hi" using assms(1) by (cases "lo \<le> hi") auto
  have "scan_state used need lo lo 0 s" using assms(2) by (auto simp: scan_state_def)
  from first_fit_scan [OF this lohi] assms(1)
  show "lo \<le> k" "k + need \<le> hi" "free_run used k need"
    and "lo \<le> j \<Longrightarrow> j < k \<Longrightarrow> \<not> free_run used j need" by simp_all
qed

lemma first_fit_None:
  assumes "first_fit used need [lo..<hi] 0 s = None" "0 < need" "lo \<le> j" "j + need \<le> hi"
  shows "\<not> free_run used j need"
proof -
  have "scan_state used need lo lo 0 s" using assms(2) by (auto simp: scan_state_def)
  from first_fit_scan [OF this, of hi] assms show ?thesis by simp
qed

text \<open>The byte and the bit a unit has in a bitmap.\<close>

lemma block_index_word:
  assumes "i < 4294967296"
  shows "(of_nat i :: u32) div 8 = of_nat (i div 8)" "unat ((of_nat i :: u32) mod 8) = i mod 8"
proof -
  have "unat ((of_nat i :: u32) div 8) = i div 8"
    using assms by (simp add: unat_div_distrib unat_of_nat_u32)
  then show "(of_nat i :: u32) div 8 = of_nat (i div 8)"
    using assms by (simp add: word_unat_eq_iff unat_of_nat_u32)
  show "unat ((of_nat i :: u32) mod 8) = i mod 8"
    using assms by (simp add: unat_mod_distrib unat_of_nat_u32)
qed

lemma same_bit: "j div 8 = i div 8 \<Longrightarrow> (j mod 8 = i mod 8) = (j = (i :: nat))"
  by (metis div_mult_mod_eq)

section \<open>The interface: a store of bits\<close>

text \<open>
  \<open>used i s\<close> reads bit \<open>i\<close>; \<open>rest\<close> is everything of the state that is not a bit of the store. The
  laws hold in the states where the layout invariant \<open>inv\<close> holds, below the capacity.
\<close>

locale bit_store =
  fixes inv :: "'s \<Rightarrow> bool" and cap :: "'s \<Rightarrow> nat" and used :: "nat \<Rightarrow> 's \<Rightarrow> bool"
    and set_bit :: "nat \<Rightarrow> 's \<Rightarrow> 's" and clear_bit :: "nat \<Rightarrow> 's \<Rightarrow> 's" and rest :: "'s \<Rightarrow> 'r"
  assumes used_set: "inv s \<Longrightarrow> i < cap s \<Longrightarrow> j < cap s \<Longrightarrow> used j (set_bit i s) = (j = i \<or> used j s)"
    and used_clear: "inv s \<Longrightarrow> i < cap s \<Longrightarrow> j < cap s \<Longrightarrow> used j (clear_bit i s) = (j \<noteq> i \<and> used j s)"
    and inv_set: "inv s \<Longrightarrow> i < cap s \<Longrightarrow> inv (set_bit i s)"
    and inv_clear: "inv s \<Longrightarrow> i < cap s \<Longrightarrow> inv (clear_bit i s)"
    and cap_set: "inv s \<Longrightarrow> i < cap s \<Longrightarrow> cap (set_bit i s) = cap s"
    and cap_clear: "inv s \<Longrightarrow> i < cap s \<Longrightarrow> cap (clear_bit i s) = cap s"
    and rest_set: "inv s \<Longrightarrow> i < cap s \<Longrightarrow> rest (set_bit i s) = rest s"
    and rest_clear: "inv s \<Longrightarrow> i < cap s \<Longrightarrow> rest (clear_bit i s) = rest s"
begin

lemma set_range:
  "inv s \<Longrightarrow> k + n \<le> cap s \<Longrightarrow>
     inv (apply_range set_bit k n s) \<and> cap (apply_range set_bit k n s) = cap s
     \<and> rest (apply_range set_bit k n s) = rest s
     \<and> (\<forall>j < cap s. used j (apply_range set_bit k n s) = (k \<le> j \<and> j < k + n \<or> used j s))"
  by (induction n) (auto simp: used_set inv_set cap_set rest_set)

lemma clear_range:
  "inv s \<Longrightarrow> k + n \<le> cap s \<Longrightarrow>
     inv (apply_range clear_bit k n s) \<and> cap (apply_range clear_bit k n s) = cap s
     \<and> rest (apply_range clear_bit k n s) = rest s
     \<and> (\<forall>j < cap s. used j (apply_range clear_bit k n s) = (\<not> (k \<le> j \<and> j < k + n) \<and> used j s))"
  by (induction n) (auto simp: used_clear inv_clear cap_clear rest_clear)

text \<open>Clearing a range that the scan had found free and that was then set restores every bit.\<close>

lemma set_then_clear:
  assumes "inv s" "k + n \<le> cap s" "free_run (\<lambda>i. used i s) k n" "j < cap s"
  shows "used j (apply_range clear_bit k n (apply_range set_bit k n s)) = used j s"
  using set_range [OF assms(1,2)] clear_range [of "apply_range set_bit k n s" k n] assms
  by (auto simp: free_run_def)

lemma scan_and_set:
  assumes "inv s" "0 < need" "hi \<le> cap s"
    and "first_fit (\<lambda>i. used i s) need [lo..<hi] 0 z = Some k"
  shows "lo \<le> k \<and> k + need \<le> hi \<and> free_run (\<lambda>i. used i s) k need \<and> inv (apply_range set_bit k need s)
       \<and> rest (apply_range set_bit k need s) = rest s
       \<and> (\<forall>j < cap s. used j (apply_range set_bit k need s) = (k \<le> j \<and> j < k + need \<or> used j s))"
  using first_fit_Some [OF assms(4,2)] set_range [OF assms(1), of k need] assms(3) by auto

end

end
