(* ===== verification/KHeap.thy ===== *)
theory KHeap
  imports FirstFit
begin

text \<open>
  The kernel heap of the 32-bit x86 build, \<open>kernel/arch/x86/heap.c\<close>: a first-fit block allocator over
  a byte range of physical memory that begins with the used-bitmap and its dirty map. The globals of
  the file and the memory they point into are one record; the interrupt flag of the processor is part
  of it because the public entry points run with interrupts off. A \<open>kernel_crashout\<close> never returns, so
  an out-of-memory panic is the value \<open>Inl OutOfMemory\<close>.
\<close>

section \<open>State and helpers\<close>

record kheap =
  kmalloc_block_size :: u32
  kmalloc_pool_size :: u32
  kmalloc_block_count :: u32
  kmalloc_bitmap_size :: u32
  kmalloc_reserved_blocks :: u32
  kmalloc_bitmap :: u32
  kmalloc_dirty :: u32
  heap_begin :: u32
  mem :: memory
  irq_on :: bool

datatype panic = OutOfMemory

definition KMALLOC_NULL :: u32 where "KMALLOC_NULL = 0xFFFFFFFF"
definition KMALLOC_MAGIC :: u8 where "KMALLOC_MAGIC = 0x55"
definition KMALLOC_HEADER_SIZE :: u32 where "KMALLOC_HEADER_SIZE = 16"

text \<open>\<open>struct KMallocHeader\<close> is aligned to 16 bytes: 8 bytes of fields and 8 of padding.\<close>

record kmalloc_header =
  h_size :: u32
  h_flags :: u8
  h_type :: u8
  h_perm :: u8
  h_magic :: u8
  h_pad :: "u8 list"

definition header_bytes :: "kmalloc_header \<Rightarrow> u8 list" where
  "header_bytes hdr = word_le 4 (h_size hdr) @ [h_flags hdr, h_type hdr, h_perm hdr, h_magic hdr] @ h_pad hdr"

definition bytes_header :: "u8 list \<Rightarrow> kmalloc_header" where
  "bytes_header bs = \<lparr> h_size = le_word (take 4 bs), h_flags = bs ! 4, h_type = bs ! 5, h_perm = bs ! 6,
                       h_magic = bs ! 7, h_pad = drop 8 bs \<rparr>"

definition kmalloc_heap_data_begin :: "kheap \<Rightarrow> u32" where
  "kmalloc_heap_data_begin h = kmalloc_reserved_blocks h * kmalloc_block_size h"

definition heap_memset :: "u32 \<Rightarrow> u8 \<Rightarrow> u32 \<Rightarrow> kheap \<Rightarrow> kheap" where
  "heap_memset a c n h = h\<lparr>mem := mem_write (mem h) a (replicate (unat n) c)\<rparr>"

definition kmalloc_bitmap_set :: "u32 \<Rightarrow> u32 \<Rightarrow> kheap \<Rightarrow> kheap" where
  "kmalloc_bitmap_set bmp dty h =
     (let h1 = h\<lparr>kmalloc_bitmap := bmp, kmalloc_dirty := dty\<rparr>
      in if dty \<noteq> 0 then heap_memset dty 0 (kmalloc_bitmap_size h1) h1 else h1)"

definition heap_set_base_address :: "u32 \<Rightarrow> kheap \<Rightarrow> kheap" where
  "heap_set_base_address base h = h\<lparr>heap_begin := base\<rparr>"

definition heap_get_base_address :: "kheap \<Rightarrow> u32" where
  "heap_get_base_address h = heap_begin h"

definition kmalloc_bitmap_mark_dirty :: "u32 \<Rightarrow> kheap \<Rightarrow> kheap" where
  "kmalloc_bitmap_mark_dirty i h =
     (if kmalloc_dirty h \<noteq> 0 then h\<lparr>mem := (mem h)(kmalloc_dirty h + i := 1)\<rparr> else h)"

definition bitmap_write_step :: "nat \<Rightarrow> kheap \<Rightarrow> kheap" where
  "bitmap_write_step i h =
     (if mem h (kmalloc_dirty h + of_nat i) = 0 then h
      else let m1 = (mem h)(heap_begin h + of_nat i := mem h (kmalloc_bitmap h + of_nat i))
           in h\<lparr>mem := m1(kmalloc_dirty h + of_nat i := 0)\<rparr>)"

definition kmalloc_bitmap_write :: "kheap \<Rightarrow> kheap" where
  "kmalloc_bitmap_write h =
     (if kmalloc_bitmap h = 0 then h
      else if kmalloc_dirty h = 0
      then h\<lparr>mem := mem_write (mem h) (heap_begin h)
                      (mem_read (mem h) (kmalloc_bitmap h) (unat (kmalloc_bitmap_size h)))\<rparr>
      else fold bitmap_write_step [0..<unat (kmalloc_bitmap_size h)] h)"

definition kmalloc_bitmap_read :: "kheap \<Rightarrow> kheap" where
  "kmalloc_bitmap_read h =
     (if kmalloc_bitmap h = 0 then h
      else let h1 = h\<lparr>mem := mem_write (mem h) (kmalloc_bitmap h)
                               (mem_read (mem h) (heap_begin h) (unat (kmalloc_bitmap_size h)))\<rparr>
           in if kmalloc_dirty h1 \<noteq> 0
              then heap_memset (kmalloc_dirty h1) 0 (kmalloc_bitmap_size h1) h1 else h1)"

definition kmalloc_header_write :: "u32 \<Rightarrow> kmalloc_header \<Rightarrow> kheap \<Rightarrow> kheap" where
  "kmalloc_header_write a hdr h = h\<lparr>mem := mem_write (mem h) (heap_begin h + a) (header_bytes hdr)\<rparr>"

definition kmalloc_header_read :: "u32 \<Rightarrow> kheap \<Rightarrow> kmalloc_header" where
  "kmalloc_header_read a h = bytes_header (mem_read (mem h) (heap_begin h + a) 16)"

definition kmalloc_blocks_required :: "u32 \<Rightarrow> kheap \<Rightarrow> u32" where
  "kmalloc_blocks_required sz h =
     (if sz = 0 then 0 else (sz + (kmalloc_block_size h - 1)) div kmalloc_block_size h)"

definition kmalloc_block_is_used :: "u32 \<Rightarrow> kheap \<Rightarrow> bool" where
  "kmalloc_block_is_used i h =
     (mem h (kmalloc_bitmap h + i div 8) AND push_bit (unat (i mod 8)) 1 \<noteq> 0)"

definition kmalloc_block_set_used :: "u32 \<Rightarrow> kheap \<Rightarrow> kheap" where
  "kmalloc_block_set_used i h =
     (let byte_index = i div 8;
          old_value = mem h (kmalloc_bitmap h + byte_index);
          new_value = old_value OR push_bit (unat (i mod 8)) 1
      in if new_value \<noteq> old_value
         then kmalloc_bitmap_mark_dirty byte_index
                (h\<lparr>mem := (mem h)(kmalloc_bitmap h + byte_index := new_value)\<rparr>)
         else h)"

definition kmalloc_block_set_free :: "u32 \<Rightarrow> kheap \<Rightarrow> kheap" where
  "kmalloc_block_set_free i h =
     (let byte_index = i div 8;
          old_value = mem h (kmalloc_bitmap h + byte_index);
          new_value = old_value AND NOT (push_bit (unat (i mod 8)) 1)
      in if new_value \<noteq> old_value
         then kmalloc_bitmap_mark_dirty byte_index
                (h\<lparr>mem := (mem h)(kmalloc_bitmap h + byte_index := new_value)\<rparr>)
         else h)"

section \<open>Operations\<close>

definition kmalloc_is_valid :: "u32 \<Rightarrow> kheap \<Rightarrow> bool" where
  "kmalloc_is_valid address h =
     (if address = KMALLOC_NULL then False
      else if address < heap_begin h + kmalloc_heap_data_begin h + KMALLOC_HEADER_SIZE then False
      else if address \<ge> heap_begin h + kmalloc_pool_size h then False
      else let header_abs = address - KMALLOC_HEADER_SIZE; header_rel = header_abs - heap_begin h
           in if header_rel < kmalloc_heap_data_begin h \<or> header_abs \<ge> heap_begin h + kmalloc_pool_size h
              then False
              else let header = kmalloc_header_read header_rel h
                   in if h_magic header \<noteq> KMALLOC_MAGIC \<or> h_size header = 0 then False
                      else let total_size = h_size header + KMALLOC_HEADER_SIZE;
                               required = kmalloc_blocks_required total_size h;
                               start = header_rel div kmalloc_block_size h
                           in if required = 0 \<or> start < kmalloc_reserved_blocks h then False
                              else \<not> start + required > kmalloc_block_count h)"

definition heap_get_block_size :: "kheap \<Rightarrow> u32" where
  "heap_get_block_size h = kmalloc_block_size h"

definition heap_get_total_memory :: "kheap \<Rightarrow> u32" where
  "heap_get_total_memory h = kmalloc_pool_size h"

definition heap_init :: "u32 \<Rightarrow> u32 \<Rightarrow> kheap \<Rightarrow> kheap" where
  "heap_init bsz total_memory h =
     (if bsz = 0 \<or> total_memory = 0
      then h\<lparr>kmalloc_block_size := 0, kmalloc_pool_size := 0, kmalloc_block_count := 0,
             kmalloc_bitmap_size := 0, kmalloc_reserved_blocks := 0\<rparr>
      else let count = total_memory div bsz; bmsize = (count + 7) div 8;
               overhead = bmsize * 2;
               h1 = h\<lparr>kmalloc_block_size := bsz, kmalloc_pool_size := total_memory,
                      kmalloc_block_count := count, kmalloc_bitmap_size := bmsize,
                      kmalloc_bitmap := heap_begin h, kmalloc_dirty := heap_begin h + bmsize,
                      kmalloc_reserved_blocks := (overhead + bsz - 1) div bsz\<rparr>;
               h2 = heap_memset (kmalloc_bitmap h1) 0 bmsize h1;
               h3 = heap_memset (kmalloc_dirty h1) 0 bmsize h2
           in kmalloc_bitmap_write h3)"

definition kmalloc_unlocked :: "u32 \<Rightarrow> kheap \<Rightarrow> panic + u32 \<times> kheap" where
  "kmalloc_unlocked sz h =
     (if sz = 0 then Inr (KMALLOC_NULL, h)
      else if kmalloc_block_size h = 0 \<or> kmalloc_pool_size h = 0 \<or> kmalloc_bitmap h = 0
      then Inr (KMALLOC_NULL, h)
      else let total_size = sz + KMALLOC_HEADER_SIZE;
               required = kmalloc_blocks_required total_size h
           in if required = 0 \<or> required > kmalloc_block_count h - kmalloc_reserved_blocks h
              then Inr (KMALLOC_NULL, h)
              else (case first_fit (\<lambda>i. kmalloc_block_is_used (of_nat i) h) (unat required)
                           [unat (kmalloc_reserved_blocks h)..<unat (kmalloc_block_count h)] 0 0 of
                      None \<Rightarrow> Inl OutOfMemory
                    | Some start \<Rightarrow>
                        let h1 = apply_range (\<lambda>i. kmalloc_block_set_used (of_nat i)) start (unat required) h;
                            rel = of_nat start * kmalloc_block_size h1;
                            header = \<lparr> h_size = sz, h_flags = 0, h_type = 0, h_perm = 0,
                                       h_magic = KMALLOC_MAGIC, h_pad = replicate 8 0 \<rparr>;
                            h2 = kmalloc_header_write rel header h1;
                            h3 = kmalloc_bitmap_write h2
                        in Inr (heap_begin h3 + rel + KMALLOC_HEADER_SIZE, h3)))"

definition kfree_unlocked :: "u32 \<Rightarrow> kheap \<Rightarrow> kheap" where
  "kfree_unlocked address h =
     (if \<not> kmalloc_is_valid address h then h
      else let rel = (address - KMALLOC_HEADER_SIZE) - heap_begin h;
               header = kmalloc_header_read rel h;
               total_size = h_size header + KMALLOC_HEADER_SIZE;
               required = kmalloc_blocks_required total_size h;
               start = rel div kmalloc_block_size h
           in if start < kmalloc_reserved_blocks h \<or> start + required > kmalloc_block_count h then h
              else let h1 = kmalloc_header_write rel \<lparr> h_size = 0, h_flags = 0, h_type = 0, h_perm = 0,
                                                       h_magic = 0, h_pad = replicate 8 0 \<rparr> h;
                       h2 = apply_range (\<lambda>i. kmalloc_block_set_free (of_nat i)) (unat start) (unat required) h1
                   in kmalloc_bitmap_write h2)"

text \<open>The public entry points run with interrupts off and restore the flag they found.\<close>

definition irq_save :: "kheap \<Rightarrow> bool \<times> kheap" where
  "irq_save h = (irq_on h, h\<lparr>irq_on := False\<rparr>)"

definition irq_restore :: "bool \<Rightarrow> kheap \<Rightarrow> kheap" where
  "irq_restore flags h = h\<lparr>irq_on := flags\<rparr>"

definition kmalloc :: "u32 \<Rightarrow> kheap \<Rightarrow> panic + u32 \<times> kheap" where
  "kmalloc sz h =
     (let (flags, h1) = irq_save h
      in case kmalloc_unlocked sz h1 of
           Inl e \<Rightarrow> Inl e
         | Inr (address, h2) \<Rightarrow> Inr (address, irq_restore flags h2))"

definition kfree :: "u32 \<Rightarrow> kheap \<Rightarrow> kheap" where
  "kfree address h = (let (flags, h1) = irq_save h in irq_restore flags (kfree_unlocked address h1))"


definition kmalloc_get_header :: "u32 \<Rightarrow> kheap \<Rightarrow> kmalloc_header" where
  "kmalloc_get_header address h =
     kmalloc_header_read ((address - KMALLOC_HEADER_SIZE) - heap_begin h) h"

definition kmalloc_get_type :: "u32 \<Rightarrow> kheap \<Rightarrow> u8" where
  "kmalloc_get_type address h =
     (if \<not> kmalloc_is_valid address h then 0 else h_type (kmalloc_get_header address h))"

definition kmalloc_set_type :: "u32 \<Rightarrow> u8 \<Rightarrow> kheap \<Rightarrow> kheap" where
  "kmalloc_set_type address v h =
     (let (flags, h1) = irq_save h
      in if \<not> kmalloc_is_valid address h1 then irq_restore flags h1
         else let rel = (address - KMALLOC_HEADER_SIZE) - heap_begin h1;
                  header = (kmalloc_header_read rel h1)\<lparr>h_type := v\<rparr>
              in irq_restore flags (kmalloc_header_write rel header h1))"

definition kmalloc_get_flags :: "u32 \<Rightarrow> kheap \<Rightarrow> u8" where
  "kmalloc_get_flags address h =
     (if \<not> kmalloc_is_valid address h then 0 else h_flags (kmalloc_get_header address h))"

definition kmalloc_set_flags :: "u32 \<Rightarrow> u8 \<Rightarrow> kheap \<Rightarrow> kheap" where
  "kmalloc_set_flags address v h =
     (let (flags, h1) = irq_save h
      in if \<not> kmalloc_is_valid address h1 then irq_restore flags h1
         else let rel = (address - KMALLOC_HEADER_SIZE) - heap_begin h1;
                  header = (kmalloc_header_read rel h1)\<lparr>h_flags := v\<rparr>
              in irq_restore flags (kmalloc_header_write rel header h1))"

definition kmalloc_get_permissions :: "u32 \<Rightarrow> kheap \<Rightarrow> u8" where
  "kmalloc_get_permissions address h =
     (if \<not> kmalloc_is_valid address h then 0 else h_perm (kmalloc_get_header address h))"

definition kmalloc_set_permissions :: "u32 \<Rightarrow> u8 \<Rightarrow> kheap \<Rightarrow> kheap" where
  "kmalloc_set_permissions address v h =
     (let (flags, h1) = irq_save h
      in if \<not> kmalloc_is_valid address h1 then irq_restore flags h1
         else let rel = (address - KMALLOC_HEADER_SIZE) - heap_begin h1;
                  header = (kmalloc_header_read rel h1)\<lparr>h_perm := v\<rparr>
              in irq_restore flags (kmalloc_header_write rel header h1))"

definition kmalloc_get_size :: "u32 \<Rightarrow> kheap \<Rightarrow> u32" where
  "kmalloc_get_size address h =
     (if \<not> kmalloc_is_valid address h then 0 else h_size (kmalloc_get_header address h))"

fun next_loop :: "nat list \<Rightarrow> kheap \<Rightarrow> u32" where
  "next_loop [] h = KMALLOC_NULL"
| "next_loop (i # rest) h =
     (if \<not> kmalloc_block_is_used (of_nat i) h then next_loop rest h
      else let rel = of_nat i * kmalloc_block_size h
           in if rel < kmalloc_heap_data_begin h then next_loop rest h
              else let header = kmalloc_header_read rel h
                   in if h_magic header \<noteq> KMALLOC_MAGIC \<or> h_size header = 0 then next_loop rest h
                      else if rel + KMALLOC_HEADER_SIZE \<ge> kmalloc_pool_size h then next_loop rest h
                      else heap_begin h + rel + KMALLOC_HEADER_SIZE)"

definition kmalloc_next :: "u32 \<Rightarrow> kheap \<Rightarrow> u32" where
  "kmalloc_next previous h =
     (if previous = KMALLOC_NULL
      then next_loop [unat (kmalloc_reserved_blocks h)..<unat (kmalloc_block_count h)] h
      else if \<not> kmalloc_is_valid previous h then KMALLOC_NULL
      else let rel = (previous - KMALLOC_HEADER_SIZE) - heap_begin h;
               header = kmalloc_header_read rel h;
               total_size = h_size header + KMALLOC_HEADER_SIZE;
               used_blocks = kmalloc_blocks_required total_size h;
               start = rel div kmalloc_block_size h + used_blocks
           in next_loop [unat start..<unat (kmalloc_block_count h)] h)"

definition kmem_write :: "u32 \<Rightarrow> u8 list \<Rightarrow> kheap \<Rightarrow> kheap" where
  "kmem_write destination source h = h\<lparr>mem := mem_write (mem h) destination source\<rparr>"

definition kmem_read :: "u32 \<Rightarrow> u32 \<Rightarrow> kheap \<Rightarrow> u8 list" where
  "kmem_read source sz h = mem_read (mem h) source (unat sz)"

definition kmemset :: "u32 \<Rightarrow> u8 \<Rightarrow> u32 \<Rightarrow> kheap \<Rightarrow> kheap" where
  "kmemset destination v sz h = heap_memset destination v sz h"

section \<open>Layout\<close>

text \<open>
  The configuration \<open>heap_init\<close> establishes: the pool lies below the end of memory, the bitmap and the
  dirty map are its first bytes and end before the first block that can be allocated.
\<close>

definition heap_layout :: "kheap \<Rightarrow> bool" where
  "heap_layout h \<longleftrightarrow>
     kmalloc_block_size h \<noteq> 0 \<and> heap_begin h \<noteq> 0
     \<and> unat (heap_begin h) + unat (kmalloc_pool_size h) < 4294967296
     \<and> unat (kmalloc_block_count h) * unat (kmalloc_block_size h) \<le> unat (kmalloc_pool_size h)
     \<and> unat (kmalloc_block_count h) \<le> 8 * unat (kmalloc_bitmap_size h)
     \<and> kmalloc_bitmap h = heap_begin h \<and> kmalloc_dirty h = heap_begin h + kmalloc_bitmap_size h
     \<and> kmalloc_reserved_blocks h \<le> kmalloc_block_count h
     \<and> 2 * unat (kmalloc_bitmap_size h) \<le> unat (kmalloc_reserved_blocks h) * unat (kmalloc_block_size h)"

text \<open>Everything but the bytes of the bitmap and of the dirty map.\<close>

definition heap_rest :: "kheap \<Rightarrow> kheap" where
  "heap_rest h =
     h\<lparr>mem := (\<lambda>x. if in_range (heap_begin h) (2 * unat (kmalloc_bitmap_size h)) x then 0 else mem h x)\<rparr>"

definition heap_cap :: "kheap \<Rightarrow> nat" where
  "heap_cap h = unat (kmalloc_block_count h)"

abbreviation heap_used :: "nat \<Rightarrow> kheap \<Rightarrow> bool" where
  "heap_used i h \<equiv> kmalloc_block_is_used (of_nat i) h"

lemma heap_rest_fields [simp]:
  "kmalloc_block_size (heap_rest h) = kmalloc_block_size h"
  "kmalloc_pool_size (heap_rest h) = kmalloc_pool_size h"
  "kmalloc_block_count (heap_rest h) = kmalloc_block_count h"
  "kmalloc_bitmap_size (heap_rest h) = kmalloc_bitmap_size h"
  "kmalloc_reserved_blocks (heap_rest h) = kmalloc_reserved_blocks h"
  "kmalloc_bitmap (heap_rest h) = kmalloc_bitmap h"
  "kmalloc_dirty (heap_rest h) = kmalloc_dirty h"
  "heap_begin (heap_rest h) = heap_begin h"
  "irq_on (heap_rest h) = irq_on h"
  by (simp_all add: heap_rest_def)

lemma heap_layout_rest [simp]: "heap_layout (heap_rest h) = heap_layout h"
  by (simp add: heap_layout_def)

lemma heap_rest_config:
  assumes "heap_rest h' = heap_rest h"
  shows "kmalloc_block_size h' = kmalloc_block_size h" "kmalloc_pool_size h' = kmalloc_pool_size h"
    "kmalloc_block_count h' = kmalloc_block_count h" "kmalloc_bitmap_size h' = kmalloc_bitmap_size h"
    "kmalloc_reserved_blocks h' = kmalloc_reserved_blocks h" "kmalloc_bitmap h' = kmalloc_bitmap h"
    "kmalloc_dirty h' = kmalloc_dirty h" "heap_begin h' = heap_begin h" "irq_on h' = irq_on h"
    "heap_layout h' = heap_layout h" "heap_cap h' = heap_cap h"
  using assms by (metis heap_rest_fields heap_layout_rest heap_cap_def)+

lemma heap_rest_mem:
  assumes "heap_rest h' = heap_rest h" "\<not> in_range (heap_begin h) (2 * unat (kmalloc_bitmap_size h)) x"
  shows "mem h' x = mem h x"
proof -
  have "mem (heap_rest h') x = mem (heap_rest h) x" using assms(1) by simp
  then show ?thesis
    using assms(2) heap_rest_config(4,8) [OF assms(1)] by (simp add: heap_rest_def)
qed


section \<open>The bitmap is a store of bits\<close>

lemma layout_span:
  assumes "heap_layout h"
  shows "unat (kmalloc_reserved_blocks h) * unat (kmalloc_block_size h) \<le> unat (kmalloc_pool_size h)"
    and "2 * unat (kmalloc_bitmap_size h) \<le> unat (kmalloc_pool_size h)"
proof -
  have "unat (kmalloc_reserved_blocks h) * unat (kmalloc_block_size h)
      \<le> unat (kmalloc_block_count h) * unat (kmalloc_block_size h)"
    using assms by (intro mult_le_mono1) (simp add: heap_layout_def word_le_nat_alt)
  then show "unat (kmalloc_reserved_blocks h) * unat (kmalloc_block_size h) \<le> unat (kmalloc_pool_size h)"
    and "2 * unat (kmalloc_bitmap_size h) \<le> unat (kmalloc_pool_size h)"
    using assms unfolding heap_layout_def by linarith+
qed

lemma heap_rest_upd:
  "in_range (heap_begin h) (2 * unat (kmalloc_bitmap_size h)) a \<Longrightarrow>
     heap_rest (h\<lparr>mem := (mem h)(a := v)\<rparr>) = heap_rest h"
  by (auto simp: heap_rest_def fun_eq_iff)

lemma dirty_addr:
  "kmalloc_dirty h = heap_begin h + kmalloc_bitmap_size h \<Longrightarrow>
     kmalloc_dirty h + of_nat b = heap_begin h + of_nat (unat (kmalloc_bitmap_size h) + b)"
  by simp

lemma base_offset_eq:
  "b < 4294967296 \<Longrightarrow> c < 4294967296 \<Longrightarrow> (a :: u32) + of_nat b = a + of_nat c \<longleftrightarrow> b = c"
  by (simp add: of_nat_eq_u32)

lemma bitmap_update:
  assumes l: "heap_layout h" and b0: "b0 < unat (kmalloc_bitmap_size h)"
    and h': "h' = (if v \<noteq> mem h (kmalloc_bitmap h + of_nat b0)
                   then kmalloc_bitmap_mark_dirty (of_nat b0)
                          (h\<lparr>mem := (mem h)(kmalloc_bitmap h + of_nat b0 := v)\<rparr>) else h)"
  shows "heap_rest h' = heap_rest h"
    and "b < unat (kmalloc_bitmap_size h) \<Longrightarrow>
           mem h' (heap_begin h + of_nat b) = (if b = b0 then v else mem h (heap_begin h + of_nat b))"
proof -
  have bmp: "kmalloc_bitmap h = heap_begin h" and dty: "kmalloc_dirty h = heap_begin h + kmalloc_bitmap_size h"
    using l by (simp_all add: heap_layout_def)
  have bound: "2 * unat (kmalloc_bitmap_size h) < 4294967296"
    using layout_span(2) [OF l] unat_u32_less [of "kmalloc_pool_size h"] by simp
  let ?h1 = "h\<lparr>mem := (mem h)(heap_begin h + of_nat b0 := v)\<rparr>"
  have "heap_rest ?h1 = heap_rest h"
    using b0 bound by (intro heap_rest_upd) (simp add: in_range_offset)
  moreover have "heap_rest (kmalloc_bitmap_mark_dirty (of_nat b0) ?h1) = heap_rest ?h1"
    using b0 bound
    by (auto simp: kmalloc_bitmap_mark_dirty_def dirty_addr [OF dty] in_range_offset
        simp del: of_nat_add fun_upd_apply intro!: heap_rest_upd [of ?h1, simplified])
  ultimately show "heap_rest h' = heap_rest h" by (simp add: h' bmp)
  assume b: "b < unat (kmalloc_bitmap_size h)"
  show "mem h' (heap_begin h + of_nat b) = (if b = b0 then v else mem h (heap_begin h + of_nat b))"
    using b b0 bound
    by (auto simp: h' bmp kmalloc_bitmap_mark_dirty_def dirty_addr [OF dty] base_offset_eq
        simp del: of_nat_add add_left_cancel)
qed

lemma heap_cap_bounds:
  assumes "heap_layout h" "i < heap_cap h"
  shows "i < 4294967296" "i div 8 < unat (kmalloc_bitmap_size h)"
  using assms unat_u32_less [of "kmalloc_block_count h"] by (auto simp: heap_cap_def heap_layout_def)

lemma heap_used_bit:
  assumes "heap_layout h" "i < heap_cap h"
  shows "heap_used i h = bit (mem h (heap_begin h + of_nat (i div 8))) (i mod 8)"
proof -
  have "kmalloc_bitmap h = heap_begin h" using assms by (simp add: heap_layout_def)
  then show ?thesis
    using block_index_word [OF heap_cap_bounds(1) [OF assms]]
    by (simp add: kmalloc_block_is_used_def bit_mask_simps)
qed

lemma set_used_props:
  assumes l: "heap_layout h" and i: "i < heap_cap h"
  shows "heap_rest (kmalloc_block_set_used (of_nat i) h) = heap_rest h"
    and "j < heap_cap h \<Longrightarrow>
           heap_used j (kmalloc_block_set_used (of_nat i) h) = (j = i \<or> heap_used j h)"
proof -
  let ?h' = "kmalloc_block_set_used (of_nat i) h"
  let ?v = "mem h (kmalloc_bitmap h + of_nat (i div 8)) OR 2 ^ (i mod 8)"
  have h': "?h' = (if ?v \<noteq> mem h (kmalloc_bitmap h + of_nat (i div 8))
      then kmalloc_bitmap_mark_dirty (of_nat (i div 8))
             (h\<lparr>mem := (mem h)(kmalloc_bitmap h + of_nat (i div 8) := ?v)\<rparr>) else h)"
    using block_index_word [OF heap_cap_bounds(1) [OF l i]]
    by (simp add: kmalloc_block_set_used_def Let_def)
  note u = bitmap_update [OF l heap_cap_bounds(2) [OF l i] h']
  show rest: "heap_rest ?h' = heap_rest h" by (rule u(1))
  assume j: "j < heap_cap h"
  have "kmalloc_bitmap h = heap_begin h" using l by (simp add: heap_layout_def)
  moreover have "heap_used j ?h' = bit (mem ?h' (heap_begin h + of_nat (j div 8))) (j mod 8)"
    using heap_used_bit [of ?h' j] heap_rest_config [OF rest] l j by simp
  ultimately show "heap_used j ?h' = (j = i \<or> heap_used j h)"
    using u(2) [of "j div 8"] heap_cap_bounds [OF l j] heap_used_bit [OF l j] same_bit [of j i]
    by (auto simp: bit_mask_simps)
qed

lemma set_free_props:
  assumes l: "heap_layout h" and i: "i < heap_cap h"
  shows "heap_rest (kmalloc_block_set_free (of_nat i) h) = heap_rest h"
    and "j < heap_cap h \<Longrightarrow>
           heap_used j (kmalloc_block_set_free (of_nat i) h) = (j \<noteq> i \<and> heap_used j h)"
proof -
  let ?h' = "kmalloc_block_set_free (of_nat i) h"
  let ?v = "mem h (kmalloc_bitmap h + of_nat (i div 8)) AND NOT (2 ^ (i mod 8))"
  have h': "?h' = (if ?v \<noteq> mem h (kmalloc_bitmap h + of_nat (i div 8))
      then kmalloc_bitmap_mark_dirty (of_nat (i div 8))
             (h\<lparr>mem := (mem h)(kmalloc_bitmap h + of_nat (i div 8) := ?v)\<rparr>) else h)"
    using block_index_word [OF heap_cap_bounds(1) [OF l i]]
    by (simp add: kmalloc_block_set_free_def Let_def)
  note u = bitmap_update [OF l heap_cap_bounds(2) [OF l i] h']
  show rest: "heap_rest ?h' = heap_rest h" by (rule u(1))
  assume j: "j < heap_cap h"
  have "kmalloc_bitmap h = heap_begin h" using l by (simp add: heap_layout_def)
  moreover have "heap_used j ?h' = bit (mem ?h' (heap_begin h + of_nat (j div 8))) (j mod 8)"
    using heap_used_bit [of ?h' j] heap_rest_config [OF rest] l j by simp
  ultimately show "heap_used j ?h' = (j \<noteq> i \<and> heap_used j h)"
    using u(2) [of "j div 8"] heap_cap_bounds [OF l j] heap_used_bit [OF l j] same_bit [of j i]
    by (auto simp: bit_mask_simps)
qed

interpretation kheap_bits: bit_store heap_layout heap_cap "\<lambda>i. kmalloc_block_is_used (of_nat i)"
  "\<lambda>i. kmalloc_block_set_used (of_nat i)" "\<lambda>i. kmalloc_block_set_free (of_nat i)" heap_rest
  by unfold_locales
    (auto simp: set_used_props set_free_props heap_rest_config(10,11) [OF set_used_props(1)]
        heap_rest_config(10,11) [OF set_free_props(1)])

end
