(* ===== verification/KHeapInv.thy ===== *)
theory KHeapInv
  imports KHeap
begin

text \<open>
  What the kernel heap keeps: a ghost map \<open>live\<close> from the first block of every allocation to the size
  that was asked for, related to the bytes in memory by \<open>heap_inv\<close>. Every operation of the heap, and
  every write of a client inside its own allocation, preserves it.
\<close>

section \<open>Headers\<close>

lemma bytes_header_bytes [byte_simps]: "length (h_pad hdr) = 8 \<Longrightarrow> bytes_header (header_bytes hdr) = hdr"
  by (simp add: bytes_header_def header_bytes_def nth_append)

lemma length_header_bytes: "length (h_pad hdr) = 8 \<Longrightarrow> length (header_bytes hdr) = 16"
  by (simp add: header_bytes_def)

lemma length_pad_read: "length (h_pad (kmalloc_header_read a h)) = 8"
  by (simp add: kmalloc_header_read_def bytes_header_def)

section \<open>Writes outside the metadata\<close>

text \<open>A write of \<open>bs\<close> at byte offset \<open>a\<close> of the pool, beyond the bitmap and inside the pool.\<close>

definition region_write :: "nat \<Rightarrow> u8 list \<Rightarrow> kheap \<Rightarrow> kheap" where
  "region_write a bs h = h\<lparr>mem := mem_write (mem h) (heap_begin h + of_nat a) bs\<rparr>"

lemma region_write_fields [simp]:
  "kmalloc_block_size (region_write a bs h) = kmalloc_block_size h"
  "kmalloc_pool_size (region_write a bs h) = kmalloc_pool_size h"
  "kmalloc_block_count (region_write a bs h) = kmalloc_block_count h"
  "kmalloc_bitmap_size (region_write a bs h) = kmalloc_bitmap_size h"
  "kmalloc_reserved_blocks (region_write a bs h) = kmalloc_reserved_blocks h"
  "heap_begin (region_write a bs h) = heap_begin h"
  "irq_on (region_write a bs h) = irq_on h"
  "heap_layout (region_write a bs h) = heap_layout h"
  "heap_cap (region_write a bs h) = heap_cap h"
  by (simp_all add: region_write_def heap_layout_def heap_cap_def)

lemma pool_addr: "heap_layout h \<Longrightarrow> a \<le> unat (kmalloc_pool_size h) \<Longrightarrow>
    unat (heap_begin h + of_nat a) = unat (heap_begin h) + a"
  by (subst unat_add_u32) (auto simp: heap_layout_def unat_of_nat_u32)

lemma region_write_apply:
  assumes "heap_layout h" "a + length bs \<le> unat (kmalloc_pool_size h)" "b \<le> unat (kmalloc_pool_size h)"
  shows "mem (region_write a bs h) (heap_begin h + of_nat b) =
           (if a \<le> b \<and> b < a + length bs then bs ! (b - a) else mem h (heap_begin h + of_nat b))"
proof -
  have pool: "unat (kmalloc_pool_size h) < 4294967296" by (rule unat_u32_less)
  have u: "unat (heap_begin h + of_nat a) = unat (heap_begin h) + a"
    "unat (heap_begin h + of_nat b) = unat (heap_begin h) + b"
    using assms by (auto intro!: pool_addr)
  have le: "unat (heap_begin h) + a + length bs \<le> 4294967296"
    using assms by (simp add: heap_layout_def)
  have "in_range (heap_begin h + of_nat a) (length bs) (heap_begin h + of_nat b) \<longleftrightarrow> a \<le> b \<and> b < a + length bs"
    using in_range_iff [of "heap_begin h + of_nat a" "length bs" "heap_begin h + of_nat b"] u le by auto
  moreover have "a \<le> b \<Longrightarrow> unat ((heap_begin h + of_nat b) - (heap_begin h + of_nat a)) = b - a"
    using u by (subst unat_sub_u32) simp_all
  moreover have "length bs \<le> 4294967296" using assms pool by simp
  ultimately show ?thesis by (simp add: region_write_def mem_write_apply)
qed

lemma region_write_used:
  assumes "heap_layout h" "unat (kmalloc_reserved_blocks h) * unat (kmalloc_block_size h) \<le> a"
    and "a + length bs \<le> unat (kmalloc_pool_size h)" "i < heap_cap h"
  shows "heap_used i (region_write a bs h) = heap_used i h"
proof -
  have b: "i div 8 < unat (kmalloc_bitmap_size h)" using heap_cap_bounds(2) [OF assms(1,4)] .
  then have "i div 8 < a" "i div 8 \<le> unat (kmalloc_pool_size h)"
    using assms(1,2) layout_span(2) [OF assms(1)] by (auto simp: heap_layout_def)
  then show ?thesis
    using assms region_write_apply [OF assms(1,3), of "i div 8"] by (simp add: heap_used_bit)
qed

section \<open>Blocks\<close>

definition block_offset :: "nat \<Rightarrow> kheap \<Rightarrow> nat" where
  "block_offset k h = k * unat (kmalloc_block_size h)"

definition header_at :: "nat \<Rightarrow> kheap \<Rightarrow> kmalloc_header" where
  "header_at k h = kmalloc_header_read (of_nat k * kmalloc_block_size h) h"

definition blocks_of :: "u32 \<Rightarrow> kheap \<Rightarrow> nat" where
  "blocks_of sz h = ceil_div (unat sz + 16) (unat (kmalloc_block_size h))"

definition payload_of :: "nat \<Rightarrow> kheap \<Rightarrow> u32" where
  "payload_of k h = heap_begin h + of_nat k * kmalloc_block_size h + 16"

lemma block_size_pos: "heap_layout h \<Longrightarrow> 0 < unat (kmalloc_block_size h)"
  by (simp add: heap_layout_def unat_gt_0)

lemma block_offset_word: "of_nat k * kmalloc_block_size h = of_nat (block_offset k h)"
  by (simp add: block_offset_def)

lemma block_offset_le:
  assumes "heap_layout h" "k \<le> heap_cap h"
  shows "block_offset k h \<le> unat (kmalloc_pool_size h)"
proof -
  have "block_offset k h \<le> unat (kmalloc_block_count h) * unat (kmalloc_block_size h)"
    using assms(2) by (simp add: block_offset_def heap_cap_def)
  then show ?thesis using assms(1) unfolding heap_layout_def by linarith
qed

lemma block_offset_mono: "k \<le> k' \<Longrightarrow> block_offset k h \<le> block_offset k' h"
  by (simp add: block_offset_def)

lemma blocks_cover:
  assumes "heap_layout h"
  shows "block_offset k h + 16 + unat sz \<le> block_offset (k + blocks_of sz h) h"
proof -
  have "unat sz + 16 \<le> blocks_of sz h * unat (kmalloc_block_size h)"
    unfolding blocks_of_def using block_size_pos [OF assms] by (rule ceil_div_ge)
  then show ?thesis by (simp add: block_offset_def add_mult_distrib)
qed

lemma blocks_pos: "heap_layout h \<Longrightarrow> 0 < blocks_of sz h"
  unfolding blocks_of_def by (rule ceil_div_pos) (simp_all add: block_size_pos)

lemma reserved_pos:
  assumes "heap_layout h" "0 < heap_cap h"
  shows "0 < unat (kmalloc_reserved_blocks h)"
proof (rule ccontr)
  assume "\<not> 0 < unat (kmalloc_reserved_blocks h)"
  then show False using assms unfolding heap_layout_def heap_cap_def by simp
qed

lemma blocks_required_word:
  assumes l: "heap_layout h" and k: "unat (kmalloc_reserved_blocks h) \<le> k" "k + blocks_of sz h \<le> heap_cap h"
  shows "unat (kmalloc_blocks_required (sz + 16) h) = blocks_of sz h" "unat (sz + 16) = unat sz + 16"
proof -
  let ?d = "unat (kmalloc_block_size h)"
  have d: "0 < ?d" by (rule block_size_pos [OF l])
  have cap: "0 < heap_cap h" using k blocks_pos [OF l, of sz] by simp
  have "block_offset (Suc (blocks_of sz h)) h \<le> block_offset (k + blocks_of sz h) h"
    using k reserved_pos [OF l cap] by (intro block_offset_mono) simp
  also have "\<dots> \<le> unat (kmalloc_pool_size h)" by (rule block_offset_le [OF l k(2)])
  finally have "blocks_of sz h * ?d + ?d \<le> unat (kmalloc_pool_size h)" by (simp add: block_offset_def add.commute)
  moreover have "unat sz + 16 \<le> blocks_of sz h * ?d"
    unfolding blocks_of_def by (rule ceil_div_ge [OF d])
  ultimately have fit: "unat sz + 16 + ?d < 4294967296"
    using unat_u32_less [of "kmalloc_pool_size h"] l unfolding heap_layout_def by linarith
  show s: "unat (sz + 16) = unat sz + 16" using fit by (subst unat_add_u32) simp_all
  have "unat (kmalloc_block_size h - 1) = ?d - 1"
    using l by (intro unat_minus_one_u32) (simp add: heap_layout_def)
  then have "unat (sz + 16 + (kmalloc_block_size h - 1)) = unat sz + 16 + (?d - 1)"
    using fit d s by (subst unat_add_u32) simp_all
  moreover have "sz + 16 \<noteq> 0" using s by (metis add_is_0 unat_0 zero_neq_numeral)
  ultimately show "unat (kmalloc_blocks_required (sz + 16) h) = blocks_of sz h"
    by (simp add: kmalloc_blocks_required_def blocks_of_def ceil_div_def unat_div_distrib)
qed

lemma header_at_cong:
  assumes "heap_begin h' = heap_begin h" "kmalloc_block_size h' = kmalloc_block_size h"
    and "\<And>i. i < 16 \<Longrightarrow> mem h' (heap_begin h + of_nat (block_offset k h + i)) =
                       mem h (heap_begin h + of_nat (block_offset k h + i))"
  shows "header_at k h' = header_at k h"
proof -
  have "mem_read (mem h') (heap_begin h + of_nat (block_offset k h)) 16 =
        mem_read (mem h) (heap_begin h + of_nat (block_offset k h)) 16"
    using assms(3) by (intro mem_read_eqI) (simp add: add.assoc)
  moreover have "block_offset k h' = block_offset k h" using assms(2) by (simp add: block_offset_def)
  ultimately show ?thesis
    using assms(1) by (simp only: header_at_def kmalloc_header_read_def block_offset_word)
qed

lemma header_at_rest:
  assumes "heap_layout h" "heap_rest h' = heap_rest h" "unat (kmalloc_reserved_blocks h) \<le> k"
    and "block_offset k h + 16 \<le> unat (kmalloc_pool_size h)"
  shows "header_at k h' = header_at k h"
proof (rule header_at_cong)
  show "heap_begin h' = heap_begin h" "kmalloc_block_size h' = kmalloc_block_size h"
    using heap_rest_config [OF assms(2)] by simp_all
  fix i :: nat
  assume i: "i < 16"
  have "2 * unat (kmalloc_bitmap_size h) \<le> unat (kmalloc_reserved_blocks h) * unat (kmalloc_block_size h)"
    using assms(1) by (simp add: heap_layout_def)
  also have "\<dots> \<le> block_offset k h" using assms(3) by (simp add: block_offset_def)
  finally have "2 * unat (kmalloc_bitmap_size h) \<le> block_offset k h + i" by simp
  then show "mem h' (heap_begin h + of_nat (block_offset k h + i)) = mem h (heap_begin h + of_nat (block_offset k h + i))"
    using i assms(4) unat_u32_less [of "kmalloc_pool_size h"]
    by (intro heap_rest_mem [OF assms(2)]) (simp add: in_range_offset del: of_nat_add)
qed

lemma header_at_region:
  assumes "heap_layout h" "a + length bs \<le> unat (kmalloc_pool_size h)"
    and "block_offset k h + 16 \<le> unat (kmalloc_pool_size h)"
    and "a + length bs \<le> block_offset k h \<or> block_offset k h + 16 \<le> a"
  shows "header_at k (region_write a bs h) = header_at k h"
proof (rule header_at_cong)
  fix i :: nat
  assume "i < 16"
  then show "mem (region_write a bs h) (heap_begin h + of_nat (block_offset k h + i)) =
             mem h (heap_begin h + of_nat (block_offset k h + i))"
    using assms(3,4) by (subst region_write_apply [OF assms(1,2)]) auto
qed simp_all

lemma header_at_region_same:
  assumes "heap_layout h" "length (h_pad hdr) = 8" "block_offset k h + 16 \<le> unat (kmalloc_pool_size h)"
  shows "header_at k (region_write (block_offset k h) (header_bytes hdr) h) = hdr"
proof -
  have "block_offset k (region_write (block_offset k h) (header_bytes hdr) h) = block_offset k h"
    by (simp add: block_offset_def)
  then show ?thesis
    using assms mem_read_write_same [of "header_bytes hdr" "mem h" "heap_begin h + of_nat (block_offset k h)"]
    by (simp only: header_at_def kmalloc_header_read_def block_offset_word region_write_fields
        length_header_bytes bytes_header_bytes) (simp add: region_write_def length_header_bytes bytes_header_bytes)
qed


section \<open>Flushing the bitmap\<close>

lemma bitmap_write_step_props:
  assumes l: "heap_layout h" and i: "i < unat (kmalloc_bitmap_size h)"
  shows "heap_rest (bitmap_write_step i h) = heap_rest h"
    and "b < unat (kmalloc_bitmap_size h) \<Longrightarrow>
           mem (bitmap_write_step i h) (heap_begin h + of_nat b) = mem h (heap_begin h + of_nat b)"
proof -
  have bmp: "kmalloc_bitmap h = heap_begin h" and dty: "kmalloc_dirty h = heap_begin h + kmalloc_bitmap_size h"
    using l by (simp_all add: heap_layout_def)
  have bound: "2 * unat (kmalloc_bitmap_size h) < 4294967296"
    using layout_span(2) [OF l] unat_u32_less [of "kmalloc_pool_size h"] by simp
  let ?d = "heap_begin h + of_nat (unat (kmalloc_bitmap_size h) + i)"
  have step: "bitmap_write_step i h =
      (if mem h ?d = 0 then h else h\<lparr>mem := (mem h)(?d := 0)\<rparr>)"
    unfolding bitmap_write_step_def Let_def dirty_addr [OF dty] bmp by simp
  have "in_range (heap_begin h) (2 * unat (kmalloc_bitmap_size h)) ?d"
    using i bound by (subst in_range_offset) simp_all
  then show "heap_rest (bitmap_write_step i h) = heap_rest h"
    unfolding step by (simp add: heap_rest_upd del: of_nat_add fun_upd_apply)
  assume "b < unat (kmalloc_bitmap_size h)"
  then have "heap_begin h + of_nat b \<noteq> ?d" using i bound by (subst base_offset_eq) simp_all
  then show "mem (bitmap_write_step i h) (heap_begin h + of_nat b) = mem h (heap_begin h + of_nat b)"
    unfolding step by (simp del: of_nat_add add_left_cancel)
qed

lemma bitmap_write_steps:
  assumes "heap_layout h" "n \<le> unat (kmalloc_bitmap_size h)"
  shows "heap_rest (fold bitmap_write_step [0..<n] h) = heap_rest h
       \<and> (\<forall>b < unat (kmalloc_bitmap_size h).
            mem (fold bitmap_write_step [0..<n] h) (heap_begin h + of_nat b) = mem h (heap_begin h + of_nat b))"
  using assms(2)
proof (induction n)
  case 0
  then show ?case by simp
next
  case (Suc n)
  let ?h = "fold bitmap_write_step [0..<n] h"
  have IH: "heap_rest ?h = heap_rest h"
    "\<forall>b < unat (kmalloc_bitmap_size h). mem ?h (heap_begin h + of_nat b) = mem h (heap_begin h + of_nat b)"
    using Suc by simp_all
  note c = heap_rest_config [OF IH(1)]
  show ?case using bitmap_write_step_props [of ?h n] Suc.prems IH c assms(1) by simp
qed

lemma bitmap_write_props:
  assumes "heap_layout h"
  shows "heap_rest (kmalloc_bitmap_write h) = heap_rest h"
    and "i < heap_cap h \<Longrightarrow> heap_used i (kmalloc_bitmap_write h) = heap_used i h"
proof -
  have "kmalloc_dirty h \<noteq> 0"
  proof -
    have "unat (heap_begin h + of_nat (unat (kmalloc_bitmap_size h))) \<noteq> 0"
      using assms layout_span(2) [OF assms] pool_addr [OF assms, of "unat (kmalloc_bitmap_size h)"]
      by (auto simp: heap_layout_def unat_eq_zero)
    then show ?thesis using assms by (auto simp: heap_layout_def)
  qed
  then have w: "kmalloc_bitmap_write h = fold bitmap_write_step [0..<unat (kmalloc_bitmap_size h)] h"
    using assms by (simp add: kmalloc_bitmap_write_def heap_layout_def)
  note s = bitmap_write_steps [OF assms order_refl]
  show r: "heap_rest (kmalloc_bitmap_write h) = heap_rest h" unfolding w using s by simp
  assume i: "i < heap_cap h"
  then show "heap_used i (kmalloc_bitmap_write h) = heap_used i h"
    using heap_used_bit [OF assms i] heap_used_bit [of "kmalloc_bitmap_write h" i]
      heap_rest_config [OF r] assms s heap_cap_bounds(2) [OF assms i] by (simp add: w)
qed

section \<open>The invariant\<close>

definition live_ok :: "kheap \<Rightarrow> nat \<Rightarrow> u32 \<Rightarrow> bool" where
  "live_ok h k sz \<longleftrightarrow>
     sz \<noteq> 0 \<and> unat (kmalloc_reserved_blocks h) \<le> k \<and> k + blocks_of sz h \<le> heap_cap h
     \<and> h_size (header_at k h) = sz \<and> h_magic (header_at k h) = KMALLOC_MAGIC"

definition in_live :: "kheap \<Rightarrow> (nat \<rightharpoonup> u32) \<Rightarrow> nat \<Rightarrow> bool" where
  "in_live h live i \<longleftrightarrow> (\<exists>k sz. live k = Some sz \<and> k \<le> i \<and> i < k + blocks_of sz h)"

definition heap_inv :: "kheap \<Rightarrow> (nat \<rightharpoonup> u32) \<Rightarrow> bool" where
  "heap_inv h live \<longleftrightarrow>
     heap_layout h
     \<and> (\<forall>k sz. live k = Some sz \<longrightarrow> live_ok h k sz)
     \<and> (\<forall>k sz k' sz'. live k = Some sz \<longrightarrow> live k' = Some sz' \<longrightarrow> k < k' \<longrightarrow> k + blocks_of sz h \<le> k')
     \<and> (\<forall>i. unat (kmalloc_reserved_blocks h) \<le> i \<longrightarrow> i < heap_cap h \<longrightarrow> heap_used i h = in_live h live i)"

lemma heap_inv_layout: "heap_inv h live \<Longrightarrow> heap_layout h"
  by (simp add: heap_inv_def)

lemma heap_inv_live: "heap_inv h live \<Longrightarrow> live k = Some sz \<Longrightarrow> live_ok h k sz"
  by (simp add: heap_inv_def)

lemma heap_inv_used:
  "heap_inv h live \<Longrightarrow> unat (kmalloc_reserved_blocks h) \<le> i \<Longrightarrow> i < heap_cap h \<Longrightarrow>
     heap_used i h = in_live h live i"
  by (simp add: heap_inv_def)

lemma heap_inv_disjoint:
  assumes "heap_inv h live" "live k = Some sz" "live k' = Some sz'" "k \<noteq> k'"
  shows "k + blocks_of sz h \<le> k' \<or> k' + blocks_of sz' h \<le> k"
  using assms unfolding heap_inv_def by (metis nat_neq_iff)

lemma live_header_fits:
  assumes "heap_layout h" "live_ok h k sz"
  shows "block_offset k h + 16 + unat sz \<le> unat (kmalloc_pool_size h)"
  using blocks_cover [OF assms(1), of k sz] block_offset_le [OF assms(1), of "k + blocks_of sz h"] assms(2)
  by (simp add: live_ok_def)

lemma in_live_upd:
  "live k = None \<Longrightarrow> in_live h (live(k \<mapsto> sz)) i \<longleftrightarrow> (k \<le> i \<and> i < k + blocks_of sz h) \<or> in_live h live i"
proof -
  assume k: "live k = None"
  have "(\<exists>k' sz'. (live(k \<mapsto> sz)) k' = Some sz' \<and> P k' sz') \<longleftrightarrow> P k sz \<or> (\<exists>k' sz'. live k' = Some sz' \<and> P k' sz')"
    for P :: "nat \<Rightarrow> u32 \<Rightarrow> bool"
  proof
    assume "\<exists>k' sz'. (live(k \<mapsto> sz)) k' = Some sz' \<and> P k' sz'"
    then show "P k sz \<or> (\<exists>k' sz'. live k' = Some sz' \<and> P k' sz')" by (auto split: if_splits)
  next
    assume "P k sz \<or> (\<exists>k' sz'. live k' = Some sz' \<and> P k' sz')"
    then show "\<exists>k' sz'. (live(k \<mapsto> sz)) k' = Some sz' \<and> P k' sz'"
    proof
      assume "P k sz"
      then show ?thesis by (intro exI [of _ k] exI [of _ sz]) simp
    next
      assume "\<exists>k' sz'. live k' = Some sz' \<and> P k' sz'"
      then obtain k' sz' where "live k' = Some sz'" "P k' sz'" by auto
      then show ?thesis using k by (intro exI [of _ k'] exI [of _ sz']) auto
    qed
  qed
  then show ?thesis unfolding in_live_def .
qed

lemma in_live_cong: "blocks_of sz h' = blocks_of sz h \<Longrightarrow> kmalloc_block_size h' = kmalloc_block_size h \<Longrightarrow>
    in_live h' live i = in_live h live i"
  by (simp add: in_live_def blocks_of_def)

text \<open>A free window meets no live allocation.\<close>

lemma free_run_disjoint:
  assumes inv: "heap_inv h live" and live: "live k' = Some sz'" and "0 < need"
    and win: "unat (kmalloc_reserved_blocks h) \<le> k" "k + need \<le> heap_cap h"
    and free: "free_run (\<lambda>i. heap_used i h) k need"
  shows "k' + blocks_of sz' h \<le> k \<or> k + need \<le> k'"
proof (rule ccontr)
  assume "\<not> ?thesis"
  then have m: "max k k' < k + need" "max k k' < k' + blocks_of sz' h"
    using assms(3) blocks_pos [OF heap_inv_layout [OF inv], of sz'] by auto
  then have "in_live h live (max k k')"
    unfolding in_live_def using live by (intro exI [of _ k'] exI [of _ sz']) simp
  then have "heap_used (max k k') h"
    using heap_inv_used [OF inv, of "max k k'"] win m by simp
  then show False using free m by (simp add: free_run_def)
qed


section \<open>Allocation\<close>

text \<open>The three steps of a successful allocation: mark the blocks, write the header, flush.\<close>

definition allocate_at :: "nat \<Rightarrow> nat \<Rightarrow> kmalloc_header \<Rightarrow> kheap \<Rightarrow> kheap" where
  "allocate_at k need hdr h =
     kmalloc_bitmap_write
       (region_write (block_offset k h) (header_bytes hdr)
          (apply_range (\<lambda>i. kmalloc_block_set_used (of_nat i)) k need h))"

lemma allocate_at_inv:
  assumes inv: "heap_inv h live" and sz: "sz \<noteq> 0" and need: "need = blocks_of sz h"
    and win: "unat (kmalloc_reserved_blocks h) \<le> k" "k + need \<le> heap_cap h"
    and free: "free_run (\<lambda>i. heap_used i h) k need"
    and hdr: "length (h_pad hdr) = 8" "h_size hdr = sz" "h_magic hdr = KMALLOC_MAGIC"
  shows "heap_inv (allocate_at k need hdr h) (live(k \<mapsto> sz))" and "live k = None"
    and "kmalloc_block_size (allocate_at k need hdr h) = kmalloc_block_size h"
    and "heap_begin (allocate_at k need hdr h) = heap_begin h"
    and "irq_on (allocate_at k need hdr h) = irq_on h"
    and "\<not> in_range (heap_begin h) (2 * unat (kmalloc_bitmap_size h)) x \<Longrightarrow>
         \<not> in_range (heap_begin h + of_nat (block_offset k h)) 16 x \<Longrightarrow>
         mem (allocate_at k need hdr h) x = mem h x"
    and "kmalloc_reserved_blocks (allocate_at k need hdr h) = kmalloc_reserved_blocks h"
    and "heap_cap (allocate_at k need hdr h) = heap_cap h"
proof -
  have l: "heap_layout h" by (rule heap_inv_layout [OF inv])
  have need0: "0 < need" using need blocks_pos [OF l] by simp
  let ?h1 = "apply_range (\<lambda>i. kmalloc_block_set_used (of_nat i)) k need h"
  let ?h2 = "region_write (block_offset k h) (header_bytes hdr) ?h1"
  let ?h3 = "allocate_at k need hdr h"
  have h3: "?h3 = kmalloc_bitmap_write ?h2" by (simp add: allocate_at_def)
  note s = kheap_bits.set_range [OF l win(2)]
  have r1: "heap_rest ?h1 = heap_rest h" using s by simp
  note c1 = heap_rest_config [OF r1]
  have l2: "heap_layout ?h2" using l c1 by simp
  note r3 = bitmap_write_props [OF l2, folded h3]
  note c3 = heap_rest_config [OF r3(1)]
  have fit: "block_offset k h + 16 \<le> unat (kmalloc_pool_size h)"
    using blocks_cover [OF l, of k sz] block_offset_le [OF l win(2)] need by simp
  have res: "unat (kmalloc_reserved_blocks h) * unat (kmalloc_block_size h) \<le> block_offset k h"
    using win(1) by (simp add: block_offset_def)
  have len: "length (header_bytes hdr) = 16" by (rule length_header_bytes [OF hdr(1)])
  have used: "heap_used i ?h3 = (k \<le> i \<and> i < k + need \<or> heap_used i h)" if i: "i < heap_cap h" for i
    using r3(2) [of i] region_write_used [of ?h1 "block_offset k h" "header_bytes hdr" i]
      c1 l i len fit res s by simp
  have bo: "block_offset k' ?h2 = block_offset k' h" "block_offset k' ?h1 = block_offset k' h" for k'
    using c1 by (simp_all add: block_offset_def)
  have bl: "blocks_of sz' ?h3 = blocks_of sz' h" for sz'
    using c1 c3 by (simp add: blocks_of_def)
  have hat3: "header_at k' ?h3 = header_at k' ?h2"
    if "unat (kmalloc_reserved_blocks h) \<le> k'" "block_offset k' h + 16 \<le> unat (kmalloc_pool_size h)" for k'
    using header_at_rest [OF l2 r3(1), of k'] that bo c1 by simp
  have hat_k: "header_at k ?h3 = hdr"
    using hat3 [OF win(1) fit] header_at_region_same [of ?h1 hdr k] hdr(1) fit bo c1 l by simp
  show fresh: "live k = None"
  proof (rule ccontr)
    assume "live k \<noteq> None"
    then obtain sz' where "live k = Some sz'" by auto
    from free_run_disjoint [OF inv this need0 win free] show False
      using need0 blocks_pos [OF l, of sz'] by simp
  qed
  have hat_old: "header_at k' ?h3 = header_at k' h" if lv: "live k' = Some sz'" for k' sz'
  proof -
    have ok: "live_ok h k' sz'" by (rule heap_inv_live [OF inv lv])
    have fit': "block_offset k' h + 16 + unat sz' \<le> unat (kmalloc_pool_size h)"
      by (rule live_header_fits [OF l ok])
    have "block_offset k' h + 16 \<le> block_offset k h \<or> block_offset k h + 16 \<le> block_offset k' h"
      using free_run_disjoint [OF inv lv need0 win free] blocks_cover [OF l, of k' sz'] blocks_cover [OF l, of k sz]
        block_offset_mono [of "k' + blocks_of sz' h" k h] block_offset_mono [of "k + need" k' h] need
      by auto
    then have "header_at k' ?h2 = header_at k' ?h1"
      using header_at_region [of ?h1 "block_offset k h" "header_bytes hdr" k'] c1 l fit fit' bo len by auto
    moreover have "header_at k' ?h1 = header_at k' h"
      using header_at_rest [OF l r1, of k'] ok fit' by (simp add: live_ok_def)
    ultimately show ?thesis using hat3 [of k'] ok fit' by (simp add: live_ok_def)
  qed
  show "heap_inv ?h3 (live(k \<mapsto> sz))"
    unfolding heap_inv_def
  proof (intro conjI allI impI)
    show "heap_layout ?h3" using c3 l2 by simp
  next
    fix k' sz'
    assume lv: "(live(k \<mapsto> sz)) k' = Some sz'"
    show "live_ok ?h3 k' sz'"
    proof (cases "k' = k")
      case True
      then show ?thesis using lv hat_k hdr sz win need c1 c3 bl by (simp add: live_ok_def)
    next
      case False
      with lv have lv': "live k' = Some sz'" by simp
      then show ?thesis
        using heap_inv_live [OF inv lv'] hat_old [OF lv'] c1 c3 bl by (simp add: live_ok_def)
    qed
  next
    fix k1 sz1 k2 sz2
    assume a: "(live(k \<mapsto> sz)) k1 = Some sz1" "(live(k \<mapsto> sz)) k2 = Some sz2" "k1 < k2"
    then show "k1 + blocks_of sz1 ?h3 \<le> k2"
      using heap_inv_disjoint [OF inv, of k1 sz1 k2 sz2] free_run_disjoint [OF inv _ need0 win free] need bl
      by (auto split: if_splits) (metis add_leD1 leD)+
  next
    fix i
    assume "unat (kmalloc_reserved_blocks ?h3) \<le> i" "i < heap_cap ?h3"
    then show "heap_used i ?h3 = in_live ?h3 (live(k \<mapsto> sz)) i"
      using used [of i] heap_inv_used [OF inv, of i] c1 c3 need bl in_live_upd [of live k h sz i] fresh
        in_live_cong [of sz ?h3 h "live(k \<mapsto> sz)" i] by simp
  qed
  show "kmalloc_block_size ?h3 = kmalloc_block_size h" "heap_begin ?h3 = heap_begin h" "irq_on ?h3 = irq_on h"
    "kmalloc_reserved_blocks ?h3 = kmalloc_reserved_blocks h" "heap_cap ?h3 = heap_cap h"
    using c1 c3 by simp_all
  assume x: "\<not> in_range (heap_begin h) (2 * unat (kmalloc_bitmap_size h)) x"
    "\<not> in_range (heap_begin h + of_nat (block_offset k h)) 16 x"
  have "mem ?h3 x = mem ?h2 x" using heap_rest_mem [OF r3(1)] x c1 by simp
  also have "\<dots> = mem ?h1 x" using x len c1 by (simp add: region_write_def mem_write_apply)
  also have "\<dots> = mem h x" using heap_rest_mem [OF r1] x by simp
  finally show "mem ?h3 x = mem h x" .
qed


section \<open>Release\<close>

text \<open>The three steps of a release: erase the header, clear the blocks, flush.\<close>

definition release_at :: "nat \<Rightarrow> nat \<Rightarrow> kmalloc_header \<Rightarrow> kheap \<Rightarrow> kheap" where
  "release_at k need hdr h =
     kmalloc_bitmap_write (apply_range (\<lambda>i. kmalloc_block_set_free (of_nat i)) k need
       (region_write (block_offset k h) (header_bytes hdr) h))"

lemma release_at_inv:
  assumes inv: "heap_inv h live" and live: "live k = Some sz" and need: "need = blocks_of sz h"
    and hdr: "length (h_pad hdr) = 8"
  shows "heap_inv (release_at k need hdr h) (live(k := None))"
    and "header_at k (release_at k need hdr h) = hdr"
    and "kmalloc_block_size (release_at k need hdr h) = kmalloc_block_size h"
    and "heap_begin (release_at k need hdr h) = heap_begin h"
    and "irq_on (release_at k need hdr h) = irq_on h"
    and "i < heap_cap h \<Longrightarrow>
         heap_used i (release_at k need hdr h) = (\<not> (k \<le> i \<and> i < k + need) \<and> heap_used i h)"
    and "\<not> in_range (heap_begin h) (2 * unat (kmalloc_bitmap_size h)) x \<Longrightarrow>
         \<not> in_range (heap_begin h + of_nat (block_offset k h)) 16 x \<Longrightarrow>
         mem (release_at k need hdr h) x = mem h x"
    and "kmalloc_reserved_blocks (release_at k need hdr h) = kmalloc_reserved_blocks h"
    and "heap_cap (release_at k need hdr h) = heap_cap h"
proof -
  have l: "heap_layout h" by (rule heap_inv_layout [OF inv])
  have ok: "live_ok h k sz" by (rule heap_inv_live [OF inv live])
  have win: "unat (kmalloc_reserved_blocks h) \<le> k" "k + need \<le> heap_cap h"
    using ok need by (simp_all add: live_ok_def)
  let ?h1 = "region_write (block_offset k h) (header_bytes hdr) h"
  let ?h2 = "apply_range (\<lambda>i. kmalloc_block_set_free (of_nat i)) k need ?h1"
  let ?h3 = "release_at k need hdr h"
  have h3: "?h3 = kmalloc_bitmap_write ?h2" by (simp add: release_at_def)
  have l1: "heap_layout ?h1" using l by simp
  have fit: "block_offset k h + 16 \<le> unat (kmalloc_pool_size h)"
    using live_header_fits [OF l ok] by simp
  have res: "unat (kmalloc_reserved_blocks h) * unat (kmalloc_block_size h) \<le> block_offset k h"
    using win(1) by (simp add: block_offset_def)
  have len: "length (header_bytes hdr) = 16" by (rule length_header_bytes [OF hdr])
  have "k + need \<le> heap_cap ?h1" using win by simp
  note s = kheap_bits.clear_range [OF l1 this]
  have r2: "heap_rest ?h2 = heap_rest ?h1" using s by simp
  note c2 = heap_rest_config [OF r2]
  have l2: "heap_layout ?h2" using l1 c2 by simp
  note r3 = bitmap_write_props [OF l2, folded h3]
  note c3 = heap_rest_config [OF r3(1)]
  have r: "heap_rest ?h3 = heap_rest ?h1" using r3(1) r2 by simp
  show used: "heap_used i ?h3 = (\<not> (k \<le> i \<and> i < k + need) \<and> heap_used i h)" if i: "i < heap_cap h" for i
    using r3(2) [of i] region_write_used [of h "block_offset k h" "header_bytes hdr" i]
      c2 l i len fit res s by simp
  have bo: "block_offset k' ?h1 = block_offset k' h" for k'
    by (simp add: block_offset_def)
  have bl: "blocks_of sz' ?h3 = blocks_of sz' h" for sz'
    using c2 c3 by (simp add: blocks_of_def)
  have hat3: "header_at k' ?h3 = header_at k' ?h1"
    if "unat (kmalloc_reserved_blocks h) \<le> k'" "block_offset k' h + 16 \<le> unat (kmalloc_pool_size h)" for k'
    using header_at_rest [OF l1 r, of k'] that bo by simp
  show "header_at k ?h3 = hdr"
    using hat3 [OF win(1) fit] header_at_region_same [of h hdr k] hdr(1) fit l by simp
  have hat_old: "header_at k' ?h3 = header_at k' h" if lv: "live k' = Some sz'" and ne: "k' \<noteq> k" for k' sz'
  proof -
    have ok': "live_ok h k' sz'" by (rule heap_inv_live [OF inv lv])
    have fit': "block_offset k' h + 16 + unat sz' \<le> unat (kmalloc_pool_size h)"
      by (rule live_header_fits [OF l ok'])
    have "block_offset k' h + 16 \<le> block_offset k h \<or> block_offset k h + 16 \<le> block_offset k' h"
      using heap_inv_disjoint [OF inv lv live ne] blocks_cover [OF l, of k' sz'] blocks_cover [OF l, of k sz]
        block_offset_mono [of "k' + blocks_of sz' h" k h] block_offset_mono [of "k + need" k' h] need
      by auto
    then have "header_at k' ?h1 = header_at k' h"
      using header_at_region [of h "block_offset k h" "header_bytes hdr" k'] l fit fit' len by auto
    then show ?thesis using hat3 [of k'] ok' fit' by (simp add: live_ok_def)
  qed
  show "heap_inv ?h3 (live(k := None))"
    unfolding heap_inv_def
  proof (intro conjI allI impI)
    show "heap_layout ?h3" using c3 l2 by simp
  next
    fix k' sz'
    assume "(live(k := None)) k' = Some sz'"
    then have lv: "live k' = Some sz'" "k' \<noteq> k" by (auto split: if_splits)
    then show "live_ok ?h3 k' sz'"
      using heap_inv_live [OF inv lv(1)] hat_old [OF lv] c2 c3 bl by (simp add: live_ok_def)
  next
    fix k1 sz1 k2 sz2
    assume "(live(k := None)) k1 = Some sz1" "(live(k := None)) k2 = Some sz2" "k1 < k2"
    then show "k1 + blocks_of sz1 ?h3 \<le> k2"
      using heap_inv_disjoint [OF inv, of k1 sz1 k2 sz2] bl
      by (auto split: if_splits)
  next
    fix i
    assume i: "unat (kmalloc_reserved_blocks ?h3) \<le> i" "i < heap_cap ?h3"
    have "in_live h live i \<and> \<not> (k \<le> i \<and> i < k + need) \<longleftrightarrow> in_live h (live(k := None)) i"
    proof
      assume "in_live h live i \<and> \<not> (k \<le> i \<and> i < k + need)"
      then obtain k' sz' where "live k' = Some sz'" "k' \<le> i" "i < k' + blocks_of sz' h" "\<not> (k \<le> i \<and> i < k + need)"
        by (auto simp: in_live_def)
      then show "in_live h (live(k := None)) i"
        unfolding in_live_def using live need by (intro exI [of _ k'] exI [of _ sz']) auto
    next
      assume "in_live h (live(k := None)) i"
      then obtain k' sz' where a: "live k' = Some sz'" "k' \<noteq> k" "k' \<le> i" "i < k' + blocks_of sz' h"
        by (auto simp: in_live_def split: if_splits)
      then show "in_live h live i \<and> \<not> (k \<le> i \<and> i < k + need)"
        using heap_inv_disjoint [OF inv a(1) live a(2)] need by (auto simp: in_live_def)
    qed
    then show "heap_used i ?h3 = in_live ?h3 (live(k := None)) i"
      using used [of i] heap_inv_used [OF inv, of i] c2 c3 i
        in_live_cong [of sz ?h3 h "live(k := None)" i] bl by auto
  qed
  show "kmalloc_block_size ?h3 = kmalloc_block_size h" "heap_begin ?h3 = heap_begin h" "irq_on ?h3 = irq_on h"
    "kmalloc_reserved_blocks ?h3 = kmalloc_reserved_blocks h" "heap_cap ?h3 = heap_cap h"
    using c2 c3 by simp_all
  assume x: "\<not> in_range (heap_begin h) (2 * unat (kmalloc_bitmap_size h)) x"
    "\<not> in_range (heap_begin h + of_nat (block_offset k h)) 16 x"
  have "mem ?h3 x = mem ?h1 x" using heap_rest_mem [OF r] x by simp
  also have "\<dots> = mem h x" using x len by (simp add: region_write_def mem_write_apply)
  finally show "mem ?h3 x = mem h x" .
qed

end
