(* ===== verification/KHeapOps.thy ===== *)
theory KHeapOps
  imports KHeapInv
begin

text \<open>
  The entry points of the kernel heap against its ghost state: what \<open>kmalloc\<close> returns on every path,
  that \<open>kfree\<close> undoes it, that an address is valid exactly while it is allocated, and that
  \<open>kmalloc_next\<close> enumerates the live allocations in address order.
\<close>

section \<open>Addresses of live allocations\<close>

lemma live_address:
  assumes inv: "heap_inv h live" and live: "live k = Some sz"
  shows "unat (payload_of k h) = unat (heap_begin h) + block_offset k h + 16"
    and "payload_of k h - KMALLOC_HEADER_SIZE - heap_begin h = of_nat (block_offset k h)"
    and "unat (of_nat (block_offset k h) :: u32) = block_offset k h"
    and "of_nat (block_offset k h) div kmalloc_block_size h = of_nat k"
    and "unat (of_nat k :: u32) = k"
    and "kmalloc_header_read (of_nat (block_offset k h)) h = header_at k h"
    and "unat (kmalloc_blocks_required (sz + KMALLOC_HEADER_SIZE) h) = blocks_of sz h"
    and "block_offset k h + 16 + unat sz \<le> unat (kmalloc_pool_size h)"
proof -
  have l: "heap_layout h" by (rule heap_inv_layout [OF inv])
  have ok: "live_ok h k sz" by (rule heap_inv_live [OF inv live])
  have pool: "unat (heap_begin h) + unat (kmalloc_pool_size h) < 4294967296"
    using l by (simp add: heap_layout_def)
  show fit: "block_offset k h + 16 + unat sz \<le> unat (kmalloc_pool_size h)"
    by (rule live_header_fits [OF l ok])
  have w: "payload_of k h = heap_begin h + of_nat (block_offset k h + 16)"
    by (simp add: payload_of_def block_offset_word)
  show "unat (payload_of k h) = unat (heap_begin h) + block_offset k h + 16"
    unfolding w using fit by (subst pool_addr [OF l]) simp_all
  show "payload_of k h - KMALLOC_HEADER_SIZE - heap_begin h = of_nat (block_offset k h)"
    by (simp add: payload_of_def block_offset_word KMALLOC_HEADER_SIZE_def)
  show u: "unat (of_nat (block_offset k h) :: u32) = block_offset k h"
    using fit pool by (intro unat_of_nat_u32) simp
  have "k \<le> heap_cap h" using ok by (simp add: live_ok_def)
  then show uk: "unat (of_nat k :: u32) = k"
    using unat_u32_less [of "kmalloc_block_count h"] by (intro unat_of_nat_u32) (simp add: heap_cap_def)
  have "unat (of_nat (block_offset k h) div kmalloc_block_size h) = k"
    unfolding unat_div_distrib u using block_size_pos [OF l] by (simp add: block_offset_def)
  then show "of_nat (block_offset k h) div kmalloc_block_size h = of_nat k"
    using uk by (simp only: word_unat_eq_iff)
  show "kmalloc_header_read (of_nat (block_offset k h)) h = header_at k h"
    by (simp only: header_at_def block_offset_word)
  show "unat (kmalloc_blocks_required (sz + KMALLOC_HEADER_SIZE) h) = blocks_of sz h"
    using blocks_required_word(1) [OF l, of k sz] ok by (simp add: live_ok_def KMALLOC_HEADER_SIZE_def)
qed

lemma data_begin_word:
  assumes "heap_layout h"
  shows "unat (kmalloc_heap_data_begin h) = unat (kmalloc_reserved_blocks h) * unat (kmalloc_block_size h)"
    and "unat (heap_begin h + kmalloc_pool_size h) = unat (heap_begin h) + unat (kmalloc_pool_size h)"
proof -
  show "unat (kmalloc_heap_data_begin h) = unat (kmalloc_reserved_blocks h) * unat (kmalloc_block_size h)"
    unfolding kmalloc_heap_data_begin_def
    using layout_span(1) [OF assms] unat_u32_less [of "kmalloc_pool_size h"] by (intro unat_mult_u32) simp
  show "unat (heap_begin h + kmalloc_pool_size h) = unat (heap_begin h) + unat (kmalloc_pool_size h)"
    using assms by (intro unat_add_u32) (simp add: heap_layout_def)
qed

lemma valid_live:
  assumes inv: "heap_inv h live" and live: "live k = Some sz"
  shows "kmalloc_is_valid (payload_of k h) h"
proof -
  have l: "heap_layout h" by (rule heap_inv_layout [OF inv])
  have ok: "live_ok h k sz" by (rule heap_inv_live [OF inv live])
  note a = live_address [OF inv live]
  note d = data_begin_word [OF l]
  have sz: "0 < unat sz" using ok by (simp add: live_ok_def unat_gt_0)
  have pool: "unat (heap_begin h) + unat (kmalloc_pool_size h) < 4294967296"
    using l by (simp add: heap_layout_def)
  have res: "unat (kmalloc_heap_data_begin h) \<le> block_offset k h"
    using ok d(1) by (simp add: block_offset_def live_ok_def)
  have null: "payload_of k h \<noteq> KMALLOC_NULL"
    using a(1,8) sz pool by (auto simp: KMALLOC_NULL_def word_unat_eq_iff)
  have dd: "unat (heap_begin h + kmalloc_heap_data_begin h + KMALLOC_HEADER_SIZE) =
      unat (heap_begin h) + unat (kmalloc_heap_data_begin h) + 16"
  proof -
    have "unat (heap_begin h + kmalloc_heap_data_begin h) = unat (heap_begin h) + unat (kmalloc_heap_data_begin h)"
      using res a(8) pool by (intro unat_add_u32) simp
    then show ?thesis using res a(8) pool by (subst unat_add_u32) (simp_all add: KMALLOC_HEADER_SIZE_def)
  qed
  have abs: "unat (payload_of k h - KMALLOC_HEADER_SIZE) = unat (heap_begin h) + block_offset k h"
    using a(1) by (subst unat_sub_u32) (simp_all add: KMALLOC_HEADER_SIZE_def)
  have req: "kmalloc_blocks_required (sz + KMALLOC_HEADER_SIZE) h \<noteq> 0"
    using a(7) blocks_pos [OF l, of sz] by (auto simp: word_unat_eq_iff)
  have sum: "unat (of_nat k + kmalloc_blocks_required (sz + KMALLOC_HEADER_SIZE) h) = k + blocks_of sz h"
    using ok a(5,7) unat_u32_less [of "kmalloc_block_count h"]
    by (subst unat_add_u32) (simp_all add: live_ok_def heap_cap_def)
  have "h_size (header_at k h) = sz" "h_magic (header_at k h) = KMALLOC_MAGIC"
    "unat (kmalloc_reserved_blocks h) \<le> k" "k + blocks_of sz h \<le> unat (kmalloc_block_count h)"
    using ok by (simp_all add: live_ok_def heap_cap_def)
  then show ?thesis
    using null req sz res a(8) a(3)
    by (simp add: kmalloc_is_valid_def a(1,2,4,5,6) d(2) dd abs sum word_less_nat_alt word_le_nat_alt
        unat_gt_0 [symmetric] not_less)
qed

lemma valid_header_nonzero:
  assumes "h_size (kmalloc_header_read (a - KMALLOC_HEADER_SIZE - heap_begin h) h) = 0"
  shows "\<not> kmalloc_is_valid a h"
  using assms by (simp add: kmalloc_is_valid_def Let_def)

lemma heap_inv_irq [simp]: "heap_inv (h\<lparr>irq_on := b\<rparr>) live = heap_inv h live"
  by (simp add: heap_inv_def heap_layout_def live_ok_def in_live_def header_at_def blocks_of_def heap_cap_def
      kmalloc_header_read_def kmalloc_block_is_used_def)

section \<open>kmalloc\<close>

lemma required_word:
  assumes l: "heap_layout h" and sz: "unat sz < 4294967280"
    and le: "blocks_of sz h \<le> heap_cap h - unat (kmalloc_reserved_blocks h)"
  shows "unat (kmalloc_blocks_required (sz + KMALLOC_HEADER_SIZE) h) = blocks_of sz h"
proof -
  have "unat (kmalloc_reserved_blocks h) \<le> heap_cap h"
    using l by (simp add: heap_layout_def heap_cap_def word_le_nat_alt)
  then have "unat (kmalloc_reserved_blocks h) + blocks_of sz h \<le> heap_cap h" using le by simp
  from blocks_required_word(1) [OF l order_refl this] show ?thesis by (simp add: KMALLOC_HEADER_SIZE_def)
qed

lemma required_too_big:
  assumes l: "heap_layout h" and sz: "unat sz < 4294967280"
    and gt: "heap_cap h - unat (kmalloc_reserved_blocks h) < blocks_of sz h"
  shows "kmalloc_blocks_required (sz + KMALLOC_HEADER_SIZE) h = 0
       \<or> heap_cap h - unat (kmalloc_reserved_blocks h) < unat (kmalloc_blocks_required (sz + KMALLOC_HEADER_SIZE) h)"
proof -
  let ?d = "unat (kmalloc_block_size h)" and ?t = "sz + KMALLOC_HEADER_SIZE"
  have d: "0 < ?d" "?d < 4294967296" using block_size_pos [OF l] unat_u32_less by auto
  have t: "unat ?t = unat sz + 16" using sz by (subst unat_add_u32) (simp_all add: KMALLOC_HEADER_SIZE_def)
  have dm: "unat (kmalloc_block_size h - 1) = ?d - 1"
    using d by (intro unat_minus_one_u32) (auto simp: unat_eq_zero)
  have "?t \<noteq> 0" using t by (metis add_is_0 unat_0 zero_neq_numeral)
  then have req: "unat (kmalloc_blocks_required ?t h) = unat (?t + (kmalloc_block_size h - 1)) div ?d"
    by (simp add: kmalloc_blocks_required_def unat_div_distrib)
  show ?thesis
  proof (cases "unat ?t + (?d - 1) < 4294967296")
    case True
    then have "unat (?t + (kmalloc_block_size h - 1)) = unat sz + 16 + (?d - 1)"
      using dm t by (subst unat_add_u32) simp_all
    then have "unat (kmalloc_blocks_required ?t h) = blocks_of sz h"
      using req by (simp add: blocks_of_def ceil_div_def)
    then show ?thesis using gt by simp
  next
    case False
    have "unat (?t + (kmalloc_block_size h - 1)) =
        (if unat ?t + unat (kmalloc_block_size h - 1) < 2 ^ LENGTH(32) then unat ?t + unat (kmalloc_block_size h - 1)
         else unat ?t + unat (kmalloc_block_size h - 1) - 2 ^ LENGTH(32))"
      by (rule unat_plus_if')
    then have "unat (?t + (kmalloc_block_size h - 1)) = unat ?t + (?d - 1) - 4294967296"
      unfolding dm using False by simp
    also have "\<dots> < ?d" using d unat_u32_less [of ?t] by linarith
    finally have "unat (kmalloc_blocks_required ?t h) = 0" using req by simp
    then show ?thesis by (simp add: unat_eq_zero)
  qed
qed

definition fresh_header :: "u32 \<Rightarrow> kmalloc_header" where
  "fresh_header sz = \<lparr> h_size = sz, h_flags = 0, h_type = 0, h_perm = 0, h_magic = KMALLOC_MAGIC,
                       h_pad = replicate 8 0 \<rparr>"

lemma kmalloc_unlocked_eq:
  assumes l: "heap_layout h" and sz: "sz \<noteq> 0" "unat sz < 4294967280" and cap: "0 < heap_cap h"
  shows "kmalloc_unlocked sz h =
    (if heap_cap h - unat (kmalloc_reserved_blocks h) < blocks_of sz h then Inr (KMALLOC_NULL, h)
     else case first_fit (\<lambda>i. heap_used i h) (blocks_of sz h) [unat (kmalloc_reserved_blocks h)..<heap_cap h] 0 0 of
            None \<Rightarrow> Inl OutOfMemory
          | Some k \<Rightarrow> Inr (payload_of k h, allocate_at k (blocks_of sz h) (fresh_header sz) h))"
proof -
  have cfg: "kmalloc_block_size h \<noteq> 0" "kmalloc_pool_size h \<noteq> 0" "kmalloc_bitmap h \<noteq> 0"
  proof -
    show "kmalloc_block_size h \<noteq> 0" "kmalloc_bitmap h \<noteq> 0" using l by (simp_all add: heap_layout_def)
    have "0 < unat (kmalloc_block_count h) * unat (kmalloc_block_size h)"
      using cap block_size_pos [OF l] by (simp add: heap_cap_def)
    then have "0 < unat (kmalloc_pool_size h)" using l unfolding heap_layout_def by linarith
    then show "kmalloc_pool_size h \<noteq> 0" by (simp add: unat_gt_0)
  qed
  have avail: "unat (kmalloc_block_count h - kmalloc_reserved_blocks h) = heap_cap h - unat (kmalloc_reserved_blocks h)"
    using l by (simp add: heap_layout_def heap_cap_def unat_sub)
  let ?req = "kmalloc_blocks_required (sz + KMALLOC_HEADER_SIZE) h"
  show ?thesis
  proof (cases "heap_cap h - unat (kmalloc_reserved_blocks h) < blocks_of sz h")
    case True
    from required_too_big [OF l sz(2) True]
    have "?req = 0 \<or> kmalloc_block_count h - kmalloc_reserved_blocks h < ?req"
      by (simp add: word_less_nat_alt avail)
    then show ?thesis using True sz cfg by (simp add: kmalloc_unlocked_def)
  next
    case False
    then have le: "blocks_of sz h \<le> heap_cap h - unat (kmalloc_reserved_blocks h)" by simp
    note req = required_word [OF l sz(2) le]
    have "?req \<noteq> 0" "\<not> kmalloc_block_count h - kmalloc_reserved_blocks h < ?req"
      using req blocks_pos [OF l, of sz] le by (auto simp: word_less_nat_alt avail)
    moreover have "kmalloc_bitmap_write (kmalloc_header_write (of_nat k * kmalloc_block_size h) (fresh_header sz)
              (apply_range (\<lambda>i. kmalloc_block_set_used (of_nat i)) k (blocks_of sz h) h))
          = allocate_at k (blocks_of sz h) (fresh_header sz) h
        \<and> kmalloc_block_size (apply_range (\<lambda>i. kmalloc_block_set_used (of_nat i)) k (blocks_of sz h) h) = kmalloc_block_size h
        \<and> heap_begin (allocate_at k (blocks_of sz h) (fresh_header sz) h) = heap_begin h"
      if k: "first_fit (\<lambda>i. heap_used i h) (blocks_of sz h) [unat (kmalloc_reserved_blocks h)..<heap_cap h] 0 0 = Some k"
      for k
    proof -
      have "k + blocks_of sz h \<le> heap_cap h" using first_fit_Some(2) [OF k blocks_pos [OF l]] .
      note s = kheap_bits.set_range [OF l this]
      let ?h1 = "apply_range (\<lambda>i. kmalloc_block_set_used (of_nat i)) k (blocks_of sz h) h"
      have r: "heap_rest ?h1 = heap_rest h" using s by simp
      note c = heap_rest_config [OF r]
      have w: "kmalloc_header_write (of_nat k * kmalloc_block_size h) (fresh_header sz) ?h1 =
          region_write (block_offset k h) (header_bytes (fresh_header sz)) ?h1"
        by (simp only: kmalloc_header_write_def region_write_def block_offset_word)
      have "heap_layout (region_write (block_offset k h) (header_bytes (fresh_header sz)) ?h1)" using s by simp
      from heap_rest_config(8) [OF bitmap_write_props(1) [OF this]]
      have "heap_begin (allocate_at k (blocks_of sz h) (fresh_header sz) h) = heap_begin h"
        using c by (simp add: allocate_at_def)
      then show ?thesis
        using c w by (simp add: allocate_at_def)
    qed
    ultimately show ?thesis
      using False sz cfg
      by (cases "first_fit (\<lambda>i. heap_used i h) (blocks_of sz h) [unat (kmalloc_reserved_blocks h)..<heap_cap h] 0 0")
        (simp_all add: kmalloc_unlocked_def req heap_cap_def fresh_header_def payload_of_def
          req [unfolded KMALLOC_HEADER_SIZE_def] KMALLOC_HEADER_SIZE_def Let_def)
  qed
qed


text \<open>Nothing but the metadata and the 16 bytes of one header changes.\<close>

definition heap_frame :: "nat \<Rightarrow> kheap \<Rightarrow> kheap \<Rightarrow> bool" where
  "heap_frame k h h' \<longleftrightarrow>
     (\<forall>x. \<not> in_range (heap_begin h) (2 * unat (kmalloc_bitmap_size h)) x
        \<longrightarrow> \<not> in_range (heap_begin h + of_nat (block_offset k h)) 16 x \<longrightarrow> mem h' x = mem h x)
     \<and> irq_on h' = irq_on h \<and> heap_begin h' = heap_begin h \<and> kmalloc_block_size h' = kmalloc_block_size h
     \<and> kmalloc_reserved_blocks h' = kmalloc_reserved_blocks h \<and> heap_cap h' = heap_cap h"

lemma irq_fields [simp]:
  "kmalloc_block_is_used i (h\<lparr>irq_on := b\<rparr>) = kmalloc_block_is_used i h"
  "heap_layout (h\<lparr>irq_on := b\<rparr>) = heap_layout h"
  "heap_cap (h\<lparr>irq_on := b\<rparr>) = heap_cap h"
  "blocks_of sz (h\<lparr>irq_on := b\<rparr>) = blocks_of sz h"
  "block_offset k (h\<lparr>irq_on := b\<rparr>) = block_offset k h"
  "payload_of k (h\<lparr>irq_on := b\<rparr>) = payload_of k h"
  "header_at k (h\<lparr>irq_on := b\<rparr>) = header_at k h"
  "kmalloc_header_read a (h\<lparr>irq_on := b\<rparr>) = kmalloc_header_read a h"
  "kmalloc_is_valid a (h\<lparr>irq_on := b\<rparr>) = kmalloc_is_valid a h"
  "kmalloc_blocks_required sz (h\<lparr>irq_on := b\<rparr>) = kmalloc_blocks_required sz h"
  by (simp_all add: kmalloc_block_is_used_def heap_layout_def heap_cap_def blocks_of_def block_offset_def
      payload_of_def header_at_def kmalloc_header_read_def kmalloc_is_valid_def kmalloc_heap_data_begin_def
      kmalloc_blocks_required_def Let_def)

text \<open>All outcomes of an allocation request whose size plus header does not overflow.\<close>

lemma kmalloc_cases:
  assumes inv: "heap_inv h live" and sz: "sz \<noteq> 0" "unat sz < 4294967280" and cap: "0 < heap_cap h"
  obtains (too_big) "heap_cap h - unat (kmalloc_reserved_blocks h) < blocks_of sz h" "kmalloc sz h = Inr (KMALLOC_NULL, h)"
    | (full) "blocks_of sz h \<le> heap_cap h - unat (kmalloc_reserved_blocks h)" "kmalloc sz h = Inl OutOfMemory"
        "\<And>k. unat (kmalloc_reserved_blocks h) \<le> k \<Longrightarrow> k + blocks_of sz h \<le> heap_cap h \<Longrightarrow>
           \<not> free_run (\<lambda>i. heap_used i h) k (blocks_of sz h)"
    | (placed) k h' where "kmalloc sz h = Inr (payload_of k h, h')" "live k = None" "heap_inv h' (live(k \<mapsto> sz))"
        "unat (kmalloc_reserved_blocks h) \<le> k" "k + blocks_of sz h \<le> heap_cap h"
        "free_run (\<lambda>i. heap_used i h) k (blocks_of sz h)"
        "\<And>j. unat (kmalloc_reserved_blocks h) \<le> j \<Longrightarrow> j < k \<Longrightarrow> \<not> free_run (\<lambda>i. heap_used i h) j (blocks_of sz h)"
        "heap_frame k h h'"
proof -
  let ?h = "h\<lparr>irq_on := False\<rparr>"
  have inv': "heap_inv ?h live" using inv by simp
  have l: "heap_layout ?h" by (rule heap_inv_layout [OF inv'])
  have cap': "0 < heap_cap ?h" using cap by simp
  note eq = kmalloc_unlocked_eq [OF l sz cap']
  show thesis
  proof (cases "heap_cap h - unat (kmalloc_reserved_blocks h) < blocks_of sz h")
    case True
    moreover have "kmalloc sz h = Inr (KMALLOC_NULL, h)"
      using eq True by (simp add: kmalloc_def irq_save_def irq_restore_def)
    ultimately show ?thesis by (rule too_big)
  next
    case False
    show ?thesis
    proof (cases "first_fit (\<lambda>i. heap_used i h) (blocks_of sz h) [unat (kmalloc_reserved_blocks h)..<heap_cap h] 0 0")
      case None
      have "kmalloc sz h = Inl OutOfMemory"
        using eq None False by (simp add: kmalloc_def irq_save_def)
      then show ?thesis
        using False first_fit_None [OF None] blocks_pos [OF l, of sz] by (intro full) auto
    next
      case (Some k)
      have pos: "0 < blocks_of sz h" using blocks_pos [OF l, of sz] by simp
      note ff = first_fit_Some [OF Some pos]
      let ?h' = "allocate_at k (blocks_of sz h) (fresh_header sz) ?h"
      have "free_run (\<lambda>i. heap_used i ?h) k (blocks_of sz h)" using ff by simp
      from allocate_at_inv [OF inv' sz(1) _ _ _ this, of "fresh_header sz"] ff
      have a: "heap_inv ?h' (live(k \<mapsto> sz))" "live k = None"
        "kmalloc_block_size ?h' = kmalloc_block_size h" "heap_begin ?h' = heap_begin h"
        "kmalloc_reserved_blocks ?h' = kmalloc_reserved_blocks h" "heap_cap ?h' = heap_cap h"
        "\<And>x. \<not> in_range (heap_begin h) (2 * unat (kmalloc_bitmap_size h)) x \<Longrightarrow>
          \<not> in_range (heap_begin h + of_nat (block_offset k h)) 16 x \<Longrightarrow> mem ?h' x = mem h x"
        by (simp_all add: fresh_header_def)
      have "kmalloc sz h = Inr (payload_of k h, ?h'\<lparr>irq_on := irq_on h\<rparr>)"
        using eq Some False by (simp add: kmalloc_def irq_save_def irq_restore_def)
      then show ?thesis
      proof (rule placed)
        show "heap_inv (?h'\<lparr>irq_on := irq_on h\<rparr>) (live(k \<mapsto> sz))" using a by simp
        show "heap_frame k h (?h'\<lparr>irq_on := irq_on h\<rparr>)" using a by (simp add: heap_frame_def)
      qed (use a ff in auto)
    qed
  qed
qed

section \<open>kfree\<close>

definition erased_header :: kmalloc_header where
  "erased_header = \<lparr> h_size = 0, h_flags = 0, h_type = 0, h_perm = 0, h_magic = 0, h_pad = replicate 8 0 \<rparr>"

lemma kfree_unlocked_live:
  assumes inv: "heap_inv h live" and live: "live k = Some sz"
  shows "kfree_unlocked (payload_of k h) h = release_at k (blocks_of sz h) erased_header h"
proof -
  have l: "heap_layout h" by (rule heap_inv_layout [OF inv])
  have ok: "live_ok h k sz" by (rule heap_inv_live [OF inv live])
  note a = live_address [OF inv live]
  have valid: "kmalloc_is_valid (payload_of k h) h" by (rule valid_live [OF inv live])
  have hs: "h_size (header_at k h) = sz" using ok by (simp add: live_ok_def)
  have le: "k + blocks_of sz h \<le> unat (kmalloc_block_count h)" using ok by (simp add: live_ok_def heap_cap_def)
  have "unat (of_nat k + kmalloc_blocks_required (sz + KMALLOC_HEADER_SIZE) h) = k + blocks_of sz h"
    using a(5,7) le unat_u32_less [of "kmalloc_block_count h"] by (subst unat_add_u32) simp_all
  then have "\<not> (of_nat k < kmalloc_reserved_blocks h \<or>
      kmalloc_block_count h < of_nat k + kmalloc_blocks_required (sz + KMALLOC_HEADER_SIZE) h)"
    using ok a(5) le by (simp add: word_less_nat_alt live_ok_def)
  moreover have "kmalloc_header_write (of_nat (block_offset k h)) hdr h =
      region_write (block_offset k h) (header_bytes hdr) h" for hdr
    by (simp add: kmalloc_header_write_def region_write_def)
  ultimately show ?thesis
    using valid
    by (simp only: kfree_unlocked_def Let_def a(2,4,5,6,7) hs release_at_def erased_header_def simp_thms if_False)
qed

lemma kfree_live:
  assumes inv: "heap_inv h live" and live: "live k = Some sz"
  shows "kfree (payload_of k h) h =
    (release_at k (blocks_of sz h) erased_header (h\<lparr>irq_on := False\<rparr>))\<lparr>irq_on := irq_on h\<rparr>"
  using kfree_unlocked_live [of "h\<lparr>irq_on := False\<rparr>" live k sz] inv live
  by (simp add: kfree_def irq_save_def irq_restore_def)

lemma kfree_invalid: "\<not> kmalloc_is_valid a h \<Longrightarrow> kfree a h = h"
  by (simp add: kfree_def kfree_unlocked_def irq_save_def irq_restore_def)

lemma kfree_live_props:
  assumes inv: "heap_inv h live" and live: "live k = Some sz"
  defines "h' \<equiv> kfree (payload_of k h) h"
  shows "heap_inv h' (live(k := None))" and "\<not> kmalloc_is_valid (payload_of k h) h'" and "heap_frame k h h'"
    and "i < heap_cap h \<Longrightarrow> heap_used i h' = (\<not> (k \<le> i \<and> i < k + blocks_of sz h) \<and> heap_used i h)"
proof -
  have inv': "heap_inv (h\<lparr>irq_on := False\<rparr>) live" using inv by simp
  have need: "blocks_of sz h = blocks_of sz (h\<lparr>irq_on := False\<rparr>)" by simp
  have pad: "length (h_pad erased_header) = 8" by (simp add: erased_header_def)
  note r = release_at_inv [OF inv' live need pad]
  note eq = kfree_live [OF inv live, folded h'_def]
  show "heap_inv h' (live(k := None))" using r(1) by (simp add: eq)
  show "heap_used i h' = (\<not> (k \<le> i \<and> i < k + blocks_of sz h) \<and> heap_used i h)" if "i < heap_cap h"
    using r(6) [of i] that by (simp add: eq)
  show frame: "heap_frame k h h'" using r(3,4,7,8,9) by (simp add: heap_frame_def eq)
  have "header_at k h' = erased_header" using r(2) by (simp add: eq)
  moreover have "of_nat k * kmalloc_block_size h' = of_nat (block_offset k h)"
    using frame by (simp add: heap_frame_def block_offset_word)
  ultimately have "h_size (kmalloc_header_read (of_nat (block_offset k h)) h') = 0"
    by (simp add: header_at_def erased_header_def)
  then show "\<not> kmalloc_is_valid (payload_of k h) h'"
    using live_address(2) [OF inv live] frame by (intro valid_header_nonzero) (simp add: heap_frame_def)
qed


section \<open>kmalloc_next\<close>

text \<open>No live allocation straddles block \<open>lo\<close>.\<close>

definition boundary :: "kheap \<Rightarrow> (nat \<rightharpoonup> u32) \<Rightarrow> nat \<Rightarrow> bool" where
  "boundary h live lo \<longleftrightarrow> (\<forall>k sz. live k = Some sz \<longrightarrow> k < lo \<longrightarrow> k + blocks_of sz h \<le> lo)"

definition next_spec :: "kheap \<Rightarrow> (nat \<rightharpoonup> u32) \<Rightarrow> nat \<Rightarrow> u32 \<Rightarrow> bool" where
  "next_spec h live lo a \<longleftrightarrow>
     a = KMALLOC_NULL \<and> (\<forall>k \<ge> lo. live k = None)
     \<or> (\<exists>k \<ge> lo. live k \<noteq> None \<and> a = payload_of k h \<and> (\<forall>j. lo \<le> j \<longrightarrow> j < k \<longrightarrow> live j = None))"

lemma next_spec_widen:
  assumes "next_spec h live hi a" "lo \<le> hi" "\<And>j. lo \<le> j \<Longrightarrow> j < hi \<Longrightarrow> live j = None"
  shows "next_spec h live lo a"
proof -
  have none: "live j = None" if "lo \<le> j" "hi \<le> j \<Longrightarrow> live j = None" for j
    using assms(3) [of j] that by (cases "j < hi") auto
  from assms(1) consider "a = KMALLOC_NULL" "\<forall>k \<ge> hi. live k = None"
    | k where "hi \<le> k" "live k \<noteq> None" "a = payload_of k h" "\<forall>j. hi \<le> j \<longrightarrow> j < k \<longrightarrow> live j = None"
    by (auto simp: next_spec_def)
  then show ?thesis
  proof cases
    case 1
    then show ?thesis using none by (simp add: next_spec_def)
  next
    case (2 k)
    then have "lo \<le> k" "\<forall>j. lo \<le> j \<longrightarrow> j < k \<longrightarrow> live j = None" using none assms(2) by auto
    with 2 show ?thesis unfolding next_spec_def by blast
  qed
qed

lemma next_loop_spec:
  assumes inv: "heap_inv h live" and cap: "hi = heap_cap h"
  shows "unat (kmalloc_reserved_blocks h) \<le> lo \<Longrightarrow> boundary h live lo \<Longrightarrow>
           next_spec h live lo (next_loop [lo..<hi] h)"
proof (induction "hi - lo" arbitrary: lo)
  case 0
  have "live k = None" if "lo \<le> k" for k
  proof (rule ccontr)
    assume "live k \<noteq> None"
    then obtain sz where "live k = Some sz" by auto
    from heap_inv_live [OF inv this] that "0.hyps" cap blocks_pos [OF heap_inv_layout [OF inv], of sz]
    show False by (simp add: live_ok_def)
  qed
  then show ?case using "0.hyps" by (simp add: next_spec_def)
next
  case (Suc d)
  have upt: "[lo..<hi] = lo # [Suc lo..<hi]" using Suc.hyps(2) by (simp add: upt_conv_Cons)
  have used: "heap_used lo h = in_live h live lo"
    using heap_inv_used [OF inv Suc.prems(1)] Suc.hyps(2) cap by simp
  show ?case
  proof (cases "live lo")
    case None
    have "\<not> in_live h live lo"
    proof
      assume "in_live h live lo"
      then obtain k sz where k: "live k = Some sz" "k \<le> lo" "lo < k + blocks_of sz h"
        by (auto simp: in_live_def)
      then have "k < lo" using None by (cases "k = lo") auto
      then have "k + blocks_of sz h \<le> lo" using Suc.prems(2) k(1) unfolding boundary_def by blast
      then show False using k(3) by simp
    qed
    then have step: "next_loop [lo..<hi] h = next_loop [Suc lo..<hi] h" unfolding upt by (simp add: used)
    have "boundary h live (Suc lo)"
      using Suc.prems(2) None unfolding boundary_def by (metis le_SucI less_SucE option.distinct(1))
    then have "next_spec h live (Suc lo) (next_loop [Suc lo..<hi] h)"
      using Suc.hyps(1) [of "Suc lo"] Suc.hyps(2) Suc.prems(1) by simp
    then show ?thesis
      unfolding step by (rule next_spec_widen) (use None in \<open>auto simp: less_Suc_eq_le le_antisym\<close>)
  next
    case (Some sz)
    have l: "heap_layout h" by (rule heap_inv_layout [OF inv])
    have ok: "live_ok h lo sz" by (rule heap_inv_live [OF inv Some])
    have "in_live h live lo"
      using Some blocks_pos [OF l, of sz] unfolding in_live_def by (intro exI [of _ lo] exI [of _ sz]) simp
    moreover note a = live_address [OF inv Some]
    have "\<not> of_nat (block_offset lo h) < kmalloc_heap_data_begin h"
      using a(3) data_begin_word(1) [OF l] Suc.prems(1) by (simp add: word_less_nat_alt block_offset_def)
    moreover have "\<not> kmalloc_pool_size h \<le> of_nat (block_offset lo h) + KMALLOC_HEADER_SIZE"
    proof -
      have "unat (of_nat (block_offset lo h) + KMALLOC_HEADER_SIZE) = block_offset lo h + 16"
        using a(3,8) unat_u32_less [of "kmalloc_pool_size h"]
        by (subst unat_add_u32) (simp_all add: KMALLOC_HEADER_SIZE_def)
      moreover have "0 < unat sz" using ok by (simp add: live_ok_def unat_gt_0)
      ultimately show ?thesis using a(8) by (simp add: word_le_nat_alt)
    qed
    moreover have "payload_of lo h = heap_begin h + of_nat (block_offset lo h) + KMALLOC_HEADER_SIZE"
      by (simp add: payload_of_def block_offset_word KMALLOC_HEADER_SIZE_def)
    ultimately have "next_loop [lo..<hi] h = payload_of lo h"
      unfolding upt using used ok
      by (simp only: next_loop.simps Let_def block_offset_word a(6)) (simp add: live_ok_def)
    then show ?thesis using Some by (auto simp: next_spec_def)
  qed
qed

lemma kmalloc_next_first:
  assumes "heap_inv h live"
  shows "next_spec h live 0 (kmalloc_next KMALLOC_NULL h)"
proof -
  have lo: "unat (kmalloc_reserved_blocks h) \<le> k" if "live k = Some sz" for k sz
    using heap_inv_live [OF assms that] by (simp add: live_ok_def)
  then have "boundary h live (unat (kmalloc_reserved_blocks h))" by (fastforce simp: boundary_def)
  from next_loop_spec [OF assms refl order_refl this]
  have "next_spec h live (unat (kmalloc_reserved_blocks h)) (kmalloc_next KMALLOC_NULL h)"
    by (simp add: kmalloc_next_def heap_cap_def)
  moreover have "live j = None" if "j < unat (kmalloc_reserved_blocks h)" for j
    using lo [of j] that by (cases "live j") auto
  ultimately show ?thesis by (elim next_spec_widen) auto
qed

lemma kmalloc_next_live:
  assumes inv: "heap_inv h live" and live: "live k = Some sz"
  shows "next_spec h live (Suc k) (kmalloc_next (payload_of k h) h)"
proof -
  have l: "heap_layout h" by (rule heap_inv_layout [OF inv])
  have ok: "live_ok h k sz" by (rule heap_inv_live [OF inv live])
  note a = live_address [OF inv live]
  have valid: "kmalloc_is_valid (payload_of k h) h" by (rule valid_live [OF inv live])
  then have nn: "payload_of k h \<noteq> KMALLOC_NULL" by (auto simp: kmalloc_is_valid_def)
  have hs: "h_size (header_at k h) = sz" using ok by (simp add: live_ok_def)
  let ?e = "k + blocks_of sz h"
  have "unat (of_nat k + kmalloc_blocks_required (sz + KMALLOC_HEADER_SIZE) h) = ?e"
    using a(5,7) ok unat_u32_less [of "kmalloc_block_count h"]
    by (subst unat_add_u32) (simp_all add: live_ok_def heap_cap_def)
  then have eq: "kmalloc_next (payload_of k h) h = next_loop [?e..<heap_cap h] h"
    using valid nn
    by (simp only: kmalloc_next_def Let_def a(2,4,6) hs heap_cap_def simp_thms if_False)
  have gap: "live j = None" if "k < j" "j < ?e" for j
  proof (rule ccontr)
    assume "live j \<noteq> None"
    then obtain sz' where "live j = Some sz'" by auto
    from heap_inv_disjoint [OF inv live this] that show False by auto
  qed
  have "boundary h live ?e"
    unfolding boundary_def
  proof (intro allI impI)
    fix k' sz'
    assume k': "live k' = Some sz'" "k' < ?e"
    then show "k' + blocks_of sz' h \<le> ?e"
      using heap_inv_disjoint [OF inv live k'(1)] live by (cases "k' = k") auto
  qed
  from next_loop_spec [OF inv refl _ this] ok
  have "next_spec h live ?e (next_loop [?e..<heap_cap h] h)" by (simp add: live_ok_def)
  then show ?thesis
    unfolding eq by (rule next_spec_widen) (use gap blocks_pos [OF l, of sz] in auto)
qed


section \<open>Writes of a client, and the header fields\<close>

lemma region_write_inv:
  assumes inv: "heap_inv h live" and live: "live k = Some sz"
    and a: "block_offset k h + 16 \<le> a" "a + length bs \<le> block_offset k h + 16 + unat sz"
  shows "heap_inv (region_write a bs h) live"
proof -
  let ?h = "region_write a bs h"
  have l: "heap_layout h" by (rule heap_inv_layout [OF inv])
  have ok: "live_ok h k sz" by (rule heap_inv_live [OF inv live])
  have fit: "a + length bs \<le> unat (kmalloc_pool_size h)" using live_header_fits [OF l ok] a by simp
  have "unat (kmalloc_reserved_blocks h) * unat (kmalloc_block_size h) \<le> block_offset k h"
    using ok by (simp add: live_ok_def block_offset_def)
  then have res: "unat (kmalloc_reserved_blocks h) * unat (kmalloc_block_size h) \<le> a" using a by simp
  have hat: "header_at k' ?h = header_at k' h" if lv: "live k' = Some sz'" for k' sz'
  proof -
    have fit': "block_offset k' h + 16 + unat sz' \<le> unat (kmalloc_pool_size h)"
      by (rule live_header_fits [OF l heap_inv_live [OF inv lv]])
    have "a + length bs \<le> block_offset k' h \<or> block_offset k' h + 16 \<le> a"
    proof (cases "k' = k")
      case True
      then show ?thesis using a by simp
    next
      case False
      then show ?thesis
        using heap_inv_disjoint [OF inv lv live False] a blocks_cover [OF l, of k' sz'] blocks_cover [OF l, of k sz]
          block_offset_mono [of "k' + blocks_of sz' h" k h] block_offset_mono [of "k + blocks_of sz h" k' h]
        by auto
    qed
    then show ?thesis using header_at_region [OF l fit] fit' by simp
  qed
  have bl: "blocks_of sz' ?h = blocks_of sz' h" for sz' by (simp add: blocks_of_def)
  have "in_live ?h live i = in_live h live i" for i by (simp add: in_live_def bl)
  then show ?thesis
    using inv region_write_used [OF l res fit] hat bl
    unfolding heap_inv_def live_ok_def by simp
qed

text \<open>Rewriting the header of a live allocation with the same size and magic.\<close>

lemma header_write_inv:
  assumes inv: "heap_inv h live" and live: "live k = Some sz"
    and hdr: "length (h_pad hdr) = 8" "h_size hdr = sz" "h_magic hdr = KMALLOC_MAGIC"
  shows "heap_inv (kmalloc_header_write (of_nat (block_offset k h)) hdr h) live"
    and "header_at k (kmalloc_header_write (of_nat (block_offset k h)) hdr h) = hdr"
proof -
  have w: "kmalloc_header_write (of_nat (block_offset k h)) hdr h = region_write (block_offset k h) (header_bytes hdr) h"
    by (simp add: kmalloc_header_write_def region_write_def)
  let ?h = "region_write (block_offset k h) (header_bytes hdr) h"
  have l: "heap_layout h" by (rule heap_inv_layout [OF inv])
  have ok: "live_ok h k sz" by (rule heap_inv_live [OF inv live])
  have len: "length (header_bytes hdr) = 16" by (rule length_header_bytes [OF hdr(1)])
  have fit: "block_offset k h + 16 \<le> unat (kmalloc_pool_size h)" using live_header_fits [OF l ok] by simp
  have res: "unat (kmalloc_reserved_blocks h) * unat (kmalloc_block_size h) \<le> block_offset k h"
    using ok by (simp add: live_ok_def block_offset_def)
  have own: "header_at k ?h = hdr" by (rule header_at_region_same [OF l hdr(1) fit])
  have hat: "header_at k' ?h = header_at k' h" if lv: "live k' = Some sz'" and ne: "k' \<noteq> k" for k' sz'
  proof -
    have fit': "block_offset k' h + 16 + unat sz' \<le> unat (kmalloc_pool_size h)"
      by (rule live_header_fits [OF l heap_inv_live [OF inv lv]])
    have "block_offset k h + 16 \<le> block_offset k' h \<or> block_offset k' h + 16 \<le> block_offset k h"
      using heap_inv_disjoint [OF inv lv live ne] blocks_cover [OF l, of k' sz'] blocks_cover [OF l, of k sz]
        block_offset_mono [of "k' + blocks_of sz' h" k h] block_offset_mono [of "k + blocks_of sz h" k' h]
      by auto
    then show ?thesis using header_at_region [OF l, of "block_offset k h" "header_bytes hdr" k'] fit fit' len by simp
  qed
  have bl: "blocks_of sz' ?h = blocks_of sz' h" for sz' by (simp add: blocks_of_def)
  have "in_live ?h live i = in_live h live i" for i by (simp add: in_live_def bl)
  moreover have "live_ok ?h k' sz'" if "live k' = Some sz'" for k' sz'
    using heap_inv_live [OF inv that] hat [OF that] own hdr live that bl
    by (cases "k' = k") (auto simp: live_ok_def)
  moreover have "heap_used i ?h = heap_used i h" if "i < heap_cap h" for i
    using region_write_used [OF l res _ that, of "header_bytes hdr"] len fit by simp
  ultimately show "heap_inv (kmalloc_header_write (of_nat (block_offset k h)) hdr h) live"
    using inv unfolding w heap_inv_def by (simp add: bl)
  show "header_at k (kmalloc_header_write (of_nat (block_offset k h)) hdr h) = hdr"
    unfolding w by (rule own)
qed


section \<open>heap_init\<close>

lemma init_overhead:
  assumes bs: "2 \<le> bs" and c: "0 < c"
  shows "ceil_div (2 * ((c + 7) div 8)) bs \<le> (c :: nat)"
proof -
  have "ceil_div (2 * ((c + 7) div 8)) bs \<le> (2 * ((c + 7) div 8) + (bs - 1)) div bs"
    by (simp add: ceil_div_def)
  also have "\<dots> \<le> c"
  proof (rule ccontr)
    assume "\<not> (2 * ((c + 7) div 8) + (bs - 1)) div bs \<le> c"
    then have "Suc c \<le> (2 * ((c + 7) div 8) + (bs - 1)) div bs" by simp
    then have "Suc c * bs \<le> 2 * ((c + 7) div 8) + (bs - 1)"
      using bs by (simp add: less_eq_div_iff_mult_less_eq del: mult_Suc)
    then have "c * bs < 2 * ((c + 7) div 8)" using bs by simp
    moreover have "c * 2 \<le> c * bs" using bs by simp
    moreover have "2 * ((c + 7) div 8) \<le> 2 * c" using c by simp
    ultimately show False by simp
  qed
  finally show ?thesis .
qed

lemma heap_init_inv:
  assumes base: "heap_begin h \<noteq> 0" "unat (heap_begin h) + unat pool < 4294967296"
    and bs: "2 \<le> unat bs" "unat bs \<le> unat pool" "unat bs \<le> 2147483648"
  shows "heap_inv (heap_init bs pool h) Map.empty"
    and "kmalloc_block_count (heap_init bs pool h) = pool div bs"
    and "unat (kmalloc_reserved_blocks (heap_init bs pool h)) = ceil_div (2 * ((unat (pool div bs) + 7) div 8)) (unat bs)"
proof -
  let ?c = "pool div bs" and ?m = "(pool div bs + 7) div 8"
  have c: "unat ?c = unat pool div unat bs" by (rule unat_div_distrib)
  have c2: "unat ?c * 2 \<le> unat pool"
    using bs by (metis c div_times_less_eq_dividend le_trans mult_le_mono2)
  have cpos: "0 < unat ?c" using bs unfolding c by (simp add: div_greater_zero_iff)
  have "0 < unat (heap_begin h)" using base(1) by (simp add: unat_gt_0)
  then have bound: "unat pool < 4294967295" using base(2) by linarith
  have m: "unat ?m = (unat ?c + 7) div 8"
    using c2 bound by (subst unat_div_distrib) (simp add: unat_add_u32)
  have m2: "unat (?m * 2) = 2 * unat ?m"
    using m c2 bound by (subst unat_mult_u32) simp_all
  have sum: "unat (?m * 2 + bs - 1) = 2 * unat ?m + (unat bs - 1)"
  proof -
    have "unat bs * unat ?c \<le> unat pool" unfolding c by simp
    moreover have "unat bs + 2 * unat ?m < 4294967296"
    proof (cases "unat ?c = 1")
      case True
      then show ?thesis using m bs bound by simp
    next
      case False
      then have "2 \<le> unat ?c" using cpos by simp
      then have "unat bs * 2 \<le> unat bs * unat ?c" by (rule mult_le_mono2)
      then have "unat bs * 2 \<le> unat pool" using \<open>unat bs * unat ?c \<le> unat pool\<close> by linarith
      then show ?thesis using m c2 bound by simp
    qed
    ultimately have "unat (?m * 2 + bs) = 2 * unat ?m + unat bs"
      using m2 by (subst unat_add_u32) simp_all
    moreover from this have "?m * 2 + bs \<noteq> 0" using bs by (metis add_is_0 not_numeral_le_zero unat_0)
    ultimately show ?thesis using bs by (simp add: unat_minus_one_u32)
  qed
  have bs0: "bs \<noteq> 0" "pool \<noteq> 0" using bs by auto
  let ?r = "(?m * 2 + bs - 1) div bs"
  have r: "unat ?r = ceil_div (2 * unat ?m) (unat bs)"
    by (simp add: ceil_div_def unat_div_distrib sum)
  let ?h1 = "h\<lparr>kmalloc_block_size := bs, kmalloc_pool_size := pool, kmalloc_block_count := ?c,
                kmalloc_bitmap_size := ?m, kmalloc_bitmap := heap_begin h,
                kmalloc_dirty := heap_begin h + ?m, kmalloc_reserved_blocks := ?r\<rparr>"
  define h3 where "h3 = heap_memset (heap_begin h + ?m) 0 ?m (heap_memset (heap_begin h) 0 ?m ?h1)"
  have init: "heap_init bs pool h = kmalloc_bitmap_write h3"
    using bs0 by (simp add: heap_init_def h3_def Let_def)
  have cfg: "kmalloc_block_size h3 = bs" "kmalloc_pool_size h3 = pool" "kmalloc_block_count h3 = ?c"
    "kmalloc_bitmap_size h3 = ?m" "kmalloc_bitmap h3 = heap_begin h" "kmalloc_dirty h3 = heap_begin h + ?m"
    "kmalloc_reserved_blocks h3 = ?r" "heap_begin h3 = heap_begin h"
    by (simp_all add: h3_def heap_memset_def)
  have "2 * unat ?m \<le> unat ?r * unat bs" unfolding r using bs by (intro ceil_div_ge) simp
  moreover have "unat ?r \<le> unat ?c" unfolding r m using init_overhead [OF bs(1) cpos] by simp
  moreover have "unat ?c \<le> 8 * unat ?m" unfolding m by simp
  moreover have "unat ?c * unat bs \<le> unat pool" unfolding c by simp
  ultimately have l: "heap_layout h3"
    using base bs0 unfolding heap_layout_def cfg word_le_nat_alt by blast
  have zero: "\<not> heap_used i h3" if "i < heap_cap h3" for i
  proof -
    have b: "i div 8 < unat ?m" using heap_cap_bounds(2) [OF l that] by (simp add: cfg)
    have "in_range (heap_begin h) (unat ?m) (heap_begin h + of_nat (i div 8))"
      using b m c2 bound by (subst in_range_offset) simp_all
    then have "mem h3 (heap_begin h3 + of_nat (i div 8)) = 0"
      using b unat_u32_less [of ?m]
      by (auto simp: h3_def heap_memset_def mem_write_apply in_range_def)
    then show ?thesis using heap_used_bit [OF l that] by simp
  qed
  note w = bitmap_write_props [OF l, folded init]
  note k = heap_rest_config [OF w(1)]
  show "heap_inv (heap_init bs pool h) Map.empty"
    using l k w(2) zero by (simp add: heap_inv_def in_live_def)
  show "kmalloc_block_count (heap_init bs pool h) = ?c" using k cfg by simp
  show "unat (kmalloc_reserved_blocks (heap_init bs pool h)) = ceil_div (2 * ((unat ?c + 7) div 8)) (unat bs)"
    using k cfg r m by simp
qed


section \<open>Properties\<close>

text \<open>A small heap, right after \<open>heap_init\<close>: 64 blocks of 64 bytes at 1 MiB.\<close>

definition boot_heap :: kheap where
  "boot_heap = heap_init 64 4096
     \<lparr> kmalloc_block_size = 0, kmalloc_pool_size = 0, kmalloc_block_count = 0, kmalloc_bitmap_size = 0,
       kmalloc_reserved_blocks = 0, kmalloc_bitmap = 0, kmalloc_dirty = 0, heap_begin = 0x100000,
       mem = (\<lambda>_. 0xAA), irq_on = True \<rparr>"

lemma boot_heap_inv: "heap_inv boot_heap Map.empty"
  unfolding boot_heap_def by (rule heap_init_inv(1)) simp_all

lemma boot_heap_config: "heap_cap boot_heap = 64" "unat (kmalloc_reserved_blocks boot_heap) = 1"
  "blocks_of 100 boot_heap = 2" "unat (kmalloc_block_size boot_heap) = 64"
proof -
  let ?h = "\<lparr> kmalloc_block_size = 0, kmalloc_pool_size = 0, kmalloc_block_count = 0, kmalloc_bitmap_size = 0,
       kmalloc_reserved_blocks = 0, kmalloc_bitmap = 0, kmalloc_dirty = 0, heap_begin = 0x100000,
       mem = (\<lambda>_. 0xAA), irq_on = True \<rparr>"
  have "(4096 :: u32) div 64 = 64" by simp
  then have c: "unat ((4096 :: u32) div 64) = 64" by (simp only:) simp
  show "heap_cap boot_heap = 64"
    using heap_init_inv(2) [of ?h 4096 64] c by (simp add: boot_heap_def heap_cap_def)
  show "unat (kmalloc_reserved_blocks boot_heap) = 1"
    using heap_init_inv(3) [of ?h 4096 64] c by (simp add: boot_heap_def ceil_div_def)
  have "kmalloc_block_size boot_heap = 64"
    unfolding boot_heap_def heap_init_def kmalloc_bitmap_write_def
    by (simp add: Let_def heap_memset_def fold_invariant [where P = "\<lambda>h. kmalloc_block_size h = 64"
        and Q = "\<lambda>_. True"] bitmap_write_step_def)
  then show "unat (kmalloc_block_size boot_heap) = 64" "blocks_of 100 boot_heap = 2"
    by (simp_all add: blocks_of_def ceil_div_def)
qed

lemma boot_heap_alloc:
  obtains k h' where "kmalloc 100 boot_heap = Inr (payload_of k boot_heap, h')" "heap_inv h' [k \<mapsto> 100]"
    "payload_of k boot_heap \<noteq> KMALLOC_NULL" "heap_frame k boot_heap h'"
proof -
  have free: "\<not> heap_used i boot_heap" if "1 \<le> i" "i < 64" for i
    using heap_inv_used [OF boot_heap_inv, of i] that boot_heap_config by (simp add: in_live_def)
  show thesis
  proof (rule kmalloc_cases [OF boot_heap_inv, of 100])
    show "(100 :: u32) \<noteq> 0" "unat (100 :: u32) < 4294967280" "0 < heap_cap boot_heap"
      using boot_heap_config by simp_all
  next
    assume "heap_cap boot_heap - unat (kmalloc_reserved_blocks boot_heap) < blocks_of 100 boot_heap"
    then show thesis using boot_heap_config by simp
  next
    assume "\<And>k. unat (kmalloc_reserved_blocks boot_heap) \<le> k \<Longrightarrow> k + blocks_of 100 boot_heap \<le> heap_cap boot_heap \<Longrightarrow>
      \<not> free_run (\<lambda>i. heap_used i boot_heap) k (blocks_of 100 boot_heap)"
    from this [of 1] show thesis
      using free boot_heap_config by (simp add: free_run_def)
  next
    fix k h'
    assume a: "kmalloc 100 boot_heap = Inr (payload_of k boot_heap, h')" "heap_inv h' (Map.empty(k \<mapsto> 100))"
      "heap_frame k boot_heap h'"
    have "kmalloc_is_valid (payload_of k h') h'" by (rule valid_live [OF a(2)]) simp
    moreover have "payload_of k h' = payload_of k boot_heap"
      using a(3) by (simp add: payload_of_def heap_frame_def)
    ultimately have "payload_of k boot_heap \<noteq> KMALLOC_NULL" by (auto simp: kmalloc_is_valid_def)
    with a(1,2) show thesis using a(3) by (rule that)
  qed
qed

lemma boot_heap_two:
  obtains h live k k' where "heap_inv h live" "k \<noteq> k'" "live k = Some 100" "live k' = Some 50"
proof -
  obtain k h where h: "heap_inv h [k \<mapsto> 100]" and frame: "heap_frame k boot_heap h" by (rule boot_heap_alloc)
  have cfg: "heap_cap h = 64" "unat (kmalloc_reserved_blocks h) = 1" "blocks_of 100 h = 2" "blocks_of 50 h = 2"
    using frame boot_heap_config by (simp_all add: heap_frame_def blocks_of_def ceil_div_def)
  have free: "\<not> heap_used i h" if "1 \<le> i" "i < 64" "i < k \<or> k + 2 \<le> i" for i
    using heap_inv_used [OF h, of i] that cfg by (auto simp: in_live_def split: if_splits)
  show thesis
  proof (rule kmalloc_cases [OF h, of 50])
    show "(50 :: u32) \<noteq> 0" "unat (50 :: u32) < 4294967280" "0 < heap_cap h" using cfg by simp_all
  next
    assume "heap_cap h - unat (kmalloc_reserved_blocks h) < blocks_of 50 h"
    then show thesis using cfg by simp
  next
    assume "\<And>j. unat (kmalloc_reserved_blocks h) \<le> j \<Longrightarrow> j + blocks_of 50 h \<le> heap_cap h \<Longrightarrow>
      \<not> free_run (\<lambda>i. heap_used i h) j (blocks_of 50 h)"
    from this [of 1] this [of 20] show thesis
      using free cfg by (cases "10 \<le> k") (auto simp: free_run_def)
  next
    fix k' g
    assume a: "[k \<mapsto> 100] k' = None" "heap_inv g ([k \<mapsto> 100](k' \<mapsto> 50))"
    then have "k \<noteq> k'" by auto
    with a(2) show thesis by (intro that [of g "[k \<mapsto> 100](k' \<mapsto> 50)" k k']) auto
  qed
qed

text \<open>
  \<open>heap_init\<close> on any base and pool that end below the top of the address space (blocks of at least
  two bytes, at least one block) establishes the heap invariant with nothing allocated: the bitmap and
  the dirty map are zero and lie inside the reserved blocks.
\<close>

theorem heap_init_correct:
  assumes "heap_begin h \<noteq> 0" "unat (heap_begin h) + unat pool < 4294967296"
    and "2 \<le> unat bs" "unat bs \<le> unat pool" "unat bs \<le> 2147483648"
  shows "heap_inv (heap_init bs pool h) Map.empty \<and> kmalloc_block_count (heap_init bs pool h) = pool div bs"
  using heap_init_inv [OF assms] by simp

theorem heap_init_correct_witness:
  "heap_inv (heap_init 64 4096 (boot_heap\<lparr>heap_begin := 0x200000\<rparr>)) Map.empty"
  using heap_init_correct [of "boot_heap\<lparr>heap_begin := 0x200000\<rparr>" 4096 64] by simp



text \<open>
  C2: \<open>kfree\<close> of a live allocation removes exactly it: the invariant holds without it, exactly its blocks
  become free, only metadata and its header change, its address is no longer valid, and freeing it a
  second time changes nothing. \<open>kfree\<close> of an invalid address never changes anything.
\<close>

theorem kfree_correct:
  assumes "heap_inv h live" "live k = Some sz"
  shows "heap_inv (kfree (payload_of k h) h) (live(k := None))
       \<and> heap_frame k h (kfree (payload_of k h) h)
       \<and> (\<forall>i < heap_cap h. heap_used i (kfree (payload_of k h) h)
            = (\<not> (k \<le> i \<and> i < k + blocks_of sz h) \<and> heap_used i h))
       \<and> \<not> kmalloc_is_valid (payload_of k h) (kfree (payload_of k h) h)
       \<and> kfree (payload_of k h) (kfree (payload_of k h) h) = kfree (payload_of k h) h"
  using kfree_live_props [OF assms] kfree_invalid by simp

theorem kfree_correct_witness:
  "\<exists>k h. heap_inv h [k \<mapsto> 100] \<and> heap_inv (kfree (payload_of k h) h) ([k \<mapsto> 100](k := None))"
proof -
  obtain k h where h: "heap_inv h [k \<mapsto> 100]" by (rule boot_heap_alloc)
  then show ?thesis using kfree_correct [OF h, of k 100] by auto
qed

text \<open>
  allocating and freeing restores the allocator: after \<open>kfree\<close> of what \<open>kmalloc\<close> returned, the
  invariant holds for the original allocations and every data block is used exactly if it was before.
\<close>

theorem kmalloc_kfree_roundtrip:
  assumes "heap_inv h live" "sz \<noteq> 0" "unat sz < 4294967280" "0 < heap_cap h"
    and "kmalloc sz h = Inr (a, h')" "a \<noteq> KMALLOC_NULL"
  shows "heap_inv (kfree a h') live
       \<and> (\<forall>i \<ge> unat (kmalloc_reserved_blocks h). i < heap_cap h \<longrightarrow> heap_used i (kfree a h') = heap_used i h)"
proof (rule kmalloc_cases [OF assms(1) assms(2) assms(3) assms(4)])
  fix k g
  assume eq: "kmalloc sz h = Inr (payload_of k h, g)" and none: "live k = None"
    and inv: "heap_inv g (live(k \<mapsto> sz))" and win: "unat (kmalloc_reserved_blocks h) \<le> k" "k + blocks_of sz h \<le> heap_cap h"
    and free: "free_run (\<lambda>i. heap_used i h) k (blocks_of sz h)" and frame: "heap_frame k h g"
  have pay: "a = payload_of k g" and g: "h' = g"
    using eq assms(5) frame by (simp_all add: payload_of_def heap_frame_def)
  have lk: "(live(k \<mapsto> sz)) k = Some sz" by simp
  note f = kfree_live_props [OF inv lk]
  have "(live(k \<mapsto> sz))(k := None) = live" using none by (auto simp: fun_eq_iff)
  then have final: "heap_inv (kfree a h') live" using f(1) by (simp only: pay g)
  moreover have "kmalloc_reserved_blocks (kfree a h') = kmalloc_reserved_blocks h \<and> heap_cap (kfree a h') = heap_cap h"
    using f(3) frame by (simp add: pay g heap_frame_def)
  moreover have "in_live (kfree a h') live i = in_live h live i" for i
    using f(3) frame by (intro in_live_cong) (simp_all add: pay g heap_frame_def blocks_of_def)
  ultimately show ?thesis using heap_inv_used [OF assms(1)] heap_inv_used [OF final] by simp
qed (use assms in auto)

theorem kmalloc_kfree_roundtrip_witness:
  "\<exists>a h'. kmalloc 100 boot_heap = Inr (a, h') \<and> heap_inv (kfree a h') Map.empty"
proof -
  obtain k h' where eq: "kmalloc 100 boot_heap = Inr (payload_of k boot_heap, h')" and nn: "payload_of k boot_heap \<noteq> KMALLOC_NULL"
    by (rule boot_heap_alloc)
  then show ?thesis using kmalloc_kfree_roundtrip [OF boot_heap_inv _ _ _ eq nn] boot_heap_config eq by auto
qed


text \<open>
  the memory of two live allocations never overlaps: each payload lies inside the pool, beyond the
  bitmap and the dirty map, with the size that was asked for (which \<open>kmalloc_get_size\<close> reports), and
  the ranges of two different allocations are disjoint.
\<close>

theorem live_payloads_disjoint:
  assumes "heap_inv h live" "live k = Some sz" "live k' = Some sz'" "k \<noteq> k'"
  shows "kmalloc_is_valid (payload_of k h) h \<and> kmalloc_get_size (payload_of k h) h = sz
       \<and> unat (heap_begin h) + 2 * unat (kmalloc_bitmap_size h) \<le> unat (payload_of k h)
       \<and> unat (payload_of k h) + unat sz \<le> unat (heap_begin h) + unat (kmalloc_pool_size h)
       \<and> (unat (payload_of k h) + unat sz \<le> unat (payload_of k' h)
          \<or> unat (payload_of k' h) + unat sz' \<le> unat (payload_of k h))"
proof -
  have l: "heap_layout h" by (rule heap_inv_layout [OF assms(1)])
  have ok: "live_ok h k sz" by (rule heap_inv_live [OF assms(1,2)])
  note a = live_address [OF assms(1,2)] and b = live_address [OF assms(1,3)]
  have v: "kmalloc_is_valid (payload_of k h) h" by (rule valid_live [OF assms(1,2)])
  have "kmalloc_get_size (payload_of k h) h = sz"
    using v ok by (simp add: kmalloc_get_size_def kmalloc_get_header_def a(2,6) live_ok_def)
  moreover have "2 * unat (kmalloc_bitmap_size h) \<le> unat (kmalloc_reserved_blocks h) * unat (kmalloc_block_size h)"
    using l by (simp add: heap_layout_def)
  moreover have "unat (kmalloc_reserved_blocks h) * unat (kmalloc_block_size h) \<le> block_offset k h"
    using ok by (simp add: live_ok_def block_offset_def)
  moreover have "block_offset k h + 16 + unat sz \<le> block_offset k' h \<or> block_offset k' h + 16 + unat sz' \<le> block_offset k h"
    using heap_inv_disjoint [OF assms] blocks_cover [OF l, of k sz] blocks_cover [OF l, of k' sz']
      block_offset_mono [of "k + blocks_of sz h" k' h] block_offset_mono [of "k' + blocks_of sz' h" k h] by auto
  ultimately show ?thesis using v a(1,8) b(1) by linarith
qed

theorem live_payloads_disjoint_witness:
  "\<exists>h live k k'. heap_inv h live \<and> k \<noteq> k' \<and> live k = Some 100 \<and> live k' = Some 50
     \<and> (unat (payload_of k h) + 100 \<le> unat (payload_of k' h) \<or> unat (payload_of k' h) + 50 \<le> unat (payload_of k h))"
proof -
  obtain h live k k' where *: "heap_inv h live" "k \<noteq> k'" "live k = Some 100" "live k' = Some 50"
    by (rule boot_heap_two)
  then show ?thesis using live_payloads_disjoint [OF *(1,3,4,2)] by auto
qed

text \<open>
  a client that writes inside the payload it was given (through \<open>kmem_write\<close>) keeps the heap
  invariant and reads back what it wrote.
\<close>

theorem client_write_safe:
  assumes "heap_inv h live" "live k = Some sz" "off + length bs \<le> unat sz"
  shows "heap_inv (kmem_write (payload_of k h + of_nat off) bs h) live
       \<and> kmem_read (payload_of k h + of_nat off) (of_nat (length bs)) (kmem_write (payload_of k h + of_nat off) bs h) = bs"
proof -
  have w: "kmem_write (payload_of k h + of_nat off) bs h = region_write (block_offset k h + 16 + off) bs h"
    unfolding kmem_write_def region_write_def payload_of_def block_offset_word by (simp add: add.assoc)
  have "length bs < 4294967296" using assms(3) unat_u32_less [of sz] by simp
  then show ?thesis
    using region_write_inv [OF assms(1,2), of "block_offset k h + 16 + off" bs] assms(3)
      mem_read_write_same [of bs "mem h" "payload_of k h + of_nat off"]
    by (simp add: w kmem_read_def unat_of_nat_u32) (simp add: w [symmetric] kmem_write_def)
qed

theorem client_write_safe_witness:
  "\<exists>h k. heap_inv h [k \<mapsto> 100] \<and> heap_inv (kmem_write (payload_of k h + of_nat 98) [1, 2] h) [k \<mapsto> 100]"
proof -
  obtain k h where h: "heap_inv h [k \<mapsto> 100]" by (rule boot_heap_alloc)
  then show ?thesis using client_write_safe [OF h, of k 100 98 "[1, 2]"] by auto
qed

text \<open>
  \<open>kmalloc_next\<close> enumerates the live allocations in address order: from NULL it gives the first one,
  from a live allocation the next one, and NULL exactly when there is none; nothing is skipped.
\<close>

theorem kmalloc_next_enumerates:
  assumes "heap_inv h live"
  shows "next_spec h live 0 (kmalloc_next KMALLOC_NULL h)
       \<and> (\<forall>k sz. live k = Some sz \<longrightarrow> next_spec h live (Suc k) (kmalloc_next (payload_of k h) h))"
  using kmalloc_next_first [OF assms] kmalloc_next_live [OF assms] by blast

theorem kmalloc_next_enumerates_witness:
  "next_spec boot_heap Map.empty 0 (kmalloc_next KMALLOC_NULL boot_heap)"
  using kmalloc_next_enumerates [OF boot_heap_inv] by simp

lemma setter_props:
  assumes inv: "heap_inv h live" and live: "live k = Some sz"
    and hdr: "length (h_pad hdr) = 8" "h_size hdr = sz" "h_magic hdr = KMALLOC_MAGIC"
  defines "h' \<equiv> irq_restore (irq_on h) (kmalloc_header_write (of_nat (block_offset k h)) hdr (h\<lparr>irq_on := False\<rparr>))"
  shows "heap_inv h' live" and "kmalloc_is_valid (payload_of k h) h'" and "kmalloc_get_header (payload_of k h) h' = hdr"
proof -
  have w: "h' = kmalloc_header_write (of_nat (block_offset k h)) hdr h"
    by (simp add: h'_def irq_restore_def kmalloc_header_write_def)
  note p = header_write_inv [OF inv live hdr, folded w]
  show i: "heap_inv h' live" by (rule p(1))
  have f: "payload_of k h = payload_of k h'" "heap_begin h' = heap_begin h" "block_offset k h' = block_offset k h"
    by (simp_all add: w payload_of_def kmalloc_header_write_def block_offset_def)
  show "kmalloc_is_valid (payload_of k h) h'" unfolding f(1) by (rule valid_live [OF i live])
  show "kmalloc_get_header (payload_of k h) h' = hdr"
    using live_address(2,6) [OF i live] p(2) by (simp add: kmalloc_get_header_def f(1))
qed

text \<open>
  the header fields are independent: setting type, flags or permissions of a live allocation keeps
  the invariant, is what the getter then returns, and leaves the size and the other fields alone.
\<close>

theorem header_fields_independent:
  assumes "heap_inv h live" "live k = Some sz"
  defines "a \<equiv> payload_of k h"
  shows "(let g = kmalloc_set_type a v h
          in heap_inv g live \<and> kmalloc_get_type a g = v \<and> kmalloc_get_size a g = sz
             \<and> kmalloc_get_flags a g = kmalloc_get_flags a h \<and> kmalloc_get_permissions a g = kmalloc_get_permissions a h)
       \<and> (let g = kmalloc_set_flags a v h
          in heap_inv g live \<and> kmalloc_get_flags a g = v \<and> kmalloc_get_size a g = sz
             \<and> kmalloc_get_type a g = kmalloc_get_type a h \<and> kmalloc_get_permissions a g = kmalloc_get_permissions a h)
       \<and> (let g = kmalloc_set_permissions a v h
          in heap_inv g live \<and> kmalloc_get_permissions a g = v \<and> kmalloc_get_size a g = sz
             \<and> kmalloc_get_type a g = kmalloc_get_type a h \<and> kmalloc_get_flags a g = kmalloc_get_flags a h)"
proof -
  let ?hdr = "kmalloc_get_header a h"
  have v: "kmalloc_is_valid a h" unfolding a_def by (rule valid_live [OF assms(1,2)])
  have eq: "?hdr = header_at k h"
    using live_address(2,6) [OF assms(1,2)] by (simp add: kmalloc_get_header_def a_def)
  have pad: "length (h_pad ?hdr) = 8" by (simp add: kmalloc_get_header_def length_pad_read)
  have "live_ok h k sz" by (rule heap_inv_live [OF assms(1,2)])
  then have hdr: "h_size ?hdr = sz" "h_magic ?hdr = KMALLOC_MAGIC" by (simp_all add: eq live_ok_def)
  have set: "a - KMALLOC_HEADER_SIZE - heap_begin h = of_nat (block_offset k h)"
    using live_address(2) [OF assms(1,2)] by (simp add: a_def)
  have rd: "kmalloc_header_read (of_nat (block_offset k h)) h = ?hdr"
    by (simp add: kmalloc_get_header_def set)
  note s = setter_props [OF assms(1,2), folded a_def]
  show ?thesis
    using s [of "?hdr\<lparr>h_type := v\<rparr>"] s [of "?hdr\<lparr>h_flags := v\<rparr>"] s [of "?hdr\<lparr>h_perm := v\<rparr>"] v hdr pad
    by (simp add: kmalloc_set_type_def kmalloc_set_flags_def kmalloc_set_permissions_def irq_save_def set rd
        kmalloc_get_type_def kmalloc_get_flags_def kmalloc_get_permissions_def kmalloc_get_size_def)
qed


theorem header_fields_independent_witness:
  "\<exists>h k. heap_inv h [k \<mapsto> 100] \<and> kmalloc_get_type (payload_of k h) (kmalloc_set_type (payload_of k h) 8 h) = 8"
proof -
  obtain k h where h: "heap_inv h [k \<mapsto> 100]" by (rule boot_heap_alloc)
  then show ?thesis using header_fields_independent [OF h, of k 100 8] by (auto simp: Let_def)
qed

text \<open>
  a request within 16 bytes of \<open>2 ^ 32\<close> is not refused: \<open>size + KMALLOC_HEADER_SIZE\<close> wraps, so the heap
  takes one single block, and the caller gets a payload of almost 4 GiB in a block of a few bytes.
\<close>

theorem kmalloc_size_wraps:
  assumes "heap_inv h live" "4294967280 < unat sz" "16 \<le> unat (kmalloc_block_size h)"
    and "unat (kmalloc_reserved_blocks h) < heap_cap h" "\<not> heap_used (unat (kmalloc_reserved_blocks h)) h"
  shows "\<exists>h'. kmalloc sz h = Inr (payload_of (unat (kmalloc_reserved_blocks h)) h, h')"
proof -
  let ?h = "h\<lparr>irq_on := False\<rparr>" and ?r = "unat (kmalloc_reserved_blocks h)" and ?d = "unat (kmalloc_block_size h)"
  have l: "heap_layout ?h" using heap_inv_layout [OF assms(1)] by simp
  have t: "unat (sz + 16) = unat sz - 4294967280"
    using assms(2) unat_u32_less [of sz] by (simp add: unat_plus_if')
  then have t2: "0 < unat (sz + 16)" "unat (sz + 16) < 16" using assms(2) unat_u32_less [of sz] by linarith+
  have dm: "unat (kmalloc_block_size h - 1) = ?d - 1"
    using l by (intro unat_minus_one_u32) (simp add: heap_layout_def)
  have "0 < ?r" using reserved_pos [OF l] assms(4) by simp
  then have "?d * 2 \<le> unat (kmalloc_pool_size h)"
    using block_offset_le [OF l, of 2] assms(4) by (simp add: block_offset_def)
  then have d: "?d < 2147483648" using unat_u32_less [of "kmalloc_pool_size h"] by simp
  have "unat (sz + 16 + (kmalloc_block_size h - 1)) = unat (sz + 16) + (?d - 1)"
    using dm d t2 assms(3) by (subst unat_add_u32) simp_all
  moreover have "(unat (sz + 16) + (?d - 1)) div ?d = 1"
    using t2 assms(3) by (intro div_nat_eqI) simp_all
  moreover have "sz + 16 \<noteq> 0" using t2(1) by (simp add: unat_gt_0)
  ultimately have req: "unat (kmalloc_blocks_required (sz + 16) ?h) = 1"
    by (simp add: kmalloc_blocks_required_def unat_div_distrib)
  have avail: "unat (kmalloc_block_count h - kmalloc_reserved_blocks h) = heap_cap h - ?r"
    using l by (simp add: heap_layout_def heap_cap_def unat_sub)
  have cfg: "kmalloc_block_size h \<noteq> 0" "kmalloc_pool_size h \<noteq> 0" "kmalloc_bitmap h \<noteq> 0" "sz \<noteq> 0"
    using l assms(2,3) \<open>?d * 2 \<le> unat (kmalloc_pool_size h)\<close> by (auto simp: heap_layout_def)
  have fit: "first_fit (\<lambda>i. heap_used i h) 1 [?r..<unat (kmalloc_block_count h)] 0 0 = Some ?r"
    using assms(4,5) by (simp add: heap_cap_def upt_conv_Cons)
  let ?hdr = "fresh_header sz" and ?h1 = "apply_range (\<lambda>i. kmalloc_block_set_used (of_nat i)) ?r 1 ?h"
  let ?h2 = "kmalloc_header_write (of_nat ?r * kmalloc_block_size ?h1) ?hdr ?h1"
  have "?r + 1 \<le> heap_cap ?h" using assms(4) by simp
  note s = kheap_bits.set_range [OF l this]
  have r: "heap_rest ?h1 = heap_rest ?h" using s by simp
  note c = heap_rest_config [OF r]
  have "heap_layout ?h2" using s by (simp add: kmalloc_header_write_def heap_layout_def)
  from heap_rest_config(8) [OF bitmap_write_props(1) [OF this]]
  have "heap_begin (kmalloc_bitmap_write ?h2) = heap_begin h" using c by (simp add: kmalloc_header_write_def)
  moreover have "kmalloc_block_size ?h1 = kmalloc_block_size h" using c by simp
  moreover have "kmalloc_unlocked sz ?h = Inr (heap_begin (kmalloc_bitmap_write ?h2) + of_nat ?r * kmalloc_block_size ?h1
      + KMALLOC_HEADER_SIZE, kmalloc_bitmap_write ?h2)"
  proof -
    have "\<not> kmalloc_block_count h - kmalloc_reserved_blocks h < kmalloc_blocks_required (sz + 16) ?h"
      "kmalloc_blocks_required (sz + 16) ?h \<noteq> 0"
      using req avail assms(4) by (auto simp: word_less_nat_alt)
    then show ?thesis
      using cfg fit by (simp only: kmalloc_unlocked_def) (simp add: KMALLOC_HEADER_SIZE_def req [simplified] fresh_header_def Let_def)
  qed
  ultimately have "kmalloc sz h = Inr (payload_of ?r h, irq_restore (irq_on h) (kmalloc_bitmap_write ?h2))"
    by (simp add: kmalloc_def irq_save_def payload_of_def KMALLOC_HEADER_SIZE_def)
  then show ?thesis by blast
qed

theorem kmalloc_size_wraps_witness:
  "\<exists>h'. kmalloc 0xFFFFFFFF boot_heap = Inr (payload_of 1 boot_heap, h')"
proof -
  have "\<not> heap_used 1 boot_heap"
    using heap_inv_used [OF boot_heap_inv, of 1] boot_heap_config by (simp add: in_live_def)
  then show ?thesis
    using kmalloc_size_wraps [OF boot_heap_inv, of "0xFFFFFFFF"] boot_heap_config by simp
qed

end
