(* ===== verification/SectorCache.thy ===== *)
theory SectorCache
  imports Prelude
begin

text \<open>
  The device layer of the file system on x86, \<open>kernel/fs/basefs/backend/io_x86.c\<close>: a write-back cache
  of one 512-byte sector (the window at \<open>device_address\<close>) in front of an ATA or AHCI drive, and the
  byte interface every other file of \<open>kernel/fs/basefs\<close> uses.

  The drives are modelled by what their drivers promise: a store of sectors in which any access may
  fail, and a failed access changes neither the buffer nor the disk (the ATA driver gives up before
  the data transfer begins). Which accesses fail is part of the state and not constrained.
\<close>

section \<open>State\<close>

record drive =
  sectors :: "u32 \<Rightarrow> u8 list"
  read_fault :: "u32 \<Rightarrow> bool"
  write_fault :: "u32 \<Rightarrow> bool"
  ahci_port :: bool
  ahci_flush_ok :: bool

text \<open>
  \<open>struct FSDeviceContext\<close>, with the sector window and the drive it stands for. The ghost flag \<open>overrun\<close>
  is set where the bitmap code would access bytes outside \<open>frame_bitmap\<close>: what follows is undefined.
\<close>

record fsdev =
  is_open :: bool
  frame_dirty :: bool
  sector_size :: u32
  pool_size :: u32
  block_count :: u32
  bitmap_size :: u32
  reserved_blocks :: u32
  device_type :: u16
  frame_offset :: u32
  frame_bitmap :: "u8 list"
  sector_frame :: u32
  sector_dirty :: bool
  window :: "u8 list"
  drive_of :: drive
  overrun :: bool

definition FS_DEVICE_TYPE_ATA :: u16 where "FS_DEVICE_TYPE_ATA = 0"
definition FS_DEVICE_TYPE_AHCI :: u16 where "FS_DEVICE_TYPE_AHCI = 1"
definition NO_FRAME :: u32 where "NO_FRAME = 0xFFFFFFFF"
definition ATA_SECTOR_SIZE :: u32 where "ATA_SECTOR_SIZE = 512"

definition drive_read :: "u32 \<Rightarrow> drive \<Rightarrow> u8 list option" where
  "drive_read s d = (if read_fault d s then None else Some (sectors d s))"

definition drive_write :: "u32 \<Rightarrow> u8 list \<Rightarrow> drive \<Rightarrow> drive option" where
  "drive_write s bs d = (if write_fault d s then None else Some (d\<lparr>sectors := (sectors d)(s := bs)\<rparr>))"

section \<open>Operations\<close>

definition write_back :: "fsdev \<Rightarrow> fsdev option" where
  "write_back s =
     (if sector_dirty s \<and> sector_frame s \<noteq> NO_FRAME
      then (case drive_write (sector_frame s) (window s) (drive_of s) of
              None \<Rightarrow> None
            | Some d \<Rightarrow> Some (s\<lparr>drive_of := d, sector_dirty := False\<rparr>))
      else Some s)"

definition fetch :: "u32 \<Rightarrow> fsdev \<Rightarrow> bool \<times> fsdev" where
  "fetch t s = (case drive_read t (drive_of s) of
                  None \<Rightarrow> (False, s)
                | Some bs \<Rightarrow> (True, s\<lparr>window := bs, sector_frame := t\<rparr>))"

definition fs_cache_flush_and_fetch :: "u32 \<Rightarrow> fsdev \<Rightarrow> bool \<times> fsdev" where
  "fs_cache_flush_and_fetch t s =
     (if sector_frame s = t then (True, s)
      else if device_type s = FS_DEVICE_TYPE_ATA
      then (case write_back s of None \<Rightarrow> (False, s) | Some s1 \<Rightarrow> fetch t s1)
      else if device_type s = FS_DEVICE_TYPE_AHCI
      then (if \<not> ahci_port (drive_of s) then (False, s)
            else (case write_back s of None \<Rightarrow> (False, s) | Some s1 \<Rightarrow> fetch t s1))
      else (True, s))"

text \<open>The result of the sector write is ignored: the window counts as clean whether or not it worked.\<close>

definition sync_write :: "fsdev \<Rightarrow> fsdev" where
  "sync_write s =
     (if sector_dirty s \<and> sector_frame s \<noteq> NO_FRAME
      then s\<lparr>drive_of := (case drive_write (sector_frame s) (window s) (drive_of s) of
                            None \<Rightarrow> drive_of s | Some d \<Rightarrow> d),
             sector_dirty := False\<rparr>
      else s)"

definition fs_cache_sync :: "fsdev \<Rightarrow> fsdev" where
  "fs_cache_sync s =
     (if device_type s = FS_DEVICE_TYPE_ATA then sync_write s
      else if device_type s = FS_DEVICE_TYPE_AHCI
      then (if \<not> ahci_port (drive_of s) then s else sync_write s)
      else s)"

definition fs_cache_flush :: "fsdev \<Rightarrow> bool \<times> fsdev" where
  "fs_cache_flush s =
     (let s1 = fs_cache_sync s
      in if sector_dirty s1 then (False, s1)
         else if device_type s1 = FS_DEVICE_TYPE_AHCI
         then (if \<not> ahci_port (drive_of s1) then (False, s1) else (ahci_flush_ok (drive_of s1), s1))
         else (True, s1))"

definition fs_readb :: "u32 \<Rightarrow> fsdev \<Rightarrow> u8 \<times> fsdev" where
  "fs_readb a s =
     (case fs_cache_flush_and_fetch (a div ATA_SECTOR_SIZE) s of
        (False, s1) \<Rightarrow> (0, s1)
      | (True, s1) \<Rightarrow> (window s1 ! unat (a mod ATA_SECTOR_SIZE), s1))"

definition fs_writeb :: "u32 \<Rightarrow> u8 \<Rightarrow> fsdev \<Rightarrow> fsdev" where
  "fs_writeb a b s =
     (case fs_cache_flush_and_fetch (a div ATA_SECTOR_SIZE) s of
        (False, s1) \<Rightarrow> s1
      | (True, s1) \<Rightarrow> s1\<lparr>window := (window s1)[unat (a mod ATA_SECTOR_SIZE) := b], sector_dirty := True\<rparr>)"

fun fs_mem_read :: "u32 \<Rightarrow> nat \<Rightarrow> fsdev \<Rightarrow> u8 list \<times> fsdev" where
  "fs_mem_read a 0 s = ([], s)"
| "fs_mem_read a (Suc n) s =
     (let (b, s1) = fs_readb a s; (bs, s2) = fs_mem_read (a + 1) n s1 in (b # bs, s2))"

fun fs_mem_write :: "u32 \<Rightarrow> u8 list \<Rightarrow> fsdev \<Rightarrow> fsdev" where
  "fs_mem_write a [] s = s"
| "fs_mem_write a (b # bs) s = fs_mem_write (a + 1) bs (fs_writeb a b s)"

section \<open>The cache refines a flat byte memory\<close>

text \<open>What the bytes of the device are, wherever they currently live.\<close>

definition dev_view :: "fsdev \<Rightarrow> memory" where
  "dev_view s = (\<lambda>a. if a div ATA_SECTOR_SIZE = sector_frame s then window s ! unat (a mod ATA_SECTOR_SIZE)
                     else sectors (drive_of s) (a div ATA_SECTOR_SIZE) ! unat (a mod ATA_SECTOR_SIZE))"

text \<open>What is on the platters.\<close>

definition disk_view :: "fsdev \<Rightarrow> memory" where
  "disk_view s = (\<lambda>a. sectors (drive_of s) (a div ATA_SECTOR_SIZE) ! unat (a mod ATA_SECTOR_SIZE))"

text \<open>A window that is clean agrees with its sector; a cache with no frame is never dirty.\<close>

definition cache_coherent :: "fsdev \<Rightarrow> bool" where
  "cache_coherent s \<longleftrightarrow>
     length (window s) = 512 \<and> (\<forall>t. length (sectors (drive_of s) t) = 512)
     \<and> (sector_dirty s \<longrightarrow> sector_frame s \<noteq> NO_FRAME)
     \<and> (\<not> sector_dirty s \<longrightarrow> sector_frame s \<noteq> NO_FRAME \<longrightarrow> window s = sectors (drive_of s) (sector_frame s))"

definition disk_type :: "fsdev \<Rightarrow> bool" where
  "disk_type s \<longleftrightarrow> device_type s = FS_DEVICE_TYPE_ATA \<or> device_type s = FS_DEVICE_TYPE_AHCI"

definition no_faults :: "fsdev \<Rightarrow> bool" where
  "no_faults s \<longleftrightarrow> (\<forall>t. \<not> read_fault (drive_of s) t \<and> \<not> write_fault (drive_of s) t) \<and> ahci_port (drive_of s)"

text \<open>Everything of the context but the cache itself.\<close>

definition ctx_rest :: "fsdev \<Rightarrow> fsdev" where
  "ctx_rest s = s\<lparr>sector_frame := 0, sector_dirty := False, window := [], drive_of := (drive_of s)\<lparr>sectors := (\<lambda>_. [])\<rparr>\<rparr>"

lemma ctx_rest_simps [simp]:
  "is_open (ctx_rest s) = is_open s" "frame_dirty (ctx_rest s) = frame_dirty s"
  "sector_size (ctx_rest s) = sector_size s" "pool_size (ctx_rest s) = pool_size s"
  "block_count (ctx_rest s) = block_count s" "bitmap_size (ctx_rest s) = bitmap_size s"
  "reserved_blocks (ctx_rest s) = reserved_blocks s" "device_type (ctx_rest s) = device_type s"
  "frame_offset (ctx_rest s) = frame_offset s" "frame_bitmap (ctx_rest s) = frame_bitmap s"
  "overrun (ctx_rest s) = overrun s"
  "no_faults (ctx_rest s) = no_faults s" "disk_type (ctx_rest s) = disk_type s"
  by (simp_all add: ctx_rest_def no_faults_def disk_type_def)

lemma ctx_restD:
  assumes "ctx_rest s' = ctx_rest s"
  shows "is_open s' = is_open s" "frame_dirty s' = frame_dirty s" "sector_size s' = sector_size s"
    "pool_size s' = pool_size s" "block_count s' = block_count s" "bitmap_size s' = bitmap_size s"
    "reserved_blocks s' = reserved_blocks s" "device_type s' = device_type s"
    "frame_offset s' = frame_offset s" "frame_bitmap s' = frame_bitmap s"
    "no_faults s' = no_faults s" "disk_type s' = disk_type s" "overrun s' = overrun s"
  using assms by (metis ctx_rest_simps)+

lemma unat_numeral_eq_512: "unat (512 :: u32) = 512"
  by simp

lemma sector_of_less: "a div ATA_SECTOR_SIZE \<noteq> NO_FRAME"
proof
  assume "a div ATA_SECTOR_SIZE = NO_FRAME"
  then have "unat a div 512 = unat NO_FRAME"
    by (metis ATA_SECTOR_SIZE_def unat_div_distrib unat_numeral_eq_512)
  then show False using unat_u32_less [of a] by (simp add: NO_FRAME_def)
qed


lemma write_back_props:
  assumes "cache_coherent s" "write_back s = Some s1"
  shows "cache_coherent s1" "dev_view s1 = dev_view s" "ctx_rest s1 = ctx_rest s"
    "sector_frame s1 = sector_frame s" "\<not> sector_dirty s1"
  using assms
  by (auto simp: write_back_def drive_write_def cache_coherent_def dev_view_def ctx_rest_def fun_eq_iff
      split: if_splits option.splits)

lemma fetch_props:
  assumes "cache_coherent s" "\<not> sector_dirty s" "t \<noteq> NO_FRAME" "fetch t s = (r, s1)"
  shows "cache_coherent s1" "dev_view s1 = dev_view s" "ctx_rest s1 = ctx_rest s"
    "r \<Longrightarrow> sector_frame s1 = t" "r \<longleftrightarrow> \<not> read_fault (drive_of s) t"
  using assms sector_of_less
  by (auto simp: fetch_def drive_read_def cache_coherent_def dev_view_def ctx_rest_def fun_eq_iff
      split: if_splits option.splits)

lemma flush_and_fetch_props:
  assumes c: "cache_coherent s" "disk_type s" "t \<noteq> NO_FRAME" and eq: "fs_cache_flush_and_fetch t s = (r, s1)"
  shows "cache_coherent s1 \<and> dev_view s1 = dev_view s \<and> ctx_rest s1 = ctx_rest s
       \<and> (r \<longrightarrow> sector_frame s1 = t) \<and> (no_faults s \<longrightarrow> r)"
proof (cases "sector_frame s = t")
  case True
  then show ?thesis using assms by (auto simp: fs_cache_flush_and_fetch_def)
next
  case miss: False
  show ?thesis
  proof (cases "write_back s")
    case None
    then have "\<not> no_faults s"
      by (auto simp: write_back_def drive_write_def no_faults_def split: if_splits)
    then show ?thesis using None miss c eq
      by (auto simp: fs_cache_flush_and_fetch_def disk_type_def split: if_splits)
  next
    case (Some s2)
    note w = write_back_props [OF c(1) Some]
    have nf: "no_faults s2 = no_faults s" by (rule ctx_restD(11) [OF w(3)])
    obtain r' s3 where f: "fetch t s2 = (r', s3)" by (cases "fetch t s2") auto
    note p = fetch_props [OF w(1,5) c(3) f]
    have "(r, s1) = (r', s3) \<or> \<not> no_faults s \<and> (r, s1) = (False, s)"
      using eq miss Some f c(2)
      by (auto simp: fs_cache_flush_and_fetch_def disk_type_def no_faults_def split: if_splits)
    then show ?thesis using p w nf c(1) by (auto simp: no_faults_def)
  qed
qed

lemma mod_sector_less: "unat (a mod ATA_SECTOR_SIZE) < 512"
  by (simp add: ATA_SECTOR_SIZE_def unat_mod_distrib)

lemma same_sector_byte: "a div ATA_SECTOR_SIZE = b div ATA_SECTOR_SIZE \<Longrightarrow>
    unat (a mod ATA_SECTOR_SIZE) = unat (b mod ATA_SECTOR_SIZE) \<longleftrightarrow> a = (b :: u32)"
  by (metis word_mod_div_equality word_unat_eq_iff)

text \<open>Reading gives the byte of the view (or 0 after a fault) and never changes the view.\<close>

lemma fs_readb_props:
  assumes "cache_coherent s" "disk_type s" "fs_readb a s = (b, s1)"
  shows "cache_coherent s1 \<and> dev_view s1 = dev_view s \<and> ctx_rest s1 = ctx_rest s
       \<and> (b = dev_view s a \<or> \<not> no_faults s \<and> b = 0)"
proof -
  obtain r s2 where f: "fs_cache_flush_and_fetch (a div ATA_SECTOR_SIZE) s = (r, s2)"
    by (cases "fs_cache_flush_and_fetch (a div ATA_SECTOR_SIZE) s") auto
  note p = flush_and_fetch_props [OF assms(1,2) sector_of_less f]
  show ?thesis
  proof (cases r)
    case True
    then have "b = dev_view s2 a" "s1 = s2"
      using assms(3) f p True by (auto simp: fs_readb_def dev_view_def)
    then show ?thesis using p by simp
  next
    case False
    then show ?thesis using assms(3) f p by (auto simp: fs_readb_def)
  qed
qed

text \<open>Writing changes exactly that byte of the view (or nothing after a fault).\<close>

lemma fs_writeb_props:
  assumes "cache_coherent s" "disk_type s"
  shows "cache_coherent (fs_writeb a b s) \<and> ctx_rest (fs_writeb a b s) = ctx_rest s
       \<and> (dev_view (fs_writeb a b s) = (dev_view s)(a := b) \<or> \<not> no_faults s \<and> dev_view (fs_writeb a b s) = dev_view s)"
proof -
  obtain r s2 where f: "fs_cache_flush_and_fetch (a div ATA_SECTOR_SIZE) s = (r, s2)"
    by (cases "fs_cache_flush_and_fetch (a div ATA_SECTOR_SIZE) s") auto
  note p = flush_and_fetch_props [OF assms(1,2) sector_of_less f]
  show ?thesis
  proof (cases r)
    case True
    let ?s1 = "s2\<lparr>window := (window s2)[unat (a mod ATA_SECTOR_SIZE) := b], sector_dirty := True\<rparr>"
    have s1: "fs_writeb a b s = ?s1" using f True by (simp add: fs_writeb_def)
    have fr: "sector_frame s2 = a div ATA_SECTOR_SIZE" "length (window s2) = 512"
      using p True by (simp_all add: cache_coherent_def)
    have "dev_view ?s1 = (dev_view s2)(a := b)"
    proof
      fix x
      show "dev_view ?s1 x = ((dev_view s2)(a := b)) x"
        using fr mod_sector_less [of a] mod_sector_less [of x] same_sector_byte [of x a]
        by (auto simp: dev_view_def nth_list_update)
    qed
    moreover have "cache_coherent ?s1" using p fr sector_of_less by (simp add: cache_coherent_def)
    moreover have "ctx_rest ?s1 = ctx_rest s" using p by (simp add: ctx_rest_def)
    ultimately show ?thesis using p unfolding s1 by simp
  next
    case False
    then show ?thesis using f p by (auto simp: fs_writeb_def)
  qed
qed

lemma fs_mem_read_props:
  "cache_coherent s \<Longrightarrow> disk_type s \<Longrightarrow> no_faults s \<Longrightarrow> fs_mem_read a n s = (bs, s1) \<Longrightarrow>
     cache_coherent s1 \<and> dev_view s1 = dev_view s \<and> ctx_rest s1 = ctx_rest s \<and> bs = mem_read (dev_view s) a n"
proof (induction n arbitrary: a s bs s1)
  case 0
  then show ?case by (simp add: mem_read_def)
next
  case (Suc n)
  obtain b s2 where r: "fs_readb a s = (b, s2)" by (cases "fs_readb a s") auto
  note p = fs_readb_props [OF Suc.prems(1,2) r]
  obtain cs s3 where q: "fs_mem_read (a + 1) n s2 = (cs, s3)" by (cases "fs_mem_read (a + 1) n s2") auto
  have IH: "cache_coherent s3 \<and> dev_view s3 = dev_view s2 \<and> ctx_rest s3 = ctx_rest s2 \<and> cs = mem_read (dev_view s2) (a + 1) n"
    using Suc.IH [OF _ _ _ q] p ctx_restD(11,12) [of s2 s] Suc.prems by simp
  have "mem_read m a (Suc n) = m a # mem_read m (a + 1) n" for m :: memory
    by (simp add: mem_read_def upt_conv_Cons map_Suc_upt [symmetric] del: upt_Suc) (simp add: add.assoc)
  then show ?case using Suc.prems r q p IH by simp
qed

lemma fs_mem_read_clean:
  "\<not> sector_dirty s \<Longrightarrow> \<not> sector_dirty (snd (fs_mem_read a n s))"
proof (induction n arbitrary: a s)
  case 0
  then show ?case by simp
next
  case (Suc n)
  have "\<not> sector_dirty (snd (fs_readb a s))"
    using Suc.prems
    by (auto simp: fs_readb_def fs_cache_flush_and_fetch_def write_back_def fetch_def split: prod.splits option.splits if_splits)
  then have "\<not> sector_dirty (snd (fs_mem_read (a + 1) n (snd (fs_readb a s))))" by (rule Suc.IH)
  then show ?case by (simp add: split_beta Let_def)
qed

lemma fs_mem_write_props:
  "cache_coherent s \<Longrightarrow> disk_type s \<Longrightarrow> no_faults s \<Longrightarrow>
     cache_coherent (fs_mem_write a bs s) \<and> ctx_rest (fs_mem_write a bs s) = ctx_rest s
     \<and> dev_view (fs_mem_write a bs s) = mem_write (dev_view s) a bs"
proof (induction bs arbitrary: a s)
  case Nil
  then show ?case by simp
next
  case (Cons b bs)
  note p = fs_writeb_props [OF Cons.prems(1,2), of a b]
  show ?case using Cons.IH [of "fs_writeb a b s" "a + 1"] p Cons.prems ctx_restD(11,12) [of "fs_writeb a b s" s] by auto
qed

lemma sync_props:
  assumes "cache_coherent s" "disk_type s" "no_faults s"
  shows "cache_coherent (fs_cache_sync s)" "ctx_rest (fs_cache_sync s) = ctx_rest s"
    "dev_view (fs_cache_sync s) = dev_view s" "disk_view (fs_cache_sync s) = dev_view s"
    "\<not> sector_dirty (fs_cache_sync s)"
  using assms
  by (auto simp: fs_cache_sync_def sync_write_def drive_write_def cache_coherent_def dev_view_def disk_view_def
      ctx_rest_def no_faults_def disk_type_def sector_of_less fun_eq_iff)


section \<open>Properties\<close>

definition blank_dev :: fsdev where
  "blank_dev = \<lparr> is_open = False, frame_dirty = False, sector_size = 0, pool_size = 0, block_count = 0,
     bitmap_size = 0, reserved_blocks = 0, device_type = FS_DEVICE_TYPE_ATA, frame_offset = NO_FRAME,
     frame_bitmap = replicate 32 0, sector_frame = NO_FRAME, sector_dirty = False, window = replicate 512 0,
     drive_of = \<lparr> sectors = (\<lambda>_. replicate 512 0), read_fault = (\<lambda>_. False), write_fault = (\<lambda>_. False),
                  ahci_port = True, ahci_flush_ok = True \<rparr>, overrun = False \<rparr>"

lemma blank_dev_ok: "cache_coherent blank_dev" "disk_type blank_dev" "no_faults blank_dev"
  by (simp_all add: blank_dev_def cache_coherent_def disk_type_def no_faults_def)

text \<open>
  C4: on a working drive the sector cache is invisible: reading any range gives the bytes last written
  there, in any order of accesses and across sector borders and address wrap-around, reading changes
  nothing, and \<open>fs_cache_sync\<close> brings the disk itself up to date.
\<close>

theorem cache_refines_memory:
  assumes "cache_coherent s" "disk_type s" "no_faults s"
  shows "fst (fs_mem_read a n s) = mem_read (dev_view s) a n
       \<and> dev_view (snd (fs_mem_read a n s)) = dev_view s
       \<and> dev_view (fs_mem_write a bs s) = mem_write (dev_view s) a bs
       \<and> cache_coherent (snd (fs_mem_read a n s)) \<and> cache_coherent (fs_mem_write a bs s)
       \<and> disk_view (fs_cache_sync s) = dev_view s \<and> fst (fs_cache_flush s) = (device_type s = FS_DEVICE_TYPE_AHCI \<longrightarrow> ahci_flush_ok (drive_of s))"
proof -
  obtain cs s1 where r: "fs_mem_read a n s = (cs, s1)" by (cases "fs_mem_read a n s") auto
  have "fst (fs_cache_flush s) = (device_type s = FS_DEVICE_TYPE_AHCI \<longrightarrow> ahci_flush_ok (drive_of s))"
    using assms
    by (auto simp: fs_cache_flush_def fs_cache_sync_def sync_write_def drive_write_def cache_coherent_def
        no_faults_def disk_type_def Let_def)
  then show ?thesis
    using fs_mem_read_props [OF assms r] fs_mem_write_props [OF assms, of a bs] sync_props [OF assms] r by simp
qed

theorem cache_refines_memory_witness:
  "dev_view (fs_mem_write 510 [1, 2, 3, 4] blank_dev) = mem_write (dev_view blank_dev) 510 [1, 2, 3, 4]"
  using cache_refines_memory [OF blank_dev_ok, of 510 0 "[1, 2, 3, 4]"] by simp

text \<open>
  no drive fault makes the cache lose a byte that was written before: whichever accesses fail, a
  read changes no byte of the device and returns the byte or 0, and a write changes its own byte or
  nothing.
\<close>

theorem cache_survives_faults:
  assumes "cache_coherent s" "disk_type s"
  shows "dev_view (snd (fs_readb a s)) = dev_view s \<and> fst (fs_readb a s) \<in> {dev_view s a, 0}
       \<and> cache_coherent (snd (fs_readb a s))
       \<and> dev_view (fs_writeb a b s) \<in> {(dev_view s)(a := b), dev_view s} \<and> cache_coherent (fs_writeb a b s)"
proof -
  obtain c s1 where r: "fs_readb a s = (c, s1)" by (cases "fs_readb a s") auto
  show ?thesis using fs_readb_props [OF assms r] fs_writeb_props [OF assms, of a b] r by auto
qed

theorem cache_survives_faults_witness:
  "dev_view (snd (fs_readb 7 (blank_dev\<lparr>drive_of := (drive_of blank_dev)\<lparr>read_fault := (\<lambda>_. True)\<rparr>\<rparr>))) = dev_view blank_dev"
proof -
  let ?s = "blank_dev\<lparr>drive_of := (drive_of blank_dev)\<lparr>read_fault := (\<lambda>_. True)\<rparr>\<rparr>"
  have "cache_coherent ?s" "disk_type ?s" using blank_dev_ok by (simp_all add: cache_coherent_def disk_type_def)
  moreover have "dev_view ?s = dev_view blank_dev" by (simp add: dev_view_def cong: if_cong)
  ultimately show ?thesis using cache_survives_faults [of ?s 7 0] by simp
qed

text \<open>
  \<open>fs_cache_sync\<close> ignores the result of the sector write, so \<open>fs_cache_flush\<close> reports success on an
  ATA drive although the dirty sector was never written, and drops its dirty flag: the data is lost at
  the next miss. (Its comment and header say it returns false if the write-back failed.)
\<close>

theorem sync_loses_failed_write:
  assumes "device_type s = FS_DEVICE_TYPE_ATA" "sector_dirty s" "sector_frame s \<noteq> NO_FRAME"
    and "write_fault (drive_of s) (sector_frame s)"
  shows "fs_cache_flush s = (True, s\<lparr>sector_dirty := False\<rparr>)"
  using assms
  by (simp add: fs_cache_flush_def fs_cache_sync_def sync_write_def drive_write_def Let_def
      FS_DEVICE_TYPE_ATA_def FS_DEVICE_TYPE_AHCI_def)

theorem sync_loses_failed_write_witness:
  "fst (fs_cache_flush (blank_dev\<lparr>sector_frame := 3, sector_dirty := True,
      drive_of := (drive_of blank_dev)\<lparr>write_fault := (\<lambda>t. t = 3)\<rparr>\<rparr>))"
  by (subst sync_loses_failed_write) (simp_all add: blank_dev_def NO_FRAME_def)

end
