(* ===== verification/FsBitmap.thy ===== *)
theory FsBitmap
  imports SectorCache FirstFit
begin

text \<open>
  The block bitmap of a device, \<open>kernel/fs/basefs/bitmap.c\<close>: bits are read and written through a
  32-byte frame that is loaded from and flushed to the byte interface of the sector cache. The main
  result is that the frame is invisible: the bitmap is a store of bits, one per block.
\<close>

section \<open>Operations\<close>

definition BITMAP_FRAME_SIZE :: u32 where "BITMAP_FRAME_SIZE = 32"

text \<open>\<open>sizeof (struct FSDeviceHeader) + sizeof (struct FSPartitionBlock)\<close>\<close>

definition fs_bitmap_address :: u32 where "fs_bitmap_address = 16 + 32"

definition frame_span :: "u32 \<Rightarrow> fsdev \<Rightarrow> u32" where
  "frame_span off s =
     (if off + BITMAP_FRAME_SIZE > bitmap_size s then bitmap_size s - off else BITMAP_FRAME_SIZE)"

definition fs_bitmap_flush :: "fsdev \<Rightarrow> fsdev" where
  "fs_bitmap_flush s =
     (if frame_dirty s \<and> frame_offset s \<noteq> NO_FRAME
      then let write_size = frame_span (frame_offset s) s;
               s1 = fs_mem_write (fs_bitmap_address + frame_offset s) (take (unat write_size) (frame_bitmap s)) s
           in s1\<lparr>frame_dirty := False, overrun := overrun s1 \<or> write_size > BITMAP_FRAME_SIZE\<rparr>
      else s)"

definition fs_bitmap_sync :: "u32 \<Rightarrow> fsdev \<Rightarrow> fsdev" where
  "fs_bitmap_sync bit_index s =
     (let byte_index = drop_bit 3 bit_index;
          window_start = (byte_index div BITMAP_FRAME_SIZE) * BITMAP_FRAME_SIZE
      in if frame_offset s \<noteq> window_start
         then let s1 = (fs_bitmap_flush s)\<lparr>frame_offset := window_start\<rparr>;
                  read_size = frame_span window_start s1;
                  (bs, s2) = fs_mem_read (fs_bitmap_address + window_start) (unat read_size) s1
              in s2\<lparr>frame_bitmap := bs @ drop (length bs) (frame_bitmap s2), frame_dirty := False,
                    overrun := overrun s2 \<or> read_size > BITMAP_FRAME_SIZE\<rparr>
         else s)"

definition fs_bitmap_get :: "u32 \<Rightarrow> fsdev \<Rightarrow> bool \<times> fsdev" where
  "fs_bitmap_get index s =
     (let s1 = fs_bitmap_sync index s;
          local_byte = drop_bit 3 index - frame_offset s1
      in (frame_bitmap s1 ! unat local_byte AND push_bit (unat (index AND 7)) 1 \<noteq> 0, s1))"

definition fs_bitmap_set :: "u32 \<Rightarrow> fsdev \<Rightarrow> fsdev" where
  "fs_bitmap_set index s =
     (let s1 = fs_bitmap_sync index s;
          local_byte = unat (drop_bit 3 index - frame_offset s1);
          mask = push_bit (unat (index AND 7)) 1
      in if frame_bitmap s1 ! local_byte AND mask = 0
         then s1\<lparr>frame_bitmap := (frame_bitmap s1)[local_byte := frame_bitmap s1 ! local_byte OR mask],
                 frame_dirty := True\<rparr>
         else s1)"

definition fs_bitmap_clear :: "u32 \<Rightarrow> fsdev \<Rightarrow> fsdev" where
  "fs_bitmap_clear index s =
     (let s1 = fs_bitmap_sync index s;
          local_byte = unat (drop_bit 3 index - frame_offset s1);
          mask = push_bit (unat (index AND 7)) 1
      in if frame_bitmap s1 ! local_byte AND mask \<noteq> 0
         then s1\<lparr>frame_bitmap := (frame_bitmap s1)[local_byte := frame_bitmap s1 ! local_byte AND NOT mask],
                 frame_dirty := True\<rparr>
         else s1)"

section \<open>The logical bitmap\<close>

text \<open>Byte \<open>b\<close> of the bitmap: in the frame if the frame covers it, on the device otherwise.\<close>

definition window_of :: "nat \<Rightarrow> nat" where
  "window_of b = b div 32 * 32"

definition bm_byte :: "fsdev \<Rightarrow> nat \<Rightarrow> u8" where
  "bm_byte s b = (if frame_offset s = of_nat (window_of b) then frame_bitmap s ! (b - window_of b)
                  else dev_view s (fs_bitmap_address + of_nat b))"

definition fs_bit :: "nat \<Rightarrow> fsdev \<Rightarrow> bool" where
  "fs_bit i s = bit (bm_byte s (i div 8)) (i mod 8)"

definition bm_len :: "fsdev \<Rightarrow> nat" where
  "bm_len s = unat (bitmap_size s)"

definition frame_ok :: "fsdev \<Rightarrow> bool" where
  "frame_ok s \<longleftrightarrow>
     length (frame_bitmap s) = 32
     \<and> (frame_dirty s \<longrightarrow> frame_offset s \<noteq> NO_FRAME)
     \<and> (frame_offset s \<noteq> NO_FRAME \<longrightarrow> (\<exists>b < bm_len s. frame_offset s = of_nat (window_of b)))
     \<and> (\<not> frame_dirty s \<longrightarrow> (\<forall>b < bm_len s. bm_byte s b = dev_view s (fs_bitmap_address + of_nat b)))"

definition bm_ok :: "fsdev \<Rightarrow> bool" where
  "bm_ok s \<longleftrightarrow>
     cache_coherent s \<and> disk_type s \<and> no_faults s \<and> \<not> overrun s \<and> frame_ok s
     \<and> bm_len s \<le> 536870912 \<and> unat (block_count s) \<le> 8 * bm_len s"

text \<open>Everything but the bytes of the bitmap.\<close>

definition fs_rest :: "fsdev \<Rightarrow> bool \<times> u32 list \<times> u16 \<times> memory" where
  "fs_rest s = (is_open s, [sector_size s, pool_size s, block_count s, bitmap_size s, reserved_blocks s],
                device_type s,
                \<lambda>a. if in_range fs_bitmap_address (bm_len s) a then 0 else dev_view s a)"

lemma fs_restD:
  assumes "fs_rest s' = fs_rest s"
  shows "is_open s' = is_open s" "sector_size s' = sector_size s" "pool_size s' = pool_size s"
    "block_count s' = block_count s" "bitmap_size s' = bitmap_size s" "reserved_blocks s' = reserved_blocks s"
    "device_type s' = device_type s" "bm_len s' = bm_len s"
  using assms by (simp_all add: fs_rest_def bm_len_def)

lemma fs_rest_eqI:
  assumes "is_open s' = is_open s" "sector_size s' = sector_size s" "pool_size s' = pool_size s"
    "block_count s' = block_count s" "bitmap_size s' = bitmap_size s" "reserved_blocks s' = reserved_blocks s"
    "device_type s' = device_type s"
    and "\<And>a. \<not> in_range fs_bitmap_address (bm_len s) a \<Longrightarrow> dev_view s' a = dev_view s a"
  shows "fs_rest s' = fs_rest s"
proof -
  have "bm_len s' = bm_len s" using assms(5) by (simp add: bm_len_def)
  then have "(\<lambda>a. if in_range fs_bitmap_address (bm_len s') a then 0 else dev_view s' a) =
        (\<lambda>a. if in_range fs_bitmap_address (bm_len s) a then 0 else dev_view s a)"
    using assms(8) by (intro ext) simp
  then show ?thesis using assms(1-7) unfolding fs_rest_def by (simp only: prod.inject list.inject simp_thms)
qed

lemma fs_rest_view:
  "fs_rest s' = fs_rest s \<Longrightarrow> \<not> in_range fs_bitmap_address (bm_len s) a \<Longrightarrow> dev_view s' a = dev_view s a"
proof -
  assume a: "fs_rest s' = fs_rest s" "\<not> in_range fs_bitmap_address (bm_len s) a"
  have b: "bm_len s' = bm_len s" by (rule fs_restD(8) [OF a(1)])
  have "(\<lambda>a. if in_range fs_bitmap_address (bm_len s') a then 0 else dev_view s' a) =
        (\<lambda>a. if in_range fs_bitmap_address (bm_len s) a then 0 else dev_view s a)"
    using a(1) unfolding fs_rest_def by (simp only: prod.inject)
  from fun_cong [OF this, of a] b a(2) show ?thesis by simp
qed

lemma window_of_bounds: "window_of b \<le> b" "b < window_of b + 32"
  by (simp_all add: window_of_def)

lemma window_of_eq_iff: "window_of b = window_of c \<longleftrightarrow> window_of c \<le> b \<and> b < window_of c + 32"
proof
  assume "window_of b = window_of c"
  then show "window_of c \<le> b \<and> b < window_of c + 32" using window_of_bounds [of b] by simp
next
  assume "window_of c \<le> b \<and> b < window_of c + 32"
  then have "b div 32 = c div 32" unfolding window_of_def by (intro div_nat_eqI) auto
  then show "window_of b = window_of c" by (simp add: window_of_def)
qed

lemma bm_addr:
  "b \<le> 536870912 \<Longrightarrow> unat (fs_bitmap_address + of_nat b) = 48 + b"
  by (subst unat_add_u32) (simp_all add: fs_bitmap_address_def unat_of_nat_u32)


lemma bm_in_range:
  "n \<le> 536870912 \<Longrightarrow> b \<le> 536870912 \<Longrightarrow> c \<le> 536870912 \<Longrightarrow>
     in_range (fs_bitmap_address + of_nat c) n (fs_bitmap_address + of_nat b) \<longleftrightarrow> c \<le> b \<and> b < c + n"
  using bm_addr [of b] bm_addr [of c] by (subst in_range_iff) auto

lemma window_word_less: "b \<le> 536870912 \<Longrightarrow> (of_nat (window_of b) :: u32) \<noteq> NO_FRAME"
proof
  assume b: "b \<le> 536870912" and "(of_nat (window_of b) :: u32) = NO_FRAME"
  then have "unat (of_nat (window_of b) :: u32) = 4294967295" by (simp add: NO_FRAME_def)
  then show False using b window_of_bounds(1) [of b] by (simp add: unat_of_nat_u32)
qed

lemma window_word_eq:
  "b \<le> 536870912 \<Longrightarrow> c \<le> 536870912 \<Longrightarrow>
     (of_nat (window_of b) :: u32) = of_nat (window_of c) \<longleftrightarrow> window_of b = window_of c"
  using window_of_bounds(1) [of b] window_of_bounds(1) [of c] by (subst of_nat_eq_u32) auto

lemma frame_span_nat:
  assumes "bm_len s \<le> 536870912" "b < bm_len s"
  shows "unat (frame_span (of_nat (window_of b)) s) = min 32 (bm_len s - window_of b)"
    and "\<not> frame_span (of_nat (window_of b)) s > BITMAP_FRAME_SIZE"
proof -
  have w: "window_of b \<le> b" by (rule window_of_bounds)
  have u: "unat (of_nat (window_of b) :: u32) = window_of b"
    using assms w by (intro unat_of_nat_u32) simp
  have s: "unat (of_nat (window_of b) + BITMAP_FRAME_SIZE) = window_of b + 32"
    using assms w u by (subst unat_add_u32) (simp_all add: BITMAP_FRAME_SIZE_def)
  have d: "unat (bitmap_size s - of_nat (window_of b)) = bm_len s - window_of b"
    using assms w u by (subst unat_sub_u32) (simp_all add: bm_len_def)
  show *: "unat (frame_span (of_nat (window_of b)) s) = min 32 (bm_len s - window_of b)"
    using s d by (auto simp: frame_span_def word_less_nat_alt bm_len_def BITMAP_FRAME_SIZE_def)
  show "\<not> frame_span (of_nat (window_of b)) s > BITMAP_FRAME_SIZE"
    using * by (simp add: word_less_nat_alt BITMAP_FRAME_SIZE_def)
qed

section \<open>Flushing and moving the frame\<close>

lemma ctx_rest_bm: "ctx_rest s' = ctx_rest s \<Longrightarrow> bm_len s' = bm_len s"
  unfolding bm_len_def by (metis ctx_restD(6))

lemma bitmap_flush_props:
  assumes ok: "bm_ok s"
  shows "bm_ok (fs_bitmap_flush s)" "\<not> frame_dirty (fs_bitmap_flush s)" "fs_rest (fs_bitmap_flush s) = fs_rest s"
    "frame_offset (fs_bitmap_flush s) = frame_offset s"
    "b < bm_len s \<Longrightarrow> bm_byte (fs_bitmap_flush s) b = bm_byte s b"
    "b < bm_len s \<Longrightarrow> dev_view (fs_bitmap_flush s) (fs_bitmap_address + of_nat b) = bm_byte s b"
proof -
  have len: "bm_len s \<le> 536870912" using ok by (simp add: bm_ok_def)
  have "bm_ok (fs_bitmap_flush s) \<and> \<not> frame_dirty (fs_bitmap_flush s) \<and> fs_rest (fs_bitmap_flush s) = fs_rest s
    \<and> frame_offset (fs_bitmap_flush s) = frame_offset s
    \<and> (\<forall>b < bm_len s. bm_byte (fs_bitmap_flush s) b = bm_byte s b
         \<and> dev_view (fs_bitmap_flush s) (fs_bitmap_address + of_nat b) = bm_byte s b)"
  proof (cases "frame_dirty s")
    case False
    then show ?thesis using ok by (simp add: fs_bitmap_flush_def bm_ok_def frame_ok_def)
  next
    case True
    then obtain c where c: "c < bm_len s" "frame_offset s = of_nat (window_of c)" "frame_offset s \<noteq> NO_FRAME"
      using ok by (auto simp: bm_ok_def frame_ok_def)
    note fs = frame_span_nat [OF len c(1)]
    let ?n = "min 32 (bm_len s - window_of c)"
    have wc: "window_of c \<le> c" "c < window_of c + 32" by (rule window_of_bounds)+
    let ?bs = "take ?n (frame_bitmap s)"
    let ?s1 = "fs_mem_write (fs_bitmap_address + of_nat (window_of c)) ?bs s"
    have flush: "fs_bitmap_flush s = ?s1\<lparr>frame_dirty := False, overrun := overrun ?s1\<rparr>"
      using True c fs by (simp add: fs_bitmap_flush_def Let_def)
    have cs: "cache_coherent s" "disk_type s" "no_faults s" using ok by (simp_all add: bm_ok_def)
    note m = fs_mem_write_props [OF cs, of "fs_bitmap_address + of_nat (window_of c)" ?bs]
    have r: "ctx_rest ?s1 = ctx_rest s" and v: "dev_view ?s1 = mem_write (dev_view s) (fs_bitmap_address + of_nat (window_of c)) ?bs"
      and co: "cache_coherent ?s1" using m by simp_all
    note k = ctx_restD [OF r] and kb = ctx_rest_bm [OF r]
    have lenb: "length ?bs = ?n" using ok by (simp add: bm_ok_def frame_ok_def)
    have dv: "dev_view ?s1 (fs_bitmap_address + of_nat b) = bm_byte s b" if b: "b < bm_len s" for b
    proof -
      have "in_range (fs_bitmap_address + of_nat (window_of c)) ?n (fs_bitmap_address + of_nat b)
          \<longleftrightarrow> window_of b = window_of c"
        using b c(1) wc len by (subst bm_in_range) (auto simp: window_of_eq_iff)
      moreover have "unat ((fs_bitmap_address + of_nat b) - (fs_bitmap_address + of_nat (window_of c))) = b - window_of c"
        if "window_of b = window_of c"
      proof -
        have "window_of c \<le> b" using that window_of_eq_iff by blast
        then show ?thesis using bm_addr [of b] bm_addr [of "window_of c"] b c(1) wc len
          by (subst unat_sub_u32) simp_all
      qed
      moreover have "window_of b = window_of c \<Longrightarrow> b - window_of c < ?n"
        using b window_of_bounds [of b] by (auto simp: min_def)
      moreover have "length ?bs \<le> 4294967296" using lenb by simp
      moreover have "(frame_offset s = of_nat (window_of b)) = (window_of b = window_of c)"
        using window_word_eq [of b c] b c(1,2) len by auto
      ultimately show ?thesis
        by (cases "window_of b = window_of c") (simp_all only: v mem_write_apply lenb bm_byte_def if_True if_False nth_take simp_thms)
    qed
    have fb: "bm_byte (fs_bitmap_flush s) b = bm_byte s b" if "b < bm_len s" for b
      using dv [OF that] that k by (auto simp: flush bm_byte_def dev_view_def cong: if_cong)
    have rest: "fs_rest (fs_bitmap_flush s) = fs_rest s"
    proof -
      have "dev_view ?s1 a = dev_view s a" if "\<not> in_range fs_bitmap_address (bm_len s) a" for a
      proof -
        have "\<not> in_range (fs_bitmap_address + of_nat (window_of c)) ?n a"
          using that wc c(1) len bm_addr [of 0] bm_addr [of "window_of c"]
          by (subst (asm) in_range_iff, simp) (subst in_range_iff, simp, auto simp: min_def)
        moreover have "length ?bs \<le> 4294967296" using lenb by simp
        ultimately show ?thesis by (simp only: v mem_write_apply lenb if_False)
      qed
      moreover have "dev_view (fs_bitmap_flush s) = dev_view ?s1"
        by (simp add: flush dev_view_def cong: if_cong)
      ultimately show ?thesis using k by (intro fs_rest_eqI) (simp_all add: flush)
    qed
    have fv: "dev_view (fs_bitmap_flush s) = dev_view ?s1" by (simp add: flush dev_view_def cong: if_cong)
    have "bm_ok (fs_bitmap_flush s)"
      unfolding bm_ok_def frame_ok_def
    proof (intro conjI impI allI)
      show "cache_coherent (fs_bitmap_flush s)" using co by (simp add: flush cache_coherent_def)
      show "disk_type (fs_bitmap_flush s)" "no_faults (fs_bitmap_flush s)"
        using cs k by (simp_all add: flush disk_type_def no_faults_def)
      show "\<not> overrun (fs_bitmap_flush s)" "length (frame_bitmap (fs_bitmap_flush s)) = 32"
        "bm_len (fs_bitmap_flush s) \<le> 536870912"
        "unat (block_count (fs_bitmap_flush s)) \<le> 8 * bm_len (fs_bitmap_flush s)"
        using ok k kb by (simp_all add: flush bm_ok_def frame_ok_def bm_len_def)
      show "\<exists>b < bm_len (fs_bitmap_flush s). frame_offset (fs_bitmap_flush s) = of_nat (window_of b)"
        using c k kb by (intro exI [of _ c]) (simp add: flush bm_len_def)
      fix b
      assume "b < bm_len (fs_bitmap_flush s)"
      then have "b < bm_len s" using kb by (simp add: flush bm_len_def)
      then show "bm_byte (fs_bitmap_flush s) b = dev_view (fs_bitmap_flush s) (fs_bitmap_address + of_nat b)"
        using dv fb fv by simp
    qed (simp_all add: flush)
    moreover have "frame_offset (fs_bitmap_flush s) = frame_offset s" "\<not> frame_dirty (fs_bitmap_flush s)"
      using k by (simp_all add: flush)
    ultimately show ?thesis using dv fb fv rest by simp
  qed
  then show "bm_ok (fs_bitmap_flush s)" "\<not> frame_dirty (fs_bitmap_flush s)" "fs_rest (fs_bitmap_flush s) = fs_rest s"
    "frame_offset (fs_bitmap_flush s) = frame_offset s"
    "b < bm_len s \<Longrightarrow> bm_byte (fs_bitmap_flush s) b = bm_byte s b"
    "b < bm_len s \<Longrightarrow> dev_view (fs_bitmap_flush s) (fs_bitmap_address + of_nat b) = bm_byte s b"
    by simp_all
qed


lemma bitmap_sync_props:
  assumes ok: "bm_ok s" and b: "drop_bit 3 i = (of_nat b :: u32)" "b < bm_len s"
  shows "bm_ok (fs_bitmap_sync i s)" "fs_rest (fs_bitmap_sync i s) = fs_rest s"
    "frame_offset (fs_bitmap_sync i s) = of_nat (window_of b)"
    "c < bm_len s \<Longrightarrow> bm_byte (fs_bitmap_sync i s) c = bm_byte s c"
proof -
  have len: "bm_len s \<le> 536870912" using ok by (simp add: bm_ok_def)
  have win: "(drop_bit 3 i div BITMAP_FRAME_SIZE) * BITMAP_FRAME_SIZE = of_nat (window_of b)"
  proof -
    have "unat (of_nat b div BITMAP_FRAME_SIZE :: u32) = b div 32"
      using b(2) len by (simp add: unat_div_distrib unat_of_nat_u32 BITMAP_FRAME_SIZE_def)
    then have "(of_nat b div BITMAP_FRAME_SIZE :: u32) = of_nat (b div 32)"
      using b(2) len by (simp add: word_unat_eq_iff unat_of_nat_u32)
    then show ?thesis by (simp add: b(1) window_of_def BITMAP_FRAME_SIZE_def)
  qed
  have "bm_ok (fs_bitmap_sync i s) \<and> fs_rest (fs_bitmap_sync i s) = fs_rest s
    \<and> frame_offset (fs_bitmap_sync i s) = of_nat (window_of b)
    \<and> (\<forall>c < bm_len s. bm_byte (fs_bitmap_sync i s) c = bm_byte s c)"
  proof (cases "frame_offset s = of_nat (window_of b)")
    case True
    then show ?thesis using ok win by (simp add: fs_bitmap_sync_def)
  next
    case False
    let ?f = "fs_bitmap_flush s"
    note f = bitmap_flush_props [OF ok]
    note fr = fs_restD [OF f(3)]
    let ?s1 = "?f\<lparr>frame_offset := of_nat (window_of b)\<rparr>"
    have len1: "bm_len ?s1 \<le> 536870912" and b1: "b < bm_len ?s1" using fr b(2) len by (simp_all add: bm_len_def)
    note fs = frame_span_nat [OF len1 b1]
    let ?n = "min 32 (bm_len s - window_of b)"
    have n: "unat (frame_span (of_nat (window_of b)) ?s1) = ?n" using fs(1) fr by (simp add: bm_len_def)
    obtain bs s2 where r: "fs_mem_read (fs_bitmap_address + of_nat (window_of b)) ?n ?s1 = (bs, s2)"
      by (cases "fs_mem_read (fs_bitmap_address + of_nat (window_of b)) ?n ?s1") auto
    have cs: "cache_coherent ?s1" "disk_type ?s1" "no_faults ?s1"
      using f(1) by (simp_all add: bm_ok_def cache_coherent_def disk_type_def no_faults_def)
    note m = fs_mem_read_props [OF cs r]
    have v: "dev_view s2 = dev_view ?f" using m by (simp add: dev_view_def cong: if_cong)
    have bs: "bs = mem_read (dev_view ?f) (fs_bitmap_address + of_nat (window_of b)) ?n"
      using m by (simp add: dev_view_def cong: if_cong)
    have rr: "ctx_rest s2 = ctx_rest ?s1" using m by simp
    note k = ctx_restD [OF rr]
    let ?s' = "s2\<lparr>frame_bitmap := bs @ drop ?n (frame_bitmap s2), frame_dirty := False, overrun := overrun s2\<rparr>"
    have sync: "fs_bitmap_sync i s = ?s'"
      using False r n fs(2) bs by (simp add: fs_bitmap_sync_def win Let_def)
    have fb: "length (frame_bitmap ?f) = 32" using f(1) by (simp add: bm_ok_def frame_ok_def)
    have v': "dev_view ?s' = dev_view ?f" using v by (simp add: dev_view_def cong: if_cong)
    have byte: "bm_byte ?s' c = dev_view ?f (fs_bitmap_address + of_nat c)" if c: "c < bm_len s" for c
    proof (cases "window_of c = window_of b")
      case True
      then have d: "window_of b \<le> c" "c < window_of b + 32" using window_of_bounds [of c] by simp_all
      then have "c - window_of b < ?n" using c by linarith
      then have "(bs @ drop ?n (frame_bitmap s2)) ! (c - window_of b) = dev_view ?f (fs_bitmap_address + of_nat (window_of b) + of_nat (c - window_of b))"
        by (simp add: nth_append bs mem_read_def)
      also have "fs_bitmap_address + of_nat (window_of b) + of_nat (c - window_of b) = (fs_bitmap_address + of_nat c :: u32)"
        using d by (simp add: of_nat_diff)
      finally show ?thesis using True k by (simp add: bm_byte_def)
    next
      case False
      then have "(of_nat (window_of b) :: u32) \<noteq> of_nat (window_of c)"
        using window_word_eq [of b c] b(2) c len by simp
      then show ?thesis using k v' by (simp add: bm_byte_def)
    qed
    have "bm_ok ?s'"
      unfolding bm_ok_def frame_ok_def
    proof (intro conjI impI allI)
      show "cache_coherent ?s'" using m by (simp add: cache_coherent_def)
      show "disk_type ?s'" "no_faults ?s'" using cs k by (simp_all add: disk_type_def no_faults_def)
      show "\<not> overrun ?s'" using f(1) k by (simp add: bm_ok_def)
      show "length (frame_bitmap ?s') = 32" using k fb bs by simp
      show "\<exists>c < bm_len ?s'. frame_offset ?s' = of_nat (window_of c)"
        using k b1 by (intro exI [of _ b]) (simp add: bm_len_def)
      show "bm_len ?s' \<le> 536870912" using len1 k by (simp add: bm_len_def)
      show "unat (block_count ?s') \<le> 8 * bm_len ?s'" using f(1) k by (simp add: bm_ok_def bm_len_def)
      fix c
      assume "c < bm_len ?s'"
      then have "c < bm_len s" using k fr by (simp add: bm_len_def)
      then show "bm_byte ?s' c = dev_view ?s' (fs_bitmap_address + of_nat c)" using byte v' by simp
    qed simp_all
    moreover have "fs_rest ?s' = fs_rest s"
      using k fr v' fs_rest_view [OF f(3)] by (intro fs_rest_eqI) simp_all
    ultimately show ?thesis using k byte f(6) by (simp add: sync)
  qed
  then show "bm_ok (fs_bitmap_sync i s)" "fs_rest (fs_bitmap_sync i s) = fs_rest s"
    "frame_offset (fs_bitmap_sync i s) = of_nat (window_of b)"
    "c < bm_len s \<Longrightarrow> bm_byte (fs_bitmap_sync i s) c = bm_byte s c" by simp_all
qed


section \<open>The bitmap is a store of bits\<close>

lemma bit_index_words:
  assumes "i < 4294967296"
  shows "drop_bit 3 (of_nat i :: u32) = of_nat (i div 8)" "unat ((of_nat i :: u32) AND 7) = i mod 8"
proof -
  have "unat (drop_bit 3 (of_nat i :: u32)) = i div 8"
    using assms by (simp add: drop_bit_eq_div unat_div_distrib unat_of_nat_u32)
  then show "drop_bit 3 (of_nat i :: u32) = of_nat (i div 8)"
    using assms by (simp add: word_unat_eq_iff unat_of_nat_u32)
  have "(of_nat i :: u32) AND 7 = take_bit 3 (of_nat i)" by (simp add: take_bit_eq_mask mask_eq_exp_minus_1)
  then show "unat ((of_nat i :: u32) AND 7) = i mod 8"
    using assms by (simp add: take_bit_eq_mod unat_mod_distrib unat_of_nat_u32)
qed

lemma bm_index:
  assumes "bm_ok s" "i < unat (block_count s)"
  shows "i < 4294967296" "i div 8 < bm_len s"
  using assms unat_u32_less [of "block_count s"] by (auto simp: bm_ok_def)

lemma local_byte_nat:
  "b < 536870912 \<Longrightarrow> unat (of_nat b - of_nat (window_of b) :: u32) = b - window_of b"
  using window_of_bounds(1) [of b] by (subst unat_sub_u32) (simp_all add: unat_of_nat_u32)

lemma frame_update_props:
  fixes v :: u8
  assumes ok: "bm_ok s" and fo: "frame_offset s = of_nat (window_of b)" and b: "b < bm_len s"
  defines "s' \<equiv> s\<lparr>frame_bitmap := (frame_bitmap s)[b - window_of b := v], frame_dirty := True\<rparr>"
  shows "bm_ok s'" "fs_rest s' = fs_rest s" "c < bm_len s \<Longrightarrow> bm_byte s' c = (if c = b then v else bm_byte s c)"
proof -
  have len: "bm_len s \<le> 536870912" using ok by (simp add: bm_ok_def)
  have fb: "length (frame_bitmap s) = 32" using ok by (simp add: bm_ok_def frame_ok_def)
  have view: "dev_view s' = dev_view s" by (simp add: s'_def dev_view_def cong: if_cong)
  show "fs_rest s' = fs_rest s" using view by (intro fs_rest_eqI) (simp_all add: s'_def)
  show "bm_ok s'"
    unfolding bm_ok_def frame_ok_def
  proof (intro conjI impI allI)
    show "\<exists>c < bm_len s'. frame_offset s' = of_nat (window_of c)"
      using b fo by (intro exI [of _ b]) (simp add: s'_def bm_len_def)
    show "frame_offset s' \<noteq> NO_FRAME" using window_word_less [of b] b len fo by (simp add: s'_def)
  qed (use ok in \<open>simp_all add: s'_def bm_ok_def frame_ok_def bm_len_def cache_coherent_def disk_type_def no_faults_def\<close>)
  assume c: "c < bm_len s"
  show "bm_byte s' c = (if c = b then v else bm_byte s c)"
  proof (cases "window_of c = window_of b")
    case True
    then have "c \<noteq> b \<Longrightarrow> b - window_of b \<noteq> c - window_of b"
      using window_of_bounds [of c] window_of_bounds [of b] by auto
    moreover have "b - window_of b < length (frame_bitmap s)" using window_of_bounds [of b] fb by auto
    ultimately show ?thesis using True fo by (cases "c = b") (simp_all add: s'_def bm_byte_def)
  next
    case False
    then have "(of_nat (window_of b) :: u32) \<noteq> of_nat (window_of c)"
      using window_word_eq [of b c] b c len by simp
    then show ?thesis using False view fo by (auto simp: bm_byte_def s'_def [symmetric]) (auto simp: s'_def)
  qed
qed

lemma fs_bit_index:
  "j < 8 * bm_len s \<Longrightarrow> j div 8 < bm_len s"
  by auto

lemma div_mod_8_eq: "j div 8 = i div 8 \<Longrightarrow> (j mod 8 = i mod 8) = (j = (i :: nat))"
  by (metis div_mult_mod_eq)

text \<open>The frame byte the code looks at is the byte of the logical bitmap.\<close>

lemma frame_byte:
  assumes ok: "bm_ok s" and i: "i < unat (block_count s)"
  defines "s1 \<equiv> fs_bitmap_sync (of_nat i) s"
  shows "bm_ok s1" "fs_rest s1 = fs_rest s" "frame_offset s1 = of_nat (window_of (i div 8))"
    "unat (drop_bit 3 (of_nat i) - frame_offset s1) = i div 8 - window_of (i div 8)"
    "frame_bitmap s1 ! (i div 8 - window_of (i div 8)) = bm_byte s (i div 8)"
    "c < bm_len s \<Longrightarrow> bm_byte s1 c = bm_byte s c"
proof -
  note b = bm_index [OF ok i]
  note d = bit_index_words(1) [OF b(1)]
  note p = bitmap_sync_props [OF ok d b(2), folded s1_def]
  show "bm_ok s1" "fs_rest s1 = fs_rest s" "frame_offset s1 = of_nat (window_of (i div 8))"
    "c < bm_len s \<Longrightarrow> bm_byte s1 c = bm_byte s c" using p by simp_all
  show "unat (drop_bit 3 (of_nat i) - frame_offset s1) = i div 8 - window_of (i div 8)"
    using b(2) ok p(3) by (simp add: d local_byte_nat bm_ok_def)
  have "bm_byte s1 (i div 8) = frame_bitmap s1 ! (i div 8 - window_of (i div 8))"
    by (simp add: bm_byte_def p(3))
  then show "frame_bitmap s1 ! (i div 8 - window_of (i div 8)) = bm_byte s (i div 8)"
    using p(4) b(2) by simp
qed

lemma bitmap_get_props:
  assumes ok: "bm_ok s" and i: "i < unat (block_count s)" and get: "fs_bitmap_get (of_nat i) s = (r, s1)"
  shows "r = fs_bit i s" "bm_ok s1" "fs_rest s1 = fs_rest s"
    "j < unat (block_count s) \<Longrightarrow> fs_bit j s1 = fs_bit j s"
proof -
  note p = frame_byte [OF ok i] and b = bm_index [OF ok i]
  have s1: "s1 = fs_bitmap_sync (of_nat i) s" using get by (simp add: fs_bitmap_get_def Let_def)
  show "r = fs_bit i s"
    using get p(4,5) bit_index_words(2) [OF b(1)]
    by (simp add: fs_bitmap_get_def Let_def fs_bit_def bit_mask_simps)
  show "bm_ok s1" "fs_rest s1 = fs_rest s" using p s1 by simp_all
  show "j < unat (block_count s) \<Longrightarrow> fs_bit j s1 = fs_bit j s"
    using p(6) [of "j div 8"] bm_index(2) [OF ok, of j] by (simp add: s1 fs_bit_def)
qed

lemma bitmap_set_props:
  assumes ok: "bm_ok s" and i: "i < unat (block_count s)"
  shows "bm_ok (fs_bitmap_set (of_nat i) s)" "fs_rest (fs_bitmap_set (of_nat i) s) = fs_rest s"
    "j < unat (block_count s) \<Longrightarrow> fs_bit j (fs_bitmap_set (of_nat i) s) = (j = i \<or> fs_bit j s)"
proof -
  note p = frame_byte [OF ok i] and b = bm_index [OF ok i]
  let ?s1 = "fs_bitmap_sync (of_nat i) s" and ?b = "i div 8"
  let ?v = "bm_byte s ?b OR 2 ^ (i mod 8)"
  have bl: "bm_len ?s1 = bm_len s" by (rule fs_restD(8) [OF p(2)])
  then have b1: "?b < bm_len ?s1" using b by simp
  note u = frame_update_props [OF p(1) p(3) b1, where v = ?v]
  have eq: "fs_bitmap_set (of_nat i) s =
      (if bm_byte s ?b AND 2 ^ (i mod 8) = 0
       then ?s1\<lparr>frame_bitmap := (frame_bitmap ?s1)[?b - window_of ?b := ?v], frame_dirty := True\<rparr> else ?s1)"
    using bit_index_words(2) [OF b(1)] p(4,5) by (simp add: fs_bitmap_set_def Let_def)
  show "bm_ok (fs_bitmap_set (of_nat i) s)" "fs_rest (fs_bitmap_set (of_nat i) s) = fs_rest s"
    using u p by (simp_all add: eq)
  assume j: "j < unat (block_count s)"
  show "fs_bit j (fs_bitmap_set (of_nat i) s) = (j = i \<or> fs_bit j s)"
    using u(3) [of "j div 8"] p(6) [of "j div 8"] bm_index(2) [OF ok j] bl div_mod_8_eq [of j i]
    by (auto simp: eq fs_bit_def bit_mask_simps)
qed

lemma bitmap_clear_props:
  assumes ok: "bm_ok s" and i: "i < unat (block_count s)"
  shows "bm_ok (fs_bitmap_clear (of_nat i) s)" "fs_rest (fs_bitmap_clear (of_nat i) s) = fs_rest s"
    "j < unat (block_count s) \<Longrightarrow> fs_bit j (fs_bitmap_clear (of_nat i) s) = (j \<noteq> i \<and> fs_bit j s)"
proof -
  note p = frame_byte [OF ok i] and b = bm_index [OF ok i]
  let ?s1 = "fs_bitmap_sync (of_nat i) s" and ?b = "i div 8"
  let ?v = "bm_byte s ?b AND NOT (2 ^ (i mod 8))"
  have bl: "bm_len ?s1 = bm_len s" by (rule fs_restD(8) [OF p(2)])
  then have b1: "?b < bm_len ?s1" using b by simp
  note u = frame_update_props [OF p(1) p(3) b1, where v = ?v]
  have eq: "fs_bitmap_clear (of_nat i) s =
      (if bm_byte s ?b AND 2 ^ (i mod 8) \<noteq> 0
       then ?s1\<lparr>frame_bitmap := (frame_bitmap ?s1)[?b - window_of ?b := ?v], frame_dirty := True\<rparr> else ?s1)"
    using bit_index_words(2) [OF b(1)] p(4,5) by (simp add: fs_bitmap_clear_def Let_def)
  show "bm_ok (fs_bitmap_clear (of_nat i) s)" "fs_rest (fs_bitmap_clear (of_nat i) s) = fs_rest s"
    using u p by (simp_all add: eq)
  assume j: "j < unat (block_count s)"
  show "fs_bit j (fs_bitmap_clear (of_nat i) s) = (j \<noteq> i \<and> fs_bit j s)"
    using u(3) [of "j div 8"] p(6) [of "j div 8"] bm_index(2) [OF ok j] bl div_mod_8_eq [of j i]
    by (auto simp: eq fs_bit_def bit_mask_simps)
qed

definition fs_cap :: "fsdev \<Rightarrow> nat" where
  "fs_cap s = unat (block_count s)"

interpretation fs_bits: bit_store bm_ok fs_cap fs_bit "\<lambda>i. fs_bitmap_set (of_nat i)"
  "\<lambda>i. fs_bitmap_clear (of_nat i)" fs_rest
  by unfold_locales
    (auto simp: fs_cap_def bitmap_set_props bitmap_clear_props fs_restD(4) [OF bitmap_set_props(2)]
      fs_restD(4) [OF bitmap_clear_props(2)])

end
