(* ===== verification/BlockAlloc.thy ===== *)
theory BlockAlloc
  imports FirstFit
begin

text \<open>
  What a block allocator with in-band headers keeps, stated once for every allocator of the kernel that
  has a store of bits: the ghost map \<open>live\<close> sends the first block of each allocation to what its header
  records. The interface adds to \<open>bit_store\<close> the header of a block and how many blocks it claims.
\<close>

definition covered :: "('z \<Rightarrow> 's \<Rightarrow> nat) \<Rightarrow> (nat \<rightharpoonup> 'z) \<Rightarrow> 's \<Rightarrow> nat \<Rightarrow> bool" where
  "covered blocks live s i \<longleftrightarrow> (\<exists>k z. live k = Some z \<and> k \<le> i \<and> i < k + blocks z s)"

definition alloc_inv :: "('s \<Rightarrow> nat) \<Rightarrow> ('s \<Rightarrow> nat) \<Rightarrow> (nat \<Rightarrow> 's \<Rightarrow> bool) \<Rightarrow> ('z \<Rightarrow> 's \<Rightarrow> nat) \<Rightarrow> (nat \<Rightarrow> 's \<Rightarrow> 'z)
    \<Rightarrow> 's \<Rightarrow> (nat \<rightharpoonup> 'z) \<Rightarrow> bool" where
  "alloc_inv cap lo used blocks header s live \<longleftrightarrow>
     (\<forall>k z. live k = Some z \<longrightarrow> lo s \<le> k \<and> k + blocks z s \<le> cap s \<and> header k s = z)
     \<and> (\<forall>k z k' z'. live k = Some z \<longrightarrow> live k' = Some z' \<longrightarrow> k < k' \<longrightarrow> k + blocks z s \<le> k')
     \<and> (\<forall>i. lo s \<le> i \<longrightarrow> i < cap s \<longrightarrow> used i s = covered blocks live s i)"

lemma alloc_inv_live:
  assumes "alloc_inv cap lo used blocks header s live" "live k = Some z"
  shows "lo s \<le> k" "k + blocks z s \<le> cap s" "header k s = z"
  using assms by (simp_all add: alloc_inv_def)

lemma alloc_inv_disjoint:
  assumes "alloc_inv cap lo used blocks header s live" "live k = Some z" "live k' = Some z'" "k \<noteq> k'"
  shows "k + blocks z s \<le> k' \<or> k' + blocks z' s \<le> k"
  using assms unfolding alloc_inv_def by (metis nat_neq_iff)

lemma alloc_inv_used:
  "alloc_inv cap lo used blocks header s live \<Longrightarrow> lo s \<le> i \<Longrightarrow> i < cap s \<Longrightarrow>
     used i s = covered blocks live s i"
  by (simp add: alloc_inv_def)

lemma covered_upd:
  assumes "live k = None"
  shows "covered blocks (live(k \<mapsto> z)) s i \<longleftrightarrow> (k \<le> i \<and> i < k + blocks z s) \<or> covered blocks live s i"
proof
  assume "covered blocks (live(k \<mapsto> z)) s i"
  then show "(k \<le> i \<and> i < k + blocks z s) \<or> covered blocks live s i"
    by (auto simp: covered_def split: if_splits)
next
  assume "(k \<le> i \<and> i < k + blocks z s) \<or> covered blocks live s i"
  then show "covered blocks (live(k \<mapsto> z)) s i"
  proof
    assume "k \<le> i \<and> i < k + blocks z s"
    then show ?thesis unfolding covered_def by (intro exI [of _ k] exI [of _ z]) simp
  next
    assume "covered blocks live s i"
    then obtain k' z' where "live k' = Some z'" "k' \<le> i" "i < k' + blocks z' s" by (auto simp: covered_def)
    then show ?thesis
      unfolding covered_def using assms by (intro exI [of _ k'] exI [of _ z']) auto
  qed
qed

lemma covered_remove:
  assumes inv: "alloc_inv cap lo used blocks header s live" and k: "live k = Some z"
  shows "covered blocks (live(k := None)) s i \<longleftrightarrow> \<not> (k \<le> i \<and> i < k + blocks z s) \<and> covered blocks live s i"
proof
  assume "covered blocks (live(k := None)) s i"
  then obtain k' z' where a: "live k' = Some z'" "k' \<noteq> k" "k' \<le> i" "i < k' + blocks z' s"
    by (auto simp: covered_def split: if_splits)
  then show "\<not> (k \<le> i \<and> i < k + blocks z s) \<and> covered blocks live s i"
    using alloc_inv_disjoint [OF inv a(1) k a(2)] by (auto simp: covered_def)
next
  assume "\<not> (k \<le> i \<and> i < k + blocks z s) \<and> covered blocks live s i"
  then obtain k' z' where "live k' = Some z'" "k' \<le> i" "i < k' + blocks z' s" "\<not> (k \<le> i \<and> i < k + blocks z s)"
    by (auto simp: covered_def)
  then show "covered blocks (live(k := None)) s i"
    unfolding covered_def using k by (intro exI [of _ k'] exI [of _ z']) auto
qed

section \<open>The interface\<close>

locale block_alloc = bit_store inv cap used set_bit clear_bit rest
  for inv :: "'s \<Rightarrow> bool" and cap :: "'s \<Rightarrow> nat" and used :: "nat \<Rightarrow> 's \<Rightarrow> bool"
    and set_bit :: "nat \<Rightarrow> 's \<Rightarrow> 's" and clear_bit :: "nat \<Rightarrow> 's \<Rightarrow> 's" and rest :: "'s \<Rightarrow> 'r" +
  fixes lo :: "'s \<Rightarrow> nat" and blocks :: "'z \<Rightarrow> 's \<Rightarrow> nat" and header :: "nat \<Rightarrow> 's \<Rightarrow> 'z"
    and put_header :: "nat \<Rightarrow> 'z \<Rightarrow> 's \<Rightarrow> 's"
  assumes blocks_pos: "inv s \<Longrightarrow> 0 < blocks z s"
    and put_inv: "inv s \<Longrightarrow> lo s \<le> k \<Longrightarrow> k < cap s \<Longrightarrow> inv (put_header k z s)"
    and put_config: "inv s \<Longrightarrow> lo s \<le> k \<Longrightarrow> k < cap s \<Longrightarrow>
          cap (put_header k z s) = cap s \<and> lo (put_header k z s) = lo s \<and> blocks y (put_header k z s) = blocks y s"
    and put_used: "inv s \<Longrightarrow> lo s \<le> k \<Longrightarrow> k < cap s \<Longrightarrow> j < cap s \<Longrightarrow> used j (put_header k z s) = used j s"
    and header_put: "inv s \<Longrightarrow> lo s \<le> k \<Longrightarrow> k < cap s \<Longrightarrow> lo s \<le> j \<Longrightarrow> j < cap s \<Longrightarrow>
          header j (put_header k z s) = (if j = k then z else header j s)"
    and rest_config: "inv s \<Longrightarrow> inv s' \<Longrightarrow> rest s' = rest s \<Longrightarrow>
          cap s' = cap s \<and> lo s' = lo s \<and> blocks y s' = blocks y s"
    and rest_header: "inv s \<Longrightarrow> inv s' \<Longrightarrow> rest s' = rest s \<Longrightarrow> lo s \<le> j \<Longrightarrow> j < cap s \<Longrightarrow> header j s' = header j s"
begin

lemma live_in_range:
  assumes "inv s" "alloc_inv cap lo used blocks header s live" "live k = Some z"
  shows "lo s \<le> k" "k < cap s"
  using alloc_inv_live [OF assms(2,3)] blocks_pos [OF assms(1), of z] by auto

text \<open>A state with the same headers and the same bits satisfies the same invariant.\<close>

lemma alloc_inv_same:
  assumes "inv s" "inv s'" "rest s' = rest s" "\<And>j. j < cap s \<Longrightarrow> used j s' = used j s"
    and "alloc_inv cap lo used blocks header s live"
  shows "alloc_inv cap lo used blocks header s' live"
proof -
  note c = rest_config [OF assms(1-3)]
  have "header k s' = z" if "live k = Some z" for k z
    using rest_header [OF assms(1-3) live_in_range [OF assms(1,5) that]] alloc_inv_live(3) [OF assms(5) that] by simp
  then show ?thesis using assms(4,5) c unfolding alloc_inv_def covered_def by simp
qed

text \<open>A free window meets no live allocation.\<close>

lemma window_disjoint:
  assumes "inv s" "alloc_inv cap lo used blocks header s live" "live j = Some z" "0 < need"
    and "lo s \<le> k" "k + need \<le> cap s" "free_run (\<lambda>i. used i s) k need"
  shows "j + blocks z s \<le> k \<or> k + need \<le> j"
proof (rule ccontr)
  assume "\<not> ?thesis"
  then have m: "max k j < k + need" "max k j < j + blocks z s"
    using assms(4) blocks_pos [OF assms(1), of z] by auto
  then have "covered blocks live s (max k j)"
    unfolding covered_def using assms(3) by (intro exI [of _ j] exI [of _ z]) simp
  then have "used (max k j) s"
    using alloc_inv_used [OF assms(2), of "max k j"] assms(5,6) m by simp
  then show False using assms(7) m by (simp add: free_run_def)
qed

text \<open>Marking a free window and writing its header adds one allocation.\<close>

lemma allocate:
  assumes s: "inv s" "alloc_inv cap lo used blocks header s live"
    and win: "lo s \<le> k" "k + blocks z s \<le> cap s" "free_run (\<lambda>i. used i s) k (blocks z s)"
    and t: "inv t" "rest t = rest s" "\<And>j. j < cap s \<Longrightarrow> used j t = (k \<le> j \<and> j < k + blocks z s \<or> used j s)"
  shows "inv (put_header k z t)" "live k = None"
    "alloc_inv cap lo used blocks header (put_header k z t) (live(k \<mapsto> z))"
proof -
  note pos = blocks_pos [OF s(1), of z]
  note c = rest_config [OF s(1) t(1,2)]
  have k: "lo t \<le> k" "k < cap t" using win pos c by auto
  note p = put_config [OF t(1) k, of z]
  show "inv (put_header k z t)" by (rule put_inv [OF t(1) k])
  show none: "live k = None"
  proof (rule ccontr)
    assume "live k \<noteq> None"
    then obtain y where "live k = Some y" by auto
    from window_disjoint [OF s this pos win] pos blocks_pos [OF s(1), of y] show False by simp
  qed
  have hdr: "header j (put_header k z t) = header j s" if "live j = Some y" for j y
  proof -
    have j: "lo s \<le> j" "j < cap s" by (rule live_in_range [OF s that])+
    then have "header j (put_header k z t) = header j t"
      using header_put [OF t(1) k, of j z] none that c by auto
    then show ?thesis using rest_header [OF s(1) t(1,2) j] by simp
  qed
  show "alloc_inv cap lo used blocks header (put_header k z t) (live(k \<mapsto> z))"
    unfolding alloc_inv_def
  proof (intro conjI allI impI)
    fix j y
    assume lv: "(live(k \<mapsto> z)) j = Some y"
    show "lo (put_header k z t) \<le> j" "j + blocks y (put_header k z t) \<le> cap (put_header k z t)"
      "header j (put_header k z t) = y"
      using lv win c p k hdr [of j y] alloc_inv_live [OF s(2), of j y] header_put [OF t(1) k k]
      by (auto split: if_splits)
  next
    fix j y j' y'
    assume a: "(live(k \<mapsto> z)) j = Some y" "(live(k \<mapsto> z)) j' = Some y'" "j < j'"
    have "j + blocks y s \<le> j'"
    proof (cases "j = k \<or> j' = k")
      case True
      then show ?thesis
        using a window_disjoint [OF s _ pos win, of j y] window_disjoint [OF s _ pos win, of j' y']
          blocks_pos [OF s(1), of y'] by (auto split: if_splits)
    next
      case False
      then show ?thesis using a alloc_inv_disjoint [OF s(2), of j y j' y'] by auto
    qed
    then show "j + blocks y (put_header k z t) \<le> j'" using c p by simp
  next
    fix i
    assume i: "lo (put_header k z t) \<le> i" "i < cap (put_header k z t)"
    then have "used i (put_header k z t) = (k \<le> i \<and> i < k + blocks z s \<or> used i s)"
      using put_used [OF t(1) k, of i z] t(3) [of i] c p by simp
    moreover have "used i s = covered blocks live s i" using alloc_inv_used [OF s(2), of i] i c p by simp
    moreover have "covered blocks (live(k \<mapsto> z)) (put_header k z t) i = covered blocks (live(k \<mapsto> z)) s i"
      using c p by (simp add: covered_def)
    ultimately show "used i (put_header k z t) = covered blocks (live(k \<mapsto> z)) (put_header k z t) i"
      using covered_upd [of live k blocks z s i] none by simp
  qed
qed

text \<open>Clearing the blocks of an allocation removes it, and its header may then hold anything.\<close>

lemma release:
  assumes s: "inv s" "alloc_inv cap lo used blocks header s live" and k: "live k = Some z"
    and t: "inv t" "rest t = rest s" "\<And>j. j < cap s \<Longrightarrow> used j t = (\<not> (k \<le> j \<and> j < k + blocks z s) \<and> used j s)"
  shows "alloc_inv cap lo used blocks header t (live(k := None))"
proof -
  note c = rest_config [OF s(1) t(1,2)]
  show ?thesis
    unfolding alloc_inv_def
  proof (intro conjI allI impI)
    fix j y
    assume "(live(k := None)) j = Some y"
    then have lv: "live j = Some y" by (auto split: if_splits)
    show "lo t \<le> j" "j + blocks y t \<le> cap t" "header j t = y"
      using alloc_inv_live [OF s(2) lv] rest_header [OF s(1) t(1,2) live_in_range [OF s lv]] c by simp_all
  next
    fix j y j' y'
    assume a: "(live(k := None)) j = Some y" "(live(k := None)) j' = Some y'" "j < j'"
    then show "j + blocks y t \<le> j'"
      using alloc_inv_disjoint [OF s(2), of j y j' y'] c by (auto split: if_splits)
  next
    fix i
    assume i: "lo t \<le> i" "i < cap t"
    have "covered blocks (live(k := None)) t i = covered blocks (live(k := None)) s i"
      using c by (simp add: covered_def)
    then show "used i t = covered blocks (live(k := None)) t i"
      using covered_remove [OF s(2) k, of i] alloc_inv_used [OF s(2), of i] t(3) [of i] c i by simp
  qed
qed

lemma put_dead:
  assumes s: "inv s" "alloc_inv cap lo used blocks header s live" and k: "live k = None" "lo s \<le> k" "k < cap s"
  shows "alloc_inv cap lo used blocks header (put_header k z s) live"
proof -
  note p = put_config [OF s(1) k(2,3), of z]
  have "header j (put_header k z s) = y" if "live j = Some y" for j y
    using header_put [OF s(1) k(2,3) live_in_range [OF s that], of z] alloc_inv_live(3) [OF s(2) that] k(1) that by auto
  then show ?thesis
    using s(2) p put_used [OF s(1) k(2,3)] unfolding alloc_inv_def covered_def by simp
qed

end

end
