(* ===== verification/FsDevice.thy ===== *)
theory FsDevice
  imports FsBitmap BlockAlloc
begin

text \<open>
  The block allocator of a file system device and its formatting, \<open>kernel/fs/basefs/device.c\<close>. An
  allocation is a run of sectors; its first four bytes (\<open>struct FSAllocHeader\<close>) hold its size.
\<close>

section \<open>On-disk structures\<close>

definition FS_NULL :: u32 where "FS_NULL = 0xFFFFFFFF"
definition FS_MAGIC :: u8 where "FS_MAGIC = 0xAA"
definition FS_ATTRIBUTE_DIRECTORY :: u8 where "FS_ATTRIBUTE_DIRECTORY = 2"

text \<open>\<open>sizeof (struct FSAllocHeader)\<close> and \<open>sizeof (struct FSDeviceHeader)\<close>\<close>

definition ALLOC_HEADER :: u32 where "ALLOC_HEADER = 4"
definition DEVICE_HEADER :: u32 where "DEVICE_HEADER = 16"

record fs_device_header =
  dh_id :: u8
  dh_name :: "u8 list"
  dh_pad :: "u8 list"

definition device_header_bytes :: "fs_device_header \<Rightarrow> u8 list" where
  "device_header_bytes d = [dh_id d] @ dh_name d @ dh_pad d"

record fs_partition =
  p_total_size :: u32
  p_sector_size :: u32
  p_root :: u32
  p_name :: "u8 list"
  p_flags :: u8
  p_type :: u8
  p_reserved :: u8
  p_magic :: u8

definition partition_bytes :: "fs_partition \<Rightarrow> u8 list" where
  "partition_bytes p = word_le 4 (p_total_size p) @ word_le 4 (p_sector_size p) @ word_le 4 (p_root p)
     @ p_name p @ [p_flags p, p_type p, p_reserved p, p_magic p]"

definition bytes_partition :: "u8 list \<Rightarrow> fs_partition" where
  "bytes_partition bs = \<lparr> p_total_size = le_word (take 4 bs), p_sector_size = le_word (take 4 (drop 4 bs)),
     p_root = le_word (take 4 (drop 8 bs)), p_name = take 16 (drop 12 bs), p_flags = bs ! 28,
     p_type = bs ! 29, p_reserved = bs ! 30, p_magic = bs ! 31 \<rparr>"

lemma bytes_partition_bytes [byte_simps]:
  "length (p_name p) = 16 \<Longrightarrow> bytes_partition (partition_bytes p) = p"
  by (simp add: bytes_partition_def partition_bytes_def nth_append)

section \<open>Allocation\<close>

fun fs_scan :: "nat \<Rightarrow> nat list \<Rightarrow> nat \<Rightarrow> nat \<Rightarrow> fsdev \<Rightarrow> nat option \<times> fsdev" where
  "fs_scan need [] run_length run_start s = (None, s)"
| "fs_scan need (i # rest) run_length run_start s =
     (let (used, s1) = fs_bitmap_get (of_nat i) s
      in if \<not> used
         then let run_start' = (if run_length = 0 then i else run_start)
              in if Suc run_length \<ge> need then (Some run_start', s1)
                 else fs_scan need rest (Suc run_length) run_start' s1
         else fs_scan need rest 0 run_start s1)"

definition fs_alloc :: "u32 \<Rightarrow> fsdev \<Rightarrow> u32 \<times> fsdev" where
  "fs_alloc sz s =
     (let blocks_needed = (ALLOC_HEADER + sz + sector_size s - 1) div sector_size s
      in case fs_scan (unat blocks_needed) [unat (reserved_blocks s)..<unat (block_count s)] 0 0 s of
           (None, s1) \<Rightarrow> (FS_NULL, s1)
         | (Some run_start, s1) \<Rightarrow>
             let s2 = apply_range (\<lambda>j. fs_bitmap_set (of_nat j)) run_start (unat blocks_needed) s1;
                 s3 = fs_bitmap_flush s2;
                 addr = of_nat run_start * sector_size s3
             in (addr + ALLOC_HEADER, fs_mem_write addr (word_le 4 sz) s3))"

definition fs_free :: "u32 \<Rightarrow> fsdev \<Rightarrow> fsdev" where
  "fs_free address s =
     (if address = FS_NULL then s
      else let alloc_addr = address - ALLOC_HEADER;
               (hdr, s1) = fs_mem_read alloc_addr 4 s;
               blocks = (ALLOC_HEADER + le_word hdr + sector_size s1 - 1) div sector_size s1;
               start_block = alloc_addr div sector_size s1;
               s2 = fold (\<lambda>i. fs_bitmap_clear (start_block + of_nat i)) [0..<unat blocks] s1;
               s3 = fs_mem_write alloc_addr (word_le 4 (0 :: u32)) s2
           in fs_bitmap_flush s3)"

fun find_loop :: "nat list \<Rightarrow> fsdev \<Rightarrow> u32 \<times> fsdev" where
  "find_loop [] s = (FS_NULL, s)"
| "find_loop (i # rest) s =
     (let (used, s1) = fs_bitmap_get (of_nat i) s
      in if used
         then let addr = of_nat i * sector_size s1; (hdr, s2) = fs_mem_read addr 4 s1
              in if le_word hdr \<noteq> (0 :: u32) then (addr + ALLOC_HEADER, s2) else find_loop rest s2
         else find_loop rest s1)"

definition fs_find_next :: "u32 \<Rightarrow> fsdev \<Rightarrow> u32 \<times> fsdev" where
  "fs_find_next prev_addr s =
     (if prev_addr = FS_NULL
      then find_loop [unat (reserved_blocks s)..<unat (block_count s)] s
      else let h_addr = prev_addr - ALLOC_HEADER;
               (hdr, s1) = fs_mem_read h_addr 4 s;
               used = (le_word hdr + ALLOC_HEADER + sector_size s1 - 1) div sector_size s1;
               start_block = h_addr div sector_size s1 + used
           in find_loop [unat start_block..<unat (block_count s1)] s1)"

text \<open>
  The loop of \<open>fs_get_used_bytes\<close>. Every round adds at least one sector to \<open>used_bytes\<close>, which never
  exceeds the pool, so \<open>fuel\<close> of one more than the number of sectors of the pool is enough; running out
  of it is \<open>None\<close>.
\<close>

fun used_loop :: "nat \<Rightarrow> u32 \<Rightarrow> u32 \<Rightarrow> fsdev \<Rightarrow> (u32 \<times> fsdev) option" where
  "used_loop 0 current used s = None"
| "used_loop (Suc fuel) current used s =
     (if current = FS_NULL then Some (used, s)
      else let (hdr, s1) = fs_mem_read (current - ALLOC_HEADER) 4 s; sz = le_word hdr
           in if sz = 0 \<or> sz > pool_size s1 then Some (used, s1)
              else let blocks_used = (ALLOC_HEADER + sz + sector_size s1 - 1) div sector_size s1;
                       block_bytes = blocks_used * sector_size s1
                   in if used + block_bytes > pool_size s1 then Some (pool_size s1, s1)
                      else let (next, s2) = fs_find_next current s1
                           in used_loop fuel next (used + block_bytes) s2)"

definition fs_get_used_bytes :: "nat \<Rightarrow> fsdev \<Rightarrow> (u32 \<times> fsdev) option" where
  "fs_get_used_bytes fuel s =
     (if pool_size s = 0 then Some (0, s)
      else let reserved_bytes = reserved_blocks s * sector_size s
           in if reserved_bytes > pool_size s then Some (pool_size s, s)
              else let (current, s1) = fs_find_next FS_NULL s in used_loop fuel current reserved_bytes s1)"

section \<open>Opening and formatting\<close>

definition fs_device_get_partition :: "fsdev \<Rightarrow> (u8 \<times> fs_partition) \<times> fsdev" where
  "fs_device_get_partition s =
     (let (bs, s1) = fs_mem_read DEVICE_HEADER 32 s; part = bytes_partition bs
      in if p_magic part \<noteq> FS_MAGIC then ((1, part), s1) else ((0, part), s1))"

text \<open>
  A new context for the device: everything zero but the window at \<open>device_address\<close> and the drive,
  which are what they were (\<open>old\<close>). The context is returned with the partition block that was read.
\<close>

definition fs_device_open :: "fsdev \<Rightarrow> u16 \<Rightarrow> fs_partition \<times> fsdev" where
  "fs_device_open old dtype =
     (let new_context = \<lparr> is_open = False, frame_dirty = False, sector_size = 0, pool_size = 0,
            block_count = 0, bitmap_size = 0, reserved_blocks = 0, device_type = dtype,
            frame_offset = NO_FRAME, frame_bitmap = replicate 32 0, sector_frame = NO_FRAME,
            sector_dirty = False, window = window old, drive_of = drive_of old, overrun = overrun old \<rparr>;
          ((err, part), c) = fs_device_get_partition new_context
      in if err \<noteq> 0 then (part, c)
         else let count = p_total_size part div p_sector_size part;
                  bsize = (count + 7) div 8;
                  meta_sz = DEVICE_HEADER + 32 + bsize
              in (part, c\<lparr>is_open := True, sector_size := p_sector_size part, pool_size := p_total_size part,
                          block_count := count, bitmap_size := bsize,
                          reserved_blocks := (meta_sz + p_sector_size part - 1) div p_sector_size part,
                          frame_dirty := False, sector_dirty := False\<rparr>))"

definition fs_device_format :: "fsdev \<Rightarrow> u32 \<Rightarrow> u32 \<Rightarrow> u16 \<Rightarrow> fsdev" where
  "fs_device_format old capacity ssize dtype =
     (let devH = \<lparr> dh_id = 0x13, dh_name = [102, 115] @ replicate 8 0, dh_pad = replicate 5 0 \<rparr>;
          partH = \<lparr> p_total_size = capacity, p_sector_size = ssize, p_root = 0,
                    p_name = [115, 116, 111, 114, 97, 103, 101] @ replicate 9 0,
                    p_flags = 0, p_type = 0, p_reserved = 0, p_magic = FS_MAGIC \<rparr>;
          (_, ctx) = fs_device_open old dtype;
          b_size = (capacity div ssize + 7) div 8;
          meta_size = DEVICE_HEADER + 32 + b_size;
          res_blocks = (meta_size + ssize - 1) div ssize;
          ctx = fs_mem_write 0 (device_header_bytes devH) ctx;
          ctx = fs_mem_write DEVICE_HEADER (partition_bytes partH) ctx;
          ctx = fold (\<lambda>i. fs_writeb (DEVICE_HEADER + 32 + of_nat i) 0) [0..<unat b_size] ctx;
          ctx = fs_cache_sync ctx;
          (_, ctx) = fs_device_open ctx dtype;
          ctx = fold (\<lambda>i. fs_bitmap_set (of_nat i)) [0..<unat res_blocks] ctx
      in fs_cache_sync (fs_bitmap_flush ctx))"

definition fs_device_format_low :: "fsdev \<Rightarrow> u32 \<Rightarrow> fsdev" where
  "fs_device_format_low old capacity =
     (let (_, ctx) = fs_device_open old FS_DEVICE_TYPE_ATA
      in fs_cache_sync (fold (\<lambda>a. fs_writeb (of_nat a) 0) [0..<unat capacity] ctx))"

definition fs_device_sync :: "fsdev \<Rightarrow> bool \<times> fsdev" where
  "fs_device_sync s =
     (let (ok, s1) = fs_cache_flush (fs_bitmap_flush s)
      in (ok \<and> \<not> frame_dirty s1 \<and> \<not> sector_dirty s1, s1))"

text \<open>\<open>fs_check_directory_valid\<close> reads a whole \<open>struct FSFileHeader\<close> (44 bytes); byte 16 is \<open>block.attributes\<close>.\<close>

definition fs_check_directory_valid :: "u32 \<Rightarrow> fsdev \<Rightarrow> bool \<times> fsdev" where
  "fs_check_directory_valid address s =
     (let (bs, s1) = fs_mem_read address 44 s in (bs ! 16 AND FS_ATTRIBUTE_DIRECTORY \<noteq> 0, s1))"

end
