(* ===== verification/FsDeviceInv.thy ===== *)
theory FsDeviceInv
  imports FsDevice
begin

text \<open>
  The device allocator as an instance of the block allocator interface: a device whose bitmap is intact
  and whose sectors hold a four-byte size each is a store of bits with in-band headers. From this the
  functional behaviour of \<open>fs_alloc\<close>, \<open>fs_free\<close> and \<open>fs_find_next\<close> follows.
\<close>

section \<open>Reads and writes beyond the bitmap\<close>

lemma fs_rest_cong:
  assumes "ctx_rest s' = ctx_rest s" "\<And>a. \<not> in_range fs_bitmap_address (bm_len s) a \<Longrightarrow> dev_view s' a = dev_view s a"
  shows "fs_rest s' = fs_rest s"
  using ctx_restD [OF assms(1)] assms(2) by (intro fs_rest_eqI) simp_all

lemma data_read_props:
  assumes ok: "bm_ok s" and r: "fs_mem_read a n s = (bs, s1)"
  shows "bm_ok s1" "fs_rest s1 = fs_rest s" "bs = mem_read (dev_view s) a n" "dev_view s1 = dev_view s"
    "bm_byte s1 = bm_byte s"
proof -
  have cs: "cache_coherent s" "disk_type s" "no_faults s" using ok by (simp_all add: bm_ok_def)
  note m = fs_mem_read_props [OF cs r]
  have rr: "ctx_rest s1 = ctx_rest s" and v: "dev_view s1 = dev_view s" using m by simp_all
  note k = ctx_restD [OF rr]
  show "bs = mem_read (dev_view s) a n" "dev_view s1 = dev_view s" using m by simp_all
  show "fs_rest s1 = fs_rest s" using rr v by (intro fs_rest_cong) simp_all
  show b: "bm_byte s1 = bm_byte s" using k v by (simp add: bm_byte_def fun_eq_iff)
  have "bm_len s1 = bm_len s" using k by (simp add: bm_len_def)
  then show "bm_ok s1" using ok k m b v by (simp add: bm_ok_def frame_ok_def)
qed

lemma data_write_props:
  assumes ok: "bm_ok s" and a: "48 + bm_len s \<le> unat a" "unat a + length bs \<le> 4294967296"
  shows "bm_ok (fs_mem_write a bs s)" "ctx_rest (fs_mem_write a bs s) = ctx_rest s"
    "dev_view (fs_mem_write a bs s) = mem_write (dev_view s) a bs"
    "b < bm_len s \<Longrightarrow> bm_byte (fs_mem_write a bs s) b = bm_byte s b"
proof -
  let ?t = "fs_mem_write a bs s"
  have cs: "cache_coherent s" "disk_type s" "no_faults s" using ok by (simp_all add: bm_ok_def)
  note m = fs_mem_write_props [OF cs, of a bs]
  show rr: "ctx_rest ?t = ctx_rest s" and v: "dev_view ?t = mem_write (dev_view s) a bs" using m by simp_all
  note k = ctx_restD [OF rr]
  have len: "bm_len s \<le> 536870912" using ok by (simp add: bm_ok_def)
  have same: "dev_view ?t (fs_bitmap_address + of_nat b) = dev_view s (fs_bitmap_address + of_nat b)" if "b < bm_len s" for b
  proof -
    have "\<not> in_range a (length bs) (fs_bitmap_address + of_nat b)"
      using a that len bm_addr [of b] by (intro not_in_range_I) auto
    then show ?thesis using a by (simp add: v mem_write_apply)
  qed
  show b: "bm_byte ?t b = bm_byte s b" if "b < bm_len s" for b
    using k same [OF that] by (simp add: bm_byte_def)
  have bl: "bm_len ?t = bm_len s" using k by (simp add: bm_len_def)
  show "bm_ok ?t"
    unfolding bm_ok_def frame_ok_def bl
    using ok k m b same by (simp add: bm_ok_def frame_ok_def)
qed

lemma fs_bit_cong:
  "bm_ok s \<Longrightarrow> (\<And>b. b < bm_len s \<Longrightarrow> bm_byte s' b = bm_byte s b) \<Longrightarrow> j < fs_cap s \<Longrightarrow> fs_bit j s' = fs_bit j s"
  using bm_index(2) [of s j] by (simp add: fs_bit_def fs_cap_def)

section \<open>The allocator interface\<close>

definition fs_lo :: "fsdev \<Rightarrow> nat" where
  "fs_lo s = unat (reserved_blocks s)"

definition fs_sector :: "fsdev \<Rightarrow> nat" where
  "fs_sector s = unat (sector_size s)"

definition fs_blocks :: "u32 \<Rightarrow> fsdev \<Rightarrow> nat" where
  "fs_blocks z s = ceil_div (unat z + 4) (fs_sector s)"

definition fs_addr :: "nat \<Rightarrow> fsdev \<Rightarrow> u32" where
  "fs_addr k s = of_nat k * sector_size s"

definition fs_header :: "nat \<Rightarrow> fsdev \<Rightarrow> u32" where
  "fs_header k s = le_word (mem_read (dev_view s) (fs_addr k s) 4)"

definition fs_put_header :: "nat \<Rightarrow> u32 \<Rightarrow> fsdev \<Rightarrow> fsdev" where
  "fs_put_header k z s = fs_mem_write (fs_addr k s) (word_le 4 z) s"

text \<open>
  The geometry of a formatted device: headers fit into a sector, the blocks fit below the end of the
  address space with room for one sector, the metadata ends before the first free block.
\<close>

definition fs_geom :: "fsdev \<Rightarrow> bool" where
  "fs_geom s \<longleftrightarrow>
     4 \<le> fs_sector s \<and> fs_cap s * fs_sector s + fs_sector s < 4294967296
     \<and> 48 + bm_len s \<le> fs_lo s * fs_sector s \<and> fs_lo s \<le> fs_cap s"

definition fs_ok :: "fsdev \<Rightarrow> bool" where
  "fs_ok s \<longleftrightarrow> bm_ok s \<and> fs_geom s"

abbreviation fs_inv :: "fsdev \<Rightarrow> (nat \<rightharpoonup> u32) \<Rightarrow> bool" where
  "fs_inv \<equiv> alloc_inv fs_cap fs_lo fs_bit fs_blocks fs_header"

lemma fs_config_rest:
  assumes "fs_rest s' = fs_rest s"
  shows "fs_cap s' = fs_cap s" "fs_lo s' = fs_lo s" "fs_sector s' = fs_sector s" "fs_blocks z s' = fs_blocks z s"
    "fs_addr k s' = fs_addr k s" "fs_geom s' = fs_geom s"
  using fs_restD [OF assms] by (simp_all add: fs_cap_def fs_lo_def fs_sector_def fs_blocks_def fs_addr_def fs_geom_def)

lemma fs_config_ctx:
  assumes "ctx_rest s' = ctx_rest s"
  shows "fs_cap s' = fs_cap s" "fs_lo s' = fs_lo s" "fs_sector s' = fs_sector s" "fs_blocks z s' = fs_blocks z s"
    "fs_addr k s' = fs_addr k s" "fs_geom s' = fs_geom s" "bm_len s' = bm_len s"
  using ctx_restD [OF assms]
  by (simp_all add: fs_cap_def fs_lo_def fs_sector_def fs_blocks_def fs_addr_def fs_geom_def bm_len_def)

lemma fs_addr_nat:
  assumes "fs_geom s" "k \<le> fs_cap s"
  shows "unat (fs_addr k s) = k * fs_sector s" "k * fs_sector s + fs_sector s < 4294967296"
proof -
  have "k * fs_sector s \<le> fs_cap s * fs_sector s" using assms(2) by simp
  then show b: "k * fs_sector s + fs_sector s < 4294967296" using assms(1) unfolding fs_geom_def by linarith
  have "k < 4294967296" using assms(2) unat_u32_less [of "block_count s"] by (simp add: fs_cap_def)
  then show "unat (fs_addr k s) = k * fs_sector s"
    using b unfolding fs_addr_def by (subst unat_mult_u32) (simp_all add: unat_of_nat_u32 fs_sector_def)
qed

lemma fs_data_addr:
  assumes "fs_geom s" "fs_lo s \<le> k" "k < fs_cap s"
  shows "48 + bm_len s \<le> unat (fs_addr k s)" "unat (fs_addr k s) + fs_sector s \<le> 4294967296"
    "\<not> in_range fs_bitmap_address (bm_len s) (fs_addr k s + of_nat i) \<or> 4 \<le> i"
proof -
  have u: "unat (fs_addr k s) = k * fs_sector s" "k * fs_sector s + fs_sector s < 4294967296"
    using fs_addr_nat [of s k] assms by simp_all
  have "fs_lo s * fs_sector s \<le> k * fs_sector s" using assms(2) by simp
  then show a: "48 + bm_len s \<le> unat (fs_addr k s)" "unat (fs_addr k s) + fs_sector s \<le> 4294967296"
    using u assms(1) unfolding fs_geom_def by linarith+
  show "\<not> in_range fs_bitmap_address (bm_len s) (fs_addr k s + of_nat i) \<or> 4 \<le> i"
  proof (cases "i < 4")
    case True
    then have "unat (fs_addr k s + of_nat i) = unat (fs_addr k s) + i"
      using u assms(1) by (subst unat_add_u32) (simp_all add: fs_geom_def unat_of_nat_u32)
    then have "unat fs_bitmap_address + bm_len s \<le> unat (fs_addr k s + of_nat i)"
      using a(1) by (simp add: fs_bitmap_address_def)
    moreover from this have "unat fs_bitmap_address + bm_len s \<le> 4294967296"
      using unat_u32_less [of "fs_addr k s + of_nat i"] by linarith
    ultimately show ?thesis using not_in_range_I by blast
  qed simp
qed

lemma fs_header_rest:
  assumes "fs_geom s" "fs_rest s' = fs_rest s" "fs_lo s \<le> k" "k < fs_cap s"
  shows "fs_header k s' = fs_header k s"
proof -
  have "mem_read (dev_view s') (fs_addr k s) 4 = mem_read (dev_view s) (fs_addr k s) 4"
    using fs_rest_view [OF assms(2)] fs_data_addr(3) [OF assms(1,3,4)] by (intro mem_read_eqI) (meson not_le)
  then show ?thesis using fs_config_rest(5) [OF assms(2)] by (simp add: fs_header_def)
qed

lemma fs_put_props:
  assumes ok: "fs_ok s" and k: "fs_lo s \<le> k" "k < fs_cap s"
  shows "fs_ok (fs_put_header k z s)" "ctx_rest (fs_put_header k z s) = ctx_rest s"
    "j < fs_cap s \<Longrightarrow> fs_bit j (fs_put_header k z s) = fs_bit j s"
    "fs_lo s \<le> j \<Longrightarrow> j < fs_cap s \<Longrightarrow> fs_header j (fs_put_header k z s) = (if j = k then z else fs_header j s)"
    "dev_view (fs_put_header k z s) = mem_write (dev_view s) (fs_addr k s) (word_le 4 z)"
proof -
  have g: "fs_geom s" and b: "bm_ok s" using ok by (simp_all add: fs_ok_def)
  note d = fs_data_addr [OF g k]
  have fit: "unat (fs_addr k s) + length (word_le 4 z) \<le> 4294967296" using d(2) g by (simp add: fs_geom_def)
  note w = data_write_props [OF b d(1) fit, folded fs_put_header_def]
  show r: "ctx_rest (fs_put_header k z s) = ctx_rest s" by (rule w(2))
  note c = fs_config_ctx [OF r]
  show "fs_ok (fs_put_header k z s)" using w(1) c g by (simp add: fs_ok_def)
  show "j < fs_cap s \<Longrightarrow> fs_bit j (fs_put_header k z s) = fs_bit j s" by (rule fs_bit_cong [OF b w(4)])
  show v: "dev_view (fs_put_header k z s) = mem_write (dev_view s) (fs_addr k s) (word_le 4 z)" by (rule w(3))
  assume j: "fs_lo s \<le> j" "j < fs_cap s"
  show "fs_header j (fs_put_header k z s) = (if j = k then z else fs_header j s)"
  proof (cases "j = k")
    case True
    then show ?thesis
      using mem_read_write_same [of "word_le 4 z" "dev_view s" "fs_addr k s"] by (simp add: fs_header_def v c)
  next
    case False
    have u: "unat (fs_addr k s) = k * fs_sector s" "unat (fs_addr j s) = j * fs_sector s"
      using fs_addr_nat [OF g] k j by simp_all
    have "Suc j * fs_sector s \<le> k * fs_sector s \<or> Suc k * fs_sector s \<le> j * fs_sector s"
      using False by (metis Suc_leI mult_le_mono1 nat_neq_iff)
    then have "unat (fs_addr j s) + 4 \<le> unat (fs_addr k s) \<or> unat (fs_addr k s) + 4 \<le> unat (fs_addr j s)"
      using u g by (auto simp: fs_geom_def)
    then have "mem_read (dev_view (fs_put_header k z s)) (fs_addr j s) 4 = mem_read (dev_view s) (fs_addr j s) 4"
      unfolding v using d(2) fs_data_addr(2) [OF g j] g
      by (intro mem_read_write_other) (auto simp: fs_geom_def)
    then show ?thesis using False by (simp add: fs_header_def c)
  qed
qed

lemma fs_ok_rest: "fs_ok s \<Longrightarrow> bm_ok s' \<Longrightarrow> fs_rest s' = fs_rest s \<Longrightarrow> fs_ok s'"
  using fs_config_rest(6) [of s' s] by (simp add: fs_ok_def)

interpretation fs_alloc: block_alloc fs_ok fs_cap fs_bit "\<lambda>i. fs_bitmap_set (of_nat i)"
  "\<lambda>i. fs_bitmap_clear (of_nat i)" fs_rest fs_lo fs_blocks fs_header fs_put_header
proof (unfold_locales)
  fix s i j
  assume ok: "fs_ok s" and i: "i < fs_cap s"
  then have b: "bm_ok s" by (simp add: fs_ok_def)
  show "j < fs_cap s \<Longrightarrow> fs_bit j (fs_bitmap_set (of_nat i) s) = (j = i \<or> fs_bit j s)"
    "j < fs_cap s \<Longrightarrow> fs_bit j (fs_bitmap_clear (of_nat i) s) = (j \<noteq> i \<and> fs_bit j s)"
    "fs_cap (fs_bitmap_set (of_nat i) s) = fs_cap s" "fs_cap (fs_bitmap_clear (of_nat i) s) = fs_cap s"
    "fs_rest (fs_bitmap_set (of_nat i) s) = fs_rest s" "fs_rest (fs_bitmap_clear (of_nat i) s) = fs_rest s"
    using fs_bits.used_set [OF b i] fs_bits.used_clear [OF b i] fs_bits.cap_set [OF b i] fs_bits.cap_clear [OF b i]
      fs_bits.rest_set [OF b i] fs_bits.rest_clear [OF b i] by simp_all
  show "fs_ok (fs_bitmap_set (of_nat i) s)"
    by (rule fs_ok_rest [OF ok fs_bits.inv_set [OF b i] fs_bits.rest_set [OF b i]])
  show "fs_ok (fs_bitmap_clear (of_nat i) s)"
    by (rule fs_ok_rest [OF ok fs_bits.inv_clear [OF b i] fs_bits.rest_clear [OF b i]])
next
  fix s :: fsdev and z y :: u32 and k j
  assume ok: "fs_ok s"
  then have g: "fs_geom s" by (simp add: fs_ok_def)
  show "0 < fs_blocks z s" using g unfolding fs_blocks_def by (intro ceil_div_pos) (simp_all add: fs_geom_def)
  assume k: "fs_lo s \<le> k" "k < fs_cap s"
  note p = fs_put_props [OF ok k]
  show "fs_ok (fs_put_header k z s)" by (rule p(1))
  show "fs_cap (fs_put_header k z s) = fs_cap s \<and> fs_lo (fs_put_header k z s) = fs_lo s
      \<and> fs_blocks y (fs_put_header k z s) = fs_blocks y s"
    using fs_config_ctx [OF p(2)] by simp
  show "j < fs_cap s \<Longrightarrow> fs_bit j (fs_put_header k z s) = fs_bit j s" by (rule p(3))
  show "fs_lo s \<le> j \<Longrightarrow> j < fs_cap s \<Longrightarrow> fs_header j (fs_put_header k z s) = (if j = k then z else fs_header j s)"
    by (rule p(4))
next
  fix s s' :: fsdev and y :: u32 and j
  assume ok: "fs_ok s" "fs_ok s'" and r: "fs_rest s' = fs_rest s"
  show "fs_cap s' = fs_cap s \<and> fs_lo s' = fs_lo s \<and> fs_blocks y s' = fs_blocks y s"
    using fs_config_rest [OF r] by simp
  assume "fs_lo s \<le> j" "j < fs_cap s"
  then show "fs_header j s' = fs_header j s" using ok r by (intro fs_header_rest) (simp_all add: fs_ok_def)
qed


section \<open>Steps that change nothing a client sees\<close>

definition fs_same :: "fsdev \<Rightarrow> fsdev \<Rightarrow> bool" where
  "fs_same s s' \<longleftrightarrow> fs_ok s' \<and> fs_rest s' = fs_rest s \<and> (\<forall>j < fs_cap s. fs_bit j s' = fs_bit j s)"

lemma fs_same_refl: "fs_ok s \<Longrightarrow> fs_same s s"
  by (simp add: fs_same_def)

lemma fs_same_trans: "fs_same s s' \<Longrightarrow> fs_same s' s'' \<Longrightarrow> fs_same s s''"
  using fs_config_rest(1) [of s' s] by (simp add: fs_same_def)

lemma fs_same_config:
  assumes "fs_same s s'"
  shows "fs_cap s' = fs_cap s" "fs_lo s' = fs_lo s" "fs_sector s' = fs_sector s" "fs_blocks z s' = fs_blocks z s"
    "fs_addr k s' = fs_addr k s" "sector_size s' = sector_size s" "block_count s' = block_count s"
    "reserved_blocks s' = reserved_blocks s" "pool_size s' = pool_size s" "fs_ok s'"
  using assms fs_config_rest [of s' s] fs_restD [of s' s] by (simp_all add: fs_same_def)

lemma fs_same_inv: "fs_ok s \<Longrightarrow> fs_same s s' \<Longrightarrow> fs_inv s live \<Longrightarrow> fs_inv s' live"
  by (rule fs_alloc.alloc_inv_same) (simp_all add: fs_same_def)

lemma fs_get_same:
  assumes "fs_ok s" "i < fs_cap s" "fs_bitmap_get (of_nat i) s = (r, s1)"
  shows "r = fs_bit i s" "fs_same s s1"
proof -
  have b: "bm_ok s" "i < unat (block_count s)" using assms by (simp_all add: fs_ok_def fs_cap_def)
  note p = bitmap_get_props [OF b assms(3)]
  show "r = fs_bit i s" by (rule p(1))
  show "fs_same s s1"
    using p(2-4) fs_ok_rest [OF assms(1) p(2,3)] by (simp add: fs_same_def fs_cap_def)
qed

lemma fs_read_same:
  assumes "fs_ok s" "fs_mem_read a n s = (bs, s1)"
  shows "bs = mem_read (dev_view s) a n" "fs_same s s1" "dev_view s1 = dev_view s"
proof -
  have b: "bm_ok s" using assms by (simp add: fs_ok_def)
  note p = data_read_props [OF b assms(2)]
  show "bs = mem_read (dev_view s) a n" "dev_view s1 = dev_view s" using p by simp_all
  show "fs_same s s1" using p fs_ok_rest [OF assms(1) p(1,2)] by (simp add: fs_same_def fs_bit_def)
qed

lemma fs_flush_same: "fs_ok s \<Longrightarrow> fs_same s (fs_bitmap_flush s)"
proof -
  assume ok: "fs_ok s"
  then have b: "bm_ok s" by (simp add: fs_ok_def)
  note p = bitmap_flush_props [OF b]
  show "fs_same s (fs_bitmap_flush s)"
    using p fs_ok_rest [OF ok p(1,3)] fs_bit_cong [OF b, of "fs_bitmap_flush s"] by (simp add: fs_same_def)
qed

section \<open>fs_alloc\<close>

lemma fs_scan_eq:
  "fs_ok s \<Longrightarrow> set is \<subseteq> {..<fs_cap s} \<Longrightarrow>
     \<exists>s'. fs_scan need is len start s = (first_fit (\<lambda>i. fs_bit i s) need is len start, s') \<and> fs_same s s'"
proof (induction "is" arbitrary: len start s)
  case Nil
  then show ?case by (simp add: fs_same_refl)
next
  case (Cons i rest)
  obtain r s1 where g: "fs_bitmap_get (of_nat i) s = (r, s1)" by (cases "fs_bitmap_get (of_nat i) s") auto
  have i: "i < fs_cap s" using Cons.prems by simp
  note p = fs_get_same [OF Cons.prems(1) i g]
  note c = fs_same_config [OF p(2)]
  have eq: "first_fit (\<lambda>i. fs_bit i s1) need rest l st = first_fit (\<lambda>i. fs_bit i s) need rest l st" for l st
    by (rule first_fit_cong) (use p(2) Cons.prems in \<open>auto simp: fs_same_def\<close>)
  have IH: "\<exists>s'. fs_scan need rest l st s1 = (first_fit (\<lambda>i. fs_bit i s) need rest l st, s') \<and> fs_same s s'" for l st
    using Cons.IH [of s1 l st] c Cons.prems fs_same_trans [OF p(2)] eq by auto
  show ?case using p g IH by (auto simp: Let_def)
qed

lemma blocks_needed_word:
  assumes "fs_ok s" "unat sz + 4 + fs_sector s < 4294967296"
  shows "unat ((ALLOC_HEADER + sz + sector_size s - 1) div sector_size s) = fs_blocks sz s"
    "ALLOC_HEADER + sz = sz + ALLOC_HEADER"
proof -
  have ss: "0 < fs_sector s" using assms(1) by (simp add: fs_ok_def fs_geom_def)
  have "unat (ALLOC_HEADER + sz) = 4 + unat sz"
    using assms(2) by (subst unat_add_u32) (simp_all add: ALLOC_HEADER_def)
  then have "unat (ALLOC_HEADER + sz + sector_size s) = 4 + unat sz + fs_sector s"
    using assms(2) by (subst unat_add_u32) (simp_all add: fs_sector_def)
  moreover from this have "ALLOC_HEADER + sz + sector_size s \<noteq> 0" by (metis add_is_0 unat_0 zero_neq_numeral)
  ultimately have "unat (ALLOC_HEADER + sz + sector_size s - 1) = unat sz + 4 + (fs_sector s - 1)"
    using ss by (simp add: unat_minus_one_u32)
  then show "unat ((ALLOC_HEADER + sz + sector_size s - 1) div sector_size s) = fs_blocks sz s"
    by (simp add: unat_div_distrib fs_blocks_def ceil_div_def fs_sector_def)
qed (simp add: add.commute)

lemma fs_alloc_cases:
  assumes ok: "fs_ok s" and inv: "fs_inv s live" and sz: "unat sz + 4 + fs_sector s < 4294967296"
  obtains (full) s' where "fs_alloc sz s = (FS_NULL, s')" "fs_same s s'"
      "\<And>k. fs_lo s \<le> k \<Longrightarrow> k + fs_blocks sz s \<le> fs_cap s \<Longrightarrow> \<not> free_run (\<lambda>i. fs_bit i s) k (fs_blocks sz s)"
    | (placed) k s' where "fs_alloc sz s = (fs_addr k s + ALLOC_HEADER, s')" "live k = None" "fs_ok s'"
      "fs_inv s' (live(k \<mapsto> sz))" "fs_lo s \<le> k" "k + fs_blocks sz s \<le> fs_cap s"
      "free_run (\<lambda>i. fs_bit i s) k (fs_blocks sz s)"
      "\<And>j. fs_lo s \<le> j \<Longrightarrow> j < k \<Longrightarrow> \<not> free_run (\<lambda>i. fs_bit i s) j (fs_blocks sz s)"
      "\<And>a. \<not> in_range fs_bitmap_address (bm_len s) a \<Longrightarrow> \<not> in_range (fs_addr k s) 4 a \<Longrightarrow> dev_view s' a = dev_view s a"
      "fs_cap s' = fs_cap s" "fs_lo s' = fs_lo s" "fs_sector s' = fs_sector s"
proof -
  note need = blocks_needed_word(1) [OF ok sz]
  have pos: "0 < fs_blocks sz s" by (rule fs_alloc.blocks_pos [OF ok])
  let ?l = "[fs_lo s..<fs_cap s]"
  obtain s1 where scan: "fs_scan (fs_blocks sz s) ?l 0 0 s =
      (first_fit (\<lambda>i. fs_bit i s) (fs_blocks sz s) ?l 0 0, s1)" and same: "fs_same s s1"
  proof -
    have "set ?l \<subseteq> {..<fs_cap s}" by auto
    from fs_scan_eq [OF ok this, of "fs_blocks sz s" 0 0] that show thesis by blast
  qed
  note c1 = fs_same_config [OF same]
  show thesis
  proof (cases "first_fit (\<lambda>i. fs_bit i s) (fs_blocks sz s) ?l 0 0")
    case None
    have "fs_alloc sz s = (FS_NULL, s1)"
      using scan None by (simp add: fs_alloc_def need fs_lo_def fs_cap_def Let_def)
    then show ?thesis using same first_fit_None [OF None pos] by (rule full)
  next
    case (Some k)
    note ff = first_fit_Some [OF Some pos]
    let ?n = "fs_blocks sz s"
    let ?s2 = "apply_range (\<lambda>j. fs_bitmap_set (of_nat j)) k ?n s1"
    have "k + ?n \<le> fs_cap s1" using ff(2) c1 by simp
    note r = fs_alloc.set_range [OF c1(10) this]
    have ok2: "fs_ok ?s2" using r by simp
    let ?s3 = "fs_bitmap_flush ?s2"
    have same3: "fs_same ?s2 ?s3" by (rule fs_flush_same [OF ok2])
    note c3 = fs_same_config [OF same3]
    have rest3: "fs_rest ?s3 = fs_rest s" using same3 same r by (simp add: fs_same_def)
    note q3 = fs_config_rest [OF rest3]
    have used: "fs_bit j ?s3 = (k \<le> j \<and> j < k + ?n \<or> fs_bit j s)" if "j < fs_cap s" for j
      using that same3 same r c1 fs_config_rest(1) [of ?s2 s1] by (auto simp: fs_same_def)
    note a = fs_alloc.allocate [OF ok inv ff(1,2,3) c3(10) rest3 used]
    have put: "fs_mem_write (of_nat k * sector_size ?s3) (word_le 4 sz) ?s3 = fs_put_header k sz ?s3"
      by (simp add: fs_put_header_def fs_addr_def)
    have k: "fs_lo ?s3 \<le> k" "k < fs_cap ?s3" using ff pos q3 by auto
    note p = fs_put_props [OF c3(10) k, where z = sz]
    have eq: "fs_alloc sz s = (fs_addr k s + ALLOC_HEADER, fs_put_header k sz ?s3)"
      using scan Some put q3 fs_restD(2) [OF rest3]
      by (simp add: fs_alloc_def need fs_lo_def fs_cap_def Let_def fs_addr_def)
    show ?thesis
    proof (rule placed [OF eq a(2,1,3) ff(1,2,3,4)])
      fix x
      assume x: "\<not> in_range fs_bitmap_address (bm_len s) x" "\<not> in_range (fs_addr k s) 4 x"
      then have "dev_view (fs_put_header k sz ?s3) x = dev_view ?s3 x"
        using q3 by (simp add: p(5) mem_write_apply)
      also have "\<dots> = dev_view s x" using fs_rest_view [OF rest3] x by simp
      finally show "dev_view (fs_put_header k sz ?s3) x = dev_view s x" .
    qed (use fs_config_ctx [OF p(2)] q3 in simp_all)
  qed
qed


section \<open>fs_free\<close>

lemma fs_live_word:
  assumes ok: "fs_ok s" and inv: "fs_inv s live" and live: "live k = Some sz"
  shows "fs_addr k s + ALLOC_HEADER - ALLOC_HEADER = fs_addr k s" "fs_addr k s + ALLOC_HEADER \<noteq> FS_NULL"
    "fs_addr k s div sector_size s = of_nat k" "unat (of_nat k :: u32) = k"
    "unat ((ALLOC_HEADER + sz + sector_size s - 1) div sector_size s) = fs_blocks sz s"
    "fs_lo s \<le> k" "k < fs_cap s" "unat sz + 4 + fs_sector s < 4294967296"
    "unat (fs_addr k s) + 4 + unat sz \<le> unat (fs_addr (k + fs_blocks sz s) s)"
proof -
  have g: "fs_geom s" using ok by (simp add: fs_ok_def)
  note l = alloc_inv_live [OF inv live]
  show r: "fs_lo s \<le> k" "k < fs_cap s" by (rule fs_alloc.live_in_range [OF ok inv live])+
  note u = fs_addr_nat [OF g, of k]
  have ss: "4 \<le> fs_sector s" using g by (simp add: fs_geom_def)
  have cov: "unat sz + 4 \<le> fs_blocks sz s * fs_sector s"
    unfolding fs_blocks_def using ss by (intro ceil_div_ge) simp
  have "fs_blocks sz s * fs_sector s \<le> fs_cap s * fs_sector s" using l(2) by simp
  then show big: "unat sz + 4 + fs_sector s < 4294967296" using cov g unfolding fs_geom_def by linarith
  show "unat ((ALLOC_HEADER + sz + sector_size s - 1) div sector_size s) = fs_blocks sz s"
    by (rule blocks_needed_word(1) [OF ok big])
  show "fs_addr k s + ALLOC_HEADER - ALLOC_HEADER = fs_addr k s" by simp
  have "unat (fs_addr k s + ALLOC_HEADER) = k * fs_sector s + 4"
    using u r ss by (subst unat_add_u32) (simp_all add: ALLOC_HEADER_def)
  then show "fs_addr k s + ALLOC_HEADER \<noteq> FS_NULL"
    using fs_addr_nat(2) [OF g, of "Suc k"] u r ss by (auto simp: FS_NULL_def)
  show uk: "unat (of_nat k :: u32) = k"
    using r unat_u32_less [of "block_count s"] by (intro unat_of_nat_u32) (simp add: fs_cap_def)
  have "unat (fs_addr k s div sector_size s) = k"
    using u r ss by (simp add: unat_div_distrib fs_sector_def [symmetric])
  then show "fs_addr k s div sector_size s = of_nat k" using uk by (simp only: word_unat_eq_iff)
  show "unat (fs_addr k s) + 4 + unat sz \<le> unat (fs_addr (k + fs_blocks sz s) s)"
    using u fs_addr_nat(1) [OF g l(2)] cov r by (simp add: add_mult_distrib)
qed

lemma fs_free_live:
  assumes ok: "fs_ok s" and inv: "fs_inv s live" and live: "live k = Some sz"
  defines "s' \<equiv> fs_free (fs_addr k s + ALLOC_HEADER) s"
  shows "fs_ok s'" "fs_inv s' (live(k := None))" "fs_header k s' = 0"
    "fs_cap s' = fs_cap s" "fs_lo s' = fs_lo s" "fs_addr j s' = fs_addr j s" "fs_sector s' = fs_sector s"
    "j < fs_cap s \<Longrightarrow> fs_bit j s' = (\<not> (k \<le> j \<and> j < k + fs_blocks sz s) \<and> fs_bit j s)"
    "\<not> in_range fs_bitmap_address (bm_len s) a \<Longrightarrow> \<not> in_range (fs_addr k s) 4 a \<Longrightarrow> dev_view s' a = dev_view s a"
proof -
  note w = fs_live_word [OF ok inv live]
  obtain bs s1 where rd: "fs_mem_read (fs_addr k s) 4 s = (bs, s1)" by (cases "fs_mem_read (fs_addr k s) 4 s") auto
  note p1 = fs_read_same [OF ok rd]
  note c1 = fs_same_config [OF p1(2)]
  have hdr: "le_word bs = sz"
    using p1(1) alloc_inv_live(3) [OF inv live] by (simp add: fs_header_def)
  let ?n = "fs_blocks sz s"
  let ?s2 = "apply_range (\<lambda>i. fs_bitmap_clear (of_nat i)) k ?n s1"
  have "k + ?n \<le> fs_cap s1" using alloc_inv_live(2) [OF inv live] c1 by simp
  note r = fs_alloc.clear_range [OF c1(10) this]
  have ok2: "fs_ok ?s2" using r by simp
  have rest2: "fs_rest ?s2 = fs_rest s" using r p1(2) by (simp add: fs_same_def)
  note q2 = fs_config_rest [OF rest2]
  have used2: "fs_bit j ?s2 = (\<not> (k \<le> j \<and> j < k + ?n) \<and> fs_bit j s)" if "j < fs_cap s" for j
    using that r c1 p1(2) by (auto simp: fs_same_def)
  have inv2: "fs_inv ?s2 (live(k := None))"
    by (rule fs_alloc.release [OF ok inv live ok2 rest2 used2])
  have k2: "fs_lo ?s2 \<le> k" "k < fs_cap ?s2" using w(6,7) q2 by simp_all
  note p3 = fs_put_props [OF ok2 k2, where z = 0]
  let ?s3 = "fs_put_header k 0 ?s2"
  note q3 = fs_config_ctx [OF p3(2)]
  have none: "(live(k := None)) k = None" by simp
  have inv3: "fs_inv ?s3 (live(k := None))" by (rule fs_alloc.put_dead [OF ok2 inv2 none k2])
  have same4: "fs_same ?s3 (fs_bitmap_flush ?s3)" by (rule fs_flush_same [OF p3(1)])
  note c4 = fs_same_config [OF same4]
  have "(\<lambda>i. fs_bitmap_clear (fs_addr k s div sector_size s1 + of_nat i)) = (\<lambda>i. fs_bitmap_clear (of_nat (k + i)))"
    using w(3) c1 by simp
  then have fold: "fold (\<lambda>i. fs_bitmap_clear (fs_addr k s div sector_size s1 + of_nat i)) [0..<?n] s1 = ?s2"
    by (simp add: apply_range_def)
  have put: "fs_mem_write (fs_addr k s) (word_le 4 (0 :: u32)) ?s2 = ?s3"
    using q2 by (simp add: fs_put_header_def)
  have n1: "unat ((ALLOC_HEADER + sz + sector_size s1 - 1) div sector_size s1) = ?n"
    using w(5) c1 by simp
  have "fs_free (fs_addr k s + ALLOC_HEADER) s = fs_bitmap_flush ?s3"
    using w(2) rd hdr n1 fold put by (simp add: fs_free_def Let_def)
  then have s': "s' = fs_bitmap_flush ?s3" by (simp add: s'_def)
  show "fs_ok s'" using c4 s' by simp
  show "fs_inv s' (live(k := None))" unfolding s' by (rule fs_same_inv [OF p3(1) same4 inv3])
  have rest4: "fs_rest (fs_bitmap_flush ?s3) = fs_rest ?s3" using same4 by (simp add: fs_same_def)
  have g3: "fs_geom ?s3" using p3(1) by (simp add: fs_ok_def)
  show "fs_header k s' = 0"
    using fs_header_rest [OF g3 rest4, of k] p3(4) [OF k2] k2 q3 by (simp add: s')
  show "fs_cap s' = fs_cap s" "fs_lo s' = fs_lo s" "fs_addr j s' = fs_addr j s" "fs_sector s' = fs_sector s"
    using c4 q3 q2 by (simp_all add: s')
  show "fs_bit j s' = (\<not> (k \<le> j \<and> j < k + ?n) \<and> fs_bit j s)" if "j < fs_cap s"
    using that same4 p3(3) [of j] used2 q2 q3 by (auto simp: s' fs_same_def)
  assume a: "\<not> in_range fs_bitmap_address (bm_len s) a" "\<not> in_range (fs_addr k s) 4 a"
  have bl: "bm_len ?s2 = bm_len s" "bm_len ?s3 = bm_len s" using fs_restD(8) [OF rest2] q3(7) by simp_all
  have "dev_view s' a = dev_view ?s3 a" unfolding s' using fs_rest_view [OF rest4] a bl by simp
  also have "\<dots> = dev_view ?s2 a" using a q2 by (simp add: p3(5) mem_write_apply)
  also have "\<dots> = dev_view s a" using fs_rest_view [OF rest2] a by simp
  finally show "dev_view s' a = dev_view s a" .
qed

section \<open>fs_find_next\<close>

definition fs_next_spec :: "fsdev \<Rightarrow> (nat \<rightharpoonup> u32) \<Rightarrow> nat \<Rightarrow> u32 \<Rightarrow> bool" where
  "fs_next_spec s live lo a \<longleftrightarrow>
     a = FS_NULL \<and> (\<forall>k \<ge> lo. live k = None \<or> live k = Some 0)
     \<or> (\<exists>k \<ge> lo. live k \<noteq> None \<and> live k \<noteq> Some 0 \<and> a = fs_addr k s + ALLOC_HEADER
          \<and> (\<forall>j. lo \<le> j \<longrightarrow> j < k \<longrightarrow> live j = None \<or> live j = Some 0))"

lemma fs_next_spec_widen:
  assumes "fs_next_spec s live hi a" "lo \<le> hi" "\<And>j. lo \<le> j \<Longrightarrow> j < hi \<Longrightarrow> live j = None \<or> live j = Some 0"
  shows "fs_next_spec s live lo a"
proof -
  have none: "live j = None \<or> live j = Some 0" if "lo \<le> j" "hi \<le> j \<Longrightarrow> live j = None \<or> live j = Some 0" for j
    using assms(3) [of j] that by (cases "j < hi") auto
  from assms(1) consider "a = FS_NULL" "\<forall>k \<ge> hi. live k = None \<or> live k = Some 0"
    | k where "hi \<le> k" "live k \<noteq> None" "live k \<noteq> Some 0" "a = fs_addr k s + ALLOC_HEADER"
        "\<forall>j. hi \<le> j \<longrightarrow> j < k \<longrightarrow> live j = None \<or> live j = Some 0"
    unfolding fs_next_spec_def by blast
  then show ?thesis
  proof cases
    case 1
    then show ?thesis using none by (simp add: fs_next_spec_def)
  next
    case (2 k)
    have "\<forall>j. lo \<le> j \<longrightarrow> j < k \<longrightarrow> live j = None \<or> live j = Some 0" using none 2(5) by blast
    moreover have "lo \<le> k" using 2(1) assms(2) by simp
    ultimately show ?thesis using 2 unfolding fs_next_spec_def by blast
  qed
qed

definition fs_boundary :: "fsdev \<Rightarrow> (nat \<rightharpoonup> u32) \<Rightarrow> nat \<Rightarrow> bool" where
  "fs_boundary s live lo \<longleftrightarrow> (\<forall>k sz. live k = Some sz \<longrightarrow> k < lo \<longrightarrow> k + fs_blocks sz s \<le> lo)"

lemma find_loop_spec:
  "fs_ok s \<Longrightarrow> fs_inv s live \<Longrightarrow> hi = fs_cap s \<Longrightarrow> fs_lo s \<le> lo \<Longrightarrow> fs_boundary s live lo \<Longrightarrow>
     \<exists>a s'. find_loop [lo..<hi] s = (a, s') \<and> fs_same s s' \<and> fs_next_spec s live lo a"
proof (induction "hi - lo" arbitrary: lo s)
  case 0
  have "live k = None" if "lo \<le> k" for k
  proof (rule ccontr)
    assume "live k \<noteq> None"
    then obtain sz where "live k = Some sz" by auto
    from fs_alloc.live_in_range [OF "0.prems"(1,2) this] that "0.hyps" "0.prems" show False by simp
  qed
  then show ?case using "0.hyps" "0.prems" by (simp add: fs_next_spec_def fs_same_refl)
next
  case (Suc d)
  note ok = Suc.prems(1) and inv = Suc.prems(2)
  have upt: "[lo..<hi] = lo # [Suc lo..<hi]" using Suc.hyps(2) by (simp add: upt_conv_Cons)
  have lo: "lo < fs_cap s" using Suc.hyps(2) Suc.prems by simp
  obtain r s1 where g: "fs_bitmap_get (of_nat lo) s = (r, s1)" by (cases "fs_bitmap_get (of_nat lo) s") auto
  note p = fs_get_same [OF ok lo g]
  note c1 = fs_same_config [OF p(2)]
  have inv1: "fs_inv s1 live" by (rule fs_same_inv [OF ok p(2) inv])
  have used: "fs_bit lo s = covered fs_blocks live s lo" using alloc_inv_used [OF inv Suc.prems(4) lo] .
  obtain bs s2 where rd: "fs_mem_read (fs_addr lo s1) 4 s1 = (bs, s2)" by (cases "fs_mem_read (fs_addr lo s1) 4 s1") auto
  note p2 = fs_read_same [OF c1(10) rd]
  have same2: "fs_same s s2" by (rule fs_same_trans [OF p(2) p2(2)])
  have hdr: "le_word bs = fs_header lo s1" using p2(1) by (simp add: fs_header_def)
  have step: "find_loop [lo..<hi] s =
      (if r then (if fs_header lo s1 \<noteq> 0 then (fs_addr lo s + ALLOC_HEADER, s2) else find_loop [Suc lo..<hi] s2)
       else find_loop [Suc lo..<hi] s1)"
    unfolding upt using g rd hdr c1(6) by (simp add: Let_def fs_addr_def)
  have skip: "\<exists>a s'. find_loop [Suc lo..<hi] t = (a, s') \<and> fs_same s s' \<and> fs_next_spec s live lo a"
    if t: "fs_same s t" and z: "live lo = None \<or> live lo = Some 0" for t
  proof -
    note ct = fs_same_config [OF t]
    have "fs_boundary t live (Suc lo)"
      unfolding fs_boundary_def
    proof (intro allI impI)
      fix k sz
      assume k: "live k = Some sz" "k < Suc lo"
      show "k + fs_blocks sz t \<le> Suc lo"
      proof (cases "k = lo")
        case True
        then have "sz = 0" using k z by auto
        moreover have "fs_blocks 0 s = 1"
          using ok by (simp add: fs_blocks_def ceil_div_def fs_ok_def fs_geom_def div_nat_eqI)
        ultimately show ?thesis using True ct by simp
      next
        case False
        then have "k < lo" using k by simp
        then have "k + fs_blocks sz s \<le> lo" using Suc.prems(5) k(1) unfolding fs_boundary_def by blast
        then show ?thesis using ct by simp
      qed
    qed
    then have "\<exists>a s'. find_loop [Suc lo..<hi] t = (a, s') \<and> fs_same t s' \<and> fs_next_spec t live (Suc lo) a"
      using Suc.hyps(1) [of "Suc lo" t] Suc.hyps(2) Suc.prems fs_same_inv [OF ok t inv] ct by simp
    then obtain a s' where a: "find_loop [Suc lo..<hi] t = (a, s')" "fs_same t s'" "fs_next_spec s live (Suc lo) a"
      using ct by (auto simp: fs_next_spec_def)
    have "fs_next_spec s live lo a" using a(3) by (rule fs_next_spec_widen) (use z in \<open>auto simp: less_Suc_eq_le le_antisym\<close>)
    then show ?thesis using a fs_same_trans [OF t] by auto
  qed
  show ?case
  proof (cases "live lo")
    case None
    have "\<not> covered fs_blocks live s lo"
    proof
      assume "covered fs_blocks live s lo"
      then obtain k sz where k: "live k = Some sz" "k \<le> lo" "lo < k + fs_blocks sz s" by (auto simp: covered_def)
      then have "k < lo" using None by (cases "k = lo") auto
      then have "k + fs_blocks sz s \<le> lo" using Suc.prems(5) k(1) unfolding fs_boundary_def by blast
      then show False using k(3) by simp
    qed
    then show ?thesis unfolding step using p(1) used skip [OF p(2)] None by simp
  next
    case (Some sz)
    have "covered fs_blocks live s lo"
      unfolding covered_def using Some fs_alloc.blocks_pos [OF ok, of sz] by (intro exI [of _ lo] exI [of _ sz]) simp
    then have r: "r" using p(1) used by simp
    have h: "fs_header lo s1 = sz" by (rule alloc_inv_live(3) [OF inv1 Some])
    show ?thesis
    proof (cases "sz = 0")
      case True
      then show ?thesis unfolding step using r h skip [OF same2] Some by simp
    next
      case False
      have "fs_next_spec s live lo (fs_addr lo s + ALLOC_HEADER)"
        unfolding fs_next_spec_def using Some False by (intro disjI2 exI [of _ lo]) simp
      then show ?thesis unfolding step using r h False same2 by simp
    qed
  qed
qed


lemma fs_find_next_props:
  assumes ok: "fs_ok s" and inv: "fs_inv s live"
  shows "\<exists>a s'. fs_find_next FS_NULL s = (a, s') \<and> fs_same s s' \<and> fs_next_spec s live 0 a"
    and "live k = Some sz \<Longrightarrow>
      \<exists>a s'. fs_find_next (fs_addr k s + ALLOC_HEADER) s = (a, s') \<and> fs_same s s' \<and> fs_next_spec s live (Suc k) a"
proof -
  have lo: "fs_lo s \<le> k" if "live k = Some sz" for k sz by (rule fs_alloc.live_in_range(1) [OF ok inv that])
  have "fs_boundary s live (fs_lo s)" unfolding fs_boundary_def using lo by (meson not_le)
  from find_loop_spec [OF ok inv refl order_refl this]
  obtain a s' where a: "find_loop [fs_lo s..<fs_cap s] s = (a, s')" "fs_same s s'" "fs_next_spec s live (fs_lo s) a"
    by auto
  have "live j = None" if "j < fs_lo s" for j using lo [of j] that by (cases "live j") auto
  then have "fs_next_spec s live 0 a" using fs_next_spec_widen [OF a(3), of 0] by simp
  then show "\<exists>a s'. fs_find_next FS_NULL s = (a, s') \<and> fs_same s s' \<and> fs_next_spec s live 0 a"
    using a by (simp add: fs_find_next_def fs_lo_def fs_cap_def)
  assume live: "live k = Some sz"
  note w = fs_live_word [OF ok inv live]
  obtain bs s1 where rd: "fs_mem_read (fs_addr k s) 4 s = (bs, s1)" by (cases "fs_mem_read (fs_addr k s) 4 s") auto
  note p1 = fs_read_same [OF ok rd]
  note c1 = fs_same_config [OF p1(2)]
  have hdr: "le_word bs = sz" using p1(1) alloc_inv_live(3) [OF inv live] by (simp add: fs_header_def)
  let ?e = "k + fs_blocks sz s"
  have "unat ((sz + ALLOC_HEADER + sector_size s1 - 1) div sector_size s1) = fs_blocks sz s"
    using w(5) c1 by (simp add: add.commute)
  then have e: "unat (of_nat k + (sz + ALLOC_HEADER + sector_size s1 - 1) div sector_size s1) = ?e"
    using w(4) alloc_inv_live(2) [OF inv live] unat_u32_less [of "block_count s"]
    by (subst unat_add_u32) (simp_all add: fs_cap_def)
  have inv1: "fs_inv s1 live" by (rule fs_same_inv [OF ok p1(2) inv])
  have gap: "live j = None" if "k < j" "j < ?e" for j
  proof (rule ccontr)
    assume "live j \<noteq> None"
    then obtain sz' where "live j = Some sz'" by auto
    from alloc_inv_disjoint [OF inv live this] that show False by auto
  qed
  have b1: "fs_boundary s1 live ?e"
    unfolding fs_boundary_def
  proof (intro allI impI)
    fix k' sz'
    assume k': "live k' = Some sz'" "k' < ?e"
    then show "k' + fs_blocks sz' s1 \<le> ?e"
      using alloc_inv_disjoint [OF inv live k'(1)] live c1(4) by (cases "k' = k") auto
  qed
  have "fs_lo s1 \<le> ?e" using w(6) c1 by simp
  from find_loop_spec [OF c1(10) inv1 refl this b1]
  obtain a s' where a: "find_loop [?e..<fs_cap s] s1 = (a, s')" "fs_same s1 s'" "fs_next_spec s live ?e a"
    using c1 by (auto simp: fs_next_spec_def)
  have "fs_next_spec s live (Suc k) a"
    using a(3) by (rule fs_next_spec_widen) (use gap fs_alloc.blocks_pos [OF ok, of sz] in auto)
  moreover have "fs_find_next (fs_addr k s + ALLOC_HEADER) s = (a, s')"
    using a(1) e w(1,2,3) rd hdr c1 by (simp add: fs_find_next_def Let_def fs_cap_def)
  ultimately show "\<exists>a s'. fs_find_next (fs_addr k s + ALLOC_HEADER) s = (a, s') \<and> fs_same s s' \<and> fs_next_spec s live (Suc k) a"
    using fs_same_trans [OF p1(2) a(2)] by simp
qed

end
