(* ===== verification/FsFormat.thy ===== *)
theory FsFormat
  imports FsDeviceInv
begin

text \<open>
  Formatting and opening a device: \<open>fs_device_format\<close> leaves a device that \<open>fs_device_open\<close> accepts, with
  an empty allocator. The properties of the device layer are stated at the end, on such a device.
\<close>

section \<open>A fresh context\<close>

definition fresh_ctx :: "fsdev \<Rightarrow> u16 \<Rightarrow> fsdev" where
  "fresh_ctx old dtype = \<lparr> is_open = False, frame_dirty = False, sector_size = 0, pool_size = 0,
     block_count = 0, bitmap_size = 0, reserved_blocks = 0, device_type = dtype, frame_offset = NO_FRAME,
     frame_bitmap = replicate 32 0, sector_frame = NO_FRAME, sector_dirty = False, window = window old,
     drive_of = drive_of old, overrun = overrun old \<rparr>"

definition drive_ok :: "fsdev \<Rightarrow> u16 \<Rightarrow> bool" where
  "drive_ok old dtype \<longleftrightarrow>
     length (window old) = 512 \<and> (\<forall>t. length (sectors (drive_of old) t) = 512) \<and> no_faults old
     \<and> (dtype = FS_DEVICE_TYPE_ATA \<or> dtype = FS_DEVICE_TYPE_AHCI) \<and> \<not> overrun old"

lemma fresh_ctx_ok:
  assumes "drive_ok old dtype"
  shows "cache_coherent (fresh_ctx old dtype)" "disk_type (fresh_ctx old dtype)" "no_faults (fresh_ctx old dtype)"
    "dev_view (fresh_ctx old dtype) = disk_view old"
  using assms sector_of_less
  by (simp_all add: drive_ok_def fresh_ctx_def cache_coherent_def disk_type_def no_faults_def dev_view_def disk_view_def)

lemma fs_device_open_props:
  assumes "drive_ok old dtype"
  obtains part c where "fs_device_open old dtype = (part, c)" "part = bytes_partition (mem_read (disk_view old) DEVICE_HEADER 32)"
    "cache_coherent c" "disk_type c" "no_faults c" "dev_view c = disk_view old" "\<not> sector_dirty c" "device_type c = dtype"
    "\<not> overrun c" "frame_offset c = NO_FRAME" "\<not> frame_dirty c" "length (frame_bitmap c) = 32"
    "p_magic part = FS_MAGIC \<Longrightarrow> is_open c \<and> sector_size c = p_sector_size part \<and> pool_size c = p_total_size part
       \<and> block_count c = p_total_size part div p_sector_size part
       \<and> bitmap_size c = (p_total_size part div p_sector_size part + 7) div 8
       \<and> reserved_blocks c = (DEVICE_HEADER + 32 + (p_total_size part div p_sector_size part + 7) div 8 + p_sector_size part - 1)
           div p_sector_size part"
    "p_magic part \<noteq> FS_MAGIC \<Longrightarrow> \<not> is_open c \<and> sector_size c = 0"
proof -
  note f = fresh_ctx_ok [OF assms]
  obtain bs c0 where rd: "fs_mem_read DEVICE_HEADER 32 (fresh_ctx old dtype) = (bs, c0)"
    by (cases "fs_mem_read DEVICE_HEADER 32 (fresh_ctx old dtype)") auto
  note m = fs_mem_read_props [OF f(1,2,3) rd]
  have clean: "\<not> sector_dirty c0"
    using fs_mem_read_clean [of "fresh_ctx old dtype" DEVICE_HEADER 32] rd by (simp add: fresh_ctx_def)
  have rr: "ctx_rest c0 = ctx_rest (fresh_ctx old dtype)" using m by simp
  note k = ctx_restD [OF rr]
  have kk: "device_type c0 = dtype" "\<not> overrun c0" "frame_offset c0 = NO_FRAME" "\<not> frame_dirty c0"
    "length (frame_bitmap c0) = 32" "\<not> is_open c0" "sector_size c0 = 0"
    using k assms by (simp_all add: fresh_ctx_def drive_ok_def)
  have mm: "cache_coherent c0" "disk_type c0" "no_faults c0" "dev_view c0 = disk_view old"
    "bs = mem_read (disk_view old) DEVICE_HEADER 32"
    using m f(2-4) ctx_restD(11,12) [OF rr] by simp_all
  let ?part = "bytes_partition bs"
  show thesis
  proof (cases "p_magic ?part = FS_MAGIC")
    case False
    then have "fs_device_open old dtype = (?part, c0)"
      using rd by (simp add: fs_device_open_def fs_device_get_partition_def fresh_ctx_def Let_def)
    then show ?thesis
      by (rule that) (use mm kk clean False in simp_all)
  next
    case True
    let ?count = "p_total_size ?part div p_sector_size ?part"
    let ?bsize = "(?count + 7) div 8"
    let ?c = "c0\<lparr>is_open := True, sector_size := p_sector_size ?part, pool_size := p_total_size ?part,
                 block_count := ?count, bitmap_size := ?bsize,
                 reserved_blocks := (DEVICE_HEADER + 32 + ?bsize + p_sector_size ?part - 1) div p_sector_size ?part,
                 frame_dirty := False, sector_dirty := False\<rparr>"
    have v: "dev_view ?c = dev_view c0" by (simp add: dev_view_def cong: if_cong)
    have co: "cache_coherent ?c" "disk_type ?c" "no_faults ?c"
      using mm clean by (simp_all add: cache_coherent_def disk_type_def no_faults_def)
    have "fs_device_open old dtype = (?part, ?c)"
      using rd True by (simp add: fs_device_open_def fs_device_get_partition_def fresh_ctx_def Let_def)
    then show ?thesis
      by (rule that) (use mm kk True co v in simp_all)
  qed
qed

text \<open>Opening a device whose metadata fits gives an intact context.\<close>

definition fmt_ok :: "u32 \<Rightarrow> u32 \<Rightarrow> bool" where
  "fmt_ok capacity ssize \<longleftrightarrow>
     64 \<le> unat ssize \<and> unat ssize \<le> 65536 \<and> unat capacity < 4294901760
     \<and> ceil_div (48 + (unat capacity div unat ssize + 7) div 8) (unat ssize) \<le> unat capacity div unat ssize"

lemma fmt_words:
  assumes "fmt_ok capacity ssize"
  defines "c \<equiv> unat capacity div unat ssize"
  shows "unat (capacity div ssize) = c" "unat ((capacity div ssize + 7) div 8) = (c + 7) div 8"
    "unat ((DEVICE_HEADER + 32 + (capacity div ssize + 7) div 8 + ssize - 1) div ssize)
       = ceil_div (48 + (c + 7) div 8) (unat ssize)"
    "c * unat ssize \<le> unat capacity" "c < 67108864"
proof -
  have s: "64 \<le> unat ssize" "unat ssize \<le> 65536" "unat capacity < 4294901760"
    using assms(1) by (simp_all add: fmt_ok_def)
  show c: "unat (capacity div ssize) = c" unfolding c_def by (rule unat_div_distrib)
  have "c \<le> unat capacity div 64" unfolding c_def using s(1) by (intro div_le_mono2) simp_all
  then show c2: "c < 67108864" using s(3) by simp
  show "c * unat ssize \<le> unat capacity" unfolding c_def by simp
  have "unat (capacity div ssize + 7) = c + 7" using c c2 by (subst unat_add_u32) simp_all
  then show b: "unat ((capacity div ssize + 7) div 8) = (c + 7) div 8" by (simp add: unat_div_distrib)
  have m: "unat (DEVICE_HEADER + 32 + (capacity div ssize + 7) div 8) = 48 + (c + 7) div 8"
    using b c2 by (subst unat_add_u32) (simp_all add: DEVICE_HEADER_def)
  have m2: "unat (DEVICE_HEADER + 32 + (capacity div ssize + 7) div 8 + ssize) = 48 + (c + 7) div 8 + unat ssize"
    using m c2 s by (subst unat_add_u32) simp_all
  then have "DEVICE_HEADER + 32 + (capacity div ssize + 7) div 8 + ssize \<noteq> 0"
    using s(1) by (metis add_is_0 not_numeral_le_zero unat_0)
  then have "unat (DEVICE_HEADER + 32 + (capacity div ssize + 7) div 8 + ssize - 1) = 48 + (c + 7) div 8 + (unat ssize - 1)"
    using m2 s(1) by (subst unat_minus_one_u32) linarith+
  then show "unat ((DEVICE_HEADER + 32 + (capacity div ssize + 7) div 8 + ssize - 1) div ssize)
       = ceil_div (48 + (c + 7) div 8) (unat ssize)"
    by (simp add: unat_div_distrib ceil_div_def)
qed

lemma open_formatted:
  assumes old: "drive_ok old dtype" and fmt: "fmt_ok capacity ssize"
    and part: "bytes_partition (mem_read (disk_view old) DEVICE_HEADER 32) = part" "p_magic part = FS_MAGIC"
      "p_total_size part = capacity" "p_sector_size part = ssize"
  obtains c where "fs_device_open old dtype = (part, c)" "fs_ok c" "dev_view c = disk_view old" "is_open c"
    "fs_cap c = unat capacity div unat ssize" "frame_offset c = NO_FRAME"
    "bm_len c = (unat capacity div unat ssize + 7) div 8" "fs_sector c = unat ssize" "pool_size c = capacity"
    "fs_lo c = ceil_div (48 + (unat capacity div unat ssize + 7) div 8) (unat ssize)"
proof (rule fs_device_open_props [OF old])
  fix part' c
  assume o: "fs_device_open old dtype = (part', c)" "part' = bytes_partition (mem_read (disk_view old) DEVICE_HEADER 32)"
    and co: "cache_coherent c" "disk_type c" "no_faults c" and v: "dev_view c = disk_view old"
    and fr: "\<not> overrun c" "frame_offset c = NO_FRAME" "\<not> frame_dirty c" "length (frame_bitmap c) = 32"
    and cfg: "p_magic part' = FS_MAGIC \<Longrightarrow> is_open c \<and> sector_size c = p_sector_size part' \<and> pool_size c = p_total_size part'
       \<and> block_count c = p_total_size part' div p_sector_size part'
       \<and> bitmap_size c = (p_total_size part' div p_sector_size part' + 7) div 8
       \<and> reserved_blocks c = (DEVICE_HEADER + 32 + (p_total_size part' div p_sector_size part' + 7) div 8 + p_sector_size part' - 1)
           div p_sector_size part'"
  have p: "part' = part" using o(2) part(1) by simp
  note cf = cfg [unfolded p part(3,4), OF part(2)]
  note w = fmt_words [OF fmt]
  let ?c = "unat capacity div unat ssize"
  have n: "fs_cap c = ?c" "bm_len c = (?c + 7) div 8" "fs_sector c = unat ssize"
    "fs_lo c = ceil_div (48 + (?c + 7) div 8) (unat ssize)"
    using cf w by (simp_all add: fs_cap_def bm_len_def fs_sector_def fs_lo_def)
  have "bm_ok c"
    unfolding bm_ok_def frame_ok_def
  proof (intro conjI impI allI)
    show "bm_len c \<le> 536870912" using n w(5) by simp
    show "unat (block_count c) \<le> 8 * bm_len c" using n by (simp add: fs_cap_def)
    fix b
    assume b: "b < bm_len c"
    have "frame_offset c \<noteq> of_nat (window_of b)"
    proof -
      have "b \<le> 536870912" using b n w(5) by linarith
      from window_word_less [OF this] fr(2) show ?thesis by simp
    qed
    then show "bm_byte c b = dev_view c (fs_bitmap_address + of_nat b)" by (simp add: bm_byte_def)
  qed (use co fr in simp_all)
  moreover have "?c * unat ssize + unat ssize < 4294967296"
    using w(4) fmt unfolding fmt_ok_def by linarith
  ultimately have "bm_ok c" "?c * unat ssize + unat ssize < 4294967296" by simp_all
  moreover from this have "fs_geom c"
    unfolding fs_geom_def n
    using fmt ceil_div_ge [of "unat ssize" "48 + (?c + 7) div 8"] by (auto simp: fmt_ok_def)
  ultimately have "fs_ok c" by (simp add: fs_ok_def)
  then show thesis using o(1) v cf n fr(2) unfolding p by (intro that) simp_all
qed


section \<open>Formatting\<close>

lemma drive_ok_of:
  assumes "cache_coherent s" "no_faults s" "disk_type s" "\<not> overrun s"
  shows "drive_ok s (device_type s)"
  using assms by (auto simp: drive_ok_def cache_coherent_def disk_type_def)

lemma writeb_range:
  assumes "cache_coherent s" "disk_type s" "no_faults s"
  shows "fold (\<lambda>i. fs_writeb (a + of_nat i) 0) [0..<n] s = fs_mem_write a (replicate n 0) s"
proof -
  have "fold (\<lambda>i. fs_writeb (a + of_nat i) 0) [m..<m + n] s = fs_mem_write (a + of_nat m) (replicate n 0) s" for m s
  proof (induction n arbitrary: m s)
    case 0
    then show ?case by simp
  next
    case (Suc n)
    have "[m..<m + Suc n] = m # [Suc m..<Suc m + n]" by (simp add: upt_conv_Cons)
    then show ?case using Suc [of "Suc m" "fs_writeb (a + of_nat m) 0 s"] by (simp add: add.assoc add.commute [of 1])
  qed
  from this [of 0 s] show ?thesis by simp
qed

lemma mem_read_write_prefix:
  assumes "unat a + length bs \<le> 4294967296" "unat b + n \<le> 4294967296" "unat b + n \<le> unat a \<or> unat a + length bs \<le> unat b"
  shows "mem_read (mem_write m a bs) b n = mem_read m b n"
  using assms by (intro mem_read_write_other) auto

lemma fs_device_open_type:
  assumes "drive_ok old dtype" "fs_device_open old dtype = (part, c)"
  shows "device_type c = dtype"
proof (rule fs_device_open_props [OF assms(1)])
  fix part' c'
  assume "fs_device_open old dtype = (part', c')" "device_type c' = dtype"
  then show ?thesis using assms(2) by simp
qed

lemma format_props:
  assumes old: "drive_ok old dtype" and fmt: "fmt_ok capacity ssize"
  defines "s \<equiv> fs_device_format old capacity ssize dtype"
  shows "fs_ok s" "fs_inv s Map.empty" "fs_cap s = unat capacity div unat ssize" "disk_view s = dev_view s"
    "fs_lo s = ceil_div (48 + (unat capacity div unat ssize + 7) div 8) (unat ssize)"
    "fs_sector s = unat ssize" "i < fs_lo s \<Longrightarrow> fs_bit i s" "pool_size s = capacity"
    "device_type s = dtype" "no_faults s"
    "\<And>b. b < bm_len s \<Longrightarrow> disk_view s (fs_bitmap_address + of_nat b) = bm_byte s b"
    "\<exists>part. bytes_partition (mem_read (disk_view s) DEVICE_HEADER 32) = part \<and> p_magic part = FS_MAGIC
       \<and> p_total_size part = capacity \<and> p_sector_size part = ssize \<and> p_root part = 0"
proof -
  let ?c = "unat capacity div unat ssize"
  let ?m = "(?c + 7) div 8" and ?r = "ceil_div (48 + (?c + 7) div 8) (unat ssize)"
  note w = fmt_words [OF fmt]
  have m: "?m < 67108864" using w(5) by simp
  obtain part0 c0 where o: "fs_device_open old dtype = (part0, c0)" "cache_coherent c0" "disk_type c0" "no_faults c0"
    "\<not> overrun c0" "device_type c0 = dtype"
    by (rule fs_device_open_props [OF old])
  define devH where "devH = \<lparr> dh_id = 0x13, dh_name = [102, 115] @ replicate 8 (0 :: u8), dh_pad = replicate 5 0 \<rparr>"
  define partH where "partH = \<lparr> p_total_size = capacity, p_sector_size = ssize, p_root = 0,
      p_name = [115, 116, 111, 114, 97, 103, 101] @ replicate 9 (0 :: u8),
      p_flags = 0, p_type = 0, p_reserved = 0, p_magic = FS_MAGIC \<rparr>"
  define c1 where "c1 = fs_mem_write 0 (device_header_bytes devH) c0"
  define c2 where "c2 = fs_mem_write DEVICE_HEADER (partition_bytes partH) c1"
  define c3 where "c3 = fs_mem_write (DEVICE_HEADER + 32) (replicate ?m 0) c2"
  define c4 where "c4 = fs_cache_sync c3"
  have p1: "cache_coherent c1" "ctx_rest c1 = ctx_rest c0"
    using fs_mem_write_props [OF o(2,3,4)] by (simp_all add: c1_def)
  note k1 = ctx_restD [OF p1(2)]
  have f1: "disk_type c1" "no_faults c1" using k1 o by simp_all
  have p2: "cache_coherent c2" "ctx_rest c2 = ctx_rest c1"
    "dev_view c2 = mem_write (dev_view c1) DEVICE_HEADER (partition_bytes partH)"
    using fs_mem_write_props [OF p1(1) f1] by (simp_all add: c2_def)
  note k2 = ctx_restD [OF p2(2)]
  have f2: "disk_type c2" "no_faults c2" using k2 f1 by simp_all
  have p3: "cache_coherent c3" "ctx_rest c3 = ctx_rest c2"
    "dev_view c3 = mem_write (dev_view c2) (DEVICE_HEADER + 32) (replicate ?m 0)"
    using fs_mem_write_props [OF p2(1) f2] by (simp_all add: c3_def)
  note k3 = ctx_restD [OF p3(2)]
  have f3: "disk_type c3" "no_faults c3" using k3 f2 by simp_all
  note p4 = sync_props [OF p3(1) f3, folded c4_def]
  note k4 = ctx_restD [OF p4(2)]
  have dt4: "device_type c4 = dtype" "\<not> overrun c4" "no_faults c4" "disk_type c4"
    using k4 k3 k2 k1 o f3 by simp_all
  have d4: "drive_ok c4 dtype" using drive_ok_of [OF p4(1)] dt4 by simp
  have lp: "length (partition_bytes partH) = 32" by (simp add: partition_bytes_def partH_def)
  have "mem_read (disk_view c4) DEVICE_HEADER 32 = partition_bytes partH"
  proof -
    have "mem_read (disk_view c4) DEVICE_HEADER 32 = mem_read (dev_view c2) DEVICE_HEADER 32"
      unfolding p4(4) p3(3) using m by (intro mem_read_write_prefix) (simp_all add: DEVICE_HEADER_def)
    then show ?thesis
      using mem_read_write_same [of "partition_bytes partH" "dev_view c1" DEVICE_HEADER] lp by (simp add: p2(3))
  qed
  then have part: "bytes_partition (mem_read (disk_view c4) DEVICE_HEADER 32) = partH"
    by (simp add: bytes_partition_bytes partH_def)
  have pf: "p_magic partH = FS_MAGIC" "p_total_size partH = capacity" "p_sector_size partH = ssize" "p_root partH = 0"
    by (simp_all add: partH_def)
  obtain c5 where c5: "fs_device_open c4 dtype = (partH, c5)" "fs_ok c5" "dev_view c5 = disk_view c4" "is_open c5"
    "fs_cap c5 = ?c" "frame_offset c5 = NO_FRAME" "bm_len c5 = ?m" "fs_sector c5 = unat ssize" "pool_size c5 = capacity"
    "fs_lo c5 = ?r"
    by (rule open_formatted [OF d4 fmt part pf(1-3)])
  have bits5: "\<not> fs_bit i c5" if i: "i < fs_cap c5" for i
  proof -
    have b: "i div 8 < ?m" using i c5(5) by simp
    have "frame_offset c5 \<noteq> of_nat (window_of (i div 8))"
    proof -
      have "i div 8 \<le> 536870912" using b m by linarith
      from window_word_less [OF this] c5(6) show ?thesis by simp
    qed
    then have "bm_byte c5 (i div 8) = disk_view c4 (fs_bitmap_address + of_nat (i div 8))"
      using c5(3) by (simp add: bm_byte_def)
    also have "\<dots> = 0"
    proof -
      have in1: "in_range (DEVICE_HEADER + 32) ?m (fs_bitmap_address + of_nat (i div 8))"
        using bm_in_range [of ?m "i div 8" 0] b m by (simp add: fs_bitmap_address_def DEVICE_HEADER_def)
      then have "unat (fs_bitmap_address + of_nat (i div 8) - (DEVICE_HEADER + 32)) < ?m" by (simp add: in_range_def)
      with in1 m show ?thesis unfolding p4(4) p3(3) by (subst mem_write_apply) simp_all
    qed
    finally show ?thesis by (simp add: fs_bit_def)
  qed
  have le: "0 + ?r \<le> fs_cap c5" using c5(2,5,10) by (simp add: fs_ok_def fs_geom_def)
  note sr = fs_alloc.set_range [OF c5(2) le]
  let ?c6 = "apply_range (\<lambda>i. fs_bitmap_set (of_nat i)) 0 ?r c5"
  have ok6: "fs_ok ?c6" using sr by simp
  have rest6: "fs_rest ?c6 = fs_rest c5" using sr by simp
  note q6 = fs_config_rest [OF rest6]
  note same7 = fs_flush_same [OF ok6]
  note q7 = fs_same_config [OF same7]
  let ?c7 = "fs_bitmap_flush ?c6"
  have cs7: "cache_coherent ?c7" "disk_type ?c7" "no_faults ?c7" "bm_ok ?c7" using q7(10) by (simp_all add: fs_ok_def bm_ok_def)
  note p8 = sync_props [OF cs7(1,2,3)]
  let ?c8 = "fs_cache_sync ?c7"
  have fold_c3: "fold (\<lambda>i. fs_writeb (DEVICE_HEADER + 32 + of_nat i) 0) [0..<?m] c2 = c3"
    unfolding c3_def by (rule writeb_range [OF p2(1) f2])
  have fold6: "fold (\<lambda>i. fs_bitmap_set (of_nat i)) [0..<?r] c5 = ?c6"
    by (simp add: apply_range_def)
  have "fs_device_format old capacity ssize dtype = ?c8"
    unfolding fs_device_format_def Let_def
    by (simp only: o(1) split_conv w(2,3) devH_def [symmetric] partH_def [symmetric] c1_def [symmetric]
        c2_def [symmetric] fold_c3 c4_def [symmetric] c5(1) fold6)
  then have s: "s = ?c8" by (simp add: s_def)
  note k8 = ctx_restD [OF p8(2)]
  note q8 = fs_config_ctx [OF p8(2)]
  have b8: "bm_byte ?c8 = bm_byte ?c7" using k8 p8(3) by (simp add: bm_byte_def fun_eq_iff)
  have ok8: "bm_ok ?c8"
    using cs7(4) k8 q8(7) p8(1,3) b8 by (simp add: bm_ok_def frame_ok_def)
  have rest8: "fs_rest ?c8 = fs_rest c5"
    using fs_rest_cong [OF p8(2)] p8(3) same7 rest6 by (simp add: fs_same_def)
  note qs = fs_config_rest [OF rest8, folded s]
  show ok: "fs_ok s" unfolding s by (rule fs_ok_rest [OF c5(2) ok8 rest8])
  have bits: "fs_bit i s = (i < ?r)" if i: "i < fs_cap c5" for i
  proof -
    have "fs_bit i s = fs_bit i ?c7" by (simp add: s fs_bit_def b8)
    also have "\<dots> = fs_bit i ?c6" using same7 i q6 by (simp add: fs_same_def)
    also have "\<dots> = (i < ?r)" using sr i bits5 [OF i] by simp
    finally show ?thesis .
  qed
  show "fs_cap s = ?c" "fs_lo s = ?r" "fs_sector s = unat ssize" using qs c5 by simp_all
  show "disk_view s = dev_view s" using p8 by (simp add: s)
  show "i < fs_lo s \<Longrightarrow> fs_bit i s" using bits [of i] qs c5(10) le by simp
  show "pool_size s = capacity" using fs_restD(3) [OF rest8] c5(9) by (simp add: s)
  have "mem_read (disk_view s) DEVICE_HEADER 32 = mem_read (disk_view c4) DEVICE_HEADER 32"
  proof (rule mem_read_eqI)
    fix i :: nat
    assume i: "i < 32"
    have "\<not> in_range fs_bitmap_address (bm_len c5) (DEVICE_HEADER + of_nat i)"
    proof (rule not_in_range_I)
      have "unat (DEVICE_HEADER + of_nat i) = 16 + i"
        using i by (subst unat_add_u32) (simp_all add: DEVICE_HEADER_def unat_of_nat_u32)
      then show "unat (DEVICE_HEADER + of_nat i) < unat fs_bitmap_address \<or>
          unat fs_bitmap_address + bm_len c5 \<le> unat (DEVICE_HEADER + of_nat i)"
        using i by (simp add: fs_bitmap_address_def)
      show "unat fs_bitmap_address + bm_len c5 \<le> 4294967296"
        using m c5(7) by (simp add: fs_bitmap_address_def)
    qed
    from fs_rest_view [OF rest8 this]
    show "disk_view s (DEVICE_HEADER + of_nat i) = disk_view c4 (DEVICE_HEADER + of_nat i)"
      using p8(3,4) c5(3) by (simp add: s)
  qed
  then show "\<exists>part. bytes_partition (mem_read (disk_view s) DEVICE_HEADER 32) = part \<and> p_magic part = FS_MAGIC
       \<and> p_total_size part = capacity \<and> p_sector_size part = ssize \<and> p_root part = 0"
    using part pf by simp
  show "device_type s = dtype" using fs_restD(7) [OF rest8] fs_device_open_type [OF d4 c5(1)] by (simp add: s)
  show "no_faults s" using ok by (simp add: fs_ok_def bm_ok_def)
  have bm6: "bm_ok ?c6" using ok6 by (simp add: fs_ok_def)
  have l6: "bm_len ?c8 = bm_len ?c6" using fs_restD(8) [OF rest6] fs_restD(8) [OF rest8] by simp
  show "disk_view s (fs_bitmap_address + of_nat b) = bm_byte s b" if "b < bm_len s" for b
    using that bitmap_flush_props(5,6) [OF bm6, of b] p8(4) b8 l6 by (simp add: s)
  show "fs_inv s Map.empty"
    using bits qs c5(10) by (auto simp: alloc_inv_def covered_def)
qed


section \<open>Properties of the device layer\<close>

definition small_dev :: fsdev where
  "small_dev = fs_device_format blank_dev 8192 512 FS_DEVICE_TYPE_ATA"

lemma blank_drive_ok: "drive_ok blank_dev FS_DEVICE_TYPE_ATA"
  by (simp add: drive_ok_def blank_dev_def no_faults_def)

lemma small_fmt: "fmt_ok 8192 512"
  by (simp add: fmt_ok_def ceil_div_def)

lemma small_dev_props:
  "fs_ok small_dev" "fs_inv small_dev Map.empty" "fs_cap small_dev = 16" "fs_lo small_dev = 1" "fs_sector small_dev = 512"
  using format_props [OF blank_drive_ok small_fmt] by (simp_all add: small_dev_def ceil_div_def)

lemma small_partition:
  "p_magic (bytes_partition (mem_read (dev_view small_dev) 16 32)) = FS_MAGIC"
  "p_root (bytes_partition (mem_read (dev_view small_dev) 16 32)) = 0"
  using format_props(4,12) [OF blank_drive_ok small_fmt] by (simp_all add: small_dev_def DEVICE_HEADER_def)

lemma small_free: "1 \<le> i \<Longrightarrow> i < 16 \<Longrightarrow> \<not> fs_bit i small_dev"
  using alloc_inv_used [OF small_dev_props(2), of i] small_dev_props by (simp add: covered_def)

lemma small_alloc:
  obtains k s where "fs_alloc 100 small_dev = (fs_addr k small_dev + ALLOC_HEADER, s)" "fs_ok s" "fs_inv s [k \<mapsto> 100]"
proof (rule fs_alloc_cases [OF small_dev_props(1,2), of 100])
  show "unat (100 :: u32) + 4 + fs_sector small_dev < 4294967296" using small_dev_props by simp
next
  assume "\<And>k. fs_lo small_dev \<le> k \<Longrightarrow> k + fs_blocks 100 small_dev \<le> fs_cap small_dev \<Longrightarrow>
    \<not> free_run (\<lambda>i. fs_bit i small_dev) k (fs_blocks 100 small_dev)"
  moreover have "fs_blocks 100 small_dev = 1" using small_dev_props by (simp add: fs_blocks_def ceil_div_def)
  ultimately have "\<not> free_run (\<lambda>i. fs_bit i small_dev) 1 1" using small_dev_props by force
  then show thesis using small_free by simp
next
  fix k s
  assume "fs_alloc 100 small_dev = (fs_addr k small_dev + ALLOC_HEADER, s)" "fs_ok s" "fs_inv s (Map.empty(k \<mapsto> 100))"
  then show thesis by (rule that)
qed

text \<open>
  the 32-byte frame is invisible: on an intact device \<open>fs_bitmap_get\<close> returns the logical bit and
  changes nothing, \<open>fs_bitmap_set\<close> and \<open>fs_bitmap_clear\<close> change exactly that bit, in whatever order the
  accesses move the frame, and no access leaves the frame buffer.
\<close>

theorem bitmap_frame_transparent:
  assumes "bm_ok s" "i < fs_cap s"
  shows "fst (fs_bitmap_get (of_nat i) s) = fs_bit i s
       \<and> (\<forall>j < fs_cap s. fs_bit j (snd (fs_bitmap_get (of_nat i) s)) = fs_bit j s)
       \<and> (\<forall>j < fs_cap s. fs_bit j (fs_bitmap_set (of_nat i) s) = (j = i \<or> fs_bit j s))
       \<and> (\<forall>j < fs_cap s. fs_bit j (fs_bitmap_clear (of_nat i) s) = (j \<noteq> i \<and> fs_bit j s))
       \<and> bm_ok (snd (fs_bitmap_get (of_nat i) s)) \<and> bm_ok (fs_bitmap_set (of_nat i) s) \<and> bm_ok (fs_bitmap_clear (of_nat i) s)
       \<and> fs_rest (fs_bitmap_set (of_nat i) s) = fs_rest s \<and> fs_rest (fs_bitmap_clear (of_nat i) s) = fs_rest s"
proof -
  have i: "i < unat (block_count s)" using assms(2) by (simp add: fs_cap_def)
  obtain r s1 where g: "fs_bitmap_get (of_nat i) s = (r, s1)" by (cases "fs_bitmap_get (of_nat i) s") auto
  show ?thesis
    using bitmap_get_props [OF assms(1) i g] g fs_bits.used_set [OF assms] fs_bits.used_clear [OF assms]
      fs_bits.inv_set [OF assms] fs_bits.inv_clear [OF assms] fs_bits.rest_set [OF assms] fs_bits.rest_clear [OF assms]
    by (simp add: fs_cap_def)
qed

theorem bitmap_frame_transparent_witness:
  "fs_bit 9 (fs_bitmap_set (of_nat 9) small_dev) \<and> \<not> fs_bit 10 (fs_bitmap_set (of_nat 9) small_dev)"
proof -
  have "bm_ok small_dev" "(9 :: nat) < fs_cap small_dev" using small_dev_props by (simp_all add: fs_ok_def)
  from bitmap_frame_transparent [OF this] show ?thesis using small_free [of 10] small_dev_props by simp
qed





text \<open>
  \<open>fs_free\<close> of a live allocation removes exactly it: its blocks are free, its size field is zero, the
  invariant holds for the others, and no byte changes outside the bitmap and its header. In particular
  freeing what \<open>fs_alloc\<close> returned gives back the bits and the invariant of before.
\<close>

theorem fs_free_correct:
  assumes "fs_ok s" "fs_inv s live" "live k = Some sz"
  shows "fs_ok (fs_free (fs_addr k s + ALLOC_HEADER) s)
       \<and> fs_inv (fs_free (fs_addr k s + ALLOC_HEADER) s) (live(k := None))
       \<and> fs_header k (fs_free (fs_addr k s + ALLOC_HEADER) s) = 0
       \<and> (\<forall>j < fs_cap s. fs_bit j (fs_free (fs_addr k s + ALLOC_HEADER) s)
            = (\<not> (k \<le> j \<and> j < k + fs_blocks sz s) \<and> fs_bit j s))
       \<and> (\<forall>a. \<not> in_range fs_bitmap_address (bm_len s) a \<longrightarrow> \<not> in_range (fs_addr k s) 4 a \<longrightarrow>
            dev_view (fs_free (fs_addr k s + ALLOC_HEADER) s) a = dev_view s a)"
  using fs_free_live [OF assms] by simp

theorem fs_free_correct_witness:
  "\<exists>k s. fs_inv s [k \<mapsto> 100] \<and> fs_header k (fs_free (fs_addr k s + ALLOC_HEADER) s) = 0"
proof -
  obtain k s where "fs_ok s" "fs_inv s [k \<mapsto> 100]" by (rule small_alloc)
  then show ?thesis using fs_free_correct [of s "[k \<mapsto> 100]" k 100] by auto
qed

text \<open>
  \<open>fs_find_next\<close> enumerates the allocations of non-zero size in address order, from \<open>FS_NULL\<close> and from
  each of them, skipping none, and changes nothing.
\<close>

theorem fs_find_next_enumerates:
  assumes "fs_ok s" "fs_inv s live"
  shows "fs_next_spec s live 0 (fst (fs_find_next FS_NULL s)) \<and> fs_same s (snd (fs_find_next FS_NULL s))
       \<and> (\<forall>k sz. live k = Some sz \<longrightarrow>
            fs_next_spec s live (Suc k) (fst (fs_find_next (fs_addr k s + ALLOC_HEADER) s))
            \<and> fs_same s (snd (fs_find_next (fs_addr k s + ALLOC_HEADER) s)))"
  using fs_find_next_props(1) [OF assms] fs_find_next_props(2) [OF assms] by fastforce

theorem fs_find_next_enumerates_witness:
  "fs_next_spec small_dev Map.empty 0 (fst (fs_find_next FS_NULL small_dev))"
  using fs_find_next_enumerates [OF small_dev_props(1,2)] by simp


text \<open>
  \<open>fs_device_sync\<close> makes everything durable: on a working drive that commits its own cache it returns
  true, and afterwards the disk itself holds every bitmap byte and every other byte as the running
  system saw them.
\<close>

theorem fs_device_sync_durable:
  assumes "bm_ok s" "ahci_flush_ok (drive_of s)"
  shows "fst (fs_device_sync s)
       \<and> (\<forall>b < bm_len s. disk_view (snd (fs_device_sync s)) (fs_bitmap_address + of_nat b) = bm_byte s b)
       \<and> (\<forall>a. \<not> in_range fs_bitmap_address (bm_len s) a \<longrightarrow> disk_view (snd (fs_device_sync s)) a = dev_view s a)"
proof -
  let ?f = "fs_bitmap_flush s" and ?c = "fs_cache_sync (fs_bitmap_flush s)"
  note f = bitmap_flush_props [OF assms(1)]
  have cs: "cache_coherent ?f" "disk_type ?f" "no_faults ?f" using f(1) by (simp_all add: bm_ok_def)
  note p = sync_props [OF cs]
  note k = ctx_restD [OF p(2)]
  have fl: "ahci_flush_ok (drive_of ?c)"
  proof -
    have "ctx_rest (fs_mem_write a bs s) = ctx_rest s" for a bs
      using fs_mem_write_props [of s a bs] assms(1) by (simp add: bm_ok_def)
    then have "drive_of (ctx_rest (fs_mem_write a bs s)) = drive_of (ctx_rest s)" for a bs by simp
    then have "ahci_flush_ok (drive_of (fs_mem_write a bs s)) = ahci_flush_ok (drive_of s)" for a bs
      by (simp add: ctx_rest_def) (metis drive.select_convs(5) drive.update_convs(1) drive.surjective)
    then have "ahci_flush_ok (drive_of ?f)" using assms(2) by (simp add: fs_bitmap_flush_def Let_def)
    then show ?thesis
      by (auto simp: fs_cache_sync_def sync_write_def drive_write_def split: option.splits)
  qed
  have port: "ahci_port (drive_of ?c)" using cs(3) k(11) by (simp add: no_faults_def)
  have "fs_cache_flush ?f = (True, ?c)"
    using p(5) fl port by (simp add: fs_cache_flush_def Let_def)
  moreover have "\<not> frame_dirty ?c" using f(2) k(2) by simp
  ultimately have sync: "fs_device_sync s = (True, ?c)" using p(5) by (simp add: fs_device_sync_def)
  show ?thesis unfolding sync using f(6) fs_rest_view [OF f(3)] p(4) by simp
qed

theorem fs_device_sync_durable_witness:
  "fst (fs_device_sync blank_dev)"
proof -
  have "bm_ok blank_dev" using blank_dev_ok by (simp add: bm_ok_def frame_ok_def bm_len_def) (simp add: blank_dev_def)
  moreover have "ahci_flush_ok (drive_of blank_dev)" by (simp add: blank_dev_def)
  ultimately show ?thesis using fs_device_sync_durable by blast
qed

text \<open>
  the block count of \<open>fs_alloc\<close> wraps for sizes just below \<open>2 ^ 32\<close>: the request is granted the first
  free block with no block marked, so the same block is handed out again by the next call.
\<close>

theorem fs_alloc_size_wraps:
  assumes "fs_ok s" "4294967296 < unat sz + 4 + fs_sector s" "unat sz \<le> 4294967292"
    and "fs_lo s < fs_cap s" "\<not> fs_bit (fs_lo s) s"
  shows "fst (fs_alloc sz s) = fs_addr (fs_lo s) s + ALLOC_HEADER
       \<and> \<not> fs_bit (fs_lo s) (snd (fs_alloc sz s))"
proof -
  let ?lo = "fs_lo s"
  have ss: "4 \<le> fs_sector s" "fs_sector s < 4294967296" using assms(1) by (simp_all add: fs_ok_def fs_geom_def)
  have need: "unat ((ALLOC_HEADER + sz + sector_size s - 1) div sector_size s) = 0"
  proof (cases "unat sz = 4294967292")
    case True
    then have "ALLOC_HEADER + sz = 0"
      by (simp add: word_unat_eq_iff ALLOC_HEADER_def unat_plus_if')
    moreover have "unat (sector_size s - 1) < fs_sector s"
    proof -
      have "sector_size s \<noteq> 0" using ss(1) by (auto simp: fs_sector_def)
      then show ?thesis using ss(1) by (simp add: unat_minus_one_u32 fs_sector_def)
    qed
    ultimately show ?thesis by (simp add: unat_div_distrib fs_sector_def)
  next
    case False
    then have a: "unat (ALLOC_HEADER + sz) = 4 + unat sz"
      using assms(3) by (subst unat_add_u32) (simp_all add: ALLOC_HEADER_def)
    have "unat (ALLOC_HEADER + sz + sector_size s) = 4 + unat sz + fs_sector s - 4294967296"
      using assms(2) a ss False assms(3) unat_plus_if' [of "ALLOC_HEADER + sz" "sector_size s"]
      by (simp add: fs_sector_def)
    moreover from this have "ALLOC_HEADER + sz + sector_size s \<noteq> 0" using assms(2) by auto
    ultimately have "unat (ALLOC_HEADER + sz + sector_size s - 1) = 4 + unat sz + fs_sector s - 4294967297"
      by (subst unat_minus_one_u32) simp_all
    also have "\<dots> < fs_sector s" using assms(3) ss by linarith
    finally show ?thesis by (simp add: unat_div_distrib fs_sector_def)
  qed
  obtain r s1 where g: "fs_bitmap_get (of_nat ?lo) s = (r, s1)" by (cases "fs_bitmap_get (of_nat ?lo) s") auto
  note p = fs_get_same [OF assms(1,4) g]
  note c = fs_same_config [OF p(2)]
  have scan: "fs_scan 0 [?lo..<fs_cap s] 0 0 s = (Some ?lo, s1)"
    using assms(4,5) g p(1) by (simp add: upt_conv_Cons Let_def)
  note q = fs_flush_same [OF c(10)]
  note cq = fs_same_config [OF q]
  have put: "fs_mem_write (of_nat ?lo * sector_size s) (word_le 4 sz) (fs_bitmap_flush s1) = fs_put_header ?lo sz (fs_bitmap_flush s1)"
    using cq c by (simp add: fs_put_header_def fs_addr_def)
  have eq: "fs_alloc sz s = (fs_addr ?lo s + ALLOC_HEADER, fs_put_header ?lo sz (fs_bitmap_flush s1))"
    using scan put cq c by (simp add: fs_alloc_def need fs_lo_def fs_cap_def Let_def fs_addr_def)
  have "fs_lo (fs_bitmap_flush s1) \<le> ?lo" "?lo < fs_cap (fs_bitmap_flush s1)" using cq c assms(4) by simp_all
  note w = fs_put_props(3) [OF cq(10) this, of ?lo]
  have "fs_bit ?lo (fs_put_header ?lo sz (fs_bitmap_flush s1)) = fs_bit ?lo s"
    using w q p(2) c cq assms(4) by (simp add: fs_same_def)
  then show ?thesis using eq assms(5) by simp
qed

theorem fs_alloc_size_wraps_witness:
  "fst (fs_alloc 0xFFFFFFFC small_dev) = fst (fs_alloc 0xFFFFFFF0 small_dev)"
  using fs_alloc_size_wraps [OF small_dev_props(1), of "0xFFFFFFFC"] fs_alloc_size_wraps [OF small_dev_props(1), of "0xFFFFFFF0"]
    small_dev_props small_free [of 1] by simp

end
