(* ===== verification/Sched.thy ===== *)
theory Sched
  imports Prelude
begin

text \<open>
  The thread scheduler of the x86 kernel, \<open>kernel/boot/x86/scheduler.c\<close>, and its events. Threads are
  numbered; the circular run queue is the list of its threads from \<open>thread_queue\<close> on; the \<open>wait_next\<close>
  links of an event are the list of its waiters. Every function here runs with interrupts disabled
  (\<open>irq_save\<close>, the timer interrupt, or \<open>int $0x80\<close>), so it is one atomic step.

  Results of code outside this component are arguments: the time \<open>timer_get_ms\<close> returns, the block
  \<open>malloc\<close> returns (a fresh thread number), the region \<open>vmm_alloc_pages\<close> returns. The ghost list \<open>freed\<close>
  records the threads whose block was given back to the heap and not handed out again.
\<close>

section \<open>State\<close>

datatype thread_state = THREAD_READY | THREAD_RUNNING | THREAD_SLEEPING | THREAD_BLOCKED | THREAD_DEAD

text \<open>\<open>ThreadPriority\<close> is the number of its enumerator: 1 (IDLE) to 5 (REALTIME).\<close>

definition PRIORITY_IDLE :: nat where "PRIORITY_IDLE = 1"
definition PRIORITY_NORMAL :: nat where "PRIORITY_NORMAL = 3"
definition PRIORITY_REALTIME :: nat where "PRIORITY_REALTIME = 5"

definition SCHED_DEGRADE_QUANTA :: u32 where "SCHED_DEGRADE_QUANTA = 2"
definition SCHED_TICK_MS :: u32 where "SCHED_TICK_MS = 1"
definition SCHED_RECOVER_MS :: u64 where "SCHED_RECOVER_MS = 20"
definition SCHED_STARVATION_MS :: u64 where "SCHED_STARVATION_MS = 100"
definition FPU_STATE_SIZE :: nat where "FPU_STATE_SIZE = 512"
definition THREAD_ALLOC_BYTES :: u32 where "THREAD_ALLOC_BYTES = 5 * 4096"

record thread =
  esp :: u32
  cr3 :: u32
  state :: thread_state
  stack_base :: u32
  fpu_state :: u32
  priority :: nat
  ticks_remaining :: u32
  wake_tick :: u64
  dyn_priority :: nat
  boosted :: bool
  cpu_used_ms :: u32
  recover_mark_ms :: u64
  wait_mark_ms :: u64
  wait_event :: "nat option"
  wait_signaled :: bool

record event =
  signaled :: bool
  waiters :: "nat list"

record sched =
  threads :: "nat \<Rightarrow> thread"
  thread_queue :: "nat list"
  current_thread :: "nat option"
  idle_thread :: "nat option"
  reap_list :: "nat list"
  freed :: "nat list"
  sched_last_ms :: u64
  events :: "nat \<Rightarrow> event"
  memory :: memory
  cpu_fpu :: "u8 list"

definition upd_thread :: "nat \<Rightarrow> (thread \<Rightarrow> thread) \<Rightarrow> sched \<Rightarrow> sched" where
  "upd_thread t f s = s\<lparr>threads := (threads s)(t := f (threads s t))\<rparr>"

section \<open>Dynamic priority\<close>

definition thread_effective :: "thread \<Rightarrow> nat" where
  "thread_effective t = (if boosted t then PRIORITY_REALTIME else dyn_priority t)"

definition thread_get_effective_priority :: "thread option \<Rightarrow> nat" where
  "thread_get_effective_priority t = (case t of None \<Rightarrow> PRIORITY_IDLE | Some th \<Rightarrow> thread_effective th)"

definition thread_init_dynamic :: "nat \<Rightarrow> u64 \<Rightarrow> thread \<Rightarrow> thread" where
  "thread_init_dynamic prio now t =
     t\<lparr>dyn_priority := prio, boosted := False, cpu_used_ms := 0, recover_mark_ms := now, wait_mark_ms := now\<rparr>"

function charge_loop :: "u32 \<Rightarrow> thread \<Rightarrow> thread" where
  "charge_loop allotment t =
     (if cpu_used_ms t \<ge> allotment
      then if dyn_priority t \<le> PRIORITY_IDLE then t\<lparr>cpu_used_ms := 0\<rparr>
           else charge_loop allotment (t\<lparr>dyn_priority := dyn_priority t - 1, cpu_used_ms := cpu_used_ms t - allotment\<rparr>)
      else t)"
  by pat_completeness auto
termination
  by (relation "measure (\<lambda>(a, t). dyn_priority t)") (auto simp: PRIORITY_IDLE_def)

declare charge_loop.simps [simp del]

definition thread_charge_cpu :: "u32 \<Rightarrow> thread \<Rightarrow> thread" where
  "thread_charge_cpu ms t =
     (if priority t = PRIORITY_REALTIME then t\<lparr>cpu_used_ms := 0\<rparr>
      else charge_loop (of_nat (priority t) * SCHED_DEGRADE_QUANTA * SCHED_TICK_MS)
             (t\<lparr>cpu_used_ms := cpu_used_ms t + ms\<rparr>))"

definition thread_recover :: "thread \<Rightarrow> thread" where
  "thread_recover t =
     (let t1 = t\<lparr>cpu_used_ms := cpu_used_ms t div 2\<rparr>
      in if dyn_priority t1 < priority t1 then t1\<lparr>dyn_priority := dyn_priority t1 + 1\<rparr> else t1)"

definition thread_age :: "u64 \<Rightarrow> thread \<Rightarrow> thread" where
  "thread_age now t =
     (if state t = THREAD_RUNNING then t\<lparr>recover_mark_ms := now, wait_mark_ms := now\<rparr>
      else let t1 = (if now - recover_mark_ms t \<ge> SCHED_RECOVER_MS
                     then thread_recover (t\<lparr>recover_mark_ms := now\<rparr>) else t)
           in if state t1 \<noteq> THREAD_READY then t1\<lparr>wait_mark_ms := now\<rparr>
              else if \<not> boosted t1 \<and> now - wait_mark_ms t1 \<ge> SCHED_STARVATION_MS then t1\<lparr>boosted := True\<rparr>
              else t1)"

section \<open>Threads\<close>

text \<open>What \<open>fpu_build_default\<close> leaves in \<open>default_fpu_state\<close>.\<close>

definition default_fpu_state :: "u8 list" where
  "default_fpu_state = word_le 2 (0x037F :: u16) @ replicate 22 0 @ word_le 4 (0x1F80 :: u32) @ replicate 484 0"

text \<open>\<open>struct ThreadInterruptFrame\<close>: 15 words, \<open>gs fs es ds edi esi ebp esp ebx edx ecx eax eip cs eflags\<close>.\<close>

definition interrupt_frame :: "u32 \<Rightarrow> u8 list" where
  "interrupt_frame entry = concat (map (word_le 4) ([0x10, 0x10, 0x10, 0x10] @ replicate 8 0 @ [entry, 0x08, 0x202 :: u32]))"

text \<open>
  \<open>thread_setup_stack\<close> on the region \<open>vmm_alloc_pages\<close> returned; \<open>exit_addr\<close> is the address of
  \<open>thread_exit\<close>. (Unmapping the guard page changes page tables only.)
\<close>

definition thread_setup_stack :: "u32 option \<Rightarrow> u32 \<Rightarrow> u32 \<Rightarrow> thread \<Rightarrow> memory \<Rightarrow> (thread \<times> memory) option" where
  "thread_setup_stack region exit_addr entry t m =
     (case region of
        None \<Rightarrow> None
      | Some r \<Rightarrow>
          let top = r + THREAD_ALLOC_BYTES;
              fpu = top - of_nat FPU_STATE_SIZE;
              m1 = mem_write m fpu default_fpu_state;
              stack_top = fpu - 4;
              m2 = mem_write m1 stack_top (word_le 4 exit_addr);
              stack_top = stack_top - 60;
              m3 = mem_write m2 stack_top (interrupt_frame entry)
          in Some (t\<lparr>stack_base := r, fpu_state := fpu, esp := stack_top\<rparr>, m3))"

definition zero_thread :: thread where
  "zero_thread = \<lparr> esp = 0, cr3 = 0, state = THREAD_READY, stack_base = 0, fpu_state = 0, priority = 0,
     ticks_remaining = 0, wake_tick = 0, dyn_priority = 0, boosted = False, cpu_used_ms = 0,
     recover_mark_ms = 0, wait_mark_ms = 0, wait_event = None, wait_signaled = False \<rparr>"

text \<open>
  \<open>new\<close> is the block \<open>malloc\<close> returned, \<open>region\<close> the stack region, \<open>page_dir\<close> the kernel's page directory.
  A new thread is appended at the end of the circle, that is before \<open>thread_queue\<close>.
\<close>

definition thread_create :: "nat option \<Rightarrow> u32 option \<Rightarrow> u32 \<Rightarrow> u32 \<Rightarrow> u64 \<Rightarrow> u32 \<Rightarrow> nat \<Rightarrow> sched \<Rightarrow> nat option \<times> sched" where
  "thread_create new region exit_addr page_dir now entry prio s =
     (case new of
        None \<Rightarrow> (None, s)
      | Some n \<Rightarrow>
          (case thread_setup_stack region exit_addr entry zero_thread (memory s) of
             None \<Rightarrow> (None, s)
           | Some (t, m) \<Rightarrow>
               let t1 = thread_init_dynamic prio now
                          (t\<lparr>cr3 := page_dir, state := THREAD_READY, priority := prio, ticks_remaining := of_nat prio\<rparr>)
               in (Some n, s\<lparr>threads := (threads s)(n := t1), memory := m, thread_queue := thread_queue s @ [n],
                               freed := removeAll n (freed s)\<rparr>)))"

definition thread_exit :: "sched \<Rightarrow> sched" where
  "thread_exit s = (case current_thread s of None \<Rightarrow> s | Some c \<Rightarrow> upd_thread c (state_update (\<lambda>_. THREAD_DEAD)) s)"

definition unlink_thread :: "nat \<Rightarrow> sched \<Rightarrow> sched" where
  "unlink_thread dead s = s\<lparr>thread_queue := remove1 dead (thread_queue s)\<rparr>"

definition reap_threads :: "sched \<Rightarrow> sched" where
  "reap_threads s = s\<lparr>reap_list := [], freed := reap_list s @ freed s\<rparr>"

definition thread_get_count :: "sched \<Rightarrow> nat" where
  "thread_get_count s = length (filter (\<lambda>t. state (threads s t) \<noteq> THREAD_DEAD) (thread_queue s))"

section \<open>The scheduler\<close>

definition pass1 :: "u64 \<Rightarrow> nat \<Rightarrow> sched \<Rightarrow> sched" where
  "pass1 now t s =
     (let s1 = (if state (threads s t) = THREAD_SLEEPING \<and> now \<ge> wake_tick (threads s t)
                then upd_thread t (state_update (\<lambda>_. THREAD_READY)) s else s)
      in if state (threads s1 t) = THREAD_DEAD
         then (unlink_thread t s1)\<lparr>reap_list := t # reap_list s1\<rparr>
         else upd_thread t (thread_age now) s1)"

definition runnable :: "thread \<Rightarrow> bool" where
  "runnable t \<longleftrightarrow> state t = THREAD_READY \<or> state t = THREAD_RUNNING"

text \<open>The highest effective priority of a runnable thread; \<open>None\<close> is the code's \<open>-1\<close>.\<close>

definition max_priority :: "sched \<Rightarrow> nat option" where
  "max_priority s = fold (\<lambda>t m. if runnable (threads s t) \<and> (case m of None \<Rightarrow> True | Some p \<Rightarrow> thread_effective (threads s t) > p)
                                 then Some (thread_effective (threads s t)) else m) (thread_queue s) None"

text \<open>The circle from the thread after \<open>prev\<close> on, \<open>prev\<close> last.\<close>

definition circle_after :: "nat \<Rightarrow> nat list \<Rightarrow> nat list" where
  "circle_after prev q = drop 1 (dropWhile (\<lambda>t. t \<noteq> prev) q) @ takeWhile (\<lambda>t. t \<noteq> prev) q @ [prev]"

definition find_next :: "nat list \<Rightarrow> nat \<Rightarrow> sched \<Rightarrow> nat option" where
  "find_next circle p s = find (\<lambda>t. runnable (threads s t) \<and> thread_effective (threads s t) = p) circle"

definition retire :: "bool \<Rightarrow> thread \<Rightarrow> thread" where
  "retire idle t =
     (let t1 = (if \<not> idle then t\<lparr>ticks_remaining := of_nat (priority t)\<rparr> else t)
      in if state t1 = THREAD_RUNNING then t1\<lparr>state := THREAD_READY\<rparr> else t1)"

definition switch_to :: "nat \<Rightarrow> nat \<Rightarrow> sched \<Rightarrow> u32 \<times> sched" where
  "switch_to prev next s =
     (let s1 = upd_thread prev (retire (Some prev = idle_thread s)) s;
          s2 = (upd_thread next (state_update (\<lambda>_. THREAD_RUNNING)) s1)\<lparr>current_thread := Some next\<rparr>;
          s3 = (if next \<noteq> prev
                then let s' = (if state (threads s2 prev) \<noteq> THREAD_DEAD
                               then s2\<lparr>memory := mem_write (memory s2) (fpu_state (threads s2 prev)) (cpu_fpu s2)\<rparr>
                               else s2)
                     in s'\<lparr>cpu_fpu := mem_read (memory s') (fpu_state (threads s' next)) FPU_STATE_SIZE\<rparr>
                else s2)
      in (esp (threads s3 next), s3))"

text \<open>The entry part of the handler: record the frame, reap, charge the outgoing thread, age the others.\<close>

definition sched_account :: "u64 \<Rightarrow> u32 \<Rightarrow> nat \<Rightarrow> sched \<Rightarrow> sched" where
  "sched_account now current_esp prev s =
     (let s1 = (if state (threads s prev) \<noteq> THREAD_DEAD then upd_thread prev (esp_update (\<lambda>_. current_esp)) s else s);
          s2 = reap_threads s1;
          elapsed = ucast (now - sched_last_ms s2);
          s3 = s2\<lparr>sched_last_ms := now\<rparr>;
          s4 = (if Some prev \<noteq> idle_thread s3 \<and> state (threads s3 prev) \<noteq> THREAD_DEAD
                then let s' = upd_thread prev (thread_charge_cpu elapsed) s3
                     in if state (threads s' prev) = THREAD_SLEEPING \<or> state (threads s' prev) = THREAD_BLOCKED
                        then upd_thread prev thread_recover s' else s'
                else s3)
      in fold (pass1 now) (thread_queue s4) s4)"

definition prev_continues :: "nat \<Rightarrow> sched \<Rightarrow> bool" where
  "prev_continues prev s \<longleftrightarrow>
     Some prev \<noteq> idle_thread s \<and> state (threads s prev) = THREAD_RUNNING \<and> ticks_remaining (threads s prev) > 1"

definition sched_pick :: "u32 \<Rightarrow> nat \<Rightarrow> sched \<Rightarrow> u32 \<times> sched" where
  "sched_pick current_esp prev s =
     (let continues = prev_continues prev s;
          s1 = (if Some prev \<noteq> idle_thread s \<and> \<not> continues
                then upd_thread prev (boosted_update (\<lambda>_. False)) s else s)
      in case max_priority s1 of
           None \<Rightarrow> (case idle_thread s1 of None \<Rightarrow> (current_esp, s1) | Some i \<Rightarrow> switch_to prev i s1)
         | Some p \<Rightarrow>
             if continues \<and> thread_effective (threads s1 prev) = p
             then (current_esp, upd_thread prev (ticks_remaining_update (\<lambda>n. n - 1)) s1)
             else let circle = (if Some prev = idle_thread s1 \<or> state (threads s1 prev) = THREAD_DEAD
                                then thread_queue s1 else circle_after prev (thread_queue s1))
                  in case find_next circle p s1 of
                       None \<Rightarrow> (current_esp, s1)
                     | Some next \<Rightarrow> switch_to prev next s1)"

definition thread_handler_c :: "u64 \<Rightarrow> u32 \<Rightarrow> sched \<Rightarrow> u32 \<times> sched" where
  "thread_handler_c now current_esp s =
     (case current_thread s of
        None \<Rightarrow> (current_esp, s)
      | Some prev \<Rightarrow> if thread_queue s = [] then (current_esp, s)
                     else sched_pick current_esp prev (sched_account now current_esp prev s))"


section \<open>Yielding, sleeping, events\<close>

text \<open>
  \<open>int $0x80\<close> enters the handler with the frame at \<open>current_esp\<close>. A function that blocks is the step up
  to its yield; what it does after it is resumed is a step of its own.
\<close>

definition thread_yield :: "u64 \<Rightarrow> u32 \<Rightarrow> sched \<Rightarrow> u32 \<times> sched" where
  "thread_yield now current_esp s =
     thread_handler_c now current_esp
       (case current_thread s of None \<Rightarrow> s | Some c \<Rightarrow> upd_thread c (ticks_remaining_update (\<lambda>_. 0)) s)"

definition thread_sleep :: "u32 \<Rightarrow> u64 \<Rightarrow> u32 \<Rightarrow> sched \<Rightarrow> (u32 \<times> sched) option" where
  "thread_sleep ms now current_esp s =
     (if ms = 0 then Some (thread_yield now current_esp s)
      else (case current_thread s of
              None \<Rightarrow> None
            | Some c \<Rightarrow> Some (thread_yield now current_esp
                (upd_thread c (\<lambda>t. t\<lparr>wake_tick := now + ucast ms, state := THREAD_SLEEPING\<rparr>) s))))"

definition event_init :: "nat \<Rightarrow> sched \<Rightarrow> sched" where
  "event_init e s = s\<lparr>events := (events s)(e := \<lparr>signaled = False, waiters = []\<rparr>)\<rparr>"

definition event_remove_waiter :: "nat \<Rightarrow> nat \<Rightarrow> sched \<Rightarrow> sched" where
  "event_remove_waiter e t s =
     (let ev = events s e
      in upd_thread t (wait_event_update (\<lambda>_. None)) (s\<lparr>events := (events s)(e := ev\<lparr>waiters := remove1 t (waiters ev)\<rparr>)\<rparr>))"

definition wake_waiter :: "nat \<Rightarrow> sched \<Rightarrow> sched" where
  "wake_waiter t s =
     upd_thread t (\<lambda>th. th\<lparr>wait_event := None, wait_signaled := True,
                           state := (if state th = THREAD_SLEEPING \<or> state th = THREAD_BLOCKED then THREAD_READY else state th)\<rparr>) s"

definition event_signal :: "nat \<Rightarrow> sched \<Rightarrow> sched" where
  "event_signal e s =
     (let ev = events s e
      in if waiters ev = [] then s\<lparr>events := (events s)(e := ev\<lparr>signaled := True\<rparr>)\<rparr>
         else fold wake_waiter (waiters ev) (s\<lparr>events := (events s)(e := ev\<lparr>waiters := []\<rparr>)\<rparr>))"

text \<open>\<open>Inl r\<close>: the call returned \<open>r\<close>; \<open>Inr s\<close>: it queued the thread and yields in state \<open>s\<close>.\<close>

definition event_wait_begin :: "nat \<Rightarrow> u32 \<Rightarrow> u64 \<Rightarrow> sched \<Rightarrow> (bool \<times> sched) + sched" where
  "event_wait_begin e timeout_ms now s =
     (let ev = events s e; cleared = s\<lparr>events := (events s)(e := ev\<lparr>signaled := False\<rparr>)\<rparr>
      in case current_thread s of
           None \<Rightarrow> Inl (signaled ev, cleared)
         | Some self \<Rightarrow>
             if signaled ev then Inl (True, cleared)
             else let s1 = upd_thread self (\<lambda>t. t\<lparr>wait_signaled := False, wait_event := Some e\<rparr>)
                             (s\<lparr>events := (events s)(e := ev\<lparr>waiters := self # waiters ev\<rparr>)\<rparr>)
                  in Inr (upd_thread self
                            (\<lambda>t. if timeout_ms = 0 then t\<lparr>state := THREAD_BLOCKED\<rparr>
                                 else t\<lparr>wake_tick := now + ucast timeout_ms, state := THREAD_SLEEPING\<rparr>) s1))"

definition event_wait_resume :: "nat \<Rightarrow> nat \<Rightarrow> sched \<Rightarrow> bool \<times> sched" where
  "event_wait_resume e self s =
     (let s1 = (if wait_event (threads s self) = Some e then event_remove_waiter e self s else s)
      in (wait_signaled (threads s1 self), upd_thread self (wait_signaled_update (\<lambda>_. False)) s1))"

text \<open>
  \<open>scheduler_init\<close>: \<open>m\<close> and \<open>i\<close> are the blocks for the main and the idle thread, \<open>region\<close> the idle
  stack, \<open>main_fpu\<close> the address of \<open>main_fpu_state\<close>; \<open>now2\<close> is the second reading of the timer.
\<close>

definition scheduler_init :: "nat option \<Rightarrow> nat option \<Rightarrow> u32 option \<Rightarrow> u32 \<Rightarrow> u32 \<Rightarrow> u32 \<Rightarrow> u32 \<Rightarrow> u64 \<Rightarrow> u64 \<Rightarrow> sched \<Rightarrow> sched" where
  "scheduler_init m i region exit_addr idle_entry main_fpu page_dir now now2 s =
     (case m of
        None \<Rightarrow> s
      | Some mt \<Rightarrow>
          let main = thread_init_dynamic PRIORITY_NORMAL now
                (zero_thread\<lparr>cr3 := page_dir, state := THREAD_RUNNING, priority := PRIORITY_NORMAL,
                             ticks_remaining := of_nat PRIORITY_NORMAL, stack_base := 0, fpu_state := main_fpu\<rparr>);
              s1 = s\<lparr>threads := (threads s)(mt := main)\<rparr>
          in case i of
               None \<Rightarrow> s1
             | Some it \<Rightarrow>
                 (case thread_setup_stack region exit_addr idle_entry zero_thread (memory s1) of
                    None \<Rightarrow> s1
                  | Some (t, mm) \<Rightarrow>
                      let idle = thread_init_dynamic PRIORITY_IDLE now
                            (t\<lparr>cr3 := page_dir, state := THREAD_READY, priority := PRIORITY_IDLE,
                               ticks_remaining := of_nat PRIORITY_IDLE\<rparr>)
                      in s1\<lparr>threads := (threads s1)(it := idle), memory := mm, sched_last_ms := now2,
                            idle_thread := Some it, current_thread := Some mt, thread_queue := [mt]\<rparr>))"

section \<open>Dynamic priority: lemmas\<close>

definition prio_ok :: "thread \<Rightarrow> bool" where
  "prio_ok t \<longleftrightarrow> 1 \<le> dyn_priority t \<and> dyn_priority t \<le> priority t \<and> priority t \<le> 5"

text \<open>What the accounting functions leave alone.\<close>

definition same_thread :: "thread \<Rightarrow> thread \<Rightarrow> bool" where
  "same_thread t t' \<longleftrightarrow> state t' = state t \<and> priority t' = priority t \<and> esp t' = esp t \<and> fpu_state t' = fpu_state t
     \<and> ticks_remaining t' = ticks_remaining t \<and> wake_tick t' = wake_tick t \<and> stack_base t' = stack_base t \<and> cr3 t' = cr3 t
     \<and> wait_event t' = wait_event t \<and> wait_signaled t' = wait_signaled t"

lemma charge_loop_props:
  "prio_ok t \<Longrightarrow> same_thread t (charge_loop a t) \<and> boosted (charge_loop a t) = boosted t \<and> prio_ok (charge_loop a t)
     \<and> dyn_priority (charge_loop a t) \<le> dyn_priority t \<and> (0 < a \<longrightarrow> cpu_used_ms (charge_loop a t) < a)"
proof (induction a t rule: charge_loop.induct)
  case (1 a t)
  show ?case
  proof (cases "cpu_used_ms t \<ge> a \<and> \<not> dyn_priority t \<le> PRIORITY_IDLE")
    case True
    let ?t = "t\<lparr>dyn_priority := dyn_priority t - 1, cpu_used_ms := cpu_used_ms t - a\<rparr>"
    have "prio_ok ?t" using True 1(2) by (auto simp: prio_ok_def PRIORITY_IDLE_def)
    then have "same_thread ?t (charge_loop a ?t) \<and> boosted (charge_loop a ?t) = boosted ?t \<and> prio_ok (charge_loop a ?t)
      \<and> dyn_priority (charge_loop a ?t) \<le> dyn_priority ?t \<and> (0 < a \<longrightarrow> cpu_used_ms (charge_loop a ?t) < a)"
      using 1(1) True by simp
    moreover have "charge_loop a t = charge_loop a ?t" using True by (subst charge_loop.simps) simp
    ultimately show ?thesis by (auto simp: same_thread_def)
  next
    case False
    then show ?thesis
      using 1(2) by (subst (1 2 3 4 5) charge_loop.simps) (auto simp: same_thread_def prio_ok_def PRIORITY_IDLE_def not_le)
  qed
qed

lemma thread_charge_props:
  assumes "prio_ok t"
  shows "same_thread t (thread_charge_cpu ms t)" "boosted (thread_charge_cpu ms t) = boosted t"
    "prio_ok (thread_charge_cpu ms t)" "dyn_priority (thread_charge_cpu ms t) \<le> dyn_priority t"
proof -
  have "prio_ok (t\<lparr>cpu_used_ms := cpu_used_ms t + ms\<rparr>)" using assms by (simp add: prio_ok_def)
  note c = charge_loop_props [OF this]
  show "same_thread t (thread_charge_cpu ms t)" "boosted (thread_charge_cpu ms t) = boosted t"
    "prio_ok (thread_charge_cpu ms t)" "dyn_priority (thread_charge_cpu ms t) \<le> dyn_priority t"
    using c assms unfolding thread_charge_cpu_def
    by (cases "priority t = PRIORITY_REALTIME"; simp add: same_thread_def; simp add: prio_ok_def)+
qed

lemma thread_recover_props:
  "same_thread t (thread_recover t)" "boosted (thread_recover t) = boosted t"
  "prio_ok t \<Longrightarrow> prio_ok (thread_recover t)" "wait_mark_ms (thread_recover t) = wait_mark_ms t"
  "recover_mark_ms (thread_recover t) = recover_mark_ms t"
  by (auto simp: thread_recover_def same_thread_def prio_ok_def Let_def)

lemma thread_age_props:
  "same_thread t (thread_age now t)" "prio_ok t \<Longrightarrow> prio_ok (thread_age now t)" "boosted t \<Longrightarrow> boosted (thread_age now t)"
  using thread_recover_props [of "t\<lparr>recover_mark_ms := now\<rparr>"]
  by (auto simp: thread_age_def Let_def same_thread_def prio_ok_def)

section \<open>The pass over the queue\<close>

definition aged :: "u64 \<Rightarrow> thread \<Rightarrow> thread" where
  "aged now t =
     (let t1 = (if state t = THREAD_SLEEPING \<and> now \<ge> wake_tick t then t\<lparr>state := THREAD_READY\<rparr> else t)
      in if state t1 = THREAD_DEAD then t1 else thread_age now t1)"

lemma pass1_fold:
  "distinct l \<Longrightarrow> distinct (thread_queue s) \<Longrightarrow>
     fold (pass1 now) l s =
       s\<lparr>threads := (\<lambda>t. if t \<in> set l then aged now (threads s t) else threads s t),
         thread_queue := filter (\<lambda>t. t \<notin> set l \<or> state (threads s t) \<noteq> THREAD_DEAD) (thread_queue s),
         reap_list := rev (filter (\<lambda>t. state (threads s t) = THREAD_DEAD) l) @ reap_list s\<rparr>"
proof (induction l arbitrary: s)
  case Nil
  then show ?case by simp
next
  case (Cons x l)
  let ?s = "pass1 now x s"
  have step: "?s = s\<lparr>threads := (threads s)(x := aged now (threads s x)),
      thread_queue := filter (\<lambda>t. t \<noteq> x \<or> state (threads s t) \<noteq> THREAD_DEAD) (thread_queue s),
      reap_list := (if state (threads s x) = THREAD_DEAD then [x] else []) @ reap_list s\<rparr>"
  proof (cases "state (threads s x) = THREAD_DEAD")
    case True
    then have "aged now (threads s x) = threads s x" by (simp add: aged_def)
    moreover have "filter (\<lambda>t. t \<noteq> x \<or> state (threads s t) \<noteq> THREAD_DEAD) (thread_queue s) = remove1 x (thread_queue s)"
      using True Cons.prems(2) by (simp add: distinct_remove1_removeAll removeAll_filter_not_eq) (rule filter_cong, auto)
    ultimately show ?thesis using True by (simp add: pass1_def unlink_thread_def)
  next
    case False
    then have "filter (\<lambda>t. t \<noteq> x \<or> state (threads s t) \<noteq> THREAD_DEAD) (thread_queue s) = thread_queue s"
      by (intro filter_True) auto
    then show ?thesis using False by (simp add: pass1_def upd_thread_def aged_def Let_def)
  qed
  have "distinct (thread_queue ?s)" using Cons.prems(2) by (simp add: step)
  then have IH: "fold (pass1 now) l ?s =
       ?s\<lparr>threads := (\<lambda>t. if t \<in> set l then aged now (threads ?s t) else threads ?s t),
         thread_queue := filter (\<lambda>t. t \<notin> set l \<or> state (threads ?s t) \<noteq> THREAD_DEAD) (thread_queue ?s),
         reap_list := rev (filter (\<lambda>t. state (threads ?s t) = THREAD_DEAD) l) @ reap_list ?s\<rparr>"
    using Cons.IH Cons.prems(1) by simp
  have nx: "x \<notin> set l" using Cons.prems(1) by simp
  have t: "(\<lambda>t. if t \<in> set l then aged now (threads ?s t) else threads ?s t) =
      (\<lambda>t. if t \<in> set (x # l) then aged now (threads s t) else threads s t)"
    using nx by (auto simp: step fun_eq_iff)
  have q: "filter (\<lambda>t. t \<notin> set l \<or> state (threads ?s t) \<noteq> THREAD_DEAD) (thread_queue ?s) =
      filter (\<lambda>t. t \<notin> set (x # l) \<or> state (threads s t) \<noteq> THREAD_DEAD) (thread_queue s)"
    using nx by (auto simp: step intro!: filter_cong)
  have r: "rev (filter (\<lambda>t. state (threads ?s t) = THREAD_DEAD) l) @ reap_list ?s =
      rev (filter (\<lambda>t. state (threads s t) = THREAD_DEAD) (x # l)) @ reap_list s"
  proof -
    have "filter (\<lambda>t. state (threads ?s t) = THREAD_DEAD) l = filter (\<lambda>t. state (threads s t) = THREAD_DEAD) l"
      using nx by (intro filter_cong) (auto simp: step)
    then show ?thesis by (simp add: step)
  qed
  show ?case unfolding fold_simps IH t q r by (simp add: step)
qed

end
