(* ===== verification/SchedInv.thy ===== *)
theory SchedInv
  imports Sched
begin

text \<open>
  What the scheduler keeps, and what one pass of \<open>thread_handler_c\<close> does: the invariant \<open>sched_ok\<close>, the
  choice of the next thread, and the bounds of the dynamic priorities.
\<close>

section \<open>The invariant\<close>

text \<open>The part of the invariant that also holds between accounting and choice; \<open>prev\<close> is the current thread.\<close>

definition sched_core :: "nat \<Rightarrow> nat \<Rightarrow> sched \<Rightarrow> bool" where
  "sched_core prev i s \<longleftrightarrow>
     current_thread s = Some prev \<and> idle_thread s = Some i
     \<and> distinct (thread_queue s) \<and> i \<notin> set (thread_queue s) \<and> runnable (threads s i)
     \<and> (\<forall>t \<in> insert i (set (thread_queue s)). state (threads s t) = THREAD_RUNNING \<longrightarrow> t = prev)
     \<and> (\<forall>t \<in> set (thread_queue s). prio_ok (threads s t))
     \<and> distinct (reap_list s) \<and> set (reap_list s) \<inter> insert i (set (thread_queue s)) = {}
     \<and> set (freed s) \<inter> insert i (set (thread_queue s) \<union> set (reap_list s)) = {}"

definition sched_ok :: "sched \<Rightarrow> bool" where
  "sched_ok s \<longleftrightarrow> (\<exists>prev i. sched_core prev i s \<and> (prev = i \<or> prev \<in> set (thread_queue s)))"

definition woken :: "u64 \<Rightarrow> thread \<Rightarrow> thread_state" where
  "woken now t = (if state t = THREAD_SLEEPING \<and> now \<ge> wake_tick t then THREAD_READY else state t)"

lemma aged_props:
  "state (aged now t) = woken now t" "priority (aged now t) = priority t" "fpu_state (aged now t) = fpu_state t"
  "esp (aged now t) = esp t" "ticks_remaining (aged now t) = ticks_remaining t" "prio_ok t \<Longrightarrow> prio_ok (aged now t)"
  using thread_age_props [of t now] thread_age_props [of "t\<lparr>state := THREAD_READY\<rparr>" now]
  by (auto simp: aged_def woken_def same_thread_def prio_ok_def Let_def)

section \<open>Accounting\<close>

lemma account_props:
  fixes s :: sched and now :: u64 and e :: u32
  assumes core: "sched_core prev i s" and prev: "prev = i \<or> prev \<in> set (thread_queue s)"
  defines "s' \<equiv> sched_account now e prev s"
  shows "thread_queue s' = filter (\<lambda>t. state (threads s t) \<noteq> THREAD_DEAD) (thread_queue s)"
    "reap_list s' = rev (filter (\<lambda>t. state (threads s t) = THREAD_DEAD) (thread_queue s))"
    "freed s' = reap_list s @ freed s" "current_thread s' = Some prev" "idle_thread s' = Some i"
    "memory s' = memory s" "cpu_fpu s' = cpu_fpu s" "events s' = events s" "sched_last_ms s' = now"
    "t \<in> set (thread_queue s) \<Longrightarrow> state (threads s' t) = woken now (threads s t) \<and> fpu_state (threads s' t) = fpu_state (threads s t)
       \<and> prio_ok (threads s' t) \<and> ticks_remaining (threads s' t) = ticks_remaining (threads s t)
       \<and> priority (threads s' t) = priority (threads s t)
       \<and> esp (threads s' t) = (if t = prev \<and> state (threads s t) \<noteq> THREAD_DEAD then e else esp (threads s t))"
    "t \<in> set (thread_queue s) \<Longrightarrow> t \<noteq> prev \<Longrightarrow> threads s' t = aged now (threads s t)"
    "t \<notin> set (thread_queue s) \<Longrightarrow> threads s' t = (if t = prev \<and> state (threads s t) \<noteq> THREAD_DEAD
       then (threads s t)\<lparr>esp := e\<rparr> else threads s t)"
proof -
  let ?q = "thread_queue s"
  have d: "distinct ?q" and i: "i \<notin> set ?q" "idle_thread s = Some i"
    and pq: "\<forall>t \<in> set ?q. prio_ok (threads s t)" using core by (simp_all add: sched_core_def)
  let ?th = "if state (threads s prev) \<noteq> THREAD_DEAD then (threads s prev)\<lparr>esp := e\<rparr> else threads s prev"
  define el where "el = (ucast (now - sched_last_ms s) :: u32)"
  define acc where "acc = (if prev \<noteq> i \<and> state (threads s prev) \<noteq> THREAD_DEAD
      then (if state (threads s prev) = THREAD_SLEEPING \<or> state (threads s prev) = THREAD_BLOCKED
            then thread_recover (thread_charge_cpu el ?th) else thread_charge_cpu el ?th) else ?th)"
  define s4 where "s4 = s\<lparr>reap_list := [], freed := reap_list s @ freed s, sched_last_ms := now, threads := (threads s)(prev := acc)\<rparr>"
  have pth: "prio_ok ?th" if "prev \<noteq> i" using pq prev that by (auto simp: prio_ok_def)
  have st: "state (thread_charge_cpu el ?th) = state (threads s prev)" if "prev \<noteq> i"
    using thread_charge_props(1) [OF pth [OF that], of el] by (simp add: same_thread_def)
  have acct: "sched_account now e prev s = fold (pass1 now) ?q s4"
  proof -
    have q: "X = s4 \<Longrightarrow> fold (pass1 now) (thread_queue X) X = fold (pass1 now) ?q s4" for X by (simp add: s4_def)
    show ?thesis
      unfolding sched_account_def Let_def
      by (rule q) (use st i in \<open>auto simp: upd_thread_def reap_threads_def s4_def acc_def el_def\<close>)
  qed
  have acc: "same_thread ?th acc" "prev \<noteq> i \<Longrightarrow> prio_ok acc"
    using thread_charge_props [OF pth, of el] thread_recover_props [of "thread_charge_cpu el ?th"] pth
    by (auto simp: acc_def same_thread_def)
  have acc_idle: "prev = i \<Longrightarrow> acc = ?th" by (simp add: acc_def)
  have s': "s' = s4\<lparr>threads := (\<lambda>t. if t \<in> set ?q then aged now (threads s4 t) else threads s4 t),
         thread_queue := filter (\<lambda>t. t \<notin> set ?q \<or> state (threads s4 t) \<noteq> THREAD_DEAD) ?q,
         reap_list := rev (filter (\<lambda>t. state (threads s4 t) = THREAD_DEAD) ?q)\<rparr>"
    unfolding s'_def acct using pass1_fold [OF d, of s4 now] d by (simp add: s4_def)
  have state4: "state (threads s4 t) = state (threads s t)" for t
    using acc(1) by (simp add: s4_def same_thread_def)
  show "thread_queue s' = filter (\<lambda>t. state (threads s t) \<noteq> THREAD_DEAD) ?q"
    unfolding s' by (auto simp: state4 intro!: filter_cong)
  show "reap_list s' = rev (filter (\<lambda>t. state (threads s t) = THREAD_DEAD) ?q)"
    unfolding s' by (simp add: state4)
  show "freed s' = reap_list s @ freed s" "current_thread s' = Some prev" "idle_thread s' = Some i"
    "memory s' = memory s" "cpu_fpu s' = cpu_fpu s" "events s' = events s" "sched_last_ms s' = now"
    using core by (simp_all add: s' s4_def sched_core_def)
  show "state (threads s' t) = woken now (threads s t) \<and> fpu_state (threads s' t) = fpu_state (threads s t)
       \<and> prio_ok (threads s' t) \<and> ticks_remaining (threads s' t) = ticks_remaining (threads s t)
       \<and> priority (threads s' t) = priority (threads s t)
       \<and> esp (threads s' t) = (if t = prev \<and> state (threads s t) \<noteq> THREAD_DEAD then e else esp (threads s t))"
    if t: "t \<in> set ?q"
  proof (cases "t = prev")
    case True
    then have "prev \<noteq> i" using t i by auto
    then show ?thesis
      using True t acc by (auto simp: s' s4_def aged_props same_thread_def woken_def)
  next
    case False
    then show ?thesis using t pq by (simp add: s' s4_def aged_props)
  qed
  show "threads s' t = aged now (threads s t)" if "t \<in> set ?q" "t \<noteq> prev"
    using that by (simp add: s' s4_def)
  show "threads s' t = (if t = prev \<and> state (threads s t) \<noteq> THREAD_DEAD then (threads s t)\<lparr>esp := e\<rparr> else threads s t)"
    if t: "t \<notin> set ?q"
  proof -
    have "t = prev \<Longrightarrow> acc = ?th" using t prev acc_idle by auto
    then show ?thesis using t by (simp add: s' s4_def)
  qed
qed

lemma account_core:
  fixes s :: sched and now :: u64 and e :: u32
  assumes core: "sched_core prev i s" and prev: "prev = i \<or> prev \<in> set (thread_queue s)"
  defines "s' \<equiv> sched_account now e prev s"
  shows "sched_core prev i s'" "\<forall>t \<in> set (thread_queue s'). state (threads s' t) \<noteq> THREAD_DEAD"
    "prev = i \<or> prev \<in> set (thread_queue s') \<or> state (threads s' prev) = THREAD_DEAD"
proof -
  note a = account_props [OF core prev, where now = now and e = e, folded s'_def]
  have idle: "threads s' i = (if i = prev \<and> state (threads s i) \<noteq> THREAD_DEAD then (threads s i)\<lparr>esp := e\<rparr> else threads s i)"
    using a(12) [of i] core by (simp add: sched_core_def)
  have st: "state (threads s' t) = woken now (threads s t)" if "t \<in> set (thread_queue s)" for t using a(10) [OF that] by simp
  have sub: "set (thread_queue s') \<subseteq> set (thread_queue s)" using a(1) by auto
  show dead: "\<forall>t \<in> set (thread_queue s'). state (threads s' t) \<noteq> THREAD_DEAD"
    using st a(1) by (auto simp: woken_def)
  show "prev = i \<or> prev \<in> set (thread_queue s') \<or> state (threads s' prev) = THREAD_DEAD"
    using prev st a(1) by (auto simp: woken_def)
  show "sched_core prev i s'"
    unfolding sched_core_def
  proof (intro conjI ballI impI)
    show "current_thread s' = Some prev" "idle_thread s' = Some i" by (rule a)+
    show "distinct (thread_queue s')" "distinct (reap_list s')" "i \<notin> set (thread_queue s')"
      using core a by (simp_all add: sched_core_def)
    show "runnable (threads s' i)" using core idle by (cases "i = prev") (auto simp: sched_core_def runnable_def)
    show "t = prev" if "t \<in> insert i (set (thread_queue s'))" "state (threads s' t) = THREAD_RUNNING" for t
    proof (cases "t = i")
      case True
      then show ?thesis using that(2) idle core by (auto simp: sched_core_def split: if_splits)
    next
      case False
      then have "t \<in> set (thread_queue s)" using that sub by auto
      then show ?thesis using that(2) st core by (auto simp: sched_core_def woken_def split: if_splits)
    qed
    show "prio_ok (threads s' t)" if "t \<in> set (thread_queue s')" for t using a(10) [of t] sub that by auto
    show "set (reap_list s') \<inter> insert i (set (thread_queue s')) = {}"
      "set (freed s') \<inter> insert i (set (thread_queue s') \<union> set (reap_list s')) = {}"
      using core a(1,2,3) by (auto simp: sched_core_def)
  qed
qed

section \<open>The choice\<close>

lemma max_fold:
  fixes th :: "nat \<Rightarrow> thread"
  defines "step \<equiv> (\<lambda>t m. if runnable (th t) \<and> (case m of None \<Rightarrow> True | Some p \<Rightarrow> thread_effective (th t) > p)
                         then Some (thread_effective (th t)) else m)"
  shows "(fold step l m = None \<longleftrightarrow> m = None \<and> (\<forall>t \<in> set l. \<not> runnable (th t)))
    \<and> (\<forall>p. fold step l m = Some p \<longrightarrow>
          (m = Some p \<or> (\<exists>t \<in> set l. runnable (th t) \<and> thread_effective (th t) = p))
          \<and> (\<forall>q. m = Some q \<longrightarrow> q \<le> p) \<and> (\<forall>t \<in> set l. runnable (th t) \<longrightarrow> thread_effective (th t) \<le> p))"
proof (induction l arbitrary: m)
  case Nil
  then show ?case by simp
next
  case (Cons x l)
  show ?case
    using Cons [of "step x m"] by (cases m) (auto simp: step_def split: if_splits)
qed

lemma max_priority_None: "max_priority s = None \<longleftrightarrow> (\<forall>t \<in> set (thread_queue s). \<not> runnable (threads s t))"
  using max_fold [where th = "threads s" and l = "thread_queue s" and m = None] unfolding max_priority_def by simp

lemma max_priority_Some:
  assumes "max_priority s = Some p"
  shows "\<exists>t \<in> set (thread_queue s). runnable (threads s t) \<and> thread_effective (threads s t) = p"
    "t \<in> set (thread_queue s) \<Longrightarrow> runnable (threads s t) \<Longrightarrow> thread_effective (threads s t) \<le> p"
  using max_fold [where th = "threads s" and l = "thread_queue s" and m = None] assms unfolding max_priority_def by simp_all

lemma circle_after_set: "set q \<subseteq> set (circle_after prev q)" "set (circle_after prev q) \<subseteq> insert prev (set q)"
proof -
  have "set q = set (takeWhile (\<lambda>t. t \<noteq> prev) q) \<union> set (dropWhile (\<lambda>t. t \<noteq> prev) q)"
    by (metis set_append takeWhile_dropWhile_id)
  moreover have "set (dropWhile (\<lambda>t. t \<noteq> prev) q) \<subseteq> insert prev (set (drop 1 (dropWhile (\<lambda>t. t \<noteq> prev) q)))"
  proof (cases "dropWhile (\<lambda>t. t \<noteq> prev) q")
    case Nil
    then show ?thesis unfolding Nil by simp
  next
    case (Cons y ys)
    then have "y = prev" using hd_dropWhile [of "\<lambda>t. t \<noteq> prev" q] by simp
    then show ?thesis using Cons by simp
  qed
  moreover have "set (drop 1 (dropWhile (\<lambda>t. t \<noteq> prev) q)) \<subseteq> set q"
    by (metis in_set_dropD set_dropWhileD subsetI)
  ultimately show "set q \<subseteq> set (circle_after prev q)" "set (circle_after prev q) \<subseteq> insert prev (set q)"
    unfolding circle_after_def by auto
qed

lemma find_next_props:
  assumes "\<exists>t \<in> set circle. runnable (threads s t) \<and> thread_effective (threads s t) = p"
  obtains n where "find_next circle p s = Some n" "n \<in> set circle" "runnable (threads s n)" "thread_effective (threads s n) = p"
proof (cases "find_next circle p s")
  case None
  then show thesis using assms by (auto simp: find_next_def find_None_iff)
next
  case (Some n)
  then have "n \<in> set circle \<and> runnable (threads s n) \<and> thread_effective (threads s n) = p"
    by (auto simp: find_next_def find_Some_iff)
  then show thesis using Some that by blast
qed

section \<open>The switch\<close>

lemma runnable_not_dead: "runnable t \<Longrightarrow> state t \<noteq> THREAD_DEAD"
  by (auto simp: runnable_def)

lemma retire_props:
  "state (retire b t) = (if state t = THREAD_RUNNING then THREAD_READY else state t)"
  "priority (retire b t) = priority t" "dyn_priority (retire b t) = dyn_priority t" "boosted (retire b t) = boosted t"
  "fpu_state (retire b t) = fpu_state t" "esp (retire b t) = esp t" "runnable (retire b t) = runnable t"
  "prio_ok (retire b t) = prio_ok t" "thread_effective (retire b t) = thread_effective t"
  by (auto simp: retire_def Let_def runnable_def prio_ok_def thread_effective_def)

lemma switch_to_threads:
  "threads (snd (switch_to prev n s)) =
     (let th = (threads s)(prev := retire (Some prev = idle_thread s) (threads s prev))
      in th(n := (th n)\<lparr>state := THREAD_RUNNING\<rparr>))"
  "thread_queue (snd (switch_to prev n s)) = thread_queue s" "current_thread (snd (switch_to prev n s)) = Some n"
  "idle_thread (snd (switch_to prev n s)) = idle_thread s" "reap_list (snd (switch_to prev n s)) = reap_list s"
  "freed (snd (switch_to prev n s)) = freed s" "events (snd (switch_to prev n s)) = events s"
  by (simp_all add: switch_to_def upd_thread_def Let_def)

lemma switch_core:
  assumes core: "sched_core prev i s" and n: "n = i \<or> n \<in> set (thread_queue s)"
    and prev: "prev = i \<or> prev \<in> set (thread_queue s) \<or> state (threads s prev) = THREAD_DEAD"
  shows "sched_core n i (snd (switch_to prev n s))"
    "state (threads (snd (switch_to prev n s)) n) = THREAD_RUNNING"
    "state (threads s t) = THREAD_DEAD \<longleftrightarrow> t \<noteq> n \<and> state (threads (snd (switch_to prev n s)) t) = THREAD_DEAD
       \<or> t = n \<and> state (threads s n) = THREAD_DEAD"
    "t \<noteq> n \<Longrightarrow> runnable (threads (snd (switch_to prev n s)) t) = runnable (threads s t)"
    "thread_effective (threads (snd (switch_to prev n s)) t) = thread_effective (threads s t)"
proof -
  show "state (threads (snd (switch_to prev n s)) n) = THREAD_RUNNING"
    by (simp add: switch_to_threads Let_def)
  show "state (threads s t) = THREAD_DEAD \<longleftrightarrow> t \<noteq> n \<and> state (threads (snd (switch_to prev n s)) t) = THREAD_DEAD
       \<or> t = n \<and> state (threads s n) = THREAD_DEAD"
    by (auto simp: switch_to_threads Let_def retire_props)
  show "t \<noteq> n \<Longrightarrow> runnable (threads (snd (switch_to prev n s)) t) = runnable (threads s t)"
    by (simp add: switch_to_threads Let_def retire_props)
  show "thread_effective (threads (snd (switch_to prev n s)) t) = thread_effective (threads s t)"
    by (simp add: switch_to_threads Let_def retire_props thread_effective_def)
  show "sched_core n i (snd (switch_to prev n s))"
    unfolding sched_core_def
  proof (intro conjI ballI impI)
    show "runnable (threads (snd (switch_to prev n s)) i)"
      using core by (auto simp: switch_to_threads Let_def retire_props sched_core_def) (auto simp: runnable_def)
    fix t
    assume t: "t \<in> insert i (set (thread_queue (snd (switch_to prev n s))))"
      and r: "state (threads (snd (switch_to prev n s)) t) = THREAD_RUNNING"
    show "t = n"
      using t r core by (auto simp: switch_to_threads Let_def retire_props sched_core_def split: if_splits)
  next
    fix t
    assume "t \<in> set (thread_queue (snd (switch_to prev n s)))"
    then show "prio_ok (threads (snd (switch_to prev n s)) t)"
      using core by (auto simp: switch_to_threads Let_def retire_props sched_core_def prio_ok_def)
  qed (use core in \<open>simp_all add: switch_to_threads sched_core_def\<close>)
qed

end
