(* ===== verification/SchedProps.thy ===== *)
theory SchedProps
  imports SchedInv
begin

text \<open>
  The properties of the scheduler: one pass of \<open>thread_handler_c\<close> keeps the invariant and picks a
  runnable thread of maximal effective priority, round robin; dead threads are reaped one pass after they
  left the queue; the dynamic priorities have a closed form; the FPU image follows its thread; a signalled
  waiter is woken.
\<close>

section \<open>The choice, on every path\<close>

lemma find_split:
  "find P l = Some x \<Longrightarrow> \<exists>xs ys. l = xs @ x # ys \<and> (\<forall>y \<in> set xs. \<not> P y)"
proof (induction l)
  case Nil
  then show ?case by simp
next
  case (Cons a l)
  show ?case
  proof (cases "P a")
    case True
    then show ?thesis using Cons.prems by (intro exI [of _ "[]"] exI [of _ l]) simp
  next
    case False
    then obtain xs ys where "l = xs @ x # ys" "\<forall>y \<in> set xs. \<not> P y" using Cons by auto
    then show ?thesis using False by (intro exI [of _ "a # xs"] exI [of _ ys]) simp
  qed
qed

definition unboost :: "nat \<Rightarrow> sched \<Rightarrow> sched" where
  "unboost prev s = (if Some prev \<noteq> idle_thread s \<and> \<not> prev_continues prev s
                     then upd_thread prev (boosted_update (\<lambda>_. False)) s else s)"

lemma unboost_props:
  "thread_queue (unboost prev s) = thread_queue s" "reap_list (unboost prev s) = reap_list s" "freed (unboost prev s) = freed s"
  "current_thread (unboost prev s) = current_thread s" "idle_thread (unboost prev s) = idle_thread s"
  "memory (unboost prev s) = memory s" "cpu_fpu (unboost prev s) = cpu_fpu s" "events (unboost prev s) = events s"
  "state (threads (unboost prev s) t) = state (threads s t)" "esp (threads (unboost prev s) t) = esp (threads s t)"
  "fpu_state (threads (unboost prev s) t) = fpu_state (threads s t)"
  "ticks_remaining (threads (unboost prev s) t) = ticks_remaining (threads s t)"
  "runnable (threads (unboost prev s) t) = runnable (threads s t)"
  "prio_ok (threads (unboost prev s) t) = prio_ok (threads s t)"
  "t \<noteq> prev \<Longrightarrow> threads (unboost prev s) t = threads s t"
  by (simp_all add: unboost_def upd_thread_def runnable_def prio_ok_def)

lemma unboost_core: "sched_core prev i s \<Longrightarrow> sched_core prev i (unboost prev s)"
  by (simp add: sched_core_def unboost_props)

text \<open>The three ways one pass ends: the current thread goes on, the idle thread runs, or the next of the circle.\<close>

lemma pick_cases:
  assumes core: "sched_core prev i s"
    and prev: "prev = i \<or> prev \<in> set (thread_queue s) \<or> state (threads s prev) = THREAD_DEAD"
  defines "s1 \<equiv> unboost prev s"
  obtains (stay) p where "max_priority s1 = Some p" "prev_continues prev s" "thread_effective (threads s1 prev) = p"
      "sched_pick e prev s = (e, upd_thread prev (ticks_remaining_update (\<lambda>n. n - 1)) s1)"
  | (idle) "max_priority s1 = None" "sched_pick e prev s = switch_to prev i s1"
  | (switch) p n where "max_priority s1 = Some p" "n \<in> set (thread_queue s)" "runnable (threads s1 n)"
      "thread_effective (threads s1 n) = p"
      "find_next (if prev = i \<or> state (threads s prev) = THREAD_DEAD then thread_queue s
                  else circle_after prev (thread_queue s)) p s1 = Some n"
      "sched_pick e prev s = switch_to prev n s1"
proof -
  have i: "idle_thread s1 = Some i" using core by (simp add: s1_def unboost_props sched_core_def)
  let ?circle = "if prev = i \<or> state (threads s prev) = THREAD_DEAD then thread_queue s else circle_after prev (thread_queue s)"
  have pick: "sched_pick e prev s = (case max_priority s1 of
           None \<Rightarrow> switch_to prev i s1
         | Some p \<Rightarrow>
             if prev_continues prev s \<and> thread_effective (threads s1 prev) = p
             then (e, upd_thread prev (ticks_remaining_update (\<lambda>n. n - 1)) s1)
             else (case find_next ?circle p s1 of None \<Rightarrow> (e, s1) | Some next \<Rightarrow> switch_to prev next s1))"
    unfolding sched_pick_def Let_def unboost_def [symmetric] s1_def [symmetric]
    using i by (simp add: s1_def unboost_props cong: if_cong option.case_cong)
  show thesis
  proof (cases "max_priority s1")
    case None
    then show thesis using pick idle by simp
  next
    case (Some p)
    show thesis
    proof (cases "prev_continues prev s \<and> thread_effective (threads s1 prev) = p")
      case True
      then show thesis using pick Some stay by simp
    next
      case False
      have sub: "set (thread_queue s) \<subseteq> set ?circle" using circle_after_set(1) by auto
      have sup: "set ?circle \<subseteq> set (thread_queue s)"
        using circle_after_set(2) [of prev "thread_queue s"] prev by (auto split: if_splits)
      have "\<exists>t \<in> set ?circle. runnable (threads s1 t) \<and> thread_effective (threads s1 t) = p"
        using max_priority_Some(1) [OF Some] sub unfolding s1_def unboost_props(1) by blast
      then obtain n where n: "find_next ?circle p s1 = Some n" "n \<in> set ?circle" "runnable (threads s1 n)"
        "thread_effective (threads s1 n) = p"
        by (rule find_next_props)
      have "sched_pick e prev s = switch_to prev n s1"
        using pick Some False n(1) by simp
      then show thesis using switch Some n sup by blast
    qed
  qed
qed

lemma switch_mem:
  "fst (switch_to prev n s) = esp (threads (snd (switch_to prev n s)) n)"
  "esp (threads (snd (switch_to prev n s)) t) = esp (threads s t)"
  "fpu_state (threads (snd (switch_to prev n s)) t) = fpu_state (threads s t)"
  "n = prev \<Longrightarrow> memory (snd (switch_to prev n s)) = memory s \<and> cpu_fpu (snd (switch_to prev n s)) = cpu_fpu s"
  "n \<noteq> prev \<Longrightarrow> memory (snd (switch_to prev n s)) =
      (if state (threads s prev) \<noteq> THREAD_DEAD then mem_write (memory s) (fpu_state (threads s prev)) (cpu_fpu s) else memory s)"
  "n \<noteq> prev \<Longrightarrow> cpu_fpu (snd (switch_to prev n s)) = mem_read (memory (snd (switch_to prev n s))) (fpu_state (threads s n)) FPU_STATE_SIZE"
  by (simp_all add: switch_to_def upd_thread_def Let_def retire_props)

text \<open>What one pass does to the state \<open>a\<close> that accounting left, with \<open>n\<close> the thread that runs next.\<close>

definition pass_result :: "nat \<Rightarrow> nat \<Rightarrow> nat \<Rightarrow> sched \<Rightarrow> u32 \<times> sched \<Rightarrow> bool" where
  "pass_result prev i n a r \<longleftrightarrow> (let s' = snd r in
     sched_core n i s' \<and> (n = i \<or> n \<in> set (thread_queue s')) \<and> runnable (threads a n) \<and> fst r = esp (threads s' n)
     \<and> state (threads s' n) = THREAD_RUNNING
     \<and> thread_queue s' = thread_queue a \<and> reap_list s' = reap_list a \<and> freed s' = freed a \<and> events s' = events a
     \<and> (\<forall>t. esp (threads s' t) = esp (threads a t) \<and> fpu_state (threads s' t) = fpu_state (threads a t))
     \<and> (\<forall>t. t \<noteq> n \<longrightarrow> state (threads s' t) = (if t = prev \<and> state (threads a t) = THREAD_RUNNING then THREAD_READY
                                             else state (threads a t)))
     \<and> (\<forall>t. t \<noteq> prev \<longrightarrow> thread_effective (threads s' t) = thread_effective (threads a t))
     \<and> (\<forall>t \<in> set (thread_queue s'). runnable (threads s' t) \<longrightarrow>
            n \<noteq> i \<and> thread_effective (threads s' t) \<le> thread_effective (threads s' n))
     \<and> (if n = prev then memory s' = memory a \<and> cpu_fpu s' = cpu_fpu a
        else memory s' = (if state (threads a prev) \<noteq> THREAD_DEAD
                          then mem_write (memory a) (fpu_state (threads a prev)) (cpu_fpu a) else memory a)
             \<and> cpu_fpu s' = mem_read (memory s') (fpu_state (threads a n)) FPU_STATE_SIZE))"

lemma pass_resultD:
  assumes "pass_result prev i n a (r, s')"
  shows "sched_core n i s'" "n = i \<or> n \<in> set (thread_queue s')" "r = esp (threads s' n)"
    "state (threads s' n) = THREAD_RUNNING"
    "\<forall>t \<in> set (thread_queue s'). runnable (threads s' t) \<longrightarrow> n \<noteq> i \<and> thread_effective (threads s' t) \<le> thread_effective (threads s' n)"
    "thread_queue s' = thread_queue a" "reap_list s' = reap_list a" "freed s' = freed a" "events s' = events a"
    "\<forall>t. esp (threads s' t) = esp (threads a t) \<and> fpu_state (threads s' t) = fpu_state (threads a t)"
    "\<forall>t. t \<noteq> n \<longrightarrow> state (threads s' t) = (if t = prev \<and> state (threads a t) = THREAD_RUNNING then THREAD_READY
                                           else state (threads a t))"
    "\<forall>t. t \<noteq> prev \<longrightarrow> thread_effective (threads s' t) = thread_effective (threads a t)"
    "if n = prev then memory s' = memory a \<and> cpu_fpu s' = cpu_fpu a
     else memory s' = (if state (threads a prev) \<noteq> THREAD_DEAD
                       then mem_write (memory a) (fpu_state (threads a prev)) (cpu_fpu a) else memory a)
          \<and> cpu_fpu s' = mem_read (memory s') (fpu_state (threads a n)) FPU_STATE_SIZE"
    "runnable (threads a n)"
  using assms unfolding pass_result_def Let_def fst_conv snd_conv by blast+

lemma switch_result:
  assumes core: "sched_core prev i a" and n: "n = i \<or> n \<in> set (thread_queue a)"
    and prev: "prev = i \<or> prev \<in> set (thread_queue a) \<or> state (threads a prev) = THREAD_DEAD"
    and best: "\<forall>t \<in> set (thread_queue a). runnable (threads (unboost prev a) t) \<longrightarrow>
        n \<noteq> i \<and> thread_effective (threads (unboost prev a) t) \<le> thread_effective (threads (unboost prev a) n)"
    and runs: "n \<in> set (thread_queue a) \<Longrightarrow> runnable (threads a n)"
  shows "pass_result prev i n a (switch_to prev n (unboost prev a))"
proof -
  let ?s = "unboost prev a" and ?s' = "snd (switch_to prev n (unboost prev a))"
  have c: "sched_core prev i ?s" by (rule unboost_core [OF core])
  have n': "n = i \<or> n \<in> set (thread_queue ?s)" and
    p': "prev = i \<or> prev \<in> set (thread_queue ?s) \<or> state (threads ?s prev) = THREAD_DEAD"
    using n prev by (simp_all add: unboost_props)
  note sc = switch_core [OF c n' p']
  have rn: "runnable (threads a n)" using n runs core by (auto simp: sched_core_def)
  have st: "state (threads ?s' t) = (if t = prev \<and> state (threads a t) = THREAD_RUNNING then THREAD_READY else state (threads a t))"
    if "t \<noteq> n" for t
    using that by (simp add: switch_to_threads Let_def retire_props unboost_props)
  have eff: "thread_effective (threads ?s' t) = thread_effective (threads a t)" if "t \<noteq> prev" for t
    using that sc(5) by (simp add: unboost_props)
  have best': "n \<noteq> i \<and> thread_effective (threads ?s' t) \<le> thread_effective (threads ?s' n)"
    if t: "t \<in> set (thread_queue a)" "runnable (threads ?s' t)" for t
  proof (cases "t = n")
    case True
    then show ?thesis using t runs core by (auto simp: sched_core_def)
  next
    case False
    then have "runnable (threads ?s t)" using t(2) sc(4) [OF False] by simp
    then show ?thesis using best t(1) sc(5) by simp
  qed
  show ?thesis
    unfolding pass_result_def Let_def
    using rn sc(1,2) n st eff best' switch_mem [where prev = prev and n = n and s = ?s]
    by (simp add: switch_to_threads(2-7) unboost_props)
qed

lemma handler_result:
  assumes core: "sched_core prev i s" and prev: "prev = i \<or> prev \<in> set (thread_queue s)" and q: "thread_queue s \<noteq> []"
  obtains n where "pass_result prev i n (sched_account now e prev s) (thread_handler_c now e s)"
    "thread_handler_c now e s = sched_pick e prev (sched_account now e prev s)"
proof -
  define a where "a = sched_account now e prev s"
  note ac = account_core [OF core prev, where now = now and e = e, folded a_def]
  note ap = account_props [OF core prev, where now = now and e = e, folded a_def]
  have h: "thread_handler_c now e s = sched_pick e prev a"
    using core q by (simp add: thread_handler_c_def a_def sched_core_def)
  have "\<exists>n. pass_result prev i n a (sched_pick e prev a)"
  proof (cases rule: pick_cases [OF ac(1,3), where e = e])
    case (1 p)
    let ?s' = "upd_thread prev (ticks_remaining_update (\<lambda>n. n - 1)) (unboost prev a)"
    have run: "state (threads a prev) = THREAD_RUNNING" and pi: "prev \<noteq> i"
      using 1(2) ap(5) by (auto simp: prev_continues_def)
    have inq: "prev \<in> set (thread_queue a)" using ac(3) pi run by auto
    have "esp (threads a prev) = e"
      using ap(10) [of prev] ap(1) inq run by (auto simp: woken_def split: if_splits)
    moreover have core': "sched_core prev i ?s'"
      using unboost_core [OF ac(1)] by (auto simp: sched_core_def upd_thread_def runnable_def prio_ok_def)
    moreover have "thread_effective (threads ?s' t) = thread_effective (threads (unboost prev a) t)"
      "runnable (threads ?s' t) = runnable (threads (unboost prev a) t)" for t
      by (simp_all add: upd_thread_def thread_effective_def runnable_def)
    moreover have "runnable (threads a prev)" using run by (simp add: runnable_def)
    moreover have "state (threads a t) \<noteq> THREAD_RUNNING" if "t \<noteq> prev" "t \<in> set (thread_queue a)" for t
      using ac(1) that by (auto simp: sched_core_def)
    ultimately have "pass_result prev i prev a (e, ?s')"
      unfolding pass_result_def Let_def
      using inq pi run max_priority_Some(2) [OF 1(1)] 1(3)
      by (simp add: unboost_props) (simp add: upd_thread_def unboost_props)
    then show ?thesis using 1(4) by auto
  next
    case 2
    have "pass_result prev i i a (switch_to prev i (unboost prev a))"
      using 2(1) ac(1) by (intro switch_result ac) (auto simp: max_priority_None unboost_props sched_core_def)
    then show ?thesis using 2(2) by auto
  next
    case (3 p n)
    have "n \<noteq> i" using 3(2) ac(1) by (auto simp: sched_core_def)
    then have "pass_result prev i n a (switch_to prev n (unboost prev a))"
      using 3(2-4) max_priority_Some(2) [OF 3(1)] by (intro switch_result ac) (auto simp: unboost_props)
    then show ?thesis using 3(6) by auto
  qed
  then show thesis using that h a_def by auto
qed

section \<open>One pass of the handler\<close>

lemma sched_okE:
  assumes "sched_ok s"
  obtains prev i where "sched_core prev i s" "prev = i \<or> prev \<in> set (thread_queue s)" "current_thread s = Some prev"
    "idle_thread s = Some i"
  using assms by (auto simp: sched_ok_def sched_core_def)

lemma sched_okI: "sched_core n i s \<Longrightarrow> n = i \<or> n \<in> set (thread_queue s) \<Longrightarrow> sched_ok s"
  by (auto simp: sched_ok_def)

lemma runs: "sched_core n i s' \<Longrightarrow> current_thread s' = Some n \<and> idle_thread s' = Some i
    \<and> (\<forall>t \<in> set (thread_queue s'). state (threads s' t) = THREAD_RUNNING \<longrightarrow> t = n)"
  by (simp add: sched_core_def)

text \<open>A small system: the idle thread 0, the current thread 1, and the ready threads 2 and 3.\<close>

definition demo_thread :: "thread_state \<Rightarrow> nat \<Rightarrow> u32 \<Rightarrow> thread" where
  "demo_thread st prio a = zero_thread\<lparr>state := st, priority := prio, dyn_priority := prio, ticks_remaining := of_nat prio,
     fpu_state := a, esp := a - 64\<rparr>"

definition demo_fpu :: "u8 list" where "demo_fpu = replicate 512 7"

definition demo_sched :: sched where
  "demo_sched = \<lparr> threads = (\<lambda>_. zero_thread)(0 := demo_thread THREAD_READY 1 0x1000, 1 := demo_thread THREAD_RUNNING 3 0x3000,
       2 := demo_thread THREAD_READY 3 0x5000, 3 := demo_thread THREAD_READY 2 0x7000),
     thread_queue = [1, 2, 3], current_thread = Some 1, idle_thread = Some 0, reap_list = [], freed = [],
     sched_last_ms = 0, events = (\<lambda>_. \<lparr>signaled = False, waiters = []\<rparr>), memory = (\<lambda>_. 0), cpu_fpu = demo_fpu \<rparr>"

lemma demo_fields [simp]:
  "thread_queue demo_sched = [1, 2, 3]" "current_thread demo_sched = Some 1" "idle_thread demo_sched = Some 0"
  "reap_list demo_sched = []" "freed demo_sched = []" "cpu_fpu demo_sched = demo_fpu" "memory demo_sched = (\<lambda>_. 0)"
  "sched_last_ms demo_sched = 0" "events demo_sched = (\<lambda>_. \<lparr>signaled = False, waiters = []\<rparr>)"
  "threads demo_sched = (\<lambda>_. zero_thread)(0 := demo_thread THREAD_READY 1 0x1000, 1 := demo_thread THREAD_RUNNING 3 0x3000,
       2 := demo_thread THREAD_READY 3 0x5000, 3 := demo_thread THREAD_READY 2 0x7000)"
  by (simp_all only: demo_sched_def sched.simps)

lemma demo_core: "sched_core 1 0 demo_sched"
proof -
  have st: "state (demo_thread st p a) = st" "prio_ok (demo_thread st p a) = (1 \<le> p \<and> p \<le> 5)" for st p a
    by (auto simp: demo_thread_def prio_ok_def)
  show ?thesis unfolding sched_core_def by (simp add: st runnable_def)
qed

lemma demo_ok: "sched_ok demo_sched"
  by (rule sched_okI [OF demo_core]) simp

text \<open>C3: \<open>thread_handler_c\<close> keeps the scheduler's invariant; when the run queue is not empty the thread it
  resumes is the only one that is RUNNING, its saved frame is the one returned, no other runnable thread of the
  queue has a higher effective priority, and the idle thread runs only when no thread of the queue can.\<close>

theorem handler_picks_best:
  assumes "sched_ok s" "thread_handler_c now e s = (r, s')"
  shows "sched_ok s' \<and> (thread_queue s \<noteq> [] \<longrightarrow> (\<exists>n. current_thread s' = Some n \<and> r = esp (threads s' n)
      \<and> state (threads s' n) = THREAD_RUNNING
      \<and> (\<forall>t \<in> set (thread_queue s'). state (threads s' t) = THREAD_RUNNING \<longrightarrow> t = n)
      \<and> (Some n = idle_thread s' \<or> n \<in> set (thread_queue s'))
      \<and> (\<forall>t \<in> set (thread_queue s'). runnable (threads s' t) \<longrightarrow>
            Some n \<noteq> idle_thread s' \<and> thread_effective (threads s' t) \<le> thread_effective (threads s' n))))"
proof (cases "thread_queue s = []")
  case True
  then have "s' = s" using assms by (auto simp: thread_handler_c_def split: option.splits)
  then show ?thesis using True assms by simp
next
  case False
  from assms(1) obtain prev i where c: "sched_core prev i s" "prev = i \<or> prev \<in> set (thread_queue s)" by (rule sched_okE)
  obtain n where "pass_result prev i n (sched_account now e prev s) (r, s')"
    by (rule handler_result [OF c False, where now = now and e = e, unfolded assms(2)])
  note p = pass_resultD [OF this]
  have "sched_ok s'" using p(1,2) by (rule sched_okI)
  moreover have "current_thread s' = Some n \<and> r = esp (threads s' n) \<and> state (threads s' n) = THREAD_RUNNING
      \<and> (\<forall>t \<in> set (thread_queue s'). state (threads s' t) = THREAD_RUNNING \<longrightarrow> t = n)
      \<and> (Some n = idle_thread s' \<or> n \<in> set (thread_queue s'))
      \<and> (\<forall>t \<in> set (thread_queue s'). runnable (threads s' t) \<longrightarrow>
            Some n \<noteq> idle_thread s' \<and> thread_effective (threads s' t) \<le> thread_effective (threads s' n))"
    using p(2-5) runs [OF p(1)] by simp
  ultimately show ?thesis by blast
qed

theorem handler_picks_best_witness: "sched_ok (snd (thread_handler_c 7 0x2000 demo_sched))"
  using handler_picks_best [OF demo_ok, of 7 "0x2000" "fst (thread_handler_c 7 0x2000 demo_sched)"
    "snd (thread_handler_c 7 0x2000 demo_sched)"] by simp

text \<open>the rotation is round robin and preemption strict. The threads between the outgoing thread and the
  one resumed, in circle order, are not runnable at its effective priority; and a thread whose quantum is not
  used up (\<open>RUNNING\<close> with more than one tick left) gives way only to a strictly higher effective priority.\<close>

theorem round_robin:
  assumes "sched_ok s" "current_thread s = Some prev" "thread_queue s \<noteq> []"
    and h: "thread_handler_c now e s = (r, s')" "current_thread s' = Some n" "n \<noteq> prev" "Some n \<noteq> idle_thread s"
  shows "(\<exists>xs ys. (if Some prev = idle_thread s \<or> state (threads s prev) = THREAD_DEAD then thread_queue s'
                  else circle_after prev (thread_queue s')) = xs @ n # ys
         \<and> (\<forall>t \<in> set xs. \<not> (runnable (threads s' t) \<and> thread_effective (threads s' t) = thread_effective (threads s' n))))
     \<and> (Some prev \<noteq> idle_thread s \<and> state (threads s prev) = THREAD_RUNNING \<and> ticks_remaining (threads s prev) > 1 \<longrightarrow>
         thread_effective (threads s' prev) < thread_effective (threads s' n))"
proof -
  from assms(1,2) obtain i where c: "sched_core prev i s" "prev = i \<or> prev \<in> set (thread_queue s)" and i: "idle_thread s = Some i"
    by (auto elim: sched_okE)
  define a where "a = sched_account now e prev s"
  note ac = account_core [OF c, where now = now and e = e, folded a_def]
  note ap = account_props [OF c, where now = now and e = e, folded a_def]
  have pick: "sched_pick e prev a = (r, s')"
    using handler_result [OF c assms(3)] h(1) unfolding a_def by metis
  have ni: "n \<noteq> i" using h(4) i by simp
  have dead: "state (threads a prev) = THREAD_DEAD \<longleftrightarrow> state (threads s prev) = THREAD_DEAD"
    using ap(10) [of prev] ap(12) [of prev] by (cases "prev \<in> set (thread_queue s)") (auto simp: woken_def)
  show ?thesis
  proof (cases rule: pick_cases [OF ac(1,3), where e = e])
    case (1 p)
    then have "current_thread s' = Some prev" using pick ap(4) by (auto simp: upd_thread_def unboost_props)
    then show ?thesis using h by simp
  next
    case 2
    then have "current_thread s' = Some i" using pick switch_to_threads(3) by (metis snd_conv)
    then show ?thesis using h ni by simp
  next
    case (3 p m)
    then have s': "s' = snd (switch_to prev m (unboost prev a))" and "m = n"
      using pick h(2) switch_to_threads(3) by (metis snd_conv, metis snd_conv option.inject)
    note n3 = 3 [unfolded \<open>m = n\<close>] and s' = s' [unfolded \<open>m = n\<close>]
    have uc: "sched_core prev i (unboost prev a)" by (rule unboost_core [OF ac(1)])
    have nq: "n = i \<or> n \<in> set (thread_queue (unboost prev a))" using n3(2) by (simp add: unboost_props)
    have pq: "prev = i \<or> prev \<in> set (thread_queue (unboost prev a)) \<or> state (threads (unboost prev a) prev) = THREAD_DEAD"
      using ac(3) by (simp add: unboost_props)
    note sc = switch_core [OF uc nq pq, folded s']
    have q: "thread_queue s' = thread_queue a" by (simp add: s' switch_to_threads unboost_props)
    let ?circle = "if prev = i \<or> state (threads a prev) = THREAD_DEAD then thread_queue a else circle_after prev (thread_queue a)"
    have "\<exists>xs ys. ?circle = xs @ n # ys \<and> (\<forall>t \<in> set xs. \<not> (runnable (threads (unboost prev a) t) \<and> thread_effective (threads (unboost prev a) t) = p))"
      using find_split [OF n3(5) [unfolded find_next_def]] by blast
    then obtain xs ys where xs: "?circle = xs @ n # ys"
      "\<forall>t \<in> set xs. \<not> (runnable (threads (unboost prev a) t) \<and> thread_effective (threads (unboost prev a) t) = p)" by blast
    have "\<not> (runnable (threads s' t) \<and> thread_effective (threads s' t) = thread_effective (threads s' n))" if "t \<in> set xs" for t
    proof (cases "t = n")
      case True
      then show ?thesis using xs(2) that n3(3,4) by auto
    next
      case False
      then show ?thesis using xs(2) that sc(4) [OF False] sc(5) n3(4) by auto
    qed
    moreover have "thread_effective (threads s' prev) < thread_effective (threads s' n)"
      if "prev \<noteq> i" "state (threads s prev) = THREAD_RUNNING" "ticks_remaining (threads s prev) > 1"
    proof -
      have pin: "prev \<in> set (thread_queue s)" using c(2) that(1) by simp
      then have run: "state (threads a prev) = THREAD_RUNNING" "ticks_remaining (threads a prev) > 1"
        using ap(10) [OF pin] that by (simp_all add: woken_def)
      then have cont: "prev_continues prev a" using that(1) ap(5) by (simp add: prev_continues_def)
      have pina: "prev \<in> set (thread_queue (unboost prev a))" using ac(3) run that(1) by (simp add: unboost_props)
      have "thread_effective (threads (unboost prev a) prev) \<le> p"
        using max_priority_Some(2) [OF n3(1) pina] run by (simp add: unboost_props) (simp add: runnable_def)
      moreover have "thread_effective (threads (unboost prev a) prev) \<noteq> p"
      proof
        assume "thread_effective (threads (unboost prev a) prev) = p"
        then have "fst (sched_pick e prev a) = e \<and> current_thread (snd (sched_pick e prev a)) = Some prev"
          using cont n3(1) ap(4) unfolding sched_pick_def Let_def unboost_def [symmetric]
          by (simp add: unboost_props upd_thread_def)
        then show False using pick h by simp
      qed
      ultimately show ?thesis using sc(5) n3(4) by simp
    qed
    ultimately show ?thesis using xs(1) i q dead by (intro conjI impI exI [of _ xs] exI [of _ ys]) auto
  qed
qed

section \<open>Reaping\<close>

lemma handler_resultE:
  assumes "sched_core prev i s" "prev = i \<or> prev \<in> set (thread_queue s)" "thread_queue s \<noteq> []"
    "thread_handler_c now e s = (r, s')"
  obtains n where "pass_result prev i n (sched_account now e prev s) (r, s')"
  using handler_result [OF assms(1-3), where now = now and e = e] assms(4) by metis

text \<open>The small system while the idle thread runs.\<close>

definition demo_idle :: sched where
  "demo_idle = demo_sched\<lparr>thread_queue := [2, 3], current_thread := Some 0\<rparr>"

lemma demo_idle_fields [simp]:
  "thread_queue demo_idle = [2, 3]" "current_thread demo_idle = Some 0" "idle_thread demo_idle = Some 0"
  "reap_list demo_idle = []" "freed demo_idle = []" "cpu_fpu demo_idle = demo_fpu" "threads demo_idle = threads demo_sched"
  by (simp_all add: demo_idle_def)

lemma demo_idle_core: "sched_core 0 0 demo_idle"
proof -
  have st: "state (demo_thread st p a) = st" "prio_ok (demo_thread st p a) = (1 \<le> p \<and> p \<le> 5)" for st p a
    by (auto simp: demo_thread_def prio_ok_def)
  show ?thesis unfolding sched_core_def by (simp add: st runnable_def)
qed

lemma demo_idle_ok: "sched_ok demo_idle"
  by (rule sched_okI [OF demo_idle_core]) simp

lemma demo_idle_switch:
  obtains n where "current_thread (snd (thread_handler_c 7 0x2000 demo_idle)) = Some n" "n = 2 \<or> n = 3"
proof -
  obtain n where "pass_result 0 0 n (sched_account 7 0x2000 0 demo_idle)
      (fst (thread_handler_c 7 0x2000 demo_idle), snd (thread_handler_c 7 0x2000 demo_idle))"
    by (rule handler_resultE [OF demo_idle_core _ _ prod.collapse [symmetric]]) simp_all
  note p = pass_resultD [OF this]
  have z: "0 = (0 :: nat) \<or> 0 \<in> set (thread_queue demo_idle)" by simp
  note ap = account_props [OF demo_idle_core z, where now = 7 and e = "0x2000"]
  have st: "state (demo_thread st p a) = st" for st p a by (simp add: demo_thread_def)
  have q: "thread_queue (snd (thread_handler_c 7 0x2000 demo_idle)) = [2, 3]" using p(6) ap(1) by (simp add: st)
  have "state (threads (sched_account 7 0x2000 0 demo_idle) 2) = THREAD_READY" using ap(10) [of 2] by (simp add: st woken_def)
  then have "runnable (threads (snd (thread_handler_c 7 0x2000 demo_idle)) 2)"
    using p(4) p(11) by (cases "n = 2") (auto simp: runnable_def)
  then have "n \<noteq> 0" using p(5) q by auto
  then have "n = 2 \<or> n = 3" using p(2) q by auto
  then show thesis using that runs [OF p(1)] by blast
qed

theorem round_robin_witness:
  "\<exists>n xs ys. current_thread (snd (thread_handler_c 7 0x2000 demo_idle)) = Some n
     \<and> thread_queue (snd (thread_handler_c 7 0x2000 demo_idle)) = xs @ n # ys"
proof -
  obtain n where n: "current_thread (snd (thread_handler_c 7 0x2000 demo_idle)) = Some n" "n = 2 \<or> n = 3"
    by (rule demo_idle_switch)
  have q: "current_thread demo_idle = Some 0" "thread_queue demo_idle \<noteq> []" "n \<noteq> 0" "Some n \<noteq> idle_thread demo_idle" using n(2) by auto
  have i: "Some 0 = idle_thread demo_idle" by simp
  from round_robin [OF demo_idle_ok q(1,2) prod.collapse [symmetric] n(1) q(3,4), THEN conjunct1] i n(1)
  show ?thesis by metis
qed

lemma thread_exit_props:
  assumes "current_thread s = Some c"
  shows "threads (thread_exit s) t = (if t = c then (threads s c)\<lparr>state := THREAD_DEAD\<rparr> else threads s t)"
    "thread_queue (thread_exit s) = thread_queue s" "current_thread (thread_exit s) = Some c"
    "idle_thread (thread_exit s) = idle_thread s" "reap_list (thread_exit s) = reap_list s" "freed (thread_exit s) = freed s"
  using assms by (simp_all add: thread_exit_def upd_thread_def)

text \<open>an exited thread leaves the CPU and the queue in the next pass, which does not give its block
  back (its stack carried the pass); the pass after that frees it, provided the queue is not empty then.\<close>

theorem dead_thread_reaped:
  assumes ok: "sched_ok s" and c: "current_thread s = Some c" "Some c \<noteq> idle_thread s"
    and h1: "thread_handler_c now e (thread_exit s) = (r1, s1)" and h2: "thread_handler_c now' e' s1 = (r2, s2)"
  shows "c \<notin> set (thread_queue s1) \<and> current_thread s1 \<noteq> Some c \<and> c \<in> set (reap_list s1) \<and> c \<notin> set (freed s1)
    \<and> (thread_queue s1 \<noteq> [] \<longrightarrow> c \<in> set (freed s2) \<and> c \<notin> set (thread_queue s2) \<and> current_thread s2 \<noteq> Some c)"
proof -
  obtain i where k: "sched_core c i s" "c = i \<or> c \<in> set (thread_queue s)" and i: "idle_thread s = Some i"
    using ok c(1) by (auto elim: sched_okE)
  have cq: "c \<in> set (thread_queue s)" and ci: "c \<noteq> i" using k(2) c(2) i by auto
  let ?x = "thread_exit s"
  have kx: "sched_core c i ?x" using k(1) ci
    by (auto simp: sched_core_def thread_exit_props [OF c(1)] prio_ok_def)
  have cx: "c = i \<or> c \<in> set (thread_queue ?x)" "thread_queue ?x \<noteq> []" using cq by (auto simp: thread_exit_props [OF c(1)])
  note ap = account_props [OF kx cx(1), where now = now and e = e]
  obtain n where "pass_result c i n (sched_account now e c ?x) (r1, s1)" by (rule handler_resultE [OF kx cx h1])
  note p = pass_resultD [OF this]
  have q1: "thread_queue s1 = filter (\<lambda>t. state (threads ?x t) \<noteq> THREAD_DEAD) (thread_queue ?x)"
    and l1: "reap_list s1 = rev (filter (\<lambda>t. state (threads ?x t) = THREAD_DEAD) (thread_queue ?x))"
    using p(6,7) ap(1,2) by simp_all
  have notq: "c \<notin> set (thread_queue s1)" and inl: "c \<in> set (reap_list s1)"
    unfolding q1 l1 using cq by (simp_all add: thread_exit_props [OF c(1)])
  have nc: "n \<noteq> c" using p(2) notq ci by auto
  have cur1: "current_thread s1 = Some n" using runs [OF p(1)] by simp
  have "c \<notin> set (freed s1)" using p(1) inl by (auto simp: sched_core_def)
  moreover have "c \<in> set (freed s2) \<and> c \<notin> set (thread_queue s2) \<and> current_thread s2 \<noteq> Some c" if q: "thread_queue s1 \<noteq> []"
  proof -
    note ap2 = account_props [OF p(1,2), where now = now' and e = e']
    obtain m where "pass_result n i m (sched_account now' e' n s1) (r2, s2)"
      by (rule handler_resultE [OF p(1,2) q h2])
    note p2 = pass_resultD [OF this]
    have "c \<in> set (freed s2)" using p2(8) ap2(3) inl by simp
    moreover have "c \<notin> set (thread_queue s2)" using p2(6) ap2(1) notq by simp
    moreover have "m \<noteq> c" using p2(2) calculation(2) ci by auto
    ultimately show ?thesis using runs [OF p2(1)] by simp
  qed
  ultimately show ?thesis using notq inl nc cur1 by simp
qed

lemma demo_current: "Some 1 \<noteq> idle_thread demo_sched" by simp

theorem dead_thread_reaped_witness:
  "1 \<in> set (reap_list (snd (thread_handler_c 7 0x2000 (thread_exit demo_sched))))"
  using dead_thread_reaped [OF demo_ok demo_fields(2) demo_current prod.collapse [symmetric] prod.collapse [symmetric],
    where now = 7 and e = "0x2000"] by simp

section \<open>Dynamic priority\<close>

lemma charge_loop_closed:
  assumes "prio_ok t" "0 < a"
  shows "charge_loop a t = (let k = unat (cpu_used_ms t) div unat a in
      if k < dyn_priority t then t\<lparr>dyn_priority := dyn_priority t - k, cpu_used_ms := cpu_used_ms t mod a\<rparr>
      else t\<lparr>dyn_priority := 1, cpu_used_ms := 0\<rparr>)"
  using assms
proof (induction a t rule: charge_loop.induct)
  case (1 a t)
  have a: "0 < unat a" using 1(3) by (simp add: word_less_nat_alt)
  show ?case
  proof (cases "cpu_used_ms t \<ge> a")
    case False
    then have l: "unat (cpu_used_ms t) < unat a" by (simp add: word_le_nat_alt not_le)
    then have "cpu_used_ms t mod a = cpu_used_ms t" by (simp add: word_less_nat_alt word_arith_nat_mod)
    then show ?thesis using False l 1(2) by (subst charge_loop.simps) (simp add: prio_ok_def)
  next
    case True
    let ?u = "unat (cpu_used_ms t)"
    have ge: "unat a \<le> ?u" using True by (simp add: word_le_nat_alt)
    have k: "?u div unat a = Suc ((?u - unat a) div unat a)" using ge a by (simp add: le_div_geq)
    show ?thesis
    proof (cases "dyn_priority t \<le> 1")
      case T: True
      then show ?thesis using True k by (subst charge_loop.simps) (simp add: PRIORITY_IDLE_def Let_def, use 1(2) in \<open>auto simp: prio_ok_def\<close>)
    next
      case F: False
      let ?t = "t\<lparr>dyn_priority := dyn_priority t - 1, cpu_used_ms := cpu_used_ms t - a\<rparr>"
      have "prio_ok ?t" using F 1(2) by (auto simp: prio_ok_def)
      then have IH: "charge_loop a ?t = (let k = unat (cpu_used_ms ?t) div unat a in
          if k < dyn_priority ?t then ?t\<lparr>dyn_priority := dyn_priority ?t - k, cpu_used_ms := cpu_used_ms ?t mod a\<rparr>
          else ?t\<lparr>dyn_priority := 1, cpu_used_ms := 0\<rparr>)"
        using 1(1) True F 1(3) by (simp add: PRIORITY_IDLE_def)
      have u: "unat (cpu_used_ms t - a) = ?u - unat a" using True by (simp add: unat_sub)
      have m: "(cpu_used_ms t - a) mod a = cpu_used_ms t mod a"
        by (rule word_unat_eq_iff [THEN iffD2]) (simp add: unat_mod_distrib u le_mod_geq ge)
      have "charge_loop a t = charge_loop a ?t" using True F by (subst charge_loop.simps) (simp add: PRIORITY_IDLE_def)
      then show ?thesis using IH F by (auto simp: Let_def u m k)
    qed
  qed
qed

text \<open>charging CPU time has a closed form: every full allotment (two quanta of the base priority) of the
  accumulated time costs one level, the remainder is carried over; at the IDLE level the surplus is dropped.
  REALTIME threads keep their level.\<close>

theorem charge_closed_form:
  assumes "prio_ok t"
  shows "thread_charge_cpu ms t =
    (if priority t = PRIORITY_REALTIME then t\<lparr>cpu_used_ms := 0\<rparr>
     else let a = of_nat (2 * priority t); u = cpu_used_ms t + ms; k = unat u div (2 * priority t)
          in if k < dyn_priority t then t\<lparr>dyn_priority := dyn_priority t - k, cpu_used_ms := u mod a\<rparr>
             else t\<lparr>dyn_priority := PRIORITY_IDLE, cpu_used_ms := 0\<rparr>)"
proof -
  have p: "1 \<le> priority t" "priority t \<le> 5" using assms by (auto simp: prio_ok_def)
  have a: "of_nat (priority t) * SCHED_DEGRADE_QUANTA * SCHED_TICK_MS = (of_nat (2 * priority t) :: u32)"
    by (simp add: SCHED_DEGRADE_QUANTA_def SCHED_TICK_MS_def)
  have u: "unat (of_nat (2 * priority t) :: u32) = 2 * priority t" using p(2) by (intro unat_of_nat_u32) simp
  have pos: "0 < (of_nat (2 * priority t) :: u32)" using u p(1) by (simp add: word_less_nat_alt)
  have "prio_ok (t\<lparr>cpu_used_ms := cpu_used_ms t + ms\<rparr>)" using assms by (simp add: prio_ok_def)
  from charge_loop_closed [OF this pos] show ?thesis
    unfolding thread_charge_cpu_def a u by (simp add: Let_def PRIORITY_IDLE_def)
qed

theorem charge_closed_form_witness:
  "dyn_priority (thread_charge_cpu 13 (demo_thread THREAD_RUNNING 3 0)) = 1"
proof -
  have "prio_ok (demo_thread THREAD_RUNNING 3 0)" by (simp add: demo_thread_def prio_ok_def)
  from charge_closed_form [OF this, of 13] show ?thesis
    by (simp add: demo_thread_def zero_thread_def PRIORITY_REALTIME_def Let_def)
qed

section \<open>The states of the other threads\<close>

text \<open>A pass never unblocks, resurrects or stops a thread.\<close>

lemma handler_states:
  assumes ok: "sched_ok s" and h: "thread_handler_c now e s = (r, s')"
  shows "sched_ok s'"
    "state (threads s t) = THREAD_BLOCKED \<Longrightarrow> state (threads s' t) = THREAD_BLOCKED"
    "state (threads s t) = THREAD_DEAD \<Longrightarrow> state (threads s' t) = THREAD_DEAD"
    "runnable (threads s t) \<Longrightarrow> runnable (threads s' t)"
    "idle_thread s' = idle_thread s"
proof -
  obtain prev i where c: "sched_core prev i s" "prev = i \<or> prev \<in> set (thread_queue s)" "idle_thread s = Some i"
    using ok by (rule sched_okE)
  have *: "sched_ok s' \<and> idle_thread s' = idle_thread s \<and> (state (threads s t) = THREAD_BLOCKED \<longrightarrow> state (threads s' t) = THREAD_BLOCKED)
    \<and> (state (threads s t) = THREAD_DEAD \<longrightarrow> state (threads s' t) = THREAD_DEAD)
    \<and> (runnable (threads s t) \<longrightarrow> runnable (threads s' t))"
  proof (cases "thread_queue s = []")
    case True
    then have "s' = s" using h by (auto simp: thread_handler_c_def split: option.splits)
    then show ?thesis using ok by simp
  next
    case False
    note ap = account_props [OF c(1,2), where now = now and e = e]
    obtain n where "pass_result prev i n (sched_account now e prev s) (r, s')" by (rule handler_resultE [OF c(1,2) False h])
    note p = pass_resultD [OF this]
    let ?a = "sched_account now e prev s"
    have st: "state (threads ?a t) = state (threads s t) \<or> state (threads s t) = THREAD_SLEEPING"
      using ap(10) [of t] ap(12) [of t] by (cases "t \<in> set (thread_queue s)") (auto simp: woken_def)
    have "(state (threads ?a t) = THREAD_BLOCKED \<longrightarrow> state (threads s' t) = THREAD_BLOCKED)
      \<and> (state (threads ?a t) = THREAD_DEAD \<longrightarrow> state (threads s' t) = THREAD_DEAD)
      \<and> (runnable (threads ?a t) \<longrightarrow> runnable (threads s' t))"
    proof (cases "t = n")
      case True
      then show ?thesis using p(4,14) by (auto simp: runnable_def)
    next
      case F: False
      then show ?thesis using p(11) by (auto simp: runnable_def)
    qed
    then show ?thesis using st sched_okI [OF p(1,2)] runs [OF p(1)] c(3) by (auto simp: runnable_def)
  qed
  show "sched_ok s'" "idle_thread s' = idle_thread s"
    "state (threads s t) = THREAD_BLOCKED \<Longrightarrow> state (threads s' t) = THREAD_BLOCKED"
    "state (threads s t) = THREAD_DEAD \<Longrightarrow> state (threads s' t) = THREAD_DEAD"
    "runnable (threads s t) \<Longrightarrow> runnable (threads s' t)"
    using * by blast+
qed

end
