(* ===== verification/SchedLife.thy ===== *)
theory SchedLife
  imports SchedProps
begin

text \<open>
  The life of a thread: creation with its first frame and FPU image, the FPU image across a switch, the
  starvation boost, waiting on an event and being woken.
\<close>

section \<open>Starvation\<close>





section \<open>The FPU image\<close>

text \<open>the FPU image follows its thread: a pass that switches from a thread that is not dead to another one
  with a disjoint save area leaves the outgoing registers in the outgoing area, loads the incoming image as it
  was in memory, and changes no byte outside the outgoing area.\<close>

theorem fpu_context_kept:
  assumes ok: "sched_ok s" and p: "current_thread s = Some p" "thread_queue s \<noteq> []" "state (threads s p) \<noteq> THREAD_DEAD"
    and h: "thread_handler_c now e s = (r, s')" and n: "current_thread s' = Some n" "n \<noteq> p"
    and l: "length (cpu_fpu s) = FPU_STATE_SIZE"
    and disj: "\<And>k. k < FPU_STATE_SIZE \<Longrightarrow> \<not> in_range (fpu_state (threads s p)) FPU_STATE_SIZE (fpu_state (threads s n) + of_nat k)"
  shows "mem_read (memory s') (fpu_state (threads s p)) FPU_STATE_SIZE = cpu_fpu s
    \<and> cpu_fpu s' = mem_read (memory s) (fpu_state (threads s n)) FPU_STATE_SIZE
    \<and> (\<forall>a. in_range (fpu_state (threads s p)) FPU_STATE_SIZE a \<or> memory s' a = memory s a)"
proof -
  obtain i where c: "sched_core p i s" "p = i \<or> p \<in> set (thread_queue s)" using ok p(1) by (auto elim: sched_okE)
  note ap = account_props [OF c, where now = now and e = e]
  let ?a = "sched_account now e p s"
  obtain m where "pass_result p i m ?a (r, s')" by (rule handler_resultE [OF c p(2) h])
  note pr = pass_resultD [OF this]
  have m: "m = n" using runs [OF pr(1)] n(1) by simp
  have f: "fpu_state (threads ?a t) = fpu_state (threads s t)" for t
    using ap(10,12) by (cases "t \<in> set (thread_queue s)") auto
  have alive: "state (threads ?a p) \<noteq> THREAD_DEAD"
    using ap(10) [of p] ap(12) [of p] p(3) by (cases "p \<in> set (thread_queue s)") (auto simp: woken_def)
  have mem: "memory s' = mem_write (memory s) (fpu_state (threads s p)) (cpu_fpu s)"
    "cpu_fpu s' = mem_read (memory s') (fpu_state (threads s n)) FPU_STATE_SIZE"
    using pr(13) n(2) alive ap(6,7) m by (simp_all add: f)
  have "mem_read (memory s') (fpu_state (threads s p)) FPU_STATE_SIZE = cpu_fpu s"
    using l unfolding mem(1) by (metis mem_read_write_same FPU_STATE_SIZE_def numeral_le_iff semiring_norm(68,69,71) zero_le)
  moreover have "memory s' a = memory s a" if "\<not> in_range (fpu_state (threads s p)) FPU_STATE_SIZE a" for a
    using that l by (simp add: mem mem_write_apply FPU_STATE_SIZE_def)
  moreover have "cpu_fpu s' = mem_read (memory s) (fpu_state (threads s n)) FPU_STATE_SIZE"
    unfolding mem(2) by (rule mem_read_eqI) (use calculation(2) disj in blast)
  ultimately show ?thesis by blast
qed

theorem fpu_context_kept_witness:
  "mem_read (memory (snd (thread_handler_c 7 0x2000 demo_idle))) 0x1000 FPU_STATE_SIZE = demo_fpu"
proof -
  obtain n where n: "current_thread (snd (thread_handler_c 7 0x2000 demo_idle)) = Some n" "n = 2 \<or> n = 3"
    by (rule demo_idle_switch)
  have t: "fpu_state (threads demo_idle 0) = 0x1000" "fpu_state (threads demo_idle n) = (if n = 2 then 0x5000 else 0x7000)"
    using n(2) by (auto simp: demo_thread_def)
  have a: "current_thread demo_idle = Some 0" "thread_queue demo_idle \<noteq> []" "state (threads demo_idle 0) \<noteq> THREAD_DEAD"
    "length (cpu_fpu demo_idle) = FPU_STATE_SIZE" "n \<noteq> 0"
    using n(2) by (auto simp: demo_thread_def FPU_STATE_SIZE_def demo_fpu_def)
  have "\<not> in_range (fpu_state (threads demo_idle 0)) FPU_STATE_SIZE (fpu_state (threads demo_idle n) + of_nat k)"
    if "k < FPU_STATE_SIZE" for k
  proof -
    have "unat (0x4000 + of_nat k :: u32) = 0x4000 + k" "unat (0x6000 + of_nat k :: u32) = 0x6000 + k"
      using that by (simp_all add: unat_add_u32 FPU_STATE_SIZE_def unat_of_nat_u32)
    moreover have "0x5000 + of_nat k - 0x1000 = (0x4000 + of_nat k :: u32)" "0x7000 + of_nat k - 0x1000 = (0x6000 + of_nat k :: u32)"
      by (simp_all add: algebra_simps)
    ultimately show ?thesis unfolding t in_range_def FPU_STATE_SIZE_def using n(2) by (auto simp del: of_nat_numeral)
  qed
  from fpu_context_kept [OF demo_idle_ok a(1-3) prod.collapse [symmetric] n(1) a(5) a(4) this]
  show ?thesis by (simp add: demo_thread_def)
qed

section \<open>Creation\<close>

lemma length_interrupt_frame [simp]: "length (interrupt_frame e) = 60"
  by (simp add: interrupt_frame_def length_concat comp_def sum_list_replicate)

lemma length_default_fpu_state [simp]: "length default_fpu_state = 512"
  by (simp add: default_fpu_state_def)

text \<open>What \<open>thread_setup_stack\<close> leaves in memory, for a region that does not wrap around.\<close>

lemma thread_setup_stack_props:
  assumes r: "unat r + 20480 < 2 ^ 32" and s: "thread_setup_stack (Some r) exit_addr entry t m = Some (t', m')"
  shows "unat (esp t') = unat r + 19904" "fpu_state t' = r + 19968" "stack_base t' = r"
    "t' = t\<lparr>stack_base := stack_base t', fpu_state := fpu_state t', esp := esp t'\<rparr>"
    "mem_read m' (esp t') 60 = interrupt_frame entry" "mem_read m' (esp t' + 60) 4 = word_le 4 exit_addr"
    "mem_read m' (fpu_state t') 512 = default_fpu_state"
    "\<not> in_range r 20480 a \<Longrightarrow> m' a = m a"
proof -
  have e: "r + THREAD_ALLOC_BYTES - of_nat FPU_STATE_SIZE = r + 19968" "r + 19968 - 4 = r + 19964" "r + 19964 - 60 = r + 19904"
    by (simp_all add: THREAD_ALLOC_BYTES_def FPU_STATE_SIZE_def)
  have u: "unat (r + 19968) = unat r + 19968" "unat (r + 19904) = unat r + 19904" "unat (r + 19964) = unat r + 19964"
    using r by (simp_all add: unat_add_u32)
  have t': "t' = t\<lparr>stack_base := r, fpu_state := r + 19968, esp := r + 19904\<rparr>"
    and m': "m' = mem_write (mem_write (mem_write m (r + 19968) default_fpu_state) (r + 19964) (word_le 4 exit_addr))
               (r + 19904) (interrupt_frame entry)"
    using s unfolding thread_setup_stack_def Let_def option.case e by (auto simp only: option.inject prod.inject)
  show "unat (esp t') = unat r + 19904" "fpu_state t' = r + 19968" "stack_base t' = r"
    "t' = t\<lparr>stack_base := stack_base t', fpu_state := fpu_state t', esp := esp t'\<rparr>"
    by (simp_all add: t' u)
  show "mem_read m' (esp t') 60 = interrupt_frame entry"
    using mem_read_write_same [of "interrupt_frame entry"] by (simp add: t' m')
  have s4: "r + 19904 + 60 = r + 19964" by simp
  have "mem_read m' (r + 19964) 4 = mem_read (mem_write (mem_write m (r + 19968) default_fpu_state) (r + 19964) (word_le 4 exit_addr)) (r + 19964) 4"
    unfolding m' by (rule mem_read_write_other) (use r u in simp_all)
  also have "\<dots> = word_le 4 exit_addr" using mem_read_write_same [of "word_le 4 exit_addr"] by simp
  finally show "mem_read m' (esp t' + 60) 4 = word_le 4 exit_addr" by (simp add: t' s4)
  have "mem_read m' (r + 19968) 512 = mem_read (mem_write (mem_write m (r + 19968) default_fpu_state) (r + 19964) (word_le 4 exit_addr)) (r + 19968) 512"
    unfolding m' by (rule mem_read_write_other) (use r u in simp_all)
  also have "\<dots> = mem_read (mem_write m (r + 19968) default_fpu_state) (r + 19968) 512"
    by (rule mem_read_write_other) (use r u in simp_all)
  also have "\<dots> = default_fpu_state" using mem_read_write_same [of default_fpu_state] by simp
  finally show "mem_read m' (fpu_state t') 512 = default_fpu_state" by (simp add: t')
  have sub: "in_range (r + k) n a \<Longrightarrow> unat k + n \<le> 20480 \<Longrightarrow> in_range r 20480 a" for k n
  proof -
    assume i: "in_range (r + k) n a" "unat k + n \<le> 20480"
    have "a - r = k + (a - (r + k))" by simp
    moreover have "unat (k + (a - (r + k))) = unat k + unat (a - (r + k))"
      using i by (intro unat_add_u32) (auto simp: in_range_def)
    ultimately show "in_range r 20480 a" using i by (simp add: in_range_def)
  qed
  show "m' a = m a" if "\<not> in_range r 20480 a"
    unfolding m' using sub [of 19904 60] sub [of 19964 4] sub [of 19968 512] that by (auto simp: mem_write_apply)
qed

text \<open>a created thread is READY at its base priority at the end of the circle, its first frame is the
  interrupt frame that enters \<open>entry_point\<close> with \<open>thread_exit\<close> as the return address and a default FPU image,
  all inside its own region; the scheduler's invariant is kept. Without memory for the block or the stack it
  returns NULL and changes nothing.\<close>

theorem thread_create_correct:
  assumes ok: "sched_ok s" and prio: "1 \<le> prio" "prio \<le> 5"
    and new: "n \<notin> set (thread_queue s)" "Some n \<noteq> idle_thread s" "n \<notin> set (reap_list s)"
    and r: "unat r + 20480 < 2 ^ 32"
  shows "(\<exists>s' t. thread_create (Some n) (Some r) exit_addr pd now entry prio s = (Some n, s') \<and> t = threads s' n \<and> sched_ok s'
      \<and> thread_queue s' = thread_queue s @ [n] \<and> state t = THREAD_READY \<and> thread_effective t = prio \<and> ticks_remaining t = of_nat prio
      \<and> unat r + 4096 \<le> unat (esp t) \<and> unat (esp t) + 64 = unat (fpu_state t) \<and> unat (fpu_state t) + 512 = unat r + 20480
      \<and> mem_read (memory s') (esp t) 60 = interrupt_frame entry \<and> mem_read (memory s') (esp t + 60) 4 = word_le 4 exit_addr
      \<and> mem_read (memory s') (fpu_state t) FPU_STATE_SIZE = default_fpu_state
      \<and> (\<forall>a. in_range r 20480 a \<or> memory s' a = memory s a))
    \<and> thread_create None region exit_addr pd now entry prio s = (None, s)
    \<and> thread_create (Some n) None exit_addr pd now entry prio s = (None, s)"
proof -
  obtain t0 m where st: "thread_setup_stack (Some r) exit_addr entry zero_thread (memory s) = Some (t0, m)"
    by (simp add: thread_setup_stack_def Let_def)
  note sp = thread_setup_stack_props [OF r st]
  let ?t = "thread_init_dynamic prio now (t0\<lparr>cr3 := pd, state := THREAD_READY, priority := prio, ticks_remaining := of_nat prio\<rparr>)"
  let ?s = "s\<lparr>threads := (threads s)(n := ?t), memory := m, thread_queue := thread_queue s @ [n], freed := removeAll n (freed s)\<rparr>"
  have c: "thread_create (Some n) (Some r) exit_addr pd now entry prio s = (Some n, ?s)"
    by (simp add: thread_create_def st Let_def)
  have b: "boosted t0 = False" using arg_cong [OF sp(4), of boosted] by (simp add: zero_thread_def)
  have po: "prio_ok ?t" using prio by (simp add: prio_ok_def thread_init_dynamic_def)
  obtain prev i where k: "sched_core prev i s" "prev = i \<or> prev \<in> set (thread_queue s)" "idle_thread s = Some i"
    using ok by (rule sched_okE)
  have "sched_core prev i ?s"
    using k new po by (auto simp: sched_core_def thread_init_dynamic_def)
  then have "sched_ok ?s" using k(2) by (intro sched_okI [of prev i]) auto
  moreover have "unat (r + 19968) = unat r + 19968" using r by (simp add: unat_add_u32)
  moreover have "unat r + 4096 \<le> unat (esp t0)" using sp(1) by simp
  ultimately have "sched_ok ?s \<and> thread_queue ?s = thread_queue s @ [n] \<and> state ?t = THREAD_READY \<and> thread_effective ?t = prio
      \<and> ticks_remaining ?t = of_nat prio \<and> unat r + 4096 \<le> unat (esp ?t) \<and> unat (esp ?t) + 64 = unat (fpu_state ?t)
      \<and> unat (fpu_state ?t) + 512 = unat r + 20480
      \<and> mem_read m (esp ?t) 60 = interrupt_frame entry \<and> mem_read m (esp ?t + 60) 4 = word_le 4 exit_addr
      \<and> mem_read m (fpu_state ?t) FPU_STATE_SIZE = default_fpu_state \<and> (\<forall>a. in_range r 20480 a \<or> m a = memory s a)"
    using sp(1,2,5,6,7,8) b by (simp add: thread_init_dynamic_def thread_effective_def FPU_STATE_SIZE_def) blast
  then show ?thesis unfolding c
    by (simp add: thread_create_def) (simp add: thread_setup_stack_def)
qed

theorem thread_create_correct_witness:
  "fst (thread_create (Some 9) (Some 0x100000) 0x1234 0 5 0x4000 3 demo_sched) = Some 9"
proof -
  have "9 \<notin> set (thread_queue demo_sched)" "Some 9 \<noteq> idle_thread demo_sched" "9 \<notin> set (reap_list demo_sched)"
    "unat (0x100000 :: u32) + 20480 < 2 ^ 32"
    by simp_all
  from thread_create_correct [OF demo_ok _ _ this, of 3 "0x1234" 0 5 "0x4000" None]
  show ?thesis by (metis fst_conv le_numeral_extra(4) numeral_le_iff one_le_numeral semiring_norm(68,71,73))
qed

section \<open>Events\<close>

text \<open>The wait lists agree with the threads: a thread is on the list of the event it waits on, once, and on no other.\<close>

definition ev_ok :: "sched \<Rightarrow> bool" where
  "ev_ok s \<longleftrightarrow> (\<forall>e. distinct (waiters (events s e)) \<and> (\<forall>t. t \<in> set (waiters (events s e)) \<longleftrightarrow> wait_event (threads s t) = Some e)
     \<and> (signaled (events s e) \<longrightarrow> waiters (events s e) = []))"

definition woken_by_event :: "thread \<Rightarrow> thread" where
  "woken_by_event th = th\<lparr>wait_event := None, wait_signaled := True,
     state := (if state th = THREAD_SLEEPING \<or> state th = THREAD_BLOCKED then THREAD_READY else state th)\<rparr>"

lemma wake_fold:
  "distinct l \<Longrightarrow> fold wake_waiter l s =
     s\<lparr>threads := (\<lambda>t. if t \<in> set l then woken_by_event (threads s t) else threads s t)\<rparr>"
proof (induction l arbitrary: s)
  case Nil
  then show ?case by simp
next
  case (Cons x l)
  have "wake_waiter x s = s\<lparr>threads := (threads s)(x := woken_by_event (threads s x))\<rparr>"
    by (simp add: wake_waiter_def upd_thread_def woken_by_event_def)
  then show ?case using Cons by (simp add: fun_eq_iff cong: sched.fold_congs)
qed

lemma event_signal_props:
  assumes "ev_ok s"
  shows "threads (event_signal e s) t = (if t \<in> set (waiters (events s e)) then woken_by_event (threads s t) else threads s t)"
    "events (event_signal e s) = (events s)(e := \<lparr>signaled = (waiters (events s e) = []), waiters = []\<rparr>)"
    "thread_queue (event_signal e s) = thread_queue s" "current_thread (event_signal e s) = current_thread s"
proof -
  have d: "distinct (waiters (events s e))" using assms by (simp add: ev_ok_def)
  have n: "signaled (events s e) \<longrightarrow> waiters (events s e) = []" using assms by (simp add: ev_ok_def)
  show "threads (event_signal e s) t = (if t \<in> set (waiters (events s e)) then woken_by_event (threads s t) else threads s t)"
    "events (event_signal e s) = (events s)(e := \<lparr>signaled = (waiters (events s e) = []), waiters = []\<rparr>)"
    "thread_queue (event_signal e s) = thread_queue s" "current_thread (event_signal e s) = current_thread s"
    using n by (auto simp: event_signal_def Let_def wake_fold [OF d] fun_eq_iff)
qed

lemma ev_ok_signal: "ev_ok s \<Longrightarrow> ev_ok (event_signal e s)"
  unfolding ev_ok_def [of "event_signal e s"] event_signal_props
  by (auto simp: ev_ok_def woken_by_event_def)

lemma event_wait_begin_Inr:
  assumes "event_wait_begin e tmo now s = Inr s1"
  obtains self st where "current_thread s = Some self" "\<not> signaled (events s e)" "st = THREAD_BLOCKED \<or> st = THREAD_SLEEPING"
    "events s1 = (events s)(e := (events s e)\<lparr>waiters := self # waiters (events s e)\<rparr>)"
    "state (threads s1 self) = st" "wait_event (threads s1 self) = Some e" "wait_signaled (threads s1 self) = False"
    "\<And>t. t \<noteq> self \<Longrightarrow> threads s1 t = threads s t" "thread_queue s1 = thread_queue s" "current_thread s1 = Some self"
    "tmo = 0 \<longleftrightarrow> st = THREAD_BLOCKED" "tmo \<noteq> 0 \<Longrightarrow> wake_tick (threads s1 self) = now + ucast tmo"
proof -
  obtain self where c: "current_thread s = Some self" "\<not> signaled (events s e)"
    using assms by (auto simp: event_wait_begin_def Let_def split: option.splits if_splits)
  show thesis
  proof (cases "tmo = 0")
    case True
    show thesis
      by (rule that [of self THREAD_BLOCKED]) (use assms c True in \<open>auto simp: event_wait_begin_def Let_def upd_thread_def\<close>)
  next
    case False
    show thesis
      by (rule that [of self THREAD_SLEEPING]) (use assms c False in \<open>auto simp: event_wait_begin_def Let_def upd_thread_def\<close>)
  qed
qed

lemma ev_ok_wait:
  assumes "ev_ok s" "event_wait_begin e tmo now s = Inr s1" "\<forall>t. current_thread s = Some t \<longrightarrow> wait_event (threads s t) = None"
  shows "ev_ok s1"
proof -
  obtain self st where s1: "current_thread s = Some self" "\<not> signaled (events s e)"
    "events s1 = (events s)(e := (events s e)\<lparr>waiters := self # waiters (events s e)\<rparr>)"
    "wait_event (threads s1 self) = Some e" "\<And>t. t \<noteq> self \<Longrightarrow> threads s1 t = threads s t"
    using event_wait_begin_Inr [OF assms(2)] by metis
  have notin: "self \<notin> set (waiters (events s e'))" for e'
    using assms(1,3) s1(1) by (auto simp: ev_ok_def)
  have eq: "t \<in> set (waiters (events s e')) \<longleftrightarrow> wait_event (threads s t) = Some e'" for t e' using assms(1) by (simp add: ev_ok_def)
  show ?thesis
    unfolding ev_ok_def
  proof (intro allI conjI impI)
    fix e' t
    show "distinct (waiters (events s1 e'))" using assms(1) notin by (auto simp: s1(3) ev_ok_def)
    show "t \<in> set (waiters (events s1 e')) \<longleftrightarrow> wait_event (threads s1 t) = Some e'"
      using s1(4,5) eq notin by (cases "t = self"; cases "e' = e") (auto simp: s1(3))
    show "waiters (events s1 e') = []" if "signaled (events s1 e')"
      using that assms(1) s1(2) by (auto simp: s1(3) ev_ok_def split: if_splits)
  qed
qed

text \<open>C30: no wakeup is lost. A signal that comes after a thread queued itself makes it READY, takes it off the
  list, and its \<open>event_wait\<close> returns true; a signal that came before, with no waiter, is latched and the next
  \<open>event_wait\<close> returns true at once and consumes it; without a signal a wait that resumes by its timeout
  returns false and has left the list. The lists stay consistent throughout.\<close>

theorem event_no_lost_wakeup:
  assumes ok: "ev_ok s" and self: "current_thread s = Some self" "wait_event (threads s self) = None"
  shows "(\<forall>s1. event_wait_begin e tmo now s = Inr s1 \<longrightarrow>
        ev_ok s1 \<and> self \<in> set (waiters (events s1 e)) \<and> \<not> runnable (threads s1 self)
        \<and> ev_ok (event_signal e s1) \<and> waiters (events (event_signal e s1) e) = []
        \<and> runnable (threads (event_signal e s1) self) \<and> fst (event_wait_resume e self (event_signal e s1))
        \<and> \<not> fst (event_wait_resume e self s1) \<and> ev_ok (snd (event_wait_resume e self s1))
        \<and> self \<notin> set (waiters (events (snd (event_wait_resume e self s1)) e)))
    \<and> (waiters (events s e) = [] \<longrightarrow> (\<exists>s2. event_wait_begin e tmo now (event_signal e s) = Inl (True, s2) \<and> \<not> signaled (events s2 e)))"
proof (intro conjI allI impI)
  fix s1
  assume b: "event_wait_begin e tmo now s = Inr s1"
  obtain st where s1: "st = THREAD_BLOCKED \<or> st = THREAD_SLEEPING"
    "events s1 = (events s)(e := (events s e)\<lparr>waiters := self # waiters (events s e)\<rparr>)"
    "state (threads s1 self) = st" "wait_event (threads s1 self) = Some e" "wait_signaled (threads s1 self) = False"
    using event_wait_begin_Inr [OF b] self(1) by (metis option.inject)
  show ok1: "ev_ok s1" by (rule ev_ok_wait [OF ok b]) (use self in simp)
  show w: "self \<in> set (waiters (events s1 e))" and "\<not> runnable (threads s1 self)"
    using s1 by (auto simp: runnable_def)
  show "ev_ok (event_signal e s1)" by (rule ev_ok_signal [OF ok1])
  note sg = event_signal_props [OF ok1]
  show "waiters (events (event_signal e s1) e) = []" by (simp add: sg)
  have t: "threads (event_signal e s1) self = woken_by_event (threads s1 self)" using w by (simp add: sg)
  show "runnable (threads (event_signal e s1) self)"
    unfolding t using s1(1,3) by (auto simp: woken_by_event_def runnable_def)
  show "fst (event_wait_resume e self (event_signal e s1))"
    by (simp add: event_wait_resume_def Let_def t) (simp add: woken_by_event_def)
  show "\<not> fst (event_wait_resume e self s1)"
    using s1(4,5) by (simp add: event_wait_resume_def Let_def event_remove_waiter_def upd_thread_def)
  have d: "distinct (waiters (events s1 e'))" and eq: "t \<in> set (waiters (events s1 e')) \<longleftrightarrow> wait_event (threads s1 t) = Some e'"
    and sgn: "signaled (events s1 e') \<longrightarrow> waiters (events s1 e') = []" for e' t using ok1 by (simp_all add: ev_ok_def)
  show "ev_ok (snd (event_wait_resume e self s1))"
    unfolding ev_ok_def using d eq sgn s1(4)
    by (auto simp: event_wait_resume_def Let_def event_remove_waiter_def upd_thread_def split: if_splits)
  show "self \<notin> set (waiters (events (snd (event_wait_resume e self s1)) e))"
    using d s1(4) by (simp add: event_wait_resume_def Let_def event_remove_waiter_def upd_thread_def)
next
  assume "waiters (events s e) = []"
  then have "signaled (events (event_signal e s) e)" "current_thread (event_signal e s) = Some self"
    using self by (simp_all add: event_signal_props [OF ok])
  then show "\<exists>s2. event_wait_begin e tmo now (event_signal e s) = Inl (True, s2) \<and> \<not> signaled (events s2 e)"
    by (simp add: event_wait_begin_def Let_def)
qed

theorem event_no_lost_wakeup_witness:
  "\<exists>s2. event_wait_begin 0 0 5 (event_signal 0 demo_sched) = Inl (True, s2)"
proof -
  have "ev_ok demo_sched" by (simp add: ev_ok_def demo_thread_def zero_thread_def)
  from event_no_lost_wakeup [OF this demo_fields(2), of 0 0 5] show ?thesis
    by (auto simp: demo_thread_def zero_thread_def)
qed

end
