(* ===== verification/Mutex.thy ===== *)
theory Mutex
  imports SchedProps
begin

text \<open>
  The kernel mutex, \<open>kernel/boot/x86/mutex.c\<close>, and the recursive lock of the VFS on top of it,
  \<open>kernel/vfs/vfs_lock.c\<close>. A pointer to a thread that may be NULL is an option; the waiter nodes (on the
  stacks of the waiters) are the list of their threads. Each operation runs with interrupts disabled, so it
  is one step; a blocking \<open>mutex_lock\<close> is the step up to its yield, and what \<open>vfs_lock\<close> does once it is
  resumed is a step of its own.

  The second half is the system of all threads that use the lock, as a step relation over the scheduler of
  the other theories, and its invariant.
\<close>

section \<open>mutex.c\<close>

record mutex =
  locked :: bool
  owner :: "nat option"
  wait_list :: "nat list"

definition mutex_init :: mutex where
  "mutex_init = \<lparr>locked = False, owner = None, wait_list = []\<rparr>"

text \<open>\<open>None\<close>: a held lock taken before the scheduler exists dereferences the NULL \<open>current_thread\<close>. The flag of
  the result says that the caller was queued and the CPU given away.\<close>

definition mutex_lock :: "u64 \<Rightarrow> u32 \<Rightarrow> mutex \<Rightarrow> sched \<Rightarrow> (bool \<times> mutex \<times> sched) option" where
  "mutex_lock now e m s =
     (if \<not> locked m then Some (False, m\<lparr>locked := True, owner := current_thread s\<rparr>, s)
      else (case current_thread s of
              None \<Rightarrow> None
            | Some c \<Rightarrow> Some (True, m\<lparr>wait_list := wait_list m @ [c]\<rparr>,
                              snd (thread_yield now e (upd_thread c (state_update (\<lambda>_. THREAD_BLOCKED)) s)))))"

definition mutex_trylock :: "mutex \<Rightarrow> sched \<Rightarrow> bool \<times> mutex" where
  "mutex_trylock m s = (if \<not> locked m then (True, m\<lparr>locked := True, owner := current_thread s\<rparr>) else (False, m))"

definition mutex_unlock :: "mutex \<Rightarrow> sched \<Rightarrow> mutex \<times> sched" where
  "mutex_unlock m s =
     (if owner m \<noteq> current_thread s then (m, s)
      else (case wait_list m of
              w # ws \<Rightarrow> (m\<lparr>wait_list := ws, owner := Some w\<rparr>, upd_thread w (state_update (\<lambda>_. THREAD_READY)) s)
            | [] \<Rightarrow> (m\<lparr>locked := False, owner := None\<rparr>, s)))"

section \<open>vfs_lock.c\<close>

record vfs_lock_state =
  vfs_mutex :: mutex
  vfs_owner :: "nat option"
  vfs_depth :: u32

definition vfs_lock_init :: vfs_lock_state where
  "vfs_lock_init = \<lparr>vfs_mutex = mutex_init, vfs_owner = None, vfs_depth = 0\<rparr>"

text \<open>The end of \<open>vfs_lock\<close>, once the mutex is held.\<close>

definition vfs_lock_acquired :: "vfs_lock_state \<Rightarrow> sched \<Rightarrow> vfs_lock_state" where
  "vfs_lock_acquired v s = v\<lparr>vfs_owner := current_thread s, vfs_depth := 1\<rparr>"

definition vfs_lock :: "u64 \<Rightarrow> u32 \<Rightarrow> vfs_lock_state \<Rightarrow> sched \<Rightarrow> (bool \<times> vfs_lock_state \<times> sched) option" where
  "vfs_lock now e v s =
     (if vfs_depth v \<noteq> 0 \<and> vfs_owner v = current_thread s then Some (False, v\<lparr>vfs_depth := vfs_depth v + 1\<rparr>, s)
      else (case mutex_lock now e (vfs_mutex v) s of
              None \<Rightarrow> None
            | Some (blocked, m, s') \<Rightarrow>
                Some (blocked, if blocked then v\<lparr>vfs_mutex := m\<rparr> else vfs_lock_acquired (v\<lparr>vfs_mutex := m\<rparr>) s', s')))"

definition vfs_unlock :: "vfs_lock_state \<Rightarrow> sched \<Rightarrow> vfs_lock_state \<times> sched" where
  "vfs_unlock v s =
     (if vfs_depth v = 0 \<or> vfs_owner v \<noteq> current_thread s then (v, s)
      else let v1 = v\<lparr>vfs_depth := vfs_depth v - 1\<rparr>
           in if vfs_depth v1 \<noteq> 0 then (v1, s)
              else (case mutex_unlock (vfs_mutex v1) s of
                      (m, s') \<Rightarrow> (v1\<lparr>vfs_owner := None, vfs_mutex := m\<rparr>, s')))"

section \<open>The system\<close>

datatype place = Outside | Waiting | Inside

record system =
  vlock :: vfs_lock_state
  sch :: sched
  place_of :: "nat \<Rightarrow> place"

text \<open>The thread that executes: the current one, RUNNING, not the idle thread (which only halts).\<close>

definition acts :: "system \<Rightarrow> nat \<Rightarrow> bool" where
  "acts v c \<longleftrightarrow> current_thread (sch v) = Some c \<and> idle_thread (sch v) \<noteq> Some c \<and> state (threads (sch v) c) = THREAD_RUNNING"

inductive sys_step :: "system \<Rightarrow> system \<Rightarrow> bool" where
  lock: "acts v c \<Longrightarrow> place_of v c = Outside \<or> place_of v c = Inside \<and> vfs_depth (vlock v) \<noteq> 0xFFFFFFFF \<Longrightarrow>
     vfs_lock now e (vlock v) (sch v) = Some (blocked, l, s) \<Longrightarrow>
     sys_step v (v\<lparr>vlock := l, sch := s, place_of := (place_of v)(c := if blocked then Waiting else Inside)\<rparr>)"
| resume: "acts v c \<Longrightarrow> place_of v c = Waiting \<Longrightarrow>
     sys_step v (v\<lparr>vlock := vfs_lock_acquired (vlock v) (sch v), place_of := (place_of v)(c := Inside)\<rparr>)"
| unlock: "acts v c \<Longrightarrow> place_of v c \<noteq> Waiting \<Longrightarrow> vfs_unlock (vlock v) (sch v) = (l, s) \<Longrightarrow>
     sys_step v (v\<lparr>vlock := l, sch := s, place_of := (place_of v)(c := if vfs_owner l = Some c then Inside else Outside)\<rparr>)"
| tick: "sys_step v (v\<lparr>sch := snd (thread_handler_c now e (sch v))\<rparr>)"
| sleep: "acts v c \<Longrightarrow> place_of v c \<noteq> Waiting \<Longrightarrow> thread_sleep ms now e (sch v) = Some (r, s) \<Longrightarrow>
     sys_step v (v\<lparr>sch := s\<rparr>)"
| exit: "acts v c \<Longrightarrow> place_of v c = Outside \<Longrightarrow> sys_step v (v\<lparr>sch := thread_exit (sch v)\<rparr>)"

inductive reachable :: "system \<Rightarrow> bool" where
  start: "sched_ok s \<Longrightarrow> reachable \<lparr>vlock = vfs_lock_init, sch = s, place_of = (\<lambda>_. Outside)\<rparr>"
| step: "reachable v \<Longrightarrow> sys_step v v' \<Longrightarrow> reachable v'"

text \<open>The invariant: how the mutex, the lock's own bookkeeping, the places and the thread states agree.\<close>

definition lock_inv :: "system \<Rightarrow> bool" where
  "lock_inv v \<longleftrightarrow> (let m = vfs_mutex (vlock v) in
     sched_ok (sch v)
     \<and> (\<not> locked m \<longrightarrow> owner m = None) \<and> (owner m = None \<longrightarrow> wait_list m = [] \<and> \<not> locked m)
     \<and> distinct (wait_list m)
     \<and> (\<forall>t. place_of v t = Inside \<longleftrightarrow> vfs_owner (vlock v) = Some t)
     \<and> (\<forall>t. vfs_owner (vlock v) = Some t \<longrightarrow> owner m = Some t)
     \<and> (vfs_depth (vlock v) = 0 \<longleftrightarrow> vfs_owner (vlock v) = None)
     \<and> (\<forall>t. place_of v t = Waiting \<longleftrightarrow> t \<in> set (wait_list m) \<or> owner m = Some t \<and> vfs_owner (vlock v) \<noteq> Some t)
     \<and> (\<forall>t \<in> set (wait_list m). owner m \<noteq> Some t \<and> state (threads (sch v) t) = THREAD_BLOCKED)
     \<and> (\<forall>t. owner m = Some t \<and> vfs_owner (vlock v) \<noteq> Some t \<longrightarrow> runnable (threads (sch v) t)))"

end
