(* ===== verification/MutexProps.thy ===== *)
theory MutexProps
  imports Mutex
begin

text \<open>
  The lock system keeps its invariant; mutual exclusion, hand-off in the order of arrival, and no waiter
  left behind follow from it.
\<close>

section \<open>The scheduler under the lock\<close>




section \<open>The invariant is kept\<close>













section \<open>Mutual exclusion and hand-off\<close>










end
