(* ===== verification/X4.thy ===== *)
theory X4
  imports Prelude
begin

text \<open>
  The X4 virtual machine, \<open>kernel/emulation/x4/x4.c\<close>, \<open>opcodes.h\<close> and \<open>utill.c\<close>, and its display and
  keyboard services (\<open>services.c\<close>). Operands name bytes of the register block through
  \<open>((uint8_t*)&thread->cache)[n]\<close>: an index beyond its 33 bytes is \<open>None\<close>, and so is a division by zero.
  The external bus (\<open>mmio_readb\<close>, \<open>mmio_writeb\<close>) is byte memory behind 24 address lines. What the virtual
  machine shows on the display is the list \<open>shown\<close>, oldest first; the character the keyboard driver
  reports is the field \<open>kb_char\<close>. The file system service is a parameter of the machine.
\<close>

section \<open>State\<close>

record x4_regs =
  r_al :: u8
  r_ah :: u8
  r_bl :: u8
  r_bh :: u8
  r_cl :: u8
  r_ch :: u8
  r_dl :: u8
  r_dh :: u8
  r_ep :: u32
  r_bp :: u32
  r_sp :: u32
  r_state :: u8
  r_cs :: u32
  r_ds :: u32
  r_ss :: u32

datatype shown = Char u8 | Cleared

record x4 =
  cache :: x4_regs
  bus :: memory
  shown :: "shown list"
  kb_char :: u8
  last_character :: u8

definition FLAG_INTERRUPT :: u8 where "FLAG_INTERRUPT = 0x01"
definition FLAG_ZERO :: u8 where "FLAG_ZERO = 0x02"
definition FLAG_CMP_EQUAL :: u8 where "FLAG_CMP_EQUAL = 0x04"
definition FLAG_CMP_GREATER :: u8 where "FLAG_CMP_GREATER = 0x08"
definition FLAG_CMP_LESS :: u8 where "FLAG_CMP_LESS = 0x10"
definition FLAG_CONSOLE_DIRTY :: u8 where "FLAG_CONSOLE_DIRTY = 0x20"

lemmas x4_flag_defs = FLAG_INTERRUPT_def FLAG_ZERO_def FLAG_CMP_EQUAL_def FLAG_CMP_GREATER_def FLAG_CMP_LESS_def
  FLAG_CONSOLE_DIRTY_def

text \<open>The packed struct as its bytes, and back.\<close>

definition regs_bytes :: "x4_regs \<Rightarrow> u8 list" where
  "regs_bytes r = [r_al r, r_ah r, r_bl r, r_bh r, r_cl r, r_ch r, r_dl r, r_dh r]
     @ word_le 4 (r_ep r) @ word_le 4 (r_bp r) @ word_le 4 (r_sp r) @ [r_state r]
     @ word_le 4 (r_cs r) @ word_le 4 (r_ds r) @ word_le 4 (r_ss r)"

definition bytes_regs :: "u8 list \<Rightarrow> x4_regs" where
  "bytes_regs b = \<lparr> r_al = b ! 0, r_ah = b ! 1, r_bl = b ! 2, r_bh = b ! 3, r_cl = b ! 4, r_ch = b ! 5, r_dl = b ! 6, r_dh = b ! 7,
     r_ep = le_word (take 4 (drop 8 b)), r_bp = le_word (take 4 (drop 12 b)), r_sp = le_word (take 4 (drop 16 b)), r_state = b ! 20,
     r_cs = le_word (take 4 (drop 21 b)), r_ds = le_word (take 4 (drop 25 b)), r_ss = le_word (take 4 (drop 29 b)) \<rparr>"

definition REGS_SIZE :: nat where "REGS_SIZE = 33"

definition reg_get :: "nat \<Rightarrow> x4 \<Rightarrow> u8 option" where
  "reg_get n s = (if n < REGS_SIZE then Some (regs_bytes (cache s) ! n) else None)"

definition reg_set :: "nat \<Rightarrow> u8 \<Rightarrow> x4 \<Rightarrow> x4 option" where
  "reg_set n v s = (if n < REGS_SIZE then Some (s\<lparr>cache := bytes_regs ((regs_bytes (cache s))[n := v])\<rparr>) else None)"

section \<open>Bus and stack\<close>

definition x4_readb :: "u32 \<Rightarrow> x4 \<Rightarrow> u8" where
  "x4_readb a s = bus s (take_bit 24 a)"

definition x4_writeb :: "u32 \<Rightarrow> u8 \<Rightarrow> x4 \<Rightarrow> x4" where
  "x4_writeb a v s = s\<lparr>bus := (bus s)(take_bit 24 a := v)\<rparr>"

definition get_pointer_from_bytes :: "u8 \<Rightarrow> u8 \<Rightarrow> u8 \<Rightarrow> u8 \<Rightarrow> u32" where
  "get_pointer_from_bytes b0 b1 b2 b3 = le_word [b0, b1, b2, b3]"

definition x4_pointer_from_low16 :: "u8 \<Rightarrow> u8 \<Rightarrow> u32" where
  "x4_pointer_from_low16 low high = ucast low OR push_bit 8 (ucast high)"

definition set_sp :: "u32 \<Rightarrow> x4 \<Rightarrow> x4" where "set_sp v s = s\<lparr>cache := (cache s)\<lparr>r_sp := v\<rparr>\<rparr>"
definition set_bp :: "u32 \<Rightarrow> x4 \<Rightarrow> x4" where "set_bp v s = s\<lparr>cache := (cache s)\<lparr>r_bp := v\<rparr>\<rparr>"
definition set_ep :: "u32 \<Rightarrow> x4 \<Rightarrow> x4" where "set_ep v s = s\<lparr>cache := (cache s)\<lparr>r_ep := v\<rparr>\<rparr>"
definition set_state :: "u8 \<Rightarrow> x4 \<Rightarrow> x4" where "set_state v s = s\<lparr>cache := (cache s)\<lparr>r_state := v\<rparr>\<rparr>"

definition stack_pop :: "x4 \<Rightarrow> u8 \<times> x4" where
  "stack_pop s = (let s1 = set_sp (r_sp (cache s) - 1) s in (x4_readb (r_ss (cache s1) + r_sp (cache s1)) s1, s1))"

definition stack_push :: "u8 \<Rightarrow> x4 \<Rightarrow> x4" where
  "stack_push b s = (let s1 = x4_writeb (r_ss (cache s) + r_sp (cache s)) b s in set_sp (r_sp (cache s1) + 1) s1)"

definition stack_push_ptr :: "u32 \<Rightarrow> x4 \<Rightarrow> x4" where
  "stack_push_ptr a s = fold stack_push (word_le 4 a) s"

definition stack_pop_ptr :: "x4 \<Rightarrow> u32 \<times> x4" where
  "stack_pop_ptr s = (let (b3, s) = stack_pop s; (b2, s) = stack_pop s; (b1, s) = stack_pop s; (b0, s) = stack_pop s
                      in (le_word [b0, b1, b2, b3], s))"

definition update_compare_flags :: "u8 \<Rightarrow> u8 \<Rightarrow> u8 \<Rightarrow> u8" where
  "update_compare_flags st left right =
     (if left = right then (((st OR FLAG_CMP_EQUAL) AND NOT FLAG_CMP_LESS) AND NOT FLAG_CMP_GREATER) OR FLAG_ZERO
      else if left > right then (((st AND NOT FLAG_CMP_EQUAL) OR FLAG_CMP_GREATER) AND NOT FLAG_CMP_LESS) AND NOT FLAG_ZERO
      else (((st AND NOT FLAG_CMP_EQUAL) AND NOT FLAG_CMP_GREATER) OR FLAG_CMP_LESS) AND NOT FLAG_ZERO)"

definition update_zero_flag :: "u8 \<Rightarrow> u8 \<Rightarrow> u8" where
  "update_zero_flag st v = (if v = 0 then st OR FLAG_ZERO else st AND NOT FLAG_ZERO)"

section \<open>Opcodes\<close>

text \<open>The operands are \<open>op_args\<close>, the five bytes after the opcode; \<open>ep\<close> is already past the opcode.\<close>

definition arg :: "u8 list \<Rightarrow> nat \<Rightarrow> nat" where "arg a k = unat (a ! k)"

definition arg_ptr :: "u8 list \<Rightarrow> nat \<Rightarrow> u32" where
  "arg_ptr a k = get_pointer_from_bytes (a ! k) (a ! (k + 1)) (a ! (k + 2)) (a ! (k + 3))"

definition opcode_MOVMR :: "u8 list \<Rightarrow> x4 \<Rightarrow> x4 option" where
  "opcode_MOVMR a s = reg_set (arg a 0) (x4_readb (arg_ptr a 1) s) s"

definition opcode_MOVMW :: "u8 list \<Rightarrow> x4 \<Rightarrow> x4 option" where
  "opcode_MOVMW a s = map_option (\<lambda>v. x4_writeb (arg_ptr a 1) v s) (reg_get (arg a 0) s)"

definition opcode_MOVR :: "u8 list \<Rightarrow> x4 \<Rightarrow> x4 option" where
  "opcode_MOVR a s = Option.bind (reg_get (arg a 1) s) (\<lambda>v. reg_set (arg a 0) v s)"

definition opcode_MOVB :: "u8 list \<Rightarrow> x4 \<Rightarrow> x4 option" where
  "opcode_MOVB a s = reg_set (arg a 0) (a ! 1) s"

definition opcode_MOVA :: "u8 list \<Rightarrow> x4 \<Rightarrow> x4 option" where
  "opcode_MOVA a s = Option.bind (reg_set (arg a 0) (a ! 1) s) (reg_set (arg a 0 + 1) (a ! 2))"

text \<open>Store a result and update the zero flag from the byte that is then in the register.\<close>

definition store_zero :: "nat \<Rightarrow> u8 \<Rightarrow> x4 \<Rightarrow> x4 option" where
  "store_zero n v s = map_option (\<lambda>s1. set_state (update_zero_flag (r_state (cache s1)) v) s1) (reg_set n v s)"

definition unary :: "(u8 \<Rightarrow> u8) \<Rightarrow> u8 list \<Rightarrow> x4 \<Rightarrow> x4 option" where
  "unary f a s = Option.bind (reg_get (arg a 0) s) (\<lambda>v. store_zero (arg a 0) (f v) s)"

definition binary :: "(u8 \<Rightarrow> u8 \<Rightarrow> u8) \<Rightarrow> u8 list \<Rightarrow> x4 \<Rightarrow> x4 option" where
  "binary f a s = Option.bind (reg_get (arg a 0) s) (\<lambda>v.
     Option.bind (reg_get (arg a 1) s) (\<lambda>w. store_zero (arg a 0) (f v w) s))"

definition opcode_INC :: "u8 list \<Rightarrow> x4 \<Rightarrow> x4 option" where "opcode_INC = unary (\<lambda>v. v + 1)"
definition opcode_DEC :: "u8 list \<Rightarrow> x4 \<Rightarrow> x4 option" where "opcode_DEC = unary (\<lambda>v. v - 1)"
definition opcode_NOT :: "u8 list \<Rightarrow> x4 \<Rightarrow> x4 option" where "opcode_NOT = unary (\<lambda>v. NOT v)"
definition opcode_ADD :: "u8 list \<Rightarrow> x4 \<Rightarrow> x4 option" where "opcode_ADD = binary (+)"
definition opcode_SUB :: "u8 list \<Rightarrow> x4 \<Rightarrow> x4 option" where "opcode_SUB = binary (-)"
definition opcode_AND :: "u8 list \<Rightarrow> x4 \<Rightarrow> x4 option" where "opcode_AND = binary (\<lambda>v w. v AND w)"
definition opcode_OR :: "u8 list \<Rightarrow> x4 \<Rightarrow> x4 option" where "opcode_OR = binary (\<lambda>v w. v OR w)"
definition opcode_XOR :: "u8 list \<Rightarrow> x4 \<Rightarrow> x4 option" where "opcode_XOR = binary (\<lambda>v w. v XOR w)"

definition opcode_MUL :: "u8 list \<Rightarrow> x4 \<Rightarrow> x4 option" where
  "opcode_MUL a s = Option.bind (reg_get (arg a 1) s) (\<lambda>v. Option.bind (reg_get (arg a 2) s) (\<lambda>w.
     store_zero (arg a 0) (v * w) s))"

definition opcode_DIV :: "u8 list \<Rightarrow> x4 \<Rightarrow> x4 option" where
  "opcode_DIV a s = Option.bind (reg_get (arg a 1) s) (\<lambda>v. Option.bind (reg_get (arg a 2) s) (\<lambda>w.
     if w = 0 then None else store_zero (arg a 0) (v div w) s))"

definition opcode_PUSH :: "u8 list \<Rightarrow> x4 \<Rightarrow> x4 option" where
  "opcode_PUSH a s = map_option (\<lambda>v. stack_push v s) (reg_get (arg a 0) s)"

definition opcode_POP :: "u8 list \<Rightarrow> x4 \<Rightarrow> x4 option" where
  "opcode_POP a s = (case stack_pop s of (b, s1) \<Rightarrow> reg_set (arg a 0) b s1)"

definition opcode_CMP :: "u8 list \<Rightarrow> x4 \<Rightarrow> x4 option" where
  "opcode_CMP a s = map_option (\<lambda>v. set_state (update_compare_flags (r_state (cache s)) v (a ! 1)) s) (reg_get (arg a 0) s)"

definition opcode_CMPR :: "u8 list \<Rightarrow> x4 \<Rightarrow> x4 option" where
  "opcode_CMPR a s = Option.bind (reg_get (arg a 0) s) (\<lambda>v. map_option (\<lambda>w.
     set_state (update_compare_flags (r_state (cache s)) v w) s) (reg_get (arg a 1) s))"

definition jump_if :: "bool \<Rightarrow> u8 list \<Rightarrow> x4 \<Rightarrow> x4" where
  "jump_if c a s = (if c then set_ep (arg_ptr a 0) s else set_ep (r_ep (cache s) + 4) s)"

definition flag :: "u8 \<Rightarrow> x4 \<Rightarrow> bool" where "flag f s \<longleftrightarrow> r_state (cache s) AND f \<noteq> 0"

definition opcode_JMP :: "u8 list \<Rightarrow> x4 \<Rightarrow> x4" where "opcode_JMP a s = set_ep (arg_ptr a 0) s"
definition opcode_JE :: "u8 list \<Rightarrow> x4 \<Rightarrow> x4" where "opcode_JE a s = jump_if (flag FLAG_CMP_EQUAL s) a s"
definition opcode_JNE :: "u8 list \<Rightarrow> x4 \<Rightarrow> x4" where "opcode_JNE a s = jump_if (\<not> flag FLAG_CMP_EQUAL s) a s"
definition opcode_JG :: "u8 list \<Rightarrow> x4 \<Rightarrow> x4" where "opcode_JG a s = jump_if (flag FLAG_CMP_GREATER s) a s"
definition opcode_JL :: "u8 list \<Rightarrow> x4 \<Rightarrow> x4" where "opcode_JL a s = jump_if (flag FLAG_CMP_LESS s) a s"
definition opcode_JZ :: "u8 list \<Rightarrow> x4 \<Rightarrow> x4" where "opcode_JZ a s = jump_if (flag FLAG_ZERO s) a s"
definition opcode_JNZ :: "u8 list \<Rightarrow> x4 \<Rightarrow> x4" where "opcode_JNZ a s = jump_if (\<not> flag FLAG_ZERO s) a s"

definition opcode_CALL :: "u8 list \<Rightarrow> x4 \<Rightarrow> x4" where
  "opcode_CALL a s =
     (let ret = r_ep (cache s) + 4;
          s1 = stack_push_ptr (r_bp (cache s)) s;
          s2 = stack_push_ptr ret s1;
          s3 = set_bp (r_sp (cache s2)) s2
      in set_ep (arg_ptr a 0) s3)"

definition opcode_RET :: "x4 \<Rightarrow> x4" where
  "opcode_RET s =
     (let s1 = set_sp (r_bp (cache s)) s;
          (e, s2) = stack_pop_ptr s1;
          s3 = set_ep e s2;
          (b, s4) = stack_pop_ptr s3
      in set_bp b s4)"

definition opcode_CLI :: "x4 \<Rightarrow> x4" where "opcode_CLI s = set_state (r_state (cache s) AND NOT FLAG_INTERRUPT) s"
definition opcode_STI :: "x4 \<Rightarrow> x4" where "opcode_STI s = set_state (r_state (cache s) OR FLAG_INTERRUPT) s"

end
