(* ===== verification/X4Machine.thy ===== *)
theory X4Machine
  imports X4
begin

text \<open>
  The X4 services and the interpreter loop: \<open>services.c\<close>, \<open>opcode_INT\<close> and \<open>x4_emulate\<close>. A run is
  \<open>None\<close> when a step is undefined or when the display service never meets a NUL.
\<close>

section \<open>Services\<close>

text \<open>\<open>kmem_read\<close> adds the heap's base address, the parameter \<open>heap\<close>. The loop stops at the first NUL.\<close>

definition show_char :: "u8 \<Rightarrow> shown" where
  "show_char b = Char (if b = 0x0D then 0x0A else b)"

partial_function (option) display_loop :: "memory \<Rightarrow> u32 \<Rightarrow> u32 \<Rightarrow> shown list \<Rightarrow> shown list option" where
  "display_loop m base i out =
     (let b = m (take_bit 24 (base + i))
      in if b = 0 then Some out else display_loop m base (i + 1) (out @ [show_char b]))"

definition isc_display_routine :: "u32 \<Rightarrow> x4 \<Rightarrow> (u8 \<times> x4) option" where
  "isc_display_routine heap s =
     (if r_ah (cache s) = 0x09
      then map_option (\<lambda>out. (0, set_state (r_state (cache s) OR FLAG_CONSOLE_DIRTY) (s\<lparr>shown := out\<rparr>)))
             (display_loop (bus s) (heap + (r_cs (cache s) + x4_pointer_from_low16 (r_dl (cache s)) (r_dh (cache s)))) 0 (shown s))
      else if r_ah (cache s) = 0x03
      then Some (0, set_state (r_state (cache s) AND NOT FLAG_CONSOLE_DIRTY) (s\<lparr>shown := shown s @ [Cleared]\<rparr>))
      else Some (0, s))"

definition set_al :: "u8 \<Rightarrow> x4 \<Rightarrow> x4" where "set_al v s = s\<lparr>cache := (cache s)\<lparr>r_al := v\<rparr>\<rparr>"

definition isc_keyboard_routine :: "x4 \<Rightarrow> u8 \<times> x4" where
  "isc_keyboard_routine s =
     (let c = kb_char s
      in if r_ah (cache s) = 0x00
         then if c \<noteq> last_character s then (0, set_al c (s\<lparr>last_character := c\<rparr>)) else (0xD6, set_al 0 s)
         else if r_ah (cache s) = 0x01
         then (0, set_al (if c \<noteq> last_character s then c else 0) s)
         else if r_ah (cache s) = 0x03
         then if c \<noteq> last_character s then (0, set_al c (s\<lparr>last_character := c\<rparr>)) else (0, set_al 0 s)
         else (0, s))"

text \<open>\<open>fsys\<close> is the file system service.\<close>

definition flush_console :: "x4 \<Rightarrow> x4" where
  "flush_console s = (if r_state (cache s) AND FLAG_CONSOLE_DIRTY \<noteq> 0
     then set_state (r_state (cache s) AND NOT FLAG_CONSOLE_DIRTY) (s\<lparr>shown := shown s @ [Char 0x0A]\<rparr>) else s)"

definition opcode_INT :: "u32 \<Rightarrow> (x4 \<Rightarrow> u8 \<times> x4) \<Rightarrow> u8 list \<Rightarrow> x4 \<Rightarrow> (u8 \<times> x4) option" where
  "opcode_INT heap fsys a s =
     Option.bind (if a ! 0 = 0x10 then isc_display_routine heap s
                  else if a ! 0 = 0x13 then Some (fsys s)
                  else if a ! 0 = 0x16 then Some (isc_keyboard_routine s)
                  else Some (0, s))
       (\<lambda>(result, s1).
          if a ! 0 = 0x20 then Some (0xFF, flush_console s1)
          else if result = 0xD6 then Some (0xD6, set_ep (r_ep (cache s1) - 2) s1)
          else Some (0, s1))"

section \<open>The interpreter\<close>

datatype step_result = Continue x4 | Return u8 x4

definition x4_fetch :: "x4 \<Rightarrow> u8 list" where
  "x4_fetch s = map (\<lambda>i. x4_readb (r_cs (cache s) + r_ep (cache s) + of_nat i) s) [0..<6]"

definition advance :: "u32 \<Rightarrow> x4 option \<Rightarrow> step_result option" where
  "advance n r = map_option (\<lambda>s. Continue (set_ep (r_ep (cache s) + n) s)) r"

text \<open>One round of the loop: x4_fetch, step over the opcode, and the \<open>switch\<close>.\<close>

definition x4_step :: "u32 \<Rightarrow> (x4 \<Rightarrow> u8 \<times> x4) \<Rightarrow> x4 \<Rightarrow> step_result option" where
  "x4_step heap fsys s =
     (let code = x4_fetch s; opc = code ! 0; a = drop 1 code; s1 = set_ep (r_ep (cache s) + 1) s
      in if opc = 0x81 then advance 5 (opcode_MOVMR a s1)
         else if opc = 0x82 then advance 5 (opcode_MOVMW a s1)
         else if opc = 0x88 then advance 2 (opcode_MOVR a s1)
         else if opc = 0x89 then advance 2 (opcode_MOVB a s1)
         else if opc = 0x83 then advance 5 (opcode_MOVA a s1)
         else if opc = 0xFD then advance 1 (opcode_INC a s1)
         else if opc = 0xFC then advance 1 (opcode_DEC a s1)
         else if opc = 0x00 then advance 2 (opcode_ADD a s1)
         else if opc = 0x80 then advance 2 (opcode_SUB a s1)
         else if opc = 0xF6 then advance 3 (opcode_MUL a s1)
         else if opc = 0xF4 then advance 3 (opcode_DIV a s1)
         else if opc = 0x0F then advance 1 (opcode_POP a s1)
         else if opc = 0xF0 then advance 1 (opcode_PUSH a s1)
         else if opc = 0x20 then advance 2 (opcode_AND a s1)
         else if opc = 0x21 then advance 2 (opcode_OR a s1)
         else if opc = 0x22 then advance 2 (opcode_XOR a s1)
         else if opc = 0x23 then advance 1 (opcode_NOT a s1)
         else if opc = 0x38 then advance 2 (opcode_CMP a s1)
         else if opc = 0x39 then advance 2 (opcode_CMPR a s1)
         else if opc = 0xFE then Some (Continue (opcode_JMP a s1))
         else if opc = 0x74 then Some (Continue (opcode_JE a s1))
         else if opc = 0xF3 then Some (Continue (opcode_JNE a s1))
         else if opc = 0x75 then Some (Continue (opcode_JG a s1))
         else if opc = 0xF1 then Some (Continue (opcode_JL a s1))
         else if opc = 0x72 then Some (Continue (opcode_JZ a s1))
         else if opc = 0xF9 then Some (Continue (opcode_JNZ a s1))
         else if opc = 0x9A then Some (Continue (opcode_CALL a s1))
         else if opc = 0xCB then Some (Continue (opcode_RET s1))
         else if opc = 0xFA then Some (Continue (opcode_CLI s1))
         else if opc = 0xFB then Some (Continue (opcode_STI s1))
         else if opc = 0xCC \<or> opc = 0xCD
         then map_option (\<lambda>(result, s2).
                if result \<noteq> 0 then Return (if result = 0xD6 then 0xD6 else 1) (flush_console s2)
                else Continue (set_ep (r_ep (cache s2) + 1) s2)) (opcode_INT heap fsys a s1)
         else if opc = 0x90 then Some (Continue s1)
         else Some (Return 1 s1))"

fun x4_loop :: "u32 \<Rightarrow> (x4 \<Rightarrow> u8 \<times> x4) \<Rightarrow> nat \<Rightarrow> x4 \<Rightarrow> step_result option" where
  "x4_loop heap fsys 0 s = Some (Continue s)"
| "x4_loop heap fsys (Suc n) s =
     Option.bind (x4_step heap fsys s) (\<lambda>r. case r of Continue s1 \<Rightarrow> x4_loop heap fsys n s1 | Return v s1 \<Rightarrow> Some (Return v s1))"

definition x4_emulate :: "u32 \<Rightarrow> (x4 \<Rightarrow> u8 \<times> x4) \<Rightarrow> u32 \<Rightarrow> x4 \<Rightarrow> (u8 \<times> x4) option" where
  "x4_emulate heap fsys steps s =
     map_option (\<lambda>r. case r of Continue s1 \<Rightarrow> (0, flush_console s1) | Return v s1 \<Rightarrow> (v, s1)) (x4_loop heap fsys (unat steps) s)"

definition AssembleJoin :: "u8 list \<Rightarrow> u32 \<Rightarrow> u8 list \<Rightarrow> (u8 list \<times> u32) option" where
  "AssembleJoin buffer begin source =
     (if unat begin + length source \<le> length buffer
      then Some (take (unat begin) buffer @ source @ drop (unat begin + length source) buffer, begin + of_nat (length source))
      else None)"

text \<open>The name buffer of 17 bytes, whose bytes are unspecified (\<open>str0\<close>) before the call.\<close>

fun read_string_loop :: "memory \<Rightarrow> u32 \<Rightarrow> nat \<Rightarrow> nat \<Rightarrow> u8 list \<Rightarrow> u8 list" where
  "read_string_loop m base i 0 str = str"
| "read_string_loop m base i (Suc n) str =
     (let b = m (take_bit 24 (base + of_nat i)); str1 = str[i := b]
      in if b = 0 then str1 else read_string_loop m base (i + 1) n str1)"

definition x4_read_string_from_dx :: "u32 \<Rightarrow> x4 \<Rightarrow> u8 list \<Rightarrow> u8 list" where
  "x4_read_string_from_dx heap s str0 =
     (read_string_loop (bus s) (heap + (r_cs (cache s) + x4_pointer_from_low16 (r_dl (cache s)) (r_dh (cache s)))) 0 16 str0)[16 := 0]"

end
