(* ===== verification/X4Props.thy ===== *)
theory X4Props
  imports X4Machine
begin

text \<open>
  Properties of the X4 virtual machine: calls return, comparisons decide the jumps, exactly which
  instructions are undefined, time slices compose, and where a yielding \<open>INT\<close> resumes.
\<close>

section \<open>Registers as bytes\<close>

lemma length_regs_bytes [simp]: "length (regs_bytes r) = 33"
  by (simp add: regs_bytes_def)

lemma regs_bytes_roundtrip: "bytes_regs (regs_bytes r) = r"
proof -
  have "take 4 (word_le 4 (v :: u32) @ l) = word_le 4 v" "drop 4 (word_le 4 (v :: u32) @ l) = l" for v l by simp_all
  then show ?thesis by (simp add: bytes_regs_def regs_bytes_def nth_append)
qed

lemma bytes_regs_roundtrip:
  assumes "length b = 33"
  shows "regs_bytes (bytes_regs b) = b"
proof -
  have w: "n + 4 \<le> 33 \<Longrightarrow> word_le 4 (le_word (take 4 (drop n b)) :: u32) = take 4 (drop n b)" for n
    using assms by (intro word_le_4_u32) simp
  have n: "n < 33 \<Longrightarrow> drop n b = b ! n # drop (Suc n) b" for n using assms by (simp add: Cons_nth_drop_Suc)
  have d: "drop n b = take 4 (drop n b) @ drop (n + 4) b" for n
    by (metis add.commute append_take_drop_id drop_drop)
  have "b = drop 0 b" by simp
  also have "\<dots> = [b ! 0, b ! 1, b ! 2, b ! 3, b ! 4, b ! 5, b ! 6, b ! 7] @ drop 8 b"
    using n [of 0] n [of 1] n [of 2] n [of 3] n [of 4] n [of 5] n [of 6] n [of 7] by (simp add: eval_nat_numeral)
  also have "drop 8 b = take 4 (drop 8 b) @ take 4 (drop 12 b) @ take 4 (drop 16 b) @ drop 20 b"
    using d [of 8] d [of 12] d [of 16] by simp
  also have "drop 20 b = b ! 20 # take 4 (drop 21 b) @ take 4 (drop 25 b) @ take 4 (drop 29 b)"
    using n [of 20] d [of 21] d [of 25] d [of 29] assms by simp
  finally show ?thesis using w [of 8] w [of 12] w [of 16] w [of 21] w [of 25] w [of 29]
    unfolding regs_bytes_def bytes_regs_def by simp
qed

section \<open>Calls\<close>

lemmas setters = set_sp_def set_bp_def set_ep_def set_state_def

lemma stack_push_props:
  "bus (stack_push b s) = (bus s)(take_bit 24 (r_ss (cache s) + r_sp (cache s)) := b)"
  "cache (stack_push b s) = (cache s)\<lparr>r_sp := r_sp (cache s) + 1\<rparr>"
  "shown (stack_push b s) = shown s" "kb_char (stack_push b s) = kb_char s" "last_character (stack_push b s) = last_character s"
  by (simp_all add: stack_push_def Let_def x4_writeb_def setters)

lemma word_le_4: "word_le 4 (v :: u32) = [ucast v, ucast (drop_bit 8 v), ucast (drop_bit 16 v), ucast (drop_bit 24 v)]"
  by (simp add: eval_nat_numeral drop_bit_drop_bit)

lemma stack_push_ptr_props:
  "bus (stack_push_ptr v s) = (let a = r_ss (cache s) + r_sp (cache s) in (bus s)(take_bit 24 a := word_le 4 v ! 0,
     take_bit 24 (a + 1) := word_le 4 v ! 1, take_bit 24 (a + 2) := word_le 4 v ! 2, take_bit 24 (a + 3) := word_le 4 v ! 3))"
  "cache (stack_push_ptr v s) = (cache s)\<lparr>r_sp := r_sp (cache s) + 4\<rparr>"
  by (simp_all add: stack_push_ptr_def word_le_4 stack_push_props Let_def add.assoc)

lemma stack_pop_ptr_props:
  "fst (stack_pop_ptr s) = (let a = r_ss (cache s) + r_sp (cache s) in
     le_word [bus s (take_bit 24 (a - 4)), bus s (take_bit 24 (a - 3)), bus s (take_bit 24 (a - 2)), bus s (take_bit 24 (a - 1))])"
  "snd (stack_pop_ptr s) = s\<lparr>cache := (cache s)\<lparr>r_sp := r_sp (cache s) - 4\<rparr>\<rparr>"
  by (simp_all add: stack_pop_ptr_def stack_pop_def Let_def x4_readb_def setters algebra_simps)

text \<open>The cell \<open>k\<close> of the stack from the address \<open>a\<close> on.\<close>

lemma cell_inject:
  assumes "unat (a :: u32) + 8 \<le> 2 ^ 24" "i < 8" "j < 8"
  shows "take_bit 24 (a + of_nat i) = take_bit 24 (a + of_nat j) \<longleftrightarrow> i = j"
proof -
  have u: "take_bit 24 (a + of_nat k) = a + of_nat k \<and> unat (a + of_nat k) = unat a + k" if "k < 8" for k
  proof -
    have "unat (of_nat k :: u32) = k" using that by (simp add: unat_of_nat_u32)
    then have v: "unat (a + of_nat k) = unat a + k" using assms(1) that by (subst unat_add_u32) simp_all
    moreover have "take_bit 24 (a + of_nat k) = a + of_nat k"
      using v assms(1) that by (intro word_unat_eq_iff [THEN iffD2]) (simp add: unsigned_take_bit_eq take_bit_nat_eq_self)
    ultimately show ?thesis by simp
  qed
  show ?thesis using u [OF assms(2)] u [OF assms(3)] by (metis add_left_cancel)
qed

lemma opcode_CALL_props:
  fixes s :: x4
  defines "a \<equiv> r_ss (cache s) + r_sp (cache s)"
  assumes fits: "unat a + 8 \<le> 2 ^ 24"
  shows "cache (opcode_CALL ops s) = (cache s)\<lparr>r_ep := arg_ptr ops 0, r_bp := r_sp (cache s) + 8, r_sp := r_sp (cache s) + 8\<rparr>"
    "\<forall>k < 4. bus (opcode_CALL ops s) (take_bit 24 (a + of_nat k)) = word_le 4 (r_bp (cache s)) ! k"
    "\<forall>k < 4. bus (opcode_CALL ops s) (take_bit 24 (a + of_nat (k + 4))) = word_le 4 (r_ep (cache s) + 4) ! k"
    "(\<And>k. k < 8 \<Longrightarrow> x \<noteq> take_bit 24 (a + of_nat k)) \<Longrightarrow> bus (opcode_CALL ops s) x = bus s x"
proof -
  show "cache (opcode_CALL ops s) = (cache s)\<lparr>r_ep := arg_ptr ops 0, r_bp := r_sp (cache s) + 8, r_sp := r_sp (cache s) + 8\<rparr>"
    by (simp add: opcode_CALL_def Let_def stack_push_ptr_props setters)
  define cell where "cell = (\<lambda>k. take_bit 24 (a + of_nat k))"
  have m: "bus (opcode_CALL ops s) = (bus s)(cell 0 := word_le 4 (r_bp (cache s)) ! 0, cell 1 := word_le 4 (r_bp (cache s)) ! 1,
      cell 2 := word_le 4 (r_bp (cache s)) ! 2, cell 3 := word_le 4 (r_bp (cache s)) ! 3,
      cell 4 := word_le 4 (r_ep (cache s) + 4) ! 0, cell 5 := word_le 4 (r_ep (cache s) + 4) ! 1,
      cell 6 := word_le 4 (r_ep (cache s) + 4) ! 2, cell 7 := word_le 4 (r_ep (cache s) + 4) ! 3)"
    by (simp add: opcode_CALL_def Let_def stack_push_ptr_props setters cell_def a_def add.assoc)
  have inj: "i < 8 \<Longrightarrow> j < 8 \<Longrightarrow> cell i = cell j \<longleftrightarrow> i = j" for i j
    unfolding cell_def by (rule cell_inject [OF fits])
  have four: "(\<forall>k < 4. P k) \<longleftrightarrow> P 0 \<and> P 1 \<and> P 2 \<and> P (3 :: nat)" for P
    by (auto simp: less_Suc_eq eval_nat_numeral)
  have "\<forall>k < 4. bus (opcode_CALL ops s) (cell k) = word_le 4 (r_bp (cache s)) ! k"
    unfolding four m by (simp add: inj del: word_le.simps)
  then show "\<forall>k < 4. bus (opcode_CALL ops s) (take_bit 24 (a + of_nat k)) = word_le 4 (r_bp (cache s)) ! k"
    by (simp add: cell_def)
  have "\<forall>k < 4. bus (opcode_CALL ops s) (cell (k + 4)) = word_le 4 (r_ep (cache s) + 4) ! k"
    unfolding four m by (simp add: inj del: word_le.simps)
  then show "\<forall>k < 4. bus (opcode_CALL ops s) (take_bit 24 (a + of_nat (k + 4))) = word_le 4 (r_ep (cache s) + 4) ! k"
    by (simp add: cell_def)
  show "bus (opcode_CALL ops s) x = bus s x" if x: "\<And>k. k < 8 \<Longrightarrow> x \<noteq> take_bit 24 (a + of_nat k)"
    using x [of 0] x [of 1] x [of 2] x [of 3] x [of 4] x [of 5] x [of 6] x [of 7]
    unfolding m cell_def by (simp del: of_nat_0 of_nat_1 of_nat_numeral)
qed

text \<open>C33: A call returns. Whatever the callee does, as long as it leaves the base pointer, the stack segment and
  the eight bytes the call pushed as they were, \<open>RET\<close> continues after the \<open>CALL\<close> with the caller's base and
  stack pointer (pending pushes of the callee are dropped); the call itself writes nothing but those bytes.\<close>

theorem call_ret_roundtrip:
  fixes s s2 :: x4
  defines "a \<equiv> r_ss (cache s) + r_sp (cache s)"
  assumes fits: "unat a + 8 \<le> 2 ^ 24"
    and callee: "r_bp (cache s2) = r_bp (cache (opcode_CALL ops s))" "r_ss (cache s2) = r_ss (cache s)"
      "\<forall>k < 8. bus s2 (take_bit 24 (a + of_nat k)) = bus (opcode_CALL ops s) (take_bit 24 (a + of_nat k))"
  shows "r_ep (cache (opcode_CALL ops s)) = arg_ptr ops 0
    \<and> opcode_RET s2 = s2\<lparr>cache := (cache s2)\<lparr>r_ep := r_ep (cache s) + 4, r_bp := r_bp (cache s), r_sp := r_sp (cache s)\<rparr>\<rparr>
    \<and> (\<forall>x. x \<in> (\<lambda>k. take_bit 24 (a + of_nat k)) ` {..<8} \<or> bus (opcode_CALL ops s) x = bus s x)"
proof -
  note c = opcode_CALL_props [where s = s and ops = ops, folded a_def, OF fits]
  have bp: "r_bp (cache s2) = r_sp (cache s) + 8" using callee(1) c(1) by simp
  have cell: "bus s2 (take_bit 24 (a + of_nat k)) = word_le 4 (r_bp (cache s)) ! k"
    "bus s2 (take_bit 24 (a + of_nat (k + 4))) = word_le 4 (r_ep (cache s) + 4) ! k" if "k < 4" for k
    using that callee(3) [rule_format, of k] callee(3) [rule_format, of "k + 4"] c(2,3) by auto
  have w: "[word_le 4 v ! 0, word_le 4 v ! 1, word_le 4 v ! 2, word_le 4 v ! 3] = word_le 4 v" for v :: u32
    by (simp add: word_le_4)
  have ret: "le_word [bus s2 (take_bit 24 (a + 4)), bus s2 (take_bit 24 (a + 5)), bus s2 (take_bit 24 (a + 6)), bus s2 (take_bit 24 (a + 7))]
      = r_ep (cache s) + 4"
    using cell(2) [of 0] cell(2) [of 1] cell(2) [of 2] cell(2) [of 3] w [of "r_ep (cache s) + 4"] by (simp del: word_le.simps)
  have base: "le_word [bus s2 (take_bit 24 a), bus s2 (take_bit 24 (a + 1)), bus s2 (take_bit 24 (a + 2)), bus s2 (take_bit 24 (a + 3))]
      = r_bp (cache s)"
    using cell(1) [of 0] cell(1) [of 1] cell(1) [of 2] cell(1) [of 3] w [of "r_bp (cache s)"] by (simp del: word_le.simps)
  have ad: "r_ss (cache s) + (r_sp (cache s) + 8) - 4 = a + 4" "r_ss (cache s) + (r_sp (cache s) + 8) - 3 = a + 5"
    "r_ss (cache s) + (r_sp (cache s) + 8) - 2 = a + 6" "r_ss (cache s) + (r_sp (cache s) + 8) - 1 = a + 7"
    "r_ss (cache s) + (r_sp (cache s) + 8 - 4) - 4 = a" "r_ss (cache s) + (r_sp (cache s) + 8 - 4) - 3 = a + 1"
    "r_ss (cache s) + (r_sp (cache s) + 8 - 4) - 2 = a + 2" "r_ss (cache s) + (r_sp (cache s) + 8 - 4) - 1 = a + 3"
    by (simp_all add: a_def algebra_simps)
  have "opcode_RET s2 = s2\<lparr>cache := (cache s2)\<lparr>r_ep := r_ep (cache s) + 4, r_bp := r_bp (cache s), r_sp := r_sp (cache s)\<rparr>\<rparr>"
  proof -
    define t1 where "t1 = set_sp (r_sp (cache s) + 8) s2"
    have p1: "fst (stack_pop_ptr t1) = r_ep (cache s) + 4"
      "snd (stack_pop_ptr t1) = s2\<lparr>cache := (cache s2)\<lparr>r_sp := r_sp (cache s) + 8 - 4\<rparr>\<rparr>"
      using ret ad(1-4) callee(2) unfolding stack_pop_ptr_props by (simp_all add: t1_def setters Let_def add.commute)
    define t3 where "t3 = set_ep (r_ep (cache s) + 4) (snd (stack_pop_ptr t1))"
    have p3: "fst (stack_pop_ptr t3) = r_bp (cache s)"
      "snd (stack_pop_ptr t3) = s2\<lparr>cache := (cache s2)\<lparr>r_sp := r_sp (cache s), r_ep := r_ep (cache s) + 4\<rparr>\<rparr>"
      using base ad(5-8) callee(2) unfolding stack_pop_ptr_props by (simp_all add: t3_def p1(2) setters Let_def add.commute)
    have "opcode_RET s2 = set_bp (fst (stack_pop_ptr t3)) (snd (stack_pop_ptr t3))"
      unfolding opcode_RET_def Let_def bp t1_def [symmetric] t3_def p1(1) [symmetric]
      by (simp add: case_prod_unfold)
    then show ?thesis by (simp add: p3 setters)
  qed
  then show ?thesis using c(1) c(4) by auto
qed

definition demo_x4 :: "u8 list \<Rightarrow> x4" where
  "demo_x4 program =
     \<lparr> cache = \<lparr> r_al = 0, r_ah = 0, r_bl = 0, r_bh = 0, r_cl = 0, r_ch = 0, r_dl = 0, r_dh = 0, r_ep = 0, r_bp = 0, r_sp = 0,
         r_state = 0, r_cs = 0x100, r_ds = 0, r_ss = 0x800 \<rparr>,
       bus = (\<lambda>x. if 0x100 \<le> x \<and> unat (x - 0x100) < length program then program ! unat (x - 0x100) else 0),
       shown = [], kb_char = 0, last_character = 0 \<rparr>"

theorem call_ret_roundtrip_witness:
  "r_ep (cache (opcode_RET (opcode_CALL [9, 0, 0, 0, 0] (demo_x4 [])))) = 4"
proof -
  have fits: "unat (r_ss (cache (demo_x4 [])) + r_sp (cache (demo_x4 []))) + 8 \<le> 2 ^ 24" by (simp add: demo_x4_def)
  from call_ret_roundtrip [OF fits refl, of "[9, 0, 0, 0, 0]"] show ?thesis
    using opcode_CALL_props(1) [OF fits] by (simp add: demo_x4_def)
qed

section \<open>Comparisons and jumps\<close>

lemma flag_bits:
  "w AND FLAG_INTERRUPT \<noteq> 0 \<longleftrightarrow> bit w 0" "w AND FLAG_ZERO \<noteq> 0 \<longleftrightarrow> bit w 1" "w AND FLAG_CMP_EQUAL \<noteq> 0 \<longleftrightarrow> bit w 2"
  "w AND FLAG_CMP_GREATER \<noteq> 0 \<longleftrightarrow> bit w 3" "w AND FLAG_CMP_LESS \<noteq> 0 \<longleftrightarrow> bit w 4" "w AND FLAG_CONSOLE_DIRTY \<noteq> 0 \<longleftrightarrow> bit w 5"
  using and_exp_eq_0_iff_not_bit [of w 0] and_exp_eq_0_iff_not_bit [of w 1] and_exp_eq_0_iff_not_bit [of w 2]
    and_exp_eq_0_iff_not_bit [of w 3] and_exp_eq_0_iff_not_bit [of w 4] and_exp_eq_0_iff_not_bit [of w 5]
  by (simp_all add: x4_flag_defs)

lemma bit_flags:
  "bit FLAG_INTERRUPT n \<longleftrightarrow> n = 0" "bit FLAG_ZERO n \<longleftrightarrow> n = 1" "bit FLAG_CMP_EQUAL n \<longleftrightarrow> n = 2"
  "bit FLAG_CMP_GREATER n \<longleftrightarrow> n = 3" "bit FLAG_CMP_LESS n \<longleftrightarrow> n = 4" "bit FLAG_CONSOLE_DIRTY n \<longleftrightarrow> n = 5"
proof -
  have p: "bit (2 ^ m :: u8) n \<longleftrightarrow> m < 8 \<and> n = m" for m by (auto simp: bit_exp_iff)
  show "bit FLAG_INTERRUPT n \<longleftrightarrow> n = 0" "bit FLAG_ZERO n \<longleftrightarrow> n = 1" "bit FLAG_CMP_EQUAL n \<longleftrightarrow> n = 2"
    "bit FLAG_CMP_GREATER n \<longleftrightarrow> n = 3" "bit FLAG_CMP_LESS n \<longleftrightarrow> n = 4" "bit FLAG_CONSOLE_DIRTY n \<longleftrightarrow> n = 5"
    using p [of 0] p [of 1] p [of 2] p [of 3] p [of 4] p [of 5] by (simp_all add: x4_flag_defs)
qed

lemma compare_flags_bits:
  "flag FLAG_CMP_EQUAL (set_state (update_compare_flags st l r) s) \<longleftrightarrow> l = r"
  "flag FLAG_CMP_GREATER (set_state (update_compare_flags st l r) s) \<longleftrightarrow> r < l"
  "flag FLAG_CMP_LESS (set_state (update_compare_flags st l r) s) \<longleftrightarrow> l < r"
  "flag FLAG_ZERO (set_state (update_compare_flags st l r) s) \<longleftrightarrow> l = r"
  "flag FLAG_INTERRUPT (set_state (update_compare_flags st l r) s) \<longleftrightarrow> st AND FLAG_INTERRUPT \<noteq> 0"
  "flag FLAG_CONSOLE_DIRTY (set_state (update_compare_flags st l r) s) \<longleftrightarrow> st AND FLAG_CONSOLE_DIRTY \<noteq> 0"
  by (auto simp: flag_def set_state_def update_compare_flags_def flag_bits bit_flags bit_or_iff bit_and_iff bit_not_iff)

text \<open>a comparison decides the jumps that follow it: after \<open>CMP\<close> of a register with a constant, \<open>JE\<close> and
  \<open>JZ\<close> are taken exactly if they are equal, \<open>JNE\<close> and \<open>JNZ\<close> if not, \<open>JG\<close> if the register is greater, \<open>JL\<close> if it
  is less, as unsigned bytes; a jump not taken continues after its four address bytes. \<open>CMPR\<close> is the same with
  two registers. The interrupt and console flags are kept.\<close>

theorem compare_decides_jumps:
  assumes l: "reg_get (arg a 0) s = Some l"
    and r: "cmp = opcode_CMP a s \<and> r = a ! 1 \<or> cmp = opcode_CMPR a s \<and> reg_get (arg a 1) s = Some r"
  shows "\<exists>s1. cmp = Some s1 \<and> s1 = set_state (r_state (cache s1)) s
    \<and> opcode_JE j s1 = set_ep (if l = r then arg_ptr j 0 else r_ep (cache s) + 4) s1
    \<and> opcode_JZ j s1 = set_ep (if l = r then arg_ptr j 0 else r_ep (cache s) + 4) s1
    \<and> opcode_JNE j s1 = set_ep (if l \<noteq> r then arg_ptr j 0 else r_ep (cache s) + 4) s1
    \<and> opcode_JNZ j s1 = set_ep (if l \<noteq> r then arg_ptr j 0 else r_ep (cache s) + 4) s1
    \<and> opcode_JG j s1 = set_ep (if l > r then arg_ptr j 0 else r_ep (cache s) + 4) s1
    \<and> opcode_JL j s1 = set_ep (if l < r then arg_ptr j 0 else r_ep (cache s) + 4) s1
    \<and> flag FLAG_INTERRUPT s1 = flag FLAG_INTERRUPT s \<and> flag FLAG_CONSOLE_DIRTY s1 = flag FLAG_CONSOLE_DIRTY s"
proof -
  let ?s1 = "set_state (update_compare_flags (r_state (cache s)) l r) s"
  have "cmp = Some ?s1" using l r by (auto simp: opcode_CMP_def opcode_CMPR_def)
  moreover have "r_state (cache ?s1) = update_compare_flags (r_state (cache s)) l r" "r_ep (cache ?s1) = r_ep (cache s)"
    by (simp_all add: set_state_def)
  ultimately show ?thesis
    by (intro exI [of _ ?s1])
      (auto simp: opcode_JE_def opcode_JZ_def opcode_JNE_def opcode_JNZ_def opcode_JG_def opcode_JL_def jump_if_def
        compare_flags_bits flag_def [of _ s])
qed

theorem compare_decides_jumps_witness:
  "\<exists>s1. opcode_CMP [0, 5, 0, 0, 0] (demo_x4 []) = Some s1 \<and> opcode_JL [9, 0, 0, 0, 0] s1 = set_ep 9 s1"
proof -
  have "reg_get (arg [0, 5, 0, 0, 0] 0) (demo_x4 []) = Some 0"
    by (simp add: reg_get_def arg_def REGS_SIZE_def regs_bytes_def demo_x4_def)
  from compare_decides_jumps [OF this, of "opcode_CMP [0, 5, 0, 0, 0] (demo_x4 [])" 5 "[9, 0, 0, 0, 0]"]
  show ?thesis by (auto simp: arg_ptr_def get_pointer_from_bytes_def)
qed

section \<open>Which instructions are defined\<close>

text \<open>The operand bytes that name a register, by opcode.\<close>

definition reg_operands :: "u8 \<Rightarrow> nat list" where
  "reg_operands opc =
     (if opc \<in> {0x81, 0x82, 0x89, 0x83, 0xFD, 0xFC, 0x0F, 0xF0, 0x23, 0x38} then [0]
      else if opc \<in> {0x88, 0x00, 0x80, 0x20, 0x21, 0x22, 0x39} then [0, 1]
      else if opc \<in> {0xF6, 0xF4} then [0, 1, 2] else [])"

lemma reg_defined:
  "reg_get n s = None \<longleftrightarrow> 33 \<le> n" "reg_set n v s = None \<longleftrightarrow> 33 \<le> n" "store_zero n v s = None \<longleftrightarrow> 33 \<le> n"
  "(\<exists>x. reg_get n s = Some x) \<longleftrightarrow> n < 33" "(\<exists>x. reg_set n v s = Some x) \<longleftrightarrow> n < 33" "(\<exists>x. store_zero n v s = Some x) \<longleftrightarrow> n < 33"
  by (auto simp: reg_get_def reg_set_def store_zero_def REGS_SIZE_def)

lemma bind_defined: "Option.bind x f = None \<longleftrightarrow> x = None \<or> (\<exists>y. x = Some y \<and> f y = None)"
  by (cases x) auto

lemma op_defined:
  "unary f a s = None \<longleftrightarrow> 33 \<le> arg a 0"
  "binary g a s = None \<longleftrightarrow> 33 \<le> arg a 0 \<or> 33 \<le> arg a 1"
  "opcode_MOVMR a s = None \<longleftrightarrow> 33 \<le> arg a 0" "opcode_MOVMW a s = None \<longleftrightarrow> 33 \<le> arg a 0"
  "opcode_MOVR a s = None \<longleftrightarrow> 33 \<le> arg a 0 \<or> 33 \<le> arg a 1" "opcode_MOVB a s = None \<longleftrightarrow> 33 \<le> arg a 0"
  "opcode_MOVA a s = None \<longleftrightarrow> 32 \<le> arg a 0"
  "opcode_MUL a s = None \<longleftrightarrow> 33 \<le> arg a 0 \<or> 33 \<le> arg a 1 \<or> 33 \<le> arg a 2"
  "opcode_DIV a s = None \<longleftrightarrow> 33 \<le> arg a 0 \<or> 33 \<le> arg a 1 \<or> 33 \<le> arg a 2 \<or> regs_bytes (cache s) ! arg a 2 = 0"
  "opcode_PUSH a s = None \<longleftrightarrow> 33 \<le> arg a 0" "opcode_POP a s = None \<longleftrightarrow> 33 \<le> arg a 0"
  "opcode_CMP a s = None \<longleftrightarrow> 33 \<le> arg a 0" "opcode_CMPR a s = None \<longleftrightarrow> 33 \<le> arg a 0 \<or> 33 \<le> arg a 1"
  by (auto simp: unary_def binary_def opcode_MOVMR_def opcode_MOVMW_def opcode_MOVR_def opcode_MOVB_def opcode_MOVA_def
      opcode_MUL_def opcode_DIV_def opcode_PUSH_def opcode_POP_def opcode_CMP_def opcode_CMPR_def bind_defined
      store_zero_def reg_get_def reg_set_def REGS_SIZE_def split: prod.splits)

lemma x4_fetch_length: "length (x4_fetch s) = 6"
  by (simp add: x4_fetch_def)

lemma advance_None: "advance n r = None \<longleftrightarrow> r = None"
  by (simp add: advance_def)

lemmas x4_op_defs = opcode_INC_def opcode_DEC_def opcode_NOT_def opcode_ADD_def opcode_SUB_def opcode_AND_def
  opcode_OR_def opcode_XOR_def

text \<open>exactly which instructions are undefined: the interpreter never checks a register operand, so an
  instruction (other than \<open>INT\<close>) leaves the defined behaviour if and only if an operand byte that names a
  register is beyond the 33 bytes of the register block (32 for the first byte of the two \<open>MOVA\<close> writes), or it
  divides by zero.\<close>

theorem undefined_instructions:
  fixes s :: x4
  defines "code \<equiv> x4_fetch s"
  assumes "code ! 0 \<noteq> 0xCC" "code ! 0 \<noteq> 0xCD"
  shows "x4_step heap fsys s = None \<longleftrightarrow>
    (\<exists>k \<in> set (reg_operands (code ! 0)). unat (code ! (k + 1)) \<ge> (if code ! 0 = 0x83 then 32 else 33))
    \<or> code ! 0 = 0xF4 \<and> regs_bytes (cache (set_ep (r_ep (cache s) + 1) s)) ! unat (code ! 3) = 0"
proof -
  have a: "arg (drop 1 code) k = unat (code ! (k + 1))" if "k < 5" for k
    using that by (simp add: arg_def code_def x4_fetch_length)
  have k: "arg (drop 1 code) 0 = unat (code ! 1)" "arg (drop 1 code) 1 = unat (code ! 2)" "arg (drop 1 code) 2 = unat (code ! 3)"
    using a [of 0] a [of 1] a [of 2] by (simp_all add: numeral_2_eq_2 numeral_3_eq_3)
  define ops where "ops = drop 1 code"
  define s1 where "s1 = set_ep (r_ep (cache s) + 1) s"
  note defs = advance_None op_defined k [folded ops_def] k(2) [folded ops_def, unfolded One_nat_def numeral_2_eq_2] reg_operands_def x4_op_defs
  note step = x4_step_def [of heap fsys s, unfolded Let_def, folded code_def, folded ops_def s1_def]
  show ?thesis
  proof (cases "code ! 0 = 0x81 \<or> code ! 0 = 0x82 \<or> code ! 0 = 0x88 \<or> code ! 0 = 0x89 \<or> code ! 0 = 0x83 \<or> code ! 0 = 0xFD
    \<or> code ! 0 = 0xFC \<or> code ! 0 = 0x00 \<or> code ! 0 = 0x80 \<or> code ! 0 = 0xF6 \<or> code ! 0 = 0xF4 \<or> code ! 0 = 0x0F
    \<or> code ! 0 = 0xF0 \<or> code ! 0 = 0x20 \<or> code ! 0 = 0x21 \<or> code ! 0 = 0x22 \<or> code ! 0 = 0x23 \<or> code ! 0 = 0x38
    \<or> code ! 0 = 0x39 \<or> code ! 0 = 0xFE \<or> code ! 0 = 0x74 \<or> code ! 0 = 0xF3 \<or> code ! 0 = 0x75 \<or> code ! 0 = 0xF1
    \<or> code ! 0 = 0x72 \<or> code ! 0 = 0xF9 \<or> code ! 0 = 0x9A \<or> code ! 0 = 0xCB \<or> code ! 0 = 0xFA \<or> code ! 0 = 0xFB
    \<or> code ! 0 = 0x90")
    case True
    then show ?thesis
      unfolding step s1_def [symmetric] by (elim disjE) (simp_all add: defs)
  next
    case False
    then show ?thesis
      unfolding step using assms(2,3) by (simp add: reg_operands_def)
  qed
qed

text \<open>\<open>MOVB 200, 1\<close>: the guest writes 167 bytes beyond its registers.\<close>

theorem undefined_instructions_witness: "x4_step 0 (\<lambda>s. (0, s)) (demo_x4 [0x89, 200, 1]) = None"
proof -
  have f: "x4_fetch (demo_x4 [0x89, 200, 1]) = [0x89, 200, 1, 0, 0, 0]"
    by (simp add: x4_fetch_def x4_readb_def demo_x4_def upt_rec)
  show ?thesis
    using undefined_instructions [of "demo_x4 [0x89, 200, 1]" 0 "\<lambda>s. (0, s)"] by (simp add: f reg_operands_def)
qed

section \<open>Time slices\<close>

lemma x4_loop_add:
  "x4_loop heap fsys (m + n) s = Option.bind (x4_loop heap fsys m s)
     (\<lambda>r. case r of Continue s1 \<Rightarrow> x4_loop heap fsys n s1 | Return v s1 \<Rightarrow> Some (Return v s1))"
proof (induction m arbitrary: s)
  case 0
  then show ?case by simp
next
  case (Suc m)
  then show ?case by (cases "x4_step heap fsys s") (auto split: step_result.splits)
qed

text \<open>time slices compose: a run of \<open>m + n\<close> steps is a run of \<open>m\<close> steps followed, if that one used up its
  slice, by a run of \<open>n\<close> steps from where it stopped, when the first slice ends with a clean console line (a slice
  that ends with a dirty line prints a newline the longer run does not print there).\<close>

theorem time_slices_compose:
  assumes l: "unat m + unat n < 2 ^ 32" and r: "x4_loop heap fsys (unat m) s = Some r"
    and clean: "\<And>s1. r = Continue s1 \<Longrightarrow> \<not> flag FLAG_CONSOLE_DIRTY s1"
  shows "case r of
      Continue s1 \<Rightarrow> x4_emulate heap fsys m s = Some (0, s1) \<and> x4_emulate heap fsys (m + n) s = x4_emulate heap fsys n s1
    | Return v s1 \<Rightarrow> x4_emulate heap fsys m s = Some (v, s1) \<and> x4_emulate heap fsys (m + n) s = Some (v, s1)"
proof -
  have u: "unat (m + n) = unat m + unat n" using l by (simp add: unat_add_u32)
  show ?thesis
    using clean r by (cases r) (auto simp: x4_emulate_def u x4_loop_add flush_console_def flag_def)
qed

text \<open>Two \<open>NOP\<close>s in two slices.\<close>

theorem time_slices_compose_witness:
  "x4_emulate 0 (\<lambda>s. (0, s)) 2 (demo_x4 [0x90, 0x90]) = x4_emulate 0 (\<lambda>s. (0, s)) 1 (set_ep 1 (demo_x4 [0x90, 0x90]))"
proof -
  let ?s = "demo_x4 [0x90, 0x90]"
  have f: "x4_fetch ?s = [0x90, 0x90, 0, 0, 0, 0]" by (simp add: x4_fetch_def x4_readb_def demo_x4_def upt_rec)
  have "r_ep (cache ?s) = 0" by (simp add: demo_x4_def)
  then have "x4_step 0 (\<lambda>s. (0, s)) ?s = Some (Continue (set_ep 1 ?s))" by (simp add: x4_step_def f Let_def)
  then have r: "x4_loop 0 (\<lambda>s. (0, s)) (unat (1 :: u32)) ?s = Some (Continue (set_ep 1 ?s))" by (simp add: One_nat_def [symmetric] del: One_nat_def) (simp add: eval_nat_numeral)
  have c: "\<not> flag FLAG_CONSOLE_DIRTY s1" if "Continue (set_ep 1 ?s) = Continue s1" for s1
    using that by (auto simp: flag_def set_ep_def demo_x4_def)
  have "unat (1 :: u32) + unat (1 :: u32) < 2 ^ 32" by simp
  from time_slices_compose [OF this r c] show ?thesis by simp
qed

section \<open>Yielding\<close>

lemma yield_step:
  assumes code: "x4_fetch s ! 0 = 0xCD" "x4_fetch s ! 1 = 0x16" and wait: "r_ah (cache s) = 0" "kb_char s = last_character s"
  shows "x4_step heap fsys s = Some (Return 0xD6 (flush_console (set_ep (r_ep (cache s) - 1) (set_al 0 s))))"
proof -
  have a: "drop (Suc 0) (x4_fetch s) ! 0 = 0x16" using code by (simp add: x4_fetch_length)
  have e: "r_ep (cache s) + 1 - 2 = r_ep (cache s) - 1" by simp
  let ?s1 = "set_ep (r_ep (cache s) + 1) s"
  have "isc_keyboard_routine ?s1 = (0xD6, set_al 0 ?s1)"
    using wait by (simp add: isc_keyboard_routine_def Let_def set_ep_def)
  then have "opcode_INT heap fsys (drop (Suc 0) (x4_fetch s)) ?s1 = Some (0xD6, set_ep (r_ep (cache s) + 1 - 2) (set_al 0 ?s1))"
    by (simp add: opcode_INT_def a) (simp add: set_ep_def set_al_def)
  moreover have "set_ep (r_ep (cache s) - 1) (set_al 0 ?s1) = set_ep (r_ep (cache s) - 1) (set_al 0 s)"
    by (simp add: set_ep_def set_al_def)
  ultimately have "opcode_INT heap fsys (drop (Suc 0) (x4_fetch s)) ?s1 = Some (0xD6, set_ep (r_ep (cache s) - 1) (set_al 0 s))"
    unfolding e by simp
  then show ?thesis using code by (simp add: x4_step_def Let_def)
qed

text \<open>\<open>MOVB AH, 0; INT 0x16\<close>.\<close>

definition wait_program :: x4 where "wait_program = demo_x4 [0x89, 0x01, 0x00, 0xCD, 0x16]"

lemma wait_program_run:
  "x4_emulate heap fsys 4 wait_program = Some (0xD6, set_ep 2 wait_program)" "x4_emulate heap fsys 1 (set_ep 2 wait_program) = None"
proof -
  note d = wait_program_def demo_x4_def
  have f: "x4_fetch wait_program = [0x89, 0x01, 0x00, 0xCD, 0x16, 0]" "x4_fetch (set_ep 3 wait_program) = [0xCD, 0x16, 0, 0, 0, 0]"
    "x4_fetch (set_ep 2 wait_program) = [0x00, 0xCD, 0x16, 0, 0, 0]"
    by (simp_all add: x4_fetch_def x4_readb_def d set_ep_def upt_rec)
  have c: "r_ep (cache wait_program) = 0" "r_state (cache wait_program) = 0" by (simp_all add: d)
  have "(regs_bytes (cache (set_ep 1 wait_program)))[Suc 0 := 0] = regs_bytes (cache (set_ep 1 wait_program))"
    by (simp add: regs_bytes_def d set_ep_def)
  then have "reg_set 1 0 (set_ep 1 wait_program) = Some (set_ep 1 wait_program)"
    by (simp add: reg_set_def REGS_SIZE_def regs_bytes_roundtrip)
  then have s1: "x4_step heap fsys wait_program = Some (Continue (set_ep 3 wait_program))"
    by (simp add: x4_step_def f(1) c Let_def opcode_MOVB_def arg_def advance_def) (simp add: set_ep_def)
  have "set_ep (r_ep (cache (set_ep 3 wait_program)) - 1) (set_al 0 (set_ep 3 wait_program)) = set_ep 2 wait_program"
    by (simp add: set_ep_def set_al_def d)
  moreover have "flush_console (set_ep 2 wait_program) = set_ep 2 wait_program"
    by (simp add: flush_console_def set_ep_def c)
  moreover have "r_ah (cache (set_ep 3 wait_program)) = 0" "kb_char (set_ep 3 wait_program) = last_character (set_ep 3 wait_program)"
    by (simp_all add: set_ep_def d)
  ultimately have s2: "x4_step heap fsys (set_ep 3 wait_program) = Some (Return 0xD6 (set_ep 2 wait_program))"
    using yield_step [of "set_ep 3 wait_program" heap fsys] f(2) by simp
  have four: "unat (4 :: u32) = Suc (Suc 2)" by simp
  show "x4_emulate heap fsys 4 wait_program = Some (0xD6, set_ep 2 wait_program)"
    unfolding x4_emulate_def four by (simp only: x4_loop.simps s1 s2 Option.bind.simps step_result.case option.map)
  have "x4_step heap fsys (set_ep 2 wait_program) = None"
    by (simp add: x4_step_def f(3) Let_def advance_None opcode_ADD_def op_defined arg_def)
  moreover have "unat (1 :: u32) = Suc 0" by simp
  ultimately show "x4_emulate heap fsys 1 (set_ep 2 wait_program) = None" unfolding x4_emulate_def by simp
qed

text \<open>an \<open>INT 0x16\<close> that waits for a key yields with the execution pointer one byte before the \<open>INT\<close>
  instruction, not on it: \<open>opcode_INT\<close> subtracts two although only the opcode byte has been stepped over. The
  next slice executes from the last operand byte of the instruction before: for the program
  \<open>MOVB AH, 0; INT 0x16\<close> it decodes \<open>ADD\<close> with the register operand \<open>0xCD\<close>, an undefined access.\<close>

theorem yield_resumes_early:
  assumes code: "x4_fetch s ! 0 = 0xCD" "x4_fetch s ! 1 = 0x16" and wait: "r_ah (cache s) = 0" "kb_char s = last_character s"
  shows "(\<exists>s1. x4_step heap fsys s = Some (Return 0xD6 s1) \<and> r_ep (cache s1) = r_ep (cache s) - 1)
    \<and> x4_emulate heap fsys 4 wait_program = Some (0xD6, set_ep 2 wait_program)
    \<and> x4_emulate heap fsys 1 (set_ep 2 wait_program) = None"
proof -
  have "r_ep (cache (flush_console (set_ep (r_ep (cache s) - 1) (set_al 0 s)))) = r_ep (cache s) - 1"
    by (simp add: flush_console_def set_state_def set_ep_def set_al_def)
  then show ?thesis using yield_step [OF assms] wait_program_run by auto
qed

theorem yield_resumes_early_witness:
  "\<exists>s1. x4_step 0 (\<lambda>s. (0, s)) (demo_x4 [0xCD, 0x16]) = Some (Return 0xD6 s1) \<and> r_ep (cache s1) = - 1"
proof -
  have "x4_fetch (demo_x4 [0xCD, 0x16]) ! 0 = 0xCD" "x4_fetch (demo_x4 [0xCD, 0x16]) ! 1 = 0x16"
    "r_ah (cache (demo_x4 [0xCD, 0x16])) = 0" "kb_char (demo_x4 [0xCD, 0x16]) = last_character (demo_x4 [0xCD, 0x16])"
    by (simp_all add: x4_fetch_def x4_readb_def demo_x4_def upt_rec)
  from yield_resumes_early [OF this, of 0 "\<lambda>s. (0, s)"] show ?thesis by (simp add: demo_x4_def)
qed

end
