(* ===== verification/Registry.thy ===== *)
theory Registry
  imports CString
begin

text \<open>
  The registry, \<open>kernel/registry/registry.c\<close>. The sibling lists of keys and values are lists, first sibling
  first; a name is its 16 bytes; \<open>void* data\<close> is an option of the bytes it points to. A hive file is the
  list of its bytes. \<open>budget\<close> is the number of allocations that still succeed: \<open>malloc\<close> fails once it is
  used up. A recursive import that fails leaves nothing behind (the caller frees the root), which is \<open>None\<close>.
  \<open>None\<close> is also an access outside a buffer, as everywhere.
\<close>

section \<open>Data\<close>

definition REGISTRY_MAX_NAME_LEN :: nat where "REGISTRY_MAX_NAME_LEN = 16"
definition REGISTRY_MAX_PATH_LEN :: nat where "REGISTRY_MAX_PATH_LEN = 128"
definition REGISTRY_MAX_VALUE_SIZE :: u32 where "REGISTRY_MAX_VALUE_SIZE = 64 * 1024"
definition REGISTRY_MAX_DEPTH :: nat where "REGISTRY_MAX_DEPTH = 32"
definition REGISTRY_MAGIC :: "u8 list" where "REGISTRY_MAGIC = [0x52, 0x45, 0x47, 0x21]"

record registry_value =
  value_name :: "u8 list"
  value_data :: "u8 list option"
  data_len :: u32
  value_permissions :: u16

datatype registry_key =
  RegistryKey (key_name: "u8 list") (key_permissions: u16) (child_keys: "registry_key list") (key_values: "registry_value list")

record rstream =
  input :: "u8 list"
  budget :: nat

definition malloc_ok :: "rstream \<Rightarrow> rstream option" where
  "malloc_ok st = (if budget st = 0 then None else Some (st\<lparr>budget := budget st - 1\<rparr>))"

definition reg_read_exact :: "nat \<Rightarrow> rstream \<Rightarrow> (u8 list \<times> rstream) option" where
  "reg_read_exact n st =
     (if n = 0 then Some ([], st)
      else if n \<le> length (input st) then Some (take n (input st), st\<lparr>input := drop n (input st)\<rparr>) else None)"

text \<open>Writing: the bytes written so far and the bytes of the file that are left.\<close>

definition reg_write_exact :: "u8 list \<Rightarrow> u8 list \<times> nat \<Rightarrow> (u8 list \<times> nat) option" where
  "reg_write_exact bs w =
     (if bs = [] then Some w
      else if length bs \<le> snd w then Some (fst w @ bs, snd w - length bs) else None)"

text \<open>The buffer \<open>dest\<close> is fresh memory; \<open>strncpy\<close> writes all 16 bytes.\<close>

definition registry_copy_name :: "u8 list \<Rightarrow> u8 list option" where
  "registry_copy_name src =
     map_option (\<lambda>d. d[REGISTRY_MAX_NAME_LEN - 1 := 0]) (strncpy (replicate REGISTRY_MAX_NAME_LEN 0) src REGISTRY_MAX_NAME_LEN)"

section \<open>Creating, finding, permissions\<close>

definition registry_create_key :: "u8 list \<Rightarrow> u16 \<Rightarrow> rstream \<Rightarrow> (registry_key \<times> rstream) option" where
  "registry_create_key name perms st = do {
     st \<leftarrow> malloc_ok st;
     nm \<leftarrow> registry_copy_name name;
     Some (RegistryKey nm perms [] [], st)
   }"

definition link_key :: "registry_key \<Rightarrow> registry_key \<Rightarrow> registry_key" where
  "link_key parent k = (case parent of RegistryKey n p cs vs \<Rightarrow> RegistryKey n p (k # cs) vs)"

definition registry_create_value :: "u8 list \<Rightarrow> u16 \<Rightarrow> u8 list option \<Rightarrow> u32 \<Rightarrow> rstream \<Rightarrow> (registry_value \<times> rstream) option" where
  "registry_create_value name perms dat sz st = do {
     st \<leftarrow> malloc_ok st;
     nm \<leftarrow> registry_copy_name name;
     (d, st) \<leftarrow> (case dat of
                  Some bs \<Rightarrow> if 0 < sz then do { st \<leftarrow> malloc_ok st; Some (Some (take (unat sz) bs), st) } else Some (None, st)
                | None \<Rightarrow> Some (None, st));
     Some (\<lparr>value_name = nm, value_data = d, data_len = sz, value_permissions = perms\<rparr>, st)
   }"

definition link_value :: "registry_key \<Rightarrow> registry_value \<Rightarrow> registry_key" where
  "link_value parent v = (case parent of RegistryKey n p cs vs \<Rightarrow> RegistryKey n p cs (v # vs))"

fun find_name :: "('a \<Rightarrow> u8 list) \<Rightarrow> u8 list \<Rightarrow> 'a list \<Rightarrow> 'a option option" where
  "find_name nm name [] = Some None"
| "find_name nm name (x # xs) =
     Option.bind (strcmp (nm x) name) (\<lambda>c. if c = 0 then Some (Some x) else find_name nm name xs)"

definition registry_get_key :: "registry_key \<Rightarrow> u8 list \<Rightarrow> registry_key option option" where
  "registry_get_key parent name = find_name key_name name (child_keys parent)"

definition registry_get_value :: "registry_key \<Rightarrow> u8 list \<Rightarrow> registry_value option option" where
  "registry_get_value parent name = find_name value_name name (key_values parent)"

definition registry_get_permissions :: "registry_key option \<Rightarrow> u16" where
  "registry_get_permissions k = (case k of None \<Rightarrow> 0 | Some k' \<Rightarrow> key_permissions k')"

definition registry_set_permissions :: "u16 \<Rightarrow> registry_key option \<Rightarrow> registry_key option" where
  "registry_set_permissions p k = map_option (\<lambda>k'. RegistryKey (key_name k') p (child_keys k') (key_values k')) k"

section \<open>Export\<close>

fun write_all :: "('a \<Rightarrow> u8 list \<times> nat \<Rightarrow> (u8 list \<times> nat) option) \<Rightarrow> 'a list \<Rightarrow> u8 list \<times> nat \<Rightarrow> (u8 list \<times> nat) option" where
  "write_all f [] w = Some w"
| "write_all f (x # xs) w = Option.bind (f x w) (write_all f xs)"

lemma write_all_cong [fundef_cong]:
  "xs = ys \<Longrightarrow> w = w' \<Longrightarrow> (\<And>x w. x \<in> set ys \<Longrightarrow> f x w = g x w) \<Longrightarrow> write_all f xs w = write_all g ys w'"
  by (induction xs arbitrary: ys w w') (auto intro!: Option.bind_cong)

definition export_value :: "registry_value \<Rightarrow> u8 list \<times> nat \<Rightarrow> (u8 list \<times> nat) option" where
  "export_value v w = do {
     w \<leftarrow> reg_write_exact (value_name v) w;
     w \<leftarrow> reg_write_exact (word_le 2 (value_permissions v)) w;
     w \<leftarrow> reg_write_exact (word_le 4 (data_len v)) w;
     (case value_data v of Some bs \<Rightarrow> if 0 < data_len v then reg_write_exact (take (unat (data_len v)) bs) w else Some w
                         | None \<Rightarrow> Some w)
   }"

fun registry_export_key_recursive :: "registry_key \<Rightarrow> u8 list \<times> nat \<Rightarrow> (u8 list \<times> nat) option" where
  "registry_export_key_recursive (RegistryKey n p cs vs) w = do {
     w \<leftarrow> reg_write_exact n w;
     w \<leftarrow> reg_write_exact (word_le 2 p) w;
     w \<leftarrow> reg_write_exact (word_le 4 (of_nat (length vs) :: u32)) w;
     w \<leftarrow> write_all export_value vs w;
     w \<leftarrow> reg_write_exact (word_le 4 (of_nat (length cs) :: u32)) w;
     write_all registry_export_key_recursive cs w
   }"

fun registry_calculate_key_size_recursive :: "registry_key \<Rightarrow> u32" where
  "registry_calculate_key_size_recursive (RegistryKey n p cs vs) =
     16 + 2 + 4 + (\<Sum>v \<leftarrow> vs. 16 + 2 + 4 + data_len v) + 4 + (\<Sum>c \<leftarrow> cs. registry_calculate_key_size_recursive c)"

definition registry_calculate_total_export_size :: "registry_key option \<Rightarrow> u32" where
  "registry_calculate_total_export_size root =
     1 + (case root of None \<Rightarrow> 0 | Some k \<Rightarrow> registry_calculate_key_size_recursive k)"

text \<open>The file, if creating, truncating (to the calculated size) and opening it succeed; \<open>None\<close>: the call returned false.\<close>

definition registry_hive_export :: "bool \<Rightarrow> registry_key option \<Rightarrow> u8 list option" where
  "registry_hive_export vfs_ok root =
     (if \<not> vfs_ok then None
      else map_option fst (do {
        w \<leftarrow> reg_write_exact REGISTRY_MAGIC ([], unat (registry_calculate_total_export_size root + 4));
        w \<leftarrow> reg_write_exact [if root = None then 0 else 1] w;
        (case root of None \<Rightarrow> Some w | Some k \<Rightarrow> registry_export_key_recursive k w)
      }))"

section \<open>Import\<close>

text \<open>\<open>n\<close> records, each linked in front of the ones before.\<close>

fun read_many :: "(rstream \<Rightarrow> ('a \<times> rstream) option) \<Rightarrow> nat \<Rightarrow> 'a list \<Rightarrow> rstream \<Rightarrow> ('a list \<times> rstream) option" where
  "read_many f 0 acc st = Some (acc, st)"
| "read_many f (Suc n) acc st = Option.bind (f st) (\<lambda>(x, st). read_many f n (x # acc) st)"

definition import_value :: "rstream \<Rightarrow> (registry_value \<times> rstream) option" where
  "import_value st = do {
     (nm, st) \<leftarrow> reg_read_exact REGISTRY_MAX_NAME_LEN st;
     (pm, st) \<leftarrow> reg_read_exact 2 st;
     (sz, st) \<leftarrow> reg_read_exact 4 st;
     let n = (le_word sz :: u32);
     if n > REGISTRY_MAX_VALUE_SIZE then None
     else do {
       (d, st) \<leftarrow> (if 0 < n then do { st \<leftarrow> malloc_ok st; (bs, st) \<leftarrow> reg_read_exact (unat n) st; Some (Some bs, st) }
                  else Some (None, st));
       registry_create_value (nm[REGISTRY_MAX_NAME_LEN - 1 := 0]) (le_word pm) d n st
     }
   }"

text \<open>The first argument is the number of levels left, \<open>REGISTRY_MAX_DEPTH + 1 - depth\<close>.\<close>

primrec registry_import_key_recursive :: "nat \<Rightarrow> rstream \<Rightarrow> (registry_key \<times> rstream) option" where
  "registry_import_key_recursive 0 = (\<lambda>st. None)"
| "registry_import_key_recursive (Suc d) = (\<lambda>st. do {
     (nm, st) \<leftarrow> reg_read_exact REGISTRY_MAX_NAME_LEN st;
     (pm, st) \<leftarrow> reg_read_exact 2 st;
     (k, st) \<leftarrow> registry_create_key (nm[REGISTRY_MAX_NAME_LEN - 1 := 0]) (le_word pm) st;
     (vc, st) \<leftarrow> reg_read_exact 4 st;
     (vs, st) \<leftarrow> read_many import_value (unat (le_word vc :: u32)) [] st;
     (kc, st) \<leftarrow> reg_read_exact 4 st;
     (cs, st) \<leftarrow> read_many (registry_import_key_recursive d) (unat (le_word kc :: u32)) [] st;
     Some (RegistryKey (key_name k) (key_permissions k) cs vs, st)
   })"

text \<open>\<open>file\<close> is \<open>None\<close> when it cannot be opened. The result: success, and the hive's root afterwards.\<close>

definition registry_hive_import :: "u8 list option \<Rightarrow> nat \<Rightarrow> registry_key option \<Rightarrow> bool \<times> registry_key option" where
  "registry_hive_import file mem root =
     (case file of
        None \<Rightarrow> (False, root)
      | Some bytes \<Rightarrow>
          (case reg_read_exact 4 \<lparr>input = bytes, budget = mem\<rparr> of
             None \<Rightarrow> (False, root)
           | Some (magic, st) \<Rightarrow>
               if magic \<noteq> REGISTRY_MAGIC then (False, root)
               else (case reg_read_exact 1 st of
                       None \<Rightarrow> (False, None)
                     | Some (has_root, st) \<Rightarrow>
                         if has_root ! 0 = 0 then (True, None)
                         else (case registry_import_key_recursive (REGISTRY_MAX_DEPTH + 1) st of
                                 None \<Rightarrow> (False, None)
                               | Some (k, st) \<Rightarrow> (True, Some k)))))"

section \<open>The hive paths\<close>

text \<open>One of the two paths \<open>registry_hive_initiate\<close> builds; \<open>buf\<close> is the uninitialised local buffer.\<close>

definition hive_path :: "u8 list \<Rightarrow> u8 list \<Rightarrow> u8 list \<Rightarrow> u8 list option" where
  "hive_path buf path suffix = do {
     b \<leftarrow> strncpy buf path REGISTRY_MAX_PATH_LEN;
     strncat (b[REGISTRY_MAX_PATH_LEN - 1 := 0]) suffix REGISTRY_MAX_PATH_LEN
   }"

end
