(* ===== verification/RegistryProps.thy ===== *)
theory RegistryProps
  imports Registry
begin

text \<open>
  Properties of the registry: a hive file round trips (with the siblings mirrored), importing any bytes gives
  a well-formed hive or none, and the paths of the hive files overflow their buffer for a long directory.
\<close>

section \<open>Names\<close>

definition norm_name :: "u8 list \<Rightarrow> bool" where
  "norm_name n \<longleftrightarrow> length n = REGISTRY_MAX_NAME_LEN \<and> registry_copy_name n = Some n \<and> n ! (REGISTRY_MAX_NAME_LEN - 1) = 0"

lemma copy_name_eq:
  assumes "terminated src \<or> 16 \<le> length src"
  shows "registry_copy_name src = Some (take 15 (cstr src) @ replicate (16 - length (take 15 (cstr src))) 0)"
proof -
  have *: "strncpy (replicate 16 0) src 16 = Some (take 16 (cstr src) @ replicate (16 - length (cstr src)) 0)"
    using assms by (simp add: strncpy_eq)
  show ?thesis
  proof (cases "length (cstr src) \<le> 15")
    case True
    then have "(take 16 (cstr src) @ replicate (16 - length (cstr src)) (0 :: u8))[15 := 0]
        = take 16 (cstr src) @ replicate (16 - length (cstr src)) 0"
      by (intro list_update_same_conv [THEN iffD2]) (auto simp: nth_append)
    then show ?thesis using True * by (simp add: registry_copy_name_def REGISTRY_MAX_NAME_LEN_def)
  next
    case False
    then have l: "length (take 16 (cstr src)) = 16" by simp
    have "(take 16 (cstr src))[15 := 0] = take 15 (cstr src) @ [0]"
      using l by (simp add: list_eq_iff_nth_eq nth_list_update nth_append less_Suc_eq)
    then show ?thesis using False * by (simp add: registry_copy_name_def REGISTRY_MAX_NAME_LEN_def)
  qed
qed

lemma copy_name_norm:
  assumes "terminated src \<or> 16 \<le> length src"
  obtains n where "registry_copy_name src = Some n" "norm_name n" "cstr n = take 15 (cstr src)"
proof -
  let ?s = "take 15 (cstr src)" and ?n = "take 15 (cstr src) @ replicate (16 - length (take 15 (cstr src))) 0"
  have z: "0 \<notin> set ?s" using no_nul_in_cstr [of src] by (meson in_set_takeD)
  have r: "replicate (16 - length ?s) (0 :: u8) = 0 # replicate (15 - length ?s) 0"
    by (cases "16 - length ?s") (auto simp: min_def split: if_splits)
  have c: "cstr ?n = ?s" unfolding r by (rule cstr_append_nul [OF z])
  have l: "length ?n = 16" by auto
  have "registry_copy_name ?n = Some (take 15 (cstr ?n) @ replicate (16 - length (take 15 (cstr ?n))) 0)"
    by (rule copy_name_eq) (use l in simp)
  then have "registry_copy_name ?n = Some ?n" unfolding c by simp
  moreover have "?n ! 15 = 0" by (auto simp: nth_append)
  ultimately have "norm_name ?n" using l by (simp add: norm_name_def REGISTRY_MAX_NAME_LEN_def)
  then show thesis using that copy_name_eq [OF assms] c by blast
qed

section \<open>Well-formed hives\<close>

definition value_ok :: "registry_value \<Rightarrow> bool" where
  "value_ok v \<longleftrightarrow> norm_name (value_name v) \<and> data_len v \<le> REGISTRY_MAX_VALUE_SIZE
     \<and> (case value_data v of None \<Rightarrow> data_len v = 0 | Some bs \<Rightarrow> 0 < data_len v \<and> length bs = unat (data_len v))"

fun key_ok :: "nat \<Rightarrow> registry_key \<Rightarrow> bool" where
  "key_ok 0 k = False"
| "key_ok (Suc d) (RegistryKey n p cs vs) =
     (norm_name n \<and> (\<forall>v \<in> set vs. value_ok v) \<and> length vs < 2 ^ 32 \<and> length cs < 2 ^ 32 \<and> (\<forall>c \<in> set cs. key_ok d c))"

text \<open>The bytes of a value and of a key, the allocations importing them takes, and the tree with all siblings reversed.\<close>

definition value_bytes :: "registry_value \<Rightarrow> u8 list" where
  "value_bytes v = value_name v @ word_le 2 (value_permissions v) @ word_le 4 (data_len v)
     @ (case value_data v of None \<Rightarrow> [] | Some bs \<Rightarrow> bs)"

fun key_bytes :: "registry_key \<Rightarrow> u8 list" where
  "key_bytes (RegistryKey n p cs vs) = n @ word_le 2 p @ word_le 4 (of_nat (length vs) :: u32) @ concat (map value_bytes vs)
     @ word_le 4 (of_nat (length cs) :: u32) @ concat (map key_bytes cs)"

definition value_allocs :: "registry_value \<Rightarrow> nat" where
  "value_allocs v = (if data_len v = 0 then 1 else 3)"

fun key_allocs :: "registry_key \<Rightarrow> nat" where
  "key_allocs (RegistryKey n p cs vs) = 1 + sum_list (map value_allocs vs) + sum_list (map key_allocs cs)"

fun mirror :: "registry_key \<Rightarrow> registry_key" where
  "mirror (RegistryKey n p cs vs) = RegistryKey n p (rev (map mirror cs)) (rev vs)"

lemma mirror_mirror [simp]: "mirror (mirror k) = k"
  by (induction k rule: mirror.induct) (simp add: rev_map map_idI)

section \<open>Export\<close>

lemma reg_write: "reg_write_exact bs (w, c) = (if length bs \<le> c then Some (w @ bs, c - length bs) else None)"
  by (auto simp: reg_write_exact_def)

lemma export_value_eq:
  assumes "value_ok v"
  shows "export_value v (w, c) = (if length (value_bytes v) \<le> c then Some (w @ value_bytes v, c - length (value_bytes v)) else None)"
  using assms by (auto simp: export_value_def reg_write value_bytes_def value_ok_def split: option.splits)

lemma write_all_eq:
  assumes "\<And>x w c. x \<in> set xs \<Longrightarrow> f x (w, c) = (if length (b x) \<le> c then Some (w @ b x, c - length (b x)) else None)"
  shows "write_all f xs (w, c) = (let bs = concat (map b xs) in if length bs \<le> c then Some (w @ bs, c - length bs) else None)"
  using assms
proof (induction xs arbitrary: w c)
  case Nil
  then show ?case by simp
next
  case (Cons x xs)
  have "f x (w, c) = (if length (b x) \<le> c then Some (w @ b x, c - length (b x)) else None)" using Cons.prems by simp
  moreover have "\<And>w c. write_all f xs (w, c) = (let bs = concat (map b xs) in if length bs \<le> c then Some (w @ bs, c - length bs) else None)"
    using Cons by simp
  ultimately show ?case by (auto simp: Let_def)
qed

lemma export_key_eq:
  "key_ok d k \<Longrightarrow> registry_export_key_recursive k (w, c) =
     (if length (key_bytes k) \<le> c then Some (w @ key_bytes k, c - length (key_bytes k)) else None)"
proof (induction d arbitrary: k w c)
  case 0
  then show ?case by simp
next
  case (Suc d)
  obtain n p cs vs where k: "k = RegistryKey n p cs vs" by (cases k)
  have v: "write_all export_value vs (w, c) = (let bs = concat (map value_bytes vs) in
      if length bs \<le> c then Some (w @ bs, c - length bs) else None)" for w c
    using Suc.prems by (intro write_all_eq export_value_eq) (simp add: k)
  have cs: "write_all registry_export_key_recursive cs (w, c) = (let bs = concat (map key_bytes cs) in
      if length bs \<le> c then Some (w @ bs, c - length bs) else None)" for w c
    using Suc.prems by (intro write_all_eq Suc.IH) (simp add: k)
  show ?case
    unfolding k by (auto simp: reg_write v cs Let_def)
qed

lemma sum_lengths: "(\<And>x. x \<in> set xs \<Longrightarrow> f x = (of_nat (length (b x)) :: u32)) \<Longrightarrow>
    (\<Sum>x \<leftarrow> xs. f x) = of_nat (length (concat (map b xs)))"
  by (induction xs) auto

lemma key_size_eq: "key_ok d k \<Longrightarrow> registry_calculate_key_size_recursive k = of_nat (length (key_bytes k))"
proof (induction d arbitrary: k)
  case 0
  then show ?case by simp
next
  case (Suc d)
  obtain n p cs vs where k: "k = RegistryKey n p cs vs" by (cases k)
  have n: "length n = 16" using Suc.prems by (simp add: k norm_name_def REGISTRY_MAX_NAME_LEN_def)
  have v: "(16 + 2 + 4 + data_len v) = (of_nat (length (value_bytes v)) :: u32)" if "v \<in> set vs" for v
  proof -
    have "value_ok v" using that Suc.prems by (simp add: k)
    then show ?thesis by (auto simp: value_ok_def value_bytes_def norm_name_def REGISTRY_MAX_NAME_LEN_def split: option.splits)
  qed
  have vs: "(\<Sum>v \<leftarrow> vs. 16 + 2 + 4 + data_len v) = of_nat (length (concat (map value_bytes vs)))"
    by (rule sum_lengths [OF v])
  have cs: "(\<Sum>c \<leftarrow> cs. registry_calculate_key_size_recursive c) = of_nat (length (concat (map key_bytes cs)))"
    using Suc by (intro sum_lengths) (simp add: k)
  show ?case unfolding k registry_calculate_key_size_recursive.simps vs cs by (simp add: n)
qed

section \<open>Import\<close>

lemma reg_read [simp]:
  "n = length bs \<Longrightarrow> reg_read_exact n \<lparr>input = bs @ rest, budget = b\<rparr> = Some (bs, \<lparr>input = rest, budget = b\<rparr>)"
  by (auto simp: reg_read_exact_def)

lemma malloc_budget [simp]: "0 < b \<Longrightarrow> malloc_ok \<lparr>input = i, budget = b\<rparr> = Some \<lparr>input = i, budget = b - 1\<rparr>"
  by (simp add: malloc_ok_def)

lemma norm_nameD:
  assumes "norm_name n"
  shows "length n = 16" "n[15 := 0] = n" "registry_copy_name n = Some n"
  using assms list_update_id [of n 15] by (auto simp: norm_name_def REGISTRY_MAX_NAME_LEN_def)

lemma create_value_eq:
  assumes "value_ok v" "(if data_len v = 0 then 1 else 2) \<le> b"
  shows "registry_create_value (value_name v) (value_permissions v) (value_data v) (data_len v) \<lparr>input = i, budget = b\<rparr>
    = Some (v, \<lparr>input = i, budget = b - (if data_len v = 0 then 1 else 2)\<rparr>)"
proof -
  have n: "registry_copy_name (value_name v) = Some (value_name v)" using assms(1) norm_nameD by (simp add: value_ok_def)
  show ?thesis
    using assms by (cases "value_data v") (auto simp: registry_create_value_def n value_ok_def)
qed

lemma import_value_eq:
  assumes ok: "value_ok v" and b: "value_allocs v \<le> b"
  shows "import_value \<lparr>input = value_bytes v @ rest, budget = b\<rparr> = Some (v, \<lparr>input = rest, budget = b - value_allocs v\<rparr>)"
proof -
  have n: "length (value_name v) = REGISTRY_MAX_NAME_LEN" "(value_name v)[REGISTRY_MAX_NAME_LEN - Suc 0 := 0] = value_name v"
    using ok norm_nameD by (simp_all add: value_ok_def REGISTRY_MAX_NAME_LEN_def)
  have le: "\<not> REGISTRY_MAX_VALUE_SIZE < data_len v" using ok by (simp add: value_ok_def not_less)
  show ?thesis
  proof (cases "value_data v")
    case None
    then have z: "data_len v = 0" using ok by (simp add: value_ok_def)
    show ?thesis
      using create_value_eq [OF ok, of b rest] b None le
      unfolding import_value_def by (simp add: value_bytes_def n z value_allocs_def Let_def del: word_le.simps le_word.simps)
  next
    case (Some bs)
    then have z: "0 < data_len v" "length bs = unat (data_len v)" using ok by (simp_all add: value_ok_def)
    then show ?thesis
      using create_value_eq [OF ok, of "b - 1" rest] b Some le
      unfolding import_value_def
      by (simp add: value_bytes_def n value_allocs_def Let_def diff_diff_left del: word_le.simps le_word.simps split: if_splits)
  qed
qed

lemma read_many_eq:
  assumes "\<And>x rest b. x \<in> set xs \<Longrightarrow> cost x \<le> b \<Longrightarrow>
      f \<lparr>input = bytes x @ rest, budget = b\<rparr> = Some (g x, \<lparr>input = rest, budget = b - cost x\<rparr>)"
    and "sum_list (map cost xs) \<le> b"
  shows "read_many f (length xs) acc \<lparr>input = concat (map bytes xs) @ rest, budget = b\<rparr>
    = Some (rev (map g xs) @ acc, \<lparr>input = rest, budget = b - sum_list (map cost xs)\<rparr>)"
  using assms
proof (induction xs arbitrary: acc b)
  case Nil
  then show ?case by simp
next
  case (Cons x xs)
  have "f \<lparr>input = bytes x @ (concat (map bytes xs) @ rest), budget = b\<rparr>
      = Some (g x, \<lparr>input = concat (map bytes xs) @ rest, budget = b - cost x\<rparr>)"
    using Cons.prems by simp
  moreover have "read_many f (length xs) (g x # acc) \<lparr>input = concat (map bytes xs) @ rest, budget = b - cost x\<rparr>
      = Some (rev (map g xs) @ g x # acc, \<lparr>input = rest, budget = b - cost x - sum_list (map cost xs)\<rparr>)"
    using Cons.prems by (intro Cons.IH) auto
  ultimately show ?case by (simp add: diff_diff_left)
qed

lemma import_key_eq:
  "key_ok d k \<Longrightarrow> key_allocs k \<le> b \<Longrightarrow>
     registry_import_key_recursive d \<lparr>input = key_bytes k @ rest, budget = b\<rparr>
       = Some (mirror k, \<lparr>input = rest, budget = b - key_allocs k\<rparr>)"
proof (induction d arbitrary: k b rest)
  case 0
  then show ?case by simp
next
  case (Suc d)
  obtain n p cs vs where k: "k = RegistryKey n p cs vs" by (cases k)
  have n: "length n = REGISTRY_MAX_NAME_LEN" "n[REGISTRY_MAX_NAME_LEN - Suc 0 := 0] = n" "registry_copy_name n = Some n"
    using Suc.prems(1) norm_nameD [of n] by (simp_all add: k REGISTRY_MAX_NAME_LEN_def)
  have l: "length vs < 4294967296" "length cs < 4294967296" using Suc.prems(1) by (simp_all add: k)
  let ?va = "sum_list (map value_allocs vs)" and ?ca = "sum_list (map key_allocs cs)"
  have b: "0 < b" "?va \<le> b - 1" "?ca \<le> b - 1 - ?va" using Suc.prems(2) by (auto simp: k)
  have vs: "read_many import_value (length vs) [] \<lparr>input = concat (map value_bytes vs) @ r, budget = b - 1\<rparr>
      = Some (rev (map id vs) @ [], \<lparr>input = r, budget = b - 1 - ?va\<rparr>)" for r
    using Suc.prems(1) b(2) by (intro read_many_eq) (auto simp: k import_value_eq)
  have cs: "read_many (registry_import_key_recursive d) (length cs) [] \<lparr>input = concat (map key_bytes cs) @ rest, budget = b - 1 - ?va\<rparr>
      = Some (rev (map mirror cs) @ [], \<lparr>input = rest, budget = b - 1 - ?va - ?ca\<rparr>)"
    using Suc.prems(1) b(3) by (intro read_many_eq) (auto simp: k Suc.IH)
  have e: "b - 1 - ?va - ?ca = b - key_allocs k" by (simp add: k)
  show ?case
    unfolding e [symmetric] using vs cs b(1)
    by (simp add: k n l registry_create_key_def unat_of_nat_u32 del: word_le.simps le_word.simps)
qed

text \<open>Whatever the bytes, an import that succeeds gives a well-formed tree.\<close>

lemma read_many_ok:
  assumes "\<And>st x st'. f st = Some (x, st') \<Longrightarrow> P x"
  shows "read_many f n acc st = Some (xs, st') \<Longrightarrow> (\<forall>x \<in> set acc. P x) \<Longrightarrow> (\<forall>x \<in> set xs. P x) \<and> length xs = length acc + n"
proof (induction n arbitrary: acc st)
  case 0
  then show ?case by simp
next
  case (Suc n)
  then obtain x st1 where f: "f st = Some (x, st1)" "read_many f n (x # acc) st1 = Some (xs, st')"
    by (auto simp: bind_eq_Some_conv)
  then show ?case using Suc.IH [OF f(2)] Suc.prems(2) assms [OF f(1)] by simp
qed

lemma reg_read_length: "reg_read_exact n st = Some (bs, st') \<Longrightarrow> length bs = n"
  by (auto simp: reg_read_exact_def split: if_splits)

lemma copied_name:
  assumes "registry_copy_name (nm[REGISTRY_MAX_NAME_LEN - Suc 0 := 0]) = Some n" "length nm = REGISTRY_MAX_NAME_LEN"
  shows "norm_name n"
  using copy_name_norm [of "nm[REGISTRY_MAX_NAME_LEN - Suc 0 := 0]"] assms
  by (metis REGISTRY_MAX_NAME_LEN_def length_list_update option.inject order_refl)

lemma import_value_ok: "import_value st = Some (v, st') \<Longrightarrow> value_ok v"
  by (auto simp: import_value_def registry_create_value_def bind_eq_Some_conv Let_def value_ok_def malloc_ok_def not_less
      dest!: reg_read_length split: if_splits option.splits) (metis copied_name)+

lemma import_key_ok: "registry_import_key_recursive d st = Some (k, st') \<Longrightarrow> key_ok d k"
proof (induction d arbitrary: st k st')
  case 0
  then show ?case by simp
next
  case (Suc d)
  from Suc.prems obtain nm st1 pm st2 k0 st3 vc st4 vs st5 kc st6 cs where
    nm: "reg_read_exact REGISTRY_MAX_NAME_LEN st = Some (nm, st1)"
    and k0: "registry_create_key (nm[REGISTRY_MAX_NAME_LEN - Suc 0 := 0]) (le_word pm) st2 = Some (k0, st3)"
    and vs: "read_many import_value (unat (le_word vc :: u32)) [] st4 = Some (vs, st5)"
    and cs: "read_many (registry_import_key_recursive d) (unat (le_word kc :: u32)) [] st6 = Some (cs, st')"
    and k: "k = RegistryKey (key_name k0) (key_permissions k0) cs vs"
    by (auto simp: bind_eq_Some_conv)
  have "norm_name (key_name k0)"
    using k0 reg_read_length [OF nm] by (auto simp: registry_create_key_def bind_eq_Some_conv intro: copied_name)
  moreover have "(\<forall>v \<in> set vs. value_ok v) \<and> length vs = length ([] :: registry_value list) + unat (le_word vc :: u32)"
    by (rule read_many_ok [where P = value_ok, OF _ vs]) (auto dest: import_value_ok)
  moreover have "(\<forall>c \<in> set cs. key_ok d c) \<and> length cs = length ([] :: registry_key list) + unat (le_word kc :: u32)"
    by (rule read_many_ok [where P = "key_ok d", OF _ cs]) (auto dest: Suc.IH)
  ultimately show ?case using unat_u32_less [of "le_word vc"] unat_u32_less [of "le_word kc"] by (simp add: k)
qed

section \<open>Hive files\<close>

text \<open>C31: saving and loading a hive round trips. For a tree of at most 33 levels whose names are terminated in
  their 16 bytes, whose payloads have their recorded length of at most 64 KB, and whose file is below 4 GB, the
  export writes exactly the calculated size, and importing that file with enough memory gives the tree back with
  the siblings of every key mirrored; a second save and load restores the order.\<close>

theorem hive_roundtrip:
  assumes ok: "key_ok (REGISTRY_MAX_DEPTH + 1) k" and size: "length (key_bytes k) + 5 < 2 ^ 32" and mem: "key_allocs k \<le> mem"
  shows "\<exists>file. registry_hive_export True (Some k) = Some file
     \<and> length file = unat (registry_calculate_total_export_size (Some k) + 4)
     \<and> registry_hive_import (Some file) mem old = (True, Some (mirror k)) \<and> mirror (mirror k) = k"
proof -
  let ?file = "REGISTRY_MAGIC @ [1] @ key_bytes k"
  have u: "unat (registry_calculate_total_export_size (Some k) + 4) = length (key_bytes k) + 5"
    using size key_size_eq [OF ok] by (simp add: registry_calculate_total_export_size_def unat_of_nat_u32 unat_add_u32)
  have "registry_hive_export True (Some k) = Some ?file"
    unfolding registry_hive_export_def u using export_key_eq [OF ok]
    by (simp add: reg_write REGISTRY_MAGIC_def)
  moreover have "registry_hive_import (Some ?file) mem old = (True, Some (mirror k))"
  proof -
    have "reg_read_exact 4 \<lparr>input = ?file, budget = mem\<rparr> = Some (REGISTRY_MAGIC, \<lparr>input = [1] @ key_bytes k, budget = mem\<rparr>)"
      by (rule reg_read) (simp add: REGISTRY_MAGIC_def)
    moreover have "reg_read_exact 1 \<lparr>input = [1] @ key_bytes k, budget = mem\<rparr> = Some ([1], \<lparr>input = key_bytes k, budget = mem\<rparr>)"
      by (rule reg_read) simp
    moreover have "registry_import_key_recursive (REGISTRY_MAX_DEPTH + 1) \<lparr>input = key_bytes k, budget = mem\<rparr>
        = Some (mirror k, \<lparr>input = [], budget = mem - key_allocs k\<rparr>)"
      using import_key_eq [OF ok mem, of "[]"] by simp
    ultimately show ?thesis by (simp add: registry_hive_import_def del: registry_import_key_recursive.simps)
  qed
  ultimately show ?thesis by (auto simp: u REGISTRY_MAGIC_def)
qed

definition name16 :: "u8 \<Rightarrow> u8 list" where "name16 c = c # replicate 15 0"

definition demo_hive :: registry_key where
  "demo_hive = RegistryKey (name16 104) 3 [RegistryKey (name16 115) 3 [] [], RegistryKey (name16 116) 1 [] []]
     [\<lparr>value_name = name16 118, value_data = Some [1, 2, 3], data_len = 3, value_permissions = 3\<rparr>]"

lemma name16_norm: "c \<noteq> 0 \<Longrightarrow> norm_name (name16 c)"
  using copy_name_eq [of "name16 c"]
  by (simp add: norm_name_def name16_def REGISTRY_MAX_NAME_LEN_def nth_Cons')

lemma demo_hive_ok: "key_ok (Suc (Suc d)) demo_hive"
  by (simp add: demo_hive_def name16_norm value_ok_def REGISTRY_MAX_VALUE_SIZE_def)

theorem hive_roundtrip_witness:
  "\<exists>file. registry_hive_export True (Some demo_hive) = Some file
     \<and> registry_hive_import (Some file) 6 None = (True, Some (mirror demo_hive))"
proof -
  have d: "REGISTRY_MAX_DEPTH + 1 = Suc (Suc 31)" by (simp add: REGISTRY_MAX_DEPTH_def)
  have "key_ok (REGISTRY_MAX_DEPTH + 1) demo_hive"
    unfolding d by (rule demo_hive_ok)
  moreover have "length (key_bytes demo_hive) + 5 < 2 ^ 32"
    by (simp add: demo_hive_def value_bytes_def name16_def)
  moreover have "key_allocs demo_hive \<le> 6" by (simp add: demo_hive_def value_allocs_def)
  ultimately show ?thesis using hive_roundtrip [of demo_hive 6 None] by blast
qed

text \<open>C32: importing hostile bytes is safe: whatever the file holds, however it is cut off, and wherever an
  allocation fails, the import ends with a well-formed hive of at most 33 levels and payloads of at most 64 KB, or
  reports failure with an empty hive, or, if the file is not a hive at all, with the old one untouched.\<close>

theorem hostile_import_safe:
  assumes "registry_hive_import file mem old = (ok, root)"
  shows "(ok \<and> (case root of None \<Rightarrow> True | Some k \<Rightarrow> key_ok (REGISTRY_MAX_DEPTH + 1) k))
     \<or> (\<not> ok \<and> (root = None \<or> root = old \<and> (file = None \<or> (\<exists>bytes. file = Some bytes \<and> take 4 bytes \<noteq> REGISTRY_MAGIC))))"
  using assms
  by (auto simp: registry_hive_import_def reg_read_exact_def REGISTRY_MAGIC_def
      simp del: registry_import_key_recursive.simps split: option.splits if_splits) (metis import_key_ok)+

text \<open>A hive cut off inside its root key.\<close>

theorem hostile_import_safe_witness: "snd (registry_hive_import (Some [0x52, 0x45, 0x47, 0x21, 1, 65]) 9 (Some demo_hive)) = None"
proof -
  have "registry_hive_import (Some [0x52, 0x45, 0x47, 0x21, 1, 65]) 9 (Some demo_hive) = (False, None)"
    by (simp add: registry_hive_import_def reg_read_exact_def REGISTRY_MAGIC_def REGISTRY_MAX_DEPTH_def REGISTRY_MAX_NAME_LEN_def eval_nat_numeral)
  from hostile_import_safe [OF this] show ?thesis by (simp add: REGISTRY_MAGIC_def \<open>_ = (False, None)\<close>)
qed

section \<open>Paths\<close>

text \<open>the hive paths overflow: \<open>registry_hive_initiate\<close> copies the directory (cut to 127 characters) into a
  buffer of 128 bytes and appends four characters and a NUL with a \<open>strncat\<close> whose bound is the number of
  characters to append, not the size of the buffer. A directory of up to 123 characters gives its path; a longer
  one writes beyond the buffer.\<close>

theorem hive_path_overflow:
  assumes buf: "length buf = REGISTRY_MAX_PATH_LEN" and dir: "0 \<notin> set dir" and suf: "0 \<notin> set suf" "length suf = 4"
  shows "if length dir \<le> 123 then \<exists>b. hive_path buf (dir @ [0]) (suf @ [0]) = Some b \<and> cstr b = dir @ suf
         else hive_path buf (dir @ [0]) (suf @ [0]) = None"
proof -
  have c: "cstr (dir @ [0]) = dir" "cstr (suf @ [0]) = suf" using cstr_append_nul dir suf(1) by auto
  let ?b = "(take 128 dir @ replicate (128 - length dir) 0)[127 := 0]" and ?d = "take 127 dir"
  have s: "strncpy buf (dir @ [0]) 128 = Some (take 128 dir @ replicate (128 - length dir) 0)"
    using buf by (simp add: strncpy_eq c REGISTRY_MAX_PATH_LEN_def)
  have b: "?b = ?d @ 0 # replicate (127 - length ?d) 0"
    by (simp add: list_eq_iff_nth_eq nth_list_update nth_append nth_Cons' min_def)
  have z: "0 \<notin> set ?d" using dir by (meson in_set_takeD)
  have len: "strlen ?b = Some (length ?d)" unfolding b by (simp add: strlen_eq cstr_append_nul [OF z])
  have tk: "take (min (length dir) 127) dir = ?d" by (cases "length dir \<le> 127") (auto simp: min_def)
  have "hive_path buf (dir @ [0]) (suf @ [0]) =
      map_option (\<lambda>r. ?d @ r) (strncat_loop (0 # replicate (127 - length ?d) 0) (suf @ [0]) 128)"
    using s len unfolding hive_path_def strncat_def
    by (simp add: REGISTRY_MAX_PATH_LEN_def b [symmetric] del: list_update_append) (simp add: b tk map_conv_bind_option comp_def)
  moreover have "strncat_loop (0 # replicate (127 - length ?d) 0) (suf @ [0]) 128 =
      (if 4 < 128 - length ?d then Some (suf @ 0 # drop 5 (0 # replicate (127 - length ?d) 0)) else None)"
    using suf(2) by (subst strncat_loop_eq) (auto simp: c)
  ultimately have r: "hive_path buf (dir @ [0]) (suf @ [0]) =
      (if 4 < 128 - length ?d then Some (?d @ suf @ 0 # drop 5 (0 # replicate (127 - length ?d) 0)) else None)" by (auto simp: min_def)
  show ?thesis
  proof (cases "length dir \<le> 123")
    case True
    then have d: "?d = dir" by simp
    have "cstr ((dir @ suf) @ 0 # drop 5 (0 # replicate (127 - length dir) 0)) = dir @ suf"
      using dir suf(1) by (intro cstr_append_nul) simp
    then show ?thesis using True r by (simp add: d)
  next
    case False
    then have "\<not> 4 < 128 - length ?d" by simp
    then show ?thesis using False r by simp
  qed
qed

theorem hive_path_overflow_witness:
  "hive_path (replicate 128 0) (replicate 124 65 @ [0]) ([47, 104, 107, 114] @ [0]) = None"
  using hive_path_overflow [of "replicate 128 0" "replicate 124 65" "[47, 104, 107, 114]"]
  by (simp add: REGISTRY_MAX_PATH_LEN_def)

end
