(* ===== verification/KMath.thy ===== *)
theory KMath
  imports Prelude
begin

text \<open>
  The integer arithmetic the kernel brings along: \<open>util/math.c\<close> (the integer functions; the
  floating-point part is x87 assembly), the 64-bit division helpers of \<open>util/div6432.c\<close> that the
  compiler calls on 32-bit targets, and the generator of \<open>util/random.c\<close>. Unsigned values are words;
  a signed \<open>int\<close> or \<open>long long\<close> is an \<open>int\<close> in its range, and a signed overflow (undefined in C)
  is \<open>None\<close>.
\<close>

section \<open>Signed integers of a given width\<close>

definition fits :: "nat \<Rightarrow> int \<Rightarrow> bool" where
  "fits w x \<longleftrightarrow> - (2 ^ (w - 1)) \<le> x \<and> x < 2 ^ (w - 1)"

definition signed :: "nat \<Rightarrow> int \<Rightarrow> int option" where
  "signed w x = (if fits w x then Some x else None)"

section \<open>math.c\<close>

definition abs_int :: "int \<Rightarrow> int option" where
  "abs_int j = (if j < 0 then signed 32 (- j) else Some j)"

definition max_int :: "int \<Rightarrow> int \<Rightarrow> int" where
  "max_int a b = (if a > b then a else b)"

definition min_int :: "int \<Rightarrow> int \<Rightarrow> int" where
  "min_int a b = (if a < b then a else b)"

definition clamp :: "int \<Rightarrow> int \<Rightarrow> int \<Rightarrow> int" where
  "clamp value min_val max_val = min_int (max_int value min_val) max_val"

lemma unat_drop_word: "unat (drop_bit n b :: 'a :: len word) = unat b div 2 ^ n"
  by (metis unat_drop_bit_eq drop_bit_eq_div)

lemma unat_drop_bit_less: "b \<noteq> 0 \<Longrightarrow> 0 < n \<Longrightarrow> unat (drop_bit n b :: 'a :: len word) < unat b"
proof -
  assume b: "b \<noteq> 0" and n: "0 < n"
  have "1 < (2 :: nat) ^ n" using n by (rule one_less_power [rotated]) simp
  moreover have "0 < unat b" using b by (simp add: unat_gt_0)
  ultimately have "unat b div 2 ^ n < unat b" by (rule div_less_dividend)
  with unat_drop_word [of n b] show ?thesis by (rule ord_eq_less_trans)
qed

function isqrt_align :: "u32 \<Rightarrow> u32 \<Rightarrow> u32" where
  "isqrt_align num qbit = (if qbit > num then isqrt_align num (drop_bit 2 qbit) else qbit)"
  by auto
termination
  by (relation "measure (\<lambda>(num, qbit). unat qbit)") (auto intro!: unat_drop_bit_less)

function isqrt_loop :: "u32 \<Rightarrow> u32 \<Rightarrow> u32 \<Rightarrow> u32" where
  "isqrt_loop num res qbit =
     (if qbit \<noteq> 0 then
        if num \<ge> res + qbit then isqrt_loop (num - (res + qbit)) (drop_bit 1 res + qbit) (drop_bit 2 qbit)
        else isqrt_loop num (drop_bit 1 res) (drop_bit 2 qbit)
      else res)"
  by auto
termination
  by (relation "measure (\<lambda>(num, res, qbit). unat qbit)") (auto intro!: unat_drop_bit_less)

definition isqrt :: "u32 \<Rightarrow> u32" where
  "isqrt num = isqrt_loop num 0 (isqrt_align num (push_bit 30 1))"

declare isqrt_align.simps [simp del] isqrt_loop.simps [simp del]

function ipow_loop :: "int \<Rightarrow> int \<Rightarrow> int \<Rightarrow> int option" where
  "ipow_loop res base exp =
     (if exp > 0 then do {
        res' \<leftarrow> (if odd exp then signed 64 (res * base) else Some res);
        let exp' = exp div 2;
        base' \<leftarrow> (if exp' \<noteq> 0 then signed 64 (base * base) else Some base);
        ipow_loop res' base' exp'
      } else Some res)"
  by auto
termination
  by (relation "measure (\<lambda>(res, base, exp). nat exp)") auto

declare ipow_loop.simps [simp del]

definition ipow :: "int \<Rightarrow> int \<Rightarrow> int option" where
  "ipow base exp =
     (if exp < 0 then Some (if base = 1 then 1 else if base = -1 then if odd exp then -1 else 1 else 0)
      else ipow_loop 1 base exp)"

function iatan2_scale :: "u32 \<Rightarrow> u32 \<Rightarrow> u32 \<times> u32" where
  "iatan2_scale min_val max_val =
     (if max_val \<ge> push_bit 20 1 then iatan2_scale (drop_bit 1 min_val) (drop_bit 1 max_val)
      else (min_val, max_val))"
  by auto
termination
proof (relation "measure (\<lambda>(min_val, max_val). unat max_val)")
  fix a b :: u32
  assume "push_bit 20 1 \<le> b"
  then have "b \<noteq> 0" by auto
  then show "((drop_bit 1 a, drop_bit 1 b), a, b) \<in> measure (\<lambda>(min_val, max_val). unat max_val)"
    by (simp add: unat_drop_bit_less)
qed simp

declare iatan2_scale.simps [simp del]

text \<open>The octant angle from a ratio in twelve-bit fixed point; \<open>>>\<close> of a non-negative \<open>int32_t\<close> is \<open>div\<close>.\<close>

definition iatan2_octant :: "int \<Rightarrow> u32" where
  "iatan2_octant ratio =
     (let base = ratio * 2;
          correction = (((ratio * (4096 - ratio)) div 2 ^ 12) * 2928) div 2 ^ 12
      in word_of_int (base + correction))"

text \<open>The magnitude of an \<open>int32_t\<close>; for \<open>INT32_MIN\<close> it is \<open>2 ^ 31\<close>.\<close>

definition magnitude :: "int \<Rightarrow> u32" where
  "magnitude v = (if v < 0 then 0 - word_of_int v else word_of_int v)"

text \<open>The angle to the nearer axis, at most an eighth of the circle.\<close>

definition axis_angle :: "u32 \<Rightarrow> u32 \<Rightarrow> u32" where
  "axis_angle abs_y abs_x =
     (let (min_val, max_val) =
            iatan2_scale (if abs_x < abs_y then abs_x else abs_y) (if abs_x > abs_y then abs_x else abs_y)
      in iatan2_octant (uint (push_bit 12 min_val div max_val)))"

definition iatan2 :: "int \<Rightarrow> int \<Rightarrow> u32" where
  "iatan2 y x =
     (if x = 0 \<and> y = 0 then 0 else
      let abs_y = magnitude y;
          abs_x = magnitude x;
          angle = axis_angle abs_y abs_x;
          angle = (if abs_y > abs_x then 16384 - angle else angle);
          angle = (if x < 0 then if y < 0 then 32768 + angle else 32768 - angle
                   else if y < 0 then 65536 - angle else angle)
      in angle AND 0xFFFF)"

section \<open>div6432.c\<close>

text \<open>
  \<open>(int64_t)den >= 0\<close> asks whether the top bit of \<open>den\<close> is clear. The divisor is never \<open>0\<close> in the
  alignment loop: the function has returned by then. The condition \<open>den \<noteq> 0\<close> only makes the
  recursion total.
\<close>

lemma clear_top_iff: "0 <=s (den :: u64) \<longleftrightarrow> unat den < 2 ^ 63"
proof -
  have "0 <=s den \<longleftrightarrow> \<not> bit den 63" by (simp add: word_sle_eq bit_last_iff [symmetric] not_less [symmetric])
  also have "\<dots> \<longleftrightarrow> drop_bit 63 den = 0"
    using drop_bit_eq_zero_iff_not_bit_last [of den] by simp
  also have "\<dots> \<longleftrightarrow> unat den div 2 ^ 63 = 0"
    by (metis unat_drop_bit_eq drop_bit_eq_div unat_eq_zero)
  finally show ?thesis by (simp add: div_eq_0_iff)
qed

lemma unat_double_u64: "unat (den :: u64) < 2 ^ 63 \<Longrightarrow> unat (push_bit 1 den) = 2 * unat den"
  by (simp add: push_bit_eq_mult unat_word_ariths)

function udiv_align :: "u64 \<Rightarrow> u64 \<Rightarrow> u64 \<Rightarrow> u64 \<times> u64" where
  "udiv_align num den qbit =
     (if 0 <=s den \<and> den \<noteq> 0 \<and> den \<le> num then udiv_align num (push_bit 1 den) (push_bit 1 qbit)
      else (den, qbit))"
  by auto
termination
proof (relation "measure (\<lambda>(num, den, qbit). 2 ^ 64 - unat den)")
  fix num den qbit :: u64
  assume *: "0 <=s den \<and> den \<noteq> 0 \<and> den \<le> num"
  then have "unat den < 2 ^ 63" by (simp add: clear_top_iff)
  then have "unat (push_bit 1 den) = 2 * unat den" by (rule unat_double_u64)
  moreover have "0 < unat den" using * by (simp add: unat_gt_0)
  ultimately show "((num, push_bit 1 den, push_bit 1 qbit), num, den, qbit)
      \<in> measure (\<lambda>(num, den, qbit). 2 ^ 64 - unat den)"
    using unsigned_less [of den, where ?'a = nat] by simp
qed simp

function udiv_loop :: "u64 \<Rightarrow> u64 \<Rightarrow> u64 \<Rightarrow> u64 \<Rightarrow> u64 \<times> u64" where
  "udiv_loop num den quot qbit =
     (if qbit > 0 then
        if num \<ge> den then udiv_loop (num - den) (drop_bit 1 den) (quot OR qbit) (drop_bit 1 qbit)
        else udiv_loop num (drop_bit 1 den) quot (drop_bit 1 qbit)
      else (quot, num))"
  by auto
termination
  by (relation "measure (\<lambda>(num, den, quot, qbit). unat qbit)") (auto intro!: unat_drop_bit_less)

declare udiv_align.simps [simp del] udiv_loop.simps [simp del]

definition udivmoddi4 :: "u64 \<Rightarrow> u64 \<Rightarrow> u64 \<times> u64" where
  "udivmoddi4 num den =
     (if den = 0 then (0, num)
      else let (den', qbit) = udiv_align num den 1 in udiv_loop num den' 0 qbit)"

definition udivdi3 :: "u64 \<Rightarrow> u64 \<Rightarrow> u64" where
  "udivdi3 num den = fst (udivmoddi4 num den)"

definition umoddi3 :: "u64 \<Rightarrow> u64 \<Rightarrow> u64" where
  "umoddi3 num den = snd (udivmoddi4 num den)"

section \<open>random.c\<close>

definition rand_seed :: "u32 \<Rightarrow> u32" where
  "rand_seed seed = seed"

definition rand :: "u32 \<Rightarrow> u32 \<times> u32" where
  "rand rand_state =
     (let s = rand_state * 1103515245 + 12345 in (s, drop_bit 16 s AND 32767))"

definition rand_init :: "u32" where
  "rand_init = rand_seed 42"

section \<open>The integer square root\<close>

text \<open>
  One round decides one binary digit of the root. With \<open>a\<close> the digits found so far and \<open>2 ^ k\<close> the
  weight of the next digit, \<open>num\<close> holds \<open>N - a\<^sup>2\<close> and \<open>res\<close> holds \<open>a * 2 ^ (k + 1)\<close>.
\<close>

definition root_inv :: "nat \<Rightarrow> nat \<Rightarrow> nat \<Rightarrow> u32 \<Rightarrow> u32 \<Rightarrow> bool" where
  "root_inv N d a num res \<longleftrightarrow>
     d dvd a \<and> unat res = a * d \<and> unat num + a * a = N \<and> N < (a + d) * (a + d)"

lemma root_small: "root_inv N d a num res \<Longrightarrow> N < 4294967296 \<Longrightarrow> a < 65536"
proof (rule ccontr)
  assume r: "root_inv N d a num res" and N: "N < 4294967296" and "\<not> a < 65536"
  then have "65536 * 65536 \<le> a * a" by (intro mult_le_mono) simp_all
  with r N show False by (simp add: root_inv_def)
qed

lemma root_sum:
  assumes inv: "root_inv N (2 * d) a num res" and N: "N < 4294967296"
    and b: "unat b = d * d" and d: "d = 32768 \<or> d \<le> 16384"
  shows "unat (res + b) = 2 * a * d + d * d"
proof -
  obtain q where q: "a = 2 * d * q" using inv by (auto simp: root_inv_def)
  have a: "a < 65536" by (rule root_small [OF inv N])
  have "2 * a * d + d * d < 4294967296"
  proof (cases "a = 0")
    case True
    have "d * d \<le> 32768 * 32768" by (intro mult_le_mono) (use d in auto)
    with True show ?thesis by simp
  next
    case False
    then have "2 * d \<le> a" using q by (cases q) auto
    then have "d \<le> 16384" using d a by auto
    then have "(2 * a + d) * d \<le> (2 * 65536 + 16384) * 16384" using a by (intro mult_le_mono) auto
    then show ?thesis by (simp add: algebra_simps)
  qed
  then show ?thesis
    using inv b by (subst unat_add_u32) (simp_all add: root_inv_def)
qed

lemma root_step:
  assumes inv: "root_inv N (2 * d) a num res" and N: "N < 4294967296"
    and b: "unat b = d * d" and d: "d = 32768 \<or> d \<le> 16384"
  shows "if num \<ge> res + b then root_inv N d (a + d) (num - (res + b)) (drop_bit 1 res + b)
    else root_inv N d a num (drop_bit 1 res)"
proof -
  note sum = root_sum [OF assms]
  have half: "unat (drop_bit 1 res) = a * d"
    using inv by (simp add: unat_drop_word root_inv_def)
  have dvd: "d dvd a" using inv by (auto simp: root_inv_def elim: dvd_mult_right)
  have le: "num \<ge> res + b \<longleftrightarrow> 2 * a * d + d * d \<le> unat num"
    by (simp add: word_le_nat_alt sum)
  show ?thesis
  proof (cases "num \<ge> res + b")
    case True
    have "unat (num - (res + b)) = unat num - (2 * a * d + d * d)"
      using True by (subst unat_sub_u32) (simp_all add: word_le_nat_alt sum)
    moreover have "unat (drop_bit 1 res + b) = a * d + d * d"
    proof (subst unat_add_u32)
      have "unat (res + b) < 4294967296" by (rule unat_u32_less)
      then have "a * d + d * d < 4294967296" unfolding sum by (rule le_less_trans [rotated]) simp
      then show "unat (drop_bit 1 res) + unat b < 4294967296" by (simp only: half b)
    qed (simp only: half b)
    ultimately show ?thesis
      using True inv dvd le by (auto simp: root_inv_def algebra_simps)
  next
    case False
    then have "unat num < 2 * a * d + d * d" using le by simp
    then show ?thesis using False inv dvd half by (simp add: root_inv_def algebra_simps)
  qed
qed

lemma root_done: "root_inv N 1 a num res \<Longrightarrow> unat res * unat res \<le> N \<and> N < (unat res + 1) * (unat res + 1)"
  by (auto simp: root_inv_def)

lemma isqrt_loop_correct:
  "root_inv N (2 * 2 ^ k) a num res \<Longrightarrow> N < 4294967296 \<Longrightarrow> unat b = 2 ^ k * 2 ^ k \<Longrightarrow> k \<le> 15 \<Longrightarrow>
     unat (isqrt_loop num res b) * unat (isqrt_loop num res b) \<le> N \<and>
     N < (unat (isqrt_loop num res b) + 1) * (unat (isqrt_loop num res b) + 1)"
proof (induction k arbitrary: a num res b)
  case 0
  have b: "b = 1" using 0 by (metis mult_1 power_0 unat_1 word_unat_eq_iff)
  have "if num \<ge> res + b then root_inv N 1 (a + 1) (num - (res + b)) (drop_bit 1 res + b)
    else root_inv N 1 a num (drop_bit 1 res)"
    using 0 by (intro root_step) simp_all
  moreover have "isqrt_loop n r 0 = r" for n r by (simp add: isqrt_loop.simps)
  moreover have "drop_bit 2 (1 :: u32) = 0" by simp
  moreover have "isqrt_loop num res b = (if num \<ge> res + b then drop_bit 1 res + b else drop_bit 1 res)"
    using b calculation(2,3) by (subst isqrt_loop.simps) simp
  ultimately show ?case using root_done by (metis (full_types))
next
  case (Suc k)
  have d: "(2 :: nat) ^ Suc k = 32768 \<or> (2 :: nat) ^ Suc k \<le> 16384"
    using power_increasing [of "Suc k" 14 "2 :: nat"] Suc.prems(4) by (cases "Suc k = 15") auto
  have b: "b \<noteq> 0" using Suc.prems(3) by auto
  have half: "unat (drop_bit 2 b) = 2 ^ k * 2 ^ k"
    using Suc.prems(3) by (simp add: unat_drop_word)
  have step: "if num \<ge> res + b then root_inv N (2 * 2 ^ k) (a + 2 ^ Suc k) (num - (res + b)) (drop_bit 1 res + b)
    else root_inv N (2 * 2 ^ k) a num (drop_bit 1 res)"
    using root_step [of N "2 ^ Suc k" a num res b, OF Suc.prems(1,2,3) d] by (simp only: power_Suc)
  show ?case
  proof (cases "num \<ge> res + b")
    case True
    then have "isqrt_loop num res b = isqrt_loop (num - (res + b)) (drop_bit 1 res + b) (drop_bit 2 b)"
      using b by (subst isqrt_loop.simps) simp
    with True step show ?thesis using Suc.IH [OF _ Suc.prems(2) half] Suc.prems(4) by simp
  next
    case False
    then have "isqrt_loop num res b = isqrt_loop num (drop_bit 1 res) (drop_bit 2 b)"
      using b by (subst isqrt_loop.simps) simp
    with False step show ?thesis using Suc.IH [OF _ Suc.prems(2) half] Suc.prems(4) by simp
  qed
qed

lemma isqrt_align_correct:
  "unat b = 2 ^ k * 2 ^ k \<Longrightarrow> unat num < 4 * (2 ^ k * 2 ^ k) \<Longrightarrow> k \<le> 15 \<Longrightarrow>
     (isqrt_align num b = 0 \<and> num = 0) \<or>
     (\<exists>j \<le> 15. unat (isqrt_align num b) = 2 ^ j * 2 ^ j \<and> unat num < 4 * (2 ^ j * 2 ^ j))"
proof (induction k arbitrary: b)
  case 0
  then have b: "b = 1" by (metis mult_1 power_0 unat_1 word_unat_eq_iff)
  show ?case
  proof (cases "num = 0")
    case True
    have "isqrt_align 0 0 = 0" by (simp add: isqrt_align.simps)
    then show ?thesis using True b by (simp add: isqrt_align.simps [of 0 1])
  next
    case False
    then have "isqrt_align num b = b"
      using b by (subst isqrt_align.simps) (simp add: word_less_nat_alt unat_eq_zero [symmetric] del: unat_eq_zero)
    then show ?thesis using 0 by auto
  qed
next
  case (Suc k)
  show ?case
  proof (cases "b > num")
    case True
    then have "isqrt_align num b = isqrt_align num (drop_bit 2 b)" by (subst isqrt_align.simps) simp
    moreover have "unat (drop_bit 2 b) = 2 ^ k * 2 ^ k" using Suc.prems by (simp add: unat_drop_word)
    moreover have "unat num < 4 * (2 ^ k * 2 ^ k)"
      using True Suc.prems by (simp add: word_less_nat_alt)
    ultimately show ?thesis using Suc.IH [of "drop_bit 2 b"] Suc.prems(3) by simp
  next
    case False
    then have "isqrt_align num b = b" by (subst isqrt_align.simps) simp
    with Suc.prems show ?thesis by (intro disjI2 exI [of _ "Suc k"]) simp
  qed
qed

text \<open>
  \<open>isqrt\<close> returns the integer square root: the largest number whose square does not exceed the
  argument, for every 32-bit argument.
\<close>
theorem isqrt_floor:
  "unat (isqrt num) * unat (isqrt num) \<le> unat num \<and>
   unat num < (unat (isqrt num) + 1) * (unat (isqrt num) + 1)"
proof -
  have top: "unat (push_bit 30 1 :: u32) = 2 ^ 15 * 2 ^ 15" by simp
  have "(isqrt_align num (push_bit 30 1) = 0 \<and> num = 0) \<or>
     (\<exists>j \<le> 15. unat (isqrt_align num (push_bit 30 1)) = 2 ^ j * 2 ^ j \<and> unat num < 4 * (2 ^ j * 2 ^ j))"
    by (rule isqrt_align_correct [of _ 15]) (use top unat_u32_less [of num] in simp_all)
  then show ?thesis
  proof (elim disjE exE conjE)
    assume "isqrt_align num (push_bit 30 1) = 0" "num = 0"
    then show ?thesis by (simp add: isqrt_def isqrt_loop.simps)
  next
    fix j
    assume j: "j \<le> 15" "unat (isqrt_align num (push_bit 30 1)) = 2 ^ j * 2 ^ j"
      "unat num < 4 * (2 ^ j * 2 ^ j)"
    have "root_inv (unat num) (2 * 2 ^ j) 0 num 0" using j(3) by (simp add: root_inv_def)
    from isqrt_loop_correct [OF this unat_u32_less j(2) j(1)] show ?thesis
      by (simp add: isqrt_def)
  qed
qed

section \<open>64-bit division\<close>

lemma unat_u64_less: "unat (x :: u64) < 18446744073709551616"
  using unsigned_less [of x, where ?'a = nat] by simp

lemma udiv_align_correct:
  "unat den = d * 2 ^ k \<Longrightarrow> unat qbit = 2 ^ k \<Longrightarrow> 0 < d \<Longrightarrow>
     \<exists>j. unat (fst (udiv_align num den qbit)) = d * 2 ^ j \<and>
         unat (snd (udiv_align num den qbit)) = 2 ^ j \<and>
         unat num < 2 * (d * 2 ^ j)"
proof (induction num den qbit arbitrary: k rule: udiv_align.induct)
  case (1 num den qbit)
  show ?case
  proof (cases "0 <=s den \<and> den \<noteq> 0 \<and> den \<le> num")
    case True
    then have small: "unat den < 2 ^ 63" by (simp add: clear_top_iff)
    have "unat qbit \<le> unat den" using 1(2-4) by simp
    then have q: "unat (push_bit 1 qbit) = 2 ^ Suc k"
      using small 1(3) by (subst unat_double_u64) simp_all
    have d: "unat (push_bit 1 den) = d * 2 ^ Suc k"
      using small 1(2) by (subst unat_double_u64) simp_all
    show ?thesis
      unfolding udiv_align.simps [of num den qbit] if_P [OF True] by (rule 1(1) [OF True d q 1(4)])
  next
    case False
    have nz: "den \<noteq> 0" using 1(2,4) by auto
    have "unat num < 2 * (d * 2 ^ k)"
    proof (cases "0 <=s den")
      case True
      then have "num < den" using False nz by simp
      then show ?thesis using 1(2) by (simp add: word_less_nat_alt)
    next
      case False
      then show ?thesis using unat_u64_less [of num] 1(2) by (simp add: clear_top_iff)
    qed
    then show ?thesis
      unfolding udiv_align.simps [of num den qbit] if_not_P [OF False] using 1(2,3) by auto
  qed
qed

text \<open>The quotient found so far has only bits above the one under test.\<close>

lemma or_new_bit:
  assumes "2 * 2 ^ k dvd unat quot" "unat qbit = 2 ^ k"
  shows "unat (quot OR qbit :: u64) = unat quot + 2 ^ k"
proof -
  have "unat (quot OR qbit) = unat quot OR 2 ^ k" by (simp add: unsigned_or_eq assms(2))
  also have "\<dots> = unat quot + 2 ^ k"
  proof (rule disjunctive_add [symmetric])
    fix n
    obtain c where "unat quot = push_bit (Suc k) c"
      using assms(1) by (auto simp: push_bit_eq_mult mult.commute)
    then show "\<not> bit (unat quot) n \<or> \<not> bit (2 ^ k :: nat) n"
      by (auto simp: bit_push_bit_iff bit_exp_iff bit_0)
  qed
  finally show ?thesis .
qed

lemma div_mod_of_sum: "r < d \<Longrightarrow> q * d + r = N \<Longrightarrow> q = N div d \<and> r = N mod (d :: nat)"
  by auto

lemma udiv_loop_correct:
  "unat den = d * 2 ^ k \<Longrightarrow> unat qbit = 2 ^ k \<Longrightarrow> 0 < d \<Longrightarrow> unat num < 2 * (d * 2 ^ k) \<Longrightarrow>
     2 * 2 ^ k dvd unat quot \<Longrightarrow> unat quot * d + unat num = N \<Longrightarrow>
     unat (fst (udiv_loop num den quot qbit)) = N div d \<and>
     unat (snd (udiv_loop num den quot qbit)) = N mod d"
proof (induction k arbitrary: num den quot qbit)
  case 0
  have q: "qbit = 1" using 0(2) by (metis power_0 unat_1 word_unat_eq_iff)
  have stop: "udiv_loop n e r 0 = (r, n)" for n e r by (simp add: udiv_loop.simps)
  have dd: "unat den = d" using 0(1) by simp
  show ?case
  proof (cases "num \<ge> den")
    case True
    have n: "unat (num - den) = unat num - d"
      using True dd by (simp add: unat_sub word_le_nat_alt)
    have r: "unat (quot OR qbit) = unat quot + 1" using or_new_bit [OF 0(5,2)] by simp
    have "udiv_loop num den quot qbit = (quot OR qbit, num - den)"
      using True q stop by (subst udiv_loop.simps) simp
    moreover have "(unat quot + 1) * d + (unat num - d) = N"
      using 0(6) True dd by (simp add: word_le_nat_alt)
    then have "(unat quot + 1) = N div d \<and> unat num - d = N mod d"
      by (rule div_mod_of_sum [rotated]) (use 0(4) dd in simp)
    ultimately show ?thesis using n r by simp
  next
    case False
    have "udiv_loop num den quot qbit = (quot, num)"
      using False q stop by (subst udiv_loop.simps) simp
    moreover have "unat num < d" using False dd by (simp add: word_le_nat_alt)
    then have "unat quot = N div d \<and> unat num = N mod d"
      by (rule div_mod_of_sum) (rule 0(6))
    ultimately show ?thesis by simp
  qed
next
  case (Suc k)
  have q: "qbit > 0" using Suc.prems(2) by (simp add: word_less_nat_alt)
  have den': "unat (drop_bit 1 den) = d * 2 ^ k" using Suc.prems(1) by (simp add: unat_drop_word)
  have q': "unat (drop_bit 1 qbit) = 2 ^ k" using Suc.prems(2) by (simp add: unat_drop_word)
  show ?case
  proof (cases "num \<ge> den")
    case True
    have n: "unat (num - den) = unat num - unat den"
      using True by (simp add: unat_sub word_le_nat_alt)
    have r: "unat (quot OR qbit) = unat quot + 2 ^ Suc k" by (rule or_new_bit [OF Suc.prems(5,2)])
    have "udiv_loop num den quot qbit = udiv_loop (num - den) (drop_bit 1 den) (quot OR qbit) (drop_bit 1 qbit)"
      using True q by (subst udiv_loop.simps) simp
    moreover have "unat (num - den) < 2 * (d * 2 ^ k)"
      using Suc.prems(1,4) n by simp
    moreover have "2 * 2 ^ k dvd unat (quot OR qbit)"
      unfolding r using Suc.prems(5) by (auto intro: dvd_add elim: dvd_trans [rotated])
    moreover have "unat (quot OR qbit) * d + unat (num - den) = N"
      using True Suc.prems(1,6) n r by (simp add: word_le_nat_alt algebra_simps)
    ultimately show ?thesis using Suc.IH [OF den' q' Suc.prems(3)] by simp
  next
    case False
    have "udiv_loop num den quot qbit = udiv_loop num (drop_bit 1 den) quot (drop_bit 1 qbit)"
      using False q by (subst udiv_loop.simps) simp
    moreover have "unat num < 2 * (d * 2 ^ k)"
      using False Suc.prems(1) by (simp add: word_le_nat_alt)
    moreover have "2 * 2 ^ k dvd unat quot" by (rule dvd_trans [OF _ Suc.prems(5)]) simp
    ultimately show ?thesis using Suc.IH [OF den' q' Suc.prems(3)] Suc.prems(6) by simp
  qed
qed

text \<open>
  C39: The shift-and-subtract division helpers of the 32-bit build compute exactly 64-bit division and
  remainder, for every numerator and every divisor, also those whose top bit is set.
\<close>
theorem udivmoddi4_divides:
  assumes "den \<noteq> 0"
  shows "udivdi3 num den = num div den \<and> umoddi3 num den = num mod den"
proof -
  obtain e q where al: "udiv_align num den 1 = (e, q)" by fastforce
  obtain j where "unat e = unat den * 2 ^ j" "unat q = 2 ^ j" "unat num < 2 * (unat den * 2 ^ j)"
    using udiv_align_correct [of den "unat den" 0 1 num] assms al by (auto simp: unat_gt_0)
  from udiv_loop_correct [OF this(1,2) _ this(3), of 0 "unat num"]
  have "unat (fst (udiv_loop num e 0 q)) = unat num div unat den"
    "unat (snd (udiv_loop num e 0 q)) = unat num mod unat den"
    using assms by (simp_all add: unat_gt_0)
  then show ?thesis
    using assms al by (simp add: udivdi3_def umoddi3_def udivmoddi4_def word_unat_eq_iff unat_div unat_mod)
qed

theorem udivmoddi4_divides_witness:
  "udivdi3 0xFFFFFFFFFFFFFFFF 0xFFFFFFFF00000000 = 1 \<and>
   umoddi3 0xFFFFFFFFFFFFFFFF 0xFFFFFFFF00000000 = 0xFFFFFFFF"
  using udivmoddi4_divides [of "0xFFFFFFFF00000000" "0xFFFFFFFFFFFFFFFF"] by simp

section \<open>Integer powers\<close>

lemma unfit_mult: "\<not> fits w x \<Longrightarrow> 1 \<le> c \<Longrightarrow> \<not> fits w (x * c)"
proof -
  assume x: "\<not> fits w x" and c: "1 \<le> c"
  consider "x < - (2 ^ (w - 1))" | "2 ^ (w - 1) \<le> x" using x by (auto simp: fits_def)
  then show ?thesis
  proof cases
    case 1
    then have "x < 0" by (smt (verit) zero_less_power)
    then have "x * c \<le> x * 1" using c by (intro mult_left_mono_neg) auto
    with 1 show ?thesis by (simp add: fits_def)
  next
    case 2
    then have "0 \<le> x" by (smt (verit) zero_less_power)
    then have "x * 1 \<le> x * c" using c by (intro mult_left_mono) auto
    with 2 show ?thesis by (simp add: fits_def)
  qed
qed

text \<open>\<open>2 ^ 63\<close> is no square, so a square that does not fit exceeds it.\<close>

lemma unfit_square: "\<not> fits 64 (b * b) \<Longrightarrow> 2 ^ 63 < b * b"
proof -
  assume b: "\<not> fits 64 (b * b)"
  have sq: "b * b = \<bar>b\<bar> * \<bar>b\<bar>" by simp
  show ?thesis
  proof (cases "\<bar>b\<bar> \<le> 3037000499")
    case True
    then have "\<bar>b\<bar> * \<bar>b\<bar> \<le> 3037000499 * 3037000499" by (intro mult_mono) auto
    then have "\<bar>b\<bar> * \<bar>b\<bar> < 2 ^ 63" by simp
    moreover have "- (2 ^ 63) \<le> \<bar>b\<bar> * \<bar>b\<bar>" by (rule order_trans [of _ 0]) simp_all
    ultimately have "fits 64 (b * b)" unfolding fits_def sq by (simp only: diff_Suc_1 eval_nat_numeral) simp
    with b show ?thesis by simp
  next
    case False
    then have "3037000500 * 3037000500 \<le> \<bar>b\<bar> * \<bar>b\<bar>" by (intro mult_mono) auto
    then show ?thesis unfolding sq by simp
  qed
qed

lemma unfit_mult_square:
  assumes "\<not> fits 64 (b * b)" "r \<noteq> 0" "0 < n"
  shows "\<not> fits 64 (r * (b * b) ^ n)"
proof -
  have b: "2 ^ 63 < b * b" by (rule unfit_square [OF assms(1)])
  have "b * b \<le> (b * b) ^ n" using b assms(3) by (intro self_le_power) auto
  then have p: "2 ^ 63 < (b * b) ^ n" using b by simp
  have "1 * (b * b) ^ n \<le> \<bar>r\<bar> * (b * b) ^ n" using assms(2) p by (intro mult_right_mono) auto
  moreover have "\<bar>r * (b * b) ^ n\<bar> = \<bar>r\<bar> * (b * b) ^ n" using p by (simp add: abs_mult)
  ultimately have "2 ^ 63 < \<bar>r * (b * b) ^ n\<bar>" using p by linarith
  then show ?thesis by (auto simp: fits_def)
qed

lemma ipow_loop_exact:
  "0 \<le> e \<Longrightarrow> fits 64 r \<Longrightarrow> r \<noteq> 0 \<or> b = 0 \<Longrightarrow> ipow_loop r b e = signed 64 (r * b ^ nat e)"
proof (induction r b e rule: ipow_loop.induct)
  case (1 r b e)
  show ?case
  proof (cases "0 < e")
    case False
    then have "e = 0" using 1(2) by simp
    then show ?thesis using 1(3) by (simp add: ipow_loop.simps [of r b 0] signed_def)
  next
    case True
    let ?r = "if odd e then r * b else r"
    have split: "r * b ^ nat e = ?r * (b * b) ^ nat (e div 2)"
    proof -
      have "nat e = (if odd e then 1 else 0) + 2 * nat (e div 2)" using True by (cases "odd e") (auto elim!: oddE evenE)
      then have "b ^ nat e = (if odd e then b else 1) * (b ^ 2) ^ nat (e div 2)"
        by (simp add: power_add power_mult)
      then show ?thesis by (simp add: power2_eq_square)
    qed
    show ?thesis
    proof (cases "fits 64 ?r")
      case False
      then have "odd e" using 1(3) by auto
      have b0: "b \<noteq> 0" using False 1(3) \<open>odd e\<close> by (auto simp: fits_def)
      have "1 \<le> (b * b) ^ nat (e div 2)" using b0 by (intro one_le_power) (smt (verit) mult_eq_0_iff zero_le_square)
      then have "\<not> fits 64 (r * b ^ nat e)" unfolding split by (rule unfit_mult [OF False])
      then show ?thesis
        using False True \<open>odd e\<close> by (subst ipow_loop.simps) (simp add: signed_def)
    next
      case fr: True
      have first: "(if odd e then signed 64 (r * b) else Some r) = Some ?r"
        using fr by (cases "odd e") (simp_all add: signed_def)
      have r0: "?r \<noteq> 0 \<or> b * b = 0" using 1(4) by auto
      let ?sq = "if e div 2 \<noteq> 0 then signed 64 (b * b) else Some b"
      have step: "ipow_loop r b e = do { b' \<leftarrow> ?sq; ipow_loop ?r b' (e div 2) }"
        using True first by (subst ipow_loop.simps) (simp add: Let_def)
      consider "e div 2 = 0" | "e div 2 \<noteq> 0" "fits 64 (b * b)" | "e div 2 \<noteq> 0" "\<not> fits 64 (b * b)" by blast
      then show ?thesis
      proof cases
        case 1
        then show ?thesis using step split fr by (simp add: ipow_loop.simps [of _ _ 0] signed_def)
      next
        case 2
        have "ipow_loop ?r (b * b) (e div 2) = signed 64 (?r * (b * b) ^ nat (e div 2))"
          by (rule 1(1) [OF True first refl])
            (use 2 True fr r0 in \<open>auto simp: signed_def\<close>)
        then show ?thesis using step split 2 by (simp add: signed_def)
      next
        case 3
        have "b \<noteq> 0" using 3 by (auto simp: fits_def)
        then have "?r \<noteq> 0" using r0 by auto
        then have "\<not> fits 64 (r * b ^ nat e)"
          unfolding split by (rule unfit_mult_square [OF 3(2)]) (use True 3(1) in auto)
        then show ?thesis using step 3 by (simp add: signed_def)
      qed
    qed
  qed
qed

text \<open>
  \<open>ipow\<close> returns the power exactly when it is representable in 64 bits, and meets signed overflow
  only where the power is not: the squaring of the base is skipped in the last round, where it
  could overflow although the result fits. A negative exponent gives the truncated reciprocal.
\<close>
theorem ipow_exact:
  "ipow base e = (if e < 0 then Some (if base = 1 then 1 else if base = -1 then if odd e then -1 else 1 else 0)
     else signed 64 (base ^ nat e))"
  by (simp add: ipow_def ipow_loop_exact fits_def)

section \<open>The angle of a vector\<close>

lemma iatan2_scale_bounds:
  "m \<le> M \<Longrightarrow> 0 < M \<Longrightarrow> iatan2_scale m M = (m', M') \<Longrightarrow> m' \<le> M' \<and> 0 < M' \<and> unat M' < 1048576"
proof (induction m M rule: iatan2_scale.induct)
  case (1 m M)
  show ?case
  proof (cases "M \<ge> push_bit 20 1")
    case True
    have "drop_bit 1 m \<le> drop_bit 1 M"
      using 1(2) by (simp only: word_le_nat_alt unat_drop_word) (rule div_le_mono)
    moreover have "0 < drop_bit 1 M"
      using True by (simp only: word_le_nat_alt word_less_nat_alt unat_drop_word) simp
    moreover have "iatan2_scale (drop_bit 1 m) (drop_bit 1 M) = (m', M')"
      using 1(4) True by (subst (asm) iatan2_scale.simps) simp
    ultimately show ?thesis by (rule 1(1) [OF True])
  next
    case False
    then show ?thesis using 1(2-4) by (subst (asm) iatan2_scale.simps) (auto simp: word_le_nat_alt)
  qed
qed

lemma iatan2_octant_bound:
  assumes "0 \<le> r" "r \<le> 4096"
  shows "unat (iatan2_octant r) \<le> 8192"
proof -
  let ?t = "(r * (4096 - r)) div 2 ^ 12"
  have "0 \<le> r * (4096 - r)" using assms by simp
  moreover have "r * (4096 - r) \<le> 4096 * (4096 - r)" using assms by (intro mult_right_mono) auto
  ultimately have t: "0 \<le> ?t" "?t \<le> 4096 - r" by auto
  then have "0 \<le> (?t * 2928) div 2 ^ 12" "(?t * 2928) div 2 ^ 12 \<le> 4096 - r" by auto
  then have "0 \<le> r * 2 + (?t * 2928) div 2 ^ 12" "r * 2 + (?t * 2928) div 2 ^ 12 \<le> 8192"
    using assms by auto
  moreover define v where "v = r * 2 + (?t * 2928) div 2 ^ 12"
  ultimately have "0 \<le> v" "v \<le> 8192" by simp_all
  then have "uint (word_of_int v :: u32) = v"
    by (simp only: uint_word_of_int take_bit_eq_mod mod_pos_pos_trivial) simp
  then have "uint (iatan2_octant r) \<le> 8192"
    using \<open>v \<le> 8192\<close> unfolding iatan2_octant_def Let_def v_def by (simp only:)
  then show ?thesis unfolding uint_nat by linarith
qed

lemma ratio_bound:
  assumes "m \<le> M" "0 < M" "unat M < 1048576"
  shows "uint (push_bit 12 m div M :: u32) \<le> 4096"
proof -
  have m: "unat m \<le> unat M" using assms(1) by (simp add: word_le_nat_alt)
  then have "unat (push_bit 12 m) = 4096 * unat m"
    using assms(3) unat_mult_u32 [of m "2 ^ 12"] by (simp add: push_bit_eq_mult mult.commute)
  then have "unat (push_bit 12 m div M) = 4096 * unat m div unat M" by (simp add: unat_div)
  also have "\<dots> \<le> 4096 * unat M div unat M" using m by (intro div_le_mono) simp
  also have "\<dots> = 4096" using assms(2) by (simp add: word_less_nat_alt)
  finally show ?thesis unfolding uint_nat by linarith
qed

lemma unat_and_ffff: "unat (a AND 0xFFFF :: u32) = unat a mod 65536"
proof -
  have "a AND 0xFFFF = take_bit 16 a" by (simp add: take_bit_eq_mask mask_eq_exp_minus_1)
  then have "unat (a AND 0xFFFF) = take_bit 16 (unat a)" by (simp only: unsigned_take_bit_eq)
  then show ?thesis by (simp add: take_bit_eq_mod)
qed

lemma unat_magnitude: "fits 32 v \<Longrightarrow> unat (magnitude v) = nat \<bar>v\<bar>"
proof -
  assume v: "fits 32 v"
  have eq: "magnitude v = word_of_int \<bar>v\<bar>" by (simp add: magnitude_def)
  have "uint (word_of_int \<bar>v\<bar> :: u32) = \<bar>v\<bar>"
    using v by (simp only: uint_word_of_int take_bit_eq_mod fits_def) (rule mod_pos_pos_trivial, auto)
  then show ?thesis unfolding eq unat_eq_nat_uint by simp
qed

lemma axis_angle_bound: "abs_y \<noteq> 0 \<or> abs_x \<noteq> 0 \<Longrightarrow> unat (axis_angle abs_y abs_x) \<le> 8192"
proof -
  assume nz: "abs_y \<noteq> 0 \<or> abs_x \<noteq> 0"
  let ?m = "if abs_x < abs_y then abs_x else abs_y" and ?M = "if abs_x > abs_y then abs_x else abs_y"
  obtain m M where mM: "iatan2_scale ?m ?M = (m, M)" by fastforce
  have "?m \<le> ?M" by auto
  moreover have "0 < ?M" using nz by (auto simp: word_less_nat_alt unat_gt_0 unat_eq_zero)
  ultimately have b: "m \<le> M \<and> 0 < M \<and> unat M < 1048576" using mM by (rule iatan2_scale_bounds)
  then have "uint (push_bit 12 m div M) \<le> 4096" by (intro ratio_bound) simp_all
  then show ?thesis unfolding axis_angle_def mM by (simp add: iatan2_octant_bound)
qed

text \<open>
  \<open>iatan2\<close> answers an angle (65536 units to the circle) in the closed quadrant of the vector, and
  in the first quadrant on the side of the diagonal where the vector lies; this covers \<open>INT32_MIN\<close>,
  whose magnitude has no \<open>int32_t\<close>.
\<close>
theorem iatan2_quadrant:
  assumes "fits 32 x" "fits 32 y" "x \<noteq> 0 \<or> y \<noteq> 0"
  shows "if 0 \<le> x \<and> 0 \<le> y then
           if y \<le> x then unat (iatan2 y x) \<le> 8192
           else 8192 \<le> unat (iatan2 y x) \<and> unat (iatan2 y x) \<le> 16384
         else if x < 0 \<and> 0 \<le> y then 16384 \<le> unat (iatan2 y x) \<and> unat (iatan2 y x) \<le> 32768
         else if x < 0 then 32768 \<le> unat (iatan2 y x) \<and> unat (iatan2 y x) \<le> 49152
         else unat (iatan2 y x) = 0 \<or> 49152 \<le> unat (iatan2 y x) \<and> unat (iatan2 y x) < 65536"
proof -
  let ?g = "axis_angle (magnitude y) (magnitude x)"
  have ge: "magnitude y > magnitude x \<longleftrightarrow> \<bar>x\<bar> < \<bar>y\<bar>"
    using assms by (simp only: word_less_nat_alt unat_magnitude) auto
  have "magnitude y \<noteq> 0 \<or> magnitude x \<noteq> 0"
    using assms unat_magnitude [of x] unat_magnitude [of y] by auto
  then have g: "unat ?g \<le> 8192" by (rule axis_angle_bound)
  define a where "a = (if magnitude y > magnitude x then 16384 - ?g else ?g)"
  have a: "unat a = (if \<bar>x\<bar> < \<bar>y\<bar> then 16384 - unat ?g else unat ?g)"
    unfolding a_def ge using g by (auto simp: unat_sub_u32)
  then have a16: "unat a \<le> 16384" using g by simp
  have eq: "iatan2 y x = (if x < 0 then if y < 0 then 32768 + a else 32768 - a
      else if y < 0 then 65536 - a else a) AND 0xFFFF"
    using assms(3) unfolding iatan2_def a_def Let_def by auto
  have parts: "unat (32768 + a) = 32768 + unat a" "unat (32768 - a) = 32768 - unat a"
    "unat (65536 - a) = 65536 - unat a"
    using a16 by (simp_all add: unat_add_u32 unat_sub_u32)
  consider "0 \<le> x" "0 \<le> y" | "x < 0" "0 \<le> y" | "x < 0" "y < 0" | "0 \<le> x" "y < 0" by linarith
  then show ?thesis
  proof cases
    case 1
    then show ?thesis using a g by (auto simp: eq unat_and_ffff)
  next
    case 2
    then show ?thesis using a16 by (auto simp: eq unat_and_ffff parts)
  next
    case 3
    then show ?thesis using a16 by (auto simp: eq unat_and_ffff parts)
  next
    case 4
    then show ?thesis using a16 by (cases "unat a = 0") (auto simp: eq unat_and_ffff parts)
  qed
qed

theorem iatan2_quadrant_witness:
  "unat (iatan2 (- 2147483648) (- 1)) \<ge> 32768 \<and> unat (iatan2 (- 2147483648) (- 1)) \<le> 49152"
  using iatan2_quadrant [of "- 1" "- 2147483648"] by (simp add: fits_def)

end
