(* ===== verification/Parser.thy ===== *)
theory Parser
  imports CString
begin

text \<open>
  Path and text helpers of \<open>util/parser.c\<close> and the reentrant tokenizer of \<open>util/tok.c\<close>, over the
  functions of \<open>CString\<close>. A pointer argument that may be NULL is an option; the outer option of a
  result is \<open>None\<close> where the code would leave the object it was given.
\<close>

section \<open>parser.c\<close>

fun skip_spaces :: "u8 list \<Rightarrow> nat option" where
  "skip_spaces [] = None"
| "skip_spaces (c # cs) = (if c = 32 then map_option Suc (skip_spaces cs) else Some 0)"

definition parse_trim_leading_spaces :: "u8 list \<Rightarrow> u8 list option" where
  "parse_trim_leading_spaces str = do {
     i \<leftarrow> skip_spaces str;
     if i > 0 then do { n \<leftarrow> strlen (drop i str); memmove str 0 i (n + 1) } else Some str
   }"

text \<open>The copy loop: \<open>n\<close> is what is left of \<open>buffer_size - 1\<close>.\<close>

fun copy_name :: "u8 list \<Rightarrow> u8 list \<Rightarrow> nat \<Rightarrow> u8 list option" where
  "copy_name [] buffer n = None"
| "copy_name (c # cs) [] n = None"
| "copy_name (c # cs) (b # bs) n =
     (if c \<noteq> 0 \<and> n > 0 then map_option ((#) c) (copy_name cs bs (n - 1)) else Some (0 # bs))"

definition parse_get_filename :: "u8 list option \<Rightarrow> u8 list \<Rightarrow> nat \<Rightarrow> u8 list option" where
  "parse_get_filename path buffer buffer_size =
     (if buffer_size = 0 then Some buffer
      else case path of
        None \<Rightarrow> (if buffer = [] then None else Some (buffer[0 := 0]))
      | Some p \<Rightarrow> do {
          last_slash \<leftarrow> strrchr p 47;
          let filename_start = (case last_slash of None \<Rightarrow> p | Some i \<Rightarrow> drop (i + 1) p);
          copy_name filename_start buffer (buffer_size - 1)
        })"

definition parse_get_parent_path :: "u8 list option \<Rightarrow> u8 list \<Rightarrow> nat \<Rightarrow> u8 list option" where
  "parse_get_parent_path path buffer buffer_size =
     (if buffer_size = 0 then Some buffer
      else case path of
        None \<Rightarrow> (if buffer = [] then None else Some (buffer[0 := 0]))
      | Some p \<Rightarrow> do {
          last_slash \<leftarrow> strrchr p 47;
          let copy_len = (case last_slash of None \<Rightarrow> 0 | Some i \<Rightarrow> if i = 0 then 1 else i);
          let copy_len = (if copy_len \<ge> buffer_size then buffer_size - 1 else copy_len);
          buffer' \<leftarrow> memcpy buffer p copy_len;
          if copy_len < length buffer' then Some (buffer'[copy_len := 0]) else None
        })"

text \<open>\<open>str_replace\<close> edits \<open>dest\<close> in place; the NULL checks of the source are not repeated.\<close>

definition str_replace :: "u8 list \<Rightarrow> u8 list \<Rightarrow> u8 list \<Rightarrow> int \<Rightarrow> (int \<times> u8 list) option" where
  "str_replace dest to_find to_replace max_size =
     (if max_size \<le> 0 then Some (-1, dest)
      else case to_find of
        [] \<Rightarrow> None
      | f # fs \<Rightarrow>
          if f = 0 then Some (-1, dest)
          else do {
            m \<leftarrow> strstr dest to_find;
            case m of
              None \<Rightarrow> Some (-1, dest)
            | Some match \<Rightarrow> do {
                dest_len \<leftarrow> strlen dest;
                find_len \<leftarrow> strlen to_find;
                replace_len \<leftarrow> strlen to_replace;
                if dest_len - find_len + replace_len \<ge> nat max_size then Some (-2, dest)
                else do {
                  suffix_len \<leftarrow> strlen (drop (match + find_len) dest);
                  dest1 \<leftarrow> memmove dest (match + replace_len) (match + find_len) (suffix_len + 1);
                  tail \<leftarrow> memcpy (drop match dest1) to_replace replace_len;
                  Some (0, take match dest1 @ tail)
                }
              }
          })"

fun str_tolower :: "u8 list \<Rightarrow> u8 list option" where
  "str_tolower [] = None"
| "str_tolower (c # cs) =
     (if c = 0 then Some (c # cs)
      else map_option ((#) (if 65 \<le> c \<and> c \<le> 90 then c + 32 else c)) (str_tolower cs))"

fun str_toupper :: "u8 list \<Rightarrow> u8 list option" where
  "str_toupper [] = None"
| "str_toupper (c # cs) =
     (if c = 0 then Some (c # cs)
      else map_option ((#) (if 97 \<le> c \<and> c \<le> 122 then c - 32 else c)) (str_toupper cs))"

section \<open>tok.c\<close>

record cstr_tok =
  next_token :: "nat option"
  delim :: "u8 list"

definition cstr_tok_init :: "nat option \<Rightarrow> u8 list \<Rightarrow> cstr_tok" where
  "cstr_tok_init str d = \<lparr>next_token = str, delim = d\<rparr>"

definition cstr_tok_next :: "cstr_tok \<Rightarrow> u8 list \<Rightarrow> (nat option \<times> cstr_tok \<times> u8 list) option" where
  "cstr_tok_next tok buf =
     (case next_token tok of
        None \<Rightarrow> Some (None, tok, buf)
      | Some p \<Rightarrow> do {
          k \<leftarrow> skip_while (\<lambda>c. is_delimiter c (delim tok)) (drop p buf);
          let token_start = p + k;
          if buf ! token_start = 0 then Some (None, tok\<lparr>next_token := None\<rparr>, buf)
          else do {
            n \<leftarrow> skip_while (\<lambda>c. map_option Not (is_delimiter c (delim tok))) (drop token_start buf);
            if buf ! (token_start + n) \<noteq> 0
            then Some (Some token_start, tok\<lparr>next_token := Some (token_start + n + 1)\<rparr>, buf[token_start + n := 0])
            else Some (Some token_start, tok\<lparr>next_token := None\<rparr>, buf)
          }
        })"

text \<open>
  A client that calls \<open>cstr_tok_next\<close> until it answers NULL, with the text of every token; \<open>fuel\<close>
  bounds the calls and \<open>None\<close> says that it was too small or that a call left the buffer.
\<close>

fun all_tokens :: "nat \<Rightarrow> cstr_tok \<Rightarrow> u8 list \<Rightarrow> u8 list list option" where
  "all_tokens 0 tok buf = None"
| "all_tokens (Suc fuel) tok buf = do {
     (r, tok', buf') \<leftarrow> cstr_tok_next tok buf;
     case r of None \<Rightarrow> Some []
     | Some p \<Rightarrow> map_option ((#) (cstr (drop p buf'))) (all_tokens fuel tok' buf')
   }"

section \<open>Paths\<close>

lemma skip_spaces_eq:
  "terminated bs \<Longrightarrow> skip_spaces bs = Some (length (takeWhile (\<lambda>c. c = 32) (cstr bs)))"
  by (induction bs) auto

lemma copy_name_cut:
  "terminated src \<Longrightarrow> n < length buffer \<Longrightarrow>
     copy_name src buffer n =
       Some (take n (cstr src) @ 0 # drop (Suc (min n (length (cstr src)))) buffer)"
proof (induction src buffer n rule: copy_name.induct)
  case (3 c cs b bs n)
  then show ?case by (cases n) auto
qed auto

lemma terminated_drop: "terminated bs \<Longrightarrow> n \<le> length (cstr bs) \<Longrightarrow> terminated (drop n bs)"
  by (induction bs arbitrary: n) (auto simp: drop_Cons' split: if_splits)

lemma cstr_drop: "n \<le> length (cstr bs) \<Longrightarrow> cstr (drop n bs) = drop n (cstr bs)"
  by (induction bs arbitrary: n) (auto simp: drop_Cons' split: if_splits)

text \<open>Text cut to a buffer, with its terminator: by the copy loop, and by \<open>memcpy\<close> and a store.\<close>

lemma cut_text:
  "k < length buf \<Longrightarrow> cstr (take k (cstr src) @ 0 # drop (Suc (min k (length (cstr src)))) buf) = take k (cstr src)"
  using no_nul_in_cstr [of src] by (intro cstr_append_nul) (auto dest: in_set_takeD)

lemma cut_frame:
  assumes "k < length buf"
  shows "drop (Suc k) (take k s @ 0 # drop (Suc (min k (length s))) buf) = drop (Suc k) buf"
    and "length (take k s @ 0 # drop (Suc (min k (length s))) buf) = length buf"
proof -
  have "drop (Suc k) (take k s @ 0 # drop (Suc (min k (length s))) buf) =
      drop (k - length s) (drop (Suc (min k (length s))) buf)"
    by (cases "k \<le> length s") (simp_all add: min_def Suc_diff_le)
  also have "\<dots> = drop (Suc k) buf" by (cases "k \<le> length s") (simp_all add: min_def)
  finally show "drop (Suc k) (take k s @ 0 # drop (Suc (min k (length s))) buf) = drop (Suc k) buf" .
  show "length (take k s @ 0 # drop (Suc (min k (length s))) buf) = length buf"
    using assms by (simp add: min_def)
qed

lemma put_text:
  assumes "l \<le> length (cstr path)" "k < length buf"
  shows "cstr ((take (min l k) path @ drop (min l k) buf)[min l k := 0]) = take k (take l (cstr path))"
proof -
  have t: "take (min l k) path = take (min l k) (cstr path)"
    using assms(1) by (subst take_length_cstr [symmetric]) (simp only: take_take min_def, simp)
  have "(take (min l k) path @ drop (min l k) buf)[min l k := 0] =
      take (min l k) (cstr path) @ 0 # drop (Suc (min l k)) buf"
    using assms length_cstr_le [of path] unfolding t
    by (simp add: list_update_append Cons_nth_drop_Suc [symmetric])
  moreover have "0 \<notin> set (take (min l k) (cstr path))" using no_nul_in_cstr [of path] by (auto dest: in_set_takeD)
  ultimately show ?thesis by (simp add: cstr_append_nul min.commute)
qed

text \<open>
  \<open>parse_get_filename\<close> and \<open>parse_get_parent_path\<close> split a path at its last slash: the parts
  recompose the path, the root keeps its slash, a path without slash has an empty parent, each part
  is cut to the buffer with its terminator and nothing beyond the buffer is written.
\<close>
theorem path_split:
  assumes "terminated path" "0 < n" "n \<le> length fbuf" "n \<le> length pbuf"
  shows "\<exists>f p dir base.
     parse_get_filename (Some path) fbuf n = Some f \<and> parse_get_parent_path (Some path) pbuf n = Some p \<and>
     cstr f = take (n - 1) base \<and> cstr p = take (n - 1) (if dir = [47] then dir else butlast dir) \<and>
     cstr path = dir @ base \<and> 47 \<notin> set base \<and> (dir = [] \<or> last dir = 47) \<and>
     drop n f = drop n fbuf \<and> drop n p = drop n pbuf \<and> length f = length fbuf \<and> length p = length pbuf"
proof -
  obtain k where n: "n = Suc k" using assms(2) by (cases n) auto
  have k: "k < length fbuf" "k < length pbuf" using assms(3,4) n by auto
  have name: "\<exists>f. copy_name src fbuf k = Some f \<and> cstr f = take k (cstr src) \<and>
      drop n f = drop n fbuf \<and> length f = length fbuf" if "terminated src" for src
    unfolding n using copy_name_cut [OF that k(1)] cut_text [OF k(1)] cut_frame [OF k(1)] by metis
  have parent: "\<exists>p. (do { b \<leftarrow> memcpy pbuf path (min l k); if min l k < length b then Some (b[min l k := 0]) else None })
        = Some p \<and> cstr p = take k (take l (cstr path)) \<and> drop n p = drop n pbuf \<and> length p = length pbuf"
    if "l \<le> length (cstr path)" for l
  proof -
    have "min l k \<le> length path" "min l k < length pbuf" using length_cstr_le [of path] that k(2) by auto
    then show ?thesis using put_text [OF that k(2)] by (simp add: n memcpy_eq)
  qed
  have clip: "(if l \<ge> n then n - 1 else l) = min l k" for l using n by auto
  note unfolds = parse_get_filename_def parse_get_parent_path_def
  show ?thesis
  proof (cases "47 \<in> set (cstr path)")
    case False
    then have none: "strrchr path 47 = Some None" using strrchr_None [of 47 path] assms(1) by simp
    obtain f where f: "copy_name path fbuf k = Some f \<and> cstr f = take k (cstr path) \<and>
        drop n f = drop n fbuf \<and> length f = length fbuf" using name [OF assms(1)] by blast
    obtain p where p: "do { b \<leftarrow> memcpy pbuf path (min 0 k); if min 0 k < length b then Some (b[min 0 k := 0]) else None }
        = Some p \<and> cstr p = take k (take 0 (cstr path)) \<and> drop n p = drop n pbuf \<and> length p = length pbuf"
      using parent [of 0] by auto
    show ?thesis
      by (rule exI [of _ f], rule exI [of _ p], rule exI [of _ "[]"], rule exI [of _ "cstr path"])
        (use f p False in \<open>simp add: unfolds none n split: if_splits\<close>)
  next
    case True
    then obtain i where i: "strrchr path 47 = Some (Some i)"
      using strrchr_None [of 47 path] assms(1) by (auto simp: strrchr_def strrchr_loop_eq)
    obtain xs ys where xy: "cstr path = xs @ 47 # ys" "length xs = i" "47 \<notin> set ys"
      using strrchr_Some [OF _ assms(1) i] by auto
    let ?l = "if i = 0 then 1 else i"
    have suc: "Suc i \<le> length (cstr path)" using xy by simp
    then obtain f where f: "copy_name (drop (Suc i) path) fbuf k = Some f \<and> cstr f = take k (cstr (drop (Suc i) path)) \<and>
        drop n f = drop n fbuf \<and> length f = length fbuf"
      using name [of "drop (Suc i) path"] terminated_drop [OF assms(1)] by blast
    have base: "cstr (drop (Suc i) path) = ys" using suc xy by (simp add: cstr_drop)
    obtain p where p: "do { b \<leftarrow> memcpy pbuf path (min ?l k); if min ?l k < length b then Some (b[min ?l k := 0]) else None }
        = Some p \<and> cstr p = take k (take ?l (cstr path)) \<and> drop n p = drop n pbuf \<and> length p = length pbuf"
    proof -
      have "?l \<le> length (cstr path)" using suc by (cases "i = 0") auto
      from parent [OF this] show thesis using that by blast
    qed
    have dir: "take ?l (cstr path) = (if xs @ [47] = [47] then xs @ [47] else butlast (xs @ [47]))"
      using xy by auto
    have cp: "cstr p = take k (if xs @ [47] = [47] then xs @ [47] else butlast (xs @ [47]))"
      using p unfolding dir by (rule conjunct1 [OF conjunct2])
    have "parse_get_filename (Some path) fbuf n = Some f" using f by (simp add: unfolds i n)
    moreover have "parse_get_parent_path (Some path) pbuf n = Some p"
      using p assms(2) unfolding unfolds by (simp add: i clip del: One_nat_def)
    ultimately show ?thesis
      using f conjunct2 [OF conjunct2 [OF p]] cp xy base
      by - (rule exI [of _ f], rule exI [of _ p], rule exI [of _ "xs @ [47]"], rule exI [of _ ys], simp add: n)
  qed
qed

theorem path_split_witness:
  "\<exists>f p. parse_get_filename (Some [47, 109, 47, 102, 0]) [9, 9, 9, 9] 3 = Some f \<and>
     parse_get_parent_path (Some [47, 109, 47, 102, 0]) [9, 9, 9, 9] 3 = Some p \<and> length f = 4 \<and> length p = 4"
  using path_split [of "[47, 109, 47, 102, 0]" 3 "[9, 9, 9, 9]" "[9, 9, 9, 9]"] by auto

section \<open>Replacing text\<close>

definition starts_with :: "u8 list \<Rightarrow> u8 list \<Rightarrow> bool" where
  "starts_with s n \<longleftrightarrow> take (length n) s = n"

fun first_occ :: "u8 list \<Rightarrow> u8 list \<Rightarrow> nat option" where
  "first_occ n [] = None"
| "first_occ n (h # hs) = (if starts_with (h # hs) n then Some 0 else map_option Suc (first_occ n hs))"

lemma first_occ_Some:
  "first_occ n s = Some i \<Longrightarrow> s = take i s @ n @ drop (i + length n) s \<and> i + length n \<le> length s"
proof (induction n s arbitrary: i rule: first_occ.induct)
  case (2 n h hs)
  show ?case
  proof (cases "starts_with (h # hs) n")
    case True
    then have "i = 0" using 2(2) by simp
    moreover have "h # hs = n @ drop (length n) (h # hs)"
      using True unfolding starts_with_def by (metis append_take_drop_id)
    moreover from this have "length n \<le> length (h # hs)" by (metis le_add1 length_append)
    ultimately show ?thesis by simp
  next
    case False
    then obtain j where "first_occ n hs = Some j" "i = Suc j" using 2(2) by auto
    with 2(1) [OF False] show ?thesis by simp
  qed
qed simp

lemma first_occ_first: "first_occ n s = Some i \<Longrightarrow> j < i \<Longrightarrow> \<not> starts_with (drop j s) n"
proof (induction n s arbitrary: i j rule: first_occ.induct)
  case (2 n h hs)
  then show ?case by (cases j) (auto split: if_splits)
qed simp

lemma strstr_at_eq:
  "terminated h \<Longrightarrow> terminated n \<Longrightarrow> strstr_at h n = Some (starts_with (cstr h) (cstr n))"
  by (induction h n rule: strstr_at.induct) (auto simp: starts_with_def)

lemma strstr_eq:
  assumes "terminated h" "terminated n" "cstr n \<noteq> []"
  shows "strstr h n = Some (first_occ (cstr n) (cstr h))"
proof -
  obtain a as where n: "n = a # as" "a \<noteq> 0" using assms(2,3) by (cases n) (auto split: if_splits)
  have "strstr_loop h n = Some (first_occ (cstr n) (cstr h))"
    using assms(1)
  proof (induction h)
    case (Cons c cs)
    show ?case
    proof (cases "c = 0")
      case False
      have "\<not> starts_with (c # cstr cs) (cstr n)" if "c \<noteq> a" using that n by (simp add: starts_with_def)
      moreover have "strstr_at (c # cs) n = Some (starts_with (c # cstr cs) (cstr n))"
        using strstr_at_eq [OF Cons.prems assms(2)] False by simp
      moreover have "strstr_loop cs n = Some (first_occ (cstr n) (cstr cs))"
        using Cons False by simp
      moreover have hc: "cstr (c # cs) = c # cstr cs" using False by simp
      ultimately show ?thesis using False n(2) unfolding hc
        by (cases "c = a") (simp_all add: n(1) del: strstr_at.simps takeWhile.simps)
    qed simp
  qed simp
  then show ?thesis using n by (simp add: strstr_def del: strstr_loop.simps)
qed

text \<open>
  \<open>str_replace\<close> replaces the first occurrence, in place and in either direction of growth: it
  answers -1 and -2 with the text unchanged exactly when there is no occurrence or the new text
  would not fit, and otherwise leaves the new text and nothing else changed.
\<close>
theorem str_replace_first:
  assumes "terminated dest" "terminated to_find" "terminated to_replace" "cstr to_find \<noteq> []"
    and "0 < max_size" "nat max_size \<le> length dest"
  shows "case first_occ (cstr to_find) (cstr dest) of
      None \<Rightarrow> str_replace dest to_find to_replace max_size = Some (-1, dest)
    | Some i \<Rightarrow>
        (let new = take i (cstr dest) @ cstr to_replace @ drop (i + length (cstr to_find)) (cstr dest)
         in if length new \<ge> nat max_size then str_replace dest to_find to_replace max_size = Some (-2, dest)
            else \<exists>dest'. str_replace dest to_find to_replace max_size = Some (0, dest') \<and> cstr dest' = new \<and>
              length dest' = length dest \<and> drop (nat max_size) dest' = drop (nat max_size) dest)"
proof -
  obtain a as where f: "to_find = a # as" "a \<noteq> 0" using assms(2,4) by (cases to_find) (auto split: if_splits)
  let ?o = "first_occ (cstr to_find) (cstr dest)" and ?l = "length (cstr to_find)"
  let ?r = "cstr to_replace"
  note eqs = strstr_eq [OF assms(1,2,4)] strlen_eq [of dest] strlen_eq [of to_find] strlen_eq [of to_replace]
  show ?thesis
  proof (cases ?o)
    case None
    then show ?thesis using eqs(1) assms(5) f by (simp add: str_replace_def)
  next
    case (Some i)
    have i: "cstr dest = take i (cstr dest) @ cstr to_find @ drop (i + ?l) (cstr dest)"
      "i + ?l \<le> length (cstr dest)" using first_occ_Some [OF Some] by auto
    define post where "post = drop (i + ?l) (cstr dest)"
    have lpost: "length post = length (cstr dest) - (i + ?l)" by (simp add: post_def)
    have total: "length (cstr dest) - ?l + length ?r = i + length ?r + length post"
      using i(2) lpost by simp
    show ?thesis
    proof (cases "nat max_size \<le> i + length ?r + length post")
      case True
      then have "str_replace dest to_find to_replace max_size = Some (-2, dest)"
        using assms f Some total eqs by (simp add: str_replace_def del: strlen.simps takeWhile.simps)
      then show ?thesis using Some True i(2) by (simp add: post_def [symmetric])
    next
      case False
      let ?d = "i + length ?r" and ?s = "i + ?l" and ?n = "length post + 1"
      have dl: "length (cstr dest) < length dest" by (rule length_cstr_less [OF assms(1)])
      have fit: "?d + ?n \<le> length dest" "?s + ?n \<le> length dest" "i \<le> length dest"
        using False assms(6) dl i(2) lpost by auto
      define dest1 where "dest1 = take ?d dest @ take ?n (drop ?s dest) @ drop (?d + ?n) dest"
      have move: "memmove dest ?d ?s ?n = Some dest1"
        unfolding dest1_def by (rule memmove_eq) (use fit in auto)
      have suffix: "strlen (drop ?s dest) = Some (length post)"
        using strlen_eq [of "drop ?s dest"] terminated_drop [OF assms(1) i(2)] cstr_drop [OF i(2)]
        by (simp add: post_def)
      have take_i: "take i dest1 = take i (cstr dest)"
      proof -
        have "take i dest1 = take i dest" using fit(1) by (simp add: dest1_def)
        also have "\<dots> = take i (take (length (cstr dest)) dest)" using i(2) by (simp only: take_take min_def) simp
        finally show ?thesis by (simp only: take_length_cstr)
      qed
      have copy: "memcpy (drop i dest1) to_replace (length ?r) = Some (?r @ drop ?d dest1)"
        using fit length_cstr_le [of to_replace]
        by (simp add: memcpy_eq dest1_def take_length_cstr add.commute)
      have tail: "drop ?d dest1 = post @ 0 # drop (?d + ?n) dest"
      proof -
        have "take ?n (drop ?s dest) = post @ [0]"
          using cstr_drop [OF i(2)] terminated_drop [OF assms(1) i(2)]
          by (metis Suc_eq_plus1 length_cstr_less nth_length_cstr post_def take_Suc_conv_app_nth take_length_cstr)
        then show ?thesis using fit(1) by (simp add: dest1_def)
      qed
      let ?out = "take i (cstr dest) @ ?r @ post @ 0 # drop (?d + ?n) dest"
      have run: "str_replace dest to_find to_replace max_size = Some (0, ?out)"
        using assms f Some total False eqs move suffix copy
        by (simp add: str_replace_def take_i tail del: strlen.simps takeWhile.simps)
      have "cstr ((take i (cstr dest) @ ?r @ post) @ 0 # drop (?d + ?n) dest) = take i (cstr dest) @ ?r @ post"
        using no_nul_in_cstr [of dest] no_nul_in_cstr [of to_replace]
        by (intro cstr_append_nul) (auto simp: post_def dest: in_set_takeD in_set_dropD)
      moreover have "length ?out = length dest" using fit i(2) by simp
      moreover have "drop (nat max_size) ?out = drop (nat max_size) dest"
      proof -
        have len: "length (take i (cstr dest) @ ?r @ post @ [0]) = ?d + ?n" using i(2) by simp
        have "drop (nat max_size) ((take i (cstr dest) @ ?r @ post @ [0]) @ drop (?d + ?n) dest) =
            drop (nat max_size - (?d + ?n)) (drop (?d + ?n) dest)"
          unfolding drop_append [of _ "take i (cstr dest) @ ?r @ post @ [0]"] len using False len by simp
        then show ?thesis using False by simp
      qed
      ultimately show ?thesis using Some run False i(2) by (simp add: post_def [symmetric])
    qed
  qed
qed

theorem str_replace_first_witness:
  "\<exists>dest'. str_replace [97, 98, 99, 0, 7, 7] [98, 0] [120, 121, 0] 6 = Some (0, dest') \<and>
     cstr dest' = [97, 120, 121, 99]"
  using str_replace_first [of "[97, 98, 99, 0, 7, 7]" "[98, 0]" "[120, 121, 0]" 6]
  by (auto simp: starts_with_def)

section \<open>Tokens\<close>

lemma skip_while_eq:
  "terminated bs \<Longrightarrow> (\<And>c. p c = Some (q c)) \<Longrightarrow> skip_while p bs = Some (length (takeWhile q (cstr bs)))"
  by (induction bs) auto

lemma length_dropWhile_Suc [termination_simp]: "length (dropWhile P xs) < Suc (length xs)"
  using length_dropWhile_le [of P xs] by simp

text \<open>The specification: the maximal runs of characters outside \<open>D\<close>.\<close>

fun split_tokens :: "u8 set \<Rightarrow> u8 list \<Rightarrow> u8 list list" where
  "split_tokens D [] = []"
| "split_tokens D (c # cs) =
     (if c \<in> D then split_tokens D cs
      else (c # takeWhile (\<lambda>x. x \<notin> D) cs) # split_tokens D (dropWhile (\<lambda>x. x \<notin> D) cs))"

lemma split_tokens_skip:
  "split_tokens D (takeWhile (\<lambda>c. c \<in> D) s @ t) = split_tokens D t"
  "split_tokens D s = split_tokens D (dropWhile (\<lambda>c. c \<in> D) s)"
  by (induction s) auto

lemma split_tokens_first:
  assumes "s \<noteq> []" "hd s \<notin> D"
  shows "split_tokens D s =
     takeWhile (\<lambda>c. c \<notin> D) s # split_tokens D (drop (Suc (length (takeWhile (\<lambda>c. c \<notin> D) s))) s)"
proof -
  obtain c cs where s: "s = c # cs" "c \<notin> D" using assms by (cases s) auto
  let ?r = "dropWhile (\<lambda>c. c \<notin> D) cs"
  have "split_tokens D ?r = split_tokens D (tl ?r)"
  proof (cases ?r)
    case (Cons x xs)
    then have "x \<in> D" by (metis dropWhile_eq_Cons_conv)
    with Cons show ?thesis by simp
  next
    case Nil
    show ?thesis unfolding Nil by simp
  qed
  moreover have "tl ?r = drop (Suc (Suc (length (takeWhile (\<lambda>c. c \<notin> D) cs)))) s"
    by (simp add: s dropWhile_eq_drop drop_Suc tl_drop)
  ultimately show ?thesis using s by simp
qed

lemma all_tokens_eq:
  "next_token tok = Some p \<Longrightarrow> terminated (delim tok) \<Longrightarrow> terminated (drop p buf) \<Longrightarrow>
     length buf \<le> p + fuel \<Longrightarrow>
     all_tokens fuel tok buf = Some (split_tokens (set (cstr (delim tok))) (cstr (drop p buf)))"
proof (induction fuel arbitrary: tok p buf)
  case 0
  then show ?case by simp
next
  case (Suc fuel)
  let ?D = "set (cstr (delim tok))" and ?s = "cstr (drop p buf)"
  have isd: "is_delimiter c (delim tok) = Some (c \<in> ?D)" for c
    using Suc.prems(2) by (simp add: is_delimiter_eq)
  have sless: "p + length ?s < length buf" using length_cstr_less [OF Suc.prems(3)] by simp
  have nth: "buf ! (p + i) = ?s ! i" if "i < length ?s" for i
    using that sless by (simp add: takeWhile_nth)
  have nul: "buf ! (p + length ?s) = 0" using nth_length_cstr [of "drop p buf"] sless by simp
  have nz: "?s ! i \<noteq> 0" if "i < length ?s" for i using that no_nul_in_cstr [of "drop p buf"] by (metis nth_mem)
  define k where "k = length (takeWhile (\<lambda>c. c \<in> ?D) ?s)"
  have k: "k \<le> length ?s" unfolding k_def by (rule length_takeWhile_le)
  have skip: "skip_while (\<lambda>c. is_delimiter c (delim tok)) (drop p buf) = Some k"
    unfolding k_def using Suc.prems(3) isd by (rule skip_while_eq)
  define t where "t = drop k ?s"
  have split: "split_tokens ?D ?s = split_tokens ?D t"
    unfolding t_def k_def dropWhile_eq_drop [symmetric] by (rule split_tokens_skip)
  have t: "cstr (drop (p + k) buf) = t" "terminated (drop (p + k) buf)"
    using cstr_drop [OF k] terminated_drop [OF Suc.prems(3) k] by (simp_all add: t_def add.commute)
  show ?case
  proof (cases "k = length ?s")
    case True
    then have "buf ! (p + k) = 0" using nul by simp
    then have "cstr_tok_next tok buf = Some (None, tok\<lparr>next_token := None\<rparr>, buf)"
      by (simp add: cstr_tok_next_def Suc.prems(1) skip)
    moreover have "t = []" using True by (simp add: t_def)
    ultimately show ?thesis unfolding split by simp
  next
    case False
    then have kl: "k < length ?s" using k by simp
    then have start: "buf ! (p + k) \<noteq> 0" using nth nz by simp
    have tne: "t \<noteq> []" "hd t \<notin> ?D"
      using kl nth_length_takeWhile [of "\<lambda>c. c \<in> ?D" ?s] by (simp_all add: t_def hd_drop_conv_nth k_def)
    define n where "n = length (takeWhile (\<lambda>c. c \<notin> ?D) t)"
    have n0: "0 < n" using tne unfolding n_def by (cases t) auto
    have nl: "n \<le> length t" unfolding n_def by (rule length_takeWhile_le)
    have skip2: "skip_while (\<lambda>c. map_option Not (is_delimiter c (delim tok))) (drop (p + k) buf) = Some n"
      unfolding n_def t(1) [symmetric] by (rule skip_while_eq [OF t(2)]) (simp add: isd)
    have lt: "length t = length ?s - k" by (simp add: t_def)
    show ?thesis
    proof (cases "k + n = length ?s")
      case True
      then have e: "buf ! (p + k + n) = 0" using nul by (simp add: add.assoc)
      have next': "cstr_tok_next tok buf = Some (Some (p + k), tok\<lparr>next_token := None\<rparr>, buf)"
        using start e by (simp add: cstr_tok_next_def Suc.prems(1) skip skip2 Let_def)
      obtain f where f: "fuel = Suc f" using Suc.prems(4) sless n0 True by (cases fuel) auto
      have "all_tokens fuel (tok\<lparr>next_token := None\<rparr>) buf = Some []" by (simp add: f cstr_tok_next_def)
      moreover have "n = length t" using True lt by simp
      then have tw: "takeWhile (\<lambda>c. c \<notin> ?D) t = t" by (metis n_def take_all order_refl takeWhile_eq_take)
      have "split_tokens ?D t = [t]" unfolding split_tokens_first [OF tne] tw by simp
      ultimately show ?thesis unfolding split by (simp add: next' t(1))
    next
      case False
      then have kn: "k + n < length ?s" using nl lt kl by simp
      then have e: "buf ! (p + k + n) \<noteq> 0" using nth [OF kn] nz [OF kn] by (simp add: add.assoc)
      let ?buf = "buf[p + k + n := 0]" and ?tok = "tok\<lparr>next_token := Some (p + k + n + 1)\<rparr>"
      have next': "cstr_tok_next tok buf = Some (Some (p + k), ?tok, ?buf)"
        using start e by (simp add: cstr_tok_next_def Suc.prems(1) skip skip2 Let_def)
      have rest: "drop (p + k + n + 1) ?buf = drop (Suc (k + n)) (drop p buf)"
        by (simp add: drop_update_cancel add.commute add.left_commute)
      have "all_tokens fuel ?tok ?buf = Some (split_tokens ?D (cstr (drop (p + k + n + 1) ?buf)))"
        using Suc.IH [of ?tok "p + k + n + 1" ?buf] Suc.prems(2,4) rest
          terminated_drop [OF Suc.prems(3), of "Suc (k + n)"] kn by simp
      moreover have "cstr (drop (p + k + n + 1) ?buf) = drop (Suc n) t"
        unfolding rest using cstr_drop [of "Suc (k + n)" "drop p buf"] kn by (simp add: t_def add.commute)
      moreover have "cstr (drop (p + k) ?buf) = takeWhile (\<lambda>c. c \<notin> ?D) t"
      proof -
        have "drop (p + k) ?buf = (drop (p + k) buf)[n := 0]" by (simp add: drop_update_swap)
        also have "\<dots> = take n (drop (p + k) buf) @ 0 # drop (Suc n) (drop (p + k) buf)"
          using kn sless by (intro upd_conv_take_nth_drop) simp
        also have "take n (drop (p + k) buf) = take n t"
        proof -
          have "take n t = take n (take (length t) (drop (p + k) buf))"
            using take_length_cstr [of "drop (p + k) buf"] unfolding t(1) by simp
          also have "\<dots> = take n (drop (p + k) buf)" using nl by (simp only: take_take min.absorb1)
          finally show ?thesis by (rule sym)
        qed
        finally have "cstr (drop (p + k) ?buf) = take n t"
          using no_nul_in_cstr [of "drop (p + k) buf"] unfolding t(1)
          by (simp only:) (rule cstr_append_nul, auto dest: in_set_takeD)
        then show ?thesis by (simp add: n_def takeWhile_eq_take [symmetric])
      qed
      ultimately show ?thesis
        unfolding split split_tokens_first [OF tne] n_def [symmetric] by (simp add: next')
    qed
  qed
qed

text \<open>
  C40: Calling \<open>cstr_tok_next\<close> until it answers NULL ends within the length of the buffer and yields
  exactly the maximal runs of non-delimiter characters, in order; empty tokens are skipped and no
  call leaves the buffer.
\<close>
theorem tokenizer_splits:
  assumes "terminated buf" "terminated d"
  shows "all_tokens (length buf) (cstr_tok_init (Some 0) d) buf = Some (split_tokens (set (cstr d)) (cstr buf))"
  using all_tokens_eq [of "cstr_tok_init (Some 0) d" 0 buf "length buf"] assms
  by (simp add: cstr_tok_init_def)

theorem tokenizer_splits_witness:
  "all_tokens 6 (cstr_tok_init (Some 0) [32, 0]) [32, 97, 32, 32, 98, 0] = Some [[97], [98]]"
proof -
  have "length [32, 97, 32, 32, 98, 0 :: u8] = 6" by simp
  with tokenizer_splits [of "[32, 97, 32, 32, 98, 0]" "[32, 0]"] show ?thesis
    by (simp only:) simp
qed

end
