(* ===== verification/Process.thy ===== *)
theory Process
  imports SchedInv Parser
begin

text \<open>
  Processes, \<open>kernel/scheduler/process.c\<close>: the table of 64 slots, process identifiers with their
  generation, address spaces, and the threads a process owns (the list of \<open>util/list.h\<close>, as the list
  of its payloads). The state holds the registers and ghost state the code touches: \<open>cr0\<close>, \<open>cr3\<close>,
  the scheduler with the byte memory, and \<open>released\<close>, the addresses handed to \<open>free\<close>.

  What \<open>malloc\<close> and \<open>vmm_alloc_pages\<close> return is an argument, as in \<open>Sched\<close>. The result of an operation
  is \<open>None\<close> where the path it was given is not a C string.
\<close>

section \<open>State\<close>

datatype process_state = PROCESS_STATE_FREE | PROCESS_STATE_CREATING | PROCESS_STATE_RUNNING | PROCESS_STATE_DYING

record process_segment =
  seg_base :: u32
  seg_raw :: "u32 option"
  seg_size :: u32
  seg_owned :: bool

record process =
  p_state :: process_state
  generation :: u32
  p_pid :: int
  p_priority :: nat
  p_name :: "u8 list"
  image_path :: "u8 list"
  page_directory :: "u32 option"
  page_directory_raw :: "u32 option"
  p_cr3 :: u32
  seg_code :: process_segment
  seg_data :: process_segment
  seg_bss :: process_segment
  seg_stack :: process_segment
  entry_offset :: u32
  p_threads :: "nat list"
  thread_count :: u32

record procs =
  process_table :: "nat \<Rightarrow> process"
  process_count :: u32
  kernel_cr3 :: u32
  cpu_cr0 :: u32
  cpu_cr3 :: u32
  released :: "u32 list"
  psched :: sched

definition PROCESS_MAX :: nat where "PROCESS_MAX = 64"
definition PROCESS_NAME_MAX :: nat where "PROCESS_NAME_MAX = 16"
definition PROCESS_PATH_MAX :: nat where "PROCESS_PATH_MAX = 256"
definition PAGE_SIZE :: u32 where "PAGE_SIZE = 4096"
definition PAGE_MASK :: u32 where "PAGE_MASK = NOT (PAGE_SIZE - 1)"
definition PID_GEN_MASK :: u32 where "PID_GEN_MASK = 0x007FFFFF"
definition PID_SLOT_MASK :: u32 where "PID_SLOT_MASK = 0xFF"

definition empty_segment :: process_segment where
  "empty_segment = \<lparr>seg_base = 0, seg_raw = None, seg_size = 0, seg_owned = False\<rparr>"

text \<open>A process all of whose bytes are zero.\<close>

definition zero_process :: process where
  "zero_process = \<lparr>p_state = PROCESS_STATE_FREE, generation = 0, p_pid = 0, p_priority = 0,
     p_name = replicate PROCESS_NAME_MAX 0, image_path = replicate PROCESS_PATH_MAX 0,
     page_directory = None, page_directory_raw = None, p_cr3 = 0,
     seg_code = empty_segment, seg_data = empty_segment, seg_bss = empty_segment, seg_stack = empty_segment,
     entry_offset = 0, p_threads = [], thread_count = 0\<rparr>"

definition upd_process :: "nat \<Rightarrow> (process \<Rightarrow> process) \<Rightarrow> procs \<Rightarrow> procs" where
  "upd_process i f ps = ps\<lparr>process_table := (process_table ps)(i := f (process_table ps i))\<rparr>"

section \<open>Handles\<close>

definition pid_encode :: "u32 \<Rightarrow> u32 \<Rightarrow> int" where
  "pid_encode gen slot = sint (push_bit 8 (gen AND PID_GEN_MASK) OR (slot AND PID_SLOT_MASK))"

text \<open>The slot of a live process, or NULL.\<close>

definition process_lookup :: "int \<Rightarrow> procs \<Rightarrow> nat option" where
  "process_lookup pid ps =
     (if pid \<le> 0 then None
      else let slot = unat ((word_of_int pid :: u32) AND PID_SLOT_MASK)
           in if slot \<ge> PROCESS_MAX then None
              else if p_state (process_table ps slot) = PROCESS_STATE_FREE \<or> p_pid (process_table ps slot) \<noteq> pid then None
              else Some slot)"

section \<open>Segments and address spaces\<close>

text \<open>\<open>raw\<close> is what \<open>malloc (rounded + PAGE_SIZE - 1)\<close> returns. \<open>None\<close>: the allocation failed.\<close>

definition segment_alloc :: "u32 option \<Rightarrow> u32 \<Rightarrow> memory \<Rightarrow> (process_segment \<times> memory) option" where
  "segment_alloc raw sz m =
     (if sz = 0 then Some (empty_segment, m)
      else if sz > 0xFFFFFFFF - 2 * PAGE_SIZE then None
      else let rounded = (sz + PAGE_SIZE - 1) AND PAGE_MASK
           in case raw of
                None \<Rightarrow> None
              | Some r \<Rightarrow>
                  let aligned = (r + PAGE_SIZE - 1) AND NOT (PAGE_SIZE - 1)
                  in Some (\<lparr>seg_base = aligned, seg_raw = Some r, seg_size = sz, seg_owned = True\<rparr>,
                           mem_write m aligned (replicate (unat rounded) 0)))"

definition segment_free :: "process_segment \<Rightarrow> u32 list" where
  "segment_free seg = (case seg_raw seg of None \<Rightarrow> [] | Some r \<Rightarrow> if seg_owned seg then [r] else [])"

definition read_word :: "memory \<Rightarrow> u32 \<Rightarrow> u32" where
  "read_word m a = le_word (mem_read m a 4)"

definition address_space_create :: "u32 option \<Rightarrow> u32 \<Rightarrow> memory \<Rightarrow> process \<Rightarrow> (process \<times> memory) option" where
  "address_space_create raw k_cr3 m p =
     (case segment_alloc raw PAGE_SIZE m of
        None \<Rightarrow> None
      | Some (pd, m1) \<Rightarrow>
          let dir = seg_base pd;
              kdir = k_cr3 AND PAGE_MASK;
              m2 = mem_write m1 dir (mem_read m1 kdir 4096);
              last = read_word m2 (kdir + 4092);
              m3 = (if last AND PAGE_MASK = k_cr3 AND PAGE_MASK
                    then mem_write m2 (dir + 4092) (word_le 4 ((dir AND PAGE_MASK) OR (last AND NOT PAGE_MASK)))
                    else m2)
          in Some (p\<lparr>page_directory := Some dir, page_directory_raw := seg_raw pd, p_cr3 := dir OR (k_cr3 AND 0x18)\<rparr>, m3))"

section \<open>Threads of a process\<close>

definition thread_detach_from_event :: "nat \<Rightarrow> sched \<Rightarrow> sched" where
  "thread_detach_from_event t s =
     (case wait_event (threads s t) of
        None \<Rightarrow> s
      | Some e \<Rightarrow> event_remove_waiter e t s)"

definition kill_thread :: "u32 \<Rightarrow> nat \<Rightarrow> sched \<Rightarrow> sched" where
  "kill_thread k_cr3 t s = upd_thread t (\<lambda>th. th\<lparr>cr3 := k_cr3, state := THREAD_DEAD\<rparr>) (thread_detach_from_event t s)"

definition process_kill_threads :: "nat \<Rightarrow> procs \<Rightarrow> procs" where
  "process_kill_threads i ps =
     upd_process i (\<lambda>p. p\<lparr>p_threads := [], thread_count := 0\<rparr>)
       (ps\<lparr>psched := fold (kill_thread (kernel_cr3 ps)) (p_threads (process_table ps i)) (psched ps)\<rparr>)"

section \<open>Slots\<close>

definition process_free_resources :: "nat \<Rightarrow> procs \<Rightarrow> procs" where
  "process_free_resources i ps =
     (let p = process_table ps i;
          freed_now = segment_free (seg_code p) @ segment_free (seg_data p) @ segment_free (seg_bss p)
            @ (case page_directory_raw p of None \<Rightarrow> [] | Some r \<Rightarrow> [r])
      in upd_process i (\<lambda>p. p\<lparr>seg_code := empty_segment, seg_data := empty_segment, seg_bss := empty_segment,
                               seg_stack := empty_segment, page_directory := None, page_directory_raw := None, p_cr3 := 0\<rparr>)
           (ps\<lparr>released := freed_now @ released ps\<rparr>))"

definition next_generation :: "u32 \<Rightarrow> u32" where
  "next_generation g = (let g' = (g + 1) AND PID_GEN_MASK in if g' = 0 then 1 else g')"

definition process_release_slot :: "nat \<Rightarrow> procs \<Rightarrow> procs" where
  "process_release_slot i ps =
     (upd_process i (\<lambda>p. zero_process\<lparr>generation := next_generation (generation p)\<rparr>) ps)
       \<lparr>process_count := process_count ps - 1\<rparr>"

text \<open>The reservation loop of \<open>CreateProcess\<close>.\<close>

definition reserve_slot :: "procs \<Rightarrow> (nat \<times> procs) option" where
  "reserve_slot ps =
     (case List.find (\<lambda>i. p_state (process_table ps i) = PROCESS_STATE_FREE) [0..<PROCESS_MAX] of
        None \<Rightarrow> None
      | Some i \<Rightarrow>
          let g = (if generation (process_table ps i) = 0 then 1 else generation (process_table ps i))
          in Some (i, (upd_process i (\<lambda>p. p\<lparr>generation := g, p_state := PROCESS_STATE_CREATING,
                                             p_pid := pid_encode g (of_nat i)\<rparr>) ps)
                        \<lparr>process_count := process_count ps + 1\<rparr>))"

section \<open>The public operations\<close>

definition PROCESS_OK :: int where "PROCESS_OK = 0"
definition PROCESS_ERR_INVALID_ARG :: int where "PROCESS_ERR_INVALID_ARG = -1"
definition PROCESS_ERR_NO_SLOTS :: int where "PROCESS_ERR_NO_SLOTS = -2"
definition PROCESS_ERR_NO_MEMORY :: int where "PROCESS_ERR_NO_MEMORY = -3"
definition PROCESS_ERR_NO_PAGING :: int where "PROCESS_ERR_NO_PAGING = -4"
definition PROCESS_ERR_NOT_FOUND :: int where "PROCESS_ERR_NOT_FOUND = -6"
definition PROCESS_ERR_THREAD :: int where "PROCESS_ERR_THREAD = -7"

text \<open>
  What the allocators answer during one call, and the constants of the kernel image it uses: the
  directory block, the thread block, its stack region, whether a list node could be allocated, the
  addresses of \<open>thread_exit\<close> and \<open>process_entry_stub\<close>, the directory \<open>vmm\<close> reports, the time.
\<close>

record grants =
  dir_raw :: "u32 option"
  new_thread :: "nat option"
  stack_region :: "u32 option"
  node :: bool
  exit_addr :: u32
  entry_stub :: u32
  vmm_dir :: u32
  now_ms :: u64

text \<open>The label \<open>fail\<close>.\<close>

definition create_fail :: "nat \<Rightarrow> int \<Rightarrow> procs \<Rightarrow> int \<times> procs" where
  "create_fail i error ps = (error, process_release_slot i (process_free_resources i ps))"

text \<open>The main thread, created with interrupts off.\<close>

definition create_main_thread :: "grants \<Rightarrow> nat \<Rightarrow> nat \<Rightarrow> procs \<Rightarrow> int \<times> procs" where
  "create_main_thread g prio i ps =
     (case thread_create (new_thread g) (stack_region g) (exit_addr g) (vmm_dir g) (now_ms g) (entry_stub g) prio (psched ps) of
        (None, s1) \<Rightarrow> create_fail i PROCESS_ERR_THREAD (ps\<lparr>psched := s1\<rparr>)
      | (Some t, s1) \<Rightarrow>
          let s2 = upd_thread t (cr3_update (\<lambda>_. p_cr3 (process_table ps i))) s1
          in if node g
             then let ps2 = upd_process i (\<lambda>p. p\<lparr>p_threads := p_threads p @ [t], thread_count := 1,
                                seg_stack := (seg_stack p)\<lparr>seg_base := stack_base (threads s2 t), seg_owned := False\<rparr>,
                                p_state := PROCESS_STATE_RUNNING\<rparr>) (ps\<lparr>psched := s2\<rparr>)
                  in (p_pid (process_table ps2 i), ps2)
             else create_fail i PROCESS_ERR_THREAD
                    (ps\<lparr>psched := upd_thread t (\<lambda>th. th\<lparr>cr3 := kernel_cr3 ps, state := THREAD_DEAD\<rparr>) s2\<rparr>))"

text \<open>
  The part of \<open>CreateProcess\<close> after the slot is reserved. \<open>process_image_probe\<close> leaves an all-zero
  layout and \<open>process_image_load\<close> does nothing: both are placeholders in the source and never fail.
\<close>

definition create_fill :: "grants \<Rightarrow> u8 list \<Rightarrow> nat \<Rightarrow> nat \<Rightarrow> procs \<Rightarrow> (int \<times> procs) option" where
  "create_fill g path prio i ps = do {
     p1 \<leftarrow> strncpy (image_path (process_table ps i)) path (PROCESS_PATH_MAX - 1);
     nm \<leftarrow> parse_get_filename (Some path) (p_name (process_table ps i)) PROCESS_NAME_MAX;
     let ps1 = upd_process i (\<lambda>p. p\<lparr>p_priority := prio, image_path := p1[PROCESS_PATH_MAX - 1 := 0], p_name := nm,
                                     entry_offset := 0, seg_code := empty_segment, seg_data := empty_segment,
                                     seg_bss := empty_segment\<rparr>) ps;
     Some (case address_space_create (dir_raw g) (kernel_cr3 ps1) (memory (psched ps1)) (process_table ps1 i) of
             None \<Rightarrow> create_fail i PROCESS_ERR_NO_MEMORY ps1
           | Some (p, m) \<Rightarrow>
               create_main_thread g prio i
                 (upd_process i (\<lambda>_. p) (ps1\<lparr>psched := (psched ps1)\<lparr>memory := m\<rparr>\<rparr>)))
   }"

definition CreateProcess :: "grants \<Rightarrow> u8 list option \<Rightarrow> nat \<Rightarrow> procs \<Rightarrow> (int \<times> procs) option" where
  "CreateProcess g path prio ps =
     (case path of
        None \<Rightarrow> Some (PROCESS_ERR_INVALID_ARG, ps)
      | Some [] \<Rightarrow> None
      | Some (c # cs) \<Rightarrow>
          if c = 0 then Some (PROCESS_ERR_INVALID_ARG, ps)
          else do {
            n \<leftarrow> strnlen (c # cs) PROCESS_PATH_MAX;
            if n \<ge> PROCESS_PATH_MAX \<or> prio < PRIORITY_IDLE \<or> prio > PRIORITY_REALTIME
            then Some (PROCESS_ERR_INVALID_ARG, ps)
            else if cpu_cr0 ps AND 0x80000000 = 0 then Some (PROCESS_ERR_NO_PAGING, ps)
            else let ps1 = (if kernel_cr3 ps = 0 then ps\<lparr>kernel_cr3 := cpu_cr3 ps\<rparr> else ps)
                 in case reserve_slot ps1 of
                      None \<Rightarrow> Some (PROCESS_ERR_NO_SLOTS, ps1)
                    | Some (i, ps2) \<Rightarrow> create_fill g (c # cs) prio i ps2
          })"

text \<open>
  \<open>DestroyProcess\<close>: the boolean says whether the call returns. When the process is the caller's own
  (it runs on that page directory), it yields for ever after the state shown here.
\<close>

definition DestroyProcess :: "int \<Rightarrow> procs \<Rightarrow> bool \<times> int \<times> procs" where
  "DestroyProcess pid ps =
     (case process_lookup pid ps of
        None \<Rightarrow> (True, PROCESS_ERR_NOT_FOUND, ps)
      | Some i \<Rightarrow>
          if p_state (process_table ps i) \<noteq> PROCESS_STATE_RUNNING then (True, PROCESS_ERR_NOT_FOUND, ps)
          else let ps1 = upd_process i (p_state_update (\<lambda>_. PROCESS_STATE_DYING)) ps;
                   self = (cpu_cr3 ps1 AND PAGE_MASK = p_cr3 (process_table ps1 i) AND PAGE_MASK);
                   ps2 = (if self then ps1\<lparr>cpu_cr3 := kernel_cr3 ps1\<rparr> else ps1);
                   ps3 = process_release_slot i (process_free_resources i (process_kill_threads i ps2))
               in (\<not> self, PROCESS_OK, ps3))"

record process_info =
  info_pid :: int
  info_state :: process_state
  info_priority :: nat
  info_name :: "u8 list"
  info_thread_count :: u32
  info_code_size :: u32
  info_data_size :: u32
  info_bss_size :: u32

definition ProcessGetInfo :: "int \<Rightarrow> procs \<Rightarrow> process_info option" where
  "ProcessGetInfo pid ps =
     (case process_lookup pid ps of
        None \<Rightarrow> None
      | Some i \<Rightarrow>
          let p = process_table ps i
          in Some \<lparr>info_pid = p_pid p, info_state = p_state p, info_priority = p_priority p,
                   info_name = take PROCESS_NAME_MAX (p_name p), info_thread_count = thread_count p,
                   info_code_size = seg_size (seg_code p), info_data_size = seg_size (seg_data p),
                   info_bss_size = seg_size (seg_bss p)\<rparr>)"

definition process_get_count :: "procs \<Rightarrow> u32" where
  "process_get_count ps = process_count ps"

end
