(* ===== verification/ProcessProps.thy ===== *)
theory ProcessProps
  imports Process SchedLife
begin

text \<open>
  What the process table guarantees: its invariant under every operation, the outcomes of creating and
  destroying a process, and the identity of process identifiers over time.
\<close>

section \<open>Identifiers\<close>

lemma unat_and_mask_u32: "unat (x AND mask n :: u32) = unat x mod 2 ^ n"
proof -
  have "x AND mask n = take_bit n x" by (simp add: take_bit_eq_mask)
  then have "unat (x AND mask n) = take_bit n (unat x)" by (simp only: unsigned_take_bit_eq)
  then show ?thesis by (simp add: take_bit_eq_mod)
qed

lemma gen_mask: "PID_GEN_MASK = mask 23" and slot_mask: "PID_SLOT_MASK = mask 8"
  by (simp_all add: PID_GEN_MASK_def PID_SLOT_MASK_def mask_eq_exp_minus_1)

lemma unat_gen: "unat g < 8388608 \<Longrightarrow> unat (g AND PID_GEN_MASK) = unat g"
  unfolding gen_mask unat_and_mask_u32 by simp

lemma unat_slot: "unat (x AND PID_SLOT_MASK) = unat x mod 256"
  unfolding slot_mask unat_and_mask_u32 by simp

lemma unat_or_low:
  assumes g: "unat g < 8388608"
  shows "unat (push_bit 8 g OR (x AND PID_SLOT_MASK) :: u32) = unat g * 256 + unat x mod 256"
proof -
  let ?s = "x AND PID_SLOT_MASK"
  have "push_bit 8 g AND ?s = 0"
    by (rule bit_word_eqI) (auto simp: slot_mask bit_and_iff bit_push_bit_iff bit_mask_iff)
  then have "push_bit 8 g OR ?s = push_bit 8 g + ?s" by (simp add: disjunctive_add_eq_or)
  moreover have "unat (push_bit 8 g) = unat g * 256"
    using g unat_mult_u32 [of g "2 ^ 8"] by (simp add: push_bit_eq_mult mult.commute)
  ultimately show ?thesis using g by (simp add: unat_add_u32 unat_slot)
qed

lemma sint_small: "unat (x :: u32) < 2147483648 \<Longrightarrow> sint x = int (unat x)"
proof -
  assume "unat x < 2147483648"
  then have "uint x < 2147483648" unfolding uint_nat by linarith
  moreover have "- (2 ^ 31) \<le> uint x" by (rule order_trans [of _ 0]) simp_all
  ultimately have "signed_take_bit 31 (uint x) = uint x" by (intro signed_take_bit_int_eq_self) simp_all
  then show ?thesis by (simp only: sint_uint uint_nat) simp
qed

lemma pid_encode_val:
  assumes "unat g < 8388608" "i < 64"
  shows "pid_encode g (of_nat i) = int (unat g * 256 + i)"
proof -
  have g: "g AND PID_GEN_MASK = g" using unat_gen [OF assms(1)] by (simp only: word_unat_eq_iff)
  have "unat (push_bit 8 g OR (of_nat i AND PID_SLOT_MASK)) = unat g * 256 + i"
    using unat_or_low [OF assms(1), of "of_nat i"] assms(2) by (simp add: unat_of_nat_u32)
  then show ?thesis unfolding pid_encode_def g using assms by (subst sint_small) simp_all
qed

lemma pid_fields_eq: "a * 256 + j = b * 256 + i \<Longrightarrow> j < 64 \<Longrightarrow> i < 64 \<Longrightarrow> j = i \<and> a = (b :: nat)"
proof -
  assume e: "a * 256 + j = b * 256 + i" and lt: "j < 64" "i < 64"
  have "(c * 256 + k) mod 256 = k" if "k < 64" for c k :: nat using that by simp
  from this [OF lt(1), of a] this [OF lt(2), of b] have "j = i" unfolding e by simp
  with e show ?thesis by simp
qed

lemma pid_slot:
  assumes "n < 2147483648"
  shows "unat (word_of_int (int n) AND PID_SLOT_MASK) = n mod 256"
  using assms by (simp add: unat_slot unat_of_nat_u32)

section \<open>The invariant of the table\<close>

definition slot_ok :: "nat \<Rightarrow> process \<Rightarrow> bool" where
  "slot_ok i p \<longleftrightarrow> unat (generation p) < 8388608 \<and>
     (p_state p \<noteq> PROCESS_STATE_FREE \<longrightarrow> generation p \<noteq> 0 \<and> p_pid p = pid_encode (generation p) (of_nat i)) \<and>
     (p_state p = PROCESS_STATE_FREE \<longrightarrow> page_directory_raw p = None \<and> p_threads p = []) \<and>
     length (p_name p) = PROCESS_NAME_MAX \<and> length (image_path p) = PROCESS_PATH_MAX"

definition live :: "procs \<Rightarrow> nat set" where
  "live ps = {i. i < PROCESS_MAX \<and> p_state (process_table ps i) \<noteq> PROCESS_STATE_FREE}"

definition table_ok :: "procs \<Rightarrow> bool" where
  "table_ok ps \<longleftrightarrow> (\<forall>i < PROCESS_MAX. slot_ok i (process_table ps i)) \<and> unat (process_count ps) = card (live ps)"

text \<open>The idle thread belongs to no process.\<close>

definition proc_ok :: "procs \<Rightarrow> bool" where
  "proc_ok ps \<longleftrightarrow> table_ok ps \<and> sched_ok (psched ps) \<and>
     (\<forall>i < PROCESS_MAX. \<forall>t \<in> set (p_threads (process_table ps i)). idle_thread (psched ps) \<noteq> Some t)"

lemma live_finite [simp]: "finite (live ps)" and live_le: "card (live ps) \<le> 64"
proof -
  have sub: "live ps \<subseteq> {..<64}" by (auto simp: live_def PROCESS_MAX_def)
  then show "finite (live ps)" by (rule finite_subset) simp
  show "card (live ps) \<le> 64" using card_mono [OF _ sub] by simp
qed

lemma process_lookup_iff:
  assumes "table_ok ps"
  shows "process_lookup pid ps = Some i \<longleftrightarrow> i \<in> live ps \<and> p_pid (process_table ps i) = pid"
proof
  assume "process_lookup pid ps = Some i"
  then show "i \<in> live ps \<and> p_pid (process_table ps i) = pid"
    by (auto simp: process_lookup_def live_def Let_def split: if_splits)
next
  assume r: "i \<in> live ps \<and> p_pid (process_table ps i) = pid"
  let ?g = "generation (process_table ps i)"
  have i: "i < 64" "p_state (process_table ps i) \<noteq> PROCESS_STATE_FREE" using r by (simp_all add: live_def PROCESS_MAX_def)
  have s: "unat ?g < 8388608" "?g \<noteq> 0" "pid = pid_encode ?g (of_nat i)"
    using assms i r by (auto simp: table_ok_def slot_ok_def PROCESS_MAX_def)
  have pid: "pid = int (unat ?g * 256 + i)" unfolding s(3) by (rule pid_encode_val [OF s(1) i(1)])
  have "0 < unat ?g" using s(2) by (simp add: unat_gt_0)
  then have pos: "0 < pid" unfolding pid by (simp only: of_nat_0_less_iff)
  have "unat (word_of_int pid AND PID_SLOT_MASK) = (unat ?g * 256 + i) mod 256"
    unfolding pid by (rule pid_slot) (use s(1) i(1) in simp)
  then have "unat (word_of_int pid AND PID_SLOT_MASK) = i" using i(1) by simp
  then show "process_lookup pid ps = Some i"
    using pos i r by (simp add: process_lookup_def PROCESS_MAX_def)
qed

lemma pid_pos:
  assumes "table_ok ps" "i \<in> live ps"
  shows "0 < p_pid (process_table ps i)"
  using process_lookup_iff [OF assms(1), of "p_pid (process_table ps i)" i] assms(2)
  by (auto simp: process_lookup_def split: if_splits)

section \<open>What each step changes\<close>

lemma upd_process_simps [simp]:
  "process_table (upd_process i f ps) j = (if j = i then f (process_table ps i) else process_table ps j)"
  "process_count (upd_process i f ps) = process_count ps" "kernel_cr3 (upd_process i f ps) = kernel_cr3 ps"
  "cpu_cr0 (upd_process i f ps) = cpu_cr0 ps" "cpu_cr3 (upd_process i f ps) = cpu_cr3 ps"
  "released (upd_process i f ps) = released ps" "psched (upd_process i f ps) = psched ps"
  by (simp_all add: upd_process_def)

text \<open>Only slot \<open>i\<close> differs, and it keeps its identity.\<close>

definition only_slot :: "nat \<Rightarrow> procs \<Rightarrow> procs \<Rightarrow> bool" where
  "only_slot i ps ps' \<longleftrightarrow> (\<forall>j. j \<noteq> i \<longrightarrow> process_table ps' j = process_table ps j) \<and>
     process_count ps' = process_count ps \<and> kernel_cr3 ps' = kernel_cr3 ps \<and>
     generation (process_table ps' i) = generation (process_table ps i) \<and>
     p_pid (process_table ps' i) = p_pid (process_table ps i)"

definition release :: "nat \<Rightarrow> procs \<Rightarrow> procs" where
  "release i ps = process_release_slot i (process_free_resources i ps)"

lemma release_simps [simp]:
  "process_table (release i ps) j = (if j = i then zero_process\<lparr>generation := next_generation (generation (process_table ps i))\<rparr> else process_table ps j)"
  "process_count (release i ps) = process_count ps - 1"
  "kernel_cr3 (release i ps) = kernel_cr3 ps" "cpu_cr3 (release i ps) = cpu_cr3 ps" "psched (release i ps) = psched ps"
  by (simp_all add: release_def process_release_slot_def process_free_resources_def Let_def)

lemma next_generation_val:
  assumes "unat g < 8388608" "g \<noteq> 0"
  shows "unat (next_generation g) = unat g mod 8388607 + 1"
proof -
  have "unat (g + 1) = unat g + 1" using assms(1) by (intro unat_plus_one_u32 [THEN trans]) simp_all
  then have m: "unat ((g + 1) AND PID_GEN_MASK) = (unat g + 1) mod 8388608"
    unfolding gen_mask unat_and_mask_u32 by simp
  show ?thesis
  proof (cases "unat g = 8388607")
    case True
    then have "(g + 1) AND PID_GEN_MASK = 0" using m by (simp add: unat_eq_zero)
    then show ?thesis using True by (simp add: next_generation_def Let_def)
  next
    case False
    then have "unat g + 1 < 8388608" using assms(1) by simp
    then have "unat ((g + 1) AND PID_GEN_MASK) = unat g + 1" using m by simp
    moreover from this have "(g + 1) AND PID_GEN_MASK \<noteq> 0" by auto
    ultimately show ?thesis using \<open>unat g + 1 < 8388608\<close> by (simp add: next_generation_def Let_def)
  qed
qed

lemma next_generation_ok: "unat g < 8388608 \<Longrightarrow> g \<noteq> 0 \<Longrightarrow> unat (next_generation g) < 8388608 \<and> next_generation g \<noteq> 0"
proof -
  assume "unat g < 8388608" "g \<noteq> 0"
  then have v: "unat (next_generation g) = unat g mod 8388607 + 1" by (rule next_generation_val)
  moreover have "unat g mod 8388607 < 8388607" by simp
  ultimately show ?thesis by auto
qed

lemma next_generation_power:
  assumes "unat g < 8388608" "g \<noteq> 0"
  shows "unat ((next_generation ^^ k) g) = (unat g - 1 + k) mod 8388607 + 1 \<and> (next_generation ^^ k) g \<noteq> 0"
proof (induction k)
  case 0
  have "0 < unat g" using assms(2) by (simp add: unat_gt_0)
  then show ?case using assms by simp
next
  case (Suc k)
  let ?h = "(next_generation ^^ k) g"
  have b: "unat ?h < 8388608" using Suc mod_less_divisor [of 8388607 "unat g - 1 + k"] by simp
  then have "unat (next_generation ?h) = ((unat g - 1 + k) mod 8388607 + 1) mod 8388607 + 1"
    using next_generation_val [of ?h] Suc by simp
  also have "((unat g - 1 + k) mod 8388607 + 1) mod 8388607 = (unat g - 1 + Suc k) mod 8388607"
    by (metis Suc_eq_plus1 add_Suc_right mod_Suc_eq)
  finally show ?case using next_generation_ok [OF b] Suc by simp
qed

text \<open>A generation comes back after 8388607 releases of its slot, and no sooner.\<close>

lemma generation_distinct:
  assumes "unat g < 8388608" "g \<noteq> 0" "0 < k" "k < 8388607"
  shows "(next_generation ^^ k) g \<noteq> g"
proof
  assume "(next_generation ^^ k) g = g"
  then have e: "(unat g - 1 + k) mod 8388607 + 1 = unat g"
    using conjunct1 [OF next_generation_power [OF assms(1,2), of k]] by (simp only:)
  have u: "0 < unat g" using assms(2) by (simp add: unat_gt_0)
  have "(unat g - 1 + k) mod 8388607 = unat g - 1" using e by linarith
  also have "\<dots> = (unat g - 1) mod 8388607" using assms(1) u by (intro mod_less [symmetric]) linarith
  finally have "(unat g - 1 + k) mod 8388607 = (unat g - 1) mod 8388607" .
  then have "8388607 dvd k" by (metis add_diff_cancel_left' le_add1 mod_eq_dvd_iff_nat)
  then show False using assms(3,4) by (auto dest: dvd_imp_le)
qed

lemma generation_wraps:
  assumes "unat g < 8388608" "g \<noteq> 0"
  shows "(next_generation ^^ 8388607) g = g"
proof -
  have "0 < unat g" using assms(2) by (simp add: unat_gt_0)
  then have "(unat g - 1 + 8388607) mod 8388607 + 1 = unat g" using assms(1) by (simp only: mod_add_self2) simp
  then show ?thesis using next_generation_power [OF assms, of 8388607] by (simp only: word_unat_eq_iff)
qed

section \<open>Outcomes of CreateProcess\<close>

lemma only_slot_trans: "only_slot i a b \<Longrightarrow> only_slot i b c \<Longrightarrow> only_slot i a c"
  by (simp add: only_slot_def)

lemma only_slot_upd:
  "(\<And>p. generation (f p) = generation p \<and> p_pid (f p) = p_pid p) \<Longrightarrow>
     only_slot i ps ((upd_process i f ps)\<lparr>psched := s\<rparr>)"
  "(\<And>p. generation (f p) = generation p \<and> p_pid (f p) = p_pid p) \<Longrightarrow> only_slot i ps (upd_process i f ps)"
  by (simp_all add: only_slot_def)

lemma copy_name_length: "copy_name src buf n = Some b \<Longrightarrow> length b = length buf"
  by (induction src buf n arbitrary: b rule: copy_name.induct) (auto split: if_splits)

lemma parse_get_filename_length: "parse_get_filename p buf n = Some b \<Longrightarrow> length b = length buf"
  by (auto simp: parse_get_filename_def Let_def split: if_splits option.splits bind_splits dest: copy_name_length)

lemma address_space_create_keeps:
  "address_space_create raw k m p = Some (p', m') \<Longrightarrow> raw \<noteq> None \<and>
     (\<exists>d c. p' = p\<lparr>page_directory := d, page_directory_raw := raw, p_cr3 := c\<rparr>)"
  unfolding address_space_create_def segment_alloc_def Let_def PAGE_SIZE_def
  by (cases raw) (auto split: option.splits if_splits)

lemma reserve_slot_props:
  assumes "reserve_slot ps = Some (i, ps')" "table_ok ps"
  shows "i < PROCESS_MAX" "i \<notin> live ps" "table_ok ps'" "live ps' = insert i (live ps)"
    "j \<noteq> i \<Longrightarrow> process_table ps' j = process_table ps j"
    "process_count ps' = process_count ps + 1" "psched ps' = psched ps" "kernel_cr3 ps' = kernel_cr3 ps"
    "released ps' = released ps" "p_threads (process_table ps' i) = []"
    "page_directory_raw (process_table ps' i) = None"
    "generation (process_table ps i) \<noteq> 0 \<longrightarrow> generation (process_table ps' i) = generation (process_table ps i)"
proof -
  let ?g = "if generation (process_table ps i) = 0 then 1 else generation (process_table ps i)"
  obtain "List.find (\<lambda>i. p_state (process_table ps i) = PROCESS_STATE_FREE) [0..<PROCESS_MAX] = Some i"
    and ps': "ps' = (upd_process i (\<lambda>p. p\<lparr>generation := ?g, p_state := PROCESS_STATE_CREATING,
         p_pid := pid_encode ?g (of_nat i)\<rparr>) ps)\<lparr>process_count := process_count ps + 1\<rparr>"
    using assms(1) by (auto simp: reserve_slot_def Let_def split: option.splits)
  then have free: "i < PROCESS_MAX" "p_state (process_table ps i) = PROCESS_STATE_FREE"
    by (auto simp: find_Some_iff)
  show "i < PROCESS_MAX" by fact
  show out: "i \<notin> live ps" using free by (simp add: live_def)
  show lv: "live ps' = insert i (live ps)" using free by (auto simp: live_def ps')
  have "card (live ps') = Suc (card (live ps))" using out by (simp add: lv)
  moreover have "unat (process_count ps + 1) = unat (process_count ps) + 1"
    using assms(2) live_le [of ps] by (subst unat_plus_one_u32) (simp_all add: table_ok_def)
  moreover have "slot_ok j (process_table ps' j)" if "j < PROCESS_MAX" for j
    using assms(2) that free by (auto simp: table_ok_def slot_ok_def ps')
  ultimately show "table_ok ps'" using assms(2) by (simp add: table_ok_def ps')
  show "j \<noteq> i \<Longrightarrow> process_table ps' j = process_table ps j" "process_count ps' = process_count ps + 1"
    "psched ps' = psched ps" "kernel_cr3 ps' = kernel_cr3 ps" "released ps' = released ps"
    "p_threads (process_table ps' i) = []" "page_directory_raw (process_table ps' i) = None"
    "generation (process_table ps i) \<noteq> 0 \<longrightarrow> generation (process_table ps' i) = generation (process_table ps i)"
    using assms(2) free by (simp_all add: ps' table_ok_def slot_ok_def)
qed

lemma release_table_ok:
  assumes "table_ok ps" "i \<in> live ps" "only_slot i ps ps2"
  shows "table_ok (release i ps2)" "live (release i ps2) = live ps - {i}"
proof -
  have i: "i < PROCESS_MAX" "unat (generation (process_table ps i)) < 8388608" "generation (process_table ps i) \<noteq> 0"
    using assms by (auto simp: live_def table_ok_def slot_ok_def)
  have same: "process_table (release i ps2) j = process_table ps j" if "j \<noteq> i" for j
    using assms(3) that by (simp add: only_slot_def)
  have at: "process_table (release i ps2) i = zero_process\<lparr>generation := next_generation (generation (process_table ps i))\<rparr>"
    using assms(3) by (simp add: only_slot_def)
  show lv: "live (release i ps2) = live ps - {i}"
    unfolding live_def using same at by (auto simp: zero_process_def)
  have pos: "0 < card (live ps)" using assms(2) by (auto simp: card_gt_0_iff)
  have "unat (process_count ps - 1) = unat (process_count ps) - 1"
    using pos assms(1) by (intro unat_minus_one_u32) (auto simp: table_ok_def)
  moreover have "slot_ok j (process_table (release i ps2) j)" if "j < PROCESS_MAX" for j
  proof (cases "j = i")
    case True
    then show ?thesis unfolding True at using next_generation_ok [OF i(2,3)] by (simp add: slot_ok_def zero_process_def)
  next
    case False
    then show ?thesis using assms(1) that by (simp add: same table_ok_def del: release_simps)
  qed
  ultimately show "table_ok (release i ps2)"
    using assms lv by (simp add: table_ok_def only_slot_def card_Diff_singleton del: release_simps(1))
qed

text \<open>The block \<open>malloc\<close> returns for a new thread is in none of the scheduler's lists.\<close>

definition fresh_thread :: "grants \<Rightarrow> sched \<Rightarrow> bool" where
  "fresh_thread g s \<longleftrightarrow> (\<forall>n. new_thread g = Some n \<longrightarrow>
     n \<notin> set (thread_queue s) \<and> idle_thread s \<noteq> Some n \<and> n \<notin> set (reap_list s))"

lemma sched_ok_memory [simp]: "sched_ok (s\<lparr>memory := m\<rparr>) = sched_ok s"
  by (simp add: sched_ok_def sched_core_def)

lemma sched_ok_dead:
  assumes "sched_ok s" "idle_thread s \<noteq> Some t"
  shows "sched_ok (upd_thread t (\<lambda>th. th\<lparr>cr3 := c, state := THREAD_DEAD\<rparr>) s)"
proof -
  obtain prev i where k: "sched_core prev i s" "prev = i \<or> prev \<in> set (thread_queue s)" "idle_thread s = Some i"
    using assms(1) by (rule sched_okE)
  then have "sched_core prev i (upd_thread t (\<lambda>th. th\<lparr>cr3 := c, state := THREAD_DEAD\<rparr>) s)"
    using assms(2) by (auto simp: sched_core_def upd_thread_def prio_ok_def runnable_def)
  then show ?thesis by (rule sched_okI) (use k(2) in \<open>simp add: upd_thread_def\<close>)
qed

lemma sched_ok_cr3:
  assumes "sched_ok s"
  shows "sched_ok (upd_thread t (cr3_update f) s)"
proof -
  obtain prev i where k: "sched_core prev i s" "prev = i \<or> prev \<in> set (thread_queue s)" "idle_thread s = Some i"
    using assms by (rule sched_okE)
  then have "sched_core prev i (upd_thread t (cr3_update f) s)"
    by (auto simp: sched_core_def upd_thread_def prio_ok_def runnable_def)
  then show ?thesis by (rule sched_okI) (use k(2) in \<open>simp add: upd_thread_def\<close>)
qed

lemma thread_create_ok:
  assumes ok: "sched_ok s" and prio: "1 \<le> prio" "prio \<le> 5"
    and new: "n \<notin> set (thread_queue s)" "idle_thread s \<noteq> Some n" "n \<notin> set (reap_list s)"
    and c: "thread_create (Some n) region ea pd now entry prio s = (r, s')"
  shows "sched_ok s' \<and> idle_thread s' = idle_thread s \<and>
    (r = None \<and> region = None \<and> s' = s \<or>
     r = Some n \<and> thread_queue s' = thread_queue s @ [n] \<and> state (threads s' n) = THREAD_READY \<and>
     (\<forall>t. t \<noteq> n \<longrightarrow> threads s' t = threads s t))"
proof (cases region)
  case None
  then show ?thesis using c ok by (simp add: thread_create_def thread_setup_stack_def)
next
  case (Some rg)
  obtain t0 m where st: "thread_setup_stack (Some rg) ea entry zero_thread (memory s) = Some (t0, m)"
    by (simp add: thread_setup_stack_def Let_def)
  let ?t = "thread_init_dynamic prio now (t0\<lparr>cr3 := pd, state := THREAD_READY, priority := prio, ticks_remaining := of_nat prio\<rparr>)"
  have s': "r = Some n" "s' = s\<lparr>threads := (threads s)(n := ?t), memory := m, thread_queue := thread_queue s @ [n], freed := removeAll n (freed s)\<rparr>"
    using c st Some by (auto simp: thread_create_def Let_def)
  have po: "prio_ok ?t" using prio by (simp add: prio_ok_def thread_init_dynamic_def)
  obtain prev i where k: "sched_core prev i s" "prev = i \<or> prev \<in> set (thread_queue s)" "idle_thread s = Some i"
    using ok by (rule sched_okE)
  have "sched_core prev i s'"
    using k new po unfolding s' by (auto simp: sched_core_def thread_init_dynamic_def)
  then have "sched_ok s'" using k(2) by (intro sched_okI [of prev i]) (auto simp: s')
  then show ?thesis by (simp add: s' thread_init_dynamic_def)
qed

text \<open>How a call that reserved slot \<open>i\<close> in state \<open>ps\<close> ends.\<close>

definition created :: "grants \<Rightarrow> nat \<Rightarrow> procs \<Rightarrow> procs \<Rightarrow> bool" where
  "created g i ps ps' \<longleftrightarrow> only_slot i ps ps' \<and> released ps' = released ps \<and>
     (let p = process_table ps' i in
        p_state p = PROCESS_STATE_RUNNING \<and> page_directory_raw p = dir_raw g \<and> dir_raw g \<noteq> None \<and>
        length (p_name p) = PROCESS_NAME_MAX \<and> length (image_path p) = PROCESS_PATH_MAX \<and> thread_count p = 1 \<and>
        (\<exists>t. new_thread g = Some t \<and> p_threads p = p_threads (process_table ps i) @ [t] \<and>
             thread_queue (psched ps') = thread_queue (psched ps) @ [t] \<and>
             state (threads (psched ps') t) = THREAD_READY \<and> cr3 (threads (psched ps') t) = p_cr3 p \<and>
             seg_base (seg_stack p) = stack_base (threads (psched ps') t)))"

definition failed :: "grants \<Rightarrow> nat \<Rightarrow> int \<Rightarrow> procs \<Rightarrow> procs \<Rightarrow> bool" where
  "failed g i r ps ps' \<longleftrightarrow>
     (r = PROCESS_ERR_NO_MEMORY \<and> dir_raw g = None \<or> r = PROCESS_ERR_THREAD \<and> dir_raw g \<noteq> None) \<and>
     (\<exists>x. ps' = release i x \<and> only_slot i ps x \<and> released x = released ps) \<and>
     released ps' = (case dir_raw g of None \<Rightarrow> [] | Some a \<Rightarrow> [a]) @ released ps"

lemma create_fill_outcome:
  assumes "create_fill g path prio i ps = Some (r, ps')"
    and "length (p_name (process_table ps i)) = PROCESS_NAME_MAX" "length (image_path (process_table ps i)) = PROCESS_PATH_MAX"
    and "page_directory_raw (process_table ps i) = None"
    and ok: "sched_ok (psched ps)" "1 \<le> prio" "prio \<le> 5" "fresh_thread g (psched ps)"
  shows "sched_ok (psched ps') \<and> idle_thread (psched ps') = idle_thread (psched ps) \<and>
    (failed g i r ps ps' \<or> r = p_pid (process_table ps i) \<and> created g i ps ps')"
proof -
  let ?p = "process_table ps i"
  obtain p1 nm where p1: "strncpy (image_path ?p) path (PROCESS_PATH_MAX - 1) = Some p1"
    and nm: "parse_get_filename (Some path) (p_name ?p) PROCESS_NAME_MAX = Some nm"
    using assms(1) by (auto simp: create_fill_def split: bind_splits)
  define ps1 where "ps1 = upd_process i (\<lambda>p. p\<lparr>p_priority := prio, image_path := p1[PROCESS_PATH_MAX - 1 := 0], p_name := nm,
      entry_offset := 0, seg_code := empty_segment, seg_data := empty_segment, seg_bss := empty_segment\<rparr>) ps"
  have len: "length nm = PROCESS_NAME_MAX" "length p1 = PROCESS_PATH_MAX"
    using parse_get_filename_length [OF nm] strncpy_length [OF p1] assms(2,3) by simp_all
  have o1: "only_slot i ps ps1" unfolding ps1_def by (rule only_slot_upd) simp
  have res: "(case address_space_create (dir_raw g) (kernel_cr3 ps1) (memory (psched ps1)) (process_table ps1 i) of
             None \<Rightarrow> create_fail i PROCESS_ERR_NO_MEMORY ps1
           | Some (p, m) \<Rightarrow> create_main_thread g prio i
                 (upd_process i (\<lambda>_. p) (ps1\<lparr>psched := (psched ps1)\<lparr>memory := m\<rparr>\<rparr>))) = (r, ps')"
    using assms(1) unfolding create_fill_def p1 nm bind.bind_lunit Let_def ps1_def [symmetric] by simp
  have empties: "segment_free empty_segment = []" by (simp add: segment_free_def empty_segment_def)
  show ?thesis
  proof (cases "address_space_create (dir_raw g) (kernel_cr3 ps1) (memory (psched ps1)) (process_table ps1 i)")
    case None
    then have r: "r = PROCESS_ERR_NO_MEMORY" "ps' = release i ps1" "dir_raw g = None"
      using res by (auto simp: create_fail_def release_def address_space_create_def segment_alloc_def Let_def PAGE_SIZE_def
          split: option.splits if_splits)
    have "released ps' = released ps"
      using assms(4) by (simp add: r release_def process_release_slot_def process_free_resources_def Let_def ps1_def empties)
    moreover have "psched ps' = psched ps" by (simp add: r ps1_def)
    moreover have "released ps1 = released ps" by (simp add: ps1_def)
    ultimately show ?thesis using o1 r ok(1) by (auto simp: failed_def)
  next
    case (Some pm)
    obtain p m where pm: "pm = (p, m)" by fastforce
    obtain d c where dir: "dir_raw g \<noteq> None"
      and p: "p = (process_table ps1 i)\<lparr>page_directory := d, page_directory_raw := dir_raw g, p_cr3 := c\<rparr>"
      using address_space_create_keeps [OF Some [unfolded pm]] by blast
    define ps2 where "ps2 = upd_process i (\<lambda>_. p) (ps1\<lparr>psched := (psched ps1)\<lparr>memory := m\<rparr>\<rparr>)"
    have o2: "only_slot i ps ps2" using o1 by (simp add: only_slot_def ps2_def p)
    have tab: "process_table ps2 i = p" by (simp add: ps2_def)
    have fields: "p_name p = nm" "image_path p = p1[PROCESS_PATH_MAX - 1 := 0]" "p_threads p = p_threads ?p"
      "seg_code p = empty_segment" "seg_data p = empty_segment" "seg_bss p = empty_segment"
      "page_directory_raw p = dir_raw g" "p_pid p = p_pid ?p"
      by (simp_all add: p ps1_def)
    have rel2: "released ps2 = released ps" "kernel_cr3 ps2 = kernel_cr3 ps" by (simp_all add: ps2_def ps1_def)
    let ?s = "psched ps2"
    have s: "?s = (psched ps)\<lparr>memory := m\<rparr>" by (simp add: ps2_def ps1_def)
    have sok: "sched_ok ?s" using ok(1) by (simp add: s)
    have res2: "create_main_thread g prio i ps2 = (r, ps')" using res Some pm by (simp add: ps2_def)
    have fail: "failed g i PROCESS_ERR_THREAD ps (release i (ps2\<lparr>psched := s'\<rparr>))" for s'
    proof -
      have "released (release i (ps2\<lparr>psched := s'\<rparr>)) = (case dir_raw g of None \<Rightarrow> [] | Some a \<Rightarrow> [a]) @ released ps"
        by (simp add: release_def process_release_slot_def process_free_resources_def Let_def tab fields empties rel2)
      moreover have "only_slot i ps (ps2\<lparr>psched := s'\<rparr>)" using o2 by (simp add: only_slot_def)
      moreover have "released (ps2\<lparr>psched := s'\<rparr>) = released ps" by (simp add: rel2)
      ultimately show ?thesis using dir unfolding failed_def by blast
    qed
    have failr: "sched_ok s' \<Longrightarrow> idle_thread s' = idle_thread (psched ps) \<Longrightarrow>
        create_fail i PROCESS_ERR_THREAD (ps2\<lparr>psched := s'\<rparr>) = (r, ps') \<Longrightarrow> ?thesis" for s'
      using fail [of s'] by (auto simp: create_fail_def release_def [symmetric])
    show ?thesis
    proof (cases "new_thread g")
      case None
      then have "create_fail i PROCESS_ERR_THREAD (ps2\<lparr>psched := ?s\<rparr>) = (r, ps')"
        using res2 by (simp add: create_main_thread_def thread_create_def)
      then show ?thesis using sok by (intro failr [of ?s]) (simp_all add: s)
    next
      case (Some n)
      have new: "n \<notin> set (thread_queue ?s)" "idle_thread ?s \<noteq> Some n" "n \<notin> set (reap_list ?s)"
        using ok(4) Some by (simp_all add: fresh_thread_def s)
      obtain q s1 where c: "thread_create (Some n) (stack_region g) (exit_addr g) (vmm_dir g) (now_ms g) (entry_stub g) prio ?s = (q, s1)"
        by fastforce
      note tc = thread_create_ok [OF sok ok(2,3) new c]
      have idle: "idle_thread s1 = idle_thread (psched ps)" using tc by (simp add: s)
      show ?thesis
      proof (cases q)
        case None
        then have "create_fail i PROCESS_ERR_THREAD (ps2\<lparr>psched := s1\<rparr>) = (r, ps')"
          using res2 c Some by (simp add: create_main_thread_def)
        then show ?thesis using tc idle by (intro failr [of s1]) simp_all
      next
        case (Some t)
        then have t: "t = n" "thread_queue s1 = thread_queue (psched ps) @ [n]" "state (threads s1 n) = THREAD_READY"
          using tc by (auto simp: s)
        define s2 where "s2 = upd_thread n (cr3_update (\<lambda>_. p_cr3 p)) s1"
        have s2ok: "sched_ok s2" unfolding s2_def using tc by (intro sched_ok_cr3) simp
        have s2: "idle_thread s2 = idle_thread (psched ps)" "thread_queue s2 = thread_queue (psched ps) @ [n]"
          "state (threads s2 n) = THREAD_READY" "cr3 (threads s2 n) = p_cr3 p"
          using idle t by (simp_all add: s2_def upd_thread_def)
        show ?thesis
        proof (cases "node g")
          case True
          let ?f = "\<lambda>p. p\<lparr>p_threads := p_threads p @ [n], thread_count := 1,
              seg_stack := (seg_stack p)\<lparr>seg_base := stack_base (threads s2 n), seg_owned := False\<rparr>, p_state := PROCESS_STATE_RUNNING\<rparr>"
          have e: "r = p_pid p" "ps' = upd_process i ?f (ps2\<lparr>psched := s2\<rparr>)"
            using res2 c \<open>new_thread g = Some n\<close> \<open>q = Some t\<close> True t(1)
            by (simp_all add: create_main_thread_def tab s2_def [symmetric] Let_def)
          have "only_slot i ps ps'" using o2 unfolding e by (simp add: only_slot_def)
          then have "created g i ps ps'"
            using \<open>new_thread g = Some n\<close> s2 len dir
            by (simp add: created_def Let_def e tab fields rel2)
          then show ?thesis using s2ok s2(1) e(1) fields(8) by (simp add: e(2))
        next
          case False
          let ?s3 = "upd_thread n (\<lambda>th. th\<lparr>cr3 := kernel_cr3 ps2, state := THREAD_DEAD\<rparr>) s2"
          have "create_fail i PROCESS_ERR_THREAD (ps2\<lparr>psched := ?s3\<rparr>) = (r, ps')"
            using res2 c \<open>new_thread g = Some n\<close> \<open>q = Some t\<close> False t(1)
            by (simp add: create_main_thread_def tab s2_def [symmetric] Let_def)
          moreover have "idle_thread s2 \<noteq> Some n" using new(2) s2(1) by (simp add: s)
          ultimately show ?thesis
            using s2ok s2(1) by (intro failr [of ?s3] sched_ok_dead) (simp_all add: upd_thread_def)
        qed
      qed
    qed
  qed
qed

definition pinned :: "procs \<Rightarrow> procs" where
  "pinned ps = (if kernel_cr3 ps = 0 then ps\<lparr>kernel_cr3 := cpu_cr3 ps\<rparr> else ps)"

lemma pinned_simps [simp]:
  "process_table (pinned ps) = process_table ps" "process_count (pinned ps) = process_count ps"
  "psched (pinned ps) = psched ps" "released (pinned ps) = released ps" "live (pinned ps) = live ps"
  "table_ok (pinned ps) = table_ok ps" "proc_ok (pinned ps) = proc_ok ps"
  by (simp_all add: pinned_def live_def table_ok_def proc_ok_def)

lemma CreateProcess_cases:
  assumes "CreateProcess g path prio ps = Some (r, ps')"
  obtains (refused) "r = PROCESS_ERR_INVALID_ARG \<or> r = PROCESS_ERR_NO_PAGING" "ps' = ps"
    | (full) "r = PROCESS_ERR_NO_SLOTS" "ps' = pinned ps" "reserve_slot (pinned ps) = None"
    | (filled) i ps2 s where "reserve_slot (pinned ps) = Some (i, ps2)" "1 \<le> prio" "prio \<le> 5"
        "create_fill g s prio i ps2 = Some (r, ps')"
proof (cases path)
  case None
  then show ?thesis using assms refused by (simp add: CreateProcess_def)
next
  case (Some s)
  then obtain c cs where s: "s = c # cs" using assms by (cases s) (auto simp: CreateProcess_def)
  show ?thesis
  proof (cases "c = 0")
    case True
    then show ?thesis using assms refused Some s by (simp add: CreateProcess_def)
  next
    case False
    then obtain n where n: "strnlen (c # cs) PROCESS_PATH_MAX = Some n"
      using assms Some s by (cases "strnlen (c # cs) PROCESS_PATH_MAX") (auto simp: CreateProcess_def simp del: strnlen.simps)
    have run: "(if n \<ge> PROCESS_PATH_MAX \<or> prio < PRIORITY_IDLE \<or> prio > PRIORITY_REALTIME
            then Some (PROCESS_ERR_INVALID_ARG, ps)
            else if cpu_cr0 ps AND 0x80000000 = 0 then Some (PROCESS_ERR_NO_PAGING, ps)
            else case reserve_slot (pinned ps) of
                      None \<Rightarrow> Some (PROCESS_ERR_NO_SLOTS, pinned ps)
                    | Some (i, ps2) \<Rightarrow> create_fill g (c # cs) prio i ps2) = Some (r, ps')"
      using assms False n Some s unfolding CreateProcess_def pinned_def Let_def by (simp del: strnlen.simps)
    show ?thesis
      using run refused full filled
      by (auto simp: PRIORITY_IDLE_def PRIORITY_REALTIME_def split: if_splits option.splits prod.splits)
  qed
qed

lemma reserve_slot_None: "reserve_slot ps = None \<Longrightarrow> live ps = {..<PROCESS_MAX}"
  by (auto simp: reserve_slot_def Let_def find_None_iff live_def split: option.splits)

lemma err_codes: "PROCESS_ERR_INVALID_ARG < 0" "PROCESS_ERR_NO_SLOTS < 0" "PROCESS_ERR_NO_MEMORY < 0"
  "PROCESS_ERR_NO_PAGING < 0" "PROCESS_ERR_THREAD < 0"
  by (simp_all add: PROCESS_ERR_INVALID_ARG_def PROCESS_ERR_NO_SLOTS_def PROCESS_ERR_NO_MEMORY_def
      PROCESS_ERR_NO_PAGING_def PROCESS_ERR_THREAD_def)

text \<open>One operation moves the generation of a slot at most one step.\<close>

definition gen_step :: "procs \<Rightarrow> procs \<Rightarrow> bool" where
  "gen_step ps ps' \<longleftrightarrow> (\<forall>j < PROCESS_MAX. generation (process_table ps j) \<noteq> 0 \<longrightarrow>
     generation (process_table ps' j) = generation (process_table ps j) \<or>
     generation (process_table ps' j) = next_generation (generation (process_table ps j)))"

lemma create_process_full:
  assumes ok: "proc_ok ps" and fresh: "fresh_thread g (psched ps)"
    and run: "CreateProcess g path prio ps = Some (r, ps')"
  shows "proc_ok ps' \<and> gen_step ps ps' \<and> (\<forall>j \<in> live ps. process_table ps' j = process_table ps j) \<and>
    (if 0 < r then
       process_lookup r ps = None \<and>
       (\<exists>i t. process_lookup r ps' = Some i \<and> live ps' = insert i (live ps) \<and> i \<notin> live ps \<and>
         p_state (process_table ps' i) = PROCESS_STATE_RUNNING \<and> p_threads (process_table ps' i) = [t] \<and>
         new_thread g = Some t \<and> thread_queue (psched ps') = thread_queue (psched ps) @ [t] \<and>
         state (threads (psched ps') t) = THREAD_READY \<and>
         cr3 (threads (psched ps') t) = p_cr3 (process_table ps' i) \<and>
         page_directory_raw (process_table ps' i) = dir_raw g \<and> released ps' = released ps)
     else r < 0 \<and> live ps' = live ps \<and>
       (r = PROCESS_ERR_NO_SLOTS \<longrightarrow> card (live ps) = 64) \<and>
       (r = PROCESS_ERR_NO_MEMORY \<longrightarrow> dir_raw g = None) \<and>
       released ps' = (if r = PROCESS_ERR_THREAD then [the (dir_raw g)] else []) @ released ps)"
  using run
proof (cases rule: CreateProcess_cases)
  case refused
  then show ?thesis using ok by (auto simp: gen_step_def err_codes PROCESS_ERR_INVALID_ARG_def PROCESS_ERR_NO_PAGING_def
      PROCESS_ERR_NO_SLOTS_def PROCESS_ERR_NO_MEMORY_def PROCESS_ERR_THREAD_def)
next
  case full
  then have "card (live ps) = 64" using reserve_slot_None [OF full(3)] by (simp add: PROCESS_MAX_def)
  then show ?thesis using ok full by (simp add: gen_step_def PROCESS_ERR_NO_SLOTS_def PROCESS_ERR_NO_MEMORY_def PROCESS_ERR_THREAD_def)
next
  case (filled i ps2 s)
  have tok: "table_ok (pinned ps)" using ok by (simp add: proc_ok_def)
  note res = reserve_slot_props [OF filled(1) tok]
  have slot: "slot_ok i (process_table ps2 i)" "i \<in> live ps2" using res(1,3,4) by (simp_all add: table_ok_def)
  have out: "sched_ok (psched ps') \<and> idle_thread (psched ps') = idle_thread (psched ps2) \<and>
      (failed g i r ps2 ps' \<or> r = p_pid (process_table ps2 i) \<and> created g i ps2 ps')"
    by (rule create_fill_outcome [OF filled(4) _ _ res(11) _ filled(2,3)])
      (use slot res(7) ok fresh in \<open>simp_all add: slot_ok_def proc_ok_def\<close>)
  have idle: "idle_thread (psched ps') = idle_thread (psched ps)" using out res(7) by simp
  have keep: "process_table ps2 j = process_table ps j" if "j \<noteq> i" for j using res(5) [OF that] by simp
  have ne: "j \<noteq> i" if "j \<in> live ps" for j using that res(2) by auto
  have pid: "0 < p_pid (process_table ps2 i)" by (rule pid_pos [OF res(3) slot(2)])
  from out consider (bad) "failed g i r ps2 ps'" | (good) "r = p_pid (process_table ps2 i)" "created g i ps2 ps'" by blast
  then show ?thesis
  proof cases
    case bad
    then obtain x where x: "ps' = release i x" "only_slot i ps2 x" by (auto simp: failed_def)
    note rel = release_table_ok [OF res(3) slot(2) x(2)]
    have lv: "live ps' = live ps" using rel(2) res(2,4) unfolding x(1) by simp
    have same: "process_table ps' j = process_table ps j" if "j \<noteq> i" for j
      using keep [OF that] x that by (simp add: only_slot_def)
    have none: "p_threads (process_table ps' i) = []" by (simp add: x zero_process_def)
    have "proc_ok ps'"
      unfolding proc_ok_def
    proof (intro conjI allI impI ballI)
      show "table_ok ps'" unfolding x(1) by (rule rel)
      show "sched_ok (psched ps')" using out by simp
      fix j t
      assume "j < PROCESS_MAX" "t \<in> set (p_threads (process_table ps' j))"
      then show "idle_thread (psched ps') \<noteq> Some t"
        using ok none same idle by (cases "j = i") (auto simp: proc_ok_def)
    qed
    moreover have "\<forall>j \<in> live ps. process_table ps' j = process_table ps j" by (intro ballI same ne)
    moreover have "gen_step ps ps'"
      unfolding gen_step_def
    proof (intro allI impI)
      fix j
      assume "j < PROCESS_MAX" "generation (process_table ps j) \<noteq> 0"
      then show "generation (process_table ps' j) = generation (process_table ps j) \<or>
          generation (process_table ps' j) = next_generation (generation (process_table ps j))"
        using res(12) x same [of j] by (cases "j = i") (auto simp: only_slot_def)
    qed
    ultimately show ?thesis using bad lv res(9)
      by (auto simp: failed_def err_codes PROCESS_ERR_NO_SLOTS_def PROCESS_ERR_NO_MEMORY_def PROCESS_ERR_THREAD_def)
  next
    case good
    note c = good(2) [unfolded created_def Let_def]
    obtain t where t: "new_thread g = Some t" "p_threads (process_table ps' i) = [t]"
      "thread_queue (psched ps') = thread_queue (psched ps) @ [t]" "state (threads (psched ps') t) = THREAD_READY"
      "cr3 (threads (psched ps') t) = p_cr3 (process_table ps' i)"
      using c res(7,10) by auto
    have same: "process_table ps' j = process_table ps j" if "j \<noteq> i" for j
      using keep [OF that] c that by (simp add: only_slot_def)
    have st: "p_state (process_table ps' i) = PROCESS_STATE_RUNNING" using c by simp
    have lv: "live ps' = insert i (live ps)"
    proof (rule set_eqI)
      fix j
      show "j \<in> live ps' \<longleftrightarrow> j \<in> insert i (live ps)"
        using res(1) st same [of j] by (cases "j = i") (auto simp: live_def)
    qed
    have at: "slot_ok i (process_table ps' i)"
      using c slot st by (simp add: slot_ok_def only_slot_def live_def)
    have "slot_ok j (process_table ps' j)" if "j < PROCESS_MAX" for j
      using tok that at same [of j] by (cases "j = i") (simp_all add: table_ok_def)
    moreover have "unat (process_count ps') = card (live ps')"
      using res(3,4) c lv by (simp add: table_ok_def only_slot_def)
    ultimately have tok': "table_ok ps'" by (simp add: table_ok_def)
    have "idle_thread (psched ps) \<noteq> Some t" using fresh t(1) by (simp add: fresh_thread_def)
    have "proc_ok ps'"
      unfolding proc_ok_def
    proof (intro conjI allI impI ballI)
      show "table_ok ps'" by fact
      show "sched_ok (psched ps')" using out by simp
      fix j u
      assume "j < PROCESS_MAX" "u \<in> set (p_threads (process_table ps' j))"
      then show "idle_thread (psched ps') \<noteq> Some u"
        using ok same [of j] idle t(2) \<open>idle_thread (psched ps) \<noteq> Some t\<close>
        by (cases "j = i") (simp_all add: proc_ok_def)
    qed
    moreover have "process_lookup r ps' = Some i"
      using process_lookup_iff [OF tok'] lv c good(1) by (simp add: only_slot_def)
    moreover have "process_lookup r ps = None"
    proof (rule ccontr)
      assume "process_lookup r ps \<noteq> None"
      then obtain j where j: "j \<in> live ps" "p_pid (process_table ps j) = r"
        using process_lookup_iff [of ps r] ok by (auto simp: proc_ok_def)
      then have "j \<noteq> i" using res(2) by auto
      then have "process_lookup r ps' = Some j"
        using process_lookup_iff [OF tok', of r j] j lv same by simp
      with \<open>process_lookup r ps' = Some i\<close> \<open>j \<noteq> i\<close> show False by simp
    qed
    moreover have "\<forall>j \<in> live ps. process_table ps' j = process_table ps j" by (intro ballI same ne)
    moreover have "gen_step ps ps'"
      unfolding gen_step_def
    proof (intro allI impI)
      fix j
      assume "j < PROCESS_MAX" "generation (process_table ps j) \<noteq> 0"
      then show "generation (process_table ps' j) = generation (process_table ps j) \<or>
          generation (process_table ps' j) = next_generation (generation (process_table ps j))"
        using res(12) c same [of j] by (cases "j = i") (auto simp: only_slot_def)
    qed
    ultimately show ?thesis using pid good(1) t lv res(2,9) c by auto
  qed
qed



text \<open>An empty table over the example scheduler, and a table with one process that owns thread 3.\<close>

definition demo_procs :: procs where
  "demo_procs = \<lparr>process_table = (\<lambda>_. zero_process), process_count = 0, kernel_cr3 = 0x1000, cpu_cr0 = 0x80000001,
     cpu_cr3 = 0x1000, released = [], psched = demo_sched\<rparr>"

lemma demo_procs_simps [simp]:
  "process_table demo_procs = (\<lambda>_. zero_process)" "process_count demo_procs = 0" "kernel_cr3 demo_procs = 0x1000"
  "cpu_cr0 demo_procs = 0x80000001" "cpu_cr3 demo_procs = 0x1000" "released demo_procs = []" "psched demo_procs = demo_sched"
  by (simp_all only: demo_procs_def procs.simps)

definition demo_grants :: grants where
  "demo_grants = \<lparr>dir_raw = Some 0x9010, new_thread = Some 9, stack_region = Some 0x20000, node = True,
     exit_addr = 0x500, entry_stub = 0x600, vmm_dir = 0x1000, now_ms = 5\<rparr>"

lemma demo_grants_simps [simp]:
  "dir_raw demo_grants = Some 0x9010" "new_thread demo_grants = Some 9" "stack_region demo_grants = Some 0x20000" "node demo_grants"
  by (simp_all add: demo_grants_def)





section \<open>Outcomes of DestroyProcess\<close>

lemma kill_thread_props:
  assumes "sched_ok s" "idle_thread s \<noteq> Some t"
  shows "sched_ok (kill_thread c t s)" "ev_ok s \<Longrightarrow> ev_ok (kill_thread c t s)" "idle_thread (kill_thread c t s) = idle_thread s"
    "state (threads (kill_thread c t s) t) = THREAD_DEAD" "cr3 (threads (kill_thread c t s) t) = c"
    "wait_event (threads (kill_thread c t s) t) = None"
    "u \<noteq> t \<Longrightarrow> threads (kill_thread c t s) u = threads s u"
proof -
  let ?d = "thread_detach_from_event t s"
  have d: "idle_thread ?d = idle_thread s" "thread_queue ?d = thread_queue s" "current_thread ?d = current_thread s"
    "reap_list ?d = reap_list s" "freed ?d = freed s" "wait_event (threads ?d t) = None"
    "u \<noteq> t \<Longrightarrow> threads ?d u = threads s u" "state (threads ?d u) = state (threads s u)" "prio_ok (threads ?d u) = prio_ok (threads s u)" for u
    by (auto simp: thread_detach_from_event_def event_remove_waiter_def upd_thread_def prio_ok_def Let_def split: option.splits)
  have "sched_ok ?d"
    using assms(1) unfolding sched_ok_def sched_core_def runnable_def d .
  then show "sched_ok (kill_thread c t s)"
    unfolding kill_thread_def by (rule sched_ok_dead) (use assms(2) d in simp)
  show "ev_ok (kill_thread c t s)" if "ev_ok s"
  proof -
    have "ev_ok ?d"
      using that unfolding ev_ok_def
      by (auto simp: thread_detach_from_event_def event_remove_waiter_def upd_thread_def Let_def split: option.splits)
    then show ?thesis by (simp add: ev_ok_def kill_thread_def upd_thread_def)
  qed
  show "idle_thread (kill_thread c t s) = idle_thread s"
    "state (threads (kill_thread c t s) t) = THREAD_DEAD" "cr3 (threads (kill_thread c t s) t) = c"
    "wait_event (threads (kill_thread c t s) t) = None"
    "u \<noteq> t \<Longrightarrow> threads (kill_thread c t s) u = threads s u"
    using d by (simp_all add: kill_thread_def upd_thread_def)
qed

lemma kill_threads_props:
  "sched_ok s \<Longrightarrow> \<forall>t \<in> set ts. idle_thread s \<noteq> Some t \<Longrightarrow>
     sched_ok (fold (kill_thread c) ts s) \<and> (ev_ok s \<longrightarrow> ev_ok (fold (kill_thread c) ts s)) \<and>
     idle_thread (fold (kill_thread c) ts s) = idle_thread s \<and>
     (\<forall>t. if t \<in> set ts then state (threads (fold (kill_thread c) ts s) t) = THREAD_DEAD \<and>
            cr3 (threads (fold (kill_thread c) ts s) t) = c \<and> wait_event (threads (fold (kill_thread c) ts s) t) = None
          else threads (fold (kill_thread c) ts s) t = threads s t)"
proof (induction ts arbitrary: s rule: rev_induct)
  case (snoc t ts)
  let ?s = "fold (kill_thread c) ts s"
  have IH: "sched_ok ?s" "ev_ok s \<longrightarrow> ev_ok ?s" "idle_thread ?s = idle_thread s"
    "\<forall>t. if t \<in> set ts then state (threads ?s t) = THREAD_DEAD \<and> cr3 (threads ?s t) = c \<and> wait_event (threads ?s t) = None
          else threads ?s t = threads s t"
    using snoc by auto
  note k = kill_thread_props [OF IH(1), where t = t and c = c]
  have i: "idle_thread ?s \<noteq> Some t" using snoc.prems(2) IH(3) by simp
  have "if u \<in> set (ts @ [t]) then state (threads (kill_thread c t ?s) u) = THREAD_DEAD \<and>
      cr3 (threads (kill_thread c t ?s) u) = c \<and> wait_event (threads (kill_thread c t ?s) u) = None
    else threads (kill_thread c t ?s) u = threads s u" for u
  proof (cases "u = t")
    case True
    then show ?thesis using k(4-6) [OF i] by simp
  next
    case False
    then show ?thesis using k(7) [OF i False] spec [OF IH(4), of u] by simp
  qed
  then show ?case using k(1-3) [OF i] IH(2,3) by simp
qed simp

lemma destroy_process_full:
  assumes ok: "proc_ok ps"
    and pid: "process_lookup pid ps = Some i" "p_state (process_table ps i) = PROCESS_STATE_RUNNING"
    and run: "DestroyProcess pid ps = (returns, r, ps')"
  defines "p \<equiv> process_table ps i"
  shows "r = PROCESS_OK \<and> proc_ok ps' \<and> (ev_ok (psched ps) \<longrightarrow> ev_ok (psched ps')) \<and> live ps' = live ps - {i} \<and>
    process_lookup pid ps' = None \<and> (\<forall>j. j \<noteq> i \<longrightarrow> process_table ps' j = process_table ps j) \<and>
    generation (process_table ps' i) = next_generation (generation p) \<and>
    (\<forall>t. if t \<in> set (p_threads p) then
            state (threads (psched ps') t) = THREAD_DEAD \<and> cr3 (threads (psched ps') t) = kernel_cr3 ps \<and>
            (ev_ok (psched ps) \<longrightarrow> (\<forall>e. t \<notin> set (waiters (events (psched ps') e))))
          else threads (psched ps') t = threads (psched ps) t) \<and>
    released ps' = segment_free (seg_code p) @ segment_free (seg_data p) @ segment_free (seg_bss p)
      @ (case page_directory_raw p of None \<Rightarrow> [] | Some a \<Rightarrow> [a]) @ released ps \<and>
    returns = (cpu_cr3 ps AND PAGE_MASK \<noteq> p_cr3 p AND PAGE_MASK) \<and>
    cpu_cr3 ps' = (if returns then cpu_cr3 ps else kernel_cr3 ps)"
proof -
  have tok: "table_ok ps" using ok by (simp add: proc_ok_def)
  have i: "i \<in> live ps" "p_pid p = pid" using process_lookup_iff [OF tok, of pid i] pid(1) by (auto simp: p_def)
  define self where "self = (cpu_cr3 ps AND PAGE_MASK = p_cr3 p AND PAGE_MASK)"
  define ps1 where "ps1 = upd_process i (p_state_update (\<lambda>_. PROCESS_STATE_DYING)) ps"
  define ps2 where "ps2 = (if self then ps1\<lparr>cpu_cr3 := kernel_cr3 ps1\<rparr> else ps1)"
  define k where "k = process_kill_threads i ps2"
  have e: "returns = (\<not> self)" "r = PROCESS_OK" "ps' = release i k"
    using run pid by (auto simp: DestroyProcess_def Let_def self_def ps1_def ps2_def k_def p_def release_def)
  let ?s = "fold (kill_thread (kernel_cr3 ps)) (p_threads p) (psched ps)"
  have k: "psched k = ?s" "only_slot i ps k" "released k = released ps" "cpu_cr3 k = (if self then kernel_cr3 ps else cpu_cr3 ps)"
    by (auto simp: k_def process_kill_threads_def ps2_def ps1_def p_def only_slot_def)
  have kp: "seg_code (process_table k i) = seg_code p" "seg_data (process_table k i) = seg_data p"
    "seg_bss (process_table k i) = seg_bss p" "page_directory_raw (process_table k i) = page_directory_raw p"
    by (auto simp: k_def process_kill_threads_def ps2_def ps1_def p_def)
  have "\<forall>t \<in> set (p_threads p). idle_thread (psched ps) \<noteq> Some t"
    using ok i(1) by (auto simp: proc_ok_def live_def p_def)
  with ok have ks: "sched_ok ?s \<and> (ev_ok (psched ps) \<longrightarrow> ev_ok ?s) \<and> idle_thread ?s = idle_thread (psched ps) \<and>
     (\<forall>t. if t \<in> set (p_threads p) then state (threads ?s t) = THREAD_DEAD \<and>
            cr3 (threads ?s t) = kernel_cr3 ps \<and> wait_event (threads ?s t) = None
          else threads ?s t = threads (psched ps) t)"
    by (intro kill_threads_props) (simp_all add: proc_ok_def)
  note rel = release_table_ok [OF tok i(1) k(2)]
  have same: "process_table ps' j = process_table ps j" if "j \<noteq> i" for j
    using k(2) that by (simp add: e only_slot_def)
  have at: "p_threads (process_table ps' i) = []" by (simp add: e zero_process_def)
  have pk: "proc_ok ps'"
    unfolding proc_ok_def
  proof (intro conjI allI impI ballI)
    show "table_ok ps'" unfolding e by (rule rel)
    show "sched_ok (psched ps')" using ks k(1) by (simp add: e)
    fix j t
    assume "j < PROCESS_MAX" "t \<in> set (p_threads (process_table ps' j))"
    then show "idle_thread (psched ps') \<noteq> Some t"
      using ok at same ks k(1) by (cases "j = i") (auto simp: proc_ok_def e)
  qed
  have lk: "process_lookup pid ps' = None"
  proof (rule ccontr)
    assume "process_lookup pid ps' \<noteq> None"
    then obtain j where "j \<in> live ps'" "p_pid (process_table ps' j) = pid"
      using process_lookup_iff [of ps' pid] pk by (auto simp: proc_ok_def)
    then have j: "j \<in> live ps" "j \<noteq> i" "p_pid (process_table ps j) = pid" using rel(2) same by (auto simp: e)
    then show False using process_lookup_iff [OF tok, of pid j] pid(1) by simp
  qed
  have nowait: "t \<notin> set (waiters (events (psched ps') ev))" if "t \<in> set (p_threads p)" "ev_ok (psched ps)" for t ev
  proof -
    have "wait_event (threads ?s t) = None" "ev_ok ?s" using ks that by (simp_all split: if_splits)
    then show ?thesis using k(1) by (simp add: ev_ok_def e)
  qed
  have free: "released ps' = segment_free (seg_code p) @ segment_free (seg_data p) @ segment_free (seg_bss p)
      @ (case page_directory_raw p of None \<Rightarrow> [] | Some a \<Rightarrow> [a]) @ released ps"
    by (simp add: e release_def process_release_slot_def process_free_resources_def Let_def kp k(3))
  have gen: "generation (process_table ps' i) = next_generation (generation p)"
    using k(2) by (simp add: e only_slot_def p_def)
  show ?thesis
    using e(2) pk ks k rel(2) lk same nowait free gen
    by (auto simp: e(1,3) self_def split: if_splits)
qed

text \<open>
  C37: \<open>DestroyProcess\<close> on a RUNNING process: its identifier means nothing afterwards, its threads are
  DEAD on the kernel's directory and wait for no event, everything it allocated is freed exactly
  once, no other process or thread changes, and the invariant holds. The call does not return
  exactly when the caller runs on the directory that was freed, which is left first.
\<close>
theorem destroy_process_outcome:
  assumes ok: "proc_ok ps" "ev_ok (psched ps)"
    and pid: "process_lookup pid ps = Some i" "p_state (process_table ps i) = PROCESS_STATE_RUNNING"
    and run: "DestroyProcess pid ps = (returns, r, ps')"
  defines "p \<equiv> process_table ps i"
  shows "r = PROCESS_OK \<and> proc_ok ps' \<and> ev_ok (psched ps') \<and> live ps' = live ps - {i} \<and>
    process_lookup pid ps' = None \<and> (\<forall>j. j \<noteq> i \<longrightarrow> process_table ps' j = process_table ps j) \<and>
    generation (process_table ps' i) = next_generation (generation p) \<and>
    (\<forall>t. if t \<in> set (p_threads p) then
            state (threads (psched ps') t) = THREAD_DEAD \<and> cr3 (threads (psched ps') t) = kernel_cr3 ps \<and>
            (\<forall>e. t \<notin> set (waiters (events (psched ps') e)))
          else threads (psched ps') t = threads (psched ps) t) \<and>
    released ps' = segment_free (seg_code p) @ segment_free (seg_data p) @ segment_free (seg_bss p)
      @ (case page_directory_raw p of None \<Rightarrow> [] | Some a \<Rightarrow> [a]) @ released ps \<and>
    returns = (cpu_cr3 ps AND PAGE_MASK \<noteq> p_cr3 p AND PAGE_MASK) \<and>
    cpu_cr3 ps' = (if returns then cpu_cr3 ps else kernel_cr3 ps)"
  using destroy_process_full [OF ok(1) pid run] ok(2) unfolding p_def [symmetric] by simp

section \<open>Stale identifiers\<close>

text \<open>
  A history of the table: processes are created and destroyed, and in between the rest of the kernel
  changes the scheduler's state and the directory in use. The number counts the table operations.
\<close>

inductive proc_steps :: "nat \<Rightarrow> procs \<Rightarrow> procs \<Rightarrow> bool" where
  start: "proc_steps 0 ps ps"
| create: "proc_steps n ps p1 \<Longrightarrow> fresh_thread g (psched p1) \<Longrightarrow> CreateProcess g path prio p1 = Some (r, p2) \<Longrightarrow>
     proc_steps (Suc n) ps p2"
| destroy: "proc_steps n ps p1 \<Longrightarrow> DestroyProcess pid p1 = (ret, r, p2) \<Longrightarrow> proc_steps (Suc n) ps p2"
| elsewhere: "proc_steps n ps p1 \<Longrightarrow> sched_ok s \<Longrightarrow> idle_thread s = idle_thread (psched p1) \<Longrightarrow>
     proc_steps n ps (p1\<lparr>psched := s, cpu_cr3 := c\<rparr>)"

inductive_cases proc_steps_0E: "proc_steps 0 ps p"

lemma DestroyProcess_cases:
  assumes "DestroyProcess pid ps = (ret, r, ps')"
  obtains (missing) "r = PROCESS_ERR_NOT_FOUND" "ps' = ps"
    | (dies) i where "process_lookup pid ps = Some i" "p_state (process_table ps i) = PROCESS_STATE_RUNNING"
  using assms by (auto simp: DestroyProcess_def split: option.splits if_splits)

lemma proc_steps_inv:
  "proc_steps n ps p \<Longrightarrow> proc_ok ps \<Longrightarrow> i < PROCESS_MAX \<Longrightarrow> generation (process_table ps i) \<noteq> 0 \<Longrightarrow>
     proc_ok p \<and> (\<exists>k \<le> n. generation (process_table p i) = (next_generation ^^ k) (generation (process_table ps i)))"
proof (induction rule: proc_steps.induct)
  case (start ps)
  then show ?case by auto
next
  case (create n ps p1 g path prio r p2)
  then obtain k where p1: "proc_ok p1" and k: "k \<le> n"
    "generation (process_table p1 i) = (next_generation ^^ k) (generation (process_table ps i))" by auto
  have nz: "generation (process_table p1 i) \<noteq> 0"
    using k(2) next_generation_power [of "generation (process_table ps i)" k] create.prems by (auto simp: proc_ok_def table_ok_def slot_ok_def)
  have c: "proc_ok p2" "gen_step p1 p2" using create_process_full [OF p1 create.hyps(2,3)] by simp_all
  from c(2) nz create.prems(2) consider "generation (process_table p2 i) = generation (process_table p1 i)"
    | "generation (process_table p2 i) = next_generation (generation (process_table p1 i))" by (auto simp: gen_step_def)
  then show ?case
  proof cases
    case 1
    then show ?thesis using c(1) k by (intro conjI exI [of _ k]) simp_all
  next
    case 2
    then show ?thesis using c(1) k by (intro conjI exI [of _ "Suc k"]) simp_all
  qed
next
  case (destroy n ps p1 pid ret r p2)
  then obtain k where p1: "proc_ok p1" and k: "k \<le> n"
    "generation (process_table p1 i) = (next_generation ^^ k) (generation (process_table ps i))" by auto
  from destroy.hyps(2) show ?case
  proof (cases rule: DestroyProcess_cases)
    case missing
    then show ?thesis using p1 k by (intro conjI exI [of _ k]) simp_all
  next
    case (dies j)
    note d = destroy_process_full [OF p1 dies destroy.hyps(2)]
    show ?thesis
    proof (cases "j = i")
      case True
      then show ?thesis using d k by (intro conjI exI [of _ "Suc k"]) simp_all
    next
      case False
      then show ?thesis using d k by (intro conjI exI [of _ k]) simp_all
    qed
  qed
next
  case (elsewhere n ps p1 s c)
  then show ?case by (auto simp: proc_ok_def table_ok_def live_def)
qed

text \<open>
  C38: An identifier kept after \<open>DestroyProcess\<close> never names another process: through any further
  history of fewer than 8388606 creations and destructions (the generations of a slot, less one) no
  lookup, \<open>ProcessGetInfo\<close> or second \<open>DestroyProcess\<close> finds it, whatever processes reuse its slot.
\<close>
theorem stale_pid_dead:
  assumes ok: "proc_ok ps" and d: "DestroyProcess pid ps = (ret, PROCESS_OK, p1)"
    and later: "proc_steps n p1 p2" "n < 8388606"
  shows "process_lookup pid p2 = None \<and> ProcessGetInfo pid p2 = None \<and>
    DestroyProcess pid p2 = (True, PROCESS_ERR_NOT_FOUND, p2)"
proof -
  obtain i where i: "process_lookup pid ps = Some i" "p_state (process_table ps i) = PROCESS_STATE_RUNNING"
    using d by (cases rule: DestroyProcess_cases) (auto simp: PROCESS_OK_def PROCESS_ERR_NOT_FOUND_def)
  let ?g = "generation (process_table ps i)"
  note full = destroy_process_full [OF ok i d]
  have tok: "table_ok ps" using ok by (simp add: proc_ok_def)
  have il: "i \<in> live ps" "p_pid (process_table ps i) = pid" using process_lookup_iff [OF tok] i(1) by simp_all
  then have g: "unat ?g < 8388608" "?g \<noteq> 0" "i < 64" "pid = pid_encode ?g (of_nat i)"
    using tok by (auto simp: table_ok_def slot_ok_def live_def PROCESS_MAX_def)
  have p1: "proc_ok p1" "generation (process_table p1 i) = next_generation ?g" using full by simp_all
  have "generation (process_table p1 i) \<noteq> 0" using next_generation_ok [OF g(1,2)] p1(2) by simp
  then obtain k where p2: "proc_ok p2" and k: "k \<le> n"
    "generation (process_table p2 i) = (next_generation ^^ k) (next_generation ?g)"
    using proc_steps_inv [OF later(1) p1(1), of i] g(3) p1(2) by (auto simp: PROCESS_MAX_def)
  have gk: "generation (process_table p2 i) = (next_generation ^^ Suc k) ?g"
    unfolding k(2) funpow_Suc_right by simp
  have ne: "generation (process_table p2 i) \<noteq> ?g"
    unfolding gk by (rule generation_distinct [OF g(1,2)]) (use k(1) later(2) in simp_all)
  have lk: "process_lookup pid p2 = None"
  proof (rule ccontr)
    assume "process_lookup pid p2 \<noteq> None"
    then obtain j where j: "process_lookup pid p2 = Some j" by blast
    have tok2: "table_ok p2" using p2 by (simp add: proc_ok_def)
    have jl: "j \<in> live p2" "p_pid (process_table p2 j) = pid" using process_lookup_iff [OF tok2] j by simp_all
    then have h: "unat (generation (process_table p2 j)) < 8388608" "j < 64" "pid = pid_encode (generation (process_table p2 j)) (of_nat j)"
      using tok2 by (auto simp: table_ok_def slot_ok_def live_def PROCESS_MAX_def)
    have "unat (generation (process_table p2 j)) * 256 + j = unat ?g * 256 + i"
      using pid_encode_val [OF h(1,2)] pid_encode_val [OF g(1,3)] h(3) g(4) by (simp only: of_nat_eq_iff)
    then have "j = i" "unat (generation (process_table p2 j)) = unat ?g"
      using pid_fields_eq [OF _ h(2) g(3)] by simp_all
    then show False using ne by (simp add: word_unat_eq_iff)
  qed
  then show ?thesis by (simp add: ProcessGetInfo_def DestroyProcess_def)
qed

section \<open>A table with a live process\<close>

definition demo_process :: process where
  "demo_process = zero_process\<lparr>p_state := PROCESS_STATE_RUNNING, generation := 1, p_pid := 256,
     page_directory_raw := Some 0x9010, p_cr3 := 0xA000, p_threads := [3], thread_count := 1\<rparr>"

lemma demo_process_simps [simp]:
  "p_state demo_process = PROCESS_STATE_RUNNING" "generation demo_process = 1" "p_pid demo_process = 256"
  "page_directory_raw demo_process = Some 0x9010" "p_cr3 demo_process = 0xA000" "p_threads demo_process = [3]"
  "seg_code demo_process = empty_segment" "seg_data demo_process = empty_segment" "seg_bss demo_process = empty_segment"
  "length (p_name demo_process) = PROCESS_NAME_MAX" "length (image_path demo_process) = PROCESS_PATH_MAX"
  by (simp_all add: demo_process_def zero_process_def)

definition demo_running :: procs where
  "demo_running = demo_procs\<lparr>process_table := (\<lambda>_. zero_process)(0 := demo_process), process_count := 1\<rparr>"

lemma demo_running_simps [simp]:
  "process_table demo_running = (\<lambda>_. zero_process)(0 := demo_process)" "process_count demo_running = 1"
  "kernel_cr3 demo_running = 0x1000" "cpu_cr3 demo_running = 0x1000" "released demo_running = []" "psched demo_running = demo_sched"
  by (simp_all add: demo_running_def)

lemma demo_running_live: "live demo_running = {0}"
  by (auto simp: live_def zero_process_def PROCESS_MAX_def)

lemma demo_running_ok: "proc_ok demo_running"
proof -
  have "slot_ok j (process_table demo_running j)" for j
    using pid_encode_val [of 1 0] by (auto simp: slot_ok_def) (simp_all add: zero_process_def)
  then show ?thesis using demo_ok by (auto simp: proc_ok_def table_ok_def demo_running_live) (simp add: zero_process_def)
qed

lemma demo_running_lookup: "process_lookup 256 demo_running = Some 0"
  using process_lookup_iff [of demo_running 256 0] demo_running_ok by (simp add: proc_ok_def demo_running_live)

lemma demo_destroy: "\<exists>ps'. DestroyProcess 256 demo_running = (True, PROCESS_OK, ps')"
  by (simp add: DestroyProcess_def demo_running_lookup Let_def PAGE_MASK_def PAGE_SIZE_def)

theorem destroy_process_outcome_witness:
  "\<exists>ps'. DestroyProcess 256 demo_running = (True, PROCESS_OK, ps') \<and> proc_ok ps' \<and>
     process_lookup 256 ps' = None \<and> state (threads (psched ps') 3) = THREAD_DEAD \<and> released ps' = [0x9010]"
proof -
  obtain ps' where d: "DestroyProcess 256 demo_running = (True, PROCESS_OK, ps')" using demo_destroy by blast
  have ev: "ev_ok (psched demo_running)" by (auto simp: ev_ok_def zero_thread_def demo_thread_def)
  have "p_state (process_table demo_running 0) = PROCESS_STATE_RUNNING" by simp
  from destroy_process_outcome [OF demo_running_ok ev demo_running_lookup this d] d show ?thesis
    by (auto simp: segment_free_def empty_segment_def)
qed

theorem stale_pid_dead_witness:
  "\<exists>p1. DestroyProcess 256 demo_running = (True, PROCESS_OK, p1) \<and> process_lookup 256 p1 = None \<and>
     DestroyProcess 256 p1 = (True, PROCESS_ERR_NOT_FOUND, p1)"
proof -
  obtain p1 where d: "DestroyProcess 256 demo_running = (True, PROCESS_OK, p1)" using demo_destroy by blast
  show ?thesis using stale_pid_dead [OF demo_running_ok d proc_steps.start] d by auto
qed

end
