(* ===== verification/FsFile.thy ===== *)
theory FsFile
  imports FsDeviceInv CString
begin

text \<open>
  Files of the block file system, \<open>kernel/fs/basefs/file.c\<close>. A file is an allocation that holds a header
  (\<open>struct FSFileHeader\<close>) and the head of a chain of extents, each an allocation of its own with a
  link and its share of the data.

  Nothing on the disk bounds the length of a chain, so the walks are \<open>partial_function (option)\<close>: \<open>None\<close>
  is a walk that never ends (a cyclic chain). It is also the result where the code uses a local
  structure it has failed to read. A \<open>FileHandle*\<close> argument is a handle, not NULL.
\<close>

section \<open>On-disk structures\<close>

record fs_block_header =
  bh_name :: "u8 list"
  bh_attributes :: u8
  bh_permissions :: u8
  bh_padding :: "u8 list"
  bh_security :: u32
  bh_certificate :: u32

record fs_file_header =
  fh_block :: fs_block_header
  fh_size :: u32
  fh_next :: u32
  fh_prev :: u32

record fs_file_extent =
  fe_next :: u32
  fe_prev :: u32
  fe_size :: u32

definition FS_NAME_LENGTH_MAX :: nat where "FS_NAME_LENGTH_MAX = 16"

text \<open>\<open>sizeof\<close> of \<open>struct FSFileHeader\<close> and \<open>struct FSFileExtent\<close>\<close>

definition FILE_HEADER :: u32 where "FILE_HEADER = 44"
definition FILE_EXTENT :: u32 where "FILE_EXTENT = 12"

definition block_header_bytes :: "fs_block_header \<Rightarrow> u8 list" where
  "block_header_bytes b = bh_name b @ [bh_attributes b, bh_permissions b] @ bh_padding b
     @ word_le 4 (bh_security b) @ word_le 4 (bh_certificate b)"

definition bytes_block_header :: "u8 list \<Rightarrow> fs_block_header" where
  "bytes_block_header bs = \<lparr>bh_name = take 16 bs, bh_attributes = bs ! 16, bh_permissions = bs ! 17,
     bh_padding = take 6 (drop 18 bs), bh_security = le_word (take 4 (drop 24 bs)),
     bh_certificate = le_word (take 4 (drop 28 bs))\<rparr>"

definition file_header_bytes :: "fs_file_header \<Rightarrow> u8 list" where
  "file_header_bytes h = block_header_bytes (fh_block h) @ word_le 4 (fh_size h)
     @ word_le 4 (fh_next h) @ word_le 4 (fh_prev h)"

definition bytes_file_header :: "u8 list \<Rightarrow> fs_file_header" where
  "bytes_file_header bs = \<lparr>fh_block = bytes_block_header (take 32 bs), fh_size = le_word (take 4 (drop 32 bs)),
     fh_next = le_word (take 4 (drop 36 bs)), fh_prev = le_word (take 4 (drop 40 bs))\<rparr>"

definition file_extent_bytes :: "fs_file_extent \<Rightarrow> u8 list" where
  "file_extent_bytes e = word_le 4 (fe_next e) @ word_le 4 (fe_prev e) @ word_le 4 (fe_size e)"

definition bytes_file_extent :: "u8 list \<Rightarrow> fs_file_extent" where
  "bytes_file_extent bs = \<lparr>fe_next = le_word (take 4 bs), fe_prev = le_word (take 4 (drop 4 bs)),
     fe_size = le_word (take 4 (drop 8 bs))\<rparr>"

definition file_header_read :: "u32 \<Rightarrow> fsdev \<Rightarrow> fs_file_header \<times> fsdev" where
  "file_header_read a s = (let (bs, s1) = fs_mem_read a 44 s in (bytes_file_header bs, s1))"

definition file_header_write :: "u32 \<Rightarrow> fs_file_header \<Rightarrow> fsdev \<Rightarrow> fsdev" where
  "file_header_write a h s = fs_mem_write a (file_header_bytes h) s"

section \<open>Headers, names and attributes\<close>

definition fs_file_check :: "u32 \<Rightarrow> fsdev \<Rightarrow> bool \<times> fsdev" where
  "fs_file_check address s =
     (if address = FS_NULL then (False, s)
      else let (hdr, s1) = fs_mem_read (address - ALLOC_HEADER) 4 s
           in if le_word hdr < FILE_HEADER then (False, s1)
              else let (h, s2) = file_header_read address s1
                   in if bh_attributes (fh_block h) AND FS_ATTRIBUTE_DIRECTORY \<noteq> 0 then (False, s2) else (True, s2))"

definition fs_file_extent_read :: "u32 \<Rightarrow> fsdev \<Rightarrow> fs_file_extent option \<times> fsdev" where
  "fs_file_extent_read a s =
     (if a = FS_NULL then (None, s)
      else let (hdr, s1) = fs_mem_read (a - ALLOC_HEADER) 4 s
           in if le_word hdr < FILE_EXTENT then (None, s1)
              else let (bs, s2) = fs_mem_read a 12 s1 in (Some (bytes_file_extent bs), s2))"

definition fs_file_extent_write :: "u32 \<Rightarrow> fs_file_extent \<Rightarrow> fsdev \<Rightarrow> fsdev" where
  "fs_file_extent_write a e s = fs_mem_write a (file_extent_bytes e) s"

definition fs_file_get_size :: "u32 \<Rightarrow> fsdev \<Rightarrow> u32 \<times> fsdev" where
  "fs_file_get_size address s =
     (let (ok, s1) = fs_file_check address s
      in if \<not> ok then (0, s1) else let (h, s2) = file_header_read address s1 in (fh_size h, s2))"

text \<open>The name copied out: up to 15 characters, always with a terminator.\<close>

definition fs_file_get_name :: "u32 \<Rightarrow> fsdev \<Rightarrow> u8 list option \<times> fsdev" where
  "fs_file_get_name address s =
     (if address = FS_NULL then (None, s)
      else let (bs, s1) = fs_mem_read address 32 s; b = bytes_block_header bs
           in (Some (takeWhile (\<lambda>c. c \<noteq> 0) (take (FS_NAME_LENGTH_MAX - 1) (bh_name b)) @ [0]), s1))"

definition FS_PERMISSION_READ :: u8 where "FS_PERMISSION_READ = 2"
definition FS_PERMISSION_WRITE :: u8 where "FS_PERMISSION_WRITE = 4"

text \<open>\<open>filename\<close> is \<open>None\<close> for NULL; the outer option is \<open>None\<close> where it is no C string.\<close>

definition fs_file_set_name :: "u32 \<Rightarrow> u8 list option \<Rightarrow> fsdev \<Rightarrow> (bool \<times> fsdev) option" where
  "fs_file_set_name address filename s =
     (case filename of
        None \<Rightarrow> Some (False, s)
      | Some nm \<Rightarrow>
          if address = FS_NULL then Some (False, s)
          else do {
            len \<leftarrow> strnlen nm FS_NAME_LENGTH_MAX;
            if len = 0 \<or> len > FS_NAME_LENGTH_MAX - 1 then Some (False, s)
            else let (h, s1) = file_header_read address s
                 in if bh_permissions (fh_block h) AND FS_PERMISSION_WRITE = 0 then Some (False, s1)
                    else Some (True, file_header_write address
                           (h\<lparr>fh_block := (fh_block h)\<lparr>bh_name := take len nm @ replicate (16 - len) 0\<rparr>\<rparr>) s1)
          })"

definition fs_file_get_permissions :: "u32 \<Rightarrow> fsdev \<Rightarrow> u8 \<times> fsdev" where
  "fs_file_get_permissions address s = (let (h, s1) = file_header_read address s in (bh_permissions (fh_block h), s1))"

definition fs_file_set_permissions :: "u32 \<Rightarrow> u8 \<Rightarrow> fsdev \<Rightarrow> fsdev" where
  "fs_file_set_permissions address p s =
     (let (h, s1) = file_header_read address s
      in file_header_write address (h\<lparr>fh_block := (fh_block h)\<lparr>bh_permissions := p\<rparr>\<rparr>) s1)"

definition fs_file_get_attributes :: "u32 \<Rightarrow> fsdev \<Rightarrow> u8 \<times> fsdev" where
  "fs_file_get_attributes address s = (let (h, s1) = file_header_read address s in (bh_attributes (fh_block h), s1))"

definition fs_file_set_attributes :: "u32 \<Rightarrow> u8 \<Rightarrow> fsdev \<Rightarrow> fsdev" where
  "fs_file_set_attributes address p s =
     (let (h, s1) = file_header_read address s
      in file_header_write address (h\<lparr>fh_block := (fh_block h)\<lparr>bh_attributes := p\<rparr>\<rparr>) s1)"

section \<open>Freeing chains\<close>

text \<open>The loop of \<open>fs_file_delete\<close>, which stops at an address that is no extent.\<close>

partial_function (option) delete_loop :: "u32 \<Rightarrow> fsdev \<Rightarrow> fsdev option" where
  "delete_loop a s =
     (if a = FS_NULL then Some s
      else let es = fs_file_extent_read a s
           in case fst es of
                None \<Rightarrow> Some (snd es)
              | Some ext \<Rightarrow> delete_loop (fe_next ext) (fs_free a (snd es)))"

definition fs_file_delete :: "u32 \<Rightarrow> fsdev \<Rightarrow> (bool \<times> fsdev) option" where
  "fs_file_delete address s =
     (let (ok, s1) = fs_file_check address s
      in if \<not> ok then Some (False, s1)
         else let (h, s2) = file_header_read address s1
              in do { s3 \<leftarrow> delete_loop (fh_next h) s2; Some (True, fs_free address s3) })"

text \<open>The freeing loops of \<open>fs_file_resize\<close>: here an unreadable extent leaves \<open>f_ext\<close> uninitialised.\<close>

partial_function (option) free_chain :: "u32 \<Rightarrow> fsdev \<Rightarrow> fsdev option" where
  "free_chain a s =
     (if a = FS_NULL then Some s
      else let es = fs_file_extent_read a s
           in case fst es of
                None \<Rightarrow> None
              | Some ext \<Rightarrow> free_chain (fe_next ext) (fs_free a (snd es)))"

section \<open>Resizing\<close>

text \<open>
  The shrinking loop of \<open>fs_file_resize\<close>: it ends with the header it will write (only \<open>extent.next\<close> may
  have changed) and the device. \<open>accumulated\<close> is what the extents before \<open>current\<close> hold.
\<close>

partial_function (option) shrink_loop ::
    "u32 \<Rightarrow> u32 \<Rightarrow> u32 \<Rightarrow> u32 \<Rightarrow> bool \<Rightarrow> fs_file_header \<Rightarrow> fsdev \<Rightarrow> (fs_file_header \<times> fsdev) option" where
  "shrink_loop new_size current prev accumulated is_first file s =
     (if current = FS_NULL then Some (file, s)
      else let es = fs_file_extent_read current s; s1 = snd es
           in case fst es of
                None \<Rightarrow> Some (file, s1)
              | Some ext \<Rightarrow>
                  if accumulated + fe_size ext > new_size
                  then let keep_bytes = new_size - accumulated
                       in if keep_bytes = 0
                          then if is_first
                               then do { s2 \<leftarrow> free_chain current s1; Some (file\<lparr>fh_next := FS_NULL\<rparr>, s2) }
                               else let ps = fs_file_extent_read prev s1
                                    in (case fst ps of
                                          None \<Rightarrow> None
                                        | Some p_ext \<Rightarrow> do {
                                            s3 \<leftarrow> free_chain current
                                                   (fs_file_extent_write prev (p_ext\<lparr>fe_next := FS_NULL\<rparr>) (snd ps));
                                            Some (file, s3) })
                          else do {
                            s2 \<leftarrow> free_chain (fe_next ext)
                                   (fs_file_extent_write current (ext\<lparr>fe_size := keep_bytes, fe_next := FS_NULL\<rparr>) s1);
                            Some (file, s2) }
                  else shrink_loop new_size (fe_next ext) current (accumulated + fe_size ext) False file s1)"

text \<open>
  The walk to the end of the chain: \<open>Inl s\<close> is the early \<open>return false\<close>, \<open>Inr\<close> the address of the tail and
  its contents, \<open>None\<close> for an empty chain.
\<close>

partial_function (option) tail_loop ::
    "u32 \<Rightarrow> (u32 \<times> fs_file_extent) option \<Rightarrow> fsdev \<Rightarrow> (fsdev + (u32 \<times> fs_file_extent) option \<times> fsdev) option" where
  "tail_loop current tail s =
     (if current = FS_NULL then Some (Inr (tail, s))
      else let es = fs_file_extent_read current s
           in case fst es of
                None \<Rightarrow> Some (Inl (snd es))
              | Some ext \<Rightarrow> tail_loop (fe_next ext) (Some (current, ext)) (snd es))"

function zero_fill :: "u32 \<Rightarrow> nat \<Rightarrow> fsdev \<Rightarrow> fsdev" where
  "zero_fill write_ptr zero_remains s =
     (if 0 < zero_remains
      then let z_chunk = min 16 zero_remains
           in zero_fill (write_ptr + of_nat z_chunk) (zero_remains - z_chunk)
                (fs_mem_write write_ptr (replicate z_chunk 0) s)
      else s)"
  by auto
termination
  by (relation "measure (\<lambda>(p, n, s). n)") (auto simp: Let_def)

declare zero_fill.simps [simp del]

text \<open>The size of the next extent: whole sectors leave room for the two headers.\<close>

definition chunk_for :: "u32 \<Rightarrow> u32 \<Rightarrow> u32" where
  "chunk_for growth_needed ssize =
     (let chunk = (if growth_needed > 4096 then 4096 else growth_needed)
      in if chunk \<ge> ALLOC_HEADER + FILE_EXTENT \<and> chunk mod ssize = 0 then chunk - (ALLOC_HEADER + FILE_EXTENT) else chunk)"

text \<open>One round of growth: the new extent and its predecessor; \<open>file\<close> is only changed in memory.\<close>

definition grow_step :: "u32 \<Rightarrow> u32 \<Rightarrow> (u32 \<times> fs_file_extent) option \<Rightarrow> fs_file_header \<Rightarrow> fsdev
    \<Rightarrow> ((u32 \<times> fs_file_extent) \<times> fs_file_header) option \<times> fsdev" where
  "grow_step address chunk tail file s =
     (let (a, s1) = fs_alloc (FILE_EXTENT + chunk) s
      in if a = FS_NULL then (None, s1)
         else let new_ext = \<lparr>fe_next = FS_NULL, fe_prev = (case tail of None \<Rightarrow> address | Some (t, _) \<Rightarrow> t), fe_size = chunk\<rparr>;
                  s2 = fs_file_extent_write a new_ext s1;
                  s3 = zero_fill (a + FILE_EXTENT) (unat chunk) s2
              in case tail of
                   None \<Rightarrow> (Some ((a, new_ext), file\<lparr>fh_next := a\<rparr>), s3)
                 | Some (t, t_ext) \<Rightarrow> (Some ((a, new_ext), file), fs_file_extent_write t (t_ext\<lparr>fe_next := a\<rparr>) s3))"

partial_function (option) grow_loop ::
    "u32 \<Rightarrow> u32 \<Rightarrow> (u32 \<times> fs_file_extent) option \<Rightarrow> fs_file_header \<Rightarrow> fsdev \<Rightarrow> (fs_file_header option \<times> fsdev) option" where
  "grow_loop address growth_needed tail file s =
     (if growth_needed > 0
      then let chunk = chunk_for growth_needed (sector_size s); gs = grow_step address chunk tail file s
           in case fst gs of
                None \<Rightarrow> Some (None, snd gs)
              | Some (tail', file') \<Rightarrow> grow_loop address (growth_needed - chunk) (Some tail') file' (snd gs)
      else Some (Some file, s))"

definition fs_file_resize :: "u32 \<Rightarrow> u32 \<Rightarrow> fsdev \<Rightarrow> (bool \<times> fsdev) option" where
  "fs_file_resize address new_size s =
     (let (ok, s1) = fs_file_check address s
      in if \<not> ok then Some (False, s1)
         else let (file, s2) = file_header_read address s1
              in if fh_size file = new_size then Some (True, s2)
                 else if new_size < fh_size file
                 then do {
                   (file', s3) \<leftarrow> shrink_loop new_size (fh_next file) address 0 True file s2;
                   Some (True, file_header_write address (file'\<lparr>fh_size := new_size\<rparr>) s3)
                 }
                 else do {
                   r \<leftarrow> tail_loop (fh_next file) None s2;
                   case r of
                     Inl s3 \<Rightarrow> Some (False, s3)
                   | Inr (tail, s3) \<Rightarrow> do {
                       (f, s4) \<leftarrow> grow_loop address (new_size - fh_size file) tail file s3;
                       case f of
                         None \<Rightarrow> Some (False, s4)
                       | Some file' \<Rightarrow> Some (True, file_header_write address (file'\<lparr>fh_size := new_size\<rparr>) s4)
                     }
                 })"

section \<open>Handles\<close>

record file_handle =
  f_address :: u32
  f_position :: u32
  f_mode :: u8
  f_open :: bool
  f_ctx :: bool

definition FS_FILE_MODE_READ :: u8 where "FS_FILE_MODE_READ = 1"
definition FS_FILE_MODE_WRITE :: u8 where "FS_FILE_MODE_WRITE = 2"
definition FS_FILE_MODE_APPEND :: u8 where "FS_FILE_MODE_APPEND = 4"

definition zero_handle :: file_handle where
  "zero_handle = \<lparr>f_address = 0, f_position = 0, f_mode = 0, f_open = False, f_ctx = False\<rparr>"

definition fs_file_struct_is_valid :: "file_handle \<Rightarrow> fsdev \<Rightarrow> bool \<times> fsdev" where
  "fs_file_struct_is_valid f s =
     (if \<not> f_ctx f \<or> \<not> f_open f then (False, s) else fs_file_check (f_address f) s)"

definition fs_file_open :: "u32 \<Rightarrow> u8 \<Rightarrow> fsdev \<Rightarrow> bool \<times> file_handle \<times> fsdev" where
  "fs_file_open address mode s =
     (let (ok, s1) = fs_file_check address s
      in if \<not> ok then (False, zero_handle, s1)
         else let (h, s2) = file_header_read address s1; perm = bh_permissions (fh_block h)
              in if mode AND FS_FILE_MODE_READ \<noteq> 0 \<and> perm AND FS_PERMISSION_READ = 0 then (False, zero_handle, s2)
                 else if mode AND FS_FILE_MODE_WRITE \<noteq> 0 \<and> perm AND FS_PERMISSION_WRITE = 0 then (False, zero_handle, s2)
                 else let f = \<lparr>f_address = address, f_position = 0, f_mode = mode, f_open = True, f_ctx = True\<rparr>
                      in if mode AND FS_FILE_MODE_APPEND \<noteq> 0
                         then let (sz, s3) = fs_file_get_size address s2 in (True, f\<lparr>f_position := sz\<rparr>, s3)
                         else (True, f, s2))"

definition fs_file_close :: "file_handle \<Rightarrow> file_handle" where
  "fs_file_close f = \<lparr>f_address = FS_NULL, f_position = 0, f_mode = 0, f_open = False, f_ctx = False\<rparr>"

partial_function (option) read_loop ::
    "u32 \<Rightarrow> u32 \<Rightarrow> u32 \<Rightarrow> u32 \<Rightarrow> u8 list \<Rightarrow> fsdev \<Rightarrow> (u32 \<times> u8 list \<times> fsdev) option" where
  "read_loop current read_offset remaining boundary out s =
     (if current \<noteq> FS_NULL \<and> remaining > 0
      then let es = fs_file_extent_read current s
           in case fst es of
                None \<Rightarrow> Some (remaining, out, snd es)
              | Some ext \<Rightarrow>
                  if read_offset \<ge> boundary \<and> read_offset < boundary + fe_size ext
                  then let internal = read_offset - boundary;
                           available = fe_size ext - internal;
                           chunk = (if remaining > available then available else remaining);
                           bs = fs_mem_read (current + FILE_EXTENT + internal) (unat chunk) (snd es)
                       in read_loop (fe_next ext) (read_offset + chunk) (remaining - chunk)
                            (boundary + fe_size ext) (out @ fst bs) (snd bs)
                  else read_loop (fe_next ext) read_offset remaining (boundary + fe_size ext) out (snd es)
      else Some (remaining, out, s))"

text \<open>The number of bytes read, the bytes stored at \<open>destination\<close>, the handle and the device.\<close>

definition fs_file_read :: "file_handle \<Rightarrow> u32 \<Rightarrow> fsdev \<Rightarrow> (u32 \<times> u8 list \<times> file_handle \<times> fsdev) option" where
  "fs_file_read f sz s =
     (let (ok, s1) = fs_file_struct_is_valid f s
      in if \<not> ok \<or> f_mode f AND FS_FILE_MODE_READ = 0 \<or> sz = 0 then Some (0, [], f, s1)
         else let (file_size, s2) = fs_file_get_size (f_address f) s1
              in if f_position f \<ge> file_size then Some (0, [], f, s2)
                 else let todo = (if f_position f + sz > file_size then file_size - f_position f else sz);
                          (h, s3) = file_header_read (f_address f) s2
                      in do {
                        (remaining, out, s4) \<leftarrow> read_loop (fh_next h) (f_position f) todo 0 [] s3;
                        Some (todo - remaining, out, f\<lparr>f_position := f_position f + (todo - remaining)\<rparr>, s4)
                      })"

partial_function (option) write_loop ::
    "u32 \<Rightarrow> u32 \<Rightarrow> u8 list \<Rightarrow> u32 \<Rightarrow> u32 \<Rightarrow> fsdev \<Rightarrow> (u32 \<times> fsdev) option" where
  "write_loop current write_offset source remaining boundary s =
     (if current \<noteq> FS_NULL \<and> remaining > 0
      then let es = fs_file_extent_read current s
           in case fst es of
                None \<Rightarrow> Some (remaining, snd es)
              | Some ext \<Rightarrow>
                  if write_offset \<ge> boundary \<and> write_offset < boundary + fe_size ext
                  then let internal = write_offset - boundary;
                           available = fe_size ext - internal;
                           chunk = (if remaining > available then available else remaining)
                       in if unat chunk > length source then None
                          else write_loop (fe_next ext) (write_offset + chunk) (drop (unat chunk) source) (remaining - chunk)
                                 (boundary + fe_size ext)
                                 (fs_mem_write (current + FILE_EXTENT + internal) (take (unat chunk) source) (snd es))
                  else write_loop (fe_next ext) write_offset source remaining (boundary + fe_size ext) (snd es)
      else Some (remaining, s))"

definition fs_file_write :: "file_handle \<Rightarrow> u8 list \<Rightarrow> u32 \<Rightarrow> fsdev \<Rightarrow> (u32 \<times> file_handle \<times> fsdev) option" where
  "fs_file_write f source sz s =
     (let (ok, s1) = fs_file_struct_is_valid f s
      in if \<not> ok \<or> f_mode f AND FS_FILE_MODE_WRITE = 0 \<or> sz = 0 then Some (0, f, s1)
         else let (file_size, s2) = fs_file_get_size (f_address f) s1
              in do {
                (fits, s3) \<leftarrow> (if f_position f + sz > file_size
                             then fs_file_resize (f_address f) (f_position f + sz) s2 else Some (True, s2));
                if \<not> fits then Some (0, f, s3)
                else let (h, s4) = file_header_read (f_address f) s3
                     in do {
                       (remaining, s5) \<leftarrow> write_loop (fh_next h) (f_position f) source sz 0 s4;
                       Some (sz - remaining, f\<lparr>f_position := f_position f + (sz - remaining)\<rparr>, s5)
                     }
              })"

definition fs_file_seek :: "file_handle \<Rightarrow> u32 \<Rightarrow> fsdev \<Rightarrow> u32 \<times> file_handle \<times> fsdev" where
  "fs_file_seek f position s =
     (let (ok, s1) = fs_file_struct_is_valid f s
      in if \<not> ok then (FS_NULL, f, s1)
         else let (file_size, s2) = fs_file_get_size (f_address f) s1;
                  p = (if position > file_size then file_size else position)
              in (p, f\<lparr>f_position := p\<rparr>, s2))"

definition fs_file_tell :: "file_handle \<Rightarrow> u32" where
  "fs_file_tell f = (if \<not> f_open f then FS_NULL else f_position f)"

definition fs_file_get_address :: "file_handle \<Rightarrow> u32" where
  "fs_file_get_address f = (if \<not> f_open f then FS_NULL else f_address f)"

end
