(* ===== verification/FsDirectory.thy ===== *)
theory FsDirectory
  imports FsFile
begin

text \<open>
  Directories of the block file system, \<open>kernel/fs/basefs/directory.c\<close>, with the creation of files from
  \<open>file.c\<close> and the security fields of \<open>cryptography.c\<close>. A directory is an allocation with a header and the
  addresses of its entries; when these outgrow it, further entries go to a chain of extents. Every walk
  along the chain is bounded by a guard, so all loops here are structural.
\<close>

section \<open>On-disk structures\<close>

record fs_dir_header =
  dh_block :: fs_block_header
  dh_parent :: u32
  dh_next :: u32
  dh_prev :: u32
  dh_count :: u32

record fs_dir_extent =
  de_next :: u32
  de_prev :: u32
  de_count :: u32

text \<open>\<open>sizeof\<close> of \<open>struct FSDirectoryHeader\<close> and \<open>struct FSDirectoryExtent\<close>\<close>

definition DIR_HEADER :: u32 where "DIR_HEADER = 48"
definition DIR_EXTENT :: u32 where "DIR_EXTENT = 12"

definition dir_header_bytes :: "fs_dir_header \<Rightarrow> u8 list" where
  "dir_header_bytes d = block_header_bytes (dh_block d) @ word_le 4 (dh_parent d) @ word_le 4 (dh_next d)
     @ word_le 4 (dh_prev d) @ word_le 4 (dh_count d)"

definition bytes_dir_header :: "u8 list \<Rightarrow> fs_dir_header" where
  "bytes_dir_header bs = \<lparr>dh_block = bytes_block_header (take 32 bs), dh_parent = le_word (take 4 (drop 32 bs)),
     dh_next = le_word (take 4 (drop 36 bs)), dh_prev = le_word (take 4 (drop 40 bs)),
     dh_count = le_word (take 4 (drop 44 bs))\<rparr>"

definition dir_extent_bytes :: "fs_dir_extent \<Rightarrow> u8 list" where
  "dir_extent_bytes e = word_le 4 (de_next e) @ word_le 4 (de_prev e) @ word_le 4 (de_count e)"

definition bytes_dir_extent :: "u8 list \<Rightarrow> fs_dir_extent" where
  "bytes_dir_extent bs = \<lparr>de_next = le_word (take 4 bs), de_prev = le_word (take 4 (drop 4 bs)),
     de_count = le_word (take 4 (drop 8 bs))\<rparr>"

section \<open>Reading and writing headers\<close>

text \<open>The size recorded for an allocation, if there is one.\<close>

definition fs_file_alloc_header_read :: "u32 \<Rightarrow> fsdev \<Rightarrow> u32 option \<times> fsdev" where
  "fs_file_alloc_header_read payload_address s =
     (if payload_address = FS_NULL \<or> payload_address < ALLOC_HEADER then (None, s)
      else let (bs, s1) = fs_mem_read (payload_address - ALLOC_HEADER) 4 s; sz = le_word bs
           in if sz = 0 then (None, s1) else (Some sz, s1))"

definition fs_directory_walk_limit :: "fsdev \<Rightarrow> u32" where
  "fs_directory_walk_limit s = (if block_count s \<noteq> 0 then block_count s else 0xFFFF)"

definition fs_directory_header_max_refs :: "u32 \<Rightarrow> fsdev \<Rightarrow> u32 \<times> fsdev" where
  "fs_directory_header_max_refs a s =
     (case fs_file_alloc_header_read a s of
        (None, s1) \<Rightarrow> (0, s1)
      | (Some sz, s1) \<Rightarrow> (if sz \<le> DIR_HEADER then 0 else (sz - DIR_HEADER) div 4, s1))"

definition fs_directory_extent_max_refs :: "u32 \<Rightarrow> fsdev \<Rightarrow> u32 \<times> fsdev" where
  "fs_directory_extent_max_refs a s =
     (case fs_file_alloc_header_read a s of
        (None, s1) \<Rightarrow> (0, s1)
      | (Some sz, s1) \<Rightarrow> (if sz \<le> DIR_EXTENT then 0 else (sz - DIR_EXTENT) div 4, s1))"

definition fs_directory_header_read :: "u32 \<Rightarrow> fsdev \<Rightarrow> fs_dir_header option \<times> fsdev" where
  "fs_directory_header_read a s =
     (case fs_file_alloc_header_read a s of
        (None, s1) \<Rightarrow> (None, s1)
      | (Some sz, s1) \<Rightarrow>
          if sz < DIR_HEADER then (None, s1)
          else let (bs, s2) = fs_mem_read a 48 s1 in (Some (bytes_dir_header bs), s2))"

definition fs_directory_header_write :: "u32 \<Rightarrow> fs_dir_header \<Rightarrow> fsdev \<Rightarrow> fsdev" where
  "fs_directory_header_write a d s = fs_mem_write a (dir_header_bytes d) s"

definition fs_directory_extent_read :: "u32 \<Rightarrow> fsdev \<Rightarrow> fs_dir_extent option \<times> fsdev" where
  "fs_directory_extent_read a s =
     (case fs_file_alloc_header_read a s of
        (None, s1) \<Rightarrow> (None, s1)
      | (Some sz, s1) \<Rightarrow>
          if sz < DIR_EXTENT then (None, s1)
          else let (bs, s2) = fs_mem_read a 12 s1 in (Some (bytes_dir_extent bs), s2))"

definition fs_directory_extent_write :: "u32 \<Rightarrow> fs_dir_extent \<Rightarrow> fsdev \<Rightarrow> fsdev" where
  "fs_directory_extent_write a e s = fs_mem_write a (dir_extent_bytes e) s"

definition fs_directory_extent_create :: "u32 \<Rightarrow> u32 \<Rightarrow> fsdev \<Rightarrow> u32 \<times> fsdev" where
  "fs_directory_extent_create prev_address initial_capacity s =
     (let (a, s1) = fs_alloc (DIR_EXTENT + initial_capacity * 4) s
      in if a = FS_NULL then (FS_NULL, s1)
         else (a, fs_directory_extent_write a \<lparr>de_next = FS_NULL, de_prev = prev_address, de_count = 0\<rparr> s1))"

definition fs_directory_extent_unlink_and_free :: "u32 \<Rightarrow> u32 \<Rightarrow> fsdev \<Rightarrow> fsdev" where
  "fs_directory_extent_unlink_and_free directory_address extent_address s =
     (case fs_directory_header_read directory_address s of
        (None, s1) \<Rightarrow> s1
      | (Some directory, s1) \<Rightarrow>
          (case fs_directory_extent_read extent_address s1 of
             (None, s2) \<Rightarrow> s2
           | (Some extent, s2) \<Rightarrow>
               let s3 = (if de_prev extent = directory_address
                         then fs_directory_header_write directory_address (directory\<lparr>dh_next := de_next extent\<rparr>) s2
                         else if de_prev extent \<noteq> FS_NULL
                         then (case fs_directory_extent_read (de_prev extent) s2 of
                                 (None, s') \<Rightarrow> s'
                               | (Some p, s') \<Rightarrow>
                                   fs_directory_extent_write (de_prev extent) (p\<lparr>de_next := de_next extent\<rparr>) s')
                         else s2);
                   s4 = (if de_next extent \<noteq> FS_NULL
                         then (case fs_directory_extent_read (de_next extent) s3 of
                                 (None, s') \<Rightarrow> s'
                               | (Some n, s') \<Rightarrow>
                                   fs_directory_extent_write (de_next extent) (n\<lparr>de_prev := de_prev extent\<rparr>) s')
                         else s3)
               in fs_free extent_address s4))"

section \<open>Entries\<close>

text \<open>Entry \<open>i\<close> of the array of addresses at \<open>base\<close>.\<close>

definition ref_read :: "u32 \<Rightarrow> nat \<Rightarrow> fsdev \<Rightarrow> u32 \<times> fsdev" where
  "ref_read base i s = (let (bs, s1) = fs_mem_read (base + of_nat i * 4) 4 s in (le_word bs, s1))"

definition ref_write :: "u32 \<Rightarrow> nat \<Rightarrow> u32 \<Rightarrow> fsdev \<Rightarrow> fsdev" where
  "ref_write base i r s = fs_mem_write (base + of_nat i * 4) (word_le 4 r) s"

text \<open>The search loops: the first of the indices whose entry is \<open>r\<close>.\<close>

fun ref_scan :: "u32 \<Rightarrow> u32 \<Rightarrow> nat list \<Rightarrow> fsdev \<Rightarrow> nat option \<times> fsdev" where
  "ref_scan base r [] s = (None, s)"
| "ref_scan base r (i # is') s =
     (let (x, s1) = ref_read base i s in if x = r then (Some i, s1) else ref_scan base r is' s1)"

text \<open>Moving the entries behind index \<open>i\<close> down by one and clearing the last: the new count and the device.\<close>

definition ref_shift :: "u32 \<Rightarrow> nat \<Rightarrow> u32 \<Rightarrow> fsdev \<Rightarrow> u32 \<times> fsdev" where
  "ref_shift base i count s =
     (let s1 = fold (\<lambda>j t. let (x, t1) = ref_read base (Suc j) t in ref_write base j x t1) [i..<unat count - 1] s
      in if count > 0 then (count - 1, ref_write base (unat (count - 1)) FS_NULL s1) else (count, s1))"

text \<open>
  The extent loop of \<open>fs_directory_add_reference\<close>: a code to return at once, or the address at which the
  loop ended. \<open>guard\<close> is what is left of the walk limit.
\<close>

fun add_loop :: "nat \<Rightarrow> u32 \<Rightarrow> u32 \<Rightarrow> fsdev \<Rightarrow> (u8 + u32) \<times> fsdev" where
  "add_loop guard a r s =
     (if a = FS_NULL then (Inr a, s)
      else case guard of
             0 \<Rightarrow> (Inr a, s)
           | Suc g \<Rightarrow>
               (case fs_directory_extent_read a s of
                  (None, s1) \<Rightarrow> (Inl 3, s1)
                | (Some ext, s1) \<Rightarrow>
                    let (ext_max_refs, s2) = fs_directory_extent_max_refs a s1;
                        (found, s3) = ref_scan (a + DIR_EXTENT) r [0..<unat (de_count ext)] s2
                    in if found \<noteq> None then (Inl 0, s3)
                       else if de_count ext < ext_max_refs
                       then (Inl 0, fs_directory_extent_write a (ext\<lparr>de_count := de_count ext + 1\<rparr>)
                                      (ref_write (a + DIR_EXTENT) (unat (de_count ext)) r s3))
                       else if de_next ext = FS_NULL then (Inr a, s3)
                       else add_loop g (de_next ext) r s3))"

declare add_loop.simps [simp del]

text \<open>The first entry of a fresh extent, with the code to return when the extent cannot be read back.\<close>

definition first_ref :: "u32 \<Rightarrow> u32 \<Rightarrow> u8 \<Rightarrow> fsdev \<Rightarrow> u8 \<times> fsdev" where
  "first_ref new r err s =
     (case fs_directory_extent_read new s of
        (None, s1) \<Rightarrow> (err, s1)
      | (Some ext, s1) \<Rightarrow>
          (0, fs_directory_extent_write new (ext\<lparr>de_count := 1\<rparr>) (fs_mem_write (new + DIR_EXTENT) (word_le 4 r) s1)))"

definition append_extent :: "u32 \<Rightarrow> u32 \<Rightarrow> fs_dir_header \<Rightarrow> u32 \<Rightarrow> fsdev \<Rightarrow> u8 \<times> fsdev" where
  "append_extent directory_address extent_address directory r s =
     (if dh_next directory = FS_NULL
      then let (new, s1) = fs_directory_extent_create directory_address 12 s
           in if new = FS_NULL then (4, s1)
              else first_ref new r 5 (fs_directory_header_write directory_address (directory\<lparr>dh_next := new\<rparr>) s1)
      else case fs_directory_extent_read extent_address s of
             (None, s1) \<Rightarrow> (6, s1)
           | (Some tail_extent, s1) \<Rightarrow>
               let (new, s2) = fs_directory_extent_create extent_address 12 s1
               in if new = FS_NULL then (7, s2)
                  else first_ref new r 8 (fs_directory_extent_write extent_address (tail_extent\<lparr>de_next := new\<rparr>) s2))"

definition fs_directory_add_reference :: "u32 \<Rightarrow> u32 \<Rightarrow> fsdev \<Rightarrow> u8 \<times> fsdev" where
  "fs_directory_add_reference directory_address r s =
     (if r = FS_NULL then (1, s)
      else case fs_directory_header_read directory_address s of
             (None, s1) \<Rightarrow> (2, s1)
           | (Some directory, s1) \<Rightarrow>
               let (dir_max_refs, s2) = fs_directory_header_max_refs directory_address s1;
                   (found, s3) = ref_scan (directory_address + DIR_HEADER) r [0..<unat (dh_count directory)] s2
               in if found \<noteq> None then (0, s3)
                  else if dh_count directory < dir_max_refs
                  then (0, fs_directory_header_write directory_address (directory\<lparr>dh_count := dh_count directory + 1\<rparr>)
                             (ref_write (directory_address + DIR_HEADER) (unat (dh_count directory)) r s3))
                  else case add_loop (unat (fs_directory_walk_limit s3)) (dh_next directory) r s3 of
                         (Inl code, s4) \<Rightarrow> (code, s4)
                       | (Inr extent_address, s4) \<Rightarrow> append_extent directory_address extent_address directory r s4)"

fun remove_loop :: "nat \<Rightarrow> u32 \<Rightarrow> u32 \<Rightarrow> u32 \<Rightarrow> fsdev \<Rightarrow> u8 \<times> fsdev" where
  "remove_loop guard directory_address a r s =
     (if a = FS_NULL then (4, s)
      else case guard of
             0 \<Rightarrow> (4, s)
           | Suc g \<Rightarrow>
               (case fs_directory_extent_read a s of
                  (None, s1) \<Rightarrow> (3, s1)
                | (Some ext, s1) \<Rightarrow>
                    (case ref_scan (a + DIR_EXTENT) r [0..<unat (de_count ext)] s1 of
                       (None, s2) \<Rightarrow> remove_loop g directory_address (de_next ext) r s2
                     | (Some i, s2) \<Rightarrow>
                         let (count, s3) = ref_shift (a + DIR_EXTENT) i (de_count ext) s2
                         in if count = 0 then (0, fs_directory_extent_unlink_and_free directory_address a s3)
                            else (0, fs_directory_extent_write a (ext\<lparr>de_count := count\<rparr>) s3))))"

declare remove_loop.simps [simp del]

definition fs_directory_remove_reference :: "u32 \<Rightarrow> u32 \<Rightarrow> fsdev \<Rightarrow> u8 \<times> fsdev" where
  "fs_directory_remove_reference directory_address r s =
     (if r = FS_NULL then (1, s)
      else case fs_directory_header_read directory_address s of
             (None, s1) \<Rightarrow> (2, s1)
           | (Some directory, s1) \<Rightarrow>
               (case ref_scan (directory_address + DIR_HEADER) r [0..<unat (dh_count directory)] s1 of
                  (Some i, s2) \<Rightarrow>
                    let (count, s3) = ref_shift (directory_address + DIR_HEADER) i (dh_count directory) s2
                    in (0, fs_directory_header_write directory_address (directory\<lparr>dh_count := count\<rparr>) s3)
                | (None, s2) \<Rightarrow>
                    remove_loop (unat (fs_directory_walk_limit s2)) directory_address (dh_next directory) r s2))"

fun get_loop :: "nat \<Rightarrow> u32 \<Rightarrow> u32 \<Rightarrow> fsdev \<Rightarrow> u32 \<times> fsdev" where
  "get_loop guard a index s =
     (if a = FS_NULL then (FS_NULL, s)
      else case guard of
             0 \<Rightarrow> (FS_NULL, s)
           | Suc g \<Rightarrow>
               (case fs_directory_extent_read a s of
                  (None, s1) \<Rightarrow> (FS_NULL, s1)
                | (Some ext, s1) \<Rightarrow>
                    if index < de_count ext then ref_read (a + DIR_EXTENT) (unat index) s1
                    else get_loop g (de_next ext) (index - de_count ext) s1))"

declare get_loop.simps [simp del]

definition fs_directory_get_reference :: "u32 \<Rightarrow> u32 \<Rightarrow> fsdev \<Rightarrow> u32 \<times> fsdev" where
  "fs_directory_get_reference directory_address index s =
     (case fs_directory_header_read directory_address s of
        (None, s1) \<Rightarrow> (FS_NULL, s1)
      | (Some directory, s1) \<Rightarrow>
          if index < dh_count directory then ref_read (directory_address + DIR_HEADER) (unat index) s1
          else get_loop (unat (fs_directory_walk_limit s1)) (dh_next directory) (index - dh_count directory) s1)"

fun count_loop :: "nat \<Rightarrow> u32 \<Rightarrow> u32 \<Rightarrow> fsdev \<Rightarrow> u32 \<times> fsdev" where
  "count_loop guard a total_count s =
     (if a = FS_NULL then (total_count, s)
      else case guard of
             0 \<Rightarrow> (total_count, s)
           | Suc g \<Rightarrow>
               (case fs_directory_extent_read a s of
                  (None, s1) \<Rightarrow> (total_count, s1)
                | (Some ext, s1) \<Rightarrow> count_loop g (de_next ext) (total_count + de_count ext) s1))"

declare count_loop.simps [simp del]

definition fs_directory_get_reference_count :: "u32 \<Rightarrow> fsdev \<Rightarrow> u32 \<times> fsdev" where
  "fs_directory_get_reference_count directory_address s =
     (case fs_directory_header_read directory_address s of
        (None, s1) \<Rightarrow> (0, s1)
      | (Some directory, s1) \<Rightarrow>
          count_loop (unat (fs_directory_walk_limit s1)) (dh_next directory) (dh_count directory) s1)"

definition fs_directory_get_parent :: "u32 \<Rightarrow> fsdev \<Rightarrow> u32 \<times> fsdev" where
  "fs_directory_get_parent directory_address s =
     (case fs_directory_header_read directory_address s of
        (None, s1) \<Rightarrow> (FS_NULL, s1)
      | (Some directory, s1) \<Rightarrow> (dh_parent directory, s1))"

section \<open>Searching by name\<close>

definition fs_directory_name_matches :: "u32 \<Rightarrow> u8 list \<Rightarrow> fsdev \<Rightarrow> (bool \<times> fsdev) option" where
  "fs_directory_name_matches a nm s =
     (case fs_file_get_name a s of
        (None, s1) \<Rightarrow> Some (False, s1)
      | (Some stored, s1) \<Rightarrow> do { c \<leftarrow> strcmp stored nm; Some (c = 0, s1) })"

fun find_refs :: "u32 \<Rightarrow> u8 list \<Rightarrow> nat list \<Rightarrow> fsdev \<Rightarrow> (u32 option \<times> fsdev) option" where
  "find_refs base nm [] s = Some (None, s)"
| "find_refs base nm (i # is') s =
     (let (x, s1) = ref_read base i s
      in if x = FS_NULL then find_refs base nm is' s1
         else do {
           (ok, s2) \<leftarrow> fs_directory_name_matches x nm s1;
           if ok then Some (Some x, s2) else find_refs base nm is' s2
         })"

fun dir_find_loop :: "nat \<Rightarrow> u32 \<Rightarrow> u8 list \<Rightarrow> fsdev \<Rightarrow> (u32 \<times> fsdev) option" where
  "dir_find_loop guard a nm s =
     (if a = FS_NULL then Some (FS_NULL, s)
      else case guard of
             0 \<Rightarrow> Some (FS_NULL, s)
           | Suc g \<Rightarrow>
               (case fs_directory_extent_read a s of
                  (None, s1) \<Rightarrow> Some (FS_NULL, s1)
                | (Some ext, s1) \<Rightarrow> do {
                    (hit, s2) \<leftarrow> find_refs (a + DIR_EXTENT) nm [0..<unat (de_count ext)] s1;
                    case hit of Some x \<Rightarrow> Some (x, s2) | None \<Rightarrow> dir_find_loop g (de_next ext) nm s2
                  }))"

declare dir_find_loop.simps [simp del]

definition fs_directory_find :: "u32 \<Rightarrow> u8 list option \<Rightarrow> fsdev \<Rightarrow> (u32 \<times> fsdev) option" where
  "fs_directory_find directory_address nm s =
     (case nm of
        None \<Rightarrow> Some (FS_NULL, s)
      | Some name \<Rightarrow>
          (case fs_directory_header_read directory_address s of
             (None, s1) \<Rightarrow> Some (FS_NULL, s1)
           | (Some directory, s1) \<Rightarrow> do {
               (hit, s2) \<leftarrow> find_refs (directory_address + DIR_HEADER) name [0..<unat (dh_count directory)] s1;
               case hit of
                 Some x \<Rightarrow> Some (x, s2)
               | None \<Rightarrow> dir_find_loop (unat (fs_directory_walk_limit s2)) (dh_next directory) name s2
             }))"

section \<open>Creation\<close>

text \<open>A zeroed 16-byte name filled by \<open>strncpy\<close> with a terminator in the last byte.\<close>

definition new_name :: "u8 list \<Rightarrow> u8 list option" where
  "new_name nm = map_option (\<lambda>bs. bs[15 := 0]) (strncpy (replicate 16 0) nm 15)"

definition new_block :: "u8 list \<Rightarrow> u8 \<Rightarrow> u8 \<Rightarrow> fs_block_header" where
  "new_block name16 attributes permissions =
     \<lparr>bh_name = name16, bh_attributes = attributes, bh_permissions = permissions, bh_padding = replicate 6 0,
      bh_security = 0, bh_certificate = 0\<rparr>"

definition fs_directory_create :: "u8 list \<Rightarrow> u8 \<Rightarrow> u32 \<Rightarrow> fsdev \<Rightarrow> (u32 \<times> fsdev) option" where
  "fs_directory_create name permissions parent_directory s =
     (let (a, s1) = fs_alloc (DIR_HEADER + 24 * 4) s
      in if a = FS_NULL then Some (a, s1)
         else let s2 = (if parent_directory \<noteq> FS_NULL then snd (fs_directory_add_reference parent_directory a s1) else s1)
              in do {
                nm \<leftarrow> new_name name;
                Some (a, fs_directory_header_write a
                  \<lparr>dh_block = new_block nm FS_ATTRIBUTE_DIRECTORY permissions, dh_parent = parent_directory,
                   dh_next = FS_NULL, dh_prev = FS_NULL, dh_count = 0\<rparr> s2)
              })"

definition fs_file_create :: "u8 list \<Rightarrow> u8 \<Rightarrow> u32 \<Rightarrow> u32 \<Rightarrow> fsdev \<Rightarrow> (u32 \<times> fsdev) option" where
  "fs_file_create name permissions sz parent_directory s =
     (let (a, s1) = fs_alloc FILE_HEADER s
      in if a = FS_NULL then Some (FS_NULL, s1)
         else let s2 = (if parent_directory \<noteq> FS_NULL then snd (fs_directory_add_reference parent_directory a s1) else s1)
              in do {
                nm \<leftarrow> new_name name;
                s3 \<leftarrow> Some (file_header_write a
                  \<lparr>fh_block = new_block nm 0 permissions, fh_size = 0, fh_next = FS_NULL, fh_prev = FS_NULL\<rparr> s2);
                if sz > 0
                then do {
                  (ok, s4) \<leftarrow> fs_file_resize a sz s3;
                  if \<not> ok then Some (FS_NULL, fs_free a s4) else Some (a, s4)
                }
                else Some (a, s3)
              })"

section \<open>Deletion\<close>

fun dir_delete_loop :: "nat \<Rightarrow> u32 \<Rightarrow> fsdev \<Rightarrow> fsdev" where
  "dir_delete_loop guard a s =
     (if a = FS_NULL then s
      else case guard of
             0 \<Rightarrow> s
           | Suc g \<Rightarrow>
               (case fs_directory_extent_read a s of
                  (None, s1) \<Rightarrow> s1
                | (Some ext, s1) \<Rightarrow> dir_delete_loop g (de_next ext) (fs_free a s1)))"

declare dir_delete_loop.simps [simp del]

definition fs_directory_delete :: "u32 \<Rightarrow> fsdev \<Rightarrow> bool \<times> fsdev" where
  "fs_directory_delete a s =
     (case fs_directory_header_read a s of
        (None, s1) \<Rightarrow> (False, s1)
      | (Some directory, s1) \<Rightarrow>
          (True, fs_free a (dir_delete_loop (unat (fs_directory_walk_limit s1)) (dh_next directory) s1)))"

definition fs_directory_is_directory :: "u32 \<Rightarrow> fsdev \<Rightarrow> bool \<times> fsdev" where
  "fs_directory_is_directory a s =
     (case fs_directory_header_read a s of
        (None, s1) \<Rightarrow> (False, s1)
      | (Some directory, s1) \<Rightarrow> (bh_attributes (dh_block directory) AND FS_ATTRIBUTE_DIRECTORY \<noteq> 0, s1))"

text \<open>Is \<open>child\<close> a directory that names \<open>current\<close> as its parent? The tests are evaluated from left to right.\<close>

definition owned_directory :: "u32 \<Rightarrow> u32 \<Rightarrow> u32 \<Rightarrow> fsdev \<Rightarrow> bool \<times> fsdev" where
  "owned_directory address current child s =
     (if child = FS_NULL \<or> child = address \<or> child = current then (False, s)
      else let (dir, s1) = fs_directory_is_directory child s
           in if \<not> dir then (False, s1)
              else let (up, s2) = fs_directory_get_parent child s1 in (up = current, s2))"

text \<open>Unlinking an entry that is not a directory to descend into, and deleting it if it is a file.\<close>

definition remove_entry :: "u32 \<Rightarrow> u32 \<Rightarrow> fsdev \<Rightarrow> (bool \<times> fsdev) option" where
  "remove_entry current child s =
     (let (code, s1) = fs_directory_remove_reference current child s
      in if code \<noteq> 0 then Some (False, s1)
         else if child = FS_NULL then Some (True, s1)
         else let (isfile, s2) = fs_file_check child s1
              in if isfile then do { (_, s3) \<leftarrow> fs_file_delete child s2; Some (True, s3) } else Some (True, s2))"

text \<open>The loop of \<open>fs_directory_delete_recursive\<close>, with the number of steps that are left.\<close>

fun recursive_loop :: "nat \<Rightarrow> u32 \<Rightarrow> u32 \<Rightarrow> fsdev \<Rightarrow> (bool \<times> fsdev) option" where
  "recursive_loop 0 address current s = Some (False, s)"
| "recursive_loop (Suc steps) address current s =
     (let (count, s1) = fs_directory_get_reference_count current s
      in if count = 0
         then if current = address
              then Some (True, snd (fs_directory_delete current s1))
              else let (up, s2) = fs_directory_get_parent current s1
                   in if up = FS_NULL then Some (False, s2)
                      else let (code, s3) = fs_directory_remove_reference up current s2
                           in if code \<noteq> 0 then Some (False, s3)
                              else recursive_loop steps address up (snd (fs_directory_delete current s3))
         else let (child, s2) = fs_directory_get_reference current (count - 1) s1;
                  (descend, s3) = owned_directory address current child s2
              in if descend then recursive_loop steps address child s3
                 else do {
                   (ok, s4) \<leftarrow> remove_entry current child s3;
                   if ok then recursive_loop steps address current s4 else Some (False, s4)
                 })"

definition fs_directory_delete_recursive :: "u32 \<Rightarrow> u32 \<Rightarrow> fsdev \<Rightarrow> (bool \<times> fsdev) option" where
  "fs_directory_delete_recursive address parent_directory s =
     (if address = FS_NULL then Some (False, s)
      else let (dir, s1) = fs_directory_is_directory address s
           in if \<not> dir then Some (False, s1)
              else let ((err, part), s2) = fs_device_get_partition s1
                   in if err \<noteq> 0 then Some (False, s2)
                      else if address = p_root part then Some (False, s2)
                      else let s3 = (if parent_directory \<noteq> FS_NULL
                                     then snd (fs_directory_remove_reference parent_directory address s2) else s2)
                           in recursive_loop (unat (fs_directory_walk_limit s3 * 4)) address address s3)"

section \<open>Security fields\<close>

definition fs_file_get_certificate :: "u32 \<Rightarrow> fsdev \<Rightarrow> u32 \<times> fsdev" where
  "fs_file_get_certificate a s = (let (h, s1) = file_header_read a s in (bh_certificate (fh_block h), s1))"

definition fs_file_set_certificate :: "u32 \<Rightarrow> u32 \<Rightarrow> fsdev \<Rightarrow> bool \<times> fsdev" where
  "fs_file_set_certificate a cert s =
     (if cert = 0 \<or> cert = 0xFFFFFFFF then (False, s)
      else let (h, s1) = file_header_read a s
           in (True, file_header_write a (h\<lparr>fh_block := (fh_block h)\<lparr>bh_certificate := cert\<rparr>\<rparr>) s1))"

text \<open>The getter reads the low byte of the certificate, not the security field that the setter writes.\<close>

definition fs_file_get_security_flag :: "u32 \<Rightarrow> fsdev \<Rightarrow> u8 \<times> fsdev" where
  "fs_file_get_security_flag a s = (let (h, s1) = file_header_read a s in (ucast (bh_certificate (fh_block h)), s1))"

definition fs_file_set_security_flag :: "u32 \<Rightarrow> u32 \<Rightarrow> fsdev \<Rightarrow> fsdev" where
  "fs_file_set_security_flag a security s =
     (let (h, s1) = file_header_read a s
      in file_header_write a (h\<lparr>fh_block := (fh_block h)\<lparr>bh_security := security\<rparr>\<rparr>) s1)"

end
