(* ===== verification/FsStore.thy ===== *)
theory FsStore
  imports FsDeviceInv
begin

text \<open>
  The device as its clients see it: a partial map from the first block of each live allocation to the
  bytes of its payload. Reading, writing, allocating and freeing on the device are the corresponding
  operations on this map; files and directories are verified over it.
\<close>

type_synonym store = "nat \<rightharpoonup> u8 list"

definition payload :: "u32 \<Rightarrow> nat \<Rightarrow> u32" where
  "payload ss k = of_nat k * ss + ALLOC_HEADER"

definition live_of :: "store \<Rightarrow> nat \<rightharpoonup> u32" where
  "live_of V = (\<lambda>k. map_option (\<lambda>d. of_nat (length d)) (V k))"

definition holds :: "fsdev \<Rightarrow> store \<Rightarrow> bool" where
  "holds s V \<longleftrightarrow> fs_ok s \<and> fs_inv s (live_of V)
     \<and> (\<forall>k d. V k = Some d \<longrightarrow>
          length d < 4294967296 \<and> mem_read (dev_view s) (payload (sector_size s) k) (length d) = d)"

text \<open>What no operation of a client changes: the geometry and the two headers in front of the bitmap.\<close>

definition geo :: "fsdev \<Rightarrow> u32 \<times> nat \<times> nat \<times> u8 list" where
  "geo s = (sector_size s, fs_cap s, fs_lo s, mem_read (dev_view s) 0 48)"

lemma geoD:
  assumes "geo s' = geo s"
  shows "sector_size s' = sector_size s" "fs_cap s' = fs_cap s" "fs_lo s' = fs_lo s" "fs_sector s' = fs_sector s"
    "mem_read (dev_view s') 0 48 = mem_read (dev_view s) 0 48"
  using assms by (simp_all add: geo_def fs_sector_def)

lemma payload_addr: "payload (sector_size s) k = fs_addr k s + ALLOC_HEADER"
  by (simp add: payload_def fs_addr_def)

lemma live_of_upd [simp]: "live_of (V(k \<mapsto> d)) = (live_of V)(k \<mapsto> of_nat (length d))"
  by (auto simp: live_of_def)

lemma live_of_del [simp]: "live_of (V(k := None)) = (live_of V)(k := None)"
  by (auto simp: live_of_def)

lemma live_of_Some: "V k = Some d \<Longrightarrow> live_of V k = Some (of_nat (length d))"
  by (simp add: live_of_def)

lemma live_of_same: "V k = Some d \<Longrightarrow> length d' = length d \<Longrightarrow> live_of (V(k \<mapsto> d')) = live_of V"
  by (auto simp: live_of_def)

lemma live_of_None: "live_of V k = None \<longleftrightarrow> V k = None"
  by (simp add: live_of_def)

lemma holdsD:
  assumes "holds s V"
  shows "fs_ok s" "bm_ok s" "fs_geom s" "fs_inv s (live_of V)"
    "V k = Some d \<Longrightarrow> length d < 4294967296"
    "V k = Some d \<Longrightarrow> mem_read (dev_view s) (payload (sector_size s) k) (length d) = d"
  using assms by (simp_all add: holds_def fs_ok_def)

section \<open>Where payloads lie\<close>

lemma block_bounds:
  assumes h: "holds s V" and k: "V k = Some d"
  shows "fs_lo s \<le> k" "k < fs_cap s" "unat (fs_addr k s) = k * fs_sector s"
    "unat (payload (sector_size s) k) = k * fs_sector s + 4"
    "48 + bm_len s \<le> k * fs_sector s"
    "k * fs_sector s + 4 + length d \<le> fs_cap s * fs_sector s"
    "fs_cap s * fs_sector s + fs_sector s < 4294967296"
    "payload (sector_size s) k \<noteq> FS_NULL"
    "payload (sector_size s) k - ALLOC_HEADER = fs_addr k s"
    "k + fs_blocks (of_nat (length d)) s \<le> fs_cap s"
    "4 + length d \<le> fs_blocks (of_nat (length d)) s * fs_sector s"
proof -
  note hd = holdsD [OF h]
  note w = fs_live_word [OF hd(1,4) live_of_Some [of V k d, OF k]]
  note l = alloc_inv_live [OF hd(4) live_of_Some [of V k d, OF k]]
  have len: "unat (of_nat (length d) :: u32) = length d" using hd(5) [OF k] by (rule unat_of_nat_u32)
  show r: "fs_lo s \<le> k" "k < fs_cap s" by (rule w(6), rule w(7))
  show a: "unat (fs_addr k s) = k * fs_sector s" using fs_addr_nat(1) [OF hd(3)] r by simp
  show g: "fs_cap s * fs_sector s + fs_sector s < 4294967296" using hd(3) by (simp add: fs_geom_def)
  have "k * fs_sector s \<le> fs_cap s * fs_sector s" using r by simp
  then have "k * fs_sector s + 4 < 4294967296" using g hd(3) unfolding fs_geom_def by linarith
  then show "unat (payload (sector_size s) k) = k * fs_sector s + 4"
    using a unfolding payload_addr by (subst unat_add_u32) (simp_all add: ALLOC_HEADER_def)
  have "fs_lo s * fs_sector s \<le> k * fs_sector s" using r by simp
  then show "48 + bm_len s \<le> k * fs_sector s" using hd(3) unfolding fs_geom_def by linarith
  show "payload (sector_size s) k \<noteq> FS_NULL" "payload (sector_size s) k - ALLOC_HEADER = fs_addr k s"
    using w(1,2) by (simp_all add: payload_addr)
  show e: "k + fs_blocks (of_nat (length d)) s \<le> fs_cap s" by (rule l(2))
  show b: "4 + length d \<le> fs_blocks (of_nat (length d)) s * fs_sector s"
    unfolding fs_blocks_def len using hd(3) ceil_div_ge [of "fs_sector s" "length d + 4"]
    by (simp add: fs_geom_def)
  have "k * fs_sector s + fs_blocks (of_nat (length d)) s * fs_sector s \<le> fs_cap s * fs_sector s"
    using mult_le_mono1 [OF e, of "fs_sector s"] by (simp add: add_mult_distrib)
  then show "k * fs_sector s + 4 + length d \<le> fs_cap s * fs_sector s" using b by linarith
qed

lemma blocks_disjoint:
  assumes h: "holds s V" and k: "V k = Some d" and j: "V j = Some e" and ne: "j \<noteq> k"
  shows "k * fs_sector s + 4 + length d \<le> j * fs_sector s \<or> j * fs_sector s + 4 + length e \<le> k * fs_sector s"
proof -
  have dis: "k + fs_blocks (of_nat (length d)) s \<le> j \<or> j + fs_blocks (of_nat (length e)) s \<le> k"
    using alloc_inv_disjoint [OF holdsD(4) [OF h] live_of_Some [of V k d, OF k] live_of_Some [of V j e, OF j]] ne by auto
  have d: "4 + length d \<le> fs_blocks (of_nat (length d)) s * fs_sector s" by (rule block_bounds(11) [OF h k])
  have e: "4 + length e \<le> fs_blocks (of_nat (length e)) s * fs_sector s" by (rule block_bounds(11) [OF h j])
  from dis show ?thesis
  proof
    assume "k + fs_blocks (of_nat (length d)) s \<le> j"
    from mult_le_mono1 [OF this, of "fs_sector s"] show ?thesis using d by (simp add: add_mult_distrib)
  next
    assume "j + fs_blocks (of_nat (length e)) s \<le> k"
    from mult_le_mono1 [OF this, of "fs_sector s"] show ?thesis using e by (simp add: add_mult_distrib)
  qed
qed

lemma payload_inject:
  assumes "holds s V" "V k = Some d" "V j = Some e" "payload (sector_size s) j = payload (sector_size s) k"
  shows "j = k"
  using blocks_disjoint [OF assms(1-3)] block_bounds(4) [OF assms(1,2)] block_bounds(4) [OF assms(1,3)] assms(4)
  by (cases "j = k") auto

lemma payload_offset:
  assumes "holds s V" "V k = Some d" "i \<le> length d"
  shows "unat (payload (sector_size s) k + of_nat i) = k * fs_sector s + 4 + i"
proof -
  note b = block_bounds [OF assms(1,2)]
  have "unat (of_nat i :: u32) = i" using holdsD(5) [OF assms(1,2)] assms(3) by (intro unat_of_nat_u32) simp
  then show ?thesis using b(4,6,7) assms(3) by (subst unat_add_u32) simp_all
qed

section \<open>Reading\<close>

lemma mem_read_sub: "i + n \<le> m \<Longrightarrow> mem_read v (a + of_nat i) n = take n (drop i (mem_read v a m))"
  by (rule nth_equalityI) (simp_all add: mem_read_def add.assoc)

lemma holds_same:
  assumes h: "holds s V" and same: "fs_same s s1"
  shows "holds s1 V" "geo s1 = geo s"
proof -
  note c = fs_same_config [OF same]
  note hd = holdsD [OF h]
  have rest: "fs_rest s1 = fs_rest s" using same by (simp add: fs_same_def)
  note v = fs_rest_view [OF rest]
  have "mem_read (dev_view s1) 0 48 = mem_read (dev_view s) 0 48"
    by (intro mem_read_eqI v not_in_range_I) (use hd(2) in \<open>simp_all add: fs_bitmap_address_def bm_ok_def unat_of_nat_u32\<close>)
  then show "geo s1 = geo s" using c by (simp add: geo_def)
  have "mem_read (dev_view s1) (payload (sector_size s) k) (length d) = d" if k: "V k = Some d" for k d
  proof -
    have "mem_read (dev_view s1) (payload (sector_size s) k) (length d)
        = mem_read (dev_view s) (payload (sector_size s) k) (length d)"
    proof (intro mem_read_eqI v not_in_range_I disjI2)
      fix i
      assume "i < length d"
      then show "unat fs_bitmap_address + bm_len s \<le> unat (payload (sector_size s) k + of_nat i)"
        using payload_offset [OF h k, of i] block_bounds(5) [OF h k] by (simp add: fs_bitmap_address_def)
    qed (use hd(2) in \<open>simp add: fs_bitmap_address_def bm_ok_def\<close>)
    then show ?thesis using hd(6) [OF k] by simp
  qed
  then show "holds s1 V"
    using hd(1,4,5) c fs_same_inv [OF hd(1) same hd(4)] unfolding holds_def by simp
qed

lemma any_read:
  assumes h: "holds s V"
  obtains s1 where "fs_mem_read a n s = (mem_read (dev_view s) a n, s1)" "holds s1 V" "geo s1 = geo s"
    "dev_view s1 = dev_view s"
proof -
  obtain bs s1 where e: "fs_mem_read a n s = (bs, s1)" by (cases "fs_mem_read a n s") auto
  note r = fs_read_same [OF holdsD(1) [OF h] e]
  show thesis using that [of s1] e r holds_same [OF h r(2)] by simp
qed

lemma payload_read:
  assumes h: "holds s V" and k: "V k = Some d" and "i + n \<le> length d"
  obtains s1 where "fs_mem_read (payload (sector_size s) k + of_nat i) n s = (take n (drop i d), s1)"
    "holds s1 V" "geo s1 = geo s"
proof -
  have "mem_read (dev_view s) (payload (sector_size s) k + of_nat i) n = take n (drop i d)"
    using mem_read_sub [OF assms(3), of "dev_view s" "payload (sector_size s) k"] holdsD(6) [OF h k] by simp
  then show thesis using any_read [OF h, of "payload (sector_size s) k + of_nat i" n] that by metis
qed

lemma size_read:
  assumes h: "holds s V" and k: "V k = Some d"
  obtains s1 bs where "fs_mem_read (payload (sector_size s) k - ALLOC_HEADER) 4 s = (bs, s1)"
    "(le_word bs :: u32) = of_nat (length d)" "holds s1 V" "geo s1 = geo s"
proof -
  obtain s1 where r: "fs_mem_read (fs_addr k s) 4 s = (mem_read (dev_view s) (fs_addr k s) 4, s1)" "holds s1 V"
    "geo s1 = geo s" using any_read [OF h, of "fs_addr k s" 4] by metis
  have "fs_header k s = of_nat (length d)"
    by (rule alloc_inv_live(3) [OF holdsD(4) [OF h] live_of_Some [of V k d, OF k]])
  then show thesis using that r block_bounds(9) [OF h k] by (simp add: fs_header_def)
qed

section \<open>Writing\<close>

definition patch :: "nat \<Rightarrow> 'a list \<Rightarrow> 'a list \<Rightarrow> 'a list" where
  "patch i bs d = take i d @ bs @ drop (i + length bs) d"

lemma length_patch [simp]: "i + length bs \<le> length d \<Longrightarrow> length (patch i bs d) = length d"
  by (simp add: patch_def)

lemma patch_Nil [simp]: "patch i [] d = d"
  by (simp add: patch_def)

lemma patch_append1: "length a \<le> i \<Longrightarrow> patch i bs (a @ d) = a @ patch (i - length a) bs d"
  by (auto simp: patch_def Suc_diff_le)

lemma patch_append2: "i + length bs \<le> length d \<Longrightarrow> patch i bs (d @ e) = patch i bs d @ e"
  by (simp add: patch_def)

lemma patch_split:
  assumes "i \<le> length d" "n = min (length bs) (length d - i)" "n < length bs \<longrightarrow> j = 0"
  shows "patch i (take n bs) d @ patch j (drop n bs) c = patch i bs (d @ c)"
proof (cases "length bs \<le> length d - i")
  case True
  then show ?thesis using assms by (simp add: patch_append2)
next
  case False
  then show ?thesis using assms by (simp add: patch_def flip: append_assoc) (simp add: add.commute)
qed

lemma mem_read_patch:
  assumes "i + length bs \<le> n" "unat a + n \<le> 4294967296"
  shows "mem_read (mem_write v (a + of_nat i) bs) a n = patch i bs (mem_read v a n)"
proof (rule nth_equalityI)
  show "length (mem_read (mem_write v (a + of_nat i) bs) a n) = length (patch i bs (mem_read v a n))"
    using assms by simp
next
  fix j
  assume j: "j < length (mem_read (mem_write v (a + of_nat i) bs) a n)"
  have n: "n \<le> 4294967296" using assms by simp
  have jl: "j < 4294967296" "j < n" using j n by simp_all
  show "mem_read (mem_write v (a + of_nat i) bs) a n ! j = patch i bs (mem_read v a n) ! j"
  proof (cases "i < n")
    case False
    then have "bs = []" using assms(1) by (cases bs) auto
    then show ?thesis using jl by (simp add: patch_def mem_read_def)
  next
    case True
    then have u: "unat (a + of_nat i) = unat a + i" "unat (a + of_nat j) = unat a + j"
      using assms jl by (subst unat_add_u32; simp add: unat_of_nat_u32)+
    have r: "in_range (a + of_nat i) (length bs) (a + of_nat j) \<longleftrightarrow> i \<le> j \<and> j < i + length bs"
      using assms u by (subst in_range_iff) auto
    have d: "unat (a + of_nat j - (a + of_nat i) :: u32) = j - i" if "i \<le> j"
      using u that by (subst unat_sub_u32) simp_all
    have bl: "length bs \<le> 4294967296" using assms n by simp
    show ?thesis using jl d r assms
      by (auto simp: mem_read_def mem_write_apply [OF bl] patch_def nth_append)
  qed
qed

lemma geo_write:
  assumes "ctx_rest s' = ctx_rest s" "dev_view s' = mem_write (dev_view s) a bs" "48 \<le> unat a"
    "unat a + length bs \<le> 4294967296"
  shows "geo s' = geo s"
proof -
  have "mem_read (dev_view s') 0 48 = mem_read (dev_view s) 0 48"
    unfolding assms(2) using assms(3,4) by (intro mem_read_write_other) simp_all
  then show ?thesis using fs_config_ctx [OF assms(1)] ctx_restD [OF assms(1)] by (simp add: geo_def)
qed

lemma payload_write:
  assumes h: "holds s V" and k: "V k = Some d" and "i + length bs \<le> length d"
  defines "s' \<equiv> fs_mem_write (payload (sector_size s) k + of_nat i) bs s"
  shows "holds s' (V(k \<mapsto> patch i bs d))" "geo s' = geo s"
proof -
  note hd = holdsD [OF h]
  note b = block_bounds [OF h k]
  have i: "i \<le> length d" using assms(3) by simp
  note u = payload_offset [OF h k i]
  let ?a = "payload (sector_size s) k + of_nat i"
  have up: "unat ?a + length bs \<le> 4294967296" using u b(6,7) assms(3) by simp
  have lo: "48 + bm_len s \<le> unat ?a" using u b(5) by simp
  note w = data_write_props [OF hd(2) lo up, folded s'_def]
  note c = fs_config_ctx [OF w(2)]
  have ss: "sector_size s' = sector_size s" using ctx_restD [OF w(2)] by simp
  show "geo s' = geo s" using geo_write [OF w(2,3)] lo up by simp
  have ok: "fs_ok s'" using w(1) c hd(3) by (simp add: fs_ok_def)
  have hdr: "fs_header j s' = fs_header j s" if "V j = Some e" for j e
  proof -
    note bj = block_bounds [OF h that]
    have "unat (fs_addr j s) + 4 \<le> unat ?a \<or> unat ?a + length bs \<le> unat (fs_addr j s)"
      using blocks_disjoint [OF h k that] bj(3) u assms(3) by (cases "j = k") auto
    then have "mem_read (dev_view s') (fs_addr j s) 4 = mem_read (dev_view s) (fs_addr j s) 4"
      unfolding w(3) using up bj(3,6,7) by (intro mem_read_write_other) auto
    then show ?thesis by (simp add: fs_header_def c)
  qed
  have bits: "fs_bit j s' = fs_bit j s" if "j < fs_cap s" for j
    by (rule fs_bit_cong [OF hd(2) w(4) that])
  have inv: "fs_inv s' (live_of V)"
    using hd(4) hdr bits c unfolding alloc_inv_def covered_def by (auto simp: live_of_def)
  have data: "length e < 4294967296 \<and> mem_read (dev_view s') (payload (sector_size s') j) (length e) = e"
    if j: "(V(k \<mapsto> patch i bs d)) j = Some e" for j e
  proof (cases "j = k")
    case True
    then have e: "e = patch i bs d" using j by simp
    have "unat (payload (sector_size s) k) + length d \<le> 4294967296" using b(4,6,7) by simp
    then show ?thesis
      using mem_read_patch [OF assms(3), of "payload (sector_size s) k" "dev_view s"] hd(5,6) [OF k] True e
        assms(3) by (simp add: w(3) ss)
  next
    case False
    then have j: "V j = Some e" using j by simp
    note bj = block_bounds [OF h j]
    have "unat (payload (sector_size s) j) + length e \<le> unat ?a \<or> unat ?a + length bs \<le> unat (payload (sector_size s) j)"
      using blocks_disjoint [OF h k j False] bj(4) u assms(3) by auto
    then have "mem_read (dev_view s') (payload (sector_size s) j) (length e)
        = mem_read (dev_view s) (payload (sector_size s) j) (length e)"
      unfolding w(3) using up bj(4,6,7) by (intro mem_read_write_other) auto
    then show ?thesis using hd(5,6) [OF j] by (simp add: ss)
  qed
  show "holds s' (V(k \<mapsto> patch i bs d))"
    unfolding holds_def using ok inv data live_of_same [of V k d, OF k, of "patch i bs d"] assms(3) by simp
qed

section \<open>Allocating and freeing\<close>

lemma geo_frame:
  assumes h: "fs_geom s" and k: "fs_lo s \<le> k" "k < fs_cap s"
    and v: "\<And>a. \<not> in_range fs_bitmap_address (bm_len s) a \<Longrightarrow> \<not> in_range (fs_addr k s) 4 a \<Longrightarrow> dev_view s' a = dev_view s a"
    and c: "fs_cap s' = fs_cap s" "fs_lo s' = fs_lo s" "fs_sector s' = fs_sector s"
  shows "geo s' = geo s" "sector_size s' = sector_size s"
proof -
  show ss: "sector_size s' = sector_size s" using c(3) by (simp add: fs_sector_def word_unat_eq_iff)
  have bm: "48 + bm_len s \<le> unat (fs_addr k s)" "unat (fs_addr k s) + fs_sector s \<le> 4294967296"
    using fs_data_addr [OF h k] by simp_all
  have s4: "4 \<le> fs_sector s" using h by (simp add: fs_geom_def)
  have "mem_read (dev_view s') 0 48 = mem_read (dev_view s) 0 48"
  proof (rule mem_read_eqI, rule v)
    fix i :: nat
    assume i: "i < 48"
    then have u: "unat (0 + of_nat i :: u32) = i" by (simp add: unat_of_nat_u32)
    show "\<not> in_range fs_bitmap_address (bm_len s) (0 + of_nat i)"
      using i u bm s4 by (intro not_in_range_I) (simp_all add: fs_bitmap_address_def)
    show "\<not> in_range (fs_addr k s) 4 (0 + of_nat i)"
      using i u bm s4 by (intro not_in_range_I) simp_all
  qed
  then show "geo s' = geo s" using c ss by (simp add: geo_def)
qed

lemma frame_payload:
  assumes h: "holds s V" and j: "V j = Some e" and k: "fs_lo s \<le> k" "k < fs_cap s" "k \<le> j \<or> j * fs_sector s + 4 + length e \<le> k * fs_sector s"
    and v: "\<And>a. \<not> in_range fs_bitmap_address (bm_len s) a \<Longrightarrow> \<not> in_range (fs_addr k s) 4 a \<Longrightarrow> dev_view s' a = dev_view s a"
  shows "mem_read (dev_view s') (payload (sector_size s) j) (length e) = e"
proof -
  note b = block_bounds [OF h j]
  note g = fs_addr_nat [OF holdsD(3) [OF h], of k]
  have s4: "4 \<le> fs_sector s" using holdsD(3) [OF h] by (simp add: fs_geom_def)
  have ak: "unat (fs_addr k s) = k * fs_sector s" "k * fs_sector s + 4 \<le> 4294967296"
    using g k s4 by (simp_all add: add_mult_distrib)
  have "mem_read (dev_view s') (payload (sector_size s) j) (length e)
      = mem_read (dev_view s) (payload (sector_size s) j) (length e)"
  proof (rule mem_read_eqI, rule v)
    fix i
    assume i: "i < length e"
    note u = payload_offset [OF h j less_imp_le [OF i]]
    show "\<not> in_range fs_bitmap_address (bm_len s) (payload (sector_size s) j + of_nat i)"
      using u b(5-7) by (intro not_in_range_I) (simp_all add: fs_bitmap_address_def)
    show "\<not> in_range (fs_addr k s) 4 (payload (sector_size s) j + of_nat i)"
      using u ak k(3) i mult_le_mono1 [of k j "fs_sector s"] by (intro not_in_range_I) linarith+
  qed
  then show ?thesis using holdsD(6) [OF h j] by simp
qed

lemma store_alloc:
  assumes h: "holds s V" and sz: "unat sz + 4 + fs_sector s < 4294967296"
  obtains (full) s' where "fs_alloc sz s = (FS_NULL, s')" "holds s' V" "geo s' = geo s"
    | (placed) k s' d where "fs_alloc sz s = (payload (sector_size s) k, s')" "V k = None" "length d = unat sz"
      "holds s' (V(k \<mapsto> d))" "geo s' = geo s" "payload (sector_size s) k \<noteq> FS_NULL"
proof -
  note hd = holdsD [OF h]
  show thesis
  proof (cases rule: fs_alloc_cases [OF hd(1,4) sz])
    case full: (1 s')
    then show ?thesis using that(1) [of s'] holds_same [OF h full(2)] by simp
  next
    case placed: (2 k s')
    let ?d = "mem_read (dev_view s') (payload (sector_size s) k) (unat sz)"
    have len: "of_nat (length ?d) = sz" "unat sz < 4294967296" by (simp_all add: unat_u32_less)
    have pos: "0 < fs_blocks sz s" by (rule fs_alloc.blocks_pos [OF hd(1)])
    have k: "fs_lo s \<le> k" "k < fs_cap s" using placed(5,6) pos by simp_all
    note g = geo_frame [OF hd(3) k placed(9-12)]
    have none: "V k = None" using placed(2) live_of_None by metis
    have "length e < 4294967296 \<and> mem_read (dev_view s') (payload (sector_size s') j) (length e) = e"
      if "(V(k \<mapsto> ?d)) j = Some e" for j e
    proof (cases "j = k")
      case True
      then show ?thesis using that len g by auto
    next
      case False
      then have j: "V j = Some e" using that by simp
      have "j + fs_blocks (of_nat (length e)) s \<le> k \<or> k \<le> j"
        using fs_alloc.window_disjoint [OF hd(1,4) live_of_Some [of V j e, OF j] pos placed(5-7)] by linarith
      then have "k \<le> j \<or> j * fs_sector s + 4 + length e \<le> k * fs_sector s"
        using mult_le_mono1 [of "j + fs_blocks (of_nat (length e)) s" k "fs_sector s"] block_bounds(11) [OF h j]
        by (auto simp: add_mult_distrib)
      then have "mem_read (dev_view s') (payload (sector_size s) j) (length e) = e"
        using frame_payload [OF h j k _ placed(9)] by blast
      then show ?thesis using hd(5) [OF j] g by simp
    qed
    then have hs: "holds s' (V(k \<mapsto> ?d))"
      unfolding holds_def using placed(3,4) len by (simp del: of_nat_unat)
    have kd: "(V(k \<mapsto> ?d)) k = Some ?d" by simp
    show ?thesis
      using that(2) [of k s' ?d] placed(1) none hs g block_bounds(8) [OF hs kd] by (simp add: payload_addr)
  qed
qed

lemma store_free:
  assumes h: "holds s V" and k: "V k = Some d"
  defines "s' \<equiv> fs_free (payload (sector_size s) k) s"
  shows "holds s' (V(k := None))" "geo s' = geo s"
proof -
  note hd = holdsD [OF h]
  note b = block_bounds [OF h k]
  note f = fs_free_live [OF hd(1,4) live_of_Some [of V k d, OF k], folded payload_addr, folded s'_def]
  note g = geo_frame [OF hd(3) b(1,2) f(9,4,5,7)]
  show "geo s' = geo s" by (rule g)
  have "length e < 4294967296 \<and> mem_read (dev_view s') (payload (sector_size s') j) (length e) = e"
    if "(V(k := None)) j = Some e" for j e
  proof -
    have j: "V j = Some e" "j \<noteq> k" using that by (auto split: if_splits)
    have "k \<le> j \<or> j * fs_sector s + 4 + length e \<le> k * fs_sector s"
      using blocks_disjoint [OF h k j] mult_le_mono1 [of j k "fs_sector s"] by linarith
    then have "mem_read (dev_view s') (payload (sector_size s) j) (length e) = e"
      using frame_payload [OF h j(1) b(1,2) _ f(9)] by blast
    then show ?thesis using hd(5) [OF j(1)] g by simp
  qed
  then show "holds s' (V(k := None))" unfolding holds_def using f(1,2) by simp
qed

end
