(* ===== verification/FsFileRep.thy ===== *)
theory FsFileRep
  imports FsFile FsStore
begin

text \<open>
  When blocks of the store represent a file: the header block, the chain of extents that hang off it and
  the bytes these hold. Bytes of the chain past the recorded size are zero: they are left over when the
  device fills up halfway through a growth.
\<close>

section \<open>Byte codecs\<close>

definition block_header_wf :: "fs_block_header \<Rightarrow> bool" where
  "block_header_wf b \<longleftrightarrow> length (bh_name b) = 16 \<and> length (bh_padding b) = 6"

lemma length_file_extent_bytes [simp]: "length (file_extent_bytes e) = 12"
  by (simp add: file_extent_bytes_def)

lemma length_block_header_bytes [simp]: "block_header_wf b \<Longrightarrow> length (block_header_bytes b) = 32"
  by (simp add: block_header_bytes_def block_header_wf_def)

lemma length_file_header_bytes [simp]: "block_header_wf (fh_block h) \<Longrightarrow> length (file_header_bytes h) = 44"
  by (simp add: file_header_bytes_def)

lemma bytes_file_extent_bytes [simp]: "bytes_file_extent (file_extent_bytes e) = e"
  by (simp add: bytes_file_extent_def file_extent_bytes_def)

lemma bytes_block_header_bytes [simp]: "block_header_wf b \<Longrightarrow> bytes_block_header (block_header_bytes b) = b"
  by (simp add: bytes_block_header_def block_header_bytes_def block_header_wf_def nth_append)

lemma bytes_file_header_bytes [simp]:
  "block_header_wf (fh_block h) \<Longrightarrow> bytes_file_header (file_header_bytes h) = h"
  by (simp add: bytes_file_header_def file_header_bytes_def)

section \<open>Chains\<close>

text \<open>\<open>seg V ss a es b\<close>: from address \<open>a\<close> the links run through the extents \<open>es\<close> to address \<open>b\<close>.\<close>

fun seg :: "store \<Rightarrow> u32 \<Rightarrow> u32 \<Rightarrow> (nat \<times> u8 list) list \<Rightarrow> u32 \<Rightarrow> bool" where
  "seg V ss a [] b \<longleftrightarrow> a = b"
| "seg V ss a ((k, d) # es) b \<longleftrightarrow>
     a = payload ss k
     \<and> (\<exists>e slack. V k = Some (file_extent_bytes e @ d @ slack) \<and> fe_size e = of_nat (length d)
           \<and> seg V ss (fe_next e) es b)"

abbreviation chain :: "store \<Rightarrow> u32 \<Rightarrow> u32 \<Rightarrow> (nat \<times> u8 list) list \<Rightarrow> bool" where
  "chain V ss a es \<equiv> seg V ss a es FS_NULL"

definition content :: "(nat \<times> u8 list) list \<Rightarrow> u8 list" where
  "content es = concat (map snd es)"

lemma content_simps [simp]: "content [] = []" "content ((k, d) # es) = d @ content es"
  "content (es @ es') = content es @ content es'"
  by (simp_all add: content_def)

lemma seg_append: "seg V ss a (es @ es') b \<longleftrightarrow> (\<exists>c. seg V ss a es c \<and> seg V ss c es' b)"
  by (induction V ss a es b rule: seg.induct) auto

lemma seg_upd: "k \<notin> fst ` set es \<Longrightarrow> seg (V(k := x)) ss a es b = seg V ss a es b"
  by (induction V ss a es b rule: seg.induct) auto

lemma seg_cong: "(\<And>k. k \<in> fst ` set es \<Longrightarrow> V' k = V k) \<Longrightarrow> seg V' ss a es b = seg V ss a es b"
  by (induction V ss a es b rule: seg.induct) auto

lemma seg_dom: "seg V ss a es b \<Longrightarrow> (k, d) \<in> set es \<Longrightarrow>
    \<exists>e slack. V k = Some (file_extent_bytes e @ d @ slack) \<and> fe_size e = of_nat (length d)"
  by (induction V ss a es b rule: seg.induct) auto

text \<open>The blocks of a store do not overlap, so what they hold together fits on the device.\<close>

lemma blocks_sum:
  assumes h: "holds s V" and K: "finite K" "K \<subseteq> dom V"
  shows "(\<Sum>k\<in>K. fs_blocks (of_nat (length (the (V k)))) s) \<le> fs_cap s"
proof -
  let ?n = "\<lambda>k. fs_blocks (of_nat (length (the (V k)))) s"
  let ?A = "\<lambda>k. {k ..< k + ?n k}"
  have live: "live_of V k = Some (of_nat (length (the (V k))))" if "k \<in> K" for k
    using that K(2) by (auto simp: live_of_def)
  have "?A i \<inter> ?A j = {}" if "i \<in> K" "j \<in> K" "i \<noteq> j" for i j
    using alloc_inv_disjoint [OF holdsD(4) [OF h] live [OF that(1)] live [OF that(2)] that(3)] by auto
  then have "card (\<Union> (?A ` K)) = (\<Sum>k\<in>K. card (?A k))" using K(1) by (intro card_UN_disjoint) auto
  moreover have "\<Union> (?A ` K) \<subseteq> {..<fs_cap s}"
    using alloc_inv_live(2) [OF holdsD(4) [OF h] live] by (auto intro: order_less_le_trans)
  ultimately show ?thesis using card_mono [of "{..<fs_cap s}" "\<Union> (?A ` K)"] by simp
qed

lemma store_total:
  assumes h: "holds s V" and ks: "distinct ks" "set ks \<subseteq> dom V"
  shows "(\<Sum>k\<leftarrow>ks. 4 + length (the (V k))) \<le> fs_cap s * fs_sector s"
proof -
  let ?n = "\<lambda>k. fs_blocks (of_nat (length (the (V k)))) s"
  have "(\<Sum>k\<leftarrow>ks. 4 + length (the (V k))) \<le> (\<Sum>k\<leftarrow>ks. ?n k * fs_sector s)"
    using ks(2) block_bounds(11) [OF h] by (intro sum_list_mono) fastforce
  also have "\<dots> = (\<Sum>k\<leftarrow>ks. ?n k) * fs_sector s" by (simp add: sum_list_mult_const)
  also have "(\<Sum>k\<leftarrow>ks. ?n k) = (\<Sum>k\<in>set ks. ?n k)" using ks(1) by (simp add: sum_list_distinct_conv_sum_set)
  also have "\<dots> * fs_sector s \<le> fs_cap s * fs_sector s" using blocks_sum [OF h _ ks(2)] by simp
  finally show ?thesis .
qed

lemma content_bound:
  assumes h: "holds s V" and c: "seg V ss a es b" and "distinct (map fst es)"
  shows "length (content es) + fs_sector s < 4294967296"
proof -
  have "length (content es) \<le> (\<Sum>k\<leftarrow>map fst es. 4 + length (the (V k)))"
    using c
  proof (induction V ss a es b rule: seg.induct)
    case (2 V ss a k d es b)
    then obtain e slack where "V k = Some (file_extent_bytes e @ d @ slack)" "seg V ss (fe_next e) es b" by auto
    with 2(1) show ?case by (fastforce intro: trans_le_add2)
  qed simp
  also have "\<dots> \<le> fs_cap s * fs_sector s"
    using seg_dom [OF c] assms(3) by (intro store_total [OF h]) fastforce+
  finally show ?thesis using holdsD(3) [OF h] unfolding fs_geom_def by linarith
qed

section \<open>Reading headers and extents\<close>

lemma extent_image_read:
  assumes h: "holds s V" and V: "V k = Some (file_extent_bytes e @ d)"
  obtains s1 where "fs_file_extent_read (payload (sector_size s) k) s = (Some e, s1)" "holds s1 V" "geo s1 = geo s"
proof -
  let ?a = "payload (sector_size s) k"
  obtain bs s1 where r: "fs_mem_read (?a - ALLOC_HEADER) 4 s = (bs, s1)"
    "(le_word bs :: u32) = of_nat (length (file_extent_bytes e @ d))" "holds s1 V" "geo s1 = geo s"
    using size_read [OF h V] by metis
  note g1 = geoD [OF r(4)]
  obtain s2 where r2: "fs_mem_read ?a 12 s1 = (take 12 (file_extent_bytes e @ d), s2)" "holds s2 V" "geo s2 = geo s1"
    using payload_read [OF r(3) V, of 0 12] g1 by auto
  have "unat (of_nat (length (file_extent_bytes e @ d)) :: u32) = 12 + length d"
    using unat_of_nat_u32 [OF holdsD(5) [OF h V]] by simp
  then have "\<not> le_word bs < FILE_EXTENT" unfolding r(2) by (simp add: word_less_nat_alt FILE_EXTENT_def)
  then have "fs_file_extent_read ?a s = (Some e, s2)"
    using r(1) r2(1) block_bounds(8) [OF h V] by (simp add: fs_file_extent_read_def)
  then show thesis using that r2 r(4) by simp
qed

lemma header_image_read:
  assumes h: "holds s V" and V: "V k = Some (file_header_bytes f @ slack)" and wf: "block_header_wf (fh_block f)"
  obtains s1 where "file_header_read (payload (sector_size s) k) s = (f, s1)" "holds s1 V" "geo s1 = geo s"
  using payload_read [OF h V, of 0 44] wf that by (force simp: file_header_read_def)

lemma file_check_image:
  assumes h: "holds s V" and V: "V k = Some (file_header_bytes f @ slack)" and wf: "block_header_wf (fh_block f)"
    and nd: "bh_attributes (fh_block f) AND FS_ATTRIBUTE_DIRECTORY = 0"
  obtains s1 where "fs_file_check (payload (sector_size s) k) s = (True, s1)" "holds s1 V" "geo s1 = geo s"
proof -
  let ?a = "payload (sector_size s) k"
  obtain bs s1 where r: "fs_mem_read (?a - ALLOC_HEADER) 4 s = (bs, s1)"
    "(le_word bs :: u32) = of_nat (length (file_header_bytes f @ slack))" "holds s1 V" "geo s1 = geo s"
    using size_read [OF h V] by metis
  obtain s2 where r2: "file_header_read ?a s1 = (f, s2)" "holds s2 V" "geo s2 = geo s1"
    using header_image_read [OF r(3) V wf] geoD(1) [OF r(4)] by metis
  have "unat (of_nat (length (file_header_bytes f @ slack)) :: u32) = 44 + length slack"
    using unat_of_nat_u32 [OF holdsD(5) [OF h V]] wf by simp
  then have "\<not> le_word bs < FILE_HEADER" unfolding r(2) by (simp add: word_less_nat_alt FILE_HEADER_def)
  then have "fs_file_check ?a s = (True, s2)"
    using r(1) r2(1) nd block_bounds(8) [OF h V] by (simp add: fs_file_check_def)
  then show thesis using that r2 r(4) by simp
qed

section \<open>Files\<close>

text \<open>\<open>file_at V ss k f es data\<close>: block \<open>k\<close> is the header \<open>f\<close> of a file of extents \<open>es\<close> with contents \<open>data\<close>.\<close>

definition file_at :: "store \<Rightarrow> u32 \<Rightarrow> nat \<Rightarrow> fs_file_header \<Rightarrow> (nat \<times> u8 list) list \<Rightarrow> u8 list \<Rightarrow> bool" where
  "file_at V ss k f es data \<longleftrightarrow>
     (\<exists>slack. V k = Some (file_header_bytes f @ slack)) \<and> block_header_wf (fh_block f)
     \<and> bh_attributes (fh_block f) AND FS_ATTRIBUTE_DIRECTORY = 0
     \<and> chain V ss (fh_next f) es \<and> distinct (k # map fst es)
     \<and> fh_size f = of_nat (length data) \<and> (\<exists>j. content es = data @ replicate j 0)"

lemma file_atE:
  assumes "file_at V ss k f es data"
  obtains slack j where "V k = Some (file_header_bytes f @ slack)" "block_header_wf (fh_block f)"
    "bh_attributes (fh_block f) AND FS_ATTRIBUTE_DIRECTORY = 0" "chain V ss (fh_next f) es" "k \<notin> fst ` set es"
    "distinct (map fst es)" "fh_size f = of_nat (length data)" "content es = data @ replicate j 0"
  using assms unfolding file_at_def by auto

lemma file_size_bound:
  assumes "holds s V" "file_at V (sector_size s) k f es data"
  shows "length data + fs_sector s < 4294967296" "length (content es) < 4294967296"
    "unat (fh_size f) = length data" "length data \<le> length (content es)"
proof -
  obtain slack j where f: "chain V (sector_size s) (fh_next f) es" "distinct (map fst es)"
    "fh_size f = of_nat (length data)" "content es = data @ replicate j 0"
    using assms(2) by (rule file_atE)
  note b = content_bound [OF assms(1) f(1,2)]
  show "length data + fs_sector s < 4294967296" "length (content es) < 4294967296"
    "length data \<le> length (content es)" using b f(4) by simp_all
  then show "unat (fh_size f) = length data" unfolding f(3) using b f(4) by (intro unat_of_nat_u32) simp
qed

lemma get_size_file:
  assumes h: "holds s V" and f: "file_at V (sector_size s) k f es data"
  obtains s1 where "fs_file_get_size (payload (sector_size s) k) s = (fh_size f, s1)" "holds s1 V" "geo s1 = geo s"
proof -
  obtain slack j where V: "V k = Some (file_header_bytes f @ slack)" "block_header_wf (fh_block f)"
    "bh_attributes (fh_block f) AND FS_ATTRIBUTE_DIRECTORY = 0" using f by (rule file_atE)
  obtain s1 where c: "fs_file_check (payload (sector_size s) k) s = (True, s1)" "holds s1 V" "geo s1 = geo s"
    using file_check_image [OF h V] by metis
  obtain s2 where r: "file_header_read (payload (sector_size s) k) s1 = (f, s2)" "holds s2 V" "geo s2 = geo s1"
    using header_image_read [OF c(2) V(1,2)] geoD(1) [OF c(3)] by metis
  show thesis using that [of s2] c r by (simp add: fs_file_get_size_def)
qed

section \<open>The read loop\<close>

text \<open>What one round of the read and write loops touches: the part of the request inside the extent.\<close>

definition span_chunk :: "u32 \<Rightarrow> u32 \<Rightarrow> u32 \<Rightarrow> u32 \<Rightarrow> u32" where
  "span_chunk ro rem b sz = (if rem > sz - (ro - b) then sz - (ro - b) else rem)"

lemma extent_span:
  assumes b: "unat b \<le> unat ro" "unat b + n < 4294967296" and sz: "unat sz = n"
  shows "(ro \<ge> b \<and> ro < b + sz) = (unat ro < unat b + n)" "unat (b + sz) = unat b + n"
    "unat (ro - b) = unat ro - unat b"
    "unat ro < unat b + n \<Longrightarrow> unat (span_chunk ro rem b sz) = min (unat rem) (unat b + n - unat ro)"
proof -
  show s: "unat (b + sz) = unat b + n" using b sz by (subst unat_add_u32) simp_all
  then show "(ro \<ge> b \<and> ro < b + sz) = (unat ro < unat b + n)"
    using b by (simp add: word_less_nat_alt word_le_nat_alt)
  show i: "unat (ro - b) = unat ro - unat b" by (rule unat_sub_u32 [OF b(1)])
  assume "unat ro < unat b + n"
  then have "unat (sz - (ro - b)) = unat b + n - unat ro" using i sz b by (subst unat_sub_u32) simp_all
  then show "unat (span_chunk ro rem b sz) = min (unat rem) (unat b + n - unat ro)"
    by (simp add: span_chunk_def word_less_nat_alt min_def)
qed

lemma take_drop_append:
  "i \<le> length d \<Longrightarrow> n = min r (length d - i) \<Longrightarrow> 0 < r - n \<longrightarrow> j = 0 \<Longrightarrow>
     take n (drop i d) @ take (r - n) (drop j c) = take r (drop i (d @ c))"
  by (cases "r \<le> length d - i") auto

lemma read_loop_chain:
  assumes "holds s V" "chain V (sector_size s) cur es" "unat b + length (content es) < 4294967296"
    and "unat ro + unat rem \<le> unat b + length (content es)" "0 < unat rem \<Longrightarrow> unat b \<le> unat ro"
  shows "\<exists>s'. read_loop cur ro rem b out s
           = Some (0, out @ take (unat rem) (drop (unat ro - unat b) (content es)), s')
         \<and> holds s' V \<and> geo s' = geo s"
  using assms
proof (induction es arbitrary: cur b ro rem out s)
  case Nil
  then have "\<not> 0 < unat rem" by auto
  then have "rem = 0" by (simp add: unat_eq_0)
  then show ?case using Nil by (subst read_loop.simps) simp
next
  case (Cons kd es)
  obtain k d where kd: "kd = (k, d)" by (cases kd)
  note h = Cons.prems(1)
  show ?case
  proof (cases "rem = 0")
    case True
    then show ?thesis using h by (subst read_loop.simps) simp
  next
    case False
    then have rem: "rem > 0" "0 < unat rem" by (simp_all add: word_gt_0 unat_gt_0)
    obtain e slack where c: "cur = payload (sector_size s) k" "V k = Some (file_extent_bytes e @ d @ slack)"
      "fe_size e = of_nat (length d)" "chain V (sector_size s) (fe_next e) es"
      using Cons.prems(2) by (auto simp: kd)
    obtain s1 where r1: "fs_file_extent_read cur s = (Some e, s1)" "holds s1 V" "geo s1 = geo s"
      using extent_image_read [OF h c(2)] c(1) by metis
    have ss: "sector_size s1 = sector_size s" by (rule geoD(1) [OF r1(3)])
    have null: "cur \<noteq> FS_NULL" using block_bounds(8) [OF h c(2)] c(1) by simp
    have sz: "unat (fe_size e) = length d"
      unfolding c(3) using holdsD(5) [OF h c(2)] by (intro unat_of_nat_u32) simp
    have b: "unat b \<le> unat ro" "unat b + length d < 4294967296" using Cons.prems(3,5) rem by (simp_all add: kd)
    note x = extent_span [OF b sz]
    let ?next = "\<lambda>ro' rem' out' s'. read_loop (fe_next e) ro' rem' (b + fe_size e) out' s'"
    show ?thesis
    proof (cases "unat ro < unat b + length d")
      case False
      then have "read_loop cur ro rem b out s = ?next ro rem out s1"
        using rem null r1(1) x(1) by (subst read_loop.simps) auto
      then show ?thesis
        using Cons.IH [OF r1(2), of "fe_next e" "b + fe_size e" ro rem out] c(4) Cons.prems(3-5) False x(2) ss r1(3)
        by (auto simp: kd)
    next
      case True
      define n where "n = span_chunk ro rem b (fe_size e)"
      have n: "unat n = min (unat rem) (unat b + length d - unat ro)" unfolding n_def by (rule x(4) [OF True])
      let ?i = "unat ro - unat b"
      have addr: "cur + FILE_EXTENT + (ro - b) = payload (sector_size s) k + of_nat (12 + ?i)"
        by (simp add: c(1) FILE_EXTENT_def x(3) [symmetric])
      obtain s2 where r2: "fs_mem_read (cur + FILE_EXTENT + (ro - b)) (unat n) s1
          = (take (unat n) (drop (12 + ?i) (file_extent_bytes e @ d @ slack)), s2)" "holds s2 V" "geo s2 = geo s1"
      proof (rule payload_read [OF r1(2) c(2)])
        show "12 + ?i + unat n \<le> length (file_extent_bytes e @ d @ slack)" using n b True by simp
      qed (use addr ss that in simp)
      have bs: "take (unat n) (drop (12 + ?i) (file_extent_bytes e @ d @ slack)) = take (unat n) (drop ?i d)"
        using n b True by simp
      have step: "read_loop cur ro rem b out s = ?next (ro + n) (rem - n) (out @ take (unat n) (drop ?i d)) s2"
        using rem null r1(1) x(1) True r2(1) bs
        by (subst read_loop.simps) (auto simp: Let_def n_def span_chunk_def)
      have w: "unat (rem - n) = unat rem - unat n" "unat (ro + n) = unat ro + unat n"
        using n Cons.prems(3,4) by (subst unat_sub_u32 unat_add_u32; simp add: kd)+
      have "\<exists>s'. ?next (ro + n) (rem - n) (out @ take (unat n) (drop ?i d)) s2
          = Some (0, (out @ take (unat n) (drop ?i d))
              @ take (unat (rem - n)) (drop (unat (ro + n) - unat (b + fe_size e)) (content es)), s')
          \<and> holds s' V \<and> geo s' = geo s2"
        using c(4) Cons.prems(3,4) True ss geoD(1) [OF r2(3)]
        by (intro Cons.IH [OF r2(2)]) (auto simp: kd x(2) w n)
      moreover have "take (unat n) (drop ?i d) @ take (unat (rem - n)) (drop (unat (ro + n) - unat (b + fe_size e)) (content es))
          = take (unat rem) (drop ?i (content (kd # es)))"
        unfolding w x(2) kd content_simps using True b n by (intro take_drop_append) auto
      ultimately show ?thesis using step r1(3) r2(3) by auto
    qed
  qed
qed

section \<open>The write loop\<close>

text \<open>Overwriting part of an extent's data.\<close>

lemma extent_data_write:
  assumes h: "holds s V" and V: "V k = Some (file_extent_bytes e @ d @ slack)" and i: "i + length bs \<le> length d"
  defines "s' \<equiv> fs_mem_write (payload (sector_size s) k + of_nat (12 + i)) bs s"
  shows "holds s' (V(k \<mapsto> file_extent_bytes e @ patch i bs d @ slack))" "geo s' = geo s"
proof -
  have "12 + i + length bs \<le> length (file_extent_bytes e @ d @ slack)" using i by simp
  note w = payload_write [OF h V this, folded s'_def]
  show "geo s' = geo s" by (rule w)
  have "patch (12 + i) bs (file_extent_bytes e @ d @ slack) = file_extent_bytes e @ patch i bs d @ slack"
    using i by (simp add: patch_append1 patch_append2)
  then show "holds s' (V(k \<mapsto> file_extent_bytes e @ patch i bs d @ slack))" using w(1) by simp
qed

text \<open>\<open>V'\<close> has the extents \<open>es'\<close> where \<open>V\<close> has \<open>es\<close>, in the same blocks, and is otherwise the same.\<close>

definition rechained :: "store \<Rightarrow> (nat \<times> u8 list) list \<Rightarrow> store \<Rightarrow> (nat \<times> u8 list) list \<Rightarrow> bool" where
  "rechained V es V' es' \<longleftrightarrow> map fst es' = map fst es \<and> (\<forall>k. k \<notin> fst ` set es \<longrightarrow> V' k = V k)"

lemma write_loop_chain:
  assumes "holds s V" "chain V (sector_size s) cur es" "unat b + length (content es) < 4294967296"
    and "distinct (map fst es)"
    and "unat ro + unat rem \<le> unat b + length (content es)" "0 < unat rem \<Longrightarrow> unat b \<le> unat ro"
    and "length src = unat rem"
  shows "\<exists>s' V' es'. write_loop cur ro src rem b s = Some (0, s') \<and> holds s' V' \<and> geo s' = geo s
         \<and> chain V' (sector_size s) cur es' \<and> rechained V es V' es'
         \<and> content es' = patch (unat ro - unat b) src (content es)"
  using assms
proof (induction es arbitrary: cur b ro rem src s V)
  case Nil
  then have "\<not> 0 < unat rem" by auto
  then have "rem = 0" by (simp add: unat_eq_0)
  then show ?case
    using Nil by (subst write_loop.simps) (auto intro!: exI [of _ V] exI [of _ "[]"] simp: rechained_def)
next
  case (Cons kd es)
  obtain k d where kd: "kd = (k, d)" by (cases kd)
  note h = Cons.prems(1)
  show ?case
  proof (cases "rem = 0")
    case True
    then show ?thesis
      using Cons.prems by (subst write_loop.simps) (auto intro!: exI [of _ V] exI [of _ "kd # es"] simp: rechained_def)
  next
    case False
    then have rem: "rem > 0" "0 < unat rem" by (simp_all add: word_gt_0 unat_gt_0)
    obtain e slack where c: "cur = payload (sector_size s) k" "V k = Some (file_extent_bytes e @ d @ slack)"
      "fe_size e = of_nat (length d)" "chain V (sector_size s) (fe_next e) es"
      using Cons.prems(2) by (auto simp: kd)
    obtain s1 where r1: "fs_file_extent_read cur s = (Some e, s1)" "holds s1 V" "geo s1 = geo s"
      using extent_image_read [OF h c(2)] c(1) by metis
    have ss: "sector_size s1 = sector_size s" by (rule geoD(1) [OF r1(3)])
    have null: "cur \<noteq> FS_NULL" using block_bounds(8) [OF h c(2)] c(1) by simp
    have sz: "unat (fe_size e) = length d"
      unfolding c(3) using holdsD(5) [OF h c(2)] by (intro unat_of_nat_u32) simp
    have b: "unat b \<le> unat ro" "unat b + length d < 4294967296" using Cons.prems(3,6) rem by (simp_all add: kd)
    note x = extent_span [OF b sz]
    have dk: "k \<notin> fst ` set es" "distinct (map fst es)" using Cons.prems(4) by (simp_all add: kd)
    let ?next = "\<lambda>ro' src' rem' s'. write_loop (fe_next e) ro' src' rem' (b + fe_size e) s'"
    show ?thesis
    proof (cases "unat ro < unat b + length d")
      case False
      then have "write_loop cur ro src rem b s = ?next ro src rem s1"
        using rem null r1(1) x(1) by (subst write_loop.simps) auto
      moreover have "\<exists>s' V' es'. ?next ro src rem s1 = Some (0, s') \<and> holds s' V' \<and> geo s' = geo s1
         \<and> chain V' (sector_size s1) (fe_next e) es' \<and> rechained V es V' es'
         \<and> content es' = patch (unat ro - unat (b + fe_size e)) src (content es)"
        using c(4) dk Cons.prems(3,5,7) False x(2) ss by (intro Cons.IH [OF r1(2)]) (auto simp: kd)
      moreover have "patch (unat ro - unat b) src (d @ content es)
          = d @ patch (unat ro - unat (b + fe_size e)) src (content es)"
        using False x(2) by (subst patch_append1) auto
      ultimately obtain s' V' es' where w: "write_loop cur ro src rem b s = Some (0, s')" "holds s' V'" "geo s' = geo s1"
        "chain V' (sector_size s1) (fe_next e) es'" "rechained V es V' es'"
        "d @ content es' = patch (unat ro - unat b) src (d @ content es)" by auto
      have "V' k = V k" using w(5) dk by (simp add: rechained_def)
      then show ?thesis
        using w c r1(3) ss
        by (intro exI [of _ s'] exI [of _ V'] exI [of _ "(k, d) # es'"]) (auto simp: kd rechained_def)
    next
      case True
      define n where "n = span_chunk ro rem b (fe_size e)"
      have n: "unat n = min (unat rem) (unat b + length d - unat ro)" unfolding n_def by (rule x(4) [OF True])
      let ?i = "unat ro - unat b" and ?bs = "take (unat n) src"
      have addr: "cur + FILE_EXTENT + (ro - b) = payload (sector_size s1) k + of_nat (12 + ?i)"
        by (simp add: c(1) FILE_EXTENT_def x(3) [symmetric] ss)
      let ?V = "V(k \<mapsto> file_extent_bytes e @ patch ?i ?bs d @ slack)"
      let ?s = "fs_mem_write (cur + FILE_EXTENT + (ro - b)) ?bs s1"
      have fit: "?i + length ?bs \<le> length d" using n b True Cons.prems(7) by simp
      have w1: "holds ?s ?V" "geo ?s = geo s1"
        unfolding addr by (rule extent_data_write [OF r1(2) c(2) fit])+
      have step: "write_loop cur ro src rem b s = ?next (ro + n) (drop (unat n) src) (rem - n) ?s"
        using rem null r1(1) x(1) True n Cons.prems(7)
        by (subst write_loop.simps) (auto simp: Let_def n_def span_chunk_def)
      have w: "unat (rem - n) = unat rem - unat n" "unat (ro + n) = unat ro + unat n"
        using n Cons.prems(3,5) by (subst unat_sub_u32 unat_add_u32; simp add: kd)+
      have "\<exists>s' V' es'. ?next (ro + n) (drop (unat n) src) (rem - n) ?s = Some (0, s') \<and> holds s' V' \<and> geo s' = geo ?s
         \<and> chain V' (sector_size ?s) (fe_next e) es' \<and> rechained ?V es V' es'
         \<and> content es' = patch (unat (ro + n) - unat (b + fe_size e)) (drop (unat n) src) (content es)"
      proof (rule Cons.IH [OF w1(1)])
        show "chain ?V (sector_size ?s) (fe_next e) es"
          using c(4) geoD(1) [OF w1(2)] ss by (simp only: seg_upd [OF dk(1)])
      qed (use dk Cons.prems(3,5,7) True n in \<open>auto simp: kd x(2) w\<close>)
      then obtain s' V' es' where q: "write_loop cur ro src rem b s = Some (0, s')" "holds s' V'" "geo s' = geo s"
        "chain V' (sector_size s) (fe_next e) es'" "rechained ?V es V' es'"
        "content es' = patch (unat (ro + n) - unat (b + fe_size e)) (drop (unat n) src) (content es)"
        using step w1(2) r1(3) geoD(1) [OF w1(2)] ss by auto
      have "patch ?i ?bs d @ content es' = patch ?i src (d @ content es)"
        unfolding q(6) w x(2) using True b n Cons.prems(7) by (intro patch_split) auto
      moreover have "V' k = Some (file_extent_bytes e @ patch ?i ?bs d @ slack)"
        using q(5) dk by (simp add: rechained_def)
      ultimately show ?thesis
        using q c(1,3) fit
        by (intro exI [of _ s'] exI [of _ V'] exI [of _ "(k, patch ?i ?bs d) # es'"]) (auto simp: kd rechained_def)
    qed
  qed
qed

end
