(* ===== verification/FsFileProps.thy ===== *)
theory FsFileProps
  imports FsFileRep FsFormat
begin

text \<open>
  What the file operations do to a file's contents and to the rest of the device: deletion, resizing,
  writing and reading, each over the representation \<open>file_at\<close>.
\<close>

section \<open>Freeing a chain\<close>

lemma free_chain_seg:
  assumes "holds s V" "chain V (sector_size s) a es" "distinct (map fst es)"
  shows "\<exists>s'. free_chain a s = Some s' \<and> holds s' (V |` (- fst ` set es)) \<and> geo s' = geo s"
  using assms
proof (induction es arbitrary: a s V)
  case Nil
  then show ?case by (subst free_chain.simps) (simp add: restrict_map_def)
next
  case (Cons kd es)
  obtain k d where kd: "kd = (k, d)" by (cases kd)
  obtain e slack where c: "a = payload (sector_size s) k" "V k = Some (file_extent_bytes e @ d @ slack)"
    "chain V (sector_size s) (fe_next e) es"
    using Cons.prems(2) by (auto simp: kd)
  note h = Cons.prems(1)
  obtain s1 where r: "fs_file_extent_read a s = (Some e, s1)" "holds s1 V" "geo s1 = geo s"
    using extent_image_read [OF h c(2)] c(1) by metis
  have ss: "sector_size s1 = sector_size s" by (rule geoD(1) [OF r(3)])
  let ?s = "fs_free a s1"
  have f: "holds ?s (V(k := None))" "geo ?s = geo s1"
    unfolding c(1) using store_free [OF r(2) c(2)] ss by simp_all
  have k: "k \<notin> fst ` set es" "distinct (map fst es)" using Cons.prems(3) by (simp_all add: kd)
  have "chain (V(k := None)) (sector_size ?s) (fe_next e) es"
    using c(3) geoD(1) [OF f(2)] ss by (simp only: seg_upd [OF k(1)])
  from Cons.IH [OF f(1) this k(2)] obtain s' where s': "free_chain (fe_next e) ?s = Some s'"
    "holds s' (V(k := None) |` (- fst ` set es))" "geo s' = geo ?s" by blast
  have "V(k := None) |` (- fst ` set es) = V |` (- fst ` set (kd # es))"
    by (auto simp: restrict_map_def fun_eq_iff kd)
  moreover have "free_chain a s = free_chain (fe_next e) ?s"
    using r(1) block_bounds(8) [OF h c(2)] c(1) by (subst free_chain.simps) simp
  ultimately show ?case using s' f(2) r(3) by auto
qed

text \<open>The loop of \<open>fs_file_delete\<close> gives up where the other one reads an undefined extent.\<close>

lemma delete_loop_free_chain:
  assumes "free_chain a s = Some s'"
  shows "delete_loop a s = Some s'"
proof (rule free_chain.raw_induct [OF _ assms])
  fix loop a s s'
  assume "\<And>a s s'. loop a s = Some s' \<Longrightarrow> delete_loop a s = Some s'"
    and "(if a = FS_NULL then Some s
          else let es = fs_file_extent_read a s
               in case fst es of None \<Rightarrow> None | Some ext \<Rightarrow> loop (fe_next ext) (fs_free a (snd es))) = Some s'"
  then show "delete_loop a s = Some s'"
    by (subst delete_loop.simps) (auto simp: Let_def split: if_splits option.splits)
qed

lemma file_delete_full:
  assumes h: "holds s V" and f: "file_at V (sector_size s) k f es data"
  shows "\<exists>s'. fs_file_delete (payload (sector_size s) k) s = Some (True, s')
    \<and> holds s' (V |` (- insert k (fst ` set es))) \<and> geo s' = geo s"
proof -
  let ?a = "payload (sector_size s) k"
  obtain slack where V: "V k = Some (file_header_bytes f @ slack)" "block_header_wf (fh_block f)"
    "bh_attributes (fh_block f) AND FS_ATTRIBUTE_DIRECTORY = 0"
    and c: "chain V (sector_size s) (fh_next f) es" "k \<notin> fst ` set es" "distinct (map fst es)"
    using f by (rule file_atE)
  obtain s1 where s1: "fs_file_check ?a s = (True, s1)" "holds s1 V" "geo s1 = geo s"
    using file_check_image [OF h V] by metis
  note g1 = geoD(1) [OF s1(3)]
  obtain s2 where s2: "file_header_read ?a s1 = (f, s2)" "holds s2 V" "geo s2 = geo s1"
    using header_image_read [OF s1(2) V(1,2)] g1 by metis
  note g2 = geoD(1) [OF s2(3)]
  obtain s3 where s3: "free_chain (fh_next f) s2 = Some s3" "holds s3 (V |` (- fst ` set es))" "geo s3 = geo s2"
    using free_chain_seg [OF s2(2) _ c(3)] c(1) g1 g2 by metis
  note g3 = geoD(1) [OF s3(3)]
  have k: "(V |` (- fst ` set es)) k = Some (file_header_bytes f @ slack)" using V(1) c(2) by simp
  have "(V |` (- fst ` set es))(k := None) = V |` (- insert k (fst ` set es))"
    by (auto simp: restrict_map_def fun_eq_iff)
  then show ?thesis
    using s1(1,3) s2(1,3) s3(3) delete_loop_free_chain [OF s3(1)] store_free [OF s3(2) k] g1 g2 g3
    by (simp add: fs_file_delete_def)
qed

section \<open>Shrinking\<close>

lemma extent_link_write:
  fixes e' :: fs_file_extent
  assumes h: "holds s V" and V: "V k = Some (file_extent_bytes e @ rest)"
  defines "s' \<equiv> fs_file_extent_write (payload (sector_size s) k) e' s"
  shows "holds s' (V(k \<mapsto> file_extent_bytes e' @ rest))" "geo s' = geo s"
proof -
  have "0 + length (file_extent_bytes e') \<le> length (file_extent_bytes e @ rest)" by simp
  note w = payload_write [OF h V this]
  show "holds s' (V(k \<mapsto> file_extent_bytes e' @ rest))" "geo s' = geo s"
    using w unfolding s'_def fs_file_extent_write_def by (simp_all add: patch_def)
qed

lemma header_image_write:
  assumes h: "holds s V" and V: "V k = Some (file_header_bytes f @ slack)"
    and wf: "block_header_wf (fh_block f)" "block_header_wf (fh_block f')"
  defines "s' \<equiv> file_header_write (payload (sector_size s) k) f' s"
  shows "holds s' (V(k \<mapsto> file_header_bytes f' @ slack))" "geo s' = geo s"
proof -
  have "0 + length (file_header_bytes f') \<le> length (file_header_bytes f @ slack)" using wf by simp
  note w = payload_write [OF h V this]
  show "holds s' (V(k \<mapsto> file_header_bytes f' @ slack))" "geo s' = geo s"
    using w wf unfolding s'_def file_header_write_def by (simp_all add: patch_def)
qed

text \<open>\<open>V'\<close> keeps a prefix of the blocks of \<open>es\<close>, has freed the others and is otherwise \<open>V\<close>.\<close>

definition shrunk :: "store \<Rightarrow> (nat \<times> u8 list) list \<Rightarrow> store \<Rightarrow> (nat \<times> u8 list) list \<Rightarrow> bool" where
  "shrunk V es V' es' \<longleftrightarrow>
     map fst es' = take (length es') (map fst es) \<and> (\<forall>k. k \<notin> fst ` set es \<longrightarrow> V' k = V k)
     \<and> (\<forall>k. k \<in> fst ` set es \<longrightarrow> k \<notin> fst ` set es' \<longrightarrow> V' k = None)"

text \<open>Cutting a chain inside or right after an extent and freeing what followed.\<close>

lemma cut_after:
  assumes h: "holds s V" and V: "V k = Some (file_extent_bytes e @ d1 @ d2 @ slack)"
    and c: "seg V (sector_size s) a pre (payload (sector_size s) k)" "chain V (sector_size s) (fe_next e) rest"
    and dis: "distinct (map fst (pre @ (k, d1 @ d2) # rest))"
  defines "s1 \<equiv> fs_file_extent_write (payload (sector_size s) k)
                 (e\<lparr>fe_size := of_nat (length d1), fe_next := FS_NULL\<rparr>) s"
  shows "\<exists>s' V'. free_chain (fe_next e) s1 = Some s' \<and> holds s' V' \<and> geo s' = geo s
    \<and> chain V' (sector_size s) a (pre @ [(k, d1)]) \<and> shrunk V (pre @ (k, d1 @ d2) # rest) V' (pre @ [(k, d1)])"
proof -
  let ?e = "e\<lparr>fe_size := of_nat (length d1), fe_next := FS_NULL\<rparr>"
  let ?V = "V(k \<mapsto> file_extent_bytes ?e @ d1 @ d2 @ slack)"
  have w: "holds s1 ?V" "geo s1 = geo s" unfolding s1_def by (rule extent_link_write [OF h V])+
  note g1 = geoD(1) [OF w(2)]
  have k: "k \<notin> fst ` set rest" "k \<notin> fst ` set pre" "distinct (map fst rest)" "fst ` set pre \<inter> fst ` set rest = {}"
    using dis by auto
  have "chain ?V (sector_size s1) (fe_next e) rest" using c(2) g1 by (simp only: seg_upd [OF k(1)])
  from free_chain_seg [OF w(1) this k(3)] obtain s' where s': "free_chain (fe_next e) s1 = Some s'"
    "holds s' (?V |` (- fst ` set rest))" "geo s' = geo s1" by blast
  have "seg (?V |` (- fst ` set rest)) (sector_size s) a pre (payload (sector_size s) k)
      = seg V (sector_size s) a pre (payload (sector_size s) k)"
    using k(2,4) by (intro seg_cong) (auto simp: restrict_map_def)
  then have "chain (?V |` (- fst ` set rest)) (sector_size s) a (pre @ [(k, d1)])"
    using c(1) k(1) by (auto simp: seg_append restrict_map_def)
  moreover have "shrunk V (pre @ (k, d1 @ d2) # rest) (?V |` (- fst ` set rest)) (pre @ [(k, d1)])"
    using k by (auto simp: shrunk_def restrict_map_def)
  ultimately show ?thesis using s' w(2) by auto
qed

lemma shrunk_all:
  assumes "distinct (map fst es)"
  shows "shrunk V es (V |` (- fst ` set es)) []"
  by (auto simp: shrunk_def restrict_map_def)

lemma shrink_loop_seg:
  assumes "holds s V" "seg V (sector_size s) (fh_next f) pre cur" "chain V (sector_size s) cur es"
    and "distinct (map fst (pre @ es))" "length (content (pre @ es)) < 4294967296"
    and "unat acc = length (content pre)" "is_first = (pre = [])"
    and "pre \<noteq> [] \<Longrightarrow> prev = payload (sector_size s) (fst (last pre))"
    and "length (content pre) \<le> unat new" "unat new < length (content (pre @ es))"
  shows "\<exists>s' V' n es'. shrink_loop new cur prev acc is_first f s = Some (f\<lparr>fh_next := n\<rparr>, s')
    \<and> holds s' V' \<and> geo s' = geo s \<and> chain V' (sector_size s) n es' \<and> shrunk V (pre @ es) V' es'
    \<and> content es' = take (unat new) (content (pre @ es))"
  using assms
proof (induction es arbitrary: cur prev acc is_first pre s)
  case Nil
  then show ?case by simp
next
  case (Cons kd es)
  obtain k d where kd: "kd = (k, d)" by (cases kd)
  obtain e slack where c: "cur = payload (sector_size s) k" "V k = Some (file_extent_bytes e @ d @ slack)"
    "fe_size e = of_nat (length d)" "chain V (sector_size s) (fe_next e) es"
    using Cons.prems(3) by (auto simp: kd)
  note h = Cons.prems(1)
  obtain s1 where r: "fs_file_extent_read cur s = (Some e, s1)" "holds s1 V" "geo s1 = geo s"
    using extent_image_read [OF h c(2)] c(1) by metis
  note g1 = geoD(1) [OF r(3)]
  have null: "cur \<noteq> FS_NULL" using block_bounds(8) [OF h c(2)] c(1) by simp
  have sz: "unat (fe_size e) = length d"
    unfolding c(3) using holdsD(5) [OF h c(2)] by (intro unat_of_nat_u32) simp
  have acc: "unat (acc + fe_size e) = length (content pre) + length d"
    using Cons.prems(5,6) sz by (subst unat_add_u32) (simp_all add: kd)
  have dis: "distinct (map fst (pre @ (k, d) # es))" using Cons.prems(4) by (simp add: kd)
  show ?case
  proof (cases "unat new < length (content pre) + length d")
    case False
    then have step: "shrink_loop new cur prev acc is_first f s
        = shrink_loop new (fe_next e) cur (acc + fe_size e) False f s1"
      using null r(1) acc by (subst shrink_loop.simps) (simp add: word_less_nat_alt)
    have s: "seg V (sector_size s1) (fh_next f) (pre @ [kd]) (fe_next e)"
      using Cons.prems(2) c g1 by (auto simp: seg_append kd)
    show ?thesis
      using Cons.IH [OF r(2) s, of "acc + fe_size e" False cur] Cons.prems(4,5,10) c(1,4) g1 acc r(3) step False
      by (auto simp: kd)
  next
    case True
    let ?keep = "new - acc"
    have keep: "unat ?keep = unat new - length (content pre)"
      using Cons.prems(6,9) by (subst unat_sub_u32) simp_all
    have gt: "acc + fe_size e > new" using True acc by (simp add: word_less_nat_alt)
    show ?thesis
    proof (cases "?keep = 0")
      case False
      then have k0: "unat ?keep \<noteq> 0" by (simp add: unat_eq_0)
      have d: "d = take (unat ?keep) d @ drop (unat ?keep) d" by simp
      have len: "length (take (unat ?keep) d) = unat ?keep" using True keep by simp
      have s1: "seg V (sector_size s1) (fh_next f) pre (payload (sector_size s1) k)"
        using Cons.prems(2) c(1) g1 by simp
      have V: "V k = Some (file_extent_bytes e @ take (unat ?keep) d @ drop (unat ?keep) d @ slack)"
        using c(2) by simp
      have ch: "chain V (sector_size s1) (fe_next e) es" using c(4) g1 by simp
      have dis': "distinct (map fst (pre @ (k, take (unat ?keep) d @ drop (unat ?keep) d) # es))" using dis by simp
      obtain s' V' where x: "free_chain (fe_next e) (fs_file_extent_write cur (e\<lparr>fe_size := ?keep, fe_next := FS_NULL\<rparr>) s1)
          = Some s'" "holds s' V'" "geo s' = geo s1"
          "chain V' (sector_size s1) (fh_next f) (pre @ [(k, take (unat ?keep) d)])"
          "shrunk V (pre @ (k, d) # es) V' (pre @ [(k, take (unat ?keep) d)])"
        using cut_after [OF r(2) V s1 ch dis'] c(1) g1 len by auto
      have "shrink_loop new cur prev acc is_first f s = Some (f, s')"
        using null r(1) gt False x(1) by (subst shrink_loop.simps) (simp add: Let_def)
      then show ?thesis
        using x(2-5) r(3) g1 keep Cons.prems(9) True
        by (intro exI [of _ s'] exI [of _ V'] exI [of _ "fh_next f"] exI [of _ "pre @ [(k, take (unat ?keep) d)]"])
          (simp add: kd)
    next
      case True
      then have new: "unat new = length (content pre)" using keep Cons.prems(9) by simp
      show ?thesis
      proof (cases "pre = []")
        case first: True
        obtain s' where x: "free_chain cur s1 = Some s'" "holds s' (V |` (- fst ` set (kd # es)))" "geo s' = geo s1"
          using free_chain_seg [OF r(2), of cur "kd # es"] Cons.prems(3) g1 dis first by (auto simp: kd)
        have "shrink_loop new cur prev acc is_first f s = Some (f\<lparr>fh_next := FS_NULL\<rparr>, s')"
          using null r(1) gt True x(1) first Cons.prems(7) by (subst shrink_loop.simps) (simp add: Let_def)
        then show ?thesis
          using x(2,3) r(3) shrunk_all [of "kd # es" V] dis first new
          by (intro exI [of _ s'] exI [of _ "V |` (- fst ` set (kd # es))"] exI [of _ FS_NULL] exI [of _ "[]"])
            (auto simp: kd)
      next
        case notfirst: False
        then obtain pre' kp dp where pre: "pre = pre' @ [(kp, dp)]" by (metis rev_exhaust surj_pair)
        obtain ep sl where p: "seg V (sector_size s) (fh_next f) pre' (payload (sector_size s) kp)"
          "V kp = Some (file_extent_bytes ep @ dp @ [] @ sl)" "fe_size ep = of_nat (length dp)" "fe_next ep = cur"
          using Cons.prems(2) by (auto simp: pre seg_append)
        have prev: "prev = payload (sector_size s) kp" using Cons.prems(8) notfirst by (simp add: pre)
        obtain s2 where r2: "fs_file_extent_read prev s1 = (Some ep, s2)" "holds s2 V" "geo s2 = geo s1"
          using extent_image_read [OF r(2) p(2)] prev g1 by metis
        note g2 = geoD(1) [OF r2(3)]
        have s2: "seg V (sector_size s2) (fh_next f) pre' (payload (sector_size s2) kp)" using p(1) g1 g2 by simp
        have ch: "chain V (sector_size s2) (fe_next ep) (kd # es)" using Cons.prems(3) g1 g2 p(4) by simp
        have dis': "distinct (map fst (pre' @ (kp, dp @ []) # kd # es))" using dis by (simp add: kd pre)
        have ep: "ep\<lparr>fe_size := of_nat (length dp), fe_next := FS_NULL\<rparr> = ep\<lparr>fe_next := FS_NULL\<rparr>"
          using p(3) by (cases ep) simp
        obtain s' V' where x: "free_chain cur (fs_file_extent_write prev (ep\<lparr>fe_next := FS_NULL\<rparr>) s2) = Some s'"
          "holds s' V'" "geo s' = geo s2" "chain V' (sector_size s2) (fh_next f) pre" "shrunk V (pre @ kd # es) V' pre"
          using cut_after [OF r2(2) p(2) s2 ch dis'] g1 g2 prev p(4) ep by (auto simp: pre)
        have "shrink_loop new cur prev acc is_first f s = Some (f, s')"
          using null r(1) gt True x(1) notfirst Cons.prems(7) r2(1) by (subst shrink_loop.simps) (simp add: Let_def)
        then show ?thesis
          using x(2-5) r(3) r2(3) g1 g2 new
          by (intro exI [of _ s'] exI [of _ V'] exI [of _ "fh_next f"] exI [of _ pre]) simp
      qed
    qed
  qed
qed

section \<open>Growing\<close>

lemma patch_patch:
  "i + length bs + length cs \<le> length d \<Longrightarrow> patch (i + length bs) cs (patch i bs d) = patch i (bs @ cs) d"
  by (simp add: patch_def ac_simps)

lemma zero_fill_payload:
  assumes "holds s V" "V k = Some d" "i + n \<le> length d"
  defines "s' \<equiv> zero_fill (payload (sector_size s) k + of_nat i) n s"
  shows "holds s' (V(k \<mapsto> patch i (replicate n 0) d)) \<and> geo s' = geo s"
  unfolding s'_def using assms(1-3)
proof (induction n arbitrary: i d s V rule: less_induct)
  case (less n)
  show ?case
  proof (cases "0 < n")
    case False
    then show ?thesis using less.prems by (simp add: zero_fill.simps [of _ 0] fun_upd_idem)
  next
    case True
    let ?z = "min 16 n" and ?a = "payload (sector_size s) k"
    let ?d = "patch i (replicate ?z 0) d" and ?s = "fs_mem_write (?a + of_nat i) (replicate ?z 0) s"
    have fit: "i + length (replicate ?z (0 :: u8)) \<le> length d" using less.prems(3) by simp
    note w = payload_write [OF less.prems(1,2) fit]
    let ?t = "zero_fill (payload (sector_size ?s) k + of_nat (i + ?z)) (n - ?z) ?s"
    have "holds ?t (V(k \<mapsto> ?d, k \<mapsto> patch (i + ?z) (replicate (n - ?z) 0) ?d)) \<and> geo ?t = geo ?s"
      using True less.prems(3) fit by (intro less.IH [OF _ w(1)]) auto
    moreover have "patch (i + ?z) (replicate (n - ?z) 0) ?d = patch i (replicate n 0) d"
      using patch_patch [of i "replicate ?z 0" "replicate (n - ?z) 0" d] less.prems(3)
      by (simp add: replicate_add [symmetric])
    moreover have "zero_fill (?a + of_nat i) n s = ?t"
      using True geoD(1) [OF w(2)] by (subst zero_fill.simps) (simp add: Let_def add.assoc)
    ultimately show ?thesis using w(2) by (simp only: fun_upd_upd simp_thms)
  qed
qed

text \<open>No run of free blocks is long enough for a payload of \<open>z\<close> bytes.\<close>

definition no_room :: "fsdev \<Rightarrow> u32 \<Rightarrow> bool" where
  "no_room s z \<longleftrightarrow> (\<forall>k. fs_lo s \<le> k \<longrightarrow> k + fs_blocks z s \<le> fs_cap s
      \<longrightarrow> \<not> free_run (\<lambda>i. fs_bit i s) k (fs_blocks z s))"

lemma free_run_cong: "(\<And>i. k \<le> i \<Longrightarrow> i < k + n \<Longrightarrow> f i = g i) \<Longrightarrow> free_run f k n = free_run g k n"
  by (auto simp: free_run_def)

lemma alloc_fails:
  assumes h: "holds s V" and sz: "unat sz + 4 + fs_sector s < 4294967296" and a: "fs_alloc sz s = (FS_NULL, s')"
  shows "no_room s' sz"
proof (cases rule: fs_alloc_cases [OF holdsD(1) [OF h] holdsD(4) [OF h] sz])
  case full: (1 t)
  then have s': "t = s'" using a by simp
  note c = fs_same_config [OF full(2)]
  have bits: "fs_bit j t = fs_bit j s" if "j < fs_cap s" for j using full(2) that by (simp add: fs_same_def)
  show ?thesis
    unfolding no_room_def
  proof (intro allI impI)
    fix k
    assume k: "fs_lo s' \<le> k" "k + fs_blocks sz s' \<le> fs_cap s'"
    have "free_run (\<lambda>i. fs_bit i s') k (fs_blocks sz s) = free_run (\<lambda>i. fs_bit i s) k (fs_blocks sz s)"
      by (rule free_run_cong) (use k c bits in \<open>simp add: s'\<close>)
    then show "\<not> free_run (\<lambda>i. fs_bit i s') k (fs_blocks sz s')" using full(3) [of k] k c by (simp add: s')
  qed
next
  case placed: (2 k t)
  have "((live_of V)(k \<mapsto> sz)) k = Some sz" by simp
  from fs_live_word(2) [OF placed(3,4) this] have "fs_addr k t + ALLOC_HEADER \<noteq> FS_NULL" .
  moreover have "sector_size t = sector_size s" using placed(12) by (simp add: fs_sector_def word_unat_eq_iff)
  then have "fs_addr k t = fs_addr k s" by (simp add: fs_addr_def)
  ultimately show ?thesis using placed(1) a by simp
qed

text \<open>What \<open>tail\<close> says of the chain: the address and contents of its last extent.\<close>

definition tail_of :: "store \<Rightarrow> u32 \<Rightarrow> (nat \<times> u8 list) list \<Rightarrow> (u32 \<times> fs_file_extent) option \<Rightarrow> bool" where
  "tail_of V ss es tail \<longleftrightarrow>
     (case tail of
        None \<Rightarrow> es = []
      | Some (t, e) \<Rightarrow> \<exists>es' k d slack. es = es' @ [(k, d)] \<and> t = payload ss k
          \<and> V k = Some (file_extent_bytes e @ d @ slack) \<and> fe_size e = of_nat (length d) \<and> fe_next e = FS_NULL)"

lemma tail_loop_seg:
  assumes "holds s V" "seg V (sector_size s) a pre cur" "chain V (sector_size s) cur es"
    and "tail = None \<and> pre = [] \<or> (\<exists>pre' k d e slack. pre = pre' @ [(k, d)] \<and> tail = Some (payload (sector_size s) k, e)
       \<and> V k = Some (file_extent_bytes e @ d @ slack) \<and> fe_size e = of_nat (length d) \<and> fe_next e = cur)"
  shows "\<exists>s' tail'. tail_loop cur tail s = Some (Inr (tail', s')) \<and> holds s' V \<and> geo s' = geo s
    \<and> tail_of V (sector_size s) (pre @ es) tail'"
  using assms
proof (induction es arbitrary: cur tail pre s)
  case Nil
  then have "cur = FS_NULL" by simp
  moreover have "tail_of V (sector_size s) pre tail" using Nil.prems(4) \<open>cur = FS_NULL\<close> by (auto simp: tail_of_def)
  ultimately show ?case using Nil by (subst tail_loop.simps) simp
next
  case (Cons kd es)
  obtain k d where kd: "kd = (k, d)" by (cases kd)
  obtain e slack where c: "cur = payload (sector_size s) k" "V k = Some (file_extent_bytes e @ d @ slack)"
    "fe_size e = of_nat (length d)" "chain V (sector_size s) (fe_next e) es"
    using Cons.prems(3) by (auto simp: kd)
  obtain s1 where r: "fs_file_extent_read cur s = (Some e, s1)" "holds s1 V" "geo s1 = geo s"
    using extent_image_read [OF Cons.prems(1) c(2)] c(1) by metis
  note g1 = geoD(1) [OF r(3)]
  have "tail_loop cur tail s = tail_loop (fe_next e) (Some (cur, e)) s1"
    using r(1) block_bounds(8) [OF Cons.prems(1) c(2)] c(1) by (subst tail_loop.simps) simp
  moreover have "\<exists>s' tail'. tail_loop (fe_next e) (Some (cur, e)) s1 = Some (Inr (tail', s')) \<and> holds s' V
      \<and> geo s' = geo s1 \<and> tail_of V (sector_size s1) ((pre @ [kd]) @ es) tail'"
    using c Cons.prems(2) g1 by (intro Cons.IH [OF r(2)]) (auto simp: kd seg_append)
  ultimately show ?case using r(3) g1 by auto
qed

lemma chunk_for_bounds:
  assumes "0 < unat g" "16 < unat ss"
  shows "0 < unat (chunk_for g ss)" "unat (chunk_for g ss) \<le> unat g" "unat (chunk_for g ss) \<le> 4096"
proof -
  define c where "c = (if g > 4096 then 4096 else g)"
  have c: "0 < unat c" "unat c \<le> unat g" "unat c \<le> 4096"
    using assms(1) by (auto simp: word_less_nat_alt c_def)
  have def: "chunk_for g ss = (if c \<ge> ALLOC_HEADER + FILE_EXTENT \<and> c mod ss = 0 then c - (ALLOC_HEADER + FILE_EXTENT) else c)"
    by (simp add: chunk_for_def Let_def c_def)
  have "0 < unat (chunk_for g ss) \<and> unat (chunk_for g ss) \<le> unat c"
  proof (cases "c \<ge> ALLOC_HEADER + FILE_EXTENT \<and> c mod ss = 0")
    case True
    have "unat c mod unat ss = 0" using True by (metis unat_0 unat_mod_distrib)
    then have "unat ss \<le> unat c" using c(1) by (metis mod_less not_le neq0_conv)
    moreover have "unat (c - (ALLOC_HEADER + FILE_EXTENT)) = unat c - 16"
      using calculation assms(2) by (subst unat_sub_u32) (simp_all add: ALLOC_HEADER_def FILE_EXTENT_def)
    ultimately show ?thesis using True assms(2) by (simp add: def)
  next
    case False
    then have "chunk_for g ss = c" unfolding def by (rule if_not_P)
    then show ?thesis using c(1) by simp
  qed
  then show "0 < unat (chunk_for g ss)" "unat (chunk_for g ss) \<le> unat g" "unat (chunk_for g ss) \<le> 4096"
    using c by linarith+
qed

text \<open>A fresh extent, filled with zeros and linked behind the last one.\<close>

lemma grow_step_seg:
  assumes h: "holds s V" and c: "chain V (sector_size s) (fh_next f) es" "distinct (map fst es)"
    and t: "tail_of V (sector_size s) es tail" and z: "unat chunk \<le> 4096" and k0: "V k0 \<noteq> None" "k0 \<notin> fst ` set es"
    and ss: "fs_sector s + 8192 < 4294967296"
  obtains (full) s' where "grow_step address chunk tail f s = (None, s')" "holds s' V" "geo s' = geo s"
      "no_room s' (FILE_EXTENT + chunk)"
    | (grown) k e f' s' V' where "grow_step address chunk tail f s = (Some ((payload (sector_size s) k, e), f'), s')"
      "holds s' V'" "geo s' = geo s" "V k = None"
      "chain V' (sector_size s) (fh_next f') (es @ [(k, replicate (unat chunk) 0)])"
      "tail_of V' (sector_size s) (es @ [(k, replicate (unat chunk) 0)]) (Some (payload (sector_size s) k, e))"
      "\<And>j. j \<noteq> k \<Longrightarrow> j \<notin> fst ` set es \<Longrightarrow> V' j = V j" "fh_block f' = fh_block f \<and> fh_size f' = fh_size f" "es \<noteq> [] \<Longrightarrow> f' = f"
proof -
  have sz: "unat (FILE_EXTENT + chunk) = 12 + unat chunk"
    using z by (subst unat_add_u32) (simp_all add: FILE_EXTENT_def)
  then have fits: "unat (FILE_EXTENT + chunk) + 4 + fs_sector s < 4294967296" using z ss by simp
  show thesis
  proof (cases rule: store_alloc [OF h fits])
    case none: (1 s')
    then have "grow_step address chunk tail f s = (None, s')" by (simp add: grow_step_def)
    then show ?thesis using full none alloc_fails [OF h fits none(1)] by simp
  next
    case some: (2 k s1 raw)
    let ?a = "payload (sector_size s) k" and ?z = "replicate (unat chunk) (0 :: u8)"
    define e where "e = \<lparr>fe_next = FS_NULL, fe_prev = (case tail of None \<Rightarrow> address | Some (t, _) \<Rightarrow> t), fe_size = chunk\<rparr>"
    note g1 = geoD(1) [OF some(5)]
    let ?s2 = "fs_file_extent_write ?a e s1" and ?s3 = "zero_fill (?a + FILE_EXTENT) (unat chunk) (fs_file_extent_write ?a e s1)"
    have len: "length raw = 12 + unat chunk" using some(3) sz by simp
    have V1: "(V(k \<mapsto> raw)) k = Some raw" by simp
    have "0 + length (file_extent_bytes e) \<le> length raw" using len by simp
    note w2 = payload_write [where V = "V(k \<mapsto> raw)", OF some(4) V1 this]
    have p: "patch 0 (file_extent_bytes e) raw = file_extent_bytes e @ drop 12 raw" by (simp add: patch_def)
    have a0: "payload (sector_size s1) k + of_nat 0 = ?a" using g1 by simp
    have h2: "holds ?s2 (V(k \<mapsto> file_extent_bytes e @ drop 12 raw))" "geo ?s2 = geo s1"
      using w2 unfolding fs_file_extent_write_def a0 p fun_upd_upd by simp_all
    note g2 = geoD(1) [OF h2(2)]
    have V2: "(V(k \<mapsto> file_extent_bytes e @ drop 12 raw)) k = Some (file_extent_bytes e @ drop 12 raw)" by simp
    have fit: "12 + unat chunk \<le> length (file_extent_bytes e @ drop 12 raw)" using len by simp
    have "patch 12 ?z (file_extent_bytes e @ drop 12 raw) = file_extent_bytes e @ ?z"
      using len by (simp add: patch_def)
    moreover have "?a + FILE_EXTENT = payload (sector_size ?s2) k + of_nat 12" using g1 g2 by (simp add: FILE_EXTENT_def)
    ultimately have h3: "holds ?s3 (V(k \<mapsto> file_extent_bytes e @ ?z))" "geo ?s3 = geo s"
      using zero_fill_payload [where V = "V(k \<mapsto> file_extent_bytes e @ drop 12 raw)", OF h2(1) V2 fit] h2(2) some(5) by simp_all
    note g3 = geoD(1) [OF h3(2)]
    have kes: "k \<notin> fst ` set es" using seg_dom [OF c(1)] some(2) by fastforce
    have e: "fe_size e = of_nat (length ?z)" "fe_next e = FS_NULL" by (simp_all add: e_def)
    show ?thesis
    proof (cases tail)
      case None
      then have es: "es = []" using t by (simp add: tail_of_def)
      have "grow_step address chunk tail f s = (Some ((?a, e), f\<lparr>fh_next := ?a\<rparr>), ?s3)"
        using some(1,6) None by (simp add: grow_step_def e_def Let_def)
      moreover have "tail_of (V(k \<mapsto> file_extent_bytes e @ ?z)) (sector_size s) (es @ [(k, ?z)]) (Some (?a, e))"
        using e es by (simp add: tail_of_def)
      moreover have "chain (V(k \<mapsto> file_extent_bytes e @ ?z)) (sector_size s) (fh_next (f\<lparr>fh_next := ?a\<rparr>)) (es @ [(k, ?z)])"
        using e es by auto
      ultimately show ?thesis using grown [OF _ h3 some(2)] es by simp
    next
      case (Some te)
      obtain t' et where te: "te = (t', et)" by (cases te)
      obtain es' kt d slack where tl: "es = es' @ [(kt, d)]" "t' = payload (sector_size s) kt"
        "V kt = Some (file_extent_bytes et @ d @ slack)" "fe_size et = of_nat (length d)" "fe_next et = FS_NULL"
        using t Some te by (auto simp: tail_of_def)
      let ?V = "V(k \<mapsto> file_extent_bytes e @ ?z, kt \<mapsto> file_extent_bytes (et\<lparr>fe_next := ?a\<rparr>) @ d @ slack)"
      have kt: "kt \<noteq> k" "kt \<notin> fst ` set es'" using kes c(2) tl(1) by auto
      have V3: "(V(k \<mapsto> file_extent_bytes e @ ?z)) kt = Some (file_extent_bytes et @ d @ slack)" using tl(3) kt by simp
      let ?s4 = "fs_file_extent_write t' (et\<lparr>fe_next := ?a\<rparr>) ?s3"
      have h4: "holds ?s4 ?V" "geo ?s4 = geo s"
        using extent_link_write [where V = "V(k \<mapsto> file_extent_bytes e @ ?z)", OF h3(1) V3, of "et\<lparr>fe_next := ?a\<rparr>"] h3(2) g3 tl(2) by simp_all
      have s: "grow_step address chunk tail f s = (Some ((?a, e), f), ?s4)"
        using some(1,6) Some te by (simp add: grow_step_def e_def Let_def)
      have "seg ?V (sector_size s) (fh_next f) es' t' = seg V (sector_size s) (fh_next f) es' t'"
        using kt(2) kes tl(1) by (intro seg_cong) auto
      then have ch: "chain ?V (sector_size s) (fh_next f) (es @ [(k, ?z)])"
        using c(1) tl kt e by (auto simp: seg_append)
      have tl': "tail_of ?V (sector_size s) (es @ [(k, ?z)]) (Some (?a, e))" using e kt by (simp add: tail_of_def)
      show ?thesis
        by (rule grown [OF s h4 some(2) ch tl']) (use tl(1) in auto)
    qed
  qed
qed

text \<open>\<open>V'\<close> has the extents \<open>new\<close>, in blocks that were free, behind those of \<open>V\<close>.\<close>

definition extended :: "store \<Rightarrow> u32 \<Rightarrow> nat \<Rightarrow> fs_file_header \<Rightarrow> (nat \<times> u8 list) list \<Rightarrow> store \<Rightarrow> fs_file_header
    \<Rightarrow> (nat \<times> u8 list) list \<Rightarrow> bool" where
  "extended V ss k0 f es V' f' new \<longleftrightarrow>
     chain V' ss (fh_next f') (es @ new) \<and> distinct (k0 # map fst (es @ new))
     \<and> (\<forall>i. i \<notin> fst ` set (es @ new) \<longrightarrow> V' i = V i) \<and> (\<forall>i \<in> fst ` set new. V i = None)
     \<and> fh_block f' = fh_block f \<and> fh_size f' = fh_size f \<and> (es \<noteq> [] \<longrightarrow> f' = f)"

lemma extendedD:
  assumes "extended V ss k0 f es V' f' new"
  shows "chain V' ss (fh_next f') (es @ new)" "distinct (k0 # map fst (es @ new))"
    "i \<notin> fst ` set (es @ new) \<Longrightarrow> V' i = V i" "i \<in> fst ` set new \<Longrightarrow> V i = None"
    "fh_block f' = fh_block f \<and> fh_size f' = fh_size f" "es \<noteq> [] \<Longrightarrow> f' = f"
  using assms by (auto simp: extended_def)

lemma extended_trans:
  assumes a: "extended V ss k0 f es V1 f1 [kd]" and b: "extended V1 ss k0 f1 (es @ [kd]) V2 f2 new"
  shows "extended V ss k0 f es V2 f2 (kd # new)"
proof -
  note a = extendedD [OF a] and b = extendedD [OF b]
  have f2: "f2 = f1" by (rule b(6)) simp
  have k: "fst kd \<notin> fst ` set new" "fst ` set es \<inter> fst ` set new = {}" using b(2) by auto
  have "V i = None" if "i \<in> fst ` set new" for i
  proof -
    have "i \<notin> fst ` set es" "i \<noteq> fst kd" using that k by (metis disjoint_iff, metis)
    then show ?thesis using a(3) [of i] b(4) [OF that] by simp
  qed
  then have none: "\<forall>i \<in> fst ` set (kd # new). V i = None" using a(4) [of "fst kd"] by simp
  have frame: "V2 i = V i" if "i \<notin> fst ` set (es @ kd # new)" for i
    using b(3) [of i] a(3) [of i] that by (simp add: image_Un)
  have ch: "chain V2 ss (fh_next f2) (es @ kd # new)" using b(1) by simp
  have "distinct (k0 # map fst (es @ kd # new))" using b(2) by simp
  then show ?thesis
    unfolding extended_def using ch none frame a(5,6) by (simp only: f2) blast
qed

lemma grow_loop_seg:
  assumes "holds s V" "chain V (sector_size s) (fh_next f) es" "distinct (k0 # map fst es)" "V k0 \<noteq> None"
    and "tail_of V (sector_size s) es tail" "16 < fs_sector s" "fs_sector s + 8192 < 4294967296"
  shows "\<exists>r s' V' f' new j. grow_loop address g tail f s = Some (r, s') \<and> holds s' V' \<and> geo s' = geo s
    \<and> extended V (sector_size s) k0 f es V' f' new \<and> content new = replicate j 0
    \<and> (r = Some f' \<and> j = unat g \<or> r = None \<and> (\<exists>c. 0 < unat c \<and> unat c \<le> 4096 \<and> no_room s' (FILE_EXTENT + c)))"
  using assms
proof (induction "unat g" arbitrary: g tail f es s V rule: less_induct)
  case less
  note h = less.prems(1)
  show ?case
  proof (cases "g = 0")
    case True
    have "extended V (sector_size s) k0 f es V f []" using less.prems(2,3) by (simp add: extended_def)
    moreover have "grow_loop address g tail f s = Some (Some f, s)" using True by (subst grow_loop.simps) simp
    ultimately show ?thesis
      using h True by (intro exI [of _ "Some f"] exI [of _ s] exI [of _ V] exI [of _ f] exI [of _ "[]"] exI [of _ 0]) simp
  next
    case False
    let ?c = "chunk_for g (sector_size s)"
    have pos: "0 < g" "0 < unat g" using False by (simp_all add: word_gt_0 unat_gt_0)
    have c: "0 < unat ?c" "unat ?c \<le> unat g" "unat ?c \<le> 4096"
      using chunk_for_bounds [OF pos(2), of "sector_size s"] less.prems(6) by (simp_all add: fs_sector_def)
    have dis: "distinct (map fst es)" "k0 \<notin> fst ` set es" using less.prems(3) by simp_all
    show ?thesis
    proof (cases rule: grow_step_seg [OF h less.prems(2) dis(1) less.prems(5) c(3) less.prems(4) dis(2) less.prems(7),
          where address = address])
      case none: (1 s')
      have "grow_loop address g tail f s = Some (None, s')"
        using pos none(1) by (subst grow_loop.simps) (simp add: Let_def)
      moreover have "extended V (sector_size s) k0 f es V f []" using less.prems(2,3) by (simp add: extended_def)
      ultimately show ?thesis
        using none(2-4) c
        by (intro exI [of _ None] exI [of _ s'] exI [of _ V] exI [of _ f] exI [of _ "[]"] exI [of _ 0]) auto
    next
      case some: (2 k e f1 s1 V1)
      let ?kd = "(k, replicate (unat ?c) (0 :: u8))"
      note g1 = geoD [OF some(3)]
      have kes: "k \<notin> fst ` set es" using seg_dom [OF less.prems(2)] some(4) by fastforce
      have "k \<noteq> k0" using some(4) less.prems(4) by auto
      then have ext: "extended V (sector_size s) k0 f es V1 f1 [?kd]"
        using some(4,5,7,8,9) kes less.prems(3) by (auto simp: extended_def)
      have "V1 k0 \<noteq> None" using some(7) [of k0] \<open>k \<noteq> k0\<close> dis(2) less.prems(4) by simp
      have "unat (g - ?c) < unat g" using c by (subst unat_sub_u32) simp_all
      obtain r s' V' f' new j where ih:
        "grow_loop address (g - ?c) (Some (payload (sector_size s) k, e)) f1 s1 = Some (r, s')" "holds s' V'" "geo s' = geo s1"
        "extended V1 (sector_size s) k0 f1 (es @ [?kd]) V' f' new" "content new = replicate j 0"
        "r = Some f' \<and> j = unat (g - ?c) \<or> r = None \<and> (\<exists>c. 0 < unat c \<and> unat c \<le> 4096 \<and> no_room s' (FILE_EXTENT + c))"
      proof -
        have "chain V1 (sector_size s1) (fh_next f1) (es @ [?kd])" "distinct (k0 # map fst (es @ [?kd]))"
          using ext g1 by (simp_all add: extended_def)
        note ih = less.hyps [OF \<open>unat (g - ?c) < unat g\<close> some(2) this \<open>V1 k0 \<noteq> None\<close>]
        show thesis using ih [of "Some (payload (sector_size s) k, e)"] some(6) less.prems(6,7) g1 that by metis
      qed
      have "grow_loop address g tail f s = Some (r, s')"
        using pos some(1) ih(1) by (subst grow_loop.simps) (simp add: Let_def)
      moreover have "unat ?c + unat (g - ?c) = unat g" using c by (subst unat_sub_u32) simp_all
      ultimately show ?thesis
        using ih(2,3,5,6) some(3) extended_trans [OF ext ih(4)]
        by (intro exI [of _ r] exI [of _ s'] exI [of _ V'] exI [of _ f'] exI [of _ "?kd # new"] exI [of _ "unat ?c + j"])
          (auto simp: replicate_add)
    qed
  qed
qed

section \<open>Resizing\<close>

text \<open>The contents after a change of size, and the blocks an operation leaves alone.\<close>

definition resized :: "nat \<Rightarrow> u8 list \<Rightarrow> u8 list" where
  "resized n d = take n d @ replicate (n - length d) 0"

definition kept :: "store \<Rightarrow> store \<Rightarrow> nat set \<Rightarrow> bool" where
  "kept V V' B \<longleftrightarrow> (\<forall>j. V j \<noteq> None \<longrightarrow> j \<notin> B \<longrightarrow> V' j = V j)"

definition file_blocks :: "nat \<Rightarrow> (nat \<times> u8 list) list \<Rightarrow> nat set" where
  "file_blocks k es = insert k (fst ` set es)"

lemma length_resized [simp]: "length (resized n d) = n"
  by (simp add: resized_def)

lemma resized_same [simp]: "resized (length d) d = d"
  by (simp add: resized_def)

lemma keptD: "kept V V' B \<Longrightarrow> V j = Some d \<Longrightarrow> j \<notin> B \<Longrightarrow> V' j = Some d"
  by (simp add: kept_def)

lemma kept_refl [simp]: "kept V V B"
  by (simp add: kept_def)

lemma header_rewrite:
  assumes h: "holds s V" and V: "V k = Some (file_header_bytes f @ slack)"
    and f: "block_header_wf (fh_block f)" "bh_attributes (fh_block f) AND FS_ATTRIBUTE_DIRECTORY = 0"
    and f': "fh_block f' = fh_block f" "fh_size f' = of_nat (length data)"
    and c: "chain V (sector_size s) (fh_next f') es" "distinct (k # map fst es)" "content es = data @ replicate j 0"
  defines "s' \<equiv> file_header_write (payload (sector_size s) k) f' s"
  defines "V' \<equiv> V(k \<mapsto> file_header_bytes f' @ slack)"
  shows "holds s' V'" "geo s' = geo s" "file_at V' (sector_size s) k f' es data"
proof -
  note w = header_image_write [OF h V f(1), of f', folded s'_def V'_def]
  show "holds s' V'" "geo s' = geo s" using w f(1) f'(1) by simp_all
  have "chain V' (sector_size s) (fh_next f') es" using c(1,2) by (simp add: V'_def seg_upd)
  then show "file_at V' (sector_size s) k f' es data"
    using f f' c(2,3) by (auto simp: file_at_def V'_def)
qed

lemma file_sector_bound:
  assumes "holds s V" "V k = Some d"
  shows "fs_sector s + 8192 < 4294967296"
proof -
  note b = block_bounds [OF assms]
  have "1 * fs_sector s \<le> fs_cap s * fs_sector s" using b(2) by (intro mult_le_mono1) simp
  then show ?thesis using b(7) by linarith
qed

definition resize_outcome :: "fsdev \<Rightarrow> store \<Rightarrow> nat \<Rightarrow> fs_file_header \<Rightarrow> (nat \<times> u8 list) list \<Rightarrow> u8 list \<Rightarrow> u32
    \<Rightarrow> bool \<Rightarrow> fsdev \<Rightarrow> store \<Rightarrow> fs_file_header \<Rightarrow> (nat \<times> u8 list) list \<Rightarrow> bool" where
  "resize_outcome s V k f es data new ok s' V' f' es' \<longleftrightarrow>
     holds s' V' \<and> geo s' = geo s
     \<and> file_at V' (sector_size s) k f' es' (if ok then resized (unat new) data else data)
     \<and> fh_block f' = fh_block f \<and> kept V V' (file_blocks k es) \<and> file_blocks k es' \<inter> dom V \<subseteq> file_blocks k es
     \<and> (\<not> ok \<longrightarrow> length data < unat new \<and> (\<exists>c. 0 < unat c \<and> unat c \<le> 4096 \<and> no_room s' (FILE_EXTENT + c)))"

lemma shrink_file:
  assumes h: "holds s V" and f: "file_at V (sector_size s) k f es data" and new: "unat new < length data"
  shows "\<exists>f' s3 V' es'. shrink_loop new (fh_next f) prev 0 True f s = Some (f', s3)
    \<and> resize_outcome s V k f es data new True (file_header_write (payload (sector_size s) k) (f'\<lparr>fh_size := new\<rparr>) s3)
         V' (f'\<lparr>fh_size := new\<rparr>) es'"
proof -
  obtain slack j where V: "V k = Some (file_header_bytes f @ slack)" "block_header_wf (fh_block f)"
    "bh_attributes (fh_block f) AND FS_ATTRIBUTE_DIRECTORY = 0" and c: "chain V (sector_size s) (fh_next f) es"
    "k \<notin> fst ` set es" "distinct (map fst es)" "content es = data @ replicate j 0"
    using f by (rule file_atE)
  note b = file_size_bound [OF h f]
  have "unat new < length (content ([] @ es))" using new b(4) by simp
  then obtain s3 V' n es' where r: "shrink_loop new (fh_next f) prev 0 True f s = Some (f\<lparr>fh_next := n\<rparr>, s3)"
    "holds s3 V'" "geo s3 = geo s" "chain V' (sector_size s) n es'" "shrunk V es V' es'"
    "content es' = take (unat new) (content es)"
    using shrink_loop_seg [OF h _ c(1), of f "[]" 0 True prev new] c(3) b(2) by auto
  note g = geoD(1) [OF r(3)]
  have sub: "fst ` set es' \<subseteq> fst ` set es" "distinct (map fst es')"
    using r(5) c(3) set_take_subset [of "length es'" "map fst es"] unfolding shrunk_def
    by (metis list.set_map, metis distinct_take)
  have V': "V' k = Some (file_header_bytes f @ slack)" "\<And>i. i \<notin> fst ` set es \<Longrightarrow> V' i = V i"
    using r(5) V(1) c(2) by (simp_all add: shrunk_def)
  let ?f = "f\<lparr>fh_next := n, fh_size := new\<rparr>"
  have data: "content es' = resized (unat new) data @ replicate 0 0" using r(6) c(4) new by (simp add: resized_def)
  have ch: "chain V' (sector_size s3) (fh_next ?f) es'" "distinct (k # map fst es')"
    using r(4) g sub c(2) by auto
  have "fh_size ?f = of_nat (length (resized (unat new) data))" by simp
  note w = header_rewrite [OF r(2) V'(1) V(2,3) _ this ch data]
  have "kept V (V'(k \<mapsto> file_header_bytes ?f @ slack)) (file_blocks k es)"
    using V'(2) by (auto simp: kept_def file_blocks_def)
  moreover have "file_blocks k es' \<inter> dom V \<subseteq> file_blocks k es" using sub by (auto simp: file_blocks_def)
  ultimately show ?thesis
    using r(1,3) w g
    by (intro exI [of _ "f\<lparr>fh_next := n\<rparr>"] exI [of _ s3] exI [of _ "V'(k \<mapsto> file_header_bytes ?f @ slack)"] exI [of _ es'])
      (simp add: resize_outcome_def)
qed

lemma grow_file:
  assumes h: "holds s V" and f: "file_at V (sector_size s) k f es data" and new: "length data < unat new"
    and ss: "16 < fs_sector s"
  shows "\<exists>tail s3 r s4 V' f' es'. tail_loop (fh_next f) None s = Some (Inr (tail, s3))
    \<and> grow_loop address (new - fh_size f) tail f s3 = Some (r, s4)
    \<and> (case r of None \<Rightarrow> resize_outcome s V k f es data new False s4 V' f' es'
        | Some f1 \<Rightarrow> resize_outcome s V k f es data new True
            (file_header_write (payload (sector_size s) k) (f1\<lparr>fh_size := new\<rparr>) s4) V' (f1\<lparr>fh_size := new\<rparr>) es')"
proof -
  obtain slack j where V: "V k = Some (file_header_bytes f @ slack)" "block_header_wf (fh_block f)"
    "bh_attributes (fh_block f) AND FS_ATTRIBUTE_DIRECTORY = 0" and c: "chain V (sector_size s) (fh_next f) es"
    "k \<notin> fst ` set es" "distinct (map fst es)" "content es = data @ replicate j 0"
    using f by (rule file_atE)
  note b = file_size_bound [OF h f]
  obtain tail s3 where t: "tail_loop (fh_next f) None s = Some (Inr (tail, s3))" "holds s3 V" "geo s3 = geo s"
    "tail_of V (sector_size s) es tail"
    using tail_loop_seg [OF h, of "fh_next f" "[]" "fh_next f" es None] c(1) by auto
  note g3 = geoD [OF t(3)]
  have dis: "distinct (k # map fst es)" using c by simp
  have k0: "V k \<noteq> None" using V(1) by simp
  have pre: "chain V (sector_size s3) (fh_next f) es" "tail_of V (sector_size s3) es tail" "16 < fs_sector s3"
    "fs_sector s3 + 8192 < 4294967296" using c(1) t(4) ss file_sector_bound [OF h V(1)] g3 by simp_all
  obtain r s4 V' f' more i where q: "grow_loop address (new - fh_size f) tail f s3 = Some (r, s4)" "holds s4 V'"
    "geo s4 = geo s3" "extended V (sector_size s3) k f es V' f' more" "content more = replicate i 0"
    "r = Some f' \<and> i = unat (new - fh_size f)
       \<or> r = None \<and> (\<exists>c. 0 < unat c \<and> unat c \<le> 4096 \<and> no_room s4 (FILE_EXTENT + c))"
    using grow_loop_seg [OF t(2) pre(1) dis k0 pre(2-4), of address "new - fh_size f"] by blast
  note e = extendedD [OF q(4)]
  note g4 = geoD [OF q(3)]
  have V': "V' k = Some (file_header_bytes f @ slack)" using e(2) e(3) [of k] V(1) by auto
  have kept: "kept V V' (file_blocks k es)"
    using e(3,4) unfolding kept_def file_blocks_def by (metis Un_iff image_Un insert_iff set_append)
  have fresh: "file_blocks k (es @ more) \<inter> dom V \<subseteq> file_blocks k es"
    using e(4) unfolding file_blocks_def by (auto simp: image_iff) (metis fst_conv option.distinct(1))
  show ?thesis
  proof (cases r)
    case (Some f1)
    then have f1: "f1 = f'" "i = unat new - length data"
      using q(6) b(3) new by (auto simp: unat_sub_u32)
    let ?f = "f1\<lparr>fh_size := new\<rparr>"
    have data: "content (es @ more) = resized (unat new) data @ replicate j 0"
      using c(4) q(5) f1(2) new by (simp add: resized_def flip: replicate_add)
    have ch: "chain V' (sector_size s4) (fh_next ?f) (es @ more)" "distinct (k # map fst (es @ more))"
      using e(1,2) g4 f1 by simp_all
    have hd: "fh_block ?f = fh_block f" "fh_size ?f = of_nat (length (resized (unat new) data))"
      using e(5) f1 by simp_all
    note w = header_rewrite [OF q(2) V' V(2,3) hd ch data]
    have "kept V (V'(k \<mapsto> file_header_bytes ?f @ slack)) (file_blocks k es)"
      using kept by (auto simp: kept_def file_blocks_def)
    then show ?thesis
      using t(1,3) q(1,3) w g3 g4 Some hd(1) fresh
      by (intro exI [of _ tail] exI [of _ s3] exI [of _ r] exI [of _ s4] exI [of _ "V'(k \<mapsto> file_header_bytes ?f @ slack)"]
          exI [of _ f1] exI [of _ "es @ more"]) (simp add: resize_outcome_def)
  next
    case None
    have "\<exists>es'. file_at V' (sector_size s) k f es' data \<and> file_blocks k es' \<inter> dom V \<subseteq> file_blocks k es"
    proof (cases "es = []")
      case True
      have "fh_size f = of_nat (length data)" using f by (simp add: file_at_def)
      then show ?thesis
        using True V V' c by (intro exI [of _ "[]"]) (auto simp: file_at_def file_blocks_def)
    next
      case False
      have "content (es @ more) = data @ replicate (j + i) 0" using c(4) q(5) by (simp add: replicate_add)
      then show ?thesis
        using V V' e(1,2) e(6) [OF False] g3 f fresh
        by (intro exI [of _ "es @ more"]) (auto simp: file_at_def)
    qed
    then obtain es' where "file_at V' (sector_size s) k f es' data" "file_blocks k es' \<inter> dom V \<subseteq> file_blocks k es" by blast
    then show ?thesis
      using t(1,3) q(1,2,3,6) None kept new
      by (intro exI [of _ tail] exI [of _ s3] exI [of _ r] exI [of _ s4] exI [of _ V']
          exI [of _ f] exI [of _ es']) (simp add: resize_outcome_def)
  qed
qed

text \<open>The check and the header read that every operation starts with.\<close>

lemma file_header_steps:
  assumes h: "holds s V" and f: "file_at V (sector_size s) k f es data"
  obtains s1 s2 where "fs_file_check (payload (sector_size s) k) s = (True, s1)" "holds s1 V" "geo s1 = geo s"
    "file_header_read (payload (sector_size s) k) s1 = (f, s2)" "holds s2 V" "geo s2 = geo s"
proof -
  obtain slack where V: "V k = Some (file_header_bytes f @ slack)" "block_header_wf (fh_block f)"
    "bh_attributes (fh_block f) AND FS_ATTRIBUTE_DIRECTORY = 0" using f by (rule file_atE)
  obtain s1 where s1: "fs_file_check (payload (sector_size s) k) s = (True, s1)" "holds s1 V" "geo s1 = geo s"
    using file_check_image [OF h V] by metis
  obtain s2 where s2: "file_header_read (payload (sector_size s) k) s1 = (f, s2)" "holds s2 V" "geo s2 = geo s1"
    using header_image_read [OF s1(2) V(1,2)] geoD(1) [OF s1(3)] by metis
  show thesis using that [of s1 s2] s1 s2 by simp
qed

lemma resize_outcome_geo:
  assumes "resize_outcome s2 V k f es data new ok s' V' f' es'" "geo s2 = geo s"
  shows "resize_outcome s V k f es data new ok s' V' f' es'"
  using assms geoD(1) [OF assms(2)] by (simp add: resize_outcome_def)

lemma file_resize_full:
  assumes h: "holds s V" and f: "file_at V (sector_size s) k f es data" and ss: "16 < fs_sector s"
  shows "\<exists>ok s' V' f' es'. fs_file_resize (payload (sector_size s) k) new s = Some (ok, s')
    \<and> resize_outcome s V k f es data new ok s' V' f' es'"
proof -
  let ?a = "payload (sector_size s) k"
  obtain s1 s2 where r: "fs_file_check ?a s = (True, s1)" "file_header_read ?a s1 = (f, s2)" "holds s2 V" "geo s2 = geo s"
    using file_header_steps [OF h f] by metis
  note g = geoD [OF r(4)]
  have b: "unat (fh_size f) = length data" by (rule file_size_bound(3) [OF h f])
  have f2: "file_at V (sector_size s2) k f es data" using f g by simp
  consider (same) "fh_size f = new" | (less) "unat new < length data" | (more) "length data < unat new"
    using b by (metis linorder_neqE_nat word_unat_eq_iff)
  then show ?thesis
  proof cases
    case same
    then have "fs_file_resize ?a new s = Some (True, s2)" using r by (simp add: fs_file_resize_def)
    moreover have "resize_outcome s V k f es data new True s2 V f es"
      using r(3,4) f b same by (auto simp: resize_outcome_def)
    ultimately show ?thesis by blast
  next
    case less
    obtain f' s3 V' es' where q: "shrink_loop new (fh_next f) ?a 0 True f s2 = Some (f', s3)"
      "resize_outcome s2 V k f es data new True (file_header_write ?a (f'\<lparr>fh_size := new\<rparr>) s3) V' (f'\<lparr>fh_size := new\<rparr>) es'"
      using shrink_file [OF r(3) f2 less, of ?a] g by auto
    have "new < fh_size f" "fh_size f \<noteq> new" using less b by (auto simp: word_less_nat_alt)
    then have "fs_file_resize ?a new s = Some (True, file_header_write ?a (f'\<lparr>fh_size := new\<rparr>) s3)"
      using r q(1) by (simp add: fs_file_resize_def)
    then show ?thesis using resize_outcome_geo [OF q(2) r(4)] by blast
  next
    case more
    have ss2: "16 < fs_sector s2" using ss g by simp
    from grow_file [OF r(3) f2 more ss2, of ?a, unfolded g(1)]
    obtain tail s3 q s4 V' f' es' where t: "tail_loop (fh_next f) None s2 = Some (Inr (tail, s3))"
      "grow_loop ?a (new - fh_size f) tail f s3 = Some (q, s4)"
      "case q of None \<Rightarrow> resize_outcome s2 V k f es data new False s4 V' f' es'
        | Some f1 \<Rightarrow> resize_outcome s2 V k f es data new True
            (file_header_write ?a (f1\<lparr>fh_size := new\<rparr>) s4) V' (f1\<lparr>fh_size := new\<rparr>) es'"
      by blast
    have n: "\<not> new < fh_size f" "fh_size f \<noteq> new" using more b by (auto simp: word_less_nat_alt)
    show ?thesis
    proof (cases q)
      case None
      then have "fs_file_resize ?a new s = Some (False, s4)" using r t(1,2) n by (simp add: fs_file_resize_def)
      moreover have "resize_outcome s2 V k f es data new False s4 V' f' es'" using t(3) None by simp
      ultimately show ?thesis using resize_outcome_geo [OF _ r(4)] by blast
    next
      case (Some f1)
      then have "fs_file_resize ?a new s = Some (True, file_header_write ?a (f1\<lparr>fh_size := new\<rparr>) s4)"
        using r t(1,2) n by (simp add: fs_file_resize_def)
      moreover have "resize_outcome s2 V k f es data new True (file_header_write ?a (f1\<lparr>fh_size := new\<rparr>) s4) V'
          (f1\<lparr>fh_size := new\<rparr>) es'" using t(3) Some by simp
      ultimately show ?thesis using resize_outcome_geo [OF _ r(4)] by blast
    qed
  qed
qed

section \<open>Reading and writing\<close>

text \<open>An open handle on the file of block \<open>k\<close> with the rights \<open>mode\<close>.\<close>

definition handle_on :: "file_handle \<Rightarrow> fsdev \<Rightarrow> nat \<Rightarrow> u8 \<Rightarrow> bool" where
  "handle_on h s k m \<longleftrightarrow> f_ctx h \<and> f_open h \<and> f_address h = payload (sector_size s) k \<and> f_mode h AND m \<noteq> 0"

lemma handle_on_geo: "handle_on h s k m \<Longrightarrow> geo s' = geo s \<Longrightarrow> handle_on h s' k m"
  using geoD(1) [of s' s] by (simp add: handle_on_def)

lemma handle_steps:
  assumes h: "holds s V" and f: "file_at V (sector_size s) k f es data" and fh: "handle_on fh s k m"
  obtains s1 s2 where "fs_file_struct_is_valid fh s = (True, s1)"
    "fs_file_get_size (f_address fh) s1 = (fh_size f, s2)" "holds s2 V" "geo s2 = geo s" "holds s1 V" "geo s1 = geo s"
proof -
  obtain s1 where s1: "fs_file_check (payload (sector_size s) k) s = (True, s1)" "holds s1 V" "geo s1 = geo s"
    using file_header_steps [OF h f] by metis
  obtain s2 where s2: "fs_file_get_size (payload (sector_size s) k) s1 = (fh_size f, s2)" "holds s2 V" "geo s2 = geo s1"
    using get_size_file [OF s1(2)] f geoD(1) [OF s1(3)] by metis
  show thesis using that [of s1 s2] s1 s2 fh by (simp add: fs_file_struct_is_valid_def handle_on_def)
qed

lemma file_read_full:
  assumes h: "holds s V" and f: "file_at V (sector_size s) k f es data" and fh: "handle_on fh s k FS_FILE_MODE_READ"
    and sz: "unat (f_position fh) + unat sz < 4294967296"
  defines "n \<equiv> min (unat sz) (length data - unat (f_position fh))"
  shows "\<exists>s'. fs_file_read fh sz s = Some (of_nat n, take n (drop (unat (f_position fh)) data),
      fh\<lparr>f_position := f_position fh + of_nat n\<rparr>, s') \<and> holds s' V \<and> geo s' = geo s"
proof -
  obtain s1 s2 where r: "fs_file_struct_is_valid fh s = (True, s1)" "fs_file_get_size (f_address fh) s1 = (fh_size f, s2)"
    "holds s2 V" "geo s2 = geo s" "holds s1 V" "geo s1 = geo s"
    using handle_steps [OF h f fh] by metis
  have mode: "f_mode fh AND FS_FILE_MODE_READ \<noteq> 0" "f_address fh = payload (sector_size s) k"
    using fh by (simp_all add: handle_on_def)
  note b = file_size_bound [OF h f]
  show ?thesis
  proof (cases "sz = 0 \<or> f_position fh \<ge> fh_size f")
    case True
    then have "n = 0" using b(3) by (auto simp: n_def word_le_nat_alt)
    then show ?thesis using True r mode by (auto simp: fs_file_read_def)
  next
    case False
    let ?p = "unat (f_position fh)"
    define td where "td = (if f_position fh + sz > fh_size f then fh_size f - f_position fh else sz)"
    have p: "?p < length data" using False b(3) by (simp add: word_le_nat_alt)
    have "unat (f_position fh + sz) = ?p + unat sz" using sz by (intro unat_add_u32)
    then have todo: "unat td = n"
      using p b(3) by (auto simp: n_def td_def word_less_nat_alt unat_sub_u32)
    have td: "td = of_nat n" by (simp flip: todo)
    obtain slack j where V: "V k = Some (file_header_bytes f @ slack)" "block_header_wf (fh_block f)"
      and c: "chain V (sector_size s) (fh_next f) es" "content es = data @ replicate j 0"
      using f by (rule file_atE)
    obtain s3 where s3: "file_header_read (f_address fh) s2 = (f, s3)" "holds s3 V" "geo s3 = geo s2"
      using header_image_read [OF r(3) V] geoD(1) [OF r(4)] mode(2) by metis
    have g3: "sector_size s3 = sector_size s" using geoD(1) [OF s3(3)] geoD(1) [OF r(4)] by simp
    have c3: "chain V (sector_size s3) (fh_next f) es" using c(1) g3 by simp
    have pre: "unat (0 :: u32) + length (content es) < 4294967296" "?p + unat td \<le> unat (0 :: u32) + length (content es)"
      "unat (0 :: u32) \<le> ?p" using todo p b(2,4) by (simp_all add: n_def)
    obtain s4 where s4: "read_loop (fh_next f) (f_position fh) td 0 [] s3
        = Some (0, take n (drop ?p (content es)), s4)" "holds s4 V" "geo s4 = geo s3"
      using read_loop_chain [OF s3(2) c3 pre, of "[]"] by (auto simp: todo)
    have data: "take n (drop ?p (content es)) = take n (drop ?p data)" using c(2) p by (simp add: n_def)
    have "fs_file_read fh sz s = (do {
        (remaining, out, s4) \<leftarrow> read_loop (fh_next f) (f_position fh) td 0 [] s3;
        Some (td - remaining, out, fh\<lparr>f_position := f_position fh + (td - remaining)\<rparr>, s4) })"
      using r s3(1) mode False by (simp add: fs_file_read_def Let_def td_def [symmetric])
    then have "fs_file_read fh sz s = Some (of_nat n, take n (drop ?p data),
        fh\<lparr>f_position := f_position fh + of_nat n\<rparr>, s4)"
      using s4(1) data td by simp
    then show ?thesis using s4(2,3) s3(3) r(4) by simp
  qed
qed

text \<open>The contents after writing \<open>src\<close> at \<open>pos\<close>: a gap before \<open>pos\<close> is filled with zeros.\<close>

definition write_at :: "nat \<Rightarrow> u8 list \<Rightarrow> u8 list \<Rightarrow> u8 list" where
  "write_at pos src d = (if src = [] then d else patch pos src (resized (max (length d) (pos + length src)) d))"

definition write_outcome :: "fsdev \<Rightarrow> store \<Rightarrow> nat \<Rightarrow> (nat \<times> u8 list) list \<Rightarrow> u8 list \<Rightarrow> nat \<Rightarrow> u8 list \<Rightarrow> nat
    \<Rightarrow> fsdev \<Rightarrow> store \<Rightarrow> fs_file_header \<Rightarrow> (nat \<times> u8 list) list \<Rightarrow> bool" where
  "write_outcome s V k es data pos src n s' V' f' es' \<longleftrightarrow>
     holds s' V' \<and> geo s' = geo s \<and> kept V V' (file_blocks k es) \<and> file_blocks k es' \<inter> dom V \<subseteq> file_blocks k es
     \<and> (n = length src \<and> file_at V' (sector_size s) k f' es' (write_at pos src data)
        \<or> n = 0 \<and> file_at V' (sector_size s) k f' es' data \<and> length data < pos + length src
          \<and> (\<exists>c. 0 < unat c \<and> unat c \<le> 4096 \<and> no_room s' (FILE_EXTENT + c)))"

text \<open>The loop of \<open>fs_file_write\<close> on a file that is long enough.\<close>

lemma write_in_place:
  assumes h: "holds s V" and f: "file_at V (sector_size s) k f es data" and fit: "unat p + length src \<le> length data"
    and n: "unat n = length src"
  shows "\<exists>s' V' es'. write_loop (fh_next f) p src n 0 s = Some (0, s') \<and> holds s' V' \<and> geo s' = geo s
    \<and> file_at V' (sector_size s) k f es' (patch (unat p) src data) \<and> kept V V' (file_blocks k es)
    \<and> file_blocks k es' = file_blocks k es"
proof -
  obtain slack j where V: "V k = Some (file_header_bytes f @ slack)" "block_header_wf (fh_block f)"
    "bh_attributes (fh_block f) AND FS_ATTRIBUTE_DIRECTORY = 0" and c: "chain V (sector_size s) (fh_next f) es"
    "k \<notin> fst ` set es" "distinct (map fst es)" "fh_size f = of_nat (length data)" "content es = data @ replicate j 0"
    using f by (rule file_atE)
  note b = file_size_bound [OF h f]
  have pre: "unat (0 :: u32) + length (content es) < 4294967296" "unat p + unat n \<le> unat (0 :: u32) + length (content es)"
    "unat (0 :: u32) \<le> unat p" "length src = unat n" using b(2,4) fit n by simp_all
  obtain s' V' es' where w: "write_loop (fh_next f) p src n 0 s = Some (0, s')" "holds s' V'" "geo s' = geo s"
    "chain V' (sector_size s) (fh_next f) es'" "rechained V es V' es'" "content es' = patch (unat p) src (content es)"
    using write_loop_chain [OF h c(1) pre(1) c(3) pre(2-4)] by auto
  have keys: "map fst es' = map fst es" "\<And>i. i \<notin> fst ` set es \<Longrightarrow> V' i = V i" using w(5) by (simp_all add: rechained_def)
  have "content es' = patch (unat p) src data @ replicate j 0" using w(6) c(5) fit by (simp add: patch_append2)
  then have con: "\<exists>j. content es' = patch (unat p) src data @ replicate j 0" by blast
  have hd: "\<exists>slack. V' k = Some (file_header_bytes f @ slack)" using V(1) keys(2) [OF c(2)] by simp
  have blocks: "fst ` set es' = fst ` set es" using keys(1) by (metis list.set_map)
  have dis: "distinct (k # map fst es')" using c(2,3) keys(1) blocks by simp
  have "fh_size f = of_nat (length (patch (unat p) src data))" using c(4) fit by simp
  then have "file_at V' (sector_size s) k f es' (patch (unat p) src data)"
    unfolding file_at_def using V(2,3) w(4) hd dis con by blast
  moreover have "kept V V' (file_blocks k es)" using keys(2) by (simp add: kept_def file_blocks_def)
  moreover have "file_blocks k es' = file_blocks k es" using blocks by (simp add: file_blocks_def)
  ultimately show ?thesis using w(1-3) by blast
qed

lemma kept_trans: "kept V V' B \<Longrightarrow> kept V' V'' B' \<Longrightarrow> (\<And>j. V j \<noteq> None \<Longrightarrow> j \<in> B' \<Longrightarrow> j \<in> B) \<Longrightarrow> kept V V'' B"
  unfolding kept_def by metis

text \<open>The first half of \<open>fs_file_write\<close>: making room for \<open>n\<close> bytes at position \<open>p\<close>.\<close>

definition write_room :: "u32 \<Rightarrow> u32 \<Rightarrow> u32 \<Rightarrow> u32 \<Rightarrow> fsdev \<Rightarrow> (bool \<times> fsdev) option" where
  "write_room a p n file_size s = (if p + n > file_size then fs_file_resize a (p + n) s else Some (True, s))"

lemma write_room_file:
  assumes h: "holds s V" and f: "file_at V (sector_size s) k f es data" and ss: "16 < fs_sector s"
    and sum: "unat (p + n) = unat p + unat n"
  defines "data1 \<equiv> resized (max (length data) (unat p + unat n)) data"
  shows "\<exists>ok s' V' f' es'. write_room (payload (sector_size s) k) p n (fh_size f) s = Some (ok, s')
      \<and> holds s' V' \<and> geo s' = geo s \<and> kept V V' (file_blocks k es)
      \<and> file_blocks k es' \<inter> dom V \<subseteq> file_blocks k es \<and> file_at V' (sector_size s) k f' es' (if ok then data1 else data)
      \<and> (\<not> ok \<longrightarrow> length data < unat p + unat n \<and> (\<exists>c. 0 < unat c \<and> unat c \<le> 4096 \<and> no_room s' (FILE_EXTENT + c)))"
proof (cases "p + n > fh_size f")
  case True
  have b: "unat (fh_size f) = length data" by (rule file_size_bound(3) [OF h f])
  obtain ok s' V' f' es' where q: "fs_file_resize (payload (sector_size s) k) (p + n) s = Some (ok, s')"
    "resize_outcome s V k f es data (p + n) ok s' V' f' es'"
    using file_resize_full [OF h f ss] by blast
  have "max (length data) (unat p + unat n) = unat p + unat n" using True b sum by (simp add: word_less_nat_alt)
  then show ?thesis
    using True q sum
    by (intro exI [of _ ok] exI [of _ s'] exI [of _ V'] exI [of _ f'] exI [of _ es'])
      (cases ok; simp add: write_room_def resize_outcome_def data1_def)
next
  case False
  then have "max (length data) (unat p + unat n) = length data"
    using file_size_bound(3) [OF h f] sum by (simp add: word_less_nat_alt)
  then show ?thesis
    using False h f
    by (intro exI [of _ True] exI [of _ s] exI [of _ V] exI [of _ f] exI [of _ es]) (simp add: write_room_def data1_def)
qed

lemma file_write_full:
  assumes h: "holds s V" and f: "file_at V (sector_size s) k f es data" and fh: "handle_on fh s k FS_FILE_MODE_WRITE"
    and len: "unat (f_position fh) + length src < 4294967296" and ss: "16 < fs_sector s"
  shows "\<exists>n s' V' f' es'. fs_file_write fh src (of_nat (length src)) s
      = Some (of_nat n, fh\<lparr>f_position := f_position fh + of_nat n\<rparr>, s')
    \<and> write_outcome s V k es data (unat (f_position fh)) src n s' V' f' es'"
proof -
  let ?p = "unat (f_position fh)" and ?sz = "of_nat (length src) :: u32" and ?a = "payload (sector_size s) k"
  obtain s1 s2 where r: "fs_file_struct_is_valid fh s = (True, s1)" "fs_file_get_size (f_address fh) s1 = (fh_size f, s2)"
    "holds s2 V" "geo s2 = geo s" "holds s1 V" "geo s1 = geo s"
    using handle_steps [OF h f fh] by metis
  note g2 = geoD [OF r(4)]
  have mode: "f_mode fh AND FS_FILE_MODE_WRITE \<noteq> 0" "f_address fh = ?a" using fh by (simp_all add: handle_on_def)
  have sz: "unat ?sz = length src" using len by (intro unat_of_nat_u32) simp
  have sum: "unat (f_position fh + ?sz) = ?p + length src" using len sz by (subst unat_add_u32) simp_all
  have b: "unat (fh_size f) = length data" by (rule file_size_bound(3) [OF h f])
  show ?thesis
  proof (cases "src = []")
    case True
    then have "fs_file_write fh src ?sz s = Some (0, fh, s1)" using r mode by (simp add: fs_file_write_def)
    moreover have "write_outcome s V k es data ?p src 0 s1 V f es"
      using True r(5,6) f by (simp add: write_outcome_def write_at_def)
    ultimately show ?thesis by (intro exI [of _ 0]) auto
  next
    case False
    then have nz: "?sz \<noteq> 0" using sz by auto
    define data1 where "data1 = resized (max (length data) (?p + length src)) data"
    have f2: "file_at V (sector_size s2) k f es data" and ss2: "16 < fs_sector s2"
      and sum2: "unat (f_position fh + ?sz) = ?p + unat ?sz" using f ss g2 sum sz by simp_all
    let ?grow = "write_room ?a (f_position fh) ?sz (fh_size f) s2"
    obtain ok s3 V3 f3 es3 where g: "?grow = Some (ok, s3)" "holds s3 V3" "geo s3 = geo s" "kept V V3 (file_blocks k es)"
      "file_blocks k es3 \<inter> dom V \<subseteq> file_blocks k es" "file_at V3 (sector_size s) k f3 es3 (if ok then data1 else data)"
      "\<not> ok \<Longrightarrow> length data < ?p + length src \<and> (\<exists>c. 0 < unat c \<and> unat c \<le> 4096 \<and> no_room s3 (FILE_EXTENT + c))"
      using write_room_file [OF r(3) f2 ss2 sum2, unfolded g2(1) sz r(4), folded data1_def] by blast
    note g3 = geoD [OF g(3)]
    have step: "fs_file_write fh src ?sz s = (do {
          (fits, s3) \<leftarrow> ?grow;
          if \<not> fits then Some (0, fh, s3)
          else let (h, s4) = file_header_read (f_address fh) s3
               in do { (remaining, s5) \<leftarrow> write_loop (fh_next h) (f_position fh) src ?sz 0 s4;
                       Some (?sz - remaining, fh\<lparr>f_position := f_position fh + (?sz - remaining)\<rparr>, s5) } })"
      unfolding write_room_def fs_file_write_def using r(1,2) mode nz by (simp only: Let_def prod.case simp_thms if_False)
    show ?thesis
    proof (cases ok)
      case False
      then have "fs_file_write fh src ?sz s = Some (0, fh, s3)" using step g(1) by simp
      moreover have "write_outcome s V k es data ?p src 0 s3 V3 f3 es3"
        using False g by (simp add: write_outcome_def)
      ultimately show ?thesis by (intro exI [of _ 0]) auto
    next
      case True
      then have f3: "file_at V3 (sector_size s3) k f3 es3 data1" using g(6) g3 by simp
      obtain s4 where s4: "file_header_read ?a s3 = (f3, s4)" "holds s4 V3" "geo s4 = geo s3"
      proof -
        obtain slack where "V3 k = Some (file_header_bytes f3 @ slack)" "block_header_wf (fh_block f3)"
          using f3 by (rule file_atE)
        then show thesis using header_image_read [OF g(2)] g3 that by metis
      qed
      note g4 = geoD [OF s4(3)]
      have f4: "file_at V3 (sector_size s4) k f3 es3 data1" using f3 g4 by simp
      have fit: "?p + length src \<le> length data1" by (simp add: data1_def)
      obtain s5 V5 es5 where w: "write_loop (fh_next f3) (f_position fh) src ?sz 0 s4 = Some (0, s5)" "holds s5 V5"
        "geo s5 = geo s4" "file_at V5 (sector_size s4) k f3 es5 (patch ?p src data1)" "kept V3 V5 (file_blocks k es3)"
        "file_blocks k es5 = file_blocks k es3"
        using write_in_place [OF s4(2) f4 fit sz] by blast
      have "fs_file_write fh src ?sz s = Some (?sz, fh\<lparr>f_position := f_position fh + ?sz\<rparr>, s5)"
        using step g(1) True s4(1) w(1) mode(2) by simp
      moreover have "kept V V5 (file_blocks k es)"
        by (rule kept_trans [OF g(4) w(5)]) (use g(5) in auto)
      then have "write_outcome s V k es data ?p src (length src) s5 V5 f3 es5"
        using w g(3,5) s4(3) g3 g4 False by (simp add: write_outcome_def write_at_def data1_def)
      ultimately show ?thesis by (intro exI [of _ "length src"]) auto
    qed
  qed
qed

end
