(* ===== verification/FsDirRep.thy ===== *)
theory FsDirRep
  imports FsDirectory FsFileProps
begin

text \<open>
  When blocks of the store represent a directory: its header block with the first entries, and a doubly
  linked chain of extents with the others. The entry loops of \<open>directory.c\<close> are related here to
  operations on lists of addresses.
\<close>

section \<open>Arrays of entries\<close>

definition refs_bytes :: "u32 list \<Rightarrow> u8 list" where
  "refs_bytes rs = concat (map (word_le 4) rs)"

lemma refs_bytes_simps [simp]: "refs_bytes [] = []" "refs_bytes (r # rs) = word_le 4 r @ refs_bytes rs"
  "refs_bytes (rs @ rs') = refs_bytes rs @ refs_bytes rs'"
  by (simp_all add: refs_bytes_def)

lemma length_refs_bytes [simp]: "length (refs_bytes rs) = 4 * length rs"
  by (induction rs) simp_all

lemma refs_bytes_split:
  "i < length rs \<Longrightarrow> refs_bytes rs = refs_bytes (take i rs) @ word_le 4 (rs ! i) @ refs_bytes (drop (Suc i) rs)"
  by (subst id_take_nth_drop [of i rs]) simp_all

lemma ref_at: "i < length rs \<Longrightarrow> take 4 (drop (4 * i) (refs_bytes rs @ slack)) = word_le 4 (rs ! i)"
  by (simp add: refs_bytes_split [of i rs])

lemma ref_patch:
  assumes "i < length rs"
  shows "patch (length A + 4 * i) (word_le 4 r) (A @ refs_bytes rs @ slack) = A @ refs_bytes (rs[i := r]) @ slack"
proof -
  have "refs_bytes (rs[i := r]) = refs_bytes (take i rs) @ word_le 4 r @ refs_bytes (drop (Suc i) rs)"
    using assms refs_bytes_split [of i "rs[i := r]"] by simp
  then show ?thesis using assms by (simp add: refs_bytes_split [of i rs] patch_def)
qed

lemma ref_patch_end:
  assumes "4 \<le> length slack"
  shows "patch (length A + 4 * length rs) (word_le 4 r) (A @ refs_bytes rs @ slack)
       = A @ refs_bytes (rs @ [r]) @ drop 4 slack"
  by (simp add: patch_def)

lemma entry_addr:
  "payload ss k + of_nat n + of_nat i * 4 = (payload ss k + of_nat (n + 4 * i) :: u32)"
  by (simp add: algebra_simps)

lemma ref_read_image:
  assumes h: "holds s V" and V: "V k = Some (A @ refs_bytes rs @ slack)" and i: "i < length rs"
  obtains s1 where "ref_read (payload (sector_size s) k + of_nat (length A)) i s = (rs ! i, s1)"
    "holds s1 V" "geo s1 = geo s"
proof (rule payload_read [OF h V])
  show "length A + 4 * i + 4 \<le> length (A @ refs_bytes rs @ slack)" using i by simp
next
  fix s1
  assume "fs_mem_read (payload (sector_size s) k + of_nat (length A + 4 * i)) 4 s
      = (take 4 (drop (length A + 4 * i) (A @ refs_bytes rs @ slack)), s1)" "holds s1 V" "geo s1 = geo s"
  then show thesis using that [of s1] ref_at [OF i, of slack] entry_addr [of "sector_size s" k "length A" i]
    by (simp add: ref_read_def)
qed

lemma ref_write_image:
  fixes r :: u32
  assumes h: "holds s V" and V: "V k = Some (A @ refs_bytes rs @ slack)" and i: "i < length rs"
  defines "s' \<equiv> ref_write (payload (sector_size s) k + of_nat (length A)) i r s"
  shows "holds s' (V(k \<mapsto> A @ refs_bytes (rs[i := r]) @ slack))" "geo s' = geo s"
proof -
  have "length A + 4 * i + length (word_le 4 r) \<le> length (A @ refs_bytes rs @ slack)" using i by simp
  note w = payload_write [OF h V this]
  show "holds s' (V(k \<mapsto> A @ refs_bytes (rs[i := r]) @ slack))" "geo s' = geo s"
    using w unfolding s'_def ref_write_def entry_addr ref_patch [OF i] by simp_all
qed

lemma ref_write_end:
  fixes r :: u32
  assumes h: "holds s V" and V: "V k = Some (A @ refs_bytes rs @ slack)" and "4 \<le> length slack"
  defines "s' \<equiv> ref_write (payload (sector_size s) k + of_nat (length A)) (length rs) r s"
  shows "holds s' (V(k \<mapsto> A @ refs_bytes (rs @ [r]) @ drop 4 slack))" "geo s' = geo s"
proof -
  have "length A + 4 * length rs + length (word_le 4 r) \<le> length (A @ refs_bytes rs @ slack)" using assms(3) by simp
  note w = payload_write [OF h V this]
  show "holds s' (V(k \<mapsto> A @ refs_bytes (rs @ [r]) @ drop 4 slack))" "geo s' = geo s"
    using w unfolding s'_def ref_write_def entry_addr ref_patch_end [OF assms(3)] by simp_all
qed

section \<open>The search and the shift\<close>

lemma ref_scan_image:
  assumes "holds s V" "V k = Some (A @ refs_bytes rs @ slack)" "\<forall>i \<in> set is'. i < length rs"
  shows "\<exists>s1. ref_scan (payload (sector_size s) k + of_nat (length A)) r is' s = (find (\<lambda>i. rs ! i = r) is', s1)
    \<and> holds s1 V \<and> geo s1 = geo s"
  using assms
proof (induction is' arbitrary: s)
  case (Cons i is')
  obtain s1 where r: "ref_read (payload (sector_size s) k + of_nat (length A)) i s = (rs ! i, s1)" "holds s1 V" "geo s1 = geo s"
    using ref_read_image [OF Cons.prems(1,2), of i] Cons.prems(3) by auto
  show ?case using r Cons.IH [OF r(2) Cons.prems(2)] Cons.prems(3) geoD(1) [OF r(3)] by auto
qed simp

lemma find_index:
  "find (\<lambda>i. rs ! i = r) [0..<length rs] = None \<longleftrightarrow> r \<notin> set rs"
  by (auto simp: find_None_iff in_set_conv_nth)

lemma find_index_Some:
  assumes "find (\<lambda>i. rs ! i = r) [0..<length rs] = Some i"
  shows "i < length rs" "rs ! i = r" "remove1 r rs = take i rs @ drop (Suc i) rs"
proof -
  obtain j where "j < length rs" "rs ! j = r" "i = j" and first: "\<And>m. m < j \<Longrightarrow> rs ! m \<noteq> r"
    using assms unfolding find_Some_iff by auto
  then show i: "i < length rs" "rs ! i = r" by simp_all
  have "r \<notin> set (take i rs)" using first \<open>i = j\<close> by (auto simp: in_set_conv_nth)
  moreover have "rs = take i rs @ r # drop (Suc i) rs" using i id_take_nth_drop by metis
  ultimately show "remove1 r rs = take i rs @ drop (Suc i) rs" by (metis remove1.simps(2) remove1_append)
qed

text \<open>The array after the entries from \<open>i\<close> up to \<open>m\<close> have been overwritten by their successors.\<close>

definition shifted :: "'a list \<Rightarrow> nat \<Rightarrow> nat \<Rightarrow> 'a list" where
  "shifted rs i m = map (\<lambda>j. if i \<le> j \<and> j < m then rs ! Suc j else rs ! j) [0..<length rs]"

lemma shifted_start: "shifted rs i i = rs"
  by (rule nth_equalityI) (auto simp: shifted_def)

lemma shifted_step: "i \<le> m \<Longrightarrow> (shifted rs i m)[m := rs ! Suc m] = shifted rs i (Suc m)"
  by (rule nth_equalityI) (auto simp: shifted_def nth_list_update less_Suc_eq)

lemma shifted_end:
  "i < length rs \<Longrightarrow> (shifted rs i (length rs - 1))[length rs - 1 := x] = take i rs @ drop (Suc i) rs @ [x]"
  by (rule nth_equalityI) (auto simp: shifted_def nth_list_update nth_append less_Suc_eq)

lemma shift_fold:
  assumes "holds s V" "V k = Some (A @ refs_bytes rs @ slack)" "i \<le> m" "m < length rs"
  defines "base \<equiv> payload (sector_size s) k + of_nat (length A)"
  defines "f \<equiv> \<lambda>j t. let (x, t1) = ref_read base (Suc j) t in ref_write base j x t1"
  shows "holds (fold f [i..<m] s) (V(k \<mapsto> A @ refs_bytes (shifted rs i m) @ slack)) \<and> geo (fold f [i..<m] s) = geo s"
  using assms(3,4)
proof (induction m rule: dec_induct)
  case base
  then show ?case using assms(1,2) by (simp add: shifted_start fun_upd_idem)
next
  case (step m)
  let ?V = "V(k \<mapsto> A @ refs_bytes (shifted rs i m) @ slack)"
  define t where "t = fold f [i..<m] s"
  have t: "holds t ?V" "geo t = geo s" using step.IH Suc_lessD [OF step.prems] unfolding t_def by blast+
  have Vk: "?V k = Some (A @ refs_bytes (shifted rs i m) @ slack)" by simp
  have len: "Suc m < length (shifted rs i m)" using step.prems by (simp add: shifted_def)
  have b: "base = payload (sector_size t) k + of_nat (length A)" using geoD(1) [OF t(2)] by (simp add: base_def)
  obtain t1 where r: "ref_read base (Suc m) t = (shifted rs i m ! Suc m, t1)" "holds t1 ?V" "geo t1 = geo t"
    using ref_read_image [where V = ?V, OF t(1) Vk len] b by metis
  have x: "shifted rs i m ! Suc m = rs ! Suc m" using step.prems by (simp add: shifted_def)
  have b1: "base = payload (sector_size t1) k + of_nat (length A)" using b geoD(1) [OF r(3)] by simp
  note w = ref_write_image [where V = ?V, OF r(2) Vk Suc_lessD [OF len], of "rs ! Suc m", folded b1]
  have "fold f [i..<Suc m] s = f m t" using step.hyps(1) by (simp add: t_def)
  also have "f m t = ref_write base m (rs ! Suc m) t1" using r(1) x by (simp add: f_def)
  finally have "fold f [i..<Suc m] s = ref_write base m (rs ! Suc m) t1" .
  then show ?case using w r(3) t(2) shifted_step [OF step.hyps(1), of rs] by (simp only: fun_upd_upd)
qed

lemma ref_shift_image:
  assumes h: "holds s V" and V: "V k = Some (A @ refs_bytes rs @ slack)" and i: "i < length rs"
    and count: "count = of_nat (length rs)" "length rs < 4294967296"
  shows "\<exists>s1. ref_shift (payload (sector_size s) k + of_nat (length A)) i count s = (of_nat (length rs - 1), s1)
    \<and> holds s1 (V(k \<mapsto> A @ refs_bytes (take i rs @ drop (Suc i) rs) @ word_le 4 FS_NULL @ slack)) \<and> geo s1 = geo s"
proof -
  let ?b = "payload (sector_size s) k + of_nat (length A)" and ?m = "length rs - 1"
  let ?V = "V(k \<mapsto> A @ refs_bytes (shifted rs i ?m) @ slack)"
  have u: "unat count = length rs" unfolding count(1) using count(2) by (rule unat_of_nat_u32)
  have pos: "count > 0" using u i by (auto simp: word_pos_iff_unat)
  then have u1: "unat (count - 1) = ?m" using u by (subst unat_minus_one_u32) auto
  have "i \<le> ?m" "?m < length rs" using i by simp_all
  note sh = shift_fold [OF h V this]
  define t where "t = fold (\<lambda>j t. let (x, t1) = ref_read ?b (Suc j) t in ref_write ?b j x t1) [i..<?m] s"
  have t: "t = fold (\<lambda>j t. let (x, t1) = ref_read ?b (Suc j) t in ref_write ?b j x t1) [i..<?m] s"
    "holds t ?V" "geo t = geo s" using sh unfolding t_def by blast+
  have Vk: "?V k = Some (A @ refs_bytes (shifted rs i ?m) @ slack)" by simp
  have len: "?m < length (shifted rs i ?m)" using i by (simp add: shifted_def)
  note w = ref_write_image [where V = ?V, OF t(2) Vk len, of FS_NULL]
  have b: "payload (sector_size t) k + of_nat (length A) = ?b" using geoD(1) [OF t(3)] by simp
  have "count - 1 = of_nat ?m" using u1 by (metis of_nat_unat ucast_id)
  then have "ref_shift ?b i count s = (of_nat ?m, ref_write ?b ?m FS_NULL t)"
    using pos u u1 by (simp add: ref_shift_def t_def)
  then show ?thesis using w t(3) unfolding shifted_end [OF i] b by (simp only: fun_upd_upd) simp
qed

section \<open>Directories\<close>

lemma length_dir_extent_bytes [simp]: "length (dir_extent_bytes e) = 12"
  by (simp add: dir_extent_bytes_def)

lemma length_dir_header_bytes [simp]: "block_header_wf (dh_block d) \<Longrightarrow> length (dir_header_bytes d) = 48"
  by (simp add: dir_header_bytes_def)

lemma bytes_dir_extent_bytes [simp]: "bytes_dir_extent (dir_extent_bytes e) = e"
  by (simp add: bytes_dir_extent_def dir_extent_bytes_def)

lemma bytes_dir_header_bytes [simp]: "block_header_wf (dh_block d) \<Longrightarrow> bytes_dir_header (dir_header_bytes d) = d"
  by (simp add: bytes_dir_header_def dir_header_bytes_def)

text \<open>
  \<open>dseg V ss p a es b\<close>: from address \<open>a\<close>, whose predecessor is \<open>p\<close>, the extents \<open>es\<close> lead to address \<open>b\<close>;
  each is given by its block and its entries.
\<close>

fun dseg :: "store \<Rightarrow> u32 \<Rightarrow> u32 \<Rightarrow> u32 \<Rightarrow> (nat \<times> u32 list) list \<Rightarrow> u32 \<Rightarrow> bool" where
  "dseg V ss p a [] b \<longleftrightarrow> a = b"
| "dseg V ss p a ((k, rs) # es) b \<longleftrightarrow>
     a = payload ss k
     \<and> (\<exists>e slack. V k = Some (dir_extent_bytes e @ refs_bytes rs @ slack) \<and> de_count e = of_nat (length rs)
           \<and> de_prev e = p \<and> dseg V ss (payload ss k) (de_next e) es b)"

definition entries :: "u32 list \<Rightarrow> (nat \<times> u32 list) list \<Rightarrow> u32 list" where
  "entries rs es = rs @ concat (map snd es)"

lemma entries_simps [simp]: "entries rs [] = rs" "entries rs ((k, rs') # es) = rs @ entries rs' es"
  by (simp_all add: entries_def)

lemma dseg_cong: "(\<And>k. k \<in> fst ` set es \<Longrightarrow> V' k = V k) \<Longrightarrow> dseg V' ss p a es b = dseg V ss p a es b"
  by (induction V ss p a es b rule: dseg.induct) auto

lemma dseg_upd: "k \<notin> fst ` set es \<Longrightarrow> dseg (V(k := x)) ss p a es b = dseg V ss p a es b"
  by (intro dseg_cong) auto

text \<open>\<open>dir_at V ss k d rs es\<close>: block \<open>k\<close> holds the directory header \<open>d\<close> and the entries \<open>rs\<close>, the extents \<open>es\<close> the others.\<close>

definition dir_at :: "store \<Rightarrow> u32 \<Rightarrow> nat \<Rightarrow> fs_dir_header \<Rightarrow> u32 list \<Rightarrow> (nat \<times> u32 list) list \<Rightarrow> bool" where
  "dir_at V ss k d rs es \<longleftrightarrow>
     (\<exists>slack. V k = Some (dir_header_bytes d @ refs_bytes rs @ slack)) \<and> block_header_wf (dh_block d)
     \<and> bh_attributes (dh_block d) AND FS_ATTRIBUTE_DIRECTORY \<noteq> 0 \<and> dh_count d = of_nat (length rs)
     \<and> dseg V ss (payload ss k) (dh_next d) es FS_NULL \<and> distinct (k # map fst es)"

lemma dir_atE:
  assumes "dir_at V ss k d rs es"
  obtains slack where "V k = Some (dir_header_bytes d @ refs_bytes rs @ slack)" "block_header_wf (dh_block d)"
    "bh_attributes (dh_block d) AND FS_ATTRIBUTE_DIRECTORY \<noteq> 0" "dh_count d = of_nat (length rs)"
    "dseg V ss (payload ss k) (dh_next d) es FS_NULL" "k \<notin> fst ` set es" "distinct (map fst es)"
  using assms unfolding dir_at_def by auto

lemma alloc_header_image:
  assumes h: "holds s V" and V: "V k = Some d" "d \<noteq> []"
  obtains s1 where "fs_file_alloc_header_read (payload (sector_size s) k) s = (Some (of_nat (length d)), s1)"
    "holds s1 V" "geo s1 = geo s"
proof -
  note b = block_bounds [OF h V(1)]
  have "\<not> payload (sector_size s) k < ALLOC_HEADER" using b(4) by (simp add: word_less_nat_alt ALLOC_HEADER_def)
  moreover have "(of_nat (length d) :: u32) \<noteq> 0"
    using V(2) unat_of_nat_u32 [OF holdsD(5) [OF h V(1)]] by (metis length_0_conv unat_0)
  ultimately show thesis
    using size_read [OF h V(1)] b(8) that by (force simp: fs_file_alloc_header_read_def)
qed

lemma dir_header_image:
  assumes h: "holds s V" and V: "V k = Some (dir_header_bytes d @ rest)" and wf: "block_header_wf (dh_block d)"
  obtains s1 where "fs_directory_header_read (payload (sector_size s) k) s = (Some d, s1)" "holds s1 V" "geo s1 = geo s"
proof -
  have ne: "dir_header_bytes d @ rest \<noteq> []" using wf by (metis append_is_Nil_conv length_dir_header_bytes list.size(3) zero_neq_numeral)
  obtain s1 where s1: "fs_file_alloc_header_read (payload (sector_size s) k) s
      = (Some (of_nat (length (dir_header_bytes d @ rest))), s1)" "holds s1 V" "geo s1 = geo s"
    using alloc_header_image [OF h V ne] by metis
  obtain s2 where s2: "fs_mem_read (payload (sector_size s) k) 48 s1 = (take 48 (dir_header_bytes d @ rest), s2)"
    "holds s2 V" "geo s2 = geo s1"
    using payload_read [OF s1(2) V, of 0 48] geoD(1) [OF s1(3)] wf by auto
  have "unat (of_nat (length (dir_header_bytes d @ rest)) :: u32) = 48 + length rest"
    using unat_of_nat_u32 [OF holdsD(5) [OF h V]] wf by simp
  then have "\<not> of_nat (length (dir_header_bytes d @ rest)) < DIR_HEADER" by (simp add: word_less_nat_alt DIR_HEADER_def)
  then have "fs_directory_header_read (payload (sector_size s) k) s = (Some d, s2)"
    using s1(1) s2(1) wf by (simp add: fs_directory_header_read_def)
  then show thesis using that s2(2,3) s1(3) by simp
qed

lemma dir_extent_image:
  assumes h: "holds s V" and V: "V k = Some (dir_extent_bytes e @ rest)"
  obtains s1 where "fs_directory_extent_read (payload (sector_size s) k) s = (Some e, s1)" "holds s1 V" "geo s1 = geo s"
proof -
  have ne: "dir_extent_bytes e @ rest \<noteq> []" by (metis append_is_Nil_conv length_dir_extent_bytes list.size(3) zero_neq_numeral)
  obtain s1 where s1: "fs_file_alloc_header_read (payload (sector_size s) k) s
      = (Some (of_nat (length (dir_extent_bytes e @ rest))), s1)" "holds s1 V" "geo s1 = geo s"
    using alloc_header_image [OF h V ne] by metis
  obtain s2 where s2: "fs_mem_read (payload (sector_size s) k) 12 s1 = (take 12 (dir_extent_bytes e @ rest), s2)"
    "holds s2 V" "geo s2 = geo s1"
    using payload_read [OF s1(2) V, of 0 12] geoD(1) [OF s1(3)] by auto
  have "unat (of_nat (length (dir_extent_bytes e @ rest)) :: u32) = 12 + length rest"
    using unat_of_nat_u32 [OF holdsD(5) [OF h V]] by simp
  then have "\<not> of_nat (length (dir_extent_bytes e @ rest)) < DIR_EXTENT" by (simp add: word_less_nat_alt DIR_EXTENT_def)
  then have "fs_directory_extent_read (payload (sector_size s) k) s = (Some e, s2)"
    using s1(1) s2(1) by (simp add: fs_directory_extent_read_def)
  then show thesis using that s2(2,3) s1(3) by simp
qed

text \<open>Distinct blocks of a store are fewer than the walk limit.\<close>

lemma walk_limit_suffices:
  assumes h: "holds s V" and ks: "distinct ks" "set ks \<subseteq> dom V"
  shows "length ks \<le> unat (fs_directory_walk_limit s)"
proof (cases ks)
  case (Cons k ks')
  have "k < fs_cap s" if "k \<in> set ks" for k
    using block_bounds(2) [OF h] that ks(2) by (metis domD subsetD)
  then have "set ks \<subseteq> {..<fs_cap s}" by auto
  then have "length ks \<le> fs_cap s" using card_mono [of "{..<fs_cap s}" "set ks"] ks(1) by (simp add: distinct_card)
  moreover have "fs_cap s = unat (block_count s)" by (simp add: fs_cap_def)
  moreover have "block_count s \<noteq> 0" using calculation Cons by auto
  ultimately show ?thesis by (simp add: fs_directory_walk_limit_def)
qed simp

lemma dseg_dom: "dseg V ss p a es b \<Longrightarrow> fst ` set es \<subseteq> dom V"
  by (induction V ss p a es b rule: dseg.induct) auto

lemma dir_walk_limit:
  assumes "holds s V" "dir_at V (sector_size s) k d rs es"
  shows "length es < unat (fs_directory_walk_limit s)"
proof -
  obtain slack where V: "V k = Some (dir_header_bytes d @ refs_bytes rs @ slack)"
    and c: "dseg V (sector_size s) (payload (sector_size s) k) (dh_next d) es FS_NULL" "k \<notin> fst ` set es" "distinct (map fst es)"
    using assms(2) by (rule dir_atE)
  have "distinct (k # map fst es)" "set (k # map fst es) \<subseteq> dom V" using V c dseg_dom [OF c(1)] by auto
  from walk_limit_suffices [OF assms(1) this] show ?thesis by simp
qed

lemma walk_limit_geo: "geo s' = geo s \<Longrightarrow> fs_directory_walk_limit s' = fs_directory_walk_limit s"
  unfolding fs_directory_walk_limit_def using geoD(2) [of s' s] by (simp add: fs_cap_def word_unat_eq_iff)

text \<open>Entry counts fit into a word, since the entries are on the device.\<close>

lemma entry_count:
  assumes "holds s V" "V k = Some (A @ refs_bytes rs @ slack)"
  shows "unat (of_nat (length rs) :: u32) = length rs" "length rs < 4294967296"
proof -
  show "length rs < 4294967296" using holdsD(5) [OF assms] by simp
  then show "unat (of_nat (length rs) :: u32) = length rs" by (rule unat_of_nat_u32)
qed

end
