(* ===== verification/FsFileSpec.thy ===== *)
theory FsFileSpec
  imports FsFileProps FsDirectory
begin

text \<open>
  The creation of files, and the properties of the file layer: what reading, writing, resizing and
  deleting a file promise, with a file on a freshly formatted 16-sector device as the concrete case.
\<close>

section \<open>Creating a file\<close>

lemma take_cstr_length: "terminated nm \<or> 15 \<le> length nm \<Longrightarrow> length (take 15 (cstr nm)) \<le> 15"
  by simp

lemma new_name_eq:
  assumes "terminated nm \<or> 15 \<le> length nm"
  obtains bs where "new_name nm = Some bs" "length bs = 16" "bs ! 15 = 0"
proof -
  obtain cs where cs: "strncpy (replicate 16 0) nm 15 = Some cs" using strncpy_eq [OF assms, of "replicate 16 0"] by auto
  then have "length cs = 16" using strncpy_length by fastforce
  then show thesis using that [of "cs[15 := 0]"] cs by (simp add: new_name_def)
qed

text \<open>A fresh block that is then overwritten by a file header.\<close>

lemma fresh_header:
  assumes h: "holds s V" and k: "V k = None" and t: "holds s1 (V(k \<mapsto> d))" "geo s1 = geo s" and d: "length d = 44"
    and f: "block_header_wf (fh_block f)" "bh_attributes (fh_block f) AND FS_ATTRIBUTE_DIRECTORY = 0"
      "fh_size f = 0" "fh_next f = FS_NULL"
  defines "s2 \<equiv> file_header_write (payload (sector_size s) k) f s1"
  defines "V2 \<equiv> V(k \<mapsto> file_header_bytes f)"
  shows "holds s2 V2" "geo s2 = geo s" "file_at V2 (sector_size s) k f [] []" "kept V V2 {}"
proof -
  have "(V(k \<mapsto> d)) k = Some d" "0 + length (file_header_bytes f) \<le> length d" using d f by simp_all
  note w = payload_write [where V = "V(k \<mapsto> d)", OF t(1) this]
  have p: "patch 0 (file_header_bytes f) d = file_header_bytes f" using d f by (simp add: patch_def)
  have a: "payload (sector_size s1) k + of_nat 0 = payload (sector_size s) k" using geoD(1) [OF t(2)] by simp
  show "holds s2 V2" "geo s2 = geo s"
    using w t(2) unfolding p a fun_upd_upd by (simp_all add: s2_def V2_def file_header_write_def)
  show "file_at V2 (sector_size s) k f [] []" using f by (simp add: file_at_def V2_def)
  show "kept V V2 {}" using k by (simp add: kept_def V2_def)
qed

definition create_failed :: "fsdev \<Rightarrow> u32 \<Rightarrow> bool" where
  "create_failed s' a \<longleftrightarrow>
     (\<exists>z. unat z \<le> 4108 \<and> (no_room s' z \<or> (\<exists>t. s' = fs_free a t \<and> no_room t z)))"

definition create_outcome :: "fsdev \<Rightarrow> store \<Rightarrow> u8 \<Rightarrow> nat \<Rightarrow> u32 \<Rightarrow> fsdev \<Rightarrow> store \<Rightarrow> bool" where
  "create_outcome s V perm n a s' V' \<longleftrightarrow>
     holds s' V' \<and> geo s' = geo s \<and> kept V V' {}
     \<and> (a = FS_NULL \<and> (\<exists>b. create_failed s' b)
        \<or> (\<exists>k f es. V k = None \<and> a = payload (sector_size s) k \<and> file_at V' (sector_size s) k f es (replicate n 0)
             \<and> bh_permissions (fh_block f) = perm))"

lemma file_create_full:
  assumes h: "holds s V" and ss: "16 < fs_sector s" "fs_sector s + 8192 < 4294967296"
    and nm: "terminated nm \<or> 15 \<le> length nm"
  shows "\<exists>a s' V'. fs_file_create nm perm sz FS_NULL s = Some (a, s') \<and> create_outcome s V perm (unat sz) a s' V'"
proof -
  have al: "unat FILE_HEADER + 4 + fs_sector s < 4294967296" using ss by (simp add: FILE_HEADER_def)
  obtain nb where nb: "new_name nm = Some nb" "length nb = 16" using new_name_eq [OF nm] by metis
  show ?thesis
  proof (cases rule: store_alloc [OF h al])
    case none: (1 s')
    have "create_failed s' FS_NULL"
      using alloc_fails [OF h al none(1)] by (auto simp: create_failed_def FILE_HEADER_def intro: exI [of _ 44])
    then have "create_outcome s V perm (unat sz) FS_NULL s' V" using none by (auto simp: create_outcome_def)
    moreover have "fs_file_create nm perm sz FS_NULL s = Some (FS_NULL, s')" using none by (simp add: fs_file_create_def)
    ultimately show ?thesis by blast
  next
    case some: (2 k s1 d)
    let ?a = "payload (sector_size s) k"
    define f where "f = \<lparr>fh_block = new_block nb 0 perm, fh_size = 0, fh_next = FS_NULL, fh_prev = FS_NULL\<rparr>"
    have f: "block_header_wf (fh_block f)" "bh_attributes (fh_block f) AND FS_ATTRIBUTE_DIRECTORY = 0"
      "fh_size f = 0" "fh_next f = FS_NULL" "bh_permissions (fh_block f) = perm"
      using nb by (simp_all add: f_def new_block_def block_header_wf_def)
    let ?s2 = "file_header_write ?a f s1" and ?V2 = "V(k \<mapsto> file_header_bytes f)"
    have d: "length d = 44" using some(3) by (simp add: FILE_HEADER_def)
    note w = fresh_header [OF h some(2,4,5) d f(1-4)]
    note g2 = geoD [OF w(2)]
    have step: "fs_file_create nm perm sz FS_NULL s = (if sz > 0
        then do { (ok, s4) \<leftarrow> fs_file_resize ?a sz ?s2; if \<not> ok then Some (FS_NULL, fs_free ?a s4) else Some (?a, s4) }
        else Some (?a, ?s2))"
      using some(1,6) nb(1) by (simp add: fs_file_create_def f_def)
    show ?thesis
    proof (cases "sz > 0")
      case False
      then have "replicate (unat sz) 0 = ([] :: u8 list)" by (simp add: word_pos_iff_unat)
      then have "create_outcome s V perm (unat sz) ?a ?s2 ?V2"
        unfolding create_outcome_def using w f(5) some(2) by metis
      then show ?thesis using step False by auto
    next
      case True
      have f2: "file_at ?V2 (sector_size ?s2) k f [] []" "16 < fs_sector ?s2" using w(3) ss(1) g2 by simp_all
      obtain ok s4 V4 f4 es4 where q: "fs_file_resize ?a sz ?s2 = Some (ok, s4)"
        "resize_outcome ?s2 ?V2 k f [] [] sz ok s4 V4 f4 es4"
        using file_resize_full [OF w(1) f2, unfolded g2(1)] by blast
      note o = resize_outcome_geo [OF q(2) w(2), unfolded resize_outcome_def]
      have kept: "kept V V4 {}" by (rule kept_trans [OF w(4)]) (use o some(2) in \<open>auto simp: file_blocks_def\<close>)
      show ?thesis
      proof (cases ok)
        case True
        then have "file_at V4 (sector_size s) k f4 es4 (replicate (unat sz) 0)" using o by (simp add: resized_def)
        moreover have "bh_permissions (fh_block f4) = perm" using o f(5) by simp
        ultimately have "create_outcome s V perm (unat sz) ?a s4 V4"
          unfolding create_outcome_def using o kept some(2) by blast
        then show ?thesis using step \<open>sz > 0\<close> q(1) True by auto
      next
        case False
        then obtain c where c: "unat c \<le> 4096" "no_room s4 (FILE_EXTENT + c)" using o by blast
        have fat: "file_at V4 (sector_size s) k f4 es4 []" using o False by simp
        obtain slack where V4: "V4 k = Some (file_header_bytes f4 @ slack)" using fat by (rule file_atE)
        have g4: "sector_size s4 = sector_size s" using geoD(1) [of s4 s] o by simp
        note fr = store_free [of s4 V4 k, OF _ V4, unfolded g4]
        have "unat (FILE_EXTENT + c) \<le> 4108" using c(1) by (subst unat_add_u32) (simp_all add: FILE_EXTENT_def)
        then have "create_failed (fs_free ?a s4) ?a" using c(2) unfolding create_failed_def by blast
        moreover have "kept V (V4(k := None)) {}" using kept some(2) by (auto simp: kept_def)
        moreover have "holds (fs_free ?a s4) (V4(k := None))" "geo (fs_free ?a s4) = geo s" using fr o by simp_all
        ultimately have "create_outcome s V perm (unat sz) FS_NULL (fs_free ?a s4) (V4(k := None))"
          unfolding create_outcome_def by blast
        then show ?thesis using step \<open>sz > 0\<close> q(1) False by auto
      qed
    qed
  qed
qed

section \<open>A file on a freshly formatted device\<close>

lemma small_dev_holds: "holds small_dev Map.empty"
  using small_dev_props by (simp add: holds_def live_of_def)

lemma small_room:
  assumes "holds s Map.empty" "geo s = geo small_dev" "unat z \<le> 508"
  shows "\<not> no_room s z"
proof -
  note g = geoD [OF assms(2)]
  have "fs_blocks z s = 1" using assms(3) g(4) small_dev_props(5) by (simp add: fs_blocks_def ceil_div_def)
  moreover have "\<not> fs_bit (Suc 0) s"
    using alloc_inv_used [OF holdsD(4) [OF assms(1)], of "Suc 0"] g small_dev_props by (simp add: covered_def live_of_def)
  then have "free_run (\<lambda>i. fs_bit i s) (Suc 0) 1" by (auto simp: free_run_def less_Suc_eq_le dest: le_antisym)
  ultimately show ?thesis
    unfolding no_room_def using g small_dev_props by (intro notI) (force dest: spec [of _ "Suc 0"])
qed

lemma small_room1:
  assumes h: "holds s [k \<mapsto> d]" and g: "geo s = geo small_dev" and d: "length d \<le> 508" and z: "unat z \<le> 508"
  shows "\<not> no_room s z"
proof -
  note g = geoD [OF g]
  have len: "unat (of_nat (length d) :: u32) = length d" using d by (intro unat_of_nat_u32) simp
  have blocks: "fs_blocks z s = 1" "fs_blocks (of_nat (length d)) s = 1"
    using z d g(4) small_dev_props(5) len by (simp_all add: fs_blocks_def ceil_div_def)
  obtain i where i: "i \<noteq> k" "1 \<le> i" "i \<le> 2" by (rule that [of "if k = 1 then 2 else 1"]) auto
  have "\<not> fs_bit i s"
    using alloc_inv_used [OF holdsD(4) [OF h], of i] g small_dev_props i blocks(2) by (auto simp: covered_def live_of_def)
  then have "free_run (\<lambda>i. fs_bit i s) i 1" by (auto simp: free_run_def less_Suc_eq_le dest: le_antisym)
  then show ?thesis
    unfolding no_room_def using g small_dev_props i blocks(1) by (intro notI) (force dest: spec [of _ i])
qed

lemma demo_file:
  obtains s V k f where "holds s V" "geo s = geo small_dev" "file_at V (sector_size s) k f [] []"
    "V = [k \<mapsto> file_header_bytes f]" "bh_permissions (fh_block f) = 6" "fs_file_create [65, 0] 6 0 FS_NULL small_dev = Some (payload (sector_size s) k, s)"
proof -
  have al: "unat FILE_HEADER + 4 + fs_sector small_dev < 4294967296" using small_dev_props by (simp add: FILE_HEADER_def)
  show thesis
  proof (cases rule: store_alloc [OF small_dev_holds al])
    case none: (1 s')
    then show ?thesis
      using small_room [OF none(2,3), of FILE_HEADER] alloc_fails [OF small_dev_holds al none(1)]
      by (simp add: FILE_HEADER_def)
  next
    case some: (2 k s1 d)
    let ?a = "payload (sector_size small_dev) k"
    define f where "f = \<lparr>fh_block = new_block (65 # replicate 15 0) 0 6, fh_size = 0, fh_next = FS_NULL, fh_prev = FS_NULL\<rparr>"
    have f: "block_header_wf (fh_block f)" "bh_attributes (fh_block f) AND FS_ATTRIBUTE_DIRECTORY = 0"
      "fh_size f = 0" "fh_next f = FS_NULL" "bh_permissions (fh_block f) = 6"
      by (simp_all add: f_def new_block_def block_header_wf_def)
    have d: "length d = 44" using some(3) by (simp add: FILE_HEADER_def)
    note w = fresh_header [OF small_dev_holds some(2,4,5) d f(1-4)]
    have "new_name [65, 0] = Some (65 # replicate 15 0)" by (simp add: new_name_def numeral_eq_Suc)
    then have "fs_file_create [65, 0] 6 0 FS_NULL small_dev = Some (?a, file_header_write ?a f s1)"
      using some(1,6) by (simp add: fs_file_create_def f_def)
    then show ?thesis using that [OF w(1,2)] w(3) f(5) geoD(1) [OF w(2)] by simp
  qed
qed

text \<open>The same file with three bytes in an extent.\<close>

lemma demo_data:
  obtains s V k f es where "holds s V" "geo s = geo small_dev" "file_at V (sector_size s) k f es [0, 0, 0]" "16 < fs_sector s"
proof (rule demo_file)
  fix s V k f
  assume d: "holds s V" "geo s = geo small_dev" "file_at V (sector_size s) k f [] []" "V = [k \<mapsto> file_header_bytes f]"
  obtain slack where f: "V k = Some (file_header_bytes f @ slack)" "block_header_wf (fh_block f)"
    "bh_attributes (fh_block f) AND FS_ATTRIBUTE_DIRECTORY = 0" "chain V (sector_size s) (fh_next f) []"
    using d(3) by (rule file_atE)
  have ss: "fs_sector s = 512" using geoD(4) [OF d(2)] small_dev_props by simp
  have tail: "tail_of V (sector_size s) [] None" by (simp add: tail_of_def)
  have three: "unat (3 :: u32) \<le> 4096" "V k \<noteq> None" "k \<notin> fst ` set ([] :: (nat \<times> u8 list) list)"
    "fs_sector s + 8192 < 4294967296" "distinct (map fst ([] :: (nat \<times> u8 list) list))" using f(1) ss by simp_all
  show thesis
  proof (cases rule: grow_step_seg [OF d(1) f(4) three(5) tail three(1-4), where address = 0])
    case full: (1 s')
    have "geo s' = geo small_dev" using full(3) d(2) by simp
    with full(2) [unfolded d(4)] have "holds s' [k \<mapsto> file_header_bytes f]" "geo s' = geo small_dev" .
    from small_room1 [OF this, of "FILE_EXTENT + 3"] full(4) f(2) show thesis by (simp add: FILE_EXTENT_def)
  next
    case grown: (2 k2 e f1 s1 V1)
    have "k2 \<noteq> k" using grown(4) f(1) by auto
    then have V1: "V1 k = Some (file_header_bytes f @ slack)" using grown(7) [of k] f(1) by simp
    let ?f = "f1\<lparr>fh_size := 3\<rparr>"
    note g1 = geoD(1) [OF grown(3)]
    have hd: "fh_block ?f = fh_block f" "fh_size ?f = of_nat (length [0 :: u8, 0, 0])" using grown(8) by simp_all
    have r: "replicate 3 (0 :: u8) = [0, 0, 0]" by (simp add: numeral_eq_Suc)
    have ch: "chain V1 (sector_size s1) (fh_next ?f) [(k2, [0, 0, 0])]" "distinct (k # map fst [(k2, [0 :: u8, 0, 0])])"
      "content [(k2, [0, 0, 0])] = [0, 0, 0] @ replicate 0 0"
      using grown(5) g1 \<open>k2 \<noteq> k\<close> r by simp_all
    note w = header_rewrite [OF grown(2) V1 f(2,3) hd ch]
    show thesis using that [OF w(1)] w(2,3) grown(3) d(2) ss g1 geoD [OF w(2)] geoD(4) [OF grown(3)] by simp
  qed
qed

definition demo_handle :: "fsdev \<Rightarrow> nat \<Rightarrow> file_handle" where
  "demo_handle s k = \<lparr>f_address = payload (sector_size s) k, f_position = 0, f_mode = 3, f_open = True, f_ctx = True\<rparr>"

lemma demo_handle_on: "handle_on (demo_handle s k) s k FS_FILE_MODE_READ" "handle_on (demo_handle s k) s k FS_FILE_MODE_WRITE"
  by (simp_all add: handle_on_def demo_handle_def FS_FILE_MODE_READ_def FS_FILE_MODE_WRITE_def)

lemma demo_position [simp]: "f_position (demo_handle s k) = 0"
  by (simp add: demo_handle_def)

section \<open>Properties\<close>

text \<open>
  On a device with intact allocations and a file with contents \<open>data\<close>, \<open>fs_file_read\<close> through a handle
  opened for reading returns exactly the bytes of the file from the handle's position, as many as were
  asked for and the file has, moves the position behind them, and changes neither the file nor any other
  block.
\<close>

theorem file_read_correct:
  assumes "holds s V" "file_at V (sector_size s) k f es data" "handle_on fh s k FS_FILE_MODE_READ"
    and "unat (f_position fh) + unat sz < 4294967296"
  shows "\<exists>s'. fs_file_read fh sz s
      = Some (of_nat (min (unat sz) (length data - unat (f_position fh))),
          take (unat sz) (drop (unat (f_position fh)) data),
          fh\<lparr>f_position := f_position fh + of_nat (min (unat sz) (length data - unat (f_position fh)))\<rparr>, s')
    \<and> holds s' V \<and> geo s' = geo s"
proof -
  have "take (min (unat sz) (length data - unat (f_position fh))) (drop (unat (f_position fh)) data)
      = take (unat sz) (drop (unat (f_position fh)) data)" by (simp add: min_def)
  then show ?thesis using file_read_full [OF assms] by simp
qed

theorem file_read_correct_witness:
  "\<exists>s k s'. fs_file_read (demo_handle s k) 2 s = Some (2, [0, 0], (demo_handle s k)\<lparr>f_position := 2\<rparr>, s')"
proof (rule demo_data)
  fix s V k f es
  assume d: "holds s V" "file_at V (sector_size s) k f es [0, 0, 0]"
  have "take 2 [0, 0, 0] = [0, 0 :: u8]" by (simp add: numeral_eq_Suc)
  with file_read_correct [OF d demo_handle_on(1), of 2]
  have "\<exists>s'. fs_file_read (demo_handle s k) 2 s = Some (2, [0, 0], (demo_handle s k)\<lparr>f_position := 2\<rparr>, s')" by auto
  then show ?thesis by blast
qed

text \<open>
  C21: \<open>fs_file_write\<close> refines writing into a list of bytes. Either all of \<open>src\<close> is written at the handle's
  position, the file growing as needed with zeros in a gap, or nothing is written and the contents are
  what they were, because the device has no room for another extent. All blocks that belong to other
  files keep their contents, and the file only takes blocks that were free.
\<close>

theorem file_write_correct:
  assumes "holds s V" "file_at V (sector_size s) k f es data" "handle_on fh s k FS_FILE_MODE_WRITE"
    and "unat (f_position fh) + length src < 4294967296" "16 < fs_sector s"
  shows "\<exists>n s' V' f' es'. fs_file_write fh src (of_nat (length src)) s
      = Some (of_nat n, fh\<lparr>f_position := f_position fh + of_nat n\<rparr>, s')
    \<and> write_outcome s V k es data (unat (f_position fh)) src n s' V' f' es'"
  by (rule file_write_full [OF assms])

theorem file_write_correct_witness:
  "\<exists>s V k n s' V' f' es'. fs_file_write (demo_handle s k) [1, 2, 3] 3 s
      = Some (of_nat n, (demo_handle s k)\<lparr>f_position := of_nat n\<rparr>, s')
    \<and> write_outcome s V k [] [] 0 [1, 2, 3] n s' V' f' es'"
proof (rule demo_file)
  fix s V k f
  assume d: "holds s V" "geo s = geo small_dev" "file_at V (sector_size s) k f [] []"
  have "16 < fs_sector s" using geoD(4) [OF d(2)] small_dev_props by simp
  with file_write_correct [OF d(1,3) demo_handle_on(2), of "[1, 2, 3]"]
  have "\<exists>n s' V' f' es'. fs_file_write (demo_handle s k) [1, 2, 3] 3 s
      = Some (of_nat n, (demo_handle s k)\<lparr>f_position := of_nat n\<rparr>, s')
    \<and> write_outcome s V k [] [] 0 [1, 2, 3] n s' V' f' es'" by simp
  then show ?thesis by blast
qed

lemma seek_file:
  assumes h: "holds s V" and f: "file_at V (sector_size s) k f es data" and fh: "handle_on fh s k m"
    and p: "unat p \<le> length data"
  obtains s1 where "fs_file_seek fh p s = (p, fh\<lparr>f_position := p\<rparr>, s1)" "holds s1 V" "geo s1 = geo s"
proof -
  obtain s1 s2 where r: "fs_file_struct_is_valid fh s = (True, s1)" "fs_file_get_size (f_address fh) s1 = (fh_size f, s2)"
    "holds s2 V" "geo s2 = geo s" using handle_steps [OF h f fh] by metis
  have "\<not> p > fh_size f" using p file_size_bound(3) [OF h f] by (simp add: word_less_nat_alt)
  then show thesis using that [of s2] r by (simp add: fs_file_seek_def)
qed

lemma write_at_read:
  assumes "src \<noteq> []"
  shows "take (length src) (drop p (write_at p src d)) = src" "p + length src \<le> length (write_at p src d)"
  using assms by (simp_all add: write_at_def patch_def)

lemma write_read_full:
  assumes h: "holds s V" and f: "file_at V (sector_size s) k f es data"
    and fh: "handle_on fh s k FS_FILE_MODE_WRITE" "handle_on fh s k FS_FILE_MODE_READ"
    and len: "unat (f_position fh) + length src < 4294967296" and ss: "16 < fs_sector s" and ne: "src \<noteq> []"
    and w: "fs_file_write fh src (of_nat (length src)) s = Some (of_nat (length src), fh', s')"
  shows "\<exists>s2 fh3 s3. fs_file_seek fh' (f_position fh) s' = (f_position fh, fh'\<lparr>f_position := f_position fh\<rparr>, s2)
    \<and> fs_file_read (fh'\<lparr>f_position := f_position fh\<rparr>) (of_nat (length src)) s2
      = Some (of_nat (length src), src, fh3, s3)"
proof -
  obtain n s1 V' f' es' where a: "fs_file_write fh src (of_nat (length src)) s
      = Some (of_nat n, fh\<lparr>f_position := f_position fh + of_nat n\<rparr>, s1)"
    "write_outcome s V k es data (unat (f_position fh)) src n s1 V' f' es'"
    using file_write_full [OF h f fh(1) len ss] by blast
  have e: "of_nat n = (of_nat (length src) :: u32)" "fh' = fh\<lparr>f_position := f_position fh + of_nat n\<rparr>" "s' = s1"
    using w unfolding a(1) option.inject prod.inject by blast+
  note o = e(1,2) a(2) [folded e(3)]
  have h': "holds s' V'" "geo s' = geo s" using o(3) by (simp_all add: write_outcome_def)
  note g = geoD(1) [OF h'(2)]
  have sz: "unat (of_nat (length src) :: u32) = length src" using len by (intro unat_of_nat_u32) simp
  have fh': "handle_on fh' s' k FS_FILE_MODE_READ" using fh(2) o(2) g by (simp add: handle_on_def)
  have "n \<noteq> 0"
  proof
    assume "n = 0"
    then have "(of_nat (length src) :: u32) = 0" using o(1) by simp
    then show False using sz ne by simp
  qed
  then have fd: "file_at V' (sector_size s') k f' es' (write_at (unat (f_position fh)) src data)"
    using o(3) g by (simp add: write_outcome_def)
  note wr = write_at_read [OF ne, of "unat (f_position fh)" data]
  obtain s2 where s2: "fs_file_seek fh' (f_position fh) s' = (f_position fh, fh'\<lparr>f_position := f_position fh\<rparr>, s2)"
    "holds s2 V'" "geo s2 = geo s'"
    using seek_file [OF h'(1) fd fh' add_leD1 [OF wr(2)]] by blast
  have fd2: "file_at V' (sector_size s2) k f' es' (write_at (unat (f_position fh)) src data)"
    "handle_on (fh'\<lparr>f_position := f_position fh\<rparr>) s2 k FS_FILE_MODE_READ"
    using fd fh' geoD(1) [OF s2(3)] by (simp_all add: handle_on_def)
  from file_read_full [OF s2(2) fd2, of "of_nat (length src)"] show ?thesis
    using s2(1) sz len wr by (auto simp: min_def)
qed

text \<open>
  C20: What was written is what is read: after a successful \<open>fs_file_write\<close>, seeking back to where the write
  began and reading as many bytes returns exactly the bytes written, however the file's extents lie on
  the device and however many of them the write had to add.
\<close>

theorem file_write_read:
  assumes "holds s V" "file_at V (sector_size s) k f es data"
    and "handle_on fh s k FS_FILE_MODE_WRITE" "handle_on fh s k FS_FILE_MODE_READ"
    and "unat (f_position fh) + length src < 4294967296" "16 < fs_sector s" "src \<noteq> []"
    and "fs_file_write fh src (of_nat (length src)) s = Some (of_nat (length src), fh', s')"
  shows "\<exists>s2 fh3 s3. fs_file_seek fh' (f_position fh) s' = (f_position fh, fh'\<lparr>f_position := f_position fh\<rparr>, s2)
    \<and> fs_file_read (fh'\<lparr>f_position := f_position fh\<rparr>) (of_nat (length src)) s2
      = Some (of_nat (length src), src, fh3, s3)"
  by (rule write_read_full [OF assms])

theorem file_write_read_witness:
  "\<exists>fh s fh2 s2 fh3 s3. fs_file_seek fh 0 s = (0, fh2, s2) \<and> fs_file_read fh2 2 s2 = Some (2, [1, 2], fh3, s3)"
proof (rule demo_data)
  fix s V k f es
  assume d: "holds s V" "file_at V (sector_size s) k f es [0, 0, 0]" "16 < fs_sector s"
  let ?h = "demo_handle s k" and ?src = "[1, 2] :: u8 list"
  have len: "unat (f_position ?h) + length ?src < 4294967296" by simp
  obtain n s' V' f' es' where w: "fs_file_write ?h ?src (of_nat (length ?src)) s
      = Some (of_nat n, ?h\<lparr>f_position := f_position ?h + of_nat n\<rparr>, s')"
    "write_outcome s V k es [0, 0, 0] (unat (f_position ?h)) ?src n s' V' f' es'"
    using file_write_full [OF d(1,2) demo_handle_on(2) len d(3)] by blast
  have "n = length ?src" using w(2) by (simp add: write_outcome_def)
  with w(1) have "fs_file_write ?h ?src (of_nat (length ?src)) s
      = Some (of_nat (length ?src), ?h\<lparr>f_position := f_position ?h + of_nat (length ?src)\<rparr>, s')" by simp
  from file_write_read [OF d(1,2) demo_handle_on(2,1) len d(3) _ this]
  obtain s2 fh3 s3 where "fs_file_seek (?h\<lparr>f_position := 2\<rparr>) 0 s' = (0, ?h\<lparr>f_position := 0\<rparr>, s2)"
    "fs_file_read (?h\<lparr>f_position := 0\<rparr>) 2 s2 = Some (2, [1, 2], fh3, s3)" by auto
  then show ?thesis by blast
qed



text \<open>
  \<open>fs_file_delete\<close> returns, frees the header block and every extent of the file, and touches no other
  block, in particular none of any other file or directory.
\<close>

theorem file_delete_frees:
  assumes "holds s V" "file_at V (sector_size s) k f es data"
  shows "\<exists>s'. fs_file_delete (payload (sector_size s) k) s = Some (True, s')
    \<and> holds s' (V |` (- file_blocks k es)) \<and> geo s' = geo s"
  using file_delete_full [OF assms] by (simp add: file_blocks_def)

theorem file_delete_frees_witness:
  "\<exists>s k s'. fs_file_delete (payload (sector_size s) k) s = Some (True, s')"
proof (rule demo_file)
  fix s V k f
  assume "holds s V" "file_at V (sector_size s) k f [] []"
  from file_delete_frees [OF this] show ?thesis by blast
qed

text \<open>
  \<open>fs_file_create\<close> outside a directory either returns a block that was free, now the header of a file of
  \<open>sz\<close> zero bytes with the given permissions, or \<open>FS_NULL\<close> because there was no room; no block that was
  live before changes.
\<close>

theorem file_create_correct:
  assumes "holds s V" "16 < fs_sector s" "fs_sector s + 8192 < 4294967296" "terminated nm \<or> 15 \<le> length nm"
  shows "\<exists>a s' V'. fs_file_create nm perm sz FS_NULL s = Some (a, s') \<and> create_outcome s V perm (unat sz) a s' V'"
  by (rule file_create_full [OF assms])

theorem file_create_correct_witness:
  "\<exists>a s' V'. fs_file_create [65, 0] 6 600 FS_NULL small_dev = Some (a, s')
    \<and> create_outcome small_dev Map.empty 6 600 a s' V'"
  using file_create_correct [OF small_dev_holds, of "[65, 0]" 6 600] small_dev_props by simp

end
