(* ===== verification/FsDirProps.thy ===== *)
theory FsDirProps
  imports FsDirRep FsFileSpec "HOL-Library.Multiset"
begin

text \<open>
  What the directory operations do to the entries of a directory and to the rest of the device, over the
  representation \<open>dir_at\<close>.
\<close>

lemma dir_bases: "a + DIR_HEADER = a + of_nat 48" "a + DIR_EXTENT = a + of_nat 12"
  by (simp_all add: DIR_HEADER_def DIR_EXTENT_def)

lemma header_entry:
  assumes "holds s V" "V k = Some (dir_header_bytes d @ refs_bytes rs @ slack)" "block_header_wf (dh_block d)" "i < length rs"
  obtains s1 where "ref_read (payload (sector_size s) k + DIR_HEADER) i s = (rs ! i, s1)" "holds s1 V" "geo s1 = geo s"
  using ref_read_image [OF assms(1,2,4)] assms(3) unfolding dir_bases by auto

lemma extent_entry:
  assumes "holds s V" "V k = Some (dir_extent_bytes e @ refs_bytes rs @ slack)" "i < length rs"
  obtains s1 where "ref_read (payload (sector_size s) k + DIR_EXTENT) i s = (rs ! i, s1)" "holds s1 V" "geo s1 = geo s"
  using ref_read_image [OF assms] unfolding dir_bases by auto

text \<open>One extent of a walk: it is read, and the walk goes on behind it.\<close>

lemma dseg_step:
  assumes h: "holds s V" and c: "dseg V (sector_size s) p a ((k, rs) # es) b"
  obtains e slack s1 where "a = payload (sector_size s) k" "a \<noteq> FS_NULL"
    "V k = Some (dir_extent_bytes e @ refs_bytes rs @ slack)" "de_count e = of_nat (length rs)" "de_prev e = p"
    "dseg V (sector_size s) a (de_next e) es b" "unat (de_count e) = length rs"
    "fs_directory_extent_read a s = (Some e, s1)" "holds s1 V" "geo s1 = geo s" "sector_size s1 = sector_size s"
proof -
  obtain e slack where e: "a = payload (sector_size s) k" "V k = Some (dir_extent_bytes e @ refs_bytes rs @ slack)"
    "de_count e = of_nat (length rs)" "de_prev e = p" "dseg V (sector_size s) (payload (sector_size s) k) (de_next e) es b"
    using c by auto
  obtain s1 where s1: "fs_directory_extent_read a s = (Some e, s1)" "holds s1 V" "geo s1 = geo s"
    using dir_extent_image [OF h e(2)] e(1) by metis
  show thesis
    using that [OF e(1) _ e(2-4) _ _ s1] e block_bounds(8) [OF h e(2)] entry_count(1) [OF h e(2)] geoD(1) [OF s1(3)] by simp
qed

section \<open>Lookup\<close>

lemma get_loop_dseg:
  assumes "holds s V" "dseg V (sector_size s) p a es FS_NULL" "length es \<le> g"
  shows "\<exists>s1. get_loop g a i s = (if unat i < length (entries [] es) then entries [] es ! unat i else FS_NULL, s1)
    \<and> holds s1 V \<and> geo s1 = geo s"
  using assms
proof (induction es arbitrary: p a i g s)
  case Nil
  then show ?case by (subst get_loop.simps) simp
next
  case (Cons ke es)
  obtain k rs where ke: "ke = (k, rs)" by (cases ke)
  obtain g' where g: "g = Suc g'" "length es \<le> g'" using Cons.prems(3) by (cases g) auto
  obtain e slack s1 where e: "a = payload (sector_size s) k" "a \<noteq> FS_NULL" "V k = Some (dir_extent_bytes e @ refs_bytes rs @ slack)"
    "unat (de_count e) = length rs" "dseg V (sector_size s) a (de_next e) es FS_NULL"
    "fs_directory_extent_read a s = (Some e, s1)" "holds s1 V" "geo s1 = geo s" "sector_size s1 = sector_size s"
    using dseg_step [OF Cons.prems(1) Cons.prems(2) [unfolded ke]] by metis
  show ?case
  proof (cases "i < de_count e")
    case True
    then have i: "unat i < length rs" using e(4) by (simp add: word_less_nat_alt)
    obtain s2 where s2: "ref_read (a + DIR_EXTENT) (unat i) s1 = (rs ! unat i, s2)" "holds s2 V" "geo s2 = geo s1"
      using extent_entry [OF e(7,3) i] e(1,9) by metis
    then show ?thesis
      using e(2,6,8) i True by (subst get_loop.simps) (simp add: g ke nth_append entries_def)
  next
    case False
    then have i: "length rs \<le> unat i" "unat (i - de_count e) = unat i - length rs"
      using e(4) by (auto simp: word_less_nat_alt unat_sub_u32)
    have "dseg V (sector_size s1) a (de_next e) es FS_NULL" using e(5,9) by simp
    from Cons.IH [OF e(7) this g(2), of "i - de_count e"] show ?thesis
      using e(2,6,8) i False by (subst get_loop.simps) (auto simp: g ke nth_append entries_def)
  qed
qed

lemma count_loop_dseg:
  assumes "holds s V" "dseg V (sector_size s) p a es FS_NULL" "length es \<le> g"
  shows "\<exists>s1. count_loop g a n s = (n + of_nat (length (entries [] es)), s1) \<and> holds s1 V \<and> geo s1 = geo s"
  using assms
proof (induction es arbitrary: p a n g s)
  case Nil
  then show ?case by (subst count_loop.simps) simp
next
  case (Cons ke es)
  obtain k rs where ke: "ke = (k, rs)" by (cases ke)
  obtain g' where g: "g = Suc g'" "length es \<le> g'" using Cons.prems(3) by (cases g) auto
  obtain e slack s1 where e: "a \<noteq> FS_NULL" "de_count e = of_nat (length rs)" "dseg V (sector_size s) a (de_next e) es FS_NULL"
    "fs_directory_extent_read a s = (Some e, s1)" "holds s1 V" "geo s1 = geo s" "sector_size s1 = sector_size s"
    using dseg_step [OF Cons.prems(1) Cons.prems(2) [unfolded ke]] by metis
  have "dseg V (sector_size s1) a (de_next e) es FS_NULL" using e(3,7) by simp
  from Cons.IH [OF e(5) this g(2), of "n + de_count e"] show ?case
    using e(1,2,4,6) by (subst count_loop.simps) (auto simp: g ke entries_def add.assoc)
qed

lemma dir_open:
  assumes h: "holds s V" and d: "dir_at V (sector_size s) k d rs es"
  obtains slack s1 where "fs_directory_header_read (payload (sector_size s) k) s = (Some d, s1)" "holds s1 V" "geo s1 = geo s"
    "sector_size s1 = sector_size s" "fs_directory_walk_limit s1 = fs_directory_walk_limit s"
    "V k = Some (dir_header_bytes d @ refs_bytes rs @ slack)" "block_header_wf (dh_block d)" "unat (dh_count d) = length rs"
    "dseg V (sector_size s) (payload (sector_size s) k) (dh_next d) es FS_NULL" "length es < unat (fs_directory_walk_limit s)"
proof -
  obtain slack where V: "V k = Some (dir_header_bytes d @ refs_bytes rs @ slack)" "block_header_wf (dh_block d)"
    "dh_count d = of_nat (length rs)" "dseg V (sector_size s) (payload (sector_size s) k) (dh_next d) es FS_NULL"
    using d by (rule dir_atE)
  obtain s1 where s1: "fs_directory_header_read (payload (sector_size s) k) s = (Some d, s1)" "holds s1 V" "geo s1 = geo s"
    using dir_header_image [OF h V(1,2)] by metis
  show thesis
    using that [OF s1 geoD(1) [OF s1(3)] walk_limit_geo [OF s1(3)] V(1,2) _ V(4) dir_walk_limit [OF h d]]
      V(3) entry_count(1) [OF h V(1)] by simp
qed

lemma get_reference_full:
  assumes h: "holds s V" and d: "dir_at V (sector_size s) k d rs es"
  shows "\<exists>s1. fs_directory_get_reference (payload (sector_size s) k) i s
      = (if unat i < length (entries rs es) then entries rs es ! unat i else FS_NULL, s1)
    \<and> holds s1 V \<and> geo s1 = geo s"
proof -
  obtain slack s1 where o: "fs_directory_header_read (payload (sector_size s) k) s = (Some d, s1)" "holds s1 V" "geo s1 = geo s"
    "sector_size s1 = sector_size s" "fs_directory_walk_limit s1 = fs_directory_walk_limit s"
    "V k = Some (dir_header_bytes d @ refs_bytes rs @ slack)" "block_header_wf (dh_block d)" "unat (dh_count d) = length rs"
    "dseg V (sector_size s) (payload (sector_size s) k) (dh_next d) es FS_NULL" "length es < unat (fs_directory_walk_limit s)"
    using dir_open [OF h d] by metis
  show ?thesis
  proof (cases "i < dh_count d")
    case True
    then have i: "unat i < length rs" using o(8) by (simp add: word_less_nat_alt)
    obtain s2 where s2: "ref_read (payload (sector_size s) k + DIR_HEADER) (unat i) s1 = (rs ! unat i, s2)"
      "holds s2 V" "geo s2 = geo s1" using header_entry [OF o(2,6,7) i] o(4) by metis
    then show ?thesis using o(1,3) i True by (simp add: fs_directory_get_reference_def entries_def nth_append)
  next
    case False
    then have i: "length rs \<le> unat i" "unat (i - dh_count d) = unat i - length rs"
      using o(8) by (auto simp: word_less_nat_alt unat_sub_u32)
    have c: "dseg V (sector_size s1) (payload (sector_size s) k) (dh_next d) es FS_NULL" "length es \<le> unat (fs_directory_walk_limit s1)"
      using o(4,5,9,10) by simp_all
    from get_loop_dseg [OF o(2) c, of "i - dh_count d"] show ?thesis
      using o(1,3) i False by (auto simp: fs_directory_get_reference_def nth_append entries_def)
  qed
qed

lemma reference_count_full:
  assumes h: "holds s V" and d: "dir_at V (sector_size s) k d rs es"
  shows "\<exists>s1. fs_directory_get_reference_count (payload (sector_size s) k) s = (of_nat (length (entries rs es)), s1)
    \<and> holds s1 V \<and> geo s1 = geo s"
proof -
  obtain slack s1 where o: "fs_directory_header_read (payload (sector_size s) k) s = (Some d, s1)" "holds s1 V" "geo s1 = geo s"
    "sector_size s1 = sector_size s" "fs_directory_walk_limit s1 = fs_directory_walk_limit s"
    "V k = Some (dir_header_bytes d @ refs_bytes rs @ slack)" "block_header_wf (dh_block d)" "unat (dh_count d) = length rs"
    "dseg V (sector_size s) (payload (sector_size s) k) (dh_next d) es FS_NULL" "length es < unat (fs_directory_walk_limit s)"
    using dir_open [OF h d] by metis
  have c: "dseg V (sector_size s1) (payload (sector_size s) k) (dh_next d) es FS_NULL" "length es \<le> unat (fs_directory_walk_limit s1)"
    using o(4,5,9,10) by simp_all
  have "dh_count d = of_nat (length rs)" using o(8) by (metis of_nat_unat ucast_id)
  then show ?thesis
    using count_loop_dseg [OF o(2) c, of "dh_count d"] o(1,3)
    by (auto simp: fs_directory_get_reference_count_def entries_def)
qed

section \<open>Adding an entry\<close>

lemma dir_extent_rewrite:
  fixes e' :: fs_dir_extent
  assumes h: "holds s V" and V: "V k = Some (dir_extent_bytes e @ rest)"
  defines "s' \<equiv> fs_directory_extent_write (payload (sector_size s) k) e' s"
  shows "holds s' (V(k \<mapsto> dir_extent_bytes e' @ rest))" "geo s' = geo s"
proof -
  have "0 + length (dir_extent_bytes e') \<le> length (dir_extent_bytes e @ rest)" by simp
  note w = payload_write [OF h V this]
  show "holds s' (V(k \<mapsto> dir_extent_bytes e' @ rest))" "geo s' = geo s"
    using w unfolding s'_def fs_directory_extent_write_def by (simp_all add: patch_def)
qed

lemma dir_header_rewrite:
  fixes d' :: fs_dir_header
  assumes h: "holds s V" and V: "V k = Some (dir_header_bytes d @ rest)"
    and wf: "block_header_wf (dh_block d)" "block_header_wf (dh_block d')"
  defines "s' \<equiv> fs_directory_header_write (payload (sector_size s) k) d' s"
  shows "holds s' (V(k \<mapsto> dir_header_bytes d' @ rest))" "geo s' = geo s"
proof -
  have "0 + length (dir_header_bytes d') \<le> length (dir_header_bytes d @ rest)" using wf by simp
  note w = payload_write [OF h V this]
  show "holds s' (V(k \<mapsto> dir_header_bytes d' @ rest))" "geo s' = geo s"
    using w wf unfolding s'_def fs_directory_header_write_def by (simp_all add: patch_def)
qed

lemma extent_scan:
  assumes "holds s V" "V k = Some (dir_extent_bytes e @ refs_bytes rs @ slack)"
  obtains s1 where "ref_scan (payload (sector_size s) k + DIR_EXTENT) r [0..<length rs] s
      = (find (\<lambda>i. rs ! i = r) [0..<length rs], s1)" "holds s1 V" "geo s1 = geo s"
  using ref_scan_image [OF assms, of "[0..<length rs]" r] unfolding dir_bases by auto

lemma header_scan:
  assumes "holds s V" "V k = Some (dir_header_bytes d @ refs_bytes rs @ slack)" "block_header_wf (dh_block d)"
  obtains s1 where "ref_scan (payload (sector_size s) k + DIR_HEADER) r [0..<length rs] s
      = (find (\<lambda>i. rs ! i = r) [0..<length rs], s1)" "holds s1 V" "geo s1 = geo s"
  using ref_scan_image [OF assms(1,2), of "[0..<length rs]" r] assms(3) unfolding dir_bases by auto

lemma extent_max_refs:
  assumes h: "holds s V" and V: "V k = Some (dir_extent_bytes e @ refs_bytes rs @ slack)"
  obtains s1 m where "fs_directory_extent_max_refs (payload (sector_size s) k) s = (m, s1)" "holds s1 V" "geo s1 = geo s"
    "unat m = length rs + length slack div 4"
proof -
  let ?d = "dir_extent_bytes e @ refs_bytes rs @ slack"
  have "?d \<noteq> []" by (metis append_is_Nil_conv length_dir_extent_bytes list.size(3) zero_neq_numeral)
  then obtain s1 where s1: "fs_file_alloc_header_read (payload (sector_size s) k) s = (Some (of_nat (length ?d)), s1)"
    "holds s1 V" "geo s1 = geo s" using alloc_header_image [OF h V] by metis
  have u: "unat (of_nat (length ?d) :: u32) = 12 + 4 * length rs + length slack"
    using unat_of_nat_u32 [OF holdsD(5) [OF h V]] by simp
  let ?m = "if (of_nat (length ?d) :: u32) \<le> DIR_EXTENT then 0 else (of_nat (length ?d) - DIR_EXTENT) div 4"
  have "unat (of_nat (length ?d) - DIR_EXTENT) = 4 * length rs + length slack"
    using u by (subst unat_sub_u32) (simp_all add: DIR_EXTENT_def)
  moreover have "(of_nat (length ?d) :: u32) \<le> DIR_EXTENT \<Longrightarrow> 4 * length rs + length slack = 0"
    using u by (simp add: word_le_nat_alt DIR_EXTENT_def)
  ultimately have m: "unat ?m = length rs + length slack div 4" by (auto simp: unat_div_distrib)
  have "fs_directory_extent_max_refs (payload (sector_size s) k) s = (?m, s1)"
    using s1(1) by (simp only: fs_directory_extent_max_refs_def prod.case option.case)
  from that [OF this s1(2,3) m] show thesis .
qed

lemma header_max_refs:
  assumes h: "holds s V" and V: "V k = Some (dir_header_bytes d @ refs_bytes rs @ slack)" and wf: "block_header_wf (dh_block d)"
  obtains s1 m where "fs_directory_header_max_refs (payload (sector_size s) k) s = (m, s1)" "holds s1 V" "geo s1 = geo s"
    "unat m = length rs + length slack div 4"
proof -
  let ?d = "dir_header_bytes d @ refs_bytes rs @ slack"
  have "?d \<noteq> []" using wf by (metis append_is_Nil_conv length_dir_header_bytes list.size(3) zero_neq_numeral)
  then obtain s1 where s1: "fs_file_alloc_header_read (payload (sector_size s) k) s = (Some (of_nat (length ?d)), s1)"
    "holds s1 V" "geo s1 = geo s" using alloc_header_image [OF h V] by metis
  have u: "unat (of_nat (length ?d) :: u32) = 48 + 4 * length rs + length slack"
    using unat_of_nat_u32 [OF holdsD(5) [OF h V]] wf by simp
  let ?m = "if (of_nat (length ?d) :: u32) \<le> DIR_HEADER then 0 else (of_nat (length ?d) - DIR_HEADER) div 4"
  have "unat (of_nat (length ?d) - DIR_HEADER) = 4 * length rs + length slack"
    using u by (subst unat_sub_u32) (simp_all add: DIR_HEADER_def)
  moreover have "(of_nat (length ?d) :: u32) \<le> DIR_HEADER \<Longrightarrow> 4 * length rs + length slack = 0"
    using u by (simp add: word_le_nat_alt DIR_HEADER_def)
  ultimately have m: "unat ?m = length rs + length slack div 4" by (auto simp: unat_div_distrib)
  have "fs_directory_header_max_refs (payload (sector_size s) k) s = (?m, s1)"
    using s1(1) by (simp only: fs_directory_header_max_refs_def prod.case option.case)
  from that [OF this s1(2,3) m] show thesis .
qed

text \<open>Writing an entry behind the last one and counting it.\<close>

lemma extent_append:
  fixes e' :: fs_dir_extent and r :: u32
  assumes h: "holds s V" and V: "V k = Some (dir_extent_bytes e @ refs_bytes rs @ slack)" and room: "4 \<le> length slack"
  defines "s' \<equiv> fs_directory_extent_write (payload (sector_size s) k) e'
                  (ref_write (payload (sector_size s) k + DIR_EXTENT) (length rs) r s)"
  shows "holds s' (V(k \<mapsto> dir_extent_bytes e' @ refs_bytes (rs @ [r]) @ drop 4 slack)) \<and> geo s' = geo s"
proof -
  note w = ref_write_end [OF h V room, of r]
  let ?V = "V(k \<mapsto> dir_extent_bytes e @ refs_bytes (rs @ [r]) @ drop 4 slack)"
  have "?V k = Some (dir_extent_bytes e @ refs_bytes (rs @ [r]) @ drop 4 slack)" by simp
  note w2 = dir_extent_rewrite [where V = ?V, OF w(1) this, of e']
  show ?thesis
    using w2 w(2) geoD(1) [OF w(2)] unfolding s'_def dir_bases length_dir_extent_bytes fun_upd_upd by simp
qed

lemma header_append:
  fixes d' :: fs_dir_header and r :: u32
  assumes h: "holds s V" and V: "V k = Some (dir_header_bytes d @ refs_bytes rs @ slack)" and room: "4 \<le> length slack"
    and wf: "block_header_wf (dh_block d)" "block_header_wf (dh_block d')"
  defines "s' \<equiv> fs_directory_header_write (payload (sector_size s) k) d'
                  (ref_write (payload (sector_size s) k + DIR_HEADER) (length rs) r s)"
  shows "holds s' (V(k \<mapsto> dir_header_bytes d' @ refs_bytes (rs @ [r]) @ drop 4 slack)) \<and> geo s' = geo s"
proof -
  note w = ref_write_end [OF h V room, of r]
  let ?V = "V(k \<mapsto> dir_header_bytes d @ refs_bytes (rs @ [r]) @ drop 4 slack)"
  have "?V k = Some (dir_header_bytes d @ refs_bytes (rs @ [r]) @ drop 4 slack)" by simp
  note w2 = dir_header_rewrite [where V = ?V, OF w(1) this wf]
  show ?thesis
    using w2 w(2) geoD(1) [OF w(2)] unfolding s'_def dir_bases length_dir_header_bytes [OF wf(1)] fun_upd_upd by simp
qed

text \<open>What the walk over the extents does with the entry \<open>r\<close>.\<close>

definition add_walk :: "store \<Rightarrow> u32 \<Rightarrow> u32 \<Rightarrow> u32 \<Rightarrow> (nat \<times> u32 list) list \<Rightarrow> u32 \<Rightarrow> u8 + u32 \<Rightarrow> store
    \<Rightarrow> (nat \<times> u32 list) list \<Rightarrow> bool" where
  "add_walk V ss p a es r res V' es' \<longleftrightarrow>
     dseg V' ss p a es' FS_NULL \<and> map fst es' = map fst es \<and> (\<forall>j. j \<notin> fst ` set es \<longrightarrow> V' j = V j)
     \<and> (res = Inl 0 \<and> (r \<in> set (entries [] es) \<and> es' = es \<or> mset (entries [] es') = mset (entries [] es) + {#r#})
        \<or> res = Inr (if es = [] then FS_NULL else payload ss (fst (last es))) \<and> r \<notin> set (entries [] es) \<and> es' = es \<and> V' = V)"

lemma add_loop_dseg:
  assumes "holds s V" "dseg V (sector_size s) p a es FS_NULL" "length es \<le> g" "distinct (map fst es)"
  shows "\<exists>res s1 V1 es1. add_loop g a r s = (res, s1) \<and> holds s1 V1 \<and> geo s1 = geo s
    \<and> add_walk V (sector_size s) p a es r res V1 es1"
  using assms
proof (induction es arbitrary: p a g s)
  case Nil
  then show ?case by (subst add_loop.simps) (auto simp: add_walk_def)
next
  case (Cons ke es)
  obtain k rs where ke: "ke = (k, rs)" by (cases ke)
  obtain g' where g: "g = Suc g'" "length es \<le> g'" using Cons.prems(3) by (cases g) auto
  have dis: "k \<notin> fst ` set es" "distinct (map fst es)" using Cons.prems(4) by (simp_all add: ke)
  let ?ss = "sector_size s"
  obtain e slack s1 where e: "a = payload ?ss k" "a \<noteq> FS_NULL" "V k = Some (dir_extent_bytes e @ refs_bytes rs @ slack)"
    "de_count e = of_nat (length rs)" "de_prev e = p" "dseg V ?ss a (de_next e) es FS_NULL" "unat (de_count e) = length rs"
    "fs_directory_extent_read a s = (Some e, s1)" "holds s1 V" "geo s1 = geo s" "sector_size s1 = ?ss"
    using dseg_step [OF Cons.prems(1) Cons.prems(2) [unfolded ke]] by metis
  obtain s2 m where m: "fs_directory_extent_max_refs a s1 = (m, s2)" "holds s2 V" "geo s2 = geo s1"
    "unat m = length rs + length slack div 4" using extent_max_refs [OF e(9,3)] e(1,11) by metis
  have g2: "sector_size s2 = ?ss" using geoD(1) [OF m(3)] e(11) by simp
  obtain s3 where s3: "ref_scan (a + DIR_EXTENT) r [0..<length rs] s2 = (find (\<lambda>i. rs ! i = r) [0..<length rs], s3)"
    "holds s3 V" "geo s3 = geo s2" using extent_scan [OF m(2) e(3)] e(1) g2 by metis
  have g3: "sector_size s3 = ?ss" using geoD(1) [OF s3(3)] g2 by simp
  note step = e(2,7,8) m(1) s3(1)
  show ?case
  proof (cases "r \<in> set rs")
    case True
    then have "add_loop g a r s = (Inl 0, s3)"
      using find_index [of rs r] step by (subst add_loop.simps) (simp add: g)
    moreover have "add_walk V ?ss p a (ke # es) r (Inl 0) V (ke # es)"
      using Cons.prems(2) True by (simp add: add_walk_def ke entries_def)
    ultimately show ?thesis using s3 m(3) e(10) by auto
  next
    case False
    then have none: "find (\<lambda>i. rs ! i = r) [0..<length rs] = None" using find_index [of rs r] by blast
    show ?thesis
    proof (cases "4 \<le> length slack")
      case True
      then have lt: "de_count e < m" using m(4) e(7) by (simp add: word_less_nat_alt)
      let ?e = "e\<lparr>de_count := de_count e + 1\<rparr>" and ?b = "payload (sector_size s3) k"
      let ?s4 = "fs_directory_extent_write ?b ?e (ref_write (?b + DIR_EXTENT) (length rs) r s3)"
      let ?V = "V(k \<mapsto> dir_extent_bytes ?e @ refs_bytes (rs @ [r]) @ drop 4 slack)"
      note w = extent_append [OF s3(2) e(3) True, of ?e r]
      have "add_loop g a r s = (Inl 0, ?s4)"
        using none step lt e(1) g3 by (subst add_loop.simps) (simp add: g)
      moreover have "dseg ?V ?ss a (de_next e) es FS_NULL" using e(6) by (simp only: dseg_upd [OF dis(1)])
      then have "dseg ?V ?ss p a ((k, rs @ [r]) # es) FS_NULL" using e(1,4,5) by auto
      then have "add_walk V ?ss p a (ke # es) r (Inl 0) ?V ((k, rs @ [r]) # es)"
        by (simp add: add_walk_def ke entries_def)
      ultimately show ?thesis using w s3(3) m(3) e(10) by metis
    next
      case full: False
      then have lt: "\<not> de_count e < m" using m(4) e(7) by (simp add: word_less_nat_alt)
      show ?thesis
      proof (cases "de_next e = FS_NULL")
        case True
        have c: "dseg V (sector_size s1) a (de_next e) es FS_NULL" using e(6,11) by simp
        have "es = []"
        proof (rule ccontr)
          assume "es \<noteq> []"
          then obtain k' rs' es' where "es = (k', rs') # es'" by (metis neq_Nil_conv surj_pair)
          from dseg_step [OF e(9) c [unfolded this]] True show False by metis
        qed
        then have "add_walk V ?ss p a (ke # es) r (Inr a) V (ke # es)"
          using Cons.prems(2) False e(1) by (simp add: add_walk_def ke entries_def)
        moreover have "add_loop g a r s = (Inr a, s3)" using none step lt True by (subst add_loop.simps) (simp add: g)
        ultimately show ?thesis using s3 m(3) e(10) by auto
      next
        case False
        have es: "es \<noteq> []" using False e(6) by auto
        have c: "dseg V (sector_size s3) a (de_next e) es FS_NULL" using e(6) g3 by simp
        obtain res s5 V5 es5 where ih: "add_loop g' (de_next e) r s3 = (res, s5)" "holds s5 V5" "geo s5 = geo s3"
          "add_walk V ?ss a (de_next e) es r res V5 es5"
          using Cons.IH [OF s3(2) c g(2) dis(2)] g3 by auto
        have "add_loop g a r s = (res, s5)" using none step lt False ih(1) by (subst add_loop.simps) (simp add: g)
        moreover have "V5 k = V k" using ih(4) dis(1) by (simp add: add_walk_def)
        then have "add_walk V ?ss p a (ke # es) r res V5 (ke # es5)"
          using ih(4) e(1,3-5) es \<open>r \<notin> set rs\<close> by (auto simp: add_walk_def ke entries_def)
        ultimately show ?thesis using ih(2,3) s3(3) m(3) e(10) by metis
      qed
    qed
  qed
qed

lemma dir_extent_bytes_inject [simp]: "dir_extent_bytes e = dir_extent_bytes e' \<longleftrightarrow> e = e'"
  by (metis bytes_dir_extent_bytes)

definition seg_end :: "u32 \<Rightarrow> u32 \<Rightarrow> (nat \<times> u32 list) list \<Rightarrow> u32" where
  "seg_end ss p es = (if es = [] then p else payload ss (fst (last es)))"

lemma seg_end_simps [simp]: "seg_end ss p [] = p" "seg_end ss p (es @ [ke]) = payload ss (fst ke)"
  "seg_end ss p (ke # es) = seg_end ss (payload ss (fst ke)) es"
  by (simp_all add: seg_end_def)

lemma dseg_append:
  "dseg V ss p a (es @ es') b \<longleftrightarrow> (\<exists>c. dseg V ss p a es c \<and> dseg V ss (seg_end ss p es) c es' b)"
  by (induction V ss p a es b rule: dseg.induct) auto

text \<open>A fresh extent, not yet linked.\<close>

lemma new_extent:
  assumes h: "holds s V" and ss: "fs_sector s + 8192 < 4294967296"
  obtains (full) s' where "fs_directory_extent_create prev 12 s = (FS_NULL, s')" "holds s' V" "geo s' = geo s" "no_room s' 60"
    | (placed) k raw s' where "fs_directory_extent_create prev 12 s = (payload (sector_size s) k, s')" "V k = None"
      "holds s' (V(k \<mapsto> dir_extent_bytes \<lparr>de_next = FS_NULL, de_prev = prev, de_count = 0\<rparr> @ raw))" "geo s' = geo s"
      "length raw = 48" "payload (sector_size s) k \<noteq> FS_NULL"
proof -
  have al: "unat (60 :: u32) + 4 + fs_sector s < 4294967296" using ss by simp
  show thesis
  proof (cases rule: store_alloc [OF h al])
    case none: (1 s')
    then have "fs_directory_extent_create prev 12 s = (FS_NULL, s')" by (simp add: fs_directory_extent_create_def DIR_EXTENT_def)
    then show ?thesis using full none alloc_fails [OF h al none(1)] by simp
  next
    case some: (2 k s1 d)
    let ?e = "\<lparr>de_next = FS_NULL, de_prev = prev, de_count = 0\<rparr>" and ?a = "payload (sector_size s) k"
    have d: "length d = 60" using some(3) by simp
    have Vk: "(V(k \<mapsto> d)) k = Some d" "0 + length (dir_extent_bytes ?e) \<le> length d" using d by simp_all
    note w = payload_write [where V = "V(k \<mapsto> d)", OF some(4) Vk]
    have p: "patch 0 (dir_extent_bytes ?e) d = dir_extent_bytes ?e @ drop 12 d" by (simp add: patch_def)
    have a: "payload (sector_size s1) k + of_nat 0 = ?a" using geoD(1) [OF some(5)] by simp
    have "fs_directory_extent_create prev 12 s = (?a, fs_directory_extent_write ?a ?e s1)"
      using some(1,6) by (simp add: fs_directory_extent_create_def DIR_EXTENT_def)
    moreover have "holds (fs_directory_extent_write ?a ?e s1) (V(k \<mapsto> dir_extent_bytes ?e @ drop 12 d))"
      "geo (fs_directory_extent_write ?a ?e s1) = geo s"
      using w some(5) unfolding a p fun_upd_upd fs_directory_extent_write_def by simp_all
    ultimately show ?thesis using placed [OF _ some(2)] d some(6) by simp
  qed
qed

lemma first_ref_image:
  assumes h: "holds s V" and V: "V k = Some (dir_extent_bytes e @ raw)" and len: "4 \<le> length raw"
  obtains s' where "first_ref (payload (sector_size s) k) r err s = (0, s')" "geo s' = geo s"
    "holds s' (V(k \<mapsto> dir_extent_bytes (e\<lparr>de_count := 1\<rparr>) @ refs_bytes [r] @ drop 4 raw))"
proof -
  obtain s1 where s1: "fs_directory_extent_read (payload (sector_size s) k) s = (Some e, s1)" "holds s1 V" "geo s1 = geo s"
    using dir_extent_image [OF h V] by metis
  note g1 = geoD(1) [OF s1(3)]
  have V': "V k = Some (dir_extent_bytes e @ refs_bytes [] @ raw)" using V by simp
  note w = extent_append [OF s1(2) V' len, of "e\<lparr>de_count := 1\<rparr>" r]
  have "first_ref (payload (sector_size s) k) r err s = (0, fs_directory_extent_write (payload (sector_size s1) k)
      (e\<lparr>de_count := 1\<rparr>) (ref_write (payload (sector_size s1) k + DIR_EXTENT) (length ([] :: u32 list)) r s1))"
    using s1(1) g1 by (simp add: first_ref_def ref_write_def)
  then show thesis using that w s1(3) by (metis append_Nil)
qed

text \<open>The entries and blocks of a directory after one more entry was asked for.\<close>

definition dir_blocks :: "nat \<Rightarrow> (nat \<times> u32 list) list \<Rightarrow> nat set" where
  "dir_blocks k es = insert k (fst ` set es)"

definition dir_changed :: "fsdev \<Rightarrow> store \<Rightarrow> nat \<Rightarrow> fs_dir_header \<Rightarrow> (nat \<times> u32 list) list \<Rightarrow> fsdev \<Rightarrow> store
    \<Rightarrow> fs_dir_header \<Rightarrow> u32 list \<Rightarrow> (nat \<times> u32 list) list \<Rightarrow> bool" where
  "dir_changed s V k d es s' V' d' rs' es' \<longleftrightarrow>
     holds s' V' \<and> geo s' = geo s \<and> dir_at V' (sector_size s) k d' rs' es' \<and> kept V V' (dir_blocks k es)
     \<and> (\<forall>j \<in> dir_blocks k es' - dir_blocks k es. V j = None)
     \<and> dh_block d' = dh_block d \<and> dh_parent d' = dh_parent d"

lemma append_first_extent:
  assumes h: "holds s V" and d: "dir_at V (sector_size s) k d rs []" and ss: "fs_sector s + 8192 < 4294967296"
  shows "\<exists>code s' V' d' es'. append_extent (payload (sector_size s) k) x d r s = (code, s')
    \<and> dir_changed s V k d [] s' V' d' rs es' \<and> (code = 0 \<and> (\<exists>j. es' = [(j, [r])]) \<or> code = 4 \<and> es' = [] \<and> V' = V \<and> no_room s' 60)"
proof -
  let ?ss = "sector_size s"
  obtain slack where V: "V k = Some (dir_header_bytes d @ refs_bytes rs @ slack)" "block_header_wf (dh_block d)"
    "bh_attributes (dh_block d) AND FS_ATTRIBUTE_DIRECTORY \<noteq> 0" "dh_count d = of_nat (length rs)"
    and c: "dseg V ?ss (payload ?ss k) (dh_next d) [] FS_NULL" using d by (rule dir_atE)
  have nxt: "dh_next d = FS_NULL" using c by simp
  show ?thesis
  proof (cases rule: new_extent [OF h ss, where prev = "payload ?ss k"])
    case full: (1 s')
    then have "append_extent (payload ?ss k) x d r s = (4, s')" using nxt by (simp add: append_extent_def)
    moreover have "dir_changed s V k d [] s' V d rs []" using full(2,3) d by (simp add: dir_changed_def)
    ultimately show ?thesis using full(4) by blast
  next
    case placed: (2 j raw s1)
    let ?e = "\<lparr>de_next = FS_NULL, de_prev = payload ?ss k, de_count = 0\<rparr>" and ?d = "d\<lparr>dh_next := payload ?ss j\<rparr>"
    let ?V1 = "V(j \<mapsto> dir_extent_bytes ?e @ raw)"
    let ?V2 = "?V1(k \<mapsto> dir_header_bytes ?d @ refs_bytes rs @ slack)"
    let ?V3 = "?V2(j \<mapsto> dir_extent_bytes (?e\<lparr>de_count := 1\<rparr>) @ refs_bytes [r] @ drop 4 raw)"
    have jk: "j \<noteq> k" using placed(2) V(1) by auto
    have V1: "?V1 k = Some (dir_header_bytes d @ refs_bytes rs @ slack)" using V(1) jk by simp
    have wf: "block_header_wf (dh_block ?d)" using V(2) by simp
    note w = dir_header_rewrite [where V = ?V1, OF placed(3) V1 V(2) wf, unfolded geoD(1) [OF placed(4)]]
    have V2: "?V2 j = Some (dir_extent_bytes ?e @ raw)" using jk by simp
    have len: "4 \<le> length raw" using placed(5) by simp
    obtain s3 where s3: "first_ref (payload ?ss j) r 5 (fs_directory_header_write (payload ?ss k) ?d s1) = (0, s3)"
      "geo s3 = geo s" "holds s3 ?V3"
      using first_ref_image [where V = ?V2, OF w(1) V2 len] w(2) placed(4) geoD(1) [OF w(2)] geoD(1) [OF placed(4)] by metis
    have "append_extent (payload ?ss k) x d r s = (0, s3)"
      using placed(1,6) s3(1) nxt by (simp add: append_extent_def)
    moreover have "?V3 k = Some (dir_header_bytes ?d @ refs_bytes rs @ slack)" using jk by simp
    then have "dir_at ?V3 ?ss k ?d rs [(j, [r])]" using V jk unfolding dir_at_def by auto
    then have "dir_changed s V k d [] s3 ?V3 ?d rs [(j, [r])]"
      using s3(2,3) placed(2) by (auto simp: dir_changed_def kept_def dir_blocks_def)
    ultimately show ?thesis by blast
  qed
qed

lemma append_next_extent:
  assumes h: "holds s V" and d: "dir_at V (sector_size s) k d rs es" and ss: "fs_sector s + 8192 < 4294967296" and ne: "es \<noteq> []"
  shows "\<exists>code s' V' es'. append_extent (payload (sector_size s) k) (payload (sector_size s) (fst (last es))) d r s = (code, s')
    \<and> dir_changed s V k d es s' V' d rs es'
    \<and> (code = 0 \<and> (\<exists>j. es' = es @ [(j, [r])]) \<or> code = 7 \<and> es' = es \<and> V' = V \<and> no_room s' 60)"
proof -
  let ?ss = "sector_size s"
  obtain slack where V: "V k = Some (dir_header_bytes d @ refs_bytes rs @ slack)" "block_header_wf (dh_block d)"
    "bh_attributes (dh_block d) AND FS_ATTRIBUTE_DIRECTORY \<noteq> 0" "dh_count d = of_nat (length rs)"
    and c: "dseg V ?ss (payload ?ss k) (dh_next d) es FS_NULL" "k \<notin> fst ` set es" "distinct (map fst es)"
    using d by (rule dir_atE)
  obtain es0 t rst where es: "es = es0 @ [(t, rst)]" using ne by (metis rev_exhaust surj_pair)
  obtain et sl where t: "dseg V ?ss (payload ?ss k) (dh_next d) es0 (payload ?ss t)"
    "V t = Some (dir_extent_bytes et @ refs_bytes rst @ sl)" "de_count et = of_nat (length rst)"
    "de_prev et = seg_end ?ss (payload ?ss k) es0" "de_next et = FS_NULL"
    using c(1) by (auto simp: es dseg_append)
  have tk: "t \<noteq> k" "t \<notin> fst ` set es0" using c(2,3) by (auto simp: es)
  have nxt: "dh_next d \<noteq> FS_NULL"
  proof (cases es0)
    case Nil
    then show ?thesis using t(1) block_bounds(8) [OF h t(2)] by simp
  next
    case (Cons a as)
    then show ?thesis using dseg_step [OF h, of "payload ?ss k" "dh_next d" "fst a" "snd a" as] t(1) by force
  qed
  obtain s1 where s1: "fs_directory_extent_read (payload ?ss t) s = (Some et, s1)" "holds s1 V" "geo s1 = geo s"
    using dir_extent_image [OF h t(2)] by metis
  note g1 = geoD [OF s1(3)]
  have ss1: "fs_sector s1 + 8192 < 4294967296" using ss g1 by simp
  show ?thesis
  proof (cases rule: new_extent [OF s1(2) ss1, where prev = "payload ?ss t"])
    case full: (1 s')
    then have "append_extent (payload ?ss k) (payload ?ss (fst (last es))) d r s = (7, s')"
      using nxt s1(1) by (simp add: append_extent_def es)
    moreover have "dir_changed s V k d es s' V d rs es" using full(2,3) s1(3) d by (simp add: dir_changed_def)
    ultimately show ?thesis using full(4) by blast
  next
    case placed: (2 j raw s2)
    note g2 = geoD(1) [OF placed(4)]
    let ?e = "\<lparr>de_next = FS_NULL, de_prev = payload ?ss t, de_count = 0\<rparr>" and ?et = "et\<lparr>de_next := payload ?ss j\<rparr>"
    let ?V1 = "V(j \<mapsto> dir_extent_bytes ?e @ raw)"
    let ?V2 = "?V1(t \<mapsto> dir_extent_bytes ?et @ refs_bytes rst @ sl)"
    let ?V3 = "?V2(j \<mapsto> dir_extent_bytes (?e\<lparr>de_count := 1\<rparr>) @ refs_bytes [r] @ drop 4 raw)"
    have jk: "j \<noteq> k" "j \<noteq> t" "j \<notin> fst ` set es0"
      using placed(2) V(1) t(2) dseg_dom [OF t(1)] by auto
    have V1: "?V1 t = Some (dir_extent_bytes et @ refs_bytes rst @ sl)" using t(2) jk by simp
    note w = dir_extent_rewrite [where V = ?V1, OF placed(3) V1, of ?et, unfolded g2 g1(1)]
    have V2: "?V2 j = Some (dir_extent_bytes ?e @ raw)" using jk by simp
    have len: "4 \<le> length raw" using placed(5) by simp
    obtain s3 where s3: "first_ref (payload ?ss j) r 8 (fs_directory_extent_write (payload ?ss t) ?et s2) = (0, s3)"
      "geo s3 = geo s" "holds s3 ?V3"
      using first_ref_image [where V = ?V2, OF w(1) V2 len] w(2) placed(4) geoD(1) [OF w(2)] g2 g1(1) s1(3) by metis
    have "append_extent (payload ?ss k) (payload ?ss (fst (last es))) d r s = (0, s3)"
      using placed(1,6) s3(1) nxt s1(1) g1(1) by (simp add: append_extent_def es)
    moreover have "dseg ?V3 ?ss (payload ?ss k) (dh_next d) es0 (payload ?ss t)"
      using t(1) tk jk by (simp add: dseg_upd)
    then have "dseg ?V3 ?ss (payload ?ss k) (dh_next d) (es @ [(j, [r])]) FS_NULL"
      using t(3-5) jk by (auto simp: es dseg_append)
    then have "dir_at ?V3 ?ss k d rs (es @ [(j, [r])])"
      using V c(2,3) jk tk(1) unfolding dir_at_def by (auto simp: es)
    then have "dir_changed s V k d es s3 ?V3 d rs (es @ [(j, [r])])"
      using s3(2,3) placed(2) by (auto simp: dir_changed_def kept_def dir_blocks_def es)
    ultimately show ?thesis by blast
  qed
qed

definition add_outcome :: "fsdev \<Rightarrow> store \<Rightarrow> nat \<Rightarrow> fs_dir_header \<Rightarrow> u32 list \<Rightarrow> (nat \<times> u32 list) list \<Rightarrow> u32
    \<Rightarrow> u8 \<Rightarrow> fsdev \<Rightarrow> store \<Rightarrow> fs_dir_header \<Rightarrow> u32 list \<Rightarrow> (nat \<times> u32 list) list \<Rightarrow> bool" where
  "add_outcome s V k d rs es r code s' V' d' rs' es' \<longleftrightarrow>
     dir_changed s V k d es s' V' d' rs' es'
     \<and> (code = 0 \<and> (r \<in> set (entries rs es) \<and> rs' = rs \<and> es' = es
                     \<or> mset (entries rs' es') = mset (entries rs es) + {#r#})
        \<or> code \<in> {4, 7} \<and> r \<notin> set (entries rs es) \<and> rs' = rs \<and> es' = es \<and> V' = V \<and> no_room s' 60)"

lemma add_reference_full:
  assumes h: "holds s V" and d: "dir_at V (sector_size s) k d rs es" and r: "r \<noteq> FS_NULL"
  shows "\<exists>code s' V' d' rs' es'. fs_directory_add_reference (payload (sector_size s) k) r s = (code, s')
    \<and> add_outcome s V k d rs es r code s' V' d' rs' es'"
proof -
  let ?ss = "sector_size s" and ?a = "payload (sector_size s) k"
  obtain slack s1 where o: "fs_directory_header_read ?a s = (Some d, s1)" "holds s1 V" "geo s1 = geo s" "sector_size s1 = ?ss"
    "fs_directory_walk_limit s1 = fs_directory_walk_limit s" "V k = Some (dir_header_bytes d @ refs_bytes rs @ slack)"
    "block_header_wf (dh_block d)" "unat (dh_count d) = length rs"
    "dseg V ?ss ?a (dh_next d) es FS_NULL" "length es < unat (fs_directory_walk_limit s)"
    using dir_open [OF h d] by metis
  have blk: "bh_attributes (dh_block d) AND FS_ATTRIBUTE_DIRECTORY \<noteq> 0" "dh_count d = of_nat (length rs)"
    "k \<notin> fst ` set es" "distinct (map fst es)" using d by (simp_all add: dir_at_def)
  obtain s2 m where m: "fs_directory_header_max_refs ?a s1 = (m, s2)" "holds s2 V" "geo s2 = geo s1"
    "unat m = length rs + length slack div 4" using header_max_refs [OF o(2,6,7)] o(4) by metis
  have g2: "sector_size s2 = ?ss" using geoD(1) [OF m(3)] o(4) by simp
  obtain s3 where s3: "ref_scan (?a + DIR_HEADER) r [0..<length rs] s2 = (find (\<lambda>i. rs ! i = r) [0..<length rs], s3)"
    "holds s3 V" "geo s3 = geo s2" using header_scan [OF m(2) o(6,7)] g2 by metis
  have g3: "sector_size s3 = ?ss" "geo s3 = geo s" using geoD(1) [OF s3(3)] g2 s3(3) m(3) o(3) by simp_all
  note step = r o(1,8) m(1) s3(1)
  show ?thesis
  proof (cases "r \<in> set rs")
    case True
    then have "fs_directory_add_reference ?a r s = (0, s3)"
      using find_index [of rs r] step by (simp add: fs_directory_add_reference_def)
    moreover have "add_outcome s V k d rs es r 0 s3 V d rs es"
      using True s3(2) g3(2) d by (simp add: add_outcome_def dir_changed_def entries_def)
    ultimately show ?thesis by blast
  next
    case False
    then have none: "find (\<lambda>i. rs ! i = r) [0..<length rs] = None" using find_index [of rs r] by blast
    show ?thesis
    proof (cases "4 \<le> length slack")
      case True
      then have lt: "dh_count d < m" using m(4) o(8) by (simp add: word_less_nat_alt)
      let ?d = "d\<lparr>dh_count := dh_count d + 1\<rparr>"
      let ?s4 = "fs_directory_header_write ?a ?d (ref_write (?a + DIR_HEADER) (length rs) r s3)"
      let ?V = "V(k \<mapsto> dir_header_bytes ?d @ refs_bytes (rs @ [r]) @ drop 4 slack)"
      have "block_header_wf (dh_block ?d)" using o(7) by simp
      note w = header_append [OF s3(2) o(6) True o(7) this, of r, unfolded g3(1)]
      have "fs_directory_add_reference ?a r s = (0, ?s4)"
        using none step lt by (simp add: fs_directory_add_reference_def)
      moreover have "dseg ?V ?ss ?a (dh_next ?d) es FS_NULL" using o(9) by (simp add: dseg_upd [OF blk(3)])
      then have "dir_at ?V ?ss k ?d (rs @ [r]) es" using o(7) blk by (simp add: dir_at_def)
      then have "add_outcome s V k d rs es r 0 ?s4 ?V ?d (rs @ [r]) es"
        using w g3(2) by (simp add: add_outcome_def dir_changed_def kept_def dir_blocks_def entries_def)
      ultimately show ?thesis by blast
    next
      case full: False
      then have lt: "\<not> dh_count d < m" using m(4) o(8) by (simp add: word_less_nat_alt)
      have c: "dseg V (sector_size s3) ?a (dh_next d) es FS_NULL" "length es \<le> unat (fs_directory_walk_limit s3)"
        using o(9,10) g3(1) walk_limit_geo [OF g3(2)] by simp_all
      obtain res s4 V4 es4 where q: "add_loop (unat (fs_directory_walk_limit s3)) (dh_next d) r s3 = (res, s4)" "holds s4 V4"
        "geo s4 = geo s3" "add_walk V ?ss ?a (dh_next d) es r res V4 es4"
        using add_loop_dseg [OF s3(2) c blk(4), where r = r] unfolding g3(1) by blast
      have g4: "geo s4 = geo s" using q(3) g3(2) by simp
      have fst4: "fst ` set es4 = fst ` set es" using q(4) unfolding add_walk_def by (metis list.set_map)
      have V4k: "V4 k = V k" using q(4) blk(3) by (simp add: add_walk_def)
      have d4: "dir_at V4 ?ss k d rs es4"
        using q(4) V4k o(6,7) blk fst4 by (auto simp: dir_at_def add_walk_def)
      have kept4: "kept V V4 (dir_blocks k es)" using q(4) by (simp add: kept_def dir_blocks_def add_walk_def)
      show ?thesis
      proof (cases res)
        case (Inl code)
        then have code: "code = 0" "r \<in> set (entries [] es) \<and> es4 = es \<or> mset (entries [] es4) = mset (entries [] es) + {#r#}"
          using q(4) by (auto simp: add_walk_def)
        have "fs_directory_add_reference ?a r s = (0, s4)"
          using none step lt q(1) Inl code(1) by (simp add: fs_directory_add_reference_def)
        moreover have "add_outcome s V k d rs es r 0 s4 V4 d rs es4"
          using q(2) g4 d4 kept4 code(2) by (auto simp: add_outcome_def dir_changed_def entries_def dir_blocks_def fst4)
        ultimately show ?thesis by blast
      next
        case (Inr x)
        then have x: "x = (if es = [] then FS_NULL else payload ?ss (fst (last es)))" "r \<notin> set (entries [] es)" "es4 = es" "V4 = V"
          using q(4) by (auto simp: add_walk_def)
        have ne: "r \<notin> set (entries rs es)" using x(2) False by (simp add: entries_def)
        have h4: "holds s4 V" "dir_at V (sector_size s4) k d rs es" "fs_sector s4 + 8192 < 4294967296"
          using q(2) x(4) d geoD [OF g4] file_sector_bound [OF h o(6)] by simp_all
        have eq: "fs_directory_add_reference ?a r s = append_extent ?a x d r s4"
          using none step lt q(1) Inr by (simp add: fs_directory_add_reference_def)
        have out: "dir_changed s4 V k d es s5 V5 d5 rs5 es5 \<Longrightarrow> dir_changed s V k d es s5 V5 d5 rs5 es5" for s5 V5 d5 rs5 es5
          using g4 geoD(1) [OF g4] by (simp add: dir_changed_def)
        show ?thesis
        proof (cases "es = []")
          case True
          obtain code s5 V5 d5 es5 where z: "append_extent ?a x d r s4 = (code, s5)" "dir_changed s4 V k d [] s5 V5 d5 rs es5"
            "code = 0 \<and> (\<exists>j. es5 = [(j, [r])]) \<or> code = 4 \<and> es5 = [] \<and> V5 = V \<and> no_room s5 60"
            using append_first_extent [OF h4(1) h4(2) [unfolded True] h4(3), of x r] geoD(1) [OF g4] by auto
          have "add_outcome s V k d rs es r code s5 V5 d5 rs es5"
            using z(2,3) True ne out [unfolded True] by (auto simp: add_outcome_def entries_def)
          then show ?thesis using eq z(1) by auto
        next
          case False
          obtain code s5 V5 es5 where z: "append_extent ?a x d r s4 = (code, s5)" "dir_changed s4 V k d es s5 V5 d rs es5"
            "code = 0 \<and> (\<exists>j. es5 = es @ [(j, [r])]) \<or> code = 7 \<and> es5 = es \<and> V5 = V \<and> no_room s5 60"
            using append_next_extent [OF h4 False, of r] geoD(1) [OF g4] x(1) False by auto
          have "add_outcome s V k d rs es r code s5 V5 d rs es5"
            using z(2,3) ne out by (auto simp: add_outcome_def entries_def)
          then show ?thesis using eq z(1) by auto
        qed
      qed
    qed
  qed
qed

end
