(* ===== verification/FsDirRemove.thy ===== *)
theory FsDirRemove
  imports FsDirProps
begin

text \<open>
  Taking an entry out of a directory, unlinking an extent that has become empty, and deleting a directory.
\<close>

lemma payload_distinct:
  assumes "holds s V" "V j = Some x" "V k = Some y" "j \<noteq> k"
  shows "payload (sector_size s) j \<noteq> payload (sector_size s) k"
  using payload_inject [OF assms(1,3,2)] assms(4) by metis

section \<open>Unlinking an extent\<close>

text \<open>The predecessor of the extent, which may be the header, is made to point to \<open>c\<close>.\<close>

definition relink_prev :: "u32 \<Rightarrow> fs_dir_header \<Rightarrow> u32 \<Rightarrow> u32 \<Rightarrow> fsdev \<Rightarrow> fsdev" where
  "relink_prev a d q c s =
     (if q = a then fs_directory_header_write a (d\<lparr>dh_next := c\<rparr>) s
      else if q \<noteq> FS_NULL
      then (case fs_directory_extent_read q s of
              (None, s') \<Rightarrow> s' | (Some p, s') \<Rightarrow> fs_directory_extent_write q (p\<lparr>de_next := c\<rparr>) s')
      else s)"

definition relink_next :: "u32 \<Rightarrow> u32 \<Rightarrow> fsdev \<Rightarrow> fsdev" where
  "relink_next c q s =
     (if c \<noteq> FS_NULL
      then (case fs_directory_extent_read c s of
              (None, s') \<Rightarrow> s' | (Some n, s') \<Rightarrow> fs_directory_extent_write c (n\<lparr>de_prev := q\<rparr>) s')
      else s)"

lemma unlink_eq:
  assumes "fs_directory_header_read a s = (Some d, s1)" "fs_directory_extent_read x s1 = (Some e, s2)"
  shows "fs_directory_extent_unlink_and_free a x s
    = fs_free x (relink_next (de_next e) (de_prev e) (relink_prev a d (de_prev e) (de_next e) s2))"
  using assms by (simp add: fs_directory_extent_unlink_and_free_def relink_prev_def relink_next_def Let_def)

lemma relink_next_dseg:
  assumes h: "holds s V" and c: "dseg V (sector_size s) p a es FS_NULL" and dis: "distinct (map fst es)"
  shows "\<exists>V'. holds (relink_next a q s) V' \<and> geo (relink_next a q s) = geo s \<and> dseg V' (sector_size s) q a es FS_NULL
    \<and> (\<forall>j. j \<notin> fst ` set es \<longrightarrow> V' j = V j)"
proof (cases es)
  case Nil
  then show ?thesis using h c by (auto simp: relink_next_def)
next
  case (Cons ke es')
  obtain k rs where ke: "ke = (k, rs)" by (cases ke)
  obtain e slack s1 where e: "a = payload (sector_size s) k" "a \<noteq> FS_NULL" "V k = Some (dir_extent_bytes e @ refs_bytes rs @ slack)"
    "de_count e = of_nat (length rs)" "dseg V (sector_size s) a (de_next e) es' FS_NULL"
    "fs_directory_extent_read a s = (Some e, s1)" "holds s1 V" "geo s1 = geo s" "sector_size s1 = sector_size s"
    using dseg_step [OF h c [unfolded Cons ke]] by metis
  let ?e = "e\<lparr>de_prev := q\<rparr>"
  let ?V = "V(k \<mapsto> dir_extent_bytes ?e @ refs_bytes rs @ slack)"
  note w = dir_extent_rewrite [OF e(7,3), of ?e, unfolded e(9), folded e(1)]
  have k: "k \<notin> fst ` set es'" using dis by (simp add: Cons ke)
  have "relink_next a q s = fs_directory_extent_write a ?e s1" using e(2,6) by (simp add: relink_next_def)
  moreover have "dseg ?V (sector_size s) a (de_next e) es' FS_NULL" using e(5) by (simp only: dseg_upd [OF k])
  then have "dseg ?V (sector_size s) q a es FS_NULL" using e(1,4) by (auto simp: Cons ke)
  ultimately show ?thesis using w e(8) by (intro exI [of _ ?V]) (simp add: Cons ke)
qed

lemma relink_prev_dseg:
  fixes b :: u32
  assumes h: "holds s V" and V: "V k = Some (dir_header_bytes d @ rest)" "block_header_wf (dh_block d)"
    and c: "dseg V (sector_size s) (payload (sector_size s) k) (dh_next d) es x"
    and dis: "distinct (k # map fst es)" and q: "q = seg_end (sector_size s) (payload (sector_size s) k) es"
  defines "s' \<equiv> relink_prev (payload (sector_size s) k) d q b s"
  shows "\<exists>V' n. holds s' V' \<and> geo s' = geo s \<and> V' k = Some (dir_header_bytes (d\<lparr>dh_next := n\<rparr>) @ rest)
    \<and> dseg V' (sector_size s) (payload (sector_size s) k) n es b \<and> (\<forall>j. j \<notin> insert k (fst ` set es) \<longrightarrow> V' j = V j)"
proof (cases es rule: rev_cases)
  case Nil
  have wf: "block_header_wf (dh_block (d\<lparr>dh_next := b\<rparr>))" using V(2) by simp
  note w = dir_header_rewrite [OF h V(1) V(2) wf]
  have "s' = fs_directory_header_write (payload (sector_size s) k) (d\<lparr>dh_next := b\<rparr>) s"
    using q by (simp add: s'_def relink_prev_def Nil)
  then show ?thesis using w by (intro exI [of _ "V(k \<mapsto> dir_header_bytes (d\<lparr>dh_next := b\<rparr>) @ rest)"] exI [of _ b]) (simp add: Nil)
next
  case (snoc es0 te)
  obtain t rst where te: "te = (t, rst)" by (cases te)
  obtain e slack where e: "V t = Some (dir_extent_bytes e @ refs_bytes rst @ slack)" "de_count e = of_nat (length rst)"
    "dseg V (sector_size s) (payload (sector_size s) k) (dh_next d) es0 (payload (sector_size s) t)"
    "de_prev e = seg_end (sector_size s) (payload (sector_size s) k) es0"
    using c by (auto simp: snoc te dseg_append)
  have tk: "t \<noteq> k" "t \<notin> fst ` set es0" using dis by (auto simp: snoc te)
  have qt: "q = payload (sector_size s) t" using q by (simp add: snoc te)
  have ne: "q \<noteq> payload (sector_size s) k" "q \<noteq> FS_NULL"
    using payload_distinct [OF h e(1) V(1) tk(1)] block_bounds(8) [OF h e(1)] by (simp_all add: qt)
  obtain s1 where s1: "fs_directory_extent_read q s = (Some e, s1)" "holds s1 V" "geo s1 = geo s"
    using dir_extent_image [OF h e(1)] qt by metis
  let ?e = "e\<lparr>de_next := b\<rparr>"
  let ?V = "V(t \<mapsto> dir_extent_bytes ?e @ refs_bytes rst @ slack)"
  note w = dir_extent_rewrite [OF s1(2) e(1), of ?e, unfolded geoD(1) [OF s1(3)], folded qt]
  have "s' = fs_directory_extent_write q ?e s1" using ne s1(1) by (simp add: s'_def relink_prev_def)
  moreover have "dseg ?V (sector_size s) (payload (sector_size s) k) (dh_next d) es0 (payload (sector_size s) t)"
    using e(3) by (simp only: dseg_upd [OF tk(2)])
  then have "dseg ?V (sector_size s) (payload (sector_size s) k) (dh_next d) es b"
    using e(2,4) by (auto simp: snoc te dseg_append)
  moreover have "?V k = Some (dir_header_bytes (d\<lparr>dh_next := dh_next d\<rparr>) @ rest)" using V(1) tk(1) by simp
  ultimately show ?thesis using w s1(3) by (intro exI [of _ ?V] exI [of _ "dh_next d"]) (simp add: snoc te)
qed

lemma unlink_full:
  assumes h: "holds s V" and d: "dir_at V (sector_size s) k d rs (es0 @ (j, x) # es1)"
  defines "s' \<equiv> fs_directory_extent_unlink_and_free (payload (sector_size s) k) (payload (sector_size s) j) s"
  shows "\<exists>V' d'. dir_changed s V k d (es0 @ (j, x) # es1) s' V' d' rs (es0 @ es1) \<and> V' j = None
    \<and> (\<forall>i. i \<notin> dir_blocks k (es0 @ (j, x) # es1) \<longrightarrow> V' i = V i)"
proof -
  let ?ss = "sector_size s" and ?a = "payload (sector_size s) k" and ?es = "es0 @ (j, x) # es1"
  obtain slack s1 where o: "fs_directory_header_read ?a s = (Some d, s1)" "holds s1 V" "geo s1 = geo s" "sector_size s1 = ?ss"
    "V k = Some (dir_header_bytes d @ refs_bytes rs @ slack)" "block_header_wf (dh_block d)"
    "dseg V ?ss ?a (dh_next d) ?es FS_NULL"
    using dir_open [OF h d] by metis
  have blk: "bh_attributes (dh_block d) AND FS_ATTRIBUTE_DIRECTORY \<noteq> 0" "dh_count d = of_nat (length rs)"
    "distinct (k # map fst ?es)" using d by (simp_all add: dir_at_def)
  obtain e sl where e: "dseg V ?ss ?a (dh_next d) es0 (payload ?ss j)" "V j = Some (dir_extent_bytes e @ refs_bytes x @ sl)"
    "de_prev e = seg_end ?ss ?a es0" "dseg V ?ss (payload ?ss j) (de_next e) es1 FS_NULL"
    using o(7) by (auto simp: dseg_append)
  obtain s2 where s2: "fs_directory_extent_read (payload ?ss j) s1 = (Some e, s2)" "holds s2 V" "geo s2 = geo s1"
    using dir_extent_image [OF o(2) e(2)] o(4) by metis
  have g2: "sector_size s2 = ?ss" "geo s2 = geo s" using geoD(1) [OF s2(3)] s2(3) o(3,4) by simp_all
  have dis: "distinct (k # map fst es0)" "distinct (map fst es1)" "j \<noteq> k" "j \<notin> fst ` set es0" "j \<notin> fst ` set es1"
    "k \<notin> fst ` set es1" "fst ` set es0 \<inter> fst ` set es1 = {}" using blk(3) by auto
  define s3 where "s3 = relink_prev ?a d (de_prev e) (de_next e) s2"
  obtain V3 n where v3: "holds s3 V3" "geo s3 = geo s2" "V3 k = Some (dir_header_bytes (d\<lparr>dh_next := n\<rparr>) @ refs_bytes rs @ slack)"
    "dseg V3 ?ss ?a n es0 (de_next e)" "\<forall>i. i \<notin> insert k (fst ` set es0) \<longrightarrow> V3 i = V i"
    using relink_prev_dseg [OF s2(2) o(5,6), unfolded g2(1), OF e(1) dis(1) e(3), of "de_next e"] unfolding s3_def by blast
  have g3: "sector_size s3 = ?ss" "geo s3 = geo s" using geoD(1) [OF v3(2)] v3(2) g2 by simp_all
  have "dseg V3 ?ss (payload ?ss j) (de_next e) es1 FS_NULL"
    using e(4) dis(6,7) by (subst dseg_cong [of es1 V3 V]) (auto intro!: v3(5) [rule_format])
  then obtain V4 where v4: "holds (relink_next (de_next e) (de_prev e) s3) V4" "geo (relink_next (de_next e) (de_prev e) s3) = geo s3"
    "dseg V4 ?ss (de_prev e) (de_next e) es1 FS_NULL" "\<forall>i. i \<notin> fst ` set es1 \<longrightarrow> V4 i = V3 i"
    using relink_next_dseg [OF v3(1), unfolded g3(1), OF _ dis(2)] by blast
  define s4 where "s4 = relink_next (de_next e) (de_prev e) s3"
  note v4 = v4 [folded s4_def]
  have g4: "sector_size s4 = ?ss" "geo s4 = geo s" using geoD(1) [OF v4(2)] v4(2) g3 by simp_all
  have V4: "V4 j = Some (dir_extent_bytes e @ refs_bytes x @ sl)" "V4 k = V3 k" using v4(4) v3(5) e(2) dis by auto
  note f = store_free [OF v4(1) V4(1), unfolded g4]
  have s': "s' = fs_free (payload ?ss j) s4" unfolding s'_def s4_def s3_def by (rule unlink_eq [OF o(1) s2(1)])
  let ?V = "V4(j := None)" and ?d = "d\<lparr>dh_next := n\<rparr>"
  have seg: "dseg V4 ?ss ?a n es0 (de_next e)"
    by (rule dseg_cong [of es0 V4 V3, THEN iffD2, OF _ v3(4)]) (use dis(7) v4(4) in blast)
  have "dseg ?V ?ss ?a n (es0 @ es1) FS_NULL"
    unfolding dseg_append dseg_upd [OF dis(4)] dseg_upd [OF dis(5)] using seg v4(3) e(3) by auto
  then have "dir_at ?V ?ss k ?d rs (es0 @ es1)"
    using o(6) blk V4(2) v3(3) dis(3) unfolding dir_at_def by auto
  moreover have out: "\<forall>i. i \<notin> dir_blocks k ?es \<longrightarrow> ?V i = V i"
    using v3(5) v4(4) by (auto simp: dir_blocks_def image_Un)
  then have "kept V ?V (dir_blocks k ?es)" by (simp add: kept_def)
  ultimately have "dir_changed s V k d ?es s' ?V ?d rs (es0 @ es1)"
    using f unfolding s' dir_changed_def by (auto simp: dir_blocks_def)
  then show ?thesis using out by (intro exI [of _ ?V] exI [of _ ?d]) simp
qed

section \<open>Removing an entry\<close>

definition remove_outcome :: "fsdev \<Rightarrow> store \<Rightarrow> nat \<Rightarrow> fs_dir_header \<Rightarrow> u32 list \<Rightarrow> (nat \<times> u32 list) list \<Rightarrow> u32
    \<Rightarrow> u8 \<Rightarrow> fsdev \<Rightarrow> store \<Rightarrow> fs_dir_header \<Rightarrow> u32 list \<Rightarrow> (nat \<times> u32 list) list \<Rightarrow> bool" where
  "remove_outcome s V k d rs es r code s' V' d' rs' es' \<longleftrightarrow>
     dir_changed s V k d es s' V' d' rs' es' \<and> entries rs' es' = remove1 r (entries rs es)
     \<and> code = (if r \<in> set (entries rs es) then 0 else 4)
     \<and> (\<forall>j. j \<notin> dir_blocks k es \<longrightarrow> V' j = V j) \<and> dir_blocks k es' \<subseteq> dir_blocks k es \<and> (\<forall>j \<in> dir_blocks k es - dir_blocks k es'. V' j = None)"

lemma entries_append: "entries rs (es @ es') = entries rs es @ entries [] es'"
  by (simp add: entries_def)

text \<open>The extent that holds the entry: it is rewritten, or unlinked when this was its last entry.\<close>

lemma remove_in_extent:
  assumes h: "holds s V" and d: "dir_at V (sector_size s) k d rs (es0 @ (j, x) # es1)" and i: "i < length x"
    and e: "V j = Some (dir_extent_bytes e @ refs_bytes x @ sl)"
  defines "y \<equiv> take i x @ drop (Suc i) x"
  defines "es' \<equiv> es0 @ (if y = [] then [] else [(j, y)]) @ es1"
  shows "\<exists>s' V' d'. (let (count, s3) = ref_shift (payload (sector_size s) j + DIR_EXTENT) i (de_count e) s
           in if count = 0 then (0 :: u8, fs_directory_extent_unlink_and_free (payload (sector_size s) k) (payload (sector_size s) j) s3)
              else (0, fs_directory_extent_write (payload (sector_size s) j) (e\<lparr>de_count := count\<rparr>) s3)) = (0, s')
    \<and> dir_changed s V k d (es0 @ (j, x) # es1) s' V' d' rs es' \<and> (y = [] \<longrightarrow> V' j = None)
    \<and> (\<forall>i. i \<notin> dir_blocks k (es0 @ (j, x) # es1) \<longrightarrow> V' i = V i)"
proof -
  let ?ss = "sector_size s" and ?a = "payload (sector_size s) k" and ?es = "es0 @ (j, x) # es1"
  let ?raw = "word_le 4 FS_NULL @ sl"
  let ?V1 = "V(j \<mapsto> dir_extent_bytes e @ refs_bytes y @ ?raw)"
  obtain slack where V: "V k = Some (dir_header_bytes d @ refs_bytes rs @ slack)" "block_header_wf (dh_block d)"
    "bh_attributes (dh_block d) AND FS_ATTRIBUTE_DIRECTORY \<noteq> 0" "dh_count d = of_nat (length rs)"
    "dseg V ?ss ?a (dh_next d) ?es FS_NULL" "distinct (k # map fst ?es)"
    using d by (rule dir_atE) (use d in \<open>auto simp: dir_at_def\<close>)
  have e': "dseg V ?ss ?a (dh_next d) es0 (payload ?ss j)" "de_prev e = seg_end ?ss ?a es0" "de_count e = of_nat (length x)"
    "dseg V ?ss (payload ?ss j) (de_next e) es1 FS_NULL"
  proof -
    obtain e0 sl0 where q: "dseg V ?ss ?a (dh_next d) es0 (payload ?ss j)" "V j = Some (dir_extent_bytes e0 @ refs_bytes x @ sl0)"
      "de_count e0 = of_nat (length x)" "de_prev e0 = seg_end ?ss ?a es0" "dseg V ?ss (payload ?ss j) (de_next e0) es1 FS_NULL"
      using V(5) by (auto simp: dseg_append)
    have "dir_extent_bytes e0 = dir_extent_bytes e" using q(2) e by (simp add: append_eq_append_conv)
    then show "dseg V ?ss ?a (dh_next d) es0 (payload ?ss j)" "de_prev e = seg_end ?ss ?a es0" "de_count e = of_nat (length x)"
      "dseg V ?ss (payload ?ss j) (de_next e) es1 FS_NULL" using q by simp_all
  qed
  have dis: "j \<noteq> k" "j \<notin> fst ` set es0" "j \<notin> fst ` set es1" using V(6) by auto
  note n = entry_count(2) [OF h e]
  obtain s3 where s3: "ref_shift (payload ?ss j + DIR_EXTENT) i (de_count e) s = (of_nat (length x - 1), s3)"
    "holds s3 ?V1" "geo s3 = geo s"
    using ref_shift_image [OF h e i e'(3) n] unfolding dir_bases length_dir_extent_bytes y_def by blast
  note g3 = geoD(1) [OF s3(3)]
  have ly: "length y = length x - 1" using i by (simp add: y_def)
  have zero: "(of_nat (length x - 1) :: u32) = 0 \<longleftrightarrow> y = []"
  proof -
    have "unat (of_nat (length y) :: u32) = length y" using n ly by (intro unat_of_nat_u32) simp
    then show ?thesis using ly by (metis length_0_conv unat_0 unat_eq_zero)
  qed
  show ?thesis
  proof (cases "y = []")
    case True
    have lx: "length x = 1" using ly True i by simp
    have "refs_bytes y @ ?raw = refs_bytes [FS_NULL] @ sl" by (simp add: True refs_bytes_def)
    then have V1: "?V1 j = Some (dir_extent_bytes e @ refs_bytes [FS_NULL] @ sl)" by simp
    have "dseg ?V1 ?ss ?a (dh_next d) es0 (payload ?ss j)" using e'(1) by (simp only: dseg_upd [OF dis(2)])
    moreover have "dseg ?V1 ?ss (payload ?ss j) (de_next e) es1 FS_NULL" using e'(4) by (simp only: dseg_upd [OF dis(3)])
    ultimately have "dseg ?V1 ?ss ?a (dh_next d) (es0 @ (j, [FS_NULL]) # es1) FS_NULL"
      using V1 e'(2,3) lx by (auto simp: dseg_append)
    moreover have "?V1 k = Some (dir_header_bytes d @ refs_bytes rs @ slack)" using V(1) dis(1) by simp
    ultimately have d1: "dir_at ?V1 (sector_size s3) k d rs (es0 @ (j, [FS_NULL]) # es1)"
      using V(2-4,6) g3 unfolding dir_at_def by auto
    obtain V' d' where u: "dir_changed s3 ?V1 k d (es0 @ (j, [FS_NULL]) # es1)
        (fs_directory_extent_unlink_and_free ?a (payload ?ss j) s3) V' d' rs (es0 @ es1)" "V' j = None"
      "\<forall>i. i \<notin> dir_blocks k (es0 @ (j, [FS_NULL]) # es1) \<longrightarrow> V' i = ?V1 i"
      using unlink_full [OF s3(2) d1] g3 by auto
    have "dir_changed s V k d ?es (fs_directory_extent_unlink_and_free ?a (payload ?ss j) s3) V' d' rs es'"
      using u(1) s3(3) g3 by (auto simp: dir_changed_def es'_def True kept_def dir_blocks_def)
    moreover have "\<forall>i. i \<notin> dir_blocks k ?es \<longrightarrow> V' i = V i" using u(3) by (auto simp: dir_blocks_def)
    ultimately show ?thesis using s3(1) zero True u(2) by auto
  next
    case False
    let ?e = "e\<lparr>de_count := of_nat (length x - 1)\<rparr>"
    let ?V2 = "?V1(j \<mapsto> dir_extent_bytes ?e @ refs_bytes y @ ?raw)"
    have "?V1 j = Some (dir_extent_bytes e @ refs_bytes y @ ?raw)" by simp
    note w = dir_extent_rewrite [where V = ?V1, OF s3(2) this, of ?e, unfolded g3]
    have "dseg ?V2 ?ss ?a (dh_next d) es0 (payload ?ss j)" using e'(1) by (simp only: dseg_upd [OF dis(2)])
    moreover have "dseg ?V2 ?ss (payload ?ss j) (de_next e) es1 FS_NULL" using e'(4) by (simp only: dseg_upd [OF dis(3)])
    moreover have "?V2 j = Some (dir_extent_bytes ?e @ refs_bytes y @ ?raw)" by simp
    ultimately have "dseg ?V2 ?ss ?a (dh_next d) es' FS_NULL"
      using e'(2) ly False by (auto simp: dseg_append es'_def)
    moreover have "?V2 k = Some (dir_header_bytes d @ refs_bytes rs @ slack)" using V(1) dis(1) by simp
    ultimately have "dir_at ?V2 ?ss k d rs es'"
      using V(2-4,6) unfolding dir_at_def by (auto simp: es'_def False)
    then have "dir_changed s V k d ?es (fs_directory_extent_write (payload ?ss j) ?e s3) ?V2 d rs es'"
      using w s3(3) by (auto simp: dir_changed_def kept_def dir_blocks_def es'_def split: if_splits)
    moreover have "\<forall>i. i \<notin> dir_blocks k ?es \<longrightarrow> ?V2 i = V i" by (auto simp: dir_blocks_def)
    ultimately show ?thesis using s3(1) zero False by auto
  qed
qed

lemma dseg_unique: "dseg V ss p a es b \<Longrightarrow> dseg V ss p a es c \<Longrightarrow> b = c"
proof (induction es arbitrary: p a)
  case (Cons ke es)
  obtain k rs where "ke = (k, rs)" by (cases ke)
  with Cons show ?case by (auto simp: append_eq_append_conv)
qed simp

lemma remove_loop_dseg:
  assumes "holds s V" "dir_at V (sector_size s) k d rs (es0 @ es)"
    "dseg V (sector_size s) (payload (sector_size s) k) (dh_next d) es0 a"
    "length es \<le> g" "r \<notin> set (entries rs es0)"
  shows "\<exists>code s' V' d' es'. remove_loop g (payload (sector_size s) k) a r s = (code, s')
    \<and> remove_outcome s V k d rs (es0 @ es) r code s' V' d' rs es'"
  using assms
proof (induction es arbitrary: es0 a g s)
  case Nil
  have a: "a = FS_NULL" using Nil.prems(2,3) dseg_unique unfolding dir_at_def by (metis append_Nil2)
  have "remove_loop g (payload (sector_size s) k) a r s = (4, s)" by (subst remove_loop.simps) (simp add: a)
  moreover have "remove_outcome s V k d rs (es0 @ []) r 4 s V d rs es0"
    using Nil.prems by (simp add: remove_outcome_def dir_changed_def remove1_idem)
  ultimately show ?case by blast
next
  case (Cons ke es)
  obtain j x where ke: "ke = (j, x)" by (cases ke)
  let ?ss = "sector_size s" and ?a = "payload (sector_size s) k"
  obtain g' where g: "g = Suc g'" "length es \<le> g'" using Cons.prems(4) by (cases g) auto
  have "dseg V ?ss ?a (dh_next d) (es0 @ ke # es) FS_NULL" using Cons.prems(2) by (simp add: dir_at_def)
  then have "dseg V ?ss (seg_end ?ss ?a es0) a ((j, x) # es) FS_NULL"
    using dseg_unique [OF Cons.prems(3)] unfolding dseg_append ke by blast
  from dseg_step [OF Cons.prems(1) this]
  obtain e slack s1 where e: "a = payload ?ss j" "a \<noteq> FS_NULL" "V j = Some (dir_extent_bytes e @ refs_bytes x @ slack)"
    "de_count e = of_nat (length x)" "unat (de_count e) = length x" "de_prev e = seg_end ?ss ?a es0"
    "fs_directory_extent_read a s = (Some e, s1)" "holds s1 V" "geo s1 = geo s" "sector_size s1 = ?ss"
    by metis
  obtain s2 where s2: "ref_scan (a + DIR_EXTENT) r [0..<length x] s1 = (find (\<lambda>i. x ! i = r) [0..<length x], s2)"
    "holds s2 V" "geo s2 = geo s1" using extent_scan [OF e(8,3)] e(1,10) by metis
  have g2: "sector_size s2 = ?ss" "geo s2 = geo s" using geoD(1) [OF s2(3)] s2(3) e(9,10) by simp_all
  have d2: "dir_at V (sector_size s2) k d rs (es0 @ ke # es)" using Cons.prems(2) g2 by simp
  have same: "remove_outcome s2 V k d rs es1 r code s' V' d' rs es' \<Longrightarrow> remove_outcome s V k d rs es1 r code s' V' d' rs es'"
    for es1 code s' V' d' es'
    using g2 by (simp add: remove_outcome_def dir_changed_def)
  show ?case
  proof (cases "find (\<lambda>i. x ! i = r) [0..<length x]")
    case None
    then have nx: "r \<notin> set x" using find_index [of x r] by blast
    have "dseg V ?ss ?a (dh_next d) (es0 @ [ke]) (de_next e)"
      using Cons.prems(3) e(1,3,4,6) by (auto simp: dseg_append ke)
    then have c: "dseg V (sector_size s2) (payload (sector_size s2) k) (dh_next d) (es0 @ [ke]) (de_next e)" using g2 by simp
    have d3: "dir_at V (sector_size s2) k d rs ((es0 @ [ke]) @ es)" using d2 by simp
    have ns: "r \<notin> set (entries rs (es0 @ [ke]))" using nx Cons.prems(5) by (simp add: entries_append ke)
    obtain code s' V' d' es' where q: "remove_loop g' ?a (de_next e) r s2 = (code, s')"
      "remove_outcome s2 V k d rs ((es0 @ [ke]) @ es) r code s' V' d' rs es'"
      using Cons.IH [OF s2(2) d3 c g(2) ns] g2 by auto
    have "remove_loop g ?a a r s = (code, s')"
      using e(2,5,7) s2(1) None q(1) by (subst remove_loop.simps) (simp add: g)
    moreover have "remove_outcome s V k d rs (es0 @ ke # es) r code s' V' d' rs es'" using same [OF q(2)] by simp
    ultimately show ?thesis by blast
  next
    case (Some i)
    note i = find_index_Some [OF Some]
    define y where "y = take i x @ drop (Suc i) x"
    have y: "remove1 r x = y" using i(3) by (simp add: y_def)
    let ?es' = "es0 @ (if y = [] then [] else [(j, y)]) @ es"
    obtain s' V' d' where q: "(let (count, s3) = ref_shift (a + DIR_EXTENT) i (de_count e) s2
           in if count = 0 then (0 :: u8, fs_directory_extent_unlink_and_free ?a a s3)
              else (0, fs_directory_extent_write a (e\<lparr>de_count := count\<rparr>) s3)) = (0, s')"
      "dir_changed s2 V k d (es0 @ (j, x) # es) s' V' d' rs ?es'" "y = [] \<longrightarrow> V' j = None"
      "\<forall>i. i \<notin> dir_blocks k (es0 @ (j, x) # es) \<longrightarrow> V' i = V i"
      using remove_in_extent [OF s2(2) d2 [unfolded ke] i(1) e(3)] unfolding g2(1) e(1) [symmetric] y_def by blast
    have step: "remove_loop g ?a a r s = (0, s')"
      using e(2,5,7) s2(1) Some q(1) by (subst remove_loop.simps) (simp add: g)
    have "r \<in> set x" using i by (metis nth_mem)
    then have "remove1 r (entries rs (es0 @ ke # es)) = entries rs ?es'"
      using Cons.prems(5) y by (simp add: ke entries_def remove1_append)
    moreover have rin: "r \<in> set (entries rs (es0 @ ke # es))" using \<open>r \<in> set x\<close> by (simp add: ke entries_def)
    ultimately have "remove_outcome s2 V k d rs (es0 @ ke # es) r 0 s' V' d' rs ?es'"
      using q(2-4) unfolding remove_outcome_def ke by (auto simp: dir_blocks_def)
    then show ?thesis using step same by blast
  qed
qed

lemma remove_reference_full:
  assumes h: "holds s V" and d: "dir_at V (sector_size s) k d rs es" and r: "r \<noteq> FS_NULL"
  shows "\<exists>code s' V' d' rs' es'. fs_directory_remove_reference (payload (sector_size s) k) r s = (code, s')
    \<and> remove_outcome s V k d rs es r code s' V' d' rs' es'"
proof -
  let ?ss = "sector_size s" and ?a = "payload (sector_size s) k"
  obtain slack s1 where o: "fs_directory_header_read ?a s = (Some d, s1)" "holds s1 V" "geo s1 = geo s" "sector_size s1 = ?ss"
    "V k = Some (dir_header_bytes d @ refs_bytes rs @ slack)" "block_header_wf (dh_block d)" "unat (dh_count d) = length rs"
    "dseg V ?ss ?a (dh_next d) es FS_NULL" "length es < unat (fs_directory_walk_limit s)"
    using dir_open [OF h d] by metis
  have blk: "bh_attributes (dh_block d) AND FS_ATTRIBUTE_DIRECTORY \<noteq> 0" "dh_count d = of_nat (length rs)"
    "k \<notin> fst ` set es" "distinct (map fst es)" using d by (simp_all add: dir_at_def)
  obtain s2 where s2: "ref_scan (?a + DIR_HEADER) r [0..<length rs] s1 = (find (\<lambda>i. rs ! i = r) [0..<length rs], s2)"
    "holds s2 V" "geo s2 = geo s1" using header_scan [OF o(2,5,6)] o(4) by metis
  have g2: "sector_size s2 = ?ss" "geo s2 = geo s" using geoD(1) [OF s2(3)] s2(3) o(3,4) by simp_all
  have same: "remove_outcome s2 V k d rs es r code s' V' d' rs' es' \<Longrightarrow> remove_outcome s V k d rs es r code s' V' d' rs' es'"
    for code s' V' d' rs' es'
    using g2 by (simp add: remove_outcome_def dir_changed_def)
  show ?thesis
  proof (cases "find (\<lambda>i. rs ! i = r) [0..<length rs]")
    case None
    then have nr: "r \<notin> set (entries rs [])" using find_index [of rs r] by simp
    have d2: "dir_at V (sector_size s2) k d rs ([] @ es)" using d g2 by simp
    have c: "dseg V (sector_size s2) (payload (sector_size s2) k) (dh_next d) [] (dh_next d)" by simp
    have lim: "length es \<le> unat (fs_directory_walk_limit s2)" using o(9) walk_limit_geo [OF g2(2)] by simp
    obtain code s' V' d' es' where q: "remove_loop (unat (fs_directory_walk_limit s2)) ?a (dh_next d) r s2 = (code, s')"
      "remove_outcome s2 V k d rs es r code s' V' d' rs es'"
      using remove_loop_dseg [OF s2(2) d2 c lim nr] g2 by auto
    have "fs_directory_remove_reference ?a r s = (code, s')"
      using r o(1,7) s2(1) None q(1) by (simp add: fs_directory_remove_reference_def)
    then show ?thesis using same [OF q(2)] by blast
  next
    case (Some i)
    note i = find_index_Some [OF Some]
    let ?y = "take i rs @ drop (Suc i) rs" and ?d = "d\<lparr>dh_count := of_nat (length rs - 1)\<rparr>"
    let ?raw = "word_le 4 FS_NULL @ slack"
    let ?V1 = "V(k \<mapsto> dir_header_bytes d @ refs_bytes ?y @ ?raw)"
    obtain s3 where s3: "ref_shift (?a + DIR_HEADER) i (dh_count d) s2 = (of_nat (length rs - 1), s3)"
      "holds s3 ?V1" "geo s3 = geo s2"
      using ref_shift_image [OF s2(2) o(5) i(1) blk(2) entry_count(2) [OF h o(5)]] g2
      unfolding dir_bases length_dir_header_bytes [OF o(6)] by auto
    note g3 = geoD(1) [OF s3(3), unfolded g2(1)]
    have V1: "?V1 k = Some (dir_header_bytes d @ refs_bytes ?y @ ?raw)" by simp
    have wf: "block_header_wf (dh_block ?d)" using o(6) by simp
    note w = dir_header_rewrite [where V = ?V1, OF s3(2) V1 o(6) wf, unfolded g3]
    let ?V2 = "?V1(k \<mapsto> dir_header_bytes ?d @ refs_bytes ?y @ ?raw)"
    have "fs_directory_remove_reference ?a r s = (0, fs_directory_header_write ?a ?d s3)"
      using r o(1,7) s2(1) Some s3(1) by (simp add: fs_directory_remove_reference_def)
    moreover have "dseg ?V2 ?ss ?a (dh_next ?d) es FS_NULL" using o(8) by (simp add: dseg_upd [OF blk(3)])
    moreover have "length ?y = length rs - 1" using i(1) by simp
    ultimately have d': "dir_at ?V2 ?ss k ?d ?y es" using o(6) blk by (auto simp: dir_at_def)
    have rin: "r \<in> set rs" using i by (metis nth_mem)
    have "dir_changed s V k d es (fs_directory_header_write ?a ?d s3) ?V2 ?d ?y es"
      using w s3(3) g2 d' by (simp add: dir_changed_def kept_def dir_blocks_def)
    moreover have "entries ?y es = remove1 r (entries rs es)" using i(3) rin by (simp add: entries_def remove1_append)
    ultimately have "remove_outcome s V k d rs es r 0 (fs_directory_header_write ?a ?d s3) ?V2 ?d ?y es"
      using rin by (simp add: remove_outcome_def entries_def dir_blocks_def)
    then show ?thesis using \<open>fs_directory_remove_reference ?a r s = (0, fs_directory_header_write ?a ?d s3)\<close> by blast
  qed
qed

end
