(* ===== verification/FsDirTree.thy ===== *)
theory FsDirTree
  imports FsDirRemove
begin

text \<open>
  Deleting a directory with everything below it: a tree of files and directories on the device, and the
  walk of \<open>fs_directory_delete_recursive\<close> over it.
\<close>

section \<open>Single directories\<close>

lemma dir_delete_loop_dseg:
  assumes "holds s V" "dseg V (sector_size s) p a es FS_NULL" "length es \<le> g" "distinct (map fst es)"
  shows "holds (dir_delete_loop g a s) (V |` (- fst ` set es)) \<and> geo (dir_delete_loop g a s) = geo s"
  using assms
proof (induction es arbitrary: V p a g s)
  case Nil
  then show ?case by (subst (1 2) dir_delete_loop.simps) (simp add: restrict_map_def)
next
  case (Cons ke es)
  obtain k rs where ke: "ke = (k, rs)" by (cases ke)
  obtain g' where g: "g = Suc g'" "length es \<le> g'" using Cons.prems(3) by (cases g) auto
  obtain e slack s1 where e: "a = payload (sector_size s) k" "a \<noteq> FS_NULL" "V k = Some (dir_extent_bytes e @ refs_bytes rs @ slack)"
    "dseg V (sector_size s) a (de_next e) es FS_NULL" "fs_directory_extent_read a s = (Some e, s1)" "holds s1 V" "geo s1 = geo s"
    "sector_size s1 = sector_size s"
    using dseg_step [OF Cons.prems(1) Cons.prems(2) [unfolded ke]] by metis
  let ?s2 = "fs_free a s1"
  have f: "holds ?s2 (V(k := None))" "geo ?s2 = geo s"
    using store_free [OF e(6,3)] e(1,7,8) by simp_all
  have k: "k \<notin> fst ` set es" "distinct (map fst es)" using Cons.prems(4) by (simp_all add: ke)
  have c: "dseg (V(k := None)) (sector_size ?s2) a (de_next e) es FS_NULL"
    using e(4) geoD(1) [OF f(2)] by (simp only: dseg_upd [OF k(1)])
  have step: "dir_delete_loop g a s = dir_delete_loop g' (de_next e) ?s2"
    using e(2,5) by (subst dir_delete_loop.simps) (simp add: g)
  have eq: "V(k := None) |` (- fst ` set es) = V |` (- fst ` set (ke # es))"
    by (auto simp: restrict_map_def fun_eq_iff ke)
  show ?case using Cons.IH [OF f(1) c g(2) k(2)] f(2) unfolding step eq by simp
qed

lemma directory_delete_full:
  assumes h: "holds s V" and d: "dir_at V (sector_size s) k d rs es"
  shows "\<exists>s'. fs_directory_delete (payload (sector_size s) k) s = (True, s') \<and> holds s' (V |` (- dir_blocks k es)) \<and> geo s' = geo s"
proof -
  let ?ss = "sector_size s" and ?a = "payload (sector_size s) k"
  obtain slack s1 where o: "fs_directory_header_read ?a s = (Some d, s1)" "holds s1 V" "geo s1 = geo s" "sector_size s1 = ?ss"
    "V k = Some (dir_header_bytes d @ refs_bytes rs @ slack)" "dseg V ?ss ?a (dh_next d) es FS_NULL"
    "fs_directory_walk_limit s1 = fs_directory_walk_limit s" "length es < unat (fs_directory_walk_limit s)"
    using dir_open [OF h d] by metis
  have blk: "k \<notin> fst ` set es" "distinct (map fst es)" using d by (simp_all add: dir_at_def)
  let ?s2 = "dir_delete_loop (unat (fs_directory_walk_limit s1)) (dh_next d) s1"
  have c: "dseg V (sector_size s1) ?a (dh_next d) es FS_NULL" "length es \<le> unat (fs_directory_walk_limit s1)"
    using o(4,6-8) by simp_all
  note l = dir_delete_loop_dseg [OF o(2) c blk(2)]
  have "(V |` (- fst ` set es)) k = Some (dir_header_bytes d @ refs_bytes rs @ slack)" using o(5) blk(1) by simp
  note f = store_free [OF l [THEN conjunct1] this]
  have "(V |` (- fst ` set es))(k := None) = V |` (- dir_blocks k es)"
    by (auto simp: restrict_map_def fun_eq_iff dir_blocks_def)
  then show ?thesis using f o(1,3,4) l geoD(1) [of ?s2 s1] by (simp add: fs_directory_delete_def)
qed

lemma get_parent_full:
  assumes h: "holds s V" and d: "dir_at V (sector_size s) k d rs es"
  obtains s1 where "fs_directory_get_parent (payload (sector_size s) k) s = (dh_parent d, s1)" "holds s1 V" "geo s1 = geo s"
proof -
  obtain s1 where "fs_directory_header_read (payload (sector_size s) k) s = (Some d, s1)" "holds s1 V" "geo s1 = geo s"
    using dir_open [OF h d] by metis
  then show thesis using that by (simp add: fs_directory_get_parent_def)
qed

lemma is_directory_full:
  assumes h: "holds s V" and d: "dir_at V (sector_size s) k d rs es"
  obtains s1 where "fs_directory_is_directory (payload (sector_size s) k) s = (True, s1)" "holds s1 V" "geo s1 = geo s"
proof -
  have "bh_attributes (dh_block d) AND FS_ATTRIBUTE_DIRECTORY \<noteq> 0" using d by (simp add: dir_at_def)
  moreover obtain s1 where "fs_directory_header_read (payload (sector_size s) k) s = (Some d, s1)" "holds s1 V" "geo s1 = geo s"
    using dir_open [OF h d] by metis
  ultimately show thesis using that by (simp add: fs_directory_is_directory_def)
qed

text \<open>A file is no directory, whether its block is too short for a directory header or not.\<close>

lemma is_directory_file:
  assumes h: "holds s V" and f: "file_at V (sector_size s) k f es data"
  obtains s1 where "fs_directory_is_directory (payload (sector_size s) k) s = (False, s1)" "holds s1 V" "geo s1 = geo s"
proof -
  obtain slack where V: "V k = Some (file_header_bytes f @ slack)" "block_header_wf (fh_block f)"
    "bh_attributes (fh_block f) AND FS_ATTRIBUTE_DIRECTORY = 0" using f by (rule file_atE)
  let ?d = "file_header_bytes f @ slack" and ?a = "payload (sector_size s) k"
  have ne: "?d \<noteq> []" using V(2) by (metis append_is_Nil_conv length_file_header_bytes list.size(3) zero_neq_numeral)
  obtain s1 where s1: "fs_file_alloc_header_read ?a s = (Some (of_nat (length ?d)), s1)" "holds s1 V" "geo s1 = geo s"
    using alloc_header_image [OF h V(1) ne] by metis
  show thesis
  proof (cases "(of_nat (length ?d) :: u32) < DIR_HEADER")
    case True
    then show thesis using that [OF _ s1(2,3)] s1(1)
      by (simp add: fs_directory_is_directory_def fs_directory_header_read_def)
  next
    case False
    then have len: "48 \<le> length ?d"
      using unat_of_nat_u32 [OF holdsD(5) [OF h V(1)]] by (simp add: word_less_nat_alt DIR_HEADER_def)
    obtain s2 where s2: "fs_mem_read ?a 48 s1 = (take 48 ?d, s2)" "holds s2 V" "geo s2 = geo s1"
      using payload_read [OF s1(2) V(1), of 0 48] geoD(1) [OF s1(3)] len by auto
    have "take 32 (take 48 ?d) = block_header_bytes (fh_block f)"
      using V(2) by (simp add: file_header_bytes_def)
    then have "dh_block (bytes_dir_header (take 48 ?d)) = fh_block f" using V(2) by (simp add: bytes_dir_header_def)
    moreover have "fs_directory_header_read ?a s = (Some (bytes_dir_header (take 48 ?d)), s2)"
      using s1(1) False s2(1) by (simp only: fs_directory_header_read_def prod.case option.case if_False Let_def)
    ultimately have "fs_directory_is_directory ?a s = (False, s2)"
      using V(3) by (simp add: fs_directory_is_directory_def)
    then show thesis using that s2(2,3) s1(3) by simp
  qed
qed

section \<open>Trees\<close>

text \<open>
  \<open>dir_node V ss p k B ks\<close>: a directory at block \<open>k\<close> below the address \<open>p\<close> lists the blocks \<open>ks\<close>. Its own
  blocks lie in \<open>B\<close>; what has already left it of \<open>B\<close> is free.
\<close>

definition dir_node :: "store \<Rightarrow> u32 \<Rightarrow> u32 \<Rightarrow> nat \<Rightarrow> nat set \<Rightarrow> nat list \<Rightarrow> bool" where
  "dir_node V ss p k B ks \<longleftrightarrow>
     (\<exists>d rs es. dir_at V ss k d rs es \<and> dh_parent d = p \<and> entries rs es = map (payload ss) ks
        \<and> dir_blocks k es \<subseteq> B \<and> (\<forall>j \<in> B - dir_blocks k es. V j = None))"

datatype node = FileNode nat "nat set" | DirNode nat "nat set" "node list"

fun root :: "node \<Rightarrow> nat" where
  "root (FileNode k B) = k"
| "root (DirNode k B cs) = k"

fun foot :: "node \<Rightarrow> nat set" where
  "foot (FileNode k B) = B"
| "foot (DirNode k B cs) = B \<union> (\<Union>c \<in> set cs. foot c)"

text \<open>The tree at address \<open>p\<close>'s entry: files and directories, each directory naming the one above it.\<close>

fun node_at :: "store \<Rightarrow> u32 \<Rightarrow> u32 \<Rightarrow> node \<Rightarrow> bool" where
  "node_at V ss p (FileNode k B) = (\<exists>f es data. file_at V ss k f es data \<and> B = file_blocks k es)"
| "node_at V ss p (DirNode k B cs) = (dir_node V ss p k B (map root cs) \<and> (\<forall>c \<in> set cs. node_at V ss (payload ss k) c))"

text \<open>No two parts of the tree share a block.\<close>

fun apart :: "node \<Rightarrow> bool" where
  "apart (FileNode k B) = True"
| "apart (DirNode k B cs) =
     ((\<forall>c \<in> set cs. apart c \<and> foot c \<inter> B = {}) \<and> sorted_wrt (\<lambda>a b. foot a \<inter> foot b = {}) cs)"

text \<open>The steps the walk needs for a tree below the directory it starts from.\<close>

fun cost :: "node \<Rightarrow> nat" where
  "cost (FileNode k B) = 1"
| "cost (DirNode k B cs) = 2 + sum_list (map cost cs)"

lemma dir_at_cong: "(\<And>j. j \<in> dir_blocks k es \<Longrightarrow> V' j = V j) \<Longrightarrow> dir_at V' ss k d rs es = dir_at V ss k d rs es"
  using dseg_cong [of es V' V] by (simp add: dir_at_def dir_blocks_def)

lemma file_at_cong: "(\<And>j. j \<in> file_blocks k es \<Longrightarrow> V' j = V j) \<Longrightarrow> file_at V' ss k f es data = file_at V ss k f es data"
  using seg_cong [of es V' V] by (simp add: file_at_def file_blocks_def)

lemma dir_node_cong:
  assumes "dir_node V ss p k B ks" "\<And>j. j \<in> B \<Longrightarrow> V' j = V j"
  shows "dir_node V' ss p k B ks"
proof -
  obtain d rs es where d: "dir_at V ss k d rs es" "dh_parent d = p" "entries rs es = map (payload ss) ks"
    "dir_blocks k es \<subseteq> B" "\<forall>j \<in> B - dir_blocks k es. V j = None" using assms(1) by (auto simp: dir_node_def)
  have "dir_at V' ss k d rs es" using d(1,4) assms(2) dir_at_cong [of k es V' V] by blast
  moreover have "\<forall>j \<in> B - dir_blocks k es. V' j = None" using d(5) assms(2) by simp
  ultimately show ?thesis using d(2-4) unfolding dir_node_def by blast
qed

lemma node_at_cong:
  assumes "node_at V ss p n" "\<And>j. j \<in> foot n \<Longrightarrow> V' j = V j"
  shows "node_at V' ss p n"
  using assms
proof (induction n arbitrary: p)
  case (FileNode k B)
  then show ?case using file_at_cong [of k _ V' V] by fastforce
next
  case (DirNode k B cs)
  have "dir_node V' ss p k B (map root cs)" using dir_node_cong [of V ss p k B "map root cs" V'] DirNode.prems by simp
  moreover have "node_at V' ss (payload ss k) c" if "c \<in> set cs" for c
    using DirNode.IH [OF that, of "payload ss k"] DirNode.prems that by auto
  ultimately show ?case by simp
qed

lemma dir_node_live: "dir_node V ss p k B ks \<Longrightarrow> k \<in> B \<and> V k \<noteq> None"
  by (auto simp: dir_node_def dir_blocks_def dir_at_def)

lemma root_live: "node_at V ss p n \<Longrightarrow> root n \<in> foot n \<and> V (root n) \<noteq> None"
  by (cases n) (auto simp: file_blocks_def file_at_def dest: dir_node_live)

lemma dir_nodeE:
  assumes "dir_node V ss p k B ks"
  obtains d rs es where "dir_at V ss k d rs es" "dh_parent d = p" "entries rs es = map (payload ss) ks"
    "dir_blocks k es \<subseteq> B" "\<forall>j \<in> B - dir_blocks k es. V j = None"
  using assms by (auto simp: dir_node_def)

text \<open>Blocks of a store, and hence entries that are blocks, are fewer than 2 to the 30.\<close>

lemma live_count:
  assumes h: "holds s V" and ks: "distinct ks" "set ks \<subseteq> dom V" and ss: "4 \<le> fs_sector s"
  shows "4 * length ks < 4294967296" "length ks \<le> fs_cap s"
proof -
  have "k < fs_cap s" if "k \<in> set ks" for k
    using block_bounds(2) [OF h] that ks(2) by (metis domD subsetD)
  then have "set ks \<subseteq> {..<fs_cap s}" by auto
  then show le: "length ks \<le> fs_cap s" using card_mono [of "{..<fs_cap s}" "set ks"] ks(1) by (simp add: distinct_card)
  have "fs_cap s * fs_sector s + fs_sector s < 4294967296" using holdsD(3) [OF h] by (simp add: fs_geom_def)
  then have "fs_cap s * 4 < 4294967296" using mult_le_mono2 [OF ss, of "fs_cap s"] by linarith
  then show "4 * length ks < 4294967296" using le by linarith
qed

section \<open>The operations of the walk\<close>

lemma node_count:
  assumes h: "holds s V" and d: "dir_node V (sector_size s) p k B ks"
  shows "\<exists>s1. fs_directory_get_reference_count (payload (sector_size s) k) s = (of_nat (length ks), s1) \<and> holds s1 V \<and> geo s1 = geo s"
proof -
  obtain d rs es where d: "dir_at V (sector_size s) k d rs es" "entries rs es = map (payload (sector_size s)) ks"
    using d by (rule dir_nodeE)
  have "length (entries rs es) = length ks" by (simp add: d(2))
  then show ?thesis using reference_count_full [OF h d(1)] by simp
qed

lemma node_last:
  assumes h: "holds s V" and d: "dir_node V (sector_size s) p k B (ks @ [j])" and n: "Suc (length ks) < 4294967296"
  shows "\<exists>s1. fs_directory_get_reference (payload (sector_size s) k) (of_nat (length (ks @ [j])) - 1) s
      = (payload (sector_size s) j, s1) \<and> holds s1 V \<and> geo s1 = geo s"
proof -
  obtain d rs es where d: "dir_at V (sector_size s) k d rs es" "entries rs es = map (payload (sector_size s)) (ks @ [j])"
    using d by (rule dir_nodeE)
  have "(of_nat (length (ks @ [j])) - 1 :: u32) = of_nat (length ks)" by simp
  moreover have "unat (of_nat (length ks) :: u32) = length ks" using n by (intro unat_of_nat_u32) simp
  ultimately show ?thesis
    using get_reference_full [OF h d(1), of "of_nat (length ks)"] unfolding d(2) by (simp add: nth_append)
qed

lemma payload_inj_on:
  assumes "holds s V" "set ks \<subseteq> dom V"
  shows "inj_on (payload (sector_size s)) (set ks)"
  using assms payload_inject unfolding inj_on_def by (metis domD subsetD)

lemma node_remove:
  assumes h: "holds s V" and d: "dir_node V (sector_size s) p k B (ks @ [j])"
    and ks: "distinct (ks @ [j])" "set (ks @ [j]) \<subseteq> dom V"
  shows "\<exists>s1 V1. fs_directory_remove_reference (payload (sector_size s) k) (payload (sector_size s) j) s = (0, s1)
    \<and> holds s1 V1 \<and> geo s1 = geo s \<and> dir_node V1 (sector_size s) p k B ks \<and> (\<forall>i. i \<notin> B \<longrightarrow> V1 i = V i)"
proof -
  let ?ss = "sector_size s" and ?r = "payload (sector_size s) j"
  obtain d rs es where d: "dir_at V ?ss k d rs es" "dh_parent d = p" "entries rs es = map (payload ?ss) (ks @ [j])"
    "dir_blocks k es \<subseteq> B" "\<forall>i \<in> B - dir_blocks k es. V i = None"
    using d by (rule dir_nodeE)
  have r: "?r \<noteq> FS_NULL" using block_bounds(8) [OF h] ks(2) by fastforce
  obtain code s1 V1 d1 rs1 es1 where q: "fs_directory_remove_reference (payload ?ss k) ?r s = (code, s1)"
    "remove_outcome s V k d rs es ?r code s1 V1 d1 rs1 es1"
    using remove_reference_full [OF h d(1) r] by blast
  note o = q(2) [unfolded remove_outcome_def dir_changed_def]
  have nj: "?r \<notin> payload ?ss ` set ks"
    using payload_inj_on [OF h ks(2)] ks(1) by (auto dest: inj_onD)
  then have e1: "entries rs1 es1 = map (payload ?ss) ks" using o d(3) by (simp add: remove1_append)
  have "code = 0" using o d(3) by simp
  moreover have out: "V1 i = V i" if "i \<notin> dir_blocks k es" for i using o that by blast
  have "V1 i = None" if "i \<in> B - dir_blocks k es1" for i
    using o d(5) out [of i] that by (cases "i \<in> dir_blocks k es") auto
  then have "dir_node V1 ?ss p k B ks"
    using o e1 d(2,4) unfolding dir_node_def by (intro exI [of _ d1] exI [of _ rs1] exI [of _ es1]) auto
  moreover have "V1 i = V i" if "i \<notin> B" for i using out d(4) that by blast
  ultimately show ?thesis using q(1) o by blast
qed

lemma node_delete:
  assumes h: "holds s V" and d: "dir_node V (sector_size s) p k B ks"
  shows "\<exists>s1. fs_directory_delete (payload (sector_size s) k) s = (True, s1) \<and> holds s1 (V |` (- B)) \<and> geo s1 = geo s"
proof -
  obtain d rs es where d: "dir_at V (sector_size s) k d rs es" "dir_blocks k es \<subseteq> B" "\<forall>j \<in> B - dir_blocks k es. V j = None"
    using d by (rule dir_nodeE)
  have "V |` (- dir_blocks k es) = V |` (- B)"
    using d(2,3) by (auto simp: restrict_map_def fun_eq_iff)
  then show ?thesis using directory_delete_full [OF h d(1)] by simp
qed

text \<open>What the walk decides about the last entry.\<close>

lemma owned_dir:
  assumes h: "holds s V" and d: "dir_node V (sector_size s) (payload (sector_size s) k) j B ks"
    and ne: "payload (sector_size s) j \<noteq> x" "payload (sector_size s) j \<noteq> payload (sector_size s) k"
  shows "\<exists>s1. owned_directory x (payload (sector_size s) k) (payload (sector_size s) j) s = (True, s1) \<and> holds s1 V \<and> geo s1 = geo s"
proof -
  let ?ss = "sector_size s" and ?c = "payload (sector_size s) j"
  obtain d rs es where d: "dir_at V ?ss j d rs es" "dh_parent d = payload ?ss k" using d by (rule dir_nodeE)
  have c: "?c \<noteq> FS_NULL" using block_bounds(8) [OF h] d(1) by (auto simp: dir_at_def)
  obtain s1 where s1: "fs_directory_is_directory ?c s = (True, s1)" "holds s1 V" "geo s1 = geo s"
    using is_directory_full [OF h d(1)] by metis
  have "dir_at V (sector_size s1) j d rs es" using d(1) geoD(1) [OF s1(3)] by simp
  then obtain s2 where "fs_directory_get_parent (payload (sector_size s1) j) s1 = (dh_parent d, s2)" "holds s2 V" "geo s2 = geo s1"
    using get_parent_full [OF s1(2)] by metis
  then show ?thesis using c ne s1 d(2) geoD(1) [OF s1(3)] by (simp add: owned_directory_def)
qed

lemma owned_file:
  assumes h: "holds s V" and f: "file_at V (sector_size s) j f es data"
  shows "\<exists>s1. owned_directory x y (payload (sector_size s) j) s = (False, s1) \<and> holds s1 V \<and> geo s1 = geo s"
proof -
  obtain s1 where "fs_directory_is_directory (payload (sector_size s) j) s = (False, s1)" "holds s1 V" "geo s1 = geo s"
    using is_directory_file [OF h f] by metis
  then show ?thesis using h by (simp add: owned_directory_def)
qed

lemma remove_file_entry:
  assumes h: "holds s V" and d: "dir_node V (sector_size s) p k B (ks @ [j])"
    and ks: "distinct (ks @ [j])" "set (ks @ [j]) \<subseteq> dom V"
    and f: "file_at V (sector_size s) j f es data" and B: "file_blocks j es \<inter> B = {}"
  shows "\<exists>s1 V1. remove_entry (payload (sector_size s) k) (payload (sector_size s) j) s = Some (True, s1)
    \<and> holds s1 V1 \<and> geo s1 = geo s \<and> dir_node V1 (sector_size s) p k B ks
    \<and> (\<forall>i. i \<notin> B \<union> file_blocks j es \<longrightarrow> V1 i = V i) \<and> (\<forall>i \<in> file_blocks j es. V1 i = None)"
proof -
  let ?ss = "sector_size s" and ?c = "payload (sector_size s) j"
  obtain s1 V1 where r: "fs_directory_remove_reference (payload ?ss k) ?c s = (0, s1)" "holds s1 V1" "geo s1 = geo s"
    "dir_node V1 ?ss p k B ks" "\<forall>i. i \<notin> B \<longrightarrow> V1 i = V i"
    using node_remove [OF h d ks] by blast
  note g1 = geoD(1) [OF r(3)]
  have "file_at V1 ?ss j f es data" using f B r(5) by (subst file_at_cong [of j es V1 V]) auto
  then have f1: "file_at V1 (sector_size s1) j f es data" by (simp add: g1)
  obtain slack where V1: "V1 j = Some (file_header_bytes f @ slack)" "block_header_wf (fh_block f)"
    "bh_attributes (fh_block f) AND FS_ATTRIBUTE_DIRECTORY = 0" using f1 by (rule file_atE)
  obtain s2 where s2: "fs_file_check ?c s1 = (True, s2)" "holds s2 V1" "geo s2 = geo s1"
    using file_check_image [OF r(2) V1] g1 by metis
  note g2 = geoD(1) [OF s2(3)]
  have "file_at V1 (sector_size s2) j f es data" using f1 g2 by simp
  from file_delete_full [OF s2(2) this] obtain s3 where s3: "fs_file_delete ?c s2 = Some (True, s3)"
    "holds s3 (V1 |` (- file_blocks j es))" "geo s3 = geo s2"
    using g1 g2 by (auto simp: file_blocks_def)
  have "?c \<noteq> FS_NULL" using block_bounds(8) [OF r(2) V1(1)] g1 by simp
  then have "remove_entry (payload ?ss k) ?c s = Some (True, s3)"
    using r(1) s2(1) s3(1) by (simp add: remove_entry_def)
  moreover have "dir_node (V1 |` (- file_blocks j es)) ?ss p k B ks"
    by (rule dir_node_cong [OF r(4)]) (use B in \<open>auto simp: restrict_map_def\<close>)
  moreover have "(V1 |` (- file_blocks j es)) i = V i" if "i \<notin> B \<union> file_blocks j es" for i
    using that r(5) by (simp add: restrict_map_def)
  moreover have "(V1 |` (- file_blocks j es)) i = None" if "i \<in> file_blocks j es" for i
    using that by (simp add: restrict_map_def)
  ultimately show ?thesis using s3(2,3) s2(3) r(3) by auto
qed

section \<open>The walk\<close>

lemma loop_last:
  assumes h: "holds s V" and d: "dir_node V (sector_size s) p k B (ks @ [j])"
    and ks: "distinct (ks @ [j])" "set (ks @ [j]) \<subseteq> dom V" and ss: "4 \<le> fs_sector s"
  shows "\<exists>s1. (\<forall>m. recursive_loop (Suc m) x (payload (sector_size s) k) s
      = (let (descend, s3) = owned_directory x (payload (sector_size s) k) (payload (sector_size s) j) s1
         in if descend then recursive_loop m x (payload (sector_size s) j) s3
            else do {
              (ok, s4) \<leftarrow> remove_entry (payload (sector_size s) k) (payload (sector_size s) j) s3;
              if ok then recursive_loop m x (payload (sector_size s) k) s4 else Some (False, s4)
            })) \<and> holds s1 V \<and> geo s1 = geo s"
proof -
  let ?ss = "sector_size s" and ?n = "of_nat (length (ks @ [j])) :: u32"
  have small: "length (ks @ [j]) < 4294967296" using live_count(1) [OF h ks ss] by simp
  obtain s1 where s1: "fs_directory_get_reference_count (payload ?ss k) s = (?n, s1)" "holds s1 V" "geo s1 = geo s"
    using node_count [OF h d] by blast
  have d1: "dir_node V (sector_size s1) p k B (ks @ [j])" using d geoD(1) [OF s1(3)] by simp
  obtain s2 where s2: "fs_directory_get_reference (payload ?ss k) (?n - 1) s1 = (payload ?ss j, s2)" "holds s2 V" "geo s2 = geo s1"
    using node_last [OF s1(2) d1] small geoD(1) [OF s1(3)] by auto
  have "unat ?n = length (ks @ [j])" using small by (rule unat_of_nat_u32)
  then have "?n \<noteq> 0" by (metis length_append_singleton nat.distinct(1) unat_0)
  then show ?thesis using s1 s2 by (intro exI [of _ s2]) (simp add: Let_def split_beta)
qed

text \<open>
  \<open>clears n\<close>: wherever \<open>n\<close> is the last entry of the directory the walk is in, the walk takes \<open>cost n\<close> steps
  to free the blocks of \<open>n\<close> and to take the entry away, and is then in the same directory again.
\<close>

definition cleared :: "fsdev \<Rightarrow> store \<Rightarrow> nat set \<Rightarrow> nat set \<Rightarrow> fsdev \<Rightarrow> store \<Rightarrow> bool" where
  "cleared s V B F s' V' \<longleftrightarrow>
     holds s' V' \<and> geo s' = geo s \<and> (\<forall>j. j \<notin> B \<union> F \<longrightarrow> V' j = V j) \<and> (\<forall>j \<in> F. V' j = None)"

definition clears :: "node \<Rightarrow> bool" where
  "clears n \<longleftrightarrow> (\<forall>s V p k B ks k0.
     holds s V \<longrightarrow> 4 \<le> fs_sector s \<longrightarrow> dir_node V (sector_size s) p k B (ks @ [root n])
     \<longrightarrow> node_at V (sector_size s) (payload (sector_size s) k) n \<longrightarrow> foot n \<inter> (B \<union> set ks) = {}
     \<longrightarrow> distinct (ks @ [root n]) \<longrightarrow> set ks \<subseteq> dom V \<longrightarrow> V k0 \<noteq> None \<longrightarrow> k0 \<notin> foot n
     \<longrightarrow> (\<exists>s' V'. (\<forall>m. recursive_loop (cost n + m) (payload (sector_size s) k0) (payload (sector_size s) k) s
                   = recursive_loop m (payload (sector_size s) k0) (payload (sector_size s) k) s')
           \<and> cleared s V B (foot n) s' V' \<and> dir_node V' (sector_size s) p k B ks))"

lemma clearsD:
  assumes "clears n" "holds s V" "4 \<le> fs_sector s" "dir_node V (sector_size s) p k B (ks @ [root n])"
    "node_at V (sector_size s) (payload (sector_size s) k) n" "foot n \<inter> (B \<union> set ks) = {}"
    "distinct (ks @ [root n])" "set ks \<subseteq> dom V" "V k0 \<noteq> None" "k0 \<notin> foot n"
  obtains s' V' where "\<And>m. recursive_loop (cost n + m) (payload (sector_size s) k0) (payload (sector_size s) k) s
      = recursive_loop m (payload (sector_size s) k0) (payload (sector_size s) k) s'"
    "cleared s V B (foot n) s' V'" "dir_node V' (sector_size s) p k B ks"
  using assms unfolding clears_def by metis

lemma clears_file: "clears (FileNode j F)"
  unfolding clears_def
proof (intro allI impI)
  fix s V p k B ks k0
  assume h: "holds s V" and ss: "4 \<le> fs_sector s" and d: "dir_node V (sector_size s) p k B (ks @ [root (FileNode j F)])"
    and n: "node_at V (sector_size s) (payload (sector_size s) k) (FileNode j F)" and F: "foot (FileNode j F) \<inter> (B \<union> set ks) = {}"
    and ks: "distinct (ks @ [root (FileNode j F)])" "set ks \<subseteq> dom V"
  let ?ss = "sector_size s"
  obtain f es data where f: "file_at V ?ss j f es data" "F = file_blocks j es" using n by auto
  have dom: "set (ks @ [j]) \<subseteq> dom V" using ks(2) root_live [OF n] by auto
  have d': "dir_node V ?ss p k B (ks @ [j])" and ks': "distinct (ks @ [j])" using d ks(1) by simp_all
  obtain s1 where s1: "\<And>m. recursive_loop (Suc m) (payload ?ss k0) (payload ?ss k) s
      = (let (descend, s3) = owned_directory (payload ?ss k0) (payload ?ss k) (payload ?ss j) s1
         in if descend then recursive_loop m (payload ?ss k0) (payload ?ss j) s3
            else do {
              (ok, s4) \<leftarrow> remove_entry (payload ?ss k) (payload ?ss j) s3;
              if ok then recursive_loop m (payload ?ss k0) (payload ?ss k) s4 else Some (False, s4)
            })" "holds s1 V" "geo s1 = geo s"
    using loop_last [OF h d' ks' dom ss, of "payload ?ss k0"] by blast
  have f1: "file_at V (sector_size s1) j f es data" using f(1) geoD(1) [OF s1(3)] by simp
  obtain s2 where s2: "owned_directory (payload ?ss k0) (payload ?ss k) (payload ?ss j) s1 = (False, s2)" "holds s2 V" "geo s2 = geo s1"
    using owned_file [OF s1(2) f1] geoD(1) [OF s1(3)] by metis
  have g2: "sector_size s2 = ?ss" using s1(3) s2(3) geoD(1) by metis
  have p2: "dir_node V (sector_size s2) p k B (ks @ [j])" "distinct (ks @ [j])" "file_at V (sector_size s2) j f es data"
    "file_blocks j es \<inter> B = {}" using d ks(1) f F g2 by auto
  obtain s3 V3 where s3: "remove_entry (payload ?ss k) (payload ?ss j) s2 = Some (True, s3)" "holds s3 V3" "geo s3 = geo s2"
    "dir_node V3 ?ss p k B ks" "\<forall>i. i \<notin> B \<union> F \<longrightarrow> V3 i = V i" "\<forall>i \<in> F. V3 i = None"
    using remove_file_entry [OF s2(2) p2(1,2) dom p2(3,4)] unfolding g2 f(2) by blast
  have "recursive_loop (cost (FileNode j F) + m) (payload ?ss k0) (payload ?ss k) s
      = recursive_loop m (payload ?ss k0) (payload ?ss k) s3" for m
    using s1(1) s2(1) s3(1) by simp
  then show "\<exists>s' V'. (\<forall>m. recursive_loop (cost (FileNode j F) + m) (payload ?ss k0) (payload ?ss k) s
      = recursive_loop m (payload ?ss k0) (payload ?ss k) s')
    \<and> cleared s V B (foot (FileNode j F)) s' V' \<and> dir_node V' ?ss p k B ks"
    using s3 s2(3) s1(3) by (intro exI [of _ s3] exI [of _ V3]) (simp add: cleared_def)
qed

lemma roots_distinct:
  assumes "sorted_wrt (\<lambda>a b. foot a \<inter> foot b = {}) cs" "\<forall>c \<in> set cs. node_at V ss p c"
  shows "distinct (map root cs)" "set (map root cs) \<subseteq> dom V"
proof -
  show "distinct (map root cs)" using assms
  proof (induction cs)
    case (Cons c cs)
    have "root c \<noteq> root c'" if "c' \<in> set cs" for c'
      using Cons.prems that root_live [of V ss p c] root_live [of V ss p c'] by fastforce
    then show ?case using Cons by auto
  qed simp
  show "set (map root cs) \<subseteq> dom V" using assms(2) root_live by fastforce
qed

lemma walk_children:
  assumes "\<forall>c \<in> set cs. clears c" "holds s V" "4 \<le> fs_sector s" "dir_node V (sector_size s) p k B (map root cs)"
    "\<forall>c \<in> set cs. node_at V (sector_size s) (payload (sector_size s) k) c \<and> foot c \<inter> B = {}"
    "sorted_wrt (\<lambda>a b. foot a \<inter> foot b = {}) cs" "V k0 \<noteq> None" "\<forall>c \<in> set cs. k0 \<notin> foot c" "k0 = k \<or> k0 \<notin> B"
  shows "\<exists>s' V'. (\<forall>m. recursive_loop (sum_list (map cost cs) + m) (payload (sector_size s) k0) (payload (sector_size s) k) s
      = recursive_loop m (payload (sector_size s) k0) (payload (sector_size s) k) s')
    \<and> cleared s V B (\<Union>c \<in> set cs. foot c) s' V' \<and> dir_node V' (sector_size s) p k B []"
  using assms
proof (induction cs arbitrary: s V rule: rev_induct)
  case Nil
  then show ?case by (intro exI [of _ s] exI [of _ V]) (simp add: cleared_def)
next
  case (snoc c cs)
  let ?ss = "sector_size s"
  have nodes: "\<forall>c \<in> set (cs @ [c]). node_at V ?ss (payload ?ss k) c" using snoc.prems(5) by blast
  note rd = roots_distinct [OF snoc.prems(6) nodes]
  have apart_roots: "root c' \<notin> foot c" if "c' \<in> set cs" for c'
    using snoc.prems(6) nodes root_live that by (fastforce simp: sorted_wrt_append)
  have pre: "clears c" "dir_node V ?ss p k B (map root cs @ [root c])" "node_at V ?ss (payload ?ss k) c" "foot c \<inter> (B \<union> set (map root cs)) = {}"
    "distinct (map root cs @ [root c])" "set (map root cs) \<subseteq> dom V" "k0 \<notin> foot c"
    using snoc.prems(1,4,5,8) rd apart_roots by auto
  obtain s1 V1 where c1: "\<And>m. recursive_loop (cost c + m) (payload ?ss k0) (payload ?ss k) s
      = recursive_loop m (payload ?ss k0) (payload ?ss k) s1"
    "cleared s V B (foot c) s1 V1" "dir_node V1 ?ss p k B (map root cs)"
    using clearsD [OF pre(1) snoc.prems(2,3) pre(2-6) snoc.prems(7) pre(7)] by metis
  note o = c1(2) [unfolded cleared_def]
  have g1: "sector_size s1 = ?ss" "fs_sector s1 = fs_sector s" using o geoD [of s1 s] by simp_all
  have dis: "foot c' \<inter> foot c = {}" if "c' \<in> set cs" for c'
    using snoc.prems(6) that by (auto simp: sorted_wrt_append)
  have n1: "node_at V1 ?ss (payload ?ss k) c'" if "c' \<in> set cs" for c'
  proof (rule node_at_cong)
    show "node_at V ?ss (payload ?ss k) c'" using snoc.prems(5) that by simp
    fix j assume "j \<in> foot c'"
    then have "j \<notin> B \<union> foot c" using dis [OF that] snoc.prems(5) that by auto
    then show "V1 j = V j" using o by simp
  qed
  have live: "V1 k0 \<noteq> None"
  proof (cases "k0 = k")
    case True
    then show ?thesis using dir_node_live [OF c1(3)] by simp
  next
    case False
    then have "k0 \<notin> B \<union> foot c" using snoc.prems(9) pre(7) by simp
    then have "V1 k0 = V k0" using o by blast
    then show ?thesis using snoc.prems(7) by simp
  qed
  have ih: "\<forall>c \<in> set cs. clears c" "holds s1 V1" "4 \<le> fs_sector s1" "dir_node V1 (sector_size s1) p k B (map root cs)"
    "\<forall>c \<in> set cs. node_at V1 (sector_size s1) (payload (sector_size s1) k) c \<and> foot c \<inter> B = {}"
    "sorted_wrt (\<lambda>a b. foot a \<inter> foot b = {}) cs" "\<forall>c \<in> set cs. k0 \<notin> foot c"
    using snoc.prems(1,3,5,6,8) o g1 c1(3) n1 by (auto simp: sorted_wrt_append)
  obtain s2 V2 where c2: "\<forall>m. recursive_loop (sum_list (map cost cs) + m) (payload ?ss k0) (payload ?ss k) s1
      = recursive_loop m (payload ?ss k0) (payload ?ss k) s2"
    "cleared s1 V1 B (\<Union>c \<in> set cs. foot c) s2 V2" "dir_node V2 ?ss p k B []"
    using snoc.IH [OF ih(1-6) live ih(7) snoc.prems(9)] unfolding g1 by blast
  have "recursive_loop (sum_list (map cost (cs @ [c])) + m) (payload ?ss k0) (payload ?ss k) s
      = recursive_loop m (payload ?ss k0) (payload ?ss k) s2" for m
    using c1(1) [of "sum_list (map cost cs) + m"] c2(1) by (simp add: algebra_simps)
  moreover have "cleared s V B (\<Union>c \<in> set (cs @ [c]). foot c) s2 V2"
  proof -
    have "V2 j = None" if "j \<in> foot c" for j
    proof (cases "j \<in> (\<Union>c \<in> set cs. foot c)")
      case False
      then have "V2 j = V1 j" using c2(2) pre(4) that by (auto simp: cleared_def)
      then show ?thesis using o that by simp
    qed (use c2(2) in \<open>auto simp: cleared_def\<close>)
    then show ?thesis using c2(2) o by (auto simp: cleared_def)
  qed
  ultimately show ?case using c2(3) by blast
qed

lemma climb:
  assumes h: "holds s V" and dj: "dir_node V (sector_size s) (payload (sector_size s) k) j F []"
    and dk: "dir_node V (sector_size s) p k B (ks @ [j])" and F: "F \<inter> B = {}"
    and ks: "distinct (ks @ [j])" "set (ks @ [j]) \<subseteq> dom V" and k0: "V k0 \<noteq> None" "k0 \<noteq> j"
  shows "\<exists>s' V'. (\<forall>m. recursive_loop (Suc m) (payload (sector_size s) k0) (payload (sector_size s) j) s
      = recursive_loop m (payload (sector_size s) k0) (payload (sector_size s) k) s')
    \<and> cleared s V B F s' V' \<and> dir_node V' (sector_size s) p k B ks"
proof -
  let ?ss = "sector_size s"
  obtain s1 where s1: "fs_directory_get_reference_count (payload ?ss j) s = (0, s1)" "holds s1 V" "geo s1 = geo s"
    using node_count [OF h dj] by auto
  note g1 = geoD(1) [OF s1(3)]
  have ne: "payload ?ss j \<noteq> payload ?ss k0"
  proof -
    obtain x y where "V j = Some x" "V k0 = Some y" using dir_node_live [OF dj] k0(1) by auto
    then show ?thesis using payload_distinct [OF h] k0(2) by metis
  qed
  obtain d rs es where "dir_at V ?ss j d rs es" "dh_parent d = payload ?ss k" using dj by (rule dir_nodeE)
  then obtain s2 where s2: "fs_directory_get_parent (payload ?ss j) s1 = (payload ?ss k, s2)" "holds s2 V" "geo s2 = geo s1"
    using get_parent_full [OF s1(2)] g1 by metis
  have g2: "sector_size s2 = ?ss" using geoD(1) [OF s2(3)] g1 by simp
  have dk2: "dir_node V (sector_size s2) p k B (ks @ [j])" using dk g2 by simp
  obtain s3 V3 where s3: "fs_directory_remove_reference (payload ?ss k) (payload ?ss j) s2 = (0, s3)" "holds s3 V3" "geo s3 = geo s2"
    "dir_node V3 ?ss p k B ks" "\<forall>i. i \<notin> B \<longrightarrow> V3 i = V i"
    using node_remove [OF s2(2) dk2 ks] unfolding g2 by blast
  have g3: "sector_size s3 = ?ss" using geoD(1) [OF s3(3)] g2 by simp
  have "dir_node V3 ?ss (payload ?ss k) j F []" by (rule dir_node_cong [OF dj]) (use s3(5) F in blast)
  then have dj3: "dir_node V3 (sector_size s3) (payload ?ss k) j F []" using g3 by simp
  obtain s4 where s4: "fs_directory_delete (payload ?ss j) s3 = (True, s4)" "holds s4 (V3 |` (- F))" "geo s4 = geo s3"
    using node_delete [OF s3(2) dj3] unfolding g3 by blast
  have up: "payload ?ss k \<noteq> FS_NULL" using dir_node_live [OF dk] block_bounds(8) [OF h] by blast
  have "dir_node (V3 |` (- F)) ?ss p k B ks" by (rule dir_node_cong [OF s3(4)]) (use F in \<open>auto simp: restrict_map_def\<close>)
  moreover have "cleared s V B F s4 (V3 |` (- F))"
    using s4(2,3) s3(3,5) s2(3) s1(3) by (auto simp: cleared_def restrict_map_def)
  moreover have "recursive_loop (Suc m) (payload ?ss k0) (payload ?ss j) s = recursive_loop m (payload ?ss k0) (payload ?ss k) s4" for m
    using s1(1) s2(1) s3(1) s4(1) ne up by simp
  ultimately show ?thesis by blast
qed

lemma clears_dir:
  assumes "\<And>c. c \<in> set cs \<Longrightarrow> clears c" "apart (DirNode j F cs)"
  shows "clears (DirNode j F cs)"
  unfolding clears_def
proof (intro allI impI)
  fix s V p k B ks k0
  let ?n = "DirNode j F cs"
  assume h: "holds s V" and ss: "4 \<le> fs_sector s" and d: "dir_node V (sector_size s) p k B (ks @ [root ?n])"
    and n: "node_at V (sector_size s) (payload (sector_size s) k) ?n" and FB: "foot ?n \<inter> (B \<union> set ks) = {}"
    and ks: "distinct (ks @ [root ?n])" "set ks \<subseteq> dom V" and k0: "V k0 \<noteq> None" "k0 \<notin> foot ?n"
  let ?ss = "sector_size s" and ?U = "\<Union>c \<in> set cs. foot c"
  have d': "dir_node V ?ss p k B (ks @ [j])" and ks': "distinct (ks @ [j])" using d ks(1) by simp_all
  have dj: "dir_node V ?ss (payload ?ss k) j F (map root cs)" "\<forall>c \<in> set cs. node_at V ?ss (payload ?ss j) c" using n by simp_all
  have ap: "\<forall>c \<in> set cs. foot c \<inter> F = {}" "sorted_wrt (\<lambda>a b. foot a \<inter> foot b = {}) cs" using assms(2) by simp_all
  have dom: "set (ks @ [j]) \<subseteq> dom V" using ks(2) root_live [OF n] by auto
  have jF: "j \<in> F" and kB: "k \<in> B" using dir_node_live [OF dj(1)] dir_node_live [OF d'] by blast+
  have ne: "payload ?ss j \<noteq> payload ?ss k0" "payload ?ss j \<noteq> payload ?ss k"
  proof -
    obtain x y z where v: "V j = Some x" "V k0 = Some y" "V k = Some z"
      using root_live [OF n] k0(1) dir_node_live [OF d'] by auto
    have "j \<noteq> k0" "j \<noteq> k" using jF kB FB k0(2) by auto
    then show "payload ?ss j \<noteq> payload ?ss k0" "payload ?ss j \<noteq> payload ?ss k" using payload_distinct [OF h] v by metis+
  qed
  obtain s1 where s1: "\<And>m. recursive_loop (Suc m) (payload ?ss k0) (payload ?ss k) s
      = (let (descend, s3) = owned_directory (payload ?ss k0) (payload ?ss k) (payload ?ss j) s1
         in if descend then recursive_loop m (payload ?ss k0) (payload ?ss j) s3
            else do {
              (ok, s4) \<leftarrow> remove_entry (payload ?ss k) (payload ?ss j) s3;
              if ok then recursive_loop m (payload ?ss k0) (payload ?ss k) s4 else Some (False, s4)
            })" "holds s1 V" "geo s1 = geo s"
    using loop_last [OF h d' ks' dom ss, of "payload ?ss k0"] by blast
  note g1 = geoD(1) [OF s1(3)]
  have dj1: "dir_node V (sector_size s1) (payload (sector_size s1) k) j F (map root cs)" using dj(1) g1 by simp
  obtain s2 where s2: "owned_directory (payload ?ss k0) (payload ?ss k) (payload ?ss j) s1 = (True, s2)" "holds s2 V" "geo s2 = geo s1"
    using owned_dir [OF s1(2) dj1, of "payload ?ss k0"] ne unfolding g1 by blast
  have g2: "sector_size s2 = ?ss" "fs_sector s2 = fs_sector s" "geo s2 = geo s" using geoD [OF s2(3)] geoD [OF s1(3)] s2(3) s1(3) by simp_all
  have w: "\<forall>c \<in> set cs. clears c" "4 \<le> fs_sector s2" "dir_node V (sector_size s2) (payload ?ss k) j F (map root cs)"
    "\<forall>c \<in> set cs. node_at V (sector_size s2) (payload (sector_size s2) j) c \<and> foot c \<inter> F = {}"
    "\<forall>c \<in> set cs. k0 \<notin> foot c" "k0 = j \<or> k0 \<notin> F"
    using assms(1) ss dj ap(1) k0(2) g2 by auto
  obtain s3 V3 where c: "\<forall>m. recursive_loop (sum_list (map cost cs) + m) (payload ?ss k0) (payload ?ss j) s2
      = recursive_loop m (payload ?ss k0) (payload ?ss j) s3"
    "cleared s2 V F ?U s3 V3" "dir_node V3 ?ss (payload ?ss k) j F []"
    using walk_children [OF w(1) s2(2) w(2-4) ap(2) k0(1) w(5,6)] unfolding g2 by blast
  note o = c(2) [unfolded cleared_def]
  have g3: "sector_size s3 = ?ss" "geo s3 = geo s" using o geoD(1) [of s3 s2] g2 by simp_all
  have same: "V3 i = V i" if "i \<notin> foot ?n" for i using o that by simp
  have dk3: "dir_node V3 ?ss p k B (ks @ [j])" by (rule dir_node_cong [OF d']) (use same FB in blast)
  have dom3: "set (ks @ [j]) \<subseteq> dom V3"
  proof
    fix i assume i: "i \<in> set (ks @ [j])"
    show "i \<in> dom V3"
    proof (cases "i = j")
      case True
      then show ?thesis using dir_node_live [OF c(3)] by auto
    next
      case False
      then have "i \<notin> foot ?n" using i FB by auto
      then show ?thesis using same [of i] i dom by auto
    qed
  qed
  have p3: "dir_node V3 (sector_size s3) (payload (sector_size s3) k) j F []" "dir_node V3 (sector_size s3) p k B (ks @ [j])"
    "F \<inter> B = {}" "V3 k0 \<noteq> None" "k0 \<noteq> j"
    using c(3) dk3 g3 FB same [OF k0(2)] k0 jF by auto
  obtain s4 V4 where e: "\<forall>m. recursive_loop (Suc m) (payload ?ss k0) (payload ?ss j) s3
      = recursive_loop m (payload ?ss k0) (payload ?ss k) s4" "cleared s3 V3 B F s4 V4" "dir_node V4 ?ss p k B ks"
    using climb [OF _ p3(1-3) ks' dom3 p3(4,5)] o unfolding g3 by blast
  have "recursive_loop (cost ?n + m) (payload ?ss k0) (payload ?ss k) s = recursive_loop m (payload ?ss k0) (payload ?ss k) s4" for m
  proof -
    have n: "cost ?n + m = Suc (sum_list (map cost cs) + Suc m)" by simp
    show ?thesis unfolding n s1(1) using s2(1) c(1) [rule_format, of "Suc m"] e(1) by simp
  qed
  moreover have "cleared s V B (foot ?n) s4 V4"
  proof -
    note e' = e(2) [unfolded cleared_def]
    have "V4 i = None" if "i \<in> foot ?n" for i
    proof (cases "i \<in> F")
      case False
      then have "i \<notin> B \<union> F" "i \<in> ?U" using that FB by auto
      then show ?thesis using e' o by metis
    qed (use e' in blast)
    moreover have "V4 i = V i" if "i \<notin> B \<union> foot ?n" for i using e' same [of i] that by simp
    ultimately show ?thesis using e' o g3(2) by (simp add: cleared_def)
  qed
  ultimately show "\<exists>s' V'. (\<forall>m. recursive_loop (cost ?n + m) (payload ?ss k0) (payload ?ss k) s
      = recursive_loop m (payload ?ss k0) (payload ?ss k) s')
    \<and> cleared s V B (foot ?n) s' V' \<and> dir_node V' ?ss p k B ks" using e(3) by blast
qed

lemma clears_all: "apart n \<Longrightarrow> clears n"
proof (induction n)
  case (DirNode k B cs)
  then have "clears c" if "c \<in> set cs" for c using that by simp
  then show ?case using DirNode.prems by (rule clears_dir)
qed (rule clears_file)

text \<open>Every node of the tree is a live block of its own, so the walk has enough steps.\<close>

fun roots :: "node \<Rightarrow> nat list" where
  "roots (FileNode k B) = [k]"
| "roots (DirNode k B cs) = k # concat (map roots cs)"

lemma cost_roots: "cost n \<le> 2 * length (roots n)"
proof (induction n)
  case (DirNode k B cs)
  have "sum_list (map cost cs) \<le> (\<Sum>c\<leftarrow>cs. 2 * length (roots c))" using DirNode by (intro sum_list_mono) simp
  also have "\<dots> = 2 * length (concat (map roots cs))" by (induction cs) auto
  finally show ?case by simp
qed simp

lemma roots_live:
  assumes "node_at V ss p n"
  shows "set (roots n) \<subseteq> dom V \<inter> foot n"
  using assms
proof (induction n arbitrary: p)
  case (FileNode k B)
  then show ?case using root_live [OF FileNode] by auto
next
  case (DirNode k B cs)
  have "set (roots c) \<subseteq> dom V \<inter> foot c" if "c \<in> set cs" for c
    using DirNode.IH [OF that, of "payload ss k"] DirNode.prems that by simp
  then show ?case using root_live [OF DirNode.prems] dir_node_live [of V ss p k B "map root cs"] DirNode.prems by auto blast+
qed

lemma distinct_roots:
  assumes "node_at V ss p n" "apart n"
  shows "distinct (roots n)"
  using assms
proof (induction n arbitrary: p)
  case (DirNode k B cs)
  have live: "set (roots c) \<subseteq> foot c" if "c \<in> set cs" for c
    using roots_live [of V ss "payload ss k" c] DirNode.prems(1) that by auto
  have d: "distinct (roots c)" if "c \<in> set cs" for c
    using DirNode.IH [OF that, of "payload ss k"] DirNode.prems that by simp
  have "k \<in> B" using dir_node_live DirNode.prems(1) by (metis node_at.simps(2))
  then have "k \<notin> set (concat (map roots cs))" using live DirNode.prems(2) by fastforce
  moreover have "sorted_wrt (\<lambda>a b. foot a \<inter> foot b = {}) cs" using DirNode.prems(2) by simp
  then have "distinct (concat (map roots cs))" using live d
  proof (induction cs)
    case (Cons c cs)
    have "set (roots c) \<inter> set (roots c') = {}" if "c' \<in> set cs" for c'
      using Cons.prems(1) Cons.prems(2) [of c] Cons.prems(2) [of c'] that by fastforce
    then show ?case using Cons by auto
  qed simp
  ultimately show ?case by simp
qed simp

definition partition_of :: "fsdev \<Rightarrow> fs_partition" where
  "partition_of s = bytes_partition (mem_read (dev_view s) 16 32)"

lemma partition_read:
  assumes h: "holds s V" and magic: "p_magic (partition_of s) = FS_MAGIC"
  obtains s1 where "fs_device_get_partition s = ((0, partition_of s), s1)" "holds s1 V" "geo s1 = geo s"
proof -
  obtain s1 where "fs_mem_read 16 32 s = (mem_read (dev_view s) 16 32, s1)" "holds s1 V" "geo s1 = geo s"
    using any_read [OF h] by blast
  then show thesis using that [of s1] magic by (simp add: fs_device_get_partition_def DEVICE_HEADER_def partition_of_def)
qed

lemma partition_geo:
  assumes "geo s' = geo s"
  shows "partition_of s' = partition_of s"
proof -
  have e: "mem_read (dev_view t) 16 32 = drop 16 (mem_read (dev_view t) 0 48)" for t
    using mem_read_sub [of 16 32 48 "dev_view t" 0] by simp
  show ?thesis unfolding partition_of_def e geoD(5) [OF assms] by (rule refl)
qed

lemma delete_recursive_full:
  assumes h: "holds s V" and ss: "4 \<le> fs_sector s"
    and n: "node_at V (sector_size s) p (DirNode k B cs)" "apart (DirNode k B cs)"
    and part: "p_magic (partition_of s) = FS_MAGIC" "payload (sector_size s) k \<noteq> p_root (partition_of s)"
    and par: "dir_at V (sector_size s) q dq rs es" "dir_blocks q es \<inter> foot (DirNode k B cs) = {}"
  shows "\<exists>s' V' d' rs' es'. fs_directory_delete_recursive (payload (sector_size s) k) (payload (sector_size s) q) s = Some (True, s')
    \<and> cleared s V (dir_blocks q es) (foot (DirNode k B cs)) s' V' \<and> dir_at V' (sector_size s) q d' rs' es'
    \<and> entries rs' es' = remove1 (payload (sector_size s) k) (entries rs es)"
proof -
  let ?ss = "sector_size s" and ?n = "DirNode k B cs" and ?U = "\<Union>c \<in> set cs. foot c"
  have dk: "dir_node V ?ss p k B (map root cs)" "\<forall>c \<in> set cs. node_at V ?ss (payload ?ss k) c" using n(1) by simp_all
  have kB: "k \<in> B" "V k \<noteq> None" using dir_node_live [OF dk(1)] by blast+
  then have a: "payload ?ss k \<noteq> FS_NULL" using block_bounds(8) [OF h] by blast
  obtain d rs0 es0 where "dir_at V ?ss k d rs0 es0" using dk(1) by (rule dir_nodeE)
  then obtain s1 where s1: "fs_directory_is_directory (payload ?ss k) s = (True, s1)" "holds s1 V" "geo s1 = geo s"
    using is_directory_full [OF h] by metis
  have p1: "p_magic (partition_of s1) = FS_MAGIC" using part(1) partition_geo [OF s1(3)] by simp
  obtain s2 where s2: "fs_device_get_partition s1 = ((0, partition_of s1), s2)" "holds s2 V" "geo s2 = geo s1"
    using partition_read [OF s1(2) p1] by blast
  have g2: "sector_size s2 = ?ss" "geo s2 = geo s" using geoD(1) [OF s2(3)] geoD(1) [OF s1(3)] s2(3) s1(3) by simp_all
  have q: "payload ?ss q \<noteq> FS_NULL" using par(1) block_bounds(8) [OF h] by (auto simp: dir_at_def)
  have par2: "dir_at V (sector_size s2) q dq rs es" using par(1) g2 by simp
  obtain code s3 V3 d3 rs3 es3 where r: "fs_directory_remove_reference (payload ?ss q) (payload ?ss k) s2 = (code, s3)"
    "remove_outcome s2 V q dq rs es (payload ?ss k) code s3 V3 d3 rs3 es3"
    using remove_reference_full [OF s2(2) par2 a] unfolding g2 by blast
  note o = r(2) [unfolded remove_outcome_def dir_changed_def]
  have g3: "sector_size s3 = ?ss" "fs_sector s3 = fs_sector s" "geo s3 = geo s" using o geoD [of s3 s] g2 by simp_all
  have same: "V3 i = V i" if "i \<in> foot ?n" for i using o par(2) that by blast
  have n3: "node_at V3 ?ss p ?n" by (rule node_at_cong [OF n(1) same])
  have rts: "set (roots ?n) \<subseteq> dom V3" "distinct (roots ?n)" using roots_live [OF n3] distinct_roots [OF n3 n(2)] by auto
  have h3: "holds s3 V3" "4 \<le> fs_sector s3" using o ss g3 by simp_all
  have lim: "cost ?n \<le> unat (fs_directory_walk_limit s3 * 4)"
  proof -
    note lc = live_count [OF h3(1) rts(2,1) h3(2)]
    have cap: "fs_cap s3 * fs_sector s3 + fs_sector s3 < 4294967296" using holdsD(3) [OF h3(1)] by (simp add: fs_geom_def)
    have "fs_cap s3 * 4 \<le> fs_cap s3 * fs_sector s3" using h3(2) by simp
    then have small: "fs_cap s3 * 4 < 4294967296" using cap by linarith
    have "0 < fs_cap s3" using lc(2) by auto
    then have "block_count s3 \<noteq> 0" by (auto simp: fs_cap_def)
    then have "unat (fs_directory_walk_limit s3 * 4) = fs_cap s3 * 4"
      using small by (subst unat_mult_u32) (simp_all add: fs_directory_walk_limit_def fs_cap_def)
    then show ?thesis using lc(2) cost_roots [of ?n] by linarith
  qed
  have w: "\<forall>c \<in> set cs. clears c" "dir_node V3 (sector_size s3) p k B (map root cs)"
    "\<forall>c \<in> set cs. node_at V3 (sector_size s3) (payload (sector_size s3) k) c \<and> foot c \<inter> B = {}"
    "sorted_wrt (\<lambda>a b. foot a \<inter> foot b = {}) cs" "V3 k \<noteq> None" "\<forall>c \<in> set cs. k \<notin> foot c" "k = k \<or> k \<notin> B"
    using n(2) clears_all n3 g3 kB same [of k] by auto
  obtain s4 V4 where c: "\<forall>m. recursive_loop (sum_list (map cost cs) + m) (payload ?ss k) (payload ?ss k) s3
      = recursive_loop m (payload ?ss k) (payload ?ss k) s4" "cleared s3 V3 B ?U s4 V4" "dir_node V4 ?ss p k B []"
    using walk_children [OF w(1) h3 w(2-7)] unfolding g3 by blast
  note oc = c(2) [unfolded cleared_def]
  have g4: "sector_size s4 = ?ss" "geo s4 = geo s" using oc geoD(1) [of s4 s3] g3 by simp_all
  have d4: "dir_node V4 (sector_size s4) p k B []" using c(3) g4 by simp
  obtain s5 where s5: "fs_directory_get_reference_count (payload ?ss k) s4 = (0, s5)" "holds s5 V4" "geo s5 = geo s4"
    using node_count [OF _ d4] oc unfolding g4 by auto
  have g5: "sector_size s5 = ?ss" using geoD(1) [OF s5(3)] g4 by simp
  have d5: "dir_node V4 (sector_size s5) p k B []" using c(3) g5 by simp
  obtain s6 where s6: "fs_directory_delete (payload ?ss k) s5 = (True, s6)" "holds s6 (V4 |` (- B))" "geo s6 = geo s5"
    using node_delete [OF s5(2) d5] unfolding g5 by blast
  obtain m where m: "unat (fs_directory_walk_limit s3 * 4) = sum_list (map cost cs) + Suc m"
    using lim by (metis (no_types) add_2_eq_Suc cost.simps(2) le_Suc_ex add_Suc_right add.commute add_Suc)
  have "recursive_loop (unat (fs_directory_walk_limit s3 * 4)) (payload ?ss k) (payload ?ss k) s3 = Some (True, s6)"
    unfolding m using c(1) [rule_format, of "Suc m"] s5(1) s6(1) by simp
  then have "fs_directory_delete_recursive (payload ?ss k) (payload ?ss q) s = Some (True, s6)"
    using a s1(1) s2(1) part(2) partition_geo [OF s1(3)] q r(1) by (simp add: fs_directory_delete_recursive_def)
  moreover have V6: "(V4 |` (- B)) i = V3 i" if "i \<notin> foot ?n" for i using oc that by (simp add: restrict_map_def)
  have "dir_at (V4 |` (- B)) ?ss q d3 rs3 es3"
  proof (subst dir_at_cong [of q es3 _ V3])
    fix i assume "i \<in> dir_blocks q es3"
    then have "i \<notin> foot ?n" using o par(2) by blast
    then show "(V4 |` (- B)) i = V3 i" by (rule V6)
  qed (use o g2 in simp)
  moreover have "cleared s V (dir_blocks q es) (foot ?n) s6 (V4 |` (- B))"
    using s6(2,3) s5(3) g4 oc o V6 par(2) by (auto simp: cleared_def restrict_map_def)
  ultimately show ?thesis using o by blast
qed

end
