(* ===== verification/FsDirSpec.thy ===== *)
theory FsDirSpec
  imports FsDirTree
begin

text \<open>
  Creating files and directories inside a directory, searching by name, and the properties of the
  directory layer with concrete directories on a freshly formatted device.
\<close>

section \<open>Room depends on the live blocks only\<close>

lemma no_room_live:
  assumes "holds s V" "holds s' V'" "geo s' = geo s" "live_of V' = live_of V"
  shows "no_room s' z = no_room s z"
proof -
  note g = geoD [OF assms(3)]
  have b: "fs_blocks z s' = fs_blocks z s" for z using g by (simp add: fs_blocks_def)
  have used: "fs_bit i s' = fs_bit i s" if "fs_lo s \<le> i" "i < fs_cap s" for i
    using alloc_inv_used [OF holdsD(4) [OF assms(1)] that] alloc_inv_used [OF holdsD(4) [OF assms(2)], of i] that g
    unfolding covered_def assms(4) by (simp add: b)
  have "free_run (\<lambda>i. fs_bit i s') k n = free_run (\<lambda>i. fs_bit i s) k n" if "fs_lo s \<le> k" "k + n \<le> fs_cap s" for k n
    using used that by (intro free_run_cong) simp
  then show ?thesis using g by (simp add: no_room_def b)
qed

section \<open>Linking a fresh block\<close>

definition linked :: "fsdev \<Rightarrow> u32 \<Rightarrow> u32 list \<Rightarrow> (nat \<times> u32 list) list \<Rightarrow> u32 list \<Rightarrow> (nat \<times> u32 list) list \<Rightarrow> bool" where
  "linked s a rs es rs' es' \<longleftrightarrow>
     a \<in> set (entries rs' es') \<and> set (entries rs' es') = insert a (set (entries rs es))
     \<or> a \<notin> set (entries rs es) \<and> rs' = rs \<and> es' = es \<and> no_room s 60"

lemma add_parent:
  assumes h: "holds s V" and d: "dir_at V (sector_size s) q dq rs es" and k: "V k = None"
    and t: "holds s1 (V(k \<mapsto> x))" "geo s1 = geo s"
  obtains s2 V2 d2 rs2 es2 where "snd (fs_directory_add_reference (payload (sector_size s) q) (payload (sector_size s) k) s1) = s2"
    "holds s2 V2" "geo s2 = geo s" "V2 k = Some x" "k \<notin> dir_blocks q es2" "dir_at V2 (sector_size s) q d2 rs2 es2"
    "kept V V2 (dir_blocks q es)" "linked s2 (payload (sector_size s) k) rs es rs2 es2"
proof -
  let ?ss = "sector_size s" and ?a = "payload (sector_size s) k" and ?V1 = "V(k \<mapsto> x)"
  note g1 = geoD(1) [OF t(2)]
  have kq: "k \<notin> dir_blocks q es"
    using k d dseg_dom [of V ?ss "payload ?ss q" "dh_next dq" es FS_NULL] by (auto simp: dir_blocks_def dir_at_def)
  have d1: "dir_at ?V1 (sector_size s1) q dq rs es" using d g1 kq by (subst dir_at_cong [of q es ?V1 V]) auto
  have a: "?a \<noteq> FS_NULL" using block_bounds(8) [OF t(1), of k x] g1 by simp
  obtain code s2 V2 d2 rs2 es2 where r: "fs_directory_add_reference (payload (sector_size s1) q) ?a s1 = (code, s2)"
    "add_outcome s1 ?V1 q dq rs es ?a code s2 V2 d2 rs2 es2"
    using add_reference_full [OF t(1) d1 a] by blast
  note o = r(2) [unfolded add_outcome_def dir_changed_def]
  have "V2 k = Some x" using o kq by (auto dest: keptD [of ?V1 V2 _ k x])
  moreover have "k \<notin> dir_blocks q es2" using o kq by (metis DiffI fun_upd_same option.distinct(1))
  moreover have "kept V V2 (dir_blocks q es)" using o k by (auto simp: kept_def)
  moreover have "linked s2 ?a rs es rs2 es2"
  proof -
    have "set (entries rs2 es2) = insert ?a (set (entries rs es))" if "mset (entries rs2 es2) = mset (entries rs es) + {#?a#}"
      using arg_cong [OF that, of set_mset] by simp
    then show ?thesis using o by (auto simp: linked_def)
  qed
  ultimately show thesis using that [of s2 V2 es2 d2 rs2] r(1) o t(2) g1 by simp
qed

section \<open>Creating a directory\<close>

text \<open>Every outcome of a creation that asked for the header block \<open>k\<close> below the directory at \<open>q\<close>.\<close>

definition below :: "fsdev \<Rightarrow> store \<Rightarrow> nat \<Rightarrow> u32 list \<Rightarrow> (nat \<times> u32 list) list \<Rightarrow> nat \<Rightarrow> fsdev \<Rightarrow> store
    \<Rightarrow> fs_dir_header \<Rightarrow> u32 list \<Rightarrow> (nat \<times> u32 list) list \<Rightarrow> bool" where
  "below s V q rs es k s' V' dq' rs' es' \<longleftrightarrow>
     holds s' V' \<and> geo s' = geo s \<and> V k = None \<and> dir_at V' (sector_size s) q dq' rs' es' \<and> k \<notin> dir_blocks q es'
     \<and> kept V V' (dir_blocks q es)"

lemma directory_create_full:
  assumes h: "holds s V" and d: "dir_at V (sector_size s) q dq rs es" and ss: "fs_sector s + 8192 < 4294967296"
    and nm: "terminated nm \<or> 15 \<le> length nm"
  shows "(\<exists>s'. fs_directory_create nm perm (payload (sector_size s) q) s = Some (FS_NULL, s') \<and> holds s' V \<and> geo s' = geo s
           \<and> no_room s' 144)
    \<or> (\<exists>k d s' V' dq' rs' es'. fs_directory_create nm perm (payload (sector_size s) q) s = Some (payload (sector_size s) k, s')
         \<and> below s V q rs es k s' V' dq' rs' es' \<and> linked s' (payload (sector_size s) k) rs es rs' es'
         \<and> dir_at V' (sector_size s) k d [] [] \<and> dh_parent d = payload (sector_size s) q \<and> bh_permissions (dh_block d) = perm)"
proof -
  let ?ss = "sector_size s"
  have z: "DIR_HEADER + 96 = (144 :: u32)" by (simp add: DIR_HEADER_def)
  have al: "unat (144 :: u32) + 4 + fs_sector s < 4294967296" using ss by simp
  obtain nb where nb: "new_name nm = Some nb" "length nb = 16" using new_name_eq [OF nm] by metis
  have q: "payload ?ss q \<noteq> FS_NULL" using d block_bounds(8) [OF h] by (auto simp: dir_at_def)
  show ?thesis
  proof (cases rule: store_alloc [OF h al])
    case none: (1 s')
    then have "fs_directory_create nm perm (payload ?ss q) s = Some (FS_NULL, s')" by (simp add: fs_directory_create_def z)
    then show ?thesis using none(2,3) alloc_fails [OF h al none(1)] by blast
  next
    case some: (2 k s1 x)
    define n where "n = \<lparr>dh_block = new_block nb FS_ATTRIBUTE_DIRECTORY perm, dh_parent = payload ?ss q, dh_next = FS_NULL,
      dh_prev = FS_NULL, dh_count = 0\<rparr>"
    have n: "block_header_wf (dh_block n)" "bh_attributes (dh_block n) AND FS_ATTRIBUTE_DIRECTORY \<noteq> 0" "dh_count n = 0"
      "dh_next n = FS_NULL" "dh_parent n = payload ?ss q" "bh_permissions (dh_block n) = perm"
      using nb by (simp_all add: n_def new_block_def block_header_wf_def FS_ATTRIBUTE_DIRECTORY_def)
    obtain s2 V2 d2 rs2 es2 where r: "snd (fs_directory_add_reference (payload ?ss q) (payload ?ss k) s1) = s2"
      "holds s2 V2" "geo s2 = geo s" "V2 k = Some x" "k \<notin> dir_blocks q es2" "dir_at V2 ?ss q d2 rs2 es2"
      "kept V V2 (dir_blocks q es)" "linked s2 (payload ?ss k) rs es rs2 es2"
      by (rule add_parent [OF h d some(2,4,5)])
    have len: "length x = 144" using some(3) by simp
    let ?s3 = "fs_directory_header_write (payload ?ss k) n s2" and ?V3 = "V2(k \<mapsto> dir_header_bytes n @ drop 48 x)"
    have "0 + length (dir_header_bytes n) \<le> length x" using len n(1) by simp
    note w = payload_write [OF r(2,4) this]
    have p: "patch 0 (dir_header_bytes n) x = dir_header_bytes n @ drop 48 x" using n(1) by (simp add: patch_def)
    have w3: "holds ?s3 ?V3" "geo ?s3 = geo s"
      using w r(3) geoD(1) [OF r(3)] unfolding p fs_directory_header_write_def by simp_all
    have "fs_directory_create nm perm (payload ?ss q) s = Some (payload ?ss k, ?s3)"
      using some(1,6) nb(1) q r(1) by (simp add: fs_directory_create_def z n_def)
    moreover have "dir_at ?V3 ?ss q d2 rs2 es2" using r(5,6) by (subst dir_at_cong [of q es2 ?V3 V2]) auto
    moreover have "kept V ?V3 (dir_blocks q es)" using r(7) some(2) by (simp add: kept_def)
    moreover have "dir_at ?V3 ?ss k n [] []" using n by (simp add: dir_at_def)
    moreover have "live_of ?V3 = live_of V2" using len n(1) by (intro live_of_same [where V = V2, OF r(4)]) simp
    then have "linked ?s3 (payload ?ss k) rs es rs2 es2"
      using r(8) no_room_live [OF r(2) w3(1)] w3(2) r(3) by (simp add: linked_def)
    ultimately show ?thesis using w3 some(2) n(5,6) r(5) unfolding below_def by blast
  qed
qed

section \<open>Creating a file in a directory\<close>


section \<open>Searching by name\<close>

text \<open>\<open>named V ss w r\<close>: \<open>r\<close> is the address of a live block whose stored name, at most 15 characters, is \<open>w\<close>.\<close>

definition named :: "store \<Rightarrow> u32 \<Rightarrow> u8 list \<Rightarrow> u32 \<Rightarrow> bool" where
  "named V ss w r \<longleftrightarrow> (\<exists>j x. r = payload ss j \<and> V j = Some x \<and> cstr (take 15 x) = w)"

definition entry_ok :: "store \<Rightarrow> u32 \<Rightarrow> u32 \<Rightarrow> bool" where
  "entry_ok V ss r \<longleftrightarrow> (\<exists>j x. r = payload ss j \<and> V j = Some x \<and> 32 \<le> length x)"

lemma name_matches_full:
  assumes h: "holds s V" and r: "entry_ok V (sector_size s) r" and nm: "terminated nm"
  shows "\<exists>s1. fs_directory_name_matches r nm s = Some (named V (sector_size s) (cstr nm) r, s1) \<and> holds s1 V \<and> geo s1 = geo s"
proof -
  obtain j x where x: "r = payload (sector_size s) j" "V j = Some x" "32 \<le> length x" using r by (auto simp: entry_ok_def)
  have ne: "r \<noteq> FS_NULL" using block_bounds(8) [OF h x(2)] x(1) by simp
  obtain s1 where s1: "fs_mem_read r 32 s = (take 32 x, s1)" "holds s1 V" "geo s1 = geo s"
    using payload_read [OF h x(2), of 0 32] x(1,3) by auto
  let ?st = "cstr (take 15 x) @ [0]"
  have get: "fs_file_get_name r s = (Some ?st, s1)"
    using ne s1(1) x(3) by (simp add: fs_file_get_name_def bytes_block_header_def FS_NAME_LENGTH_MAX_def)
  have st: "terminated ?st" by simp
  obtain c where c: "strcmp ?st nm = Some c" using strcmp_total [OF st nm] by blast
  have "cstr ?st = cstr (take 15 x)" by (subst takeWhile_append2) (auto dest: set_takeWhileD)
  then have "c = 0 \<longleftrightarrow> cstr (take 15 x) = cstr nm" using strcmp_zero_iff [OF st nm] unfolding c by simp
  also have "\<dots> \<longleftrightarrow> named V (sector_size s) (cstr nm) r"
  proof
    assume "named V (sector_size s) (cstr nm) r"
    then obtain i y where y: "r = payload (sector_size s) i" "V i = Some y" "cstr (take 15 y) = cstr nm"
      by (auto simp: named_def)
    have "i = j" using payload_inject [OF h x(2) y(2)] x(1) y(1) by simp
    then show "cstr (take 15 x) = cstr nm" using x(2) y(2,3) by simp
  qed (use x in \<open>auto simp: named_def\<close>)
  finally have "fs_directory_name_matches r nm s = Some (named V (sector_size s) (cstr nm) r, s1)"
    using get c by (simp add: fs_directory_name_matches_def)
  then show ?thesis using s1(2,3) by blast
qed

lemma find_refs_image:
  assumes "holds s V" "V k = Some (A @ refs_bytes rs @ slack)" "\<forall>i \<in> set is'. i < length rs"
    "\<forall>r \<in> set rs. entry_ok V (sector_size s) r" "terminated nm"
  shows "\<exists>s1. find_refs (payload (sector_size s) k + of_nat (length A)) nm is' s
      = Some (find (named V (sector_size s) (cstr nm)) (map ((!) rs) is'), s1) \<and> holds s1 V \<and> geo s1 = geo s"
  using assms
proof (induction is' arbitrary: s)
  case (Cons i is')
  let ?ss = "sector_size s" and ?b = "payload (sector_size s) k + of_nat (length A)"
  obtain s1 where r: "ref_read ?b i s = (rs ! i, s1)" "holds s1 V" "geo s1 = geo s"
    using ref_read_image [OF Cons.prems(1,2), of i] Cons.prems(3) by auto
  note g1 = geoD(1) [OF r(3)]
  have ok: "entry_ok V (sector_size s1) (rs ! i)" using Cons.prems(3,4) g1 by simp
  have ne: "rs ! i \<noteq> FS_NULL" using ok block_bounds(8) [OF r(2)] unfolding entry_ok_def by metis
  obtain s2 where m: "fs_directory_name_matches (rs ! i) nm s1 = Some (named V ?ss (cstr nm) (rs ! i), s2)" "holds s2 V" "geo s2 = geo s1"
    using name_matches_full [OF r(2) ok Cons.prems(5)] unfolding g1 by blast
  have g2: "sector_size s2 = ?ss" "geo s2 = geo s" using geoD(1) [OF m(3)] g1 m(3) r(3) by simp_all
  have c: "\<forall>i \<in> set is'. i < length rs" "\<forall>r \<in> set rs. entry_ok V (sector_size s2) r" using Cons.prems(3,4) g2 by simp_all
  note ih = Cons.IH [OF m(2) Cons.prems(2) c Cons.prems(5), unfolded g2]
  show ?case using r(1) ne m g2 ih by (cases "named V ?ss (cstr nm) (rs ! i)") auto
qed simp

lemma find_append: "find P (xs @ ys) = (case find P xs of None \<Rightarrow> find P ys | Some x \<Rightarrow> Some x)"
  by (induction xs) auto

definition addr_or_null :: "u32 option \<Rightarrow> u32" where
  "addr_or_null r = (case r of None \<Rightarrow> FS_NULL | Some x \<Rightarrow> x)"

lemma dir_find_loop_dseg:
  assumes "holds s V" "dseg V (sector_size s) p a es FS_NULL" "length es \<le> g"
    "\<forall>r \<in> set (entries [] es). entry_ok V (sector_size s) r" "terminated nm"
  shows "\<exists>s1. dir_find_loop g a nm s = Some (addr_or_null (find (named V (sector_size s) (cstr nm)) (entries [] es)), s1)
    \<and> holds s1 V \<and> geo s1 = geo s"
  using assms
proof (induction es arbitrary: p a g s)
  case Nil
  then show ?case by (subst dir_find_loop.simps) (simp add: addr_or_null_def)
next
  case (Cons ke es)
  obtain k rs where ke: "ke = (k, rs)" by (cases ke)
  obtain g' where g: "g = Suc g'" "length es \<le> g'" using Cons.prems(3) by (cases g) auto
  let ?ss = "sector_size s" and ?P = "named V (sector_size s) (cstr nm)"
  obtain e slack s1 where e: "a = payload ?ss k" "a \<noteq> FS_NULL" "V k = Some (dir_extent_bytes e @ refs_bytes rs @ slack)"
    "unat (de_count e) = length rs" "dseg V ?ss a (de_next e) es FS_NULL"
    "fs_directory_extent_read a s = (Some e, s1)" "holds s1 V" "geo s1 = geo s" "sector_size s1 = ?ss"
    using dseg_step [OF Cons.prems(1) Cons.prems(2) [unfolded ke]] by metis
  have ok: "\<forall>r \<in> set rs. entry_ok V (sector_size s1) r" using Cons.prems(4) e(9) by (simp add: ke entries_def)
  have idx: "\<forall>i \<in> set [0..<length rs]. i < length rs" by simp
  obtain s2 where s2: "find_refs (a + DIR_EXTENT) nm [0..<length rs] s1 = Some (find ?P rs, s2)" "holds s2 V" "geo s2 = geo s1"
    using find_refs_image [OF e(7,3) idx ok Cons.prems(5)]
    unfolding dir_bases length_dir_extent_bytes map_nth e(9) e(1) [symmetric] by blast
  have g2: "sector_size s2 = ?ss" "geo s2 = geo s" using geoD(1) [OF s2(3)] e(8,9) s2(3) by simp_all
  show ?case
  proof (cases "find ?P rs")
    case None
    have c: "dseg V (sector_size s2) a (de_next e) es FS_NULL" "\<forall>r \<in> set (entries [] es). entry_ok V (sector_size s2) r"
      using e(5) g2 Cons.prems(4) by (simp_all add: ke entries_def)
    have "dir_find_loop g a nm s = dir_find_loop g' (de_next e) nm s2"
      using e(2,4,6) s2(1) None by (subst dir_find_loop.simps) (simp add: g)
    moreover have "find ?P (entries [] (ke # es)) = find ?P (entries [] es)"
      using None by (simp add: ke entries_def find_append)
    ultimately show ?thesis using Cons.IH [OF s2(2) c(1) g(2) c(2) Cons.prems(5)] unfolding g2 by simp
  next
    case (Some r)
    then have "dir_find_loop g a nm s = Some (r, s2)"
      using e(2,4,6) s2(1) by (subst dir_find_loop.simps) (simp add: g)
    then show ?thesis using Some s2(2) g2 by (simp add: ke entries_def find_append addr_or_null_def)
  qed
qed

lemma directory_find_full:
  assumes h: "holds s V" and d: "dir_at V (sector_size s) k d rs es"
    and ok: "\<forall>r \<in> set (entries rs es). entry_ok V (sector_size s) r" and nm: "terminated nm"
  shows "\<exists>s1. fs_directory_find (payload (sector_size s) k) (Some nm) s
      = Some (addr_or_null (find (named V (sector_size s) (cstr nm)) (entries rs es)), s1) \<and> holds s1 V \<and> geo s1 = geo s"
proof -
  let ?ss = "sector_size s" and ?a = "payload (sector_size s) k" and ?P = "named V (sector_size s) (cstr nm)"
  obtain slack s1 where o: "fs_directory_header_read ?a s = (Some d, s1)" "holds s1 V" "geo s1 = geo s" "sector_size s1 = ?ss"
    "V k = Some (dir_header_bytes d @ refs_bytes rs @ slack)" "block_header_wf (dh_block d)" "unat (dh_count d) = length rs"
    "dseg V ?ss ?a (dh_next d) es FS_NULL" "length es < unat (fs_directory_walk_limit s)"
    using dir_open [OF h d] by metis
  have idx: "\<forall>i \<in> set [0..<length rs]. i < length rs" and ok1: "\<forall>r \<in> set rs. entry_ok V (sector_size s1) r"
    using ok o(4) by (simp_all add: entries_def)
  obtain s2 where s2: "find_refs (?a + DIR_HEADER) nm [0..<length rs] s1 = Some (find ?P rs, s2)" "holds s2 V" "geo s2 = geo s1"
    using find_refs_image [OF o(2,5) idx ok1 nm]
    unfolding dir_bases length_dir_header_bytes [OF o(6)] map_nth o(4) by blast
  have g2: "sector_size s2 = ?ss" "geo s2 = geo s" using geoD(1) [OF s2(3)] o(3,4) s2(3) by simp_all
  show ?thesis
  proof (cases "find ?P rs")
    case None
    have c: "dseg V (sector_size s2) ?a (dh_next d) es FS_NULL" "length es \<le> unat (fs_directory_walk_limit s2)"
      "\<forall>r \<in> set (entries [] es). entry_ok V (sector_size s2) r"
      using o(8,9) g2 walk_limit_geo [OF g2(2)] ok by (simp_all add: entries_def)
    have "fs_directory_find ?a (Some nm) s = dir_find_loop (unat (fs_directory_walk_limit s2)) (dh_next d) nm s2"
      using o(1,7) s2(1) None by (simp add: fs_directory_find_def)
    moreover have "find ?P (entries rs es) = find ?P (entries [] es)" using None by (simp add: entries_def find_append)
    ultimately show ?thesis using dir_find_loop_dseg [OF s2(2) c nm] unfolding g2 by simp
  next
    case (Some r)
    then have "fs_directory_find ?a (Some nm) s = Some (r, s2)"
      using o(1,7) s2(1) by (simp add: fs_directory_find_def)
    then show ?thesis using Some s2(2) g2 by (simp add: entries_def find_append addr_or_null_def)
  qed
qed

section \<open>Directories on a freshly formatted device\<close>

lemma small_room_at:
  assumes h: "holds s V" and g: "geo s = geo small_dev" and len: "\<And>k d. V k = Some d \<Longrightarrow> length d \<le> 508"
    and i: "V i = None" "1 \<le> i" "i < 16" and z: "unat z \<le> 508"
  shows "\<not> no_room s z"
proof -
  note g = geoD [OF g]
  have one: "fs_blocks z s = 1" if "unat z \<le> 508" for z
    using that g(4) small_dev_props(5) by (simp add: fs_blocks_def ceil_div_def)
  have "fs_blocks (of_nat (length d)) s = 1" if "V k = Some d" for k d
  proof -
    have "unat (of_nat (length d) :: u32) = length d" using len [OF that] by (intro unat_of_nat_u32) simp
    then show ?thesis using one len [OF that] by simp
  qed
  then have "\<not> covered fs_blocks (live_of V) s i"
    using i(1) by (auto simp: covered_def live_of_def) (metis le_antisym less_Suc_eq_le option.distinct(1) add.commute plus_1_eq_Suc)
  then have "\<not> fs_bit i s"
    using alloc_inv_used [OF holdsD(4) [OF h], of i] g small_dev_props i by simp
  then have "free_run (\<lambda>j. fs_bit j s) i 1" by (auto simp: free_run_def less_Suc_eq_le dest: le_antisym)
  then show ?thesis
    unfolding no_room_def using g small_dev_props i one [OF z] by (intro notI) (force dest: spec [of _ i])
qed

lemma small_partition_of:
  assumes "geo s = geo small_dev"
  shows "p_magic (partition_of s) = FS_MAGIC" "p_root (partition_of s) = 0"
  unfolding partition_geo [OF assms] by (simp_all add: partition_of_def small_partition)

lemma demo_dir:
  obtains s q d x where "holds s [q \<mapsto> x]" "geo s = geo small_dev" "dir_at [q \<mapsto> x] (sector_size s) q d [] []" "length x = 144"
    "bh_name (dh_block d) = 82 # replicate 15 0" "fs_directory_create [82, 0] 6 FS_NULL small_dev = Some (payload (sector_size s) q, s)"
proof -
  have z: "DIR_HEADER + 96 = (144 :: u32)" by (simp add: DIR_HEADER_def)
  have al: "unat (144 :: u32) + 4 + fs_sector small_dev < 4294967296" using small_dev_props by simp
  show thesis
  proof (cases rule: store_alloc [OF small_dev_holds al])
    case none: (1 s')
    then show ?thesis using small_room [OF none(2,3), of 144] alloc_fails [OF small_dev_holds al none(1)] by simp
  next
    case some: (2 k s1 y)
    let ?a = "payload (sector_size small_dev) k"
    define d where "d = \<lparr>dh_block = new_block (82 # replicate 15 0) FS_ATTRIBUTE_DIRECTORY 6, dh_parent = FS_NULL, dh_next = FS_NULL,
      dh_prev = FS_NULL, dh_count = 0\<rparr>"
    have d: "block_header_wf (dh_block d)" "bh_attributes (dh_block d) AND FS_ATTRIBUTE_DIRECTORY \<noteq> 0" "dh_count d = 0"
      "dh_next d = FS_NULL" "bh_name (dh_block d) = 82 # replicate 15 0"
      by (simp_all add: d_def new_block_def block_header_wf_def FS_ATTRIBUTE_DIRECTORY_def)
    have len: "length y = 144" using some(3) by simp
    let ?s2 = "fs_directory_header_write ?a d s1" and ?x = "dir_header_bytes d @ drop 48 y"
    have "[k \<mapsto> y] k = Some y" "0 + length (dir_header_bytes d) \<le> length y" using len d(1) by simp_all
    note w = payload_write [where V = "[k \<mapsto> y]", OF some(4) this]
    have p: "patch 0 (dir_header_bytes d) y = ?x" using d(1) by (simp add: patch_def)
    have w2: "holds ?s2 [k \<mapsto> ?x]" "geo ?s2 = geo small_dev"
      using w some(5) geoD(1) [OF some(5)] unfolding p fs_directory_header_write_def by simp_all
    have "new_name [82, 0] = Some (82 # replicate 15 0)" by (simp add: new_name_def numeral_eq_Suc)
    then have "fs_directory_create [82, 0] 6 FS_NULL small_dev = Some (?a, ?s2)"
      using some(1,6) by (simp add: fs_directory_create_def z d_def)
    moreover have "dir_at [k \<mapsto> ?x] (sector_size ?s2) k d [] []" using d by (auto simp: dir_at_def)
    moreover have "length ?x = 144" using d(1) len by simp
    ultimately show ?thesis using that [OF w2(1,2)] d(5) geoD(1) [OF w2(2)] by simp
  qed
qed

text \<open>The directory with itself as its only entry.\<close>

lemma demo_entry:
  obtains s V q d rs es where "holds s V" "geo s = geo small_dev" "dir_at V (sector_size s) q d rs es"
    "entries rs es = [payload (sector_size s) q]" "bh_name (dh_block d) = 82 # replicate 15 0"
proof (rule demo_dir)
  fix s q d x
  assume h: "holds s [q \<mapsto> x]" "geo s = geo small_dev" "dir_at [q \<mapsto> x] (sector_size s) q d [] []" "length x = 144"
    "bh_name (dh_block d) = 82 # replicate 15 0"
  let ?a = "payload (sector_size s) q"
  have a: "?a \<noteq> FS_NULL" using block_bounds(8) [OF h(1), of q x] by simp
  obtain code s' V' d' rs' es' where "fs_directory_add_reference ?a ?a s = (code, s')"
    and o: "add_outcome s [q \<mapsto> x] q d [] [] ?a code s' V' d' rs' es'"
    using add_reference_full [OF h(1,3) a] by blast
  have g: "geo s' = geo small_dev" using o h(2) by (simp add: add_outcome_def dir_changed_def)
  obtain i where i: "i \<noteq> q" "1 \<le> i" "i < (16 :: nat)" by (rule that [of "if q = 1 then 2 else 1"]) auto
  have len: "length e \<le> 508" if "[q \<mapsto> x] k = Some e" for k e using that h(4) by (auto split: if_splits)
  have Vi: "[q \<mapsto> x] i = None" "unat (60 :: u32) \<le> 508" using i(1) by simp_all
  have "\<not> no_room s' 60" if "V' = [q \<mapsto> x]"
  proof -
    have "holds s' [q \<mapsto> x]" using o that by (simp add: add_outcome_def dir_changed_def)
    from small_room_at [OF this g len Vi(1) i(2,3) Vi(2)] show ?thesis .
  qed
  then have "mset (entries rs' es') = {#?a#}" using o by (auto simp: add_outcome_def)
  then have "entries rs' es' = [?a]" by simp
  then show thesis using that [of s' V' q d' rs' es'] o g h(2,5) geoD(1) [of s' s] by (simp add: add_outcome_def dir_changed_def)
qed

text \<open>A directory inside another one.\<close>

lemma demo_tree:
  obtains s V q k dq rs es d where "holds s V" "geo s = geo small_dev" "dir_at V (sector_size s) q dq rs es" "k \<notin> dir_blocks q es"
    "dir_at V (sector_size s) k d [] []"
proof (rule demo_dir)
  fix s q d x
  assume h: "holds s [q \<mapsto> x]" "geo s = geo small_dev" "dir_at [q \<mapsto> x] (sector_size s) q d [] []" "length x = 144"
  have ss: "fs_sector s + 8192 < 4294967296" using geoD(4) [OF h(2)] small_dev_props by simp
  obtain i where i: "i \<noteq> q" "1 \<le> i" "i < (16 :: nat)" by (rule that [of "if q = 1 then 2 else 1"]) auto
  have len: "length e \<le> 508" if "[q \<mapsto> x] k = Some e" for k e using that h(4) by (auto split: if_splits)
  have Vi: "[q \<mapsto> x] i = None" "unat (144 :: u32) \<le> 508" using i(1) by simp_all
  have room: "\<not> no_room s' 144" if "holds s' [q \<mapsto> x]" "geo s' = geo s" for s'
    using small_room_at [OF that(1) _ len Vi(1) i(2,3) Vi(2)] that(2) h(2) by simp
  have nm: "terminated [65, 0] \<or> 15 \<le> length [65, 0 :: u8]" by simp
  have "\<exists>k e s' V' dq' rs' es'. below s [q \<mapsto> x] q [] [] k s' V' dq' rs' es' \<and> dir_at V' (sector_size s) k e [] []"
    using directory_create_full [OF h(1,3) ss nm, of 6] room by blast
  then obtain k e s' V' dq' rs' es' where b: "below s [q \<mapsto> x] q [] [] k s' V' dq' rs' es'" "dir_at V' (sector_size s) k e [] []"
    by blast
  have "geo s' = geo s" using b(1) by (simp add: below_def)
  then show thesis using that [of s' V' q dq' rs' es' k e] b h(2) geoD(1) [of s' s] by (simp add: below_def)
qed

section \<open>Properties\<close>

text \<open>
  The entries of a directory are a list: \<open>fs_directory_get_reference_count\<close> returns its length,
  \<open>fs_directory_get_reference\<close> the entry at an index, or \<open>FS_NULL\<close> behind the last, across the header and
  all its extents; neither changes the device.
\<close>

theorem directory_lookup:
  assumes "holds s V" "dir_at V (sector_size s) k d rs es"
  shows "(\<exists>s1. fs_directory_get_reference_count (payload (sector_size s) k) s = (of_nat (length (entries rs es)), s1)
      \<and> holds s1 V \<and> geo s1 = geo s)
    \<and> (\<exists>s1. fs_directory_get_reference (payload (sector_size s) k) i s
      = (if unat i < length (entries rs es) then entries rs es ! unat i else FS_NULL, s1) \<and> holds s1 V \<and> geo s1 = geo s)"
  using reference_count_full [OF assms] get_reference_full [OF assms] by blast

theorem directory_lookup_witness:
  "\<exists>s q s1 s2. fs_directory_get_reference_count q s = (1, s1) \<and> fs_directory_get_reference q 0 s = (q, s2)"
proof (rule demo_entry)
  fix s V q d rs es
  assume d: "holds s V" "dir_at V (sector_size s) q d rs es" "entries rs es = [payload (sector_size s) q]"
  have "\<exists>s1 s2. fs_directory_get_reference_count (payload (sector_size s) q) s = (1, s1)
    \<and> fs_directory_get_reference (payload (sector_size s) q) 0 s = (payload (sector_size s) q, s2)"
    using directory_lookup [OF d(1,2), of 0] unfolding d(3) by auto
  then show ?thesis by blast
qed

text \<open>
  C24: \<open>fs_directory_add_reference\<close> either succeeds, and then the entries are what they were, with \<open>r\<close> among
  them, or have gained exactly one \<open>r\<close>, or it returns 4 or 7 and changes nothing, because a further extent
  was needed and no run of free blocks could hold one. The directory stays well formed, keeps its name and
  parent, grows only by blocks that were free, and no block outside it changes.
\<close>

theorem add_reference_correct:
  assumes "holds s V" "dir_at V (sector_size s) k d rs es" "r \<noteq> FS_NULL"
  shows "\<exists>code s' V' d' rs' es'. fs_directory_add_reference (payload (sector_size s) k) r s = (code, s')
    \<and> add_outcome s V k d rs es r code s' V' d' rs' es'"
  by (rule add_reference_full [OF assms])

theorem add_reference_correct_witness:
  "\<exists>s q d x code s' V' d' rs' es'. fs_directory_add_reference (payload (sector_size s) q) 7 s = (code, s')
    \<and> add_outcome s [q \<mapsto> x] q d [] [] 7 code s' V' d' rs' es'"
proof (rule demo_dir)
  fix s q d x
  assume h: "holds s [q \<mapsto> x]" "dir_at [q \<mapsto> x] (sector_size s) q d [] []"
  have "(7 :: u32) \<noteq> FS_NULL" by (simp add: FS_NULL_def)
  from add_reference_correct [OF h this] show ?thesis by blast
qed



text \<open>
  \<open>fs_directory_find\<close> returns the first entry whose stored name equals the name searched for, and
  \<open>FS_NULL\<close> when there is none; it terminates with the device unchanged.
\<close>

theorem directory_find_correct:
  assumes "holds s V" "dir_at V (sector_size s) k d rs es" "\<forall>r \<in> set (entries rs es). entry_ok V (sector_size s) r" "terminated nm"
  shows "\<exists>s1. fs_directory_find (payload (sector_size s) k) (Some nm) s
      = Some (addr_or_null (find (named V (sector_size s) (cstr nm)) (entries rs es)), s1) \<and> holds s1 V \<and> geo s1 = geo s"
  by (rule directory_find_full [OF assms])

theorem directory_find_correct_witness:
  "\<exists>s q s1 s2. q \<noteq> FS_NULL \<and> fs_directory_find q (Some [82, 0]) s = Some (q, s1)
    \<and> fs_directory_find q (Some [83, 0]) s = Some (FS_NULL, s2)"
proof (rule demo_entry)
  fix s :: fsdev and V q d rs es
  let ?ss = "sector_size s" and ?a = "payload (sector_size s) q"
  assume d: "holds s V" "dir_at V ?ss q d rs es" "entries rs es = [?a]" "bh_name (dh_block d) = 82 # replicate 15 0"
  obtain slack where V: "V q = Some (dir_header_bytes d @ refs_bytes rs @ slack)" "block_header_wf (dh_block d)"
    using d(2) by (rule dir_atE)
  have ok: "\<forall>r \<in> set (entries rs es). entry_ok V ?ss r" using V unfolding d(3) by (auto simp: entry_ok_def)
  have nm: "cstr (take 15 (dir_header_bytes d @ refs_bytes rs @ slack)) = [82]"
    using d(4) by (simp add: dir_header_bytes_def block_header_bytes_def)
  have yes: "named V ?ss [82] ?a" using V(1) nm by (auto simp: named_def)
  have no: "\<not> named V ?ss [83] ?a"
  proof
    assume "named V ?ss [83] ?a"
    then obtain j x where j: "?a = payload ?ss j" "V j = Some x" "cstr (take 15 x) = [83]" by (auto simp: named_def)
    have "j = q" using payload_inject [OF d(1) V(1) j(2)] j(1) by simp
    then show False using j V(1) nm by simp
  qed
  have a: "?a \<noteq> FS_NULL" by (rule block_bounds(8) [OF d(1) V(1)])
  have "\<exists>s1. fs_directory_find ?a (Some [82, 0]) s = Some (?a, s1)"
    using directory_find_correct [OF d(1,2) ok, of "[82, 0]"] yes unfolding d(3) by (auto simp: addr_or_null_def)
  moreover have "\<exists>s1. fs_directory_find ?a (Some [83, 0]) s = Some (FS_NULL, s1)"
    using directory_find_full [OF d(1,2) ok, of "[83, 0]"] no unfolding d(3) by (auto simp: addr_or_null_def)
  ultimately show ?thesis using a by blast
qed

text \<open>
  \<open>fs_directory_create\<close> below a directory either returns \<open>FS_NULL\<close> and changes nothing, because no run of
  free blocks holds a header of 24 entries, or returns a block that was free and is now an empty directory
  with the given permissions that names its parent. The parent gains the entry, unless it needed a
  further extent and there was no room for one: then the new directory is returned although no entry
  leads to it. No block outside the parent changes.
\<close>

theorem directory_create_correct:
  assumes "holds s V" "dir_at V (sector_size s) q dq rs es" "fs_sector s + 8192 < 4294967296" "terminated nm \<or> 15 \<le> length nm"
  shows "(\<exists>s'. fs_directory_create nm perm (payload (sector_size s) q) s = Some (FS_NULL, s') \<and> holds s' V \<and> geo s' = geo s
           \<and> no_room s' 144)
    \<or> (\<exists>k d s' V' dq' rs' es'. fs_directory_create nm perm (payload (sector_size s) q) s = Some (payload (sector_size s) k, s')
         \<and> below s V q rs es k s' V' dq' rs' es' \<and> linked s' (payload (sector_size s) k) rs es rs' es'
         \<and> dir_at V' (sector_size s) k d [] [] \<and> dh_parent d = payload (sector_size s) q \<and> bh_permissions (dh_block d) = perm)"
  by (rule directory_create_full [OF assms])

theorem directory_create_correct_witness:
  "\<exists>s q a s'. fs_directory_create [65, 0] 6 q s = Some (a, s')"
proof (rule demo_dir)
  fix s q d x
  assume h: "holds s [q \<mapsto> x]" "geo s = geo small_dev" "dir_at [q \<mapsto> x] (sector_size s) q d [] []"
  have "fs_sector s + 8192 < 4294967296" using geoD(4) [OF h(2)] small_dev_props by simp
  from directory_create_correct [OF h(1,3) this, of "[65, 0]" 6] show ?thesis by auto
qed



text \<open>
  C23: \<open>fs_directory_delete_recursive\<close> applied to a directory whose subtree is sound (files and directories
  that share no block, each directory naming the one above it) returns \<open>True\<close> within its step limit. Every
  block of the subtree is free afterwards, the entry has left the parent, whose other entries keep their
  order, and no other block of the device changes.
\<close>

theorem delete_recursive_correct:
  assumes "holds s V" "4 \<le> fs_sector s"
    and "node_at V (sector_size s) p (DirNode k B cs)" "apart (DirNode k B cs)"
    and "p_magic (partition_of s) = FS_MAGIC" "payload (sector_size s) k \<noteq> p_root (partition_of s)"
    and "dir_at V (sector_size s) q dq rs es" "dir_blocks q es \<inter> foot (DirNode k B cs) = {}"
  shows "\<exists>s' V' d' rs' es'. fs_directory_delete_recursive (payload (sector_size s) k) (payload (sector_size s) q) s = Some (True, s')
    \<and> cleared s V (dir_blocks q es) (foot (DirNode k B cs)) s' V' \<and> dir_at V' (sector_size s) q d' rs' es'
    \<and> entries rs' es' = remove1 (payload (sector_size s) k) (entries rs es)"
  by (rule delete_recursive_full [OF assms])

theorem delete_recursive_correct_witness:
  "\<exists>s V k q s' V'. V k \<noteq> None \<and> fs_directory_delete_recursive (payload (sector_size s) k) q s = Some (True, s')
    \<and> holds s V \<and> holds s' V' \<and> V' k = None"
proof (rule demo_tree)
  fix s V q k dq rs es d
  assume d: "holds s V" "geo s = geo small_dev" "dir_at V (sector_size s) q dq rs es" "k \<notin> dir_blocks q es"
    "dir_at V (sector_size s) k d [] []"
  have live: "V k \<noteq> None" using d(5) by (auto simp: dir_at_def)
  have ss: "4 \<le> fs_sector s" using geoD(4) [OF d(2)] small_dev_props by simp
  have node: "node_at V (sector_size s) (dh_parent d) (DirNode k {k} [])" "apart (DirNode k {k} [])"
    using d(5) unfolding node_at.simps dir_node_def
    by (auto simp: dir_blocks_def intro!: exI [of _ d] exI [of _ "[] :: u32 list"] exI [of _ "[] :: (nat \<times> u32 list) list"])
  note part = small_partition_of [OF d(2)]
  have root: "payload (sector_size s) k \<noteq> p_root (partition_of s)"
    using live block_bounds(4) [OF d(1)] part(2) by fastforce
  have dis: "dir_blocks q es \<inter> foot (DirNode k {k} []) = {}" using d(4) by simp
  from delete_recursive_correct [OF d(1) ss node part(1) root d(3) dis]
  obtain s' V' where "fs_directory_delete_recursive (payload (sector_size s) k) (payload (sector_size s) q) s = Some (True, s')"
    "cleared s V (dir_blocks q es) (foot (DirNode k {k} [])) s' V'" by blast
  then have "fs_directory_delete_recursive (payload (sector_size s) k) (payload (sector_size s) q) s = Some (True, s')"
    "holds s' V'" "V' k = None" by (simp_all add: cleared_def)
  then show ?thesis using live d(1) by blast
qed

end
