(* ===== verification/Vmm.thy ===== *)
theory Vmm
  imports FirstFit
begin

text \<open>
  Physical frames and virtual pages, \<open>kernel/arch/x86/virtual/pmm.c\<close> and \<open>vmm.c\<close>: the bitmap of physical
  frames built from the boot loader's memory map, the page directory with its static page tables, and the
  allocator of pages in the window from \<open>VM_START\<close> to \<open>VM_END\<close>. The public functions run with interrupts
  off, so each is one step. \<open>kernel_crashout\<close> halts the machine; a panic is a value \<open>Inl\<close>. Loading the
  control registers and flushing the translation cache have no effect on this state.
\<close>

unbundle bit_operations_syntax

datatype vm_panic = InvalidMemoryMap | OutOfPages

definition PAGE_SIZE :: u32 where "PAGE_SIZE = 4096"
definition PMM_NO_FRAME :: u32 where "PMM_NO_FRAME = 0xFFFFFFFF"
definition PHYS_BITMAP_WORDS :: nat where "PHYS_BITMAP_WORDS = 32768"
definition MULTIBOOT_MEMORY_AVAILABLE :: u32 where "MULTIBOOT_MEMORY_AVAILABLE = 1"

section \<open>Physical frames\<close>

record pmm =
  pmm_bitmap :: "nat \<Rightarrow> u32"
  total_frames :: u32

text \<open>The fields of \<open>struct MultibootInfo\<close> that are read here, and an entry of the memory map.\<close>

record multiboot_info =
  mb_flags :: u32
  mb_mmap_length :: u32
  mb_mmap_addr :: u32

record mmap_entry =
  me_size :: u32
  me_addr :: u64
  me_len :: u64
  me_type :: u32

definition read_mmap_entry :: "memory \<Rightarrow> u32 \<Rightarrow> mmap_entry" where
  "read_mmap_entry m a =
     \<lparr>me_size = le_word (mem_read m a 4), me_addr = le_word (mem_read m (a + 4) 8),
      me_len = le_word (mem_read m (a + 12) 8), me_type = le_word (mem_read m (a + 20) 4)\<rparr>"

text \<open>One round of the loop over a region: the page at \<open>addr\<close> becomes free.\<close>

definition release_page :: "u32 \<Rightarrow> u64 \<Rightarrow> pmm \<Rightarrow> pmm" where
  "release_page physical_begin addr s =
     (if addr < ucast physical_begin then s
      else let frame = (ucast (drop_bit 12 addr) :: u32);
               s1 = s\<lparr>pmm_bitmap := (pmm_bitmap s)(unat (frame div 32) :=
                       pmm_bitmap s (unat (frame div 32)) AND NOT (2 ^ unat (frame mod 32)))\<rparr>
           in if frame \<ge> total_frames s1 then s1\<lparr>total_frames := frame + 1\<rparr> else s1)"

text \<open>The pages from \<open>aligned_start\<close> below \<open>aligned_end\<close>, both page aligned.\<close>

definition release_region :: "u32 \<Rightarrow> mmap_entry \<Rightarrow> pmm \<Rightarrow> pmm" where
  "release_region physical_begin e s =
     (if me_type e = MULTIBOOT_MEMORY_AVAILABLE
      then let region_end = (if me_addr e + me_len e > 0x100000000 then 0x100000000 else me_addr e + me_len e);
               aligned_start = (me_addr e + 4095) AND NOT 4095;
               aligned_end = region_end AND NOT 4095;
               n = (if aligned_start < aligned_end then unat (aligned_end - aligned_start) div 4096 else 0)
           in fold (\<lambda>i. release_page physical_begin (aligned_start + of_nat i * 4096)) [0..<n] s
      else s)"

text \<open>The walk over the map, which the source does not bound: \<open>None\<close> when it does not end.\<close>

partial_function (option) mmap_walk :: "memory \<Rightarrow> u32 \<Rightarrow> u32 \<Rightarrow> u32 \<Rightarrow> pmm \<Rightarrow> pmm option" where
  "mmap_walk m physical_begin mmap mmap_end s =
     (if mmap < mmap_end
      then let e = read_mmap_entry m mmap
           in mmap_walk m physical_begin (mmap + me_size e + 4) mmap_end (release_region physical_begin e s)
      else Some s)"

declare mmap_walk.simps [code]

definition pmm_init :: "memory \<Rightarrow> multiboot_info option \<Rightarrow> u32 \<Rightarrow> pmm \<Rightarrow> (vm_panic + pmm) option" where
  "pmm_init m mbi physical_begin s =
     (let s1 = s\<lparr>pmm_bitmap := \<lambda>i. 0xFFFFFFFF\<rparr>
      in case mbi of
           None \<Rightarrow> Some (Inl InvalidMemoryMap)
         | Some b \<Rightarrow>
             if mb_flags b AND 2 ^ 6 = 0 then Some (Inl InvalidMemoryMap)
             else map_option Inr (mmap_walk m physical_begin (mb_mmap_addr b) (mb_mmap_addr b + mb_mmap_length b) s1))"

text \<open>The two nested loops of the frame allocator.\<close>

fun frame_scan :: "nat list \<Rightarrow> pmm \<Rightarrow> u32 \<times> pmm" where
  "frame_scan [] s = (PMM_NO_FRAME, s)"
| "frame_scan (i # is') s =
     (if pmm_bitmap s i = 0xFFFFFFFF then frame_scan is' s
      else case find (\<lambda>b. pmm_bitmap s i AND 2 ^ b = 0) [0..<32] of
             None \<Rightarrow> frame_scan is' s
           | Some b \<Rightarrow> ((of_nat i * 32 + of_nat b) * PAGE_SIZE,
                         s\<lparr>pmm_bitmap := (pmm_bitmap s)(i := pmm_bitmap s i OR 2 ^ b)\<rparr>))"

definition pmm_alloc_frame :: "pmm \<Rightarrow> u32 \<times> pmm" where
  "pmm_alloc_frame s = frame_scan [0..<PHYS_BITMAP_WORDS] s"

definition pmm_free_frame :: "u32 \<Rightarrow> pmm \<Rightarrow> pmm" where
  "pmm_free_frame phys_addr s =
     (let frame = phys_addr div PAGE_SIZE
      in if frame < total_frames s
         then s\<lparr>pmm_bitmap := (pmm_bitmap s)(unat (frame div 32) :=
                pmm_bitmap s (unat (frame div 32)) AND NOT (2 ^ unat (frame mod 32)))\<rparr>
         else s)"

section \<open>Page tables\<close>

definition VM_START :: u32 where "VM_START = 0x10000000"
definition VM_END :: u32 where "VM_END = 0x20000000"
definition VIRT_PAGES :: nat where "VIRT_PAGES = 65536"

definition VM_PRESENT :: u32 where "VM_PRESENT = 1"
definition VM_READWRITE :: u32 where "VM_READWRITE = 2"
definition VM_PWT :: u32 where "VM_PWT = 8"
definition VM_PCD :: u32 where "VM_PCD = 16"

text \<open>\<open>tables_address\<close> is where the static page tables lie, a page for each.\<close>

record vmm =
  virt_bitmap :: "nat \<Rightarrow> u8"
  page_directory :: "nat \<Rightarrow> u32"
  static_page_tables :: "nat \<Rightarrow> nat \<Rightarrow> u32"
  tables_address :: u32
  vm_wc_flags :: u32
  vm_wc_available :: bool
  frames :: pmm

definition pd_index :: "u32 \<Rightarrow> nat" where "pd_index v = unat (drop_bit 22 v)"
definition pt_index :: "u32 \<Rightarrow> nat" where "pt_index v = unat (drop_bit 12 v AND 0x3FF)"

definition table_entry :: "nat \<Rightarrow> vmm \<Rightarrow> u32" where
  "table_entry pd s = (tables_address s + of_nat pd * 4096) OR VM_PRESENT OR VM_READWRITE"

text \<open>Whether the processor has a page attribute table is \<open>has_pat\<close>.\<close>

definition vmm_pat_init :: "bool \<Rightarrow> vmm \<Rightarrow> vmm" where
  "vmm_pat_init has_pat s =
     (if \<not> has_pat then s else s\<lparr>vm_wc_flags := VM_PRESENT OR VM_READWRITE OR VM_PWT, vm_wc_available := True\<rparr>)"

definition vmm_get_write_combining_flags :: "vmm \<Rightarrow> u32" where
  "vmm_get_write_combining_flags s = vm_wc_flags s"

definition vmm_has_write_combining :: "vmm \<Rightarrow> bool" where
  "vmm_has_write_combining s = vm_wc_available s"

definition identity_address :: "nat \<Rightarrow> nat \<Rightarrow> u32" where
  "identity_address pd pt = of_nat pd * 1024 * PAGE_SIZE + of_nat pt * PAGE_SIZE"

definition vmm_init :: "bool \<Rightarrow> u32 \<Rightarrow> vmm \<Rightarrow> vmm" where
  "vmm_init has_pat identity_map_size s =
     vmm_pat_init has_pat (s\<lparr>
       virt_bitmap := \<lambda>i. 0,
       static_page_tables := \<lambda>pd pt.
         if pd < 1024 \<and> pt < 1024 \<and> identity_address pd pt < identity_map_size
         then identity_address pd pt OR VM_PRESENT OR VM_READWRITE else 0,
       page_directory := \<lambda>pd.
         if pd < 1024 \<and> list_ex (\<lambda>pt. identity_address pd pt < identity_map_size) [0..<1024]
         then table_entry pd s else 0\<rparr>)"

definition vmm_unmap_page :: "u32 \<Rightarrow> vmm \<Rightarrow> vmm" where
  "vmm_unmap_page v s =
     (if page_directory s (pd_index v) AND VM_PRESENT \<noteq> 0
      then s\<lparr>static_page_tables := (static_page_tables s)(pd_index v := (static_page_tables s (pd_index v))(pt_index v := 0))\<rparr>
      else s)"

definition vmm_map_page :: "u32 \<Rightarrow> u32 \<Rightarrow> u32 \<Rightarrow> vmm \<Rightarrow> vmm" where
  "vmm_map_page p v flags s =
     (let s1 = (if page_directory s (pd_index v) AND VM_PRESENT = 0
                then s\<lparr>page_directory := (page_directory s)(pd_index v := table_entry (pd_index v) s)\<rparr> else s)
      in s1\<lparr>static_page_tables := (static_page_tables s1)(pd_index v :=
              (static_page_tables s1 (pd_index v))(pt_index v := (p AND NOT 0xFFF) OR flags))\<rparr>)"

definition vmm_map_hardware_region :: "u32 \<Rightarrow> u32 \<Rightarrow> u32 \<Rightarrow> u32 \<Rightarrow> vmm \<Rightarrow> vmm" where
  "vmm_map_hardware_region phys_addr virt_addr sz flags s =
     (let page_offset = phys_addr AND (PAGE_SIZE - 1);
          start_phys = phys_addr AND NOT (PAGE_SIZE - 1);
          start_virt = virt_addr AND NOT (PAGE_SIZE - 1);
          num_pages = (sz + page_offset + (PAGE_SIZE - 1)) div PAGE_SIZE
      in fold (\<lambda>i. vmm_map_page (start_phys + of_nat i * PAGE_SIZE) (start_virt + of_nat i * PAGE_SIZE) flags)
           [0..<unat num_pages] s)"

definition vmm_get_phys_addr :: "u32 \<Rightarrow> vmm \<Rightarrow> u32" where
  "vmm_get_phys_addr v s =
     (if page_directory s (pd_index v) AND VM_PRESENT = 0 then 0
      else let pte = static_page_tables s (pd_index v) (pt_index v)
           in if pte AND VM_PRESENT = 0 then 0 else (pte AND NOT 0xFFF) + (v AND 0xFFF))"

text \<open>The first page, in the order of addresses, that is mapped to the frame.\<close>

definition vmm_get_virt_addr :: "u32 \<Rightarrow> vmm \<Rightarrow> u32" where
  "vmm_get_virt_addr p s =
     (case find (\<lambda>(pd, pt). page_directory s pd AND VM_PRESENT \<noteq> 0 \<and> static_page_tables s pd pt AND VM_PRESENT \<noteq> 0
                  \<and> static_page_tables s pd pt AND NOT 0xFFF = p AND NOT 0xFFF)
             (List.product [0..<1024] [0..<1024]) of
        None \<Rightarrow> 0
      | Some (pd, pt) \<Rightarrow> push_bit 22 (of_nat pd) OR push_bit 12 (of_nat pt) OR (p AND 0xFFF))"

section \<open>Virtual pages\<close>

definition page_used :: "nat \<Rightarrow> vmm \<Rightarrow> bool" where
  "page_used i s \<longleftrightarrow> virt_bitmap s (i div 8) AND 2 ^ (i mod 8) \<noteq> 0"

definition page_set :: "nat \<Rightarrow> vmm \<Rightarrow> vmm" where
  "page_set i s = s\<lparr>virt_bitmap := (virt_bitmap s)(i div 8 := virt_bitmap s (i div 8) OR 2 ^ (i mod 8))\<rparr>"

definition page_clear :: "nat \<Rightarrow> vmm \<Rightarrow> vmm" where
  "page_clear i s = s\<lparr>virt_bitmap := (virt_bitmap s)(i div 8 := virt_bitmap s (i div 8) AND NOT (2 ^ (i mod 8)))\<rparr>"

text \<open>The loop of \<open>find_contiguous_bits\<close>, over the bits that are left; \<open>None\<close> is \<open>-1\<close>.\<close>

fun contiguous_loop :: "u32 \<Rightarrow> vmm \<Rightarrow> nat list \<Rightarrow> u32 \<Rightarrow> nat \<Rightarrow> nat option" where
  "contiguous_loop num_bits s [] count start = None"
| "contiguous_loop num_bits s (i # is') count start =
     (if \<not> page_used i s
      then let start' = (if count = 0 then i else start); count' = count + 1
           in if count' = num_bits then Some start' else contiguous_loop num_bits s is' count' start'
      else contiguous_loop num_bits s is' 0 0)"

definition find_contiguous_bits :: "u32 \<Rightarrow> vmm \<Rightarrow> nat option" where
  "find_contiguous_bits num_bits s = contiguous_loop num_bits s [0..<VIRT_PAGES] 0 0"

definition page_addr :: "nat \<Rightarrow> u32" where
  "page_addr i = VM_START + of_nat i * PAGE_SIZE"

text \<open>
  The loop of \<open>vmm_free_pages\<close> from page \<open>i\<close> of the window on; \<open>None\<close> when it leaves the bitmap.
\<close>

fun free_pages_loop :: "nat \<Rightarrow> nat \<Rightarrow> vmm \<Rightarrow> vmm option" where
  "free_pages_loop 0 i s = Some s"
| "free_pages_loop (Suc n) i s =
     (if VIRT_PAGES \<le> i then None
      else let v = page_addr i; pte = static_page_tables s (pd_index v) (pt_index v);
               s1 = (if pte AND VM_PRESENT \<noteq> 0 then s\<lparr>frames := pmm_free_frame (pte AND NOT 0xFFF) (frames s)\<rparr> else s)
           in free_pages_loop n (Suc i) (page_clear i (vmm_unmap_page v s1)))"

definition vmm_free_pages :: "u32 \<Rightarrow> u32 \<Rightarrow> vmm \<Rightarrow> vmm option" where
  "vmm_free_pages virtual_addr num_pages s =
     (let v = virtual_addr AND NOT 0xFFF
      in if v < VM_START \<or> v \<ge> VM_END then Some s
         else free_pages_loop (unat num_pages) (unat ((v - VM_START) div PAGE_SIZE)) s)"

fun alloc_pages_loop :: "nat \<Rightarrow> nat \<Rightarrow> vmm \<Rightarrow> vmm option" where
  "alloc_pages_loop 0 i s = Some s"
| "alloc_pages_loop (Suc n) i s =
     (let (phys_frame, p) = pmm_alloc_frame (frames s); s1 = s\<lparr>frames := p\<rparr>
      in if phys_frame = PMM_NO_FRAME then None
         else alloc_pages_loop n (Suc i) (page_set i (vmm_map_page phys_frame (page_addr i) (VM_PRESENT OR VM_READWRITE) s1)))"

text \<open>When the frames run out the pages mapped so far are released again, and the kernel halts.\<close>

definition vmm_alloc_pages :: "u32 \<Rightarrow> vmm \<Rightarrow> vm_panic + u32 \<times> vmm" where
  "vmm_alloc_pages num_pages s =
     (case find_contiguous_bits num_pages s of
        None \<Rightarrow> Inl OutOfPages
      | Some k \<Rightarrow>
          (case alloc_pages_loop (unat num_pages) k s of
             None \<Rightarrow> Inl OutOfPages
           | Some s' \<Rightarrow> Inr (page_addr k, s')))"

definition vmm_map_mmio_region :: "u32 \<Rightarrow> u32 \<Rightarrow> u32 \<Rightarrow> vmm \<Rightarrow> u32 \<times> vmm" where
  "vmm_map_mmio_region phys_addr size_bytes flags s =
     (let page_offset = phys_addr AND (PAGE_SIZE - 1);
          start_phys = phys_addr AND NOT (PAGE_SIZE - 1);
          num_pages = (size_bytes + page_offset + (PAGE_SIZE - 1)) div PAGE_SIZE
      in case find_contiguous_bits num_pages s of
           None \<Rightarrow> (0, s)
         | Some k \<Rightarrow>
             (page_addr k + page_offset,
              fold (\<lambda>i t. page_set (k + i) (vmm_map_page (start_phys + of_nat i * PAGE_SIZE) (page_addr (k + i)) flags t))
                [0..<unat num_pages] s))"

end
