(* ===== verification/Slab.thy ===== *)
theory Slab
  imports Vmm
begin

text \<open>
  The slab allocator and \<open>malloc\<close>, \<open>kernel/arch/x86/slab.c\<close> and \<open>malloc.c\<close>. A slab page begins with its header
  (free list, count, next page, owning cache); the free slots are linked through their first word and
  poisoned with \<open>0xAA\<close> behind it. Memory is indexed by virtual address, which isolation of live pages
  justifies. Corruption that the code detects and an exhausted page allocator are panics, \<open>Inl\<close>; \<open>None\<close> is
  a walk of a list that does not end, or a release of pages that runs past the window.
\<close>

unbundle bit_operations_syntax

datatype slab_panic = SegFault u32 | DoubleFree u32 | VmPanic vm_panic

text \<open>
  The six caches of \<open>malloc\<close> lie at \<open>malloc_caches\<close>, 8 bytes apart; their fields are keyed by address.
\<close>

record slab =
  smem :: memory
  svm :: vmm
  object_sizes :: "u32 \<Rightarrow> u32"
  page_lists :: "u32 \<Rightarrow> u32"
  malloc_caches :: u32

definition load32 :: "memory \<Rightarrow> u32 \<Rightarrow> u32" where
  "load32 m a = le_word (mem_read m a 4)"

definition store32 :: "memory \<Rightarrow> u32 \<Rightarrow> u32 \<Rightarrow> memory" where
  "store32 m a v = mem_write m a (word_le 4 v)"

definition fill :: "memory \<Rightarrow> u32 \<Rightarrow> u8 \<Rightarrow> nat \<Rightarrow> memory" where
  "fill m a b n = mem_write m a (replicate n b)"

text \<open>The fields of \<open>struct SlabPage\<close>, by the address of the page.\<close>

definition free_list :: "memory \<Rightarrow> u32 \<Rightarrow> u32" where "free_list m p = load32 m p"
definition num_allocated :: "memory \<Rightarrow> u32 \<Rightarrow> u32" where "num_allocated m p = load32 m (p + 4)"
definition page_next :: "memory \<Rightarrow> u32 \<Rightarrow> u32" where "page_next m p = load32 m (p + 8)"
definition owning_cache :: "memory \<Rightarrow> u32 \<Rightarrow> u32" where "owning_cache m p = load32 m (p + 12)"

definition SLAB_HEADER :: u32 where "SLAB_HEADER = 16"
definition SLAB_POISON :: u8 where "SLAB_POISON = 0xAA"

section \<open>Slab pages\<close>

fun slab_grow_loop :: "nat \<Rightarrow> u32 \<Rightarrow> u32 \<Rightarrow> memory \<Rightarrow> memory" where
  "slab_grow_loop 0 os cur m = fill (store32 m cur 0) (cur + 4) SLAB_POISON (unat (os - 4))"
| "slab_grow_loop (Suc n) os cur m =
     slab_grow_loop n os (cur + os) (fill (store32 m cur (cur + os)) (cur + 4) SLAB_POISON (unat (os - 4)))"

definition slab_grow :: "u32 \<Rightarrow> slab \<Rightarrow> slab_panic + u32 \<times> slab" where
  "slab_grow object_size s =
     (case vmm_alloc_pages 1 (svm s) of
        Inl p \<Rightarrow> Inl (VmPanic p)
      | Inr (page, v) \<Rightarrow>
          let first_slot = page + SLAB_HEADER;
              os = (if object_size < 4 then 4 else object_size);
              max_slots = (PAGE_SIZE - SLAB_HEADER) div os;
              m = store32 (store32 (store32 (fill (smem s) page 0 4096) (page + 4) 0) (page + 8) 0) page first_slot
          in Inr (page, s\<lparr>svm := v, smem := slab_grow_loop (unat (max_slots - 1)) os first_slot m\<rparr>))"

partial_function (option) page_search :: "memory \<Rightarrow> u32 \<Rightarrow> u32 option" where
  "page_search m page =
     (if page \<noteq> 0 \<and> free_list m page = 0 then page_search m (page_next m page) else Some page)"

declare page_search.simps [code]

definition poison_intact :: "memory \<Rightarrow> u32 \<Rightarrow> u32 \<Rightarrow> bool" where
  "poison_intact m os slot \<longleftrightarrow> os \<le> 4 \<or> list_all (\<lambda>b. b = SLAB_POISON) (mem_read m (slot + 4) (unat (os - 4)))"

text \<open>A slot is taken from a page whose free list is not empty.\<close>

definition slab_take :: "u32 \<Rightarrow> u32 \<Rightarrow> slab \<Rightarrow> slab_panic + u32 \<times> slab" where
  "slab_take cache page s =
     (let slot = free_list (smem s) page
      in if \<not> poison_intact (smem s) (object_sizes s cache) slot then Inl (SegFault slot)
         else let m1 = store32 (smem s) page (load32 (smem s) slot)
              in Inr (slot, s\<lparr>smem := store32 m1 (page + 4) (num_allocated m1 page + 1)\<rparr>))"

definition slab_alloc :: "u32 \<Rightarrow> slab \<Rightarrow> (slab_panic + u32 \<times> slab) option" where
  "slab_alloc cache s =
     (case page_search (smem s) (page_lists s cache) of
        None \<Rightarrow> None
      | Some page \<Rightarrow>
          if page \<noteq> 0 then Some (slab_take cache page s)
          else (case slab_grow (object_sizes s cache) s of
                  Inl e \<Rightarrow> Some (Inl e)
                | Inr (page, s1) \<Rightarrow>
                    let s2 = s1\<lparr>smem := store32 (store32 (smem s1) (page + 8) (page_lists s1 cache)) (page + 12) cache,
                                page_lists := (page_lists s1)(cache := page)\<rparr>
                    in Some (slab_take cache page s2)))"

text \<open>Whether the free list from \<open>current\<close> on holds \<open>ptr\<close>.\<close>

partial_function (option) free_list_has :: "memory \<Rightarrow> u32 \<Rightarrow> u32 \<Rightarrow> bool option" where
  "free_list_has m ptr current =
     (if current = 0 then Some False
      else if current = ptr then Some True
      else free_list_has m ptr (load32 m current))"

declare free_list_has.simps [code]

text \<open>
  The walk of \<open>prev\<close> over the links to pages: \<open>None\<close> stands for the link in the cache, \<open>Some p\<close> for the one in page
  \<open>p\<close>. The result is the link that leads to \<open>page\<close>, if one does.
\<close>

partial_function (option) page_link :: "memory \<Rightarrow> u32 \<Rightarrow> u32 option \<Rightarrow> u32 \<Rightarrow> (u32 option option) option" where
  "page_link m page prev cur =
     (if cur = 0 then Some None
      else if cur = page then Some (Some prev)
      else page_link m page (Some cur) (page_next m cur))"

declare page_link.simps [code]

definition slab_unlink :: "u32 \<Rightarrow> u32 \<Rightarrow> slab \<Rightarrow> slab option" where
  "slab_unlink cache page s =
     (case page_link (smem s) page None (page_lists s cache) of
        None \<Rightarrow> None
      | Some None \<Rightarrow> Some s
      | Some (Some None) \<Rightarrow> Some (s\<lparr>page_lists := (page_lists s)(cache := page_next (smem s) page)\<rparr>)
      | Some (Some (Some p)) \<Rightarrow> Some (s\<lparr>smem := store32 (smem s) (p + 8) (page_next (smem s) page)\<rparr>))"

definition slab_free :: "u32 \<Rightarrow> u32 \<Rightarrow> slab \<Rightarrow> (slab_panic + slab) option" where
  "slab_free cache ptr s =
     (if ptr = 0 then Some (Inr s)
      else let page = ptr AND NOT (PAGE_SIZE - 1)
           in case free_list_has (smem s) ptr (free_list (smem s) page) of
                None \<Rightarrow> None
              | Some True \<Rightarrow> Some (Inl (DoubleFree ptr))
              | Some False \<Rightarrow>
                  let m1 = fill (smem s) ptr SLAB_POISON (unat (object_sizes s cache));
                      m2 = store32 m1 ptr (free_list m1 page);
                      m3 = store32 m2 page ptr;
                      m4 = store32 m3 (page + 4) (num_allocated m3 page - 1);
                      s1 = s\<lparr>smem := m4\<rparr>
                  in if num_allocated m4 page = 0
                     then (case slab_unlink cache page s1 of
                             None \<Rightarrow> None
                           | Some s2 \<Rightarrow> map_option (\<lambda>v. Inr (s2\<lparr>svm := v\<rparr>)) (vmm_free_pages page 1 (svm s2)))
                     else Some (Inr s1))"

section \<open>malloc\<close>

definition SLAB_MAX_SIZE :: u32 where "SLAB_MAX_SIZE = 512"

definition cache_count :: nat where "cache_count = 6"

definition cache_sizes :: "u32 list" where "cache_sizes = [16, 32, 64, 128, 256, SLAB_MAX_SIZE]"

definition cache_at :: "nat \<Rightarrow> slab \<Rightarrow> u32" where "cache_at i s = malloc_caches s + 8 * of_nat i"

text \<open>The state before the first call.\<close>

definition malloc_start :: "memory \<Rightarrow> vmm \<Rightarrow> u32 \<Rightarrow> slab" where
  "malloc_start m v base =
     \<lparr>smem = m, svm = v,
      object_sizes = \<lambda>c. if c - base < 48 then cache_sizes ! unat ((c - base) div 8) else 0,
      page_lists = \<lambda>c. 0, malloc_caches = base\<rparr>"

definition choose_cache :: "u32 \<Rightarrow> slab \<Rightarrow> nat option" where
  "choose_cache sz s = find (\<lambda>i. sz \<le> object_sizes s (cache_at i s)) [0..<cache_count]"

definition large_alloc :: "u32 \<Rightarrow> slab \<Rightarrow> slab_panic + u32 \<times> slab" where
  "large_alloc sz s =
     (let total_size = sz + PAGE_SIZE;
          num_pages = (total_size + PAGE_SIZE - 1) div PAGE_SIZE
      in case vmm_alloc_pages num_pages (svm s) of
           Inl p \<Rightarrow> Inl (VmPanic p)
         | Inr (raw_mem, v) \<Rightarrow>
             Inr (raw_mem + PAGE_SIZE,
                  s\<lparr>svm := v, smem := store32 (fill (smem s) raw_mem 0 (unat (num_pages * PAGE_SIZE))) raw_mem num_pages\<rparr>))"

definition malloc :: "u32 \<Rightarrow> slab \<Rightarrow> (slab_panic + u32 \<times> slab) option" where
  "malloc sz s =
     (if sz = 0 then Some (Inr (0, s))
      else case (if sz \<le> SLAB_MAX_SIZE then choose_cache sz s else None) of
             Some i \<Rightarrow> slab_alloc (cache_at i s) s
           | None \<Rightarrow> Some (large_alloc sz s))"

definition free :: "u32 \<Rightarrow> slab \<Rightarrow> (slab_panic + slab) option" where
  "free ptr s =
     (if ptr = 0 then Some (Inr s)
      else if ptr AND (PAGE_SIZE - 1) = 0
      then let raw_page_start = ptr - PAGE_SIZE;
               pages_to_free = load32 (smem s) raw_page_start
           in map_option (\<lambda>v. Inr (s\<lparr>svm := v\<rparr>)) (vmm_free_pages raw_page_start pages_to_free (svm s))
      else let page = ptr AND NOT (PAGE_SIZE - 1)
           in slab_free (owning_cache (smem s) page) ptr s)"

text \<open>The size that an allocation had, and whether it can stay where it is.\<close>

definition realloc_keep :: "u32 \<Rightarrow> u32 \<Rightarrow> slab \<Rightarrow> u32 \<times> bool" where
  "realloc_keep ptr sz s =
     (if ptr AND (PAGE_SIZE - 1) = 0
      then let total_pages = load32 (smem s) (ptr - PAGE_SIZE);
               new_total_size = sz + PAGE_SIZE;
               new_num_pages = (new_total_size + PAGE_SIZE - 1) div PAGE_SIZE
           in (total_pages * PAGE_SIZE - PAGE_SIZE, new_num_pages = total_pages)
      else let cache = owning_cache (smem s) (ptr AND NOT (PAGE_SIZE - 1));
               old_size = object_sizes s cache;
               fits_smaller = (case choose_cache sz s of None \<Rightarrow> False | Some i \<Rightarrow> object_sizes s (cache_at i s) < old_size)
           in (old_size, sz \<le> old_size \<and> \<not> fits_smaller))"

definition realloc :: "u32 \<Rightarrow> u32 \<Rightarrow> slab \<Rightarrow> (slab_panic + u32 \<times> slab) option" where
  "realloc ptr sz s =
     (if ptr = 0 then malloc sz s
      else if sz = 0 then map_option (map_sum id (\<lambda>s'. (0, s'))) (free ptr s)
      else let (old_size, keep) = realloc_keep ptr sz s
           in if keep then Some (Inr (ptr, s))
              else case malloc sz s of
                     None \<Rightarrow> None
                   | Some (Inl e) \<Rightarrow> Some (Inl e)
                   | Some (Inr (new_ptr, s1)) \<Rightarrow>
                       if new_ptr = 0 then Some (Inr (0, s1))
                       else let copy_size = (if old_size < sz then old_size else sz);
                                s2 = s1\<lparr>smem := mem_write (smem s1) new_ptr (mem_read (smem s1) ptr (unat copy_size))\<rparr>
                            in map_option (map_sum id (\<lambda>s'. (new_ptr, s'))) (free ptr s2))"

end
