(* ===== verification/VmmInv.thy ===== *)
theory VmmInv
  imports Vmm
begin

text \<open>
  Frames, pages and the tables that relate them: the two bitmaps as interpretations of \<open>bit_store\<close>, the
  decomposition of addresses, and the invariant \<open>vm_inv\<close> of the page allocator.
\<close>

unbundle bit_operations_syntax

section \<open>The frame bitmap\<close>

definition FRAMES :: nat where "FRAMES = 1048576"

definition frame_used :: "nat \<Rightarrow> pmm \<Rightarrow> bool" where
  "frame_used f s \<longleftrightarrow> pmm_bitmap s (f div 32) AND 2 ^ (f mod 32) \<noteq> 0"

definition frame_set :: "nat \<Rightarrow> pmm \<Rightarrow> pmm" where
  "frame_set f s = s\<lparr>pmm_bitmap := (pmm_bitmap s)(f div 32 := pmm_bitmap s (f div 32) OR 2 ^ (f mod 32))\<rparr>"

definition frame_clear :: "nat \<Rightarrow> pmm \<Rightarrow> pmm" where
  "frame_clear f s = s\<lparr>pmm_bitmap := (pmm_bitmap s)(f div 32 := pmm_bitmap s (f div 32) AND NOT (2 ^ (f mod 32)))\<rparr>"

lemma div_mod_eq: "(a :: nat) div n = b div n \<Longrightarrow> a mod n = b mod n \<Longrightarrow> a = b"
  by (metis div_mult_mod_eq)

interpretation fb: bit_store "\<lambda>s. True" "\<lambda>s. FRAMES" frame_used frame_set frame_clear total_frames
  by unfold_locales
    (auto simp: frame_used_def frame_set_def frame_clear_def bit_mask_simps dest: div_mod_eq)

interpretation vb: bit_store "\<lambda>s. True" "\<lambda>s. VIRT_PAGES" page_used page_set page_clear
    "\<lambda>s. (page_directory s, static_page_tables s, tables_address s, frames s)"
  by unfold_locales
    (auto simp: page_used_def page_set_def page_clear_def bit_mask_simps dest: div_mod_eq)

lemma frame_word:
  assumes "f < FRAMES"
  shows "(of_nat (f div 32) * 32 + of_nat (f mod 32)) * PAGE_SIZE = of_nat f * 4096"
    "unat (of_nat f * 4096 :: u32) = f * 4096" "(of_nat f * 4096 :: u32) \<noteq> PMM_NO_FRAME"
    "(of_nat f * 4096 :: u32) div PAGE_SIZE = of_nat f" "unat (of_nat f :: u32) = f"
proof -
  have f: "f < 1048576" using assms by (simp add: FRAMES_def)
  show u: "unat (of_nat f :: u32) = f" using f by (intro unat_of_nat_u32) simp
  have "(of_nat (f div 32) * 32 + of_nat (f mod 32) :: u32) = of_nat (f div 32 * 32 + f mod 32)"
    by (simp only: of_nat_add of_nat_mult of_nat_numeral)
  then show "(of_nat (f div 32) * 32 + of_nat (f mod 32)) * PAGE_SIZE = of_nat f * 4096" by (simp add: PAGE_SIZE_def)
  show w: "unat (of_nat f * 4096 :: u32) = f * 4096" using f u by (subst unat_mult_u32) simp_all
  show "(of_nat f * 4096 :: u32) \<noteq> PMM_NO_FRAME"
  proof
    assume "(of_nat f * 4096 :: u32) = PMM_NO_FRAME"
    then have "f * 4096 = 4294967295" using w by (simp add: PMM_NO_FRAME_def)
    then have "(f * 4096) mod 4096 = (4294967295 :: nat) mod 4096" by simp
    then show False by simp
  qed
  show "(of_nat f * 4096 :: u32) div PAGE_SIZE = of_nat f"
    using w u by (simp add: word_unat_eq_iff unat_div_distrib PAGE_SIZE_def)
qed

lemma find_upt_first:
  "find P [0..<n] = Some b \<Longrightarrow> b < n \<and> P b \<and> (\<forall>c < b. \<not> P c)"
  by (auto simp: find_Some_iff)

text \<open>The frame allocator finds the lowest free frame.\<close>

lemma word_full: "(w :: u32) = 0xFFFFFFFF \<Longrightarrow> b < 32 \<Longrightarrow> w AND 2 ^ b \<noteq> 0"
proof -
  have "(0xFFFFFFFF :: u32) = - 1" by simp
  then show "w = 0xFFFFFFFF \<Longrightarrow> b < 32 \<Longrightarrow> w AND 2 ^ b \<noteq> 0" by (simp only: and_mask_nonzero) simp
qed

lemma frame_scan_cases:
  assumes "a \<le> w" "w \<le> PHYS_BITMAP_WORDS"
  shows "(\<exists>f. a * 32 \<le> f \<and> f < w * 32 \<and> \<not> frame_used f s \<and> (\<forall>g. a * 32 \<le> g \<and> g < f \<longrightarrow> frame_used g s)
           \<and> frame_scan [a..<w] s = (of_nat f * 4096, frame_set f s))
    \<or> (\<forall>g. a * 32 \<le> g \<and> g < w * 32 \<longrightarrow> frame_used g s) \<and> frame_scan [a..<w] s = (PMM_NO_FRAME, s)"
  using assms
proof (induction "w - a" arbitrary: a)
  case 0
  then show ?case by auto
next
  case (Suc d)
  then have upt: "[a..<w] = a # [Suc a..<w]" by (simp add: upt_conv_Cons)
  have ih: "(\<exists>f. Suc a * 32 \<le> f \<and> f < w * 32 \<and> \<not> frame_used f s \<and> (\<forall>g. Suc a * 32 \<le> g \<and> g < f \<longrightarrow> frame_used g s)
           \<and> frame_scan [Suc a..<w] s = (of_nat f * 4096, frame_set f s))
    \<or> (\<forall>g. Suc a * 32 \<le> g \<and> g < w * 32 \<longrightarrow> frame_used g s) \<and> frame_scan [Suc a..<w] s = (PMM_NO_FRAME, s)"
    by (rule Suc.hyps(1)) (use Suc.hyps(2) Suc.prems in simp_all)
  have split: "frame_used (a * 32 + b) s = (pmm_bitmap s a AND 2 ^ b \<noteq> 0)" if "b < 32" for b
    using that by (simp add: frame_used_def)
  have shift: "\<exists>b < 32. g = a * 32 + b" if "a * 32 \<le> g" "g < Suc a * 32" for g
    using that by (intro exI [of _ "g - a * 32"]) simp
  show ?case
  proof (cases "\<forall>b < 32. frame_used (a * 32 + b) s")
    case True
    have eq: "frame_scan [a..<w] s = frame_scan [Suc a..<w] s"
    proof (cases "find (\<lambda>b. pmm_bitmap s a AND 2 ^ b = 0) [0..<32]")
      case (Some b)
      then show ?thesis using find_upt_first [OF Some] True split [of b] by auto
    qed (simp add: upt)
    have full: "frame_used g s" if "a * 32 \<le> g" "g < Suc a * 32" for g
      using shift [OF that] True by blast
    from ih show ?thesis
    proof (elim disjE exE conjE)
      fix f assume f: "Suc a * 32 \<le> f" "f < w * 32" "\<not> frame_used f s"
        "\<forall>g. Suc a * 32 \<le> g \<and> g < f \<longrightarrow> frame_used g s" "frame_scan [Suc a..<w] s = (of_nat f * 4096, frame_set f s)"
      have "frame_used g s" if "a * 32 \<le> g" "g < f" for g
        using full [of g] f(4) that by (cases "g < Suc a * 32") auto
      then show ?thesis using f(1-3,5) eq by (intro disjI1 exI [of _ f]) auto
    next
      assume f: "\<forall>g. Suc a * 32 \<le> g \<and> g < w * 32 \<longrightarrow> frame_used g s" "frame_scan [Suc a..<w] s = (PMM_NO_FRAME, s)"
      have "frame_used g s" if "a * 32 \<le> g" "g < w * 32" for g
        using full [of g] f(1) that by (cases "g < Suc a * 32") auto
      then show ?thesis using f(2) eq by auto
    qed
  next
    case False
    then obtain c where c: "c < 32" "pmm_bitmap s a AND 2 ^ c = 0" using split by blast
    then obtain b where b: "find (\<lambda>b. pmm_bitmap s a AND 2 ^ b = 0) [0..<32] = Some b"
      by (cases "find (\<lambda>b. pmm_bitmap s a AND 2 ^ b = 0) [0..<32]") (auto simp: find_None_iff)
    note fb = find_upt_first [OF b]
    have "pmm_bitmap s a \<noteq> 0xFFFFFFFF" using word_full c by blast
    then have "frame_scan [a..<w] s = ((of_nat a * 32 + of_nat b) * PAGE_SIZE, frame_set (a * 32 + b) s)"
      using b fb by (simp add: upt frame_set_def)
    moreover have lt: "a * 32 + b < w * 32" using fb [THEN conjunct1] Suc.hyps(2) by arith
    then have "a * 32 + b < FRAMES" using Suc.prems by (simp add: FRAMES_def PHYS_BITMAP_WORDS_def)
    then have "((of_nat a * 32 + of_nat b) * PAGE_SIZE :: u32) = of_nat (a * 32 + b) * 4096"
      using frame_word(1) [of "a * 32 + b"] fb by simp
    moreover have "frame_used g s" if g: "a * 32 \<le> g" "g < a * 32 + b" for g
    proof -
      have "g - a * 32 < b" using g by simp
      then show ?thesis using split [of "g - a * 32"] fb g by simp
    qed
    ultimately show ?thesis using fb split [of b] lt by (intro disjI1 exI [of _ "a * 32 + b"]) auto
  qed
qed

lemma pmm_alloc_cases:
  obtains (frame) f where "f < FRAMES" "\<not> frame_used f s" "\<And>g. g < f \<Longrightarrow> frame_used g s"
      "pmm_alloc_frame s = (of_nat f * 4096, frame_set f s)"
    | (full) "\<And>g. g < FRAMES \<Longrightarrow> frame_used g s" "pmm_alloc_frame s = (PMM_NO_FRAME, s)"
  using frame_scan_cases [of 0 PHYS_BITMAP_WORDS s] that
  by (auto simp: pmm_alloc_frame_def FRAMES_def PHYS_BITMAP_WORDS_def)

lemma pmm_free_eq:
  assumes "f < FRAMES"
  shows "pmm_free_frame (of_nat f * 4096) s = (if f < unat (total_frames s) then frame_clear f s else s)"
proof -
  note w = frame_word [OF assms]
  have "unat ((of_nat f :: u32) div 32) = f div 32" "unat ((of_nat f :: u32) mod 32) = f mod 32"
    using w(5) by (simp_all add: unat_div_distrib unat_mod_distrib)
  moreover have "(of_nat f < total_frames s) = (f < unat (total_frames s))" using w(5) by (simp add: word_less_nat_alt)
  ultimately show ?thesis using w(4) by (simp add: pmm_free_frame_def frame_clear_def Let_def)
qed

section \<open>Addresses\<close>

lemma pd_index_eq: "pd_index v = unat v div 4194304"
  by (simp add: pd_index_def drop_bit_eq_div unat_div_distrib)

lemma pt_index_eq: "pt_index v = unat v div 4096 mod 1024"
proof -
  have "(0x3FF :: u32) = mask 10" by (simp add: mask_eq_exp_minus_1)
  then have "drop_bit 12 v AND 0x3FF = take_bit 10 (drop_bit 12 v)" by (simp add: take_bit_eq_mask)
  then show ?thesis by (simp add: pt_index_def drop_bit_eq_div take_bit_eq_mod unat_mod_distrib unat_div_distrib)
qed

text \<open>The page of the 2 to the 20 that an address lies in decides which entry is used.\<close>

definition vpn :: "u32 \<Rightarrow> nat" where "vpn v = unat v div 4096"

lemma index_vpn: "pd_index v = vpn v div 1024" "pt_index v = vpn v mod 1024"
  by (simp_all add: pd_index_eq pt_index_eq vpn_def div_mult2_eq [symmetric])

lemma vpn_page_addr:
  assumes "i < VIRT_PAGES"
  shows "unat (page_addr i) = 268435456 + i * 4096" "vpn (page_addr i) = 65536 + i"
proof -
  have i: "i < 65536" using assms by (simp add: VIRT_PAGES_def)
  have "unat (of_nat i * 4096 :: u32) = i * 4096"
    using i unat_of_nat_u32 [of i] by (subst unat_mult_u32) simp_all
  then show u: "unat (page_addr i) = 268435456 + i * 4096"
    using i unfolding page_addr_def VM_START_def PAGE_SIZE_def by (subst unat_add_u32) simp_all
  show "vpn (page_addr i) = 65536 + i" unfolding vpn_def u by simp
qed

definition entry :: "nat \<Rightarrow> vmm \<Rightarrow> u32" where
  "entry n s = static_page_tables s (n div 1024) (n mod 1024)"

definition directory_present :: "nat \<Rightarrow> vmm \<Rightarrow> bool" where
  "directory_present n s \<longleftrightarrow> page_directory s (n div 1024) AND VM_PRESENT \<noteq> 0"

text \<open>Page \<open>n\<close> is mapped to the frame address and flags of its entry.\<close>

definition mapping :: "nat \<Rightarrow> vmm \<Rightarrow> u32 option" where
  "mapping n s = (if directory_present n s \<and> entry n s AND VM_PRESENT \<noteq> 0 then Some (entry n s) else None)"

lemma phys_addr_mapping:
  "vmm_get_phys_addr v s = (case mapping (vpn v) s of None \<Rightarrow> 0 | Some e \<Rightarrow> (e AND NOT 0xFFF) + (v AND 0xFFF))"
  by (simp add: vmm_get_phys_addr_def mapping_def directory_present_def entry_def index_vpn Let_def)

text \<open>A directory entry that is absent hides no entries.\<close>

definition tables_ok :: "vmm \<Rightarrow> bool" where
  "tables_ok s \<longleftrightarrow> (\<forall>n. \<not> directory_present n s \<longrightarrow> entry n s AND VM_PRESENT = 0)"

end
