(* ===== verification/VmmProps.thy ===== *)
theory VmmProps
  imports VmmInv
begin

text \<open>
  The page allocator against its invariant: mapping and unmapping of single pages, allocation and release
  of runs of pages, and translation of addresses.
\<close>

unbundle bit_operations_syntax

section \<open>Words of a page table\<close>

lemma page_mask: "(0xFFF :: u32) = mask 12" "PAGE_SIZE - 1 = mask 12"
  by (simp_all add: mask_eq_exp_minus_1 PAGE_SIZE_def)

lemma frame_shift: "(of_nat f * 4096 :: u32) = push_bit 12 (of_nat f)"
  by (simp add: push_bit_eq_mult)

lemma flags_word: "VM_PRESENT OR VM_READWRITE = mask 2"
  by (simp add: VM_PRESENT_def VM_READWRITE_def mask_eq_exp_minus_1)

lemma present_bit: "(w AND VM_PRESENT \<noteq> 0) = bit w 0"
  using and_mask_nonzero [of w 0] by (simp add: VM_PRESENT_def)

lemma frame_align: "(of_nat f * 4096 :: u32) AND NOT 0xFFF = of_nat f * 4096"
  unfolding page_mask frame_shift by (rule bit_word_eqI) (auto simp: bit_simps)

lemma frame_entry:
  fixes f :: nat
  defines "e \<equiv> (of_nat f * 4096 :: u32) OR (VM_PRESENT OR VM_READWRITE)"
  shows "e AND VM_PRESENT \<noteq> 0" "e AND NOT 0xFFF = of_nat f * 4096"
proof -
  show "e AND VM_PRESENT \<noteq> 0" unfolding present_bit e_def flags_word by (simp add: bit_simps)
  show "e AND NOT 0xFFF = of_nat f * 4096"
    unfolding e_def page_mask frame_shift flags_word by (rule bit_word_eqI) (auto simp: bit_simps)
qed

section \<open>Single pages\<close>

lemma index_eq_iff: "(n div 1024 = m div 1024 \<and> n mod 1024 = m mod 1024) = (n = (m :: nat))"
  using div_mod_eq by blast

lemma map_page_mapping:
  fixes p v :: u32
  assumes ok: "tables_ok s" and flags: "flags AND VM_PRESENT \<noteq> 0"
  defines "s' \<equiv> vmm_map_page p v flags s"
  shows "mapping n s' = (if n = vpn v then Some ((p AND NOT 0xFFF) OR flags) else mapping n s)"
    and "tables_ok s'" "frames s' = frames s" "virt_bitmap s' = virt_bitmap s"
proof -
  have te: "table_entry pd s AND VM_PRESENT \<noteq> 0" for pd
    unfolding present_bit by (simp add: table_entry_def VM_PRESENT_def bit_simps)
  have pe: "((p AND NOT 0xFFF) OR flags) AND VM_PRESENT \<noteq> 0"
    using flags unfolding present_bit by (simp add: bit_simps)
  have dir: "directory_present n s' = (directory_present n s \<or> n div 1024 = vpn v div 1024)" for n
    using te by (auto simp: s'_def vmm_map_page_def directory_present_def index_vpn Let_def)
  have ent: "entry n s' = (if n = vpn v then (p AND NOT 0xFFF) OR flags else entry n s)" for n
    using index_eq_iff [of n "vpn v"] by (auto simp: s'_def vmm_map_page_def entry_def index_vpn Let_def)
  have hidden: "\<not> directory_present n s \<Longrightarrow> entry n s AND VM_PRESENT = 0" for n using ok by (simp add: tables_ok_def)
  show "mapping n s' = (if n = vpn v then Some ((p AND NOT 0xFFF) OR flags) else mapping n s)"
    using pe hidden [of n] by (auto simp: mapping_def dir ent)
  show "tables_ok s'" using hidden by (auto simp: tables_ok_def dir ent)
  show "frames s' = frames s" "virt_bitmap s' = virt_bitmap s" by (simp_all add: s'_def vmm_map_page_def Let_def)
qed

lemma unmap_page_mapping:
  fixes v :: u32
  assumes ok: "tables_ok s"
  defines "s' \<equiv> vmm_unmap_page v s"
  shows "mapping n s' = (if n = vpn v then None else mapping n s)"
    and "tables_ok s'" "frames s' = frames s" "virt_bitmap s' = virt_bitmap s"
proof -
  have dir: "directory_present n s' = directory_present n s" for n
    by (simp add: s'_def vmm_unmap_page_def directory_present_def)
  have ent: "entry n s' = (if n = vpn v \<and> directory_present n s then 0 else entry n s)" for n
    using index_eq_iff [of n "vpn v"] by (auto simp: s'_def vmm_unmap_page_def entry_def directory_present_def index_vpn)
  show "mapping n s' = (if n = vpn v then None else mapping n s)" by (simp add: mapping_def dir ent)
  show "tables_ok s'" using ok by (auto simp: tables_ok_def dir ent)
  show "frames s' = frames s" "virt_bitmap s' = virt_bitmap s" by (simp_all add: s'_def vmm_unmap_page_def)
qed

lemma page_bits [simp]:
  "mapping n (page_set i s) = mapping n s" "mapping n (page_clear i s) = mapping n s"
  "tables_ok (page_set i s) = tables_ok s" "tables_ok (page_clear i s) = tables_ok s"
  "frames (page_set i s) = frames s" "frames (page_clear i s) = frames s"
  by (simp_all add: page_set_def page_clear_def mapping_def tables_ok_def directory_present_def entry_def)

lemma frames_update [simp]:
  "mapping n (s\<lparr>frames := p\<rparr>) = mapping n s" "tables_ok (s\<lparr>frames := p\<rparr>) = tables_ok s"
  "page_used i (s\<lparr>frames := p\<rparr>) = page_used i s"
  by (simp_all add: mapping_def tables_ok_def directory_present_def entry_def page_used_def)

lemma page_used_virt: "virt_bitmap s' = virt_bitmap s \<Longrightarrow> page_used i s' = page_used i s"
  by (simp add: page_used_def)

section \<open>The invariant\<close>

text \<open>
  \<open>A\<close> maps the pages that were allocated to their frames, \<open>M\<close> holds the pages of device regions. \<open>WP i\<close> is the
  number of page \<open>i\<close> of the window in the whole address space.
\<close>

definition WP :: "nat \<Rightarrow> nat" where "WP i = 65536 + i"

lemma vpn_page: "i < VIRT_PAGES \<Longrightarrow> vpn (page_addr i) = WP i"
  by (simp add: vpn_page_addr WP_def)

lemma WP_eq [simp]: "WP i = WP j \<longleftrightarrow> i = j"
  by (simp add: WP_def)

definition vm_inv :: "vmm \<Rightarrow> (nat \<rightharpoonup> nat) \<Rightarrow> nat set \<Rightarrow> bool" where
  "vm_inv s A M \<longleftrightarrow>
     tables_ok s \<and> dom A \<union> M \<subseteq> {..<VIRT_PAGES} \<and> dom A \<inter> M = {}
     \<and> (\<forall>i < VIRT_PAGES. page_used i s = (i \<in> dom A \<union> M))
     \<and> (\<forall>i < VIRT_PAGES. i \<notin> dom A \<union> M \<longrightarrow> mapping (WP i) s = None)
     \<and> (\<forall>i f. A i = Some f \<longrightarrow> f < FRAMES \<and> frame_used f (frames s) \<and> f < unat (total_frames (frames s))
           \<and> mapping (WP i) s = Some (of_nat f * 4096 OR (VM_PRESENT OR VM_READWRITE)))
     \<and> inj_on A (dom A)
     \<and> (\<forall>f < FRAMES. \<not> frame_used f (frames s) \<longrightarrow> f < unat (total_frames (frames s)))"

lemma vm_invD:
  assumes "vm_inv s A M"
  shows "tables_ok s" "dom A \<union> M \<subseteq> {..<VIRT_PAGES}" "dom A \<inter> M = {}"
    "i < VIRT_PAGES \<Longrightarrow> page_used i s = (i \<in> dom A \<union> M)"
    "i < VIRT_PAGES \<Longrightarrow> i \<notin> dom A \<union> M \<Longrightarrow> mapping (WP i) s = None"
    "A i = Some f \<Longrightarrow> f < FRAMES" "A i = Some f \<Longrightarrow> frame_used f (frames s)"
    "A i = Some f \<Longrightarrow> f < unat (total_frames (frames s))"
    "A i = Some f \<Longrightarrow> mapping (WP i) s = Some (of_nat f * 4096 OR (VM_PRESENT OR VM_READWRITE))"
    "inj_on A (dom A)" "f < FRAMES \<Longrightarrow> \<not> frame_used f (frames s) \<Longrightarrow> f < unat (total_frames (frames s))"
    "A i = Some f \<Longrightarrow> i < VIRT_PAGES"
  using assms by (auto simp: vm_inv_def)

lemma take_page:
  assumes inv: "vm_inv s A M" and i: "i < VIRT_PAGES" "i \<notin> dom A \<union> M" and f: "f < FRAMES" "\<not> frame_used f (frames s)"
  defines "s' \<equiv> page_set i (vmm_map_page (of_nat f * 4096) (page_addr i) (VM_PRESENT OR VM_READWRITE)
                  (s\<lparr>frames := frame_set f (frames s)\<rparr>))"
  shows "vm_inv s' (A(i \<mapsto> f)) M" "\<And>n. n \<noteq> WP i \<Longrightarrow> mapping n s' = mapping n s"
    "frames s' = frame_set f (frames s)"
proof -
  let ?s1 = "s\<lparr>frames := frame_set f (frames s)\<rparr>"
  note D = vm_invD [OF inv]
  have ok: "tables_ok ?s1" using D(1) by simp
  have fl: "(VM_PRESENT OR VM_READWRITE) AND VM_PRESENT \<noteq> 0" by (simp add: VM_PRESENT_def VM_READWRITE_def)
  note m = map_page_mapping [OF ok fl, where p = "of_nat f * 4096" and v = "page_addr i"]
  have map: "mapping n s' = (if n = WP i then Some (of_nat f * 4096 OR (VM_PRESENT OR VM_READWRITE)) else mapping n s)" for n
    unfolding s'_def page_bits m(1) vpn_page [OF i(1)] frame_align by simp
  then show "n \<noteq> WP i \<Longrightarrow> mapping n s' = mapping n s" for n by simp
  show fr: "frames s' = frame_set f (frames s)" using m(3) by (simp add: s'_def)
  have used: "page_used j s' = (j = i \<or> page_used j s)" if "j < VIRT_PAGES" for j
    using vb.used_set [where s = "vmm_map_page (of_nat f * 4096) (page_addr i) (VM_PRESENT OR VM_READWRITE) ?s1" and i = i and j = j] i(1) that
      page_used_virt [OF m(4), of j] by (simp add: s'_def)
  have fu: "frame_used g (frames s') = (g = f \<or> frame_used g (frames s))" if "g < FRAMES" for g
    unfolding fr using fb.used_set [where s = "frames s" and i = f and j = g] f(1) that by simp
  have tot: "total_frames (frames s') = total_frames (frames s)"
    unfolding fr using fb.rest_set [where s = "frames s" and i = f] f(1) by simp
  have new: "f \<notin> ran A" using D(7) f(2) by (auto simp: ran_def)
  show "vm_inv s' (A(i \<mapsto> f)) M"
    unfolding vm_inv_def
  proof (intro conjI allI impI)
    show "tables_ok s'" using m(2) by (simp add: s'_def)
    show "inj_on (A(i \<mapsto> f)) (dom (A(i \<mapsto> f)))"
      using D(10) new i(2) by (auto simp: inj_on_def ran_def dom_def)
  next
    fix j g assume a: "(A(i \<mapsto> f)) j = Some g"
    then have "j = i \<and> g = f \<or> j \<noteq> i \<and> A j = Some g" by (auto split: if_splits)
    then show "g < FRAMES" "frame_used g (frames s')" "g < unat (total_frames (frames s'))"
      "mapping (WP j) s' = Some (of_nat g * 4096 OR (VM_PRESENT OR VM_READWRITE))"
      using f D(6-9) D(11) [OF f] fu tot map by auto
  next
    fix g assume "g < FRAMES" "\<not> frame_used g (frames s')"
    then show "g < unat (total_frames (frames s'))" using fu tot D(11) by auto
  qed (use i D(2-5) used map in auto)
qed

lemma drop_page:
  assumes inv: "vm_inv s A M" and i: "A i = Some f"
  defines "s' \<equiv> page_clear i (vmm_unmap_page (page_addr i) (s\<lparr>frames := frame_clear f (frames s)\<rparr>))"
  shows "vm_inv s' (A(i := None)) M" "\<And>n. n \<noteq> WP i \<Longrightarrow> mapping n s' = mapping n s"
    "frames s' = frame_clear f (frames s)"
proof -
  let ?s1 = "s\<lparr>frames := frame_clear f (frames s)\<rparr>"
  note D = vm_invD [OF inv]
  note iv = D(12) [OF i] and ff = D(6) [OF i]
  have ok: "tables_ok ?s1" using D(1) by simp
  note m = unmap_page_mapping [OF ok, where v = "page_addr i"]
  have map: "mapping n s' = (if n = WP i then None else mapping n s)" for n
    using m(1) [of n] iv by (simp add: s'_def vpn_page)
  then show "n \<noteq> WP i \<Longrightarrow> mapping n s' = mapping n s" for n by simp
  show fr: "frames s' = frame_clear f (frames s)" using m(3) by (simp add: s'_def)
  have used: "page_used j s' = (j \<noteq> i \<and> page_used j s)" if "j < VIRT_PAGES" for j
    using vb.used_clear [where s = "vmm_unmap_page (page_addr i) ?s1" and i = i and j = j] iv that page_used_virt [OF m(4), of j]
    by (simp add: s'_def)
  have fu: "frame_used g (frames s') = (g \<noteq> f \<and> frame_used g (frames s))" if "g < FRAMES" for g
    unfolding fr using fb.used_clear [where s = "frames s" and i = f and j = g] ff that by simp
  have tot: "total_frames (frames s') = total_frames (frames s)"
    unfolding fr using fb.rest_clear [where s = "frames s" and i = f] ff by simp
  have inj: "g \<noteq> f" if "A j = Some g" "j \<noteq> i" for j g
    using D(10) i that by (metis domI inj_onD)
  have iM: "i \<notin> M" using D(3) i by auto
  show "vm_inv s' (A(i := None)) M"
    unfolding vm_inv_def
  proof (intro conjI allI impI)
    show "tables_ok s'" using m(2) by (simp add: s'_def)
    show "inj_on (A(i := None)) (dom (A(i := None)))" using D(10) by (auto simp: inj_on_def dom_def)
  next
    fix j assume j: "j < VIRT_PAGES" "j \<notin> dom (A(i := None)) \<union> M"
    show "mapping (WP j) s' = None"
    proof (cases "j = i")
      case False
      then have "j \<notin> dom A \<union> M" using j(2) by auto
      from D(5) [OF j(1) this] show ?thesis using map by simp
    qed (simp add: map)
  next
    fix j g assume "(A(i := None)) j = Some g"
    then have "j \<noteq> i" "A j = Some g" by (auto split: if_splits)
    then show "g < FRAMES" "frame_used g (frames s')" "g < unat (total_frames (frames s'))"
      "mapping (WP j) s' = Some (of_nat g * 4096 OR (VM_PRESENT OR VM_READWRITE))"
      using D(6-9) fu tot map inj by auto
  next
    fix g assume "g < FRAMES" "\<not> frame_used g (frames s')"
    then show "g < unat (total_frames (frames s'))" using fu tot D(11) D(8) [OF i] by auto
  qed (use iM iv D(2-4) used in auto)
qed

section \<open>Runs of pages\<close>

text \<open>The allocations after the frames \<open>fs\<close> were placed from page \<open>i\<close> on.\<close>

definition place_frames :: "(nat \<rightharpoonup> nat) \<Rightarrow> nat \<Rightarrow> nat list \<Rightarrow> nat \<rightharpoonup> nat" where
  "place_frames A i fs = (\<lambda>j. if i \<le> j \<and> j < i + length fs then Some (fs ! (j - i)) else A j)"

lemma place_Nil [simp]: "place_frames A i [] = A"
  by (rule ext) (auto simp: place_frames_def)

lemma place_Cons: "place_frames (A(i \<mapsto> f)) (Suc i) fs = place_frames A i (f # fs)"
proof
  fix j show "place_frames (A(i \<mapsto> f)) (Suc i) fs j = place_frames A i (f # fs) j"
    by (cases "j = i") (auto simp: place_frames_def nth_Cons' less_Suc_eq_le not_le)
qed

definition free_frames :: "pmm \<Rightarrow> nat set" where
  "free_frames s = {f. f < FRAMES \<and> \<not> frame_used f s}"

lemma free_frames_finite [simp]: "finite (free_frames s)"
  by (simp add: free_frames_def)

lemma free_frames_set: "f < FRAMES \<Longrightarrow> free_frames (frame_set f s) = free_frames s - {f}"
  using fb.used_set [where s = s and i = f] by (auto simp: free_frames_def)

lemma free_frames_clear: "f < FRAMES \<Longrightarrow> free_frames (frame_clear f s) = insert f (free_frames s)"
  using fb.used_clear [where s = s and i = f] by (auto simp: free_frames_def)

definition same_elsewhere :: "nat \<Rightarrow> nat \<Rightarrow> vmm \<Rightarrow> vmm \<Rightarrow> bool" where
  "same_elsewhere i n s s' \<longleftrightarrow> (\<forall>m. m < WP i \<or> WP (i + n) \<le> m \<longrightarrow> mapping m s' = mapping m s)"

lemma same_elsewhere_Suc:
  assumes "\<And>m. m \<noteq> WP i \<Longrightarrow> mapping m s1 = mapping m s" "same_elsewhere (Suc i) n s1 s2"
  shows "same_elsewhere i (Suc n) s s2"
  using assms by (auto simp: same_elsewhere_def WP_def)

definition pages_taken :: "vmm \<Rightarrow> (nat \<rightharpoonup> nat) \<Rightarrow> nat set \<Rightarrow> nat \<Rightarrow> nat list \<Rightarrow> vmm \<Rightarrow> bool" where
  "pages_taken s A M i fs s' \<longleftrightarrow>
     vm_inv s' (place_frames A i fs) M \<and> distinct fs \<and> set fs \<subseteq> free_frames (frames s)
     \<and> free_frames (frames s') = free_frames (frames s) - set fs \<and> same_elsewhere i (length fs) s s'"

lemma alloc_loop_cases:
  assumes "vm_inv s A M" "i + n \<le> VIRT_PAGES" "\<And>j. i \<le> j \<Longrightarrow> j < i + n \<Longrightarrow> j \<notin> dom A \<union> M"
  shows "(\<exists>fs s'. alloc_pages_loop n i s = Some s' \<and> length fs = n \<and> pages_taken s A M i fs s')
    \<or> alloc_pages_loop n i s = None \<and> card (free_frames (frames s)) < n"
  using assms
proof (induction n arbitrary: i s A)
  case 0
  then show ?case by (simp add: pages_taken_def same_elsewhere_def)
next
  case (Suc n)
  show ?case
  proof (cases rule: pmm_alloc_cases [of "frames s"])
    case (frame f)
    note 1 = frame
    have i: "i < VIRT_PAGES" "i \<notin> dom A \<union> M" using Suc.prems by simp_all
    let ?s = "page_set i (vmm_map_page (of_nat f * 4096) (page_addr i) (VM_PRESENT OR VM_READWRITE) (s\<lparr>frames := frame_set f (frames s)\<rparr>))"
    note t = take_page [OF Suc.prems(1) i 1(1,2)]
    have r: "i \<notin> {Suc i..<Suc i + n}" by simp
    have rest: "j \<notin> dom (A(i \<mapsto> f)) \<union> M" if "Suc i \<le> j" "j < Suc i + n" for j using Suc.prems(3) [of j] that by simp
    have "Suc i + n \<le> VIRT_PAGES" using Suc.prems(2) by simp
    have ih: "(\<exists>fs s'. alloc_pages_loop n (Suc i) ?s = Some s' \<and> length fs = n \<and> pages_taken ?s (A(i \<mapsto> f)) M (Suc i) fs s')
      \<or> alloc_pages_loop n (Suc i) ?s = None \<and> card (free_frames (frames ?s)) < n"
      by (rule Suc.IH [OF t(1) \<open>Suc i + n \<le> VIRT_PAGES\<close>]) (rule rest)
    have step: "alloc_pages_loop (Suc n) i s = alloc_pages_loop n (Suc i) ?s"
      using 1(4) frame_word(3) [OF 1(1)] by simp
    have ff: "f \<in> free_frames (frames s)" using 1(1,2) by (simp add: free_frames_def)
    have fs: "free_frames (frames ?s) = free_frames (frames s) - {f}" using t(3) free_frames_set [OF 1(1)] by simp
    from ih show ?thesis
    proof (elim disjE exE conjE)
      fix fs s' assume q: "alloc_pages_loop n (Suc i) ?s = Some s'" "length fs = n" "pages_taken ?s (A(i \<mapsto> f)) M (Suc i) fs s'"
      have "same_elsewhere i (length (f # fs)) s s'"
        using same_elsewhere_Suc [OF t(2)] q(2,3) by (simp add: pages_taken_def)
      then have "pages_taken s A M i (f # fs) s'"
        using q(3) ff unfolding pages_taken_def place_Cons fs by auto
      then show ?thesis using q(1,2) step by (intro disjI1 exI [of _ "f # fs"] exI [of _ s']) simp
    next
      assume q: "alloc_pages_loop n (Suc i) ?s = None" "card (free_frames (frames ?s)) < n"
      have "card (free_frames (frames s)) < Suc n" using q(2) ff unfolding fs by (simp add: card_Diff_singleton)
      then show ?thesis using q(1) step by simp
    qed
  next
    case full
    note 2 = full
    then have "free_frames (frames s) = {}" by (auto simp: free_frames_def)
    moreover have "alloc_pages_loop (Suc n) i s = None" using 2(2) by simp
    ultimately show ?thesis by simp
  qed
qed

definition drop_range :: "(nat \<rightharpoonup> nat) \<Rightarrow> nat \<Rightarrow> nat \<Rightarrow> nat \<rightharpoonup> nat" where
  "drop_range A i n = A |` (- {i..<i + n})"

lemma drop_range_0 [simp]: "drop_range A i 0 = A"
  by (simp add: drop_range_def restrict_map_def)

lemma drop_range_Suc: "drop_range (A(i := None)) (Suc i) n = drop_range A i (Suc n)"
  by (auto simp: drop_range_def restrict_map_def fun_eq_iff)

lemma place_frames_drop: "(\<And>j. i \<le> j \<Longrightarrow> j < i + length fs \<Longrightarrow> A j = None) \<Longrightarrow> drop_range (place_frames A i fs) i (length fs) = A"
  by (auto simp: drop_range_def place_frames_def restrict_map_def fun_eq_iff)

lemma free_loop_full:
  assumes "vm_inv s A M" "\<And>j. i \<le> j \<Longrightarrow> j < i + n \<Longrightarrow> j \<in> dom A"
  shows "\<exists>s'. free_pages_loop n i s = Some s' \<and> vm_inv s' (drop_range A i n) M
    \<and> free_frames (frames s') = free_frames (frames s) \<union> {f. \<exists>j. i \<le> j \<and> j < i + n \<and> A j = Some f}
    \<and> same_elsewhere i n s s'"
  using assms
proof (induction n arbitrary: i s A)
  case 0
  then show ?case by (auto simp: same_elsewhere_def)
next
  case (Suc n)
  obtain f where f: "A i = Some f" using Suc.prems(2) [of i] by auto
  note D = vm_invD [OF Suc.prems(1)]
  note iv = D(12) [OF f] and ff = D(6) [OF f]
  let ?e = "static_page_tables s (pd_index (page_addr i)) (pt_index (page_addr i))"
  have e: "?e = of_nat f * 4096 OR (VM_PRESENT OR VM_READWRITE)"
    using D(9) [OF f] iv by (simp add: mapping_def entry_def index_vpn vpn_page split: if_splits)
  have "pmm_free_frame (?e AND NOT 0xFFF) (frames s) = frame_clear f (frames s)"
    unfolding e frame_entry(2) using pmm_free_eq [OF ff] D(8) [OF f] by simp
  moreover have "?e AND VM_PRESENT \<noteq> 0" unfolding e by (rule frame_entry(1))
  ultimately have step: "free_pages_loop (Suc n) i s
      = free_pages_loop n (Suc i) (page_clear i (vmm_unmap_page (page_addr i) (s\<lparr>frames := frame_clear f (frames s)\<rparr>)))"
    using iv by (simp only: free_pages_loop.simps Let_def not_le [symmetric] if_True if_False simp_thms)
  let ?s = "page_clear i (vmm_unmap_page (page_addr i) (s\<lparr>frames := frame_clear f (frames s)\<rparr>))"
  note t = drop_page [OF Suc.prems(1) f]
  have dom: "j \<in> dom (A(i := None))" if "Suc i \<le> j" "j < Suc i + n" for j
    using Suc.prems(2) [of j] that by simp
  obtain s' where q: "free_pages_loop n (Suc i) ?s = Some s'" "vm_inv s' (drop_range (A(i := None)) (Suc i) n) M"
    "free_frames (frames s') = free_frames (frames ?s) \<union> {f'. \<exists>j. Suc i \<le> j \<and> j < Suc i + n \<and> (A(i := None)) j = Some f'}"
    "same_elsewhere (Suc i) n ?s s'"
    using Suc.IH [OF t(1) dom] by blast
  have "free_frames (frames s') = free_frames (frames s) \<union> {f. \<exists>j. i \<le> j \<and> j < i + Suc n \<and> A j = Some f}"
  proof -
    have "(\<exists>j. i \<le> j \<and> j < i + Suc n \<and> A j = Some g)
        \<longleftrightarrow> g = f \<or> (\<exists>j. Suc i \<le> j \<and> j < Suc i + n \<and> (A(i := None)) j = Some g)" for g
    proof
      assume "\<exists>j. i \<le> j \<and> j < i + Suc n \<and> A j = Some g"
      then obtain j where j: "i \<le> j" "j < i + Suc n" "A j = Some g" by blast
      show "g = f \<or> (\<exists>j. Suc i \<le> j \<and> j < Suc i + n \<and> (A(i := None)) j = Some g)"
        using j f by (cases "j = i") (auto intro!: exI [of _ j])
    next
      assume "g = f \<or> (\<exists>j. Suc i \<le> j \<and> j < Suc i + n \<and> (A(i := None)) j = Some g)"
      then consider "g = f" | j where "Suc i \<le> j" "j < Suc i + n" "A j = Some g" by (auto split: if_splits)
      then show "\<exists>j. i \<le> j \<and> j < i + Suc n \<and> A j = Some g"
      proof cases
        case 1
        then show ?thesis using f by (intro exI [of _ i]) simp
      next
        case (2 j)
        then show ?thesis by (intro exI [of _ j]) simp
      qed
    qed
    then show ?thesis unfolding q(3) t(3) free_frames_clear [OF ff] by auto
  qed
  then show ?case using q(1,2) step same_elsewhere_Suc [OF t(2) q(4)] by (simp add: drop_range_Suc)
qed

end
