(* ===== verification/VmmSpec.thy ===== *)
theory VmmSpec
  imports VmmProps
begin

text \<open>
  What the memory manager promises: start-up from a memory map, allocation and release of pages, device
  regions, translation in both directions, and isolation of live pages in every history.
\<close>

unbundle bit_operations_syntax

section \<open>The search for free pages\<close>

lemma contiguous_first_fit:
  assumes "unat count < unat num" "unat count + length is' < 4294967296" "count = 0 \<or> start = start'"
  shows "contiguous_loop num s is' count start = first_fit (\<lambda>i. page_used i s) (unat num) is' (unat count) start'"
  using assms
proof (induction is' arbitrary: count start start')
  case (Cons i is')
  have u: "unat (count + 1) = Suc (unat count)" using Cons.prems(2) by (intro unat_plus_one_u32) simp
  have z: "(count = 0) = (unat count = 0)" by (simp add: unat_eq_0)
  have eq: "(count + 1 = num) = (unat num \<le> Suc (unat count))"
    using Cons.prems(1) u by (auto simp: word_unat_eq_iff)
  show ?case
  proof (cases "page_used i s")
    case True
    then show ?thesis using Cons.IH [of 0 0 start'] Cons.prems by simp
  next
    case free: False
    show ?thesis
    proof (cases "count + 1 = num")
      case True
      then show ?thesis using free eq z Cons.prems(3) by (auto simp: Let_def)
    next
      case False
      have "contiguous_loop num s is' (count + 1) (if count = 0 then i else start)
          = first_fit (\<lambda>i. page_used i s) (unat num) is' (unat (count + 1)) (if unat count = 0 then i else start')"
        by (rule Cons.IH) (use False eq u Cons.prems z in auto)
      then show ?thesis using free False eq u by (simp add: Let_def)
    qed
  qed
qed simp

lemma contiguous_zero: "unat count + length is' < 4294967296 \<Longrightarrow> contiguous_loop 0 s is' count start = None"
proof (induction is' arbitrary: count start)
  case (Cons i is')
  have u: "unat (count + 1) = Suc (unat count)" using Cons.prems by (intro unat_plus_one_u32) simp
  then have "count + 1 \<noteq> 0" by (metis nat.distinct(1) unat_0)
  then show ?case using Cons.IH [of "count + 1"] Cons.IH [of 0 0] Cons.prems u by (simp add: Let_def)
qed simp

lemma find_contiguous_cases:
  obtains (run) k where "find_contiguous_bits n s = Some k" "n \<noteq> 0" "k + unat n \<le> VIRT_PAGES"
      "free_run (\<lambda>i. page_used i s) k (unat n)" "\<And>j. j < k \<Longrightarrow> \<not> free_run (\<lambda>i. page_used i s) j (unat n)"
    | (no_run) "find_contiguous_bits n s = None"
      "n = 0 \<or> (\<forall>j. j + unat n \<le> VIRT_PAGES \<longrightarrow> \<not> free_run (\<lambda>i. page_used i s) j (unat n))"
proof (cases "n = 0")
  case True
  then have "find_contiguous_bits n s = None"
    using contiguous_zero [of 0 "[0..<VIRT_PAGES]" s 0] by (simp add: find_contiguous_bits_def VIRT_PAGES_def del: upt_conv_Cons upt_rec_numeral)
  then show thesis using no_run True by blast
next
  case False
  then have n: "0 < unat n" by (simp add: unat_eq_0 zero_less_iff_neq_zero)
  have e: "find_contiguous_bits n s = first_fit (\<lambda>i. page_used i s) (unat n) [0..<VIRT_PAGES] 0 0"
    unfolding find_contiguous_bits_def using contiguous_first_fit [of 0 n "[0..<VIRT_PAGES]" 0 0 s] n
    by (simp add: VIRT_PAGES_def del: upt_conv_Cons upt_rec_numeral)
  show thesis
  proof (cases "find_contiguous_bits n s")
    case None
    then show thesis using no_run first_fit_None [OF None [unfolded e] n] by blast
  next
    case (Some k)
    show thesis
      by (rule run [OF Some False]) (use first_fit_Some [OF Some [unfolded e] n] in auto)
  qed
qed

section \<open>Allocation and release\<close>

definition pages_live :: "(nat \<rightharpoonup> nat) \<Rightarrow> nat set \<Rightarrow> nat \<Rightarrow> nat \<Rightarrow> bool" where
  "pages_live A M k n \<longleftrightarrow> (\<exists>j. k \<le> j \<and> j < k + n \<and> j \<in> dom A \<union> M)"

lemma free_run_live:
  assumes "vm_inv s A M" "k + n \<le> VIRT_PAGES"
  shows "free_run (\<lambda>i. page_used i s) k n = (\<not> pages_live A M k n)"
  using vm_invD(4) [OF assms(1)] assms(2) by (auto simp: free_run_def pages_live_def)

text \<open>Every outcome of \<open>vmm_alloc_pages\<close>.\<close>

definition alloc_outcome :: "vmm \<Rightarrow> (nat \<rightharpoonup> nat) \<Rightarrow> nat set \<Rightarrow> nat \<Rightarrow> vm_panic + u32 \<times> vmm \<Rightarrow> bool" where
  "alloc_outcome s A M n r \<longleftrightarrow>
     (case r of
        Inl p \<Rightarrow> n = 0 \<or> card (free_frames (frames s)) < n \<or> (\<forall>k. k + n \<le> VIRT_PAGES \<longrightarrow> pages_live A M k n)
      | Inr (a, s') \<Rightarrow> \<exists>k fs. a = page_addr k \<and> 0 < n \<and> length fs = n \<and> k + n \<le> VIRT_PAGES \<and> \<not> pages_live A M k n
            \<and> (\<forall>j < k. pages_live A M j n) \<and> pages_taken s A M k fs s')"

lemma alloc_pages_full:
  assumes inv: "vm_inv s A M"
  shows "alloc_outcome s A M (unat n) (vmm_alloc_pages n s)"
proof (cases rule: find_contiguous_cases [of n s])
  case (run k)
  have live: "\<not> pages_live A M k (unat n)" using run(4) free_run_live [OF inv run(3)] by simp
  have low: "pages_live A M j (unat n)" if "j < k" for j
    using run(5) [OF that] free_run_live [OF inv, of j "unat n"] run(3) that by simp
  have out: "j \<notin> dom A \<union> M" if "k \<le> j" "j < k + unat n" for j using live that by (auto simp: pages_live_def)
  have n: "0 < unat n" using run(2) by (simp add: unat_eq_0 zero_less_iff_neq_zero)
  have "(\<exists>fs s'. alloc_pages_loop (unat n) k s = Some s' \<and> length fs = unat n \<and> pages_taken s A M k fs s')
      \<or> alloc_pages_loop (unat n) k s = None \<and> card (free_frames (frames s)) < unat n"
    by (rule alloc_loop_cases [OF inv run(3)]) (rule out)
  then show ?thesis
  proof (elim disjE exE conjE)
    fix fs s' assume "alloc_pages_loop (unat n) k s = Some s'" "length fs = unat n" "pages_taken s A M k fs s'"
    then show ?thesis using run(1,3) live low n by (auto simp: alloc_outcome_def vmm_alloc_pages_def)
  next
    assume "alloc_pages_loop (unat n) k s = None" "card (free_frames (frames s)) < unat n"
    then show ?thesis using run(1) by (simp add: alloc_outcome_def vmm_alloc_pages_def)
  qed
next
  case no_run
  have "pages_live A M k (unat n)" if "k + unat n \<le> VIRT_PAGES" "n \<noteq> 0" for k
    using no_run(2) free_run_live [OF inv that(1)] that by blast
  then show ?thesis using no_run(1) by (auto simp: alloc_outcome_def vmm_alloc_pages_def unat_eq_0)
qed

lemma page_addr_align:
  assumes "k < VIRT_PAGES"
  shows "page_addr k AND NOT 0xFFF = page_addr k" "VM_START \<le> page_addr k" "page_addr k < VM_END"
    "unat ((page_addr k - VM_START) div PAGE_SIZE) = k"
proof -
  have k: "k < 65536" using assms by (simp add: VIRT_PAGES_def)
  note u = vpn_page_addr(1) [OF assms]
  have "page_addr k = of_nat (65536 + k) * 4096"
    by (simp add: page_addr_def VM_START_def PAGE_SIZE_def algebra_simps)
  then show "page_addr k AND NOT 0xFFF = page_addr k" by (metis frame_align)
  show "VM_START \<le> page_addr k" "page_addr k < VM_END"
    using u k by (simp_all add: word_le_nat_alt word_less_nat_alt VM_START_def VM_END_def)
  have "unat (page_addr k - VM_START) = k * 4096" using u by (subst unat_sub_u32) (simp_all add: VM_START_def)
  then show "unat ((page_addr k - VM_START) div PAGE_SIZE) = k" by (simp add: unat_div_distrib PAGE_SIZE_def)
qed

lemma free_pages_full:
  assumes inv: "vm_inv s A M" and n: "k + unat n \<le> VIRT_PAGES" "k < VIRT_PAGES"
    and live: "\<And>j. k \<le> j \<Longrightarrow> j < k + unat n \<Longrightarrow> j \<in> dom A"
  shows "\<exists>s'. vmm_free_pages (page_addr k) n s = Some s' \<and> vm_inv s' (drop_range A k (unat n)) M
    \<and> free_frames (frames s') = free_frames (frames s) \<union> {f. \<exists>j. k \<le> j \<and> j < k + unat n \<and> A j = Some f}
    \<and> same_elsewhere k (unat n) s s'"
proof -
  note a = page_addr_align [OF n(2)]
  have "vmm_free_pages (page_addr k) n s = free_pages_loop (unat n) k s"
    unfolding vmm_free_pages_def a(1) Let_def a(4) using a(2,3) by (simp add: not_less [symmetric])
  then show ?thesis using free_loop_full [OF inv, of k "unat n"] live by simp
qed

section \<open>Device regions\<close>

lemma take_device_page:
  fixes p :: u32
  assumes inv: "vm_inv s A M" and i: "i < VIRT_PAGES" "i \<notin> dom A \<union> M" and fl: "flags AND VM_PRESENT \<noteq> 0"
  defines "s' \<equiv> page_set i (vmm_map_page p (page_addr i) flags s)"
  shows "vm_inv s' A (insert i M)" "frames s' = frames s"
    "mapping n s' = (if n = WP i then Some ((p AND NOT 0xFFF) OR flags) else mapping n s)"
proof -
  note D = vm_invD [OF inv]
  note m = map_page_mapping [OF D(1) fl, where p = p and v = "page_addr i"]
  show map: "mapping n s' = (if n = WP i then Some ((p AND NOT 0xFFF) OR flags) else mapping n s)" for n
    unfolding s'_def page_bits m(1) vpn_page [OF i(1)] by simp
  show fr: "frames s' = frames s" using m(3) by (simp add: s'_def)
  have used: "page_used j s' = (j = i \<or> page_used j s)" if "j < VIRT_PAGES" for j
    using vb.used_set [where s = "vmm_map_page p (page_addr i) flags s" and i = i and j = j] i(1) that
      page_used_virt [OF m(4), of j] by (simp add: s'_def)
  have ne: "j \<noteq> i" if "A j = Some f" for j f using i(2) that by auto
  show "vm_inv s' A (insert i M)"
    unfolding vm_inv_def
  proof (intro conjI allI impI)
    show "tables_ok s'" using m(2) by (simp add: s'_def)
  next
    fix j f assume "A j = Some f"
    then show "mapping (WP j) s' = Some (of_nat f * 4096 OR (VM_PRESENT OR VM_READWRITE))"
      using map D(9) ne by auto
  qed (use i D(2-8,10,11) used map in \<open>auto simp: fr\<close>)
qed

definition device_pages :: "u32 \<Rightarrow> u32 \<Rightarrow> u32" where
  "device_pages p sz = (sz + (p AND (PAGE_SIZE - 1)) + (PAGE_SIZE - 1)) div PAGE_SIZE"

lemma mmio_fold:
  fixes start :: u32
  assumes "vm_inv s A M" "k + n \<le> VIRT_PAGES" "\<not> pages_live A M k n" "flags AND VM_PRESENT \<noteq> 0"
  defines "t \<equiv> fold (\<lambda>i t. page_set (k + i) (vmm_map_page (start + of_nat i * PAGE_SIZE) (page_addr (k + i)) flags t)) [0..<n] s"
  shows "vm_inv t A (M \<union> {k..<k + n}) \<and> frames t = frames s \<and> same_elsewhere k n s t
    \<and> (\<forall>i < n. mapping (WP (k + i)) t = Some (((start + of_nat i * PAGE_SIZE) AND NOT 0xFFF) OR flags))"
  using assms(2,3) unfolding t_def
proof (induction n)
  case 0
  then show ?case using assms(1) by (simp add: same_elsewhere_def)
next
  case (Suc n)
  let ?f = "\<lambda>i t. page_set (k + i) (vmm_map_page (start + of_nat i * PAGE_SIZE) (page_addr (k + i)) flags t)"
  let ?t = "fold ?f [0..<n] s"
  have "\<not> pages_live A M k n" using Suc.prems(2) by (auto simp: pages_live_def)
  then have ih: "vm_inv ?t A (M \<union> {k..<k + n})" "frames ?t = frames s" "same_elsewhere k n s ?t"
    "\<forall>i < n. mapping (WP (k + i)) ?t = Some (((start + of_nat i * PAGE_SIZE) AND NOT 0xFFF) OR flags)"
    using Suc.IH Suc.prems(1) by simp_all
  have i: "k + n < VIRT_PAGES" "k + n \<notin> dom A \<union> (M \<union> {k..<k + n})"
    using Suc.prems by (auto simp: pages_live_def)
  note st = take_device_page [OF ih(1) i assms(4), where p = "start + of_nat n * PAGE_SIZE"]
  have M: "insert (k + n) (M \<union> {k..<k + n}) = M \<union> {k..<k + Suc n}" by auto
  have f: "fold ?f [0..<Suc n] s = ?f n ?t" by simp
  have "same_elsewhere k (Suc n) s (?f n ?t)"
    using ih(3) st(3) by (auto simp: same_elsewhere_def WP_def)
  moreover have "mapping (WP (k + i)) (?f n ?t) = Some (((start + of_nat i * PAGE_SIZE) AND NOT 0xFFF) OR flags)" if "i < Suc n" for i
    using ih(4) st(3) that by (cases "i = n") auto
  ultimately show ?case unfolding f using st(1,2) ih(2) M by simp
qed

lemma map_mmio_full:
  fixes p sz :: u32
  assumes inv: "vm_inv s A M" and fl: "flags AND VM_PRESENT \<noteq> 0"
  defines "n \<equiv> unat (device_pages p sz)"
  shows "vmm_map_mmio_region p sz flags s = (0, s) \<and> (n = 0 \<or> (\<forall>k. k + n \<le> VIRT_PAGES \<longrightarrow> pages_live A M k n))
    \<or> (\<exists>k s'. vmm_map_mmio_region p sz flags s = (page_addr k + (p AND (PAGE_SIZE - 1)), s') \<and> k + n \<le> VIRT_PAGES
        \<and> \<not> pages_live A M k n \<and> vm_inv s' A (M \<union> {k..<k + n}) \<and> frames s' = frames s \<and> same_elsewhere k n s s'
        \<and> (\<forall>i < n. mapping (WP (k + i)) s' = Some ((((p AND NOT (PAGE_SIZE - 1)) + of_nat i * PAGE_SIZE) AND NOT 0xFFF) OR flags)))"
proof (cases rule: find_contiguous_cases [of "device_pages p sz" s])
  case (run k)
  have k: "k + n \<le> VIRT_PAGES" using run(3) by (simp add: n_def)
  have live: "\<not> pages_live A M k n" using run(4) free_run_live [OF inv k] by (simp add: n_def)
  show ?thesis
    using mmio_fold [OF inv k live fl, of "p AND NOT (PAGE_SIZE - 1)"] run(1) k live
    by (intro disjI2 exI [of _ k]) (simp add: vmm_map_mmio_region_def device_pages_def [symmetric] n_def Let_def)
next
  case no_run
  have "pages_live A M k n" if "k + n \<le> VIRT_PAGES" "n \<noteq> 0" for k
    using no_run(2) free_run_live [OF inv that(1)] that by (auto simp: n_def unat_eq_0)
  then show ?thesis
    using no_run(1) by (simp add: vmm_map_mmio_region_def device_pages_def [symmetric] Let_def) blast
qed

section \<open>Start-up\<close>

definition pmm_ok :: "pmm \<Rightarrow> bool" where
  "pmm_ok s \<longleftrightarrow> (\<forall>f < FRAMES. \<not> frame_used f s \<longrightarrow> f < unat (total_frames s))"

lemma identity_word:
  assumes "n < FRAMES"
  shows "identity_address (n div 1024) (n mod 1024) = of_nat n * 4096"
proof -
  have "(of_nat (n div 1024) * 1024 + of_nat (n mod 1024) :: u32) = of_nat (n div 1024 * 1024 + n mod 1024)"
    by (simp only: of_nat_add of_nat_mult of_nat_numeral)
  also have "n div 1024 * 1024 + n mod 1024 = n" by simp
  finally have e: "(of_nat (n div 1024) * 1024 + of_nat (n mod 1024) :: u32) = of_nat n" .
  have "identity_address (n div 1024) (n mod 1024) = (of_nat (n div 1024) * 1024 + of_nat (n mod 1024)) * 4096"
    by (simp add: identity_address_def PAGE_SIZE_def algebra_simps)
  then show ?thesis unfolding e .
qed

lemma vmm_init_mapping:
  assumes "n < FRAMES"
  shows "mapping n (vmm_init pat sz s)
    = (if n * 4096 < unat sz then Some (of_nat n * 4096 OR (VM_PRESENT OR VM_READWRITE)) else None)"
    and "tables_ok (vmm_init pat sz s)"
proof -
  let ?s = "vmm_init pat sz s"
  have tables: "static_page_tables ?s = (\<lambda>pd pt.
         if pd < 1024 \<and> pt < 1024 \<and> identity_address pd pt < sz
         then identity_address pd pt OR VM_PRESENT OR VM_READWRITE else 0)"
    "page_directory ?s = (\<lambda>pd.
         if pd < 1024 \<and> list_ex (\<lambda>pt. identity_address pd pt < sz) [0..<1024]
         then table_entry pd s else 0)"
    by (simp_all add: vmm_init_def vmm_pat_init_def)
  have te: "table_entry pd s AND VM_PRESENT \<noteq> 0" for pd
    unfolding present_bit by (simp add: table_entry_def VM_PRESENT_def bit_simps)
  have dir: "directory_present m ?s = (m div 1024 < 1024 \<and> (\<exists>pt < 1024. identity_address (m div 1024) pt < sz))" for m
    using te unfolding directory_present_def tables(2) list_ex_iff by auto
  have nd: "n div 1024 < 1024" using assms by (simp add: FRAMES_def)
  have id: "(identity_address (n div 1024) (n mod 1024) < sz) = (n * 4096 < unat sz)"
    unfolding identity_word [OF assms] word_less_nat_alt frame_word(2) [OF assms] ..
  have ent: "entry n ?s = (if n * 4096 < unat sz then of_nat n * 4096 OR (VM_PRESENT OR VM_READWRITE) else 0)"
    unfolding entry_def tables(1) id using nd by (simp add: identity_word [OF assms] or.assoc)
  show "mapping n ?s = (if n * 4096 < unat sz then Some (of_nat n * 4096 OR (VM_PRESENT OR VM_READWRITE)) else None)"
  proof (cases "n * 4096 < unat sz")
    case True
    then have "directory_present n ?s" using nd id unfolding dir by (intro conjI exI [of _ "n mod 1024"]) simp_all
    then show ?thesis using True frame_entry(1) [of n] by (simp add: mapping_def ent)
  qed (simp add: mapping_def ent)
  show "tables_ok ?s"
    unfolding tables_ok_def
  proof (intro allI impI)
    fix m assume "\<not> directory_present m ?s"
    then have "\<not> (m div 1024 < 1024 \<and> identity_address (m div 1024) (m mod 1024) < sz)"
      unfolding dir by (meson mod_less_divisor zero_less_numeral)
    then show "entry m ?s AND VM_PRESENT = 0" by (auto simp: entry_def tables(1))
  qed
qed

lemma vmm_init_inv:
  assumes p: "pmm_ok (frames s)" and sz: "sz \<le> VM_START"
  shows "vm_inv (vmm_init pat sz s) Map.empty {}"
proof -
  let ?s = "vmm_init pat sz s"
  have fr: "frames ?s = frames s" "virt_bitmap ?s = (\<lambda>i. 0)" by (simp_all add: vmm_init_def vmm_pat_init_def)
  have "mapping (WP i) ?s = None" if "i < VIRT_PAGES" for i
  proof -
    have "WP i < FRAMES" using that by (simp add: WP_def VIRT_PAGES_def FRAMES_def)
    moreover have "\<not> WP i * 4096 < unat sz" using sz by (simp add: WP_def VM_START_def word_le_nat_alt)
    ultimately show ?thesis using vmm_init_mapping(1) by simp
  qed
  moreover have "tables_ok ?s" by (rule vmm_init_mapping(2) [of 0]) (simp add: FRAMES_def)
  moreover have "\<not> page_used i ?s" for i by (simp add: page_used_def fr)
  ultimately show ?thesis using p by (simp add: vm_inv_def fr pmm_ok_def)
qed

end
