(* ===== verification/VmmBoot.thy ===== *)
theory VmmBoot
  imports VmmSpec
begin

text \<open>
  The frames the boot loader's memory map makes available, and translation of addresses in both directions.
\<close>

unbundle bit_operations_syntax

section \<open>Frames from the memory map\<close>

text \<open>A page lies in an available entry as a whole.\<close>

definition page_available :: "mmap_entry \<Rightarrow> nat \<Rightarrow> bool" where
  "page_available e f \<longleftrightarrow> me_type e = MULTIBOOT_MEMORY_AVAILABLE
     \<and> unat (me_addr e) \<le> f * 4096 \<and> f * 4096 + 4096 \<le> unat (me_addr e) + unat (me_len e)"

definition mmap_entry_ok :: "mmap_entry \<Rightarrow> bool" where
  "mmap_entry_ok e \<longleftrightarrow> unat (me_addr e) + unat (me_len e) + 4095 < 18446744073709551616"

lemma release_page_eq:
  assumes f: "f < FRAMES"
  shows "release_page b (of_nat f * 4096) s
    = (if f * 4096 < unat b then s
       else (frame_clear f s)\<lparr>total_frames := if f < unat (total_frames s) then total_frames s else of_nat f + 1\<rparr>)"
proof -
  have f': "f < 1048576" using f by (simp add: FRAMES_def)
  have u: "unat (of_nat f * 4096 :: u64) = f * 4096" using f' by (simp add: unat_word_ariths unat_of_nat)
  have q: "unat (drop_bit 12 (of_nat f * 4096 :: u64)) = f" using u by (simp add: drop_bit_eq_div unat_div_distrib)
  have "of_nat (unat (drop_bit 12 (of_nat f * 4096 :: u64))) = (ucast (drop_bit 12 (of_nat f * 4096 :: u64)) :: u32)"
    by (rule of_nat_unat)
  then have fr: "(ucast (drop_bit 12 (of_nat f * 4096 :: u64)) :: u32) = of_nat f"
    unfolding q by (rule sym)
  have "uint (ucast b :: u64) = uint b" by (rule uint_up_ucast) (simp add: is_up)
  then have "nat (uint (ucast b :: u64)) = nat (uint b)" by (rule arg_cong)
  then have "unat (ucast b :: u64) = unat b" unfolding nat_uint_eq .
  then have lt: "((of_nat f * 4096 :: u64) < ucast b) = (f * 4096 < unat b)"
    by (simp only: word_less_nat_alt u)
  note w = frame_word [OF f]
  have "unat ((of_nat f :: u32) div 32) = f div 32" "unat ((of_nat f :: u32) mod 32) = f mod 32"
    using w(5) by (simp_all add: unat_div_distrib unat_mod_distrib)
  moreover have "(total_frames s \<le> of_nat f) = (\<not> f < unat (total_frames s))" using w(5) by (simp add: word_le_nat_alt not_less)
  ultimately show ?thesis by (simp add: release_page_def fr lt frame_clear_def Let_def)
qed

text \<open>What releasing frames keeps: everything free is below \<open>total_frames\<close>, and the rest is as it was.\<close>

definition released :: "nat set \<Rightarrow> pmm \<Rightarrow> pmm \<Rightarrow> bool" where
  "released F s s' \<longleftrightarrow> (\<forall>f < FRAMES. frame_used f s' = (frame_used f s \<and> f \<notin> F))
     \<and> unat (total_frames s) \<le> unat (total_frames s') \<and> (\<forall>f \<in> F. f < unat (total_frames s'))"

lemma released_refl [simp]: "released {} s s"
  by (simp add: released_def)

lemma released_trans: "released F s t \<Longrightarrow> released G t u \<Longrightarrow> released (F \<union> G) s u"
  by (auto simp: released_def)

lemma release_page_released:
  assumes f: "f < FRAMES"
  shows "released (if unat b \<le> f * 4096 then {f} else {}) s (release_page b (of_nat f * 4096) s)"
proof -
  have t: "unat ((of_nat f :: u32) + 1) = Suc f"
    using f frame_word(5) [OF f] by (subst unat_plus_one_u32) (simp_all add: FRAMES_def)
  have u: "frame_used g (frame_clear f s) = (g \<noteq> f \<and> frame_used g s)" if "g < FRAMES" for g
    using fb.used_clear [where s = s and i = f and j = g] f that by auto
  have k: "frame_used g (s\<lparr>total_frames := x\<rparr>) = frame_used g s" for g x and s :: pmm by (simp add: frame_used_def)
  show ?thesis
    using t by (auto simp: release_page_eq [OF f] released_def k u)
qed

lemma upto_Suc_set:
  "{f. a \<le> f \<and> f < a + Suc n \<and> P f} = {f. a \<le> f \<and> f < a + n \<and> P f} \<union> (if P (a + n) then {a + n} else {})"
  by (auto simp: less_Suc_eq)

lemma release_pages_released:
  assumes "a + n \<le> FRAMES"
  shows "released {f. a \<le> f \<and> f < a + n \<and> unat b \<le> f * 4096} s
    (fold (\<lambda>i. release_page b (of_nat a * 4096 + of_nat i * 4096)) [0..<n] s)"
  using assms
proof (induction n)
  case (Suc n)
  let ?t = "fold (\<lambda>i. release_page b (of_nat a * 4096 + of_nat i * 4096)) [0..<n] s"
  have e: "(of_nat a * 4096 + of_nat n * 4096 :: u64) = of_nat (a + n) * 4096" by (simp add: algebra_simps)
  note s = upto_Suc_set [of a n "\<lambda>f. unat b \<le> f * 4096"]
  have "released {f. a \<le> f \<and> f < a + n \<and> unat b \<le> f * 4096} s ?t" using Suc by simp
  then have "released {f. a \<le> f \<and> f < a + Suc n \<and> unat b \<le> f * 4096} s (release_page b (of_nat (a + n) * 4096) ?t)"
    unfolding s by (rule released_trans) (rule release_page_released, use Suc.prems in simp)
  then show ?case unfolding e [symmetric] by simp
qed (auto simp: released_def)

lemma align_u64: "(w :: u64) AND NOT 4095 = of_nat (unat w div 4096) * 4096" "unat (w AND NOT 4095) = unat w div 4096 * 4096"
proof -
  have "unat w < 2 ^ LENGTH(64)" by (rule unsigned_less)
  then have bl: "unat w < 18446744073709551616" by simp
  have m: "(4095 :: u64) = mask 12" by (simp add: mask_eq_exp_minus_1)
  have "w AND NOT 4095 = push_bit 12 (drop_bit 12 w)" unfolding m by (rule bit_word_eqI) (auto simp: bit_simps)
  also have "\<dots> = drop_bit 12 w * 4096" by (simp add: push_bit_eq_mult)
  also have d: "drop_bit 12 w = of_nat (unat w div 4096)"
    using bl by (simp add: drop_bit_eq_div word_unat_eq_iff unat_div_distrib unat_of_nat)
  finally show e: "w AND NOT 4095 = of_nat (unat w div 4096) * 4096" .
  have "unat w div 4096 * 4096 < 18446744073709551616" using bl by arith
  then show "unat (w AND NOT 4095) = unat w div 4096 * 4096"
    unfolding e by (simp add: unat_word_ariths unat_of_nat mod_mult_left_eq)
qed

definition freed_by :: "u32 \<Rightarrow> mmap_entry \<Rightarrow> nat set" where
  "freed_by b e = {f. f < FRAMES \<and> page_available e f \<and> unat b \<le> f * 4096}"

lemma release_region_released:
  assumes ok: "mmap_entry_ok e"
  shows "released (freed_by b e) s (release_region b e s)"
proof (cases "me_type e = MULTIBOOT_MEMORY_AVAILABLE")
  case False
  then show ?thesis by (simp add: freed_by_def page_available_def release_region_def)
next
  case True
  let ?x = "unat (me_addr e)" and ?y = "unat (me_addr e) + unat (me_len e)"
  define w where "w = (if me_addr e + me_len e > 0x100000000 then 0x100000000 else me_addr e + me_len e)"
  define a where "a = (?x + 4095) div 4096"
  define z where "z = min ?y 4294967296 div 4096"
  have s: "unat (me_addr e + 4095) = ?x + 4095" "unat (me_addr e + me_len e) = ?y"
    using ok by (simp_all add: mmap_entry_ok_def unat_word_ariths)
  have "unat w = min ?y 4294967296" using s(2) by (auto simp: w_def word_less_nat_alt)
  then have ends: "(me_addr e + 4095) AND NOT 4095 = of_nat a * 4096" "unat ((me_addr e + 4095) AND NOT 4095) = a * 4096"
    "unat (w AND NOT 4095) = z * 4096"
    unfolding a_def z_def align_u64(2) s by (simp_all only: align_u64(1) s)
  have lt: "((me_addr e + 4095) AND NOT 4095 < w AND NOT 4095) = (a < z)"
    unfolding word_less_nat_alt ends(2,3) by (rule mult_less_cancel2 [THEN trans]) simp
  have n: "(if (me_addr e + 4095) AND NOT 4095 < w AND NOT 4095
       then unat ((w AND NOT 4095) - ((me_addr e + 4095) AND NOT 4095)) div 4096 else 0) = z - a"
  proof (cases "a < z")
    case True
    then have "(me_addr e + 4095) AND NOT 4095 \<le> w AND NOT 4095" using lt by (simp add: less_imp_le)
    then have "unat ((w AND NOT 4095) - ((me_addr e + 4095) AND NOT 4095)) = z * 4096 - a * 4096"
      unfolding unat_sub_if' word_le_nat_alt ends(2,3) by simp
    then show ?thesis unfolding lt using True by (simp add: diff_mult_distrib [symmetric])
  next
    case False
    then show ?thesis unfolding lt by simp
  qed
  have r: "release_region b e s = fold (\<lambda>i. release_page b (of_nat a * 4096 + of_nat i * 4096)) [0..<z - a] s"
    using True unfolding release_region_def Let_def w_def [symmetric] n unfolding ends(1) by simp
  have z: "z \<le> FRAMES" by (simp add: z_def FRAMES_def min_def div_le_mono [of _ 4294967296 4096, simplified])
  have av: "page_available e f = (a \<le> f \<and> f < z)" if "f < FRAMES" for f
  proof -
    have "?x \<le> f * 4096 \<longleftrightarrow> a \<le> f" unfolding a_def by arith
    moreover have "f * 4096 + 4096 \<le> ?y \<longleftrightarrow> f < z" using that unfolding z_def FRAMES_def by arith
    ultimately show ?thesis using True by (simp add: page_available_def)
  qed
  have F: "freed_by b e = {f. a \<le> f \<and> f < a + (z - a) \<and> unat b \<le> f * 4096}"
    using av z by (auto simp: freed_by_def)
  show ?thesis
  proof (cases "a \<le> z")
    case True
    then show ?thesis unfolding r F using z by (intro release_pages_released) simp
  next
    case False
    then have "freed_by b e = {}" unfolding F by auto
    then show ?thesis unfolding r using False by simp
  qed
qed

text \<open>The entries the walk meets, in order.\<close>

inductive mmap_list :: "memory \<Rightarrow> u32 \<Rightarrow> u32 \<Rightarrow> mmap_entry list \<Rightarrow> bool" where
  stop: "\<not> a < z \<Longrightarrow> mmap_list m a z []"
| step: "a < z \<Longrightarrow> mmap_list m (a + me_size (read_mmap_entry m a) + 4) z es \<Longrightarrow> mmap_list m a z (read_mmap_entry m a # es)"

lemma mmap_walk_released:
  assumes "mmap_list m a z es" "\<forall>e \<in> set es. mmap_entry_ok e"
  shows "\<exists>s'. mmap_walk m b a z s = Some s' \<and> released (\<Union> (freed_by b ` set es)) s s'"
  using assms
proof (induction arbitrary: s rule: mmap_list.induct)
  case (stop a z m)
  then show ?case by (simp add: mmap_walk.simps)
next
  case (step a z m es)
  let ?e = "read_mmap_entry m a"
  obtain s' where w: "mmap_walk m b (a + me_size ?e + 4) z (release_region b ?e s) = Some s'"
    and r: "released (\<Union> (freed_by b ` set es)) (release_region b ?e s) s'"
    using step.IH [of "release_region b ?e s"] step.prems by auto
  have "released (freed_by b ?e) s (release_region b ?e s)" using step.prems by (intro release_region_released) simp
  from released_trans [OF this r] have "released (\<Union> (freed_by b ` set (?e # es))) s s'" by simp
  then show ?case using w step.hyps(1) by (subst mmap_walk.simps) (simp add: Let_def)
qed

lemma pmm_init_full:
  assumes mb: "mb_flags i AND 2 ^ 6 \<noteq> 0" and l: "mmap_list m (mb_mmap_addr i) (mb_mmap_addr i + mb_mmap_length i) es"
    and ok: "\<forall>e \<in> set es. mmap_entry_ok e"
  shows "\<exists>s'. pmm_init m (Some i) b s = Some (Inr s') \<and> free_frames s' = \<Union> (freed_by b ` set es) \<and> pmm_ok s'"
proof -
  let ?s = "s\<lparr>pmm_bitmap := \<lambda>i. 0xFFFFFFFF\<rparr>"
  have u: "frame_used f ?s" for f
    using word_full [OF refl, of "f mod 32"] by (simp add: frame_used_def)
  obtain s' where w: "mmap_walk m b (mb_mmap_addr i) (mb_mmap_addr i + mb_mmap_length i) ?s = Some s'"
    and r: "released (\<Union> (freed_by b ` set es)) ?s s'"
    using mmap_walk_released [OF l ok] by blast
  have lt: "f < FRAMES" if "f \<in> \<Union> (freed_by b ` set es)" for f using that by (auto simp: freed_by_def)
  have fr: "free_frames s' = \<Union> (freed_by b ` set es)"
    using r lt u by (auto simp: free_frames_def released_def)
  moreover have "pmm_ok s'" using r u unfolding pmm_ok_def released_def by blast
  ultimately show ?thesis using w mb by (simp add: pmm_init_def Let_def)
qed

end
