(* ===== verification/VmmSystem.thy ===== *)
theory VmmSystem
  imports VmmBoot
begin

text \<open>
  Translation of addresses in both directions, and every history of the page allocator from start-up.
\<close>

unbundle bit_operations_syntax

section \<open>Translation\<close>

lemma offset_add:
  assumes "n < FRAMES" "off < 4096"
  shows "unat (of_nat n * 4096 + of_nat off :: u32) = n * 4096 + off"
    "vpn (of_nat n * 4096 + of_nat off) = n" "(of_nat n * 4096 + of_nat off :: u32) AND 0xFFF = of_nat off"
proof -
  have n: "n < 1048576" using assms(1) by (simp add: FRAMES_def)
  have o: "unat (of_nat off :: u32) = off" using assms(2) by (intro unat_of_nat_u32) simp
  show u: "unat (of_nat n * 4096 + of_nat off :: u32) = n * 4096 + off"
    using n assms(2) frame_word(2) [OF assms(1)] o by (subst unat_add_u32) simp_all
  show "vpn (of_nat n * 4096 + of_nat off) = n" using assms(2) by (simp add: vpn_def u)
  have "unat ((of_nat n * 4096 + of_nat off :: u32) AND 0xFFF) = off"
    unfolding page_mask take_bit_eq_mask [symmetric] using u assms(2)
    by (simp add: take_bit_eq_mod unat_mod_distrib)
  then show "(of_nat n * 4096 + of_nat off :: u32) AND 0xFFF = of_nat off" using o by (simp add: word_unat_eq_iff)
qed

lemma page_addr_WP: "page_addr i = of_nat (WP i) * 4096"
  by (simp add: page_addr_def WP_def VM_START_def PAGE_SIZE_def algebra_simps)

lemma WP_less: "i < VIRT_PAGES \<Longrightarrow> WP i < FRAMES"
  by (simp add: WP_def VIRT_PAGES_def FRAMES_def)

lemma live_page_phys:
  assumes inv: "vm_inv s A M" and f: "A i = Some f" and off: "off < 4096"
  shows "vmm_get_phys_addr (page_addr i + of_nat off) s = of_nat f * 4096 + of_nat off"
    "unat (vmm_get_phys_addr (page_addr i + of_nat off) s) = f * 4096 + off"
proof -
  note D = vm_invD [OF inv]
  note o = offset_add [OF WP_less [OF D(12) [OF f]] off]
  show "vmm_get_phys_addr (page_addr i + of_nat off) s = of_nat f * 4096 + of_nat off"
    unfolding phys_addr_mapping page_addr_WP o(2,3) D(9) [OF f] option.case frame_entry(2) ..
  then show "unat (vmm_get_phys_addr (page_addr i + of_nat off) s) = f * 4096 + off"
    using offset_add(1) [OF D(6) [OF f] off] by simp
qed

lemma product_upt: "0 < b \<Longrightarrow> List.product [0..<a] [0..<b] = map (\<lambda>n. (n div b, n mod b)) [0..<a * b]"
proof (induction a)
  case (Suc a)
  have "map (\<lambda>n. (n div b, n mod b)) [a * b..<a * b + b] = map (\<lambda>n. (a, n)) [0..<b]"
    by (rule nth_equalityI) (use Suc.prems in \<open>simp_all add: div_add1_eq\<close>)
  moreover have "[0..<Suc a * b] = [0..<a * b] @ [a * b..<a * b + b]"
    using upt_add_eq_append [of 0 "a * b" b] by (simp add: add.commute)
  moreover have "List.product (xs @ [x]) ys = List.product xs ys @ map (Pair x) ys" for xs :: "nat list" and x and ys :: "nat list"
    by (induction xs) simp_all
  ultimately show ?case using Suc by simp
qed simp

lemma find_map_eq: "find P (map g xs) = map_option g (find (\<lambda>x. P (g x)) xs)"
  by (induction xs) auto

lemma find_upt_cases:
  obtains (found) k where "find P [0..<n] = Some k" "k < n" "P k" "\<And>j. j < k \<Longrightarrow> \<not> P j"
    | (none) "find P [0..<n] = None" "\<And>j. j < n \<Longrightarrow> \<not> P j"
proof (cases "find P [0..<n]")
  case None
  then show thesis by (intro none) (auto simp: find_None_iff)
next
  case (Some k)
  show thesis by (rule found [OF Some]) (use find_upt_first [OF Some] in auto)
qed

lemma frame_of_addr: "(p :: u32) AND NOT 0xFFF = of_nat (vpn p) * 4096" "(p AND NOT 0xFFF) + (p AND 0xFFF) = p"
proof -
  have a: "p AND NOT 0xFFF = push_bit 12 (drop_bit 12 p)" unfolding page_mask by (rule bit_word_eqI) (auto simp: bit_simps)
  have "unat p < 2 ^ LENGTH(32)" by (rule unsigned_less)
  then have "unat p div 4096 < 4294967296" by simp
  then have "drop_bit 12 p = of_nat (vpn p)"
    by (simp add: drop_bit_eq_div vpn_def word_unat_eq_iff unat_div_distrib unat_of_nat_u32)
  then show "p AND NOT 0xFFF = of_nat (vpn p) * 4096" unfolding a by (simp add: push_bit_eq_mult)
  have "(p AND NOT 0xFFF) AND (p AND 0xFFF) = 0" by (rule bit_word_eqI) (auto simp: bit_simps)
  then have "(p AND NOT 0xFFF) + (p AND 0xFFF) = (p AND NOT 0xFFF) OR (p AND 0xFFF)" by (rule disjunctive_add_eq_or)
  also have "\<dots> = p" by (rule bit_word_eqI) (auto simp: bit_simps)
  finally show "(p AND NOT 0xFFF) + (p AND 0xFFF) = p" .
qed

definition maps_frame :: "u32 \<Rightarrow> vmm \<Rightarrow> nat \<Rightarrow> bool" where
  "maps_frame p s n \<longleftrightarrow> (\<exists>e. mapping n s = Some e \<and> e AND NOT 0xFFF = p AND NOT 0xFFF)"

lemma page_word:
  assumes "n < FRAMES"
  shows "push_bit 22 (of_nat (n div 1024)) OR push_bit 12 (of_nat (n mod 1024)) OR (p AND 0xFFF)
    = (of_nat n * 4096 + (p AND 0xFFF) :: u32)"
proof -
  let ?a = "push_bit 22 (of_nat (n div 1024)) :: u32" and ?b = "push_bit 12 (of_nat (n mod 1024)) :: u32"
  have "of_nat (n mod 1024) = (of_nat n AND mask 10 :: u32)" 
    using frame_word(5) [OF assms] by (simp add: take_bit_eq_mask [symmetric] word_unat_eq_iff take_bit_eq_mod unat_mod_distrib unat_of_nat_u32)
  then have b: "?b = push_bit 12 (of_nat n AND mask 10)" by simp
  have "of_nat (n div 1024) = (drop_bit 10 (of_nat n) :: u32)"
    using frame_word(5) [OF assms] assms by (simp add: drop_bit_eq_div word_unat_eq_iff unat_div_distrib unat_of_nat_u32 FRAMES_def)
  then have a: "?a = push_bit 22 (drop_bit 10 (of_nat n))" by simp
  have "?a OR ?b = push_bit 12 (of_nat n)" unfolding a b
  proof (rule bit_word_eqI)
    fix m assume "m < LENGTH(32)"
    moreover have "22 \<le> m \<Longrightarrow> 10 + (m - 22) = m - 12" by simp
    ultimately show "bit (push_bit 22 (drop_bit 10 (of_nat n)) OR push_bit 12 (of_nat n AND mask 10) :: u32) m
        = bit (push_bit 12 (of_nat n) :: u32) m"
      by (cases "22 \<le> m") (auto simp: bit_simps)
  qed
  moreover have "push_bit 12 (of_nat n) AND (p AND 0xFFF) = 0" unfolding page_mask by (rule bit_word_eqI) (auto simp: bit_simps)
  ultimately show ?thesis unfolding frame_shift disjunctive_add_eq_or by (simp add: or.assoc [symmetric] disjunctive_add_eq_or)
qed

lemma virt_addr_cases:
  obtains (found) n where "n < FRAMES" "maps_frame p s n" "\<And>m. m < n \<Longrightarrow> \<not> maps_frame p s m"
      "vmm_get_virt_addr p s = of_nat n * 4096 + (p AND 0xFFF)"
    | (none) "\<And>n. n < FRAMES \<Longrightarrow> \<not> maps_frame p s n" "vmm_get_virt_addr p s = 0"
proof -
  have P: "(page_directory s (n div 1024) AND VM_PRESENT \<noteq> 0 \<and> static_page_tables s (n div 1024) (n mod 1024) AND VM_PRESENT \<noteq> 0
                  \<and> static_page_tables s (n div 1024) (n mod 1024) AND NOT 0xFFF = p AND NOT 0xFFF) = maps_frame p s n" for n
    by (auto simp: maps_frame_def mapping_def entry_def directory_present_def)
  have prod: "List.product [0..<1024] [0..<1024] = map (\<lambda>n. (n div 1024, n mod 1024)) [0..<FRAMES]"
    using product_upt [of 1024 1024] by (simp add: FRAMES_def del: upt_rec_numeral)
  have v: "vmm_get_virt_addr p s = (case find (maps_frame p s) [0..<FRAMES] of None \<Rightarrow> 0
      | Some n \<Rightarrow> push_bit 22 (of_nat (n div 1024)) OR push_bit 12 (of_nat (n mod 1024)) OR (p AND 0xFFF))"
    unfolding vmm_get_virt_addr_def prod find_map_eq case_prod_conv P by (simp split: option.split)
  show thesis
  proof (cases rule: find_upt_cases [of "maps_frame p s" FRAMES])
    case (found n)
    then show thesis using that(1) [of n] page_word [of n p] v by simp
  next
    case none
    then show thesis using that(2) v by simp
  qed
qed

lemma virt_phys:
  assumes "n < FRAMES" "maps_frame p s n"
  shows "vmm_get_phys_addr (vmm_get_virt_addr p s) s = p"
proof (cases rule: virt_addr_cases [of p s])
  case (found k)
  obtain e where e: "mapping k s = Some e" "e AND NOT 0xFFF = p AND NOT 0xFFF" using found(2) by (auto simp: maps_frame_def)
  have "unat (p AND 0xFFF) < 4096" unfolding page_mask take_bit_eq_mask [symmetric] by (simp add: take_bit_eq_mod unat_mod_distrib)
  from offset_add(2,3) [OF found(1) this] have "vpn (vmm_get_virt_addr p s) = k" "vmm_get_virt_addr p s AND 0xFFF = p AND 0xFFF"
    by (simp_all add: found(4))
  then show ?thesis using e frame_of_addr(2) by (simp only: phys_addr_mapping option.case)
next
  case none
  then show ?thesis using assms by blast
qed

section \<open>Histories\<close>

text \<open>
  A history from start-up: allocations, releases of regions that are live, and device regions, in any
  order. The list holds the live regions, each with its address and its number of pages.
\<close>

inductive vm_history :: "vmm \<Rightarrow> vmm \<Rightarrow> (u32 \<times> u32) list \<Rightarrow> bool" for s0 :: vmm where
  start: "pmm_ok (frames s0) \<Longrightarrow> sz \<le> VM_START \<Longrightarrow> vm_history s0 (vmm_init has_pat sz s0) []"
| alloc: "vm_history s0 s L \<Longrightarrow> vmm_alloc_pages n s = Inr (a, s') \<Longrightarrow> vm_history s0 s' ((a, n) # L)"
| release: "vm_history s0 s (L1 @ (a, n) # L2) \<Longrightarrow> vmm_free_pages a n s = Some s' \<Longrightarrow> vm_history s0 s' (L1 @ L2)"
| device: "vm_history s0 s L \<Longrightarrow> flags AND VM_PRESENT \<noteq> 0 \<Longrightarrow> vmm_map_mmio_region p sz flags s = (a, s') \<Longrightarrow> vm_history s0 s' L"

definition start_page :: "u32 \<Rightarrow> nat" where "start_page a = unat ((a - VM_START) div PAGE_SIZE)"

definition region_pages :: "u32 \<times> u32 \<Rightarrow> nat list" where
  "region_pages r = [start_page (fst r)..<start_page (fst r) + unat (snd r)]"

definition region_ok :: "u32 \<times> u32 \<Rightarrow> bool" where
  "region_ok r \<longleftrightarrow> snd r \<noteq> 0 \<and> fst r = page_addr (start_page (fst r)) \<and> start_page (fst r) + unat (snd r) \<le> VIRT_PAGES"

definition regions_ok :: "(nat \<rightharpoonup> nat) \<Rightarrow> (u32 \<times> u32) list \<Rightarrow> bool" where
  "regions_ok A L \<longleftrightarrow> list_all region_ok L \<and> distinct (concat (map region_pages L))
     \<and> set (concat (map region_pages L)) = dom A"

lemma start_page_addr: "k < VIRT_PAGES \<Longrightarrow> start_page (page_addr k) = k"
  by (simp add: start_page_def page_addr_align(4))

lemma region_page_addr: "k < VIRT_PAGES \<Longrightarrow> region_pages (page_addr k, n) = [k..<k + unat n]"
  by (simp add: region_pages_def start_page_addr)

lemma place_dom: "dom (place_frames A k fs) = dom A \<union> {k..<k + length fs}"
  by (auto simp: place_frames_def dom_def)

lemma place_ran:
  assumes "\<And>j. k \<le> j \<Longrightarrow> j < k + length fs \<Longrightarrow> A j = None"
  shows "ran (place_frames A k fs) = ran A \<union> set fs"
proof (rule set_eqI)
  fix f
  have "f \<in> ran (place_frames A k fs)" if "A j = Some f" for j
    using that assms [of j] by (auto simp: ran_def place_frames_def intro!: exI [of _ j])
  moreover have "f \<in> ran (place_frames A k fs)" if f: "f \<in> set fs"
  proof -
    obtain i where "i < length fs" "fs ! i = f" using f by (auto simp: in_set_conv_nth)
    then have "place_frames A k fs (k + i) = Some f" by (simp add: place_frames_def)
    then show ?thesis by (rule ranI)
  qed
  moreover have "f \<in> ran A \<union> set fs" if "place_frames A k fs j = Some f" for j
    using that by (auto simp: place_frames_def ran_def split: if_splits)
  ultimately show "f \<in> ran (place_frames A k fs) \<longleftrightarrow> f \<in> ran A \<union> set fs" by (auto simp: ran_def)
qed

lemma drop_dom: "dom (drop_range A k n) = dom A - {k..<k + n}"
  by (auto simp: drop_range_def)

lemma drop_ran: "ran A = ran (drop_range A k n) \<union> {f. \<exists>j. k \<le> j \<and> j < k + n \<and> A j = Some f}"
proof (rule set_eqI)
  fix f
  have "f \<in> ran (drop_range A k n) \<or> (\<exists>j. k \<le> j \<and> j < k + n \<and> A j = Some f)" if "A j = Some f" for j
    using that by (cases "j \<in> {k..<k + n}") (auto simp: drop_range_def ran_def restrict_map_def)
  moreover have "f \<in> ran A" if "drop_range A k n j = Some f" for j
    using that by (auto simp: drop_range_def ran_def restrict_map_def split: if_splits)
  ultimately show "f \<in> ran A \<longleftrightarrow> f \<in> ran (drop_range A k n) \<union> {f. \<exists>j. k \<le> j \<and> j < k + n \<and> A j = Some f}"
    by (auto simp: ran_def)
qed

definition history_inv :: "vmm \<Rightarrow> vmm \<Rightarrow> (u32 \<times> u32) list \<Rightarrow> (nat \<rightharpoonup> nat) \<Rightarrow> nat set \<Rightarrow> bool" where
  "history_inv s0 s L A M \<longleftrightarrow> vm_inv s A M \<and> regions_ok A L \<and> ran A \<union> free_frames (frames s) = free_frames (frames s0)"

lemma alloc_history:
  assumes h: "history_inv s0 s L A M" and a: "vmm_alloc_pages n s = Inr (a, s')"
  shows "\<exists>A'. history_inv s0 s' ((a, n) # L) A' M"
proof -
  have inv: "vm_inv s A M" and r: "regions_ok A L" and fr: "ran A \<union> free_frames (frames s) = free_frames (frames s0)"
    using h by (simp_all add: history_inv_def)
  obtain k fs where k: "a = page_addr k" "0 < unat n" "length fs = unat n" "k + unat n \<le> VIRT_PAGES"
      "\<not> pages_live A M k (unat n)" and t: "pages_taken s A M k fs s'"
    using alloc_pages_full [OF inv, of n] a by (auto simp: alloc_outcome_def)
  have out: "A j = None" if "k \<le> j" "j < k + length fs" for j using k(3,5) that by (auto simp: pages_live_def)
  have kv: "k < VIRT_PAGES" using k(2,4) by simp
  have "region_ok (a, n)" using k(2,4) by (simp add: region_ok_def k(1) start_page_addr [OF kv] unat_gt_0)
  moreover have p: "region_pages (a, n) = [k..<k + unat n]" by (simp add: k(1) region_page_addr [OF kv])
  moreover have "{k..<k + unat n} \<inter> dom A = {}" using out k(3) by auto
  ultimately have "regions_ok (place_frames A k fs) ((a, n) # L)"
    using r k(3) by (auto simp: regions_ok_def place_dom)
  moreover have "ran (place_frames A k fs) \<union> free_frames (frames s') = free_frames (frames s0)"
    using place_ran [OF out] t fr by (auto simp: pages_taken_def)
  ultimately show ?thesis using t by (auto simp: history_inv_def pages_taken_def)
qed

lemma release_history:
  assumes h: "history_inv s0 s (L1 @ (a, n) # L2) A M"
  shows "\<exists>s' A'. vmm_free_pages a n s = Some s' \<and> history_inv s0 s' (L1 @ L2) A' M"
proof -
  let ?L = "L1 @ (a, n) # L2"
  have inv: "vm_inv s A M" and r: "regions_ok A ?L" and fr: "ran A \<union> free_frames (frames s) = free_frames (frames s0)"
    using h by (simp_all add: history_inv_def)
  define k where "k = start_page a"
  have ok: "n \<noteq> 0" "a = page_addr k" "k + unat n \<le> VIRT_PAGES" using r by (auto simp: regions_ok_def region_ok_def k_def)
  then have kv: "k < VIRT_PAGES" using unat_gt_0 [of n] by (meson add_lessD1 le_neq_implies_less less_add_same_cancel1 order_less_le_trans)
  have p: "region_pages (a, n) = [k..<k + unat n]" by (simp add: region_pages_def k_def)
  have live: "j \<in> dom A" if "k \<le> j" "j < k + unat n" for j
    using r that by (auto simp: regions_ok_def p)
  obtain s' where s': "vmm_free_pages a n s = Some s'" "vm_inv s' (drop_range A k (unat n)) M"
    "free_frames (frames s') = free_frames (frames s) \<union> {f. \<exists>j. k \<le> j \<and> j < k + unat n \<and> A j = Some f}"
    using free_pages_full [OF inv ok(3) kv] live ok(2) by auto
  have "regions_ok (drop_range A k (unat n)) (L1 @ L2)"
    using r by (auto simp: regions_ok_def p drop_dom)
  moreover have "ran (drop_range A k (unat n)) \<union> free_frames (frames s') = free_frames (frames s0)"
    using drop_ran [of A k "unat n"] s'(3) fr by auto
  ultimately show ?thesis using s' by (auto simp: history_inv_def)
qed

lemma device_history:
  assumes h: "history_inv s0 s L A M" and fl: "flags AND VM_PRESENT \<noteq> 0" and e: "vmm_map_mmio_region p sz flags s = (a, s')"
  shows "\<exists>M'. history_inv s0 s' L A M'"
  using map_mmio_full [OF _ fl, of s A M p sz] h e by (auto simp: history_inv_def)

lemma vm_history_inv: "vm_history s0 s L \<Longrightarrow> \<exists>A M. history_inv s0 s L A M"
proof (induction rule: vm_history.induct)
  case (start sz has_pat)
  have "frames (vmm_init has_pat sz s0) = frames s0" by (simp add: vmm_init_def vmm_pat_init_def)
  then show ?case using vmm_init_inv [OF start]
    by (intro exI [of _ Map.empty] exI [of _ "{}"]) (simp add: history_inv_def regions_ok_def)
next
  case (alloc s L n a s')
  then show ?case using alloc_history by blast
next
  case (release s L1 a n L2 s')
  then show ?case using release_history by (metis option.inject)
next
  case (device s L flags p sz a s')
  then show ?case using device_history by blast
qed

end
