(* ===== verification/SlabMem.thy ===== *)
theory SlabMem
  imports Slab VmmSystem
begin

text \<open>
  Memory as pages: the bytes and words of page \<open>k\<close> by their offset, and the effect of every kind of write of
  the allocator on them.
\<close>

unbundle bit_operations_syntax

section \<open>Bytes and words of a page\<close>

definition at_page :: "nat \<Rightarrow> nat \<Rightarrow> u32" where
  "at_page k off = page_addr k + of_nat off"

definition pbyte :: "memory \<Rightarrow> nat \<Rightarrow> nat \<Rightarrow> u8" where
  "pbyte m k off = m (at_page k off)"

definition pword :: "memory \<Rightarrow> nat \<Rightarrow> nat \<Rightarrow> u32" where
  "pword m k off = load32 m (at_page k off)"

lemma at_page_0 [simp]: "at_page k 0 = page_addr k"
  by (simp add: at_page_def)

lemma at_page_unat:
  assumes "k < VIRT_PAGES" "off < 4096"
  shows "unat (at_page k off) = 268435456 + k * 4096 + off"
  using offset_add(1) [OF WP_less [OF assms(1)] assms(2)] unfolding at_page_def page_addr_WP by (simp add: WP_def)

lemma at_page_eq:
  assumes "k < VIRT_PAGES" "k' < VIRT_PAGES" "off < 4096" "off' < 4096"
  shows "at_page k off = at_page k' off' \<longleftrightarrow> k = k' \<and> off = off'"
proof
  assume "at_page k off = at_page k' off'"
  then have "268435456 + k * 4096 + off = 268435456 + k' * 4096 + off'" using at_page_unat assms by metis
  then have e: "k * 4096 + off = k' * 4096 + off'" by simp
  then have "(k * 4096 + off) div 4096 = (k' * 4096 + off') div 4096" by simp
  then have "k = k'" using assms by simp
  then show "k = k' \<and> off = off'" using e by simp
qed simp

lemma at_page_nonzero: "k < VIRT_PAGES \<Longrightarrow> off < 4096 \<Longrightarrow> at_page k off \<noteq> 0"
  using at_page_unat [of k off] by (auto simp: unat_eq_0 [symmetric])

lemma at_page_add: "at_page k off + of_nat n = at_page k (off + n)"
  by (simp add: at_page_def)

lemma at_page_4: "at_page k off + 4 = at_page k (off + 4)"
  by (simp add: at_page_def)

lemma at_page_next: "at_page k 4096 = page_addr (Suc k)"
  by (simp add: at_page_def page_addr_def PAGE_SIZE_def algebra_simps)

text \<open>Which page and offset an address of a page has.\<close>

lemma at_page_mask:
  assumes "k < VIRT_PAGES" "off < 4096"
  shows "at_page k off AND NOT (PAGE_SIZE - 1) = page_addr k" "at_page k off AND (PAGE_SIZE - 1) = of_nat off"
proof -
  have m: "PAGE_SIZE - 1 = (0xFFF :: u32)" by (simp add: PAGE_SIZE_def)
  note o = offset_add [OF WP_less [OF assms(1)] assms(2)]
  show "at_page k off AND (PAGE_SIZE - 1) = of_nat off" unfolding m at_page_def page_addr_WP by (rule o(3))
  show "at_page k off AND NOT (PAGE_SIZE - 1) = page_addr k"
    unfolding m frame_of_addr(1) at_page_def page_addr_WP o(2) ..
qed

lemma pword_bytes:
  "pword m k off = le_word (map (\<lambda>i. pbyte m k (off + i)) [0..<4])"
  by (simp add: pword_def load32_def mem_read_def pbyte_def at_page_add)

lemma pword_cong: "(\<And>i. i < 4 \<Longrightarrow> pbyte m k (off + i) = pbyte m' k (off + i)) \<Longrightarrow> pword m k off = pword m' k off"
  unfolding pword_bytes by (intro arg_cong [where f = le_word] map_cong) auto

section \<open>Writes\<close>

lemma write_pbyte:
  assumes k: "k < VIRT_PAGES" "k' < VIRT_PAGES" and o: "off + length bs \<le> 4096" "o' < 4096"
  shows "pbyte (mem_write m (at_page k off) bs) k' o'
    = (if k = k' \<and> off \<le> o' \<and> o' < off + length bs then bs ! (o' - off) else pbyte m k' o')"
proof (cases "bs = []")
  case False
  then have off: "off < 4096" using o(1) by (cases bs) auto
  note u = at_page_unat [OF k(1) off] at_page_unat [OF k(2) o(2)]
  have kk: "k < 65536" using k(1) by (simp add: VIRT_PAGES_def)
  have in_r: "in_range (at_page k off) (length bs) (at_page k' o') = (k = k' \<and> off \<le> o' \<and> o' < off + length bs)"
  proof -
    have "in_range (at_page k off) (length bs) (at_page k' o')
      = (k * 4096 + off \<le> k' * 4096 + o' \<and> k' * 4096 + o' < k * 4096 + off + length bs)"
      using o kk by (subst in_range_iff) (simp_all add: u add.assoc)
    also have "\<dots> = (k = k' \<and> off \<le> o' \<and> o' < off + length bs)"
    proof (cases k k' rule: linorder_cases)
      case less
      then have "Suc k * 4096 \<le> k' * 4096" by (intro mult_le_mono1) simp
      then have "k * 4096 + off + length bs \<le> k' * 4096 + o'" using o by simp
      then show ?thesis using less by simp
    next
      case greater
      then have "Suc k' * 4096 \<le> k * 4096" by (intro mult_le_mono1) simp
      then have "k' * 4096 + o' < k * 4096 + off" using o by simp
      then show ?thesis using greater by simp
    qed simp
    finally show ?thesis .
  qed
  have "unat (at_page k' o' - at_page k off) = o' - off" if "k = k'" "off \<le> o'"
    using u that by (subst unat_sub_u32) simp_all
  then show ?thesis using o(1) unfolding pbyte_def by (subst mem_write_apply) (auto simp: in_r)
qed auto

lemma store_pbyte:
  assumes "k < VIRT_PAGES" "k' < VIRT_PAGES" "off + 4 \<le> 4096" "o' < 4096"
    and "k \<noteq> k' \<or> o' < off \<or> off + 4 \<le> o'"
  shows "pbyte (store32 m (at_page k off) v) k' o' = pbyte m k' o'"
  using write_pbyte [OF assms(1,2) _ assms(4), of off "word_le 4 v" m] assms(3,5) by (auto simp: store32_def)

lemma fill_pbyte:
  assumes "k < VIRT_PAGES" "k' < VIRT_PAGES" "off + n \<le> 4096" "o' < 4096"
  shows "pbyte (fill m (at_page k off) b n) k' o' = (if k = k' \<and> off \<le> o' \<and> o' < off + n then b else pbyte m k' o')"
  using write_pbyte [OF assms(1,2) _ assms(4), of off "replicate n b" m] assms(3) by (auto simp: fill_def)

lemma store_pword_same:
  assumes "k < VIRT_PAGES" "off + 4 \<le> 4096"
  shows "pword (store32 m (at_page k off) v) k off = v"
  unfolding pword_def load32_def store32_def using mem_read_write_same [of "word_le 4 v" m "at_page k off"] by simp

lemma store_pword_other:
  assumes "k < VIRT_PAGES" "k' < VIRT_PAGES" "off + 4 \<le> 4096" "o' + 4 \<le> 4096"
    and "k \<noteq> k' \<or> o' + 4 \<le> off \<or> off + 4 \<le> o'"
  shows "pword (store32 m (at_page k off) v) k' o' = pword m k' o'"
  by (rule pword_cong, rule store_pbyte) (use assms in auto)

lemma fill_pword_other:
  assumes "k < VIRT_PAGES" "k' < VIRT_PAGES" "off + n \<le> 4096" "o' + 4 \<le> 4096"
    and "k \<noteq> k' \<or> o' + 4 \<le> off \<or> off + n \<le> o'"
  shows "pword (fill m (at_page k off) b n) k' o' = pword m k' o'"
proof (rule pword_cong)
  fix i :: nat assume "i < 4"
  then show "pbyte (fill m (at_page k off) b n) k' (o' + i) = pbyte m k' (o' + i)"
    using fill_pbyte [OF assms(1-3), of "o' + i" m b] assms(4,5) by auto
qed

text \<open>Every page but those in \<open>K\<close> is as it was.\<close>

definition pages_same :: "nat set \<Rightarrow> memory \<Rightarrow> memory \<Rightarrow> bool" where
  "pages_same K m m' \<longleftrightarrow> (\<forall>k off. k < VIRT_PAGES \<longrightarrow> k \<notin> K \<longrightarrow> off < 4096 \<longrightarrow> pbyte m' k off = pbyte m k off)"

lemma pages_same_refl [simp]: "pages_same K m m"
  by (simp add: pages_same_def)

lemma pages_same_trans: "pages_same K m m1 \<Longrightarrow> pages_same L m1 m2 \<Longrightarrow> pages_same (K \<union> L) m m2"
  by (simp add: pages_same_def)

lemma pages_same_mono: "pages_same K m m' \<Longrightarrow> K \<subseteq> L \<Longrightarrow> pages_same L m m'"
  by (auto simp: pages_same_def)

lemma pages_same_pword: "pages_same K m m' \<Longrightarrow> k < VIRT_PAGES \<Longrightarrow> k \<notin> K \<Longrightarrow> off + 4 \<le> 4096 \<Longrightarrow> pword m' k off = pword m k off"
  by (rule pword_cong) (simp add: pages_same_def)

lemma store_pages_same: "k < VIRT_PAGES \<Longrightarrow> off + 4 \<le> 4096 \<Longrightarrow> pages_same {k} m (store32 m (at_page k off) v)"
  by (auto simp: pages_same_def store_pbyte)

lemma fill_pages_same: "k < VIRT_PAGES \<Longrightarrow> off + n \<le> 4096 \<Longrightarrow> pages_same {k} m (fill m (at_page k off) b n)"
  by (auto simp: pages_same_def fill_pbyte)

end
