(* ===== verification/SlabInv.thy ===== *)
theory SlabInv
  imports SlabMem
begin

text \<open>
  A single slab page: its header and the chain of its free slots, and what growing, taking a slot and giving
  it back do to them; the list of the pages of a cache.
\<close>

unbundle bit_operations_syntax

section \<open>Slots\<close>

definition nslots :: "nat \<Rightarrow> nat" where "nslots os = 4080 div os"
definition slot_off :: "nat \<Rightarrow> nat \<Rightarrow> nat" where "slot_off os j = 16 + j * os"

definition slot :: "nat \<Rightarrow> nat \<Rightarrow> nat \<Rightarrow> u32" where "slot k os j = at_page k (slot_off os j)"

lemma slot_fits:
  assumes "j < nslots os"
  shows "slot_off os j + os \<le> 4096"
proof -
  have "Suc j * os \<le> nslots os * os" using assms by (intro mult_le_mono1) simp
  also have "\<dots> \<le> 4080" unfolding nslots_def by (rule div_times_less_eq_dividend)
  finally show ?thesis by (simp add: slot_off_def)
qed

lemma slots_apart: "j < j' \<Longrightarrow> slot_off os j + os \<le> slot_off os j'"
proof -
  assume "j < j'"
  then have "Suc j * os \<le> j' * os" by (intro mult_le_mono1) simp
  then show ?thesis by (simp add: slot_off_def)
qed

lemma slot_off_inj: "0 < os \<Longrightarrow> slot_off os j = slot_off os j' \<longleftrightarrow> j = j'"
  by (simp add: slot_off_def)

lemma slot_eq:
  assumes "k < VIRT_PAGES" "0 < os" "j < nslots os" "j' < nslots os"
  shows "slot k os j = slot k os j' \<longleftrightarrow> j = j'"
proof -
  have "slot_off os j < 4096" "slot_off os j' < 4096" using slot_fits assms by fastforce+
  then show ?thesis using at_page_eq [OF assms(1) assms(1)] assms(2) by (simp add: slot_def slot_off_inj)
qed

lemma slot_nonzero: "k < VIRT_PAGES \<Longrightarrow> 0 < os \<Longrightarrow> j < nslots os \<Longrightarrow> slot k os j \<noteq> 0"
  using slot_fits [of j os] unfolding slot_def by (intro at_page_nonzero) simp_all

definition head_slot :: "nat \<Rightarrow> nat \<Rightarrow> nat list \<Rightarrow> u32" where
  "head_slot k os js = (case js of [] \<Rightarrow> 0 | j # _ \<Rightarrow> slot k os j)"

lemma head_slot_simps [simp]: "head_slot k os [] = 0" "head_slot k os (j # js) = slot k os j"
  by (simp_all add: head_slot_def)

text \<open>The bytes of a free slot behind its link are poisoned.\<close>

definition poisoned :: "memory \<Rightarrow> nat \<Rightarrow> nat \<Rightarrow> nat \<Rightarrow> bool" where
  "poisoned m k os j \<longleftrightarrow> (\<forall>i \<in> {4..<os}. pbyte m k (slot_off os j + i) = SLAB_POISON)"

primrec slot_chain :: "memory \<Rightarrow> nat \<Rightarrow> nat \<Rightarrow> nat list \<Rightarrow> bool" where
  "slot_chain m k os [] = True"
| "slot_chain m k os (j # js) = (pword m k (slot_off os j) = head_slot k os js \<and> poisoned m k os j \<and> slot_chain m k os js)"

definition slab_page :: "memory \<Rightarrow> nat \<Rightarrow> u32 \<Rightarrow> nat \<Rightarrow> nat list \<Rightarrow> bool" where
  "slab_page m k c os fl \<longleftrightarrow> pword m k 0 = head_slot k os fl \<and> pword m k 4 = of_nat (nslots os - length fl)
     \<and> pword m k 12 = c \<and> distinct fl \<and> set fl \<subseteq> {..<nslots os} \<and> slot_chain m k os fl"

lemma slot_chain_cong:
  assumes "set js \<subseteq> {..<nslots os}" "\<And>j o'. j \<in> set js \<Longrightarrow> slot_off os j \<le> o' \<Longrightarrow> o' < slot_off os j + os \<Longrightarrow> pbyte m' k o' = pbyte m k o'"
    and "4 \<le> os"
  shows "slot_chain m' k os js = slot_chain m k os js"
  using assms(1,2)
proof (induction js)
  case (Cons j js)
  have "pword m' k (slot_off os j) = pword m k (slot_off os j)"
    by (rule pword_cong, rule Cons.prems(2)) (use assms(3) in auto)
  moreover have "poisoned m' k os j = poisoned m k os j"
  proof -
    have "pbyte m' k (slot_off os j + i) = pbyte m k (slot_off os j + i)" if "i \<in> {4..<os}" for i
      by (rule Cons.prems(2) [of j]) (use that in auto)
    then show ?thesis by (simp add: poisoned_def)
  qed
  moreover have "slot_chain m' k os js = slot_chain m k os js" by (rule Cons.IH) (use Cons.prems in auto)
  ultimately show ?case by simp
qed simp

lemma slab_page_cong:
  assumes "4 \<le> os" "\<And>o'. o' < 4096 \<Longrightarrow> o' < 8 \<or> 12 \<le> o' \<Longrightarrow> pbyte m' k o' = pbyte m k o'"
  shows "slab_page m' k c os fl = slab_page m k c os fl"
proof -
  have w: "pword m' k 0 = pword m k 0" "pword m' k 4 = pword m k 4" "pword m' k 12 = pword m k 12"
    by (rule pword_cong, rule assms(2); simp)+
  have "slot_chain m' k os fl = slot_chain m k os fl" if "set fl \<subseteq> {..<nslots os}"
  proof (rule slot_chain_cong [OF that _ assms(1)])
    fix j o' assume "j \<in> set fl" "slot_off os j \<le> o'" "o' < slot_off os j + os"
    moreover have "slot_off os j + os \<le> 4096" using \<open>j \<in> set fl\<close> that by (intro slot_fits) auto
    ultimately show "pbyte m' k o' = pbyte m k o'" by (intro assms(2)) (simp_all add: slot_off_def)
  qed
  then show ?thesis unfolding slab_page_def w by blast
qed

lemma slab_page_same: "pages_same K m m' \<Longrightarrow> k \<notin> K \<Longrightarrow> k < VIRT_PAGES \<Longrightarrow> 4 \<le> os \<Longrightarrow> slab_page m' k c os fl = slab_page m k c os fl"
  by (rule slab_page_cong) (simp_all add: pages_same_def)

section \<open>A new page\<close>

lemma init_slot:
  assumes k: "k < VIRT_PAGES" and os: "4 \<le> os" and j: "j < nslots os"
  defines "m' \<equiv> \<lambda>m v. fill (store32 m (slot k os j) v) (slot k os j + 4) SLAB_POISON (os - 4)"
  shows "pages_same {k} m (m' m v)" "pword (m' m v) k (slot_off os j) = v" "poisoned (m' m v) k os j"
    "\<And>o'. o' < 4096 \<Longrightarrow> o' < slot_off os j \<or> slot_off os j + os \<le> o' \<Longrightarrow> pbyte (m' m v) k o' = pbyte m k o'"
proof -
  note f = slot_fits [OF j]
  have m': "m' m v = fill (store32 m (at_page k (slot_off os j)) v) (at_page k (slot_off os j + 4)) SLAB_POISON (os - 4)" for m v
    by (simp add: m'_def slot_def at_page_4)
  have b: "slot_off os j + 4 \<le> 4096" "slot_off os j + 4 + (os - 4) \<le> 4096" using f os by simp_all
  show "pages_same {k} m (m' m v)"
    using pages_same_trans [OF store_pages_same [OF k b(1)] fill_pages_same [OF k b(2)]] by (simp add: m')
  show "pword (m' m v) k (slot_off os j) = v"
    unfolding m' using fill_pword_other [OF k k b(2), of "slot_off os j"] store_pword_same [OF k b(1)] b(1) by simp
  show "poisoned (m' m v) k os j"
    unfolding poisoned_def m' using f os by (auto simp: fill_pbyte [OF k k b(2)])
  show "pbyte (m' m v) k o' = pbyte m k o'" if "o' < 4096" "o' < slot_off os j \<or> slot_off os j + os \<le> o'" for o'
  proof -
    have "pbyte (m' m v) k o' = pbyte (store32 m (at_page k (slot_off os j)) v) k o'"
      unfolding m' using fill_pbyte [OF k k b(2) that(1)] that(2) os by auto
    also have "\<dots> = pbyte m k o'" using that os by (intro store_pbyte [OF k k b(1)]) auto
    finally show ?thesis .
  qed
qed

lemma slab_grow_loop_chain:
  fixes m :: memory
  assumes k: "k < VIRT_PAGES" and os: "4 \<le> os" "os \<le> 4080" and j: "j + n < nslots os"
  defines "m' \<equiv> slab_grow_loop n (of_nat os) (slot k os j) m"
  shows "pages_same {k} m m' \<and> (\<forall>o' < slot_off os j. pbyte m' k o' = pbyte m k o') \<and> slot_chain m' k os [j..<j + Suc n]"
  using j unfolding m'_def
proof (induction n arbitrary: j m)
  case 0
  have u: "unat (of_nat os - 4 :: u32) = os - 4" using os by (subst unat_sub_u32) (simp_all add: unat_of_nat_u32)
  have j: "j < nslots os" using 0 by simp
  note i = init_slot [OF k os(1) j, where m = m and v = 0]
  show ?case using i slot_fits [OF j] by (auto simp: u)
next
  case (Suc n)
  have u: "unat (of_nat os - 4 :: u32) = os - 4" using os by (subst unat_sub_u32) (simp_all add: unat_of_nat_u32)
  have j: "j < nslots os" using Suc.prems by simp
  let ?m = "fill (store32 m (slot k os j) (slot k os (Suc j))) (slot k os j + 4) SLAB_POISON (os - 4)"
  let ?r = "slab_grow_loop n (of_nat os) (slot k os (Suc j)) ?m"
  have next_slot: "slot k os j + of_nat os = slot k os (Suc j)"
    unfolding slot_def at_page_add by (simp add: slot_off_def algebra_simps)
  note i = init_slot [OF k os(1) j, where m = m and v = "slot k os (Suc j)"]
  have ih: "pages_same {k} ?m ?r" "\<And>o'. o' < slot_off os (Suc j) \<Longrightarrow> pbyte ?r k o' = pbyte ?m k o'"
    "slot_chain ?r k os [Suc j..<Suc j + Suc n]"
    using Suc.IH [of "Suc j" ?m] Suc.prems by auto
  have s: "slot_off os (Suc j) = slot_off os j + os" by (simp add: slot_off_def)
  have "pages_same {k} m ?r" using pages_same_trans [OF i(1) ih(1)] by simp
  moreover have "pbyte ?r k o' = pbyte m k o'" if "o' < slot_off os j" for o'
    using ih(2) [of o'] i(4) [of o'] that s slot_fits [OF j] by simp
  moreover have "pword ?r k (slot_off os j) = slot k os (Suc j)"
  proof -
    have "pword ?r k (slot_off os j) = pword ?m k (slot_off os j)" by (rule pword_cong, rule ih(2)) (use s os in simp)
    then show ?thesis using i(2) by simp
  qed
  moreover have "poisoned ?r k os j" using i(3) ih(2) s by (simp add: poisoned_def)
  moreover have "[j..<j + Suc (Suc n)] = j # [Suc j..<Suc j + Suc n]" "[Suc j..<Suc j + Suc n] = Suc j # [Suc (Suc j)..<Suc j + Suc n]"
    by (simp_all add: upt_conv_Cons del: upt_Suc)
  ultimately show ?case using ih(3) by (simp add: u next_slot del: upt_Suc)
qed

section \<open>Taking a slot and giving it back\<close>

lemma list_all_bytes:
  "list_all (\<lambda>b. b = x) (mem_read m (at_page k off) n) = (\<forall>i < n. pbyte m k (off + i) = x)"
  by (auto simp: list_all_iff mem_read_def pbyte_def at_page_add)

lemma poison_intact_iff:
  assumes "4 \<le> os" "os \<le> 4080"
  shows "poison_intact m (of_nat os) (slot k os j) = poisoned m k os j"
proof -
  have u: "unat (of_nat os :: u32) = os" "unat (of_nat os - 4 :: u32) = os - 4"
    using assms by (simp_all add: unat_of_nat_u32 unat_sub_u32)
  have le: "((of_nat os :: u32) \<le> 4) = (os = 4)" using assms u(1) by (auto simp: word_le_nat_alt)
  have "(\<forall>i < os - 4. pbyte m k (slot_off os j + 4 + i) = SLAB_POISON) = poisoned m k os j"
  proof
    assume l: "\<forall>i < os - 4. pbyte m k (slot_off os j + 4 + i) = SLAB_POISON"
    have "pbyte m k (slot_off os j + i) = SLAB_POISON" if "4 \<le> i" "i < os" for i using l [rule_format, of "i - 4"] that by simp
    then show "poisoned m k os j" by (simp add: poisoned_def)
  next
    assume "poisoned m k os j"
    then have p: "pbyte m k (slot_off os j + i) = SLAB_POISON" if "4 \<le> i" "i < os" for i using that by (simp add: poisoned_def)
    show "\<forall>i < os - 4. pbyte m k (slot_off os j + 4 + i) = SLAB_POISON"
    proof (intro allI impI)
      fix i assume "i < os - 4"
      then show "pbyte m k (slot_off os j + 4 + i) = SLAB_POISON" using p [of "4 + i"] by (simp add: add.assoc)
    qed
  qed
  then show ?thesis unfolding poison_intact_def le u(2) slot_def at_page_4 list_all_bytes
    by (auto simp: poisoned_def)
qed

lemma page_fields:
  "free_list m (page_addr k) = pword m k 0" "num_allocated m (page_addr k) = pword m k 4"
  "page_next m (page_addr k) = pword m k 8" "owning_cache m (page_addr k) = pword m k 12"
  by (simp_all add: free_list_def num_allocated_def page_next_def owning_cache_def pword_def at_page_def)

lemma field_addr: "page_addr k + 4 = at_page k 4" "page_addr k + 8 = at_page k 8" "page_addr k + 12 = at_page k 12"
  by (simp_all add: at_page_def)

lemma store_count:
  fixes m :: memory and a b :: u32
  assumes k: "k < VIRT_PAGES" and os: "4 \<le> os" and js: "set js \<subseteq> {..<nslots os}"
  defines "m' \<equiv> store32 (store32 m (at_page k 0) a) (at_page k 4) b"
  shows "pages_same {k} m m'" "pword m' k 0 = a" "pword m' k 4 = b" "pword m' k 8 = pword m k 8" "pword m' k 12 = pword m k 12"
    "\<And>o'. 8 \<le> o' \<Longrightarrow> o' < 4096 \<Longrightarrow> pbyte m' k o' = pbyte m k o'"
    "slot_chain m' k os js = slot_chain m k os js"
proof -
  have b: "0 + 4 \<le> (4096 :: nat)" "4 + 4 \<le> (4096 :: nat)" by simp_all
  show "pages_same {k} m m'"
    using pages_same_trans [OF store_pages_same [OF k b(1)] store_pages_same [OF k b(2)]] unfolding m'_def by simp
  show byt: "pbyte m' k o' = pbyte m k o'" if "8 \<le> o'" "o' < 4096" for o'
    using store_pbyte [OF k k b(2) that(2)] store_pbyte [OF k k b(1) that(2)] that(1) unfolding m'_def by simp
  show "pword m' k 0 = a"
    unfolding m'_def using store_pword_other [OF k k b(2), of 0] store_pword_same [OF k b(1)] by simp
  show "pword m' k 4 = b" unfolding m'_def by (rule store_pword_same [OF k b(2)])
  show "pword m' k 8 = pword m k 8" "pword m' k 12 = pword m k 12" by (rule pword_cong, rule byt; simp)+
  show "slot_chain m' k os js = slot_chain m k os js"
  proof (rule slot_chain_cong [OF js _ os])
    fix j o' assume j: "j \<in> set js" "slot_off os j \<le> o'" "o' < slot_off os j + os"
    have "slot_off os j + os \<le> 4096" using j(1) js by (intro slot_fits) auto
    then show "pbyte m' k o' = pbyte m k o'" using j by (intro byt) (simp_all add: slot_off_def)
  qed
qed

lemma slab_page_length: "slab_page m k c os fl \<Longrightarrow> length fl \<le> nslots os"
  using card_mono [of "{..<nslots os}" "set fl"] by (simp add: slab_page_def distinct_card)

lemma slab_take_ok:
  assumes k: "k < VIRT_PAGES" and os: "4 \<le> os" "os \<le> 4080" and p: "slab_page (smem s) k c os (j # fl)"
    and c: "object_sizes s cache = of_nat os"
  obtains m' where "slab_take cache (page_addr k) s = Inr (slot k os j, s\<lparr>smem := m'\<rparr>)" "pages_same {k} (smem s) m'"
    "slab_page m' k c os fl" "pword m' k 8 = pword (smem s) k 8"
    "\<And>o'. 8 \<le> o' \<Longrightarrow> o' < 4096 \<Longrightarrow> pbyte m' k o' = pbyte (smem s) k o'"
proof -
  let ?m = "smem s"
  have sp: "pword ?m k 0 = slot k os j" "pword ?m k 4 = of_nat (nslots os - Suc (length fl))" "pword ?m k 12 = c"
    "distinct (j # fl)" "set fl \<subseteq> {..<nslots os}" "j < nslots os" "poisoned ?m k os j" "slot_chain ?m k os fl"
    "pword ?m k (slot_off os j) = head_slot k os fl"
    using p by (simp_all add: slab_page_def)
  define a where "a = head_slot k os fl"
  define b where "b = num_allocated (store32 ?m (page_addr k) a) (page_addr k) + 1"
  define m' where "m' = store32 (store32 ?m (at_page k 0) a) (at_page k 4) b"
  have b: "b = of_nat (nslots os - length fl)"
  proof -
    have "num_allocated (store32 ?m (page_addr k) a) (page_addr k) = pword ?m k 4"
      unfolding page_fields using store_pword_other [OF k k, of 0 4] by simp
    moreover have "nslots os - length fl = Suc (nslots os - Suc (length fl))"
      using slab_page_length [OF p] by simp
    ultimately show ?thesis by (simp add: b_def sp(2))
  qed
  note st = store_count [OF k os(1) sp(5), where m = ?m and a = a and b = b, folded m'_def]
  have fl: "free_list ?m (page_addr k) = slot k os j" by (simp add: page_fields sp(1))
  have ld: "load32 ?m (slot k os j) = a" using sp(9) by (simp add: pword_def slot_def a_def)
  have po: "poison_intact ?m (of_nat os) (slot k os j)" using sp(7) poison_intact_iff [OF os] by simp
  have "slab_take cache (page_addr k) s = Inr (slot k os j, s\<lparr>smem := m'\<rparr>)"
    by (simp add: slab_take_def fl c po ld m'_def b_def field_addr Let_def)
  moreover have "slab_page m' k c os fl"
    unfolding slab_page_def st(2,3,5,7) using sp b by (simp add: a_def)
  ultimately show thesis using that st(1,4,6) by blast
qed

text \<open>The slot \<open>j\<close> is poisoned and linked in front of the free list.\<close>

lemma slab_give_back:
  fixes m :: memory
  assumes k: "k < VIRT_PAGES" and os: "4 \<le> os" "os \<le> 4080" and p: "slab_page m k c os fl"
    and j: "j < nslots os" "j \<notin> set fl"
  defines "m1 \<equiv> fill m (slot k os j) SLAB_POISON os"
  defines "m2 \<equiv> store32 m1 (slot k os j) (free_list m1 (page_addr k))"
  defines "m3 \<equiv> store32 m2 (page_addr k) (slot k os j)"
  defines "m4 \<equiv> store32 m3 (page_addr k + 4) (num_allocated m3 (page_addr k) - 1)"
  shows "slab_page m4 k c os (j # fl)" "pages_same {k} m m4" "pword m4 k 8 = pword m k 8"
    "\<And>o'. 8 \<le> o' \<Longrightarrow> o' < 4096 \<Longrightarrow> o' < slot_off os j \<or> slot_off os j + os \<le> o' \<Longrightarrow> pbyte m4 k o' = pbyte m k o'"
proof -
  have sp: "pword m k 0 = head_slot k os fl" "pword m k 4 = of_nat (nslots os - length fl)" "pword m k 12 = c"
    "distinct fl" "set fl \<subseteq> {..<nslots os}" "slot_chain m k os fl"
    using p by (simp_all add: slab_page_def)
  note f = slot_fits [OF j(1)]
  have so: "16 \<le> slot_off os j" by (simp add: slot_off_def)
  have b: "slot_off os j + os \<le> 4096" "slot_off os j + 4 \<le> 4096" using f os by simp_all
  have m1: "m1 = fill m (at_page k (slot_off os j)) SLAB_POISON os" by (simp add: m1_def slot_def)
  have w0: "pword m1 k off = pword m k off" if "off + 4 \<le> 16" for off
    unfolding m1 using that so by (intro fill_pword_other [OF k k b(1)]) simp_all
  have m2: "m2 = store32 m1 (at_page k (slot_off os j)) (head_slot k os fl)"
    using w0 [of 0] by (simp add: m2_def slot_def page_fields sp(1))
  have w2: "pword m2 k off = pword m k off" if "off + 4 \<le> 16" for off
    unfolding m2 using that so w0 store_pword_other [OF k k b(2), of off] by simp
  have by2: "pbyte m2 k o' = pbyte m k o'" if "o' < 4096" "o' < slot_off os j \<or> slot_off os j + os \<le> o'" for o'
    unfolding m2 m1 using that os store_pbyte [OF k k b(2) that(1)] fill_pbyte [OF k k b(1) that(1)] by auto
  have po: "poisoned m2 k os j"
    unfolding poisoned_def m2 m1 using b os by (auto simp: store_pbyte [OF k k b(2)] fill_pbyte [OF k k b(1)])
  have li: "pword m2 k (slot_off os j) = head_slot k os fl" unfolding m2 by (rule store_pword_same [OF k b(2)])
  have ch: "slot_chain m2 k os fl"
  proof -
    have "slot_chain m2 k os fl = slot_chain m k os fl"
    proof (rule slot_chain_cong [OF sp(5) _ os(1)])
      fix i o' assume i: "i \<in> set fl" "slot_off os i \<le> o'" "o' < slot_off os i + os"
      have "i \<noteq> j" using i(1) j(2) by auto
      then have "slot_off os i + os \<le> slot_off os j \<or> slot_off os j + os \<le> slot_off os i"
        using slots_apart [of i j os] slots_apart [of j i os] by linarith
      moreover have "slot_off os i + os \<le> 4096" using i(1) sp(5) by (intro slot_fits) auto
      ultimately show "pbyte m2 k o' = pbyte m k o'" using i by (intro by2) auto
    qed
    then show ?thesis using sp(6) by simp
  qed
  have js: "set (j # fl) \<subseteq> {..<nslots os}" using sp(5) j(1) by simp
  have n3: "num_allocated m3 (page_addr k) = pword m k 4"
    unfolding m3_def page_fields using store_pword_other [OF k k, of 0 4] w2 [of 4] by simp
  have m4: "m4 = store32 (store32 m2 (at_page k 0) (slot k os j)) (at_page k 4) (pword m k 4 - 1)"
    by (simp add: m4_def n3) (simp add: m3_def field_addr)
  note st = store_count [OF k os(1) js, where m = m2 and a = "slot k os j" and b = "pword m k 4 - 1", folded m4]
  have len: "length fl < nslots os"
    using card_mono [of "{..<nslots os}" "set (j # fl)"] j sp(4,5) by (simp add: distinct_card)
  have cnt: "pword m k 4 - 1 = of_nat (nslots os - length (j # fl))"
    using len by (simp add: sp(2) of_nat_diff)
  show "slab_page m4 k c os (j # fl)"
    unfolding slab_page_def st(2,3,5,7) cnt using sp j po li ch w2 [of 12] by simp
  have "pages_same {k} m m2"
    unfolding m2 m1 using pages_same_trans [OF fill_pages_same [OF k b(1)] store_pages_same [OF k b(2)]] by simp
  from pages_same_trans [OF this st(1)] show "pages_same {k} m m4" by simp
  show "pword m4 k 8 = pword m k 8" using st(4) w2 [of 8] by simp
  show "pbyte m4 k o' = pbyte m k o'" if "8 \<le> o'" "o' < 4096" "o' < slot_off os j \<or> slot_off os j + os \<le> o'" for o'
    using st(6) [OF that(1,2)] by2 [OF that(2,3)] by simp
qed

lemma free_list_has_chain:
  assumes k: "k < VIRT_PAGES" and os: "0 < os"
  shows "slot_chain m k os fl \<Longrightarrow> set fl \<subseteq> {..<nslots os} \<Longrightarrow>
    free_list_has m ptr (head_slot k os fl) = Some (\<exists>j \<in> set fl. ptr = slot k os j)"
proof (induction fl)
  case Nil
  then show ?case by (simp add: free_list_has.simps)
next
  case (Cons j fl)
  have "slot k os j \<noteq> 0" using Cons.prems by (intro slot_nonzero [OF k os]) simp
  moreover have "load32 m (slot k os j) = head_slot k os fl" using Cons.prems by (simp add: pword_def slot_def)
  ultimately show ?case using Cons by (subst free_list_has.simps) auto
qed

end
