(* ===== verification/SlabProps.thy ===== *)
theory SlabProps
  imports SlabInv
begin

text \<open>
  The allocator as a whole: which page plays which role, the blocks that are handed out, and the invariant
  that relates both to memory, the caches and the page allocator.
\<close>

unbundle bit_operations_syntax

section \<open>Lists of pages\<close>

definition page_hd :: "nat list \<Rightarrow> u32 \<Rightarrow> u32" where
  "page_hd ks e = (case ks of [] \<Rightarrow> e | k # _ \<Rightarrow> page_addr k)"

lemma page_hd_simps [simp]: "page_hd [] e = e" "page_hd (k # ks) e = page_addr k"
  by (simp_all add: page_hd_def)

lemma page_hd_append: "page_hd (xs @ ys) e = page_hd xs (page_hd ys e)"
  by (cases xs) simp_all

primrec plink :: "memory \<Rightarrow> nat list \<Rightarrow> u32 \<Rightarrow> bool" where
  "plink m [] e = True"
| "plink m (k # ks) e = (pword m k 8 = page_hd ks e \<and> plink m ks e)"

lemma plink_append: "plink m (xs @ ys) e = (plink m xs (page_hd ys e) \<and> plink m ys e)"
  by (induction xs) (auto simp: page_hd_append)

lemma plink_cong: "(\<And>k. k \<in> set ks \<Longrightarrow> pword m' k 8 = pword m k 8) \<Longrightarrow> plink m' ks e = plink m ks e"
  by (induction ks) auto

lemma page_addr_eq: "k < VIRT_PAGES \<Longrightarrow> k' < VIRT_PAGES \<Longrightarrow> page_addr k = page_addr k' \<longleftrightarrow> k = k'"
  using at_page_eq [of k k' 0 0] by simp

lemma page_addr_nonzero: "k < VIRT_PAGES \<Longrightarrow> page_addr k \<noteq> 0"
  using at_page_nonzero [of k 0] by simp

lemma page_search_list:
  "plink m ks 0 \<Longrightarrow> set ks \<subseteq> {..<VIRT_PAGES} \<Longrightarrow>
    page_search m (page_hd ks 0) = Some (page_hd (dropWhile (\<lambda>k. pword m k 0 = 0) ks) 0)"
  by (induction ks) (subst page_search.simps, simp add: page_fields page_addr_nonzero)+

lemma page_link_list:
  "plink m (xs @ k # ys) 0 \<Longrightarrow> set (xs @ k # ys) \<subseteq> {..<VIRT_PAGES} \<Longrightarrow> k \<notin> set xs \<Longrightarrow>
    page_link m (page_addr k) prev (page_hd (xs @ k # ys) 0) = Some (Some (if xs = [] then prev else Some (page_addr (last xs))))"
proof (induction xs arbitrary: prev)
  case Nil
  then show ?case by (subst page_link.simps) (simp add: page_addr_nonzero)
next
  case (Cons x xs)
  have "page_addr x \<noteq> 0" "page_addr x \<noteq> page_addr k" using Cons.prems by (auto simp: page_addr_nonzero page_addr_eq)
  then show ?case using Cons by (subst page_link.simps) (auto simp: page_fields)
qed

section \<open>Roles of pages, and blocks\<close>

definition csize :: "nat \<Rightarrow> nat" where "csize i = [16, 32, 64, 128, 256, 512] ! i"

lemma csize_cases: "i < 6 \<Longrightarrow> i = 0 \<or> i = 1 \<or> i = 2 \<or> i = 3 \<or> i = 4 \<or> i = (5 :: nat)"
  by auto

lemma csize_bounds: "i < 6 \<Longrightarrow> 4 \<le> csize i \<and> csize i \<le> 512 \<and> 0 < csize i \<and> csize i \<le> 4080"
  using csize_cases [of i] by (auto simp: csize_def)

lemma csize_slots: "i < 6 \<Longrightarrow> 7 \<le> nslots (csize i)"
  using csize_cases [of i] by (auto simp: csize_def nslots_def)

datatype role = SlabPage nat "nat list" | LargeHead nat | LargeBody nat

text \<open>A block is its place in the window, counted in bytes, and its length.\<close>

definition win :: "nat \<Rightarrow> u32" where "win p = VM_START + of_nat p"

lemma win_page: "win (k * 4096 + off) = at_page k off"
  by (simp add: win_def at_page_def page_addr_def PAGE_SIZE_def)

lemma win_split: "win p = at_page (p div 4096) (p mod 4096)"
  using win_page [of "p div 4096" "p mod 4096"] by simp

lemma win_unat: "p < VIRT_PAGES * 4096 \<Longrightarrow> unat (win p) = 268435456 + p"
  unfolding win_split by (subst at_page_unat) (auto simp: VIRT_PAGES_def)

definition is_slot :: "(nat \<rightharpoonup> role) \<Rightarrow> nat \<Rightarrow> nat \<Rightarrow> nat \<Rightarrow> bool" where
  "is_slot own k i j \<longleftrightarrow> (\<exists>fl. own k = Some (SlabPage i fl) \<and> j < nslots (csize i) \<and> j \<notin> set fl)"

inductive_set blocks :: "(nat \<rightharpoonup> role) \<Rightarrow> (nat \<times> nat) set" for own where
  small: "is_slot own k i j \<Longrightarrow> (k * 4096 + slot_off (csize i) j, csize i) \<in> blocks own"
| large: "own k = Some (LargeHead n) \<Longrightarrow> (Suc k * 4096, (n - 1) * 4096) \<in> blocks own"

section \<open>The invariant\<close>

definition caches_ok :: "slab \<Rightarrow> (nat \<rightharpoonup> role) \<Rightarrow> (nat \<Rightarrow> nat list) \<Rightarrow> bool" where
  "caches_ok s own pl \<longleftrightarrow> (\<forall>i < 6. object_sizes s (cache_at i s) = of_nat (csize i)
     \<and> distinct (pl i) \<and> page_lists s (cache_at i s) = page_hd (pl i) 0 \<and> plink (smem s) (pl i) 0
     \<and> set (pl i) = {k. \<exists>fl. own k = Some (SlabPage i fl)})"

definition roles_ok :: "slab \<Rightarrow> (nat \<rightharpoonup> role) \<Rightarrow> bool" where
  "roles_ok s own \<longleftrightarrow>
     (\<forall>k i fl. own k = Some (SlabPage i fl) \<longrightarrow>
        i < 6 \<and> length fl < nslots (csize i) \<and> slab_page (smem s) k (cache_at i s) (csize i) fl)
     \<and> (\<forall>k n. own k = Some (LargeHead n) \<longrightarrow> 2 \<le> n \<and> k + n \<le> VIRT_PAGES \<and> pword (smem s) k 0 = of_nat n
        \<and> (\<forall>j. 0 < j \<and> j < n \<longrightarrow> own (k + j) = Some (LargeBody k)))"

definition malloc_inv :: "slab \<Rightarrow> (nat \<rightharpoonup> role) \<Rightarrow> (nat \<Rightarrow> nat list) \<Rightarrow> (nat \<rightharpoonup> nat) \<Rightarrow> nat set \<Rightarrow> bool" where
  "malloc_inv s own pl A M \<longleftrightarrow> vm_inv (svm s) A M \<and> dom own \<subseteq> dom A \<and> caches_ok s own pl \<and> roles_ok s own"

lemma malloc_invD:
  assumes "malloc_inv s own pl A M"
  shows "vm_inv (svm s) A M" "dom own \<subseteq> dom A" "own k = Some x \<Longrightarrow> k < VIRT_PAGES"
    "i < 6 \<Longrightarrow> object_sizes s (cache_at i s) = of_nat (csize i)" "i < 6 \<Longrightarrow> distinct (pl i)"
    "i < 6 \<Longrightarrow> page_lists s (cache_at i s) = page_hd (pl i) 0" "i < 6 \<Longrightarrow> plink (smem s) (pl i) 0"
    "i < 6 \<Longrightarrow> set (pl i) = {k. \<exists>fl. own k = Some (SlabPage i fl)}"
    "own k = Some (SlabPage i fl) \<Longrightarrow> i < 6" "own k = Some (SlabPage i fl) \<Longrightarrow> length fl < nslots (csize i)"
    "own k = Some (SlabPage i fl) \<Longrightarrow> slab_page (smem s) k (cache_at i s) (csize i) fl"
    "own k = Some (LargeHead n) \<Longrightarrow> 2 \<le> n" "own k = Some (LargeHead n) \<Longrightarrow> k + n \<le> VIRT_PAGES"
    "own k = Some (LargeHead n) \<Longrightarrow> pword (smem s) k 0 = of_nat n"
    "own k = Some (LargeHead n) \<Longrightarrow> 0 < j \<Longrightarrow> j < n \<Longrightarrow> own (k + j) = Some (LargeBody k)"
proof -
  show "vm_inv (svm s) A M" "dom own \<subseteq> dom A" using assms by (simp_all add: malloc_inv_def)
  then have "dom own \<subseteq> {..<VIRT_PAGES}" using vm_invD(2) [of "svm s" A M] by auto
  then show "own k = Some x \<Longrightarrow> k < VIRT_PAGES" by auto
qed (use assms in \<open>auto simp: malloc_inv_def caches_ok_def roles_ok_def\<close>)

lemma slots_disjoint:
  assumes "j \<noteq> j'"
  shows "slot_off os j + os \<le> slot_off os j' \<or> slot_off os j' + os \<le> slot_off os j"
  using assms slots_apart [of j j' os] slots_apart [of j' j os] by linarith

text \<open>The pages a block lies in.\<close>

lemma block_pages [consumes 2, case_names slab pages]:
  assumes inv: "malloc_inv s own pl A M" and b: "(p, n) \<in> blocks own"
  obtains (slab) k i j where "is_slot own k i j" "i < 6" "j < nslots (csize i)" "p = k * 4096 + slot_off (csize i) j" "n = csize i"
      "slot_off (csize i) j + n \<le> 4096" "k < VIRT_PAGES" "p div 4096 = k"
    | (pages) k c where "own k = Some (LargeHead c)" "p = Suc k * 4096" "n = (c - 1) * 4096" "2 \<le> c" "k + c \<le> VIRT_PAGES"
  using b
proof cases
  case (small k i j)
  note D = malloc_invD [OF inv]
  obtain fl where fl: "own k = Some (SlabPage i fl)" "j < nslots (csize i)" using small(3) by (auto simp: is_slot_def)
  have "i < 6" by (rule D(9) [OF fl(1)])
  moreover have "slot_off (csize i) j + csize i \<le> 4096" by (rule slot_fits [OF fl(2)])
  moreover have "slot_off (csize i) j < 4096" using csize_bounds [OF \<open>i < 6\<close>] calculation by simp
  ultimately show thesis using slab [of k i j] small fl D(3) [OF fl(1)] by simp
next
  case (large k c)
  then show thesis using pages malloc_invD(12,13) [OF inv large(3)] by blast
qed

lemma heap_blocks_disjoint:
  assumes inv: "malloc_inv s own pl A M" and b: "(p, n) \<in> blocks own" "(q, r) \<in> blocks own" "p \<noteq> q"
  shows "p + n \<le> q \<or> q + r \<le> p"
proof -
  note D = malloc_invD [OF inv]
  have sl: "x + n \<le> y \<or> y + c \<le> x"
    if "is_slot own k i j" "x = k * 4096 + slot_off (csize i) j" "slot_off (csize i) j + n \<le> 4096"
      "own k' = Some (LargeHead c')" "y = Suc k' * 4096" "c = (c' - 1) * 4096" "2 \<le> c'" for x y n c k i j k' c'
  proof -
    have "\<not> (k' < k \<and> k < k' + c')"
    proof
      assume "k' < k \<and> k < k' + c'"
      then have "0 < k - k'" "k - k' < c'" "k' + (k - k') = k" by auto
      then have "own k = Some (LargeBody k')" using D(15) [OF that(4), of "k - k'"] by simp
      then show False using that(1) by (simp add: is_slot_def)
    qed
    moreover have "k \<noteq> k'" using that(1,4) by (auto simp: is_slot_def)
    ultimately consider "k < k'" | "k' + c' \<le> k" by linarith
    then show ?thesis
    proof cases
      case 1
      then have "Suc k * 4096 \<le> k' * 4096" by (intro mult_le_mono1) simp
      then show ?thesis using that by simp
    next
      case 2
      then have "(k' + c') * 4096 \<le> k * 4096" by (rule mult_le_mono1)
      moreover have "Suc k' * 4096 + (c' - 1) * 4096 = (k' + c') * 4096" using that(7) by (simp add: algebra_simps diff_mult_distrib)
      ultimately show ?thesis using that by simp
    qed
  qed
  show ?thesis
using inv b(1)
  proof (cases rule: block_pages)
    case sa: (slab k i j)
    show ?thesis using inv b(2)
  proof (cases rule: block_pages)
      case sb: (slab k' i' j')
      show ?thesis
      proof (cases "k = k'")
        case True
        then have i: "i = i'" using sa(1) sb(1) by (auto simp: is_slot_def)
        then have "j \<noteq> j'" using b(3) sa(4) sb(4) True by auto
        then show ?thesis using slots_disjoint [of j j' "csize i"] sa(4,5) sb(4,5) True i by auto
      next
        case False
        then consider "Suc k \<le> k'" | "Suc k' \<le> k" by linarith
        then show ?thesis
        proof cases
          case 1
          then have "Suc k * 4096 \<le> k' * 4096" by (rule mult_le_mono1)
          then show ?thesis using sa(4-6) sb(4) by simp
        next
          case 2
          then have "Suc k' * 4096 \<le> k * 4096" by (rule mult_le_mono1)
          then show ?thesis using sb(4-6) sa(4) by simp
        qed
      qed
    next
      case lb: (pages k' c')
      show ?thesis by (rule sl [OF sa(1,4,6) lb(1-4)])
    qed
  next
    case la: (pages k c)
    show ?thesis using inv b(2)
  proof (cases rule: block_pages)
      case sb: (slab k' i' j')
      show ?thesis using sl [OF sb(1,4,6) la(1-4)] by blast
    next
      case lb: (pages k' c')
      have "k \<noteq> k'" using b(3) la(2) lb(2) by auto
      moreover have "\<not> (k < k' \<and> k' < k + c)" using D(15) [OF la(1), of "k' - k"] lb(1) by (auto simp: less_diff_conv2)
      moreover have "\<not> (k' < k \<and> k < k' + c')" using D(15) [OF lb(1), of "k - k'"] la(1) by (auto simp: less_diff_conv2)
      ultimately consider "k + c \<le> k'" | "k' + c' \<le> k" by linarith
      then show ?thesis
      proof cases
        case 1
        then have "(k + c) * 4096 \<le> k' * 4096" by (rule mult_le_mono1)
        moreover have "Suc k * 4096 + (c - 1) * 4096 = (k + c) * 4096" using la(4) by (simp add: algebra_simps diff_mult_distrib)
        ultimately show ?thesis using la(2,3) lb(2) by simp
      next
        case 2
        then have "(k' + c') * 4096 \<le> k * 4096" by (rule mult_le_mono1)
        moreover have "Suc k' * 4096 + (c' - 1) * 4096 = (k' + c') * 4096" using lb(4) by (simp add: algebra_simps diff_mult_distrib)
        ultimately show ?thesis using la(2) lb(2,3) by simp
      qed
    qed
  qed
qed

end
