(* ===== verification/SlabStep.thy ===== *)
theory SlabStep
  imports SlabProps
begin

text \<open>
  The operations of the slab layer against the invariant: a page changes its free list, joins its cache or
  leaves it, and what that does to the blocks in use.
\<close>

unbundle bit_operations_syntax

section \<open>Changing one page\<close>

lemma cache_at_eq: "i < 6 \<Longrightarrow> i' < 6 \<Longrightarrow> cache_at i s = cache_at i' s' \<longleftrightarrow> malloc_caches s + 8 * of_nat i = malloc_caches s' + 8 * of_nat i'"
  by (simp add: cache_at_def)

lemma cache_at_inj:
  assumes "i < 6" "i' < 6"
  shows "cache_at i s = cache_at i' s \<longleftrightarrow> i = i'"
proof
  assume "cache_at i s = cache_at i' s"
  then have "(8 * of_nat i :: u32) = 8 * of_nat i'" by (simp add: cache_at_def)
  then have "unat (of_nat (8 * i) :: u32) = unat (of_nat (8 * i') :: u32)" by simp
  then show "i = i'" using assms by (simp only: unat_of_nat_u32)
qed simp

lemma cache_at_update [simp]:
  "cache_at i (s\<lparr>smem := m\<rparr>) = cache_at i s" "cache_at i (s\<lparr>svm := v\<rparr>) = cache_at i s"
  "cache_at i (s\<lparr>page_lists := l\<rparr>) = cache_at i s"
  by (simp_all add: cache_at_def)

lemma last_notin: "xs \<noteq> [] \<Longrightarrow> x \<notin> set xs \<Longrightarrow> x \<noteq> last xs"
  by auto

lemma roles_ok_update:
  assumes inv: "malloc_inv s own pl A M" and k: "own k = None \<or> own k = Some (SlabPage i0 fl0)"
    and m: "\<And>k' i fl. k' \<noteq> k \<Longrightarrow> own k' = Some (SlabPage i fl) \<Longrightarrow> slab_page (smem s') k' (cache_at i s) (csize i) fl"
    and h: "\<And>k' n. own k' = Some (LargeHead n) \<Longrightarrow> pword (smem s') k' 0 = pword (smem s) k' 0"
    and c: "malloc_caches s' = malloc_caches s"
    and new: "\<And>i fl. r = Some (SlabPage i fl) \<Longrightarrow> i < 6 \<and> length fl < nslots (csize i) \<and> slab_page (smem s') k (cache_at i s) (csize i) fl"
    and nl: "\<And>n. r \<noteq> Some (LargeHead n)"
  shows "roles_ok s' (own(k := r))"
proof -
  note D = malloc_invD [OF inv]
  have ca: "cache_at i s' = cache_at i s" for i by (simp add: cache_at_def c)
  show ?thesis
    unfolding roles_ok_def ca
  proof (intro conjI allI impI)
    fix k' i fl assume o: "(own(k := r)) k' = Some (SlabPage i fl)"
    show "i < 6" "length fl < nslots (csize i)" "slab_page (smem s') k' (cache_at i s) (csize i) fl"
      using o new m D(9-11) by (cases "k' = k"; auto)+
  next
    fix k' n assume o: "(own(k := r)) k' = Some (LargeHead n)"
    then have ok: "k' \<noteq> k" "own k' = Some (LargeHead n)" using nl by (auto split: if_splits)
    show "2 \<le> n" "k' + n \<le> VIRT_PAGES" "pword (smem s') k' 0 = of_nat n"
      using D(12-14) [OF ok(2)] h [OF ok(2)] by simp_all
    fix j assume j: "0 < j \<and> j < n"
    then have "own (k' + j) = Some (LargeBody k')" using D(15) [OF ok(2)] by simp
    then show "(own(k := r)) (k' + j) = Some (LargeBody k')" using k by (auto split: if_splits)
  qed
qed

lemma update_page:
  assumes inv: "malloc_inv s own pl A M" and k: "own k = Some (SlabPage i fl0)" and same: "pages_same {k} (smem s) m'"
    and p: "slab_page m' k (cache_at i s) (csize i) fl" "pword m' k 8 = pword (smem s) k 8" "length fl < nslots (csize i)"
  shows "malloc_inv (s\<lparr>smem := m'\<rparr>) (own(k \<mapsto> SlabPage i fl)) pl A M"
proof -
  note D = malloc_invD [OF inv]
  have i: "i < 6" by (rule D(9) [OF k])
  have other: "slab_page m' k' (cache_at i' s) (csize i') fl'" if "k' \<noteq> k" "own k' = Some (SlabPage i' fl')" for k' i' fl'
    using slab_page_same [OF same, of k' "csize i'"] D(3,9,11) [OF that(2)] csize_bounds that(1) by simp
  have "roles_ok (s\<lparr>smem := m'\<rparr>) (own(k \<mapsto> SlabPage i fl))"
  proof (rule roles_ok_update [OF inv disjI2 [OF k]])
    fix k' n assume h: "own k' = Some (LargeHead n)"
    then have "k' \<noteq> k" using k by auto
    then show "pword (smem (s\<lparr>smem := m'\<rparr>)) k' 0 = pword (smem s) k' 0"
      using pages_same_pword [OF same, of k' 0] D(3) [OF h] by simp
  qed (use other p i in auto)
  moreover have "caches_ok (s\<lparr>smem := m'\<rparr>) (own(k \<mapsto> SlabPage i fl)) pl"
    unfolding caches_ok_def
  proof (intro allI impI conjI)
    fix i' :: nat assume i': "i' < 6"
    have mem: "k' < VIRT_PAGES" if "k' \<in> set (pl i')" for k' using that D(8) [OF i'] D(3) by auto
    have "plink m' (pl i') 0 = plink (smem s) (pl i') 0"
    proof (rule plink_cong)
      fix k' assume "k' \<in> set (pl i')"
      then show "pword m' k' 8 = pword (smem s) k' 8"
        using pages_same_pword [OF same, of k' 8] mem p(2) by (cases "k' = k") simp_all
    qed
    then show "plink (smem (s\<lparr>smem := m'\<rparr>)) (pl i') 0" using D(7) [OF i'] by simp
    show "set (pl i') = {k'. \<exists>fl'. (own(k \<mapsto> SlabPage i fl)) k' = Some (SlabPage i' fl')}"
      using D(8) [OF i'] k by auto
  qed (use D(4-6) in simp_all)
  moreover have "dom (own(k \<mapsto> SlabPage i fl)) = dom own" using k by auto
  ultimately show ?thesis using D(1,2) by (simp add: malloc_inv_def)
qed

lemma add_page:
  assumes inv: "malloc_inv s own pl A M" and i: "i < 6" and k: "k \<notin> dom A" and v: "vm_inv v (A(k \<mapsto> f)) M"
    and same: "pages_same {k} (smem s) m'" and p: "slab_page m' k (cache_at i s) (csize i) fl" "length fl < nslots (csize i)"
    and l: "pword m' k 8 = page_lists s (cache_at i s)"
  shows "malloc_inv (s\<lparr>svm := v, smem := m', page_lists := (page_lists s)(cache_at i s := page_addr k)\<rparr>)
    (own(k \<mapsto> SlabPage i fl)) (pl(i := k # pl i)) (A(k \<mapsto> f)) M"
    (is "malloc_inv ?s ?own ?pl ?A M")
proof -
  note D = malloc_invD [OF inv]
  have ko: "own k = None" using D(2) k by auto
  have other: "slab_page m' k' (cache_at i' s) (csize i') fl'" if "k' \<noteq> k" "own k' = Some (SlabPage i' fl')" for k' i' fl'
    using slab_page_same [OF same, of k' "csize i'"] D(3,9,11) [OF that(2)] csize_bounds that(1) by simp
  have kpl: "k \<notin> set (pl i')" if "i' < 6" for i' using D(8) [OF that] ko by auto
  have ca: "cache_at i' ?s = cache_at i' s" for i' by (simp add: cache_at_def)
  have "roles_ok ?s ?own"
  proof (rule roles_ok_update [OF inv disjI1 [OF ko]])
    fix k' n assume h: "own k' = Some (LargeHead n)"
    then have "k' \<noteq> k" using ko by auto
    then show "pword (smem ?s) k' 0 = pword (smem s) k' 0"
      using pages_same_pword [OF same, of k' 0] D(3) [OF h] by simp
  qed (use other p i in auto)
  moreover have "caches_ok ?s ?own ?pl"
    unfolding caches_ok_def ca
  proof (intro allI impI conjI)
    fix i' :: nat assume i': "i' < 6"
    have mem: "k' < VIRT_PAGES \<and> k' \<noteq> k" if "k' \<in> set (pl i')" for k' using that D(8) [OF i'] D(3) kpl [OF i'] by auto
    have pw: "plink m' (pl i') 0 = plink (smem s) (pl i') 0"
      by (rule plink_cong) (use pages_same_pword [OF same] mem in simp)
    show "plink (smem ?s) (?pl i') 0" using pw D(6,7) [OF i'] l by (cases "i' = i") simp_all
    show "set (?pl i') = {k'. \<exists>fl'. ?own k' = Some (SlabPage i' fl')}"
      using D(8) [OF i'] ko by (cases "i' = i") auto
    show "distinct (?pl i')" using D(5) [OF i'] kpl [OF i'] by (cases "i' = i") simp_all
    show "page_lists ?s (cache_at i' s) = page_hd (?pl i') 0"
      using D(6) [OF i'] cache_at_inj [OF i' i, of s] by simp
    show "object_sizes ?s (cache_at i' s) = of_nat (csize i')" using D(4) [OF i'] by simp
  qed
  moreover have "dom ?own \<subseteq> dom ?A" using D(2) by auto
  ultimately show ?thesis using v by (simp add: malloc_inv_def)
qed

text \<open>The page leaves the list of its cache, and memory outside it changes only in the link to it.\<close>

lemma drop_slab_page:
  assumes inv: "malloc_inv s own pl A M" and k: "own k = Some (SlabPage i fl0)" and pl: "pl i = xs @ k # ys"
    and v: "vm_inv v (drop_range A k 1) M"
    and m: "\<And>k' o'. k' < VIRT_PAGES \<Longrightarrow> k' \<noteq> k \<Longrightarrow> o' < 4096 \<Longrightarrow> xs = [] \<or> k' \<noteq> last xs \<or> o' < 8 \<or> 12 \<le> o' \<Longrightarrow> pbyte m' k' o' = pbyte (smem s) k' o'"
    and l: "xs \<noteq> [] \<Longrightarrow> pword m' (last xs) 8 = page_hd ys 0"
  shows "malloc_inv (s\<lparr>svm := v, smem := m', page_lists := (if xs = [] then (page_lists s)(cache_at i s := page_hd ys 0) else page_lists s)\<rparr>)
    (own(k := None)) (pl(i := xs @ ys)) (drop_range A k 1) M"
    (is "malloc_inv ?s ?own ?pl ?A M")
proof -
  note D = malloc_invD [OF inv]
  have i: "i < 6" by (rule D(9) [OF k])
  have ca: "cache_at i' ?s = cache_at i' s" for i' by (simp add: cache_at_def)
  have pp: "pbyte m' k' o' = pbyte (smem s) k' o'" if "k' < VIRT_PAGES" "k' \<noteq> k" "o' < 4096" "o' < 8 \<or> 12 \<le> o'" for k' o'
    using m that by blast
  have roles: "roles_ok ?s ?own"
  proof (rule roles_ok_update [OF inv disjI2 [OF k]])
    fix k' i' fl' assume o: "k' \<noteq> k" "own k' = Some (SlabPage i' fl')"
    have "slab_page m' k' (cache_at i' s) (csize i') fl' = slab_page (smem s) k' (cache_at i' s) (csize i') fl'"
      using csize_bounds D(9) [OF o(2)] by (intro slab_page_cong pp) (use D(3) o in auto)
    then show "slab_page (smem ?s) k' (cache_at i' s) (csize i') fl'" using D(11) [OF o(2)] by simp
  next
    fix k' n assume h: "own k' = Some (LargeHead n)"
    then have "k' \<noteq> k" using k by auto
    then have "pword m' k' 0 = pword (smem s) k' 0" by (intro pword_cong pp) (use D(3) [OF h] in auto)
    then show "pword (smem ?s) k' 0 = pword (smem s) k' 0" by simp
  qed auto
  have caches: "caches_ok ?s ?own ?pl"
    unfolding caches_ok_def ca
  proof (intro allI impI conjI)
    fix i' :: nat assume i': "i' < 6"
    have mem: "k' < VIRT_PAGES" if "k' \<in> set (pl i')" for k' using that D(8) [OF i'] D(3) by auto
    have keep: "pword m' k' 8 = pword (smem s) k' 8" if "k' < VIRT_PAGES" "k' \<noteq> k" "xs = [] \<or> k' \<noteq> last xs" for k'
      by (rule pword_cong, rule m) (use that in auto)
    have set_i: "set (pl i) = {k. \<exists>fl. own k = Some (SlabPage i fl)}" by (rule D(8) [OF i])
    show "plink (smem ?s) (?pl i') 0"
    proof (cases "i' = i")
      case False
      have "plink m' (pl i') 0 = plink (smem s) (pl i') 0"
      proof (rule plink_cong)
        fix k' assume k': "k' \<in> set (pl i')"
        then obtain fl' where "own k' = Some (SlabPage i' fl')" using D(8) [OF i'] by auto
        then have "k' \<notin> set (pl i)" using set_i False by auto
        moreover have "xs \<noteq> [] \<Longrightarrow> k' \<noteq> last xs" using calculation pl by (intro last_notin) auto
        ultimately show "pword m' k' 8 = pword (smem s) k' 8" using keep [of k'] mem [OF k'] pl by (cases "xs = []") auto
      qed
      then show ?thesis using D(7) [OF i'] False by simp
    next
      case True
      have d: "distinct (xs @ k # ys)" and pk: "plink (smem s) (xs @ k # ys) 0"
        using D(5,7) [OF i] pl by simp_all
      have py: "plink m' ys 0 = plink (smem s) ys 0"
      proof (rule plink_cong)
        fix k' assume k': "k' \<in> set ys"
        then have "xs \<noteq> [] \<Longrightarrow> k' \<noteq> last xs" using d by (intro last_notin) auto
        then show "pword m' k' 8 = pword (smem s) k' 8"
          using k' keep [of k'] mem [of k'] True pl d by (cases "xs = []") auto
      qed
      show ?thesis
      proof (cases xs rule: rev_cases)
        case Nil
        then show ?thesis using True py pk by simp
      next
        case (snoc zs z)
        have "plink m' zs (page_addr z) = plink (smem s) zs (page_addr z)"
        proof (rule plink_cong)
          fix k' assume k': "k' \<in> set zs"
          then show "pword m' k' 8 = pword (smem s) k' 8"
            using keep [of k'] mem [of k'] True pl d snoc by auto
        qed
        then show ?thesis using True py pk l snoc by (simp add: plink_append)
      qed
    qed
    show "set (?pl i') = {k'. \<exists>fl'. ?own k' = Some (SlabPage i' fl')}"
    proof (cases "i' = i")
      case True
      have "set (xs @ ys) = set (pl i) - {k}" using pl D(5) [OF i] by auto
      then show ?thesis using True set_i by auto
    next
      case False
      then show ?thesis using D(8) [OF i'] k by auto
    qed
    show "distinct (?pl i')" using D(5) [OF i'] D(5) [OF i] pl by simp
    show "page_lists ?s (cache_at i' s) = page_hd (?pl i') 0"
      using D(6) [OF i'] cache_at_inj [OF i' i, of s] pl by (cases "xs = []") (auto simp: page_hd_append neq_Nil_conv)
    show "object_sizes ?s (cache_at i' s) = of_nat (csize i')" using D(4) [OF i'] by simp
  qed
  have "dom ?own \<subseteq> dom ?A" using D(2) by (auto simp: drop_range_def)
  then show ?thesis using v roles caches by (simp add: malloc_inv_def)
qed

end
