(* ===== verification/SlabOps.thy ===== *)
theory SlabOps
  imports SlabStep
begin

text \<open>
  Every outcome of \<open>slab_alloc\<close> and \<open>slab_free\<close>: which blocks are in use afterwards, and that the bytes of
  all the others stay.
\<close>

unbundle bit_operations_syntax

section \<open>Bytes of blocks\<close>

definition same_bytes :: "memory \<Rightarrow> memory \<Rightarrow> nat \<Rightarrow> nat \<Rightarrow> bool" where
  "same_bytes m m' p n \<longleftrightarrow> (\<forall>i < n. m' (win (p + i)) = m (win (p + i)))"

lemma same_bytes_refl [simp]: "same_bytes m m p n"
  by (simp add: same_bytes_def)

lemma same_bytes_trans: "same_bytes m m1 p n \<Longrightarrow> same_bytes m1 m2 p n \<Longrightarrow> same_bytes m m2 p n"
  by (simp add: same_bytes_def)

text \<open>Whether a byte of a page belongs to a block in use.\<close>

definition block_byte :: "(nat \<rightharpoonup> role) \<Rightarrow> nat \<Rightarrow> nat \<Rightarrow> bool" where
  "block_byte own k off \<longleftrightarrow>
     (\<exists>i j. is_slot own k i j \<and> slot_off (csize i) j \<le> off \<and> off < slot_off (csize i) j + csize i)
     \<or> (\<exists>h. own k = Some (LargeBody h))"

lemma block_bytes:
  assumes inv: "malloc_inv s own pl A M" and b: "(p, n) \<in> blocks own" and i: "i < n"
  shows "block_byte own ((p + i) div 4096) ((p + i) mod 4096)" "(p + i) div 4096 < VIRT_PAGES"
proof -
  have "block_byte own ((p + i) div 4096) ((p + i) mod 4096) \<and> (p + i) div 4096 < VIRT_PAGES"
    using inv b
  proof (cases rule: block_pages)
    case (slab k c j)
    have o: "slot_off (csize c) j + i < 4096" using slab(6) i by simp
    have e: "p + i = k * 4096 + (slot_off (csize c) j + i)" using slab(4) by simp
    have "(p + i) div 4096 = k" "(p + i) mod 4096 = slot_off (csize c) j + i" unfolding e using o by simp_all
    then show ?thesis using slab(1,5,7) i unfolding block_byte_def by (intro conjI disjI1 exI [of _ c] exI [of _ j]) simp_all
  next
    case (pages k c)
    define q where "q = i div 4096"
    have e: "p + i = (Suc k + q) * 4096 + i mod 4096" using pages(2) by (simp add: q_def)
    have d: "(p + i) div 4096 = k + Suc q" unfolding e by simp
    have "q < c - 1" using i pages(3) by (simp add: q_def less_mult_imp_div_less)
    then have "own (k + Suc q) = Some (LargeBody k)" "k + Suc q < VIRT_PAGES"
      using malloc_invD(15) [OF inv pages(1), of "Suc q"] pages(5) by auto
    then show ?thesis unfolding d block_byte_def by auto
  qed
  then show "block_byte own ((p + i) div 4096) ((p + i) mod 4096)" "(p + i) div 4096 < VIRT_PAGES" by simp_all
qed

lemma blocks_same:
  assumes inv: "malloc_inv s own pl A M"
    and m: "\<And>k off. k < VIRT_PAGES \<Longrightarrow> off < 4096 \<Longrightarrow> block_byte own k off \<Longrightarrow> pbyte m' k off = pbyte m k off"
    and b: "(p, n) \<in> blocks own"
  shows "same_bytes m m' p n"
  unfolding same_bytes_def win_split
proof (intro allI impI)
  fix i assume "i < n"
  then show "m' (at_page ((p + i) div 4096) ((p + i) mod 4096)) = m (at_page ((p + i) div 4096) ((p + i) mod 4096))"
    using m block_bytes [OF inv b] by (simp add: pbyte_def)
qed

lemma block_in_window:
  assumes inv: "malloc_inv s own pl A M" and b: "(p, n) \<in> blocks own"
  shows "p + n \<le> VIRT_PAGES * 4096" "0 < n"
proof -
  have "p + n \<le> VIRT_PAGES * 4096 \<and> 0 < n"
    using inv b
  proof (cases rule: block_pages)
    case (slab k i j)
    have "Suc k * 4096 \<le> VIRT_PAGES * 4096" using slab(7) by (intro mult_le_mono1) simp
    then show ?thesis using slab(4,6) csize_bounds [OF slab(2)] slab(5) by simp
  next
    case (pages k c)
    have "Suc k * 4096 + (c - 1) * 4096 = (k + c) * 4096" using pages(4) by (simp add: algebra_simps diff_mult_distrib)
    moreover have "(k + c) * 4096 \<le> VIRT_PAGES * 4096" using pages(5) by (rule mult_le_mono1)
    ultimately show ?thesis using pages by simp
  qed
  then show "p + n \<le> VIRT_PAGES * 4096" "0 < n" by simp_all
qed

lemma blocks_insert:
  assumes "\<And>k' i' j'. is_slot own' k' i' j' \<longleftrightarrow> is_slot own k' i' j' \<or> k' = k \<and> i' = i \<and> j' = j"
    and "\<And>k' n. own' k' = Some (LargeHead n) \<longleftrightarrow> own k' = Some (LargeHead n)"
  shows "blocks own' = insert (k * 4096 + slot_off (csize i) j, csize i) (blocks own)"
proof (intro equalityI subrelI)
  fix p n assume "(p, n) \<in> blocks own'"
  then show "(p, n) \<in> insert (k * 4096 + slot_off (csize i) j, csize i) (blocks own)"
  proof cases
    case (small k' i' j')
    then show ?thesis using assms(1) blocks.small [of own k' i' j'] by auto
  next
    case (large k' c)
    then show ?thesis using assms(2) blocks.large [of own k' c] by simp
  qed
next
  fix p n assume b: "(p, n) \<in> insert (k * 4096 + slot_off (csize i) j, csize i) (blocks own)"
  show "(p, n) \<in> blocks own'"
  proof (cases "(p, n) \<in> blocks own")
    case True
    then show ?thesis
    proof cases
      case (small k' i' j')
      then show ?thesis using assms(1) blocks.small [of own' k' i' j'] by simp
    next
      case (large k' c)
      then show ?thesis using assms(2) blocks.large [of own' k' c] by simp
    qed
  next
    case False
    then show ?thesis using b assms(1) [of k i j] by (auto intro: blocks.small)
  qed
qed

lemma block_new:
  assumes inv: "malloc_inv s own pl A M" and i: "i < 6" and j: "j < nslots (csize i)" and no: "\<not> is_slot own k i j"
    and k: "\<And>i' fl. own k = Some (SlabPage i' fl) \<Longrightarrow> i' = i"
  shows "(k * 4096 + slot_off (csize i) j, n) \<notin> blocks own"
proof
  assume b: "(k * 4096 + slot_off (csize i) j, n) \<in> blocks own"
  have o: "slot_off (csize i) j < 4096" "0 < slot_off (csize i) j"
    using slot_fits [OF j] csize_bounds [OF i] by (simp_all add: slot_off_def)
  show False
    using inv b
  proof (cases rule: block_pages)
    case (slab k' i' j')
    have "k' = k" using slab(8) o by simp
    then have "i' = i" using slab(1) k by (auto simp: is_slot_def)
    then have "slot_off (csize i) j' = slot_off (csize i) j" using slab(4) \<open>k' = k\<close> by simp
    then have "j' = j" using slot_off_inj [of "csize i"] csize_bounds [OF i] by simp
    then show False using no slab(1) \<open>k' = k\<close> \<open>i' = i\<close> by simp
  next
    case (pages k' c)
    have "(k * 4096 + slot_off (csize i) j) mod 4096 = 0" unfolding pages(2) by simp
    then show False using o by simp
  qed
qed

section \<open>A new page\<close>

lemma slab_grow_cases:
  assumes inv: "vm_inv (svm s) A M" and i: "i < 6"
  obtains (page) k f v m where "slab_grow (of_nat (csize i)) s = Inr (page_addr k, s\<lparr>svm := v, smem := m\<rparr>)"
      "k < VIRT_PAGES" "k \<notin> dom A" "vm_inv v (A(k \<mapsto> f)) M" "pages_same {k} (smem s) m"
      "pword m k 0 = slot k (csize i) 0" "pword m k 4 = 0" "slot_chain m k (csize i) [0..<nslots (csize i)]"
    | (none) "slab_grow (of_nat (csize i)) s = Inl (VmPanic OutOfPages)" "vmm_alloc_pages 1 (svm s) = Inl OutOfPages"
proof (cases "vmm_alloc_pages 1 (svm s)")
  case (Inl e)
  then have "e = OutOfPages" by (auto simp: vmm_alloc_pages_def split: option.splits)
  then show thesis using none Inl by (simp add: slab_grow_def)
next
  case (Inr r)
  obtain a v where r: "r = (a, v)" by (cases r)
  obtain k fs where k: "a = page_addr k" "length fs = 1" "k + 1 \<le> VIRT_PAGES" "\<not> pages_live A M k 1" "pages_taken (svm s) A M k fs v"
    using alloc_pages_full [OF inv, of 1] Inr r by (auto simp: alloc_outcome_def)
  obtain f where f: "fs = [f]" using k(2) by (cases fs) auto
  have pl: "place_frames A k [f] = A(k \<mapsto> f)" by (auto simp: place_frames_def fun_eq_iff)
  have v: "vm_inv v (A(k \<mapsto> f)) M" using k(5) by (simp add: pages_taken_def f pl)
  have kv: "k < VIRT_PAGES" using k(3) by simp
  have kA: "k \<notin> dom A" using k(4) by (auto simp: pages_live_def)
  let ?os = "csize i"
  note os = csize_bounds [OF i]
  note sl = csize_slots [OF i]
  define m0 where "m0 = fill (smem s) (at_page k 0) 0 4096"
  define m3 where "m3 = store32 (store32 (store32 m0 (at_page k 4) 0) (at_page k 8) 0) (at_page k 0) (slot k ?os 0)"
  define m where "m = slab_grow_loop (nslots ?os - 1) (of_nat ?os) (slot k ?os 0) m3"
  have b: "0 + 4096 \<le> (4096 :: nat)" "4 + 4 \<le> (4096 :: nat)" "8 + 4 \<le> (4096 :: nat)" "0 + 4 \<le> (4096 :: nat)" by simp_all
  have same: "pages_same {k} (smem s) m3"
    unfolding m3_def m0_def
    using pages_same_trans [OF pages_same_trans [OF pages_same_trans [OF fill_pages_same [OF kv b(1)] store_pages_same [OF kv b(2)]]
      store_pages_same [OF kv b(3)]] store_pages_same [OF kv b(4)]] by simp
  have p0: "pword m3 k 0 = slot k ?os 0" unfolding m3_def by (rule store_pword_same [OF kv b(4)])
  have p4: "pword m3 k 4 = 0"
    unfolding m3_def using store_pword_other [OF kv kv b(4), of 4] store_pword_other [OF kv kv b(3), of 4] store_pword_same [OF kv b(2)] by simp
  have gl: "pages_same {k} m3 m \<and> (\<forall>o' < slot_off ?os 0. pbyte m k o' = pbyte m3 k o') \<and> slot_chain m k ?os [0..<0 + Suc (nslots ?os - 1)]"
    unfolding m_def by (rule slab_grow_loop_chain [OF kv]) (use os sl in auto)
  then have w: "pword m k 0 = pword m3 k 0" "pword m k 4 = pword m3 k 4" by (auto intro!: pword_cong simp: slot_off_def)
  have up: "0 + Suc (nslots ?os - 1) = nslots ?os" using sl by simp
  have n4: "\<not> (of_nat ?os :: u32) < 4" using os by (simp add: word_less_nat_alt unat_of_nat_u32)
  have ms: "unat ((PAGE_SIZE - SLAB_HEADER) div of_nat ?os - 1 :: u32) = nslots ?os - 1"
  proof -
    have "unat ((PAGE_SIZE - SLAB_HEADER) div of_nat ?os :: u32) = nslots ?os"
      using os by (simp add: unat_div_distrib PAGE_SIZE_def SLAB_HEADER_def unat_of_nat_u32 nslots_def)
    then show ?thesis using sl by (subst unat_minus_one_u32) (auto simp: unat_eq_0 [symmetric])
  qed
  have sh: "page_addr k + SLAB_HEADER = slot k ?os 0" by (simp add: slot_def at_page_def slot_off_def SLAB_HEADER_def)
  have "slab_grow (of_nat ?os) s = Inr (page_addr k, s\<lparr>svm := v, smem := m\<rparr>)"
    unfolding slab_grow_def Inr r k(1) sum.case prod.case Let_def if_not_P [OF n4] ms sh
    by (simp add: m_def m3_def m0_def field_addr)
  moreover have "pages_same {k} (smem s) m" using pages_same_trans [OF same conjunct1 [OF gl]] by simp
  ultimately show thesis using page kv kA v w p0 p4 gl up by simp
qed

section \<open>Allocation\<close>

definition slab_took :: "slab \<Rightarrow> (nat \<rightharpoonup> role) \<Rightarrow> nat \<Rightarrow> nat \<Rightarrow> nat \<Rightarrow> slab \<Rightarrow> (nat \<rightharpoonup> role) \<Rightarrow> bool" where
  "slab_took s own k i j s' own' \<longleftrightarrow>
     (k * 4096 + slot_off (csize i) j, csize i) \<notin> blocks own
     \<and> blocks own' = insert (k * 4096 + slot_off (csize i) j, csize i) (blocks own)
     \<and> (\<forall>(p, n) \<in> blocks own. same_bytes (smem s) (smem s') p n)
     \<and> malloc_caches s' = malloc_caches s \<and> object_sizes s' = object_sizes s"

lemma take_from_page:
  assumes inv: "malloc_inv s own pl A M" and k: "own k = Some (SlabPage i (j # fl))"
  shows "\<exists>s'. slab_take (cache_at i s) (page_addr k) s = Inr (slot k (csize i) j, s')
    \<and> malloc_inv s' (own(k \<mapsto> SlabPage i fl)) pl A M \<and> slab_took s own k i j s' (own(k \<mapsto> SlabPage i fl))"
proof -
  note D = malloc_invD [OF inv]
  have i: "i < 6" by (rule D(9) [OF k])
  note os = csize_bounds [OF i]
  note p = D(11) [OF k]
  have j: "j < nslots (csize i)" "j \<notin> set fl" using p by (simp_all add: slab_page_def)
  obtain m' where t: "slab_take (cache_at i s) (page_addr k) s = Inr (slot k (csize i) j, s\<lparr>smem := m'\<rparr>)"
    "pages_same {k} (smem s) m'" "slab_page m' k (cache_at i s) (csize i) fl" "pword m' k 8 = pword (smem s) k 8"
    "\<And>o'. 8 \<le> o' \<Longrightarrow> o' < 4096 \<Longrightarrow> pbyte m' k o' = pbyte (smem s) k o'"
    by (rule slab_take_ok [OF D(3) [OF k] _ _ p D(4) [OF i]]) (use os in auto)
  have len: "length fl < nslots (csize i)" using D(10) [OF k] by simp
  have inv': "malloc_inv (s\<lparr>smem := m'\<rparr>) (own(k \<mapsto> SlabPage i fl)) pl A M"
    by (rule update_page [OF inv k t(2-4) len])
  have no: "\<not> is_slot own k i j" using k by (auto simp: is_slot_def)
  have b: "blocks (own(k \<mapsto> SlabPage i fl)) = insert (k * 4096 + slot_off (csize i) j, csize i) (blocks own)"
    by (rule blocks_insert) (use k j in \<open>auto simp: is_slot_def\<close>)
  have bb: "pbyte m' k' off = pbyte (smem s) k' off" if "k' < VIRT_PAGES" "off < 4096" "block_byte own k' off" for k' off
  proof (cases "k' = k")
    case True
    then have "8 \<le> off" using that(3) k by (auto simp: block_byte_def slot_off_def)
    then show ?thesis using t(5) that(2) True by simp
  next
    case False
    then show ?thesis using t(2) that by (simp add: pages_same_def)
  qed
  have "slab_took s own k i j (s\<lparr>smem := m'\<rparr>) (own(k \<mapsto> SlabPage i fl))"
    unfolding slab_took_def b using block_new [OF inv i j(1) no, of "csize i"] k blocks_same [OF inv bb] by auto
  then show ?thesis using t(1) inv' by blast
qed

lemma page_search_pages:
  assumes inv: "malloc_inv s own pl A M" and i: "i < 6"
  shows "page_search (smem s) (page_lists s (cache_at i s)) = Some (page_hd (dropWhile (\<lambda>k. pword (smem s) k 0 = 0) (pl i)) 0)"
proof -
  note D = malloc_invD [OF inv]
  have sub: "set (pl i) \<subseteq> {..<VIRT_PAGES}" using D(8) [OF i] D(3) by auto
  show ?thesis unfolding D(6) [OF i] by (rule page_search_list [OF D(7) [OF i] sub])
qed

text \<open>Some page of the cache has a free slot.\<close>

lemma slab_alloc_used:
  assumes inv: "malloc_inv s own pl A M" and i: "i < 6" and Cons: "dropWhile (\<lambda>k. pword (smem s) k 0 = 0) (pl i) = k # ks"
  obtains j fl s' where "own k = Some (SlabPage i (j # fl))" "slab_alloc (cache_at i s) s = Some (Inr (slot k (csize i) j, s'))"
    "malloc_inv s' (own(k \<mapsto> SlabPage i fl)) pl A M" "slab_took s own k i j s' (own(k \<mapsto> SlabPage i fl))"
proof -
  note D = malloc_invD [OF inv]
  note ps = page_search_pages [OF inv i]
  have kin: "k \<in> set (pl i)" using Cons set_dropWhileD [of k _ "pl i"] by (metis list.set_intros(1))
  then obtain fl where own: "own k = Some (SlabPage i fl)" using D(8) [OF i] by auto
  have kv: "k < VIRT_PAGES" by (rule D(3) [OF own])
  have "pword (smem s) k 0 \<noteq> 0" using hd_dropWhile [of "\<lambda>k. pword (smem s) k 0 = 0" "pl i"] Cons by simp
  then obtain j fl' where fl: "fl = j # fl'" using D(11) [OF own] by (cases fl) (auto simp: slab_page_def)
  obtain s' where "slab_take (cache_at i s) (page_addr k) s = Inr (slot k (csize i) j, s')"
    "malloc_inv s' (own(k \<mapsto> SlabPage i fl')) pl A M" "slab_took s own k i j s' (own(k \<mapsto> SlabPage i fl'))"
    using take_from_page [OF inv own [unfolded fl]] by blast
  then show thesis using that [OF own [unfolded fl]] ps Cons page_addr_nonzero [OF kv] by (simp add: slab_alloc_def)
qed

text \<open>None has, so the cache gets a new page.\<close>

lemma slab_alloc_new:
  assumes inv: "malloc_inv s own pl A M" and i: "i < 6" and Nil: "dropWhile (\<lambda>k. pword (smem s) k 0 = 0) (pl i) = []"
  obtains (slot) k f s' where "own k = None" "slab_alloc (cache_at i s) s = Some (Inr (slot k (csize i) 0, s'))"
      "malloc_inv s' (own(k \<mapsto> SlabPage i [1..<nslots (csize i)])) (pl(i := k # pl i)) (A(k \<mapsto> f)) M"
      "slab_took s own k i 0 s' (own(k \<mapsto> SlabPage i [1..<nslots (csize i)]))"
    | (panic) "slab_alloc (cache_at i s) s = Some (Inl (VmPanic OutOfPages))" "vmm_alloc_pages 1 (svm s) = Inl OutOfPages"
proof -
  note D = malloc_invD [OF inv]
  note os = csize_bounds [OF i]
  note ps = page_search_pages [OF inv i]
  show thesis
  proof (cases rule: slab_grow_cases [OF D(1) i])
    case none: 2
    then show thesis using panic ps Nil D(4) [OF i] by (simp add: slab_alloc_def)
  next
    case page: (1 k f v m)
    have ko: "own k = None" using D(2) page(3) by auto
    let ?c = "cache_at i s"
    define m1 where "m1 = store32 (store32 m (at_page k 8) (page_lists s ?c)) (at_page k 12) ?c"
    define s2 where "s2 = s\<lparr>svm := v, smem := m1, page_lists := (page_lists s)(?c := page_addr k)\<rparr>"
    have b: "8 + 4 \<le> (4096 :: nat)" "12 + 4 \<le> (4096 :: nat)" by simp_all
    have by1: "pbyte m1 k o' = pbyte m k o'" if "o' < 4096" "o' < 8 \<or> 16 \<le> o'" for o'
      unfolding m1_def using store_pbyte [OF page(2) page(2) b(2) that(1)] store_pbyte [OF page(2) page(2) b(1) that(1)] that(2) by auto
    have w: "pword m1 k 0 = pword m k 0" "pword m1 k 4 = pword m k 4" by (rule pword_cong, rule by1; simp)+
    have w8: "pword m1 k 8 = page_lists s ?c"
      unfolding m1_def using store_pword_other [OF page(2) page(2) b(2), of 8] store_pword_same [OF page(2) b(1)] by simp
    have w12: "pword m1 k 12 = ?c" unfolding m1_def by (rule store_pword_same [OF page(2) b(2)])
    have same: "pages_same {k} (smem s) m1"
      unfolding m1_def using pages_same_trans [OF pages_same_trans [OF page(5) store_pages_same [OF page(2) b(1)]] store_pages_same [OF page(2) b(2)]] by simp
    have ch: "slot_chain m1 k (csize i) [0..<nslots (csize i)]"
    proof -
      have "slot_chain m1 k (csize i) [0..<nslots (csize i)] = slot_chain m k (csize i) [0..<nslots (csize i)]"
      proof (rule slot_chain_cong)
        fix j o' assume j: "j \<in> set [0..<nslots (csize i)]" "slot_off (csize i) j \<le> o'" "o' < slot_off (csize i) j + csize i"
        have "slot_off (csize i) j + csize i \<le> 4096" using j(1) by (intro slot_fits) simp
        then show "pbyte m1 k o' = pbyte m k o'" using j by (intro by1) (simp_all add: slot_off_def)
      qed (use os in auto)
      then show ?thesis using page(8) by simp
    qed
    have n: "[0..<nslots (csize i)] = 0 # [1..<nslots (csize i)]" using csize_slots [OF i] by (simp add: upt_rec)
    have sp: "slab_page (smem s2) k ?c (csize i) (0 # [1..<nslots (csize i)])"
      unfolding slab_page_def n [symmetric] using ch w w12 page(6,7) csize_slots [OF i] by (auto simp: s2_def n)
    have os2: "object_sizes s2 ?c = of_nat (csize i)" using D(4) [OF i] by (simp add: s2_def)
    obtain m' where t: "slab_take ?c (page_addr k) s2 = Inr (slot k (csize i) 0, s2\<lparr>smem := m'\<rparr>)"
      "pages_same {k} (smem s2) m'" "slab_page m' k ?c (csize i) [1..<nslots (csize i)]" "pword m' k 8 = pword (smem s2) k 8"
      by (rule slab_take_ok [OF page(2) _ _ sp os2]) (use os in auto)
    have same': "pages_same {k} (smem s) m'" using pages_same_trans [OF same] t(2) by (fastforce simp: s2_def)
    have len: "length [1..<nslots (csize i)] < nslots (csize i)" using csize_slots [OF i] by simp
    have l: "pword m' k 8 = page_lists s ?c" using t(4) w8 by (simp add: s2_def)
    let ?own = "own(k \<mapsto> SlabPage i [1..<nslots (csize i)])"
    have inv': "malloc_inv (s2\<lparr>smem := m'\<rparr>) ?own (pl(i := k # pl i)) (A(k \<mapsto> f)) M"
    proof -
      have "s2\<lparr>smem := m'\<rparr> = s\<lparr>svm := v, smem := m', page_lists := (page_lists s)(?c := page_addr k)\<rparr>"
        unfolding s2_def by (cases s) simp
      then show ?thesis using add_page [OF inv i page(3,4) same' t(3) len l] by simp
    qed
    have bl: "blocks ?own = insert (k * 4096 + slot_off (csize i) 0, csize i) (blocks own)"
      by (rule blocks_insert) (use ko csize_slots [OF i] in \<open>auto simp: is_slot_def\<close>)
    have bb: "pbyte m' k' off = pbyte (smem s) k' off" if "k' < VIRT_PAGES" "off < 4096" "block_byte own k' off" for k' off
    proof -
      have "k' \<noteq> k" using that(3) ko by (auto simp: block_byte_def is_slot_def)
      then show ?thesis using same' that by (simp add: pages_same_def)
    qed
    have no: "\<not> is_slot own k i 0" using ko by (simp add: is_slot_def)
    have tk: "slab_took s own k i 0 (s2\<lparr>smem := m'\<rparr>) ?own"
      unfolding slab_took_def bl using block_new [OF inv i _ no, of "csize i"] ko csize_slots [OF i] blocks_same [OF inv bb]
      by (auto simp: s2_def)
    have "slab_alloc ?c s = Some (Inr (slot k (csize i) 0, s2\<lparr>smem := m'\<rparr>))"
      using ps Nil page(1) D(4) [OF i] t(1) by (simp add: slab_alloc_def Let_def s2_def m1_def field_addr)
    then show thesis using slot ko inv' tk by blast
  qed
qed

lemma slab_alloc_cases:
  assumes inv: "malloc_inv s own pl A M" and i: "i < 6"
  obtains (slot) k j s' own' pl' A' where "slab_alloc (cache_at i s) s = Some (Inr (slot k (csize i) j, s'))"
      "malloc_inv s' own' pl' A' M" "slab_took s own k i j s' own'"
    | (panic) "slab_alloc (cache_at i s) s = Some (Inl (VmPanic OutOfPages))"
proof (cases "dropWhile (\<lambda>k. pword (smem s) k 0 = 0) (pl i)")
  case Nil
  show thesis by (rule slab_alloc_new [OF inv i Nil]) (use that in blast)+
next
  case (Cons k ks)
  show thesis by (rule slab_alloc_used [OF inv i Cons]) (use that in blast)
qed

section \<open>Release\<close>

definition slab_gave :: "slab \<Rightarrow> (nat \<rightharpoonup> role) \<Rightarrow> (nat \<times> nat) \<Rightarrow> slab \<Rightarrow> (nat \<rightharpoonup> role) \<Rightarrow> bool" where
  "slab_gave s own b s' own' \<longleftrightarrow> b \<in> blocks own \<and> blocks own' = blocks own - {b}
     \<and> (\<forall>(p, n) \<in> blocks own'. same_bytes (smem s) (smem s') p n)
     \<and> malloc_caches s' = malloc_caches s \<and> object_sizes s' = object_sizes s"

lemma blocks_delete:
  assumes inv: "malloc_inv s own pl A M" and k: "is_slot own k i j"
    and sl: "\<And>k' i' j'. is_slot own' k' i' j' \<longleftrightarrow> is_slot own k' i' j' \<and> \<not> (k' = k \<and> i' = i \<and> j' = j)"
    and lg: "\<And>k' n. own' k' = Some (LargeHead n) \<longleftrightarrow> own k' = Some (LargeHead n)"
  shows "blocks own' = blocks own - {(k * 4096 + slot_off (csize i) j, csize i)}"
proof -
  have "blocks own = insert (k * 4096 + slot_off (csize i) j, csize i) (blocks own')"
    by (rule blocks_insert) (use sl k lg in auto)
  moreover have "(k * 4096 + slot_off (csize i) j, csize i) \<notin> blocks own'"
  proof
    assume b: "(k * 4096 + slot_off (csize i) j, csize i) \<in> blocks own'"
    obtain fl where fl: "own k = Some (SlabPage i fl)" "j < nslots (csize i)" using k by (auto simp: is_slot_def)
    have i6: "i < 6" by (rule malloc_invD(9) [OF inv fl(1)])
    have o: "slot_off (csize i) j < 4096" "0 < slot_off (csize i) j"
      using slot_fits [OF fl(2)] csize_bounds [OF i6] by (simp_all add: slot_off_def)
    from b show False
    proof cases
      case (small k' i' j')
      then have s': "is_slot own k' i' j'" "\<not> (k' = k \<and> i' = i \<and> j' = j)" using sl by simp_all
      then have b': "(k' * 4096 + slot_off (csize i') j', csize i') \<in> blocks own" by (auto intro: blocks.small)
      obtain fl' where fl': "own k' = Some (SlabPage i' fl')" "j' < nslots (csize i')" using s'(1) by (auto simp: is_slot_def)
      have "i' < 6" by (rule malloc_invD(9) [OF inv fl'(1)])
      then have o': "slot_off (csize i') j' < 4096" using slot_fits [OF fl'(2)] csize_bounds by fastforce
      have "(k * 4096 + slot_off (csize i) j) div 4096 = (k' * 4096 + slot_off (csize i') j') div 4096" using small(1) by simp
      then have "k' = k" using o o' by simp
      then have "i' = i" using fl(1) fl'(1) by simp
      then have "j' = j" using small(1) \<open>k' = k\<close> slot_off_inj [of "csize i" j j'] csize_bounds [OF i6] by simp
      then show False using s'(2) \<open>k' = k\<close> \<open>i' = i\<close> by simp
    next
      case (large k' c)
      have "(k * 4096 + slot_off (csize i) j) mod 4096 = 0" unfolding large(1) by simp
      then show False using o by simp
    qed
  qed
  ultimately show ?thesis by blast
qed

lemma slot_page: "k < VIRT_PAGES \<Longrightarrow> j < nslots os \<Longrightarrow> 0 < os \<Longrightarrow> slot k os j AND NOT (PAGE_SIZE - 1) = page_addr k"
  unfolding slot_def using slot_fits [of j os] by (intro at_page_mask(1)) simp_all

lemma unlink_pages:
  assumes inv: "malloc_inv s own pl A M" and i: "i < 6" and pl: "pl i = xs @ k # ys" and m: "page_lists s' = page_lists s"
    and p: "\<And>k'. k' \<in> set (pl i) \<Longrightarrow> pword (smem s') k' 8 = pword (smem s) k' 8"
  shows "slab_unlink (cache_at i s) (page_addr k) s' = Some (if xs = [] then s'\<lparr>page_lists := (page_lists s)(cache_at i s := page_hd ys 0)\<rparr>
    else s'\<lparr>smem := store32 (smem s') (at_page (last xs) 8) (page_hd ys 0)\<rparr>)"
proof -
  note D = malloc_invD [OF inv]
  have sub: "set (xs @ k # ys) \<subseteq> {..<VIRT_PAGES}" using D(8) [OF i] D(3) pl by (auto; metis)
  have d: "k \<notin> set xs" using D(5) [OF i] pl by simp
  have "plink (smem s') (pl i) 0 = plink (smem s) (pl i) 0" by (rule plink_cong) (rule p)
  then have lk: "plink (smem s') (xs @ k # ys) 0" using D(7) [OF i] pl by simp
  then have nx: "page_next (smem s') (page_addr k) = page_hd ys 0" by (simp add: plink_append page_fields)
  have hd: "page_lists s' (cache_at i s) = page_hd (xs @ k # ys) 0" using D(6) [OF i] pl m by simp
  note pk = page_link_list [OF lk sub d, of None]
  show ?thesis
    unfolding slab_unlink_def hd pk using nx m by (auto simp: field_addr)
qed

lemma slab_free_slot:
  assumes inv: "malloc_inv s own pl A M" and sl: "is_slot own k i j"
  shows "\<exists>s' own' pl' A'. slab_free (cache_at i s) (slot k (csize i) j) s = Some (Inr s') \<and> malloc_inv s' own' pl' A' M
    \<and> slab_gave s own (k * 4096 + slot_off (csize i) j, csize i) s' own'"
proof -
  note D = malloc_invD [OF inv]
  obtain fl where fl: "own k = Some (SlabPage i fl)" "j < nslots (csize i)" "j \<notin> set fl" using sl by (auto simp: is_slot_def)
  have i: "i < 6" by (rule D(9) [OF fl(1)])
  note os = csize_bounds [OF i]
  have kv: "k < VIRT_PAGES" by (rule D(3) [OF fl(1)])
  note p = D(11) [OF fl(1)]
  have chain: "set fl \<subseteq> {..<nslots (csize i)}" "slot_chain (smem s) k (csize i) fl" "pword (smem s) k 0 = head_slot k (csize i) fl"
    using p by (simp_all add: slab_page_def)
  let ?ptr = "slot k (csize i) j" and ?c = "cache_at i s"
  have nz: "?ptr \<noteq> 0" by (rule slot_nonzero [OF kv _ fl(2)]) (use os in simp)
  have pg: "?ptr AND NOT (PAGE_SIZE - 1) = page_addr k" by (rule slot_page [OF kv fl(2)]) (use os in simp)
  have "\<not> (\<exists>j' \<in> set fl. ?ptr = slot k (csize i) j')"
  proof
    assume "\<exists>j' \<in> set fl. ?ptr = slot k (csize i) j'"
    then obtain j' where j': "j' \<in> set fl" "?ptr = slot k (csize i) j'" by blast
    then have "j' < nslots (csize i)" using chain(1) by auto
    then show False using j' slot_eq [OF kv _ fl(2)] fl(3) os by auto
  qed
  then have walk: "free_list_has (smem s) ?ptr (free_list (smem s) (page_addr k)) = Some False"
    using free_list_has_chain [OF kv _ chain(2,1), of ?ptr] os by (simp add: page_fields chain(3))
  have osz: "unat (object_sizes s ?c) = csize i" using D(4) [OF i] os by (simp add: unat_of_nat_u32)
  define m1 where "m1 = fill (smem s) ?ptr SLAB_POISON (csize i)"
  define m2 where "m2 = store32 m1 ?ptr (free_list m1 (page_addr k))"
  define m3 where "m3 = store32 m2 (page_addr k) ?ptr"
  define m4 where "m4 = store32 m3 (page_addr k + 4) (num_allocated m3 (page_addr k) - 1)"
  have bo: "4 \<le> csize i" "csize i \<le> 4080" using os by simp_all
  note g = slab_give_back [OF kv bo p fl(2,3), folded m1_def, folded m2_def, folded m3_def, folded m4_def]
  have n4: "num_allocated m4 (page_addr k) = of_nat (nslots (csize i) - length (j # fl))"
    using g(1) by (simp add: page_fields slab_page_def)
  have nle: "nslots (csize i) \<le> 4080" by (simp add: nslots_def)
  have len: "length (j # fl) \<le> nslots (csize i)" by (rule slab_page_length [OF g(1)])
  have zero: "(num_allocated m4 (page_addr k) = 0) = (length (j # fl) = nslots (csize i))"
  proof -
    have "(num_allocated m4 (page_addr k) = 0) = (unat (num_allocated m4 (page_addr k)) = 0)" by (simp add: unat_eq_0)
    also have "\<dots> = (nslots (csize i) - length (j # fl) = 0)" unfolding n4 using nle by (subst unat_of_nat_u32) auto
    finally show ?thesis using len by auto
  qed
  have fr: "slab_free ?c ?ptr s = (if length (j # fl) = nslots (csize i)
      then (case slab_unlink ?c (page_addr k) (s\<lparr>smem := m4\<rparr>) of None \<Rightarrow> None
        | Some s2 \<Rightarrow> map_option (\<lambda>v. Inr (s2\<lparr>svm := v\<rparr>)) (vmm_free_pages (page_addr k) 1 (svm s2)))
      else Some (Inr (s\<lparr>smem := m4\<rparr>)))"
    unfolding slab_free_def pg walk Let_def osz if_not_P [OF nz] option.case bool.case
      m1_def [symmetric] m2_def [symmetric] m3_def [symmetric] m4_def [symmetric] zero ..
  have inb: "(k * 4096 + slot_off (csize i) j, csize i) \<in> blocks own" using sl by (rule blocks.small)
  show ?thesis
  proof (cases "length (j # fl) = nslots (csize i)")
    case False
    let ?own = "own(k \<mapsto> SlabPage i (j # fl))"
    have inv': "malloc_inv (s\<lparr>smem := m4\<rparr>) ?own pl A M"
      by (rule update_page [OF inv fl(1) g(2,1,3)]) (use False len in simp)
    have bl: "blocks ?own = blocks own - {(k * 4096 + slot_off (csize i) j, csize i)}"
      by (rule blocks_delete [OF inv sl]) (use fl in \<open>auto simp: is_slot_def\<close>)
    have bb: "pbyte m4 k' off = pbyte (smem s) k' off" if "k' < VIRT_PAGES" "off < 4096" "block_byte ?own k' off" for k' off
    proof (cases "k' = k")
      case True
      have "block_byte ?own k off" using that(3) True by simp
      then obtain j' where j': "is_slot ?own k i j'" "slot_off (csize i) j' \<le> off" "off < slot_off (csize i) j' + csize i"
        by (auto simp: block_byte_def is_slot_def)
      then have "j' \<noteq> j" by (auto simp: is_slot_def)
      then have "off < slot_off (csize i) j \<or> slot_off (csize i) j + csize i \<le> off"
        using slots_disjoint [of j' j "csize i"] j'(2,3) by linarith
      moreover have "8 \<le> off" using j'(2) by (simp add: slot_off_def)
      ultimately show ?thesis using g(4) that(2) True by blast
    next
      case False
      then show ?thesis using g(2) that by (simp add: pages_same_def)
    qed
    have "slab_gave s own (k * 4096 + slot_off (csize i) j, csize i) (s\<lparr>smem := m4\<rparr>) ?own"
      unfolding slab_gave_def using inb bl blocks_same [OF inv' bb] by auto
    then show ?thesis using fr False inv' by auto
  next
    case True
    have kin: "k \<in> set (pl i)" using D(8) [OF i] fl(1) by auto
    then obtain xs ys where pl: "pl i = xs @ k # ys" by (meson split_list)
    have d: "distinct (xs @ k # ys)" using D(5) [OF i] pl by simp
    have kv': "k' < VIRT_PAGES" if "k' \<in> set (pl i)" for k' using that D(8) [OF i] D(3) by auto
    define m5 where "m5 = (if xs = [] then m4 else store32 m4 (at_page (last xs) 8) (page_hd ys 0))"
    define lists where "lists = (if xs = [] then (page_lists s)(?c := page_hd ys 0) else page_lists s)"
    have ul: "slab_unlink ?c (page_addr k) (s\<lparr>smem := m4\<rparr>) = Some (s\<lparr>smem := m5, page_lists := lists\<rparr>)"
    proof -
      have "pword m4 k' 8 = pword (smem s) k' 8" if "k' \<in> set (pl i)" for k'
        using g(2,3) pages_same_pword [OF g(2), of k' 8] kv' [OF that] by (cases "k' = k") simp_all
      then have "slab_unlink ?c (page_addr k) (s\<lparr>smem := m4\<rparr>) =
        Some (if xs = [] then s\<lparr>smem := m4\<rparr>\<lparr>page_lists := (page_lists s)(?c := page_hd ys 0)\<rparr>
          else s\<lparr>smem := m4\<rparr>\<lparr>smem := store32 m4 (at_page (last xs) 8) (page_hd ys 0)\<rparr>)"
        using unlink_pages [OF inv i pl, of "s\<lparr>smem := m4\<rparr>"] by simp
      then show ?thesis by (cases s) (simp add: m5_def lists_def)
    qed
    have kA: "j \<in> dom A" if "k \<le> j" "j < k + unat (1 :: u32)" for j
    proof -
      have "j = k" using that by simp
      then show ?thesis using D(2) fl(1) by auto
    qed
    obtain v where v: "vmm_free_pages (page_addr k) 1 (svm s) = Some v" "vm_inv v (drop_range A k 1) M"
      using free_pages_full [OF D(1) _ kv, of 1] kv kA by auto
    let ?s = "s\<lparr>svm := v, smem := m5, page_lists := lists\<rparr>"
    let ?own = "own(k := None)"
    have mm: "pbyte m5 k' o' = pbyte (smem s) k' o'" if "k' < VIRT_PAGES" "k' \<noteq> k" "o' < 4096" "xs = [] \<or> k' \<noteq> last xs \<or> o' < 8 \<or> 12 \<le> o'" for k' o'
    proof -
      have "pbyte m5 k' o' = pbyte m4 k' o'"
      proof (cases "xs = []")
        case False
        then have "last xs < VIRT_PAGES" using kv' pl by simp
        then show ?thesis using store_pbyte [of "last xs" k' 8 o'] that False by (auto simp: m5_def)
      qed (simp add: m5_def)
      then show ?thesis using g(2) that by (simp add: pages_same_def)
    qed
    have lk: "pword m5 (last xs) 8 = page_hd ys 0" if "xs \<noteq> []"
    proof -
      have "last xs < VIRT_PAGES" using kv' pl that by simp
      then show ?thesis using store_pword_same [of "last xs" 8] that by (simp add: m5_def)
    qed
    have inv': "malloc_inv ?s ?own (pl(i := xs @ ys)) (drop_range A k 1) M"
      using drop_slab_page [OF inv fl(1) pl v(2) mm lk] by (simp add: lists_def)
    have cover: "set (j # fl) = {..<nslots (csize i)}"
      using True g(1) by (intro card_subset_eq) (auto simp: slab_page_def distinct_card [of "j # fl", simplified])
    have bl: "blocks ?own = blocks own - {(k * 4096 + slot_off (csize i) j, csize i)}"
      by (rule blocks_delete [OF inv sl]) (use fl cover in \<open>auto simp: is_slot_def\<close>)
    have bb: "pbyte m5 k' off = pbyte (smem s) k' off" if "k' < VIRT_PAGES" "off < 4096" "block_byte ?own k' off" for k' off
    proof (rule mm [OF that(1) _ that(2)])
      show "k' \<noteq> k" using that(3) by (auto simp: block_byte_def is_slot_def)
      show "xs = [] \<or> k' \<noteq> last xs \<or> off < 8 \<or> 12 \<le> off"
      proof (rule ccontr)
        assume c: "\<not> (xs = [] \<or> k' \<noteq> last xs \<or> off < 8 \<or> 12 \<le> off)"
        then have "k' \<in> set (pl i)" using pl by simp
        then obtain fl' where "own k' = Some (SlabPage i fl')" using D(8) [OF i] by auto
        then have "\<exists>i' j'. slot_off (csize i') j' \<le> off" using that(3) by (auto simp: block_byte_def split: if_splits)
        then show False using c by (auto simp: slot_off_def)
      qed
    qed
    have "slab_gave s own (k * 4096 + slot_off (csize i) j, csize i) ?s ?own"
      unfolding slab_gave_def using inb bl blocks_same [OF inv' bb] by auto
    moreover have "slab_free ?c ?ptr s = Some (Inr ?s)"
      unfolding fr if_P [OF True] ul by (cases s) (use v(1) in simp)
    ultimately show ?thesis using inv' by blast
  qed
qed

text \<open>Releasing a slot twice is noticed as long as its page is still in use.\<close>

lemma slab_double_free:
  assumes inv: "malloc_inv s own pl A M" and k: "own k = Some (SlabPage i fl)" "j \<in> set fl"
  shows "slab_free c (slot k (csize i) j) s = Some (Inl (DoubleFree (slot k (csize i) j)))"
proof -
  note D = malloc_invD [OF inv]
  have os: "0 < csize i" using csize_bounds [OF D(9) [OF k(1)]] by simp
  have kv: "k < VIRT_PAGES" by (rule D(3) [OF k(1)])
  have chain: "set fl \<subseteq> {..<nslots (csize i)}" "slot_chain (smem s) k (csize i) fl" "pword (smem s) k 0 = head_slot k (csize i) fl"
    using D(11) [OF k(1)] by (simp_all add: slab_page_def)
  have j: "j < nslots (csize i)" using chain(1) k(2) by auto
  have "\<exists>j' \<in> set fl. slot k (csize i) j = slot k (csize i) j'" using k(2) by blast
  then have "free_list_has (smem s) (slot k (csize i) j) (free_list (smem s) (page_addr k)) = Some True"
    using free_list_has_chain [OF kv os chain(2,1), of "slot k (csize i) j"] by (simp add: page_fields chain(3))
  then show ?thesis
    using slot_nonzero [OF kv os j] slot_page [OF kv j os] by (simp add: slab_free_def Let_def)
qed

end
