(* ===== verification/Malloc.thy ===== *)
theory Malloc
  imports SlabOps
begin

text \<open>
  \<open>malloc\<close>, \<open>free\<close> and \<open>realloc\<close> against the invariant: large blocks of whole pages, the choice of a cache, and
  writes of the clients to their own blocks.
\<close>

unbundle bit_operations_syntax

section \<open>Writes over several pages\<close>

lemma write_win:
  assumes "p + length bs \<le> VIRT_PAGES * 4096" "q < VIRT_PAGES * 4096"
  shows "mem_write m (win p) bs (win q) = (if p \<le> q \<and> q < p + length bs then bs ! (q - p) else m (win q))"
proof (cases "bs = []")
  case False
  then have p: "p < VIRT_PAGES * 4096" using assms(1) by (cases bs) auto
  note u = win_unat [OF p] win_unat [OF assms(2)]
  have l: "VIRT_PAGES * 4096 = (268435456 :: nat)" by (simp add: VIRT_PAGES_def)
  have r: "in_range (win p) (length bs) (win q) = (p \<le> q \<and> q < p + length bs)"
    using assms l by (subst in_range_iff) (simp_all add: u)
  have "unat (win q - win p) = q - p" if "p \<le> q" using u that by (subst unat_sub_u32) simp_all
  then show ?thesis using assms(1) l by (subst mem_write_apply) (auto simp: r)
qed auto

lemma page_win: "k < VIRT_PAGES \<Longrightarrow> off < 4096 \<Longrightarrow> k * 4096 + off < VIRT_PAGES * 4096"
proof -
  assume k: "k < VIRT_PAGES" and o: "off < 4096"
  have "Suc k * 4096 \<le> VIRT_PAGES * 4096" using k by (intro mult_le_mono1) simp
  then show ?thesis using o by simp
qed

lemma fill_pages_large:
  assumes k: "k + n \<le> VIRT_PAGES"
  shows "pages_same {k..<k + n} m (fill m (page_addr k) b (n * 4096))"
  unfolding pages_same_def
proof (intro allI impI)
  fix k' off :: nat assume k': "k' < VIRT_PAGES" "k' \<notin> {k..<k + n}" "off < 4096"
  have kn: "(k + n) * 4096 \<le> VIRT_PAGES * 4096" using k by (rule mult_le_mono1)
  have out: "\<not> (k * 4096 \<le> k' * 4096 + off \<and> k' * 4096 + off < k * 4096 + n * 4096)"
  proof (cases "k' < k")
    case True
    then have "Suc k' * 4096 \<le> k * 4096" by (intro mult_le_mono1) simp
    then show ?thesis using k'(3) by simp
  next
    case False
    then have "(k + n) * 4096 \<le> k' * 4096" using k'(2) by (intro mult_le_mono1) simp
    then show ?thesis by (simp add: algebra_simps)
  qed
  have "fill m (win (k * 4096)) b (n * 4096) (win (k' * 4096 + off)) = m (win (k' * 4096 + off))"
    unfolding fill_def using kn page_win [OF k'(1,3)] out by (subst write_win) (auto simp: algebra_simps)
  then show "pbyte (fill m (page_addr k) b (n * 4096)) k' off = pbyte m k' off"
    using win_page [of k 0] by (simp add: pbyte_def win_page)
qed

section \<open>Large blocks\<close>

definition own_large :: "(nat \<rightharpoonup> role) \<Rightarrow> nat \<Rightarrow> nat \<Rightarrow> nat \<rightharpoonup> role" where
  "own_large own k n = (\<lambda>x. if x = k then Some (LargeHead n) else if k < x \<and> x < k + n then Some (LargeBody k) else own x)"

lemma add_large:
  assumes inv: "malloc_inv s own pl A M" and n: "2 \<le> n" "k + n \<le> VIRT_PAGES" "\<And>x. k \<le> x \<Longrightarrow> x < k + n \<Longrightarrow> A x = None"
    and v: "vm_inv v A' M" "dom A' = dom A \<union> {k..<k + n}"
    and same: "pages_same {k..<k + n} (smem s) m'" and w: "pword m' k 0 = of_nat n"
  shows "malloc_inv (s\<lparr>svm := v, smem := m'\<rparr>) (own_large own k n) pl A' M"
    "blocks (own_large own k n) = insert (Suc k * 4096, (n - 1) * 4096) (blocks own)"
    "(Suc k * 4096, c) \<notin> blocks own"
    "\<And>p r. (p, r) \<in> blocks own \<Longrightarrow> same_bytes (smem s) m' p r"
proof -
  note D = malloc_invD [OF inv]
  let ?own = "own_large own k n" and ?s = "s\<lparr>svm := v, smem := m'\<rparr>"
  have none: "own x = None" if "k \<le> x" "x < k + n" for x using D(2) n(3) [OF that] by auto
  have slab: "?own x = Some (SlabPage i fl) \<longleftrightarrow> own x = Some (SlabPage i fl)" for x i fl
    using none [of x] n(1) by (auto simp: own_large_def)
  have head: "?own x = Some (LargeHead c) \<longleftrightarrow> x = k \<and> c = n \<or> own x = Some (LargeHead c)" for x c
    using none [of x] n(1) by (auto simp: own_large_def)
  have out: "x \<notin> {k..<k + n}" if "own x = Some r" for x r using none [of x] that by auto
  have ca: "cache_at i ?s = cache_at i s" for i by (simp add: cache_at_def)
  have "roles_ok ?s ?own"
    unfolding roles_ok_def ca
  proof (intro conjI allI impI)
    fix x i fl assume "?own x = Some (SlabPage i fl)"
    then have o: "own x = Some (SlabPage i fl)" by (simp add: slab)
    show "i < 6" "length fl < nslots (csize i)" using D(9,10) [OF o] by simp_all
    have "slab_page m' x (cache_at i s) (csize i) fl = slab_page (smem s) x (cache_at i s) (csize i) fl"
      by (rule slab_page_same [OF same out [OF o] D(3) [OF o]]) (use csize_bounds [OF D(9) [OF o]] in simp)
    then show "slab_page (smem ?s) x (cache_at i s) (csize i) fl" using D(11) [OF o] by simp
  next
    fix x c assume "?own x = Some (LargeHead c)"
    then consider "x = k" "c = n" | "own x = Some (LargeHead c)" by (auto simp: head)
    note cs = this
    show "2 \<le> c" "x + c \<le> VIRT_PAGES" using cs n(1,2) D(12,13) by (cases; simp)+
    show "pword (smem ?s) x 0 = of_nat c"
      using cs
    proof cases
      case 2
      then show ?thesis using pages_same_pword [OF same D(3) [OF 2] out [OF 2], of 0] D(14) [OF 2] by simp
    qed (simp add: w)
    fix j assume j: "0 < j \<and> j < c"
    show "?own (x + j) = Some (LargeBody x)"
      using cs
    proof cases
      case 1
      then show ?thesis using j by (simp add: own_large_def)
    next
      case 2
      have "own (x + j) = Some (LargeBody x)" using D(15) [OF 2] j by simp
      then show ?thesis using out [of "x + j"] n(1) by (auto simp: own_large_def)
    qed
  qed
  moreover have "caches_ok ?s ?own pl"
    unfolding caches_ok_def ca
  proof (intro allI impI conjI)
    fix i :: nat assume i: "i < 6"
    have "plink m' (pl i) 0 = plink (smem s) (pl i) 0"
    proof (rule plink_cong)
      fix x assume "x \<in> set (pl i)"
      then obtain fl where "own x = Some (SlabPage i fl)" using D(8) [OF i] by auto
      then show "pword m' x 8 = pword (smem s) x 8" using pages_same_pword [OF same D(3) out, of x] by simp
    qed
    then show "plink (smem ?s) (pl i) 0" using D(7) [OF i] by simp
    show "set (pl i) = {x. \<exists>fl. ?own x = Some (SlabPage i fl)}" using D(8) [OF i] by (simp add: slab)
  qed (use D(4-6) in simp_all)
  moreover have "dom ?own \<subseteq> dom A'"
  proof
    fix x assume x: "x \<in> dom ?own"
    show "x \<in> dom A'"
    proof (cases "x \<in> {k..<k + n}")
      case False
      then have "own x \<noteq> None" using x n(1) by (auto simp: own_large_def split: if_splits)
      then show ?thesis using D(2) v(2) by auto
    qed (simp add: v(2))
  qed
  ultimately show "malloc_inv ?s ?own pl A' M" using v(1) by (simp add: malloc_inv_def)
  have sl: "is_slot ?own x i j = is_slot own x i j" for x i j by (simp add: is_slot_def slab)
  show "blocks ?own = insert (Suc k * 4096, (n - 1) * 4096) (blocks own)"
  proof (intro equalityI subrelI)
    fix p r assume "(p, r) \<in> blocks ?own"
    then show "(p, r) \<in> insert (Suc k * 4096, (n - 1) * 4096) (blocks own)"
    proof cases
      case (small x i j)
      then show ?thesis using blocks.small [of own x i j] by (simp add: sl)
    next
      case (large x c)
      then show ?thesis using blocks.large [of own x c] head [of x c] by auto
    qed
  next
    fix p r assume b: "(p, r) \<in> insert (Suc k * 4096, (n - 1) * 4096) (blocks own)"
    show "(p, r) \<in> blocks ?own"
    proof (cases "(p, r) \<in> blocks own")
      case True
      then show ?thesis
      proof cases
        case (small x i j)
        then show ?thesis using blocks.small [of ?own x i j] by (simp add: sl)
      next
        case (large x c)
        then show ?thesis using blocks.large [of ?own x c] head [of x c] by simp
      qed
    next
      case False
      then show ?thesis using b blocks.large [of ?own k n] head [of k n] by simp
    qed
  qed
  show "(Suc k * 4096, c) \<notin> blocks own"
  proof
    assume b: "(Suc k * 4096, c) \<in> blocks own"
    have bb: "block_byte own (Suc k) 0" using block_bytes(1) [OF inv b, of 0] block_in_window(2) [OF inv b] by simp
    have "own (Suc k) = None" using none n(1) by simp
    then show False using bb by (auto simp: block_byte_def is_slot_def)
  qed
  show "same_bytes (smem s) m' p r" if "(p, r) \<in> blocks own" for p r
  proof (rule blocks_same [OF inv _ that])
    fix x off :: nat assume x: "x < VIRT_PAGES" "off < 4096" "block_byte own x off"
    then have "x \<notin> {k..<k + n}" using none [of x] by (auto simp: block_byte_def is_slot_def)
    then show "pbyte m' x off = pbyte (smem s) x off" using same x by (simp add: pages_same_def)
  qed
qed

lemma drop_large:
  assumes inv: "malloc_inv s own pl A M" and k: "own k = Some (LargeHead n)" and v: "vm_inv v (drop_range A k n) M"
  defines "own' \<equiv> own |` (- {k..<k + n})"
  shows "malloc_inv (s\<lparr>svm := v\<rparr>) own' pl (drop_range A k n) M"
    "blocks own' = blocks own - {(Suc k * 4096, (n - 1) * 4096)}"
proof -
  note D = malloc_invD [OF inv]
  have n: "2 \<le> n" by (rule D(12) [OF k])
  have body: "own x = Some (LargeBody k)" if "k < x" "x < k + n" for x
    using D(15) [OF k, of "x - k"] that by (simp add: less_diff_conv2)
  have role: "own x = Some (LargeHead n) \<and> x = k \<or> own x = Some (LargeBody k)" if "x \<in> {k..<k + n}" for x
    using that body [of x] k by (cases "x = k") auto
  have slab: "own' x = Some (SlabPage i fl) \<longleftrightarrow> own x = Some (SlabPage i fl)" for x i fl
    using role [of x] by (auto simp: own'_def restrict_map_def)
  have head: "own' x = Some (LargeHead c) \<longleftrightarrow> own x = Some (LargeHead c) \<and> x \<noteq> k" for x c
    using role [of x] n by (auto simp: own'_def restrict_map_def)
  let ?s = "s\<lparr>svm := v\<rparr>"
  have ca: "cache_at i ?s = cache_at i s" for i by simp
  have "roles_ok ?s own'"
    unfolding roles_ok_def ca
  proof (intro conjI allI impI)
    fix x i fl assume "own' x = Some (SlabPage i fl)"
    then have o: "own x = Some (SlabPage i fl)" by (simp add: slab)
    then show "i < 6" "length fl < nslots (csize i)" "slab_page (smem ?s) x (cache_at i s) (csize i) fl"
      using D(9-11) [OF o] by simp_all
  next
    fix x c assume "own' x = Some (LargeHead c)"
    then have o: "own x = Some (LargeHead c)" "x \<noteq> k" by (simp_all add: head)
    show "2 \<le> c" "x + c \<le> VIRT_PAGES" "pword (smem ?s) x 0 = of_nat c" using D(12-14) [OF o(1)] by simp_all
    fix j assume j: "0 < j \<and> j < c"
    have b: "own (x + j) = Some (LargeBody x)" using D(15) [OF o(1)] j by simp
    then have "x + j \<notin> {k..<k + n}" using role [of "x + j"] o(2) by auto
    then show "own' (x + j) = Some (LargeBody x)" using b by (simp add: own'_def restrict_map_def)
  qed
  moreover have "caches_ok ?s own' pl"
    using D(4-8) unfolding caches_ok_def ca by (simp add: slab)
  moreover have "dom own' \<subseteq> dom (drop_range A k n)" using D(2) by (auto simp: own'_def drop_range_def)
  ultimately show "malloc_inv ?s own' pl (drop_range A k n) M" using v by (simp add: malloc_inv_def)
  have sl: "is_slot own' x i j = is_slot own x i j" for x i j by (simp add: is_slot_def slab)
  have fst_large: "(Suc k * 4096, (n - 1) * 4096) \<notin> blocks own'"
  proof
    assume "(Suc k * 4096, (n - 1) * 4096) \<in> blocks own'"
    then show False
    proof cases
      case (small x i j)
      obtain fl where fl: "own x = Some (SlabPage i fl)" "j < nslots (csize i)" using small(3) by (auto simp: is_slot_def slab)
      have i: "i < 6" by (rule D(9) [OF fl(1)])
      have "Suc k * 4096 mod 4096 = slot_off (csize i) j mod 4096" unfolding small(1) by simp
      then show False using slot_fits [OF fl(2)] csize_bounds [OF i] by (simp add: slot_off_def)
    next
      case (large x c)
      then show False using head [of x c] by simp
    qed
  qed
  show "blocks own' = blocks own - {(Suc k * 4096, (n - 1) * 4096)}"
  proof (intro equalityI subrelI)
    fix p r assume b: "(p, r) \<in> blocks own'"
    then have "(p, r) \<in> blocks own"
    proof cases
      case (small x i j)
      then show ?thesis using blocks.small [of own x i j] by (simp add: sl)
    next
      case (large x c)
      then show ?thesis using blocks.large [of own x c] head [of x c] by simp
    qed
    then show "(p, r) \<in> blocks own - {(Suc k * 4096, (n - 1) * 4096)}" using b fst_large by auto
  next
    fix p r assume "(p, r) \<in> blocks own - {(Suc k * 4096, (n - 1) * 4096)}"
    then have b: "(p, r) \<in> blocks own" "(p, r) \<noteq> (Suc k * 4096, (n - 1) * 4096)" by auto
    from b(1) show "(p, r) \<in> blocks own'"
    proof cases
      case (small x i j)
      then show ?thesis using blocks.small [of own' x i j] by (simp add: sl)
    next
      case (large x c)
      have "x \<noteq> k" using large b(2) k by auto
      then show ?thesis using large blocks.large [of own' x c] head [of x c] by simp
    qed
  qed
qed

section \<open>malloc and free\<close>

lemma choose_cache_cases [consumes 1, case_names found none]:
  assumes inv: "malloc_inv s own pl A M"
  obtains (found) i where "choose_cache sz s = Some i" "i < 6" "unat sz \<le> csize i" "\<And>i'. i' < i \<Longrightarrow> csize i' < unat sz"
    | (none) "choose_cache sz s = None" "512 < unat sz"
proof -
  have P: "(sz \<le> object_sizes s (cache_at i s)) = (unat sz \<le> csize i)" if "i < 6" for i
    using malloc_invD(4) [OF inv that] csize_bounds [OF that] by (simp add: word_le_nat_alt unat_of_nat_u32)
  show thesis
  proof (cases rule: find_upt_cases [of "\<lambda>i. sz \<le> object_sizes s (cache_at i s)" 6])
    case (found i)
    then show thesis
      using that(1) [of i] P by (auto simp: choose_cache_def cache_count_def not_le)
  next
    case none
    have "\<not> unat sz \<le> csize 5" using none(2) [of 5] P [of 5] by simp
    then show thesis using that(2) none(1) by (simp add: choose_cache_def cache_count_def csize_def)
  qed
qed

definition heap_took :: "slab \<Rightarrow> (nat \<rightharpoonup> role) \<Rightarrow> nat \<Rightarrow> nat \<Rightarrow> slab \<Rightarrow> (nat \<rightharpoonup> role) \<Rightarrow> bool" where
  "heap_took s own p n s' own' \<longleftrightarrow> (p, n) \<notin> blocks own \<and> blocks own' = insert (p, n) (blocks own)
     \<and> (\<forall>(q, r) \<in> blocks own. same_bytes (smem s) (smem s') q r)
     \<and> malloc_caches s' = malloc_caches s \<and> object_sizes s' = object_sizes s"

lemma large_alloc_cases:
  assumes inv: "malloc_inv s own pl A M" and sz: "0 < unat sz" "unat sz + 8191 < 4294967296"
  obtains (block) p n s' own' A' where "large_alloc sz s = Inr (win p, s')" "malloc_inv s' own' pl A' M"
      "unat sz \<le> n" "heap_took s own p n s' own'"
    | (panic) "large_alloc sz s = Inl (VmPanic OutOfPages)"
proof -
  note D = malloc_invD [OF inv]
  define n where "n = (unat sz + 8191) div 4096"
  have n2: "2 \<le> n" using sz(1) by (simp add: n_def)
  define w where "w = (sz + PAGE_SIZE + PAGE_SIZE - 1) div PAGE_SIZE"
  have np: "unat w = n"
  proof -
    have "sz + PAGE_SIZE + PAGE_SIZE - 1 = sz + 8191" by (simp add: PAGE_SIZE_def)
    moreover have "unat (sz + 8191) = unat sz + 8191" using sz(2) by (subst unat_add_u32) simp_all
    moreover have "unat PAGE_SIZE = 4096" by (simp add: PAGE_SIZE_def)
    ultimately show ?thesis by (simp only: unat_div_distrib n_def w_def)
  qed
  show thesis
  proof (cases "vmm_alloc_pages w (svm s)")
    case (Inl e)
    then have "e = OutOfPages" by (auto simp: vmm_alloc_pages_def split: option.splits)
    then show thesis using panic Inl by (simp add: large_alloc_def Let_def w_def)
  next
    case (Inr r)
    obtain a v where r: "r = (a, v)" by (cases r)
    obtain k fs where k: "a = page_addr k" "length fs = n" "k + n \<le> VIRT_PAGES" "\<not> pages_live A M k n" "pages_taken (svm s) A M k fs v"
      using alloc_pages_full [OF D(1), of w] Inr r by (auto simp: alloc_outcome_def np)
    have kv: "k < VIRT_PAGES" using k(3) n2 by simp
    have none: "A x = None" if "k \<le> x" "x < k + n" for x using k(4) that by (auto simp: pages_live_def)
    have v: "vm_inv v (place_frames A k fs) M" "dom (place_frames A k fs) = dom A \<union> {k..<k + n}"
      using k(5) by (simp_all add: pages_taken_def place_dom k(2))
    have nv: "n \<le> 65536" using k(3) by (simp add: VIRT_PAGES_def)
    have fl: "unat (w * PAGE_SIZE) = n * 4096" using nv by (subst unat_mult_u32) (simp_all add: np PAGE_SIZE_def)
    have npw: "w = of_nat n" using np by (metis of_nat_unat ucast_id)
    define m' where "m' = store32 (fill (smem s) (page_addr k) 0 (n * 4096)) (at_page k 0) w"
    have same: "pages_same {k..<k + n} (smem s) m'"
    proof -
      have "pages_same ({k..<k + n} \<union> {k}) (smem s) m'"
        unfolding m'_def by (rule pages_same_trans [OF fill_pages_large [OF k(3)] store_pages_same [OF kv]]) simp
      then show ?thesis by (rule pages_same_mono) (use n2 in auto)
    qed
    have w0: "pword m' k 0 = of_nat n" unfolding m'_def npw by (rule store_pword_same [OF kv]) simp
    note al = add_large [OF inv n2 k(3) none v same w0]
    have "large_alloc sz s = Inr (win (Suc k * 4096), s\<lparr>svm := v, smem := m'\<rparr>)"
      unfolding large_alloc_def Let_def w_def [symmetric] Inr r k(1) sum.case prod.case fl
      using win_page [of "Suc k" 0] by (simp add: m'_def at_page_next [symmetric]) (simp add: at_page_def PAGE_SIZE_def)
    moreover have "unat sz \<le> (n - 1) * 4096" unfolding n_def by arith
    moreover have "heap_took s own (Suc k * 4096) ((n - 1) * 4096) (s\<lparr>svm := v, smem := m'\<rparr>) (own_large own k n)"
      using al(2-4) by (auto simp: heap_took_def)
    ultimately show thesis using block al(1) by blast
  qed
qed

lemma malloc_cases:
  assumes inv: "malloc_inv s own pl A M" and sz: "0 < unat sz" "unat sz + 8191 < 4294967296"
  obtains (block) p n s' own' pl' A' where "malloc sz s = Some (Inr (win p, s'))" "malloc_inv s' own' pl' A' M"
      "unat sz \<le> n" "heap_took s own p n s' own'"
    | (panic) "malloc sz s = Some (Inl (VmPanic OutOfPages))"
proof -
  have nz: "sz \<noteq> 0" using sz(1) by auto
  have le: "(sz \<le> SLAB_MAX_SIZE) = (unat sz \<le> 512)" by (simp add: word_le_nat_alt SLAB_MAX_SIZE_def)
  show thesis
  proof (cases "unat sz \<le> 512")
    case False
    then have m: "malloc sz s = Some (large_alloc sz s)" using nz le by (simp add: malloc_def)
    show thesis
      by (rule large_alloc_cases [OF inv sz]) (use that m in auto)
  next
    case True
    show thesis
      using inv
    proof (cases rule: choose_cache_cases [where sz = sz])
      case (found i)
      have m: "malloc sz s = slab_alloc (cache_at i s) s" using found(1) True le nz by (simp add: malloc_def)
      show thesis
      proof (rule slab_alloc_cases [OF inv found(2)])
        fix k j s' own' pl' A'
        assume a: "slab_alloc (cache_at i s) s = Some (Inr (slot k (csize i) j, s'))" "malloc_inv s' own' pl' A' M" "slab_took s own k i j s' own'"
        have "malloc sz s = Some (Inr (win (k * 4096 + slot_off (csize i) j), s'))" using m a(1) by (simp add: win_page slot_def)
        moreover have "heap_took s own (k * 4096 + slot_off (csize i) j) (csize i) s' own'"
          using a(3) by (simp add: slab_took_def heap_took_def)
        ultimately show thesis using block a(2) found(3) by blast
      next
        assume "slab_alloc (cache_at i s) s = Some (Inl (VmPanic OutOfPages))"
        then show thesis using panic m by simp
      qed
    next
      case none
      then show thesis using True by simp
    qed
  qed
qed

lemma free_block:
  assumes inv: "malloc_inv s own pl A M" and b: "(p, n) \<in> blocks own"
  shows "\<exists>s' own' pl' A'. free (win p) s = Some (Inr s') \<and> malloc_inv s' own' pl' A' M \<and> slab_gave s own (p, n) s' own'"
  using inv b
proof (cases rule: block_pages)
  case (slab k i j)
  note os = csize_bounds [OF slab(2)]
  obtain fl where fl: "own k = Some (SlabPage i fl)" using slab(1) by (auto simp: is_slot_def)
  have ptr: "win p = slot k (csize i) j" by (simp add: slab(4) win_page slot_def)
  have so: "slot_off (csize i) j < 4096" "0 < slot_off (csize i) j" using slab(5,6) os by (simp_all add: slot_off_def)
  have nz: "slot k (csize i) j \<noteq> 0" using slot_nonzero [OF slab(7) _ slab(3)] os by simp
  have "slot k (csize i) j AND (PAGE_SIZE - 1) = of_nat (slot_off (csize i) j)"
    unfolding slot_def by (rule at_page_mask(2) [OF slab(7) so(1)])
  moreover have "unat (of_nat (slot_off (csize i) j) :: u32) \<noteq> 0" using so by (simp add: unat_of_nat_u32)
  ultimately have al: "slot k (csize i) j AND (PAGE_SIZE - 1) \<noteq> 0" by auto
  have pg: "slot k (csize i) j AND NOT (PAGE_SIZE - 1) = page_addr k" by (rule slot_page [OF slab(7,3)]) (use os in simp)
  have oc: "owning_cache (smem s) (page_addr k) = cache_at i s"
    using malloc_invD(11) [OF inv fl] by (simp add: page_fields slab_page_def)
  have "free (win p) s = slab_free (cache_at i s) (slot k (csize i) j) s"
    unfolding ptr free_def using nz al by (simp add: pg oc)
  then show ?thesis using slab_free_slot [OF inv slab(1)] by (simp add: slab(4,5))
next
  case (pages k c)
  note D = malloc_invD [OF inv]
  have kv: "k < VIRT_PAGES" "Suc k < VIRT_PAGES" using pages(4,5) by simp_all
  have ptr: "win p = page_addr (Suc k)" using win_page [of "Suc k" 0] by (simp add: pages(2))
  have al: "page_addr (Suc k) AND (PAGE_SIZE - 1) = 0" using at_page_mask(2) [OF kv(2), of 0] by simp
  have prev: "page_addr (Suc k) - PAGE_SIZE = page_addr k" by (simp add: page_addr_def algebra_simps)
  have cnt: "load32 (smem s) (page_addr k) = of_nat c" using D(14) [OF pages(1)] by (simp add: pword_def)
  have cv: "unat (of_nat c :: u32) = c" using pages(5) by (intro unat_of_nat_u32) (simp add: VIRT_PAGES_def)
  have live: "x \<in> dom A" if "k \<le> x" "x < k + c" for x
  proof -
    have "own x \<noteq> None" using D(15) [OF pages(1), of "x - k"] pages(1) that by (cases "x = k") (auto simp: less_diff_conv2)
    then show ?thesis using D(2) by auto
  qed
  obtain v where v: "vmm_free_pages (page_addr k) (of_nat c) (svm s) = Some v" "vm_inv v (drop_range A k c) M"
    using free_pages_full [OF D(1), of k "of_nat c"] pages(5) kv(1) live cv by auto
  note dl = drop_large [OF inv pages(1) v(2)]
  have "free (win p) s = Some (Inr (s\<lparr>svm := v\<rparr>))"
    unfolding ptr free_def using page_addr_nonzero [OF kv(2)] al v(1) by (simp add: prev cnt Let_def)
  moreover have "slab_gave s own (p, n) (s\<lparr>svm := v\<rparr>) (own |` (- {k..<k + c}))"
    unfolding slab_gave_def dl(2) using b pages(2,3) by auto
  ultimately show ?thesis using dl(1) by blast
qed

end
