(* ===== verification/VmmClaims.thy ===== *)
theory VmmClaims
  imports VmmSystem
begin

text \<open>
  The promises of the memory manager to its callers, each with an example on a small machine.
\<close>

unbundle bit_operations_syntax

section \<open>Live memory\<close>

definition live_addr :: "(u32 \<times> u32) list \<Rightarrow> u32 \<Rightarrow> bool" where
  "live_addr L v \<longleftrightarrow> (\<exists>(a, n) \<in> set L. unat a \<le> unat v \<and> unat v < unat a + unat n * 4096)"

lemma live_addr_page:
  assumes r: "regions_ok A L" and v: "live_addr L v"
  shows "\<exists>i off. i \<in> dom A \<and> off < 4096 \<and> v = page_addr i + of_nat off \<and> unat v = 268435456 + i * 4096 + off"
proof -
  obtain a n where an: "(a, n) \<in> set L" "unat a \<le> unat v" "unat v < unat a + unat n * 4096"
    using v by (auto simp: live_addr_def)
  define k where "k = start_page a"
  have ok: "region_ok (a, n)" "\<And>j. j \<in> set (region_pages (a, n)) \<Longrightarrow> j \<in> dom A"
    using r an(1) by (auto simp: regions_ok_def list_all_iff)
  have k: "a = page_addr k" "k + unat n \<le> VIRT_PAGES" "n \<noteq> 0" using ok(1) by (simp_all add: region_ok_def k_def)
  have "0 < unat n" using k(3) by (simp add: unat_gt_0)
  then have kv: "k < VIRT_PAGES" using k(2) by simp
  have ua: "unat a = 268435456 + k * 4096" using vpn_page_addr(1) [OF kv] k(1) by simp
  define d where "d = unat v - unat a"
  define i where "i = k + d div 4096"
  have d: "d div 4096 < unat n" using an by (simp add: d_def less_mult_imp_div_less)
  have "i \<in> set (region_pages (a, n))" using d by (simp add: region_pages_def k_def [symmetric] i_def)
  then have iA: "i \<in> dom A" by (rule ok(2))
  have iv: "i < VIRT_PAGES" using d k(2) by (simp add: i_def)
  have uv: "unat v = 268435456 + i * 4096 + d mod 4096"
    using an(2) ua by (simp add: i_def d_def algebra_simps)
  have "unat (page_addr i + of_nat (d mod 4096)) = WP i * 4096 + d mod 4096"
    unfolding page_addr_WP by (rule offset_add(1) [OF WP_less [OF iv]]) simp
  then have "v = page_addr i + of_nat (d mod 4096)"
    using uv by (simp add: word_unat_eq_iff WP_def)
  then show ?thesis using iA uv by (intro exI [of _ i] exI [of _ "d mod 4096"]) simp
qed

lemma live_addr_phys:
  assumes h: "history_inv s0 s L A M" and v: "live_addr L v"
  obtains i off f where "i \<in> dom A" "A i = Some f" "off < 4096" "unat v = 268435456 + i * 4096 + off"
    "unat (vmm_get_phys_addr v s) = f * 4096 + off"
proof -
  have inv: "vm_inv s A M" and r: "regions_ok A L" using h by (simp_all add: history_inv_def)
  obtain i off where i: "i \<in> dom A" "off < 4096" "v = page_addr i + of_nat off" "unat v = 268435456 + i * 4096 + off"
    using live_addr_page [OF r v] by blast
  obtain f where f: "A i = Some f" using i(1) by auto
  show thesis using that [OF i(1) f i(2,4)] live_page_phys(2) [OF inv f i(2)] i(3) by simp
qed

lemma live_frames_apart:
  assumes h: "history_inv s0 s L A M" and v: "live_addr L v" "live_addr L w" "v \<noteq> w"
  shows "vmm_get_phys_addr v s \<noteq> vmm_get_phys_addr w s"
proof
  assume eq: "vmm_get_phys_addr v s = vmm_get_phys_addr w s"
  have inj: "inj_on A (dom A)" using h by (auto simp: history_inv_def intro: vm_invD(10))
  obtain i off f where i: "i \<in> dom A" "A i = Some f" "off < 4096" "unat v = 268435456 + i * 4096 + off"
    "unat (vmm_get_phys_addr v s) = f * 4096 + off" by (rule live_addr_phys [OF h v(1)])
  obtain j off' g where j: "j \<in> dom A" "A j = Some g" "off' < 4096" "unat w = 268435456 + j * 4096 + off'"
    "unat (vmm_get_phys_addr w s) = g * 4096 + off'" by (rule live_addr_phys [OF h v(2)])
  have e: "f * 4096 + off = g * 4096 + off'" using i(5) j(5) eq by simp
  then have "(f * 4096 + off) div 4096 = (g * 4096 + off') div 4096" by simp
  then have "f = g" using i(3) j(3) by simp
  then have "i = j" using inj_onD [OF inj, of i j] i(1,2) j(1,2) by simp
  then have "unat v = unat w" using e \<open>f = g\<close> i(4) j(4) by simp
  then show False using v(3) by (simp add: word_unat_eq_iff)
qed

lemma live_frames_used:
  assumes h: "history_inv s0 s L A M" and v: "live_addr L v"
  shows "vpn (vmm_get_phys_addr v s) \<in> free_frames (frames s0) - free_frames (frames s)"
proof -
  obtain i off f where i: "A i = Some f" "off < 4096" "unat (vmm_get_phys_addr v s) = f * 4096 + off"
    by (rule live_addr_phys [OF h v])
  have "vpn (vmm_get_phys_addr v s) = f" using i(2,3) by (simp add: vpn_def)
  moreover have "f \<notin> free_frames (frames s)" using h vm_invD(7) i(1) by (auto simp: history_inv_def free_frames_def)
  moreover have "f \<in> ran A" using i(1) by (rule ranI)
  ultimately show ?thesis using h by (auto simp: history_inv_def)
qed

lemma no_frame_lost:
  assumes h: "history_inv s0 s L A M"
  shows "card (free_frames (frames s)) + sum_list (map (\<lambda>r. unat (snd r)) L) = card (free_frames (frames s0))"
proof -
  have inv: "vm_inv s A M" and r: "regions_ok A L" and fr: "ran A \<union> free_frames (frames s) = free_frames (frames s0)"
    using h by (simp_all add: history_inv_def)
  have dis: "ran A \<inter> free_frames (frames s) = {}" using vm_invD(7) [OF inv] by (auto simp: ran_def free_frames_def)
  have fin: "finite (dom A)" using vm_invD(2) [OF inv] by (auto intro: finite_subset)
  have "ran A = (\<lambda>i. the (A i)) ` dom A" by (force simp: ran_def)
  moreover have "inj_on (\<lambda>i. the (A i)) (dom A)" using vm_invD(10) [OF inv] unfolding inj_on_def by (metis domD option.sel)
  ultimately have "card (ran A) = card (dom A)" "finite (ran A)" using fin by (simp_all add: card_image)
  moreover have "card (dom A) = length (concat (map region_pages L))"
    using r distinct_card by (metis regions_ok_def)
  moreover have "length (concat (map region_pages L)) = sum_list (map (\<lambda>r. unat (snd r)) L)"
    by (simp add: length_concat region_pages_def o_def)
  ultimately show ?thesis using card_Un_disjoint [of "ran A" "free_frames (frames s)"] dis fr by simp
qed

section \<open>Round trip and device regions\<close>

lemma alloc_free_full:
  assumes inv: "vm_inv s A M" and a: "vmm_alloc_pages n s = Inr (a, s1)"
  shows "\<exists>s2. vmm_free_pages a n s1 = Some s2 \<and> vm_inv s2 A M \<and> free_frames (frames s2) = free_frames (frames s)
    \<and> (\<forall>m. mapping m s2 = mapping m s)"
proof -
  obtain k fs where k: "a = page_addr k" "0 < unat n" "length fs = unat n" "k + unat n \<le> VIRT_PAGES"
      "\<not> pages_live A M k (unat n)" and t: "pages_taken s A M k fs s1"
    using alloc_pages_full [OF inv, of n] a by (auto simp: alloc_outcome_def)
  have out: "A j = None" if "k \<le> j" "j < k + length fs" for j using k(3,5) that by (auto simp: pages_live_def)
  have kv: "k < VIRT_PAGES" using k(2,4) by simp
  have inv1: "vm_inv s1 (place_frames A k fs) M" and f1: "set fs \<subseteq> free_frames (frames s)"
      "free_frames (frames s1) = free_frames (frames s) - set fs" and e1: "same_elsewhere k (unat n) s s1"
    using t k(3) by (simp_all add: pages_taken_def)
  have dom: "j \<in> dom (place_frames A k fs)" if "k \<le> j" "j < k + unat n" for j using that k(3) by (simp add: place_dom)
  obtain s2 where s2: "vmm_free_pages (page_addr k) n s1 = Some s2" "vm_inv s2 (drop_range (place_frames A k fs) k (unat n)) M"
    "free_frames (frames s2) = free_frames (frames s1) \<union> {f. \<exists>j. k \<le> j \<and> j < k + unat n \<and> place_frames A k fs j = Some f}"
    "same_elsewhere k (unat n) s1 s2"
    using free_pages_full [OF inv1 k(4) kv] dom by auto
  have A: "drop_range (place_frames A k fs) k (unat n) = A" using place_frames_drop [of k fs A] out k(3) by simp
  have "{f. \<exists>j. k \<le> j \<and> j < k + unat n \<and> place_frames A k fs j = Some f} = set fs"
  proof -
    have "\<exists>j. k \<le> j \<and> j < k + unat n \<and> place_frames A k fs j = Some f" if f: "f \<in> set fs" for f
    proof -
      obtain i where "i < length fs" "f = fs ! i" using f unfolding in_set_conv_nth by auto
      then show ?thesis using k(3) by (intro exI [of _ "k + i"]) (simp add: place_frames_def)
    qed
    moreover have "f \<in> set fs" if "k \<le> j" "j < k + unat n" "place_frames A k fs j = Some f" for j f
      using that k(3) nth_mem [of "j - k" fs] by (auto simp: place_frames_def)
    ultimately show ?thesis by blast
  qed
  then have fr: "free_frames (frames s2) = free_frames (frames s)" using s2(3) f1 by auto
  have inv2: "vm_inv s2 A M" using s2(2) A by simp
  have "mapping m s2 = mapping m s" for m
  proof (cases "m < WP k \<or> WP (k + unat n) \<le> m")
    case True
    then show ?thesis using e1 s2(4) unfolding same_elsewhere_def by metis
  next
    case False
    define j where "j = m - 65536"
    have j: "m = WP j" "k \<le> j" "j < k + unat n" using False by (auto simp: j_def WP_def)
    have "j \<notin> dom A \<union> M" using k(5) j by (auto simp: pages_live_def)
    then show ?thesis using vm_invD(5) [OF inv] vm_invD(5) [OF inv2] j k(4) by simp
  qed
  then show ?thesis using s2(1) k(1) inv2 fr by auto
qed

lemma mmio_full:
  assumes inv: "vm_inv s A M" and fl: "flags AND VM_PRESENT \<noteq> 0" "flags AND NOT 0xFFF = 0"
    and e: "vmm_map_mmio_region p sz flags s = (a, s')" "a \<noteq> 0"
    and sz: "off < unat sz" "unat sz + 8190 < 4294967296"
  shows "vmm_get_phys_addr (a + of_nat off) s' = p + of_nat off"
proof -
  let ?n = "unat (device_pages p sz)" and ?o = "unat p mod 4096"
  obtain k where k: "a = page_addr k + (p AND (PAGE_SIZE - 1))" "k + ?n \<le> VIRT_PAGES"
    "\<And>i. i < ?n \<Longrightarrow> mapping (WP (k + i)) s' = Some ((((p AND NOT (PAGE_SIZE - 1)) + of_nat i * PAGE_SIZE) AND NOT 0xFFF) OR flags)"
    using map_mmio_full [OF inv fl(1), of p sz] e by auto
  have m: "PAGE_SIZE - 1 = (0xFFF :: u32)" by (simp add: PAGE_SIZE_def)
  have uo: "unat (p AND 0xFFF) = ?o" unfolding page_mask take_bit_eq_mask [symmetric] by (simp add: take_bit_eq_mod unat_mod_distrib)
  have o: "p AND 0xFFF = of_nat ?o" unfolding uo [symmetric] by simp
  have n: "?n = (unat sz + ?o + 4095) div 4096"
  proof -
    have "?o \<le> 4095" by simp
    then have "unat (sz + (p AND 0xFFF) + 0xFFF) = unat sz + ?o + 4095"
      using sz(2) uo by (simp add: unat_word_ariths)
    then show ?thesis unfolding device_pages_def m by (simp add: unat_div_distrib PAGE_SIZE_def)
  qed
  define i where "i = (?o + off) div 4096"
  define r where "r = (?o + off) mod 4096"
  have i: "i < ?n" unfolding n i_def using sz(1) by arith
  have r: "r < 4096" by (simp add: r_def)
  have kv: "k + i < VIRT_PAGES" using i k(2) by simp
  have split: "?o + off = i * 4096 + r" by (simp add: i_def r_def)
  have "a + of_nat off = page_addr k + of_nat (?o + off)" unfolding k(1) m o by simp
  also have "\<dots> = of_nat (WP (k + i)) * 4096 + of_nat r"
    unfolding split page_addr_WP by (simp add: WP_def algebra_simps)
  finally have v: "a + of_nat off = of_nat (WP (k + i)) * 4096 + of_nat r" .
  note oa = offset_add [OF WP_less [OF kv] r]
  have st: "(p AND NOT 0xFFF) + of_nat i * PAGE_SIZE = of_nat (vpn p + i) * 4096"
    unfolding frame_of_addr(1) by (simp add: PAGE_SIZE_def algebra_simps)
  have "((of_nat (vpn p + i) * 4096 AND NOT 0xFFF) OR flags) AND NOT 0xFFF
      = ((of_nat (vpn p + i) * 4096 AND NOT 0xFFF) AND NOT 0xFFF) OR (flags AND NOT 0xFFF)"
    by (rule bit_word_eqI) (auto simp: bit_simps)
  also have "\<dots> = of_nat (vpn p + i) * 4096" unfolding fl(2) frame_align by simp
  finally have fr: "((of_nat (vpn p + i) * 4096 AND NOT 0xFFF) OR flags) AND NOT 0xFFF = of_nat (vpn p + i) * (4096 :: u32)" .
  have "vmm_get_phys_addr (a + of_nat off) s' = of_nat (vpn p + i) * 4096 + of_nat r"
    unfolding v phys_addr_mapping oa(2,3) k(3) [OF i, unfolded m st] option.case fr ..
  also have "\<dots> = of_nat (vpn p) * 4096 + of_nat (i * 4096 + r)" by (simp add: algebra_simps)
  also have "\<dots> = of_nat (vpn p * 4096 + ?o) + of_nat off" unfolding split [symmetric] by simp
  also have "vpn p * 4096 + ?o = unat p" by (simp add: vpn_def)
  finally show ?thesis by simp
qed

section \<open>The promises\<close>

text \<open>A small machine: the first megabyte is mapped one to one, and frames 256 to 287 are free.\<close>

definition tiny_frames :: pmm where
  "tiny_frames = \<lparr>pmm_bitmap = \<lambda>i. if i = 8 then 0 else 0xFFFFFFFF, total_frames = 288\<rparr>"

definition tiny_start :: vmm where
  "tiny_start = \<lparr>virt_bitmap = \<lambda>i. 0, page_directory = \<lambda>pd. 0, static_page_tables = \<lambda>pd pt. 0,
     tables_address = 0x200000, vm_wc_flags = VM_PRESENT OR VM_READWRITE OR VM_PCD, vm_wc_available = False, frames = tiny_frames\<rparr>"

definition tiny_vm :: vmm where "tiny_vm = vmm_init False 0x100000 tiny_start"

lemma tiny_used: "frame_used f tiny_frames = (f < 256 \<or> 288 \<le> f)"
proof (cases "f div 32 = 8")
  case True
  then show ?thesis by (simp add: frame_used_def tiny_frames_def) arith
next
  case False
  then have "frame_used f tiny_frames" using word_full [OF refl, of "f mod 32"] by (simp add: frame_used_def tiny_frames_def)
  then show ?thesis using False by auto
qed

lemma tiny_pmm_ok: "pmm_ok (frames tiny_start)"
proof -
  have "total_frames tiny_frames = 288" by (simp add: tiny_frames_def)
  then show ?thesis by (simp add: pmm_ok_def tiny_start_def tiny_used)
qed

lemma tiny_inv: "vm_inv tiny_vm Map.empty {}"
  unfolding tiny_vm_def
  by (rule vmm_init_inv) (simp_all add: tiny_pmm_ok VM_START_def)

lemma tiny_free: "free_frames (frames tiny_vm) = {256..<288}"
  by (auto simp: tiny_vm_def vmm_init_def vmm_pat_init_def tiny_start_def free_frames_def tiny_used FRAMES_def)

lemma tiny_history: "vm_history tiny_start tiny_vm []"
  unfolding tiny_vm_def
  by (rule vm_history.start) (simp_all add: tiny_pmm_ok VM_START_def)

lemma tiny_alloc:
  assumes "0 < unat n" "unat n \<le> 32"
  shows "\<exists>a s'. vmm_alloc_pages n tiny_vm = Inr (a, s')"
proof (cases "vmm_alloc_pages n tiny_vm")
  case (Inl e)
  have "\<not> pages_live Map.empty {} k m" for k m by (simp add: pages_live_def)
  moreover have "card (free_frames (frames tiny_vm)) = 32" by (simp add: tiny_free)
  moreover have "0 + unat n \<le> VIRT_PAGES" using assms by (simp add: VIRT_PAGES_def)
  moreover have "unat n = 0 \<or> card (free_frames (frames tiny_vm)) < unat n
      \<or> (\<forall>k. k + unat n \<le> VIRT_PAGES \<longrightarrow> pages_live Map.empty {} k (unat n))"
    using alloc_pages_full [OF tiny_inv, of n] Inl by (simp add: alloc_outcome_def)
  ultimately show ?thesis using assms by (metis leD less_numeral_extra(3))
qed auto

text \<open>
  C5: \<open>vmm_alloc_pages\<close> returns the first run of free pages of the window that is long enough, and maps
  every page of it to a free frame of its own; every other mapping stays. It panics only for a
  count of 0, when there are fewer free frames than pages asked for, or when the window has no such run.
\<close>

theorem vmm_alloc_correct:
  assumes "vm_inv s A M"
  shows "alloc_outcome s A M (unat n) (vmm_alloc_pages n s)"
  by (rule alloc_pages_full [OF assms])

theorem vmm_alloc_correct_witness:
  "alloc_outcome tiny_vm Map.empty {} 3 (vmm_alloc_pages 3 tiny_vm) \<and> (\<exists>r. vmm_alloc_pages 3 tiny_vm = Inr r)"
  using vmm_alloc_correct [OF tiny_inv, of 3] tiny_alloc [of 3] by auto

text \<open>
  C6: Releasing pages that are live clears their mappings, gives exactly their frames back, and leaves
  every other page as it was; it never leaves the bitmap of pages.
\<close>

theorem vmm_free_correct:
  assumes "vm_inv s A M" "k < VIRT_PAGES" "k + unat n \<le> VIRT_PAGES" "\<forall>j \<in> {k..<k + unat n}. j \<in> dom A"
  shows "\<exists>s'. vmm_free_pages (page_addr k) n s = Some s' \<and> vm_inv s' (drop_range A k (unat n)) M
    \<and> free_frames (frames s') = free_frames (frames s) \<union> {f. \<exists>j. k \<le> j \<and> j < k + unat n \<and> A j = Some f}
    \<and> same_elsewhere k (unat n) s s'"
  using free_pages_full [OF assms(1) assms(3) assms(2)] assms(4) by simp

theorem vmm_free_correct_witness:
  "\<exists>k fs s1 s2. vmm_alloc_pages 2 tiny_vm = Inr (page_addr k, s1) \<and> vmm_free_pages (page_addr k) 2 s1 = Some s2
    \<and> vm_inv s2 (drop_range (place_frames Map.empty k fs) k 2) {}"
proof -
  obtain a s1 where a: "vmm_alloc_pages 2 tiny_vm = Inr (a, s1)" using tiny_alloc [of 2] by auto
  then obtain k fs where k: "a = page_addr k" "length fs = 2" "k + 2 \<le> VIRT_PAGES"
      "pages_taken tiny_vm Map.empty {} k fs s1"
    using alloc_pages_full [OF tiny_inv, of 2] by (auto simp: alloc_outcome_def)
  then have "vm_inv s1 (place_frames Map.empty k fs) {}" by (simp add: pages_taken_def)
  moreover have "\<forall>j \<in> {k..<k + unat (2 :: u32)}. j \<in> dom (place_frames Map.empty k fs)" using k(2) by (simp add: place_dom)
  ultimately show ?thesis using vmm_free_correct [of s1 "place_frames Map.empty k fs" "{}" k 2] a k by fastforce
qed

text \<open>
  C7: In every history of allocations, releases and device regions from start-up, two different
  addresses in live regions lie at different physical addresses, in frames that were free at start-up and
  are not free now, and no page belongs to two live regions.
\<close>

theorem vmm_isolation:
  assumes "vm_history s0 s L"
  shows "distinct (concat (map region_pages L))
    \<and> (\<forall>v w. live_addr L v \<and> live_addr L w \<and> v \<noteq> w \<longrightarrow> vmm_get_phys_addr v s \<noteq> vmm_get_phys_addr w s)
    \<and> (\<forall>v. live_addr L v \<longrightarrow> vpn (vmm_get_phys_addr v s) \<in> free_frames (frames s0) - free_frames (frames s))"
proof -
  obtain A M where h: "history_inv s0 s L A M" using vm_history_inv [OF assms] by blast
  then have "distinct (concat (map region_pages L))" by (simp add: history_inv_def regions_ok_def)
  then show ?thesis using live_frames_apart [OF h] live_frames_used [OF h] by blast
qed

theorem vmm_isolation_witness:
  "\<exists>a b s. vm_history tiny_start s [(b, 2), (a, 1)] \<and> vmm_get_phys_addr a s \<noteq> vmm_get_phys_addr b s"
proof -
  obtain a s1 where a: "vmm_alloc_pages 1 tiny_vm = Inr (a, s1)" using tiny_alloc [of 1] by auto
  have h1: "vm_history tiny_start s1 [(a, 1)]" by (rule vm_history.alloc [OF tiny_history a])
  obtain k fs where k: "length fs = 1" "pages_taken tiny_vm Map.empty {} k fs s1"
    using alloc_pages_full [OF tiny_inv, of 1] a by (auto simp: alloc_outcome_def)
  have inv: "vm_inv s1 (place_frames Map.empty k fs) {}" using k(2) by (simp add: pages_taken_def)
  have c: "card (free_frames (frames s1)) = 31"
    using k by (simp add: pages_taken_def tiny_free card_Diff_subset distinct_card finite_subset [of _ "{256..<288}"])
  obtain b s2 where b: "vmm_alloc_pages 2 s1 = Inr (b, s2)"
  proof (cases "vmm_alloc_pages 2 s1")
    case (Inl e)
    have "pages_live (place_frames Map.empty k fs) {} j 2" if "j + 2 \<le> VIRT_PAGES" for j
      using alloc_pages_full [OF inv, of 2] Inl c that by (auto simp: alloc_outcome_def)
    from this [of "if k < 2 then 2 else 0"] have False
      using k(1) by (cases "k < 2") (auto simp: pages_live_def place_dom VIRT_PAGES_def)
    then show thesis ..
  qed auto
  have h2: "vm_history tiny_start s2 [(b, 2), (a, 1)]" by (rule vm_history.alloc [OF h1 b])
  have l: "live_addr [(b, 2), (a, 1)] a" "live_addr [(b, 2), (a, 1)] b" by (simp_all add: live_addr_def)
  have "a \<noteq> b"
  proof
    assume "a = b"
    then have "distinct (region_pages (a, 2) @ region_pages (a, 1))" using vmm_isolation [OF h2] by simp
    then show False by (simp add: region_pages_def)
  qed
  then show ?thesis using h2 vmm_isolation [OF h2] l by blast
qed

text \<open>
  C8: In every history the release of a live region succeeds, and no frame is lost: the free frames and
  the pages of the live regions always make up the frames that were free at start-up.
\<close>

theorem vmm_no_frame_lost:
  assumes "vm_history s0 s L"
  shows "card (free_frames (frames s)) + sum_list (map (\<lambda>r. unat (snd r)) L) = card (free_frames (frames s0))
    \<and> list_all (\<lambda>(a, n). vmm_free_pages a n s \<noteq> None) L"
proof -
  obtain A M where h: "history_inv s0 s L A M" using vm_history_inv [OF assms] by blast
  have "vmm_free_pages a n s \<noteq> None" if an: "(a, n) \<in> set L" for a n
  proof -
    obtain L1 L2 where "L = L1 @ (a, n) # L2" using an by (auto simp: in_set_conv_decomp)
    then show ?thesis using release_history h by fastforce
  qed
  then show ?thesis using no_frame_lost [OF h] by (auto simp: list_all_iff)
qed

theorem vmm_no_frame_lost_witness:
  "\<exists>a s. vm_history tiny_start s [(a, 5)] \<and> card (free_frames (frames s)) = 27"
proof -
  obtain a s where a: "vmm_alloc_pages 5 tiny_vm = Inr (a, s)" using tiny_alloc [of 5] by auto
  have h: "vm_history tiny_start s [(a, 5)]" by (rule vm_history.alloc [OF tiny_history a])
  have "card (free_frames (frames tiny_start)) = 32"
    using tiny_free by (simp add: tiny_vm_def vmm_init_def vmm_pat_init_def)
  then show ?thesis using vmm_no_frame_lost [OF h] h by auto
qed

text \<open>
  Releasing what \<open>vmm_alloc_pages\<close> returned restores the state: every mapping is as it was, and so
  are the free frames.
\<close>

theorem vmm_alloc_free_roundtrip:
  assumes "vm_inv s A M" "vmm_alloc_pages n s = Inr (a, s1)"
  shows "\<exists>s2. vmm_free_pages a n s1 = Some s2 \<and> vm_inv s2 A M \<and> free_frames (frames s2) = free_frames (frames s)
    \<and> (\<forall>m. mapping m s2 = mapping m s)"
  by (rule alloc_free_full [OF assms])

theorem vmm_alloc_free_roundtrip_witness:
  "\<exists>a s1 s2. vmm_alloc_pages 32 tiny_vm = Inr (a, s1) \<and> vmm_free_pages a 32 s1 = Some s2
    \<and> free_frames (frames s2) = {256..<288}"
proof -
  obtain a s1 where a: "vmm_alloc_pages 32 tiny_vm = Inr (a, s1)" using tiny_alloc [of 32] by auto
  then show ?thesis using vmm_alloc_free_roundtrip [OF tiny_inv a] tiny_free by auto
qed






text \<open>
  \<open>vmm_get_virt_addr\<close> inverts \<open>vmm_get_phys_addr\<close>: when some page is mapped to the frame of \<open>p\<close>, it
  returns the lowest such address, and that address translates to \<open>p\<close>; otherwise it returns 0.
\<close>

theorem translation_inverse:
  "if \<exists>n < FRAMES. maps_frame p s n then vmm_get_phys_addr (vmm_get_virt_addr p s) s = p else vmm_get_virt_addr p s = 0"
proof (cases rule: virt_addr_cases [of p s])
  case (found k)
  then show ?thesis using virt_phys [of k p s] by auto
next
  case none
  then show ?thesis by auto
qed

text \<open>
  A device region that \<open>vmm_map_mmio_region\<close> maps gives its caller the whole range: each byte of it
  translates to the byte at the same offset from the physical address asked for, aligned or not.
\<close>

theorem mmio_region_maps:
  assumes "vm_inv s A M" "flags AND VM_PRESENT \<noteq> 0" "flags AND NOT 0xFFF = 0"
    and "vmm_map_mmio_region p sz flags s = (a, s')" "a \<noteq> 0"
    and "off < unat sz" "unat sz + 8190 < 4294967296"
  shows "vmm_get_phys_addr (a + of_nat off) s' = p + of_nat off"
  by (rule mmio_full [OF assms])

theorem mmio_region_maps_witness:
  "\<exists>a s'. vmm_map_mmio_region 0xFEE00123 0x2000 (VM_PRESENT OR VM_PCD) tiny_vm = (a, s')
    \<and> vmm_get_phys_addr (a + of_nat 0x1F00) s' = 0xFEE02023"
proof -
  have fl: "(VM_PRESENT OR VM_PCD) AND VM_PRESENT \<noteq> 0" "(VM_PRESENT OR VM_PCD) AND NOT 0xFFF = 0"
    by (simp_all add: VM_PRESENT_def VM_PCD_def)
  have n: "unat (device_pages 0xFEE00123 0x2000) = 3" by (simp add: device_pages_def PAGE_SIZE_def)
  obtain a s' where r: "vmm_map_mmio_region 0xFEE00123 0x2000 (VM_PRESENT OR VM_PCD) tiny_vm = (a, s')" by fastforce
  have "\<not> pages_live Map.empty {} 0 3" "0 + 3 \<le> VIRT_PAGES" by (simp_all add: pages_live_def VIRT_PAGES_def)
  then obtain k where k: "a = page_addr k + (0xFEE00123 AND (PAGE_SIZE - 1))" "k + 3 \<le> VIRT_PAGES"
    using map_mmio_full [OF tiny_inv fl(1), of "0xFEE00123" "0x2000"] r n by fastforce
  have "a = of_nat (WP k) * 4096 + of_nat 0x123" unfolding k(1) page_addr_WP by (simp add: PAGE_SIZE_def)
  then have "unat a = WP k * 4096 + 0x123" using k(2) offset_add(1) [of "WP k" "0x123"] by (simp add: WP_less)
  then have "a \<noteq> 0" by (auto simp: unat_eq_0 [symmetric])
  then show ?thesis using mmio_region_maps [OF tiny_inv fl r, of "0x1F00"] r by simp
qed

end
