(* ===== verification/MallocSpec.thy ===== *)
theory MallocSpec
  imports Malloc VmmClaims
begin

text \<open>
  What \<open>malloc\<close>, \<open>free\<close> and \<open>realloc\<close> promise, also over whole histories in which the clients write to their
  blocks, and which misuse the allocator detects.
\<close>

unbundle bit_operations_syntax

section \<open>Writes of the clients\<close>

lemma slab_page_cong_free:
  assumes os: "4 \<le> os" and h: "\<And>o'. o' < 16 \<Longrightarrow> pbyte m' k o' = pbyte m k o'"
    and f: "\<And>j o'. j \<in> set fl \<Longrightarrow> slot_off os j \<le> o' \<Longrightarrow> o' < slot_off os j + os \<Longrightarrow> pbyte m' k o' = pbyte m k o'"
  shows "slab_page m' k c os fl = slab_page m k c os fl"
proof -
  have w: "pword m' k 0 = pword m k 0" "pword m' k 4 = pword m k 4" "pword m' k 12 = pword m k 12"
    by (rule pword_cong, rule h; simp)+
  have "slot_chain m' k os fl = slot_chain m k os fl" if "set fl \<subseteq> {..<nslots os}"
    by (rule slot_chain_cong [OF that f os])
  then show ?thesis unfolding slab_page_def w by blast
qed

lemma client_write:
  assumes inv: "malloc_inv s own pl A M"
    and m: "\<And>k off. k < VIRT_PAGES \<Longrightarrow> off < 4096 \<Longrightarrow> own k \<noteq> None \<Longrightarrow> \<not> block_byte own k off \<Longrightarrow> pbyte m' k off = pbyte (smem s) k off"
  shows "malloc_inv (s\<lparr>smem := m'\<rparr>) own pl A M"
proof -
  note D = malloc_invD [OF inv]
  have head: "pbyte m' k off = pbyte (smem s) k off" if o: "own k = Some (SlabPage i fl)" "off < 16" for k i fl off
  proof (rule m)
    show "\<not> block_byte own k off" using o by (auto simp: block_byte_def slot_off_def)
  qed (use D(3) [OF o(1)] o in auto)
  have page: "slab_page m' k c (csize i) fl = slab_page (smem s) k c (csize i) fl" if o: "own k = Some (SlabPage i fl)" for k c i fl
  proof (rule slab_page_cong_free)
    show "4 \<le> csize i" using csize_bounds [OF D(9) [OF o]] by simp
    show "pbyte m' k o' = pbyte (smem s) k o'" if "o' < 16" for o' by (rule head [OF o that])
    fix j o' assume j: "j \<in> set fl" "slot_off (csize i) j \<le> o'" "o' < slot_off (csize i) j + csize i"
    have "j < nslots (csize i)" using D(11) [OF o] j(1) by (auto simp: slab_page_def)
    then have "o' < 4096" using slot_fits j(3) by fastforce
    moreover have "\<not> block_byte own k o'"
    proof
      assume "block_byte own k o'"
      then obtain j' where j': "j' \<notin> set fl" "slot_off (csize i) j' \<le> o'" "o' < slot_off (csize i) j' + csize i"
        using o by (auto simp: block_byte_def is_slot_def)
      then have "j' \<noteq> j" using j(1) by auto
      then show False using slots_disjoint [of j' j "csize i"] j j' by linarith
    qed
    ultimately show "pbyte m' k o' = pbyte (smem s) k o'" using m D(3) [OF o] o by simp
  qed
  have "pword m' k 0 = pword (smem s) k 0" if o: "own k = Some (LargeHead n)" for k n
  proof (rule pword_cong, rule m)
    fix i :: nat assume "i < 4"
    show "\<not> block_byte own k (0 + i)" using o by (auto simp: block_byte_def is_slot_def)
  qed (use D(3) [OF o] o in auto)
  then have "roles_ok (s\<lparr>smem := m'\<rparr>) own" using D(9-15) by (simp add: roles_ok_def page)
  moreover have "caches_ok (s\<lparr>smem := m'\<rparr>) own pl"
    unfolding caches_ok_def cache_at_update
  proof (intro allI impI conjI)
    fix i :: nat assume i: "i < 6"
    have "plink m' (pl i) 0 = plink (smem s) (pl i) 0"
    proof (rule plink_cong)
      fix k assume "k \<in> set (pl i)"
      then obtain fl where o: "own k = Some (SlabPage i fl)" using D(8) [OF i] by auto
      show "pword m' k 8 = pword (smem s) k 8" by (rule pword_cong, rule head [OF o]) simp
    qed
    then show "plink (smem (s\<lparr>smem := m'\<rparr>)) (pl i) 0" using D(7) [OF i] by simp
  qed (use D(4-6,8) in simp_all)
  ultimately show ?thesis using D(1,2) by (simp add: malloc_inv_def)
qed

text \<open>A write that stays in one block.\<close>

lemma block_write:
  assumes inv: "malloc_inv s own pl A M" and b: "(p, n) \<in> blocks own" and l: "length bs \<le> n"
  shows "malloc_inv (s\<lparr>smem := mem_write (smem s) (win p) bs\<rparr>) own pl A M"
    "\<And>q r. (q, r) \<in> blocks own \<Longrightarrow> q \<noteq> p \<Longrightarrow> same_bytes (smem s) (mem_write (smem s) (win p) bs) q r"
    "\<And>i. i < length bs \<Longrightarrow> mem_write (smem s) (win p) bs (win (p + i)) = bs ! i"
proof -
  note w = block_in_window [OF inv b]
  have pb: "p + length bs \<le> VIRT_PAGES * 4096" using w(1) l by simp
  show "malloc_inv (s\<lparr>smem := mem_write (smem s) (win p) bs\<rparr>) own pl A M"
  proof (rule client_write [OF inv])
    fix k off :: nat assume k: "k < VIRT_PAGES" "off < 4096" "\<not> block_byte own k off"
    have "\<not> (p \<le> k * 4096 + off \<and> k * 4096 + off < p + length bs)"
    proof
      assume i: "p \<le> k * 4096 + off \<and> k * 4096 + off < p + length bs"
      then have "k * 4096 + off - p < n" "p + (k * 4096 + off - p) = k * 4096 + off" using l by auto
      then have "block_byte own ((k * 4096 + off) div 4096) ((k * 4096 + off) mod 4096)"
        using block_bytes(1) [OF inv b, of "k * 4096 + off - p"] by simp
      then show False using k(2,3) by simp
    qed
    then show "pbyte (mem_write (smem s) (win p) bs) k off = pbyte (smem s) k off"
      using write_win [OF pb page_win [OF k(1,2)]] by (auto simp: pbyte_def win_page [symmetric])
  qed
  show "same_bytes (smem s) (mem_write (smem s) (win p) bs) q r" if q: "(q, r) \<in> blocks own" "q \<noteq> p" for q r
    unfolding same_bytes_def
  proof (intro allI impI)
    fix i assume i: "i < r"
    have "q + i < VIRT_PAGES * 4096" using block_in_window(1) [OF inv q(1)] i by simp
    moreover have "\<not> (p \<le> q + i \<and> q + i < p + length bs)"
      using heap_blocks_disjoint [OF inv q(1) b q(2)] i l by auto
    ultimately show "mem_write (smem s) (win p) bs (win (q + i)) = smem s (win (q + i))"
      using write_win [OF pb] by auto
  qed
  show "mem_write (smem s) (win p) bs (win (p + i)) = bs ! i" if "i < length bs" for i
    using write_win [OF pb, of "p + i"] that pb by simp
qed

section \<open>realloc\<close>

lemma win_add: "win p + of_nat i = win (p + i)"
  by (simp add: win_def)

lemma blocks_fst: "malloc_inv s own pl A M \<Longrightarrow> (p, n) \<in> blocks own \<Longrightarrow> (p, r) \<in> blocks own \<Longrightarrow> n = r"
proof -
  assume inv: "malloc_inv s own pl A M" and b: "(p, n) \<in> blocks own" "(p, r) \<in> blocks own"
  show "n = r"
    using inv b(1)
  proof (cases rule: block_pages)
    case sa: (slab k i j)
    have o: "slot_off (csize i) j < 4096" "0 < slot_off (csize i) j" using sa(5,6) csize_bounds [OF sa(2)] by (simp_all add: slot_off_def)
    have b2: "(k * 4096 + slot_off (csize i) j, r) \<in> blocks own" using b(2) sa(4) by simp
    show ?thesis
      using inv b2
    proof (cases rule: block_pages)
      case sb: (slab k' i' j')
      then have "k' = k" using o by simp
      then have "i' = i" using sa(1) sb(1) by (auto simp: is_slot_def)
      then show ?thesis using sa(5) sb(5) by simp
    next
      case lb: (pages k' c)
      have "(k * 4096 + slot_off (csize i) j) mod 4096 = 0" unfolding lb(2) by simp
      then show ?thesis using o by simp
    qed
  next
    case la: (pages k c)
    show ?thesis
      using inv b(2)
    proof (cases rule: block_pages)
      case sb: (slab k' i' j')
      have o: "slot_off (csize i') j' < 4096" "0 < slot_off (csize i') j'" using sb(5,6) csize_bounds [OF sb(2)] by (simp_all add: slot_off_def)
      have "(k' * 4096 + slot_off (csize i') j') mod 4096 = p mod 4096" by (simp add: sb(4))
      then have "slot_off (csize i') j' = 0" using o unfolding la(2) by simp
      then show ?thesis using o by simp
    next
      case lb: (pages k' c')
      then show ?thesis using la by simp
    qed
  qed
qed

text \<open>The capacity that \<open>realloc\<close> computes is that of the block, and it stays only where the new size fits.\<close>

lemma realloc_keep_eq:
  assumes inv: "malloc_inv s own pl A M" and b: "(p, n) \<in> blocks own" and sz: "0 < unat sz" "unat sz + 8191 < 4294967296"
  obtains keep where "realloc_keep (win p) sz s = (of_nat n, keep)" "keep \<longrightarrow> unat sz \<le> n" "n < 4294967296"
  using inv b
proof (cases rule: block_pages)
  case (slab k i j)
  note os = csize_bounds [OF slab(2)]
  obtain fl where fl: "own k = Some (SlabPage i fl)" using slab(1) by (auto simp: is_slot_def)
  have ptr: "win p = slot k (csize i) j" by (simp add: slab(4) win_page slot_def)
  have so: "slot_off (csize i) j < 4096" "0 < slot_off (csize i) j" using slab(5,6) os by (simp_all add: slot_off_def)
  have "slot k (csize i) j AND (PAGE_SIZE - 1) = of_nat (slot_off (csize i) j)"
    unfolding slot_def by (rule at_page_mask(2) [OF slab(7) so(1)])
  moreover have "unat (of_nat (slot_off (csize i) j) :: u32) \<noteq> 0" using so by (simp add: unat_of_nat_u32)
  ultimately have al: "slot k (csize i) j AND (PAGE_SIZE - 1) \<noteq> 0" by auto
  have pg: "slot k (csize i) j AND NOT (PAGE_SIZE - 1) = page_addr k" by (rule slot_page [OF slab(7,3)]) (use os in simp)
  have oc: "owning_cache (smem s) (page_addr k) = cache_at i s"
    using malloc_invD(11) [OF inv fl] by (simp add: page_fields slab_page_def)
  have os2: "object_sizes s (cache_at i s) = of_nat (csize i)" by (rule malloc_invD(4) [OF inv slab(2)])
  have le: "(sz \<le> of_nat (csize i)) = (unat sz \<le> csize i)" using os by (simp add: word_le_nat_alt unat_of_nat_u32)
  show thesis
    by (rule that [of "sz \<le> of_nat (csize i) \<and> \<not> (case choose_cache sz s of None \<Rightarrow> False | Some i' \<Rightarrow> object_sizes s (cache_at i' s) < object_sizes s (cache_at i s))"])
      (use al os in \<open>simp_all add: realloc_keep_def ptr pg oc os2 Let_def slab(5) le\<close>)
next
  case (pages k c)
  have kv: "Suc k < VIRT_PAGES" using pages(4,5) by simp
  have ptr: "win p = page_addr (Suc k)" using win_page [of "Suc k" 0] by (simp add: pages(2))
  have al: "page_addr (Suc k) AND (PAGE_SIZE - 1) = 0" using at_page_mask(2) [OF kv, of 0] by simp
  have prev: "page_addr (Suc k) - PAGE_SIZE = page_addr k" by (simp add: page_addr_def algebra_simps)
  have cnt: "load32 (smem s) (page_addr k) = of_nat c" using malloc_invD(14) [OF inv pages(1)] by (simp add: pword_def)
  have cv: "c \<le> 65536" using pages(5) by (simp add: VIRT_PAGES_def)
  have n: "of_nat c * PAGE_SIZE - PAGE_SIZE = of_nat n"
    using pages(3,4) by (simp add: PAGE_SIZE_def of_nat_diff algebra_simps)
  have "unat sz \<le> n" if "(sz + PAGE_SIZE + PAGE_SIZE - 1) div PAGE_SIZE = of_nat c"
  proof -
    have e: "sz + PAGE_SIZE + PAGE_SIZE - 1 = sz + 8191" by (simp add: PAGE_SIZE_def)
    have u: "unat (sz + 8191) = unat sz + 8191" using sz(2) by (subst unat_add_u32) simp_all
    have "unat ((sz + 8191) div PAGE_SIZE) = c" using that cv unfolding e by (simp add: unat_of_nat_u32)
    then have "(unat sz + 8191) div 4096 = c" by (simp only: unat_div_distrib u) (simp add: PAGE_SIZE_def)
    then show ?thesis unfolding pages(3) by arith
  qed
  then show thesis
    using cv by (intro that [of "(sz + PAGE_SIZE + PAGE_SIZE - 1) div PAGE_SIZE = of_nat c"])
      (simp_all add: realloc_keep_def ptr al prev cnt Let_def n pages(3))
qed

lemma realloc_cases:
  assumes inv: "malloc_inv s own pl A M" and b: "(p, n) \<in> blocks own" and sz: "0 < unat sz" "unat sz + 8191 < 4294967296"
  obtains (keep) "realloc (win p) sz s = Some (Inr (win p, s))" "unat sz \<le> n"
    | (move) q r s' own' pl' A' where "realloc (win p) sz s = Some (Inr (win q, s'))" "malloc_inv s' own' pl' A' M"
        "unat sz \<le> r" "(q, r) \<notin> blocks own" "blocks own' = insert (q, r) (blocks own - {(p, n)})"
        "\<And>i. i < min n (unat sz) \<Longrightarrow> smem s' (win (q + i)) = smem s (win (p + i))"
        "\<And>p' n'. (p', n') \<in> blocks own - {(p, n)} \<Longrightarrow> same_bytes (smem s) (smem s') p' n'"
        "malloc_caches s' = malloc_caches s"
    | (panic) "realloc (win p) sz s = Some (Inl (VmPanic OutOfPages))"
proof -
  obtain keep where k: "realloc_keep (win p) sz s = (of_nat n, keep)" "keep \<longrightarrow> unat sz \<le> n" "n < 4294967296"
    by (rule realloc_keep_eq [OF inv b sz])
  have w: "p + n \<le> VIRT_PAGES * 4096" "0 < n" using block_in_window [OF inv b] by simp_all
  have nz: "win p \<noteq> 0" using win_unat [of p] w by (auto simp: unat_eq_0 [symmetric])
  have sz0: "sz \<noteq> 0" using sz(1) by auto
  have un: "unat (of_nat n :: u32) = n" by (rule unat_of_nat_u32 [OF k(3)])
  show thesis
  proof (cases keep)
    case True
    then show thesis using keep k nz sz0 by (simp add: realloc_def)
  next
    case False
    show thesis
    proof (rule malloc_cases [OF inv sz])
      assume "malloc sz s = Some (Inl (VmPanic OutOfPages))"
      then show thesis using panic k(1) False nz sz0 by (simp add: realloc_def)
    next
      fix q r s1 own1 pl1 A1
      assume m: "malloc sz s = Some (Inr (win q, s1))" and inv1: "malloc_inv s1 own1 pl1 A1 M" and r: "unat sz \<le> r"
        and t: "heap_took s own q r s1 own1"
      have b1: "(q, r) \<in> blocks own1" "(p, n) \<in> blocks own1" "(q, r) \<notin> blocks own" "blocks own1 = insert (q, r) (blocks own)"
        using t b by (auto simp: heap_took_def)
      have qp: "q \<noteq> p" using blocks_fst [OF inv1 b1(1), of n] b1(2,3) b by auto
      have wq: "q + r \<le> VIRT_PAGES * 4096" "0 < r" using block_in_window [OF inv1 b1(1)] by simp_all
      have qnz: "win q \<noteq> 0" using win_unat [of q] wq by (auto simp: unat_eq_0 [symmetric])
      define c where "c = (if (of_nat n :: u32) < sz then of_nat n else sz)"
      have c: "unat c = min n (unat sz)" using un by (auto simp: c_def word_less_nat_alt)
      define bs where "bs = mem_read (smem s1) (win p) (unat c)"
      have lb: "length bs = min n (unat sz)" by (simp add: bs_def c)
      define s2 where "s2 = s1\<lparr>smem := mem_write (smem s1) (win q) bs\<rparr>"
      have lr: "length bs \<le> r" using lb r by simp
      note bw = block_write [OF inv1 b1(1) lr, folded s2_def]
      have inv2: "malloc_inv s2 own1 pl1 A1 M" by (rule bw(1))
      obtain s' own' pl' A' where f: "free (win p) s2 = Some (Inr s')" "malloc_inv s' own' pl' A' M" "slab_gave s2 own1 (p, n) s' own'"
        using free_block [OF inv2 b1(2)] by blast
      have re: "realloc (win p) sz s = Some (Inr (win q, s'))"
        using nz sz0 k(1) False m qnz f(1) by (simp add: realloc_def c_def bs_def s2_def Let_def)
      have bl: "blocks own' = insert (q, r) (blocks own - {(p, n)})" using f(3) b1 b by (auto simp: slab_gave_def)
      have cont: "smem s' (win (q + i)) = smem s (win (p + i))" if i: "i < min n (unat sz)" for i
      proof -
        have "same_bytes (smem s2) (smem s') q r" using f(3) bl by (auto simp: slab_gave_def)
        then have "smem s' (win (q + i)) = smem s2 (win (q + i))" using i r by (simp add: same_bytes_def)
        also have "\<dots> = bs ! i" using bw(3) [of i] i lb by (simp add: s2_def)
        also have "\<dots> = smem s1 (win (p + i))" using i c by (simp add: bs_def mem_read_def win_add)
        also have "\<dots> = smem s (win (p + i))" using t b i by (auto simp: heap_took_def same_bytes_def)
        finally show ?thesis .
      qed
      have oth: "same_bytes (smem s) (smem s') p' n'" if o: "(p', n') \<in> blocks own - {(p, n)}" for p' n'
      proof -
        have "(p', n') \<in> blocks own1" using o b1(4) by simp
        moreover have "p' \<noteq> q" using blocks_fst [OF inv1 b1(1), of n'] calculation b1(3) o by auto
        ultimately have "same_bytes (smem s1) (smem s2) p' n'" using bw(2) by (simp add: s2_def)
        moreover have "same_bytes (smem s) (smem s1) p' n'" using t o by (auto simp: heap_took_def)
        moreover have "same_bytes (smem s2) (smem s') p' n'" using f(3) bl o by (auto simp: slab_gave_def)
        ultimately show ?thesis using same_bytes_trans by blast
      qed
      have mc: "malloc_caches s' = malloc_caches s" using t f(3) by (simp add: heap_took_def slab_gave_def s2_def)
      show thesis by (rule move [OF re f(2) r b1(3) bl cont oth mc])
    qed
  qed
qed

end
