(* ===== verification/MallocClaims.thy ===== *)
theory MallocClaims
  imports MallocSpec
begin

text \<open>
  The promises of \<open>malloc\<close>, \<open>free\<close> and \<open>realloc\<close>, with examples on a machine with 32 free frames.
\<close>

unbundle bit_operations_syntax

section \<open>Start\<close>

lemma malloc_start_inv:
  assumes v: "vm_inv v A M"
  shows "malloc_inv (malloc_start m v base) Map.empty (\<lambda>i. []) A M" "blocks Map.empty = {}"
proof -
  let ?s = "malloc_start m v base"
  have "object_sizes ?s (cache_at i ?s) = of_nat (csize i)" if i: "i < 6" for i
    using csize_cases [OF i] by (elim disjE) (simp_all add: malloc_start_def cache_at_def cache_sizes_def csize_def SLAB_MAX_SIZE_def)
  then have "caches_ok ?s Map.empty (\<lambda>i. [])" by (simp add: caches_ok_def) (simp add: malloc_start_def)
  moreover have "roles_ok ?s Map.empty" by (simp add: roles_ok_def)
  ultimately show "malloc_inv ?s Map.empty (\<lambda>i. []) A M" using v by (simp add: malloc_inv_def) (simp add: malloc_start_def)
  show "blocks Map.empty = {}" by (auto simp: is_slot_def elim: blocks.cases)
qed

section \<open>Histories\<close>

text \<open>A size for which the computation of the number of pages does not overflow.\<close>

definition fair_size :: "u32 \<Rightarrow> bool" where "fair_size sz \<longleftrightarrow> 0 < unat sz \<and> unat sz + 8191 < 4294967296"

definition in_block :: "u32 \<Rightarrow> u32 \<times> u32 \<Rightarrow> bool" where
  "in_block x r \<longleftrightarrow> unat (fst r) \<le> unat x \<and> unat x < unat (fst r) + unat (snd r)"

text \<open>
  Calls in any order from the start, with the pointers and sizes of the allocations that are live; in
  between, the clients write anywhere in their allocations and outside the window.
\<close>

inductive heap_history :: "slab \<Rightarrow> (u32 \<times> u32) list \<Rightarrow> bool" where
  start: "vm_inv v A M \<Longrightarrow> heap_history (malloc_start m v base) []"
| alloc: "heap_history s L \<Longrightarrow> fair_size sz \<Longrightarrow> malloc sz s = Some (Inr (a, s')) \<Longrightarrow> heap_history s' ((a, sz) # L)"
| release: "heap_history s (L1 @ (a, sz) # L2) \<Longrightarrow> free a s = Some (Inr s') \<Longrightarrow> heap_history s' (L1 @ L2)"
| resize: "heap_history s (L1 @ (a, old) # L2) \<Longrightarrow> fair_size sz \<Longrightarrow> realloc a sz s = Some (Inr (b, s')) \<Longrightarrow>
    heap_history s' ((b, sz) # L1 @ L2)"
| client: "heap_history s L \<Longrightarrow>
    (\<And>x. m' x \<noteq> smem s x \<Longrightarrow> VM_START \<le> x \<Longrightarrow> x < VM_END \<Longrightarrow> \<exists>r \<in> set L. in_block x r) \<Longrightarrow>
    heap_history (s\<lparr>smem := m'\<rparr>) L"

definition holds_block :: "u32 \<times> u32 \<Rightarrow> nat \<times> nat \<Rightarrow> bool" where
  "holds_block r b \<longleftrightarrow> fst r = win (fst b) \<and> 0 < unat (snd r) \<and> unat (snd r) \<le> snd b"

definition history_ok :: "slab \<Rightarrow> (u32 \<times> u32) list \<Rightarrow> (nat \<times> nat) list \<Rightarrow> (nat \<rightharpoonup> role) \<Rightarrow> bool" where
  "history_ok s L bs own \<longleftrightarrow> list_all2 holds_block L bs \<and> distinct bs \<and> set bs = blocks own"

lemma history_remove:
  assumes h: "history_ok s (L1 @ r # L2) bs own"
  obtains b bs1 bs2 where "bs = bs1 @ b # bs2" "holds_block r b" "list_all2 holds_block (L1 @ L2) (bs1 @ bs2)"
    "b \<in> blocks own" "distinct (bs1 @ bs2)" "set (bs1 @ bs2) = blocks own - {b}"
proof -
  obtain bs1 bs' where b: "bs = bs1 @ bs'" "list_all2 holds_block L1 bs1" "list_all2 holds_block (r # L2) bs'"
    using h by (auto simp: history_ok_def list_all2_append1)
  then obtain b bs2 where b2: "bs' = b # bs2" "holds_block r b" "list_all2 holds_block L2 bs2" by (auto simp: list_all2_Cons1)
  have "list_all2 holds_block (L1 @ L2) (bs1 @ bs2)" using b(2) b2(3) by (rule list_all2_appendI)
  then show thesis using that [of bs1 b bs2] h b b2 by (auto simp: history_ok_def)
qed

lemma heap_history_inv: "heap_history s L \<Longrightarrow> \<exists>own pl A M bs. malloc_inv s own pl A M \<and> history_ok s L bs own"
proof (induction rule: heap_history.induct)
  case (start v A M m base)
  show ?case
    using malloc_start_inv [OF start]
    by (intro exI [of _ Map.empty] exI [of _ "\<lambda>i. []"] exI [of _ A] exI [of _ M] exI [of _ "[]"]) (simp add: history_ok_def)
next
  case (alloc s L sz a s')
  obtain own pl A M bs where inv: "malloc_inv s own pl A M" and h: "history_ok s L bs own" using alloc.IH by blast
  have sz: "0 < unat sz" "unat sz + 8191 < 4294967296" using alloc.hyps(2) by (simp_all add: fair_size_def)
  show ?case
  proof (rule malloc_cases [OF inv sz])
    fix p n s1 own' pl' A'
    assume m: "malloc sz s = Some (Inr (win p, s1))" "malloc_inv s1 own' pl' A' M" "unat sz \<le> n" "heap_took s own p n s1 own'"
    then have "history_ok s' ((a, sz) # L) ((p, n) # bs) own'"
      using alloc.hyps(3) h sz by (auto simp: history_ok_def holds_block_def heap_took_def)
    then show ?case using m(1,2) alloc.hyps(3) by auto
  next
    assume "malloc sz s = Some (Inl (VmPanic OutOfPages))"
    then show ?case using alloc.hyps(3) by simp
  qed
next
  case (release s L1 a sz L2 s')
  obtain own pl A M bs where inv: "malloc_inv s own pl A M" and h: "history_ok s (L1 @ (a, sz) # L2) bs own" using release.IH by blast
  obtain p n bs1 bs2 where b: "holds_block (a, sz) (p, n)" "list_all2 holds_block (L1 @ L2) (bs1 @ bs2)"
    "(p, n) \<in> blocks own" "distinct (bs1 @ bs2)" "set (bs1 @ bs2) = blocks own - {(p, n)}"
    using history_remove [OF h] by (metis prod.collapse)
  obtain own' pl' A' where f: "malloc_inv s' own' pl' A' M" "slab_gave s own (p, n) s' own'"
    using free_block [OF inv b(3)] release.hyps(2) b(1) by (auto simp: holds_block_def)
  have "history_ok s' (L1 @ L2) (bs1 @ bs2) own'" using b(2,4,5) f(2) by (simp add: history_ok_def slab_gave_def)
  then show ?case using f(1) by blast
next
  case (resize s L1 a old L2 sz b' s')
  obtain own pl A M bs where inv: "malloc_inv s own pl A M" and h: "history_ok s (L1 @ (a, old) # L2) bs own" using resize.IH by blast
  obtain p n bs1 bs2 where b: "holds_block (a, old) (p, n)" "list_all2 holds_block (L1 @ L2) (bs1 @ bs2)"
    "(p, n) \<in> blocks own" "distinct (bs1 @ bs2)" "set (bs1 @ bs2) = blocks own - {(p, n)}"
    using history_remove [OF h] by (metis prod.collapse)
  have sz: "0 < unat sz" "unat sz + 8191 < 4294967296" using resize.hyps(2) by (simp_all add: fair_size_def)
  have a: "a = win p" using b(1) by (simp add: holds_block_def)
  show ?case
  proof (rule realloc_cases [OF inv b(3) sz])
    assume k: "realloc (win p) sz s = Some (Inr (win p, s))" "unat sz \<le> n"
    then have e: "b' = win p" "s' = s" using resize.hyps(3) a by simp_all
    have "history_ok s ((b', sz) # L1 @ L2) ((p, n) # bs1 @ bs2) own"
      using b k(2) sz by (auto simp: history_ok_def holds_block_def e)
    then show ?case using inv e by blast
  next
    fix q r s1 own' pl' A'
    assume m: "realloc (win p) sz s = Some (Inr (win q, s1))" "malloc_inv s1 own' pl' A' M" "unat sz \<le> r" "(q, r) \<notin> blocks own"
      "blocks own' = insert (q, r) (blocks own - {(p, n)})"
    have e: "b' = win q" "s' = s1" using m(1) resize.hyps(3) a by simp_all
    have "history_ok s1 ((b', sz) # L1 @ L2) ((q, r) # bs1 @ bs2) own'"
      using b m(3-5) sz by (auto simp: history_ok_def holds_block_def e)
    then show ?case using m(2) e by blast
  next
    assume "realloc (win p) sz s = Some (Inl (VmPanic OutOfPages))"
    then show ?case using resize.hyps(3) a by simp
  qed
next
  case (client s L m')
  obtain own pl A M bs where inv: "malloc_inv s own pl A M" and h: "history_ok s L bs own" using client.IH by blast
  have "malloc_inv (s\<lparr>smem := m'\<rparr>) own pl A M"
  proof (rule client_write [OF inv])
    fix k off :: nat assume k: "k < VIRT_PAGES" "off < 4096" "\<not> block_byte own k off"
    let ?x = "at_page k off"
    have u: "unat ?x = 268435456 + (k * 4096 + off)" using at_page_unat [OF k(1,2)] by simp
    have win: "VM_START \<le> ?x" "?x < VM_END"
      using u page_win [OF k(1,2)] by (simp_all add: word_le_nat_alt word_less_nat_alt VM_START_def VM_END_def VIRT_PAGES_def)
    show "pbyte m' k off = pbyte (smem s) k off"
    proof (rule ccontr)
      assume "pbyte m' k off \<noteq> pbyte (smem s) k off"
      then obtain r where r: "r \<in> set L" "in_block ?x r" using client.hyps(2) win unfolding pbyte_def by blast
      obtain i where i: "i < length L" "r = L ! i" using r(1) by (auto simp: in_set_conv_nth)
      obtain p n where pn: "bs ! i = (p, n)" by (cases "bs ! i")
      have len: "length bs = length L" using h by (auto simp: history_ok_def dest: list_all2_lengthD)
      have ho: "holds_block r (p, n)" using h i pn list_all2_nthD [of holds_block L bs i] by (simp add: history_ok_def)
      have b: "(p, n) \<in> blocks own" using h i len pn nth_mem [of i bs] by (simp add: history_ok_def)
      have "p < VIRT_PAGES * 4096" using block_in_window [OF inv b] by simp
      then have "p \<le> k * 4096 + off" "k * 4096 + off < p + n"
        using ho r(2) u win_unat [of p] by (auto simp: holds_block_def in_block_def)
      then have "k * 4096 + off - p < n" "p + (k * 4096 + off - p) = k * 4096 + off" by auto
      then have "block_byte own ((k * 4096 + off) div 4096) ((k * 4096 + off) mod 4096)"
        using block_bytes(1) [OF inv b, of "k * 4096 + off - p"] by simp
      then show False using k(2,3) by simp
    qed
  qed
  then show ?case using h by (auto simp: history_ok_def)
qed

definition ranges_apart :: "u32 \<times> u32 \<Rightarrow> u32 \<times> u32 \<Rightarrow> bool" where
  "ranges_apart r r' \<longleftrightarrow> unat (fst r) + unat (snd r) \<le> unat (fst r') \<or> unat (fst r') + unat (snd r') \<le> unat (fst r)"

lemma history_apart:
  assumes inv: "malloc_inv s own pl A M" and h: "history_ok s L bs own" and ij: "i < length L" "j < length L" "i \<noteq> j"
  shows "ranges_apart (L ! i) (L ! j)"
proof -
  have len: "length bs = length L" using h by (auto simp: history_ok_def dest: list_all2_lengthD)
  obtain p n where p: "bs ! i = (p, n)" by (cases "bs ! i")
  obtain q r where q: "bs ! j = (q, r)" by (cases "bs ! j")
  have "holds_block (L ! i) (bs ! i)" "holds_block (L ! j) (bs ! j)" using h ij by (auto simp: history_ok_def intro: list_all2_nthD)
  then have ho: "holds_block (L ! i) (p, n)" "holds_block (L ! j) (q, r)" by (simp_all add: p q)
  have b: "(p, n) \<in> blocks own" "(q, r) \<in> blocks own"
    using h ij len p q nth_mem [of i bs] nth_mem [of j bs] by (simp_all add: history_ok_def)
  have "p \<noteq> q"
  proof
    assume "p = q"
    then have "bs ! i = bs ! j" using p q blocks_fst [OF inv b(1)] b(2) by simp
    then show False using h ij len nth_eq_iff_index_eq [of bs i j] by (simp add: history_ok_def)
  qed
  then have "p + n \<le> q \<or> q + r \<le> p" by (rule heap_blocks_disjoint [OF inv b])
  moreover have "p < VIRT_PAGES * 4096" "q < VIRT_PAGES * 4096" using block_in_window [OF inv b(1)] block_in_window [OF inv b(2)] by simp_all
  ultimately show ?thesis using ho win_unat [of p] win_unat [of q] by (auto simp: ranges_apart_def holds_block_def)
qed

section \<open>The promises\<close>

text \<open>The machine of the page allocator's examples, before the first call.\<close>

definition tiny_heap :: slab where "tiny_heap = malloc_start (\<lambda>a. 0) tiny_vm 0x9000"

lemma tiny_heap_inv: "malloc_inv tiny_heap Map.empty (\<lambda>i. []) Map.empty {}" "blocks Map.empty = {}"
  unfolding tiny_heap_def by (rule malloc_start_inv [OF tiny_inv])+

lemma tiny_large: "\<exists>a s. malloc 5000 tiny_heap = Some (Inr (a, s))"
proof -
  obtain a v where v: "vmm_alloc_pages 3 tiny_vm = Inr (a, v)" using tiny_alloc [of 3] by auto
  have "svm tiny_heap = tiny_vm" by (simp add: tiny_heap_def malloc_start_def)
  then show ?thesis using v by (simp add: malloc_def large_alloc_def SLAB_MAX_SIZE_def PAGE_SIZE_def Let_def)
qed

lemma tiny_block:
  obtains p n s own pl A where "malloc 5000 tiny_heap = Some (Inr (win p, s))" "malloc_inv s own pl A {}" "blocks own = {(p, n)}"
    "5000 \<le> n" "p mod 4096 = 0"
proof -
  obtain a s0 where m: "malloc 5000 tiny_heap = Some (Inr (a, s0))" using tiny_large by blast
  have nz: "0 < unat (5000 :: u32)" "unat (5000 :: u32) + 8191 < 4294967296" by simp_all
  have "malloc 5000 tiny_heap = Some (large_alloc 5000 tiny_heap)" by (simp add: malloc_def SLAB_MAX_SIZE_def)
  show thesis
  proof (rule malloc_cases [OF tiny_heap_inv(1) nz])
    fix p n s own pl A
    assume x: "malloc 5000 tiny_heap = Some (Inr (win p, s))" "malloc_inv s own pl A {}" "unat (5000 :: u32) \<le> n"
      "heap_took tiny_heap Map.empty p n s own"
    have b: "blocks own = {(p, n)}" using x(4) tiny_heap_inv(2) by (simp add: heap_took_def)
    then have pn: "(p, n) \<in> blocks own" by simp
    have "p mod 4096 = 0"
      using x(2) pn
    proof (cases rule: block_pages)
      case (slab k i j)
      then show ?thesis using csize_bounds [OF slab(2)] x(3) by simp
    next
      case (pages k c)
      show ?thesis unfolding pages(2) by simp
    qed
    then show thesis using that x(1-3) b by simp
  qed (use m in simp)
qed



text \<open>
  C11: \<open>free\<close> of a block in use removes exactly that block and keeps every byte of the others, also when the
  page of a small block is given back to the page allocator.
\<close>

theorem free_correct:
  assumes "malloc_inv s own pl A M" "(p, n) \<in> blocks own"
  shows "\<exists>s' own' pl' A'. free (win p) s = Some (Inr s') \<and> malloc_inv s' own' pl' A' M
    \<and> blocks own' = blocks own - {(p, n)} \<and> (\<forall>(q, r) \<in> blocks own'. same_bytes (smem s) (smem s') q r)"
  using free_block [OF assms] unfolding slab_gave_def by metis

theorem free_correct_witness:
  "\<exists>a s s'. malloc 5000 tiny_heap = Some (Inr (a, s)) \<and> free a s = Some (Inr s')"
proof -
  obtain p n s own pl A where b: "malloc 5000 tiny_heap = Some (Inr (win p, s))" "malloc_inv s own pl A {}" "blocks own = {(p, n)}"
    by (rule tiny_block)
  have "(p, n) \<in> blocks own" by (simp add: b(3))
  from free_correct [OF b(2) this] show ?thesis using b(1) by blast
qed

text \<open>
  C12: \<open>realloc\<close> of a block in use returns a block of at least the new size that holds the old contents up to the
  smaller size, keeps every byte of the other blocks, and leaves no trace of the old block.
\<close>

theorem realloc_correct:
  assumes "malloc_inv s own pl A M" "(p, n) \<in> blocks own" "fair_size sz"
  shows "realloc (win p) sz s = Some (Inl (VmPanic OutOfPages)) \<or>
    (\<exists>q r s' own' pl' A'. realloc (win p) sz s = Some (Inr (win q, s')) \<and> malloc_inv s' own' pl' A' M \<and> unat sz \<le> r
      \<and> blocks own' = insert (q, r) (blocks own - {(p, n)})
      \<and> (\<forall>i < min n (unat sz). smem s' (win (q + i)) = smem s (win (p + i)))
      \<and> (\<forall>(p', n') \<in> blocks own - {(p, n)}. same_bytes (smem s) (smem s') p' n'))"
proof -
  have sz: "0 < unat sz" "unat sz + 8191 < 4294967296" using assms(3) by (simp_all add: fair_size_def)
  show ?thesis
  proof (rule realloc_cases [OF assms(1,2) sz])
    assume k: "realloc (win p) sz s = Some (Inr (win p, s))" "unat sz \<le> n"
    have "insert (p, n) (blocks own - {(p, n)}) = blocks own" using assms(2) by auto
    then have b: "blocks own = insert (p, n) (blocks own - {(p, n)})" by simp
    show ?thesis
    proof (intro disjI2 exI conjI)
      show "realloc (win p) sz s = Some (Inr (win p, s))" by (rule k(1))
      show "malloc_inv s own pl A M" by (rule assms(1))
      show "unat sz \<le> n" by (rule k(2))
      show "blocks own = insert (p, n) (blocks own - {(p, n)})" by (rule b)
    qed auto
  next
    fix q r s' own' pl' A'
    assume m: "realloc (win p) sz s = Some (Inr (win q, s'))" "malloc_inv s' own' pl' A' M" "unat sz \<le> r" "(q, r) \<notin> blocks own"
      "blocks own' = insert (q, r) (blocks own - {(p, n)})"
      "\<And>i. i < min n (unat sz) \<Longrightarrow> smem s' (win (q + i)) = smem s (win (p + i))"
      "\<And>p' n'. (p', n') \<in> blocks own - {(p, n)} \<Longrightarrow> same_bytes (smem s) (smem s') p' n'"
    show ?thesis
    proof (intro disjI2 exI conjI)
      show "realloc (win p) sz s = Some (Inr (win q, s'))" by (rule m(1))
      show "malloc_inv s' own' pl' A' M" by (rule m(2))
      show "unat sz \<le> r" by (rule m(3))
      show "blocks own' = insert (q, r) (blocks own - {(p, n)})" by (rule m(5))
      show "\<forall>i < min n (unat sz). smem s' (win (q + i)) = smem s (win (p + i))" using m(6) by blast
      show "\<forall>(p', n') \<in> blocks own - {(p, n)}. same_bytes (smem s) (smem s') p' n'" using m(7) by blast
    qed
  qed auto
qed

theorem realloc_correct_witness:
  "\<exists>p s r. malloc 5000 tiny_heap = Some (Inr (win p, s)) \<and> realloc (win p) 6000 s = r
    \<and> (r = Some (Inl (VmPanic OutOfPages)) \<or> (\<exists>q s'. r = Some (Inr (win q, s')) \<and> smem s' (win (q + 100)) = smem s (win (p + 100))))"
proof -
  obtain p n s own pl A where b: "malloc 5000 tiny_heap = Some (Inr (win p, s))" "malloc_inv s own pl A {}" "blocks own = {(p, n)}" "5000 \<le> n"
    by (rule tiny_block)
  have pn: "(p, n) \<in> blocks own" by (simp add: b(3))
  have f: "fair_size 6000" by (simp add: fair_size_def)
  have i: "100 < min n (unat (6000 :: u32))" using b(4) by simp
  from realloc_correct [OF b(2) pn f] show ?thesis
  proof (elim disjE exE conjE)
    assume "realloc (win p) 6000 s = Some (Inl (VmPanic OutOfPages))"
    then show ?thesis using b(1) by blast
  next
    fix q r s' own' pl' A'
    assume "realloc (win p) 6000 s = Some (Inr (win q, s'))" "\<forall>i < min n (unat (6000 :: u32)). smem s' (win (q + i)) = smem s (win (p + i))"
    then show ?thesis using b(1) i by blast
  qed
qed

text \<open>
  C13: In every history of calls, with the clients writing anywhere in their allocations, live allocations
  never overlap, every call of \<open>malloc\<close> returns or runs out of pages, every live pointer can be freed, and the
  checks for corrupted slots and double frees never fire.
\<close>

theorem heap_history_safe:
  assumes "heap_history s L"
  shows "(\<forall>i j. i < length L \<and> j < length L \<and> i \<noteq> j \<longrightarrow> ranges_apart (L ! i) (L ! j))
    \<and> (\<forall>sz. fair_size sz \<longrightarrow> malloc sz s = Some (Inl (VmPanic OutOfPages)) \<or> (\<exists>r. malloc sz s = Some (Inr r)))
    \<and> (\<forall>(a, sz) \<in> set L. \<exists>s'. free a s = Some (Inr s'))"
proof -
  obtain own pl A M bs where inv: "malloc_inv s own pl A M" and h: "history_ok s L bs own"
    using heap_history_inv [OF assms] by blast
  have "malloc sz s = Some (Inl (VmPanic OutOfPages)) \<or> (\<exists>r. malloc sz s = Some (Inr r))" if "fair_size sz" for sz
    by (rule malloc_cases [OF inv, of sz]) (use that in \<open>auto simp: fair_size_def\<close>)
  moreover have "\<exists>s'. free a s = Some (Inr s')" if r: "(a, sz) \<in> set L" for a sz
  proof -
    obtain i where i: "i < length L" "L ! i = (a, sz)" using r by (auto simp: in_set_conv_nth)
    have len: "length bs = length L" using h by (auto simp: history_ok_def dest: list_all2_lengthD)
    obtain p n where p: "bs ! i = (p, n)" by (cases "bs ! i")
    have "a = win p" using h i p list_all2_nthD [of holds_block L bs i] by (simp add: history_ok_def holds_block_def)
    moreover have "(p, n) \<in> blocks own" using h i len p nth_mem [of i bs] by (simp add: history_ok_def)
    ultimately show ?thesis using free_block [OF inv] by blast
  qed
  ultimately show ?thesis using history_apart [OF inv h] by blast
qed

theorem heap_history_safe_witness:
  "\<exists>a s s'. heap_history s [(a, 5000)] \<and> free a s = Some (Inr s')"
proof -
  obtain p n s own pl A where b: "malloc 5000 tiny_heap = Some (Inr (win p, s))"
    by (rule tiny_block)
  have f: "fair_size 5000" by (simp add: fair_size_def)
  have "heap_history tiny_heap []" unfolding tiny_heap_def by (rule heap_history.start [OF tiny_inv])
  then have h: "heap_history s [(win p, 5000)]" by (rule heap_history.alloc [OF _ f b])
  from heap_history_safe [OF h] show ?thesis using h by auto
qed

text \<open>
  C14: Freeing a small block twice is detected while its page still holds another block: the second call
  panics with the pointer and does not touch the heap.
\<close>

theorem double_free_detected:
  assumes "malloc_inv s own pl A M" "(p, n) \<in> blocks own" "p mod 4096 \<noteq> 0" "free (win p) s = Some (Inr s1)"
    and "(q, r) \<in> blocks own" "q \<noteq> p" "q div 4096 = p div 4096"
  shows "free (win p) s1 = Some (Inl (DoubleFree (win p)))"
proof -
  obtain own1 pl1 A1 where inv1: "malloc_inv s1 own1 pl1 A1 M" and g: "slab_gave s own (p, n) s1 own1"
    using free_block [OF assms(1,2)] assms(4) by auto
  have q1: "(q, r) \<in> blocks own1" using g assms(5,6) by (auto simp: slab_gave_def)
  have pn: "(p, n) \<notin> blocks own1" using g by (auto simp: slab_gave_def)
  show ?thesis
    using assms(1,2)
  proof (cases rule: block_pages)
    case sp: (slab k i j)
    show ?thesis
      using inv1 q1
    proof (cases rule: block_pages)
      case sq: (slab k' i' j')
      have kk: "k' = k" using sp(8) sq(8) assms(7) by simp
      have ii: "i' = i"
        using assms(1,5)
      proof (cases rule: block_pages)
        case so: (slab k2 i2 j2)
        have "k2 = k" using so(8) sq(8) kk by simp
        then have "i2 = i" using so(1) sp(1) by (auto simp: is_slot_def)
        then have "csize i' = csize i" using so(5) sq(5) by simp
        then show ?thesis using csize_cases [OF sp(2)] csize_cases [OF sq(2)] by (auto simp: csize_def)
      next
        case lo: (pages k2 c)
        have "q mod 4096 = 0" unfolding lo(2) by simp
        moreover have "0 < slot_off (csize i') j'" "slot_off (csize i') j' < 4096"
          using sq(5,6) csize_bounds [OF sq(2)] by (simp_all add: slot_off_def)
        moreover have "q mod 4096 = slot_off (csize i') j'" unfolding sq(4) using calculation(3) by simp
        ultimately show ?thesis by simp
      qed
      obtain fl where fl: "own1 k = Some (SlabPage i fl)" using sq(1) kk ii by (auto simp: is_slot_def)
      have "\<not> is_slot own1 k i j" using pn blocks.small [of own1 k i j] sp(4,5) by auto
      then have jf: "j \<in> set fl" using fl sp(3) by (auto simp: is_slot_def)
      note os = csize_bounds [OF sp(2)]
      have ptr: "win p = slot k (csize i) j" by (simp add: sp(4) win_page slot_def)
      have so: "slot_off (csize i) j < 4096" "0 < slot_off (csize i) j" using sp(5,6) os by (simp_all add: slot_off_def)
      have "slot k (csize i) j AND (PAGE_SIZE - 1) = of_nat (slot_off (csize i) j)"
        unfolding slot_def by (rule at_page_mask(2) [OF sp(7) so(1)])
      moreover have "unat (of_nat (slot_off (csize i) j) :: u32) \<noteq> 0" using so by (simp add: unat_of_nat_u32)
      ultimately have al: "slot k (csize i) j AND (PAGE_SIZE - 1) \<noteq> 0" by auto
      have nz: "slot k (csize i) j \<noteq> 0" using slot_nonzero [OF sp(7) _ sp(3)] os by simp
      show ?thesis
        unfolding ptr free_def if_not_P [OF nz] if_not_P [OF al] Let_def by (rule slab_double_free [OF inv1 fl jf])
    next
      case lq: (pages k' c)
      have "q mod 4096 = 0" unfolding lq(2) by simp
      show ?thesis
        using assms(1,5)
      proof (cases rule: block_pages)
        case so: (slab k2 i2 j2)
        have "0 < slot_off (csize i2) j2" "slot_off (csize i2) j2 < 4096"
          using so(5,6) csize_bounds [OF so(2)] by (simp_all add: slot_off_def)
        moreover have "q mod 4096 = slot_off (csize i2) j2" unfolding so(4) using calculation(2) by simp
        ultimately show ?thesis using \<open>q mod 4096 = 0\<close> by simp
      next
        case lo: (pages k2 c2)
        have "own (Suc k2) = Some (LargeBody k2)" using malloc_invD(15) [OF assms(1) lo(1), of 1] lo(4) by simp
        moreover have "q div 4096 = Suc k2" unfolding lo(2) by simp
        moreover obtain f where "own k = Some (SlabPage i f)" using sp(1) by (auto simp: is_slot_def)
        ultimately show ?thesis using sp(8) assms(7) by simp
      qed
    qed
  next
    case (pages k c)
    then show ?thesis using assms(3) by simp
  qed
qed

text \<open>Two small blocks of the same page.\<close>

lemma tiny_small:
  obtains k s1 s2 own pl A where "malloc 100 tiny_heap = Some (Inr (slot k 128 0, s1))" "malloc 100 s1 = Some (Inr (slot k 128 1, s2))"
    "malloc_inv s2 own pl A {}" "own k = Some (SlabPage 3 [2..<31])" "k < VIRT_PAGES"
proof -
  have c3: "csize 3 = 128" "nslots 128 = 31" by (simp_all add: csize_def nslots_def)
  have small: "malloc 100 s = slab_alloc (cache_at 3 s) s" if "malloc_inv s own pl A M" for s own pl A M
    using that
  proof (cases rule: choose_cache_cases [where sz = 100])
    case (found i)
    have "i = 3" using found(3) csize_cases [OF found(2)] found(4) [of 3] by (auto simp: csize_def)
    then show ?thesis using found(1) by (simp add: malloc_def SLAB_MAX_SIZE_def)
  qed simp
  obtain r where v: "vmm_alloc_pages 1 (svm tiny_heap) = Inr r"
    using tiny_alloc [of 1] by (auto simp: tiny_heap_def malloc_start_def)
  have i: "(3 :: nat) < 6" by simp
  show thesis
  proof (rule slab_alloc_new [OF tiny_heap_inv(1) i])
    fix k f :: nat and s1
    let ?own = "Map.empty(k \<mapsto> SlabPage 3 [1..<nslots (csize 3)])"
    assume a: "slab_alloc (cache_at 3 tiny_heap) tiny_heap = Some (Inr (slot k (csize 3) 0, s1))"
      "malloc_inv s1 ?own ((\<lambda>i. [])(3 := [k])) (Map.empty(k \<mapsto> f)) {}"
    have own: "?own k = Some (SlabPage 3 (1 # [2..<31]))"
      using upt_conv_Cons [of 1 31, unfolded Suc_1] by (simp only: c3 fun_upd_same)
    have kv: "k < VIRT_PAGES" by (rule malloc_invD(3) [OF a(2) own])
    have "pword (smem s1) k 0 = slot k 128 1" using malloc_invD(11) [OF a(2) own] by (simp add: slab_page_def c3)
    moreover have "slot k 128 1 \<noteq> 0" using kv by (intro slot_nonzero) (simp_all add: nslots_def)
    ultimately have dw: "dropWhile (\<lambda>k. pword (smem s1) k 0 = 0) (((\<lambda>i. [])(3 := [k])) 3) = k # []" by simp
    show thesis
    proof (rule slab_alloc_used [OF a(2) i dw])
      fix j :: nat and fl s2
      assume b: "?own k = Some (SlabPage 3 (j # fl))" "slab_alloc (cache_at 3 s1) s1 = Some (Inr (slot k (csize 3) j, s2))"
        "malloc_inv s2 (?own(k \<mapsto> SlabPage 3 fl)) ((\<lambda>i. [])(3 := [k])) (Map.empty(k \<mapsto> f)) {}"
      have "j = 1" "fl = [2..<31]" using b(1) own by simp_all
      then show thesis
        using that [of k s1 s2 "?own(k \<mapsto> SlabPage 3 fl)"] small [OF tiny_heap_inv(1)] small [OF a(2)] a(1) b(2,3) kv by (simp add: c3)
    qed
  next
    assume "vmm_alloc_pages 1 (svm tiny_heap) = Inl OutOfPages"
    then show thesis using v by simp
  qed simp
qed

theorem double_free_detected_witness:
  "\<exists>a b s1 s2 s3. malloc 100 tiny_heap = Some (Inr (a, s1)) \<and> malloc 100 s1 = Some (Inr (b, s2))
    \<and> free a s2 = Some (Inr s3) \<and> free a s3 = Some (Inl (DoubleFree a))"
proof -
  obtain k s1 s2 own pl A where t: "malloc 100 tiny_heap = Some (Inr (slot k 128 0, s1))" "malloc 100 s1 = Some (Inr (slot k 128 1, s2))"
    "malloc_inv s2 own pl A {}" "own k = Some (SlabPage 3 [2..<31])" "k < VIRT_PAGES" by (rule tiny_small)
  have c3: "csize 3 = 128" "nslots 128 = 31" by (simp_all add: csize_def nslots_def)
  have b: "(k * 4096 + slot_off 128 0, 128) \<in> blocks own" "(k * 4096 + slot_off 128 1, 128) \<in> blocks own"
    using blocks.small [of own k 3 0] blocks.small [of own k 3 1] t(4) by (simp_all add: is_slot_def c3)
  have w: "win (k * 4096 + slot_off 128 0) = slot k 128 0" by (simp add: win_page slot_def)
  obtain s3 where f: "free (slot k 128 0) s2 = Some (Inr s3)" using free_block [OF t(3) b(1)] w by auto
  have "free (win (k * 4096 + slot_off 128 0)) s3 = Some (Inl (DoubleFree (win (k * 4096 + slot_off 128 0))))"
    by (rule double_free_detected [OF t(3) b(1) _ _ b(2)]) (use f w in \<open>simp_all add: slot_off_def\<close>)
  then show ?thesis using t(1,2) f w by auto
qed

end
