(* ===== verification/AvrHeap.thy ===== *)
theory AvrHeap
  imports BlockAlloc
begin

text \<open>
  The kernel heap of the AVR build, \<open>kernel/arch/avr/heap.c\<close>. The pool lies in external memory behind the
  multiplexed bus; the bitmap and its optional dirty map lie in SRAM, in buffers the boot code hands over,
  and are written to the first bytes of the pool on request only. Addresses of payloads are relative to
  the heap, headers are packed to eight bytes, and no lock is taken. Functions that share a name with the
  x86 heap carry the suffix \<open>_avr\<close>.
\<close>

section \<open>State and bus\<close>

text \<open>
  \<open>xram\<close> is what the devices on the bus hold. \<open>mmio_writeb\<close> and \<open>mmio_readb\<close> latch three bytes of the
  address, so the bus sees it modulo \<open>2 ^ 24\<close>; the wait states only delay the strobe. A NULL buffer is
  \<open>None\<close>; a buffer is a function from the index, because the code never knows its length.
\<close>

record avr_heap =
  avr_block_size :: u32
  avr_pool_size :: u32
  avr_block_count :: u32
  avr_bitmap_size :: u32
  avr_reserved_blocks :: u32
  avr_bitmap :: "(u32 \<Rightarrow> u8) option"
  avr_dirty :: "(u32 \<Rightarrow> u8) option"
  avr_heap_begin :: u32
  xram :: memory

definition AVR_NULL :: u32 where "AVR_NULL = 0xFFFFFFFF"
definition AVR_MAGIC :: u8 where "AVR_MAGIC = 0x55"
definition AVR_HEADER_SIZE :: u32 where "AVR_HEADER_SIZE = 8"

text \<open>\<open>struct KMallocHeader\<close> is packed: eight bytes of fields.\<close>

record avr_header =
  ah_size :: u32
  ah_flags :: u8
  ah_type :: u8
  ah_perm :: u8
  ah_magic :: u8

definition bus_address :: "u32 \<Rightarrow> u32" where
  "bus_address a = a AND 0xFFFFFF"

definition mmio_writeb :: "u32 \<Rightarrow> u8 \<Rightarrow> avr_heap \<Rightarrow> avr_heap" where
  "mmio_writeb a v h = h\<lparr>xram := (xram h)(bus_address a := v)\<rparr>"

definition mmio_readb :: "u32 \<Rightarrow> avr_heap \<Rightarrow> u8" where
  "mmio_readb a h = xram h (bus_address a)"

definition heap_data_begin_avr :: "avr_heap \<Rightarrow> u32" where
  "heap_data_begin_avr h = avr_reserved_blocks h * avr_block_size h"

definition heap_data_size_avr :: "avr_heap \<Rightarrow> u32" where
  "heap_data_size_avr h =
     (if avr_pool_size h \<le> heap_data_begin_avr h then 0 else avr_pool_size h - heap_data_begin_avr h)"

section \<open>Bitmap and dirty map\<close>

text \<open>A loop that clears the first \<open>avr_bitmap_size\<close> bytes of a buffer.\<close>

definition clear_buffer :: "u32 \<Rightarrow> (u32 \<Rightarrow> u8) \<Rightarrow> u32 \<Rightarrow> u8" where
  "clear_buffer n f = (\<lambda>i. if i < n then 0 else f i)"

definition kmalloc_bitmap_set_avr :: "(u32 \<Rightarrow> u8) option \<Rightarrow> (u32 \<Rightarrow> u8) option \<Rightarrow> avr_heap \<Rightarrow> avr_heap" where
  "kmalloc_bitmap_set_avr bitmap dirty h =
     h\<lparr>avr_bitmap := bitmap, avr_dirty := map_option (clear_buffer (avr_bitmap_size h)) dirty\<rparr>"

definition heap_set_base_address_avr :: "u32 \<Rightarrow> avr_heap \<Rightarrow> avr_heap" where
  "heap_set_base_address_avr base h = h\<lparr>avr_heap_begin := base\<rparr>"

definition heap_get_base_address_avr :: "avr_heap \<Rightarrow> u32" where
  "heap_get_base_address_avr h = avr_heap_begin h"

definition mark_dirty_avr :: "u32 \<Rightarrow> avr_heap \<Rightarrow> avr_heap" where
  "mark_dirty_avr i h = h\<lparr>avr_dirty := map_option (\<lambda>f. f(i := 1)) (avr_dirty h)\<rparr>"

definition bitmap_write_step_avr :: "nat \<Rightarrow> avr_heap \<Rightarrow> avr_heap" where
  "bitmap_write_step_avr i h =
     (case (avr_bitmap h, avr_dirty h) of
        (None, _) \<Rightarrow> h
      | (Some f, None) \<Rightarrow> mmio_writeb (avr_heap_begin h + of_nat i) (f (of_nat i)) h
      | (Some f, Some d) \<Rightarrow>
          if d (of_nat i) = 0 then h
          else (mmio_writeb (avr_heap_begin h + of_nat i) (f (of_nat i)) h)\<lparr>avr_dirty := Some (d(of_nat i := 0))\<rparr>)"

definition kmalloc_bitmap_write_avr :: "avr_heap \<Rightarrow> avr_heap" where
  "kmalloc_bitmap_write_avr h =
     (if avr_bitmap h = None then h else fold bitmap_write_step_avr [0..<unat (avr_bitmap_size h)] h)"

definition kmalloc_bitmap_read_avr :: "avr_heap \<Rightarrow> avr_heap" where
  "kmalloc_bitmap_read_avr h =
     (case avr_bitmap h of
        None \<Rightarrow> h
      | Some f \<Rightarrow>
          h\<lparr>avr_bitmap := Some (\<lambda>i. if i < avr_bitmap_size h then mmio_readb (avr_heap_begin h + i) h else f i),
            avr_dirty := map_option (clear_buffer (avr_bitmap_size h)) (avr_dirty h)\<rparr>)"

section \<open>Access to the pool\<close>

definition kmem_write8 :: "u32 \<Rightarrow> u8 \<Rightarrow> avr_heap \<Rightarrow> avr_heap" where
  "kmem_write8 a v h = mmio_writeb (avr_heap_begin h + a) v h"

definition kmem_read8 :: "u32 \<Rightarrow> avr_heap \<Rightarrow> u8" where
  "kmem_read8 a h = mmio_readb (avr_heap_begin h + a) h"

definition kmem_write32 :: "u32 \<Rightarrow> u32 \<Rightarrow> avr_heap \<Rightarrow> avr_heap" where
  "kmem_write32 a v h =
     (let h1 = kmem_write8 a (ucast (v AND 0xFF)) h;
          h2 = kmem_write8 (a + 1) (ucast (drop_bit 8 v AND 0xFF)) h1;
          h3 = kmem_write8 (a + 2) (ucast (drop_bit 16 v AND 0xFF)) h2
      in kmem_write8 (a + 3) (ucast (drop_bit 24 v AND 0xFF)) h3)"

definition kmem_read32 :: "u32 \<Rightarrow> avr_heap \<Rightarrow> u32" where
  "kmem_read32 a h =
     (((ucast (kmem_read8 a h) OR push_bit 8 (ucast (kmem_read8 (a + 1) h)))
       OR push_bit 16 (ucast (kmem_read8 (a + 2) h))) OR push_bit 24 (ucast (kmem_read8 (a + 3) h)))"

definition header_write_avr :: "u32 \<Rightarrow> avr_header \<Rightarrow> avr_heap \<Rightarrow> avr_heap" where
  "header_write_avr a hdr h =
     (let h1 = kmem_write32 a (ah_size hdr) h;
          h2 = kmem_write8 (a + 4) (ah_flags hdr) h1;
          h3 = kmem_write8 (a + 5) (ah_type hdr) h2;
          h4 = kmem_write8 (a + 6) (ah_perm hdr) h3
      in kmem_write8 (a + 7) (ah_magic hdr) h4)"

definition header_read_avr :: "u32 \<Rightarrow> avr_heap \<Rightarrow> avr_header" where
  "header_read_avr a h =
     \<lparr> ah_size = kmem_read32 a h, ah_flags = kmem_read8 (a + 4) h, ah_type = kmem_read8 (a + 5) h,
       ah_perm = kmem_read8 (a + 6) h, ah_magic = kmem_read8 (a + 7) h \<rparr>"

definition blocks_required_avr :: "u32 \<Rightarrow> avr_heap \<Rightarrow> u32" where
  "blocks_required_avr sz h = (if sz = 0 then 0 else (sz + (avr_block_size h - 1)) div avr_block_size h)"

text \<open>
  A NULL bitmap is refused before any of these three is reached; on it they have no effect here.
\<close>

definition block_is_used_avr :: "u32 \<Rightarrow> avr_heap \<Rightarrow> bool" where
  "block_is_used_avr i h =
     (case avr_bitmap h of None \<Rightarrow> False | Some f \<Rightarrow> f (i div 8) AND push_bit (unat (i mod 8)) 1 \<noteq> 0)"

definition bitmap_put_avr :: "u32 \<Rightarrow> u8 \<Rightarrow> avr_heap \<Rightarrow> avr_heap" where
  "bitmap_put_avr i v h = h\<lparr>avr_bitmap := map_option (\<lambda>f. f(i := v)) (avr_bitmap h)\<rparr>"

definition block_set_used_avr :: "u32 \<Rightarrow> avr_heap \<Rightarrow> avr_heap" where
  "block_set_used_avr i h =
     (case avr_bitmap h of
        None \<Rightarrow> h
      | Some f \<Rightarrow>
          let byte_index = i div 8; old_value = f byte_index;
              new_value = old_value OR push_bit (unat (i mod 8)) 1
          in if new_value \<noteq> old_value then mark_dirty_avr byte_index (bitmap_put_avr byte_index new_value h) else h)"

definition block_set_free_avr :: "u32 \<Rightarrow> avr_heap \<Rightarrow> avr_heap" where
  "block_set_free_avr i h =
     (case avr_bitmap h of
        None \<Rightarrow> h
      | Some f \<Rightarrow>
          let byte_index = i div 8; old_value = f byte_index;
              new_value = old_value AND NOT (push_bit (unat (i mod 8)) 1)
          in if new_value \<noteq> old_value then mark_dirty_avr byte_index (bitmap_put_avr byte_index new_value h) else h)"

section \<open>Operations\<close>

definition kmalloc_is_valid_avr :: "u32 \<Rightarrow> avr_heap \<Rightarrow> bool" where
  "kmalloc_is_valid_avr address h =
     (if address = AVR_NULL then False
      else if address < heap_data_begin_avr h + AVR_HEADER_SIZE then False
      else if address \<ge> avr_pool_size h then False
      else let header_address = address - AVR_HEADER_SIZE
           in if header_address < heap_data_begin_avr h then False
              else if header_address \<ge> avr_pool_size h then False
              else let header = header_read_avr header_address h
                   in if ah_magic header \<noteq> AVR_MAGIC then False
                      else if ah_size header = 0 then False
                      else let total_size = ah_size header + AVR_HEADER_SIZE;
                               required = blocks_required_avr total_size h;
                               start = header_address div avr_block_size h
                           in if required = 0 then False
                              else if start < avr_reserved_blocks h then False
                              else \<not> start + required > avr_block_count h)"

definition heap_get_block_size_avr :: "avr_heap \<Rightarrow> u32" where
  "heap_get_block_size_avr h = avr_block_size h"

definition heap_get_total_memory_avr :: "avr_heap \<Rightarrow> u32" where
  "heap_get_total_memory_avr h = avr_pool_size h"

definition heap_init_avr :: "u32 \<Rightarrow> u32 \<Rightarrow> avr_heap \<Rightarrow> avr_heap" where
  "heap_init_avr bsz total_memory h =
     (if bsz = 0 \<or> total_memory = 0
      then h\<lparr>avr_block_size := 0, avr_pool_size := 0, avr_block_count := 0, avr_bitmap_size := 0,
             avr_reserved_blocks := 0\<rparr>
      else let count = total_memory div bsz; bmsize = (count + 7) div 8;
               h1 = h\<lparr>avr_block_size := bsz, avr_pool_size := total_memory, avr_block_count := count,
                      avr_bitmap_size := bmsize, avr_reserved_blocks := (bmsize + bsz - 1) div bsz\<rparr>
           in case avr_bitmap h1 of
                None \<Rightarrow> h1
              | Some f \<Rightarrow>
                  kmalloc_bitmap_write_avr
                    (h1\<lparr>avr_bitmap := Some (clear_buffer bmsize f),
                        avr_dirty := map_option (clear_buffer bmsize) (avr_dirty h1)\<rparr>))"

definition kmalloc_avr :: "u32 \<Rightarrow> avr_heap \<Rightarrow> u32 \<times> avr_heap" where
  "kmalloc_avr sz h =
     (if sz = 0 then (AVR_NULL, h)
      else if avr_block_size h = 0 \<or> avr_pool_size h = 0 \<or> avr_bitmap h = None then (AVR_NULL, h)
      else let total_size = sz + AVR_HEADER_SIZE;
               required = blocks_required_avr total_size h
           in if required = 0 then (AVR_NULL, h)
              else if required > avr_block_count h - avr_reserved_blocks h then (AVR_NULL, h)
              else case first_fit (\<lambda>i. block_is_used_avr (of_nat i) h) (unat required)
                          [unat (avr_reserved_blocks h)..<unat (avr_block_count h)] 0 0 of
                     None \<Rightarrow> (AVR_NULL, h)
                   | Some start \<Rightarrow>
                       let h1 = apply_range (\<lambda>i. block_set_used_avr (of_nat i)) start (unat required) h;
                           header_address = of_nat start * avr_block_size h1;
                           payload_address = header_address + AVR_HEADER_SIZE;
                           header = \<lparr> ah_size = sz, ah_flags = 0, ah_type = 0, ah_perm = 0, ah_magic = AVR_MAGIC \<rparr>
                       in (payload_address, header_write_avr header_address header h1))"

definition kfree_avr :: "u32 \<Rightarrow> avr_heap \<Rightarrow> avr_heap" where
  "kfree_avr address h =
     (if \<not> kmalloc_is_valid_avr address h then h
      else let header_address = address - AVR_HEADER_SIZE;
               header = header_read_avr header_address h;
               total_size = ah_size header + AVR_HEADER_SIZE;
               required = blocks_required_avr total_size h;
               start = header_address div avr_block_size h
           in if start < avr_reserved_blocks h then h
              else if start + required > avr_block_count h then h
              else let h1 = header_write_avr header_address
                              \<lparr> ah_size = 0, ah_flags = 0, ah_type = 0, ah_perm = 0, ah_magic = 0 \<rparr> h
                   in apply_range (\<lambda>i. block_set_free_avr (of_nat i)) (unat start) (unat required) h1)"

text \<open>The getters and setters read the header, change one field and write it back.\<close>

definition get_header_avr :: "u32 \<Rightarrow> avr_heap \<Rightarrow> avr_header" where
  "get_header_avr address h = header_read_avr (address - AVR_HEADER_SIZE) h"

definition kmalloc_get_type_avr :: "u32 \<Rightarrow> avr_heap \<Rightarrow> u8" where
  "kmalloc_get_type_avr address h =
     (if \<not> kmalloc_is_valid_avr address h then 0 else ah_type (get_header_avr address h))"

definition kmalloc_set_type_avr :: "u32 \<Rightarrow> u8 \<Rightarrow> avr_heap \<Rightarrow> avr_heap" where
  "kmalloc_set_type_avr address v h =
     (if \<not> kmalloc_is_valid_avr address h then h
      else header_write_avr (address - AVR_HEADER_SIZE) ((get_header_avr address h)\<lparr>ah_type := v\<rparr>) h)"

definition kmalloc_get_flags_avr :: "u32 \<Rightarrow> avr_heap \<Rightarrow> u8" where
  "kmalloc_get_flags_avr address h =
     (if \<not> kmalloc_is_valid_avr address h then 0 else ah_flags (get_header_avr address h))"

definition kmalloc_set_flags_avr :: "u32 \<Rightarrow> u8 \<Rightarrow> avr_heap \<Rightarrow> avr_heap" where
  "kmalloc_set_flags_avr address v h =
     (if \<not> kmalloc_is_valid_avr address h then h
      else header_write_avr (address - AVR_HEADER_SIZE) ((get_header_avr address h)\<lparr>ah_flags := v\<rparr>) h)"

definition kmalloc_get_permissions_avr :: "u32 \<Rightarrow> avr_heap \<Rightarrow> u8" where
  "kmalloc_get_permissions_avr address h =
     (if \<not> kmalloc_is_valid_avr address h then 0 else ah_perm (get_header_avr address h))"

definition kmalloc_set_permissions_avr :: "u32 \<Rightarrow> u8 \<Rightarrow> avr_heap \<Rightarrow> avr_heap" where
  "kmalloc_set_permissions_avr address v h =
     (if \<not> kmalloc_is_valid_avr address h then h
      else header_write_avr (address - AVR_HEADER_SIZE) ((get_header_avr address h)\<lparr>ah_perm := v\<rparr>) h)"

definition kmalloc_get_size_avr :: "u32 \<Rightarrow> avr_heap \<Rightarrow> u32" where
  "kmalloc_get_size_avr address h =
     (if \<not> kmalloc_is_valid_avr address h then 0 else ah_size (get_header_avr address h))"

fun next_loop_avr :: "nat list \<Rightarrow> avr_heap \<Rightarrow> u32" where
  "next_loop_avr [] h = AVR_NULL"
| "next_loop_avr (i # rest) h =
     (if \<not> block_is_used_avr (of_nat i) h then next_loop_avr rest h
      else let header_address = of_nat i * avr_block_size h
           in if header_address < heap_data_begin_avr h then next_loop_avr rest h
              else let header = header_read_avr header_address h
                   in if ah_magic header \<noteq> AVR_MAGIC then next_loop_avr rest h
                      else if ah_size header = 0 then next_loop_avr rest h
                      else if header_address + AVR_HEADER_SIZE \<ge> avr_pool_size h then next_loop_avr rest h
                      else header_address + AVR_HEADER_SIZE)"

definition kmalloc_next_avr :: "u32 \<Rightarrow> avr_heap \<Rightarrow> u32" where
  "kmalloc_next_avr previous_address h =
     (if previous_address = AVR_NULL
      then next_loop_avr [unat (avr_reserved_blocks h)..<unat (avr_block_count h)] h
      else if \<not> kmalloc_is_valid_avr previous_address h then AVR_NULL
      else let header_address = previous_address - AVR_HEADER_SIZE;
               header = header_read_avr header_address h;
               total_size = ah_size header + AVR_HEADER_SIZE;
               used_blocks = blocks_required_avr total_size h;
               start = header_address div avr_block_size h + used_blocks
           in next_loop_avr [unat start..<unat (avr_block_count h)] h)"

definition kmem_write_avr :: "u32 \<Rightarrow> u8 list \<Rightarrow> avr_heap \<Rightarrow> avr_heap" where
  "kmem_write_avr destination source h =
     fold (\<lambda>i. kmem_write8 (destination + of_nat i) (source ! i)) [0..<length source] h"

definition kmemset_avr :: "u32 \<Rightarrow> u8 \<Rightarrow> u32 \<Rightarrow> avr_heap \<Rightarrow> avr_heap" where
  "kmemset_avr destination v sz h = fold (\<lambda>i. kmem_write8 (destination + of_nat i) v) [0..<unat sz] h"

definition kmem_read_avr :: "u32 \<Rightarrow> u32 \<Rightarrow> avr_heap \<Rightarrow> u8 list" where
  "kmem_read_avr source sz h = map (\<lambda>i. kmem_read8 (source + of_nat i) h) [0..<unat sz]"

end
