(* ===== verification/AvrHeapInv.thy ===== *)
theory AvrHeapInv
  imports AvrHeap
begin

text \<open>
  The AVR heap as an instance of the block allocator interface. The ghost map sends the first block of an
  allocation to its whole header, so the setters of the header fields are updates of the map.
\<close>

section \<open>Layout\<close>

text \<open>
  What \<open>heap_init\<close> establishes: headers fit into a block, the pool lies behind the 24 address lines, and
  the image of the bitmap ends before the first block that can be allocated.
\<close>

definition avr_layout :: "avr_heap \<Rightarrow> bool" where
  "avr_layout h \<longleftrightarrow>
     8 \<le> unat (avr_block_size h) \<and> unat (avr_heap_begin h) + unat (avr_pool_size h) \<le> 2 ^ 24
     \<and> unat (avr_block_count h) * unat (avr_block_size h) \<le> unat (avr_pool_size h)
     \<and> unat (avr_block_count h) \<le> 8 * unat (avr_bitmap_size h)
     \<and> unat (avr_reserved_blocks h) \<le> unat (avr_block_count h)
     \<and> unat (avr_bitmap_size h) \<le> unat (avr_reserved_blocks h) * unat (avr_block_size h)
     \<and> avr_pool_size h \<noteq> 0 \<and> avr_bitmap h \<noteq> None"

definition avr_cap :: "avr_heap \<Rightarrow> nat" where
  "avr_cap h = unat (avr_block_count h)"

definition avr_lo :: "avr_heap \<Rightarrow> nat" where
  "avr_lo h = unat (avr_reserved_blocks h)"

abbreviation avr_used :: "nat \<Rightarrow> avr_heap \<Rightarrow> bool" where
  "avr_used i h \<equiv> block_is_used_avr (of_nat i) h"

definition avr_blocks :: "avr_header \<Rightarrow> avr_heap \<Rightarrow> nat" where
  "avr_blocks z h = ceil_div (unat (ah_size z) + 8) (unat (avr_block_size h))"

definition avr_header_at :: "nat \<Rightarrow> avr_heap \<Rightarrow> avr_header" where
  "avr_header_at k h = header_read_avr (of_nat k * avr_block_size h) h"

definition avr_put_header :: "nat \<Rightarrow> avr_header \<Rightarrow> avr_heap \<Rightarrow> avr_heap" where
  "avr_put_header k z h = header_write_avr (of_nat k * avr_block_size h) z h"

text \<open>Everything but the bits: both buffers beyond the bitmap's bytes, and all of the external memory.\<close>

definition avr_rest :: "avr_heap \<Rightarrow> avr_heap" where
  "avr_rest h = h\<lparr>avr_bitmap := map_option (clear_buffer (avr_bitmap_size h)) (avr_bitmap h),
                  avr_dirty := map_option (clear_buffer (avr_bitmap_size h)) (avr_dirty h)\<rparr>"

lemma avr_rest_fields [simp]:
  "avr_block_size (avr_rest h) = avr_block_size h" "avr_pool_size (avr_rest h) = avr_pool_size h"
  "avr_block_count (avr_rest h) = avr_block_count h" "avr_bitmap_size (avr_rest h) = avr_bitmap_size h"
  "avr_reserved_blocks (avr_rest h) = avr_reserved_blocks h" "avr_heap_begin (avr_rest h) = avr_heap_begin h"
  "xram (avr_rest h) = xram h" "(avr_bitmap (avr_rest h) = None) = (avr_bitmap h = None)"
  "(avr_dirty (avr_rest h) = None) = (avr_dirty h = None)"
  by (simp_all add: avr_rest_def)

lemma avr_restD:
  assumes "avr_rest h' = avr_rest h"
  shows "avr_block_size h' = avr_block_size h" "avr_pool_size h' = avr_pool_size h"
    "avr_block_count h' = avr_block_count h" "avr_bitmap_size h' = avr_bitmap_size h"
    "avr_reserved_blocks h' = avr_reserved_blocks h" "avr_heap_begin h' = avr_heap_begin h"
    "xram h' = xram h" "(avr_bitmap h' = None) = (avr_bitmap h = None)" "(avr_dirty h' = None) = (avr_dirty h = None)"
  using assms by (metis avr_rest_fields)+

lemma avr_rest_config:
  assumes "avr_rest h' = avr_rest h"
  shows "avr_layout h' = avr_layout h" "avr_cap h' = avr_cap h" "avr_lo h' = avr_lo h"
    "avr_blocks z h' = avr_blocks z h" "avr_header_at k h' = avr_header_at k h"
  using avr_restD [OF assms]
  by (simp_all add: avr_layout_def avr_cap_def avr_lo_def avr_blocks_def avr_header_at_def header_read_avr_def
      kmem_read32_def kmem_read8_def mmio_readb_def)

section \<open>Bits\<close>

lemma avr_cap_bounds:
  assumes "avr_layout h" "i < avr_cap h"
  shows "i < 4294967296" "(of_nat (i div 8) :: u32) < avr_bitmap_size h" "i div 8 < 4294967296"
proof -
  show i: "i < 4294967296" using assms(2) unat_u32_less [of "avr_block_count h"] by (simp add: avr_cap_def)
  then show d: "i div 8 < 4294967296" by simp
  have "i div 8 < unat (avr_bitmap_size h)" using assms by (auto simp: avr_cap_def avr_layout_def)
  then show "(of_nat (i div 8) :: u32) < avr_bitmap_size h" using d by (simp add: word_less_nat_alt unat_of_nat_u32)
qed

lemma avr_used_bit:
  assumes "i < 4294967296" "avr_bitmap h = Some f"
  shows "avr_used i h = bit (f (of_nat (i div 8))) (i mod 8)"
  using block_index_word [OF assms(1)] assms(2) by (simp add: block_is_used_avr_def bit_mask_simps)

text \<open>Writing one byte of the bitmap, as both bit operations do.\<close>

lemma bitmap_put_props:
  assumes f: "avr_bitmap h = Some f" and b: "b < avr_bitmap_size h"
    and h': "h' = (if v \<noteq> f b then mark_dirty_avr b (bitmap_put_avr b v h) else h)"
  shows "avr_rest h' = avr_rest h" "avr_bitmap h' = Some (f(b := v))"
proof -
  have "clear_buffer (avr_bitmap_size h) (g(b := x)) = clear_buffer (avr_bitmap_size h) g" for g x
    using b by (auto simp: clear_buffer_def fun_eq_iff)
  then show "avr_rest h' = avr_rest h"
    by (simp add: h' avr_rest_def mark_dirty_avr_def bitmap_put_avr_def option.map_comp comp_def)
  show "avr_bitmap h' = Some (f(b := v))"
    using f by (auto simp: h' mark_dirty_avr_def bitmap_put_avr_def)
qed

lemma avr_bit_props:
  assumes l: "avr_layout h" and i: "i < avr_cap h"
  shows "avr_rest (block_set_used_avr (of_nat i) h) = avr_rest h"
    and "avr_rest (block_set_free_avr (of_nat i) h) = avr_rest h"
    and "j < avr_cap h \<Longrightarrow> avr_used j (block_set_used_avr (of_nat i) h) = (j = i \<or> avr_used j h)"
    and "j < avr_cap h \<Longrightarrow> avr_used j (block_set_free_avr (of_nat i) h) = (j \<noteq> i \<and> avr_used j h)"
proof -
  obtain f where f: "avr_bitmap h = Some f" using l by (auto simp: avr_layout_def)
  let ?b = "of_nat (i div 8) :: u32"
  note w = block_index_word [OF avr_cap_bounds(1) [OF l i]]
  note b = avr_cap_bounds(2) [OF l i]
  have u: "block_set_used_avr (of_nat i) h =
      (if f ?b OR 2 ^ (i mod 8) \<noteq> f ?b then mark_dirty_avr ?b (bitmap_put_avr ?b (f ?b OR 2 ^ (i mod 8)) h) else h)"
    using f w by (simp add: block_set_used_avr_def Let_def)
  have c: "block_set_free_avr (of_nat i) h =
      (if f ?b AND NOT (2 ^ (i mod 8)) \<noteq> f ?b
       then mark_dirty_avr ?b (bitmap_put_avr ?b (f ?b AND NOT (2 ^ (i mod 8))) h) else h)"
    using f w by (simp add: block_set_free_avr_def Let_def)
  note pu = bitmap_put_props [OF f b u]
  note pc = bitmap_put_props [OF f b c]
  show "avr_rest (block_set_used_avr (of_nat i) h) = avr_rest h" by (rule pu)
  show "avr_rest (block_set_free_avr (of_nat i) h) = avr_rest h" by (rule pc)
  assume j: "j < avr_cap h"
  note bj = avr_cap_bounds [OF l j]
  have same: "((of_nat (j div 8) :: u32) = ?b) = (j div 8 = i div 8)"
    using avr_cap_bounds(3) [OF l i] bj(3) by (rule of_nat_eq_u32 [rotated])
  show "avr_used j (block_set_used_avr (of_nat i) h) = (j = i \<or> avr_used j h)"
    using same same_bit [of j i]
    by (auto simp: avr_used_bit [OF bj(1) pu(2)] avr_used_bit [OF bj(1) f] bit_mask_simps)
  show "avr_used j (block_set_free_avr (of_nat i) h) = (j \<noteq> i \<and> avr_used j h)"
    using same same_bit [of j i]
    by (auto simp: avr_used_bit [OF bj(1) pc(2)] avr_used_bit [OF bj(1) f] bit_mask_simps)
qed

section \<open>The pool behind the bus\<close>

lemma bus_address_low: "unat a < 2 ^ 24 \<Longrightarrow> bus_address a = a"
proof -
  assume "unat a < 2 ^ 24"
  then have "unat (take_bit 24 a) = unat a" by (simp add: unsigned_take_bit_eq take_bit_nat_eq_self)
  then have "take_bit 24 a = a" by (simp only: word_unat_eq_iff)
  then show ?thesis by (simp add: bus_address_def take_bit_eq_mask mask_eq_exp_minus_1)
qed

lemma pool_address:
  assumes "avr_layout h" "a < unat (avr_pool_size h)"
  shows "unat (avr_heap_begin h + of_nat a) = unat (avr_heap_begin h) + a"
    "bus_address (avr_heap_begin h + of_nat a) = avr_heap_begin h + of_nat a"
proof -
  have a: "a < 4294967296" using assms(2) unat_u32_less [of "avr_pool_size h"] by simp
  then show u: "unat (avr_heap_begin h + of_nat a) = unat (avr_heap_begin h) + a"
    using assms by (subst unat_add_u32) (auto simp: avr_layout_def unat_of_nat_u32)
  show "bus_address (avr_heap_begin h + of_nat a) = avr_heap_begin h + of_nat a"
    using assms by (intro bus_address_low) (simp add: u avr_layout_def)
qed

text \<open>Bytes written to the pool at offset \<open>a\<close>.\<close>

definition pool_write :: "nat \<Rightarrow> u8 list \<Rightarrow> avr_heap \<Rightarrow> avr_heap" where
  "pool_write a bs h = h\<lparr>xram := mem_write (xram h) (avr_heap_begin h + of_nat a) bs\<rparr>"

definition pool_byte :: "avr_heap \<Rightarrow> nat \<Rightarrow> u8" where
  "pool_byte h a = xram h (avr_heap_begin h + of_nat a)"

lemma pool_write_fields [simp]:
  "avr_block_size (pool_write a bs h) = avr_block_size h" "avr_pool_size (pool_write a bs h) = avr_pool_size h"
  "avr_block_count (pool_write a bs h) = avr_block_count h" "avr_bitmap_size (pool_write a bs h) = avr_bitmap_size h"
  "avr_reserved_blocks (pool_write a bs h) = avr_reserved_blocks h" "avr_heap_begin (pool_write a bs h) = avr_heap_begin h"
  "avr_bitmap (pool_write a bs h) = avr_bitmap h" "avr_dirty (pool_write a bs h) = avr_dirty h"
  "avr_layout (pool_write a bs h) = avr_layout h" "avr_cap (pool_write a bs h) = avr_cap h"
  "avr_lo (pool_write a bs h) = avr_lo h" "avr_blocks z (pool_write a bs h) = avr_blocks z h"
  "block_is_used_avr i (pool_write a bs h) = block_is_used_avr i h"
  by (simp_all add: pool_write_def avr_layout_def avr_cap_def avr_lo_def avr_blocks_def block_is_used_avr_def)

lemma pool_write_byte:
  assumes "avr_layout h" "a + length bs \<le> unat (avr_pool_size h)" "b < unat (avr_pool_size h)"
  shows "pool_byte (pool_write a bs h) b = (if a \<le> b \<and> b < a + length bs then bs ! (b - a) else pool_byte h b)"
proof (cases "bs = []")
  case True
  then show ?thesis by (auto simp: pool_write_def pool_byte_def)
next
  case False
  then have a: "a < unat (avr_pool_size h)" using assms(2) by (cases bs) auto
  note u = pool_address(1) [OF assms(1) a] pool_address(1) [OF assms(1,3)]
  have le: "unat (avr_heap_begin h) + a + length bs \<le> 4294967296"
    using assms by (simp add: avr_layout_def)
  have "in_range (avr_heap_begin h + of_nat a) (length bs) (avr_heap_begin h + of_nat b) \<longleftrightarrow> a \<le> b \<and> b < a + length bs"
    using in_range_iff [of "avr_heap_begin h + of_nat a" "length bs" "avr_heap_begin h + of_nat b"] u le by auto
  moreover have "a \<le> b \<Longrightarrow> unat ((avr_heap_begin h + of_nat b) - (avr_heap_begin h + of_nat a)) = b - a"
    using u by (subst unat_sub_u32) simp_all
  moreover have "length bs \<le> 4294967296" using assms unat_u32_less [of "avr_pool_size h"] by simp
  ultimately show ?thesis by (simp add: pool_write_def pool_byte_def mem_write_apply)
qed

lemma kmem_write8_pool:
  assumes "avr_layout h" "a < unat (avr_pool_size h)"
  shows "kmem_write8 (of_nat a) v h = pool_write a [v] h"
  using pool_address(2) [OF assms] by (simp add: kmem_write8_def mmio_writeb_def pool_write_def)

lemma kmem_read8_pool:
  assumes "avr_layout h" "a < unat (avr_pool_size h)"
  shows "kmem_read8 (of_nat a) h = pool_byte h a"
  using pool_address(2) [OF assms] by (simp add: kmem_read8_def mmio_readb_def pool_byte_def)

lemma pool_write_append:
  "pool_write (a + length bs) cs (pool_write a bs h) = pool_write a (bs @ cs) h"
proof -
  have w: "mem_write (mem_write m x bs) (x + of_nat (length bs)) cs = mem_write m x (bs @ cs)" for m x
  proof (induction bs arbitrary: m x)
    case Nil
    then show ?case by simp
  next
    case (Cons b bs)
    have "x + of_nat (length (b # bs)) = x + 1 + of_nat (length bs)" by simp
    then show ?case using Cons [of "m(x := b)" "x + 1"] by (simp only: append_Cons mem_write.simps)
  qed
  have e: "avr_heap_begin h + of_nat (a + length bs) = avr_heap_begin h + of_nat a + of_nat (length bs)" by simp
  show ?thesis by (simp add: pool_write_def e w del: of_nat_add)
qed

section \<open>Headers\<close>

definition avr_header_bytes :: "avr_header \<Rightarrow> u8 list" where
  "avr_header_bytes z = word_le 4 (ah_size z) @ [ah_flags z, ah_type z, ah_perm z, ah_magic z]"

lemma length_avr_header_bytes [simp]: "length (avr_header_bytes z) = 8"
  by (simp add: avr_header_bytes_def)

lemma low_byte: "ucast (v AND 0xFF :: u32) = (ucast v :: u8)"
proof (rule bit_word_eqI)
  fix n
  assume n: "n < LENGTH(8)"
  have m: "(0xFF :: u32) = mask 8" by (simp add: mask_eq_exp_minus_1)
  show "bit (ucast (v AND 0xFF) :: u8) n = bit (ucast v :: u8) n"
    unfolding m using n by (simp add: bit_word_ucast_iff bit_and_iff bit_mask_iff)
qed

lemma header_write_pool:
  assumes l: "avr_layout h" and a: "a + 8 \<le> unat (avr_pool_size h)"
  shows "header_write_avr (of_nat a) z h = pool_write a (avr_header_bytes z) h"
proof -
  have step: "kmem_write8 (of_nat a + x) v (pool_write a bs h) = pool_write a (bs @ [v]) h"
    if "x = of_nat (length bs)" "length bs < 8" for x v bs
  proof -
    have "kmem_write8 (of_nat (a + length bs)) v (pool_write a bs h) = pool_write (a + length bs) [v] (pool_write a bs h)"
      using l a that by (intro kmem_write8_pool) simp_all
    then show ?thesis using that(1) by (simp add: pool_write_append)
  qed
  have first: "kmem_write8 (of_nat a) v h = pool_write a [v] h" for v
    using a by (intro kmem_write8_pool [OF l]) simp
  have bytes: "word_le 4 (ah_size z) =
      [ucast (ah_size z), ucast (drop_bit 8 (ah_size z)), ucast (drop_bit 16 (ah_size z)), ucast (drop_bit 24 (ah_size z))]"
    by (simp add: eval_nat_numeral drop_bit_drop_bit)
  show ?thesis
    unfolding header_write_avr_def kmem_write32_def Let_def low_byte
    by (simp add: first step avr_header_bytes_def bytes)
qed

definition pool_bytes :: "nat \<Rightarrow> nat \<Rightarrow> avr_heap \<Rightarrow> u8 list" where
  "pool_bytes a n h = map (\<lambda>i. pool_byte h (a + i)) [0..<n]"

definition avr_bytes_header :: "u8 list \<Rightarrow> avr_header" where
  "avr_bytes_header bs = \<lparr> ah_size = le_word (take 4 bs), ah_flags = bs ! 4, ah_type = bs ! 5, ah_perm = bs ! 6,
                           ah_magic = bs ! 7 \<rparr>"

lemma avr_bytes_header_bytes [byte_simps]: "avr_bytes_header (avr_header_bytes z) = z"
  by (simp add: avr_bytes_header_def avr_header_bytes_def nth_append)

lemma header_read_pool:
  assumes l: "avr_layout h" and a: "a + 8 \<le> unat (avr_pool_size h)"
  shows "header_read_avr (of_nat a) h = avr_bytes_header (pool_bytes a 8 h)"
proof -
  have r: "kmem_read8 (of_nat a + x) h = pool_byte h (a + i)" if "x = of_nat i" "i < 8" for x i
  proof -
    have "kmem_read8 (of_nat (a + i)) h = pool_byte h (a + i)" using l a that by (intro kmem_read8_pool) simp_all
    then show ?thesis using that(1) by simp
  qed
  have r0: "kmem_read8 (of_nat a) h = pool_byte h a" using r [of 0 0] by simp
  have 8: "[0..<8] = [0, 1, 2, 3, 4, 5, 6, 7]" by (simp add: upt_rec)
  have word: "kmem_read32 (of_nat a) h = le_word [pool_byte h a, pool_byte h (a + 1), pool_byte h (a + 2), pool_byte h (a + 3)]"
    by (simp add: kmem_read32_def r0 r [of 1 1] r [of 2 2] r [of 3 3] push_bit_or push_bit_push_bit or.assoc)
  show ?thesis
    by (simp add: header_read_avr_def avr_bytes_header_def pool_bytes_def 8 word
        r [of 4 4] r [of 5 5] r [of 6 6] r [of 7 7] del: le_word.simps)
qed


section \<open>Blocks\<close>

definition avr_offset :: "nat \<Rightarrow> avr_heap \<Rightarrow> nat" where
  "avr_offset k h = k * unat (avr_block_size h)"

lemma avr_offset_word: "of_nat k * avr_block_size h = of_nat (avr_offset k h)"
  by (simp add: avr_offset_def)

lemma avr_offset_mono: "k \<le> k' \<Longrightarrow> avr_offset k h \<le> avr_offset k' h"
  by (simp add: avr_offset_def)

lemma avr_offset_le:
  assumes "avr_layout h" "k \<le> avr_cap h"
  shows "avr_offset k h \<le> unat (avr_pool_size h)"
proof -
  have "avr_offset k h \<le> unat (avr_block_count h) * unat (avr_block_size h)"
    using assms(2) by (simp add: avr_offset_def avr_cap_def)
  then show ?thesis using assms(1) unfolding avr_layout_def by linarith
qed

lemma avr_offset_step:
  assumes "avr_layout h" "k < k'"
  shows "avr_offset k h + 8 \<le> avr_offset k' h"
proof -
  have "avr_offset k h + unat (avr_block_size h) \<le> avr_offset k' h"
    using avr_offset_mono [of "Suc k" k' h] assms(2) by (simp add: avr_offset_def)
  then show ?thesis using assms(1) by (simp add: avr_layout_def)
qed

lemma avr_block_fits: "avr_layout h \<Longrightarrow> k < avr_cap h \<Longrightarrow> avr_offset k h + 8 \<le> unat (avr_pool_size h)"
  using avr_offset_step [of h k "avr_cap h"] avr_offset_le [of h "avr_cap h"] by simp

lemma avr_put_pool:
  "avr_layout h \<Longrightarrow> k < avr_cap h \<Longrightarrow> avr_put_header k z h = pool_write (avr_offset k h) (avr_header_bytes z) h"
  unfolding avr_put_header_def avr_offset_word by (intro header_write_pool avr_block_fits)

lemma avr_header_at_pool:
  "avr_layout h \<Longrightarrow> k < avr_cap h \<Longrightarrow> avr_header_at k h = avr_bytes_header (pool_bytes (avr_offset k h) 8 h)"
  unfolding avr_header_at_def avr_offset_word by (intro header_read_pool avr_block_fits)

lemma avr_header_at_write:
  assumes l: "avr_layout h" and j: "j < avr_cap h" and a: "a + length bs \<le> unat (avr_pool_size h)"
  shows "a + length bs \<le> avr_offset j h \<or> avr_offset j h + 8 \<le> a \<Longrightarrow> avr_header_at j (pool_write a bs h) = avr_header_at j h"
    and "a = avr_offset j h \<Longrightarrow> bs = avr_header_bytes z \<Longrightarrow> avr_header_at j (pool_write a bs h) = z"
proof -
  note f = avr_block_fits [OF l j]
  have o: "avr_offset j (pool_write a bs h) = avr_offset j h" by (simp add: avr_offset_def)
  have h: "avr_header_at j (pool_write a bs h) = avr_bytes_header (pool_bytes (avr_offset j h) 8 (pool_write a bs h))"
    using avr_header_at_pool [of "pool_write a bs h" j] l j o by simp
  have byte: "pool_byte (pool_write a bs h) (avr_offset j h + i) =
      (if a \<le> avr_offset j h + i \<and> avr_offset j h + i < a + length bs then bs ! (avr_offset j h + i - a)
       else pool_byte h (avr_offset j h + i))" if "i < 8" for i
    using f that by (intro pool_write_byte [OF l a]) simp
  {
    assume "a + length bs \<le> avr_offset j h \<or> avr_offset j h + 8 \<le> a"
    then have "pool_bytes (avr_offset j h) 8 (pool_write a bs h) = pool_bytes (avr_offset j h) 8 h"
      unfolding pool_bytes_def using byte by (intro map_cong) auto
    then show "avr_header_at j (pool_write a bs h) = avr_header_at j h" using h avr_header_at_pool [OF l j] by simp
  }
  assume z: "a = avr_offset j h" "bs = avr_header_bytes z"
  have "pool_bytes (avr_offset j h) 8 (pool_write a bs h) = bs"
    using byte z by (intro nth_equalityI) (simp_all add: pool_bytes_def)
  then show "avr_header_at j (pool_write a bs h) = z" using h z by (simp add: byte_simps)
qed

interpretation avr_alloc: block_alloc avr_layout avr_cap "\<lambda>i. block_is_used_avr (of_nat i)"
  "\<lambda>i. block_set_used_avr (of_nat i)" "\<lambda>i. block_set_free_avr (of_nat i)" avr_rest
  avr_lo avr_blocks avr_header_at avr_put_header
proof unfold_locales
  fix s :: avr_heap and i j :: nat
  assume l: "avr_layout s" and i: "i < avr_cap s"
  note p = avr_bit_props [OF l i]
  show "j < avr_cap s \<Longrightarrow> avr_used j (block_set_used_avr (of_nat i) s) = (j = i \<or> avr_used j s)" by (rule p)
  show "j < avr_cap s \<Longrightarrow> avr_used j (block_set_free_avr (of_nat i) s) = (j \<noteq> i \<and> avr_used j s)" by (rule p)
  show "avr_rest (block_set_used_avr (of_nat i) s) = avr_rest s"
    "avr_rest (block_set_free_avr (of_nat i) s) = avr_rest s" by (rule p)+
  show "avr_layout (block_set_used_avr (of_nat i) s)" "avr_layout (block_set_free_avr (of_nat i) s)"
    "avr_cap (block_set_used_avr (of_nat i) s) = avr_cap s" "avr_cap (block_set_free_avr (of_nat i) s) = avr_cap s"
    using avr_rest_config [OF p(1)] avr_rest_config [OF p(2)] l by simp_all
next
  fix s z
  assume "avr_layout s"
  then show "0 < avr_blocks z s" by (auto simp: avr_blocks_def avr_layout_def intro!: ceil_div_pos)
next
  fix s :: avr_heap and k z y
  assume l: "avr_layout s" and k: "avr_lo s \<le> k" "k < avr_cap s"
  note w = avr_put_pool [OF l k(2)]
  show "avr_layout (avr_put_header k z s)" using l by (simp add: w)
  show "avr_cap (avr_put_header k z s) = avr_cap s \<and> avr_lo (avr_put_header k z s) = avr_lo s
      \<and> avr_blocks y (avr_put_header k z s) = avr_blocks y s" by (simp add: w)
  fix j
  show "avr_used j (avr_put_header k z s) = avr_used j s" by (simp add: w)
  assume j: "avr_lo s \<le> j" "j < avr_cap s"
  have a: "avr_offset k s + length (avr_header_bytes z) \<le> unat (avr_pool_size s)" using avr_block_fits [OF l k(2)] by simp
  show "avr_header_at j (avr_put_header k z s) = (if j = k then z else avr_header_at j s)"
  proof (cases "j = k")
    case True
    then show ?thesis using avr_header_at_write(2) [OF l j(2) a] w by simp
  next
    case False
    then have "avr_offset k s + 8 \<le> avr_offset j s \<or> avr_offset j s + 8 \<le> avr_offset k s"
      using avr_offset_step [OF l, of j k] avr_offset_step [OF l, of k j] by (meson nat_neq_iff)
    then show ?thesis using avr_header_at_write(1) [OF l j(2) a] False w by simp
  qed
next
  fix s s' :: avr_heap and y j
  assume "avr_layout s" "avr_layout s'" "avr_rest s' = avr_rest s"
  note c = avr_rest_config [OF this(3)]
  show "avr_cap s' = avr_cap s \<and> avr_lo s' = avr_lo s \<and> avr_blocks y s' = avr_blocks y s" using c by simp
  show "avr_header_at j s' = avr_header_at j s" using c by simp
qed

end
