(* ===== verification/AvrHeapOps.thy ===== *)
theory AvrHeapOps
  imports AvrHeapInv
begin

text \<open>
  What \<open>kmalloc\<close>, \<open>kfree\<close>, the accessors of the header fields, \<open>kmalloc_next\<close>, \<open>heap_init\<close> and the
  bitmap transfers of the AVR heap do, from the interpretation of the allocator interface.
\<close>

section \<open>The invariant\<close>

definition avr_inv :: "avr_heap \<Rightarrow> (nat \<rightharpoonup> avr_header) \<Rightarrow> bool" where
  "avr_inv h live \<longleftrightarrow>
     avr_layout h \<and> alloc_inv avr_cap avr_lo (\<lambda>i. block_is_used_avr (of_nat i)) avr_blocks avr_header_at h live
     \<and> (\<forall>z \<in> ran live. ah_size z \<noteq> 0 \<and> ah_magic z = AVR_MAGIC)"

definition avr_payload :: "nat \<Rightarrow> avr_heap \<Rightarrow> u32" where
  "avr_payload k h = of_nat k * avr_block_size h + AVR_HEADER_SIZE"

definition avr_fresh_header :: "u32 \<Rightarrow> avr_header" where
  "avr_fresh_header sz = \<lparr> ah_size = sz, ah_flags = 0, ah_type = 0, ah_perm = 0, ah_magic = AVR_MAGIC \<rparr>"

lemma avr_invD:
  assumes "avr_inv h live"
  shows "avr_layout h" "alloc_inv avr_cap avr_lo (\<lambda>i. block_is_used_avr (of_nat i)) avr_blocks avr_header_at h live"
  using assms by (simp_all add: avr_inv_def)

lemma avr_inv_live:
  assumes "avr_inv h live" "live k = Some z"
  shows "avr_lo h \<le> k" "k + avr_blocks z h \<le> avr_cap h" "avr_header_at k h = z" "ah_size z \<noteq> 0" "ah_magic z = AVR_MAGIC"
    "k < avr_cap h"
  using alloc_inv_live [OF avr_invD(2) [OF assms(1)] assms(2)] assms
    avr_alloc.live_in_range(2) [OF avr_invD [OF assms(1)] assms(2)]
  by (auto simp: avr_inv_def ran_def)

lemma avr_live_fits:
  assumes "avr_inv h live" "live k = Some z"
  shows "avr_offset k h + 8 + unat (ah_size z) \<le> avr_offset (k + avr_blocks z h) h"
    "avr_offset (k + avr_blocks z h) h \<le> unat (avr_pool_size h)"
proof -
  note l = avr_invD(1) [OF assms(1)]
  have "unat (ah_size z) + 8 \<le> avr_blocks z h * unat (avr_block_size h)"
    unfolding avr_blocks_def using l by (intro ceil_div_ge) (simp add: avr_layout_def)
  then show "avr_offset k h + 8 + unat (ah_size z) \<le> avr_offset (k + avr_blocks z h) h"
    by (simp add: avr_offset_def add_mult_distrib)
  show "avr_offset (k + avr_blocks z h) h \<le> unat (avr_pool_size h)"
    by (rule avr_offset_le [OF l avr_inv_live(2) [OF assms]])
qed

lemma avr_blocks_word:
  assumes l: "avr_layout h" and sz: "unat (ah_size z) + 8 + (unat (avr_block_size h) - 1) < 2 ^ 32"
  shows "unat (blocks_required_avr (ah_size z + AVR_HEADER_SIZE) h) = avr_blocks z h"
proof -
  let ?d = "unat (avr_block_size h)"
  have d: "8 \<le> ?d" using l by (simp add: avr_layout_def)
  have s: "unat (ah_size z + AVR_HEADER_SIZE) = unat (ah_size z) + 8"
    using sz d by (subst unat_add_u32) (simp_all add: AVR_HEADER_SIZE_def)
  then have "ah_size z + AVR_HEADER_SIZE \<noteq> 0" by (metis add_is_0 unat_0 zero_neq_numeral)
  moreover have "unat (avr_block_size h - 1) = ?d - 1" using d by (intro unat_minus_one_u32) auto
  then have "unat (ah_size z + AVR_HEADER_SIZE + (avr_block_size h - 1)) = unat (ah_size z) + 8 + (?d - 1)"
    using sz s by (subst unat_add_u32) simp_all
  ultimately show ?thesis by (simp add: blocks_required_avr_def avr_blocks_def ceil_div_def unat_div_distrib)
qed

text \<open>The numbers the code computes for a live allocation.\<close>

lemma avr_live_word:
  assumes inv: "avr_inv h live" and live: "live k = Some z"
  shows "avr_payload k h - AVR_HEADER_SIZE = of_nat (avr_offset k h)"
    and "unat (avr_payload k h) = avr_offset k h + 8"
    and "header_read_avr (of_nat (avr_offset k h)) h = z"
    and "of_nat (avr_offset k h) div avr_block_size h = of_nat k" and "unat (of_nat k :: u32) = k"
    and "unat (of_nat (avr_offset k h) :: u32) = avr_offset k h"
    and "unat (blocks_required_avr (ah_size z + AVR_HEADER_SIZE) h) = avr_blocks z h"
    and "unat (of_nat k + blocks_required_avr (ah_size z + AVR_HEADER_SIZE) h) = k + avr_blocks z h"
    and "unat (heap_data_begin_avr h) = avr_offset (avr_lo h) h"
    and "avr_payload k h \<noteq> AVR_NULL"
proof -
  note l = avr_invD(1) [OF inv]
  note f = avr_live_fits [OF inv live]
  note i = avr_inv_live [OF inv live]
  have pool: "unat (avr_pool_size h) \<le> 2 ^ 24" and d: "8 \<le> unat (avr_block_size h)"
    using l by (simp_all add: avr_layout_def)
  have lt: "avr_offset k h + 8 \<le> 16777216" using f pool by simp
  show w: "avr_payload k h - AVR_HEADER_SIZE = of_nat (avr_offset k h)"
    by (simp add: avr_payload_def avr_offset_word)
  show o: "unat (of_nat (avr_offset k h) :: u32) = avr_offset k h" using lt by (intro unat_of_nat_u32) simp
  show p: "unat (avr_payload k h) = avr_offset k h + 8"
    unfolding avr_payload_def avr_offset_word using lt o by (subst unat_add_u32) (simp_all add: AVR_HEADER_SIZE_def)
  show "header_read_avr (of_nat (avr_offset k h)) h = z"
    using i(3) by (simp add: avr_header_at_def avr_offset_word)
  have kc: "k < 4294967296" using i(6) unat_u32_less [of "avr_block_count h"] by (simp add: avr_cap_def)
  then show uk: "unat (of_nat k :: u32) = k" by (rule unat_of_nat_u32)
  have "unat (of_nat (avr_offset k h) div avr_block_size h) = k"
    using d o by (simp add: unat_div_distrib) (simp add: avr_offset_def)
  then show "of_nat (avr_offset k h) div avr_block_size h = of_nat k" using uk by (simp only: word_unat_eq_iff)
  have cap: "1 \<le> avr_cap h" using i(6) by simp
  have "unat (avr_block_size h) \<le> avr_offset (avr_cap h) h"
    using avr_offset_mono [OF cap, of h] by (simp add: avr_offset_def)
  then have "unat (avr_block_size h) \<le> 16777216" using avr_offset_le [OF l order_refl] pool by simp
  moreover have "unat (ah_size z) + 8 \<le> 16777216" using f pool by simp
  ultimately show b: "unat (blocks_required_avr (ah_size z + AVR_HEADER_SIZE) h) = avr_blocks z h"
    by (intro avr_blocks_word [OF l]) simp
  show "unat (of_nat k + blocks_required_avr (ah_size z + AVR_HEADER_SIZE) h) = k + avr_blocks z h"
    using i(2) uk b unat_u32_less [of "avr_block_count h"] by (subst unat_add_u32) (simp_all add: avr_cap_def)
  have "avr_lo h \<le> avr_cap h" using i by simp
  from avr_offset_le [OF l this] show "unat (heap_data_begin_avr h) = avr_offset (avr_lo h) h"
    using pool unfolding heap_data_begin_avr_def
    by (subst unat_mult_u32) (simp_all add: avr_offset_def avr_lo_def)
  show "avr_payload k h \<noteq> AVR_NULL" using p lt by (auto simp: AVR_NULL_def)
qed

lemma avr_live_valid:
  assumes inv: "avr_inv h live" and live: "live k = Some z"
  shows "kmalloc_is_valid_avr (avr_payload k h) h"
proof -
  note w = avr_live_word [OF inv live]
  note i = avr_inv_live [OF inv live]
  note f = avr_live_fits [OF inv live]
  have pool: "unat (avr_pool_size h) \<le> 2 ^ 24" using avr_invD(1) [OF inv] by (simp add: avr_layout_def)
  have lo: "avr_offset (avr_lo h) h \<le> avr_offset k h" by (rule avr_offset_mono [OF i(1)])
  have "0 < unat (ah_size z)" using i(4) by (simp add: unat_gt_0)
  then have end_lt: "avr_offset k h + 8 < unat (avr_pool_size h)" using f by simp
  have "unat (heap_data_begin_avr h + AVR_HEADER_SIZE) = avr_offset (avr_lo h) h + 8"
    using w(9) lo end_lt pool by (subst unat_add_u32) (simp_all add: AVR_HEADER_SIZE_def)
  then have "\<not> avr_payload k h < heap_data_begin_avr h + AVR_HEADER_SIZE"
    using w(2) lo by (simp add: word_less_nat_alt)
  moreover have "\<not> avr_payload k h \<ge> avr_pool_size h" "\<not> (of_nat (avr_offset k h) :: u32) < heap_data_begin_avr h"
      "\<not> (of_nat (avr_offset k h) :: u32) \<ge> avr_pool_size h"
    using w(2,6,9) lo end_lt by (simp_all add: word_less_nat_alt word_le_nat_alt)
  moreover have "blocks_required_avr (ah_size z + AVR_HEADER_SIZE) h \<noteq> 0"
    using w(7) avr_alloc.blocks_pos [OF avr_invD(1) [OF inv], of z] by (metis less_irrefl unat_0)
  moreover have "\<not> (of_nat k :: u32) < avr_reserved_blocks h" using w(5) i(1) by (simp add: word_less_nat_alt avr_lo_def)
  moreover have "\<not> of_nat k + blocks_required_avr (ah_size z + AVR_HEADER_SIZE) h > avr_block_count h"
    using w(8) i(2) by (simp add: word_less_nat_alt avr_cap_def)
  ultimately show ?thesis
    using w(1,3,4,10) i(4,5) by (simp add: kmalloc_is_valid_avr_def Let_def)
qed


section \<open>Allocation\<close>

text \<open>No run of enough free blocks.\<close>

definition avr_full :: "nat \<Rightarrow> avr_heap \<Rightarrow> bool" where
  "avr_full n h \<longleftrightarrow> (\<forall>k. avr_lo h \<le> k \<longrightarrow> k + n \<le> avr_cap h \<longrightarrow> \<not> free_run (\<lambda>i. avr_used i h) k n)"

lemma avr_inv_put:
  assumes inv: "avr_inv h live" and z: "ah_size z \<noteq> 0" "ah_magic z = AVR_MAGIC" and none: "live k = None"
    and win: "avr_lo h \<le> k" "k + avr_blocks z h \<le> avr_cap h" "free_run (\<lambda>i. avr_used i h) k (avr_blocks z h)"
  defines "t \<equiv> apply_range (\<lambda>i. block_set_used_avr (of_nat i)) k (avr_blocks z h) h"
  shows "avr_inv (avr_put_header k z t) (live(k \<mapsto> z))" "avr_rest t = avr_rest h"
proof -
  note l = avr_invD [OF inv]
  note r = avr_alloc.set_range [OF l(1) win(2), folded t_def]
  show rest: "avr_rest t = avr_rest h" using r by simp
  have t: "avr_layout t" "\<And>j. j < avr_cap h \<Longrightarrow> avr_used j t = (k \<le> j \<and> j < k + avr_blocks z h \<or> avr_used j h)"
    using r by simp_all
  note a = avr_alloc.allocate [OF l win t(1) rest t(2)]
  show "avr_inv (avr_put_header k z t) (live(k \<mapsto> z))"
    using a(1,3) z inv none by (auto simp: avr_inv_def ran_map_upd)
qed

lemma kmalloc_avr_full:
  assumes inv: "avr_inv h live" and sz: "sz \<noteq> 0" and fits: "unat sz + 8 + (unat (avr_block_size h) - 1) < 2 ^ 32"
  defines "n \<equiv> avr_blocks (avr_fresh_header sz) h"
  obtains (refused) "avr_full n h" "kmalloc_avr sz h = (AVR_NULL, h)"
  | (granted) k h' where "kmalloc_avr sz h = (avr_payload k h, h')" "avr_payload k h \<noteq> AVR_NULL" "live k = None"
      "avr_inv h' (live(k \<mapsto> avr_fresh_header sz))"
      "avr_lo h \<le> k" "k + n \<le> avr_cap h" "free_run (\<lambda>i. avr_used i h) k n"
      "\<And>j. avr_lo h \<le> j \<Longrightarrow> j < k \<Longrightarrow> \<not> free_run (\<lambda>i. avr_used i h) j n"
      "avr_rest h' = avr_rest (pool_write (avr_offset k h) (avr_header_bytes (avr_fresh_header sz)) h)"
proof -
  note l = avr_invD [OF inv]
  have lay: "avr_block_size h \<noteq> 0" "avr_pool_size h \<noteq> 0" "avr_lo h \<le> avr_cap h"
    using l(1) by (auto simp: avr_layout_def avr_lo_def avr_cap_def)
  obtain f where f: "avr_bitmap h = Some f" using l(1) by (auto simp: avr_layout_def)
  have pos: "0 < n" unfolding n_def by (rule avr_alloc.blocks_pos [OF l(1)])
  have req: "unat (blocks_required_avr (sz + AVR_HEADER_SIZE) h) = n"
    using avr_blocks_word [OF l(1), of "avr_fresh_header sz"] fits by (simp add: n_def avr_fresh_header_def)
  then have nz: "blocks_required_avr (sz + AVR_HEADER_SIZE) h \<noteq> 0" using pos by auto
  have room: "unat (avr_block_count h - avr_reserved_blocks h) = avr_cap h - avr_lo h"
    using lay(3) unfolding avr_cap_def avr_lo_def by (rule unat_sub_u32)
  let ?scan = "first_fit (\<lambda>i. avr_used i h) n [avr_lo h..<avr_cap h] 0 0"
  have code: "kmalloc_avr sz h =
      (if n > avr_cap h - avr_lo h then (AVR_NULL, h)
       else case ?scan of None \<Rightarrow> (AVR_NULL, h)
            | Some k \<Rightarrow> let h1 = apply_range (\<lambda>i. block_set_used_avr (of_nat i)) k n h
                        in (of_nat k * avr_block_size h1 + AVR_HEADER_SIZE, avr_put_header k (avr_fresh_header sz) h1))"
    using sz lay nz req room f
    by (simp add: kmalloc_avr_def Let_def word_less_nat_alt avr_lo_def avr_cap_def avr_fresh_header_def avr_put_header_def
        cong: option.case_cong)
  show thesis
  proof (cases "n > avr_cap h - avr_lo h")
    case True
    then have "avr_full n h" by (auto simp: avr_full_def)
    then show thesis using code True refused by simp
  next
    case room: False
    show thesis
    proof (cases ?scan)
      case None
      then have "avr_full n h" using first_fit_None [OF None pos] by (simp add: avr_full_def)
      then show thesis using code room None refused by simp
    next
      case (Some k)
      note f = first_fit_Some [OF Some pos]
      let ?z = "avr_fresh_header sz"
      let ?t = "apply_range (\<lambda>i. block_set_used_avr (of_nat i)) k n h"
      have none: "live k = None"
      proof (rule ccontr)
        assume "live k \<noteq> None"
        then obtain y where "live k = Some y" by auto
        from avr_alloc.window_disjoint [OF l this pos f(1-3)] avr_alloc.blocks_pos [OF l(1), of y] pos show False by simp
      qed
      have zok: "ah_size ?z \<noteq> 0" "ah_magic ?z = AVR_MAGIC" using sz by (simp_all add: avr_fresh_header_def)
      note p = avr_inv_put [OF inv zok none f(1-3) [unfolded n_def], folded n_def]
      note c = avr_rest_config [OF p(2)]
      have k: "k < avr_cap ?t" using f(2) pos c by simp
      have put: "avr_put_header k ?z ?t = pool_write (avr_offset k h) (avr_header_bytes ?z) ?t"
        using avr_put_pool [OF _ k, of ?z] c l(1) avr_restD(1) [OF p(2)] by (simp add: avr_offset_def)
      have "avr_rest (pool_write (avr_offset k h) (avr_header_bytes ?z) ?t)
          = avr_rest (pool_write (avr_offset k h) (avr_header_bytes ?z) h)"
        using p(2) avr_restD [OF p(2)] unfolding avr_rest_def pool_write_def by (cases h; cases ?t) simp
      then have rest: "avr_rest (avr_put_header k ?z ?t) = avr_rest (pool_write (avr_offset k h) (avr_header_bytes ?z) h)"
        using put by simp
      have call: "kmalloc_avr sz h = (avr_payload k h, avr_put_header k ?z ?t)"
        using code room Some avr_restD(1) [OF p(2)] by (simp add: Let_def avr_payload_def)
      have "(live(k \<mapsto> ?z)) k = Some ?z" by simp
      from avr_live_word(10) [OF p(1) this]
      have nn: "avr_payload k h \<noteq> AVR_NULL" using avr_restD(1) [OF p(2)] put by (simp add: avr_payload_def)
      show thesis by (rule granted [OF call nn none p(1) f(1-4) rest])
    qed
  qed
qed

section \<open>Release\<close>

lemma set_free_pool_write:
  "block_set_free_avr i (pool_write a bs h) = pool_write a bs (block_set_free_avr i h)"
  by (cases "avr_bitmap h") (simp_all add: block_set_free_avr_def Let_def mark_dirty_avr_def bitmap_put_avr_def pool_write_def)

lemma free_range_pool_write:
  "apply_range (\<lambda>i. block_set_free_avr (of_nat i)) k n (pool_write a bs h)
     = pool_write a bs (apply_range (\<lambda>i. block_set_free_avr (of_nat i)) k n h)"
  by (induction n) (simp_all add: set_free_pool_write)

definition dead_header :: avr_header where
  "dead_header = \<lparr> ah_size = 0, ah_flags = 0, ah_type = 0, ah_perm = 0, ah_magic = 0 \<rparr>"

lemma kfree_avr_full:
  assumes inv: "avr_inv h live" and live: "live k = Some z"
  defines "h' \<equiv> kfree_avr (avr_payload k h) h"
  shows "avr_inv h' (live(k := None))" "avr_header_at k h' = dead_header"
    "avr_rest h' = avr_rest (pool_write (avr_offset k h) (avr_header_bytes dead_header) h)"
    "j < avr_cap h \<Longrightarrow> avr_used j h' = (\<not> (k \<le> j \<and> j < k + avr_blocks z h) \<and> avr_used j h)"
proof -
  note l = avr_invD [OF inv]
  note w = avr_live_word [OF inv live]
  note i = avr_inv_live [OF inv live]
  let ?n = "avr_blocks z h"
  let ?t = "apply_range (\<lambda>i. block_set_free_avr (of_nat i)) k ?n h"
  note r = avr_alloc.clear_range [OF l(1) i(2)]
  have t: "avr_layout ?t" "avr_rest ?t = avr_rest h"
    "\<And>j. j < avr_cap h \<Longrightarrow> avr_used j ?t = (\<not> (k \<le> j \<and> j < k + ?n) \<and> avr_used j h)"
    using r by simp_all
  note c = avr_rest_config [OF t(2)]
  have k: "avr_lo ?t \<le> k" "k < avr_cap ?t" using i(1,6) c by simp_all
  have inv1: "alloc_inv avr_cap avr_lo (\<lambda>i. block_is_used_avr (of_nat i)) avr_blocks avr_header_at ?t (live(k := None))"
    by (rule avr_alloc.release [OF l live t])
  have none: "(live(k := None)) k = None" by simp
  have put: "avr_put_header k dead_header ?t = pool_write (avr_offset k h) (avr_header_bytes dead_header) ?t"
    using avr_put_pool [OF t(1) k(2), of dead_header] avr_restD(1) [OF t(2)] by (simp add: avr_offset_def)
  have "\<not> (of_nat k :: u32) < avr_reserved_blocks h" using w(5) i(1) by (simp add: word_less_nat_alt avr_lo_def)
  moreover have "\<not> of_nat k + blocks_required_avr (ah_size z + AVR_HEADER_SIZE) h > avr_block_count h"
    using w(8) i(2) by (simp add: word_less_nat_alt avr_cap_def)
  moreover have "header_write_avr (of_nat (avr_offset k h)) dead_header h
      = pool_write (avr_offset k h) (avr_header_bytes dead_header) h"
    using l(1) avr_block_fits [OF l(1) i(6)] by (rule header_write_pool)
  ultimately have "h' = pool_write (avr_offset k h) (avr_header_bytes dead_header) ?t"
    using avr_live_valid [OF inv live] w(1,3,4,5,7)
    by (simp add: h'_def kfree_avr_def Let_def dead_header_def [symmetric] free_range_pool_write)
  then have h': "h' = avr_put_header k dead_header ?t" using put by simp
  have "\<forall>y \<in> ran (live(k := None)). ah_size y \<noteq> 0 \<and> ah_magic y = AVR_MAGIC"
    using inv by (auto simp: avr_inv_def ran_def)
  then show "avr_inv h' (live(k := None))"
    using avr_alloc.put_dead [OF t(1) inv1 none k] avr_alloc.put_inv [OF t(1) k]
    unfolding avr_inv_def h' by blast
  show "avr_header_at k h' = dead_header" using avr_alloc.header_put [OF t(1) k k, of dead_header] by (simp add: h')
  show "avr_rest h' = avr_rest (pool_write (avr_offset k h) (avr_header_bytes dead_header) h)"
    unfolding h' put using t(2) avr_restD [OF t(2)] unfolding avr_rest_def pool_write_def by (cases h; cases ?t) simp
  show "j < avr_cap h \<Longrightarrow> avr_used j h' = (\<not> (k \<le> j \<and> j < k + ?n) \<and> avr_used j h)"
    using t(3) by (simp add: h' put)
qed

lemma invalid_no_magic:
  assumes "header_read_avr (p - AVR_HEADER_SIZE) h = dead_header"
  shows "\<not> kmalloc_is_valid_avr p h"
  using assms by (simp add: kmalloc_is_valid_avr_def Let_def dead_header_def AVR_MAGIC_def)

lemma kfree_avr_invalid: "\<not> kmalloc_is_valid_avr p h \<Longrightarrow> kfree_avr p h = h"
  by (simp add: kfree_avr_def)


section \<open>The fields of a header\<close>

context block_alloc begin

text \<open>Rewriting the header of an allocation, with one that claims as many blocks, changes that header only.\<close>

lemma put_live:
  assumes s: "inv s" "alloc_inv cap lo used blocks header s live" and k: "live k = Some z" and b: "blocks z' s = blocks z s"
  shows "inv (put_header k z' s)" "alloc_inv cap lo used blocks header (put_header k z' s) (live(k \<mapsto> z'))"
proof -
  note r = live_in_range [OF s k]
  note p = put_config [OF s(1) r, of z']
  show "inv (put_header k z' s)" by (rule put_inv [OF s(1) r])
  have lv: "\<exists>y'. live j = Some y' \<and> blocks y' s = blocks y s" if "(live(k \<mapsto> z')) j = Some y" for j y
    using that k b by (cases "j = k") auto
  show "alloc_inv cap lo used blocks header (put_header k z' s) (live(k \<mapsto> z'))"
    unfolding alloc_inv_def
  proof (intro conjI allI impI)
    fix j y
    assume a: "(live(k \<mapsto> z')) j = Some y"
    from lv [OF a] obtain y' where y': "live j = Some y'" "blocks y' s = blocks y s" by auto
    show "lo (put_header k z' s) \<le> j" "j + blocks y (put_header k z' s) \<le> cap (put_header k z' s)"
      using alloc_inv_live [OF s(2) y'(1)] y'(2) p by simp_all
    show "header j (put_header k z' s) = y"
      using header_put [OF s(1) r live_in_range [OF s y'(1)], of z'] alloc_inv_live(3) [OF s(2) y'(1)] a y'(1)
      by (auto split: if_splits)
  next
    fix j y j' y'
    assume a: "(live(k \<mapsto> z')) j = Some y" "(live(k \<mapsto> z')) j' = Some y'" "j < j'"
    from lv [OF a(1)] lv [OF a(2)] show "j + blocks y (put_header k z' s) \<le> j'"
      using alloc_inv_disjoint [OF s(2), of j _ j'] a(3) p by fastforce
  next
    fix i
    assume i: "lo (put_header k z' s) \<le> i" "i < cap (put_header k z' s)"
    have "covered blocks (live(k \<mapsto> z')) s i = covered blocks live s i"
    proof
      assume "covered blocks (live(k \<mapsto> z')) s i"
      then obtain j y where "(live(k \<mapsto> z')) j = Some y" "j \<le> i" "i < j + blocks y s" by (auto simp: covered_def)
      moreover from this(1) obtain y' where "live j = Some y'" "blocks y' s = blocks y s" using lv by blast
      ultimately show "covered blocks live s i" unfolding covered_def by (intro exI [of _ j] exI [of _ y']) simp
    next
      assume "covered blocks live s i"
      then obtain j y where j: "live j = Some y" "j \<le> i" "i < j + blocks y s" by (auto simp: covered_def)
      show "covered blocks (live(k \<mapsto> z')) s i"
      proof (cases "j = k")
        case True
        then show ?thesis unfolding covered_def using j k b by (intro exI [of _ k] exI [of _ z']) simp
      next
        case False
        then show ?thesis unfolding covered_def using j by (intro exI [of _ j] exI [of _ y]) simp
      qed
    qed
    then show "used i (put_header k z' s) = covered blocks (live(k \<mapsto> z')) (put_header k z' s) i"
      using put_used [OF s(1) r, of i z'] alloc_inv_used [OF s(2), of i] i p by (simp add: covered_def)
  qed
qed

end

lemma avr_set_header:
  assumes inv: "avr_inv h live" and live: "live k = Some z" and y: "ah_size y = ah_size z" "ah_magic y = ah_magic z"
  shows "avr_inv (header_write_avr (of_nat (avr_offset k h)) y h) (live(k \<mapsto> y))"
    "header_write_avr (of_nat (avr_offset k h)) y h = pool_write (avr_offset k h) (avr_header_bytes y) h"
proof -
  note l = avr_invD [OF inv]
  note i = avr_inv_live [OF inv live]
  have w: "header_write_avr (of_nat (avr_offset k h)) y h = avr_put_header k y h"
    by (simp add: avr_put_header_def avr_offset_word)
  have "avr_blocks y h = avr_blocks z h" using y by (simp add: avr_blocks_def)
  note p = avr_alloc.put_live [OF l live this]
  have "\<forall>x \<in> ran (live(k \<mapsto> y)). ah_size x \<noteq> 0 \<and> ah_magic x = AVR_MAGIC"
    using inv i(4,5) y by (auto simp: avr_inv_def ran_def)
  then show "avr_inv (header_write_avr (of_nat (avr_offset k h)) y h) (live(k \<mapsto> y))"
    unfolding w avr_inv_def using p by blast
  show "header_write_avr (of_nat (avr_offset k h)) y h = pool_write (avr_offset k h) (avr_header_bytes y) h"
    using l(1) avr_block_fits [OF l(1) i(6)] by (rule header_write_pool)
qed

lemma avr_getters:
  assumes inv: "avr_inv h live" and live: "live k = Some z"
  shows "kmalloc_get_size_avr (avr_payload k h) h = ah_size z" "kmalloc_get_type_avr (avr_payload k h) h = ah_type z"
    "kmalloc_get_flags_avr (avr_payload k h) h = ah_flags z" "kmalloc_get_permissions_avr (avr_payload k h) h = ah_perm z"
  using avr_live_valid [OF assms] avr_live_word(1,3) [OF assms]
  by (simp_all add: kmalloc_get_size_avr_def kmalloc_get_type_avr_def kmalloc_get_flags_avr_def
      kmalloc_get_permissions_avr_def get_header_avr_def)

lemma avr_setters:
  assumes inv: "avr_inv h live" and live: "live k = Some z"
  shows "avr_inv (kmalloc_set_type_avr (avr_payload k h) v h) (live(k \<mapsto> z\<lparr>ah_type := v\<rparr>))"
    "avr_inv (kmalloc_set_flags_avr (avr_payload k h) v h) (live(k \<mapsto> z\<lparr>ah_flags := v\<rparr>))"
    "avr_inv (kmalloc_set_permissions_avr (avr_payload k h) v h) (live(k \<mapsto> z\<lparr>ah_perm := v\<rparr>))"
  using avr_live_valid [OF assms] avr_live_word(1,3) [OF assms] avr_set_header(1) [OF assms]
  by (simp_all add: kmalloc_set_type_avr_def kmalloc_set_flags_avr_def kmalloc_set_permissions_avr_def get_header_avr_def)

section \<open>Enumeration\<close>

definition avr_next_spec :: "avr_heap \<Rightarrow> (nat \<rightharpoonup> avr_header) \<Rightarrow> nat \<Rightarrow> u32 \<Rightarrow> bool" where
  "avr_next_spec h live i a \<longleftrightarrow>
     a = AVR_NULL \<and> (\<forall>k \<ge> i. live k = None)
     \<or> (\<exists>k \<ge> i. live k \<noteq> None \<and> a = avr_payload k h \<and> (\<forall>j. i \<le> j \<longrightarrow> j < k \<longrightarrow> live j = None))"

lemma avr_next_spec_widen:
  assumes a: "avr_next_spec h live hi a" and le: "lo \<le> hi" and none: "\<And>j. lo \<le> j \<Longrightarrow> j < hi \<Longrightarrow> live j = None"
  shows "avr_next_spec h live lo a"
  using a unfolding avr_next_spec_def
proof (elim disjE exE conjE)
  assume "a = AVR_NULL" "\<forall>k \<ge> hi. live k = None"
  moreover from this have "\<forall>k \<ge> lo. live k = None" using none by (meson not_le)
  ultimately show "a = AVR_NULL \<and> (\<forall>k \<ge> lo. live k = None)
      \<or> (\<exists>k \<ge> lo. live k \<noteq> None \<and> a = avr_payload k h \<and> (\<forall>j. lo \<le> j \<longrightarrow> j < k \<longrightarrow> live j = None))" by simp
next
  fix k
  assume k: "hi \<le> k" "live k \<noteq> None" "a = avr_payload k h" "\<forall>j. hi \<le> j \<longrightarrow> j < k \<longrightarrow> live j = None"
  have "\<forall>j. lo \<le> j \<longrightarrow> j < k \<longrightarrow> live j = None" using k(4) none by (meson not_le)
  then show "a = AVR_NULL \<and> (\<forall>k \<ge> lo. live k = None)
      \<or> (\<exists>k \<ge> lo. live k \<noteq> None \<and> a = avr_payload k h \<and> (\<forall>j. lo \<le> j \<longrightarrow> j < k \<longrightarrow> live j = None))"
    using k le by (intro disjI2 exI [of _ k]) simp
qed

lemma next_loop_avr_spec:
  assumes inv: "avr_inv h live"
  shows "avr_lo h \<le> i \<Longrightarrow> (\<And>k z. live k = Some z \<Longrightarrow> k < i \<Longrightarrow> k + avr_blocks z h \<le> i) \<Longrightarrow>
     avr_next_spec h live i (next_loop_avr [i..<avr_cap h] h)"
proof (induction "avr_cap h - i" arbitrary: i)
  case 0
  have "live k = None" if "i \<le> k" for k
    using avr_inv_live(6) [OF inv, of k] that "0.hyps" by (cases "live k") auto
  then show ?case using "0.hyps" by (simp add: avr_next_spec_def)
next
  case (Suc d)
  have lt: "i < avr_cap h" using Suc.hyps(2) by simp
  have upt: "[i..<avr_cap h] = i # [Suc i..<avr_cap h]" using lt by (simp add: upt_conv_Cons)
  note used = alloc_inv_used [OF avr_invD(2) [OF inv] Suc.prems(1) lt]
  show ?case
  proof (cases "live i")
    case None
    have "\<not> covered avr_blocks live h i"
    proof
      assume "covered avr_blocks live h i"
      then obtain k z where k: "live k = Some z" "k \<le> i" "i < k + avr_blocks z h" by (auto simp: covered_def)
      then have "k < i" using None by (cases "k = i") auto
      then show False using Suc.prems(2) [OF k(1)] k(3) by simp
    qed
    then have "next_loop_avr [i..<avr_cap h] h = next_loop_avr [Suc i..<avr_cap h] h" using used unfolding upt by simp
    moreover have "avr_next_spec h live (Suc i) (next_loop_avr [Suc i..<avr_cap h] h)"
    proof (rule Suc.hyps(1))
      fix k z
      assume k: "live k = Some z" "k < Suc i"
      then have "k < i" using None by (cases "k = i") auto
      then show "k + avr_blocks z h \<le> Suc i" using Suc.prems(2) [OF k(1)] by simp
    qed (use Suc in auto)
    ultimately show ?thesis
      using None by (auto intro!: avr_next_spec_widen [of h live "Suc i"] simp: less_Suc_eq_le le_antisym)
  next
    case (Some z)
    note w = avr_live_word [OF inv Some]
    have "covered avr_blocks live h i"
      unfolding covered_def using Some avr_alloc.blocks_pos [OF avr_invD(1) [OF inv], of z]
      by (intro exI [of _ i] exI [of _ z]) simp
    moreover have "\<not> (of_nat (avr_offset i h) :: u32) < heap_data_begin_avr h"
      using w(6,9) avr_offset_mono [OF Suc.prems(1), of h] by (simp add: word_less_nat_alt)
    moreover have "\<not> avr_payload i h \<ge> avr_pool_size h"
      using avr_live_fits [OF inv Some] w(2) unat_gt_0 [of "ah_size z"] avr_inv_live(4) [OF inv Some]
      by (simp add: word_le_nat_alt)
    ultimately have "next_loop_avr [i..<avr_cap h] h = avr_payload i h"
      using used w(3) avr_inv_live(4,5) [OF inv Some]
      unfolding upt by (simp add: Let_def avr_payload_def avr_offset_word)
    then show ?thesis using Some by (auto simp: avr_next_spec_def)
  qed
qed

lemma kmalloc_next_avr_first:
  assumes inv: "avr_inv h live"
  shows "avr_next_spec h live 0 (kmalloc_next_avr AVR_NULL h)"
proof -
  have lo: "avr_lo h \<le> k" if "live k = Some z" for k z by (rule avr_inv_live(1) [OF inv that])
  have "avr_next_spec h live (avr_lo h) (next_loop_avr [avr_lo h..<avr_cap h] h)"
    by (rule next_loop_avr_spec [OF inv order_refl]) (use lo in fastforce)
  then have "avr_next_spec h live 0 (next_loop_avr [avr_lo h..<avr_cap h] h)"
  proof (rule avr_next_spec_widen)
    show "live j = None" if "j < avr_lo h" for j using lo [of j] that by (cases "live j") auto
  qed simp
  then show ?thesis by (simp add: kmalloc_next_avr_def avr_lo_def avr_cap_def)
qed

lemma kmalloc_next_avr_next:
  assumes inv: "avr_inv h live" and live: "live k = Some z"
  shows "avr_next_spec h live (Suc k) (kmalloc_next_avr (avr_payload k h) h)"
proof -
  note w = avr_live_word [OF inv live]
  let ?e = "k + avr_blocks z h"
  have "avr_next_spec h live ?e (next_loop_avr [?e..<avr_cap h] h)"
  proof (rule next_loop_avr_spec [OF inv])
    show "avr_lo h \<le> ?e" using avr_inv_live(1) [OF inv live] by simp
    fix j y
    assume j: "live j = Some y" "j < ?e"
    then show "j + avr_blocks y h \<le> ?e"
      using alloc_inv_disjoint [OF avr_invD(2) [OF inv] live j(1)] live by (cases "j = k") auto
  qed
  moreover have "kmalloc_next_avr (avr_payload k h) h = next_loop_avr [?e..<avr_cap h] h"
    using w avr_live_valid [OF inv live] by (simp add: kmalloc_next_avr_def Let_def avr_cap_def)
  moreover have "live j = None" if "Suc k \<le> j" "j < ?e" for j
  proof (rule ccontr)
    assume "live j \<noteq> None"
    then obtain y where "live j = Some y" by auto
    from alloc_inv_disjoint [OF avr_invD(2) [OF inv] live this] that show False by auto
  qed
  moreover have "Suc k \<le> ?e" using avr_alloc.blocks_pos [OF avr_invD(1) [OF inv], of z] by simp
  ultimately show ?thesis using avr_next_spec_widen by metis
qed

end
