(* ===== verification/AvrHeapImage.thy ===== *)
theory AvrHeapImage
  imports AvrHeapOps
begin

text \<open>
  \<open>heap_init\<close>, the transfers between the bitmap in SRAM and its image in the pool, and the accesses of
  clients to their payloads.
\<close>

section \<open>Writing the image\<close>

text \<open>Whether byte \<open>i\<close> is written: always without a dirty map, else when its flag is set.\<close>

definition stale :: "(u32 \<Rightarrow> u8) option \<Rightarrow> u32 \<Rightarrow> bool" where
  "stale dirty i = (case dirty of None \<Rightarrow> True | Some d \<Rightarrow> d i \<noteq> 0)"

text \<open>The heap after the first \<open>n\<close> bytes of the bitmap \<open>f\<close> have been written.\<close>

definition image_written :: "(u32 \<Rightarrow> u8) \<Rightarrow> nat \<Rightarrow> avr_heap \<Rightarrow> avr_heap" where
  "image_written f n h =
     h\<lparr>xram := (\<lambda>x. if unat (x - avr_heap_begin h) < n \<and> stale (avr_dirty h) (x - avr_heap_begin h)
                    then f (x - avr_heap_begin h) else xram h x),
       avr_dirty := map_option (\<lambda>d i. if unat i < n then 0 else d i) (avr_dirty h)\<rparr>"

lemma bitmap_image_fits:
  assumes "avr_layout h"
  shows "unat (avr_bitmap_size h) \<le> avr_offset (avr_lo h) h" "avr_offset (avr_lo h) h \<le> unat (avr_pool_size h)"
proof -
  show "unat (avr_bitmap_size h) \<le> avr_offset (avr_lo h) h"
    using assms by (simp add: avr_layout_def avr_offset_def avr_lo_def)
  have "avr_lo h \<le> avr_cap h" using assms by (simp add: avr_layout_def avr_lo_def avr_cap_def)
  then show "avr_offset (avr_lo h) h \<le> unat (avr_pool_size h)" by (rule avr_offset_le [OF assms])
qed

lemma image_step:
  assumes l: "avr_layout h" and f: "avr_bitmap h = Some f" and n: "n < unat (avr_bitmap_size h)"
  shows "bitmap_write_step_avr n (image_written f n h) = image_written f (Suc n) h"
proof -
  have np: "n < unat (avr_pool_size h)" using n bitmap_image_fits [OF l] by simp
  have nw: "n < 4294967296" using n unat_u32_less [of "avr_bitmap_size h"] by simp
  have bus: "bus_address (avr_heap_begin h + of_nat n) = avr_heap_begin h + of_nat n" by (rule pool_address(2) [OF l np])
  have hit: "unat (x - avr_heap_begin h) = n \<longleftrightarrow> x = avr_heap_begin h + of_nat n" for x
    using unat_of_nat_u32 [OF nw] word_unat_eq_iff [of "x - avr_heap_begin h" "of_nat n"] by (auto simp: algebra_simps)
  have last: "unat i < Suc n \<longleftrightarrow> unat i < n \<or> i = of_nat n" for i :: u32
    using unat_of_nat_u32 [OF nw] word_unat_eq_iff [of i "of_nat n"] by (auto simp: less_Suc_eq)
  have n0: "unat (of_nat n :: u32) = n" by (rule unat_of_nat_u32 [OF nw])
  show ?thesis
  proof (cases "avr_dirty h")
    case None
    then show ?thesis
      using f bus n0 hit
      by (auto simp: bitmap_write_step_avr_def image_written_def mmio_writeb_def stale_def fun_eq_iff less_Suc_eq)
  next
    case (Some d)
    have d: "(\<lambda>i. if unat i < Suc n then 0 else d i) = (\<lambda>i. if unat i < n then 0 else d i)(of_nat n := 0)"
      by (auto simp: fun_eq_iff last)
    show ?thesis
    proof (cases "d (of_nat n) = 0")
      case True
      have x: "(unat i < Suc n \<and> d i \<noteq> 0) = (unat i < n \<and> d i \<noteq> 0)" for i using True last [of i] by auto
      have y: "(if unat i < Suc n then 0 else d i) = (if unat i < n then 0 else d i)" for i using True last [of i] by auto
      show ?thesis using f Some True n0 by (simp add: bitmap_write_step_avr_def image_written_def stale_def x y)
    next
      case False
      have x: "(\<lambda>x. if unat (x - avr_heap_begin h) < n \<and> d (x - avr_heap_begin h) \<noteq> 0 then f (x - avr_heap_begin h)
            else xram h x)(avr_heap_begin h + of_nat n := f (of_nat n))
          = (\<lambda>x. if unat (x - avr_heap_begin h) < Suc n \<and> d (x - avr_heap_begin h) \<noteq> 0 then f (x - avr_heap_begin h)
            else xram h x)"
        using False hit n0 by (auto simp: fun_eq_iff less_Suc_eq)
      show ?thesis
        using f Some False bus n0
        by (simp add: bitmap_write_step_avr_def image_written_def mmio_writeb_def stale_def x d del: fun_upd_apply)
    qed
  qed
qed

lemma bitmap_write_image:
  assumes l: "avr_layout h" and f: "avr_bitmap h = Some f"
  shows "kmalloc_bitmap_write_avr h = image_written f (unat (avr_bitmap_size h)) h"
proof -
  have "n \<le> unat (avr_bitmap_size h) \<Longrightarrow> fold bitmap_write_step_avr [0..<n] h = image_written f n h" for n
  proof (induction n)
    case 0
    show ?case by (cases "avr_dirty h") (simp_all add: image_written_def)
  next
    case (Suc n)
    then show ?case using image_step [OF l f, of n] by simp
  qed
  then show ?thesis using f by (simp add: kmalloc_bitmap_write_avr_def)
qed

lemma image_written_props:
  assumes l: "avr_layout h" and f: "avr_bitmap h = Some f" and w: "w = image_written f (unat (avr_bitmap_size h)) h"
  shows "avr_layout w" "avr_cap w = avr_cap h" "avr_lo w = avr_lo h" "avr_bitmap w = avr_bitmap h"
    "avr_blocks z w = avr_blocks z h" "block_is_used_avr i w = block_is_used_avr i h" "avr_bitmap_size w = avr_bitmap_size h"
    "avr_heap_begin w = avr_heap_begin h" "avr_pool_size w = avr_pool_size h" "avr_offset k w = avr_offset k h"
    "b < unat (avr_pool_size h) \<Longrightarrow> pool_byte w b =
       (if b < unat (avr_bitmap_size h) \<and> stale (avr_dirty h) (of_nat b) then f (of_nat b) else pool_byte h b)"
proof -
  show "b < unat (avr_pool_size h) \<Longrightarrow> pool_byte w b =
       (if b < unat (avr_bitmap_size h) \<and> stale (avr_dirty h) (of_nat b) then f (of_nat b) else pool_byte h b)"
    using unat_u32_less [of "avr_pool_size h"] by (simp add: w image_written_def pool_byte_def unat_of_nat_u32)
qed (use l in \<open>simp_all add: w image_written_def avr_layout_def avr_cap_def avr_lo_def avr_blocks_def
    block_is_used_avr_def avr_offset_def\<close>)

text \<open>The image agrees with the bitmap wherever no byte is marked dirty.\<close>

definition image_ok :: "avr_heap \<Rightarrow> bool" where
  "image_ok h \<longleftrightarrow> (\<forall>b < unat (avr_bitmap_size h). stale (avr_dirty h) (of_nat b)
      \<or> (case avr_bitmap h of None \<Rightarrow> True | Some f \<Rightarrow> pool_byte h b = f (of_nat b)))"

lemma bitmap_byte_image_ok:
  assumes f: "avr_bitmap h = Some f" and ok: "image_ok h"
    and h': "h' = (if v \<noteq> f b then mark_dirty_avr b (bitmap_put_avr b v h) else h)"
  shows "image_ok h'"
proof (cases "v = f b")
  case True
  then show ?thesis using h' ok by simp
next
  case False
  have d: "stale (avr_dirty h') i = (stale (avr_dirty h) i \<or> i = b)" for i
    using h' False by (cases "avr_dirty h") (simp_all add: stale_def mark_dirty_avr_def bitmap_put_avr_def)
  have "avr_bitmap h' = Some (f(b := v))" "pool_byte h' = pool_byte h" "avr_bitmap_size h' = avr_bitmap_size h"
    using h' f False by (simp_all add: mark_dirty_avr_def bitmap_put_avr_def pool_byte_def fun_eq_iff)
  then show ?thesis using ok f d unfolding image_ok_def by auto
qed

lemma image_ok_bits:
  assumes "image_ok h"
  shows "image_ok (block_set_used_avr i h)" "image_ok (block_set_free_avr i h)"
proof -
  show "image_ok (block_set_used_avr i h)"
  proof (cases "avr_bitmap h")
    case (Some f)
    show ?thesis
      by (rule bitmap_byte_image_ok [OF Some assms]) (simp add: block_set_used_avr_def Some Let_def)
  qed (simp add: block_set_used_avr_def assms)
  show "image_ok (block_set_free_avr i h)"
  proof (cases "avr_bitmap h")
    case (Some f)
    show ?thesis
      by (rule bitmap_byte_image_ok [OF Some assms]) (simp add: block_set_free_avr_def Some Let_def)
  qed (simp add: block_set_free_avr_def assms)
qed

lemma image_ok_range:
  "image_ok h \<Longrightarrow> image_ok (apply_range (\<lambda>i. block_set_used_avr (of_nat i)) k n h)"
  "image_ok h \<Longrightarrow> image_ok (apply_range (\<lambda>i. block_set_free_avr (of_nat i)) k n h)"
  by (induction n) (simp_all add: image_ok_bits)

lemma image_ok_pool_write:
  assumes "avr_layout h" "image_ok h" "avr_offset (avr_lo h) h \<le> a" "a + length bs \<le> unat (avr_pool_size h)"
  shows "image_ok (pool_write a bs h)"
proof -
  have "pool_byte (pool_write a bs h) b = pool_byte h b" if "b < unat (avr_bitmap_size h)" for b
    using bitmap_image_fits [OF assms(1)] assms(3) that by (subst pool_write_byte [OF assms(1,4)]) auto
  then show ?thesis using assms(2) unfolding image_ok_def by (simp cong: option.case_cong)
qed


section \<open>heap_init\<close>

lemma heap_init_avr_config:
  assumes bs: "8 \<le> unat bs" and pool: "pool \<noteq> 0" and fit: "unat (avr_heap_begin h) + unat pool \<le> 2 ^ 24"
    and f: "avr_bitmap h = Some f"
  obtains h1 where "heap_init_avr bs pool h = kmalloc_bitmap_write_avr h1" "avr_layout h1"
    "avr_bitmap h1 = Some (clear_buffer (avr_bitmap_size h1) f)"
    "avr_dirty h1 = map_option (clear_buffer (avr_bitmap_size h1)) (avr_dirty h)"
    "avr_block_size h1 = bs" "avr_pool_size h1 = pool" "avr_block_count h1 = pool div bs"
    "avr_heap_begin h1 = avr_heap_begin h" "xram h1 = xram h"
    "avr_reserved_blocks h1 = ((pool div bs + 7) div 8 + bs - 1) div bs"
proof -
  let ?count = "pool div bs"
  let ?bm = "(?count + 7) div 8"
  define h1 where "h1 = h\<lparr>avr_block_size := bs, avr_pool_size := pool, avr_block_count := ?count,
      avr_bitmap_size := ?bm, avr_reserved_blocks := (?bm + bs - 1) div bs,
      avr_bitmap := Some (clear_buffer ?bm f), avr_dirty := map_option (clear_buffer ?bm) (avr_dirty h)\<rparr>"
  have t: "unat pool \<le> 16777216" using fit by simp
  have c: "unat ?count = unat pool div unat bs" by (simp add: unat_div_distrib)
  then have cle: "unat ?count \<le> unat pool" by simp
  have cb: "unat ?count * unat bs \<le> unat pool" by (simp add: c)
  have c7: "unat (?count + 7) = unat ?count + 7" using cle t by (subst unat_add_u32) simp_all
  have bm: "unat ?bm = (unat ?count + 7) div 8" using c7 by (simp add: unat_div_distrib)
  have bsl: "unat bs < 4294967296" by (rule unat_u32_less)
  have init: "heap_init_avr bs pool h = kmalloc_bitmap_write_avr h1"
  proof -
    have "bs \<noteq> 0" using bs by auto
    then show ?thesis using pool f by (simp add: heap_init_avr_def h1_def Let_def)
  qed
  show thesis
  proof (cases "unat bs \<le> unat pool")
    case True
    have one: "1 \<le> unat ?count" using True bs c by (simp add: div_greater_zero_iff Suc_le_eq)
    have sum: "unat (?bm + bs - 1) = unat ?bm + (unat bs - 1)"
    proof -
      have "?bm + bs - 1 = ?bm + (bs - 1)" by simp
      moreover have "unat (bs - 1) = unat bs - 1" using bs by (intro unat_minus_one_u32) auto
      ultimately show ?thesis using bm cle t bs True by (simp only:) (subst unat_add_u32, simp_all)
    qed
    have res: "unat ((?bm + bs - 1) div bs) = ceil_div (unat ?bm) (unat bs)"
      using sum by (simp add: unat_div_distrib ceil_div_def)
    have cover: "unat ?bm \<le> ceil_div (unat ?bm) (unat bs) * unat bs" using bs by (intro ceil_div_ge) simp
    have bmc: "unat ?bm \<le> unat ?count" using one bm by simp
    have "ceil_div (unat ?bm) (unat bs) \<le> unat ?bm"
    proof -
      have pos: "0 < unat ?bm" using one bm by simp
      have "(ceil_div (unat ?bm) (unat bs) - 1) * unat bs < unat ?bm" using bs pos by (intro ceil_div_less) simp_all
      then have "(ceil_div (unat ?bm) (unat bs) - 1) * 1 < unat ?bm"
        using bs by (meson le_less_trans le_trans mult_le_mono2 one_le_numeral)
      then show ?thesis by simp
    qed
    then have "avr_layout h1"
      using bs fit cb c7 bm res cover bmc pool by (simp add: h1_def avr_layout_def)
    from that [OF init this] show thesis by (simp add: h1_def)
  next
    case False
    then have c0: "?count = 0" using c by (simp add: unat_eq_zero [symmetric])
    have "unat (bs - 1) = unat bs - 1" using bs by (intro unat_minus_one_u32) auto
    then have "unat ((bs - 1) div bs) = 0" using bs by (simp add: unat_div_distrib)
    then have "avr_layout h1" using bs fit pool False c0 by (simp add: h1_def avr_layout_def)
    from that [OF init this] show thesis by (simp add: h1_def)
  qed
qed

lemma heap_init_avr_inv:
  assumes "8 \<le> unat bs" "pool \<noteq> 0" "unat (avr_heap_begin h) + unat pool \<le> 2 ^ 24" "avr_bitmap h = Some f"
  shows "avr_inv (heap_init_avr bs pool h) Map.empty" "avr_cap (heap_init_avr bs pool h) = unat pool div unat bs"
    "avr_dirty h = Some d \<Longrightarrow> xram (heap_init_avr bs pool h) = xram h"
    "avr_dirty h = None \<Longrightarrow> image_ok (heap_init_avr bs pool h)"
proof -
  obtain h1 where h1: "heap_init_avr bs pool h = kmalloc_bitmap_write_avr h1" "avr_layout h1"
    "avr_bitmap h1 = Some (clear_buffer (avr_bitmap_size h1) f)"
    "avr_dirty h1 = map_option (clear_buffer (avr_bitmap_size h1)) (avr_dirty h)"
    "avr_block_size h1 = bs" "avr_pool_size h1 = pool" "avr_block_count h1 = pool div bs"
    "avr_heap_begin h1 = avr_heap_begin h" "xram h1 = xram h"
    by (rule heap_init_avr_config [OF assms])
  note w = bitmap_write_image [OF h1(2,3)]
  note p = image_written_props [OF h1(2,3) w]
  have "\<not> avr_used i h1" if "i < avr_cap h1" for i
    using avr_cap_bounds [OF h1(2) that] by (simp add: avr_used_bit [OF _ h1(3)] clear_buffer_def)
  then show "avr_inv (heap_init_avr bs pool h) Map.empty"
    using p by (simp add: h1(1) avr_inv_def alloc_inv_def covered_def)
  show "avr_cap (heap_init_avr bs pool h) = unat pool div unat bs"
    using p by (simp add: h1(1)) (simp add: avr_cap_def h1 unat_div_distrib)
  {
    assume d: "avr_dirty h = Some d"
    have "\<not> stale (avr_dirty h1) i" if "unat i < unat (avr_bitmap_size h1)" for i
      using that d h1(4) by (simp add: stale_def clear_buffer_def word_less_nat_alt)
    then show "xram (heap_init_avr bs pool h) = xram h"
      using h1(9) by (auto simp: h1(1) w image_written_def fun_eq_iff)
  }
  assume "avr_dirty h = None"
  then have "avr_dirty (heap_init_avr bs pool h) = None" using h1(4) by (simp add: h1(1) w image_written_def)
  then show "image_ok (heap_init_avr bs pool h)" by (simp add: image_ok_def stale_def)
qed

section \<open>Saving and loading\<close>

lemma bitmap_write_saves:
  assumes l: "avr_layout h" and ok: "image_ok h"
  defines "w \<equiv> kmalloc_bitmap_write_avr h"
  shows "avr_layout w" "avr_bitmap w = avr_bitmap h" "image_ok w"
    "b < unat (avr_bitmap_size h) \<Longrightarrow> Some (pool_byte w b) = map_option (\<lambda>f. f (of_nat b)) (avr_bitmap h)"
    "unat (avr_bitmap_size h) \<le> b \<Longrightarrow> b < unat (avr_pool_size h) \<Longrightarrow> pool_byte w b = pool_byte h b"
proof -
  obtain f where f: "avr_bitmap h = Some f" using l by (auto simp: avr_layout_def)
  note p = image_written_props [OF l f bitmap_write_image [OF l f], folded w_def]
  show "avr_layout w" "avr_bitmap w = avr_bitmap h" by (rule p)+
  have byte: "pool_byte w b = f (of_nat b)" if "b < unat (avr_bitmap_size h)" for b
    using that p(11) [of b] ok f bitmap_image_fits [OF l] by (auto simp: image_ok_def)
  then show "b < unat (avr_bitmap_size h) \<Longrightarrow> Some (pool_byte w b) = map_option (\<lambda>f. f (of_nat b)) (avr_bitmap h)"
    using f by simp
  show "image_ok w" using byte p(4,7) f by (simp add: image_ok_def)
  show "unat (avr_bitmap_size h) \<le> b \<Longrightarrow> b < unat (avr_pool_size h) \<Longrightarrow> pool_byte w b = pool_byte h b"
    using p(11) [of b] by simp
qed

lemma bitmap_read_bits:
  assumes l: "avr_layout h" and g: "avr_bitmap h = Some g"
    and byte: "\<And>b. b < unat (avr_bitmap_size h) \<Longrightarrow> pool_byte h b = f (of_nat b)"
  shows "avr_bitmap (kmalloc_bitmap_read_avr h) = Some (\<lambda>i. if i < avr_bitmap_size h then f i else g i)"
proof -
  have "mmio_readb (avr_heap_begin h + i) h = f i" if i: "i < avr_bitmap_size h" for i
  proof -
    have "unat i < unat (avr_pool_size h)" using i bitmap_image_fits [OF l] by (simp add: word_less_nat_alt)
    from pool_address(2) [OF l this] show ?thesis
      using byte [of "unat i"] i by (simp add: mmio_readb_def pool_byte_def word_less_nat_alt)
  qed
  then show ?thesis using g by (auto simp: kmalloc_bitmap_read_avr_def fun_eq_iff)
qed

section \<open>Payloads\<close>

lemma kmem_write_pool:
  assumes l: "avr_layout h"
  shows "a + n \<le> unat (avr_pool_size h) \<Longrightarrow> n \<le> length bs \<Longrightarrow>
    fold (\<lambda>i. kmem_write8 (of_nat a + of_nat i) (bs ! i)) [0..<n] h = pool_write a (take n bs) h"
proof (induction n)
  case 0
  then show ?case by (simp add: pool_write_def)
next
  case (Suc n)
  let ?h = "pool_write a (take n bs) h"
  have "kmem_write8 (of_nat (a + n)) (bs ! n) ?h = pool_write (a + n) [bs ! n] ?h"
    using Suc.prems l by (intro kmem_write8_pool) simp_all
  moreover have "length (take n bs) = n" using Suc.prems by simp
  ultimately show ?case
    using Suc pool_write_append [of a "take n bs" "[bs ! n]" h] by (simp add: take_Suc_conv_app_nth)
qed

lemma kmem_write_avr_pool:
  assumes "avr_layout h" "a + length bs \<le> unat (avr_pool_size h)"
  shows "kmem_write_avr (of_nat a) bs h = pool_write a bs h"
  using kmem_write_pool [OF assms order_refl] by (simp add: kmem_write_avr_def)

lemma kmem_read_avr_pool:
  assumes "avr_layout h" "a + unat n \<le> unat (avr_pool_size h)"
  shows "kmem_read_avr (of_nat a) n h = map (\<lambda>i. pool_byte h (a + i)) [0..<unat n]"
  using kmem_read8_pool [OF assms(1)] assms(2)
  by (simp add: kmem_read_avr_def flip: of_nat_add)

text \<open>A write inside the payload of an allocation keeps the invariant.\<close>

lemma payload_write_inv:
  assumes inv: "avr_inv h live" and live: "live k = Some z" and n: "i + length bs \<le> unat (ah_size z)"
  shows "avr_inv (pool_write (avr_offset k h + 8 + i) bs h) live"
proof -
  note l = avr_invD [OF inv]
  note f = avr_live_fits [OF inv live]
  let ?a = "avr_offset k h + 8 + i"
  have a: "?a + length bs \<le> unat (avr_pool_size h)" using f n by simp
  have hdr: "avr_header_at j (pool_write ?a bs h) = y" if j: "live j = Some y" for j y
  proof -
    have sep: "?a + length bs \<le> avr_offset j h \<or> avr_offset j h + 8 \<le> ?a"
    proof (cases "j = k")
      case False
      from alloc_inv_disjoint [OF l(2) j live this] show ?thesis
      proof
        assume "j + avr_blocks y h \<le> k"
        then show ?thesis using avr_offset_mono [of "j + avr_blocks y h" k h] avr_live_fits(1) [OF inv j] by simp
      next
        assume "k + avr_blocks z h \<le> j"
        then show ?thesis using avr_offset_mono [of "k + avr_blocks z h" j h] f(1) n by simp
      qed
    qed simp
    show ?thesis
      using avr_header_at_write(1) [OF l(1) avr_inv_live(6) [OF inv j] a sep] avr_inv_live(3) [OF inv j] by simp
  qed
  have "alloc_inv avr_cap avr_lo (\<lambda>i. block_is_used_avr (of_nat i)) avr_blocks avr_header_at (pool_write ?a bs h) live"
    using l(2) hdr unfolding alloc_inv_def covered_def by simp
  then show ?thesis using inv by (simp add: avr_inv_def)
qed

text \<open>Payloads of different allocations do not meet.\<close>

lemma payloads_apart:
  assumes inv: "avr_inv h live" and live: "live k = Some z" "live j = Some y" and ne: "j \<noteq> k"
  shows "avr_offset k h + 8 + unat (ah_size z) \<le> avr_offset j h \<or> avr_offset j h + 8 + unat (ah_size y) \<le> avr_offset k h"
  using alloc_inv_disjoint [OF avr_invD(2) [OF inv] live(1,2)] ne avr_live_fits(1) [OF inv live(1)]
    avr_live_fits(1) [OF inv live(2)] avr_offset_mono [of "k + avr_blocks z h" j h] avr_offset_mono [of "j + avr_blocks y h" k h]
  by fastforce

end
