(* ===== verification/AvrHeapClaims.thy ===== *)
theory AvrHeapClaims
  imports AvrHeapImage
begin

text \<open>What the AVR heap promises its callers, with an example heap of 128 blocks of 32 bytes.\<close>

section \<open>An example heap\<close>

definition avr_blank :: avr_heap where
  "avr_blank = \<lparr> avr_block_size = 0, avr_pool_size = 0, avr_block_count = 0, avr_bitmap_size = 0,
     avr_reserved_blocks = 0, avr_bitmap = Some (\<lambda>_. 0xFF), avr_dirty = None, avr_heap_begin = 0, xram = (\<lambda>_. 0xEE) \<rparr>"

definition avr_demo :: avr_heap where
  "avr_demo = heap_init_avr 32 4096 avr_blank"

lemma avr_demo_inv: "avr_inv avr_demo Map.empty" "avr_block_size avr_demo = 32" "image_ok avr_demo"
  "avr_layout avr_demo" "avr_cap avr_demo = 128" "avr_lo avr_demo = 1" "avr_pool_size avr_demo = 4096"
  "avr_dirty avr_demo = None"
proof -
  have f: "avr_bitmap avr_blank = Some (\<lambda>_. 0xFF)" by (simp add: avr_blank_def)
  have b: "8 \<le> unat (32 :: u32)" "(4096 :: u32) \<noteq> 0" "unat (avr_heap_begin avr_blank) + unat (4096 :: u32) \<le> 2 ^ 24"
    by (simp_all add: avr_blank_def)
  obtain h1 where h1: "heap_init_avr 32 4096 avr_blank = kmalloc_bitmap_write_avr h1" "avr_layout h1"
    "avr_bitmap h1 = Some (clear_buffer (avr_bitmap_size h1) (\<lambda>_. 0xFF))" "avr_block_size h1 = 32" "avr_pool_size h1 = 4096"
    "avr_dirty h1 = map_option (clear_buffer (avr_bitmap_size h1)) (avr_dirty avr_blank)"
    "avr_reserved_blocks h1 = ((4096 div 32 + 7) div 8 + 32 - 1) div 32"
    by (rule heap_init_avr_config [OF b f])
  show inv: "avr_inv avr_demo Map.empty" and "avr_cap avr_demo = 128"
    using heap_init_avr_inv(1,2) [OF b f] by (simp_all add: avr_demo_def)
  show "image_ok avr_demo"
    using heap_init_avr_inv(4) [OF b f] by (simp add: avr_demo_def) (simp add: avr_blank_def)
  show "avr_layout avr_demo" using inv by (simp add: avr_inv_def)
  show "avr_block_size avr_demo = 32" "avr_pool_size avr_demo = 4096" "avr_lo avr_demo = 1" "avr_dirty avr_demo = None"
    using h1(4-7) bitmap_write_image [OF h1(2,3)]
    by (simp_all add: avr_demo_def h1(1) image_written_def avr_lo_def) (simp add: avr_blank_def)
qed

lemma avr_demo_free: "1 \<le> i \<Longrightarrow> i < 128 \<Longrightarrow> \<not> avr_used i avr_demo"
  using alloc_inv_used [OF avr_invD(2) [OF avr_demo_inv(1)], of i] avr_demo_inv(5,6) by (simp add: covered_def)

lemma avr_demo_not_full: "\<not> avr_full 2 avr_demo"
  unfolding avr_full_def using avr_demo_free avr_demo_inv(5,6) by (auto simp: free_run_def intro!: exI [of _ 1])

text \<open>So an allocation of 40 bytes succeeds.\<close>

lemma avr_demo_fits:
  "(40 :: u32) \<noteq> 0" "unat (40 :: u32) + 8 + (unat (avr_block_size avr_demo) - 1) < 2 ^ 32"
  "avr_blocks (avr_fresh_header 40) avr_demo = 2"
  by (simp_all add: avr_demo_inv avr_blocks_def avr_fresh_header_def ceil_div_def)

lemma avr_demo_alloc:
  obtains k h' where "kmalloc_avr 40 avr_demo = (avr_payload k avr_demo, h')"
    "avr_inv h' [k \<mapsto> avr_fresh_header 40]" "avr_payload k avr_demo = avr_payload k h'" "avr_lo avr_demo \<le> k"
    "k + 2 \<le> 128" "avr_rest h' = avr_rest (pool_write (avr_offset k avr_demo) (avr_header_bytes (avr_fresh_header 40)) avr_demo)"
proof (rule kmalloc_avr_full [OF avr_demo_inv(1) avr_demo_fits(1,2)])
  assume "avr_full (avr_blocks (avr_fresh_header 40) avr_demo) avr_demo"
  then show thesis using avr_demo_not_full by (simp add: avr_demo_fits(3))
next
  fix k h'
  assume a: "kmalloc_avr 40 avr_demo = (avr_payload k avr_demo, h')" "avr_inv h' [k \<mapsto> avr_fresh_header 40]"
    "avr_lo avr_demo \<le> k" "k + avr_blocks (avr_fresh_header 40) avr_demo \<le> avr_cap avr_demo"
    "avr_rest h' = avr_rest (pool_write (avr_offset k avr_demo) (avr_header_bytes (avr_fresh_header 40)) avr_demo)"
  have "avr_payload k avr_demo = avr_payload k h'" using avr_restD(1) [OF a(5)] by (simp add: avr_payload_def)
  then show thesis using that [of k h'] a by (simp add: avr_demo_fits(3) avr_demo_inv)
qed

section \<open>Allocation and release\<close>




text \<open>
  C16: The AVR \<open>kfree\<close> of a live allocation clears exactly its blocks and its header, and leaves the other
  allocations and the rest of external memory alone; freeing it again is then ignored.
\<close>
theorem kfree_avr_correct:
  assumes "avr_inv h live" "live k = Some z"
  shows "let h' = kfree_avr (avr_payload k h) h
    in avr_inv h' (live(k := None))
       \<and> avr_rest h' = avr_rest (pool_write (avr_offset k h) (avr_header_bytes dead_header) h)
       \<and> {i. i < avr_cap h \<and> avr_used i h'} = {i. i < avr_cap h \<and> avr_used i h} - {k..<k + avr_blocks z h}
       \<and> \<not> kmalloc_is_valid_avr (avr_payload k h) h' \<and> kfree_avr (avr_payload k h) h' = h'"
proof -
  let ?h' = "kfree_avr (avr_payload k h) h"
  note f = kfree_avr_full [OF assms]
  have bs: "avr_block_size ?h' = avr_block_size h" using avr_restD(1) [OF f(3)] by simp
  have "header_read_avr (avr_payload k h - AVR_HEADER_SIZE) ?h' = dead_header"
    using f(2) bs by (simp add: avr_header_at_def avr_payload_def)
  then have inv: "\<not> kmalloc_is_valid_avr (avr_payload k h) ?h'" by (rule invalid_no_magic)
  have "{i. i < avr_cap h \<and> avr_used i ?h'} = {i. i < avr_cap h \<and> avr_used i h} - {k..<k + avr_blocks z h}"
    using f(4) by auto
  then show ?thesis using f(1,3) inv kfree_avr_invalid [OF inv] by (simp add: Let_def)
qed

theorem kfree_avr_correct_witness:
  "let (p, h) = kmalloc_avr 40 avr_demo; h' = kfree_avr p h
   in avr_inv h' Map.empty \<and> kfree_avr p h' = h'"
proof (rule avr_demo_alloc)
  fix k h
  assume a: "kmalloc_avr 40 avr_demo = (avr_payload k avr_demo, h)" "avr_inv h [k \<mapsto> avr_fresh_header 40]"
    "avr_payload k avr_demo = avr_payload k h"
  have "[k \<mapsto> avr_fresh_header 40] k = Some (avr_fresh_header 40)" by simp
  moreover have e: "[k \<mapsto> avr_fresh_header 40](k := None) = Map.empty" by (auto simp: fun_eq_iff)
  ultimately show ?thesis using kfree_avr_correct [OF a(2), unfolded Let_def, of k] a(1,3) by (simp add: Let_def e del: fun_upd_apply)
qed

section \<open>Enumeration\<close>

text \<open>
  \<open>kmalloc_next\<close> enumerates the live allocations in the order of their addresses: from NULL it returns
  the first, from an allocation the next one, and NULL when there is none.
\<close>
theorem kmalloc_next_avr_correct:
  assumes "avr_inv h live" "live k = Some z"
  shows "avr_next_spec h live 0 (kmalloc_next_avr AVR_NULL h)
    \<and> avr_next_spec h live (Suc k) (kmalloc_next_avr (avr_payload k h) h)"
  using kmalloc_next_avr_first [OF assms(1)] kmalloc_next_avr_next [OF assms] by simp

theorem kmalloc_next_avr_correct_witness:
  "let (p, h) = kmalloc_avr 40 avr_demo in kmalloc_next_avr AVR_NULL h = p \<and> kmalloc_next_avr p h = AVR_NULL"
proof (rule avr_demo_alloc)
  fix k h
  assume a: "kmalloc_avr 40 avr_demo = (avr_payload k avr_demo, h)" "avr_inv h [k \<mapsto> avr_fresh_header 40]"
    "avr_payload k avr_demo = avr_payload k h"
  have "[k \<mapsto> avr_fresh_header 40] k = Some (avr_fresh_header 40)" by simp
  from kmalloc_next_avr_correct [OF a(2) this] show ?thesis
    using a(1,3) by (auto simp: avr_next_spec_def Let_def split: if_splits)
qed

section \<open>Payloads\<close>

text \<open>
  What a client writes inside its payload with \<open>kmem_write\<close> is read back by \<open>kmem_read\<close>, keeps the
  heap intact and is not seen through any other payload.
\<close>
theorem avr_payload_isolated:
  assumes "avr_inv h live" "live k = Some z" "live j = Some y" "j \<noteq> k"
    and "i + length bs \<le> unat (ah_size z)" "unat o' + unat n \<le> unat (ah_size y)"
  shows "let h' = kmem_write_avr (avr_payload k h + of_nat i) bs h
    in avr_inv h' live \<and> kmem_read_avr (avr_payload k h + of_nat i) (of_nat (length bs)) h' = bs
       \<and> kmem_read_avr (avr_payload j h + o') n h' = kmem_read_avr (avr_payload j h + o') n h"
proof -
  note l = avr_invD(1) [OF assms(1)]
  note f = avr_live_fits [OF assms(1,2)] and g = avr_live_fits [OF assms(1,3)]
  let ?a = "avr_offset k h + 8 + i" and ?b = "avr_offset j h + 8 + unat o'"
  have ak: "avr_payload k h + of_nat i = of_nat ?a" and bj: "avr_payload j h + o' = of_nat ?b"
    by (simp_all add: avr_payload_def avr_offset_word AVR_HEADER_SIZE_def)
  have a: "?a + length bs \<le> unat (avr_pool_size h)" and b: "?b + unat n \<le> unat (avr_pool_size h)"
    using f g assms(5,6) by simp_all
  let ?h' = "pool_write ?a bs h"
  have w: "kmem_write_avr (avr_payload k h + of_nat i) bs h = ?h'"
    unfolding ak by (rule kmem_write_avr_pool [OF l a])
  have len: "unat (of_nat (length bs) :: u32) = length bs"
    using a unat_u32_less [of "avr_pool_size h"] by (intro unat_of_nat_u32) simp
  have "kmem_read_avr (of_nat ?a) (of_nat (length bs)) ?h' = map (\<lambda>m. pool_byte ?h' (?a + m)) [0..<length bs]"
    using kmem_read_avr_pool [of ?h' ?a "of_nat (length bs)"] l a len by simp
  also have "\<dots> = bs"
    using a by (intro nth_equalityI) (simp_all add: pool_write_byte [OF l a])
  finally have own: "kmem_read_avr (of_nat ?a) (of_nat (length bs)) ?h' = bs" .
  have "pool_byte ?h' (?b + m) = pool_byte h (?b + m)" if "m < unat n" for m
    using payloads_apart [OF assms(1-4)] assms(5,6) that b by (subst pool_write_byte [OF l a]) auto
  then have other: "kmem_read_avr (of_nat ?b) n ?h' = kmem_read_avr (of_nat ?b) n h"
    using kmem_read_avr_pool [of ?h' ?b n] kmem_read_avr_pool [OF l b] l b by simp
  show ?thesis
    using payload_write_inv [OF assms(1,2,5)] own other unfolding Let_def w unfolding ak bj by simp
qed

section \<open>The image of the bitmap\<close>

text \<open>
  C17: Saving the bitmap and loading it again: when the clean bytes of the image agree with the bitmap,
  \<open>kmalloc_bitmap_write\<close> leaves an exact image, touches nothing behind it, and \<open>kmalloc_bitmap_read\<close> into
  any other buffer brings every bit back.
\<close>
theorem avr_bitmap_roundtrip:
  assumes "avr_layout h" "image_ok h"
  shows "let w = kmalloc_bitmap_write_avr h
    in avr_layout w \<and> image_ok w \<and> avr_bitmap w = avr_bitmap h
       \<and> {b. b < unat (avr_pool_size h) \<and> pool_byte w b \<noteq> pool_byte h b} \<subseteq> {..<unat (avr_bitmap_size h)}
       \<and> {i. i < avr_cap h \<and> avr_used i (kmalloc_bitmap_read_avr (w\<lparr>avr_bitmap := Some g\<rparr>))}
         = {i. i < avr_cap h \<and> avr_used i h}"
proof -
  let ?w = "kmalloc_bitmap_write_avr h"
  let ?v = "?w\<lparr>avr_bitmap := Some g\<rparr>"
  note s = bitmap_write_saves [OF assms]
  obtain f where f: "avr_bitmap h = Some f" using assms(1) by (auto simp: avr_layout_def)
  note p = image_written_props [OF assms(1) f bitmap_write_image [OF assms(1) f]]
  have lv: "avr_layout ?v" using s(1) by (simp add: avr_layout_def)
  have byte: "pool_byte ?v b = f (of_nat b)" if "b < unat (avr_bitmap_size ?v)" for b
    using s(4) [of b] that f p(7) by (simp add: pool_byte_def)
  have g: "avr_bitmap ?v = Some g" by simp
  note r = bitmap_read_bits [OF lv g byte]
  have bits: "avr_used i (kmalloc_bitmap_read_avr ?v) = avr_used i h" if i: "i < avr_cap h" for i
  proof -
    note c = avr_cap_bounds [OF assms(1) i]
    show ?thesis using avr_used_bit [OF c(1) r] avr_used_bit [OF c(1) f] c(2) p(7) by simp
  qed
  have "{b. b < unat (avr_pool_size h) \<and> pool_byte ?w b \<noteq> pool_byte h b} \<subseteq> {..<unat (avr_bitmap_size h)}"
    using s(5) by (auto simp: not_less [symmetric])
  then show ?thesis using s(1-3) bits by (auto simp: Let_def)
qed

theorem avr_bitmap_roundtrip_witness:
  "let h = snd (kmalloc_avr 40 avr_demo); w = kmalloc_bitmap_write_avr h
   in image_ok w \<and> {i. i < 128 \<and> avr_used i (kmalloc_bitmap_read_avr (w\<lparr>avr_bitmap := Some (\<lambda>_. 0xAB)\<rparr>))}
        = {i. i < 128 \<and> avr_used i h}"
proof (rule avr_demo_alloc)
  fix k h
  assume a: "kmalloc_avr 40 avr_demo = (avr_payload k avr_demo, h)" "avr_inv h [k \<mapsto> avr_fresh_header 40]"
    "avr_rest h = avr_rest (pool_write (avr_offset k avr_demo) (avr_header_bytes (avr_fresh_header 40)) avr_demo)"
  have "avr_dirty h = None" using avr_restD(9) [OF a(3)] avr_demo_inv(8) by simp
  then have ok: "image_ok h" by (simp add: image_ok_def stale_def)
  have "avr_cap h = 128" using avr_rest_config(2) [OF a(3)] avr_demo_inv(5) by simp
  then show ?thesis
    using avr_bitmap_roundtrip [OF avr_invD(1) [OF a(2)] ok, of "\<lambda>_. 0xAB"] a(1) by (simp add: Let_def)
qed

end
