(* ===== verification/Spec2Isabelle.thy ===== *)
theory Spec2Isabelle
  imports CString CNumber KHeapOps FsFormat SchedLife MutexProps X4Props RegistryProps KMath ProcessProps FsDirSpec MallocClaims AvrHeapClaims
begin

text \<open>
  A verification library for the kernel under \<open>src/kernel\<close>: a small operating system for x86 (with AVR
  and Raspberry Pi variants) with a heap, a thread scheduler, processes, a block file system with its
  own sector cache, a registry, and an emulator for its X4 byte code. The library models the code that
  decides the kernel's correctness as executable definitions, function by function, and proves what
  each component promises to its clients.

  \<^bold>\<open>Parts, and how they meet.\<close> String and number routines serve every other part. The memory
  manager turns physical frames into virtual pages, which the slab allocator carves into the blocks of
  \<open>malloc\<close>. The kernel heap hands out memory blocks; the scheduler and the process table take their thread blocks from it. The
  scheduler switches threads on the timer interrupt; events, mutexes and the VFS lock block and wake
  its threads. The process table creates threads and page directories and kills threads through the
  scheduler's own data. A device of the file system stands on a bitmap, the bitmap on a one-sector
  cache, the cache on a drive. The registry serialises its tree to a file. The X4 machine runs guest
  programs in its own memory.

  \<^bold>\<open>Theories.\<close> \<open>Prelude\<close>: word arithmetic over \<open>nat\<close>, little-endian encoding, byte memory.

  \<^item> \<open>CString\<close>, \<open>CNumber\<close> (\<open>util/string.c\<close>): every string, memory and number function over byte lists;
    overlap of \<open>memmove\<close>, bounds of \<open>strlcat\<close>, decimal round trips, and a closed form of each function.
  \<^item> \<open>Parser\<close> (\<open>util/parser.c\<close>, \<open>util/tok.c\<close>): path splitting, in-place replacement, the tokenizer against
    its specification \<open>split_tokens\<close>.
  \<^item> \<open>KMath\<close> (\<open>util/math.c\<close>, \<open>util/div6432.c\<close>, \<open>util/random.c\<close>): integer square root, powers, angles, 64-bit
    division against \<open>div\<close> and \<open>mod\<close>.
  \<^item> \<open>FirstFit\<close>, \<open>BlockAlloc\<close>: the interfaces shared by the block allocators. The locale \<open>bit_store\<close> is a
    bitmap of used blocks; \<open>block_alloc\<close> extends it by in-band headers. The invariant \<open>alloc_inv\<close>
    relates bitmap and headers to a ghost map of live allocations; allocation and release are proved
    once, inside the locales.
  \<^item> \<open>KHeap\<close>, \<open>KHeapInv\<close>, \<open>KHeapOps\<close> (\<open>arch/x86/heap.c\<close>): the kernel heap over byte memory, an
    interpretation of \<open>bit_store\<close>; \<open>kmalloc\<close>, \<open>kfree\<close>, \<open>kmalloc_next\<close>, the setters, \<open>heap_init\<close>.
  \<^item> \<open>AvrHeap\<close>, \<open>AvrHeapInv\<close>, \<open>AvrHeapOps\<close>, \<open>AvrHeapImage\<close>, \<open>AvrHeapClaims\<close> (\<open>arch/avr/heap.c\<close>): the heap of
    the AVR build, an interpretation of \<open>block_alloc\<close> whose ghost map holds whole headers; allocation, release,
    header fields, enumeration, and the image of the bitmap in external memory.
  \<^item> \<open>Vmm\<close>, \<open>VmmInv\<close>, \<open>VmmProps\<close>, \<open>VmmSpec\<close>, \<open>VmmBoot\<close>, \<open>VmmSystem\<close>, \<open>VmmClaims\<close> (\<open>arch/x86/virtual/pmm.c\<close>,
    \<open>vmm.c\<close>): frames, page tables and the window of virtual pages; both bitmaps interpret \<open>bit_store\<close>.
    \<open>vm_inv\<close> relates the tables to the ghost map from live pages to frames; start-up from the memory map,
    outcomes of allocation and release, device regions, translation both ways, and isolation in every
    history (\<open>vm_history\<close>).
  \<^item> \<open>Slab\<close>, \<open>SlabMem\<close>, \<open>SlabInv\<close>, \<open>SlabProps\<close>, \<open>SlabStep\<close>, \<open>SlabOps\<close>, \<open>Malloc\<close>, \<open>MallocSpec\<close>, \<open>MallocClaims\<close>
    (\<open>arch/x86/slab.c\<close>, \<open>malloc.c\<close>): slab pages with free lists threaded through memory, size classes and
    large blocks; \<open>malloc_inv\<close> relates memory, caches and page allocator to a ghost map from pages to roles,
    \<open>blocks\<close> are the allocations in use, \<open>heap_history\<close> the histories with writes of the clients.
  \<^item> \<open>SectorCache\<close> (\<open>fs/basefs/backend/io_x86.c\<close>): the write-back window; \<open>dev_view\<close> is the abstract byte
    memory that the cache refines on a working drive, and what faults can and cannot lose.
  \<^item> \<open>FsBitmap\<close> (\<open>fs/basefs/bitmap.c\<close>), \<open>FsDevice\<close>, \<open>FsDeviceInv\<close>, \<open>FsFormat\<close> (\<open>fs/basefs/device.c\<close>): the
    framed bitmap, interpreted as a \<open>bit_store\<close>; the device allocator, interpreted as a \<open>block_alloc\<close>;
    formatting, opening and syncing.
  \<^item> \<open>FsStore\<close>: the device as a map \<open>store\<close> from live blocks to payload bytes, with the effect of reading,
    writing, allocating and freeing on it; the level at which files and directories are verified.
  \<^item> \<open>FsFile\<close>, \<open>FsFileRep\<close>, \<open>FsFileProps\<close>, \<open>FsFileSpec\<close> (\<open>fs/basefs/file.c\<close>): files as chains of extents;
    \<open>file_at\<close> relates a file to its contents, and reading, writing, resizing, creating and deleting are
    proved against operations on byte lists.
  \<^item> \<open>FsDirectory\<close>, \<open>FsDirRep\<close>, \<open>FsDirProps\<close>, \<open>FsDirRemove\<close>, \<open>FsDirTree\<close>, \<open>FsDirSpec\<close> (\<open>fs/basefs/directory.c\<close>,
    \<open>fs/basefs/cryptography.c\<close>): directories as arrays of addresses spread over a header and extents;
    \<open>dir_at\<close> relates a directory to its list of entries. Lookup, insertion, removal, search, creation, and
    recursive deletion over trees (\<open>node_at\<close>).
  \<^item> \<open>Sched\<close>, \<open>SchedInv\<close>, \<open>SchedProps\<close>, \<open>SchedLife\<close> (\<open>boot/x86/scheduler.c\<close>): threads, dynamic priorities,
    the timer handler, events; the invariant \<open>sched_ok\<close>, the choice of the next thread, fairness,
    reaping, FPU images, wakeups.
  \<^item> \<open>Mutex\<close>, \<open>MutexProps\<close> (\<open>boot/x86/mutex.c\<close>, \<open>vfs/vfs_lock.c\<close>): the lock as a step relation \<open>sys_step\<close> over
    all interleavings of the scheduler, with its invariant by rule induction.
  \<^item> \<open>Process\<close>, \<open>ProcessProps\<close> (\<open>scheduler/process.c\<close>): the process table, identifiers with generations,
    address spaces; \<open>proc_ok\<close>, outcomes of creation and destruction, histories as \<open>proc_steps\<close>.
  \<^item> \<open>X4\<close>, \<open>X4Machine\<close>, \<open>X4Props\<close> (\<open>emulation/x4\<close>): registers, every opcode, the interpreter loop, services.
  \<^item> \<open>Registry\<close>, \<open>RegistryProps\<close> (\<open>registry/registry.c\<close>): keys and values as trees, export and import as
    byte streams with an allocation budget.

  \<^bold>\<open>Conventions.\<close> A C struct is a record, a 32-bit integer a word; pointers are addresses into a byte
  memory, offsets into a byte list, or the numbers of the objects they point to. \<open>None\<close> as the outer
  result of a function is undefined behaviour of the C code (an access outside an object, signed
  overflow), so a theorem that a result is \<open>Some\<close> is one of memory safety. What \<open>malloc\<close> or
  \<open>vmm_alloc_pages\<close> return where they are called, the time, and the faults of a drive are arguments or
  unconstrained parts of the state. Every function that runs with interrupts disabled is one atomic
  step.

  \<^bold>\<open>Bounds and fuel.\<close> Loops are structural or have a termination proof, with these exceptions:
  \<open>fs_get_used_bytes\<close> takes fuel of one more than the sectors of the pool, which suffices because every
  round adds a sector; \<open>all_tokens\<close> takes the length of the buffer, proved sufficient by
  \<open>tokenizer_splits\<close>; \<open>x4_loop\<close> counts the instructions of a time slice as the code does; a registry
  import has \<open>REGISTRY_MAX_DEPTH + 1\<close> levels, the bound the code checks. The chains of a file are walked
  without a bound in the source: \<open>delete_loop\<close>, \<open>free_chain\<close>, \<open>read_loop\<close> and their like are partial functions,
  whose \<open>None\<close> is an endless walk or undefined behaviour, and the properties prove that they return on
  every well-formed file. Directory chains are walked with the code's own limit, the number of blocks,
  proved sufficient by \<open>dir_walk_limit\<close>; \<open>recursive_loop\<close> counts the steps of the code, proved sufficient by
  \<open>cost_roots\<close>. Growth of a file needs sectors of more than 16 bytes, since a smaller extent would hold
  no data.

  \<^bold>\<open>Not modelled.\<close> Device drivers, bus access, interrupt entry and boot code read and write hardware
  registers; the window manager, its programs and the console draw on a frame buffer; both have no
  specification beyond the calls they make. Floating-point functions are x87 assembly. The VFS nodes,
  the resource manager and the rest of the AVR port are left out.
\<close>

end
